(* ===== verification/Prelude.thy ===== *)
theory Prelude
  imports Main "HOL-Library.Word" "HOL-Library.Signed_Division"
begin

text \<open>
  Shared vocabulary of the development: C integers, C strings, the loop idioms that the code
  repeats (search a table for the first entry with a property), byte strings, and the lemma
  collections the component theories add to.
\<close>

named_theorems wf_intros \<open>facts that establish well-formedness of a new state\<close>
named_theorems frame \<open>fields that an operation leaves alone\<close>

section \<open>Machine integers\<close>

type_synonym byte = "8 word"
type_synonym u32 = "32 word"
type_synonym u64 = "64 word"

text \<open>
  A C \<open>int\<close> is an \<open>int\<close> in the 32-bit range. Where a value the user supplies enters an
  addition or a multiplication, the result is reduced to 32 bits by \<open>i32\<close>, as the compiled
  two's complement arithmetic does. Division truncates towards zero (\<open>sdiv\<close>).
\<close>

definition i32 :: "int \<Rightarrow> int" where
  "i32 x = signed_take_bit 31 x"

definition in_i32 :: "int \<Rightarrow> bool" where
  "in_i32 x \<longleftrightarrow> - (2 ^ 31) \<le> x \<and> x < 2 ^ 31"

lemma i32_id [simp]: "in_i32 x \<Longrightarrow> i32 x = x"
  by (simp add: i32_def in_i32_def signed_take_bit_int_eq_self)

lemma i32_in [simp]: "in_i32 (i32 x)"
  using signed_take_bit_int_greater_eq_minus_exp [of 31 x]
    signed_take_bit_int_less_exp [of 31 x]
  by (simp add: i32_def in_i32_def)

lemma in_i32I: "- 2147483648 \<le> x \<Longrightarrow> x < 2147483648 \<Longrightarrow> in_i32 x"
  by (simp add: in_i32_def)

lemma in_i32_bounds: "in_i32 x \<longleftrightarrow> - 2147483648 \<le> x \<and> x < 2147483648"
  by (simp add: in_i32_def)

lemma i32_small: "0 \<le> x \<Longrightarrow> x < 2147483648 \<Longrightarrow> i32 x = x"
  by (simp add: in_i32_bounds)

lemma sdiv_nonneg: "0 \<le> (a::int) \<Longrightarrow> 0 < b \<Longrightarrow> a sdiv b = a div b"
  by (cases "a = 0") (simp_all add: signed_divide_int_def sgn_if)

section \<open>Searching a table\<close>

text \<open>
  The idiom \<open>for (i = 0; i < N; i++) if (P(t[i])) { idx = i; break; }\<close>: the index of the first
  entry with the property, if there is one.
\<close>

primrec first_index :: "('a \<Rightarrow> bool) \<Rightarrow> 'a list \<Rightarrow> nat option" where
  "first_index P [] = None"
| "first_index P (x # xs) = (if P x then Some 0 else map_option Suc (first_index P xs))"

lemma first_index_None: "first_index P xs = None \<longleftrightarrow> (\<forall>x \<in> set xs. \<not> P x)"
  by (induction xs) auto

lemma first_index_Some:
  "first_index P xs = Some i \<longleftrightarrow> i < length xs \<and> P (xs ! i) \<and> (\<forall>j < i. \<not> P (xs ! j))"
proof (induction xs arbitrary: i)
  case (Cons x xs)
  show ?case
    by (cases i) (auto simp: Cons.IH less_Suc_eq_0_disj)
qed simp

lemma first_index_SomeD:
  assumes "first_index P xs = Some i"
  shows "i < length xs" "P (xs ! i)" "\<And>j. j < i \<Longrightarrow> \<not> P (xs ! j)"
  using assms by (simp_all add: first_index_Some)

lemma first_index_SomeI:
  assumes "i < length xs" "P (xs ! i)"
  obtains k where "first_index P xs = Some k" "k \<le> i"
proof (cases "first_index P xs")
  case None
  with assms show ?thesis by (auto simp: first_index_None)
next
  case (Some k)
  with assms(2) have "k \<le> i" by (auto simp: first_index_Some not_less)
  with Some show ?thesis by (rule that)
qed

lemma first_index_unique:
  assumes "i < length xs" "P (xs ! i)" "\<And>j. j < length xs \<Longrightarrow> P (xs ! j) \<Longrightarrow> j = i"
  shows "first_index P xs = Some i"
  using assms by (metis first_index_SomeI first_index_SomeD(1,2))

section \<open>C strings\<close>

text \<open>
  A fixed-size character array that is written only by \<open>strncpy(dst, src, n)\<close> with the last
  byte left zero holds the first \<open>n\<close> characters of the source: the array is modelled by the
  string it holds.
\<close>

definition strncpy_n :: "nat \<Rightarrow> string \<Rightarrow> string" where
  "strncpy_n n src = take n src"

lemma length_strncpy_n [simp]: "length (strncpy_n n s) \<le> n"
  by (simp add: strncpy_n_def)

lemma strncpy_n_id [simp]: "length s \<le> n \<Longrightarrow> strncpy_n n s = s"
  by (simp add: strncpy_n_def)

text \<open>A character as the byte it occupies, and back.\<close>

definition byte_of_char :: "char \<Rightarrow> byte" where
  "byte_of_char c = word_of_int (of_char c)"

definition char_of_byte :: "byte \<Rightarrow> char" where
  "char_of_byte b = char_of (uint b)"

lemma char_of_byte_of_char [simp]: "char_of_byte (byte_of_char c) = c"
  by (simp add: char_of_byte_def byte_of_char_def uint_word_of_int)

lemma byte_of_char_inject [simp]: "byte_of_char c = byte_of_char d \<longleftrightarrow> c = d"
  by (metis char_of_byte_of_char)

lemma char_of_byte_0 [simp]: "char_of_byte 0 = CHR 0x00"
  by (simp add: char_of_byte_def char_of_def)

lemma byte_of_char_0 [simp]: "byte_of_char (CHR 0x00) = 0"
  by (simp add: byte_of_char_def)

lemma byte_of_char_eq_0 [simp]: "byte_of_char c = 0 \<longleftrightarrow> c = CHR 0x00"
  by (metis byte_of_char_0 char_of_byte_of_char)

section \<open>Lists\<close>

lemma nth_list_update_cases: "i < length xs \<Longrightarrow> xs[i := v] ! j = (if i = j then v else xs ! j)"
  by (simp add: nth_list_update)

lemma set_list_update_cases: "x \<in> set (xs[i := v]) \<Longrightarrow> x = v \<or> x \<in> set xs"
  by (metis in_set_conv_nth length_list_update nth_list_update_eq nth_list_update_neq)

lemma sum_list_update_int:
  "i < length xs \<Longrightarrow> sum_list (map f (xs[i := v])) = sum_list (map f xs) - f (xs ! i) + (f v :: int)"
  by (induction xs arbitrary: i) (auto split: nat.splits)

section \<open>Little endian\<close>

primrec enc_le :: "nat \<Rightarrow> int \<Rightarrow> byte list" where
  "enc_le 0 x = []"
| "enc_le (Suc k) x = word_of_int x # enc_le k (x div 256)"

primrec dec_le :: "byte list \<Rightarrow> int" where
  "dec_le [] = 0"
| "dec_le (b # bs) = uint b + 256 * dec_le bs"

lemma length_enc_le [simp]: "length (enc_le k x) = k"
  by (induction k arbitrary: x) auto

lemma dec_enc_le: "dec_le (enc_le k x) = x mod 256 ^ k"
proof (induction k arbitrary: x)
  case (Suc k)
  have "x mod 256 + 256 * (x div 256 mod 256 ^ k) = x mod (256 * 256 ^ k)"
    using zmod_zmult2_eq [of "256 ^ k" x 256] by simp
  then show ?case by (simp add: Suc.IH uint_word_of_int)
qed simp

end
