(* ===== verification/MyFS_Types.thy ===== *)
theory MyFS_Types
  imports Prelude
begin

text \<open>
  The data of the user-level file system \<open>File-System/filesystem.h\<close> and the static variables
  of \<open>File-System/filesystem.c\<close>: users, groups, the superblock, the file table, the list of free
  regions, the descriptor table and the disk file.
\<close>

section \<open>Constants\<close>

abbreviation DISK_SIZE :: int where "DISK_SIZE \<equiv> 10485760"
abbreviation BLOCK_SIZE :: int where "BLOCK_SIZE \<equiv> 512"
abbreviation TOTAL_BLOCKS :: int where "TOTAL_BLOCKS \<equiv> 20480"
abbreviation MAX_FILENAME :: nat where "MAX_FILENAME \<equiv> 32"
abbreviation MAX_USERNAME :: nat where "MAX_USERNAME \<equiv> 32"
abbreviation MAX_GROUPNAME :: nat where "MAX_GROUPNAME \<equiv> 32"
abbreviation MAX_FILES :: nat where "MAX_FILES \<equiv> 100"
abbreviation MAX_USERS :: nat where "MAX_USERS \<equiv> 50"
abbreviation MAX_GROUPS :: nat where "MAX_GROUPS \<equiv> 50"
abbreviation MAX_GROUPS_PER_USER :: nat where "MAX_GROUPS_PER_USER \<equiv> 10"
abbreviation MAGIC_NUMBER :: u32 where "MAGIC_NUMBER \<equiv> 0xDEADBEEF"
abbreviation PERM_READ :: u32 where "PERM_READ \<equiv> 4"
abbreviation PERM_WRITE :: u32 where "PERM_WRITE \<equiv> 2"
abbreviation PERM_EXEC :: u32 where "PERM_EXEC \<equiv> 1"

lemma total_blocks_eq: "DISK_SIZE div BLOCK_SIZE = TOTAL_BLOCKS"
  by simp

section \<open>Structs\<close>

text \<open>
  A character array of 32 bytes is the string it holds: every write to one is a \<open>strncpy\<close> of at
  most 31 bytes (or the literal ``root''), so byte 31 stays zero. Times (\<open>time_t\<close>) are 64-bit.
\<close>

record User =
  u_uid :: int
  u_username :: string
  u_primary_gid :: int
  u_groups :: "int list"
  u_group_count :: int
  u_is_active :: int

record Group =
  g_gid :: int
  g_groupname :: string
  g_is_active :: int

record SuperBlock =
  sb_magic :: u32
  sb_version :: int
  sb_file_count :: int
  sb_total_blocks :: int
  sb_used_blocks :: int
  sb_first_free_block :: int

record FileEntry =
  fe_name :: string
  fe_size :: int
  fe_start_block :: int
  fe_block_count :: int
  fe_permissions :: u32
  fe_owner_uid :: int
  fe_group_gid :: int
  fe_create_time :: int
  fe_modify_time :: int
  fe_is_used :: int

text \<open>
  The linked list of free regions owns its nodes (each is reached from one place only), so it is
  the list of its nodes; \<open>fb_end\<close> is the last block of the region.
\<close>

record FreeBlockNode =
  fb_start :: int
  fb_end :: int

text \<open>
  The C library's \<open>FILE\<close> on the disk image: its bytes, its length and its position. A byte past
  the end has no meaning.
\<close>

record FILE =
  f_bytes :: "nat \<Rightarrow> byte"
  f_len :: nat
  f_pos :: nat

record myfs =
  disk_file :: FILE
  super_block :: SuperBlock
  file_table :: "FileEntry list"
  free_list :: "FreeBlockNode list"
  open_files :: "int list"
  user_table :: "User list"
  group_table :: "Group list"
  current_uid :: int

text \<open>What \<open>memset(table, 0, sizeof(table))\<close> leaves in one entry.\<close>

definition zero_User :: User where
  "zero_User = \<lparr>u_uid = 0, u_username = [], u_primary_gid = 0,
     u_groups = replicate MAX_GROUPS_PER_USER 0, u_group_count = 0, u_is_active = 0\<rparr>"

definition zero_Group :: Group where
  "zero_Group = \<lparr>g_gid = 0, g_groupname = [], g_is_active = 0\<rparr>"

definition zero_FileEntry :: FileEntry where
  "zero_FileEntry = \<lparr>fe_name = [], fe_size = 0, fe_start_block = 0, fe_block_count = 0,
     fe_permissions = 0, fe_owner_uid = 0, fe_group_gid = 0, fe_create_time = 0,
     fe_modify_time = 0, fe_is_used = 0\<rparr>"

section \<open>Standard input and output on the disk file\<close>

text \<open>
  \<open>fseek(f, off, SEEK_SET)\<close> fails for a negative offset and leaves the position; \<open>fread\<close> stops
  at the end of the file; \<open>fwrite\<close> extends the file and fills a gap with zeros. A short write
  (the host's disk is full) is not modelled.
\<close>

definition fseek :: "int \<Rightarrow> FILE \<Rightarrow> FILE" where
  "fseek off f = (if off < 0 then f else f\<lparr>f_pos := nat off\<rparr>)"

definition fread :: "nat \<Rightarrow> FILE \<Rightarrow> byte list \<times> FILE" where
  "fread n f = (let k = min n (f_len f - f_pos f) in
     (map (f_bytes f) [f_pos f..<f_pos f + k], f\<lparr>f_pos := f_pos f + k\<rparr>))"

definition fwrite :: "byte list \<Rightarrow> FILE \<Rightarrow> FILE" where
  "fwrite bs f = (if bs = [] then f else
     f\<lparr>f_bytes := (\<lambda>i. if f_pos f \<le> i \<and> i < f_pos f + length bs then bs ! (i - f_pos f)
                     else if f_len f \<le> i then 0 else f_bytes f i),
       f_len := max (f_len f) (f_pos f + length bs),
       f_pos := f_pos f + length bs\<rparr>)"

lemma fwrite_len [simp]: "f_len (fwrite bs f) = (if bs = [] then f_len f else max (f_len f) (f_pos f + length bs))"
  by (simp add: fwrite_def)

lemma fwrite_pos [simp]: "f_pos (fwrite bs f) = f_pos f + length bs"
  by (simp add: fwrite_def)

lemma fwrite_bytes_in:
  "f_pos f \<le> i \<Longrightarrow> i < f_pos f + length bs \<Longrightarrow> f_bytes (fwrite bs f) i = bs ! (i - f_pos f)"
  by (auto simp: fwrite_def)

lemma fwrite_bytes_out:
  "i < f_len f \<Longrightarrow> i < f_pos f \<or> f_pos f + length bs \<le> i \<Longrightarrow> f_bytes (fwrite bs f) i = f_bytes f i"
  by (auto simp: fwrite_def)

lemma fread_fwrite:
  assumes "f_pos f = p" "bs \<noteq> []"
  shows "fst (fread (length bs) ((fwrite bs f)\<lparr>f_pos := p\<rparr>)) = bs"
  using assms
  by (auto simp: fread_def fwrite_def Let_def intro!: nth_equalityI)

lemma fseek_fields [simp]:
  "f_bytes (fseek off f) = f_bytes f" "f_len (fseek off f) = f_len f"
  "0 \<le> off \<Longrightarrow> f_pos (fseek off f) = nat off"
  by (simp_all add: fseek_def)

lemma fread_fields [simp]:
  "f_bytes (snd (fread n f)) = f_bytes f" "f_len (snd (fread n f)) = f_len f"
  by (simp_all add: fread_def Let_def)

lemma fwrite_Nil [simp]: "fwrite [] f = f"
  by (simp add: fwrite_def)

lemma fwrite_append: "fwrite cs (fwrite bs f) = fwrite (bs @ cs) f"
proof (cases "bs = [] \<or> cs = []")
  case False
  have "f_bytes (fwrite cs (fwrite bs f)) = f_bytes (fwrite (bs @ cs) f)"
    using False by (intro ext) (auto simp: fwrite_def nth_append)
  moreover have "FILE.more (fwrite cs (fwrite bs f)) = FILE.more (fwrite (bs @ cs) f)" by simp
  ultimately show ?thesis using False by (intro FILE.equality) auto
qed auto

text \<open>A file that holds a byte string from position 0.\<close>

definition file_starts_with :: "byte list \<Rightarrow> FILE \<Rightarrow> bool" where
  "file_starts_with m f \<longleftrightarrow> length m \<le> f_len f \<and> (\<forall>i < length m. f_bytes f i = m ! i)"

lemma fwrite_starts: "f_pos f = 0 \<Longrightarrow> bs \<noteq> [] \<Longrightarrow> file_starts_with bs (fwrite bs f)"
  by (auto simp: file_starts_with_def fwrite_def)

lemma file_starts_with_fields:
  "f_bytes f' = f_bytes f \<Longrightarrow> f_len f' = f_len f \<Longrightarrow> file_starts_with m f \<Longrightarrow> file_starts_with m f'"
  by (simp add: file_starts_with_def)

lemma fread_starts:
  assumes "file_starts_with m f" "f_pos f + n \<le> length m"
  shows "fread n f = (take n (drop (f_pos f) m), f\<lparr>f_pos := f_pos f + n\<rparr>)"
proof -
  have "map (f_bytes f) [f_pos f..<f_pos f + n] = take n (drop (f_pos f) m)"
    using assms by (intro nth_equalityI) (auto simp: file_starts_with_def)
  moreover have "n \<le> f_len f - f_pos f" using assms by (auto simp: file_starts_with_def)
  ultimately show ?thesis by (simp add: fread_def min_absorb1)
qed

end
