(* ===== verification/Interfaces.thy ===== *)
theory Interfaces
  imports Prelude
begin

text \<open>
  The interfaces between the components, as locales. A client lemma is proved once in the
  locale; the theory of the component that provides the operations interprets the locale on
  the model's own definitions, and its properties rest on the interpreted facts.
\<close>

section \<open>Allocators\<close>

text \<open>
  An allocator hands out sets of units (disk blocks, memory pages). Its state has an invariant
  and a set of units that are free; \<open>alloc n\<close> returns a handle and the new state, \<open>free n r\<close>
  takes the handle back; \<open>units n r\<close> is what the handle stands for.
\<close>

locale allocator =
  fixes inv :: "'s \<Rightarrow> bool"
    and avail :: "'s \<Rightarrow> int set"
    and units :: "'n \<Rightarrow> 'r \<Rightarrow> int set"
    and valid :: "'n \<Rightarrow> bool"
    and alloc :: "'n \<Rightarrow> 's \<Rightarrow> ('r \<times> 's) option"
    and free :: "'n \<Rightarrow> 'r \<Rightarrow> 's \<Rightarrow> 's"
    and owned :: "'n \<Rightarrow> 'r \<Rightarrow> 's \<Rightarrow> bool"
  assumes alloc_inv: "inv s \<Longrightarrow> valid n \<Longrightarrow> alloc n s = Some (r, s') \<Longrightarrow> inv s'"
    and alloc_units: "inv s \<Longrightarrow> valid n \<Longrightarrow> alloc n s = Some (r, s') \<Longrightarrow> units n r \<subseteq> avail s"
    and alloc_avail: "inv s \<Longrightarrow> valid n \<Longrightarrow> alloc n s = Some (r, s') \<Longrightarrow> avail s' = avail s - units n r"
    and alloc_owned: "inv s \<Longrightarrow> valid n \<Longrightarrow> alloc n s = Some (r, s') \<Longrightarrow> owned n r s'"
    and free_inv: "inv s \<Longrightarrow> valid n \<Longrightarrow> owned n r s \<Longrightarrow> inv (free n r s)"
    and free_avail: "inv s \<Longrightarrow> valid n \<Longrightarrow> owned n r s \<Longrightarrow> avail (free n r s) = avail s \<union> units n r"
begin

lemma alloc_disjoint:
  assumes "inv s" "valid n" "valid m" "alloc n s = Some (r, s1)" "alloc m s1 = Some (q, s2)"
  shows "units n r \<inter> units m q = {}"
proof -
  have "inv s1" using alloc_inv assms by blast
  then have "units m q \<subseteq> avail s1" using alloc_units assms by blast
  then show ?thesis using alloc_avail [of s n r s1] assms by blast
qed

lemma alloc_free_avail:
  assumes "inv s" "valid n" "alloc n s = Some (r, s1)"
  shows "avail (free n r s1) = avail s"
  using alloc_inv [OF assms] alloc_units [OF assms] alloc_avail [OF assms] alloc_owned [OF assms]
    free_avail [of s1 n r] assms(2) by blast

lemma alloc_free_inv:
  "inv s \<Longrightarrow> valid n \<Longrightarrow> alloc n s = Some (r, s1) \<Longrightarrow> inv (free n r s1)"
  using alloc_inv alloc_owned free_inv by blast

end

text \<open>An allocator whose invariant fixes the state once the free units are known.\<close>

locale canonical_allocator = allocator +
  assumes avail_inject: "inv s \<Longrightarrow> inv t \<Longrightarrow> avail s = avail t \<Longrightarrow> s = t"
begin

lemma alloc_free_id:
  "inv s \<Longrightarrow> valid n \<Longrightarrow> alloc n s = Some (r, s1) \<Longrightarrow> free n r s1 = s"
  by (rule avail_inject) (auto intro: alloc_free_inv simp: alloc_free_avail)

end

section \<open>Systems with an invariant\<close>

text \<open>
  A state machine with its initial states and steps: what holds at the start and is kept by
  every step holds in every state a run can reach.
\<close>

locale invariant_system =
  fixes init :: "'s \<Rightarrow> bool"
    and step :: "'s \<Rightarrow> 's \<Rightarrow> bool"
    and inv :: "'s \<Rightarrow> bool"
  assumes init_inv: "init s \<Longrightarrow> inv s"
    and step_inv: "inv s \<Longrightarrow> step s t \<Longrightarrow> inv t"
begin

lemma run_inv: "rtranclp step s t \<Longrightarrow> inv s \<Longrightarrow> inv t"
  by (induction rule: rtranclp_induct) (auto intro: step_inv)

lemma reachable_inv: "init s \<Longrightarrow> rtranclp step s t \<Longrightarrow> inv t"
  by (blast intro: run_inv init_inv)

end

section \<open>Bounded queues\<close>

text \<open>
  A ring buffer between a producer and a consumer: \<open>contents\<close> is the queue it stands for. \<open>put\<close> and
  \<open>get\<close> are called under the guards of the code.
\<close>

primrec get_n :: "('s \<Rightarrow> 'a \<times> 's) \<Rightarrow> nat \<Rightarrow> 's \<Rightarrow> 'a list \<times> 's" where
  "get_n get 0 s = ([], s)"
| "get_n get (Suc n) s = (let (x, s1) = get s; (xs, s2) = get_n get n s1 in (x # xs, s2))"

locale bounded_queue =
  fixes inv :: "'s \<Rightarrow> bool"
    and contents :: "'s \<Rightarrow> 'a list"
    and cap :: nat
    and put :: "'a \<Rightarrow> 's \<Rightarrow> 's"
    and get :: "'s \<Rightarrow> 'a \<times> 's"
  assumes put_inv: "inv s \<Longrightarrow> length (contents s) < cap \<Longrightarrow> inv (put x s)"
    and put_contents: "inv s \<Longrightarrow> length (contents s) < cap \<Longrightarrow> contents (put x s) = contents s @ [x]"
    and get_inv: "inv s \<Longrightarrow> contents s \<noteq> [] \<Longrightarrow> inv (snd (get s))"
    and get_contents: "inv s \<Longrightarrow> contents s \<noteq> [] \<Longrightarrow> contents s = fst (get s) # contents (snd (get s))"
begin

lemma put_all:
  assumes "inv s" "length (contents s) + length xs \<le> cap"
  shows "inv (fold put xs s)" "contents (fold put xs s) = contents s @ xs"
proof -
  have "inv (fold put xs s) \<and> contents (fold put xs s) = contents s @ xs"
    using assms
  proof (induction xs arbitrary: s)
    case (Cons x xs)
    then show ?case using put_inv [of s x] put_contents [of s x] by simp
  qed simp
  then show "inv (fold put xs s)" "contents (fold put xs s) = contents s @ xs" by blast+
qed

lemma get_n_contents:
  assumes "inv s" "n \<le> length (contents s)"
  shows "inv (snd (get_n get n s)) \<and> fst (get_n get n s) = take n (contents s)
     \<and> contents (snd (get_n get n s)) = drop n (contents s)"
  using assms
proof (induction n arbitrary: s)
  case (Suc n)
  then have ne: "contents s \<noteq> []" by auto
  obtain x s1 where g: "get s = (x, s1)" by fastforce
  have s1: "inv s1" "contents s = x # contents s1"
    using get_inv [OF Suc.prems(1) ne] get_contents [OF Suc.prems(1) ne] g by simp_all
  obtain xs s2 where r: "get_n get n s1 = (xs, s2)" by fastforce
  have "n \<le> length (contents s1)" using Suc.prems(2) s1(2) by simp
  from Suc.IH [OF s1(1) this] show ?case using s1(2) g r by simp
qed simp

text \<open>What goes in comes out, in order.\<close>

lemma fifo:
  assumes "inv s" "length (contents s) + length xs \<le> cap" "n \<le> length (contents s) + length xs"
  shows "fst (get_n get n (fold put xs s)) = take n (contents s @ xs)"
    "contents (snd (get_n get n (fold put xs s))) = drop n (contents s @ xs)"
    "inv (snd (get_n get n (fold put xs s)))"
  using get_n_contents [OF put_all(1) [OF assms(1,2)], of n] put_all(2) [OF assms(1,2)] assms(3) by auto

end

end
