(* ===== verification/MyFS_FreeList.thy ===== *)
theory MyFS_FreeList
  imports MyFS_Types Interfaces
begin

text \<open>
  The free-space manager of \<open>filesystem.c\<close>: first-fit allocation from the list of free regions,
  release with merging of neighbours, and removal of the ranges that files use when a disk is
  loaded. The abstract view of a list is the set of its blocks; the invariant says the list is
  sorted and fully merged, which makes it the only list for its set.
\<close>

section \<open>Operations\<close>

definition get_meta_blocks :: int where
  "get_meta_blocks = (24 + 80 * 100 + 88 * 50 + 40 * 50 + BLOCK_SIZE - 1) div BLOCK_SIZE"

lemma get_meta_blocks_eq [simp]: "get_meta_blocks = 29"
  by (simp add: get_meta_blocks_def)

definition init_free_list :: "FreeBlockNode list" where
  "init_free_list = [\<lparr>fb_start = get_meta_blocks, fb_end = TOTAL_BLOCKS - 1\<rparr>]"

definition get_block_count :: "FreeBlockNode \<Rightarrow> int" where
  "get_block_count node = fb_end node - fb_start node + 1"

text \<open>
  The loop that \<open>fs_alloc\<close> and \<open>allocate_blocks\<close> share: the first region that is large enough is
  removed from the list, or gives up its first blocks.
\<close>

fun alloc_scan :: "int \<Rightarrow> FreeBlockNode list \<Rightarrow> (int \<times> FreeBlockNode list) option" where
  "alloc_scan needed [] = None"
| "alloc_scan needed (cur # nxt) =
     (let available = get_block_count cur in
      if available \<ge> needed then
        (let allocated = fb_start cur in
         if available = needed then Some (allocated, nxt)
         else Some (allocated, cur\<lparr>fb_start := fb_start cur + needed\<rparr> # nxt))
      else map_option (\<lambda>(a, nxt'). (a, cur # nxt')) (alloc_scan needed nxt))"

definition add_used_blocks :: "int \<Rightarrow> myfs \<Rightarrow> myfs" where
  "add_used_blocks k s = s\<lparr>super_block := (super_block s)\<lparr>sb_used_blocks := sb_used_blocks (super_block s) + k\<rparr>\<rparr>"

definition allocate_blocks :: "int \<Rightarrow> myfs \<Rightarrow> int \<times> myfs" where
  "allocate_blocks count s =
     (case alloc_scan count (free_list s) of
        None \<Rightarrow> (-1, s)
      | Some (allocated, fl) \<Rightarrow> (allocated, add_used_blocks count (s\<lparr>free_list := fl\<rparr>)))"

definition blocks_of_size :: "int \<Rightarrow> int" where
  "blocks_of_size sz = i32 (sz + BLOCK_SIZE - 1) sdiv BLOCK_SIZE"

definition fs_alloc :: "int \<Rightarrow> myfs \<Rightarrow> int \<times> myfs" where
  "fs_alloc sz s =
     (let needed = blocks_of_size sz;
          needed_blocks = (if needed = 0 then 1 else needed)
      in case alloc_scan needed_blocks (free_list s) of
           None \<Rightarrow> (-1, s)
         | Some (allocated, fl) \<Rightarrow>
             (allocated, add_used_blocks needed_blocks (s\<lparr>free_list := fl\<rparr>)))"

text \<open>
  Release: \<open>before\<close> are the nodes the search walks over (its last is \<open>prev\<close>), \<open>cur\<close> the node it
  stops at.
\<close>

definition free_insert :: "int \<Rightarrow> int \<Rightarrow> FreeBlockNode list \<Rightarrow> FreeBlockNode list" where
  "free_insert start end fl =
     (let before = takeWhile (\<lambda>c. fb_start c < start) fl;
          rest = dropWhile (\<lambda>c. fb_start c < start) fl;
          merged_with_prev = (before \<noteq> [] \<and> fb_end (last before) + 1 = start);
          before' = (if merged_with_prev then butlast before @ [(last before)\<lparr>fb_end := end\<rparr>]
                     else before)
      in case rest of
           cur # nxt \<Rightarrow>
             if end + 1 = fb_start cur then
               (if merged_with_prev
                then butlast before' @ [(last before')\<lparr>fb_end := fb_end cur\<rparr>] @ nxt
                else before' @ cur\<lparr>fb_start := start\<rparr> # nxt)
             else if merged_with_prev then before' @ cur # nxt
             else before' @ \<lparr>fb_start = start, fb_end = end\<rparr> # cur # nxt
         | [] \<Rightarrow>
             if merged_with_prev then before' else before' @ [\<lparr>fb_start = start, fb_end = end\<rparr>])"

definition free_blocks :: "int \<Rightarrow> int \<Rightarrow> myfs \<Rightarrow> myfs" where
  "free_blocks start count s =
     add_used_blocks (- count)
       (s\<lparr>free_list := free_insert start (start + count - 1) (free_list s)\<rparr>)"

definition fs_free :: "int \<Rightarrow> int \<Rightarrow> myfs \<Rightarrow> myfs" where
  "fs_free start sz s =
     (let needed = blocks_of_size sz;
          block_count = (if needed = 0 then 1 else needed)
      in add_used_blocks (- block_count)
           (s\<lparr>free_list := free_insert start (start + block_count - 1) (free_list s)\<rparr>))"

text \<open>The body of the loop of \<open>remove_range_from_freelist\<close> for one node, and the loop.\<close>

definition remove_from_node :: "int \<Rightarrow> int \<Rightarrow> FreeBlockNode \<Rightarrow> FreeBlockNode list" where
  "remove_from_node start end cur =
     (if fb_end cur \<ge> start \<and> fb_start cur \<le> end then
        if start \<le> fb_start cur \<and> end \<ge> fb_end cur then []
        else if start \<le> fb_start cur then [cur\<lparr>fb_start := end + 1\<rparr>]
        else if end \<ge> fb_end cur then [cur\<lparr>fb_end := start - 1\<rparr>]
        else [cur\<lparr>fb_end := start - 1\<rparr>, \<lparr>fb_start = end + 1, fb_end = fb_end cur\<rparr>]
      else [cur])"

primrec remove_range :: "int \<Rightarrow> int \<Rightarrow> FreeBlockNode list \<Rightarrow> FreeBlockNode list" where
  "remove_range start end [] = []"
| "remove_range start end (cur # nxt) = remove_from_node start end cur @ remove_range start end nxt"

definition remove_range_from_freelist :: "int \<Rightarrow> int \<Rightarrow> FreeBlockNode list \<Rightarrow> FreeBlockNode list" where
  "remove_range_from_freelist start count fl = remove_range start (start + count - 1) fl"

section \<open>The set of free blocks and the canonical form\<close>

definition node_set :: "FreeBlockNode \<Rightarrow> int set" where
  "node_set c = {fb_start c..fb_end c}"

definition free_set :: "FreeBlockNode list \<Rightarrow> int set" where
  "free_set fl = (\<Union>c \<in> set fl. node_set c)"

definition fl_canon :: "int \<Rightarrow> int \<Rightarrow> FreeBlockNode list \<Rightarrow> bool" where
  "fl_canon lo hi fl \<longleftrightarrow>
     (\<forall>c \<in> set fl. lo \<le> fb_start c \<and> fb_start c \<le> fb_end c \<and> fb_end c < hi)
     \<and> sorted_wrt (\<lambda>c d. fb_end c + 1 < fb_start d) fl"

abbreviation extent :: "int \<Rightarrow> int \<Rightarrow> int set" where
  "extent start count \<equiv> {start..<start + count}"

lemma free_set_simps [simp]:
  "free_set [] = {}"
  "free_set (c # fl) = node_set c \<union> free_set fl"
  "free_set (fl @ fl') = free_set fl \<union> free_set fl'"
  by (auto simp: free_set_def)

lemma fl_canon_Nil [simp]: "fl_canon lo hi []"
  by (simp add: fl_canon_def)

lemma fl_canon_Cons:
  "fl_canon lo hi (c # fl) \<longleftrightarrow>
     lo \<le> fb_start c \<and> fb_start c \<le> fb_end c \<and> fb_end c < hi
     \<and> fl_canon (fb_end c + 2) hi fl"
  by (fastforce simp: fl_canon_def)

lemma fl_canon_append:
  "fl_canon lo hi (xs @ ys) \<longleftrightarrow>
     fl_canon lo hi xs \<and> fl_canon lo hi ys
     \<and> (\<forall>x \<in> set xs. \<forall>y \<in> set ys. fb_end x + 1 < fb_start y)"
  by (auto simp: fl_canon_def sorted_wrt_append)

lemma free_set_bounds: "fl_canon lo hi fl \<Longrightarrow> free_set fl \<subseteq> {lo..<hi}"
  by (fastforce simp: fl_canon_def free_set_def node_set_def)

lemma init_free_list_canon: "fl_canon 29 TOTAL_BLOCKS init_free_list"
  by (simp add: init_free_list_def fl_canon_def)

lemma init_free_list_set: "free_set init_free_list = {29..<TOTAL_BLOCKS}"
  by (auto simp: init_free_list_def node_set_def)

section \<open>A canonical list is determined by its set\<close>

lemma fl_canon_weaken: "fl_canon lo hi fl \<Longrightarrow> lo' \<le> lo \<Longrightarrow> fl_canon lo' hi fl"
  by (fastforce simp: fl_canon_def)

lemma free_set_above: "fl_canon lo hi fl \<Longrightarrow> x < lo \<Longrightarrow> x \<notin> free_set fl"
  using free_set_bounds by fastforce

lemma canon_tail_disjoint:
  "fl_canon lo hi (c # fl) \<Longrightarrow> node_set c \<inter> free_set fl = {}"
  using free_set_bounds [of "fb_end c + 2" hi fl] by (fastforce simp: fl_canon_Cons node_set_def)

lemma canon_head_le:
  assumes "fl_canon lo hi (c # fl)" "x \<in> free_set (c # fl)"
  shows "fb_start c \<le> x"
  using assms free_set_bounds [of "fb_end c + 2" hi fl]
  by (fastforce simp: fl_canon_Cons node_set_def)

lemma canon_head_gap:
  assumes "fl_canon lo hi (c # fl)"
  shows "fb_end c + 1 \<notin> free_set (c # fl)"
  using assms free_set_bounds [of "fb_end c + 2" hi fl]
  by (fastforce simp: fl_canon_Cons node_set_def)

lemma canon_head_end_le:
  assumes x: "fl_canon lo hi (x # xs)" and y: "fl_canon lo hi (y # ys)"
    and eq: "free_set (x # xs) = free_set (y # ys)"
  shows "fb_start x \<le> fb_start y \<and> fb_end y \<le> fb_end x"
proof -
  have "fb_start y \<in> free_set (x # xs)"
    using y by (subst eq) (simp add: fl_canon_Cons node_set_def)
  then have le: "fb_start x \<le> fb_start y" by (rule canon_head_le [OF x])
  have "fb_start x \<in> free_set (y # ys)"
    using x by (subst eq [symmetric]) (simp add: fl_canon_Cons node_set_def)
  then have ge: "fb_start y \<le> fb_start x" by (rule canon_head_le [OF y])
  have "fb_end y \<le> fb_end x"
  proof (rule ccontr)
    assume "\<not> fb_end y \<le> fb_end x"
    then have "fb_end x + 1 \<in> node_set y"
      using ge x by (auto simp: node_set_def fl_canon_Cons)
    then have "fb_end x + 1 \<in> free_set (x # xs)" by (subst eq) simp
    with canon_head_gap [OF x] show False by blast
  qed
  with le show ?thesis by simp
qed

lemma canon_unique:
  "fl_canon lo hi xs \<Longrightarrow> fl_canon lo hi ys \<Longrightarrow> free_set xs = free_set ys \<Longrightarrow> xs = ys"
proof (induction xs arbitrary: lo ys)
  case Nil
  then show ?case by (cases ys) (auto simp: fl_canon_Cons node_set_def)
next
  case (Cons x xs)
  show ?case
  proof (cases ys)
    case Nil
    with Cons.prems show ?thesis by (auto simp: fl_canon_Cons node_set_def)
  next
    case (Cons y ys')
    note prems = Cons.prems [unfolded Cons]
    have "fb_start x = fb_start y" "fb_end x = fb_end y"
      using canon_head_end_le [OF prems] canon_head_end_le [OF prems(2,1) prems(3) [symmetric]] by auto
    then have xy: "x = y" by simp
    have "free_set xs = free_set ys'"
      using canon_tail_disjoint [OF prems(1)] canon_tail_disjoint [OF prems(2)] prems(3) xy
      by auto
    moreover have "fl_canon (fb_end x + 2) hi xs" "fl_canon (fb_end x + 2) hi ys'"
      using prems xy by (auto simp: fl_canon_Cons)
    ultimately show ?thesis using Cons.IH xy Cons by blast
  qed
qed

section \<open>First-fit allocation\<close>

lemma alloc_scan_correct:
  assumes "fl_canon lo hi fl" "0 < n" "alloc_scan n fl = Some (a, fl')"
  shows "fl_canon lo hi fl' \<and> extent a n \<subseteq> free_set fl \<and> free_set fl' = free_set fl - extent a n"
  using assms
proof (induction fl arbitrary: lo fl')
  case (Cons c fl)
  have tail: "free_set fl \<subseteq> {fb_end c + 2..<hi}"
    using Cons.prems(1) by (intro free_set_bounds) (simp add: fl_canon_Cons)
  show ?case
  proof (cases "get_block_count c \<ge> n")
    case True
    have c: "lo \<le> fb_start c" "fb_start c \<le> fb_end c" "fb_end c < hi" "fl_canon (fb_end c + 2) hi fl"
      using Cons.prems(1) by (auto simp: fl_canon_Cons)
    have a: "a = fb_start c" using Cons.prems True by (auto simp: Let_def split: if_splits)
    show ?thesis
    proof (cases "get_block_count c = n")
      case full: True
      then have "fl' = fl" using Cons.prems(3) by (simp add: Let_def)
      with full a c tail show ?thesis
        by (auto simp: get_block_count_def node_set_def intro: fl_canon_weaken)
    next
      case False
      then have "fl' = c\<lparr>fb_start := fb_start c + n\<rparr> # fl" using Cons.prems(3) True a by (auto simp: Let_def)
      with False True a c tail Cons.prems(2) show ?thesis
        by (auto simp: get_block_count_def node_set_def fl_canon_Cons)
    qed
  next
    case False
    with Cons.prems obtain fl'' where scan: "alloc_scan n fl = Some (a, fl'')" and fl': "fl' = c # fl''"
      by (auto simp: Let_def)
    have IH: "fl_canon (fb_end c + 2) hi fl'' \<and> extent a n \<subseteq> free_set fl
        \<and> free_set fl'' = free_set fl - extent a n"
      using Cons.prems(1) by (intro Cons.IH [OF _ Cons.prems(2) scan]) (simp add: fl_canon_Cons)
    have "node_set c \<inter> extent a n = {}"
      using canon_tail_disjoint [OF Cons.prems(1)] IH by blast
    with IH Cons.prems(1) fl' show ?thesis by (auto simp: fl_canon_Cons)
  qed
qed simp

lemma alloc_scan_None: "alloc_scan n fl = None \<longleftrightarrow> (\<forall>c \<in> set fl. get_block_count c < n)"
  by (induction fl) (auto simp: Let_def not_le)

text \<open>In a canonical list a run of free blocks lies inside one region.\<close>

lemma run_first: "extent b n \<subseteq> X \<Longrightarrow> 0 < n \<Longrightarrow> b \<in> X"
  by (rule subsetD) auto

lemma run_in_node:
  assumes "fl_canon lo hi (c # fl)" "0 < n" "extent b n \<subseteq> free_set (c # fl)" "b \<le> fb_end c"
  shows "extent b n \<subseteq> node_set c"
proof (rule ccontr)
  assume "\<not> ?thesis"
  moreover have "fb_start c \<le> b" by (rule canon_head_le [OF assms(1) run_first [OF assms(3,2)]])
  ultimately have "fb_end c + 1 \<in> extent b n" using assms(4) by (auto simp: node_set_def)
  with assms(3) canon_head_gap [OF assms(1)] show False by blast
qed

lemma run_fits:
  assumes "extent b n \<subseteq> node_set c" "0 < n"
  shows "n \<le> get_block_count c"
proof -
  have "b \<in> extent b n" "b + n - 1 \<in> extent b n" using assms(2) by auto
  with assms(1) have "b \<in> node_set c" "b + n - 1 \<in> node_set c" by blast+
  then show ?thesis by (simp add: node_set_def get_block_count_def)
qed

lemma run_after_node:
  assumes "fl_canon lo hi (c # fl)" "0 < n" "extent b n \<subseteq> free_set (c # fl)" "fb_end c < b"
  shows "extent b n \<subseteq> free_set fl"
  using assms by (auto simp: node_set_def)

lemma alloc_scan_lowest:
  assumes "fl_canon lo hi fl" "0 < n" "extent b n \<subseteq> free_set fl"
  shows "\<exists>a fl'. alloc_scan n fl = Some (a, fl') \<and> a \<le> b"
  using assms
proof (induction fl arbitrary: lo)
  case Nil
  then show ?case by auto
next
  case (Cons c fl)
  show ?case
  proof (cases "get_block_count c \<ge> n")
    case True
    have "fb_start c \<le> b" by (rule canon_head_le [OF Cons.prems(1) run_first [OF Cons.prems(3,2)]])
    with True show ?thesis by (auto simp: Let_def)
  next
    case False
    then have "fb_end c < b"
      using run_in_node [OF Cons.prems] run_fits Cons.prems(2) not_le by blast
    then have "extent b n \<subseteq> free_set fl" by (rule run_after_node [OF Cons.prems])
    moreover have "fl_canon (fb_end c + 2) hi fl" using Cons.prems by (simp add: fl_canon_Cons)
    ultimately show ?thesis using Cons.IH [OF _ Cons.prems(2)] False by (fastforce simp: Let_def)
  qed
qed

section \<open>Release with merging\<close>

lemma free_insert_correct:
  assumes canon: "fl_canon lo hi fl" and range: "lo \<le> start" "start \<le> end" "end < hi"
    and disj: "{start..end} \<inter> free_set fl = {}"
  shows "fl_canon lo hi (free_insert start end fl)
    \<and> free_set (free_insert start end fl) = free_set fl \<union> {start..end}"
proof -
  define before rest where "before = takeWhile (\<lambda>c. fb_start c < start) fl"
    and "rest = dropWhile (\<lambda>c. fb_start c < start) fl"
  have fl: "fl = before @ rest" by (simp add: before_def rest_def)
  have nodes: "lo \<le> fb_start c" "fb_start c \<le> fb_end c" "fb_end c < hi" if "c \<in> set fl" for c
    using canon that by (auto simp: fl_canon_def)
  have b: "fb_end c < start" if "c \<in> set before" for c
  proof -
    have "fb_start c < start" using that by (auto simp: before_def dest: set_takeWhileD)
    moreover have "start \<notin> node_set c" using disj that range fl by (auto simp: free_set_def)
    ultimately show ?thesis by (auto simp: node_set_def)
  qed
  have r: "end < fb_start c" if "c \<in> set rest" for c
  proof -
    have "sorted_wrt (\<lambda>c d. fb_end c + 1 < fb_start d) rest"
      using canon fl by (simp add: fl_canon_def sorted_wrt_append)
    then have "fb_start (hd rest) \<le> fb_start c"
      using that nodes fl by (cases rest) fastforce+
    moreover have "\<not> fb_start (hd rest) < start"
      using that hd_dropWhile [of "\<lambda>c. fb_start c < start" fl]
      unfolding rest_def by (metis empty_iff list.set(1))
    moreover have "fb_start c \<notin> {start..end}"
      using disj that fl nodes(2) [of c] by (auto simp: free_set_def node_set_def)
    ultimately show ?thesis by auto
  qed
  have wb: "takeWhile (\<lambda>c. fb_start c < start) fl = before"
    and wr: "dropWhile (\<lambda>c. fb_start c < start) fl = rest" by (simp_all add: before_def rest_def)
  note ins = free_insert_def wb wr Let_def
  have set_fl: "free_set fl = free_set before \<union> free_set rest" by (simp add: fl)
  have canons: "fl_canon lo hi before" "fl_canon lo hi rest"
      "\<forall>x \<in> set before. \<forall>y \<in> set rest. fb_end x + 1 < fb_start y"
    using canon unfolding fl fl_canon_append by blast+
  show ?thesis
  proof (cases "before \<noteq> [] \<and> fb_end (last before) + 1 = start")
    case True
    then obtain ps p where p: "before = ps @ [p]" "fb_end p + 1 = start"
      by (metis append_butlast_last_id)
    have np: "fb_start p \<le> fb_end p" using nodes [of p] p fl by simp
    have eq: "free_insert start end fl = ps @ (case rest of [] \<Rightarrow> [p\<lparr>fb_end := end\<rparr>]
        | q # qs \<Rightarrow> if end + 1 = fb_start q then p\<lparr>fb_end := fb_end q\<rparr> # qs
                  else p\<lparr>fb_end := end\<rparr> # q # qs)"
      using p by (simp add: ins split: list.splits)
    show ?thesis
    proof (cases rest)
      case Nil
      with p canons range np show ?thesis
        by (auto simp: eq set_fl fl_canon_append fl_canon_Cons node_set_def)
    next
      case (Cons q qs)
      with p canons range np r [of q] show ?thesis
        by (auto simp: eq set_fl fl_canon_append fl_canon_Cons node_set_def)
    qed
  next
    case False
    have gap: "fb_end c + 1 < start" if c: "c \<in> set before" for c
    proof -
      have srt: "sorted_wrt (\<lambda>c d. fb_end c + 1 < fb_start d) before"
        using canon fl by (simp add: fl_canon_def sorted_wrt_append)
      obtain ps p where p: "before = ps @ [p]" using c by (cases before rule: rev_cases) auto
      then have "fb_end p + 1 < start" using False b [of p] by auto
      moreover have "fb_end c \<le> fb_end p" using srt c p nodes [of p] fl
        by (fastforce simp: sorted_wrt_append)
      ultimately show ?thesis by simp
    qed
    have eq: "free_insert start end fl = before @ (case rest of [] \<Rightarrow> [\<lparr>fb_start = start, fb_end = end\<rparr>]
        | q # qs \<Rightarrow> if end + 1 = fb_start q then q\<lparr>fb_start := start\<rparr> # qs
                  else \<lparr>fb_start = start, fb_end = end\<rparr> # q # qs)"
      using False by (auto simp: ins split: list.splits)
    show ?thesis
    proof (cases rest)
      case Nil
      with canons range gap show ?thesis
        by (auto simp: eq set_fl fl_canon_append fl_canon_Cons node_set_def)
    next
      case (Cons q qs)
      with canons range gap r [of q] show ?thesis
        by (auto simp: eq set_fl fl_canon_append fl_canon_Cons node_set_def)
    qed
  qed
qed

section \<open>Removing the ranges in use\<close>

lemma remove_from_node_set:
  "node_set c \<noteq> {} \<Longrightarrow> free_set (remove_from_node start end c) = node_set c - {start..end}"
  by (auto simp: remove_from_node_def node_set_def)

lemma remove_from_node_bounds:
  assumes "d \<in> set (remove_from_node start end c)" "fb_start c \<le> fb_end c" "start \<le> end"
  shows "fb_start c \<le> fb_start d \<and> fb_start d \<le> fb_end d \<and> fb_end d \<le> fb_end c"
  using assms by (auto simp: remove_from_node_def split: if_splits)

lemma remove_range_correct:
  assumes "fl_canon lo hi fl" "start \<le> end"
  shows "fl_canon lo hi (remove_range start end fl)
    \<and> free_set (remove_range start end fl) = free_set fl - {start..end}"
  using assms
proof (induction fl arbitrary: lo)
  case (Cons c fl)
  have c: "lo \<le> fb_start c" "fb_start c \<le> fb_end c" "fb_end c < hi" "fl_canon (fb_end c + 2) hi fl"
    using Cons.prems by (auto simp: fl_canon_Cons)
  have IH: "fl_canon (fb_end c + 2) hi (remove_range start end fl)
      \<and> free_set (remove_range start end fl) = free_set fl - {start..end}"
    by (rule Cons.IH [OF c(4) Cons.prems(2)])
  have "fl_canon lo hi (remove_from_node start end c)"
    using c Cons.prems(2) by (auto simp: remove_from_node_def fl_canon_Cons)
  moreover have "fb_end x + 1 < fb_start y"
    if "x \<in> set (remove_from_node start end c)" "y \<in> set (remove_range start end fl)" for x y
    using remove_from_node_bounds [OF that(1) c(2) Cons.prems(2)] IH that(2)
    by (auto simp: fl_canon_def)
  moreover have "fl_canon lo hi (remove_range start end fl)"
    using IH c by (auto intro: fl_canon_weaken)
  moreover have "free_set (remove_from_node start end c) = node_set c - {start..end}"
    using c(2) by (intro remove_from_node_set) (simp add: node_set_def)
  ultimately show ?case using IH by (auto simp: fl_canon_append)
qed simp

section \<open>The free list as an allocator\<close>

text \<open>
  The disk's regions implement the allocator interface: requests of \<open>n > 0\<close> blocks, handles that
  are first blocks, and the canonical list between the metadata and the end of the disk.
\<close>

definition disk_canon :: "FreeBlockNode list \<Rightarrow> bool" where
  "disk_canon fl \<longleftrightarrow> fl_canon get_meta_blocks TOTAL_BLOCKS fl"

definition extent_owned :: "int \<Rightarrow> int \<Rightarrow> FreeBlockNode list \<Rightarrow> bool" where
  "extent_owned n a fl \<longleftrightarrow> extent a n \<subseteq> {get_meta_blocks..<TOTAL_BLOCKS} \<and> extent a n \<inter> free_set fl = {}"

definition release :: "int \<Rightarrow> int \<Rightarrow> FreeBlockNode list \<Rightarrow> FreeBlockNode list" where
  "release n a fl = free_insert a (a + n - 1) fl"

lemma extent_atLeastAtMost: "{a..a + n - 1} = extent a n" for a n :: int
  by auto

lemma extent_bounds: "0 < n \<Longrightarrow> extent a n \<subseteq> {lo..<hi} \<Longrightarrow> lo \<le> a \<and> a + n \<le> hi"
proof -
  assume "0 < n" "extent a n \<subseteq> {lo..<hi}"
  then have "a \<in> {lo..<hi}" "a + n - 1 \<in> {lo..<hi}" by auto
  then show ?thesis by auto
qed

interpretation blocks: canonical_allocator disk_canon free_set "\<lambda>n a. extent a n" "\<lambda>n. 0 < n"
  alloc_scan release extent_owned
proof
  fix fl n a fl'
  assume fl: "disk_canon fl" and n: "0 < n" and scan: "alloc_scan n fl = Some (a, fl')"
  note corr = alloc_scan_correct [OF fl [unfolded disk_canon_def] n scan]
  show "disk_canon fl'" using corr by (simp add: disk_canon_def)
  show "extent a n \<subseteq> free_set fl" using corr by blast
  show "free_set fl' = free_set fl - extent a n" using corr by blast
  show "extent_owned n a fl'"
    unfolding extent_owned_def using corr free_set_bounds [OF fl [unfolded disk_canon_def]] by blast
next
  fix fl n a
  assume fl: "disk_canon fl" and n: "0 < n" and own: "extent_owned n a fl"
  have "get_meta_blocks \<le> a" "a + n \<le> TOTAL_BLOCKS"
    using extent_bounds [OF n, of a] own by (auto simp: extent_owned_def)
  then have "fl_canon get_meta_blocks TOTAL_BLOCKS (release n a fl)
      \<and> free_set (release n a fl) = free_set fl \<union> {a..a + n - 1}"
    unfolding release_def using own fl n
    by (intro free_insert_correct) (auto simp: disk_canon_def extent_owned_def extent_atLeastAtMost)
  then show "disk_canon (release n a fl)" "free_set (release n a fl) = free_set fl \<union> extent a n"
    by (simp_all add: disk_canon_def extent_atLeastAtMost)
next
  fix s t assume "disk_canon s" "disk_canon t" "free_set s = free_set t"
  then show "s = t" unfolding disk_canon_def by (rule canon_unique)
qed

end
