(* ===== verification/MyFS_Metadata.thy ===== *)
theory MyFS_Metadata
  imports MyFS_FreeList "HOL-Library.Char_ord"
begin

text \<open>
  The on-disk form of the metadata and the functions of \<open>filesystem.c\<close> that write it, read it
  back and start or stop the file system. The structs are written as they lie in memory: little
  endian, with the offsets and the padding of the x86-64 ABI (24, 80, 88 and 40 bytes).
\<close>

section \<open>Integers and strings as bytes\<close>

definition enc32 :: "int \<Rightarrow> byte list" where "enc32 x = enc_le 4 x"
definition enc64 :: "int \<Rightarrow> byte list" where "enc64 x = enc_le 8 x"
definition dec32 :: "byte list \<Rightarrow> int" where "dec32 bs = signed_take_bit 31 (dec_le (take 4 bs))"
definition dec64 :: "byte list \<Rightarrow> int" where "dec64 bs = signed_take_bit 63 (dec_le (take 8 bs))"
definition enc_u32 :: "u32 \<Rightarrow> byte list" where "enc_u32 w = enc_le 4 (uint w)"
definition dec_u32 :: "byte list \<Rightarrow> u32" where "dec_u32 bs = word_of_int (dec_le (take 4 bs))"

definition enc_str :: "nat \<Rightarrow> string \<Rightarrow> byte list" where
  "enc_str n s = take n (map byte_of_char s @ replicate n 0)"

definition dec_str :: "nat \<Rightarrow> byte list \<Rightarrow> string" where
  "dec_str n bs = map char_of_byte (takeWhile (\<lambda>b. b \<noteq> 0) (take n bs))"

lemma length_enc [simp]:
  "length (enc32 x) = 4" "length (enc64 x) = 8" "length (enc_u32 w) = 4" "length (enc_str n s) = n"
  by (simp_all add: enc32_def enc64_def enc_u32_def enc_str_def)

lemma signed_take_bit_mod: "signed_take_bit 31 (x mod 4294967296) = signed_take_bit 31 (x :: int)"
  using signed_take_bit_take_bit [of 31 32 x] by (simp add: take_bit_eq_mod)

lemma signed_take_bit_mod64:
  "signed_take_bit 63 (x mod 18446744073709551616) = signed_take_bit 63 (x :: int)"
  using signed_take_bit_take_bit [of 63 64 x] by (simp add: take_bit_eq_mod)

lemma dec32_enc32 [simp]: "in_i32 x \<Longrightarrow> dec32 (enc32 x @ bs) = x"
  by (simp add: dec32_def enc32_def dec_enc_le signed_take_bit_mod
      signed_take_bit_int_eq_self in_i32_def)

definition in_i64 :: "int \<Rightarrow> bool" where
  "in_i64 x \<longleftrightarrow> - (2 ^ 63) \<le> x \<and> x < 2 ^ 63"

lemma dec64_enc64 [simp]: "in_i64 x \<Longrightarrow> dec64 (enc64 x @ bs) = x"
  by (simp add: dec64_def enc64_def dec_enc_le signed_take_bit_mod64
      signed_take_bit_int_eq_self in_i64_def)

lemma dec_u32_enc_u32 [simp]: "dec_u32 (enc_u32 w @ bs) = w"
  using uint_lt2p [of w] by (simp add: dec_u32_def enc_u32_def dec_enc_le)

lemma dec_str_enc_str [simp]:
  assumes "length s < n" "CHR 0x00 \<notin> set s"
  shows "dec_str n (enc_str n s @ bs) = s"
proof -
  obtain k where n: "n = length s + Suc k" using assms(1) less_iff_Suc_add by auto
  have enc: "enc_str n s = map byte_of_char s @ 0 # replicate k 0"
    by (simp add: enc_str_def n flip: replicate_Suc)
  have "takeWhile (\<lambda>b. b \<noteq> (0 :: byte)) (map byte_of_char s @ 0 # replicate k 0) = map byte_of_char s"
    using assms(2) by (subst takeWhile_append2) auto
  moreover have "take n (enc_str n s @ bs) = enc_str n s" by simp
  ultimately show ?thesis by (simp add: dec_str_def enc o_def)
qed

section \<open>The structs as bytes\<close>

definition enc_SuperBlock :: "SuperBlock \<Rightarrow> byte list" where
  "enc_SuperBlock b = enc_u32 (sb_magic b) @ enc32 (sb_version b) @ enc32 (sb_file_count b)
     @ enc32 (sb_total_blocks b) @ enc32 (sb_used_blocks b) @ enc32 (sb_first_free_block b)"

definition dec_SuperBlock :: "byte list \<Rightarrow> SuperBlock" where
  "dec_SuperBlock bs = \<lparr>sb_magic = dec_u32 bs, sb_version = dec32 (drop 4 bs),
     sb_file_count = dec32 (drop 8 bs), sb_total_blocks = dec32 (drop 12 bs),
     sb_used_blocks = dec32 (drop 16 bs), sb_first_free_block = dec32 (drop 20 bs)\<rparr>"

definition enc_FileEntry :: "FileEntry \<Rightarrow> byte list" where
  "enc_FileEntry e = enc_str 32 (fe_name e) @ enc32 (fe_size e) @ enc32 (fe_start_block e)
     @ enc32 (fe_block_count e) @ enc_u32 (fe_permissions e) @ enc32 (fe_owner_uid e)
     @ enc32 (fe_group_gid e) @ enc64 (fe_create_time e) @ enc64 (fe_modify_time e)
     @ enc32 (fe_is_used e) @ replicate 4 0"

definition dec_FileEntry :: "byte list \<Rightarrow> FileEntry" where
  "dec_FileEntry bs = \<lparr>fe_name = dec_str 32 bs, fe_size = dec32 (drop 32 bs),
     fe_start_block = dec32 (drop 36 bs), fe_block_count = dec32 (drop 40 bs),
     fe_permissions = dec_u32 (drop 44 bs), fe_owner_uid = dec32 (drop 48 bs),
     fe_group_gid = dec32 (drop 52 bs), fe_create_time = dec64 (drop 56 bs),
     fe_modify_time = dec64 (drop 64 bs), fe_is_used = dec32 (drop 72 bs)\<rparr>"

definition enc_User :: "User \<Rightarrow> byte list" where
  "enc_User u = enc32 (u_uid u) @ enc_str 32 (u_username u) @ enc32 (u_primary_gid u)
     @ concat (map enc32 (u_groups u)) @ enc32 (u_group_count u) @ enc32 (u_is_active u)"

definition dec_User :: "byte list \<Rightarrow> User" where
  "dec_User bs = \<lparr>u_uid = dec32 bs, u_username = dec_str 32 (drop 4 bs),
     u_primary_gid = dec32 (drop 36 bs),
     u_groups = map (\<lambda>i. dec32 (drop (40 + 4 * i) bs)) [0..<MAX_GROUPS_PER_USER],
     u_group_count = dec32 (drop 80 bs), u_is_active = dec32 (drop 84 bs)\<rparr>"

definition enc_Group :: "Group \<Rightarrow> byte list" where
  "enc_Group g = enc32 (g_gid g) @ enc_str 32 (g_groupname g) @ enc32 (g_is_active g)"

definition dec_Group :: "byte list \<Rightarrow> Group" where
  "dec_Group bs = \<lparr>g_gid = dec32 bs, g_groupname = dec_str 32 (drop 4 bs),
     g_is_active = dec32 (drop 36 bs)\<rparr>"

text \<open>A table is written entry after entry.\<close>

definition enc_table :: "('a \<Rightarrow> byte list) \<Rightarrow> 'a list \<Rightarrow> byte list" where
  "enc_table enc es = concat (map enc es)"

definition dec_table :: "(byte list \<Rightarrow> 'a) \<Rightarrow> nat \<Rightarrow> nat \<Rightarrow> byte list \<Rightarrow> 'a list" where
  "dec_table dec w n bs = map (\<lambda>i. dec (drop (i * w) bs)) [0..<n]"

section \<open>Saving and loading\<close>

definition save_metadata :: "myfs \<Rightarrow> myfs" where
  "save_metadata s =
     (let f0 = fseek 0 (disk_file s);
          f1 = fwrite (enc_SuperBlock (super_block s)) f0;
          f2 = fwrite (enc_table enc_FileEntry (file_table s)) f1;
          f3 = fwrite (enc_table enc_User (user_table s)) f2;
          f4 = fwrite (enc_table enc_Group (group_table s)) f3
      in s\<lparr>disk_file := f4\<rparr>)"

text \<open>
  \<open>fread\<close> into a static table that is still zero (the tables are, when the program starts): what
  the file is too short to supply stays zero.
\<close>

definition fread_static :: "nat \<Rightarrow> FILE \<Rightarrow> byte list \<times> FILE" where
  "fread_static n f = (let (bs, f') = fread n f in (bs @ replicate (n - length bs) 0, f'))"

text \<open>The loop of \<open>load_metadata\<close> over the file table: blocks in use leave the free list.\<close>

primrec reclaim_used :: "FileEntry list \<Rightarrow> int \<times> FreeBlockNode list \<Rightarrow> int \<times> FreeBlockNode list" where
  "reclaim_used [] acc = acc"
| "reclaim_used (e # es) acc =
     reclaim_used es
       (if fe_is_used e \<noteq> 0 \<and> fe_start_block e \<noteq> -1 \<and> fe_block_count e > 0
        then (fst acc + fe_block_count e,
              remove_range_from_freelist (fe_start_block e) (fe_block_count e) (snd acc))
        else acc)"

definition load_metadata :: "FILE \<Rightarrow> myfs" where
  "load_metadata f =
     (let (b1, f1) = fread_static 24 (fseek 0 f);
          (b2, f2) = fread_static (80 * MAX_FILES) f1;
          (b3, f3) = fread_static (88 * MAX_USERS) f2;
          (b4, f4) = fread_static (40 * MAX_GROUPS) f3;
          ft = dec_table dec_FileEntry 80 MAX_FILES b2;
          (used, fl) = reclaim_used ft (get_meta_blocks, init_free_list)
      in \<lparr>disk_file = f4, super_block = (dec_SuperBlock b1)\<lparr>sb_used_blocks := used\<rparr>,
          file_table = ft, free_list = fl, open_files = replicate MAX_FILES 0,
          user_table = dec_table dec_User 88 MAX_USERS b3,
          group_table = dec_table dec_Group 40 MAX_GROUPS b4, current_uid = 0\<rparr>)"

section \<open>Starting and stopping\<close>

definition init_users_and_groups :: "myfs \<Rightarrow> myfs" where
  "init_users_and_groups s =
     s\<lparr>user_table := (replicate MAX_USERS zero_User)
          [0 := \<lparr>u_uid = 0, u_username = ''root'', u_primary_gid = 0,
                 u_groups = replicate MAX_GROUPS_PER_USER (-1), u_group_count = 0, u_is_active = 1\<rparr>],
       group_table := (replicate MAX_GROUPS zero_Group)
          [0 := \<lparr>g_gid = 0, g_groupname = ''root'', g_is_active = 1\<rparr>],
       current_uid := 0\<rparr>"

definition empty_image :: FILE where
  "empty_image = \<lparr>f_bytes = (\<lambda>_. 0), f_len = nat DISK_SIZE, f_pos = nat DISK_SIZE\<rparr>"

definition fresh_superblock :: SuperBlock where
  "fresh_superblock = \<lparr>sb_magic = MAGIC_NUMBER, sb_version = 1, sb_file_count = 0,
     sb_total_blocks = TOTAL_BLOCKS, sb_used_blocks = get_meta_blocks, sb_first_free_block = 0\<rparr>"

definition new_disk :: myfs where
  "new_disk = save_metadata (init_users_and_groups
     \<lparr>disk_file = empty_image, super_block = fresh_superblock,
      file_table = replicate MAX_FILES zero_FileEntry, free_list = init_free_list,
      open_files = replicate MAX_FILES 0, user_table = [], group_table = [], current_uid = 0\<rparr>)"

text \<open>
  \<open>fs_init\<close>: the argument is the image that \<open>fopen(path, "r+b")\<close> finds, if it does, and whether
  the path can be created otherwise. A negative result comes with no state: the program exits.
\<close>

definition fs_init :: "FILE option \<Rightarrow> bool \<Rightarrow> int \<times> myfs option" where
  "fs_init img creatable =
     (case img of
        None \<Rightarrow>
          if \<not> creatable then (-1, None)
          else (0, Some (new_disk\<lparr>open_files := replicate MAX_FILES (-1)\<rparr>))
      | Some f \<Rightarrow>
          (let s = load_metadata f in
           if sb_magic (super_block s) \<noteq> MAGIC_NUMBER then (-1, None)
           else (0, Some (s\<lparr>open_files := replicate MAX_FILES (-1)\<rparr>))))"

text \<open>\<open>fs_close\<close> saves and frees the free list; what stays is the image.\<close>

definition fs_close :: "myfs \<Rightarrow> FILE" where
  "fs_close s = disk_file (save_metadata s)"

definition fs_format :: "myfs \<Rightarrow> int \<times> myfs" where
  "fs_format s =
     (0, save_metadata (s\<lparr>file_table := replicate MAX_FILES zero_FileEntry,
           super_block := (super_block s)\<lparr>sb_file_count := 0, sb_used_blocks := get_meta_blocks\<rparr>,
           free_list := init_free_list\<rparr>))"

section \<open>Lengths and round trips\<close>

definition ok_str :: "string \<Rightarrow> bool" where
  "ok_str s \<longleftrightarrow> length s < 32 \<and> CHR 0x00 \<notin> set s"

definition ok_FileEntry :: "FileEntry \<Rightarrow> bool" where
  "ok_FileEntry e \<longleftrightarrow> ok_str (fe_name e) \<and> in_i32 (fe_size e) \<and> in_i32 (fe_start_block e)
     \<and> in_i32 (fe_block_count e) \<and> in_i32 (fe_owner_uid e) \<and> in_i32 (fe_group_gid e)
     \<and> in_i64 (fe_create_time e) \<and> in_i64 (fe_modify_time e) \<and> in_i32 (fe_is_used e)"

definition ok_User :: "User \<Rightarrow> bool" where
  "ok_User u \<longleftrightarrow> in_i32 (u_uid u) \<and> ok_str (u_username u) \<and> in_i32 (u_primary_gid u)
     \<and> length (u_groups u) = MAX_GROUPS_PER_USER \<and> (\<forall>g \<in> set (u_groups u). in_i32 g)
     \<and> in_i32 (u_group_count u) \<and> in_i32 (u_is_active u)"

definition ok_Group :: "Group \<Rightarrow> bool" where
  "ok_Group g \<longleftrightarrow> in_i32 (g_gid g) \<and> ok_str (g_groupname g) \<and> in_i32 (g_is_active g)"

definition ok_SuperBlock :: "SuperBlock \<Rightarrow> bool" where
  "ok_SuperBlock b \<longleftrightarrow> in_i32 (sb_version b) \<and> in_i32 (sb_file_count b) \<and> in_i32 (sb_total_blocks b)
     \<and> in_i32 (sb_used_blocks b) \<and> in_i32 (sb_first_free_block b)"

text \<open>The tables have their C sizes and every field fits its C type.\<close>

definition tables_ok :: "myfs \<Rightarrow> bool" where
  "tables_ok s \<longleftrightarrow> ok_SuperBlock (super_block s)
     \<and> length (file_table s) = MAX_FILES \<and> (\<forall>e \<in> set (file_table s). ok_FileEntry e)
     \<and> length (user_table s) = MAX_USERS \<and> (\<forall>u \<in> set (user_table s). ok_User u)
     \<and> length (group_table s) = MAX_GROUPS \<and> (\<forall>g \<in> set (group_table s). ok_Group g)"

lemma length_concat_enc32 [simp]: "length (concat (map enc32 xs)) = 4 * length xs"
  by (induction xs) auto

lemma length_enc_structs [simp]:
  "length (enc_SuperBlock b) = 24" "length (enc_FileEntry e) = 80" "length (enc_Group g) = 40"
  "length (u_groups u) = MAX_GROUPS_PER_USER \<Longrightarrow> length (enc_User u) = 88"
  by (simp_all add: enc_SuperBlock_def enc_FileEntry_def enc_Group_def enc_User_def)

lemma drop_append_exact: "length xs = n \<Longrightarrow> drop n (xs @ ys) = ys"
  by simp

lemma dec_SuperBlock_enc [simp]: "ok_SuperBlock b \<Longrightarrow> dec_SuperBlock (enc_SuperBlock b @ bs) = b"
  by (simp add: dec_SuperBlock_def enc_SuperBlock_def ok_SuperBlock_def)

lemma dec_FileEntry_enc [simp]: "ok_FileEntry e \<Longrightarrow> dec_FileEntry (enc_FileEntry e @ bs) = e"
  by (simp add: dec_FileEntry_def enc_FileEntry_def ok_FileEntry_def ok_str_def)

lemma dec_Group_enc [simp]: "ok_Group g \<Longrightarrow> dec_Group (enc_Group g @ bs) = g"
  by (simp add: dec_Group_def enc_Group_def ok_Group_def ok_str_def)

lemma dec32_at:
  "i < length xs \<Longrightarrow> \<forall>x \<in> set xs. in_i32 x \<Longrightarrow> dec32 (drop (4 * i) (concat (map enc32 xs) @ bs)) = xs ! i"
proof (induction xs arbitrary: i)
  case (Cons x xs)
  then show ?case by (cases i) auto
qed simp

lemma dec_User_enc [simp]:
  assumes "ok_User u" shows "dec_User (enc_User u @ bs) = u"
proof -
  have len: "length (u_groups u) = 10" and gs: "\<forall>g \<in> set (u_groups u). in_i32 g"
    using assms by (auto simp: ok_User_def)
  have "map (\<lambda>i. dec32 (drop (40 + 4 * i) (enc_User u @ bs))) [0..<10] = u_groups u"
  proof (rule nth_equalityI)
    fix i assume "i < length (map (\<lambda>i. dec32 (drop (40 + 4 * i) (enc_User u @ bs))) [0..<10])"
    then have i: "i < 10" by simp
    have d: "drop (40 + 4 * i) (enc_User u @ bs)
        = drop (4 * i) (concat (map enc32 (u_groups u)) @ enc32 (u_group_count u) @ enc32 (u_is_active u) @ bs)"
      by (simp add: enc_User_def)
    have "dec32 (drop (40 + 4 * i) (enc_User u @ bs)) = u_groups u ! i"
      unfolding d using i len gs by (intro dec32_at) auto
    with i show "map (\<lambda>i. dec32 (drop (40 + 4 * i) (enc_User u @ bs))) [0..<10] ! i = u_groups u ! i"
      by (simp del: drop_append)
  qed (simp add: len)
  moreover have "drop 80 (enc_User u @ bs) = enc32 (u_group_count u) @ enc32 (u_is_active u) @ bs"
    "drop 84 (enc_User u @ bs) = enc32 (u_is_active u) @ bs"
    by (simp_all add: enc_User_def len)
  moreover have "dec32 (enc_User u @ bs) = u_uid u" "dec_str 32 (drop 4 (enc_User u @ bs)) = u_username u"
    "dec32 (drop 36 (enc_User u @ bs)) = u_primary_gid u"
    using assms by (simp_all add: enc_User_def ok_User_def ok_str_def)
  moreover have "in_i32 (u_group_count u)" "in_i32 (u_is_active u)" using assms by (auto simp: ok_User_def)
  ultimately show ?thesis by (simp add: dec_User_def del: append_assoc)
qed

lemma length_enc_table:
  "\<forall>e \<in> set es. length (enc e) = w \<Longrightarrow> length (enc_table enc es) = w * length es"
  by (induction es) (auto simp: enc_table_def)

lemma drop_enc_table:
  assumes "\<forall>e \<in> set es. length (enc e) = w" "i < length es"
  shows "\<exists>bs. drop (i * w) (enc_table enc es) = enc (es ! i) @ bs"
  using assms
proof (induction es arbitrary: i)
  case (Cons e es)
  then show ?case by (cases i) (auto simp: enc_table_def)
qed simp

lemma dec_table_enc:
  assumes "\<forall>e \<in> set es. length (enc e) = w" "\<forall>e \<in> set es. \<forall>bs. dec (enc e @ bs) = e"
  shows "dec_table dec w (length es) (enc_table enc es) = es"
proof (rule nth_equalityI)
  fix i assume "i < length (dec_table dec w (length es) (enc_table enc es))"
  then have i: "i < length es" by (simp add: dec_table_def)
  with drop_enc_table [OF assms(1)] obtain bs where "drop (i * w) (enc_table enc es) = enc (es ! i) @ bs"
    by blast
  with i assms(2) show "dec_table dec w (length es) (enc_table enc es) ! i = es ! i"
    by (simp add: dec_table_def)
qed (simp add: dec_table_def)

definition meta_bytes :: "myfs \<Rightarrow> byte list" where
  "meta_bytes s = enc_SuperBlock (super_block s) @ enc_table enc_FileEntry (file_table s)
     @ enc_table enc_User (user_table s) @ enc_table enc_Group (group_table s)"

lemma save_metadata_eq:
  "save_metadata s = s\<lparr>disk_file := fwrite (meta_bytes s) (fseek 0 (disk_file s))\<rparr>"
  by (simp add: save_metadata_def Let_def fwrite_append meta_bytes_def)

lemma save_metadata_fields [simp]:
  "super_block (save_metadata s) = super_block s" "file_table (save_metadata s) = file_table s"
  "free_list (save_metadata s) = free_list s" "open_files (save_metadata s) = open_files s"
  "user_table (save_metadata s) = user_table s" "group_table (save_metadata s) = group_table s"
  "current_uid (save_metadata s) = current_uid s"
  by (simp_all add: save_metadata_eq)

lemma table_lengths:
  assumes "tables_ok s"
  shows "length (enc_table enc_FileEntry (file_table s)) = 8000"
    "length (enc_table enc_User (user_table s)) = 4400"
    "length (enc_table enc_Group (group_table s)) = 2000"
  using assms length_enc_table [of "file_table s" enc_FileEntry 80]
    length_enc_table [of "user_table s" enc_User 88] length_enc_table [of "group_table s" enc_Group 40]
  by (auto simp: tables_ok_def ok_User_def)

lemma length_meta_bytes: "tables_ok s \<Longrightarrow> length (meta_bytes s) = 14424"
  by (simp add: meta_bytes_def table_lengths)

lemma fread_static_starts:
  assumes "file_starts_with m f" "f_pos f + n \<le> length m"
  shows "fread_static n f = (take n (drop (f_pos f) m), f\<lparr>f_pos := f_pos f + n\<rparr>)"
  using assms by (simp add: fread_static_def fread_starts)

lemma load_metadata_starts:
  assumes ok: "tables_ok s" and m: "file_starts_with (meta_bytes s) f"
  shows "\<exists>f'. load_metadata f =
      (let acc = reclaim_used (file_table s) (get_meta_blocks, init_free_list)
       in \<lparr>disk_file = f', super_block = (super_block s)\<lparr>sb_used_blocks := fst acc\<rparr>,
           file_table = file_table s, free_list = snd acc, open_files = replicate MAX_FILES 0,
           user_table = user_table s, group_table = group_table s, current_uid = 0\<rparr>)"
proof -
  note len = length_meta_bytes [OF ok] and tl = table_lengths [OF ok]
  define f1 f2 f3 where "f1 = f\<lparr>f_pos := 24\<rparr>" and "f2 = f\<lparr>f_pos := 8024\<rparr>"
    and "f3 = f\<lparr>f_pos := 12424\<rparr>"
  have st: "file_starts_with (meta_bytes s) (fseek 0 f)" "file_starts_with (meta_bytes s) f1"
      "file_starts_with (meta_bytes s) f2" "file_starts_with (meta_bytes s) f3"
    using m by (auto intro: file_starts_with_fields simp: f1_def f2_def f3_def)
  have r1: "fread_static 24 (fseek 0 f) = (enc_SuperBlock (super_block s), f1)"
    using fread_static_starts [OF st(1), of 24] len
    by (simp add: f1_def fseek_def) (simp add: meta_bytes_def)
  have r2: "fread_static 8000 f1 = (enc_table enc_FileEntry (file_table s), f2)"
    using fread_static_starts [OF st(2), of 8000] len
    by (simp add: f1_def f2_def) (simp add: meta_bytes_def tl)
  have r3: "fread_static 4400 f2 = (enc_table enc_User (user_table s), f3)"
    using fread_static_starts [OF st(3), of 4400] len
    by (simp add: f3_def f2_def) (simp add: meta_bytes_def tl)
  have r4: "fread_static 2000 f3 = (enc_table enc_Group (group_table s), f\<lparr>f_pos := 14424\<rparr>)"
    using fread_static_starts [OF st(4), of 2000] len
    by (simp add: f3_def) (simp add: meta_bytes_def tl)
  have sb: "dec_SuperBlock (enc_SuperBlock (super_block s)) = super_block s"
    using ok dec_SuperBlock_enc [of "super_block s" "[]"] by (simp add: tables_ok_def)
  have ft: "dec_table dec_FileEntry 80 100 (enc_table enc_FileEntry (file_table s)) = file_table s"
    using ok dec_table_enc [of "file_table s" enc_FileEntry 80 dec_FileEntry] by (simp add: tables_ok_def)
  have ut: "dec_table dec_User 88 50 (enc_table enc_User (user_table s)) = user_table s"
    using ok dec_table_enc [of "user_table s" enc_User 88 dec_User] by (auto simp: tables_ok_def ok_User_def)
  have gt: "dec_table dec_Group 40 50 (enc_table enc_Group (group_table s)) = group_table s"
    using ok dec_table_enc [of "group_table s" enc_Group 40 dec_Group] by (simp add: tables_ok_def)
  show ?thesis
    by (simp add: load_metadata_def r1 r2 r3 r4 sb ft ut gt Let_def split: prod.splits)
qed

lemma fs_close_starts:
  assumes "tables_ok s"
  shows "file_starts_with (meta_bytes s) (fs_close s)"
proof -
  have "meta_bytes s \<noteq> []" using length_meta_bytes [OF assms] by auto
  then show ?thesis by (auto simp: fs_close_def save_metadata_eq intro: fwrite_starts)
qed

text \<open>
  closing the file system and loading its disk image again gives back the file table, the
  user table and the group table entry by entry, and the superblock up to its count of used
  blocks (which loading computes anew), for all tables whose fields fit their C types.
\<close>

theorem metadata_roundtrip:
  assumes "tables_ok s"
  shows "file_table (load_metadata (fs_close s)) = file_table s
    \<and> user_table (load_metadata (fs_close s)) = user_table s
    \<and> group_table (load_metadata (fs_close s)) = group_table s
    \<and> super_block (load_metadata (fs_close s))
        = (super_block s)\<lparr>sb_used_blocks := sb_used_blocks (super_block (load_metadata (fs_close s)))\<rparr>"
  using load_metadata_starts [OF assms fs_close_starts [OF assms]]
  by (auto simp: Let_def)

lemma new_disk_tables_ok: "tables_ok new_disk"
proof -
  have "ok_User \<lparr>u_uid = 0, u_username = ''root'', u_primary_gid = 0,
      u_groups = replicate MAX_GROUPS_PER_USER (-1), u_group_count = 0, u_is_active = 1\<rparr>"
    by (simp add: ok_User_def ok_str_def in_i32_def)
  moreover have "ok_Group \<lparr>g_gid = 0, g_groupname = ''root'', g_is_active = 1\<rparr>"
    by (simp add: ok_Group_def ok_str_def in_i32_def)
  moreover have "ok_User zero_User" "ok_Group zero_Group" "ok_FileEntry zero_FileEntry"
      "ok_SuperBlock fresh_superblock"
    by (simp_all add: ok_User_def ok_Group_def ok_FileEntry_def ok_str_def in_i32_def in_i64_def
        zero_User_def zero_Group_def zero_FileEntry_def ok_SuperBlock_def fresh_superblock_def)
  ultimately show ?thesis
    by (auto simp: tables_ok_def new_disk_def init_users_and_groups_def dest!: set_list_update_cases)
qed

theorem metadata_roundtrip_witness:
  "user_table (load_metadata (fs_close new_disk)) = user_table new_disk
    \<and> u_username (user_table (load_metadata (fs_close new_disk)) ! 0) = ''root''"
  using metadata_roundtrip [OF new_disk_tables_ok]
  by (simp add: new_disk_def init_users_and_groups_def)

end
