(* ===== verification/MyFS_Users.thy ===== *)
theory MyFS_Users
  imports MyFS_Metadata
begin

text \<open>
  Users and groups of \<open>filesystem.c\<close>: adding and deleting them, looking them up by name or number,
  group membership and the current user. Every operation returns the C result and the new state.
\<close>

section \<open>Lookups\<close>

definition user_named :: "string \<Rightarrow> User \<Rightarrow> bool" where
  "user_named nm u \<longleftrightarrow> u_is_active u \<noteq> 0 \<and> u_username u = nm"

definition group_named :: "string \<Rightarrow> Group \<Rightarrow> bool" where
  "group_named nm g \<longleftrightarrow> g_is_active g \<noteq> 0 \<and> g_groupname g = nm"

definition fs_get_uid :: "string \<Rightarrow> myfs \<Rightarrow> int" where
  "fs_get_uid nm s =
     (case first_index (user_named nm) (user_table s) of
        Some i \<Rightarrow> u_uid (user_table s ! i) | None \<Rightarrow> -1)"

definition fs_get_username :: "int \<Rightarrow> myfs \<Rightarrow> string option" where
  "fs_get_username uid s =
     (case first_index (\<lambda>u. u_is_active u \<noteq> 0 \<and> u_uid u = uid) (user_table s) of
        Some i \<Rightarrow> Some (u_username (user_table s ! i)) | None \<Rightarrow> None)"

definition fs_user_exists :: "string \<Rightarrow> myfs \<Rightarrow> bool" where
  "fs_user_exists nm s \<longleftrightarrow> fs_get_uid nm s \<ge> 0"

definition fs_get_gid :: "string \<Rightarrow> myfs \<Rightarrow> int" where
  "fs_get_gid nm s =
     (case first_index (group_named nm) (group_table s) of
        Some i \<Rightarrow> g_gid (group_table s ! i) | None \<Rightarrow> -1)"

definition fs_get_groupname :: "int \<Rightarrow> myfs \<Rightarrow> string option" where
  "fs_get_groupname gid s =
     (case first_index (\<lambda>g. g_is_active g \<noteq> 0 \<and> g_gid g = gid) (group_table s) of
        Some i \<Rightarrow> Some (g_groupname (group_table s ! i)) | None \<Rightarrow> None)"

definition fs_group_exists :: "string \<Rightarrow> myfs \<Rightarrow> bool" where
  "fs_group_exists nm s \<longleftrightarrow> fs_get_gid nm s \<ge> 0"

section \<open>Adding and deleting\<close>

text \<open>
  The search for an empty slot and for the next number, which \<open>fs_useradd\<close> and \<open>fs_groupadd\<close> run in
  one loop: the first inactive slot, and one more than the largest active number (at least 1).
\<close>

primrec next_id :: "('a \<Rightarrow> bool) \<Rightarrow> ('a \<Rightarrow> int) \<Rightarrow> int \<Rightarrow> 'a list \<Rightarrow> int" where
  "next_id active num new [] = new"
| "next_id active num new (x # xs) =
     next_id active num (if active x \<and> num x \<ge> new then num x + 1 else new) xs"

definition next_uid :: "User list \<Rightarrow> int" where
  "next_uid ut = next_id (\<lambda>u. u_is_active u \<noteq> 0) u_uid 1 ut"

definition next_gid :: "Group list \<Rightarrow> int" where
  "next_gid gt = next_id (\<lambda>g. g_is_active g \<noteq> 0) g_gid 1 gt"

definition fs_groupadd :: "string \<Rightarrow> myfs \<Rightarrow> int \<times> myfs" where
  "fs_groupadd nm s =
     (if current_uid s \<noteq> 0 then (-1, s)
      else if first_index (group_named nm) (group_table s) \<noteq> None then (-1, s)
      else case first_index (\<lambda>g. g_is_active g = 0) (group_table s) of
             None \<Rightarrow> (-1, s)
           | Some idx \<Rightarrow>
               (let new_gid = next_gid (group_table s) in
                (new_gid, save_metadata (s\<lparr>group_table := (group_table s)
                   [idx := (group_table s ! idx)\<lparr>g_gid := new_gid,
                           g_groupname := strncpy_n (MAX_GROUPNAME - 1) nm, g_is_active := 1\<rparr>]\<rparr>))))"

definition fs_groupdel :: "string \<Rightarrow> myfs \<Rightarrow> int \<times> myfs" where
  "fs_groupdel nm s =
     (if current_uid s \<noteq> 0 then (-1, s)
      else if nm = ''root'' then (-1, s)
      else case first_index (group_named nm) (group_table s) of
             Some i \<Rightarrow> (0, save_metadata (s\<lparr>group_table := (group_table s)
                         [i := (group_table s ! i)\<lparr>g_is_active := 0\<rparr>]\<rparr>))
           | None \<Rightarrow> (-1, s))"

definition fs_useradd :: "string \<Rightarrow> myfs \<Rightarrow> int \<times> myfs" where
  "fs_useradd nm s =
     (if current_uid s \<noteq> 0 then (-1, s)
      else if first_index (user_named nm) (user_table s) \<noteq> None then (-1, s)
      else case first_index (\<lambda>u. u_is_active u = 0) (user_table s) of
             None \<Rightarrow> (-1, s)
           | Some idx \<Rightarrow>
               (let new_uid = next_uid (user_table s); (gid, s') = fs_groupadd nm s in
                if gid < 0 then (-1, s')
                else (new_uid, save_metadata (s'\<lparr>user_table := (user_table s')
                   [idx := (user_table s' ! idx)\<lparr>u_uid := new_uid,
                           u_username := strncpy_n (MAX_USERNAME - 1) nm,
                           u_primary_gid := gid, u_group_count := 0,
                           u_groups := replicate MAX_GROUPS_PER_USER (-1), u_is_active := 1\<rparr>]\<rparr>))))"

definition fs_userdel :: "string \<Rightarrow> myfs \<Rightarrow> int \<times> myfs" where
  "fs_userdel nm s =
     (if current_uid s \<noteq> 0 then (-1, s)
      else if nm = ''root'' then (-1, s)
      else case first_index (user_named nm) (user_table s) of
             Some i \<Rightarrow> (0, save_metadata (s\<lparr>user_table := (user_table s)
                         [i := (user_table s ! i)\<lparr>u_is_active := 0\<rparr>]\<rparr>))
           | None \<Rightarrow> (-1, s))"

section \<open>Membership and the current user\<close>

text \<open>The secondary groups that count: the first \<open>group_count\<close> entries of the array.\<close>

definition secondary_groups :: "User \<Rightarrow> int list" where
  "secondary_groups u = take (nat (u_group_count u)) (u_groups u)"

definition fs_usermod_add_group :: "string \<Rightarrow> string \<Rightarrow> myfs \<Rightarrow> int \<times> myfs" where
  "fs_usermod_add_group nm grp s =
     (if current_uid s \<noteq> 0 then (-1, s)
      else let gid = fs_get_gid grp s in
        if gid < 0 then (-1, s)
        else case first_index (user_named nm) (user_table s) of
               None \<Rightarrow> (-1, s)
             | Some i \<Rightarrow>
                 (let u = user_table s ! i in
                  if gid \<in> set (secondary_groups u) then (0, s)
                  else if u_primary_gid u = gid then (0, s)
                  else if u_group_count u \<ge> int MAX_GROUPS_PER_USER then (-1, s)
                  else (0, save_metadata (s\<lparr>user_table := (user_table s)
                         [i := u\<lparr>u_groups := (u_groups u)[nat (u_group_count u) := gid],
                                 u_group_count := u_group_count u + 1\<rparr>]\<rparr>))))"

definition fs_user_in_group :: "int \<Rightarrow> int \<Rightarrow> myfs \<Rightarrow> bool" where
  "fs_user_in_group uid gid s =
     (case first_index (\<lambda>u. u_is_active u \<noteq> 0 \<and> u_uid u = uid) (user_table s) of
        None \<Rightarrow> False
      | Some i \<Rightarrow> u_primary_gid (user_table s ! i) = gid
                  \<or> gid \<in> set (secondary_groups (user_table s ! i)))"

definition fs_set_current_user :: "int \<Rightarrow> myfs \<Rightarrow> myfs" where
  "fs_set_current_user uid s = s\<lparr>current_uid := uid\<rparr>"

definition fs_get_current_user :: "myfs \<Rightarrow> int" where
  "fs_get_current_user s = current_uid s"

definition fs_switch_user :: "string \<Rightarrow> myfs \<Rightarrow> myfs" where
  "fs_switch_user nm s =
     (let uid = fs_get_uid nm s in if uid < 0 then s else s\<lparr>current_uid := uid\<rparr>)"

section \<open>Listings\<close>

text \<open>The rows that \<open>fs_list_users\<close> and \<open>fs_list_groups\<close> print.\<close>

definition fs_list_users :: "myfs \<Rightarrow> (int \<times> string \<times> int) list" where
  "fs_list_users s = map (\<lambda>u. (u_uid u, u_username u, u_primary_gid u))
     (filter (\<lambda>u. u_is_active u \<noteq> 0) (user_table s))"

definition fs_list_groups :: "myfs \<Rightarrow> (int \<times> string) list" where
  "fs_list_groups s = map (\<lambda>g. (g_gid g, g_groupname g))
     (filter (\<lambda>g. g_is_active g \<noteq> 0) (group_table s))"

end
