(* ===== verification/MyFS_Files.thy ===== *)
theory MyFS_Files
  imports MyFS_Users
begin

unbundle bit_operations_syntax

text \<open>
  The file operations of \<open>filesystem.c\<close>. The clock (\<open>time(NULL)\<close>) is an argument. \<open>None\<close> is the
  undefined behaviour of the C code: \<open>fs_create\<close> reads \<open>user_table[current_uid]\<close>, which lies outside
  the table when the current user's number is not a slot number.
\<close>

section \<open>Creating and opening\<close>

abbreviation O_RDONLY :: u32 where "O_RDONLY \<equiv> 0"
abbreviation O_WRONLY :: u32 where "O_WRONLY \<equiv> 1"
abbreviation O_RDWR :: u32 where "O_RDWR \<equiv> 2"
abbreviation O_CREAT :: u32 where "O_CREAT \<equiv> 64"

definition file_named :: "string \<Rightarrow> FileEntry \<Rightarrow> bool" where
  "file_named nm e \<longleftrightarrow> fe_is_used e \<noteq> 0 \<and> fe_name e = nm"

definition find_file_index :: "string \<Rightarrow> myfs \<Rightarrow> int" where
  "find_file_index nm s =
     (case first_index (file_named nm) (file_table s) of Some i \<Rightarrow> int i | None \<Rightarrow> -1)"

definition add_file_count :: "int \<Rightarrow> myfs \<Rightarrow> myfs" where
  "add_file_count k s =
     s\<lparr>super_block := (super_block s)\<lparr>sb_file_count := sb_file_count (super_block s) + k\<rparr>\<rparr>"

definition fs_create :: "string \<Rightarrow> u32 \<Rightarrow> int \<Rightarrow> int \<Rightarrow> myfs \<Rightarrow> (int \<times> myfs) option" where
  "fs_create nm permissions ctime mtime s =
     (if first_index (file_named nm) (file_table s) \<noteq> None then Some (-1, s)
      else case first_index (\<lambda>e. fe_is_used e = 0) (file_table s) of
             None \<Rightarrow> Some (-1, s)
           | Some idx \<Rightarrow>
               if current_uid s < 0 \<or> int MAX_USERS \<le> current_uid s then None
               else
                 (let e = \<lparr>fe_name = strncpy_n (MAX_FILENAME - 1) nm, fe_size = 0,
                           fe_start_block = -1, fe_block_count = 0, fe_permissions = permissions,
                           fe_owner_uid = current_uid s,
                           fe_group_gid = u_primary_gid (user_table s ! nat (current_uid s)),
                           fe_create_time = ctime, fe_modify_time = mtime, fe_is_used = 1\<rparr>
                  in Some (int idx,
                       save_metadata (add_file_count 1 (s\<lparr>file_table := (file_table s)[idx := e]\<rparr>)))))"

definition alloc_fd :: "int \<Rightarrow> myfs \<Rightarrow> int \<times> myfs" where
  "alloc_fd idx s =
     (case first_index (\<lambda>x. x = -1) (open_files s) of
        None \<Rightarrow> (-1, s)
      | Some fd \<Rightarrow> (int fd, s\<lparr>open_files := (open_files s)[fd := idx]\<rparr>))"

definition fs_open :: "string \<Rightarrow> u32 \<Rightarrow> int \<Rightarrow> int \<Rightarrow> myfs \<Rightarrow> (int \<times> myfs) option" where
  "fs_open nm flags ctime mtime s =
     (let idx = find_file_index nm s in
      if idx = -1 \<and> flags AND O_CREAT \<noteq> 0 then
        (case fs_create nm 420 ctime mtime s of
           None \<Rightarrow> None
         | Some (idx', s') \<Rightarrow> if idx' = -1 then Some (-1, s') else Some (alloc_fd idx' s'))
      else if idx = -1 then Some (-1, s)
      else Some (alloc_fd idx s))"

section \<open>Reading and writing\<close>

definition bad_fd :: "int \<Rightarrow> myfs \<Rightarrow> bool" where
  "bad_fd fd s \<longleftrightarrow> fd < 0 \<or> int MAX_FILES \<le> fd \<or> open_files s ! nat fd = -1"

definition fd_index :: "int \<Rightarrow> myfs \<Rightarrow> nat" where
  "fd_index fd s = nat (open_files s ! nat fd)"

definition fd_file :: "int \<Rightarrow> myfs \<Rightarrow> FileEntry" where
  "fd_file fd s = file_table s ! fd_index fd s"

text \<open>
  \<open>fs_read\<close> returns the C result and the bytes that \<open>fread\<close> stored in the buffer. The count goes to
  \<open>fread\<close> as a \<open>size_t\<close>: a negative one becomes huge.
\<close>

definition size_t_of_int :: "int \<Rightarrow> nat" where
  "size_t_of_int n = nat (n mod 2 ^ 64)"

definition fs_read :: "int \<Rightarrow> int \<Rightarrow> int \<Rightarrow> myfs \<Rightarrow> (int \<times> byte list) \<times> myfs" where
  "fs_read fd pos n_bytes s =
     (if bad_fd fd s then ((-1, []), s)
      else let file = fd_file fd s in
        if pos \<ge> fe_size file then ((0, []), s)
        else let n = (if i32 (pos + n_bytes) > fe_size file then i32 (fe_size file - pos) else n_bytes) in
          if fe_start_block file = -1 then ((0, []), s)
          else let offset = i32 (fe_start_block file * BLOCK_SIZE + pos);
                   (bytes, f) = fread (size_t_of_int n) (fseek offset (disk_file s))
               in ((i32 (int (length bytes)), bytes), s\<lparr>disk_file := f\<rparr>))"

definition set_fd_file :: "int \<Rightarrow> FileEntry \<Rightarrow> myfs \<Rightarrow> myfs" where
  "set_fd_file fd e s = s\<lparr>file_table := (file_table s)[fd_index fd s := e]\<rparr>"

text \<open>
  The first half of \<open>fs_write\<close> gives the file the blocks it lacks (\<open>False\<close>: not enough space). A file
  that already has blocks gets \<open>additional\<close> ones from wherever the list has them; only its count
  changes.
\<close>

definition ensure_blocks :: "int \<Rightarrow> int \<Rightarrow> myfs \<Rightarrow> bool \<times> myfs" where
  "ensure_blocks fd needed_blocks s =
     (let file = fd_file fd s in
      if fe_start_block file = -1 then
        (let (start, s1) = allocate_blocks needed_blocks s in
         if start = -1 then (False, set_fd_file fd (file\<lparr>fe_start_block := start\<rparr>) s1)
         else (True, set_fd_file fd (file\<lparr>fe_start_block := start, fe_block_count := needed_blocks\<rparr>) s1))
      else if needed_blocks > fe_block_count file then
        (let additional = needed_blocks - fe_block_count file;
             (new_blocks, s1) = allocate_blocks additional s in
         if new_blocks = -1 then (False, s1)
         else (True, set_fd_file fd (file\<lparr>fe_block_count := needed_blocks\<rparr>) s1))
      else (True, s))"

definition write_data :: "int \<Rightarrow> int \<Rightarrow> byte list \<Rightarrow> int \<Rightarrow> myfs \<Rightarrow> myfs" where
  "write_data fd pos buf mtime s =
     (let file = fd_file fd s;
          offset = i32 (fe_start_block file * BLOCK_SIZE + pos);
          f = fwrite buf (fseek offset (disk_file s));
          endpos = i32 (pos + int (length buf));
          file' = file\<lparr>fe_size := (if endpos > fe_size file then endpos else fe_size file),
                       fe_modify_time := mtime\<rparr>
      in save_metadata (set_fd_file fd file' (s\<lparr>disk_file := f\<rparr>)))"

definition fs_write :: "int \<Rightarrow> int \<Rightarrow> byte list \<Rightarrow> int \<Rightarrow> myfs \<Rightarrow> int \<times> myfs" where
  "fs_write fd pos buf mtime s =
     (if bad_fd fd s then (-1, s)
      else let needed_size = i32 (pos + int (length buf));
               (ok, s1) = ensure_blocks fd (blocks_of_size needed_size) s in
        if \<not> ok then (-1, s1)
        else (i32 (int (length buf)), write_data fd pos buf mtime s1))"

section \<open>Shrinking, deleting, closing\<close>

definition fs_shrink :: "int \<Rightarrow> int \<Rightarrow> int \<Rightarrow> myfs \<Rightarrow> int \<times> myfs" where
  "fs_shrink fd new_size mtime s =
     (if bad_fd fd s then (-1, s)
      else let file = fd_file fd s in
        if new_size \<ge> fe_size file then (0, s)
        else let new_blocks = blocks_of_size new_size;
                 freed_blocks = fe_block_count file - new_blocks;
                 (s1, bc) = (if freed_blocks > 0
                             then (free_blocks (fe_start_block file + new_blocks) freed_blocks s, new_blocks)
                             else (s, fe_block_count file))
             in (0, save_metadata (set_fd_file fd
                      (file\<lparr>fe_block_count := bc, fe_size := new_size, fe_modify_time := mtime\<rparr>) s1)))"

definition fs_delete :: "string \<Rightarrow> myfs \<Rightarrow> int \<times> myfs" where
  "fs_delete nm s =
     (case first_index (file_named nm) (file_table s) of
        None \<Rightarrow> (-1, s)
      | Some idx \<Rightarrow>
          (let file = file_table s ! idx;
               s1 = (if fe_start_block file \<noteq> -1
                     then free_blocks (fe_start_block file) (fe_block_count file) s else s);
               s2 = s1\<lparr>file_table := (file_table s1)[idx := file\<lparr>fe_is_used := 0\<rparr>]\<rparr>;
               s3 = add_file_count (-1) s2;
               s4 = s3\<lparr>open_files := map (\<lambda>x. if x = int idx then -1 else x) (open_files s3)\<rparr>
           in (0, save_metadata s4)))"

definition fs_close_file :: "int \<Rightarrow> myfs \<Rightarrow> myfs" where
  "fs_close_file fd s =
     (if fd \<ge> 0 \<and> fd < int MAX_FILES \<and> open_files s ! nat fd \<noteq> -1
      then s\<lparr>open_files := (open_files s)[nat fd := -1]\<rparr> else s)"

section \<open>Information\<close>

definition fs_get_file_size :: "int \<Rightarrow> myfs \<Rightarrow> int" where
  "fs_get_file_size fd s = (if bad_fd fd s then -1 else fe_size (fd_file fd s))"

text \<open>Total, used and free bytes and the number of files.\<close>

definition fs_get_stats :: "myfs \<Rightarrow> int \<times> int \<times> int \<times> int" where
  "fs_get_stats s =
     (let total = i32 (sb_total_blocks (super_block s) * BLOCK_SIZE);
          used = i32 (sb_used_blocks (super_block s) * BLOCK_SIZE)
      in (total, used, i32 (total - used), sb_file_count (super_block s)))"

definition fs_list_files :: "nat \<Rightarrow> myfs \<Rightarrow> string list" where
  "fs_list_files max_count s =
     take max_count (map fe_name (filter (\<lambda>e. fe_is_used e \<noteq> 0) (file_table s)))"

text \<open>What \<open>fs_visualize_free_list\<close> prints: a line per region, the number of regions and of blocks.\<close>

definition fs_visualize_free_list :: "myfs \<Rightarrow> (int \<times> int \<times> int) list \<times> nat \<times> int" where
  "fs_visualize_free_list s =
     (map (\<lambda>c. (fb_start c, fb_end c, get_block_count c)) (free_list s),
      length (free_list s), sum_list (map get_block_count (free_list s)))"

end
