(* ===== verification/MyFS_Access.thy ===== *)
theory MyFS_Access
  imports MyFS_Files
begin

text \<open>
  Owners, groups and modes of \<open>filesystem.c\<close>: changing them, and the permission check that the
  command line makes before it opens, reads, writes or removes a file.
\<close>

unbundle bit_operations_syntax

section \<open>Changing owner, group and mode\<close>

definition upd_file :: "nat \<Rightarrow> (FileEntry \<Rightarrow> FileEntry) \<Rightarrow> myfs \<Rightarrow> myfs" where
  "upd_file i f s = s\<lparr>file_table := (file_table s)[i := f (file_table s ! i)]\<rparr>"

definition fs_chmod :: "string \<Rightarrow> u32 \<Rightarrow> myfs \<Rightarrow> int \<times> myfs" where
  "fs_chmod path mode s =
     (let idx = find_file_index path s in
      if idx < 0 then (-1, s)
      else if current_uid s \<noteq> 0 \<and> fe_owner_uid (file_table s ! nat idx) \<noteq> current_uid s then (-1, s)
      else (0, save_metadata (upd_file (nat idx) (fe_permissions_update (\<lambda>_. mode)) s)))"

definition fs_chown :: "string \<Rightarrow> string \<Rightarrow> myfs \<Rightarrow> int \<times> myfs" where
  "fs_chown path user s =
     (if current_uid s \<noteq> 0 then (-1, s)
      else let idx = find_file_index path s in
        if idx < 0 then (-1, s)
        else let new_uid = fs_get_uid user s in
          if new_uid < 0 then (-1, s)
          else (0, save_metadata (upd_file (nat idx) (fe_owner_uid_update (\<lambda>_. new_uid)) s)))"

definition fs_chgrp :: "string \<Rightarrow> string \<Rightarrow> myfs \<Rightarrow> int \<times> myfs" where
  "fs_chgrp path grp s =
     (let idx = find_file_index path s in
      if idx < 0 then (-1, s)
      else if current_uid s \<noteq> 0 \<and> fe_owner_uid (file_table s ! nat idx) \<noteq> current_uid s then (-1, s)
      else let new_gid = fs_get_gid grp s in
        if new_gid < 0 then (-1, s)
        else (0, save_metadata (upd_file (nat idx) (fe_group_gid_update (\<lambda>_. new_gid)) s)))"

section \<open>The permission check\<close>

definition permission_to_string :: "u32 \<Rightarrow> string" where
  "permission_to_string perm =
     [if perm AND PERM_READ \<noteq> 0 then CHR ''r'' else CHR ''-'',
      if perm AND PERM_WRITE \<noteq> 0 then CHR ''w'' else CHR ''-'',
      if perm AND PERM_EXEC \<noteq> 0 then CHR ''x'' else CHR ''-'']"

text \<open>
  What \<open>fs_getfacl\<close> prints of a file it finds: owner's and group's names and numbers, the mode, and
  the three permission strings.
\<close>

definition fs_getfacl ::
  "string \<Rightarrow> myfs \<Rightarrow> ((string \<times> int) \<times> (string \<times> int) \<times> u32 \<times> string \<times> string \<times> string) option" where
  "fs_getfacl path s =
     (let idx = find_file_index path s in
      if idx < 0 then None
      else let file = file_table s ! nat idx; perm = fe_permissions file;
               owner = (case fs_get_username (fe_owner_uid file) s of Some n \<Rightarrow> n | None \<Rightarrow> ''unknown'');
               grp = (case fs_get_groupname (fe_group_gid file) s of Some n \<Rightarrow> n | None \<Rightarrow> ''unknown'')
           in Some ((owner, fe_owner_uid file), (grp, fe_group_gid file), perm,
                    permission_to_string (drop_bit 6 perm AND 7),
                    permission_to_string (drop_bit 3 perm AND 7),
                    permission_to_string (perm AND 7)))"

definition effective_perm :: "FileEntry \<Rightarrow> myfs \<Rightarrow> u32" where
  "effective_perm file s =
     (let perm = fe_permissions file in
      if fe_owner_uid file = current_uid s then drop_bit 6 perm AND 7
      else if fs_user_in_group (current_uid s) (fe_group_gid file) s then drop_bit 3 perm AND 7
      else perm AND 7)"

definition fs_check_permission :: "string \<Rightarrow> u32 \<Rightarrow> myfs \<Rightarrow> bool" where
  "fs_check_permission path required_perm s =
     (let idx = find_file_index path s in
      if idx < 0 then False
      else if current_uid s = 0 then True
      else effective_perm (file_table s ! nat idx) s AND required_perm = required_perm)"

end
