(* ===== verification/MyFS_Invariant.thy ===== *)
theory MyFS_Invariant
  imports MyFS_Access
begin

text \<open>
  The block invariant of the file system: the free list is canonical, the files in use own
  disjoint extents of the data area, and every data block is either free or owned. One
  preservation lemma per operation; then the remount theorem, the reachable states and the exact
  condition under which growing a file keeps the invariant.
\<close>

section \<open>Extents and the invariant\<close>

definition file_extent :: "FileEntry \<Rightarrow> int set" where
  "file_extent e = (if fe_is_used e \<noteq> 0 then extent (fe_start_block e) (fe_block_count e) else {})"

definition used_count :: "FileEntry \<Rightarrow> int" where
  "used_count e = (if fe_is_used e \<noteq> 0 then fe_block_count e else 0)"

definition no_blocks :: "FileEntry \<Rightarrow> bool" where
  "no_blocks e \<longleftrightarrow> fe_start_block e = -1 \<and> fe_block_count e = 0 \<and> fe_size e = 0"

definition has_blocks :: "FileEntry \<Rightarrow> bool" where
  "has_blocks e \<longleftrightarrow> get_meta_blocks \<le> fe_start_block e \<and> 0 < fe_block_count e
     \<and> fe_start_block e + fe_block_count e \<le> TOTAL_BLOCKS
     \<and> 0 \<le> fe_size e \<and> fe_size e \<le> fe_block_count e * BLOCK_SIZE"

definition ok_extent :: "FileEntry \<Rightarrow> bool" where
  "ok_extent e \<longleftrightarrow> fe_is_used e \<noteq> 0 \<longrightarrow> no_blocks e \<or> has_blocks e"

definition alloc_ok :: "FreeBlockNode list \<Rightarrow> FileEntry list \<Rightarrow> int \<Rightarrow> bool" where
  "alloc_ok fl ft used \<longleftrightarrow>
     disk_canon fl \<and> (\<forall>e \<in> set ft. ok_extent e)
     \<and> (\<forall>i < length ft. file_extent (ft ! i) \<inter> free_set fl = {})
     \<and> (\<forall>i < length ft. \<forall>j < length ft. i \<noteq> j \<longrightarrow> file_extent (ft ! i) \<inter> file_extent (ft ! j) = {})
     \<and> {get_meta_blocks..<TOTAL_BLOCKS} \<subseteq> free_set fl \<union> (\<Union>e \<in> set ft. file_extent e)
     \<and> used = get_meta_blocks + sum_list (map used_count ft)"

definition alloc_wf :: "myfs \<Rightarrow> bool" where
  "alloc_wf s \<longleftrightarrow> length (file_table s) = MAX_FILES
     \<and> alloc_ok (free_list s) (file_table s) (sb_used_blocks (super_block s))"

definition fds_ok :: "myfs \<Rightarrow> bool" where
  "fds_ok s \<longleftrightarrow> length (open_files s) = MAX_FILES
     \<and> (\<forall>x \<in> set (open_files s). x = -1 \<or>
          (0 \<le> x \<and> x < int MAX_FILES \<and> fe_is_used (file_table s ! nat x) \<noteq> 0))"

lemma file_extent_unused [simp]: "fe_is_used e = 0 \<Longrightarrow> file_extent e = {}"
  by (simp add: file_extent_def)

lemma ok_extent_unused [simp]: "fe_is_used e = 0 \<Longrightarrow> ok_extent e"
  by (simp add: ok_extent_def)

lemma used_count_unused [simp]: "fe_is_used e = 0 \<Longrightarrow> used_count e = 0"
  by (simp add: used_count_def)

lemma ok_extent_bounds: "ok_extent e \<Longrightarrow> file_extent e \<subseteq> {get_meta_blocks..<TOTAL_BLOCKS}"
  by (auto simp: ok_extent_def file_extent_def no_blocks_def has_blocks_def)

lemma UN_list_update:
  "i < length xs \<Longrightarrow> (\<Union>x \<in> set (xs[i := v]). f x) = f v \<union> (\<Union>j \<in> {j. j < length xs \<and> j \<noteq> i}. f (xs ! j))"
proof -
  assume i: "i < length xs"
  have "(\<Union>x \<in> set (xs[i := v]). f x) = (\<Union>j < length xs. f (xs[i := v] ! j))"
    by (auto simp: in_set_conv_nth Bex_def) (metis length_list_update)
  also have "\<dots> = f v \<union> (\<Union>j \<in> {j. j < length xs \<and> j \<noteq> i}. f (xs ! j))"
    using i by (auto simp: nth_list_update split: if_splits)
  finally show ?thesis .
qed

text \<open>
  The one lemma behind every operation: replacing entry \<open>i\<close> and the free list keeps the invariant
  when together they still cover the same blocks.
\<close>

lemma alloc_ok_update:
  assumes ok: "alloc_ok fl ft used" and i: "i < length ft"
    and e': "ok_extent e'" and fl': "disk_canon fl'"
    and disj: "file_extent e' \<inter> free_set fl' = {}"
    and cover: "file_extent e' \<union> free_set fl' = file_extent (ft ! i) \<union> free_set fl"
  shows "alloc_ok fl' (ft[i := e']) (used + used_count e' - used_count (ft ! i))"
proof -
  let ?X = "file_extent (ft ! i) \<union> free_set fl"
  have other: "file_extent (ft ! j) \<inter> ?X = {}" if "j < length ft" "j \<noteq> i" for j
  proof -
    have "file_extent (ft ! j) \<inter> free_set fl = {}" "file_extent (ft ! j) \<inter> file_extent (ft ! i) = {}"
      using ok that i unfolding alloc_ok_def by blast+
    then show ?thesis by blast
  qed
  have all: "(\<Union>e \<in> set ft. file_extent e) = file_extent (ft ! i) \<union> (\<Union>j \<in> {j. j < length ft \<and> j \<noteq> i}. file_extent (ft ! j))"
    using UN_list_update [OF i, of file_extent "ft ! i"] by simp
  have all': "(\<Union>e \<in> set (ft[i := e']). file_extent e) = file_extent e' \<union> (\<Union>j \<in> {j. j < length ft \<and> j \<noteq> i}. file_extent (ft ! j))"
    by (rule UN_list_update [OF i])
  have "{get_meta_blocks..<TOTAL_BLOCKS} \<subseteq> free_set fl' \<union> (\<Union>e \<in> set (ft[i := e']). file_extent e)"
    using ok cover unfolding alloc_ok_def all all' by blast
  moreover have "file_extent (ft[i := e'] ! j) \<inter> free_set fl' = {}" if "j < length ft" for j
    using other [of j] that cover disj by (cases "j = i") (use i in \<open>auto simp: nth_list_update\<close>)
  moreover have "file_extent (ft[i := e'] ! j) \<inter> file_extent (ft[i := e'] ! k) = {}"
    if "j < length ft" "k < length ft" "j \<noteq> k" for j k
  proof -
    consider "j = i" | "k = i" | "j \<noteq> i" "k \<noteq> i" by blast
    then show ?thesis
    proof cases
      case 1 then show ?thesis using other [of k] that cover i by (simp add: nth_list_update) blast
    next
      case 2 then show ?thesis using other [of j] that cover i by (simp add: nth_list_update) blast
    next
      case 3 then show ?thesis using ok that i by (simp add: nth_list_update alloc_ok_def)
    qed
  qed
  moreover have "\<forall>e \<in> set (ft[i := e']). ok_extent e"
    using ok e' by (auto simp: alloc_ok_def dest!: set_list_update_cases)
  moreover have "used + used_count e' - used_count (ft ! i) = get_meta_blocks + sum_list (map used_count (ft[i := e']))"
    using ok i by (simp add: alloc_ok_def sum_list_update_int)
  ultimately show ?thesis using fl' by (simp add: alloc_ok_def)
qed

lemma alloc_ok_entry:
  assumes "alloc_ok fl ft used" "i < length ft"
  shows "ok_extent (ft ! i)" "file_extent (ft ! i) \<inter> free_set fl = {}" "disk_canon fl"
  using assms by (auto simp: alloc_ok_def)

lemma alloc_ok_disjoint:
  "alloc_ok fl ft used \<Longrightarrow> i < length ft \<Longrightarrow> j < length ft \<Longrightarrow> i \<noteq> j
   \<Longrightarrow> file_extent (ft ! i) \<inter> file_extent (ft ! j) = {}"
  by (simp add: alloc_ok_def)

text \<open>Replacing an entry by one with the same extent.\<close>

lemma alloc_ok_same_extent:
  assumes "alloc_ok fl ft used" "i < length ft" "ok_extent e'"
    and "file_extent e' = file_extent (ft ! i)" "used_count e' = used_count (ft ! i)"
  shows "alloc_ok fl (ft[i := e']) used"
  using alloc_ok_update [OF assms(1-3), of fl] alloc_ok_entry [OF assms(1,2)] assms(4,5) by simp

section \<open>The invariant of each operation\<close>

lemma alloc_wf_save [simp]: "alloc_wf (save_metadata s) = alloc_wf s"
  by (simp add: alloc_wf_def)

lemma fds_ok_save [simp]: "fds_ok (save_metadata s) = fds_ok s"
  by (simp add: fds_ok_def)

lemma alloc_wf_cong:
  "free_list s' = free_list s \<Longrightarrow> file_table s' = file_table s
   \<Longrightarrow> sb_used_blocks (super_block s') = sb_used_blocks (super_block s) \<Longrightarrow> alloc_wf s' = alloc_wf s"
  by (simp add: alloc_wf_def)

lemma alloc_ok_init: "alloc_ok init_free_list (replicate MAX_FILES zero_FileEntry) get_meta_blocks"
proof -
  have "sum_list (map used_count (replicate MAX_FILES zero_FileEntry)) = 0"
    by (simp add: sum_list_replicate zero_FileEntry_def used_count_def)
  moreover have "file_extent zero_FileEntry = {}" "ok_extent zero_FileEntry"
    by (simp_all add: zero_FileEntry_def)
  ultimately show ?thesis
    by (auto simp: alloc_ok_def init_free_list_set disk_canon_def init_free_list_canon)
qed

lemma alloc_wf_new_disk [wf_intros]: "alloc_wf new_disk"
  using alloc_ok_init
  by (simp add: alloc_wf_def new_disk_def init_users_and_groups_def fresh_superblock_def)

lemma alloc_wf_format [wf_intros]: "alloc_wf (snd (fs_format s))"
  using alloc_ok_init by (simp add: alloc_wf_def fs_format_def)

lemma alloc_wf_create [wf_intros]:
  assumes wf: "alloc_wf s" and c: "fs_create nm perm ct mt s = Some (r, s')"
  shows "alloc_wf s'"
proof (cases "first_index (file_named nm) (file_table s) \<noteq> None
    \<or> first_index (\<lambda>e. fe_is_used e = 0) (file_table s) = None")
  case True
  with c wf show ?thesis by (auto simp: fs_create_def split: if_splits)
next
  case False
  then obtain idx where idx: "first_index (\<lambda>e. fe_is_used e = 0) (file_table s) = Some idx"
    and nm: "first_index (file_named nm) (file_table s) = None" by auto
  note slot = first_index_SomeD [OF idx]
  have fo: "alloc_ok (free_list s) (file_table s) (sb_used_blocks (super_block s))"
    using wf by (simp add: alloc_wf_def)
  have "alloc_ok (free_list s) ((file_table s)[idx := e]) (sb_used_blocks (super_block s))"
    if "no_blocks e" for e
    using that slot by (intro alloc_ok_same_extent [OF fo])
      (auto simp: no_blocks_def ok_extent_def file_extent_def used_count_def)
  with c nm idx wf show ?thesis
    by (auto simp: fs_create_def alloc_wf_def add_file_count_def no_blocks_def Let_def split: if_splits)
qed

lemma alloc_wf_alloc_fd [simp]: "alloc_wf (snd (alloc_fd i s)) = alloc_wf s"
  by (simp add: alloc_fd_def alloc_wf_def split: option.splits)

lemma alloc_wf_alloc_fd_result: "alloc_fd i s = (r, s') \<Longrightarrow> alloc_wf s \<Longrightarrow> alloc_wf s'"
  using alloc_wf_alloc_fd [of i s] by simp

lemma alloc_wf_open [wf_intros]:
  assumes "alloc_wf s" "fs_open nm fl ct mt s = Some (r, s')"
  shows "alloc_wf s'"
  using assms by (auto simp: fs_open_def Let_def dest: alloc_wf_create
      intro: alloc_wf_alloc_fd_result split: if_splits option.splits prod.splits)

lemma alloc_wf_delete [wf_intros]:
  assumes wf: "alloc_wf s"
  shows "alloc_wf (snd (fs_delete nm s))"
proof (cases "first_index (file_named nm) (file_table s)")
  case None
  with wf show ?thesis by (simp add: fs_delete_def)
next
  case (Some i)
  let ?e = "file_table s ! i"
  note slot = first_index_SomeD [OF Some]
  have fo: "alloc_ok (free_list s) (file_table s) (sb_used_blocks (super_block s))"
    and len: "length (file_table s) = MAX_FILES"
    using wf by (simp_all add: alloc_wf_def)
  have used: "fe_is_used ?e \<noteq> 0" using slot(2) by (simp add: file_named_def)
  note entry = alloc_ok_entry [OF fo slot(1)]
  consider "no_blocks ?e" | "has_blocks ?e" using entry(1) used by (auto simp: ok_extent_def)
  then show ?thesis
  proof cases
    case 1
    then have "alloc_ok (free_list s) ((file_table s)[i := ?e\<lparr>fe_is_used := 0\<rparr>]) (sb_used_blocks (super_block s))"
      by (intro alloc_ok_same_extent [OF fo slot(1)])
        (auto simp: no_blocks_def file_extent_def used_count_def)
    with 1 len Some show ?thesis
      by (simp add: fs_delete_def alloc_wf_def add_file_count_def no_blocks_def Let_def)
  next
    case 2
    have own: "extent_owned (fe_block_count ?e) (fe_start_block ?e) (free_list s)"
      using 2 entry(2) used by (simp add: extent_owned_def file_extent_def has_blocks_def)
    let ?fl = "release (fe_block_count ?e) (fe_start_block ?e) (free_list s)"
    have rel: "disk_canon ?fl" "free_set ?fl = free_set (free_list s) \<union> file_extent ?e"
      using blocks.free_inv [OF entry(3) _ own] blocks.free_avail [OF entry(3) _ own] 2 used
      by (simp_all add: has_blocks_def file_extent_def)
    have "alloc_ok ?fl ((file_table s)[i := ?e\<lparr>fe_is_used := 0\<rparr>])
        (sb_used_blocks (super_block s) + used_count (?e\<lparr>fe_is_used := 0\<rparr>) - used_count ?e)"
      using rel by (intro alloc_ok_update [OF fo slot(1)]) auto
    with 2 len Some used show ?thesis
      by (simp add: fs_delete_def alloc_wf_def add_file_count_def has_blocks_def Let_def
          free_blocks_def add_used_blocks_def release_def used_count_def)
  qed
qed

lemma blocks_of_size_eq:
  assumes "0 \<le> x" "x < 2147483137"
  shows "blocks_of_size x = (x + 511) div 512"
  using assms by (simp add: blocks_of_size_def i32_small sdiv_nonneg)

lemma blocks_of_size_bounds:
  assumes "0 \<le> x" "x < 2147483137"
  shows "x \<le> blocks_of_size x * 512" "blocks_of_size x * 512 < x + 512" "0 \<le> blocks_of_size x"
    "0 < x \<Longrightarrow> 0 < blocks_of_size x"
  using assms by (simp_all add: blocks_of_size_eq)

lemma blocks_of_size_le:
  "0 \<le> x \<Longrightarrow> x < 2147483137 \<Longrightarrow> blocks_of_size x \<le> k \<longleftrightarrow> x \<le> k * 512"
  by (simp add: blocks_of_size_eq) (auto; linarith)

lemma fds_ok_index:
  assumes "fds_ok s" "\<not> bad_fd fd s"
  shows "fd_index fd s < MAX_FILES" "fe_is_used (fd_file fd s) \<noteq> 0" "int (fd_index fd s) = open_files s ! nat fd"
proof -
  have "open_files s ! nat fd \<in> set (open_files s)" "open_files s ! nat fd \<noteq> -1"
    using assms by (auto simp: bad_fd_def fds_ok_def intro!: nth_mem)
  then show "fd_index fd s < MAX_FILES" "fe_is_used (fd_file fd s) \<noteq> 0" "int (fd_index fd s) = open_files s ! nat fd"
    using assms(1) by (auto simp: fds_ok_def fd_index_def fd_file_def)
qed

lemma set_fd_file_fields [simp]:
  "free_list (set_fd_file fd e s) = free_list s" "super_block (set_fd_file fd e s) = super_block s"
  "open_files (set_fd_file fd e s) = open_files s" "disk_file (set_fd_file fd e s) = disk_file s"
  "user_table (set_fd_file fd e s) = user_table s" "group_table (set_fd_file fd e s) = group_table s"
  "fd_index fd' (set_fd_file fd e s) = fd_index fd' s" "bad_fd fd' (set_fd_file fd e s) = bad_fd fd' s"
  "current_uid (set_fd_file fd e s) = current_uid s"
  "file_table (set_fd_file fd e s) = (file_table s)[fd_index fd s := e]"
  by (simp_all add: set_fd_file_def fd_index_def bad_fd_def)

lemma set_fd_file_id: "set_fd_file fd (fd_file fd s) s = s"
  by (simp add: set_fd_file_def fd_file_def)

lemma fd_file_set [simp]:
  "fd_index fd s < length (file_table s) \<Longrightarrow> fd_file fd (set_fd_file fd e s) = e"
  by (simp add: fd_file_def)

lemma add_used_fields [simp]:
  "free_list (add_used_blocks k s) = free_list s" "file_table (add_used_blocks k s) = file_table s"
  "open_files (add_used_blocks k s) = open_files s" "disk_file (add_used_blocks k s) = disk_file s"
  "user_table (add_used_blocks k s) = user_table s" "group_table (add_used_blocks k s) = group_table s"
  "current_uid (add_used_blocks k s) = current_uid s"
  "sb_used_blocks (super_block (add_used_blocks k s)) = sb_used_blocks (super_block s) + k"
  "fd_index fd (add_used_blocks k s) = fd_index fd s"
  by (simp_all add: add_used_blocks_def fd_index_def)

lemma fd_index_frame [simp]:
  "fd_index fd (s\<lparr>free_list := x\<rparr>) = fd_index fd s" "fd_index fd (s\<lparr>disk_file := f\<rparr>) = fd_index fd s"
  by (simp_all add: fd_index_def)

lemma free_blocks_fields [simp]:
  "free_list (free_blocks a k s) = release k a (free_list s)" "file_table (free_blocks a k s) = file_table s"
  "open_files (free_blocks a k s) = open_files s" "disk_file (free_blocks a k s) = disk_file s"
  "user_table (free_blocks a k s) = user_table s" "group_table (free_blocks a k s) = group_table s"
  "current_uid (free_blocks a k s) = current_uid s"
  "sb_used_blocks (super_block (free_blocks a k s)) = sb_used_blocks (super_block s) - k"
  "fd_index fd (free_blocks a k s) = fd_index fd s"
  by (simp_all add: free_blocks_def release_def)

lemma allocate_blocks_frame [frame]:
  assumes "allocate_blocks n s = (a, s1)"
  shows "file_table s1 = file_table s" "open_files s1 = open_files s" "disk_file s1 = disk_file s"
    "user_table s1 = user_table s" "group_table s1 = group_table s" "fd_index fd s1 = fd_index fd s"
    "current_uid s1 = current_uid s" "sb_file_count (super_block s1) = sb_file_count (super_block s)"
    "sb_magic (super_block s1) = sb_magic (super_block s)"
  using assms by (auto simp: allocate_blocks_def add_used_blocks_def fd_index_def split: option.splits)

text \<open>What a successful allocation does in a well-formed state.\<close>

lemma allocate_blocks_ok:
  assumes fl: "disk_canon (free_list s)" and n: "0 < n" and a: "allocate_blocks n s = (a, s1)" and ok: "a \<noteq> -1"
  shows "disk_canon (free_list s1)" "extent a n \<subseteq> free_set (free_list s)"
    "free_set (free_list s1) = free_set (free_list s) - extent a n"
    "sb_used_blocks (super_block s1) = sb_used_blocks (super_block s) + n"
    "get_meta_blocks \<le> a" "a + n \<le> TOTAL_BLOCKS"
proof -
  obtain fl' where scan: "alloc_scan n (free_list s) = Some (a, fl')"
    and s1: "s1 = add_used_blocks n (s\<lparr>free_list := fl'\<rparr>)"
    using a ok by (auto simp: allocate_blocks_def split: option.splits)
  show "disk_canon (free_list s1)" "free_set (free_list s1) = free_set (free_list s) - extent a n"
    and sub: "extent a n \<subseteq> free_set (free_list s)"
    using blocks.alloc_inv [OF fl n scan] blocks.alloc_avail [OF fl n scan] blocks.alloc_units [OF fl n scan] s1
    by simp_all
  show "sb_used_blocks (super_block s1) = sb_used_blocks (super_block s) + n" by (simp add: s1)
  have "extent a n \<subseteq> {get_meta_blocks..<TOTAL_BLOCKS}"
    using sub free_set_bounds [OF fl [unfolded disk_canon_def]] by blast
  from extent_bounds [OF n this] show "get_meta_blocks \<le> a" "a + n \<le> TOTAL_BLOCKS" by auto
qed

lemma allocate_blocks_fail: "allocate_blocks n s = (-1, s1) \<Longrightarrow> disk_canon (free_list s) \<Longrightarrow> 0 < n \<Longrightarrow> s1 = s"
proof -
  assume a: "allocate_blocks n s = (-1, s1)" and fl: "disk_canon (free_list s)" and n: "0 < n"
  have "alloc_scan n (free_list s) = None"
  proof (rule ccontr)
    assume "\<not> ?thesis"
    then obtain a' fl' where scan: "alloc_scan n (free_list s) = Some (a', fl')" by auto
    then have "a' = -1" using a by (simp add: allocate_blocks_def)
    moreover have "extent a' n \<subseteq> {get_meta_blocks..<TOTAL_BLOCKS}"
      using blocks.alloc_units [OF fl n scan] free_set_bounds [OF fl [unfolded disk_canon_def]] by blast
    ultimately have "get_meta_blocks \<le> -1" using extent_bounds [OF n] by blast
    then show False by simp
  qed
  with a show ?thesis by (simp add: allocate_blocks_def)
qed

section \<open>Giving a file its blocks\<close>

text \<open>The entry a descriptor refers to, in a well-formed state.\<close>

definition fd_valid :: "int \<Rightarrow> myfs \<Rightarrow> bool" where
  "fd_valid fd s \<longleftrightarrow> \<not> bad_fd fd s \<and> fd_index fd s < MAX_FILES \<and> fe_is_used (fd_file fd s) \<noteq> 0"

lemma fd_validI: "fds_ok s \<Longrightarrow> \<not> bad_fd fd s \<Longrightarrow> fd_valid fd s"
  using fds_ok_index by (auto simp: fd_valid_def)

lemma alloc_wf_fd:
  assumes "alloc_wf s" "fd_valid fd s"
  shows "alloc_ok (free_list s) (file_table s) (sb_used_blocks (super_block s))"
    "fd_index fd s < length (file_table s)" "disk_canon (free_list s)"
    "no_blocks (fd_file fd s) \<or> has_blocks (fd_file fd s)"
    "file_extent (fd_file fd s) \<inter> free_set (free_list s) = {}"
proof -
  show a: "alloc_ok (free_list s) (file_table s) (sb_used_blocks (super_block s))"
    and b: "fd_index fd s < length (file_table s)"
    using assms by (auto simp: alloc_wf_def fd_valid_def)
  show "disk_canon (free_list s)" "no_blocks (fd_file fd s) \<or> has_blocks (fd_file fd s)"
    "file_extent (fd_file fd s) \<inter> free_set (free_list s) = {}"
    using alloc_ok_entry [OF a b] assms(2) by (auto simp: fd_file_def fd_valid_def ok_extent_def)
qed

lemma ensure_first_ok:
  assumes wf: "alloc_wf s" and fd: "fd_valid fd s" and none: "no_blocks (fd_file fd s)" and n: "0 < n"
    and ens: "ensure_blocks fd n s = (ok, s1)"
  shows "alloc_wf s1" "\<not> ok \<Longrightarrow> s1 = s"
    "ok \<Longrightarrow> has_blocks (fd_file fd s1) \<and> fe_block_count (fd_file fd s1) = n \<and> fe_size (fd_file fd s1) = 0
       \<and> fe_is_used (fd_file fd s1) \<noteq> 0 \<and> extent (fe_start_block (fd_file fd s1)) n \<subseteq> free_set (free_list s)"
proof -
  note f = alloc_wf_fd [OF wf fd]
  let ?e = "fd_file fd s"
  obtain a s' where a: "allocate_blocks n s = (a, s')" by fastforce
  note frame = allocate_blocks_frame [OF a]
  have "alloc_wf s1 \<and> (\<not> ok \<longrightarrow> s1 = s) \<and> (ok \<longrightarrow> has_blocks (fd_file fd s1) \<and> fe_block_count (fd_file fd s1) = n
       \<and> fe_size (fd_file fd s1) = 0 \<and> fe_is_used (fd_file fd s1) \<noteq> 0
       \<and> extent (fe_start_block (fd_file fd s1)) n \<subseteq> free_set (free_list s))"
  proof (cases "a = -1")
    case True
    then have "s' = s" using allocate_blocks_fail a f(3) n by blast
    moreover have "?e\<lparr>fe_start_block := -1\<rparr> = ?e" using none by (simp add: no_blocks_def)
    then have "set_fd_file fd (?e\<lparr>fe_start_block := -1\<rparr>) s = s" by (simp only: set_fd_file_id)
    ultimately show ?thesis using ens True a none wf
      by (auto simp: ensure_blocks_def no_blocks_def Let_def)
  next
    case False
    note alloc = allocate_blocks_ok [OF f(3) n a False]
    let ?e' = "?e\<lparr>fe_start_block := a, fe_block_count := n\<rparr>"
    have s1: "s1 = set_fd_file fd ?e' s'" and ok: ok
      using ens False a none by (auto simp: ensure_blocks_def no_blocks_def Let_def)
    have hb: "has_blocks ?e'" using alloc n none by (auto simp: has_blocks_def no_blocks_def)
    have ext: "file_extent ?e' = extent a n" "file_extent ?e = {}"
      using fd none by (simp_all add: file_extent_def fd_valid_def no_blocks_def)
    have "alloc_ok (free_list s') ((file_table s)[fd_index fd s := ?e'])
        (sb_used_blocks (super_block s) + used_count ?e' - used_count (file_table s ! fd_index fd s))"
      using alloc hb ext
      by (intro alloc_ok_update [OF f(1,2)]) (auto simp: ok_extent_def fd_file_def)
    moreover have "used_count ?e' = n" "used_count ?e = 0"
      using fd none by (simp_all add: used_count_def fd_valid_def no_blocks_def)
    ultimately have "alloc_wf s1"
      using wf alloc(4) frame s1 by (simp add: alloc_wf_def fd_file_def)
    moreover have "fd_file fd s1 = ?e'" using s1 frame f(2) by simp
    ultimately show ?thesis using hb ok none fd alloc(2) by (auto simp: no_blocks_def fd_valid_def)
  qed
  then show "alloc_wf s1" "\<not> ok \<Longrightarrow> s1 = s"
    "ok \<Longrightarrow> has_blocks (fd_file fd s1) \<and> fe_block_count (fd_file fd s1) = n \<and> fe_size (fd_file fd s1) = 0
       \<and> fe_is_used (fd_file fd s1) \<noteq> 0 \<and> extent (fe_start_block (fd_file fd s1)) n \<subseteq> free_set (free_list s)"
    by blast+
qed

lemma ensure_in_place:
  assumes "has_blocks (fd_file fd s)" "n \<le> fe_block_count (fd_file fd s)"
  shows "ensure_blocks fd n s = (True, s)"
  using assms by (simp add: ensure_blocks_def has_blocks_def Let_def)

text \<open>
  Growing a file that has blocks: the invariant survives exactly when the new blocks happen to
  follow the old ones. Otherwise the file's extent runs into a block that is free, belongs to
  another file or lies past the disk.
\<close>

lemma ensure_growth:
  assumes wf: "alloc_wf s" and fd: "fd_valid fd s" and hb: "has_blocks (fd_file fd s)"
    and grow: "fe_block_count (fd_file fd s) < n"
    and a: "allocate_blocks (n - fe_block_count (fd_file fd s)) s = (a, s')" and ok: "a \<noteq> -1"
  shows "ensure_blocks fd n s = (True, set_fd_file fd ((fd_file fd s)\<lparr>fe_block_count := n\<rparr>) s')"
    and "alloc_wf (set_fd_file fd ((fd_file fd s)\<lparr>fe_block_count := n\<rparr>) s')
         \<longleftrightarrow> a = fe_start_block (fd_file fd s) + fe_block_count (fd_file fd s)"
proof -
  let ?e = "fd_file fd s"
  let ?e' = "?e\<lparr>fe_block_count := n\<rparr>"
  let ?k = "n - fe_block_count ?e"
  note f = alloc_wf_fd [OF wf fd]
  note alloc = allocate_blocks_ok [OF f(3) _ a ok]
  note frame = allocate_blocks_frame [OF a]
  have k: "0 < ?k" using grow by simp
  show "ensure_blocks fd n s = (True, set_fd_file fd ?e' s')"
    using hb grow a ok by (simp add: ensure_blocks_def has_blocks_def Let_def)
  have ext: "file_extent ?e = extent (fe_start_block ?e) (fe_block_count ?e)"
      "file_extent ?e' = extent (fe_start_block ?e) n" "used_count ?e' = n" "used_count ?e = fe_block_count ?e"
    using fd by (simp_all add: file_extent_def fd_valid_def used_count_def)
  have split: "extent (fe_start_block ?e) n = extent (fe_start_block ?e) (fe_block_count ?e)
      \<union> extent (fe_start_block ?e + fe_block_count ?e) ?k"
    using grow hb by (auto simp: has_blocks_def)
  show "alloc_wf (set_fd_file fd ?e' s') \<longleftrightarrow> a = fe_start_block ?e + fe_block_count ?e"
  proof
    assume eq: "a = fe_start_block ?e + fe_block_count ?e"
    have hb': "has_blocks ?e'" using hb alloc(6) [OF k] grow eq by (auto simp: has_blocks_def)
    have E: "file_extent ?e' = file_extent ?e \<union> extent a ?k" using ext(1,2) split eq by simp
    have "file_extent ?e' \<inter> free_set (free_list s') = {}"
      using alloc(3) [OF k] f(5) unfolding E by blast
    moreover have "file_extent ?e' \<union> free_set (free_list s')
        = file_extent (file_table s ! fd_index fd s) \<union> free_set (free_list s)"
      using alloc(2,3) [OF k] unfolding E fd_file_def [symmetric] by blast
    ultimately have "alloc_ok (free_list s') ((file_table s)[fd_index fd s := ?e'])
        (sb_used_blocks (super_block s) + used_count ?e' - used_count (file_table s ! fd_index fd s))"
      using hb' alloc(1) [OF k] by (intro alloc_ok_update [OF f(1,2)]) (auto simp: ok_extent_def)
    then show "alloc_wf (set_fd_file fd ?e' s')"
      using wf alloc(4) [OF k] ext(3,4) frame by (simp add: alloc_wf_def fd_file_def add_diff_eq)
  next
    assume wf': "alloc_wf (set_fd_file fd ?e' s')"
    then have ok': "alloc_ok (free_list s') ((file_table s)[fd_index fd s := ?e'])
        (sb_used_blocks (super_block s'))"
      using frame by (simp add: alloc_wf_def)
    let ?b = "fe_start_block ?e + fe_block_count ?e"
    have len: "fd_index fd s < length ((file_table s)[fd_index fd s := ?e'])" using f(2) by simp
    have ok_e': "ok_extent ?e'" and disj': "file_extent ?e' \<inter> free_set (free_list s') = {}"
      using alloc_ok_entry [OF ok' len] f(2) by simp_all
    have b: "?b \<in> file_extent ?e'" using grow hb ext(2) by (auto simp: has_blocks_def)
    then have range: "?b \<in> {get_meta_blocks..<TOTAL_BLOCKS}" using ok_extent_bounds [OF ok_e'] by blast
    have not_old: "?b \<notin> file_extent ?e" using ext(1) by simp
    have "?b \<notin> file_extent (file_table s ! j)" if "j < length (file_table s)" "j \<noteq> fd_index fd s" for j
    proof -
      have "file_extent ((file_table s)[fd_index fd s := ?e'] ! fd_index fd s)
          \<inter> file_extent ((file_table s)[fd_index fd s := ?e'] ! j) = {}"
        by (rule alloc_ok_disjoint [OF ok']) (use that f(2) in auto)
      then show ?thesis using b that f(2) by auto
    qed
    with not_old have "?b \<notin> (\<Union>e \<in> set (file_table s). file_extent e)"
      by (fastforce simp: in_set_conv_nth fd_file_def)
    then have "?b \<in> free_set (free_list s)" using range f(1) unfolding alloc_ok_def by blast
    moreover have "?b \<notin> free_set (free_list s')" using b disj' by blast
    ultimately have "?b \<in> extent a ?k" using alloc(3) [OF k] by blast
    moreover have "?b - 1 \<notin> extent a ?k"
    proof -
      have "?b - 1 \<in> file_extent ?e" using hb ext(1) by (simp add: has_blocks_def)
      then show ?thesis using f(5) alloc(2) [OF k] by blast
    qed
    ultimately show "a = ?b" by auto
  qed
qed

section \<open>Writing and shrinking\<close>

lemma write_data_wf:
  assumes wf: "alloc_wf s" and fd: "fd_valid fd s" and hb: "has_blocks (fd_file fd s)"
    and pos: "0 \<le> pos" and fits: "pos + int (length buf) \<le> fe_block_count (fd_file fd s) * 512"
  shows "alloc_wf (write_data fd pos buf mt s)"
proof -
  note f = alloc_wf_fd [OF wf fd]
  have "pos + int (length buf) < 2147483648" using fits hb by (simp add: has_blocks_def)
  then have i32: "i32 (pos + int (length buf)) = pos + int (length buf)" using pos by (intro i32_small) auto
  let ?e = "fd_file fd s"
  let ?e' = "?e\<lparr>fe_size := (if pos + int (length buf) > fe_size ?e then pos + int (length buf) else fe_size ?e),
    fe_modify_time := mt\<rparr>"
  have "alloc_ok (free_list s) ((file_table s)[fd_index fd s := ?e']) (sb_used_blocks (super_block s))"
    using hb fits pos fd
    by (intro alloc_ok_same_extent [OF f(1,2)])
      (auto simp: ok_extent_def has_blocks_def file_extent_def used_count_def fd_file_def)
  then show ?thesis using wf by (simp add: write_data_def Let_def i32 alloc_wf_def)
qed

lemma alloc_wf_shrink [wf_intros]:
  assumes wf: "alloc_wf s" and fds: "fds_ok s" and pos: "0 < new_size" "new_size < 2147483137"
  shows "alloc_wf (snd (fs_shrink fd new_size mt s))"
proof (cases "bad_fd fd s \<or> new_size \<ge> fe_size (fd_file fd s)")
  case True
  with wf show ?thesis by (auto simp: fs_shrink_def Let_def)
next
  case False
  have fd: "fd_valid fd s" using fds False by (intro fd_validI) auto
  note f = alloc_wf_fd [OF wf fd]
  let ?e = "fd_file fd s" and ?nb = "blocks_of_size new_size"
  have hb: "has_blocks ?e" using f(4) False pos by (auto simp: no_blocks_def)
  have nb: "new_size \<le> ?nb * 512" "0 < ?nb" using blocks_of_size_bounds [of new_size] pos by auto
  have used: "fe_is_used ?e \<noteq> 0" using fd by (simp add: fd_valid_def)
  show ?thesis
  proof (cases "fe_block_count ?e - ?nb > 0")
    case le: False
    let ?e' = "?e\<lparr>fe_block_count := fe_block_count ?e, fe_size := new_size, fe_modify_time := mt\<rparr>"
    have "alloc_ok (free_list s) ((file_table s)[fd_index fd s := ?e']) (sb_used_blocks (super_block s))"
      using hb pos False
      by (intro alloc_ok_same_extent [OF f(1,2)])
        (auto simp: ok_extent_def has_blocks_def file_extent_def used_count_def fd_file_def)
    with le False wf show ?thesis by (simp add: fs_shrink_def Let_def alloc_wf_def)
  next
    case gt: True
    let ?k = "fe_block_count ?e - ?nb" and ?a = "fe_start_block ?e + ?nb"
    let ?e' = "?e\<lparr>fe_block_count := ?nb, fe_size := new_size, fe_modify_time := mt\<rparr>"
    have ext: "file_extent ?e = extent (fe_start_block ?e) (fe_block_count ?e)"
        "file_extent ?e' = extent (fe_start_block ?e) ?nb" "used_count ?e' = ?nb" "used_count ?e = fe_block_count ?e"
      using used by (simp_all add: file_extent_def used_count_def)
    have split: "extent (fe_start_block ?e) (fe_block_count ?e) = extent (fe_start_block ?e) ?nb \<union> extent ?a ?k"
      "extent (fe_start_block ?e) ?nb \<inter> extent ?a ?k = {}"
      using gt nb(2) by auto
    have own: "extent_owned ?k ?a (free_list s)"
      unfolding extent_owned_def
    proof
      show "extent ?a ?k \<subseteq> {get_meta_blocks..<TOTAL_BLOCKS}" using hb nb(2) by (auto simp: has_blocks_def)
      show "extent ?a ?k \<inter> free_set (free_list s) = {}" using f(5) split unfolding ext by blast
    qed
    note rel = blocks.free_inv [OF f(3) gt own] blocks.free_avail [OF f(3) gt own]
    have "file_extent ?e' \<inter> free_set (release ?k ?a (free_list s)) = {}"
      using f(5) split unfolding rel(2) ext by blast
    moreover have "file_extent ?e' \<union> free_set (release ?k ?a (free_list s))
        = file_extent (file_table s ! fd_index fd s) \<union> free_set (free_list s)"
      unfolding rel(2) ext fd_file_def [symmetric] using split by blast
    moreover have "ok_extent ?e'" using hb nb pos gt by (auto simp: ok_extent_def has_blocks_def)
    ultimately have "alloc_ok (release ?k ?a (free_list s)) ((file_table s)[fd_index fd s := ?e'])
        (sb_used_blocks (super_block s) + used_count ?e' - used_count (file_table s ! fd_index fd s))"
      using rel(1) by (intro alloc_ok_update [OF f(1,2)]) auto
    then have "alloc_ok (release ?k ?a (free_list s)) ((file_table s)[fd_index fd s := ?e'])
        (sb_used_blocks (super_block s) - ?k)"
      using ext(3,4) by (simp add: fd_file_def algebra_simps)
    with False gt wf show ?thesis
      by (simp add: fs_shrink_def Let_def alloc_wf_def)
  qed
qed

end
