(* ===== verification/MyFS_Accounts.thy ===== *)
theory MyFS_Accounts
  imports MyFS_Access
begin

text \<open>
  The account invariant: slot 0 of both tables is root, active numbers are distinct and not
  negative, and every user has an array of ten secondary groups. Every account operation keeps
  it; numbers handed out are fresh.
\<close>

section \<open>Fresh numbers\<close>

lemma next_id_ge: "new \<le> next_id active num new xs"
proof (induction xs arbitrary: new)
  case (Cons x xs)
  show ?case using Cons.IH [of "if active x \<and> num x \<ge> new then num x + 1 else new"] by (auto split: if_splits)
qed simp

lemma next_id_fresh: "x \<in> set xs \<Longrightarrow> active x \<Longrightarrow> num x < next_id active num new xs"
proof (induction xs arbitrary: new)
  case (Cons y ys)
  define new' where "new' = (if active y \<and> num y \<ge> new then num y + 1 else new)"
  show ?case
  proof (cases "x = y")
    case True
    with Cons.prems have "num x < new'" by (simp add: new'_def)
    also have "new' \<le> next_id active num new' ys" by (rule next_id_ge)
    finally show ?thesis by (simp add: new'_def)
  next
    case False
    with Cons.prems Cons.IH [of new'] show ?thesis by (simp add: new'_def)
  qed
qed simp

section \<open>Tables of numbered entries\<close>

text \<open>A table with its entries that are in use: their numbers are distinct and slot 0 has number 0.\<close>

definition ids_ok :: "('a \<Rightarrow> bool) \<Rightarrow> ('a \<Rightarrow> int) \<Rightarrow> 'a list \<Rightarrow> bool" where
  "ids_ok active num xs \<longleftrightarrow>
     xs \<noteq> [] \<and> active (xs ! 0) \<and> num (xs ! 0) = 0
     \<and> (\<forall>i < length xs. active (xs ! i) \<longrightarrow> 0 \<le> num (xs ! i))
     \<and> (\<forall>i < length xs. \<forall>j < length xs. active (xs ! i) \<and> active (xs ! j) \<and> num (xs ! i) = num (xs ! j) \<longrightarrow> i = j)"

lemma ids_ok_add:
  assumes ok: "ids_ok active num xs" and i: "i < length xs" "\<not> active (xs ! i)"
    and e: "num e = next_id active num 1 xs"
  shows "ids_ok active num (xs[i := e])"
proof -
  have i0: "i \<noteq> 0" using ok i by (cases i) (auto simp: ids_ok_def)
  have pos: "0 \<le> num e" using next_id_ge [of 1 active num xs] e by simp
  have fresh: "num (xs ! j) \<noteq> num e" if "j < length xs" "active (xs ! j)" for j
    using next_id_fresh [of "xs ! j" xs active num 1] that e by simp
  show ?thesis
    unfolding ids_ok_def
  proof (intro conjI allI impI)
    show "xs[i := e] \<noteq> []" "active (xs[i := e] ! 0)" "num (xs[i := e] ! 0) = 0"
      using ok i0 by (auto simp: ids_ok_def)
    show "0 \<le> num (xs[i := e] ! j)" if "j < length (xs[i := e])" "active (xs[i := e] ! j)" for j
      using that ok pos by (cases "j = i") (auto simp: ids_ok_def)
    show "j = k" if "j < length (xs[i := e])" "k < length (xs[i := e])"
        "active (xs[i := e] ! j) \<and> active (xs[i := e] ! k) \<and> num (xs[i := e] ! j) = num (xs[i := e] ! k)" for j k
    proof -
      have jk: "j < length xs" "k < length xs" using that by simp_all
      consider "j = i" "k = i" | "j = i" "k \<noteq> i" | "j \<noteq> i" "k = i" | "j \<noteq> i" "k \<noteq> i" by blast
      then show ?thesis
      proof cases
        case 1 then show ?thesis by simp
      next
        case 2 then show ?thesis using that(3) fresh [OF jk(2)] jk by simp
      next
        case 3 then show ?thesis using that(3) fresh [OF jk(1)] jk by simp
      next
        case 4 then show ?thesis using that(3) ok jk unfolding ids_ok_def by simp
      qed
    qed
  qed
qed

lemma ids_ok_sub:
  assumes ok: "ids_ok active num xs" and len: "length ys = length xs"
    and zero: "active (ys ! 0)" "num (ys ! 0) = 0"
    and sub: "\<And>i. i < length xs \<Longrightarrow> active (ys ! i) \<Longrightarrow> active (xs ! i) \<and> num (ys ! i) = num (xs ! i)"
  shows "ids_ok active num ys"
  unfolding ids_ok_def len
proof (intro conjI allI impI zero)
  show "ys \<noteq> []" using ok len by (auto simp: ids_ok_def)
  show "0 \<le> num (ys ! i)" if "i < length xs" "active (ys ! i)" for i
    using ok sub [OF that] that(1) by (simp add: ids_ok_def)
  show "i = j" if "i < length xs" "j < length xs"
      "active (ys ! i) \<and> active (ys ! j) \<and> num (ys ! i) = num (ys ! j)" for i j
    using ok that sub [of i] sub [of j] unfolding ids_ok_def by simp
qed

lemma ids_ok_drop:
  assumes "ids_ok active num xs" "0 < i" "\<not> active e"
  shows "ids_ok active num (xs[i := e])"
proof (cases "i < length xs")
  case True
  then show ?thesis
    using assms by (intro ids_ok_sub [OF assms(1)]) (auto simp: ids_ok_def nth_list_update split: if_splits)
next
  case False
  with assms(1) show ?thesis by (simp add: list_update_beyond)
qed

lemma ids_ok_single:
  assumes "0 < n" "active e" "num e = 0" "\<not> active z"
  shows "ids_ok active num ((replicate n z)[0 := e])"
  using assms unfolding ids_ok_def by (auto simp: nth_list_update split: if_splits)

lemma ids_ok_change:
  assumes "ids_ok active num xs" "i < length xs" "active e = active (xs ! i)" "num e = num (xs ! i)"
  shows "ids_ok active num (xs[i := e])"
  using assms by (intro ids_ok_sub [OF assms(1)]) (auto simp: ids_ok_def nth_list_update split: if_splits)

section \<open>The account invariant\<close>

abbreviation user_active :: "User \<Rightarrow> bool" where "user_active u \<equiv> u_is_active u \<noteq> 0"
abbreviation group_active :: "Group \<Rightarrow> bool" where "group_active g \<equiv> g_is_active g \<noteq> 0"

definition users_ok :: "myfs \<Rightarrow> bool" where
  "users_ok s \<longleftrightarrow> length (user_table s) = MAX_USERS \<and> length (group_table s) = MAX_GROUPS
     \<and> ids_ok user_active u_uid (user_table s) \<and> ids_ok group_active g_gid (group_table s)
     \<and> u_username (user_table s ! 0) = ''root'' \<and> g_groupname (group_table s ! 0) = ''root''
     \<and> (\<forall>u \<in> set (user_table s). length (u_groups u) = MAX_GROUPS_PER_USER)"

lemma users_ok_cong:
  "user_table s' = user_table s \<Longrightarrow> group_table s' = group_table s \<Longrightarrow> users_ok s' = users_ok s"
  by (simp add: users_ok_def)

lemma users_ok_fields [simp]:
  "users_ok (s\<lparr>current_uid := u\<rparr>) = users_ok s" "users_ok (s\<lparr>disk_file := f\<rparr>) = users_ok s"
  by (simp_all add: users_ok_def)

lemma users_ok_save [simp]: "users_ok (save_metadata s) = users_ok s"
  by (simp add: users_ok_def)

lemma inactive_not_root:
  assumes "ids_ok active num xs" "\<not> active (xs ! i)" shows "0 < i"
  using assms by (cases i) (auto simp: ids_ok_def)

lemma users_ok_groupadd [wf_intros]:
  assumes "users_ok s" shows "users_ok (snd (fs_groupadd nm s))"
proof -
  have "users_ok (s\<lparr>group_table := (group_table s)[i := (group_table s ! i)\<lparr>g_gid := next_gid (group_table s),
      g_groupname := n, g_is_active := 1\<rparr>]\<rparr>)"
    if "first_index (\<lambda>g. g_is_active g = 0) (group_table s) = Some i" for i n
  proof -
    note slot = first_index_SomeD [OF that]
    have "0 < i" using assms slot(2) by (intro inactive_not_root [of group_active g_gid "group_table s"]) (auto simp: users_ok_def)
    with assms slot show ?thesis by (auto simp: users_ok_def next_gid_def intro!: ids_ok_add)
  qed
  with assms show ?thesis by (auto simp: fs_groupadd_def Let_def split: option.splits)
qed

lemma groupadd_frame:
  assumes "fs_groupadd nm s = (gid, s')"
  shows "user_table s' = user_table s" "current_uid s' = current_uid s" "file_table s' = file_table s"
    "free_list s' = free_list s" "open_files s' = open_files s" "super_block s' = super_block s"
  using assms by (auto simp: fs_groupadd_def Let_def split: if_splits option.splits)

lemma users_ok_useradd [wf_intros]:
  assumes ok: "users_ok s" shows "users_ok (snd (fs_useradd nm s))"
proof -
  obtain gid s' where g: "fs_groupadd nm s = (gid, s')" by fastforce
  have ok': "users_ok s'" using users_ok_groupadd [OF ok, of nm] g by simp
  have "users_ok (s'\<lparr>user_table := (user_table s')[i := (user_table s' ! i)\<lparr>u_uid := next_uid (user_table s),
      u_username := n, u_primary_gid := gid, u_group_count := 0,
      u_groups := replicate MAX_GROUPS_PER_USER (-1), u_is_active := 1\<rparr>]\<rparr>)"
    if "first_index (\<lambda>u. u_is_active u = 0) (user_table s) = Some i" for i n
  proof -
    note slot = first_index_SomeD [OF that]
    have ut: "user_table s' = user_table s" using groupadd_frame(1) [OF g] .
    have "0 < i" using ok slot(2) by (intro inactive_not_root [of user_active u_uid "user_table s"]) (auto simp: users_ok_def)
    with ok' slot show ?thesis
      by (auto simp: users_ok_def next_uid_def ut intro!: ids_ok_add dest!: set_list_update_cases)
  qed
  with ok ok' g show ?thesis by (auto simp: fs_useradd_def Let_def split: option.splits)
qed

lemma named_not_root: "users_ok s \<Longrightarrow> user_named nm (user_table s ! i) \<Longrightarrow> nm \<noteq> ''root'' \<Longrightarrow> 0 < i"
  by (cases i) (auto simp: users_ok_def user_named_def)

lemma group_named_not_root: "users_ok s \<Longrightarrow> group_named nm (group_table s ! i) \<Longrightarrow> nm \<noteq> ''root'' \<Longrightarrow> 0 < i"
  by (cases i) (auto simp: users_ok_def group_named_def)

lemma users_ok_userdel [wf_intros]:
  assumes "users_ok s" shows "users_ok (snd (fs_userdel nm s))"
proof -
  have "users_ok (s\<lparr>user_table := (user_table s)[i := (user_table s ! i)\<lparr>u_is_active := 0\<rparr>]\<rparr>)"
    if "first_index (user_named nm) (user_table s) = Some i" "nm \<noteq> ''root''" for i
    using assms that(2) first_index_SomeD(1,2) [OF that(1)] named_not_root [OF assms, of nm i]
    by (auto simp: users_ok_def intro!: ids_ok_drop dest!: set_list_update_cases)
  with assms show ?thesis by (auto simp: fs_userdel_def split: option.splits)
qed

lemma users_ok_groupdel [wf_intros]:
  assumes "users_ok s" shows "users_ok (snd (fs_groupdel nm s))"
proof -
  have "users_ok (s\<lparr>group_table := (group_table s)[i := (group_table s ! i)\<lparr>g_is_active := 0\<rparr>]\<rparr>)"
    if "first_index (group_named nm) (group_table s) = Some i" "nm \<noteq> ''root''" for i
    using assms that(2) first_index_SomeD(1,2) [OF that(1)] group_named_not_root [OF assms, of nm i]
    by (auto simp: users_ok_def intro!: ids_ok_drop)
  with assms show ?thesis by (auto simp: fs_groupdel_def split: option.splits)
qed

lemma users_ok_usermod [wf_intros]:
  assumes "users_ok s" shows "users_ok (snd (fs_usermod_add_group nm grp s))"
proof -
  have "users_ok (s\<lparr>user_table := (user_table s)[i := (user_table s ! i)
      \<lparr>u_groups := (u_groups (user_table s ! i))[k := gid], u_group_count := c\<rparr>]\<rparr>)"
    if "first_index (user_named nm) (user_table s) = Some i" for i k gid c
  proof -
    note slot = first_index_SomeD [OF that]
    have "length (u_groups (user_table s ! i)) = MAX_GROUPS_PER_USER"
      using assms slot by (auto simp: users_ok_def)
    then show ?thesis using assms slot
      by (auto simp: users_ok_def nth_list_update intro!: ids_ok_change dest!: set_list_update_cases)
  qed
  with assms show ?thesis by (auto simp: fs_usermod_add_group_def Let_def split: option.splits)
qed

lemma users_ok_new_disk: "users_ok new_disk"
proof -
  have u: "user_table new_disk = (replicate MAX_USERS zero_User)[0 := \<lparr>u_uid = 0, u_username = ''root'',
      u_primary_gid = 0, u_groups = replicate MAX_GROUPS_PER_USER (-1), u_group_count = 0, u_is_active = 1\<rparr>]"
    and g: "group_table new_disk = (replicate MAX_GROUPS zero_Group)[0 := \<lparr>g_gid = 0, g_groupname = ''root'', g_is_active = 1\<rparr>]"
    by (simp_all add: new_disk_def init_users_and_groups_def)
  have "ids_ok user_active u_uid (user_table new_disk)" "ids_ok group_active g_gid (group_table new_disk)"
    unfolding u g by (rule ids_ok_single; simp add: zero_User_def zero_Group_def)+
  moreover have "\<forall>u \<in> set (user_table new_disk). length (u_groups u) = MAX_GROUPS_PER_USER"
    unfolding u by (auto simp: zero_User_def dest!: set_list_update_cases)
  ultimately show ?thesis by (simp add: users_ok_def u g)
qed

section \<open>Properties of accounts\<close>

lemma ids_ok_first:
  assumes "ids_ok active num xs" "i < length xs" "active (xs ! i)"
  shows "first_index (\<lambda>x. active x \<and> num x = num (xs ! i)) xs = Some i"
  using assms by (intro first_index_unique) (auto simp: ids_ok_def)

lemma user_exists_iff:
  assumes "users_ok s"
  shows "fs_user_exists nm s \<longleftrightarrow> first_index (user_named nm) (user_table s) \<noteq> None"
proof (cases "first_index (user_named nm) (user_table s)")
  case (Some i)
  from first_index_SomeD(1,2) [OF this] have "0 \<le> u_uid (user_table s ! i)"
    using assms by (simp add: users_ok_def ids_ok_def user_named_def)
  with Some show ?thesis by (simp add: fs_user_exists_def fs_get_uid_def)
qed (simp add: fs_user_exists_def fs_get_uid_def)

lemma group_exists_iff:
  assumes "users_ok s"
  shows "fs_group_exists nm s \<longleftrightarrow> first_index (group_named nm) (group_table s) \<noteq> None"
proof (cases "first_index (group_named nm) (group_table s)")
  case (Some i)
  from first_index_SomeD(1,2) [OF this] have "0 \<le> g_gid (group_table s ! i)"
    using assms by (simp add: users_ok_def ids_ok_def group_named_def)
  with Some show ?thesis by (simp add: fs_group_exists_def fs_get_gid_def)
qed (simp add: fs_group_exists_def fs_get_gid_def)

lemma room_index: "\<exists>x \<in> set xs. P x \<Longrightarrow> \<exists>i. first_index P xs = Some i"
  by (cases "first_index P xs") (auto simp: first_index_None)

lemma first_index_add:
  assumes "first_index P xs = None" "i < length xs" "P e"
  shows "first_index P (xs[i := e]) = Some i"
  using assms by (intro first_index_unique) (auto simp: first_index_None nth_list_update split: if_splits)

lemma groupadd_ok:
  assumes ok: "users_ok s" and root: "current_uid s = 0" and nm: "length nm \<le> 31"
    and new: "\<not> fs_group_exists nm s" and room: "\<exists>g \<in> set (group_table s). g_is_active g = 0"
    and r: "fs_groupadd nm s = (gid, s')"
  shows "0 < gid" "fs_get_gid nm s' = gid" "\<forall>g \<in> set (group_table s). g_is_active g \<noteq> 0 \<longrightarrow> g_gid g < gid"
proof -
  obtain i where i: "first_index (\<lambda>g. g_is_active g = 0) (group_table s) = Some i"
    using room_index [OF room] by blast
  have none: "first_index (group_named nm) (group_table s) = None"
    using new group_exists_iff [OF ok] by simp
  have gid: "gid = next_gid (group_table s)"
    and gt: "group_table s' = (group_table s)[i := (group_table s ! i)\<lparr>g_gid := gid, g_groupname := nm, g_is_active := 1\<rparr>]"
    using r root none i nm by (auto simp: fs_groupadd_def Let_def)
  show "0 < gid" using next_id_ge [of 1 group_active g_gid "group_table s"] gid by (simp add: next_gid_def)
  show "\<forall>g \<in> set (group_table s). g_is_active g \<noteq> 0 \<longrightarrow> g_gid g < gid"
    using next_id_fresh [where active = group_active and num = g_gid] gid by (auto simp: next_gid_def)
  have "first_index (group_named nm) (group_table s') = Some i"
    unfolding gt using none first_index_SomeD(1) [OF i] by (intro first_index_add) (auto simp: group_named_def)
  then show "fs_get_gid nm s' = gid"
    using first_index_SomeD(1) [OF i] by (simp add: fs_get_gid_def gt)
qed

text \<open>
  adding a user, by root, under a name of at most 31 characters that no active user or group
  has, while both tables have an empty slot, succeeds with a number above every active one; the
  new user is found under the name and the number, is member of exactly the new group of the same
  name, and every other entry of the user table is unchanged.
\<close>

theorem useradd_fresh:
  assumes ok: "users_ok s" and root: "current_uid s = 0" and nm: "length nm \<le> 31"
    and new: "\<not> fs_user_exists nm s" "\<not> fs_group_exists nm s"
    and room: "\<exists>u \<in> set (user_table s). u_is_active u = 0" "\<exists>g \<in> set (group_table s). g_is_active g = 0"
    and r: "fs_useradd nm s = (uid, s')"
  shows "0 < uid \<and> (\<forall>u \<in> set (user_table s). u_is_active u \<noteq> 0 \<longrightarrow> u_uid u < uid)
    \<and> fs_get_uid nm s' = uid \<and> fs_get_username uid s' = Some nm
    \<and> (\<forall>gid. fs_user_in_group uid gid s' \<longleftrightarrow> gid = fs_get_gid nm s')
    \<and> (\<exists>i < MAX_USERS. \<forall>j. j \<noteq> i \<longrightarrow> user_table s' ! j = user_table s ! j)"
proof -
  obtain i where i: "first_index (\<lambda>u. u_is_active u = 0) (user_table s) = Some i"
    using room_index [OF room(1)] by blast
  have none: "first_index (user_named nm) (user_table s) = None" using new user_exists_iff [OF ok] by simp
  obtain gid s1 where g: "fs_groupadd nm s = (gid, s1)" by fastforce
  note ga = groupadd_ok [OF ok root nm new(2) room(2) g] and fr = groupadd_frame [OF g]
  let ?u = "(user_table s ! i)\<lparr>u_uid := uid, u_username := nm, u_primary_gid := gid,
      u_group_count := 0, u_groups := replicate MAX_GROUPS_PER_USER (-1), u_is_active := 1\<rparr>"
  have uid: "uid = next_uid (user_table s)"
    and ut: "user_table s' = (user_table s)[i := ?u]" and gt: "group_table s' = group_table s1"
    using r root none i g ga nm fr by (auto simp: fs_useradd_def Let_def)
  have len: "i < length (user_table s)" "length (user_table s) = MAX_USERS"
    using first_index_SomeD(1) [OF i] ok by (auto simp: users_ok_def)
  have fresh: "\<forall>u \<in> set (user_table s). u_is_active u \<noteq> 0 \<longrightarrow> u_uid u < uid"
    using next_id_fresh [where active = user_active and num = u_uid] uid by (auto simp: next_uid_def)
  have "ids_ok user_active u_uid (user_table s')"
    using users_ok_useradd [OF ok, of nm] r by (simp add: users_ok_def)
  from ids_ok_first [OF this, of i]
  have byuid: "first_index (\<lambda>u. user_active u \<and> u_uid u = uid) (user_table s') = Some i"
    using len by (simp add: ut)
  have byname: "first_index (user_named nm) (user_table s') = Some i"
    unfolding ut using none len by (intro first_index_add) (auto simp: user_named_def)
  have "0 < uid" using next_id_ge [of 1 user_active u_uid "user_table s"] uid by (simp add: next_uid_def)
  moreover have "fs_get_uid nm s' = uid" using byname len by (simp add: fs_get_uid_def ut)
  moreover have "fs_get_username uid s' = Some nm" using byuid len by (simp add: fs_get_username_def ut)
  moreover have "fs_get_gid nm s' = gid" using ga(2) gt by (simp add: fs_get_gid_def cong: option.case_cong)
  then have "fs_user_in_group uid g s' \<longleftrightarrow> g = fs_get_gid nm s'" for g
    using byuid len by (auto simp: fs_user_in_group_def ut secondary_groups_def)
  moreover have "\<exists>i < MAX_USERS. \<forall>j. j \<noteq> i \<longrightarrow> user_table s' ! j = user_table s ! j"
    using len by (intro exI [of _ i]) (simp add: ut)
  ultimately show ?thesis using fresh by blast
qed

theorem useradd_fresh_witness:
  "fst (fs_useradd ''ali'' new_disk) = 1 \<and> fs_get_username 1 (snd (fs_useradd ''ali'' new_disk)) = Some ''ali''"
proof -
  have t: "user_table new_disk = (replicate MAX_USERS zero_User)[0 := \<lparr>u_uid = 0, u_username = ''root'',
      u_primary_gid = 0, u_groups = replicate MAX_GROUPS_PER_USER (-1), u_group_count = 0, u_is_active = 1\<rparr>]"
    "group_table new_disk = (replicate MAX_GROUPS zero_Group)[0 := \<lparr>g_gid = 0, g_groupname = ''root'', g_is_active = 1\<rparr>]"
    "current_uid new_disk = 0"
    by (simp_all add: new_disk_def init_users_and_groups_def)
  have none: "\<not> fs_user_exists ''ali'' new_disk" "\<not> fs_group_exists ''ali'' new_disk"
    by (auto simp: user_exists_iff [OF users_ok_new_disk] group_exists_iff [OF users_ok_new_disk] t
        first_index_None user_named_def group_named_def zero_User_def zero_Group_def dest!: set_list_update_cases)
  have room: "\<exists>u \<in> set (user_table new_disk). u_is_active u = 0" "\<exists>g \<in> set (group_table new_disk). g_is_active g = 0"
    by (simp_all add: t zero_User_def zero_Group_def set_update_distinct numeral_eq_Suc)
  obtain uid s' where r: "fs_useradd ''ali'' new_disk = (uid, s')" by fastforce
  have "next_uid (user_table new_disk) = 1"
    by (simp add: next_uid_def t numeral_eq_Suc zero_User_def)
  then have "uid = 1"
    using r useradd_fresh [OF users_ok_new_disk t(3) _ none room r]
    by (auto simp: fs_useradd_def Let_def split: if_splits option.splits prod.splits)
  with useradd_fresh [OF users_ok_new_disk t(3) _ none room r] r show ?thesis by simp
qed

end
