(* ===== verification/MyFS_Reachable.thy ===== *)
theory MyFS_Reachable
  imports MyFS_Invariant MyFS_Accounts
begin

text \<open>
  The file system as a state machine over its interface: which calls keep the invariant, the
  invariant of all reachable states, and the remount theorem that follows from it.
\<close>

section \<open>Writing\<close>

text \<open>The writes that keep the block invariant: into a file without blocks, or within its blocks.\<close>

definition write_safe :: "int \<Rightarrow> int \<Rightarrow> byte list \<Rightarrow> myfs \<Rightarrow> bool" where
  "write_safe fd pos buf s \<longleftrightarrow> 0 \<le> pos \<and> buf \<noteq> [] \<and> pos + int (length buf) < 2147483137
     \<and> (\<not> bad_fd fd s \<longrightarrow> fe_start_block (fd_file fd s) = -1
          \<or> pos + int (length buf) \<le> fe_block_count (fd_file fd s) * BLOCK_SIZE)"

lemma write_safe_i32:
  assumes "write_safe fd pos buf s"
  shows "i32 (pos + int (length buf)) = pos + int (length buf)" "i32 (int (length buf)) = int (length buf)"
  using assms by (auto simp: write_safe_def intro!: i32_small)

lemma ensure_blocks_frame:
  assumes "ensure_blocks fd n s = (ok, s1)"
  shows "open_files s1 = open_files s" "disk_file s1 = disk_file s" "user_table s1 = user_table s"
    "group_table s1 = group_table s" "current_uid s1 = current_uid s" "fd_index fd s1 = fd_index fd s"
    "sb_file_count (super_block s1) = sb_file_count (super_block s)"
    "sb_magic (super_block s1) = sb_magic (super_block s)"
    "\<exists>e. file_table s1 = (file_table s)[fd_index fd s := e]
       \<and> fe_is_used e = fe_is_used (fd_file fd s) \<and> fe_size e = fe_size (fd_file fd s)"
proof -
  have same: "\<exists>e. file_table s = (file_table s)[fd_index fd s := e]
       \<and> fe_is_used e = fe_is_used (fd_file fd s) \<and> fe_size e = fe_size (fd_file fd s)"
    by (rule exI [of _ "fd_file fd s"]) (simp add: fd_file_def)
  obtain a s' where a: "allocate_blocks n s = (a, s')" by fastforce
  obtain b s'' where b: "allocate_blocks (n - fe_block_count (fd_file fd s)) s = (b, s'')" by fastforce
  note fr = allocate_blocks_frame [OF a] allocate_blocks_frame [OF b] set_fd_file_fields
  show "open_files s1 = open_files s" "disk_file s1 = disk_file s" "user_table s1 = user_table s"
    "group_table s1 = group_table s" "current_uid s1 = current_uid s" "fd_index fd s1 = fd_index fd s"
    "sb_file_count (super_block s1) = sb_file_count (super_block s)"
    "sb_magic (super_block s1) = sb_magic (super_block s)"
    using assms a b fr by (auto simp: ensure_blocks_def Let_def split: if_splits)
  show "\<exists>e. file_table s1 = (file_table s)[fd_index fd s := e]
       \<and> fe_is_used e = fe_is_used (fd_file fd s) \<and> fe_size e = fe_size (fd_file fd s)"
    using assms a b fr same by (auto simp: ensure_blocks_def Let_def set_fd_file_def split: if_splits)
qed

lemma ensure_blocks_other:
  "ensure_blocks fd n s = (ok, s1) \<Longrightarrow> j \<noteq> fd_index fd s \<Longrightarrow> file_table s1 ! j = file_table s ! j"
  using ensure_blocks_frame(9) by (metis nth_list_update_neq)

text \<open>
  After the first half of a safe write the file has blocks for the whole of it; if there was no
  space nothing has changed.
\<close>

lemma ensure_write_safe:
  assumes wf: "alloc_wf s" and fd: "fd_valid fd s" and safe: "write_safe fd pos buf s"
    and ens: "ensure_blocks fd (blocks_of_size (pos + int (length buf))) s = (ok, s1)"
  shows "alloc_wf s1" "\<not> ok \<Longrightarrow> s1 = s"
    "ok \<Longrightarrow> has_blocks (fd_file fd s1) \<and> fe_is_used (fd_file fd s1) \<noteq> 0
       \<and> pos + int (length buf) \<le> fe_block_count (fd_file fd s1) * BLOCK_SIZE"
proof -
  let ?x = "pos + int (length buf)"
  note f = alloc_wf_fd [OF wf fd]
  have x: "0 < ?x" "?x < 2147483137" using safe by (auto simp: write_safe_def intro: add_nonneg_pos)
  note n = blocks_of_size_bounds [of ?x]
  have "alloc_wf s1 \<and> (\<not> ok \<longrightarrow> s1 = s) \<and> (ok \<longrightarrow> has_blocks (fd_file fd s1) \<and> fe_is_used (fd_file fd s1) \<noteq> 0
       \<and> ?x \<le> fe_block_count (fd_file fd s1) * BLOCK_SIZE)"
    using f(4)
  proof
    assume none: "no_blocks (fd_file fd s)"
    note first = ensure_first_ok [OF wf fd none _ ens]
    show ?thesis using first n x by auto
  next
    assume hb: "has_blocks (fd_file fd s)"
    then have fits: "?x \<le> fe_block_count (fd_file fd s) * BLOCK_SIZE"
      using safe fd by (auto simp: write_safe_def fd_valid_def has_blocks_def)
    then have "blocks_of_size ?x \<le> fe_block_count (fd_file fd s)"
      using x by (simp add: blocks_of_size_le)
    with ensure_in_place [OF hb] ens have "ok" "s1 = s" by auto
    with wf hb fits fd show ?thesis by (auto simp: fd_valid_def)
  qed
  then show "alloc_wf s1" "\<not> ok \<Longrightarrow> s1 = s"
    "ok \<Longrightarrow> has_blocks (fd_file fd s1) \<and> fe_is_used (fd_file fd s1) \<noteq> 0 \<and> ?x \<le> fe_block_count (fd_file fd s1) * BLOCK_SIZE"
    by blast+
qed

lemma fd_valid_ensure:
  assumes "fd_valid fd s" "ensure_blocks fd n s = (ok, s1)" "fe_is_used (fd_file fd s1) \<noteq> 0"
  shows "fd_valid fd s1"
  using assms(1,3) ensure_blocks_frame [OF assms(2)] by (simp add: fd_valid_def bad_fd_def)

lemma fs_write_cases:
  assumes safe: "write_safe fd pos buf s" and fd: "\<not> bad_fd fd s"
  obtains ok s1 where "ensure_blocks fd (blocks_of_size (pos + int (length buf))) s = (ok, s1)"
    "fs_write fd pos buf mt s = (if ok then (int (length buf), write_data fd pos buf mt s1) else (-1, s1))"
  using fd write_safe_i32 [OF safe]
  by (cases "ensure_blocks fd (blocks_of_size (pos + int (length buf))) s") (simp add: fs_write_def)

lemma alloc_wf_write [wf_intros]:
  assumes wf: "alloc_wf s" and fds: "fds_ok s" and safe: "write_safe fd pos buf s"
  shows "alloc_wf (snd (fs_write fd pos buf mt s))"
proof (cases "bad_fd fd s")
  case True
  with wf show ?thesis by (simp add: fs_write_def)
next
  case False
  have fd: "fd_valid fd s" using fds False by (rule fd_validI)
  from fs_write_cases [OF safe False, of mt] obtain ok s1
    where ens: "ensure_blocks fd (blocks_of_size (pos + int (length buf))) s = (ok, s1)"
      and w: "fs_write fd pos buf mt s = (if ok then (int (length buf), write_data fd pos buf mt s1) else (-1, s1))"
    by blast
  note e = ensure_write_safe [OF wf fd safe ens]
  show ?thesis
  proof (cases ok)
    case True
    with e(3) have "fd_valid fd s1" using fd_valid_ensure [OF fd ens] by blast
    with True e safe w show ?thesis by (auto simp: write_safe_def intro: write_data_wf)
  next
    case False
    with e(1) w show ?thesis by simp
  qed
qed

section \<open>The other operations\<close>

definition sizes_ok :: "myfs \<Rightarrow> bool" where
  "sizes_ok s \<longleftrightarrow> users_ok s \<and> sb_magic (super_block s) = MAGIC_NUMBER"

definition count_used :: "FileEntry list \<Rightarrow> int" where
  "count_used ft = sum_list (map (\<lambda>e. if fe_is_used e \<noteq> 0 then 1 else 0) ft)"

definition count_ok :: "myfs \<Rightarrow> bool" where
  "count_ok s \<longleftrightarrow> sb_file_count (super_block s) = count_used (file_table s)"

definition fs_inv :: "myfs \<Rightarrow> bool" where
  "fs_inv s \<longleftrightarrow> alloc_wf s \<and> fds_ok s \<and> sizes_ok s \<and> count_ok s"

lemma fs_invD: "fs_inv s \<Longrightarrow> alloc_wf s" "fs_inv s \<Longrightarrow> fds_ok s" "fs_inv s \<Longrightarrow> sizes_ok s" "fs_inv s \<Longrightarrow> count_ok s"
  by (simp_all add: fs_inv_def)

lemma fs_inv_save [simp]: "fs_inv (save_metadata s) = fs_inv s"
  by (simp add: fs_inv_def sizes_ok_def count_ok_def)

text \<open>Operations on users, groups and the current user leave the files alone.\<close>

lemma fs_inv_tables:
  assumes "fs_inv s" "file_table s' = file_table s" "free_list s' = free_list s" "open_files s' = open_files s"
    "super_block s' = super_block s" "users_ok s'"
  shows "fs_inv s'"
  using assms alloc_wf_cong [of s' s] by (simp add: fs_inv_def fds_ok_def sizes_ok_def count_ok_def)

lemma count_used_update:
  assumes "i < length ft"
  shows "count_used (ft[i := e]) = count_used ft - (if fe_is_used (ft ! i) \<noteq> 0 then 1 else 0)
     + (if fe_is_used e \<noteq> 0 then 1 else 0)"
  unfolding count_used_def by (rule sum_list_update_int [OF assms])

text \<open>Operations that change one entry of the file table and keep its place and its use.\<close>

lemma fs_inv_entry:
  assumes inv: "fs_inv s" and wf: "alloc_wf s'" and i: "i < length (file_table s)"
    and ft: "file_table s' = (file_table s)[i := e]" and used: "fe_is_used e = fe_is_used (file_table s ! i)"
    and same: "open_files s' = open_files s" "user_table s' = user_table s"
      "group_table s' = group_table s" "sb_magic (super_block s') = sb_magic (super_block s)"
      "sb_file_count (super_block s') = sb_file_count (super_block s)"
  shows "fs_inv s'"
proof -
  have "fds_ok s'"
    using inv i used same(1) by (auto simp: fs_inv_def fds_ok_def ft nth_list_update)
  moreover have "count_ok s'"
    using inv i used same(5) by (simp add: fs_inv_def count_ok_def ft count_used_update)
  ultimately show ?thesis using wf inv same users_ok_cong [of s' s] by (simp add: fs_inv_def sizes_ok_def)
qed

lemma fs_inv_users: "fs_inv s \<Longrightarrow> users_ok s"
  by (simp add: fs_inv_def sizes_ok_def)

lemma fs_inv_groupadd [wf_intros]: "fs_inv s \<Longrightarrow> fs_inv (snd (fs_groupadd nm s))"
  using users_ok_groupadd [OF fs_inv_users, of s nm]
  by - (rule fs_inv_tables [of s], auto simp: fs_groupadd_def Let_def split: option.splits)

lemma fs_inv_useradd [wf_intros]: "fs_inv s \<Longrightarrow> fs_inv (snd (fs_useradd nm s))"
  using users_ok_useradd [OF fs_inv_users, of s nm]
  by - (rule fs_inv_tables [of s], auto simp: fs_useradd_def Let_def groupadd_frame split: option.splits prod.splits)

lemma fs_inv_userdel [wf_intros]: "fs_inv s \<Longrightarrow> fs_inv (snd (fs_userdel nm s))"
  using users_ok_userdel [OF fs_inv_users, of s nm]
  by - (rule fs_inv_tables [of s], auto simp: fs_userdel_def split: option.splits)

lemma fs_inv_groupdel [wf_intros]: "fs_inv s \<Longrightarrow> fs_inv (snd (fs_groupdel nm s))"
  using users_ok_groupdel [OF fs_inv_users, of s nm]
  by - (rule fs_inv_tables [of s], auto simp: fs_groupdel_def split: option.splits)

lemma fs_inv_usermod [wf_intros]: "fs_inv s \<Longrightarrow> fs_inv (snd (fs_usermod_add_group nm grp s))"
  using users_ok_usermod [OF fs_inv_users, of s nm grp]
  by - (rule fs_inv_tables [of s], auto simp: fs_usermod_add_group_def Let_def split: option.splits)

lemma fs_inv_switch [wf_intros]: "fs_inv s \<Longrightarrow> fs_inv (fs_switch_user nm s)"
  using fs_inv_users [of s]
  by - (rule fs_inv_tables [of s], auto simp: fs_switch_user_def Let_def)

lemma fs_inv_read [wf_intros]: "fs_inv s \<Longrightarrow> fs_inv (snd (fs_read fd pos n s))"
  using fs_inv_users [of s]
  by - (rule fs_inv_tables [of s], auto simp: fs_read_def Let_def split: prod.splits)

lemma find_file_index_Some:
  "\<not> find_file_index nm s < 0 \<Longrightarrow> first_index (file_named nm) (file_table s) = Some (nat (find_file_index nm s))"
  by (simp add: find_file_index_def split: option.splits)

lemma find_file_index_bounds:
  assumes "\<not> find_file_index nm s < 0"
  shows "nat (find_file_index nm s) < length (file_table s)"
    "file_named nm (file_table s ! nat (find_file_index nm s))"
  using first_index_SomeD(1,2) [OF find_file_index_Some [OF assms]] by blast+

text \<open>Changing mode, owner or group of an entry.\<close>

lemma fs_inv_upd_file:
  assumes inv: "fs_inv s" and i: "i < length (file_table s)"
    and same: "\<And>e. fe_is_used (f e) = fe_is_used e" "\<And>e. fe_start_block (f e) = fe_start_block e"
      "\<And>e. fe_block_count (f e) = fe_block_count e" "\<And>e. fe_size (f e) = fe_size e"
  shows "fs_inv (upd_file i f s)"
proof -
  have ok: "alloc_ok (free_list s) (file_table s) (sb_used_blocks (super_block s))"
    using inv by (simp add: fs_inv_def alloc_wf_def)
  have "alloc_ok (free_list s) ((file_table s)[i := f (file_table s ! i)]) (sb_used_blocks (super_block s))"
    using alloc_ok_entry(1) [OF ok i]
    by (intro alloc_ok_same_extent [OF ok i])
      (auto simp: ok_extent_def no_blocks_def has_blocks_def file_extent_def used_count_def same)
  then have "alloc_wf (upd_file i f s)"
    using inv by (simp add: fs_inv_def alloc_wf_def upd_file_def)
  then show ?thesis
    by (rule fs_inv_entry [where e = "f (file_table s ! i)", OF inv _ i]) (simp_all add: upd_file_def same)
qed

lemma fs_inv_chmod [wf_intros]: "fs_inv s \<Longrightarrow> fs_inv (snd (fs_chmod nm mode s))"
  by (simp add: fs_chmod_def Let_def fs_inv_upd_file find_file_index_bounds)

lemma fs_inv_chown [wf_intros]: "fs_inv s \<Longrightarrow> fs_inv (snd (fs_chown nm user s))"
  by (simp add: fs_chown_def Let_def fs_inv_upd_file find_file_index_bounds)

lemma fs_inv_chgrp [wf_intros]: "fs_inv s \<Longrightarrow> fs_inv (snd (fs_chgrp nm grp s))"
  by (simp add: fs_chgrp_def Let_def fs_inv_upd_file find_file_index_bounds)

lemma fs_inv_create [wf_intros]:
  assumes inv: "fs_inv s" and c: "fs_create nm perm ct mt s = Some (r, s')"
  shows "fs_inv s'"
proof -
  have wf: "alloc_wf s'" by (rule alloc_wf_create [OF fs_invD(1) [OF inv] c])
  have "fds_ok s' \<and> count_ok s' \<and> sizes_ok s'"
  proof (cases "first_index (\<lambda>e. fe_is_used e = 0) (file_table s)")
    case None
    then show ?thesis using c fs_invD [OF inv] by (auto simp: fs_create_def split: if_splits)
  next
    case (Some i)
    note slot = first_index_SomeD [OF Some]
    show ?thesis using c Some slot fs_invD(2-4) [OF inv]
      by (auto simp: fs_create_def Let_def fds_ok_def count_ok_def sizes_ok_def users_ok_def add_file_count_def
          count_used_update nth_list_update split: if_splits)
  qed
  with wf show ?thesis by (simp add: fs_inv_def)
qed

lemma create_result:
  assumes "fs_create nm perm ct mt s = Some (r, s')" "r \<noteq> -1" "fs_inv s"
  shows "0 \<le> r" "r < int MAX_FILES" "fe_is_used (file_table s' ! nat r) \<noteq> 0"
  using assms by (auto simp: fs_create_def Let_def add_file_count_def fs_inv_def alloc_wf_def
      dest: first_index_SomeD split: if_splits option.splits)

lemma fs_inv_alloc_fd:
  assumes inv: "fs_inv s" and i: "0 \<le> i" "i < int MAX_FILES" "fe_is_used (file_table s ! nat i) \<noteq> 0"
  shows "fs_inv (snd (alloc_fd i s))"
proof -
  have "fds_ok (snd (alloc_fd i s))"
    using inv i by (auto simp: alloc_fd_def fds_ok_def fs_inv_def split: option.splits dest!: set_list_update_cases)
  with inv show ?thesis by (auto simp: fs_inv_def alloc_fd_def sizes_ok_def users_ok_def count_ok_def alloc_wf_def split: option.splits)
qed

lemma fs_inv_open [wf_intros]:
  assumes inv: "fs_inv s" and o: "fs_open nm fl ct mt s = Some (r, s')"
  shows "fs_inv s'"
proof (cases "find_file_index nm s = -1")
  case True
  show ?thesis
  proof (cases "fl AND O_CREAT = 0")
    case True
    with \<open>find_file_index nm s = -1\<close> o inv show ?thesis by (simp add: fs_open_def)
  next
    case False
    with True o obtain i s1 where c: "fs_create nm 420 ct mt s = Some (i, s1)"
      and r: "(if i = -1 then (-1, s1) else alloc_fd i s1) = (r, s')"
      by (auto simp: fs_open_def Let_def split: option.splits if_splits)
    have "fs_inv s1" by (rule fs_inv_create [OF inv c])
    then have "fs_inv (snd (if i = -1 then (-1, s1) else alloc_fd i s1))"
      using fs_inv_alloc_fd create_result [OF c _ inv] by simp
    with r show ?thesis by simp
  qed
next
  case False
  then have nn: "\<not> find_file_index nm s < 0" by (auto simp: find_file_index_def split: option.splits)
  note b = find_file_index_bounds [OF nn]
  have "fs_inv (snd (alloc_fd (find_file_index nm s) s))"
    using b nn inv by (intro fs_inv_alloc_fd) (auto simp: fs_inv_def alloc_wf_def file_named_def)
  moreover have "alloc_fd (find_file_index nm s) s = (r, s')" using False o by (simp add: fs_open_def)
  ultimately show ?thesis by simp
qed

lemma fs_inv_write [wf_intros]:
  assumes inv: "fs_inv s" and safe: "write_safe fd pos buf s"
  shows "fs_inv (snd (fs_write fd pos buf mt s))"
proof (cases "bad_fd fd s")
  case True
  with inv show ?thesis by (simp add: fs_write_def)
next
  case False
  from fs_write_cases [OF safe False, of mt] obtain ok s1
    where ens: "ensure_blocks fd (blocks_of_size (pos + int (length buf))) s = (ok, s1)"
      and w: "fs_write fd pos buf mt s = (if ok then (int (length buf), write_data fd pos buf mt s1) else (-1, s1))"
    by blast
  note fr = ensure_blocks_frame [OF ens]
  from fr(9) obtain e where e: "file_table s1 = (file_table s)[fd_index fd s := e]"
    and used: "fe_is_used e = fe_is_used (fd_file fd s)" by blast
  have i: "fd_index fd s < length (file_table s)"
    using alloc_wf_fd(2) [OF fs_invD(1) [OF inv] fd_validI [OF fs_invD(2) [OF inv] False]] .
  have wf: "alloc_wf (snd (fs_write fd pos buf mt s))"
    by (rule alloc_wf_write [OF fs_invD(1,2) [OF inv] safe]) 
  have e1: "fd_file fd s1 = e" using e i fr(6) by (simp add: fd_file_def)
  show ?thesis
  proof (cases ok)
    case True
    let ?e = "fd_file fd (snd (fs_write fd pos buf mt s))"
    have "file_table (snd (fs_write fd pos buf mt s)) = (file_table s)[fd_index fd s := ?e]"
      using w True e i fr(6) by (simp add: write_data_def Let_def fd_file_def fd_index_def)
    moreover have "fe_is_used ?e = fe_is_used (file_table s ! fd_index fd s)"
      using w True e1 used i e fr(6) by (simp add: write_data_def Let_def fd_file_def fd_index_def)
    ultimately show ?thesis
      by (rule fs_inv_entry [OF inv wf i]) (use w True fr in \<open>simp_all add: write_data_def Let_def\<close>)
  next
    case False
    have "file_table (snd (fs_write fd pos buf mt s)) = (file_table s)[fd_index fd s := e]"
      "fe_is_used e = fe_is_used (file_table s ! fd_index fd s)"
      using w False e used by (simp_all add: fd_file_def)
    then show ?thesis by (rule fs_inv_entry [OF inv wf i]) (use w False fr in simp_all)
  qed
qed

lemma fs_inv_shrink [wf_intros]:
  assumes inv: "fs_inv s" and k: "0 < k" "k < 2147483137"
  shows "fs_inv (snd (fs_shrink fd k mt s))"
proof (cases "bad_fd fd s \<or> k \<ge> fe_size (fd_file fd s)")
  case True
  with inv show ?thesis by (auto simp: fs_shrink_def Let_def)
next
  case False
  have i: "fd_index fd s < length (file_table s)"
    using alloc_wf_fd(2) [OF fs_invD(1) [OF inv] fd_validI [OF fs_invD(2) [OF inv]]] False by blast
  have wf: "alloc_wf (snd (fs_shrink fd k mt s))"
    by (rule alloc_wf_shrink [OF fs_invD(1,2) [OF inv] k])
  have "\<exists>e. file_table (snd (fs_shrink fd k mt s)) = (file_table s)[fd_index fd s := e]
      \<and> fe_is_used e = fe_is_used (file_table s ! fd_index fd s)"
    using False by (auto simp: fs_shrink_def Let_def free_blocks_def add_used_blocks_def fd_index_def fd_file_def)
  then obtain e where "file_table (snd (fs_shrink fd k mt s)) = (file_table s)[fd_index fd s := e]"
      "fe_is_used e = fe_is_used (file_table s ! fd_index fd s)" by blast
  then show ?thesis
    by (rule fs_inv_entry [OF inv wf i]) (use False in \<open>auto simp: fs_shrink_def Let_def free_blocks_def add_used_blocks_def\<close>)
qed

lemma fs_inv_delete [wf_intros]:
  assumes inv: "fs_inv s"
  shows "fs_inv (snd (fs_delete nm s))"
proof (cases "first_index (file_named nm) (file_table s)")
  case None
  with inv show ?thesis by (simp add: fs_delete_def)
next
  case (Some i)
  note slot = first_index_SomeD [OF Some]
  have wf: "alloc_wf (snd (fs_delete nm s))" by (rule alloc_wf_delete [OF fs_invD(1) [OF inv]])
  have used: "fe_is_used (file_table s ! i) \<noteq> 0" using slot(2) by (simp add: file_named_def)
  have "fds_ok (snd (fs_delete nm s))"
    using Some fs_invD(2) [OF inv]
    by (auto simp: fs_delete_def Let_def fds_ok_def free_blocks_def add_used_blocks_def add_file_count_def nth_list_update)
  moreover have "count_ok (snd (fs_delete nm s))" "sizes_ok (snd (fs_delete nm s))"
    using Some fs_invD(3,4) [OF inv] slot(1) used
    by (auto simp: fs_delete_def Let_def count_ok_def sizes_ok_def users_ok_def free_blocks_def add_used_blocks_def
        add_file_count_def count_used_update)
  ultimately show ?thesis using wf by (simp add: fs_inv_def)
qed

lemma fs_inv_close_file [wf_intros]: "fs_inv s \<Longrightarrow> fs_inv (fs_close_file fd s)"
  by (auto simp: fs_close_file_def fs_inv_def fds_ok_def sizes_ok_def users_ok_def count_ok_def alloc_wf_def
      dest!: set_list_update_cases)

lemma count_used_zero: "count_used (replicate n zero_FileEntry) = 0"
  by (induction n) (simp_all add: count_used_def zero_FileEntry_def)

lemma fs_inv_format [wf_intros]:
  assumes "fs_inv s" "\<forall>x \<in> set (open_files s). x = -1"
  shows "fs_inv (snd (fs_format s))"
  using assms alloc_wf_format [of s] count_used_zero [of MAX_FILES]
  by (simp add: fs_inv_def fs_format_def fds_ok_def sizes_ok_def users_ok_def count_ok_def)

section \<open>The state machine\<close>

text \<open>
  The calls of the interface. Writing is under \<open>write_safe\<close> (see \<open>ensure_growth\<close> for what happens
  otherwise), shrinking to a positive size, formatting with no file open.
\<close>

inductive fs_op :: "myfs \<Rightarrow> myfs \<Rightarrow> bool" where
  op_create: "fs_create nm perm ct mt s = Some (r, s') \<Longrightarrow> fs_op s s'"
| op_open: "fs_open nm flags ct mt s = Some (r, s') \<Longrightarrow> fs_op s s'"
| op_read: "fs_op s (snd (fs_read fd pos n s))"
| op_write: "write_safe fd pos buf s \<Longrightarrow> fs_op s (snd (fs_write fd pos buf mt s))"
| op_shrink: "0 < k \<Longrightarrow> k < 2147483137 \<Longrightarrow> fs_op s (snd (fs_shrink fd k mt s))"
| op_delete: "fs_op s (snd (fs_delete nm s))"
| op_close_file: "fs_op s (fs_close_file fd s)"
| op_format: "\<forall>x \<in> set (open_files s). x = -1 \<Longrightarrow> fs_op s (snd (fs_format s))"
| op_useradd: "fs_op s (snd (fs_useradd nm s))"
| op_userdel: "fs_op s (snd (fs_userdel nm s))"
| op_groupadd: "fs_op s (snd (fs_groupadd nm s))"
| op_groupdel: "fs_op s (snd (fs_groupdel nm s))"
| op_usermod: "fs_op s (snd (fs_usermod_add_group nm grp s))"
| op_switch: "fs_op s (fs_switch_user nm s)"
| op_chmod: "fs_op s (snd (fs_chmod nm mode s))"
| op_chown: "fs_op s (snd (fs_chown nm user s))"
| op_chgrp: "fs_op s (snd (fs_chgrp nm grp s))"

text \<open>The start on a path where no image exists yet.\<close>

definition fs_started :: "myfs \<Rightarrow> bool" where
  "fs_started s \<longleftrightarrow> fs_init None True = (0, Some s)"

lemma fs_inv_started: "fs_started s \<Longrightarrow> fs_inv s"
proof -
  assume "fs_started s"
  then have s: "s = new_disk\<lparr>open_files := replicate MAX_FILES (-1)\<rparr>" by (simp add: fs_started_def fs_init_def)
  have "count_ok s" "sizes_ok s" "fds_ok s"
    using count_used_zero [of MAX_FILES] users_ok_new_disk users_ok_cong [of s new_disk]
    by (simp_all add: s count_ok_def sizes_ok_def fds_ok_def new_disk_def init_users_and_groups_def fresh_superblock_def)
  moreover have "alloc_wf s" using alloc_wf_new_disk by (simp add: s alloc_wf_def)
  ultimately show ?thesis by (simp add: fs_inv_def)
qed

interpretation fsys: invariant_system fs_started fs_op fs_inv
proof
  fix s t
  show "fs_inv s" if "fs_started s" using that by (rule fs_inv_started)
  show "fs_inv t" if inv: "fs_inv s" and step: "fs_op s t"
    using step inv by cases (auto intro: wf_intros)
qed

end
