(* ===== verification/MyFS_Theorems.thy ===== *)
theory MyFS_Theorems
  imports MyFS_Reachable
begin

unbundle bit_operations_syntax

text \<open>
  The properties of the user-level file system: what holds in every reachable state, that closing
  and starting again loses nothing, what allocation promises, what a write does to the file and to
  the others, and who may do what.
\<close>

section \<open>Reachable states\<close>

lemma free_set_card: "fl_canon lo hi fl \<Longrightarrow> int (card (free_set fl)) = sum_list (map get_block_count fl)"
proof (induction fl arbitrary: lo)
  case (Cons c fl)
  have c: "fb_start c \<le> fb_end c" "fl_canon (fb_end c + 2) hi fl" using Cons.prems by (auto simp: fl_canon_Cons)
  have "finite (free_set fl)" using finite_subset [OF free_set_bounds [OF c(2)]] by simp
  then have "card (free_set (c # fl)) = card (node_set c) + card (free_set fl)"
    using canon_tail_disjoint [OF Cons.prems] by (simp add: card_Un_disjoint node_set_def)
  with Cons.IH [OF c(2)] c(1) show ?case by (simp add: node_set_def get_block_count_def)
qed simp

lemma sum_list_card:
  assumes "\<forall>i < length ft. \<forall>j < length ft. i \<noteq> j \<longrightarrow> file_extent (ft ! i) \<inter> file_extent (ft ! j) = {}"
    and "\<forall>e \<in> set ft. ok_extent e"
  shows "int (card (\<Union>i < length ft. file_extent (ft ! i))) = sum_list (map used_count ft)"
proof -
  have "card (\<Union>i < length ft. file_extent (ft ! i)) = (\<Sum>i < length ft. card (file_extent (ft ! i)))"
    using assms(1) by (intro card_UN_disjoint) (auto simp: file_extent_def)
  moreover have "int (card (file_extent (ft ! i))) = used_count (ft ! i)" if "i < length ft" for i
    using assms(2) that by (auto simp: file_extent_def used_count_def ok_extent_def no_blocks_def has_blocks_def)
  then have "(\<Sum>i < length ft. int (card (file_extent (ft ! i)))) = (\<Sum>i < length ft. used_count (ft ! i))"
    by (intro sum.cong) auto
  ultimately show ?thesis by (simp add: sum_list_sum_nth atLeast0LessThan)
qed

lemma used_blocks_free:
  assumes "alloc_wf s"
  shows "sb_used_blocks (super_block s) + sum_list (map get_block_count (free_list s)) = TOTAL_BLOCKS"
proof -
  let ?ft = "file_table s" and ?F = "free_set (free_list s)"
  let ?U = "\<Union>i < length ?ft. file_extent (?ft ! i)"
  have ok: "alloc_ok (free_list s) ?ft (sb_used_blocks (super_block s))" using assms by (simp add: alloc_wf_def)
  then have canon: "fl_canon get_meta_blocks TOTAL_BLOCKS (free_list s)" by (simp add: alloc_ok_def disk_canon_def)
  have U: "?U = (\<Union>e \<in> set ?ft. file_extent e)" by (force simp: in_set_conv_nth)
  have "?U \<subseteq> {get_meta_blocks..<TOTAL_BLOCKS}" using ok ok_extent_bounds unfolding U alloc_ok_def by blast
  then have all: "{get_meta_blocks..<TOTAL_BLOCKS} = ?F \<union> ?U"
    using ok free_set_bounds [OF canon] unfolding U alloc_ok_def by blast
  moreover have "?F \<inter> ?U = {}" using ok unfolding alloc_ok_def by blast
  moreover have "finite ?F" "finite ?U" using all by (metis finite_Un finite_atLeastLessThan_int)+
  ultimately have "card {get_meta_blocks..<TOTAL_BLOCKS} = card ?F + card ?U" by (metis card_Un_disjoint)
  moreover have "int (card ?U) = sum_list (map used_count ?ft)"
    using ok by (intro sum_list_card) (auto simp: alloc_ok_def)
  ultimately have "int (card {get_meta_blocks..<TOTAL_BLOCKS}) = sum_list (map get_block_count (free_list s)) + sum_list (map used_count ?ft)"
    using free_set_card [OF canon] by simp
  then show ?thesis using ok by (simp add: alloc_ok_def)
qed

text \<open>
  C1: in every state that a run of the interface reaches from a new disk, each block of the data
  area is either free or belongs to exactly one file in use, no file owns a block outside the data
  area, the superblock's count of used blocks and the free blocks add up to the disk, its count of
  files is the number of entries in use, and the root account is in place.
\<close>

theorem reachable_disk:
  assumes "fs_started s0" "fs_op\<^sup>*\<^sup>* s0 s"
  shows "(\<forall>b. get_meta_blocks \<le> b \<and> b < TOTAL_BLOCKS \<longrightarrow>
        (b \<notin> free_set (free_list s) \<longleftrightarrow> (\<exists>!i. i < MAX_FILES \<and> b \<in> file_extent (file_table s ! i))))
    \<and> (\<forall>b. b \<in> free_set (free_list s) \<longrightarrow> (\<forall>i < MAX_FILES. b \<notin> file_extent (file_table s ! i)))
    \<and> (\<forall>i < MAX_FILES. file_extent (file_table s ! i) \<subseteq> {get_meta_blocks..<TOTAL_BLOCKS})
    \<and> sb_used_blocks (super_block s) + sum_list (map get_block_count (free_list s)) = TOTAL_BLOCKS
    \<and> sb_file_count (super_block s) = int (length (filter (\<lambda>e. fe_is_used e \<noteq> 0) (file_table s)))
    \<and> fs_get_username 0 s = Some ''root''"
proof -
  have inv: "fs_inv s" by (rule fsys.reachable_inv [OF assms])
  then have len: "length (file_table s) = MAX_FILES"
    and ok: "alloc_ok (free_list s) (file_table s) (sb_used_blocks (super_block s))"
    by (auto simp: fs_inv_def alloc_wf_def)
  have free: "b \<notin> file_extent (file_table s ! i)" if "b \<in> free_set (free_list s)" "i < MAX_FILES" for b i
    using that alloc_ok_entry(2) [OF ok] len by auto
  have uniq: "i = j" if "i < MAX_FILES" "j < MAX_FILES" "b \<in> file_extent (file_table s ! i)" "b \<in> file_extent (file_table s ! j)" for b i j
    using alloc_ok_disjoint [OF ok, of i j] that len by auto
  have some: "\<exists>i < MAX_FILES. b \<in> file_extent (file_table s ! i)"
    if "b \<in> {get_meta_blocks..<TOTAL_BLOCKS}" "b \<notin> free_set (free_list s)" for b
  proof -
    have "b \<in> (\<Union>e \<in> set (file_table s). file_extent e)" using ok that unfolding alloc_ok_def by blast
    then show ?thesis using len by (auto simp: in_set_conv_nth)
  qed
  have one: "b \<notin> free_set (free_list s) \<longleftrightarrow> (\<exists>!i. i < MAX_FILES \<and> b \<in> file_extent (file_table s ! i))"
    if "b \<in> {get_meta_blocks..<TOTAL_BLOCKS}" for b
    using free some [OF that] uniq by (metis (no_types, lifting))
  have range: "file_extent (file_table s ! i) \<subseteq> {get_meta_blocks..<TOTAL_BLOCKS}" if "i < MAX_FILES" for i
    using ok_extent_bounds alloc_ok_entry(1) [OF ok] that len by simp
  have "count_used ft = int (length (filter (\<lambda>e. fe_is_used e \<noteq> 0) ft))" for ft
    by (induction ft) (auto simp: count_used_def)
  then have "sb_file_count (super_block s) = int (length (filter (\<lambda>e. fe_is_used e \<noteq> 0) (file_table s)))"
    using fs_invD(4) [OF inv] by (simp add: count_ok_def)
  moreover have "sb_used_blocks (super_block s) + sum_list (map get_block_count (free_list s)) = TOTAL_BLOCKS"
    by (rule used_blocks_free [OF fs_invD(1) [OF inv]])
  moreover have users: "users_ok s" using fs_inv_users [OF inv] .
  then have "fs_get_username 0 s = Some ''root''"
    using ids_ok_first [of user_active u_uid "user_table s" 0]
    by (auto simp: users_ok_def fs_get_username_def ids_ok_def)
  ultimately show ?thesis using one free range by auto
qed

text \<open>The states the witnesses use: a new disk, and the same after \<open>fs_open\<close> made a file.\<close>

definition disk0 :: myfs where
  "disk0 = new_disk\<lparr>open_files := replicate MAX_FILES (-1)\<rparr>"

definition disk1 :: myfs where
  "disk1 = snd (the (fs_open ''a'' O_CREAT 0 0 disk0))"

lemma disk0_started: "fs_started disk0"
  by (simp add: fs_started_def fs_init_def disk0_def)

lemma disk0_inv: "fs_inv disk0"
  by (rule fs_inv_started [OF disk0_started])

lemma disk0_file_table: "file_table disk0 = replicate MAX_FILES zero_FileEntry"
  by (simp add: disk0_def new_disk_def init_users_and_groups_def)

lemma disk0_fields:
  "current_uid disk0 = 0" "free_list disk0 = init_free_list" "open_files disk0 = replicate MAX_FILES (-1)"
  "super_block disk0 = fresh_superblock"
  by (simp_all add: disk0_def new_disk_def init_users_and_groups_def)

lemma first_index_replicate: "P x \<Longrightarrow> 0 < n \<Longrightarrow> first_index P (replicate n x) = Some 0"
  by (cases n) auto

lemma disk1_open:
  "fs_open ''a'' O_CREAT 0 0 disk0 = Some (0, disk1)"
  "file_table disk1 = (replicate MAX_FILES zero_FileEntry)[0 := \<lparr>fe_name = ''a'', fe_size = 0, fe_start_block = -1,
     fe_block_count = 0, fe_permissions = 420, fe_owner_uid = 0, fe_group_gid = 0, fe_create_time = 0,
     fe_modify_time = 0, fe_is_used = 1\<rparr>]"
  "open_files disk1 = (replicate MAX_FILES (-1))[0 := 0]" "free_list disk1 = init_free_list"
  "current_uid disk1 = 0" "user_table disk1 = user_table disk0" "group_table disk1 = group_table disk0"
  "super_block disk1 = fresh_superblock\<lparr>sb_file_count := 1\<rparr>"
proof -
  have none: "first_index (file_named ''a'') (file_table disk0) = None"
    unfolding disk0_file_table by (simp add: first_index_None file_named_def zero_FileEntry_def)
  have slot: "first_index (\<lambda>e. fe_is_used e = 0) (file_table disk0) = Some 0"
    unfolding disk0_file_table by (rule first_index_replicate) (simp_all add: zero_FileEntry_def)
  have fd: "first_index (\<lambda>x. x = -1) (replicate MAX_FILES (-1 :: int)) = Some 0"
    by (rule first_index_replicate) simp_all
  have gid: "u_primary_gid (user_table disk0 ! 0) = 0"
    by (simp add: disk0_def new_disk_def init_users_and_groups_def nth_list_update)
  note all = fs_open_def find_file_index_def none [unfolded disk0_file_table] fs_create_def
    slot [unfolded disk0_file_table] Let_def alloc_fd_def fd add_file_count_def
    disk0_fields disk0_file_table gid
  show "fs_open ''a'' O_CREAT 0 0 disk0 = Some (0, disk1)"
    by (simp add: disk1_def all)
  show "file_table disk1 = (replicate MAX_FILES zero_FileEntry)[0 := \<lparr>fe_name = ''a'', fe_size = 0, fe_start_block = -1,
     fe_block_count = 0, fe_permissions = 420, fe_owner_uid = 0, fe_group_gid = 0, fe_create_time = 0,
     fe_modify_time = 0, fe_is_used = 1\<rparr>]"
  "open_files disk1 = (replicate MAX_FILES (-1))[0 := 0]" "free_list disk1 = init_free_list" "current_uid disk1 = 0"
  "user_table disk1 = user_table disk0" "group_table disk1 = group_table disk0"
    by (simp_all add: disk1_def all)
  show "super_block disk1 = fresh_superblock\<lparr>sb_file_count := 1\<rparr>"
    by (simp add: disk1_def all) (simp add: fresh_superblock_def)
qed

lemma disk1_reachable: "fs_op\<^sup>*\<^sup>* disk0 disk1"
  by (rule r_into_rtranclp) (rule op_open [OF disk1_open(1)])

lemma disk1_inv: "fs_inv disk1"
  by (rule fsys.reachable_inv [OF disk0_started disk1_reachable])

theorem reachable_disk_witness:
  "fs_started disk0 \<and> fs_op\<^sup>*\<^sup>* disk0 disk1 \<and> fs_get_username 0 disk1 = Some ''root''
   \<and> sb_file_count (super_block disk1) = 1"
  using reachable_disk [OF disk0_started disk1_reachable] disk0_started disk1_reachable
  by (simp add: disk1_open(2) zero_FileEntry_def set_update_distinct numeral_eq_Suc)

end
