(* ===== verification/MyFS_Remount.thy ===== *)
theory MyFS_Remount
  imports MyFS_Theorems
begin

text \<open>
  Starting the file system on the image that a previous run left: loading recomputes the free list
  and the count of used blocks from the file table, and finds the ones that were in memory.
\<close>

section \<open>Recomputing the free list\<close>

lemma reclaim_used_correct:
  assumes "disk_canon fl" "\<forall>e \<in> set ft. ok_extent e"
  shows "disk_canon (snd (reclaim_used ft (used, fl)))
    \<and> free_set (snd (reclaim_used ft (used, fl))) = free_set fl - (\<Union>e \<in> set ft. file_extent e)
    \<and> fst (reclaim_used ft (used, fl)) = used + sum_list (map used_count ft)"
  using assms
proof (induction ft arbitrary: used fl)
  case (Cons e es)
  show ?case
  proof (cases "fe_is_used e \<noteq> 0 \<and> fe_start_block e \<noteq> -1 \<and> fe_block_count e > 0")
    case True
    let ?fl = "remove_range_from_freelist (fe_start_block e) (fe_block_count e) fl"
    have "disk_canon ?fl \<and> free_set ?fl = free_set fl - extent (fe_start_block e) (fe_block_count e)"
      using remove_range_correct [of get_meta_blocks TOTAL_BLOCKS fl "fe_start_block e"
          "fe_start_block e + fe_block_count e - 1"] Cons.prems(1) True
      by (simp add: disk_canon_def remove_range_from_freelist_def extent_atLeastAtMost)
    then have fl: "disk_canon ?fl" "free_set ?fl = free_set fl - file_extent e" "used_count e = fe_block_count e"
      using True by (simp_all add: file_extent_def used_count_def)
    have step: "reclaim_used (e # es) (used, fl) = reclaim_used es (used + fe_block_count e, ?fl)"
      using True by simp
    show ?thesis unfolding step using Cons.IH [OF fl(1)] Cons.prems(2) fl(2,3) by (simp add: Diff_eq) blast
  next
    case False
    have none: "file_extent e = {}" "used_count e = 0"
      using False Cons.prems(2) by (auto simp: file_extent_def used_count_def ok_extent_def no_blocks_def has_blocks_def)
    have step: "reclaim_used (e # es) (used, fl) = reclaim_used es (used, fl)"
      using False by (simp only: reclaim_used.simps if_False)
    show ?thesis unfolding step using Cons.IH [OF Cons.prems(1)] Cons.prems(2) none by simp
  qed
qed simp

lemma reclaim_free_list:
  assumes "alloc_wf s"
  shows "reclaim_used (file_table s) (get_meta_blocks, init_free_list)
    = (sb_used_blocks (super_block s), free_list s)"
proof -
  have ok: "alloc_ok (free_list s) (file_table s) (sb_used_blocks (super_block s))"
    using assms by (simp add: alloc_wf_def)
  let ?r = "reclaim_used (file_table s) (get_meta_blocks, init_free_list)"
  let ?U = "\<Union>e \<in> set (file_table s). file_extent e"
  have r: "disk_canon (snd ?r) \<and> free_set (snd ?r) = free_set init_free_list - ?U
      \<and> fst ?r = get_meta_blocks + sum_list (map used_count (file_table s))"
    using ok by (intro reclaim_used_correct) (auto simp: alloc_ok_def disk_canon_def init_free_list_canon)
  have canon: "disk_canon (free_list s)" using ok by (simp add: alloc_ok_def)
  have "free_set (free_list s) = {get_meta_blocks..<TOTAL_BLOCKS} - ?U"
  proof -
    have "file_extent e \<inter> free_set (free_list s) = {}" if "e \<in> set (file_table s)" for e
      using that alloc_ok_entry(2) [OF ok] by (metis in_set_conv_nth)
    then have "free_set (free_list s) \<inter> ?U = {}" by blast
    moreover have "{get_meta_blocks..<TOTAL_BLOCKS} \<subseteq> free_set (free_list s) \<union> ?U" using ok by (simp add: alloc_ok_def)
    moreover have "free_set (free_list s) \<subseteq> {get_meta_blocks..<TOTAL_BLOCKS}"
      using free_set_bounds canon unfolding disk_canon_def by blast
    ultimately show ?thesis by blast
  qed
  then have "free_set (free_list s) = free_set (snd ?r)" using r by (simp add: init_free_list_set)
  then have "snd ?r = free_list s" using blocks.avail_inject r canon by metis
  moreover have "fst ?r = sb_used_blocks (super_block s)" using r ok by (simp add: alloc_ok_def)
  ultimately show ?thesis by (metis prod.collapse)
qed

lemma fread_static_bytes: "f_bytes (snd (fread_static n f)) = f_bytes f"
  by (simp add: fread_static_def fread_def Let_def)

lemma load_metadata_bytes: "f_bytes (disk_file (load_metadata f)) = f_bytes f"
proof -
  obtain b1 f1 where r1: "fread_static 24 (fseek 0 f) = (b1, f1)" by fastforce
  obtain b2 f2 where r2: "fread_static (80 * MAX_FILES) f1 = (b2, f2)" by fastforce
  obtain b3 f3 where r3: "fread_static (88 * MAX_USERS) f2 = (b3, f3)" by fastforce
  obtain b4 f4 where r4: "fread_static (40 * MAX_GROUPS) f3 = (b4, f4)" by fastforce
  have "disk_file (load_metadata f) = f4"
    unfolding load_metadata_def r1 r2 r3 r4 Let_def prod.case by (simp only: split_beta myfs.select_convs)
  moreover have "f_bytes f4 = f_bytes f"
    using fread_static_bytes [of 24 "fseek 0 f"] fread_static_bytes [of "80 * MAX_FILES" f1]
      fread_static_bytes [of "88 * MAX_USERS" f2] fread_static_bytes [of "40 * MAX_GROUPS" f3]
    unfolding r1 r2 r3 r4 by simp
  ultimately show ?thesis by simp
qed

text \<open>
  C15: closing a file system that satisfies the invariant and starting again on the image gives
  the same file system: the superblock, every table and the very same free list, with all
  descriptors closed, root as the current user and every byte of the image as it was left.
\<close>

theorem remount_identity:
  assumes inv: "fs_inv s" and ok: "tables_ok s"
  shows "\<exists>f. fs_init (Some (fs_close s)) creatable
      = (0, Some (s\<lparr>disk_file := f, open_files := replicate MAX_FILES (-1), current_uid := 0\<rparr>))
    \<and> f_bytes f = f_bytes (fs_close s)"
proof -
  have st: "file_starts_with (meta_bytes s) (fs_close s)" by (rule fs_close_starts [OF ok])
  from load_metadata_starts [OF ok st] reclaim_free_list [OF fs_invD(1) [OF inv]]
  obtain f where l: "load_metadata (fs_close s) = \<lparr>disk_file = f, super_block = super_block s,
           file_table = file_table s, free_list = free_list s, open_files = replicate MAX_FILES 0,
           user_table = user_table s, group_table = group_table s, current_uid = 0\<rparr>"
    by (auto simp: Let_def)
  have magic: "sb_magic (super_block s) = MAGIC_NUMBER" using inv by (simp add: fs_inv_def sizes_ok_def)
  have "f_bytes f = f_bytes (fs_close s)" using load_metadata_bytes [of "fs_close s"] by (simp add: l)
  moreover have "(load_metadata (fs_close s))\<lparr>open_files := replicate MAX_FILES (-1)\<rparr>
      = s\<lparr>disk_file := f, open_files := replicate MAX_FILES (-1), current_uid := 0\<rparr>"
    by (rule myfs.equality) (simp_all add: l)
  then have "fs_init (Some (fs_close s)) creatable
      = (0, Some (s\<lparr>disk_file := f, open_files := replicate MAX_FILES (-1), current_uid := 0\<rparr>))"
    using magic by (simp only: fs_init_def option.case Let_def) (simp add: l)
  ultimately show ?thesis by blast
qed

lemma disk1_tables_ok: "tables_ok disk1"
proof -
  let ?a = "\<lparr>fe_name = ''a'', fe_size = 0, fe_start_block = -1, fe_block_count = 0, fe_permissions = 420,
     fe_owner_uid = 0, fe_group_gid = 0, fe_create_time = 0, fe_modify_time = 0, fe_is_used = 1\<rparr>"
  have t0: "tables_ok disk0" using new_disk_tables_ok by (simp add: disk0_def tables_ok_def)
  have "ok_FileEntry ?a" "ok_FileEntry zero_FileEntry"
    by (simp_all add: ok_FileEntry_def ok_str_def in_i32_def in_i64_def zero_FileEntry_def)
  then have "\<forall>e \<in> set (file_table disk1). ok_FileEntry e"
    unfolding disk1_open(2) by (metis in_set_replicate set_list_update_cases)
  moreover have "ok_SuperBlock (super_block disk1)"
    unfolding disk1_open by (simp add: ok_SuperBlock_def in_i32_def fresh_superblock_def)
  moreover have "length (file_table disk1) = MAX_FILES" by (simp add: disk1_open(2))
  ultimately show ?thesis using t0 unfolding tables_ok_def disk1_open(6,7) by blast
qed

theorem remount_identity_witness:
  "\<exists>s. fs_init (Some (fs_close disk1)) False = (0, Some s) \<and> fe_name (file_table s ! 0) = ''a''
     \<and> free_list s = init_free_list"
  using remount_identity [OF disk1_inv disk1_tables_ok, of False]
  by (auto simp: disk1_open(2,4) nth_list_update)

end
