(* ===== verification/MyFS_Data.thy ===== *)
theory MyFS_Data
  imports MyFS_Remount
begin

text \<open>
  What the operations on blocks and bytes promise: the allocator finds the lowest run, releasing
  undoes it, growing in place is the only safe growth, a write is read back and touches no other
  file.
\<close>

section \<open>Allocation\<close>

definition request_blocks :: "int \<Rightarrow> int" where
  "request_blocks sz = (if blocks_of_size sz = 0 then 1 else blocks_of_size sz)"

lemma request_blocks_pos: "0 \<le> sz \<Longrightarrow> sz < 2147483137 \<Longrightarrow> 0 < request_blocks sz \<and> sz \<le> request_blocks sz * BLOCK_SIZE"
  using blocks_of_size_bounds [of sz] by (auto simp: request_blocks_def)

lemma fs_alloc_eq: "fs_alloc sz s = allocate_blocks (request_blocks sz) s"
  by (simp add: fs_alloc_def allocate_blocks_def request_blocks_def Let_def)

lemma fs_free_eq: "fs_free a sz s = free_blocks a (request_blocks sz) s"
  by (simp add: fs_free_def free_blocks_def request_blocks_def Let_def)

text \<open>
  \<open>fs_alloc\<close> of \<open>sz\<close> bytes succeeds exactly when a large enough run of free blocks exists
  anywhere on the disk; it then returns the lowest start of such a run, the run holds at least
  \<open>sz\<close> bytes, exactly its blocks leave the free list, and on failure nothing changes.
\<close>

theorem fs_alloc_lowest:
  assumes canon: "disk_canon (free_list s)" and sz: "0 \<le> sz" "sz < 2147483137"
    and r: "fs_alloc sz s = (a, s')"
  shows "(a \<noteq> -1 \<longleftrightarrow> (\<exists>b. extent b (request_blocks sz) \<subseteq> free_set (free_list s)))
    \<and> (a \<noteq> -1 \<longrightarrow> extent a (request_blocks sz) \<subseteq> free_set (free_list s)
         \<and> free_set (free_list s') = free_set (free_list s) - extent a (request_blocks sz)
         \<and> sz \<le> request_blocks sz * BLOCK_SIZE
         \<and> (\<forall>b. extent b (request_blocks sz) \<subseteq> free_set (free_list s) \<longrightarrow> a \<le> b))
    \<and> (a = -1 \<longrightarrow> s' = s)"
proof -
  note n = request_blocks_pos [OF sz]
  have r': "allocate_blocks (request_blocks sz) s = (a, s')" using r by (simp add: fs_alloc_eq)
  have lowest: "a \<noteq> -1 \<and> a \<le> b" if b: "extent b (request_blocks sz) \<subseteq> free_set (free_list s)" for b
  proof -
    obtain a' fl where scan: "alloc_scan (request_blocks sz) (free_list s) = Some (a', fl)" "a' \<le> b"
      using alloc_scan_lowest [OF canon [unfolded disk_canon_def] _ b] n by blast
    then have a: "a = a'" using r' by (simp add: allocate_blocks_def)
    have "extent a' (request_blocks sz) \<subseteq> {get_meta_blocks..<TOTAL_BLOCKS}"
      using blocks.alloc_units [OF canon _ scan(1)] free_set_bounds [OF canon [unfolded disk_canon_def]] n by blast
    then have "get_meta_blocks \<le> a'" using extent_bounds n by blast
    with a scan(2) show ?thesis by simp
  qed
  show ?thesis
  proof (cases "a = -1")
    case True
    then have "s' = s" using allocate_blocks_fail [OF _ canon] r' n by blast
    with lowest True show ?thesis by blast
  next
    case False
    note ok = allocate_blocks_ok [OF canon _ r' False]
    with lowest False n show ?thesis by blast
  qed
qed

theorem fs_alloc_lowest_witness: "fst (fs_alloc 1000 disk0) = 29 \<and> fs_alloc 10485760 disk0 = (-1, disk0)"
proof -
  have c: "disk_canon (free_list disk0)" by (simp add: disk0_fields disk_canon_def init_free_list_canon)
  have big: "request_blocks 10485760 = 20480" "request_blocks 1000 = 2"
    by (simp_all add: request_blocks_def blocks_of_size_eq)
  obtain a s' where r: "fs_alloc 10485760 disk0 = (a, s')" by fastforce
  have "a = -1"
  proof (rule ccontr)
    assume "a \<noteq> -1"
    then have "extent a 20480 \<subseteq> {29..<20480}"
      using fs_alloc_lowest [OF c _ _ r] by (simp add: big disk0_fields init_free_list_set)
    from extent_bounds [OF _ this] have "29 \<le> a \<and> a + 20480 \<le> 20480" by simp
    then show False by linarith
  qed
  moreover have "s' = disk0" using fs_alloc_lowest [OF c _ _ r] \<open>a = -1\<close> by simp
  ultimately show ?thesis using r
    by (simp add: fs_alloc_eq big(2) allocate_blocks_def disk0_fields init_free_list_def get_block_count_def)
qed

text \<open>
  giving back what \<open>fs_alloc\<close> returned, with the same size, restores the whole state: the free
  list is split and merged back to the identical list, and the count of used blocks returns.
\<close>

theorem alloc_free_identity:
  assumes canon: "disk_canon (free_list s)" and sz: "0 \<le> sz" "sz < 2147483137"
    and r: "fs_alloc sz s = (a, s')" and ok: "a \<noteq> -1"
  shows "fs_free a sz s' = s"
proof -
  let ?n = "request_blocks sz"
  note n = request_blocks_pos [OF sz]
  obtain fl where scan: "alloc_scan ?n (free_list s) = Some (a, fl)"
    and s': "s' = add_used_blocks ?n (s\<lparr>free_list := fl\<rparr>)"
    using r ok by (auto simp: fs_alloc_eq allocate_blocks_def split: option.splits)
  have "release ?n a fl = free_list s" using blocks.alloc_free_id [OF canon _ scan] n by blast
  then have "fs_free a sz s' = add_used_blocks (- ?n) (add_used_blocks ?n s)"
    by (simp add: fs_free_eq free_blocks_def s' release_def add_used_blocks_def)
  also have "\<dots> = s" by (simp add: add_used_blocks_def)
  finally show ?thesis .
qed

theorem alloc_free_identity_witness: "fs_free 29 1000 (snd (fs_alloc 1000 disk0)) = disk0"
proof -
  have c: "disk_canon (free_list disk0)" by (simp add: disk0_fields disk_canon_def init_free_list_canon)
  have "fst (fs_alloc 1000 disk0) = 29"
    by (simp add: fs_alloc_eq request_blocks_def blocks_of_size_eq allocate_blocks_def disk0_fields
        init_free_list_def get_block_count_def)
  then have "fs_alloc 1000 disk0 = (29, snd (fs_alloc 1000 disk0))" by (metis prod.collapse)
  from alloc_free_identity [OF c _ _ this] show ?thesis by simp
qed

section \<open>Growing a file\<close>

text \<open>
  C28: a write that needs more blocks than the file has takes the additional blocks from wherever
  the first large enough region lies and only raises the count. The block invariant survives that
  step exactly when the new blocks start right behind the old ones; otherwise the file runs into
  blocks it does not own.
\<close>

theorem growth_safe_iff_contiguous:
  assumes "alloc_wf s" "fd_valid fd s" "has_blocks (fd_file fd s)" "fe_block_count (fd_file fd s) < n"
    and "allocate_blocks (n - fe_block_count (fd_file fd s)) s = (a, s1)" "a \<noteq> -1"
  shows "\<exists>s'. ensure_blocks fd n s = (True, s') \<and> fe_block_count (fd_file fd s') = n
    \<and> fe_start_block (fd_file fd s') = fe_start_block (fd_file fd s)
    \<and> (alloc_wf s' \<longleftrightarrow> a = fe_start_block (fd_file fd s) + fe_block_count (fd_file fd s))"
proof -
  let ?s' = "set_fd_file fd ((fd_file fd s)\<lparr>fe_block_count := n\<rparr>) s1"
  have i: "fd_index fd s < length (file_table s1)"
    using alloc_wf_fd(2) [OF assms(1,2)] allocate_blocks_frame(1) [OF assms(5)] by simp
  then have "fd_file fd ?s' = (fd_file fd s)\<lparr>fe_block_count := n\<rparr>"
    using allocate_blocks_frame(6) [OF assms(5)] by (simp add: fd_file_def fd_index_def)
  then show ?thesis using ensure_growth [OF assms] by (intro exI [of _ ?s']) simp
qed

text \<open>A disk with two files of one block each, in blocks 29 and 30, both open.\<close>

definition entry_at :: "string \<Rightarrow> int \<Rightarrow> FileEntry" where
  "entry_at nm b = \<lparr>fe_name = nm, fe_size = 10, fe_start_block = b, fe_block_count = 1, fe_permissions = 420,
     fe_owner_uid = 0, fe_group_gid = 0, fe_create_time = 0, fe_modify_time = 0, fe_is_used = 1\<rparr>"

definition disk2 :: myfs where
  "disk2 = disk0\<lparr>file_table := (replicate MAX_FILES zero_FileEntry)[0 := entry_at ''a'' 29, 1 := entry_at ''b'' 30],
     free_list := [\<lparr>fb_start = 31, fb_end = TOTAL_BLOCKS - 1\<rparr>],
     super_block := fresh_superblock\<lparr>sb_file_count := 2, sb_used_blocks := 31\<rparr>,
     open_files := (replicate MAX_FILES (-1))[0 := 0, 1 := 1]\<rparr>"

lemma entry_at_extent: "file_extent (entry_at nm b) = {b}" "used_count (entry_at nm b) = 1"
  "29 \<le> b \<Longrightarrow> b < TOTAL_BLOCKS \<Longrightarrow> has_blocks (entry_at nm b)"
  by (auto simp: file_extent_def entry_at_def used_count_def has_blocks_def)

lemma disk2_alloc: "alloc_wf disk2"
proof -
  let ?fl = "\<lambda>k. [\<lparr>fb_start = k, fb_end = TOTAL_BLOCKS - 1\<rparr>]"
  have canon: "disk_canon (?fl k)" "free_set (?fl k) = {k..<TOTAL_BLOCKS}" if "29 \<le> k" "k < TOTAL_BLOCKS" for k
    using that by (auto simp: disk_canon_def fl_canon_def node_set_def)
  note z = alloc_ok_init [unfolded init_free_list_def get_meta_blocks_eq]
  have zero: "file_extent zero_FileEntry = {}" "used_count zero_FileEntry = 0"
    by (simp_all add: zero_FileEntry_def)
  have one: "alloc_ok (?fl 30) ((replicate MAX_FILES zero_FileEntry)[0 := entry_at ''a'' 29])
      (29 + used_count (entry_at ''a'' 29) - used_count (replicate MAX_FILES zero_FileEntry ! 0))"
    by (rule alloc_ok_update [OF z]) (use canon in \<open>auto simp: ok_extent_def entry_at_extent zero\<close>)
  have "alloc_ok (?fl 31) ((replicate MAX_FILES zero_FileEntry)[0 := entry_at ''a'' 29, 1 := entry_at ''b'' 30])
      (29 + used_count (entry_at ''a'' 29) - used_count (replicate MAX_FILES zero_FileEntry ! 0)
       + used_count (entry_at ''b'' 30) - used_count ((replicate MAX_FILES zero_FileEntry)[0 := entry_at ''a'' 29] ! 1))"
    by (rule alloc_ok_update [OF one]) (use canon in \<open>auto simp: ok_extent_def entry_at_extent zero\<close>)
  then show ?thesis by (simp add: alloc_wf_def disk2_def fresh_superblock_def entry_at_extent zero)
qed

lemma disk2_fd:
  "fd_valid 0 disk2" "fd_file 0 disk2 = entry_at ''a'' 29" "fd_valid 1 disk2" "fd_file 1 disk2 = entry_at ''b'' 30"
  "fd_index 0 disk2 = 0" "fd_index 1 disk2 = 1"
  by (simp_all add: fd_valid_def bad_fd_def fd_index_def fd_file_def disk2_def nth_list_update entry_at_def)

lemma disk2_inv: "fs_inv disk2"
proof -
  have "count_used ((replicate MAX_FILES zero_FileEntry)[0 := entry_at ''a'' 29, 1 := entry_at ''b'' 30]) = 2"
    using count_used_zero [of MAX_FILES]
    by (simp add: count_used_update entry_at_def) (simp add: zero_FileEntry_def)
  moreover have "fds_ok disk2"
    by (auto simp: fds_ok_def disk2_def entry_at_def nth_list_update dest!: set_list_update_cases)
  moreover have "users_ok disk2"
    using fs_inv_users [OF disk0_inv] by (simp add: users_ok_def disk2_def)
  ultimately show ?thesis using disk2_alloc
    by (simp add: fs_inv_def count_ok_def sizes_ok_def disk2_def fresh_superblock_def)
qed

theorem growth_safe_iff_contiguous_witness:
  "\<exists>s'. ensure_blocks 0 2 disk2 = (True, s') \<and> fe_block_count (fd_file 0 s') = 2 \<and> \<not> alloc_wf s'"
proof -
  obtain s1 where a: "allocate_blocks (2 - fe_block_count (fd_file 0 disk2)) disk2 = (31, s1)"
    unfolding disk2_fd by (simp add: allocate_blocks_def disk2_def get_block_count_def entry_at_def)
  show ?thesis
    using growth_safe_iff_contiguous [OF disk2_alloc disk2_fd(1) _ _ a] entry_at_extent(3) [of 29 "''a''"]
    by (auto simp: disk2_fd entry_at_def)
qed

section \<open>Bytes\<close>

lemma length_meta: "fs_inv s \<Longrightarrow> length (meta_bytes s) = 14424"
  using length_enc_table [of "file_table s" enc_FileEntry 80] length_enc_table [of "user_table s" enc_User 88]
    length_enc_table [of "group_table s" enc_Group 40]
  by (auto simp: meta_bytes_def fs_inv_def alloc_wf_def sizes_ok_def users_ok_def)

text \<open>The first byte of a file on the disk, and what a write of \<open>buf\<close> at \<open>pos\<close> leaves there.\<close>

definition file_base :: "FileEntry \<Rightarrow> int" where
  "file_base e = fe_start_block e * BLOCK_SIZE"

lemma has_blocks_base:
  "has_blocks e \<Longrightarrow> 14848 \<le> file_base e \<and> file_base e + fe_block_count e * BLOCK_SIZE \<le> DISK_SIZE"
  by (simp add: has_blocks_def file_base_def)

lemma save_metadata_bytes:
  assumes "length (meta_bytes s) = 14424" "14424 \<le> i"
  shows "i < f_len (disk_file s) \<Longrightarrow> f_bytes (disk_file (save_metadata s)) i = f_bytes (disk_file s) i"
    "f_len (disk_file (save_metadata s)) = max (f_len (disk_file s)) 14424"
  using assms fwrite_bytes_out [of i "fseek 0 (disk_file s)" "meta_bytes s"]
  by (auto simp: save_metadata_eq)

lemma write_data_bytes:
  assumes inv: "fs_inv (snd (fs_write fd pos buf mt s))" and w: "snd (fs_write fd pos buf mt s) = write_data fd pos buf mt s1"
    and hb: "has_blocks (fd_file fd s1)" and pos: "0 \<le> pos" "buf \<noteq> []"
    and fits: "pos + int (length buf) \<le> fe_block_count (fd_file fd s1) * BLOCK_SIZE"
  defines "off \<equiv> nat (file_base (fd_file fd s1) + pos)" and "d \<equiv> disk_file (write_data fd pos buf mt s1)"
  shows "\<And>k. k < length buf \<Longrightarrow> f_bytes d (off + k) = buf ! k"
    "\<And>i. 14424 \<le> i \<Longrightarrow> i < f_len (disk_file s1) \<Longrightarrow> i < off \<or> off + length buf \<le> i \<Longrightarrow> f_bytes d i = f_bytes (disk_file s1) i"
    "off + length buf \<le> f_len d" "f_len (disk_file s1) \<le> f_len d"
proof -
  note b = has_blocks_base [OF hb]
  have offb: "14848 \<le> off" "int off = file_base (fd_file fd s1) + pos" using b pos by (auto simp: off_def)
  have i32: "i32 (fe_start_block (fd_file fd s1) * BLOCK_SIZE + pos) = int off"
    using b pos fits offb(2) by (subst i32_small) (auto simp: file_base_def)
  define f where "f = fwrite buf (fseek (int off) (disk_file s1))"
  obtain t where d: "d = disk_file (save_metadata t)" and t: "disk_file t = f" "save_metadata t = write_data fd pos buf mt s1"
    by (simp add: d_def write_data_def Let_def i32 f_def)
      (metis (no_types, lifting) myfs.select_convs(1) myfs.surjective myfs.update_convs(1) set_fd_file_fields(4))
  have "fs_inv t" using inv w t(2) by (metis fs_inv_save)
  then have len: "length (meta_bytes t) = 14424" by (rule length_meta)
  have flen: "f_len f = max (f_len (disk_file s1)) (off + length buf)" using pos(2) by (simp add: f_def)
  show "off + length buf \<le> f_len d" "f_len (disk_file s1) \<le> f_len d"
    using save_metadata_bytes(2) [OF len order_refl] flen t(1) by (simp_all add: d)
  show "f_bytes d (off + k) = buf ! k" if "k < length buf" for k
    using save_metadata_bytes(1) [OF len, of "off + k"] flen t(1) that offb(1)
      fwrite_bytes_in [of "fseek (int off) (disk_file s1)" "off + k" buf]
    by (simp add: d f_def)
  show "f_bytes d i = f_bytes (disk_file s1) i"
    if "14424 \<le> i" "i < f_len (disk_file s1)" "i < off \<or> off + length buf \<le> i" for i
    using save_metadata_bytes(1) [OF len that(1)] flen t(1) that
      fwrite_bytes_out [of i "fseek (int off) (disk_file s1)" buf]
    by (simp add: d f_def)
qed

section \<open>Reading what was written\<close>

text \<open>A safe write that does not fail: the state it leaves, and the entry of the file.\<close>

lemma write_ok:
  assumes inv: "fs_inv s" and safe: "write_safe fd pos buf s" and w: "fs_write fd pos buf mt s = (n, s')" and n: "n \<noteq> -1"
  obtains s1 where "ensure_blocks fd (blocks_of_size (pos + int (length buf))) s = (True, s1)"
    "s' = write_data fd pos buf mt s1" "n = int (length buf)" "\<not> bad_fd fd s" "has_blocks (fd_file fd s1)"
    "pos + int (length buf) \<le> fe_block_count (fd_file fd s1) * BLOCK_SIZE" "fd_index fd s1 = fd_index fd s"
    "alloc_wf s1" "fd_valid fd s1"
proof -
  have fd: "\<not> bad_fd fd s" using w n by (auto simp: fs_write_def)
  have v: "fd_valid fd s" by (rule fd_validI [OF fs_invD(2) [OF inv] fd])
  from fs_write_cases [OF safe fd, of mt] obtain ok s1
    where ens: "ensure_blocks fd (blocks_of_size (pos + int (length buf))) s = (ok, s1)"
      and eq: "fs_write fd pos buf mt s = (if ok then (int (length buf), write_data fd pos buf mt s1) else (-1, s1))"
    by blast
  note e = ensure_write_safe [OF fs_invD(1) [OF inv] v safe ens]
  have ok: ok using eq w n by (cases ok) auto
  show thesis
    by (rule that [of s1]) (use ok eq w ens e fd ensure_blocks_frame(6) [OF ens] fd_valid_ensure [OF v ens] in auto)
qed

lemma write_data_file:
  assumes "fd_valid fd s1" "alloc_wf s1" "write_safe fd pos buf s"
  shows "fd_file fd (write_data fd pos buf mt s1)
    = (fd_file fd s1)\<lparr>fe_size := max (pos + int (length buf)) (fe_size (fd_file fd s1)), fe_modify_time := mt\<rparr>"
    "open_files (write_data fd pos buf mt s1) = open_files s1"
    "file_table (write_data fd pos buf mt s1) = (file_table s1)[fd_index fd s1 := fd_file fd (write_data fd pos buf mt s1)]"
proof -
  have "fd_index fd s1 < length (file_table s1)" using alloc_wf_fd(2) [OF assms(2,1)] .
  then show "fd_file fd (write_data fd pos buf mt s1)
    = (fd_file fd s1)\<lparr>fe_size := max (pos + int (length buf)) (fe_size (fd_file fd s1)), fe_modify_time := mt\<rparr>"
    "open_files (write_data fd pos buf mt s1) = open_files s1"
    "file_table (write_data fd pos buf mt s1) = (file_table s1)[fd_index fd s1 := fd_file fd (write_data fd pos buf mt s1)]"
    using write_safe_i32(1) [OF assms(3)]
    by (simp_all add: write_data_def Let_def fd_file_def fd_index_def max_def)
qed

lemma fs_read_in_range:
  assumes fd: "\<not> bad_fd fd s" and hb: "has_blocks (fd_file fd s)" and p: "0 \<le> p" "p < fe_size (fd_file fd s)"
    and m: "0 \<le> m" "p + m < 2147483648"
  defines "k \<equiv> min m (fe_size (fd_file fd s) - p)" and "off \<equiv> nat (file_base (fd_file fd s) + p)"
  assumes len: "off + nat k \<le> f_len (disk_file s)"
  shows "fst (fs_read fd p m s) = (k, map (f_bytes (disk_file s)) [off..<off + nat k])"
proof -
  let ?e = "fd_file fd s"
  have sz: "fe_size ?e \<le> DISK_SIZE" "file_base ?e + fe_size ?e \<le> DISK_SIZE" "14848 \<le> file_base ?e"
    using hb has_blocks_base [OF hb] by (auto simp: has_blocks_def)
  have i1: "i32 (p + m) = p + m" using p m by (intro i32_small) auto
  have i2: "i32 (fe_size ?e - p) = fe_size ?e - p" using p sz by (intro i32_small) auto
  have i3: "i32 (fe_start_block ?e * BLOCK_SIZE + p) = int off"
    using p sz by (subst i32_small) (auto simp: file_base_def off_def)
  have n: "(if p + m > fe_size ?e then fe_size ?e - p else m) = k" by (auto simp: k_def)
  have k: "0 \<le> k" "k < 2147483648" using p m sz by (auto simp: k_def)
  then have sk: "size_t_of_int k = nat k" by (simp add: size_t_of_int_def)
  obtain bs f where r: "fread (nat k) (fseek (int off) (disk_file s)) = (bs, f)" by fastforce
  have bs: "bs = map (f_bytes (disk_file s)) [off..<off + nat k]"
    using r len by (auto simp: fread_def Let_def min_absorb1)
  have "fs_read fd p m s = ((i32 (int (length bs)), bs), s\<lparr>disk_file := f\<rparr>)"
    unfolding fs_read_def Let_def i1 i2 i3 n sk r using fd hb p by (simp add: has_blocks_def)
  then show ?thesis using k by (simp add: bs i32_small)
qed

text \<open>
  C13: a write within the supported range that does not fail reports the whole buffer, and reading
  the same range back through the same descriptor returns exactly that buffer.
\<close>

theorem read_after_write:
  assumes inv: "fs_inv s" and safe: "write_safe fd pos buf s" and w: "fs_write fd pos buf mt s = (n, s')" and n: "n \<noteq> -1"
  shows "n = int (length buf) \<and> fst (fs_read fd pos (int (length buf)) s') = (int (length buf), buf)"
proof -
  from write_ok [OF inv safe w n] obtain s1 where s1:
    "s' = write_data fd pos buf mt s1" "n = int (length buf)" "\<not> bad_fd fd s" "has_blocks (fd_file fd s1)"
    "pos + int (length buf) \<le> fe_block_count (fd_file fd s1) * BLOCK_SIZE" "alloc_wf s1" "fd_valid fd s1" .
  note f = write_data_file [OF s1(7,6) safe, of mt, folded s1(1)]
  have pos: "0 \<le> pos" "buf \<noteq> []" "0 < int (length buf)" using safe by (auto simp: write_safe_def)
  have inv': "fs_inv (snd (fs_write fd pos buf mt s))" by (rule fs_inv_write [OF inv safe])
  have base: "file_base (fd_file fd s') = file_base (fd_file fd s1)" by (simp add: f(1) file_base_def)
  note b = write_data_bytes [OF inv' _ s1(4) pos(1,2) s1(5), folded s1(1) base]
  let ?off = "nat (file_base (fd_file fd s') + pos)"
  have "\<not> bad_fd fd s'" using s1(7) f(2) by (simp add: fd_valid_def bad_fd_def)
  moreover have "0 \<le> fe_size (fd_file fd s')" "fe_size (fd_file fd s') \<le> fe_block_count (fd_file fd s') * BLOCK_SIZE"
    "fe_start_block (fd_file fd s') = fe_start_block (fd_file fd s1)" "fe_block_count (fd_file fd s') = fe_block_count (fd_file fd s1)"
    using s1(4,5) pos by (auto simp: f(1) has_blocks_def max_def)
  then have "has_blocks (fd_file fd s')" using s1(4) by (simp only: has_blocks_def)
  moreover have "pos + int (length buf) \<le> fe_size (fd_file fd s')" by (simp add: f(1))
  then have k: "min (int (length buf)) (fe_size (fd_file fd s') - pos) = int (length buf)" "pos < fe_size (fd_file fd s')"
    using pos(3) by (linarith, linarith)
  ultimately have "fst (fs_read fd pos (int (length buf)) s')
      = (int (length buf), map (f_bytes (disk_file s')) [?off..<?off + length buf])"
    using fs_read_in_range [of fd s' pos "int (length buf)"] pos safe b(3) w
    by (simp add: write_safe_def)
  moreover have "map (f_bytes (disk_file s')) [?off..<?off + length buf] = buf"
    using b(1) w by (intro nth_equalityI) auto
  ultimately show ?thesis using s1(2) by simp
qed

lemma disk2_write: "write_safe 0 5 [1, 2, 3] disk2" "fst (fs_write 0 5 [1, 2, 3] 0 disk2) = 3"
proof -
  show s: "write_safe 0 5 [1, 2, 3] disk2" by (simp add: write_safe_def disk2_fd entry_at_def)
  have "blocks_of_size 8 = 1" by (simp add: blocks_of_size_eq)
  moreover have "\<not> bad_fd 0 disk2" using disk2_fd(1) by (simp add: fd_valid_def)
  ultimately show "fst (fs_write 0 5 [1, 2, 3] 0 disk2) = 3"
    by (simp add: fs_write_def i32_small ensure_blocks_def disk2_fd entry_at_def)
qed

theorem read_after_write_witness:
  "fst (fs_read 0 5 3 (snd (fs_write 0 5 [1, 2, 3] 0 disk2))) = (3, [1, 2, 3])"
  using read_after_write [OF disk2_inv disk2_write(1), of 0 3 "snd (fs_write 0 5 [1, 2, 3] 0 disk2)"] disk2_write(2)
  by (simp add: prod_eq_iff)

text \<open>
  C14: a write in the supported range (\<open>write_safe\<close>: into a file without blocks, or within the blocks the
  file has) changes nothing in any other open file: its entry is the same and every read of it
  returns the same bytes as before. A write that grows a file beyond its blocks is not covered: it can take the
  blocks of its neighbour (\<open>growth_safe_iff_contiguous\<close>).
\<close>

theorem write_isolation:
  assumes inv: "fs_inv s" and safe: "write_safe fd pos buf s" and w: "fs_write fd pos buf mt s = (n, s')" and n: "n \<noteq> -1"
    and len: "nat DISK_SIZE \<le> f_len (disk_file s)"
    and other: "\<not> bad_fd fd2 s" "fd_index fd2 s \<noteq> fd_index fd s" and m: "0 \<le> p" "0 \<le> m" "p + m < 2147483648"
  shows "fd_file fd2 s' = fd_file fd2 s \<and> fst (fs_read fd2 p m s') = fst (fs_read fd2 p m s)"
proof -
  from write_ok [OF inv safe w n] obtain s1 where s1:
    "ensure_blocks fd (blocks_of_size (pos + int (length buf))) s = (True, s1)"
    "s' = write_data fd pos buf mt s1" "has_blocks (fd_file fd s1)"
    "pos + int (length buf) \<le> fe_block_count (fd_file fd s1) * BLOCK_SIZE" "fd_index fd s1 = fd_index fd s"
    "alloc_wf s1" "fd_valid fd s1" .
  note fr = ensure_blocks_frame [OF s1(1)]
  note f = write_data_file [OF s1(7,6) safe, of mt, folded s1(2)]
  let ?e = "fd_file fd2 s"
  have open2: "open_files s' = open_files s" using f(2) fr(1) by simp
  then have i2: "fd_index fd2 s' = fd_index fd2 s" "bad_fd fd2 s' = bad_fd fd2 s"
    by (simp_all add: fd_index_def bad_fd_def)
  have e1: "file_table s1 ! fd_index fd2 s = ?e"
    using ensure_blocks_other [OF s1(1) other(2)] by (simp add: fd_file_def)
  have "file_table s' ! fd_index fd2 s = file_table s1 ! fd_index fd2 s"
    by (subst f(3)) (use other(2) s1(5) in simp)
  with e1 have e': "fd_file fd2 s' = ?e" by (simp add: fd_file_def i2(1))
  have v2: "fd_valid fd2 s" by (rule fd_validI [OF fs_invD(2) [OF inv] other(1)])
  note b2 = alloc_wf_fd [OF fs_invD(1) [OF inv] v2]
  have "fst (fs_read fd2 p m s') = fst (fs_read fd2 p m s)"
  proof (cases "has_blocks ?e \<and> p < fe_size ?e")
    case False
    then have "fe_start_block ?e = -1 \<or> p \<ge> fe_size ?e" using b2(4) by (auto simp: no_blocks_def)
    then show ?thesis using i2(2) other(1) e' by (auto simp: fs_read_def Let_def)
  next
    case True
    have pos: "0 \<le> pos" "buf \<noteq> []" using safe by (auto simp: write_safe_def)
    have inv': "fs_inv (snd (fs_write fd pos buf mt s))" by (rule fs_inv_write [OF inv safe])
    note b = write_data_bytes [OF inv' _ s1(3) pos s1(4), folded s1(2)]
    let ?k = "min m (fe_size ?e - p)" and ?off = "nat (file_base ?e + p)"
    note hb = has_blocks_base [OF conjunct1 [OF True]] has_blocks_base [OF s1(3)]
    have sz: "fe_size ?e \<le> fe_block_count ?e * BLOCK_SIZE" using True by (simp add: has_blocks_def)
    have range: "?off + nat ?k \<le> nat DISK_SIZE" using m hb(1) sz True by linarith
    have rd: "fst (fs_read fd2 p m t) = (?k, map (f_bytes (disk_file t)) [?off..<?off + nat ?k])"
      if "fd_file fd2 t = ?e" "\<not> bad_fd fd2 t" "nat DISK_SIZE \<le> f_len (disk_file t)" for t
      using fs_read_in_range [of fd2 t p m] that True m range by simp
    have len': "nat DISK_SIZE \<le> f_len (disk_file s')" using b(4) w fr(2) len by simp
    have ok1: "alloc_ok (free_list s1) (file_table s1) (sb_used_blocks (super_block s1))"
      and len1: "length (file_table s1) = MAX_FILES" using s1(6) by (auto simp: alloc_wf_def)
    have "file_extent (file_table s1 ! fd_index fd2 s) \<inter> file_extent (file_table s1 ! fd_index fd s) = {}"
      using v2 s1(5,7) other(2) len1 by (intro alloc_ok_disjoint [OF ok1]) (auto simp: fd_valid_def)
    then have "file_extent ?e \<inter> file_extent (fd_file fd s1) = {}" using e1 s1(5) by (simp add: fd_file_def)
    then have "{fe_start_block ?e..<fe_start_block ?e + fe_block_count ?e}
        \<inter> {fe_start_block (fd_file fd s1)..<fe_start_block (fd_file fd s1) + fe_block_count (fd_file fd s1)} = {}"
      using v2 s1(7) by (simp add: file_extent_def fd_valid_def)
    then have sep: "fe_start_block ?e + fe_block_count ?e \<le> fe_start_block (fd_file fd s1)
        \<or> fe_start_block (fd_file fd s1) + fe_block_count (fd_file fd s1) \<le> fe_start_block ?e"
      using True s1(3) by (auto simp: ivl_disj_un has_blocks_def Int_atLeastLessThan)
    let ?woff = "nat (file_base (fd_file fd s1) + pos)"
    have "f_bytes (disk_file s') i = f_bytes (disk_file s) i" if "?off \<le> i" "i < ?off + nat ?k" for i
    proof -
      have "i < ?woff \<or> ?woff + length buf \<le> i"
        using sep that m True sz s1(4) pos hb by (auto simp: file_base_def)
      moreover have "14424 \<le> i" "i < f_len (disk_file s1)" using that hb(1) m range len fr(2) by auto
      ultimately show ?thesis using b(2) w fr(2) by simp
    qed
    then have "map (f_bytes (disk_file s')) [?off..<?off + nat ?k] = map (f_bytes (disk_file s)) [?off..<?off + nat ?k]"
      by simp
    then show ?thesis using rd [of s'] rd [of s] e' i2(2) other(1) len len' by simp
  qed
  with e' show ?thesis by blast
qed

theorem write_isolation_witness:
  "fd_file 1 (snd (fs_write 0 5 [1, 2, 3] 0 disk2)) = entry_at ''b'' 30
   \<and> fst (fs_read 1 0 10 (snd (fs_write 0 5 [1, 2, 3] 0 disk2))) = fst (fs_read 1 0 10 disk2)"
proof -
  obtain s' where w: "fs_write 0 5 [1, 2, 3] 0 disk2 = (3, s')"
    using disk2_write(2) by (metis prod.collapse)
  have len: "nat DISK_SIZE \<le> f_len (disk_file disk2)"
    by (simp add: disk2_def disk0_def new_disk_def init_users_and_groups_def save_metadata_eq empty_image_def)
  have "\<not> bad_fd 1 disk2" using disk2_fd(3) by (simp add: fd_valid_def)
  then show ?thesis
    using write_isolation [OF disk2_inv disk2_write(1) w _ len, of 1 0 10] w by (simp add: disk2_fd)
qed

end
