(* ===== verification/MyFS_Protection.thy ===== *)
theory MyFS_Protection
  imports MyFS_Data
begin

unbundle bit_operations_syntax

text \<open>
  Who may do what: the permission check computes the owner / group / other rule on mode bits, and
  no call of the interface lets a user change the owner, group or mode of somebody else's file.
\<close>

section \<open>The permission check\<close>

text \<open>The first of the three mode bits that apply to the current user.\<close>

definition class_shift :: "FileEntry \<Rightarrow> myfs \<Rightarrow> nat" where
  "class_shift e s = (if fe_owner_uid e = current_uid s then 6
     else if fs_user_in_group (current_uid s) (fe_group_gid e) s then 3 else 0)"

lemma bit_7: "bit (7 :: u32) k \<longleftrightarrow> k < 3"
proof -
  have m: "(7 :: u32) = mask 3" by (simp add: mask_eq_exp_minus_1)
  show ?thesis unfolding m bit_mask_iff by auto
qed

lemma bit_effective_perm: "bit (effective_perm e s) k \<longleftrightarrow> k < 3 \<and> bit (fe_permissions e) (class_shift e s + k)"
  unfolding effective_perm_def class_shift_def Let_def if_distrib [of "\<lambda>w. bit w k"] bit_and_iff bit_drop_bit_eq bit_7
  by auto

lemma and_absorb_bits: "(a AND b) = b \<longleftrightarrow> (\<forall>k. bit b k \<longrightarrow> bit a k)" for a b :: u32
  unfolding bit_eq_iff bit_and_iff by (metis bit_imp_possible_bit)

text \<open>
  C33: \<open>fs_check_permission\<close> grants a request exactly when the file exists and either the caller
  is root or every requested bit is one of the three permission bits and is set in the class of
  the mode that applies to the caller: the owner's if it owns the file, else the group's if it is
  a member, else the others'. Only that one class counts.
\<close>

theorem check_permission_spec:
  "fs_check_permission path req s \<longleftrightarrow>
     (\<exists>i. first_index (file_named path) (file_table s) = Some i
        \<and> (current_uid s = 0
           \<or> (\<forall>k. bit req k \<longrightarrow> k < 3 \<and> bit (fe_permissions (file_table s ! i)) (class_shift (file_table s ! i) s + k))))"
  by (auto simp: fs_check_permission_def find_file_index_def Let_def and_absorb_bits bit_effective_perm
      split: option.splits)

text \<open>User 7, who is in no group, may read but not write root's file ``a'' with mode 644.\<close>

lemma disk2_found: "first_index (file_named ''a'') (file_table disk2) = Some 0"
  by (simp add: disk2_def first_index_Some nth_list_update file_named_def entry_at_def)

lemma disk2_stranger: "\<not> fs_user_in_group 7 g (disk2\<lparr>current_uid := 7\<rparr>)"
proof -
  have "\<not> (u_is_active u \<noteq> 0 \<and> u_uid u = 7)" if "u \<in> set (user_table disk2)" for u
    using that by (auto simp: disk2_def disk0_def new_disk_def init_users_and_groups_def zero_User_def
        dest!: set_list_update_cases)
  then have "first_index (\<lambda>u. u_is_active u \<noteq> 0 \<and> u_uid u = 7) (user_table disk2) = None"
    by (auto simp: first_index_None)
  then show ?thesis by (simp add: fs_user_in_group_def)
qed

theorem check_permission_spec_witness:
  "fs_check_permission ''a'' PERM_READ (disk2\<lparr>current_uid := 7\<rparr>)
   \<and> \<not> fs_check_permission ''a'' PERM_WRITE (disk2\<lparr>current_uid := 7\<rparr>)"
proof -
  let ?s = "disk2\<lparr>current_uid := 7\<rparr>"
  have e: "file_table ?s ! 0 = entry_at ''a'' 29" by (simp add: disk2_def nth_list_update)
  have sh: "class_shift (entry_at ''a'' 29) ?s = 0" using disk2_stranger by (simp add: class_shift_def entry_at_def)
  have b: "bit (4 :: u32) k \<longleftrightarrow> k = 2" "bit (2 :: u32) k \<longleftrightarrow> k = 1" for k
    using bit_exp_iff [where 'a = "32 word", of 2 k] bit_exp_iff [where 'a = "32 word", of 1 k] by auto
  have p: "bit (fe_permissions (entry_at ''a'' 29)) 2" "\<not> bit (fe_permissions (entry_at ''a'' 29)) 1"
    by (simp_all add: entry_at_def bit_iff_odd_drop_bit drop_bit_eq_div)
  show ?thesis
    using disk2_found e sh b p by (simp add: check_permission_spec numeral_2_eq_2)
qed

section \<open>Protection of other users' files\<close>

text \<open>What only the owner and root may change.\<close>

definition entry_meta :: "FileEntry \<Rightarrow> string \<times> int \<times> int \<times> u32 \<times> int" where
  "entry_meta e = (fe_name e, fe_owner_uid e, fe_group_gid e, fe_permissions e, fe_create_time e)"

definition kept :: "nat \<Rightarrow> myfs \<Rightarrow> myfs \<Rightarrow> bool" where
  "kept i s s' \<longleftrightarrow> entry_meta (file_table s' ! i) = entry_meta (file_table s ! i) \<or> fe_is_used (file_table s' ! i) = 0"

named_theorems kept_intros

lemma kept_same [kept_intros]: "file_table s' = file_table s \<Longrightarrow> kept i s s'"
  by (simp add: kept_def)

lemma kept_groupadd [kept_intros]: "kept i s (snd (fs_groupadd nm s))"
  by (rule kept_same) (auto simp: fs_groupadd_def Let_def split: option.splits)

lemma kept_users [kept_intros]:
  "kept i s (snd (fs_useradd nm s))" "kept i s (snd (fs_userdel nm s))" "kept i s (snd (fs_groupdel nm s))"
  "kept i s (snd (fs_usermod_add_group nm grp s))" "kept i s (fs_switch_user nm s)"
  "kept i s (snd (fs_read fd pos n s))" "kept i s (fs_close_file fd s)"
  by (rule kept_same; auto simp: fs_useradd_def fs_userdel_def fs_groupdel_def fs_usermod_add_group_def
      fs_switch_user_def fs_read_def fs_close_file_def Let_def groupadd_frame split: option.splits prod.splits)+

lemma kept_create [kept_intros]:
  assumes "fs_create nm perm ct mt s = Some (r, s')" "fe_is_used (file_table s ! i) \<noteq> 0"
  shows "kept i s s'"
proof (cases "first_index (\<lambda>e. fe_is_used e = 0) (file_table s)")
  case None
  with assms show ?thesis by (auto simp: fs_create_def kept_def split: if_splits)
next
  case (Some j)
  have "i \<noteq> j" using first_index_SomeD(2) [OF Some] assms(2) by auto
  with assms(1) Some show ?thesis by (auto simp: fs_create_def kept_def Let_def add_file_count_def split: if_splits)
qed

lemma alloc_fd_file_table: "file_table (snd (alloc_fd j s)) = file_table s"
  by (simp add: alloc_fd_def split: option.splits)

lemma kept_open [kept_intros]:
  assumes "fs_open nm fl ct mt s = Some (r, s')" "fe_is_used (file_table s ! i) \<noteq> 0"
  shows "kept i s s'"
proof (cases "find_file_index nm s = -1 \<and> fl AND O_CREAT \<noteq> 0")
  case True
  with assms(1) obtain j s1 where c: "fs_create nm 420 ct mt s = Some (j, s1)"
    and s': "s' = s1 \<or> s' = snd (alloc_fd j s1)"
    by (auto simp: fs_open_def Let_def split: option.splits if_splits)
  with kept_create [OF c assms(2)] show ?thesis by (auto simp: kept_def alloc_fd_file_table)
next
  case False
  then have "s' = s \<or> s' = snd (alloc_fd (find_file_index nm s) s)"
    using assms(1) by (auto simp: fs_open_def Let_def split: if_splits)
  then show ?thesis by (auto simp: kept_def alloc_fd_file_table)
qed

lemma meta_update:
  assumes "file_table s' = (file_table s)[j := e]" "entry_meta e = entry_meta (file_table s ! j)"
  shows "entry_meta (file_table s' ! i) = entry_meta (file_table s ! i)"
  using assms by (cases "i = j") (cases "j < length (file_table s)"; simp add: list_update_beyond)+

lemma ensure_blocks_meta:
  assumes "ensure_blocks fd n s = (ok, s1)"
  shows "\<exists>e. file_table s1 = (file_table s)[fd_index fd s := e] \<and> entry_meta e = entry_meta (fd_file fd s)"
proof -
  obtain a s' where a: "allocate_blocks n s = (a, s')" by fastforce
  obtain b s'' where b: "allocate_blocks (n - fe_block_count (fd_file fd s)) s = (b, s'')" by fastforce
  have same: "\<exists>e. file_table s = (file_table s)[fd_index fd s := e] \<and> entry_meta e = entry_meta (fd_file fd s)"
    by (rule exI [of _ "fd_file fd s"]) (simp add: fd_file_def)
  show ?thesis
    using assms a b same allocate_blocks_frame [OF a] allocate_blocks_frame [OF b]
    by (auto simp: ensure_blocks_def Let_def set_fd_file_def entry_meta_def split: if_splits)
qed

lemma kept_write [kept_intros]: "kept i s (snd (fs_write fd pos buf mt s))"
proof -
  obtain ok s1 where ens: "ensure_blocks fd (blocks_of_size (i32 (pos + int (length buf)))) s = (ok, s1)" by fastforce
  from ensure_blocks_meta [OF ens] obtain e where e: "file_table s1 = (file_table s)[fd_index fd s := e]"
    "entry_meta e = entry_meta (fd_file fd s)" by blast
  have k1: "entry_meta (file_table s1 ! i) = entry_meta (file_table s ! i)"
    by (rule meta_update [OF e(1)]) (simp add: e(2) fd_file_def)
  have "file_table (write_data fd pos buf mt s1) = (file_table s1)[fd_index fd s1 := (fd_file fd s1)\<lparr>fe_size :=
      (if i32 (pos + int (length buf)) > fe_size (fd_file fd s1) then i32 (pos + int (length buf)) else fe_size (fd_file fd s1)),
      fe_modify_time := mt\<rparr>]"
    by (simp add: write_data_def Let_def fd_index_def)
  then have "entry_meta (file_table (write_data fd pos buf mt s1) ! i) = entry_meta (file_table s1 ! i)"
    by (rule meta_update) (simp add: entry_meta_def fd_file_def)
  with k1 ens show ?thesis by (auto simp: fs_write_def kept_def split: if_splits)
qed

lemma kept_shrink [kept_intros]: "kept i s (snd (fs_shrink fd k mt s))"
proof -
  have "file_table (snd (fs_shrink fd k mt s)) = file_table s
      \<or> (\<exists>e. file_table (snd (fs_shrink fd k mt s)) = (file_table s)[fd_index fd s := e] \<and> entry_meta e = entry_meta (fd_file fd s))"
    by (auto simp: fs_shrink_def Let_def free_blocks_def add_used_blocks_def fd_index_def entry_meta_def)
  then show ?thesis using meta_update [of "snd (fs_shrink fd k mt s)" s "fd_index fd s" _ i]
    by (auto simp: kept_def fd_file_def)
qed

lemma kept_delete [kept_intros]:
  assumes "fe_is_used (file_table s ! i) \<noteq> 0" "i < length (file_table s)"
  shows "kept i s (snd (fs_delete nm s))"
  using assms
  by (auto simp: fs_delete_def Let_def kept_def free_blocks_def add_used_blocks_def add_file_count_def
      nth_list_update dest: first_index_SomeD(1) split: option.splits if_splits)

lemma kept_format [kept_intros]: "i < MAX_FILES \<Longrightarrow> kept i s (snd (fs_format s))"
  by (simp add: fs_format_def kept_def zero_FileEntry_def)

lemma kept_chmod [kept_intros]:
  assumes "current_uid s \<noteq> 0" "fe_owner_uid (file_table s ! i) \<noteq> current_uid s"
  shows "kept i s (snd (fs_chmod nm mode s))"
  using assms by (cases "nat (find_file_index nm s) = i") (auto simp: fs_chmod_def Let_def kept_def upd_file_def)

lemma kept_chgrp [kept_intros]:
  assumes "current_uid s \<noteq> 0" "fe_owner_uid (file_table s ! i) \<noteq> current_uid s"
  shows "kept i s (snd (fs_chgrp nm grp s))"
  using assms by (cases "nat (find_file_index nm s) = i") (auto simp: fs_chgrp_def Let_def kept_def upd_file_def)

lemma kept_chown [kept_intros]: "current_uid s \<noteq> 0 \<Longrightarrow> kept i s (snd (fs_chown nm user s))"
  by (simp add: fs_chown_def kept_def)

text \<open>
  The calls of the interface with any arguments and in any state: unlike \<open>fs_op\<close> this also has the writes and
  shrinks that break the block invariant, and a format while files are open.
\<close>

inductive fs_call :: "myfs \<Rightarrow> myfs \<Rightarrow> bool" where
  call_create: "fs_create nm perm ct mt s = Some (r, s') \<Longrightarrow> fs_call s s'"
| call_open: "fs_open nm flags ct mt s = Some (r, s') \<Longrightarrow> fs_call s s'"
| call_read: "fs_call s (snd (fs_read fd pos n s))"
| call_write: "fs_call s (snd (fs_write fd pos buf mt s))"
| call_shrink: "fs_call s (snd (fs_shrink fd k mt s))"
| call_delete: "fs_call s (snd (fs_delete nm s))"
| call_close_file: "fs_call s (fs_close_file fd s)"
| call_format: "fs_call s (snd (fs_format s))"
| call_useradd: "fs_call s (snd (fs_useradd nm s))"
| call_userdel: "fs_call s (snd (fs_userdel nm s))"
| call_groupadd: "fs_call s (snd (fs_groupadd nm s))"
| call_groupdel: "fs_call s (snd (fs_groupdel nm s))"
| call_usermod: "fs_call s (snd (fs_usermod_add_group nm grp s))"
| call_switch: "fs_call s (fs_switch_user nm s)"
| call_chmod: "fs_call s (snd (fs_chmod nm mode s))"
| call_chown: "fs_call s (snd (fs_chown nm user s))"
| call_chgrp: "fs_call s (snd (fs_chgrp nm grp s))"

lemma fs_op_call: "fs_op s s' \<Longrightarrow> fs_call s s'"
  by (cases rule: fs_op.cases) (auto intro: fs_call.intros)

text \<open>
  C26: Whatever call of the interface, with whatever arguments, a user makes who is not root and does not own a file: in the
  file table the file keeps its name, owner, group, mode and time of creation, unless the call removed it
  (the interface itself lets anybody delete and format; the command line asks for write permission first). The
  table only has to have its 100 entries, no other invariant is needed.
\<close>

theorem other_users_files_protected:
  assumes op: "fs_call s s'" and len: "length (file_table s) = MAX_FILES"
    and i: "i < MAX_FILES" "fe_is_used (file_table s ! i) \<noteq> 0"
    and user: "current_uid s \<noteq> 0" "fe_owner_uid (file_table s ! i) \<noteq> current_uid s"
  shows "entry_meta (file_table s' ! i) = entry_meta (file_table s ! i) \<or> fe_is_used (file_table s' ! i) = 0"
proof -
  from op i user len have "kept i s s'" by cases (auto intro: kept_intros)
  then show ?thesis by (simp add: kept_def)
qed

theorem other_users_files_protected_witness:
  "entry_meta (file_table (snd (fs_chmod ''a'' 511 (disk2\<lparr>current_uid := 7\<rparr>))) ! 0) = entry_meta (entry_at ''a'' 29)
   \<or> fe_is_used (file_table (snd (fs_chmod ''a'' 511 (disk2\<lparr>current_uid := 7\<rparr>))) ! 0) = 0"
proof -
  let ?s = "disk2\<lparr>current_uid := 7\<rparr>"
  have len: "length (file_table ?s) = MAX_FILES" using disk2_inv by (simp add: fs_inv_def alloc_wf_def)
  have e: "file_table ?s ! 0 = entry_at ''a'' 29" by (simp add: disk2_def nth_list_update)
  show ?thesis
    using other_users_files_protected [OF call_chmod len, of 0] e by (simp add: entry_at_def)
qed

end
