(* ===== verification/MyFS_CLI.thy ===== *)
theory MyFS_CLI
  imports MyFS_Protection
begin

unbundle bit_operations_syntax

text \<open>
  The command line of the file system, \<open>File-System/cli.c\<close>: splitting a line into words, reading
  numbers, the commands with their own permission checks, and the loop over standard input. What a
  command prints is a value of type \<open>reply\<close>; \<open>None\<close> is the undefined behaviour of the C code (an
  overrun of a buffer, an index outside a table).
\<close>

section \<open>The C library on strings\<close>

definition c_isspace :: "char \<Rightarrow> bool" where
  "c_isspace c \<longleftrightarrow> c = CHR '' '' \<or> (9 \<le> (of_char c :: nat) \<and> (of_char c :: nat) \<le> 13)"

text \<open>\<open>strtok(s, " ")\<close> applied until it returns NULL: the words between runs of the delimiter.\<close>

fun strtok_all :: "char \<Rightarrow> string \<Rightarrow> string \<Rightarrow> string list" where
  "strtok_all d w [] = (if w = [] then [] else [rev w])"
| "strtok_all d w (c # s) =
     (if c = d then (if w = [] then strtok_all d [] s else rev w # strtok_all d [] s)
      else strtok_all d (c # w) s)"

definition is_digit_in :: "int \<Rightarrow> char \<Rightarrow> bool" where
  "is_digit_in base c \<longleftrightarrow> 48 \<le> (of_char c :: int) \<and> (of_char c :: int) < 48 + base"

definition digits_value :: "int \<Rightarrow> string \<Rightarrow> int" where
  "digits_value base s = foldl (\<lambda>v c. v * base + (of_char c - 48)) 0 (takeWhile (is_digit_in base) s)"

text \<open>\<open>strtol\<close> for a base of at most ten: blanks, a sign, digits; out of range it saturates.\<close>

definition strtol :: "int \<Rightarrow> string \<Rightarrow> int" where
  "strtol base s =
     (let t = dropWhile c_isspace s;
          v = (case t of CHR ''-'' # u \<Rightarrow> - digits_value base u
               | CHR ''+'' # u \<Rightarrow> digits_value base u
               | _ \<Rightarrow> digits_value base t)
      in max (- (2 ^ 63)) (min (2 ^ 63 - 1) v))"

definition atoi :: "string \<Rightarrow> int" where
  "atoi s = i32 (strtol 10 s)"

text \<open>\<open>fgets\<close> with room for 255 characters: up to and including the first newline.\<close>

fun fgets :: "nat \<Rightarrow> string \<Rightarrow> string \<times> string" where
  "fgets 0 s = ([], s)"
| "fgets n [] = ([], [])"
| "fgets (Suc n) (c # s) = (if c = CHR 0x0A then ([c], s) else (let (l, r) = fgets n s in (c # l, r)))"

text \<open>\<open>scanf("%s")\<close>: the next word and the rest of the input.\<close>

definition scanf_word :: "string \<Rightarrow> string \<times> string" where
  "scanf_word s = (let t = dropWhile c_isspace s in
     (takeWhile (\<lambda>c. \<not> c_isspace c) t, dropWhile (\<lambda>c. \<not> c_isspace c) t))"

section \<open>Parsing\<close>

abbreviation MAX_COMMAND_LEN :: nat where "MAX_COMMAND_LEN \<equiv> 256"
abbreviation MAX_ARGS :: nat where "MAX_ARGS \<equiv> 10"

text \<open>\<open>None\<close>: no word on the line (the C result is -1).\<close>

definition parse_command :: "string \<Rightarrow> (string \<times> string list) option" where
  "parse_command input =
     (case strtok_all (CHR '' '') [] (takeWhile (\<lambda>c. c \<noteq> CHR 0x0A) input) of
        [] \<Rightarrow> None
      | token # rest \<Rightarrow> Some (token, take MAX_ARGS rest))"

definition parse_permissions :: "string \<Rightarrow> u32" where
  "parse_permissions perm_str = (if length perm_str = 3 then word_of_int (strtol 8 perm_str) else 420)"

definition parse_open_flags :: "string \<Rightarrow> u32" where
  "parse_open_flags flag_str =
     (if flag_str = ''r'' then O_RDONLY
      else if flag_str = ''w'' then O_WRONLY
      else if flag_str = ''rw'' then O_RDWR
      else if flag_str = ''c'' then O_CREAT OR O_RDWR
      else O_RDONLY)"

section \<open>The commands\<close>

record cli =
  cli_fs :: myfs
  current_fd :: int
  current_filename :: string

datatype reply =
    Usage | Silent | Denied | NoFile | AlreadyOpen string | Created string | Opened string int
  | Content "byte list" | EndOfFile | NoMemory | Written int | Shrunk int | FileSize int
  | Closed string | StillOpen | Deleted string | Files "(string \<times> bool) list"
  | Stats "int \<times> int \<times> int \<times> int" | Regions "(int \<times> int \<times> int) list \<times> nat \<times> int"
  | Formatted | Cancelled | WhoAmI string int | Help | Cleared
  | UserList "(int \<times> string \<times> int) list" | GroupList "(int \<times> string) list"
  | Acl "((string \<times> int) \<times> (string \<times> int) \<times> u32 \<times> string \<times> string \<times> string) option"
  | Unknown string

type_synonym outcome = "(reply \<times> cli) option"

definition with_fs :: "myfs \<Rightarrow> cli \<Rightarrow> cli" where
  "with_fs s c = c\<lparr>cli_fs := s\<rparr>"

definition cmd_create :: "int \<Rightarrow> string list \<Rightarrow> cli \<Rightarrow> outcome" where
  "cmd_create now args c =
     (if length args < 1 then Some (Usage, c)
      else let perms = (if length args \<ge> 2 then parse_permissions (args ! 1) else 420) in
        case fs_create (args ! 0) perms now now (cli_fs c) of
          None \<Rightarrow> None
        | Some (r, s) \<Rightarrow> Some (if r \<ge> 0 then Created (args ! 0) else Silent, with_fs s c))"

definition cmd_open :: "int \<Rightarrow> string list \<Rightarrow> cli \<Rightarrow> outcome" where
  "cmd_open now args c =
     (if length args < 1 then Some (Usage, c)
      else if current_fd c \<ge> 0 then Some (AlreadyOpen (current_filename c), c)
      else let flags = (if length args \<ge> 2 then parse_open_flags (args ! 1) else O_RDONLY);
               required_perm = (if flags AND O_WRONLY \<noteq> 0 \<or> flags AND O_RDWR \<noteq> 0
                                then PERM_READ OR PERM_WRITE else PERM_READ)
           in if flags AND O_CREAT = 0 \<and> \<not> fs_check_permission (args ! 0) required_perm (cli_fs c)
              then Some (Denied, c)
              else case fs_open (args ! 0) flags now now (cli_fs c) of
                None \<Rightarrow> None
              | Some (fd, s) \<Rightarrow>
                  if fd \<ge> 0
                  then Some (Opened (args ! 0) fd,
                         c\<lparr>cli_fs := s, current_fd := fd,
                           current_filename := strncpy_n (MAX_FILENAME - 1) (args ! 0)\<rparr>)
                  else Some (Silent, c\<lparr>cli_fs := s, current_fd := fd\<rparr>))"

text \<open>
  The buffer has \<open>bytes + 1\<close> bytes; a negative size is a huge request that \<open>malloc\<close> refuses, any
  other is taken to succeed. \<open>None\<close>: the data and the terminator do not fit (\<open>bytes\<close> is -1).
\<close>

definition cmd_read :: "string list \<Rightarrow> cli \<Rightarrow> outcome" where
  "cmd_read args c =
     (if current_fd c < 0 then Some (NoFile, c)
      else if \<not> fs_check_permission (current_filename c) PERM_READ (cli_fs c) then Some (Denied, c)
      else let pos = (if length args \<ge> 1 then atoi (args ! 0) else 0);
               bytes = (if length args \<ge> 2 then atoi (args ! 1) else 1024)
           in if i32 (bytes + 1) < 0 then Some (NoMemory, c)
              else (let ((read_bytes, data), s) = fs_read (current_fd c) pos bytes (cli_fs c) in
                if int (length data) > bytes \<and> data \<noteq> [] then None
                else if read_bytes > 0 then Some (Content data, with_fs s c)
                else if read_bytes = 0 then Some (EndOfFile, with_fs s c)
                else Some (Silent, with_fs s c)))"

text \<open>The words after the position, joined by single blanks.\<close>

definition join_words :: "string list \<Rightarrow> string" where
  "join_words ws = concat (map (\<lambda>i. ws ! i @ (if i < length ws - 1 then '' '' else [])) [0..<length ws])"

definition cmd_write :: "int \<Rightarrow> string list \<Rightarrow> cli \<Rightarrow> outcome" where
  "cmd_write now args c =
     (if current_fd c < 0 then Some (NoFile, c)
      else if \<not> fs_check_permission (current_filename c) PERM_WRITE (cli_fs c) then Some (Denied, c)
      else if length args < 2 then Some (Usage, c)
      else let (written, s) = fs_write (current_fd c) (atoi (args ! 0))
                 (map byte_of_char (join_words (drop 1 args))) now (cli_fs c)
           in Some (if written > 0 then Written written else Silent, with_fs s c))"

definition cmd_shrink :: "int \<Rightarrow> string list \<Rightarrow> cli \<Rightarrow> outcome" where
  "cmd_shrink now args c =
     (if current_fd c < 0 then Some (NoFile, c)
      else if length args < 1 then Some (Usage, c)
      else let new_size = atoi (args ! 0); (r, s) = fs_shrink (current_fd c) new_size now (cli_fs c)
           in Some (if r = 0 then Shrunk new_size else Silent, with_fs s c))"

definition cmd_size :: "cli \<Rightarrow> outcome" where
  "cmd_size c = (if current_fd c < 0 then Some (NoFile, c)
     else Some (FileSize (fs_get_file_size (current_fd c) (cli_fs c)), c))"

definition cmd_close :: "cli \<Rightarrow> outcome" where
  "cmd_close c = (if current_fd c < 0 then Some (NoFile, c)
     else Some (Closed (current_filename c),
       c\<lparr>cli_fs := fs_close_file (current_fd c) (cli_fs c), current_fd := -1, current_filename := []\<rparr>))"

definition cmd_rm :: "string list \<Rightarrow> cli \<Rightarrow> outcome" where
  "cmd_rm args c =
     (if length args < 1 then Some (Usage, c)
      else if current_fd c \<ge> 0 \<and> current_filename c = args ! 0 then Some (StillOpen, c)
      else if \<not> fs_check_permission (args ! 0) PERM_WRITE (cli_fs c) then Some (Denied, c)
      else let (r, s) = fs_delete (args ! 0) (cli_fs c)
           in Some (if r = 0 then Deleted (args ! 0) else Silent, with_fs s c))"

definition cmd_ls :: "cli \<Rightarrow> outcome" where
  "cmd_ls c = Some (Files (map (\<lambda>n. (n, current_fd c \<ge> 0 \<and> n = current_filename c))
     (fs_list_files MAX_FILES (cli_fs c))), c)"

definition cmd_stat :: "cli \<Rightarrow> outcome" where
  "cmd_stat c = Some (Stats (fs_get_stats (cli_fs c)), c)"

text \<open>\<open>confirm\<close> has ten bytes; it is the only command that reads from the input itself.\<close>

definition cmd_format :: "string \<Rightarrow> cli \<Rightarrow> (reply \<times> cli \<times> string) option" where
  "cmd_format stdin c =
     (let (confirm, rest) = scanf_word stdin; stdin' = drop 1 rest in
      if confirm = [] \<or> length confirm \<ge> 10 then None
      else if confirm = ''yes'' then
        (let c1 = (if current_fd c \<ge> 0
                   then c\<lparr>cli_fs := fs_close_file (current_fd c) (cli_fs c), current_fd := -1,
                          current_filename := []\<rparr>
                   else c)
         in Some (Formatted, with_fs (snd (fs_format (cli_fs c1))) c1, stdin'))
      else Some (Cancelled, c, stdin'))"

text \<open>Commands with one argument whose result the command line does not look at.\<close>

definition cmd_account :: "(string \<Rightarrow> myfs \<Rightarrow> int \<times> myfs) \<Rightarrow> string list \<Rightarrow> cli \<Rightarrow> outcome" where
  "cmd_account f args c =
     (if length args < 1 then Some (Usage, c) else Some (Silent, with_fs (snd (f (args ! 0) (cli_fs c))) c))"

definition cmd_useradd :: "string list \<Rightarrow> cli \<Rightarrow> outcome" where "cmd_useradd = cmd_account fs_useradd"
definition cmd_userdel :: "string list \<Rightarrow> cli \<Rightarrow> outcome" where "cmd_userdel = cmd_account fs_userdel"
definition cmd_groupadd :: "string list \<Rightarrow> cli \<Rightarrow> outcome" where "cmd_groupadd = cmd_account fs_groupadd"
definition cmd_groupdel :: "string list \<Rightarrow> cli \<Rightarrow> outcome" where "cmd_groupdel = cmd_account fs_groupdel"

definition cmd_usermod :: "string list \<Rightarrow> cli \<Rightarrow> outcome" where
  "cmd_usermod args c =
     (if length args < 3 \<or> args ! 0 \<noteq> ''-aG'' then Some (Usage, c)
      else Some (Silent, with_fs (snd (fs_usermod_add_group (args ! 1) (args ! 2) (cli_fs c))) c))"

definition cmd_su :: "string list \<Rightarrow> cli \<Rightarrow> outcome" where
  "cmd_su args c = (if length args < 1 then Some (Usage, c)
     else Some (Silent, with_fs (fs_switch_user (args ! 0) (cli_fs c)) c))"

definition cmd_whoami :: "cli \<Rightarrow> outcome" where
  "cmd_whoami c = (let uid = fs_get_current_user (cli_fs c) in
     Some (WhoAmI (case fs_get_username uid (cli_fs c) of Some n \<Rightarrow> n | None \<Rightarrow> ''unknown'') uid, c))"

definition cmd_chmod :: "string list \<Rightarrow> cli \<Rightarrow> outcome" where
  "cmd_chmod args c = (if length args < 2 then Some (Usage, c)
     else let mode = word_of_int (strtol 8 (args ! 0))
          in Some (Silent, with_fs (snd (fs_chmod (args ! 1) mode (cli_fs c))) c))"

definition cmd_chown :: "string list \<Rightarrow> cli \<Rightarrow> outcome" where
  "cmd_chown args c =
     (if length args < 2 then Some (Usage, c)
      else if CHR '':'' \<in> set (args ! 0) then
        (let user = takeWhile (\<lambda>x. x \<noteq> CHR '':'') (args ! 0);
             grp = tl (dropWhile (\<lambda>x. x \<noteq> CHR '':'') (args ! 0));
             s1 = (if user \<noteq> [] then snd (fs_chown (args ! 1) user (cli_fs c)) else cli_fs c);
             s2 = (if grp \<noteq> [] then snd (fs_chgrp (args ! 1) grp s1) else s1)
         in Some (Silent, with_fs s2 c))
      else Some (Silent, with_fs (snd (fs_chown (args ! 1) (args ! 0) (cli_fs c))) c))"

definition cmd_chgrp :: "string list \<Rightarrow> cli \<Rightarrow> outcome" where
  "cmd_chgrp args c = (if length args < 2 then Some (Usage, c)
     else Some (Silent, with_fs (snd (fs_chgrp (args ! 1) (args ! 0) (cli_fs c))) c))"

definition cmd_getfacl :: "string list \<Rightarrow> cli \<Rightarrow> outcome" where
  "cmd_getfacl args c = (if length args < 1 then Some (Usage, c)
     else Some (Acl (fs_getfacl (args ! 0) (cli_fs c)), c))"

section \<open>The loop\<close>

text \<open>The chain of comparisons in \<open>run_shell\<close>, without \<open>exit\<close>/\<open>quit\<close> and \<open>format\<close>.\<close>

definition run_command :: "int \<Rightarrow> string \<Rightarrow> string list \<Rightarrow> cli \<Rightarrow> outcome" where
  "run_command now cmd args c =
     (if cmd = ''help'' then Some (Help, c)
      else if cmd = ''create'' then cmd_create now args c
      else if cmd = ''open'' then cmd_open now args c
      else if cmd = ''read'' then cmd_read args c
      else if cmd = ''write'' then cmd_write now args c
      else if cmd = ''shrink'' then cmd_shrink now args c
      else if cmd = ''size'' then cmd_size c
      else if cmd = ''close'' then cmd_close c
      else if cmd = ''rm'' then cmd_rm args c
      else if cmd = ''ls'' then cmd_ls c
      else if cmd = ''stat'' then cmd_stat c
      else if cmd = ''viz'' then Some (Regions (fs_visualize_free_list (cli_fs c)), c)
      else if cmd = ''clear'' then Some (Cleared, c)
      else if cmd = ''useradd'' then cmd_useradd args c
      else if cmd = ''userdel'' then cmd_userdel args c
      else if cmd = ''users'' then Some (UserList (fs_list_users (cli_fs c)), c)
      else if cmd = ''groupadd'' then cmd_groupadd args c
      else if cmd = ''groupdel'' then cmd_groupdel args c
      else if cmd = ''groups'' then Some (GroupList (fs_list_groups (cli_fs c)), c)
      else if cmd = ''usermod'' then cmd_usermod args c
      else if cmd = ''su'' then cmd_su args c
      else if cmd = ''whoami'' then cmd_whoami c
      else if cmd = ''chmod'' then cmd_chmod args c
      else if cmd = ''chown'' then cmd_chown args c
      else if cmd = ''chgrp'' then cmd_chgrp args c
      else if cmd = ''getfacl'' then cmd_getfacl args c
      else Some (Unknown cmd, c))"

lemma fgets_length: "length (snd (fgets n s)) \<le> length s" "0 < n \<Longrightarrow> s \<noteq> [] \<Longrightarrow> length (snd (fgets n s)) < length s"
  by (induction n s rule: fgets.induct) (auto split: prod.splits)

lemma fgets_shorter: "(l, r) = fgets 255 s \<Longrightarrow> s \<noteq> [] \<Longrightarrow> length r < length s"
  using fgets_length(2) [of 255 s] by (metis snd_conv zero_less_numeral)

lemma cmd_format_length: "cmd_format stdin c = Some (r, c', stdin') \<Longrightarrow> length stdin' \<le> length stdin"
proof -
  have "length (snd (scanf_word stdin)) \<le> length stdin"
    by (metis (no_types, lifting) scanf_word_def Let_def snd_conv length_dropWhile_le le_trans)
  then show "cmd_format stdin c = Some (r, c', stdin') \<Longrightarrow> length stdin' \<le> length stdin"
    by (auto simp: cmd_format_def Let_def split: if_splits prod.splits)
qed

text \<open>
  \<open>run_shell\<close> on the characters of standard input and the times at which the commands run. The
  first word is copied into an array of 50 bytes.
\<close>

function run_shell :: "(nat \<Rightarrow> int) \<Rightarrow> nat \<Rightarrow> string \<Rightarrow> cli \<Rightarrow> (reply list \<times> cli) option" where
  "run_shell clock n stdin c =
     (if stdin = [] then Some ([], c)
      else let (input, stdin1) = fgets (MAX_COMMAND_LEN - 1) stdin in
        case parse_command input of
          None \<Rightarrow> run_shell clock n stdin1 c
        | Some (cmd, args) \<Rightarrow>
            if length cmd \<ge> 50 then None
            else if cmd = ''exit'' \<or> cmd = ''quit'' then Some ([], c)
            else if cmd = ''format'' then
              (case cmd_format stdin1 c of
                 None \<Rightarrow> None
               | Some (r, c', stdin2) \<Rightarrow> map_option (apfst ((#) r)) (run_shell clock (Suc n) stdin2 c'))
            else
              (case run_command (clock n) cmd args c of
                 None \<Rightarrow> None
               | Some (r, c') \<Rightarrow> map_option (apfst ((#) r)) (run_shell clock (Suc n) stdin1 c')))"
  by pat_completeness auto

termination
  by (relation "measure (\<lambda>(clock, n, stdin, c). length stdin)")
    (auto dest!: fgets_shorter cmd_format_length)

text \<open>\<open>main\<close>: start, run the shell, close what is open, save. The result is the image that is left.\<close>

definition cli_main :: "(nat \<Rightarrow> int) \<Rightarrow> FILE option \<Rightarrow> bool \<Rightarrow> string \<Rightarrow> (int \<times> reply list \<times> FILE option) option" where
  "cli_main clock disk creatable stdin =
     (case fs_init disk creatable of
        (r, None) \<Rightarrow> Some (1, [], disk)
      | (r, Some s) \<Rightarrow>
          (case run_shell clock 0 stdin \<lparr>cli_fs = s, current_fd = -1, current_filename = []\<rparr> of
             None \<Rightarrow> None
           | Some (out, c) \<Rightarrow>
               (let s' = (if current_fd c \<ge> 0 then fs_close_file (current_fd c) (cli_fs c) else cli_fs c)
                in Some (0, out, Some (fs_close s')))))"

end
