(* ===== verification/MyFS_CLI_Theorems.thy ===== *)
theory MyFS_CLI_Theorems
  imports MyFS_CLI
begin

unbundle bit_operations_syntax

text \<open>
  Properties of the command line: words come back from the line they were joined into, and a
  command cannot change a file the user may not write; \<open>shrink\<close>, which asks for no permission, is
  the exception.
\<close>

section \<open>Splitting a line\<close>

lemma strtok_all_word:
  "CHR '' '' \<notin> set w \<Longrightarrow> strtok_all (CHR '' '') u (w @ s) = strtok_all (CHR '' '') (rev w @ u) s"
  by (induction w arbitrary: u) auto

lemma join_words_Nil [simp]: "join_words [] = []"
  by (simp add: join_words_def)

lemma join_words_single [simp]: "join_words [w] = w"
  by (simp add: join_words_def)

lemma join_words_Cons: "join_words (w # v # ws) = w @ '' '' @ join_words (v # ws)"
  unfolding join_words_def by (simp del: upt_Suc add: map_upt_Suc)

lemma strtok_join:
  assumes "\<forall>w \<in> set ws. w \<noteq> [] \<and> CHR '' '' \<notin> set w"
  shows "strtok_all (CHR '' '') [] (join_words ws) = ws"
  using assms
proof (induction ws)
  case (Cons w ws)
  show ?case
  proof (cases ws)
    case Nil
    then show ?thesis using Cons.prems strtok_all_word [of w "[]" "[]"] by simp
  next
    case (Cons v vs)
    then have "strtok_all (CHR '' '') [] (join_words (w # ws)) = strtok_all (CHR '' '') (rev w) ('' '' @ join_words ws)"
      using Cons.prems strtok_all_word [of w "[]" "'' '' @ join_words ws"] by (simp add: join_words_Cons)
    with Cons.IH Cons.prems show ?thesis by simp
  qed
qed simp

lemma takeWhile_line: "\<forall>w \<in> set ws. CHR 0x0A \<notin> set w \<Longrightarrow> takeWhile (\<lambda>c. c \<noteq> CHR 0x0A) (join_words ws @ CHR 0x0A # s) = join_words ws"
proof -
  assume a: "\<forall>w \<in> set ws. CHR 0x0A \<notin> set w"
  have "CHR 0x0A \<notin> set (join_words ws)"
    using a by (auto simp: join_words_def in_set_conv_nth split: if_splits) (metis nth_mem)+
  then have "\<forall>c \<in> set (join_words ws). c \<noteq> CHR 0x0A" by metis
  then show ?thesis by (subst takeWhile_append2) auto
qed

text \<open>
  a line made of words joined by blanks is split back into exactly those words: the first is
  the command, the next ten at most its arguments.
\<close>

theorem parse_command_join:
  assumes "cmd # args = ws" "\<forall>w \<in> set ws. w \<noteq> [] \<and> CHR '' '' \<notin> set w \<and> CHR 0x0A \<notin> set w"
  shows "parse_command (join_words ws @ CHR 0x0A # s) = Some (cmd, take 10 args)"
proof -
  have "takeWhile (\<lambda>c. c \<noteq> CHR 0x0A) (join_words ws @ CHR 0x0A # s) = join_words ws"
    using assms(2) by (intro takeWhile_line) blast
  moreover have "strtok_all (CHR '' '') [] (join_words ws) = cmd # args"
    using strtok_join [of ws] assms by blast
  ultimately show ?thesis by (simp add: parse_command_def)
qed

theorem parse_command_join_witness:
  "parse_command (''write 0 hello there'' @ CHR 0x0A # []) = Some (''write'', [''0'', ''hello'', ''there''])"
  using parse_command_join [of "''write''" "[''0'', ''hello'', ''there'']" _ "[]", OF refl]
  by (simp add: join_words_Cons)

section \<open>Files the user may not write\<close>

text \<open>What a write, a truncation or a deletion changes.\<close>

definition extent_meta :: "FileEntry \<Rightarrow> string \<times> int \<times> int \<times> int \<times> int" where
  "extent_meta e = (fe_name e, fe_size e, fe_start_block e, fe_block_count e, fe_is_used e)"

definition intact :: "nat \<Rightarrow> myfs \<Rightarrow> myfs \<Rightarrow> bool" where
  "intact i s s' \<longleftrightarrow> extent_meta (file_table s' ! i) = extent_meta (file_table s ! i)"

named_theorems intact_intros

lemma intact_same [intact_intros]: "file_table s' = file_table s \<Longrightarrow> intact i s s'"
  by (simp add: intact_def)

lemma intact_trans: "intact i s s' \<Longrightarrow> intact i s' s'' \<Longrightarrow> intact i s s''"
  by (simp add: intact_def)

lemma intact_groupadd [intact_intros]: "intact i s (snd (fs_groupadd nm s))"
  by (rule intact_same) (auto simp: fs_groupadd_def Let_def split: option.splits)

lemma intact_users [intact_intros]:
  "intact i s (snd (fs_useradd nm s))" "intact i s (snd (fs_userdel nm s))"
  "intact i s (snd (fs_groupdel nm s))"
  "intact i s (snd (fs_usermod_add_group nm grp s))" "intact i s (fs_switch_user nm s)"
  "intact i s (snd (fs_read fd pos n s))" "intact i s (fs_close_file fd s)"
  by (rule intact_same; auto simp: fs_useradd_def fs_userdel_def fs_groupdel_def fs_usermod_add_group_def
      fs_switch_user_def fs_read_def fs_close_file_def Let_def groupadd_frame split: option.splits prod.splits)+

lemma intact_upd_file:
  "(\<And>e. extent_meta (f e) = extent_meta e) \<Longrightarrow> intact i s (upd_file j f s)"
  by (cases "i = j"; cases "j < length (file_table s)") (simp_all add: intact_def upd_file_def list_update_beyond)

lemma intact_modes [intact_intros]:
  "intact i s (snd (fs_chmod nm mode s))" "intact i s (snd (fs_chown nm user s))" "intact i s (snd (fs_chgrp nm grp s))"
proof -
  have u: "intact i s (upd_file j f s) \<Longrightarrow> intact i s (save_metadata (upd_file j f s))" for j f
    by (simp add: intact_def)
  have refl: "intact i s s" by (simp add: intact_def)
  show "intact i s (snd (fs_chmod nm mode s))" "intact i s (snd (fs_chown nm user s))" "intact i s (snd (fs_chgrp nm grp s))"
    by (simp_all add: fs_chmod_def fs_chown_def fs_chgrp_def Let_def refl u intact_upd_file extent_meta_def)
qed

lemma intact_create [intact_intros]:
  assumes "fs_create nm perm ct mt s = Some (r, s')" "fe_is_used (file_table s ! i) \<noteq> 0"
  shows "intact i s s'"
proof (cases "first_index (\<lambda>e. fe_is_used e = 0) (file_table s)")
  case None
  with assms show ?thesis by (auto simp: fs_create_def intact_def split: if_splits)
next
  case (Some j)
  have "i \<noteq> j" using first_index_SomeD(2) [OF Some] assms(2) by auto
  with assms(1) Some show ?thesis by (auto simp: fs_create_def intact_def Let_def add_file_count_def split: if_splits)
qed

lemma intact_open [intact_intros]:
  assumes "fs_open nm fl ct mt s = Some (r, s')" "fe_is_used (file_table s ! i) \<noteq> 0"
  shows "intact i s s'"
proof (cases "find_file_index nm s = -1 \<and> fl AND O_CREAT \<noteq> 0")
  case True
  with assms(1) obtain j s1 where c: "fs_create nm 420 ct mt s = Some (j, s1)"
    and s': "s' = s1 \<or> s' = snd (alloc_fd j s1)"
    by (auto simp: fs_open_def Let_def split: option.splits if_splits)
  with intact_create [OF c assms(2)] show ?thesis by (auto simp: intact_def alloc_fd_file_table)
next
  case False
  then have "s' = s \<or> s' = snd (alloc_fd (find_file_index nm s) s)"
    using assms(1) by (auto simp: fs_open_def Let_def split: if_splits)
  then show ?thesis by (auto simp: intact_def alloc_fd_file_table)
qed

lemma intact_write:
  assumes "i \<noteq> fd_index fd s"
  shows "intact i s (snd (fs_write fd pos buf mt s))"
proof -
  obtain ok s1 where ens: "ensure_blocks fd (blocks_of_size (i32 (pos + int (length buf)))) s = (ok, s1)" by fastforce
  have "file_table s1 ! i = file_table s ! i" using ensure_blocks_other [OF ens] assms by blast
  moreover have "file_table (write_data fd pos buf mt s1) ! i = file_table s1 ! i"
    using assms ensure_blocks_frame(6) [OF ens] by (simp add: write_data_def Let_def fd_index_def)
  ultimately show ?thesis using ens by (auto simp: fs_write_def intact_def split: if_splits)
qed

lemma intact_delete:
  assumes "first_index (file_named nm) (file_table s) \<noteq> Some i"
  shows "intact i s (snd (fs_delete nm s))"
  using assms
  by (auto simp: fs_delete_def Let_def intact_def free_blocks_def add_used_blocks_def add_file_count_def split: option.splits)

text \<open>
  The command line's own view: the open descriptor refers to the file of the name it remembers. It holds in
  every session (below, \<open>session_ok\<close>).
\<close>

definition cli_ok :: "cli \<Rightarrow> bool" where
  "cli_ok c \<longleftrightarrow> (0 \<le> current_fd c \<longrightarrow> nat (current_fd c) < length (open_files (cli_fs c))
     \<and> first_index (file_named (current_filename c)) (file_table (cli_fs c)) = Some (fd_index (current_fd c) (cli_fs c)))"

definition may_write :: "string \<Rightarrow> cli \<Rightarrow> bool" where
  "may_write nm c \<longleftrightarrow> fs_check_permission nm PERM_WRITE (cli_fs c)"

lemma with_fs_fields [simp]: "cli_fs (with_fs s c) = s"
  by (simp add: with_fs_def)

lemma check_permission_index:
  "first_index (file_named a) (file_table s) = Some i \<Longrightarrow> first_index (file_named b) (file_table s) = Some i
   \<Longrightarrow> fs_check_permission a p s = fs_check_permission b p s"
  by (simp add: fs_check_permission_def find_file_index_def)

lemma cmd_write_intact:
  assumes ok: "cli_ok c" and i: "first_index (file_named nm) (file_table (cli_fs c)) = Some i" and deny: "\<not> may_write nm c"
    and w: "cmd_write now args c = Some (r, c')"
  shows "intact i (cli_fs c) (cli_fs c')"
proof (cases "0 \<le> current_fd c \<and> i = fd_index (current_fd c) (cli_fs c)")
  case True
  then have "\<not> fs_check_permission (current_filename c) PERM_WRITE (cli_fs c)"
    using ok i deny check_permission_index [of "current_filename c" "cli_fs c" i nm]
    by (simp add: cli_ok_def may_write_def)
  with True w show ?thesis by (auto simp: cmd_write_def intact_def)
next
  case False
  then show ?thesis using w intact_write [of i "current_fd c" "cli_fs c"]
    by (auto simp: cmd_write_def intact_def Let_def split: if_splits prod.splits) (metis snd_conv)+
qed

lemma cmd_rm_intact:
  assumes i: "first_index (file_named nm) (file_table (cli_fs c)) = Some i" and deny: "\<not> may_write nm c"
    and w: "cmd_rm args c = Some (r, c')"
  shows "intact i (cli_fs c) (cli_fs c')"
proof (cases "args \<noteq> [] \<and> first_index (file_named (args ! 0)) (file_table (cli_fs c)) = Some i")
  case True
  then have "\<not> fs_check_permission (args ! 0) PERM_WRITE (cli_fs c)"
    using i deny check_permission_index [of "args ! 0" "cli_fs c" i nm] by (simp add: may_write_def)
  with w True show ?thesis by (auto simp: cmd_rm_def intact_def split: if_splits)
next
  case False
  then show ?thesis using w intact_delete [of "args ! 0" "cli_fs c" i]
    by (auto simp: cmd_rm_def intact_def Let_def split: if_splits prod.splits)
qed

lemma cmd_files_intact:
  assumes used: "fe_is_used (file_table (cli_fs c) ! i) \<noteq> 0"
  shows "cmd_create now args c = Some (r, c') \<Longrightarrow> intact i (cli_fs c) (cli_fs c')"
    "cmd_open now args c = Some (r, c') \<Longrightarrow> intact i (cli_fs c) (cli_fs c')"
    "cmd_read args c = Some (r, c') \<Longrightarrow> intact i (cli_fs c) (cli_fs c')"
    "cmd_close c = Some (r, c') \<Longrightarrow> intact i (cli_fs c) (cli_fs c')"
proof -
  have refl: "intact i s s" for s by (simp add: intact_def)
  have cr: "fs_create nm perm ct mt (cli_fs c) = Some (x, s') \<Longrightarrow> intact i (cli_fs c) s'" for nm perm ct mt x s'
    by (rule intact_create [OF _ used])
  have op: "fs_open nm fl ct mt (cli_fs c) = Some (x, s') \<Longrightarrow> intact i (cli_fs c) s'" for nm fl ct mt x s'
    by (rule intact_open [OF _ used])
  have rd: "fs_read fd pos n s = (x, s') \<Longrightarrow> intact i s s'" for fd pos n s x s'
    using intact_users(6) [of i s fd pos n] by (metis snd_conv)
  show "cmd_create now args c = Some (r, c') \<Longrightarrow> intact i (cli_fs c) (cli_fs c')"
    by (auto simp: cmd_create_def Let_def refl dest!: cr split: if_splits option.splits)
  show "cmd_open now args c = Some (r, c') \<Longrightarrow> intact i (cli_fs c) (cli_fs c')"
    by (auto simp: cmd_open_def Let_def refl dest!: op split: if_splits option.splits)
  show "cmd_read args c = Some (r, c') \<Longrightarrow> intact i (cli_fs c) (cli_fs c')"
    by (auto simp: cmd_read_def Let_def refl dest!: rd split: if_splits prod.splits)
  show "cmd_close c = Some (r, c') \<Longrightarrow> intact i (cli_fs c) (cli_fs c')"
    by (auto simp: cmd_close_def refl intro: intact_intros split: if_splits)
qed

lemma cmd_admin_intact:
  "cmd_useradd args c = Some (r, c') \<Longrightarrow> intact i (cli_fs c) (cli_fs c')"
  "cmd_userdel args c = Some (r, c') \<Longrightarrow> intact i (cli_fs c) (cli_fs c')"
  "cmd_groupadd args c = Some (r, c') \<Longrightarrow> intact i (cli_fs c) (cli_fs c')"
  "cmd_groupdel args c = Some (r, c') \<Longrightarrow> intact i (cli_fs c) (cli_fs c')"
  "cmd_usermod args c = Some (r, c') \<Longrightarrow> intact i (cli_fs c) (cli_fs c')"
  "cmd_su args c = Some (r, c') \<Longrightarrow> intact i (cli_fs c) (cli_fs c')"
  "cmd_chmod args c = Some (r, c') \<Longrightarrow> intact i (cli_fs c) (cli_fs c')"
  "cmd_chgrp args c = Some (r, c') \<Longrightarrow> intact i (cli_fs c) (cli_fs c')"
  "cmd_chown args c = Some (r, c') \<Longrightarrow> intact i (cli_fs c) (cli_fs c')"
proof -
  have refl: "intact i s s" for s by (simp add: intact_def)
  note d = cmd_account_def cmd_useradd_def cmd_userdel_def cmd_groupadd_def cmd_groupdel_def cmd_usermod_def
    cmd_su_def cmd_chmod_def cmd_chgrp_def Let_def refl
  show "cmd_useradd args c = Some (r, c') \<Longrightarrow> intact i (cli_fs c) (cli_fs c')"
    "cmd_userdel args c = Some (r, c') \<Longrightarrow> intact i (cli_fs c) (cli_fs c')"
    "cmd_groupadd args c = Some (r, c') \<Longrightarrow> intact i (cli_fs c) (cli_fs c')"
    "cmd_groupdel args c = Some (r, c') \<Longrightarrow> intact i (cli_fs c) (cli_fs c')"
    "cmd_usermod args c = Some (r, c') \<Longrightarrow> intact i (cli_fs c) (cli_fs c')"
    "cmd_su args c = Some (r, c') \<Longrightarrow> intact i (cli_fs c) (cli_fs c')"
    "cmd_chmod args c = Some (r, c') \<Longrightarrow> intact i (cli_fs c) (cli_fs c')"
    "cmd_chgrp args c = Some (r, c') \<Longrightarrow> intact i (cli_fs c) (cli_fs c')"
    by (auto simp: d intro: intact_groupadd intact_users intact_modes split: if_splits)
  show "cmd_chown args c = Some (r, c') \<Longrightarrow> intact i (cli_fs c) (cli_fs c')"
    by (auto simp: cmd_chown_def Let_def refl intro: intact_modes intact_trans [OF intact_modes(2) intact_modes(3)] split: if_splits)
qed

lemma cmd_info_state:
  "cmd_size c = Some (r, c') \<Longrightarrow> c' = c" "cmd_ls c = Some (r, c') \<Longrightarrow> c' = c" "cmd_stat c = Some (r, c') \<Longrightarrow> c' = c"
  "cmd_whoami c = Some (r, c') \<Longrightarrow> c' = c" "cmd_getfacl args c = Some (r, c') \<Longrightarrow> c' = c"
  by (auto simp: cmd_size_def cmd_ls_def cmd_stat_def cmd_whoami_def cmd_getfacl_def Let_def split: if_splits)

section \<open>Sessions\<close>

text \<open>What leaves the names of all files and the open descriptors alone leaves the view of the command line alone.\<close>

definition same_names :: "myfs \<Rightarrow> myfs \<Rightarrow> bool" where
  "same_names s s' \<longleftrightarrow> open_files s' = open_files s \<and> length (file_table s') = length (file_table s)
     \<and> (\<forall>i. fe_name (file_table s' ! i) = fe_name (file_table s ! i) \<and> fe_is_used (file_table s' ! i) = fe_is_used (file_table s ! i))"

lemma same_names_refl [simp]: "same_names s s"
  by (simp add: same_names_def)

lemma same_names_trans: "same_names s s' \<Longrightarrow> same_names s' s'' \<Longrightarrow> same_names s s''"
  by (simp add: same_names_def)

lemma same_names_same: "file_table s' = file_table s \<Longrightarrow> open_files s' = open_files s \<Longrightarrow> same_names s s'"
  by (simp add: same_names_def)

lemma same_names_update:
  assumes "file_table s' = (file_table s)[j := e]" "open_files s' = open_files s"
    "fe_name e = fe_name (file_table s ! j)" "fe_is_used e = fe_is_used (file_table s ! j)"
  shows "same_names s s'"
proof -
  have "fe_name (file_table s' ! i) = fe_name (file_table s ! i) \<and> fe_is_used (file_table s' ! i) = fe_is_used (file_table s ! i)" for i
    using assms by (cases "i = j"; cases "j < length (file_table s)") (simp_all add: list_update_beyond)
  then show ?thesis using assms(1,2) by (simp add: same_names_def)
qed

named_theorems same_names_intros

lemma same_names_users [same_names_intros]:
  "same_names s (snd (fs_useradd nm s))" "same_names s (snd (fs_userdel nm s))" "same_names s (snd (fs_groupadd nm s))"
  "same_names s (snd (fs_groupdel nm s))" "same_names s (snd (fs_usermod_add_group nm grp s))"
  "same_names s (fs_switch_user nm s)" "same_names s (snd (fs_read fd pos n s))"
  by (rule same_names_same; auto simp: fs_useradd_def fs_userdel_def fs_groupadd_def fs_groupdel_def fs_usermod_add_group_def
      fs_switch_user_def fs_read_def Let_def split: option.splits prod.splits)+

lemma same_names_modes [same_names_intros]:
  "same_names s (snd (fs_chmod nm mode s))" "same_names s (snd (fs_chown nm user s))" "same_names s (snd (fs_chgrp nm grp s))"
proof -
  have u: "same_names s (save_metadata (upd_file j f s))" if "\<And>e. fe_name (f e) = fe_name e" "\<And>e. fe_is_used (f e) = fe_is_used e" for j f
    by (rule same_names_update [of _ s j "f (file_table s ! j)"]) (simp_all add: upd_file_def that)
  show "same_names s (snd (fs_chmod nm mode s))" "same_names s (snd (fs_chown nm user s))" "same_names s (snd (fs_chgrp nm grp s))"
    by (simp_all add: fs_chmod_def fs_chown_def fs_chgrp_def Let_def u)
qed

lemma same_names_write [same_names_intros]: "same_names s (snd (fs_write fd pos buf mt s))"
proof -
  obtain ok s1 where ens: "ensure_blocks fd (blocks_of_size (i32 (pos + int (length buf)))) s = (ok, s1)" by fastforce
  obtain a s' where a: "allocate_blocks (blocks_of_size (i32 (pos + int (length buf)))) s = (a, s')" by fastforce
  obtain b s'' where b: "allocate_blocks (blocks_of_size (i32 (pos + int (length buf))) - fe_block_count (fd_file fd s)) s = (b, s'')"
    by fastforce
  have upd: "same_names s t" if "file_table t = (file_table s)[fd_index fd s := (fd_file fd s)\<lparr>fe_start_block := x, fe_block_count := y\<rparr>]"
    "open_files t = open_files s" for t x y
    by (rule same_names_update [OF that]) (simp_all add: fd_file_def)
  have 1: "same_names s s1"
    using ens a b allocate_blocks_frame [OF a] allocate_blocks_frame [OF b]
    by (auto simp: ensure_blocks_def Let_def set_fd_file_def fd_index_def same_names_same split: if_splits
        intro!: same_names_update [of _ s "fd_index fd s"] simp: fd_file_def)
  let ?s = "write_data fd pos buf mt s1"
  have "\<exists>e. file_table ?s = (file_table s1)[fd_index fd s1 := e] \<and> fe_name e = fe_name (fd_file fd s1)
      \<and> fe_is_used e = fe_is_used (fd_file fd s1)" "open_files ?s = open_files s1"
    by (auto simp: write_data_def Let_def set_fd_file_def fd_index_def)
  then have "same_names s1 ?s" using same_names_update [of ?s s1 "fd_index fd s1"] by (auto simp: fd_file_def)
  with 1 ens show ?thesis by (auto simp: fs_write_def intro: same_names_trans split: if_splits)
qed

lemma same_names_shrink [same_names_intros]: "same_names s (snd (fs_shrink fd k mt s))"
proof (cases "bad_fd fd s \<or> k \<ge> fe_size (fd_file fd s)")
  case False
  let ?s = "snd (fs_shrink fd k mt s)"
  have "\<exists>e. file_table ?s = (file_table s)[fd_index fd s := e] \<and> fe_name e = fe_name (fd_file fd s)
      \<and> fe_is_used e = fe_is_used (fd_file fd s)" "open_files ?s = open_files s"
    using False by (auto simp: fs_shrink_def Let_def set_fd_file_def free_blocks_def add_used_blocks_def fd_index_def)
  then show ?thesis using same_names_update [of ?s s "fd_index fd s"] by (auto simp: fd_file_def)
qed (auto simp: fs_shrink_def Let_def)

lemma first_index_same_names:
  assumes "same_names s s'"
  shows "first_index (file_named nm) (file_table s') = first_index (file_named nm) (file_table s)"
proof -
  have "file_named nm (file_table s' ! i) = file_named nm (file_table s ! i)" for i
    using assms by (simp add: same_names_def file_named_def)
  then have "first_index (file_named nm) (file_table s') = Some i \<longleftrightarrow> first_index (file_named nm) (file_table s) = Some i" for i
    using assms by (simp add: first_index_Some same_names_def)
  then show ?thesis by (metis not_None_eq)
qed

lemma cli_ok_same: "cli_ok c \<Longrightarrow> same_names (cli_fs c) s \<Longrightarrow> cli_ok (with_fs s c)"
  using first_index_same_names [of "cli_fs c" s] by (auto simp: cli_ok_def with_fs_def fd_index_def same_names_def)

lemma cmd_same:
  assumes "cli_ok c"
  shows "cmd_read args c = Some (r, c') \<Longrightarrow> cli_ok c'" "cmd_write now args c = Some (r, c') \<Longrightarrow> cli_ok c'"
    "cmd_shrink now args c = Some (r, c') \<Longrightarrow> cli_ok c'"
    "cmd_useradd args c = Some (r, c') \<Longrightarrow> cli_ok c'" "cmd_userdel args c = Some (r, c') \<Longrightarrow> cli_ok c'"
    "cmd_groupadd args c = Some (r, c') \<Longrightarrow> cli_ok c'" "cmd_groupdel args c = Some (r, c') \<Longrightarrow> cli_ok c'"
    "cmd_usermod args c = Some (r, c') \<Longrightarrow> cli_ok c'" "cmd_su args c = Some (r, c') \<Longrightarrow> cli_ok c'"
    "cmd_chmod args c = Some (r, c') \<Longrightarrow> cli_ok c'" "cmd_chgrp args c = Some (r, c') \<Longrightarrow> cli_ok c'"
    "cmd_chown args c = Some (r, c') \<Longrightarrow> cli_ok c'"
proof -
  note ok = cli_ok_same [OF assms]
  have rd: "fs_read fd pos n s = (x, s') \<Longrightarrow> same_names s s'" for fd pos n s x s'
    using same_names_users(7) [of s fd pos n] by simp
  have wr: "fs_write fd pos buf mt s = (x, s') \<Longrightarrow> same_names s s'" for fd pos buf mt s x s'
    using same_names_write [of s fd pos buf mt] by simp
  have sh: "fs_shrink fd k mt s = (x, s') \<Longrightarrow> same_names s s'" for fd k mt s x s'
    using same_names_shrink [of s fd k mt] by simp
  show "cmd_read args c = Some (r, c') \<Longrightarrow> cli_ok c'"
    using assms by (auto simp: cmd_read_def Let_def ok rd split: if_splits prod.splits)
  show "cmd_write now args c = Some (r, c') \<Longrightarrow> cli_ok c'"
    using assms by (auto simp: cmd_write_def Let_def ok wr split: if_splits prod.splits)
  show "cmd_shrink now args c = Some (r, c') \<Longrightarrow> cli_ok c'"
    using assms by (auto simp: cmd_shrink_def Let_def ok sh split: if_splits prod.splits)
  note d = cmd_account_def cmd_useradd_def cmd_userdel_def cmd_groupadd_def cmd_groupdel_def cmd_usermod_def
    cmd_su_def cmd_chmod_def cmd_chgrp_def Let_def ok same_names_users same_names_modes
  show "cmd_useradd args c = Some (r, c') \<Longrightarrow> cli_ok c'" "cmd_userdel args c = Some (r, c') \<Longrightarrow> cli_ok c'"
    "cmd_groupadd args c = Some (r, c') \<Longrightarrow> cli_ok c'" "cmd_groupdel args c = Some (r, c') \<Longrightarrow> cli_ok c'"
    "cmd_usermod args c = Some (r, c') \<Longrightarrow> cli_ok c'" "cmd_su args c = Some (r, c') \<Longrightarrow> cli_ok c'"
    "cmd_chmod args c = Some (r, c') \<Longrightarrow> cli_ok c'" "cmd_chgrp args c = Some (r, c') \<Longrightarrow> cli_ok c'"
    using assms by (auto simp: d split: if_splits)
  show "cmd_chown args c = Some (r, c') \<Longrightarrow> cli_ok c'"
    using assms by (auto simp: cmd_chown_def Let_def ok same_names_modes same_names_trans [OF same_names_modes(2) same_names_modes(3)] split: if_splits)
qed

text \<open>Creating, opening, closing and removing.\<close>

lemma create_found:
  assumes c: "fs_create nm perm ct mt s = Some (x, s')" and short: "length nm < MAX_FILENAME"
  shows "open_files s' = open_files s"
    "first_index (file_named n2) (file_table s) = Some i \<Longrightarrow> first_index (file_named n2) (file_table s') = Some i"
    "x \<noteq> -1 \<Longrightarrow> 0 \<le> x \<and> first_index (file_named nm) (file_table s') = Some (nat x)"
proof -
  show "open_files s' = open_files s"
    using c by (auto simp: fs_create_def Let_def add_file_count_def split: if_splits option.splits)
  have nm: "strncpy_n (MAX_FILENAME - 1) nm = nm" using short by simp
  have cases: "x = -1 \<and> s' = s \<or> (\<exists>k e. x = int k \<and> k < length (file_table s) \<and> fe_is_used (file_table s ! k) = 0
      \<and> file_table s' = (file_table s)[k := e] \<and> fe_name e = nm \<and> fe_is_used e = 1
      \<and> first_index (file_named nm) (file_table s) = None)"
  proof (cases "first_index (file_named nm) (file_table s) = None \<and> first_index (\<lambda>e. fe_is_used e = 0) (file_table s) \<noteq> None")
    case False
    then show ?thesis using c by (auto simp: fs_create_def split: option.splits if_splits)
  next
    case True
    then obtain k where k: "first_index (\<lambda>e. fe_is_used e = 0) (file_table s) = Some k" by blast
    let ?e = "\<lparr>fe_name = nm, fe_size = 0, fe_start_block = -1, fe_block_count = 0, fe_permissions = perm,
      fe_owner_uid = current_uid s, fe_group_gid = u_primary_gid (user_table s ! nat (current_uid s)),
      fe_create_time = ct, fe_modify_time = mt, fe_is_used = 1\<rparr>"
    have "x = int k \<and> file_table s' = (file_table s)[k := ?e]"
      using c True k nm by (auto simp: fs_create_def Let_def add_file_count_def split: if_splits)
    then show ?thesis using True first_index_SomeD(1,2) [OF k] by (intro disjI2 exI [of _ k] exI [of _ ?e]) simp
  qed
  show "first_index (file_named n2) (file_table s') = Some i" if i: "first_index (file_named n2) (file_table s) = Some i"
    using cases
  proof (elim disjE exE conjE)
    fix k e
    assume k: "k < length (file_table s)" "fe_is_used (file_table s ! k) = 0" "file_table s' = (file_table s)[k := e]"
      "fe_name e = nm" and none: "first_index (file_named nm) (file_table s) = None"
    have "n2 \<noteq> nm" using i none by auto
    moreover have "k \<noteq> i" using first_index_SomeD(2) [OF i] k(2) by (auto simp: file_named_def)
    ultimately show ?thesis using i k by (auto simp: first_index_Some nth_list_update file_named_def)
  qed (use i in simp)
  show "0 \<le> x \<and> first_index (file_named nm) (file_table s') = Some (nat x)" if "x \<noteq> -1"
    using cases that
    by (auto simp: first_index_Some first_index_None nth_list_update file_named_def all_set_conv_all_nth) (metis less_trans)+
qed

lemma alloc_fd_ok:
  assumes "alloc_fd idx s = (fd, s')" "fd \<noteq> -1"
  shows "0 \<le> fd" "nat fd < length (open_files s')" "fd_index fd s' = nat idx" "file_table s' = file_table s"
  using assms first_index_SomeD(1) [of "\<lambda>x. x = -1" "open_files s"]
  by (auto simp: alloc_fd_def fd_index_def split: option.splits)

lemma cmd_create_ok:
  assumes ok: "cli_ok c" and short: "\<forall>a \<in> set args. length a < MAX_FILENAME" and run: "cmd_create now args c = Some (r, c')"
  shows "cli_ok c'"
proof (cases "args = []")
  case True
  then show ?thesis using run ok by (simp add: cmd_create_def)
next
  case False
  then have nm: "length (args ! 0) < MAX_FILENAME" using short by (simp add: nth_mem)
  obtain perm x s where c: "fs_create (args ! 0) perm now now (cli_fs c) = Some (x, s)" "c' = with_fs s c"
    using run False by (auto simp: cmd_create_def Let_def split: option.splits)
  show ?thesis
    using ok create_found(1,2) [OF c(1) nm] by (auto simp: c(2) cli_ok_def with_fs_def fd_index_def)
qed

lemma cmd_open_ok:
  assumes ok: "cli_ok c" and short: "\<forall>a \<in> set args. length a < MAX_FILENAME" and run: "cmd_open now args c = Some (r, c')"
  shows "cli_ok c'"
proof (cases "c' = c \<or> current_fd c' < 0")
  case True
  then show ?thesis using ok by (auto simp: cli_ok_def)
next
  case False
  then have ne: "args \<noteq> []" using run by (auto simp: cmd_open_def)
  then have nm: "length (args ! 0) < MAX_FILENAME" using short by (simp add: nth_mem)
  obtain fl fd s where o: "fs_open (args ! 0) fl now now (cli_fs c) = Some (fd, s)" "0 \<le> fd"
    and c': "c' = c\<lparr>cli_fs := s, current_fd := fd, current_filename := args ! 0\<rparr>"
    using run False ne nm by (auto simp: cmd_open_def Let_def split: if_splits option.splits)
  obtain k s1 where k: "first_index (file_named (args ! 0)) (file_table s1) = Some k" "alloc_fd (int k) s1 = (fd, s)"
  proof (cases "first_index (file_named (args ! 0)) (file_table (cli_fs c))")
    case None
    then obtain x s1 where cr: "fs_create (args ! 0) 420 now now (cli_fs c) = Some (x, s1)" "x \<noteq> -1" "alloc_fd x s1 = (fd, s)"
      using o by (auto simp: fs_open_def find_file_index_def Let_def split: if_splits option.splits)
    show ?thesis using that [of s1 "nat x"] create_found(3) [OF cr(1) nm cr(2)] cr(3) by simp
  next
    case (Some k)
    then show ?thesis using that [of "cli_fs c" k] o by (auto simp: fs_open_def find_file_index_def Let_def)
  qed
  show ?thesis using alloc_fd_ok [OF k(2)] o(2) k(1) by (simp add: cli_ok_def c')
qed

lemma cmd_rm_ok:
  assumes ok: "cli_ok c" and run: "cmd_rm args c = Some (r, c')"
  shows "cli_ok c'"
proof (cases "c' = c \<or> current_fd c < 0 \<or> first_index (file_named (args ! 0)) (file_table (cli_fs c)) = None")
  case True
  then show ?thesis using ok run
    by (auto simp: cli_ok_def cmd_rm_def fs_delete_def with_fs_def Let_def split: if_splits prod.splits)
next
  case False
  then obtain k where k: "first_index (file_named (args ! 0)) (file_table (cli_fs c)) = Some k" by auto
  have other: "args ! 0 \<noteq> current_filename c" and c': "c' = with_fs (snd (fs_delete (args ! 0) (cli_fs c))) c"
    using run False by (auto simp: cmd_rm_def Let_def split: if_splits prod.splits)
  let ?s = "cli_fs c" and ?s' = "snd (fs_delete (args ! 0) (cli_fs c))"
  have fs: "file_table ?s' = (file_table ?s)[k := (file_table ?s ! k)\<lparr>fe_is_used := 0\<rparr>]"
    "open_files ?s' = map (\<lambda>x. if x = int k then -1 else x) (open_files ?s)"
    using k by (auto simp: fs_delete_def Let_def free_blocks_def add_used_blocks_def add_file_count_def)
  have fd: "nat (current_fd c) < length (open_files ?s)"
    and cur: "first_index (file_named (current_filename c)) (file_table ?s) = Some (fd_index (current_fd c) ?s)"
    using ok False by (auto simp: cli_ok_def)
  have ne: "fd_index (current_fd c) ?s \<noteq> k"
    using first_index_SomeD(2) [OF k] first_index_SomeD(2) [OF cur] other by (auto simp: file_named_def)
  then have "fd_index (current_fd c) ?s' = fd_index (current_fd c) ?s" using fd by (auto simp: fd_index_def fs)
  moreover have "first_index (file_named (current_filename c)) (file_table ?s') = Some (fd_index (current_fd c) ?s)"
    using cur ne first_index_SomeD(1) [OF k] by (auto simp: first_index_Some fs nth_list_update file_named_def)
  ultimately show ?thesis using fd by (simp add: cli_ok_def c' with_fs_def fs)
qed

text \<open>
  A session: the commands of the shell one after the other, with the answers to \<open>format\<close> and any
  times. The names given to \<open>create\<close> and \<open>open\<close> have at most 31 characters; longer ones are cut
  when they are stored, and then two files may have the same name.
\<close>

inductive cli_step :: "cli \<Rightarrow> cli \<Rightarrow> bool" where
  commands: "run_command now cmd args c = Some (r, c') \<Longrightarrow>
    cmd = ''create'' \<or> cmd = ''open'' \<longrightarrow> (\<forall>a \<in> set args. length a < MAX_FILENAME) \<Longrightarrow> cli_step c c'"
| formats: "cmd_format stdin c = Some (r, c', stdin') \<Longrightarrow> cli_step c c'"

definition cli_start :: "cli \<Rightarrow> bool" where
  "cli_start c \<longleftrightarrow> current_fd c = -1"

lemma cli_step_ok:
  assumes ok: "cli_ok c" and step: "cli_step c c'"
  shows "cli_ok c'"
  using step
proof (cases rule: cli_step.cases)
  case (commands now cmd args r)
  have close: "cmd_close c = Some (r, c') \<Longrightarrow> cli_ok c'"
    using ok by (auto simp: cmd_close_def cli_ok_def split: if_splits)
  have info: "c' = c \<Longrightarrow> cli_ok c'" using ok by simp
  note facts = cmd_same [OF ok] cmd_rm_ok [OF ok] close
  show ?thesis
    using commands cmd_create_ok [OF ok, of args] cmd_open_ok [OF ok, of args] unfolding run_command_def
    by (auto dest: cmd_info_state intro: facts info split: if_split_asm)
next
  case (formats stdin r stdin')
  then show ?thesis using ok by (auto simp: cmd_format_def Let_def cli_ok_def with_fs_def split: if_splits prod.splits)
qed

interpretation session: invariant_system cli_start cli_step cli_ok
proof
  show "cli_ok c" if "cli_start c" for c using that by (simp add: cli_start_def cli_ok_def)
qed (rule cli_step_ok)

lemma session_ok: "cli_start c0 \<Longrightarrow> rtranclp cli_step c0 c \<Longrightarrow> cli_ok c"
  by (rule session.reachable_inv)

text \<open>
  C27: In any session of the shell that names files by at most 31 characters: as long as the user has no
  write permission for a file, no command but
  \<open>shrink\<close> (and \<open>format\<close>, which \<open>run_command\<close> leaves out) removes it, renames it, resizes it or moves its
  blocks, whichever file is open, whatever the arguments.
\<close>

theorem no_permission_no_change:
  assumes session: "cli_start c0" "rtranclp cli_step c0 c" and i: "first_index (file_named nm) (file_table (cli_fs c)) = Some i"
    and deny: "\<not> fs_check_permission nm PERM_WRITE (cli_fs c)" and cmd: "cmd \<noteq> ''shrink''"
    and run: "run_command now cmd args c = Some (r, c')"
  shows "extent_meta (file_table (cli_fs c') ! i) = extent_meta (file_table (cli_fs c) ! i)"
proof -
  have ok: "cli_ok c" by (rule session_ok [OF session])
  have refl: "intact i s s" for s by (simp add: intact_def)
  have used: "fe_is_used (file_table (cli_fs c) ! i) \<noteq> 0"
    using first_index_SomeD(2) [OF i] by (simp add: file_named_def)
  have deny': "\<not> may_write nm c" using deny by (simp add: may_write_def)
  note facts = cmd_files_intact [OF used] cmd_admin_intact cmd_write_intact [OF ok i deny'] cmd_rm_intact [OF i deny'] refl
  have "intact i (cli_fs c) (cli_fs c')"
    using run cmd unfolding run_command_def
    by (auto dest: cmd_info_state intro: facts split: if_split_asm)
  then show ?thesis by (simp add: intact_def)
qed

text \<open>User 7 has opened file ``a'' of \<open>disk2\<close>, which belongs to root and has the given mode.\<close>

definition visitor :: "u32 \<Rightarrow> cli" where
  "visitor mode = \<lparr>cli_fs = disk2\<lparr>current_uid := 7,
      file_table := (file_table disk2)[0 := (entry_at ''a'' 29)\<lparr>fe_permissions := mode\<rparr>]\<rparr>,
     current_fd = 0, current_filename = ''a''\<rparr>"

lemma visitor_files:
  "file_table (cli_fs (visitor mode)) = (replicate MAX_FILES zero_FileEntry)[0 := (entry_at ''a'' 29)\<lparr>fe_permissions := mode\<rparr>, 1 := entry_at ''b'' 30]"
  "first_index (file_named ''a'') (file_table (cli_fs (visitor mode))) = Some 0"
  "fd_index 0 (cli_fs (visitor mode)) = 0" "\<not> bad_fd 0 (cli_fs (visitor mode))"
  "fd_file 0 (cli_fs (visitor mode)) = (entry_at ''a'' 29)\<lparr>fe_permissions := mode\<rparr>"
proof -
  show ft: "file_table (cli_fs (visitor mode)) = (replicate MAX_FILES zero_FileEntry)[0 := (entry_at ''a'' 29)\<lparr>fe_permissions := mode\<rparr>, 1 := entry_at ''b'' 30]"
    by (rule nth_equalityI) (auto simp: visitor_def disk2_def nth_list_update)
  show "first_index (file_named ''a'') (file_table (cli_fs (visitor mode))) = Some 0"
    unfolding ft by (simp add: first_index_Some nth_list_update file_named_def entry_at_def)
  show "fd_index 0 (cli_fs (visitor mode)) = 0" "\<not> bad_fd 0 (cli_fs (visitor mode))"
    by (simp_all add: visitor_def fd_index_def bad_fd_def disk2_def nth_list_update)
  then show "fd_file 0 (cli_fs (visitor mode)) = (entry_at ''a'' 29)\<lparr>fe_permissions := mode\<rparr>"
    by (simp add: fd_file_def ft nth_list_update)
qed

lemma visitor_denied: "\<not> fs_check_permission ''a'' PERM_WRITE (cli_fs (visitor 0))"
proof -
  have "fe_owner_uid (file_table (cli_fs (visitor 0)) ! 0) = 0" "fe_permissions (file_table (cli_fs (visitor 0)) ! 0) = 0"
    unfolding visitor_files by (simp_all add: nth_list_update entry_at_def)
  then show ?thesis
    using visitor_files(2) [of 0]
    by (simp add: fs_check_permission_def find_file_index_def effective_perm_def visitor_def)
qed

text \<open>
  A session of user 7: nothing is open at first; \<open>open a c\<close> opens root's file (with the flag to create, the shell
  asks for no permission), and the write to it is refused.
\<close>

definition arrived :: cli where
  "arrived = (visitor 0)\<lparr>cli_fs := (cli_fs (visitor 0))\<lparr>open_files := replicate MAX_FILES (-1)\<rparr>, current_fd := -1, current_filename := []\<rparr>"

definition opened :: cli where
  "opened = (visitor 0)\<lparr>cli_fs := (cli_fs (visitor 0))\<lparr>open_files := (replicate MAX_FILES (-1))[0 := 0]\<rparr>\<rparr>"

lemma arrived_opens: "run_command 0 ''open'' [''a'', ''c''] arrived = Some (Opened ''a'' 0, opened)"
proof -
  have "find_file_index ''a'' (cli_fs arrived) = 0"
    using visitor_files(2) [of 0] by (simp add: find_file_index_def arrived_def)
  moreover have "first_index (\<lambda>x. x = -1) (replicate MAX_FILES (-1 :: int)) = Some 0" by (simp add: first_index_Some)
  then have "alloc_fd 0 (cli_fs arrived) = (0, cli_fs opened)"
    by (simp add: alloc_fd_def arrived_def opened_def)
  ultimately show ?thesis
    by (simp add: run_command_def cmd_open_def parse_open_flags_def fs_open_def strncpy_n_def)
      (simp add: arrived_def opened_def visitor_def)
qed

lemma opened_denied: "\<not> fs_check_permission ''a'' PERM_WRITE (cli_fs opened)"
proof -
  have t: "file_table (cli_fs opened) = file_table (cli_fs (visitor 0))" "current_uid (cli_fs opened) = 7"
    by (simp_all add: opened_def visitor_def)
  have "fe_owner_uid (file_table (cli_fs opened) ! 0) = 0" "fe_permissions (file_table (cli_fs opened) ! 0) = 0"
    unfolding t visitor_files by (simp_all add: nth_list_update entry_at_def)
  then show ?thesis
    using visitor_files(2) [of 0] by (simp add: fs_check_permission_def find_file_index_def effective_perm_def t)
qed

theorem no_permission_no_change_witness:
  "run_command 0 ''open'' [''a'', ''c''] arrived = Some (Opened ''a'' 0, opened)
   \<and> extent_meta (file_table (cli_fs (snd (the (run_command 0 ''write'' [''0'', ''xyz''] opened)))) ! 0)
     = extent_meta (file_table (cli_fs opened) ! 0)"
proof -
  have "cli_start arrived" by (simp add: cli_start_def arrived_def)
  moreover have "rtranclp cli_step arrived opened"
    using cli_step.commands [OF arrived_opens] by (simp add: r_into_rtranclp)
  moreover have "first_index (file_named ''a'') (file_table (cli_fs opened)) = Some 0"
    using visitor_files(2) [of 0] by (simp add: opened_def)
  moreover have "run_command 0 ''write'' [''0'', ''xyz''] opened = Some (Denied, opened)"
    using opened_denied by (simp add: run_command_def cmd_write_def) (simp add: opened_def visitor_def)
  ultimately show ?thesis
    using no_permission_no_change [of arrived opened "''a''" 0 "''write''" 0 "[''0'', ''xyz'']" Denied opened] opened_denied
      arrived_opens by simp
qed

text \<open>
  \<open>shrink\<close> makes no permission check: user 7, who has no permission at all on root's file
  (its mode is 000) but has it open, cuts it from ten bytes to one.
\<close>

theorem shrink_without_permission:
  "fe_permissions (fd_file 0 (cli_fs (visitor 0))) = 0 \<and> fe_size (fd_file 0 (cli_fs (visitor 0))) = 10
   \<and> (\<exists>c'. run_command 0 ''shrink'' [''1''] (visitor 0) = Some (Shrunk 1, c') \<and> fe_size (fd_file 0 (cli_fs c')) = 1)"
proof -
  have one: "atoi ''1'' = 1" by (simp add: atoi_def strtol_def c_isspace_def digits_value_def is_digit_in_def i32_small)
  have "blocks_of_size 1 = 1" by (simp add: blocks_of_size_eq)
  then show ?thesis
    using visitor_files [of 0]
    by (simp add: run_command_def cmd_shrink_def one fs_shrink_def entry_at_def Let_def with_fs_def fd_file_def fd_index_def
        nth_list_update) (simp add: visitor_def)
qed

end
