(* ===== verification/Rng.thy ===== *)
theory Rng
  imports Prelude "HOL-Library.Multiset"
begin

unbundle bit_operations_syntax

text \<open>
  The kernel's random numbers, \<open>kernel/rng.c\<close> (splitmix64 for the seed, xoroshiro128+ for the
  draws) and the clock that seeds them, \<open>kernel/goldfish.c\<close>. The two words of state are a pair. A draw
  reads both words under \<open>next_lock\<close> but stores them one after the other when it has released it:
  \<open>rand_read\<close>, \<open>store0\<close> and \<open>store1\<close> are its parts, \<open>rand_int\<close> is a draw that no other hart's draw overlaps.
\<close>

section \<open>Definitions\<close>

type_synonym rng = "u64 \<times> u64"

definition rotl64 :: "u64 \<Rightarrow> nat \<Rightarrow> u64" where
  "rotl64 x k = push_bit k x OR drop_bit (64 - k) x"

definition splitmix64next :: "u64 \<Rightarrow> u64" where
  "splitmix64next x =
     (let z = x + 0x9e3779b97f4a7c15;
          z = (z XOR drop_bit 30 z) * 0xbf58476d1ce4e5b9;
          z = (z XOR drop_bit 27 z) * 0x94d049bb133111eb
      in z XOR drop_bit 31 z)"

definition rng_seed :: "u64 \<Rightarrow> rng" where
  "rng_seed seed = (let s0 = splitmix64next seed in (s0, splitmix64next s0))"

text \<open>The result is the upper half of the sum, as a (signed) \<open>int\<close>.\<close>

definition rand_read :: "rng \<Rightarrow> int \<times> u64 \<times> u64" where
  "rand_read s =
     (let s0 = fst s; s1 = snd s; result = s0 + s1; s1 = s1 XOR s0
      in (i32 (uint (drop_bit 32 result)), rotl64 s0 24 XOR s1 XOR push_bit 16 s1, rotl64 s1 37))"

definition store0 :: "u64 \<Rightarrow> rng \<Rightarrow> rng" where "store0 w s = (w, snd s)"

definition store1 :: "u64 \<Rightarrow> rng \<Rightarrow> rng" where "store1 w s = (fst s, w)"

definition rand_int :: "rng \<Rightarrow> int \<times> rng" where
  "rand_int s = (let (result, w0, w1) = rand_read s in (result, store1 w1 (store0 w0 s)))"

lemma rand_int_eq:
  "rand_int s = (let s0 = fst s; s1 = snd s XOR s0
     in (i32 (uint (drop_bit 32 (s0 + snd s))), (rotl64 s0 24 XOR s1 XOR push_bit 16 s1, rotl64 s1 37)))"
  by (simp add: rand_int_def rand_read_def store0_def store1_def Let_def)

text \<open>\<open>get_current_time\<close> on the two registers of the clock: seconds from nanoseconds.\<close>

definition get_current_time :: "u32 \<Rightarrow> u32 \<Rightarrow> u64" where
  "get_current_time low high = (push_bit 32 (ucast high) OR ucast low) div 1000000000"

primrec draws :: "nat \<Rightarrow> rng \<Rightarrow> rng" where
  "draws 0 s = s"
| "draws (Suc n) s = draws n (snd (rand_int s))"

section \<open>Every step can be undone\<close>

lemma rotl64_word_rotl:
  assumes k: "0 < k" "k < 64"
  shows "rotl64 x k = word_rotl k x"
proof (rule bit_word_eqI)
  fix n assume "n < LENGTH(64)"
  then have n: "n < 64" by simp
  have r: "bit (word_rotl k x) n \<longleftrightarrow> bit x ((n + (64 - k)) mod 64)"
    using n k bit_word_rotl_iff [of k x n] by simp
  have l: "bit (rotl64 x k) n \<longleftrightarrow> k \<le> n \<and> bit x (n - k) \<or> bit x (64 - k + n)"
    using n by (simp add: rotl64_def bit_or_iff bit_push_bit_iff bit_drop_bit_eq)
  show "bit (rotl64 x k) n = bit (word_rotl k x) n"
  proof (cases "n < k")
    case True
    then have "(n + (64 - k)) mod 64 = 64 - k + n" using k by simp
    with True show ?thesis by (simp add: l r)
  next
    case False
    then have m: "n + (64 - k) = 64 + (n - k)" "64 - k + n = 64 + (n - k)" using k by simp_all
    have "(n + (64 - k)) mod 64 = (n - k) mod 64" by (simp only: m(1) mod_add_self1)
    then have "(n + (64 - k)) mod 64 = n - k" using n by simp
    moreover have "\<not> bit x (64 - k + n)" using m(2) bit_imp_le_length [of x "64 - k + n"] by auto
    ultimately show ?thesis using False by (simp add: l r)
  qed
qed

lemma xorshift_inj:
  fixes x y :: u64
  assumes k: "0 < k" and eq: "x XOR drop_bit k x = y XOR drop_bit k y"
  shows "x = y"
proof (rule bit_word_eqI)
  have step: "bit x n = bit y n" if "bit x (n + k) = bit y (n + k)" "n < 64" for n
  proof -
    have "bit (x XOR drop_bit k x) n = bit (y XOR drop_bit k y) n" using eq by simp
    with that show ?thesis by (auto simp: bit_xor_iff bit_drop_bit_eq add.commute)
  qed
  have "bit x n = bit y n" if "64 - n \<le> m" for m n
    using that
  proof (induction m arbitrary: n)
    case 0
    then show ?case by (auto dest: bit_imp_le_length)
  next
    case (Suc m)
    show ?case
    proof (cases "n < 64")
      case True
      have "64 - (n + k) \<le> m" using Suc.prems k True by linarith
      then show ?thesis using step [OF Suc.IH True] by blast
    qed (auto dest: bit_imp_le_length)
  qed
  then show "bit x n = bit y n" for n by blast
qed

lemma mult_inj:
  fixes c d x y :: u64
  assumes "c * d = 1" "x * c = y * c"
  shows "x = y"
proof -
  have "x * (c * d) = y * (c * d)" using assms(2) by (simp only: mult.assoc [symmetric])
  with assms(1) show ?thesis by simp
qed

lemma splitmix64next_inj: "splitmix64next x = splitmix64next y \<Longrightarrow> x = y"
proof -
  assume eq: "splitmix64next x = splitmix64next y"
  define f where "f = (\<lambda>z :: u64. (z XOR drop_bit 30 z) * 0xbf58476d1ce4e5b9)"
  define g where "g = (\<lambda>z :: u64. (z XOR drop_bit 27 z) * 0x94d049bb133111eb)"
  have f: "f a = f b \<Longrightarrow> a = b" for a b
    unfolding f_def
    by (rule xorshift_inj [of 30]) (simp, erule mult_inj [where d = "0x96de1b173f119089", rotated], simp)
  have g: "g a = g b \<Longrightarrow> a = b" for a b
    unfolding g_def
    by (rule xorshift_inj [of 27]) (simp, erule mult_inj [where d = "0x319642b2d24d8ec3", rotated], simp)
  have "splitmix64next z = g (f (z + 0x9e3779b97f4a7c15)) XOR drop_bit 31 (g (f (z + 0x9e3779b97f4a7c15)))" for z
    by (simp only: splitmix64next_def f_def g_def Let_def)
  then have "g (f (x + 0x9e3779b97f4a7c15)) = g (f (y + 0x9e3779b97f4a7c15))"
    using eq by - (rule xorshift_inj [of 31], simp_all)
  then show "x = y" by (auto dest!: f g)
qed

definition rng_undo :: "rng \<Rightarrow> rng" where
  "rng_undo s = (let x = word_rotr 37 (snd s); s0 = word_rotr 24 (fst s XOR x XOR push_bit 16 x) in (s0, x XOR s0))"

lemma rng_undo: "rng_undo (snd (rand_int s)) = s"
proof -
  obtain s0 s1 where s: "s = (s0, s1)" by fastforce
  let ?x = "s1 XOR s0"
  have step: "snd (rand_int s) = (word_rotl 24 s0 XOR ?x XOR push_bit 16 ?x, word_rotl 37 ?x)"
    by (simp add: rand_int_eq Let_def rotl64_word_rotl s)
  have e: "(a XOR b XOR c) XOR b XOR c = a" "(a XOR b) XOR a = b" for a b c :: u64
    by (rule bit_word_eqI; simp add: bit_xor_iff; blast)+
  have "word_rotr 37 (word_rotl 37 ?x) = ?x" by (rule word_rot_lr)
  then have "rng_undo (snd (rand_int s)) = (word_rotr 24 (word_rotl 24 s0), ?x XOR word_rotr 24 (word_rotl 24 s0))"
    unfolding step rng_undo_def Let_def prod.sel by (simp only: e)
  also have "\<dots> = (s0, ?x XOR s0)" by (simp only: word_rot_lr)
  also have "\<dots> = s" by (simp add: s xor.assoc)
  finally show ?thesis .
qed

lemma draws_inj: "draws n s = draws n t \<Longrightarrow> s = t"
proof (induction n arbitrary: s t)
  case (Suc n)
  then have "snd (rand_int s) = snd (rand_int t)" by simp
  then show ?case by (metis rng_undo)
qed simp

lemma rand_int_zero: "snd (rand_int (0, 0)) = (0, 0)"
  by (simp add: rand_int_eq Let_def rotl64_def)

lemma draws_zero: "draws n (0, 0) = (0, 0)"
  by (induction n) (simp_all add: rand_int_zero)

lemma splitmix64next_0: "splitmix64next 0 \<noteq> 0"
  using splitmix64next_inj [of 0 "- 0x9e3779b97f4a7c15"] by (auto simp: splitmix64next_def Let_def)

text \<open>
  C34: Whatever the seed, draws that follow one another never bring the generator to the all-zero state in which it
  would stick, and two different seeds never lead to the same state after the same number of draws. Draws of several harts that
  overlap are not covered: the code stores the state after it has released the lock (see below).
\<close>

theorem rng_never_stuck:
  "draws n (rng_seed seed) \<noteq> (0, 0) \<and> (draws n (rng_seed seed) = draws n (rng_seed seed') \<longleftrightarrow> seed = seed')"
proof -
  have "rng_seed seed \<noteq> (0, 0)" using splitmix64next_0 by (auto simp: rng_seed_def Let_def)
  then have "draws n (rng_seed seed) \<noteq> (0, 0)"
    using draws_inj [of n "rng_seed seed" "(0, 0)"] draws_zero by auto
  moreover have "rng_seed seed = rng_seed seed' \<Longrightarrow> seed = seed'"
    by (auto simp: rng_seed_def Let_def dest: splitmix64next_inj)
  ultimately show ?thesis using draws_inj by blast
qed

text \<open>
  Two harts that both read the state before one of them has stored it get the same number, and in whatever order
  their four stores come, the state has moved by one draw, not by two.
\<close>

lemma overlapping_draws_repeat:
  assumes "rand_read s = (n, w0, w1)" "mset stores = {# store0 w0, store0 w0, store1 w1, store1 w1 #}"
  shows "fst (rand_int s) = n" "fold (\<lambda>f. f) stores s = snd (rand_int s)"
proof -
  show "fst (rand_int s) = n" by (simp add: rand_int_def assms(1))
  have "set stores = {store0 w0, store1 w1}" using arg_cong [OF assms(2), of set_mset] by simp
  moreover have "fold (\<lambda>f. f) fs t = (if store0 w0 \<in> set fs then w0 else fst t, if store1 w1 \<in> set fs then w1 else snd t)"
    if "set fs \<subseteq> {store0 w0, store1 w1}" for fs t
    using that
  proof (induction fs arbitrary: t)
    case (Cons f fs)
    have ne: "store0 w0 \<noteq> store1 w1"
    proof
      assume "store0 w0 = store1 w1"
      then have "store0 w0 (w0 + 1, 0) = store1 w1 (w0 + 1, 0)" by simp
      then show False by (simp add: store0_def store1_def)
    qed
    have st: "store0 w0 t = (w0, snd t)" "store1 w1 t = (fst t, w1)" by (simp_all add: store0_def store1_def)
    have sub: "set fs \<subseteq> {store0 w0, store1 w1}" "f = store0 w0 \<or> f = store1 w1" using Cons.prems by auto
    from sub(2) show ?case using Cons.IH [OF sub(1)] ne by (elim disjE) (simp_all add: st)
  qed simp
  ultimately show "fold (\<lambda>f. f) stores s = snd (rand_int s)"
    by (simp add: rand_int_def assms(1) store0_def store1_def)
qed

text \<open>What the scheduler makes of a draw.\<close>

lemma rand_int_in_i32: "in_i32 (fst (rand_int s))"
  by (simp add: rand_int_eq Let_def)

end
