(* ===== verification/Proc.thy ===== *)
theory Proc
  imports Rng
begin

unbundle bit_operations_syntax

text \<open>
  The process table of the kernel and what changes it, \<open>kernel/proc.c\<close>: the lottery scheduler, giving
  up and losing the CPU, sleeping and waking, killing, tickets, exiting and waiting for children.
  A process is named by its slot. Each operation runs under the lock of the slot it changes and is
  one step here; the loops of the scheduler, which lock slot after slot, are given both slot by slot
  (\<open>lottery_slot\<close>) and as a whole for a table that nobody else changes meanwhile (\<open>scheduler\<close>); \<open>addr\<close> is the address the linker gave to each slot (the channel a parent sleeps on).
\<close>

section \<open>The table\<close>

abbreviation NPROC :: nat where "NPROC \<equiv> 64"
abbreviation NCPU :: nat where "NCPU \<equiv> 8"

datatype procstate = UNUSED | USED | SLEEPING | RUNNABLE | RUNNING | ZOMBIE

record proc =
  p_state :: procstate
  p_chan :: u64
  p_killed :: int
  p_xstate :: int
  p_pid :: int
  p_parent :: "nat option"
  p_kstack :: u64
  p_sz :: u64
  p_pagetable :: u64
  p_trapframe :: u64
  p_name :: string
  p_ticket :: int

record kproc =
  procs :: "proc list"
  cpus :: "nat option list"
  nextpid :: int
  initproc :: "nat option"
  k_rng :: rng

definition upd_proc :: "nat \<Rightarrow> (proc \<Rightarrow> proc) \<Rightarrow> kproc \<Rightarrow> kproc" where
  "upd_proc i f k = k\<lparr>procs := (procs k)[i := f (procs k ! i)]\<rparr>"

definition set_cpu :: "nat \<Rightarrow> nat option \<Rightarrow> kproc \<Rightarrow> kproc" where
  "set_cpu c p k = k\<lparr>cpus := (cpus k)[c := p]\<rparr>"

text \<open>\<open>KSTACK(i)\<close> of \<open>memlayout.h\<close>: two pages per slot below the trampoline page.\<close>

definition KSTACK :: "nat \<Rightarrow> u64" where
  "KSTACK p = (0x4000000000 - 4096) - word_of_nat ((p + 1) * 2 * 4096)"

definition zero_proc :: proc where
  "zero_proc = \<lparr>p_state = UNUSED, p_chan = 0, p_killed = 0, p_xstate = 0, p_pid = 0, p_parent = None,
     p_kstack = 0, p_sz = 0, p_pagetable = 0, p_trapframe = 0, p_name = [], p_ticket = 0\<rparr>"

text \<open>The table as the loader leaves it (all zero), and what \<open>procinit\<close> makes of it.\<close>

definition boot_table :: "rng \<Rightarrow> kproc" where
  "boot_table r = \<lparr>procs = replicate NPROC zero_proc, cpus = replicate NCPU None, nextpid = 1,
     initproc = None, k_rng = r\<rparr>"

definition procinit :: "kproc \<Rightarrow> kproc" where
  "procinit k = k\<lparr>procs := map (\<lambda>i. (procs k ! i)\<lparr>p_state := UNUSED, p_kstack := KSTACK i\<rparr>) [0..<length (procs k)]\<rparr>"

definition allocpid :: "kproc \<Rightarrow> int \<times> kproc" where
  "allocpid k = (nextpid k, k\<lparr>nextpid := i32 (nextpid k + 1)\<rparr>)"

text \<open>The fields that \<open>freeproc\<close> resets, after it has given the pages back.\<close>

definition freeproc :: "nat \<Rightarrow> kproc \<Rightarrow> kproc" where
  "freeproc i k = upd_proc i (\<lambda>p. p\<lparr>p_trapframe := 0, p_pagetable := 0, p_sz := 0, p_pid := 0,
     p_parent := None, p_name := [], p_chan := 0, p_killed := 0, p_xstate := 0, p_state := UNUSED\<rparr>) k"

section \<open>The lottery\<close>

primrec count_tickets :: "int \<Rightarrow> proc list \<Rightarrow> int" where
  "count_tickets tot [] = tot"
| "count_tickets tot (p # ps) =
     count_tickets (if p_state p = RUNNABLE then i32 (tot + p_ticket p) else tot) ps"

text \<open>The second loop: the slot at which the running count exceeds the winning number.\<close>

primrec draw :: "int \<Rightarrow> nat \<Rightarrow> int \<Rightarrow> proc list \<Rightarrow> nat option" where
  "draw winner i counter [] = None"
| "draw winner i counter (p # ps) =
     (if p_state p = RUNNABLE then
        (let counter' = i32 (counter + p_ticket p) in
         if counter' > winner then Some i else draw winner (Suc i) counter' ps)
      else draw winner (Suc i) counter ps)"

definition winning_number :: "int \<Rightarrow> int \<Rightarrow> int" where
  "winning_number r tot = (r AND 0x7FFFFFFF) smod tot"

text \<open>
  The second loop slot by slot, as it is locked: one slot is looked at under its lock, with the running count and the
  winning number in local variables; when it wins it is marked and the CPU switches to it. Between two slots
  the other CPUs may change the table. The loop over slots that nobody disturbs is \<open>lottery_scan\<close>.
\<close>

definition lottery_slot :: "nat \<Rightarrow> int \<Rightarrow> nat \<Rightarrow> int \<Rightarrow> kproc \<Rightarrow> bool \<times> int \<times> kproc" where
  "lottery_slot c winner i counter k =
     (let p = procs k ! i in
      if p_state p = RUNNABLE then
        (let counter' = i32 (counter + p_ticket p) in
         if counter' > winner then (True, counter', set_cpu c (Some i) (upd_proc i (p_state_update (\<lambda>_. RUNNING)) k))
         else (False, counter', k))
      else (False, counter, k))"

primrec lottery_scan :: "nat \<Rightarrow> int \<Rightarrow> nat list \<Rightarrow> int \<Rightarrow> kproc \<Rightarrow> nat option \<times> kproc" where
  "lottery_scan c winner [] counter k = (None, k)"
| "lottery_scan c winner (i # js) counter k =
     (let (won, counter', k') = lottery_slot c winner i counter k in
      if won then (Some i, k') else lottery_scan c winner js counter' k')"

text \<open>
  One turn of the loop of \<open>scheduler\<close> on a CPU, up to the switch, on a table that does not change meanwhile:
  \<open>None\<close> in the first component is the idle turn (or one in which nobody wins).
\<close>

definition scheduler :: "nat \<Rightarrow> kproc \<Rightarrow> nat option \<times> kproc" where
  "scheduler c k =
     (let total_tickets = count_tickets 0 (procs k) in
      if total_tickets = 0 then (None, k)
      else let (r, rng') = rand_int (k_rng k); k1 = k\<lparr>k_rng := rng'\<rparr>;
               winner = winning_number r total_tickets
           in case draw winner 0 0 (procs k1) of
                None \<Rightarrow> (None, k1)
              | Some i \<Rightarrow> (Some i, set_cpu c (Some i) (upd_proc i (p_state_update (\<lambda>_. RUNNING)) k1)))"

section \<open>Giving up the CPU, sleeping and waking\<close>

text \<open>The checks of \<open>sched\<close> before it switches; the message is the panic.\<close>

definition sched :: "bool \<Rightarrow> int \<Rightarrow> procstate \<Rightarrow> bool \<Rightarrow> string option" where
  "sched holding_lock noff st intr =
     (if \<not> holding_lock then Some ''sched p->lock''
      else if noff \<noteq> 1 then Some ''sched locks''
      else if st = RUNNING then Some ''sched RUNNING''
      else if intr then Some ''sched interruptible''
      else None)"

text \<open>
  The process on CPU \<open>c\<close> enters \<open>sched\<close> in a new state; back in \<open>scheduler\<close>, \<open>c->proc\<close> is cleared.
\<close>

definition leave_cpu :: "nat \<Rightarrow> (proc \<Rightarrow> proc) \<Rightarrow> kproc \<Rightarrow> kproc" where
  "leave_cpu c f k = (case cpus k ! c of None \<Rightarrow> k | Some i \<Rightarrow> set_cpu c None (upd_proc i f k))"

definition yield :: "nat \<Rightarrow> kproc \<Rightarrow> kproc" where
  "yield c k = leave_cpu c (p_state_update (\<lambda>_. RUNNABLE)) k"

definition sleep :: "nat \<Rightarrow> u64 \<Rightarrow> kproc \<Rightarrow> kproc" where
  "sleep c ch k = leave_cpu c (\<lambda>p. p\<lparr>p_chan := ch, p_state := SLEEPING\<rparr>) k"

text \<open>What the process does in \<open>sleep\<close> once it runs again.\<close>

definition sleep_tidy :: "nat \<Rightarrow> kproc \<Rightarrow> kproc" where
  "sleep_tidy i k = upd_proc i (p_chan_update (\<lambda>_. 0)) k"

text \<open>\<open>me\<close> is the process that calls, if any; it is skipped.\<close>

definition wakeup :: "nat option \<Rightarrow> u64 \<Rightarrow> kproc \<Rightarrow> kproc" where
  "wakeup me ch k = k\<lparr>procs := map (\<lambda>i. let p = procs k ! i in
     if Some i \<noteq> me \<and> p_state p = SLEEPING \<and> p_chan p = ch then p\<lparr>p_state := RUNNABLE\<rparr> else p)
     [0..<length (procs k)]\<rparr>"

section \<open>Killing and tickets\<close>

definition kkill :: "int \<Rightarrow> kproc \<Rightarrow> int \<times> kproc" where
  "kkill pid k =
     (case first_index (\<lambda>p. p_pid p = pid) (procs k) of
        None \<Rightarrow> (-1, k)
      | Some i \<Rightarrow> (0, upd_proc i (\<lambda>p. p\<lparr>p_killed := 1,
          p_state := (if p_state p = SLEEPING then RUNNABLE else p_state p)\<rparr>) k))"

definition setkilled :: "nat \<Rightarrow> kproc \<Rightarrow> kproc" where
  "setkilled i k = upd_proc i (p_killed_update (\<lambda>_. 1)) k"

definition killed :: "nat \<Rightarrow> kproc \<Rightarrow> int" where
  "killed i k = p_killed (procs k ! i)"

definition settickets :: "int \<Rightarrow> int \<Rightarrow> kproc \<Rightarrow> int \<times> kproc" where
  "settickets pid tickets k =
     (case first_index (\<lambda>p. p_pid p = pid) (procs k) of
        None \<Rightarrow> (-1, k)
      | Some i \<Rightarrow> (0, upd_proc i (p_ticket_update (\<lambda>_. tickets)) k))"

definition sys_settickets :: "int \<Rightarrow> int \<Rightarrow> kproc \<Rightarrow> int \<times> kproc" where
  "sys_settickets pid tickets k = (if tickets \<le> 0 then (-1, k) else settickets pid tickets k)"

definition sys_getpid :: "nat \<Rightarrow> kproc \<Rightarrow> int option" where
  "sys_getpid c k = map_option (\<lambda>i. p_pid (procs k ! i)) (cpus k ! c)"

section \<open>Exiting and waiting\<close>

definition addr_of :: "(nat \<Rightarrow> u64) \<Rightarrow> nat option \<Rightarrow> u64" where
  "addr_of addr p = (case p of None \<Rightarrow> 0 | Some i \<Rightarrow> addr i)"

text \<open>The loop of \<open>reparent\<close> over the slots still to visit.\<close>

primrec reparent_from :: "(nat \<Rightarrow> u64) \<Rightarrow> nat option \<Rightarrow> nat \<Rightarrow> nat list \<Rightarrow> kproc \<Rightarrow> kproc" where
  "reparent_from addr me p [] k = k"
| "reparent_from addr me p (pp # pps) k =
     reparent_from addr me p pps
       (if p_parent (procs k ! pp) = Some p
        then wakeup me (addr_of addr (initproc k)) (upd_proc pp (p_parent_update (\<lambda>_. initproc k)) k)
        else k)"

definition reparent :: "(nat \<Rightarrow> u64) \<Rightarrow> nat option \<Rightarrow> nat \<Rightarrow> kproc \<Rightarrow> kproc" where
  "reparent addr me p k = reparent_from addr me p [0..<length (procs k)] k"

text \<open>
  The part of \<open>kexit\<close> from taking \<open>wait_lock\<close> to the last switch, on CPU \<open>c\<close>; \<open>None\<close> is the panic
  ``init exiting'' (or no process on the CPU).
\<close>

definition kexit_table :: "(nat \<Rightarrow> u64) \<Rightarrow> nat \<Rightarrow> int \<Rightarrow> kproc \<Rightarrow> kproc option" where
  "kexit_table addr c status k =
     (case cpus k ! c of
        None \<Rightarrow> None
      | Some i \<Rightarrow>
          if initproc k = Some i then None
          else (let k1 = reparent addr (Some i) i k;
                    k2 = wakeup (Some i) (addr_of addr (p_parent (procs k1 ! i))) k1
                in Some (leave_cpu c (\<lambda>p. p\<lparr>p_xstate := status, p_state := ZOMBIE\<rparr>) k2)))"

text \<open>
  One scan of \<open>kwait\<close> by process \<open>i\<close>. \<open>copyout_ok\<close> tells whether storing the exit status at the
  user's address succeeds (always, for address 0).
\<close>

datatype wait_result = Reaped int int | CopyFailed | NoChildren | MustSleep

definition kwait_scan :: "(int \<Rightarrow> bool) \<Rightarrow> nat \<Rightarrow> kproc \<Rightarrow> wait_result \<times> kproc" where
  "kwait_scan copyout_ok i k =
     (case first_index (\<lambda>p. p_parent p = Some i \<and> p_state p = ZOMBIE) (procs k) of
        Some j \<Rightarrow>
          (let pp = procs k ! j in
           if \<not> copyout_ok (p_xstate pp) then (CopyFailed, k)
           else (Reaped (p_pid pp) (p_xstate pp), freeproc j k))
      | None \<Rightarrow>
          if (\<forall>p \<in> set (procs k). p_parent p \<noteq> Some i) \<or> killed i k \<noteq> 0 then (NoChildren, k)
          else (MustSleep, k))"

text \<open>The lines of \<open>procdump\<close>.\<close>

definition state_name :: "procstate \<Rightarrow> string" where
  "state_name st = (case st of UNUSED \<Rightarrow> ''unused'' | USED \<Rightarrow> ''used'' | SLEEPING \<Rightarrow> ''sleep ''
     | RUNNABLE \<Rightarrow> ''runble'' | RUNNING \<Rightarrow> ''run   '' | ZOMBIE \<Rightarrow> ''zombie'')"

definition procdump :: "kproc \<Rightarrow> (int \<times> string \<times> string) list" where
  "procdump k = map (\<lambda>p. (p_pid p, state_name (p_state p), p_name p)) (filter (\<lambda>p. p_state p \<noteq> UNUSED) (procs k))"

end
