(* ===== verification/Proc_Theorems.thy ===== *)
theory Proc_Theorems
  imports Proc Interfaces
begin

unbundle bit_operations_syntax

text \<open>
  The lottery is fair as long as the tickets add up to less than 2^31 and can starve everybody
  when they do not; no process is ever on two CPUs; an exit is seen by the parent that waits.
\<close>

section \<open>The lottery\<close>

definition weight :: "proc \<Rightarrow> int" where
  "weight p = (if p_state p = RUNNABLE then p_ticket p else 0)"

text \<open>
  No runnable process has a negative number of tickets (\<open>allocproc\<close> and \<open>sys_settickets\<close> give positive ones; slots that
  were never used have 0 and do not count), and the runnable ones have not too many in all.
\<close>

definition tickets_ok :: "proc list \<Rightarrow> bool" where
  "tickets_ok ps \<longleftrightarrow> (\<forall>p \<in> set ps. p_state p = RUNNABLE \<longrightarrow> 0 \<le> p_ticket p) \<and> sum_list (map weight ps) < 2147483648"

lemma weight_nonneg: "\<forall>p \<in> set ps. 0 \<le> weight p \<Longrightarrow> 0 \<le> sum_list (map weight ps)"
  by (intro sum_list_nonneg) auto

lemma count_tickets_sum:
  assumes "\<forall>p \<in> set ps. 0 \<le> weight p" "0 \<le> t" "t + sum_list (map weight ps) < 2147483648"
  shows "count_tickets t ps = t + sum_list (map weight ps)"
  using assms
proof (induction ps arbitrary: t)
  case (Cons p ps)
  have nn: "0 \<le> sum_list (map weight ps)" using Cons.prems(1) by (intro weight_nonneg) simp
  have w0: "0 \<le> weight p" using Cons.prems(1) by simp
  then have w: "0 \<le> weight p" "i32 (t + weight p) = t + weight p"
    using Cons.prems(2,3) nn by (auto intro!: i32_small)
  have step: "count_tickets t (p # ps) = count_tickets (t + weight p) ps"
    using w(2) by (auto simp: weight_def)
  show ?case unfolding step using Cons.IH [of "t + weight p"] Cons.prems w(1) by simp
qed simp

text \<open>The winner for number \<open>w\<close>: the slot whose own stretch of the tickets holds \<open>w\<close>.\<close>

lemma draw_iff:
  assumes "\<forall>p \<in> set ps. 0 \<le> weight p" "0 \<le> t" "t + sum_list (map weight ps) < 2147483648" "t \<le> w"
  shows "draw w i t ps = Some (i + j) \<longleftrightarrow>
     j < length ps \<and> t + sum_list (map weight (take j ps)) \<le> w \<and> w < t + sum_list (map weight (take (Suc j) ps))"
  using assms
proof (induction ps arbitrary: i j t)
  case (Cons p ps)
  have nn: "0 \<le> sum_list (map weight ps)" using Cons.prems(1) by (intro weight_nonneg) simp
  have nnt: "0 \<le> sum_list (map weight (take n ps))" for n
    using Cons.prems(1) by (intro weight_nonneg) (auto dest: in_set_takeD)
  have w0: "0 \<le> weight p" using Cons.prems(1) by simp
  have i32: "i32 (t + weight p) = t + weight p"
    using Cons.prems(2,3) nn w0 by (intro i32_small) auto
  show ?case
  proof (cases "p_state p = RUNNABLE \<and> w < t + weight p")
    case True
    then have "p_state p = RUNNABLE" "w < t + p_ticket p" "i32 (t + p_ticket p) = t + p_ticket p"
      using i32 by (auto simp: weight_def)
    then have d: "draw w i t (p # ps) = Some i" by (simp add: Let_def)
    have u: "w < t + weight p + sum_list (map weight (take n ps))" for n using True nnt [of n] by linarith
    show ?thesis
    proof (cases j)
      case 0
      with d u [of 0] Cons.prems(4) show ?thesis by (simp del: draw.simps)
    next
      case (Suc k)
      with d u [of k] show ?thesis by (simp del: draw.simps add: add.assoc)
    qed
  next
    case False
    then have le: "t + weight p \<le> w" using Cons.prems(4) by (auto simp: weight_def)
    have step: "draw w i t (p # ps) = draw w (Suc i) (t + weight p) ps"
      using False i32 by (auto simp: weight_def Let_def)
    show ?thesis
    proof (cases j)
      case 0
      have "\<forall>k t i. draw w i t ps = Some k \<longrightarrow> i \<le> k"
        by (induction ps) (auto simp: Let_def, fastforce+)
      then have "draw w (Suc i) (t + weight p) ps \<noteq> Some i" by fastforce
      with 0 le step show ?thesis by simp
    next
      case (Suc k)
      have "draw w (Suc i) (t + weight p) ps = Some (Suc i + k) \<longleftrightarrow>
          k < length ps \<and> t + weight p + sum_list (map weight (take k ps)) \<le> w
          \<and> w < t + weight p + sum_list (map weight (take (Suc k) ps))"
        using Cons.prems le w0 by (intro Cons.IH) auto
      then show ?thesis unfolding step using Suc by (simp add: add.assoc)
    qed
  qed
qed simp

text \<open>
  C21: The lottery is fair on a table that does not change during the scan. If no runnable process has a negative
  number of tickets and the tickets of the runnable processes add up to \<open>n < 2^31\<close>, then
  every winning number below \<open>n\<close> selects a runnable process, and each
  process is selected by exactly as many of the \<open>n\<close> numbers as it has tickets (none, if it is
  not runnable; slots that were never used do not matter).
\<close>

theorem lottery_fair:
  assumes ok: "tickets_ok ps" and n: "n = count_tickets 0 ps" and i: "i < length ps"
  shows "(\<forall>w. 0 \<le> w \<and> w < n \<longrightarrow> (\<exists>j < length ps. draw w 0 0 ps = Some j \<and> p_state (ps ! j) = RUNNABLE))
    \<and> int (card {w. 0 \<le> w \<and> w < n \<and> draw w 0 0 ps = Some i}) = (if p_state (ps ! i) = RUNNABLE then p_ticket (ps ! i) else 0)"
proof -
  have pos: "\<forall>p \<in> set ps. 0 \<le> weight p" using ok by (simp add: tickets_ok_def weight_def)
  have sum: "n = sum_list (map weight ps)" "n < 2147483648"
    using count_tickets_sum [OF pos, of 0] ok n by (simp_all add: tickets_ok_def)
  let ?S = "\<lambda>j. sum_list (map weight (take j ps))"
  have sel: "draw w 0 0 ps = Some j \<longleftrightarrow> j < length ps \<and> ?S j \<le> w \<and> w < ?S (Suc j)" if "0 \<le> w" for w j
    using draw_iff [OF pos, of 0 w 0 j] sum that by simp
  have step: "?S (Suc j) = ?S j + weight (ps ! j)" if "j < length ps" for j
    using that by (simp add: take_Suc_conv_app_nth)
  have S0: "0 \<le> ?S j" for j using pos by (intro weight_nonneg) (auto dest: in_set_takeD)
  have mono: "?S (Suc j) \<le> n" if "j < length ps" for j
  proof -
    have "n = ?S (Suc j) + sum_list (map weight (drop (Suc j) ps))"
      unfolding sum(1) by (metis append_take_drop_id map_append sum_list_append)
    moreover have "0 \<le> sum_list (map weight (drop (Suc j) ps))"
      using pos by (intro weight_nonneg) (auto dest: in_set_dropD)
    ultimately show ?thesis by linarith
  qed
  have "\<exists>j < length ps. draw w 0 0 ps = Some j \<and> p_state (ps ! j) = RUNNABLE" if w: "0 \<le> w" "w < n" for w
  proof -
    define j where "j = (LEAST j. w < ?S (Suc j))"
    have "\<exists>j. w < ?S (Suc j)" using w sum(1) by (intro exI [of _ "length ps"]) simp
    then have j: "w < ?S (Suc j)" unfolding j_def by (rule LeastI_ex)
    have below: "?S j \<le> w"
    proof (cases j)
      case (Suc k)
      then have "k < (LEAST j. w < ?S (Suc j))" by (simp only: j_def)
      then have "\<not> w < ?S (Suc k)" by (rule not_less_Least)
      with Suc show ?thesis by simp
    qed (use w in simp)
    have jl: "j < length ps"
    proof (rule ccontr)
      assume "\<not> j < length ps"
      then have "?S j = n" using sum(1) by simp
      with below w show False by simp
    qed
    with j below step have "0 < weight (ps ! j)" by auto
    then have "p_state (ps ! j) = RUNNABLE" by (auto simp: weight_def split: if_splits)
    with jl j below sel [OF w(1)] show ?thesis by blast
  qed
  moreover have "0 \<le> w \<and> w < n \<and> draw w 0 0 ps = Some i \<longleftrightarrow> w \<in> {?S i..<?S (Suc i)}" for w
    using sel [of w i] S0 [of i] mono [OF i] i by (cases "0 \<le> w") auto
  then have "{w. 0 \<le> w \<and> w < n \<and> draw w 0 0 ps = Some i} = {?S i..<?S (Suc i)}" by blast
  then have "int (card {w. 0 \<le> w \<and> w < n \<and> draw w 0 0 ps = Some i}) = weight (ps ! i)"
    using step [OF i] pos i by simp
  ultimately show ?thesis by (simp add: weight_def)
qed

definition runnable :: "int \<Rightarrow> proc" where
  "runnable t = zero_proc\<lparr>p_state := RUNNABLE, p_ticket := t\<rparr>"

text \<open>A full table of 64 slots: a process with 10 tickets, one with 30, and slots that were never used.\<close>

definition young_table :: "proc list" where
  "young_table = runnable 10 # runnable 30 # replicate 62 zero_proc"

theorem lottery_fair_witness:
  "length young_table = NPROC \<and> int (card {w. 0 \<le> w \<and> w < 40 \<and> draw w 0 0 young_table = Some 1}) = 30"
proof -
  have sum: "sum_list (map weight young_table) = 40"
    by (simp add: young_table_def weight_def runnable_def zero_proc_def sum_list_replicate)
  have ok: "tickets_ok young_table"
    using sum by (auto simp: tickets_ok_def young_table_def runnable_def zero_proc_def)
  have "\<forall>p \<in> set young_table. 0 \<le> weight p" by (auto simp: young_table_def weight_def runnable_def zero_proc_def)
  then have "count_tickets 0 young_table = 40" using count_tickets_sum [of young_table 0] sum by simp
  then show ?thesis using lottery_fair [OF ok, of 40 1] by (simp add: young_table_def runnable_def)
qed

text \<open>The winner is the one that the loop over the slots finds when nobody changes the table meanwhile.\<close>

lemma lottery_scan_draw:
  assumes "i \<le> length (procs k)"
  shows "lottery_scan c w [i..<length (procs k)] t k =
     (case draw w i t (drop i (procs k)) of
        None \<Rightarrow> (None, k) | Some j \<Rightarrow> (Some j, set_cpu c (Some j) (upd_proc j (p_state_update (\<lambda>_. RUNNING)) k)))"
  using assms
proof (induction "length (procs k) - i" arbitrary: i t)
  case (Suc n)
  then have i: "i < length (procs k)" "n = length (procs k) - Suc i" by simp_all
  note split = upt_conv_Cons [OF i(1)] Cons_nth_drop_Suc [OF i(1), symmetric]
  have "lottery_scan c w [Suc i..<length (procs k)] t' k =
     (case draw w (Suc i) t' (drop (Suc i) (procs k)) of
        None \<Rightarrow> (None, k) | Some j \<Rightarrow> (Some j, set_cpu c (Some j) (upd_proc j (p_state_update (\<lambda>_. RUNNING)) k)))" for t'
    using i by (intro Suc.hyps(1)) simp_all
  then show ?case unfolding split by (simp add: lottery_slot_def Let_def)
qed simp

lemma scheduler_scan:
  "scheduler c k = (if count_tickets 0 (procs k) = 0 then (None, k)
     else let (r, rng') = rand_int (k_rng k)
          in lottery_scan c (winning_number r (count_tickets 0 (procs k))) [0..<length (procs k)] 0 (k\<lparr>k_rng := rng'\<rparr>))"
  using lottery_scan_draw [of 0 "k\<lparr>k_rng := snd (rand_int (k_rng k))\<rparr>" c]
  by (auto simp: scheduler_def Let_def split: prod.splits option.splits)

lemma i32_add_left: "i32 (i32 a + b) = i32 (a + b)"
proof -
  have t: "take_bit 32 (i32 x) = take_bit 32 x" for x
    using signed_take_bit_eq_iff_take_bit_eq [of 31 "i32 x" x] by (simp add: i32_def)
  have "take_bit 32 (i32 a + b) = take_bit 32 (a + b)"
    unfolding take_bit_add [of 32 "i32 a" b, symmetric] take_bit_add [of 32 a b, symmetric] t ..
  then show ?thesis
    unfolding i32_def signed_take_bit_eq_iff_take_bit_eq by (simp add: i32_def)
qed

lemma count_tickets_wraps: "in_i32 t \<Longrightarrow> count_tickets t ps = i32 (t + sum_list (map weight ps))"
proof (induction ps arbitrary: t)
  case (Cons p ps)
  have "count_tickets t (p # ps) = count_tickets (i32 (t + weight p)) ps"
    using Cons.prems by (simp add: weight_def)
  also have "\<dots> = i32 (t + sum_list (map weight (p # ps)))"
    using Cons.IH [of "i32 (t + weight p)"] by (simp add: i32_add_left add.assoc)
  finally show ?case .
qed simp

text \<open>
  C35: the total of the tickets wraps around. Whenever the tickets of the runnable processes add up to a
  multiple of 2^32 (which \<open>sys_settickets\<close>, accepting any positive number, lets users arrange), the
  scheduler takes the machine for idle and runs none of them, turn after turn.
\<close>

theorem lottery_starvation:
  assumes "4294967296 dvd sum_list (map weight (procs k))"
  shows "scheduler c k = (None, k)"
proof -
  from assms have "i32 (0 + sum_list (map weight (procs k))) = i32 0"
    unfolding i32_def signed_take_bit_eq_iff_take_bit_eq by (simp add: take_bit_eq_mod mod_eq_0_iff_dvd)
  then have "count_tickets 0 (procs k) = 0" by (simp add: count_tickets_wraps in_i32_bounds)
  then show ?thesis by (simp add: scheduler_def)
qed

definition trio :: kproc where
  "trio = (boot_table (1, 2))\<lparr>procs := [(runnable 10)\<lparr>p_pid := 1\<rparr>, (runnable 10)\<lparr>p_pid := 2\<rparr>, (runnable 10)\<lparr>p_pid := 3\<rparr>]\<rparr>"

definition greedy_trio :: kproc where
  "greedy_trio = snd (sys_settickets 1 2147483647 (snd (sys_settickets 2 2147483647 (snd (sys_settickets 3 2 trio)))))"

theorem lottery_starvation_witness:
  "map (\<lambda>p. (p_state p, p_ticket p)) (procs greedy_trio) =
     [(RUNNABLE, 2147483647), (RUNNABLE, 2147483647), (RUNNABLE, 2)] \<and> scheduler 0 greedy_trio = (None, greedy_trio)"
proof -
  have procs: "procs greedy_trio = [(runnable 2147483647)\<lparr>p_pid := 1\<rparr>, (runnable 2147483647)\<lparr>p_pid := 2\<rparr>, (runnable 2)\<lparr>p_pid := 3\<rparr>]"
    by (simp add: greedy_trio_def trio_def sys_settickets_def settickets_def upd_proc_def runnable_def)
  then have "4294967296 dvd sum_list (map weight (procs greedy_trio))"
    by (simp add: weight_def runnable_def)
  with procs show ?thesis using lottery_starvation [of greedy_trio 0] by (simp add: runnable_def)
qed

section \<open>One CPU per running process\<close>

definition running :: "nat \<Rightarrow> kproc \<Rightarrow> bool" where
  "running i k \<longleftrightarrow> p_state (procs k ! i) = RUNNING"

definition cpu_ok :: "kproc \<Rightarrow> bool" where
  "cpu_ok k \<longleftrightarrow> length (procs k) = NPROC \<and> length (cpus k) = NCPU
     \<and> (\<forall>c < NCPU. \<forall>i. cpus k ! c = Some i \<longrightarrow> i < NPROC \<and> running i k)
     \<and> (\<forall>c < NCPU. \<forall>d < NCPU. \<forall>i. cpus k ! c = Some i \<and> cpus k ! d = Some i \<longrightarrow> c = d)
     \<and> (\<forall>i < NPROC. running i k \<longrightarrow> (\<exists>c < NCPU. cpus k ! c = Some i))"

lemma cpu_ok_cong:
  assumes "cpu_ok k" "cpus k' = cpus k" "length (procs k') = length (procs k)"
    and "\<And>i. i < NPROC \<Longrightarrow> running i k' = running i k"
  shows "cpu_ok k'"
  using assms unfolding cpu_ok_def by metis

lemma upd_proc_fields [simp]:
  "cpus (upd_proc i f k) = cpus k" "length (procs (upd_proc i f k)) = length (procs k)"
  "initproc (upd_proc i f k) = initproc k"
  by (simp_all add: upd_proc_def)

lemma upd_proc_nth: "j < length (procs k) \<Longrightarrow> procs (upd_proc i f k) ! j = (if i = j then f (procs k ! j) else procs k ! j)"
  by (auto simp: upd_proc_def nth_list_update)

lemma cpu_ok_upd:
  assumes "cpu_ok k" "i < NPROC \<Longrightarrow> (p_state (f (procs k ! i)) = RUNNING) = running i k"
  shows "cpu_ok (upd_proc i f k)"
  using assms by (intro cpu_ok_cong [OF assms(1)]) (auto simp: running_def upd_proc_nth cpu_ok_def)

lemma wakeup_nth:
  "j < length (procs k) \<Longrightarrow> procs (wakeup me ch k) ! j =
     (if Some j \<noteq> me \<and> p_state (procs k ! j) = SLEEPING \<and> p_chan (procs k ! j) = ch
      then (procs k ! j)\<lparr>p_state := RUNNABLE\<rparr> else procs k ! j)"
  by (simp add: wakeup_def Let_def)

lemma wakeup_fields [simp]:
  "cpus (wakeup me ch k) = cpus k" "length (procs (wakeup me ch k)) = length (procs k)"
  "initproc (wakeup me ch k) = initproc k"
  by (simp_all add: wakeup_def)

lemma cpu_ok_running: "cpu_ok k \<Longrightarrow> i < NPROC \<Longrightarrow> running i k \<Longrightarrow> \<exists>c < NCPU. cpus k ! c = Some i"
  unfolding cpu_ok_def by blast

lemma cpu_ok_wakeup:
  assumes "cpu_ok k" shows "cpu_ok (wakeup me ch k)"
proof -
  have "length (procs k) = NPROC" using assms by (simp add: cpu_ok_def)
  then show ?thesis by (intro cpu_ok_cong [OF assms]) (auto simp: running_def wakeup_nth)
qed

lemma cpu_ok_leave:
  assumes ok: "cpu_ok k" and c: "c < NCPU" and f: "\<And>p. p_state (f p) \<noteq> RUNNING"
  shows "cpu_ok (leave_cpu c f k)"
proof (cases "cpus k ! c")
  case None
  with ok show ?thesis by (simp add: leave_cpu_def)
next
  case (Some i)
  let ?k = "set_cpu c None (upd_proc i f k)"
  have len: "length (procs k) = NPROC" "length (cpus k) = NCPU" and i: "i < NPROC"
    and uniq: "\<And>d. d < NCPU \<Longrightarrow> cpus k ! d = Some i \<Longrightarrow> d = c"
    using ok Some c unfolding cpu_ok_def by auto
  have run: "running j ?k = (j \<noteq> i \<and> running j k)" if "j < NPROC" for j
    using that len f by (simp add: running_def set_cpu_def upd_proc_nth)
  have cp: "cpus ?k ! d = (if d = c then None else cpus k ! d)" if "d < NCPU" for d
    using that len c by (simp add: set_cpu_def nth_list_update)
  have "cpu_ok ?k"
    unfolding cpu_ok_def
  proof (intro conjI allI impI)
    show "length (procs ?k) = NPROC" "length (cpus ?k) = NCPU" using len by (simp_all add: set_cpu_def)
    show "j < NPROC" "running j ?k" if "d < NCPU" "cpus ?k ! d = Some j" for d j
    proof -
      have d: "d \<noteq> c" "cpus k ! d = Some j" using that cp by (auto split: if_splits)
      then have "j < NPROC" "running j k" using ok that(1) by (auto simp: cpu_ok_def)
      moreover have "j \<noteq> i" using uniq d that(1) by blast
      ultimately show "j < NPROC" "running j ?k" using run by auto
    qed
    show "d = e" if "d < NCPU" "e < NCPU" "cpus ?k ! d = Some j \<and> cpus ?k ! e = Some j" for d e j
      using that cp ok by (auto simp: cpu_ok_def split: if_splits)
    show "\<exists>d < NCPU. cpus ?k ! d = Some j" if jn: "j < NPROC" and rj: "running j ?k" for j
    proof -
      have j: "j \<noteq> i" "running j k" using run jn rj by auto
      then obtain d where d: "d < NCPU" "cpus k ! d = Some j" using cpu_ok_running [OF ok jn] by blast
      moreover have "d \<noteq> c" using d(2) Some j(1) by auto
      ultimately show ?thesis using cp by auto
    qed
  qed
  then show ?thesis by (simp add: leave_cpu_def Some)
qed

lemma draw_runnable:
  "draw w i t ps = Some j \<Longrightarrow> i \<le> j \<and> j - i < length ps \<and> p_state (ps ! (j - i)) = RUNNABLE"
proof (induction ps arbitrary: i t)
  case (Cons p ps)
  show ?case
  proof (cases "p_state p = RUNNABLE \<and> i32 (t + p_ticket p) > w")
    case True
    with Cons.prems show ?thesis by (simp add: Let_def)
  next
    case False
    with Cons.prems obtain t' where "draw w (Suc i) t' ps = Some j" by (auto simp: Let_def split: if_splits)
    from Cons.IH [OF this] have "Suc i \<le> j" "j - Suc i < length ps" "p_state (ps ! (j - Suc i)) = RUNNABLE" by auto
    moreover from this have "j - i = Suc (j - Suc i)" by simp
    ultimately show ?thesis by simp
  qed
qed simp

lemma scheduler_Some:
  assumes "scheduler c k = (Some i, k')"
  shows "i < length (procs k)" "p_state (procs k ! i) = RUNNABLE" "length (procs k') = length (procs k)"
    "cpus k' = (cpus k)[c := Some i]" "\<And>j. j < length (procs k) \<Longrightarrow> procs k' ! j = (if j = i then (procs k ! i)\<lparr>p_state := RUNNING\<rparr> else procs k ! j)"
  using assms
  by (auto simp: scheduler_def Let_def set_cpu_def upd_proc_def nth_list_update dest!: draw_runnable
      split: if_splits option.splits prod.splits)

lemma scheduler_None: "scheduler c k = (None, k') \<Longrightarrow> procs k' = procs k \<and> cpus k' = cpus k"
  by (auto simp: scheduler_def Let_def split: if_splits option.splits prod.splits)

lemma cpu_ok_pick:
  assumes ok: "cpu_ok k" and c: "c < NCPU" "cpus k ! c = None"
    and sch: "i < length (procs k)" "p_state (procs k ! i) = RUNNABLE" "length (procs k') = length (procs k)"
      "cpus k' = (cpus k)[c := Some i]" "\<And>j. j < length (procs k) \<Longrightarrow> procs k' ! j = (if j = i then (procs k ! i)\<lparr>p_state := RUNNING\<rparr> else procs k ! j)"
  shows "cpu_ok k'"
proof -
  have len: "length (procs k) = NPROC" "length (cpus k) = NCPU" using ok by (auto simp: cpu_ok_def)
  have notr: "\<not> running i k" using sch(2) by (simp add: running_def)
  have run: "running j k' = (j = i \<or> running j k)" if "j < NPROC" for j
    using that sch(5) [of j] len by (auto simp: running_def)
  have cp: "cpus k' ! d = (if d = c then Some i else cpus k ! d)" if "d < NCPU" for d
    using that len c(1) by (simp add: sch(4) nth_list_update)
  have not_i: "cpus k ! d \<noteq> Some i" if "d < NCPU" for d using ok that notr by (auto simp: cpu_ok_def)
  show ?thesis
    unfolding cpu_ok_def
  proof (intro conjI allI impI)
    show "length (procs k') = NPROC" "length (cpus k') = NCPU" using len sch(3,4) by simp_all
    show "j < NPROC" "running j k'" if "d < NCPU" "cpus k' ! d = Some j" for d j
      using that cp [OF that(1)] sch(1) len run ok by (auto simp: cpu_ok_def split: if_splits)
    show "d = e" if "d < NCPU" "e < NCPU" "cpus k' ! d = Some j \<and> cpus k' ! e = Some j" for d e j
      using that cp not_i ok by (auto simp: cpu_ok_def split: if_splits)
    show "\<exists>d < NCPU. cpus k' ! d = Some j" if jn: "j < NPROC" and rj: "running j k'" for j
    proof (cases "j = i")
      case True
      then show ?thesis using c(1) cp by auto
    next
      case False
      then have "running j k" using run jn rj by blast
      then obtain d where d: "d < NCPU" "cpus k ! d = Some j" using cpu_ok_running [OF ok jn] by blast
      moreover have "d \<noteq> c" using d(2) c(2) by auto
      ultimately show ?thesis using cp by auto
    qed
  qed
qed

lemma cpu_ok_schedule:
  assumes ok: "cpu_ok k" and c: "c < NCPU" "cpus k ! c = None" and s: "scheduler c k = (r, k')"
  shows "cpu_ok k'"
proof (cases r)
  case None
  with s scheduler_None [of c k k'] show ?thesis
    by (intro cpu_ok_cong [OF ok]) (auto simp: running_def)
next
  case (Some i)
  show ?thesis by (rule cpu_ok_pick [OF ok c scheduler_Some [OF s [unfolded Some]]])
qed

lemma cpu_ok_slot:
  assumes ok: "cpu_ok k" and c: "c < NCPU" "cpus k ! c = None" and i: "i < NPROC" and s: "lottery_slot c w i t k = (won, t', k')"
  shows "cpu_ok k'"
proof (cases "k' = k")
  case False
  have len: "length (procs k) = NPROC" using ok by (simp add: cpu_ok_def)
  show ?thesis
    by (rule cpu_ok_pick [OF ok c, of i])
      (use s False i len in \<open>auto simp: lottery_slot_def Let_def set_cpu_def upd_proc_def nth_list_update split: if_splits\<close>)
qed (use ok in simp)

lemma cpu_ok_same_procs: "cpu_ok k \<Longrightarrow> procs k' = procs k \<Longrightarrow> cpus k' = cpus k \<Longrightarrow> cpu_ok k'"
  by (simp add: cpu_ok_def running_def)

lemma cpu_ok_kill: "cpu_ok k \<Longrightarrow> cpu_ok (snd (kkill pid k))"
  by (auto simp: kkill_def running_def intro!: cpu_ok_upd split: option.splits if_splits)

lemma cpu_ok_tickets: "cpu_ok k \<Longrightarrow> cpu_ok (snd (sys_settickets pid n k))"
  by (auto simp: sys_settickets_def settickets_def running_def intro!: cpu_ok_upd split: option.splits)

lemma reparent_from_ok:
  "cpu_ok k \<Longrightarrow> cpu_ok (reparent_from addr me p js k) \<and> cpus (reparent_from addr me p js k) = cpus k"
proof (induction js arbitrary: k)
  case (Cons j js)
  have "cpu_ok (upd_proc j (p_parent_update (\<lambda>_. initproc k)) k)"
    using Cons.prems by (rule cpu_ok_upd) (simp add: running_def)
  then have "cpu_ok (wakeup me (addr_of addr (initproc k)) (upd_proc j (p_parent_update (\<lambda>_. initproc k)) k))"
    by (rule cpu_ok_wakeup)
  from Cons.IH [OF this] Cons.IH [OF Cons.prems] show ?case by simp
qed simp

lemma cpu_ok_exit:
  assumes ok: "cpu_ok k" and c: "c < NCPU" and e: "kexit_table addr c st k = Some k'"
  shows "cpu_ok k'"
  using e reparent_from_ok [OF ok] c
  by (auto simp: kexit_table_def reparent_def Let_def intro!: cpu_ok_leave cpu_ok_wakeup split: option.splits if_splits)

lemma cpu_ok_wait:
  assumes ok: "cpu_ok k" and w: "kwait_scan cok i k = (r, k')"
  shows "cpu_ok k'"
proof -
  have "cpu_ok (freeproc j k)" if "first_index (\<lambda>p. p_parent p = Some i \<and> p_state p = ZOMBIE) (procs k) = Some j" for j
    unfolding freeproc_def using first_index_SomeD(2) [OF that]
    by (intro cpu_ok_upd [OF ok]) (simp add: running_def)
  with w ok show ?thesis by (auto simp: kwait_scan_def Let_def split: option.splits if_splits)
qed

text \<open>
  The steps of the CPUs: an idle CPU takes a whole turn of the scheduler, or looks at one slot of its scan
  (with whatever it has counted and drawn before), or draws a number (any, for draws of several CPUs may
  overlap); a process on a CPU yields, sleeps, exits, or makes one of the calls that touch the table.
\<close>

inductive proc_step :: "(nat \<Rightarrow> u64) \<Rightarrow> kproc \<Rightarrow> kproc \<Rightarrow> bool" for addr where
  step_schedule: "c < NCPU \<Longrightarrow> cpus k ! c = None \<Longrightarrow> scheduler c k = (r, k') \<Longrightarrow> proc_step addr k k'"
| step_slot: "c < NCPU \<Longrightarrow> cpus k ! c = None \<Longrightarrow> i < NPROC \<Longrightarrow> lottery_slot c winner i counter k = (won, counter', k') \<Longrightarrow>
    proc_step addr k k'"
| step_rand: "proc_step addr k (k\<lparr>k_rng := r\<rparr>)"
| step_yield: "c < NCPU \<Longrightarrow> proc_step addr k (yield c k)"
| step_sleep: "c < NCPU \<Longrightarrow> proc_step addr k (sleep c ch k)"
| step_tidy: "c < NCPU \<Longrightarrow> cpus k ! c = Some i \<Longrightarrow> proc_step addr k (sleep_tidy i k)"
| step_wakeup: "proc_step addr k (wakeup me ch k)"
| step_kill: "proc_step addr k (snd (kkill pid k))"
| step_setkilled: "proc_step addr k (setkilled i k)"
| step_tickets: "proc_step addr k (snd (sys_settickets pid n k))"
| step_allocpid: "proc_step addr k (snd (allocpid k))"
| step_exit: "c < NCPU \<Longrightarrow> kexit_table addr c st k = Some k' \<Longrightarrow> proc_step addr k k'"
| step_wait: "kwait_scan cok i k = (r, k') \<Longrightarrow> proc_step addr k k'"

text \<open>Before the CPUs enter \<open>scheduler\<close>: any table in which nothing runs.\<close>

definition not_started :: "kproc \<Rightarrow> bool" where
  "not_started k \<longleftrightarrow> length (procs k) = NPROC \<and> length (cpus k) = NCPU
     \<and> (\<forall>c < NCPU. cpus k ! c = None) \<and> (\<forall>i < NPROC. \<not> running i k)"

interpretation sched: invariant_system not_started "proc_step addr" cpu_ok for addr
proof
  fix k k'
  show "cpu_ok k" if "not_started k" using that by (simp add: not_started_def cpu_ok_def)
  show "cpu_ok k'" if ok: "cpu_ok k" and step: "proc_step addr k k'"
    using step
  proof cases
    case (step_schedule c r)
    then show ?thesis using cpu_ok_schedule [OF ok] by blast
  next
    case (step_slot c i winner counter won counter')
    then show ?thesis using cpu_ok_slot [OF ok] by blast
  next
    case (step_rand r)
    then show ?thesis by (auto intro!: cpu_ok_same_procs [OF ok])
  next
    case (step_exit c st)
    then show ?thesis using cpu_ok_exit [OF ok] by blast
  next
    case (step_wait cok i r)
    then show ?thesis using cpu_ok_wait [OF ok] by blast
  next
    case (step_yield c)
    then show ?thesis by (auto simp: yield_def intro!: cpu_ok_leave [OF ok])
  next
    case (step_sleep c ch)
    then show ?thesis by (auto simp: sleep_def intro!: cpu_ok_leave [OF ok])
  next
    case (step_tidy c i)
    then show ?thesis by (auto simp: sleep_tidy_def running_def intro!: cpu_ok_upd [OF ok])
  next
    case (step_setkilled i)
    then show ?thesis by (auto simp: setkilled_def running_def intro!: cpu_ok_upd [OF ok])
  next
    case step_allocpid
    then show ?thesis by (auto simp: allocpid_def intro!: cpu_ok_same_procs [OF ok])
  qed (simp_all add: ok cpu_ok_wakeup cpu_ok_kill cpu_ok_tickets)
qed

text \<open>
  C20: In every state the CPUs reach, however the slot by slot scans of their schedulers interleave, a process is RUNNING exactly when some CPU runs it, and
  then it is exactly one CPU: no process is ever on two.
\<close>

theorem one_cpu_per_process:
  assumes "not_started k0" "(proc_step addr)\<^sup>*\<^sup>* k0 k" "i < NPROC"
  shows "p_state (procs k ! i) = RUNNING \<longleftrightarrow> (\<exists>!c. c < NCPU \<and> cpus k ! c = Some i)"
proof -
  have ok: "cpu_ok k" by (rule sched.reachable_inv [OF assms(1,2)])
  show ?thesis
  proof
    assume "p_state (procs k ! i) = RUNNING"
    then obtain c where c: "c < NCPU" "cpus k ! c = Some i"
      using cpu_ok_running [OF ok assms(3)] by (auto simp: running_def)
    then show "\<exists>!c. c < NCPU \<and> cpus k ! c = Some i" using ok unfolding cpu_ok_def by blast
  next
    assume "\<exists>!c. c < NCPU \<and> cpus k ! c = Some i"
    then show "p_state (procs k ! i) = RUNNING" using ok unfolding cpu_ok_def running_def by blast
  qed
qed

definition two_procs :: kproc where
  "two_procs = (boot_table (1, 2))\<lparr>procs := (replicate NPROC zero_proc)[0 := runnable 10, 1 := runnable 10]\<rparr>"

theorem one_cpu_per_process_witness:
  "p_state (procs (snd (scheduler 0 two_procs)) ! 0) = RUNNING
     \<longleftrightarrow> (\<exists>!c. c < NCPU \<and> cpus (snd (scheduler 0 two_procs)) ! c = Some 0)"
proof -
  have init: "not_started two_procs"
    by (auto simp: not_started_def two_procs_def boot_table_def running_def runnable_def zero_proc_def nth_list_update)
  have "proc_step of_nat two_procs (snd (scheduler 0 two_procs))"
    by (rule step_schedule [of 0 _ "fst (scheduler 0 two_procs)"]) (simp_all add: two_procs_def boot_table_def)
  then have "(proc_step of_nat)\<^sup>*\<^sup>* two_procs (snd (scheduler 0 two_procs))" by (rule r_into_rtranclp)
  then show ?thesis using one_cpu_per_process [OF init, of of_nat _ 0] by simp
qed

section \<open>Exit and wait\<close>

text \<open>What \<open>reparent\<close> leaves in slot \<open>j\<close>.\<close>

definition reparented :: "nat \<Rightarrow> nat option \<Rightarrow> nat set \<Rightarrow> proc \<Rightarrow> proc \<Rightarrow> nat \<Rightarrow> bool" where
  "reparented p ip S q q' j \<longleftrightarrow>
     p_parent q' = (if j \<in> S \<and> p_parent q = Some p then ip else p_parent q)
     \<and> p_pid q' = p_pid q \<and> p_chan q' = p_chan q
     \<and> (p_state q' = p_state q \<or> p_state q = SLEEPING \<and> p_state q' = RUNNABLE)"

lemma reparent_step:
  assumes "j < length (procs k)" "pp < length (procs k)" "p_parent (procs k ! pp) = Some p"
  shows "reparented p (initproc k) {pp} (procs k ! j)
     (procs (wakeup me ch (upd_proc pp (p_parent_update (\<lambda>_. initproc k)) k)) ! j) j"
  using assms by (auto simp: reparented_def wakeup_nth upd_proc_nth)

lemma reparent_from_slot:
  assumes "j < length (procs k)" "\<forall>x \<in> set js. x < length (procs k)" "distinct js"
  shows "reparented p (initproc k) (set js) (procs k ! j) (procs (reparent_from addr me p js k) ! j) j
    \<and> length (procs (reparent_from addr me p js k)) = length (procs k)
    \<and> initproc (reparent_from addr me p js k) = initproc k"
  using assms
proof (induction js arbitrary: k)
  case Nil
  then show ?case by (simp add: reparented_def)
next
  case (Cons x xs)
  show ?case
  proof (cases "p_parent (procs k ! x) = Some p")
    case True
    let ?k = "wakeup me (addr_of addr (initproc k)) (upd_proc x (p_parent_update (\<lambda>_. initproc k)) k)"
    have step: "reparent_from addr me p (x # xs) k = reparent_from addr me p xs ?k" using True by simp
    have "reparented p (initproc k) {x} (procs k ! j) (procs ?k ! j) j"
      using Cons.prems True by (intro reparent_step) auto
    moreover have "reparented p (initproc ?k) (set xs) (procs ?k ! j) (procs (reparent_from addr me p xs ?k) ! j) j
        \<and> length (procs (reparent_from addr me p xs ?k)) = length (procs ?k)
        \<and> initproc (reparent_from addr me p xs ?k) = initproc ?k"
      using Cons.prems by (intro Cons.IH) auto
    ultimately show ?thesis unfolding step using Cons.prems(3) by (auto simp: reparented_def split: if_splits)
  next
    case False
    then have step: "reparent_from addr me p (x # xs) k = reparent_from addr me p xs k" by simp
    show ?thesis unfolding step using Cons.IH [of k] Cons.prems False by (auto simp: reparented_def split: if_splits)
  qed
qed

lemma leave_cpu_nth:
  assumes "cpus k ! c = Some i" "j < length (procs k)"
  shows "procs (leave_cpu c f k) ! j = (if i = j then f (procs k ! j) else procs k ! j)"
    "length (procs (leave_cpu c f k)) = length (procs k)"
  using assms by (simp_all add: leave_cpu_def set_cpu_def upd_proc_nth)

lemma reparent_from_cpus: "cpus (reparent_from addr me p js k) = cpus k"
  by (induction js arbitrary: k) simp_all

text \<open>Slot \<open>j\<close> holds a dead child of \<open>p\<close>; a scan of \<open>kwait\<close> takes the first.\<close>

definition dead_child :: "nat \<Rightarrow> kproc \<Rightarrow> nat \<Rightarrow> bool" where
  "dead_child p k j \<longleftrightarrow> p_parent (procs k ! j) = Some p \<and> p_state (procs k ! j) = ZOMBIE"

lemma first_dead_child:
  assumes "dead_child p k i" "i < length (procs k)"
  obtains j where "first_index (\<lambda>q. p_parent q = Some p \<and> p_state q = ZOMBIE) (procs k) = Some j" "j \<le> i" "dead_child p k j"
proof (rule first_index_SomeI [of i "procs k" "\<lambda>q. p_parent q = Some p \<and> p_state q = ZOMBIE"])
  show "i < length (procs k)" by (rule assms(2))
  show "p_parent (procs k ! i) = Some p \<and> p_state (procs k ! i) = ZOMBIE" using assms(1) by (simp add: dead_child_def)
  fix j assume j: "first_index (\<lambda>q. p_parent q = Some p \<and> p_state q = ZOMBIE) (procs k) = Some j" "j \<le> i"
  then show thesis using that first_index_SomeD(2) [OF j(1)] by (simp add: dead_child_def)
qed

text \<open>Scanning again and again, \<open>p\<close> gets to every dead child.\<close>

definition wait_again :: "nat \<Rightarrow> kproc \<Rightarrow> kproc" where
  "wait_again p k = snd (kwait_scan (\<lambda>_. True) p k)"

lemma freeproc_nth:
  "j < length (procs k) \<Longrightarrow> i < length (procs k) \<Longrightarrow> i \<noteq> j \<Longrightarrow> procs (freeproc j k) ! i = procs k ! i"
  "j < length (procs k) \<Longrightarrow> \<not> dead_child p (freeproc j k) j" "length (procs (freeproc j k)) = length (procs k)"
  by (simp_all add: freeproc_def upd_proc_nth dead_child_def)

lemma wait_reaches:
  assumes "dead_child p k i" "i < length (procs k)"
  shows "\<exists>n \<le> card {j. j < i \<and> dead_child p k j}.
    fst (kwait_scan (\<lambda>_. True) p ((wait_again p ^^ n) k)) = Reaped (p_pid (procs k ! i)) (p_xstate (procs k ! i))"
  using assms
proof (induction "card {j. j < i \<and> dead_child p k j}" arbitrary: k rule: less_induct)
  case less
  obtain j where j: "first_index (\<lambda>q. p_parent q = Some p \<and> p_state q = ZOMBIE) (procs k) = Some j" "j \<le> i" "dead_child p k j"
    by (rule first_dead_child [OF less.prems])
  have scan: "kwait_scan (\<lambda>_. True) p k = (Reaped (p_pid (procs k ! j)) (p_xstate (procs k ! j)), freeproc j k)"
    by (simp add: kwait_scan_def j(1) Let_def)
  show ?case
  proof (cases "j = i")
    case True
    then show ?thesis using scan by (intro exI [of _ 0]) simp
  next
    case False
    let ?k = "freeproc j k"
    have ji: "j < i" "j < length (procs k)" using False j(2) less.prems(2) by simp_all
    have same: "procs ?k ! m = procs k ! m" if "m \<noteq> j" "m < length (procs k)" for m
      using freeproc_nth(1) [OF ji(2) that(2,1)] .
    have sub: "{m. m < i \<and> dead_child p ?k m} = {m. m < i \<and> dead_child p k m} - {j}"
      using same less.prems(2) freeproc_nth(2) [OF ji(2), of p] by (auto simp: dead_child_def) (metis less_trans)+
    have card: "card {m. m < i \<and> dead_child p k m} = Suc (card {m. m < i \<and> dead_child p ?k m})"
      unfolding sub using ji(1) j(3) by (intro card.remove [of _ j]) auto
    have i': "dead_child p ?k i" "procs ?k ! i = procs k ! i" using same [of i] less.prems ji by (simp_all add: dead_child_def)
    obtain n where n: "n \<le> card {m. m < i \<and> dead_child p ?k m}"
      "fst (kwait_scan (\<lambda>_. True) p ((wait_again p ^^ n) ?k)) = Reaped (p_pid (procs k ! i)) (p_xstate (procs k ! i))"
      using less.hyps [of ?k] card i' less.prems(2) by (auto simp: freeproc_nth(3))
    have "(wait_again p ^^ Suc n) k = (wait_again p ^^ n) ?k"
      by (simp add: funpow_swap1 wait_again_def scan)
    then show ?thesis using n card by (intro exI [of _ "Suc n"]) simp
  qed
qed

text \<open>
  C22: No exit is lost. When process \<open>i\<close> exits while its parent \<open>p\<close> sleeps in \<open>kwait\<close> (on the channel
  that is its own slot), the parent is runnable again, no process of the table has \<open>i\<close> as
  its parent any more, and slot \<open>i\<close> is a zombie child of \<open>p\<close> with its pid and the status of the exit. The parent's next
  scan does not sleep: it takes the first zombie child, in a slot not above \<open>i\<close>, and either stores the status and frees exactly
  that slot, or fails and changes nothing when the status cannot be copied out. If neither \<open>p\<close> nor \<open>i\<close> had
  another zombie child, that is slot \<open>i\<close>; and if they had, at most \<open>i\<close> scans later \<open>p\<close> gets to \<open>i\<close>, as long as the
  statuses can be stored.
\<close>

theorem exit_then_wait:
  assumes len: "length (procs k) = NPROC" and i: "i < NPROC" "cpus k ! c = Some i" and init: "initproc k \<noteq> Some i"
    and p: "p < NPROC" "p \<noteq> i" "p_parent (procs k ! i) = Some p"
    and asleep: "p_state (procs k ! p) = SLEEPING" "p_chan (procs k ! p) = addr p" "p_state (procs k ! i) = RUNNING"
    and e: "kexit_table addr c st k = Some k'"
  shows "p_state (procs k' ! p) = RUNNABLE \<and> (\<forall>j < NPROC. p_parent (procs k' ! j) \<noteq> Some i)
    \<and> dead_child p k' i \<and> p_pid (procs k' ! i) = p_pid (procs k ! i) \<and> p_xstate (procs k' ! i) = st
    \<and> (\<exists>j \<le> i. dead_child p k' j \<and> kwait_scan cok p k' =
         (if cok (p_xstate (procs k' ! j)) then (Reaped (p_pid (procs k' ! j)) (p_xstate (procs k' ! j)), freeproc j k')
          else (CopyFailed, k')))
    \<and> ((\<forall>j < NPROC. j \<noteq> i \<longrightarrow> \<not> dead_child p k j \<and> \<not> dead_child i k j) \<longrightarrow>
         kwait_scan (\<lambda>_. True) p k' = (Reaped (p_pid (procs k ! i)) st, freeproc i k'))
    \<and> (\<exists>n \<le> i. fst (kwait_scan (\<lambda>_. True) p ((wait_again p ^^ n) k')) = Reaped (p_pid (procs k ! i)) st)"
proof -
  define k1 where "k1 = reparent addr (Some i) i k"
  have r: "reparented i (initproc k) {0..<NPROC} (procs k ! j) (procs k1 ! j) j \<and> length (procs k1) = NPROC"
    if "j < NPROC" for j
    using reparent_from_slot [of j k "[0..<NPROC]" i addr "Some i"] that len
    unfolding k1_def reparent_def len by auto
  have len1: "length (procs k1) = NPROC" using r i(1) by blast
  have par: "p_parent (procs k1 ! j) = (if p_parent (procs k ! j) = Some i then initproc k else p_parent (procs k ! j))"
    if "j < NPROC" for j using r [OF that] that by (simp add: reparented_def)
  have cpus1: "cpus k1 ! c = Some i" 
    using i(2) len by (simp add: k1_def reparent_def reparent_from_cpus)
  define k2 where "k2 = wakeup (Some i) (addr p) k1"
  have "p_parent (procs k1 ! i) = Some p" using par [OF i(1)] p by simp
  then have k': "k' = leave_cpu c (\<lambda>p. p\<lparr>p_xstate := st, p_state := ZOMBIE\<rparr>) k2"
    using e i(2) init by (simp add: kexit_table_def Let_def k1_def k2_def addr_of_def)
  have slot: "procs k' ! j = (if i = j then (procs k2 ! j)\<lparr>p_xstate := st, p_state := ZOMBIE\<rparr> else procs k2 ! j)"
    if "j < NPROC" for j
    unfolding k' using that cpus1 len1 by (intro leave_cpu_nth) (simp_all add: k2_def)
  have len': "length (procs k') = NPROC" unfolding k' using cpus1 len1 i(1) by (subst leave_cpu_nth(2)) (simp_all add: k2_def)
  have two: "procs k2 ! j = (if j \<noteq> i \<and> p_state (procs k1 ! j) = SLEEPING \<and> p_chan (procs k1 ! j) = addr p
      then (procs k1 ! j)\<lparr>p_state := RUNNABLE\<rparr> else procs k1 ! j)" if "j < NPROC" for j
    using that len1 by (auto simp: k2_def wakeup_nth)
  have "p_state (procs k' ! p) = RUNNABLE"
    using slot [OF p(1)] two [OF p(1)] r [OF p(1)] p(2) asleep(1,2) by (auto simp: reparented_def)
  moreover have par': "p_parent (procs k' ! j) = p_parent (procs k1 ! j)" if "j < NPROC" for j
    using slot [OF that] two [OF that] by auto
  then have "\<forall>j < NPROC. p_parent (procs k' ! j) \<noteq> Some i" using par init by auto
  moreover have dead: "dead_child p k' i"
    using slot [OF i(1)] par' [OF i(1)] par [OF i(1)] p by (simp add: dead_child_def)
  moreover have same: "p_pid (procs k' ! i) = p_pid (procs k ! i)" "p_xstate (procs k' ! i) = st"
    using slot [OF i(1)] two [OF i(1)] r [OF i(1)] by (auto simp: reparented_def)
  moreover have il: "i < length (procs k')" using i(1) len' by simp
  obtain f where f: "first_index (\<lambda>q. p_parent q = Some p \<and> p_state q = ZOMBIE) (procs k') = Some f" "f \<le> i" "dead_child p k' f"
    by (rule first_dead_child [OF dead il])
  then have scan: "kwait_scan ck p k' = (if ck (p_xstate (procs k' ! f)) then (Reaped (p_pid (procs k' ! f)) (p_xstate (procs k' ! f)), freeproc f k')
      else (CopyFailed, k'))" for ck
    by (simp add: kwait_scan_def Let_def)
  have old: "dead_child p k j \<or> dead_child i k j" if j: "dead_child p k' j" "j < NPROC" "j \<noteq> i" for j
  proof -
    have "p_state (procs k ! j) = ZOMBIE"
      using j(1,3) slot [OF j(2)] two [OF j(2)] r [OF j(2)] by (auto simp: dead_child_def reparented_def split: if_splits)
    then show ?thesis using j(1) par' [OF j(2)] par [OF j(2)] by (auto simp: dead_child_def split: if_splits)
  qed
  have "kwait_scan (\<lambda>_. True) p k' = (Reaped (p_pid (procs k ! i)) st, freeproc i k')"
    if "\<forall>j < NPROC. j \<noteq> i \<longrightarrow> \<not> dead_child p k j \<and> \<not> dead_child i k j"
  proof -
    have "f = i" using old [OF f(3)] that f(2) i(1) by (metis le_less_trans)
    then show ?thesis using scan same by simp
  qed
  moreover have "\<exists>n \<le> i. fst (kwait_scan (\<lambda>_. True) p ((wait_again p ^^ n) k')) = Reaped (p_pid (procs k ! i)) st"
  proof -
    have "card {j. j < i \<and> dead_child p k' j} \<le> i" using card_mono [of "{..<i}" "{j. j < i \<and> dead_child p k' j}"] by auto
    then show ?thesis using wait_reaches [OF dead il] same by (auto intro: le_trans)
  qed
  ultimately show ?thesis using f(2,3) scan by blast
qed

text \<open>Init in slot 0, a parent asleep in slot 1, its child (pid 3) running in slot 2 on CPU 0.\<close>

definition family :: kproc where
  "family = (boot_table (1, 2))\<lparr>procs := (replicate NPROC zero_proc)
       [0 := zero_proc\<lparr>p_state := RUNNABLE, p_pid := 1\<rparr>,
        1 := zero_proc\<lparr>p_state := SLEEPING, p_pid := 2, p_chan := 1, p_parent := Some 0\<rparr>,
        2 := zero_proc\<lparr>p_state := RUNNING, p_pid := 3, p_parent := Some 1\<rparr>],
     cpus := (replicate NCPU None)[0 := Some 2], initproc := Some 0\<rparr>"

text \<open>The same with another child (pid 4) that is dead already, in a slot below: it is reaped first.\<close>

definition family2 :: kproc where
  "family2 = family\<lparr>procs := (procs family)[1 := zero_proc\<lparr>p_state := ZOMBIE, p_pid := 4, p_xstate := 9, p_parent := Some 3\<rparr>,
     2 := zero_proc\<lparr>p_state := RUNNING, p_pid := 3, p_parent := Some 3\<rparr>,
     3 := zero_proc\<lparr>p_state := SLEEPING, p_pid := 2, p_chan := 3, p_parent := Some 0\<rparr>]\<rparr>"

theorem exit_then_wait_witness:
  "(\<exists>k'. kexit_table of_nat 0 5 family = Some k' \<and> fst (kwait_scan (\<lambda>_. True) 1 k') = Reaped 3 5)
   \<and> (\<exists>k' n. kexit_table of_nat 0 5 family2 = Some k' \<and> n \<le> 2 \<and> fst (kwait_scan (\<lambda>_. True) 3 ((wait_again 3 ^^ n) k')) = Reaped 3 5)"
proof
  have slots: "procs family ! 1 = zero_proc\<lparr>p_state := SLEEPING, p_pid := 2, p_chan := 1, p_parent := Some 0\<rparr>"
    "procs family ! 2 = zero_proc\<lparr>p_state := RUNNING, p_pid := 3, p_parent := Some 1\<rparr>"
    "length (procs family) = NPROC" "cpus family ! 0 = Some 2" "initproc family \<noteq> Some 2"
    by (simp_all add: family_def nth_list_update)
  have only: "\<forall>j < NPROC. j \<noteq> 2 \<longrightarrow> \<not> dead_child 1 family j \<and> \<not> dead_child 2 family j"
    by (auto simp: dead_child_def family_def nth_list_update zero_proc_def)
  obtain k' where k': "kexit_table of_nat 0 5 family = Some k'"
    using slots by (simp add: kexit_table_def Let_def)
  have "kwait_scan (\<lambda>_. True) 1 k' = (Reaped (p_pid (procs family ! 2)) 5, freeproc 2 k')"
    using exit_then_wait [OF slots(3) _ slots(4,5) _ _ _ _ _ _ k', of 1] slots only by simp
  with k' slots show "\<exists>k'. kexit_table of_nat 0 5 family = Some k' \<and> fst (kwait_scan (\<lambda>_. True) 1 k') = Reaped 3 5" by simp
  have slots2: "procs family2 ! 3 = zero_proc\<lparr>p_state := SLEEPING, p_pid := 2, p_chan := 3, p_parent := Some 0\<rparr>"
    "procs family2 ! 2 = zero_proc\<lparr>p_state := RUNNING, p_pid := 3, p_parent := Some 3\<rparr>"
    "length (procs family2) = NPROC" "cpus family2 ! 0 = Some 2" "initproc family2 \<noteq> Some 2"
    by (simp_all add: family2_def family_def nth_list_update)
  obtain k2 where k2: "kexit_table of_nat 0 5 family2 = Some k2"
    using slots2 by (simp add: kexit_table_def Let_def)
  have "\<exists>n \<le> 2. fst (kwait_scan (\<lambda>_. True) 3 ((wait_again 3 ^^ n) k2)) = Reaped (p_pid (procs family2 ! 2)) 5"
    using exit_then_wait [OF slots2(3) _ slots2(4,5) _ _ _ _ _ _ k2, of 3] slots2 by simp
  with k2 slots2 show "\<exists>k' n. kexit_table of_nat 0 5 family2 = Some k' \<and> n \<le> 2
      \<and> fst (kwait_scan (\<lambda>_. True) 3 ((wait_again 3 ^^ n) k')) = Reaped 3 5" by auto
qed

end
