(* ===== verification/Spin.thy ===== *)
theory Spin
  imports Interfaces
begin

text \<open>
  Locks of the kernel: \<open>kernel/spinlock.c\<close> and \<open>kernel/sleeplock.c\<close>. A CPU has its interrupt-enable
  flag, the depth of \<open>push_off\<close> and the flag saved by the first of them. A panic is a result of its
  own; the spinning of \<open>acquire\<close> is a step that is not enabled while another CPU has the lock.
\<close>

section \<open>Interrupts\<close>

record cpu =
  intr :: bool
  noff :: int
  intena :: bool

datatype 'a result = Ok 'a | Panic string

definition push_off :: "cpu \<Rightarrow> cpu" where
  "push_off c =
     (let old = intr c; c1 = c\<lparr>intr := False\<rparr>;
          c2 = (if noff c1 = 0 then c1\<lparr>intena := old\<rparr> else c1)
      in c2\<lparr>noff := noff c2 + 1\<rparr>)"

definition pop_off :: "cpu \<Rightarrow> cpu result" where
  "pop_off c =
     (if intr c then Panic ''pop_off - interruptible''
      else if noff c < 1 then Panic ''pop_off''
      else let c1 = c\<lparr>noff := noff c - 1\<rparr>
           in Ok (if noff c1 = 0 \<and> intena c1 then c1\<lparr>intr := True\<rparr> else c1))"

section \<open>Spin locks\<close>

record spinlock =
  lk_locked :: bool
  lk_cpu :: "nat option"

definition initlock :: spinlock where
  "initlock = \<lparr>lk_locked = False, lk_cpu = None\<rparr>"

definition holding :: "nat \<Rightarrow> spinlock \<Rightarrow> bool" where
  "holding me lk \<longleftrightarrow> lk_locked lk \<and> lk_cpu lk = Some me"

text \<open>
  \<open>acquire\<close> on CPU \<open>me\<close>: the turn of the loop in which the atomic swap succeeds. \<open>None\<close>: the lock is
  taken, the loop goes on (with interrupts off).
\<close>

definition acquire :: "nat \<Rightarrow> cpu \<times> spinlock \<Rightarrow> (cpu \<times> spinlock) result option" where
  "acquire me s =
     (let c = push_off (fst s); lk = snd s in
      if holding me lk then Some (Panic ''acquire'')
      else if lk_locked lk then None
      else Some (Ok (c, lk\<lparr>lk_locked := True, lk_cpu := Some me\<rparr>)))"

definition release :: "nat \<Rightarrow> cpu \<times> spinlock \<Rightarrow> (cpu \<times> spinlock) result" where
  "release me s =
     (let c = fst s; lk = snd s in
      if \<not> holding me lk then Panic ''release''
      else case pop_off c of
             Panic m \<Rightarrow> Panic m
           | Ok c' \<Rightarrow> Ok (c', lk\<lparr>lk_cpu := None, lk_locked := False\<rparr>))"

section \<open>Sleep locks\<close>

record sleeplock =
  sl_locked :: bool
  sl_pid :: int

definition initsleeplock :: sleeplock where
  "initsleeplock = \<lparr>sl_locked = False, sl_pid = 0\<rparr>"

text \<open>\<open>None\<close>: the caller goes to sleep on the lock and tests again when it is woken.\<close>

definition acquiresleep :: "int \<Rightarrow> sleeplock \<Rightarrow> sleeplock option" where
  "acquiresleep pid lk = (if sl_locked lk then None else Some (lk\<lparr>sl_locked := True, sl_pid := pid\<rparr>))"

definition releasesleep :: "sleeplock \<Rightarrow> sleeplock" where
  "releasesleep lk = lk\<lparr>sl_locked := False, sl_pid := 0\<rparr>"

definition holdingsleep :: "int \<Rightarrow> sleeplock \<Rightarrow> bool" where
  "holdingsleep pid lk \<longleftrightarrow> sl_locked lk \<and> sl_pid lk = pid"

section \<open>Nesting\<close>

datatype irq = Push | Pop

primrec irq_run :: "irq list \<Rightarrow> cpu \<Rightarrow> cpu result" where
  "irq_run [] c = Ok c"
| "irq_run (x # xs) c =
     (case x of
        Push \<Rightarrow> irq_run xs (push_off c)
      | Pop \<Rightarrow> (case pop_off c of Ok c' \<Rightarrow> irq_run xs c' | Panic m \<Rightarrow> Panic m))"

inductive balanced :: "irq list \<Rightarrow> bool" where
  bal_nil: "balanced []"
| bal_nest: "balanced xs \<Longrightarrow> balanced ys \<Longrightarrow> balanced (Push # xs @ Pop # ys)"

definition cpu_wf :: "cpu \<Rightarrow> bool" where
  "cpu_wf c \<longleftrightarrow> 0 \<le> noff c \<and> (0 < noff c \<longrightarrow> \<not> intr c)"

lemma irq_run_append:
  "irq_run (xs @ ys) c = (case irq_run xs c of Ok c' \<Rightarrow> irq_run ys c' | Panic m \<Rightarrow> Panic m)"
  by (induction xs arbitrary: c) (auto split: irq.splits result.splits)

lemma push_wf: "cpu_wf c \<Longrightarrow> cpu_wf (push_off c)"
  by (simp add: cpu_wf_def push_off_def Let_def)

text \<open>Inside a section the saved flag is not touched; outside it may be.\<close>

lemma balanced_inside:
  "balanced xs \<Longrightarrow> cpu_wf c \<Longrightarrow> 0 < noff c \<Longrightarrow> irq_run xs c = Ok c"
proof (induction xs arbitrary: c rule: balanced.induct)
  case (bal_nest xs ys)
  have p: "push_off c = c\<lparr>noff := noff c + 1\<rparr>"
    using bal_nest.prems by (simp add: push_off_def cpu_wf_def Let_def)
  have "irq_run xs (push_off c) = Ok (push_off c)"
    using bal_nest.prems by (intro bal_nest.IH(1)) (auto simp: p cpu_wf_def)
  moreover have "pop_off (push_off c) = Ok c"
    using bal_nest.prems by (simp add: p pop_off_def cpu_wf_def)
  ultimately show ?case using bal_nest.IH(2) bal_nest.prems by (simp add: irq_run_append)
qed simp

text \<open>
  a balanced sequence of \<open>push_off\<close> and \<open>pop_off\<close>, however nested, never panics and leaves the
  interrupt flag and the depth as it found them; in particular interrupts that were off stay off.
\<close>

theorem push_pop_balanced:
  assumes "balanced xs" "cpu_wf c"
  shows "\<exists>c'. irq_run xs c = Ok c' \<and> intr c' = intr c \<and> noff c' = noff c \<and> (0 < noff c \<longrightarrow> c' = c)"
  using assms
proof (induction xs arbitrary: c rule: balanced.induct)
  case bal_nil
  then show ?case by simp
next
  case (bal_nest xs ys)
  show ?case
  proof (cases "0 < noff c")
    case True
    then show ?thesis
      using balanced_inside [OF balanced.bal_nest] bal_nest by simp
  next
    case False
    then have 0: "noff c = 0" using bal_nest.prems by (simp add: cpu_wf_def)
    let ?c = "c\<lparr>intena := intr c\<rparr>"
    have p: "push_off c = c\<lparr>intr := False, intena := intr c, noff := 1\<rparr>"
      using 0 by (simp add: push_off_def Let_def)
    have "irq_run xs (push_off c) = Ok (push_off c)"
      by (rule balanced_inside [OF bal_nest.hyps(1)]) (simp_all add: p cpu_wf_def)
    moreover have "pop_off (push_off c) = Ok ?c"
      unfolding p using 0 by (cases c) (simp add: pop_off_def Let_def)
    moreover obtain c' where "irq_run ys ?c = Ok c'" "intr c' = intr c" "noff c' = noff c"
      using bal_nest.IH(2) [of ?c] bal_nest.prems 0 by (auto simp: cpu_wf_def)
    ultimately show ?thesis using False by (simp add: irq_run_append)
  qed
qed

theorem push_pop_balanced_witness:
  "\<exists>c'. irq_run [Push, Push, Pop, Pop] \<lparr>intr = True, noff = 0, intena = False\<rparr> = Ok c' \<and> intr c'"
proof -
  have b: "balanced (Push # [Push, Pop] @ Pop # [])"
    by (rule bal_nest [OF _ bal_nil]) (use bal_nest [OF bal_nil bal_nil] in simp)
  show ?thesis using push_pop_balanced [OF b, of "\<lparr>intr = True, noff = 0, intena = False\<rparr>"]
    by (auto simp: cpu_wf_def simp del: irq_run.simps)
qed

section \<open>Mutual exclusion\<close>

text \<open>One lock and the CPUs that use it; a CPU is inside between its \<open>acquire\<close> and its \<open>release\<close>.\<close>

record lock_system =
  ls_cpus :: "nat \<Rightarrow> cpu"
  ls_lock :: spinlock
  ls_inside :: "nat set"

inductive lock_step :: "lock_system \<Rightarrow> lock_system \<Rightarrow> bool" where
  lock_enter: "acquire i (ls_cpus s i, ls_lock s) = Some (Ok (c, lk)) \<Longrightarrow>
    lock_step s \<lparr>ls_cpus = (ls_cpus s)(i := c), ls_lock = lk, ls_inside = insert i (ls_inside s)\<rparr>"
| lock_leave: "release i (ls_cpus s i, ls_lock s) = Ok (c, lk) \<Longrightarrow>
    lock_step s \<lparr>ls_cpus = (ls_cpus s)(i := c), ls_lock = lk, ls_inside = ls_inside s - {i}\<rparr>"

definition lock_start :: "lock_system \<Rightarrow> bool" where
  "lock_start s \<longleftrightarrow> ls_lock s = initlock \<and> ls_inside s = {} \<and> (\<forall>i. cpu_wf (ls_cpus s i))"

definition lock_inv :: "lock_system \<Rightarrow> bool" where
  "lock_inv s \<longleftrightarrow> (\<forall>i. cpu_wf (ls_cpus s i))
     \<and> (\<forall>i. i \<in> ls_inside s \<longleftrightarrow> holding i (ls_lock s))
     \<and> (\<forall>i \<in> ls_inside s. 0 < noff (ls_cpus s i))"

lemma pop_wf: "cpu_wf c \<Longrightarrow> pop_off c = Ok c' \<Longrightarrow> cpu_wf c'"
  by (auto simp: cpu_wf_def pop_off_def Let_def split: if_splits)

interpretation lock: invariant_system lock_start lock_step lock_inv
proof
  fix s t
  show "lock_inv s" if "lock_start s"
    using that by (simp add: lock_start_def lock_inv_def holding_def initlock_def)
  show "lock_inv t" if inv: "lock_inv s" and "lock_step s t"
    using that(2)
  proof cases
    case (lock_enter i c lk)
    then have c: "c = push_off (ls_cpus s i)" and free: "\<not> lk_locked (ls_lock s)"
      and lk: "lk_locked lk" "lk_cpu lk = Some i"
      by (auto simp: acquire_def Let_def split: if_splits)
    have "ls_inside s = {}" using inv free by (auto simp: lock_inv_def holding_def)
    moreover have "cpu_wf c" "0 < noff c" using inv push_wf [of "ls_cpus s i"] c
      by (auto simp: lock_inv_def cpu_wf_def push_off_def Let_def)
    ultimately show ?thesis using inv lk lock_enter by (auto simp: lock_inv_def holding_def)
  next
    case (lock_leave i c lk)
    then have c: "pop_off (ls_cpus s i) = Ok c" and h: "holding i (ls_lock s)" and lk: "\<not> lk_locked lk"
      by (auto simp: release_def Let_def split: if_splits result.splits)
    have "ls_inside s = {i}" using inv h by (auto simp: lock_inv_def holding_def)
    moreover have "cpu_wf c" using inv c pop_wf by (auto simp: lock_inv_def)
    ultimately show ?thesis using inv lk lock_leave by (auto simp: lock_inv_def holding_def)
  qed
qed

text \<open>
  C19: mutual exclusion. However the CPUs interleave \<open>acquire\<close> and \<open>release\<close> on a lock, at most one
  of them is inside, it is the one that \<open>holding\<close> names, and its interrupts are off.
\<close>

theorem mutual_exclusion:
  assumes "lock_start s0" "lock_step\<^sup>*\<^sup>* s0 s" "i \<in> ls_inside s" "j \<in> ls_inside s"
  shows "i = j \<and> holding i (ls_lock s) \<and> \<not> intr (ls_cpus s i)"
  using lock.reachable_inv [OF assms(1,2)] assms(3,4)
  by (auto simp: lock_inv_def holding_def cpu_wf_def)

theorem mutual_exclusion_witness:
  "\<exists>s. 3 \<in> ls_inside s \<and> \<not> intr (ls_cpus s 3)
     \<and> lock_step \<lparr>ls_cpus = (\<lambda>_. \<lparr>intr = True, noff = 0, intena = False\<rparr>), ls_lock = initlock, ls_inside = {}\<rparr> s"
proof -
  let ?start = "\<lparr>ls_cpus = (\<lambda>_. \<lparr>intr = True, noff = 0, intena = False\<rparr>), ls_lock = initlock, ls_inside = {}\<rparr> :: lock_system"
  have init: "lock_start ?start" by (simp add: lock_start_def cpu_wf_def)
  obtain c lk where a: "acquire 3 (ls_cpus ?start 3, ls_lock ?start) = Some (Ok (c, lk))"
    by (simp add: acquire_def Let_def holding_def initlock_def)
  let ?after = "\<lparr>ls_cpus = (ls_cpus ?start)(3 := c), ls_lock = lk, ls_inside = insert 3 (ls_inside ?start)\<rparr>"
  have step: "lock_step ?start ?after" by (rule lock_enter [OF a])
  then have "lock_step\<^sup>*\<^sup>* ?start ?after" by (rule r_into_rtranclp)
  from mutual_exclusion [OF init this, of 3 3] have "3 \<in> ls_inside ?after \<and> \<not> intr (ls_cpus ?after 3)" by simp
  with step show ?thesis by blast
qed

end
