(* ===== verification/Kalloc.thy ===== *)
theory Kalloc
  imports Spin
begin

text \<open>
  The kernel's page allocator, \<open>kernel/kalloc.c\<close>: a linked list threaded through the free pages
  themselves. Memory is a function from physical addresses to bytes; \<open>kfree\<close> and \<open>kalloc\<close> run under
  \<open>kmem.lock\<close>. The end of the kernel image (\<open>end\<close>, from the linker) is an argument.
\<close>

section \<open>Memory\<close>

type_synonym phys = "nat \<Rightarrow> byte"

abbreviation PGSIZE :: nat where "PGSIZE \<equiv> 4096"
abbreviation PHYSTOP :: nat where "PHYSTOP \<equiv> 0x88000000"

definition PGROUNDUP :: "nat \<Rightarrow> nat" where
  "PGROUNDUP sz = (sz + PGSIZE - 1) div PGSIZE * PGSIZE"

definition fill :: "nat \<Rightarrow> nat \<Rightarrow> byte \<Rightarrow> phys \<Rightarrow> phys" where
  "fill a n b m = (\<lambda>x. if a \<le> x \<and> x < a + n then b else m x)"

definition load64 :: "phys \<Rightarrow> nat \<Rightarrow> nat" where
  "load64 m a = nat (dec_le (map m [a..<a + 8]))"

definition store64 :: "nat \<Rightarrow> nat \<Rightarrow> phys \<Rightarrow> phys" where
  "store64 a v m = (\<lambda>x. if a \<le> x \<and> x < a + 8 then enc_le 8 (int v) ! (x - a) else m x)"

lemma load_store [simp]: "v < 2 ^ 64 \<Longrightarrow> load64 (store64 a v m) a = v"
proof -
  assume v: "v < 2 ^ 64"
  have "map (store64 a v m) [a..<a + 8] = enc_le 8 (int v)"
    by (rule nth_equalityI) (simp_all add: store64_def)
  with v show ?thesis by (simp add: load64_def dec_enc_le)
qed

lemma dec_le_zero: "\<forall>b \<in> set bs. b = 0 \<Longrightarrow> dec_le bs = 0"
  by (induction bs) auto

lemma load64_cong: "(\<And>x. a \<le> x \<Longrightarrow> x < a + 8 \<Longrightarrow> m x = m' x) \<Longrightarrow> load64 m a = load64 m' a"
  unfolding load64_def by (metis (no_types, lifting) atLeastLessThan_iff map_cong set_upt)

section \<open>The allocator\<close>

record kmem =
  km_mem :: phys
  km_freelist :: nat

definition kfree :: "nat \<Rightarrow> nat \<Rightarrow> kmem \<Rightarrow> kmem result" where
  "kfree end pa k =
     (if pa mod PGSIZE \<noteq> 0 \<or> pa < end \<or> PHYSTOP \<le> pa then Panic ''kfree''
      else let m = fill pa PGSIZE 1 (km_mem k)
           in Ok \<lparr>km_mem = store64 pa (km_freelist k) m, km_freelist = pa\<rparr>)"

definition kalloc :: "kmem \<Rightarrow> nat \<times> kmem" where
  "kalloc k =
     (let r = km_freelist k in
      if r \<noteq> 0
      then (let k1 = k\<lparr>km_freelist := load64 (km_mem k) r\<rparr>
            in (r, k1\<lparr>km_mem := fill r PGSIZE 5 (km_mem k1)\<rparr>))
      else (r, k))"

text \<open>The loop of \<open>freerange\<close> from page \<open>p\<close> on.\<close>

function freerange_from :: "nat \<Rightarrow> nat \<Rightarrow> nat \<Rightarrow> kmem \<Rightarrow> kmem result" where
  "freerange_from end p pa_end k =
     (if p + PGSIZE \<le> pa_end
      then (case kfree end p k of Panic m \<Rightarrow> Panic m | Ok k' \<Rightarrow> freerange_from end (p + PGSIZE) pa_end k')
      else Ok k)"
  by pat_completeness auto

termination by (relation "measure (\<lambda>(e, p, pa_end, k). pa_end - p)") auto

declare freerange_from.simps [simp del]

definition freerange :: "nat \<Rightarrow> nat \<Rightarrow> nat \<Rightarrow> kmem \<Rightarrow> kmem result" where
  "freerange end pa_start pa_end k = freerange_from end (PGROUNDUP pa_start) pa_end k"

definition kinit :: "nat \<Rightarrow> kmem \<Rightarrow> kmem result" where
  "kinit end k = freerange end end PHYSTOP k"

section \<open>The list of free pages\<close>

primrec chain :: "phys \<Rightarrow> nat \<Rightarrow> nat list \<Rightarrow> bool" where
  "chain m h [] \<longleftrightarrow> h = 0"
| "chain m h (p # ps) \<longleftrightarrow> h = p \<and> chain m (load64 m p) ps"

definition page_ok :: "nat \<Rightarrow> nat \<Rightarrow> bool" where
  "page_ok end p \<longleftrightarrow> p mod PGSIZE = 0 \<and> end \<le> p \<and> p < PHYSTOP \<and> 0 < p"

definition kmem_inv :: "nat \<Rightarrow> kmem \<Rightarrow> nat list \<Rightarrow> bool" where
  "kmem_inv end k ps \<longleftrightarrow> chain (km_mem k) (km_freelist k) ps \<and> distinct ps \<and> (\<forall>p \<in> set ps. page_ok end p)"

lemma chain_unique: "chain m h ps \<Longrightarrow> chain m h qs \<Longrightarrow> \<forall>p \<in> set ps \<union> set qs. 0 < p \<Longrightarrow> ps = qs"
proof (induction ps arbitrary: h qs)
  case Nil
  then show ?case by (cases qs) auto
next
  case (Cons p ps)
  then show ?case by (cases qs) auto
qed

lemma pages_disjoint:
  assumes "p mod PGSIZE = 0" "q mod PGSIZE = 0" "p \<noteq> q" "q \<le> x" "x < q + 8"
  shows "\<not> (p \<le> x \<and> x < p + PGSIZE)"
proof
  assume x: "p \<le> x \<and> x < p + PGSIZE"
  have "p = PGSIZE * (p div PGSIZE)" "q = PGSIZE * (q div PGSIZE)" using assms(1,2) by auto
  moreover have "x div PGSIZE = p div PGSIZE" "x div PGSIZE = q div PGSIZE"
    using x assms(1,2,4,5) by (simp_all add: div_nat_eqI mod_eq_0_iff_dvd)
  ultimately show False using assms(3) by simp
qed

text \<open>What happens inside one page does not disturb the chain through the others.\<close>

lemma chain_cong:
  assumes "chain m h ps" "p mod PGSIZE = 0" "p \<notin> set ps" "\<forall>q \<in> set ps. q mod PGSIZE = 0"
    and "\<And>x. \<not> (p \<le> x \<and> x < p + PGSIZE) \<Longrightarrow> m' x = m x"
  shows "chain m' h ps"
  using assms(1,3,4)
proof (induction ps arbitrary: h)
  case (Cons q qs)
  have q: "q mod PGSIZE = 0" "p \<noteq> q" "p \<notin> set qs" "\<forall>q \<in> set qs. q mod PGSIZE = 0" using Cons.prems by auto
  have "load64 m' q = load64 m q"
    by (intro load64_cong assms(5) pages_disjoint [OF assms(2) q(1,2)])
  with Cons.IH [OF _ q(3,4)] Cons.prems(1) show ?case by simp
qed simp

lemma kfree_inv:
  assumes inv: "kmem_inv end k ps" and p: "page_ok end p" "p \<notin> set ps"
  obtains k' where "kfree end p k = Ok k'" "kmem_inv end k' (p # ps)"
proof -
  let ?m = "store64 p (km_freelist k) (fill p PGSIZE 1 (km_mem k))"
  have "km_freelist k < 2 ^ 64"
    using inv by (cases ps) (auto simp: kmem_inv_def page_ok_def)
  then have "load64 ?m p = km_freelist k" by simp
  moreover have "chain ?m (km_freelist k) ps"
    by (rule chain_cong [of "km_mem k" _ ps p]) (use inv p in \<open>auto simp: kmem_inv_def page_ok_def store64_def fill_def\<close>)
  ultimately have "kmem_inv end \<lparr>km_mem = ?m, km_freelist = p\<rparr> (p # ps)"
    using inv p by (simp add: kmem_inv_def)
  moreover have "kfree end p k = Ok \<lparr>km_mem = ?m, km_freelist = p\<rparr>"
    using p(1) by (simp add: kfree_def page_ok_def)
  ultimately show thesis using that by blast
qed

lemma kalloc_inv:
  assumes inv: "kmem_inv end k (p # ps)"
  shows "fst (kalloc k) = p" "kmem_inv end (snd (kalloc k)) ps"
proof -
  have p: "km_freelist k = p" "0 < p" "p mod PGSIZE = 0" using inv by (auto simp: kmem_inv_def page_ok_def)
  then show "fst (kalloc k) = p" by (simp add: kalloc_def)
  have "chain (fill p PGSIZE 5 (km_mem k)) (load64 (km_mem k) p) ps"
    by (rule chain_cong [of "km_mem k" _ ps p]) (use inv p in \<open>auto simp: kmem_inv_def page_ok_def fill_def\<close>)
  then show "kmem_inv end (snd (kalloc k)) ps" using inv p by (simp add: kalloc_def kmem_inv_def)
qed

lemma kalloc_empty: "kmem_inv end k [] \<Longrightarrow> kalloc k = (0, k)"
  by (simp add: kmem_inv_def kalloc_def)

section \<open>The allocator interface\<close>

definition free_pages :: "nat \<Rightarrow> kmem \<Rightarrow> int set" where
  "free_pages end k = {int p |p. \<exists>ps. kmem_inv end k ps \<and> p \<in> set ps}"

definition kmem_ok :: "nat \<Rightarrow> kmem \<Rightarrow> bool" where
  "kmem_ok end k \<longleftrightarrow> (\<exists>ps. kmem_inv end k ps)"

definition page_alloc :: "unit \<Rightarrow> kmem \<Rightarrow> (nat \<times> kmem) option" where
  "page_alloc u k = (case kalloc k of (r, k') \<Rightarrow> if r = 0 then None else Some (r, k'))"

definition page_free :: "nat \<Rightarrow> unit \<Rightarrow> nat \<Rightarrow> kmem \<Rightarrow> kmem" where
  "page_free end u p k = (case kfree end p k of Ok k' \<Rightarrow> k' | Panic m \<Rightarrow> k)"

definition page_owned :: "nat \<Rightarrow> unit \<Rightarrow> nat \<Rightarrow> kmem \<Rightarrow> bool" where
  "page_owned end u p k \<longleftrightarrow> page_ok end p \<and> int p \<notin> free_pages end k"

lemma kmem_inv_unique: "kmem_inv end k ps \<Longrightarrow> kmem_inv end k qs \<Longrightarrow> ps = qs"
  using chain_unique [of "km_mem k" "km_freelist k" ps qs] unfolding kmem_inv_def page_ok_def by blast

lemma free_pages_eq:
  assumes "kmem_inv end k ps" shows "free_pages end k = int ` set ps"
proof -
  have "kmem_inv end k qs \<longleftrightarrow> qs = ps" for qs using kmem_inv_unique assms by blast
  then show ?thesis unfolding free_pages_def by auto
qed

lemma page_alloc_Some:
  assumes "kmem_inv end k ps" "page_alloc u k = Some (r, k')"
  obtains qs where "ps = r # qs" "kmem_inv end k' qs"
proof (cases ps)
  case Nil
  with assms show thesis by (simp add: page_alloc_def kalloc_empty)
next
  case (Cons p qs)
  note k = kalloc_inv [OF assms(1) [unfolded Cons]]
  have "r = p" "k' = snd (kalloc k)" using assms(2) k(1) by (auto simp: page_alloc_def split: prod.splits if_splits)
  with k(2) Cons show thesis using that by blast
qed

interpretation pages: allocator "kmem_ok end" "free_pages end" "\<lambda>u p. {int p}" "\<lambda>u. True"
  page_alloc "page_free end" "page_owned end" for "end"
proof
  fix k u r k'
  assume ok: "kmem_ok end k" and a: "page_alloc u k = Some (r, k')"
  from ok obtain ps where ps: "kmem_inv end k ps" by (auto simp: kmem_ok_def)
  from page_alloc_Some [OF this a] obtain qs where qs: "ps = r # qs" "kmem_inv end k' qs" .
  have r: "page_ok end r" "r \<notin> set qs" using ps qs(1) by (auto simp: kmem_inv_def)
  note F = free_pages_eq [OF ps] free_pages_eq [OF qs(2)]
  show "kmem_ok end k'" using qs by (auto simp: kmem_ok_def)
  show "{int r} \<subseteq> free_pages end k" "free_pages end k' = free_pages end k - {int r}" "page_owned end u r k'"
    using qs r by (auto simp: F page_owned_def)
next
  fix k u r
  assume ok: "kmem_ok end k" and own: "page_owned end u r k"
  from ok obtain ps where ps: "kmem_inv end k ps" by (auto simp: kmem_ok_def)
  have "r \<notin> set ps" using own by (auto simp: page_owned_def free_pages_eq [OF ps])
  with own kfree_inv [OF ps, of r] obtain k' where k': "kfree end r k = Ok k'" "kmem_inv end k' (r # ps)"
    by (auto simp: page_owned_def)
  then show "kmem_ok end (page_free end u r k)" "free_pages end (page_free end u r k) = free_pages end k \<union> {int r}"
    by (auto simp: page_free_def kmem_ok_def free_pages_eq [OF ps] free_pages_eq [OF k'(2)])
qed

section \<open>Properties\<close>

lemma next_multiple:
  fixes p q :: nat
  assumes "p mod PGSIZE = 0" "q mod PGSIZE = 0" "p < q"
  shows "p + PGSIZE \<le> q"
proof -
  obtain a b where ab: "p = PGSIZE * a" "q = PGSIZE * b" using assms(1,2) by (auto elim!: dvdE)
  with assms(3) have "a + 1 \<le> b" by simp
  with ab show ?thesis by linarith
qed

lemma PGROUNDUP: "PGROUNDUP sz mod PGSIZE = 0" "sz \<le> PGROUNDUP sz" "PGROUNDUP sz < sz + PGSIZE"
proof -
  let ?x = "sz + PGSIZE - 1"
  have "?x div PGSIZE * PGSIZE \<le> ?x" "?x < ?x div PGSIZE * PGSIZE + PGSIZE"
    using div_times_less_eq_dividend [of ?x PGSIZE] dividend_less_div_times [of PGSIZE ?x] by simp_all
  then show "sz \<le> PGROUNDUP sz" "PGROUNDUP sz < sz + PGSIZE" unfolding PGROUNDUP_def by linarith+
  show "PGROUNDUP sz mod PGSIZE = 0" by (simp add: PGROUNDUP_def)
qed

lemma freerange_from_step:
  "freerange_from end p pa_end k = (if p + PGSIZE \<le> pa_end
      then (case kfree end p k of Panic m \<Rightarrow> Panic m | Ok k' \<Rightarrow> freerange_from end (p + PGSIZE) pa_end k') else Ok k)"
  by (rule freerange_from.simps)

lemma freerange_from_inv:
  assumes "kmem_inv end k ps" "p mod PGSIZE = 0" "end \<le> p" "0 < p" "\<forall>q \<in> set ps. q < p"
  shows "\<exists>k' qs. freerange_from end p PHYSTOP k = Ok k' \<and> kmem_inv end k' qs
     \<and> set qs = set ps \<union> {q. q mod PGSIZE = 0 \<and> p \<le> q \<and> q + PGSIZE \<le> PHYSTOP}"
  using assms
proof (induction "PHYSTOP - p" arbitrary: p k ps rule: less_induct)
  case less
  show ?case
  proof (cases "p + PGSIZE \<le> PHYSTOP")
    case False
    then have "freerange_from end p PHYSTOP k = Ok k" by (simp add: freerange_from_step [of _ p])
    with False less.prems(1) show ?thesis by (intro exI [of _ k] exI [of _ ps]) auto
  next
    case True
    have p: "page_ok end p" "p \<notin> set ps" using less.prems True by (auto simp: page_ok_def)
    obtain k1 where k1: "kfree end p k = Ok k1" "kmem_inv end k1 (p # ps)"
      using kfree_inv [OF less.prems(1) p] .
    have step: "freerange_from end p PHYSTOP k = freerange_from end (p + PGSIZE) PHYSTOP k1"
      using True k1(1) by (simp add: freerange_from_step [of _ p])
    have next_page: "PHYSTOP - (p + PGSIZE) < PHYSTOP - p" "(p + PGSIZE) mod PGSIZE = 0" "end \<le> p + PGSIZE"
      "0 < p + PGSIZE" "\<forall>q \<in> set (p # ps). q < p + PGSIZE"
      using True less.prems(2,3,5) by (auto simp: mod_add_self2)
    from less.hyps [OF next_page(1) k1(2) next_page(2-5)] obtain k' qs
      where r: "freerange_from end (p + PGSIZE) PHYSTOP k1 = Ok k'" "kmem_inv end k' qs"
      "set qs = set (p # ps) \<union> {q. q mod PGSIZE = 0 \<and> p + PGSIZE \<le> q \<and> q + PGSIZE \<le> PHYSTOP}" by blast
    have "q = p \<or> p + PGSIZE \<le> q" if "q mod PGSIZE = 0" "p \<le> q" for q
      using that next_multiple [OF less.prems(2) that(1)] by linarith
    then have "{q. q mod PGSIZE = 0 \<and> p \<le> q \<and> q + PGSIZE \<le> PHYSTOP}
        = insert p {q. q mod PGSIZE = 0 \<and> p + PGSIZE \<le> q \<and> q + PGSIZE \<le> PHYSTOP}"
      using less.prems(2) True by fastforce
    then have "set qs = set ps \<union> {q. q mod PGSIZE = 0 \<and> p \<le> q \<and> q + PGSIZE \<le> PHYSTOP}"
      unfolding r(3) by simp
    with r(1,2) step show ?thesis by metis
  qed
qed

text \<open>
  after \<open>kinit\<close>, whatever memory held before, the free pages are exactly the whole pages
  between the end of the kernel and PHYSTOP, and nothing else.
\<close>

theorem kinit_free_pages:
  assumes "0 < end"
  shows "\<exists>k'. kinit end \<lparr>km_mem = m, km_freelist = 0\<rparr> = Ok k' \<and> kmem_ok end k'
    \<and> free_pages end k' = {int q |q. q mod PGSIZE = 0 \<and> end \<le> q \<and> q + PGSIZE \<le> PHYSTOP}"
proof -
  let ?k = "\<lparr>km_mem = m, km_freelist = 0\<rparr>" and ?p = "PGROUNDUP end"
  note p = PGROUNDUP [of "end"]
  have "kmem_inv end ?k []" by (simp add: kmem_inv_def)
  from freerange_from_inv [OF this p(1,2)] assms p(2) obtain k' qs
    where k': "kinit end ?k = Ok k'" "kmem_inv end k' qs"
      and qs: "set qs = {q. q mod PGSIZE = 0 \<and> ?p \<le> q \<and> q + PGSIZE \<le> PHYSTOP}"
    by (auto simp: kinit_def freerange_def)
  have "?p \<le> q \<longleftrightarrow> end \<le> q" if "q mod PGSIZE = 0" for q
    using that p next_multiple [OF that p(1)] by linarith
  then have "free_pages end k' = {int q |q. q mod PGSIZE = 0 \<and> end \<le> q \<and> q + PGSIZE \<le> PHYSTOP}"
    unfolding free_pages_eq [OF k'(2)] qs by auto
  with k' show ?thesis by (auto simp: kmem_ok_def)
qed

theorem kinit_free_pages_witness:
  "\<exists>k'. kinit 0x80021001 \<lparr>km_mem = (\<lambda>_. 7), km_freelist = 0\<rparr> = Ok k' \<and> 0x80022000 \<in> free_pages 0x80021001 k'"
  using kinit_free_pages [of "0x80021001" "\<lambda>_. 7"] by force

text \<open>
  C24: two pages handed out one after the other are different, they come out of the free pages, and
  giving the first one back makes the free pages what they would have been without it.
\<close>

theorem kalloc_fresh:
  assumes ok: "kmem_ok end k" and a: "kalloc k = (p, k1)" "p \<noteq> 0" and b: "kalloc k1 = (q, k2)" "q \<noteq> 0"
  shows "p \<noteq> q \<and> int p \<in> free_pages end k \<and> free_pages end k2 = free_pages end k - {int p, int q}
    \<and> (\<exists>k3. kfree end p k2 = Ok k3 \<and> kmem_ok end k3 \<and> free_pages end k3 = free_pages end k - {int q})"
proof -
  have al: "page_alloc () k = Some (p, k1)" "page_alloc () k1 = Some (q, k2)"
    using a b by (simp_all add: page_alloc_def)
  have ok1: "kmem_ok end k1" by (rule pages.alloc_inv [OF ok TrueI al(1)])
  have ok2: "kmem_ok end k2" by (rule pages.alloc_inv [OF ok1 TrueI al(2)])
  have pq: "p \<noteq> q" using pages.alloc_disjoint [OF ok TrueI TrueI al] by simp
  have f: "free_pages end k1 = free_pages end k - {int p}" "free_pages end k2 = free_pages end k1 - {int q}"
    "int p \<in> free_pages end k" "page_owned end () p k1"
    using pages.alloc_avail [OF ok TrueI al(1)] pages.alloc_avail [OF ok1 TrueI al(2)] pages.alloc_units [OF ok TrueI al(1)]
      pages.alloc_owned [OF ok TrueI al(1)] by auto
  have own: "page_owned end () p k2" using f by (auto simp: page_owned_def)
  have "page_ok end p" using own by (simp add: page_owned_def)
  then obtain k3 where k3: "kfree end p k2 = Ok k3" by (simp add: kfree_def page_ok_def)
  have "page_free end () p k2 = k3" by (simp add: page_free_def k3)
  then have "kmem_ok end k3 \<and> free_pages end k3 = free_pages end k2 \<union> {int p}"
    using pages.free_inv [OF ok2 TrueI own] pages.free_avail [OF ok2 TrueI own] by metis
  moreover have "free_pages end k2 \<union> {int p} = free_pages end k - {int q}" unfolding f(1,2) using f(3) pq by auto
  moreover have "free_pages end k2 = free_pages end k - {int p, int q}" using f by blast
  ultimately show ?thesis using k3 pq f(3) by blast
qed

theorem kalloc_fresh_witness:
  "\<exists>k1 k2. kalloc \<lparr>km_mem = store64 0x80001000 0x80000000 (\<lambda>_. 0), km_freelist = 0x80001000\<rparr> = (0x80001000, k1)
     \<and> kalloc k1 = (0x80000000, k2) \<and> free_pages 0x80000000 k2 = {}"
proof -
  let ?k = "\<lparr>km_mem = store64 0x80001000 0x80000000 (\<lambda>_. 0), km_freelist = 0x80001000\<rparr>"
  have zero: "load64 (store64 0x80001000 0x80000000 (\<lambda>_. 0)) 0x80000000 = 0"
    unfolding load64_def by (subst dec_le_zero) (auto simp: store64_def)
  have inv: "kmem_inv 0x80000000 ?k [0x80001000, 0x80000000]"
    using zero by (simp add: kmem_inv_def page_ok_def)
  note k = kalloc_inv [OF inv]
  note k' = kalloc_inv [OF k(2)]
  obtain k1 where k1: "kalloc ?k = (0x80001000, k1)" using k(1) by (metis prod.collapse)
  obtain k2 where k2: "kalloc k1 = (0x80000000, k2)" using k'(1) k1 by (metis prod.collapse snd_conv)
  have ok: "kmem_ok 0x80000000 ?k" using inv by (auto simp: kmem_ok_def)
  have "free_pages 0x80000000 ?k = {0x80000000, 0x80001000}" by (auto simp: free_pages_eq [OF inv])
  then have "free_pages 0x80000000 k2 = {}" using kalloc_fresh [OF ok k1 _ k2] by simp
  with k1 k2 show ?thesis by blast
qed

end
