(* ===== verification/KString.thy ===== *)
theory KString
  imports Kalloc
begin

text \<open>
  The kernel's string and memory routines, \<open>kernel/string.c\<close>, as the loops they are, on memory as a
  function from addresses to bytes (a region does not wrap around the end of memory).
\<close>

section \<open>The routines\<close>

primrec memset_from :: "nat \<Rightarrow> byte \<Rightarrow> nat \<Rightarrow> phys \<Rightarrow> phys" where
  "memset_from dst c 0 m = m"
| "memset_from dst c (Suc n) m = memset_from (dst + 1) c n (m(dst := c))"

definition memset :: "nat \<Rightarrow> int \<Rightarrow> nat \<Rightarrow> phys \<Rightarrow> phys" where
  "memset dst c n m = memset_from dst (word_of_int c) n m"

primrec memcmp :: "nat \<Rightarrow> nat \<Rightarrow> nat \<Rightarrow> phys \<Rightarrow> int" where
  "memcmp s1 s2 0 m = 0"
| "memcmp s1 s2 (Suc n) m =
     (if m s1 \<noteq> m s2 then uint (m s1) - uint (m s2) else memcmp (s1 + 1) (s2 + 1) n m)"

primrec copy_up :: "nat \<Rightarrow> nat \<Rightarrow> nat \<Rightarrow> phys \<Rightarrow> phys" where
  "copy_up d s 0 m = m"
| "copy_up d s (Suc n) m = copy_up (d + 1) (s + 1) n (m(d := m s))"

primrec copy_down :: "nat \<Rightarrow> nat \<Rightarrow> nat \<Rightarrow> phys \<Rightarrow> phys" where
  "copy_down d s 0 m = m"
| "copy_down d s (Suc n) m = copy_down (d - 1) (s - 1) n (m(d - 1 := m (s - 1)))"

definition memmove :: "nat \<Rightarrow> nat \<Rightarrow> nat \<Rightarrow> phys \<Rightarrow> phys" where
  "memmove dst src n m =
     (if n = 0 then m
      else if src < dst \<and> src + n > dst then copy_down (dst + n) (src + n) n m
      else copy_up dst src n m)"

definition memcpy :: "nat \<Rightarrow> nat \<Rightarrow> nat \<Rightarrow> phys \<Rightarrow> phys" where
  "memcpy dst src n m = memmove dst src n m"

text \<open>The loop of \<open>strncmp\<close> and the test after it.\<close>

primrec strncmp :: "nat \<Rightarrow> nat \<Rightarrow> nat \<Rightarrow> phys \<Rightarrow> int" where
  "strncmp p q 0 m = 0"
| "strncmp p q (Suc n) m =
     (if m p \<noteq> 0 \<and> m p = m q then strncmp (p + 1) (q + 1) n m else uint (m p) - uint (m q))"

primrec strncpy :: "nat \<Rightarrow> nat \<Rightarrow> nat \<Rightarrow> phys \<Rightarrow> phys" where
  "strncpy s t 0 m = m"
| "strncpy s t (Suc n) m =
     (let m' = m(s := m t) in if m t \<noteq> 0 then strncpy (s + 1) (t + 1) n m' else memset_from (s + 1) 0 n m')"

text \<open>The loop of \<open>safestrcpy\<close> with \<open>n\<close> counted down before each turn, and the final zero.\<close>

primrec safestrcpy_from :: "nat \<Rightarrow> nat \<Rightarrow> nat \<Rightarrow> phys \<Rightarrow> phys" where
  "safestrcpy_from s t 0 m = m(s := 0)"
| "safestrcpy_from s t (Suc n) m =
     (let m' = m(s := m t) in if m t \<noteq> 0 then safestrcpy_from (s + 1) (t + 1) n m' else m'(s + 1 := 0))"

definition safestrcpy :: "nat \<Rightarrow> nat \<Rightarrow> int \<Rightarrow> phys \<Rightarrow> phys" where
  "safestrcpy s t n m = (if n \<le> 0 then m else safestrcpy_from s t (nat n - 1) m)"

partial_function (option) strlen :: "nat \<Rightarrow> phys \<Rightarrow> nat option" where
  "strlen s m = (if m s = 0 then Some 0 else Option.bind (strlen (s + 1) m) (\<lambda>n. Some (Suc n)))"

section \<open>What they compute\<close>

lemma memset_from_eq: "memset_from dst c n m = fill dst n c m"
  by (induction n arbitrary: dst m) (auto simp: fill_def fun_eq_iff)

lemma copy_up_eq:
  "dst \<le> src \<or> src + n \<le> dst \<Longrightarrow> copy_up dst src n m x = (if dst \<le> x \<and> x < dst + n then m (src + (x - dst)) else m x)"
proof (induction n arbitrary: dst src m)
  case (Suc n)
  have "copy_up dst src (Suc n) m x = (if dst + 1 \<le> x \<and> x < dst + 1 + n
      then (m(dst := m src)) (src + 1 + (x - (dst + 1))) else (m(dst := m src)) x)"
    unfolding copy_up.simps by (rule Suc.IH) (use Suc.prems in auto)
  also have "\<dots> = (if dst \<le> x \<and> x < dst + Suc n then m (src + (x - dst)) else m x)"
    using Suc.prems by (cases "x = dst") (auto simp: Suc_diff_Suc)
  finally show ?case .
qed auto

lemma copy_down_eq:
  "src \<le> dst \<Longrightarrow> copy_down (dst + n) (src + n) n m x = (if dst \<le> x \<and> x < dst + n then m (src + (x - dst)) else m x)"
proof (induction n arbitrary: m)
  case (Suc n)
  have "copy_down (dst + Suc n) (src + Suc n) (Suc n) m x
      = copy_down (dst + n) (src + n) n (m(dst + n := m (src + n))) x" by simp
  also have "\<dots> = (if dst \<le> x \<and> x < dst + n then (m(dst + n := m (src + n))) (src + (x - dst)) else (m(dst + n := m (src + n))) x)"
    by (rule Suc.IH [OF Suc.prems])
  also have "\<dots> = (if dst \<le> x \<and> x < dst + Suc n then m (src + (x - dst)) else m x)"
    using Suc.prems by auto
  finally show ?case .
qed auto

text \<open>
  \<open>memmove\<close> copies the old contents of the source to the destination however the two regions
  overlap, and changes nothing else.
\<close>

theorem memmove_correct:
  "memmove dst src n m = (\<lambda>x. if dst \<le> x \<and> x < dst + n then m (src + (x - dst)) else m x)"
  using copy_up_eq [of dst src n m] copy_down_eq [of src dst n m]
  by (auto simp: memmove_def fun_eq_iff)

text \<open>The C string at an address, looked at over at most \<open>n\<close> bytes.\<close>

primrec cstring :: "phys \<Rightarrow> nat \<Rightarrow> nat \<Rightarrow> byte list" where
  "cstring m p 0 = []"
| "cstring m p (Suc n) = (if m p = 0 then [] else m p # cstring m (p + 1) n)"

text \<open>The byte-wise lexicographic order of C strings, by sign.\<close>

fun lex_sign :: "byte list \<Rightarrow> byte list \<Rightarrow> int" where
  "lex_sign [] [] = 0"
| "lex_sign [] (b # bs) = -1"
| "lex_sign (a # as) [] = 1"
| "lex_sign (a # as) (b # bs) = (if a = b then lex_sign as bs else sgn (uint a - uint b))"

lemma lex_sign_0: "lex_sign as bs = 0 \<longleftrightarrow> as = bs"
  by (induction as bs rule: lex_sign.induct) (auto simp: sgn_if word_uint_eq_iff)

text \<open>
  the sign of \<open>strncmp\<close> is that of the lexicographic comparison of the two strings cut at \<open>n\<close>
  bytes; in particular the result is 0 exactly when these are equal.
\<close>

theorem strncmp_lex:
  "sgn (strncmp p q n m) = lex_sign (cstring m p n) (cstring m q n)
   \<and> (strncmp p q n m = 0 \<longleftrightarrow> cstring m p n = cstring m q n)"
proof -
  have pos: "0 < uint w" if "w \<noteq> 0" for w :: byte using that uint_ge_0 [of w] by (metis order_le_less uint_0_iff)
  have "sgn (strncmp p q n m) = lex_sign (cstring m p n) (cstring m q n)"
  proof (induction n arbitrary: p q)
    case (Suc n)
    show ?case
    proof (cases "m p \<noteq> 0 \<and> m p = m q")
      case True
      then show ?thesis using Suc.IH [of "p + 1" "q + 1"] by simp
    next
      case False
      then show ?thesis using pos [of "m p"] pos [of "m q"] by (auto simp: sgn_if)
    qed
  qed simp
  moreover from this have "strncmp p q n m = 0 \<longleftrightarrow> cstring m p n = cstring m q n"
    by (metis lex_sign_0 sgn_0_0)
  ultimately show ?thesis ..
qed

lemma cstring_cong: "(\<And>x. p \<le> x \<Longrightarrow> x < p + n \<Longrightarrow> m' x = m x) \<Longrightarrow> cstring m' p n = cstring m p n"
  by (induction n arbitrary: p) simp_all

lemma safestrcpy_from_correct:
  "t + n \<le> s \<or> s + Suc n \<le> t \<Longrightarrow>
     cstring (safestrcpy_from s t n m) s (Suc n) = cstring m t n
     \<and> (\<forall>x. x < s \<or> s + n < x \<longrightarrow> safestrcpy_from s t n m x = m x)
     \<and> safestrcpy_from s t n m (s + length (cstring m t n)) = 0"
proof (induction n arbitrary: s t m)
  case (Suc n)
  let ?m = "m(s := m t)"
  show ?case
  proof (cases "m t = 0")
    case True
    then show ?thesis by (auto simp: Let_def)
  next
    case False
    have step: "safestrcpy_from s t (Suc n) m = safestrcpy_from (s + 1) (t + 1) n ?m" using False by (simp add: Let_def)
    have IH: "cstring (safestrcpy_from (s + 1) (t + 1) n ?m) (s + 1) (Suc n) = cstring ?m (t + 1) n
     \<and> (\<forall>x. x < s + 1 \<or> s + 1 + n < x \<longrightarrow> safestrcpy_from (s + 1) (t + 1) n ?m x = ?m x)
     \<and> safestrcpy_from (s + 1) (t + 1) n ?m (s + 1 + length (cstring ?m (t + 1) n)) = 0"
      using Suc.prems by (intro Suc.IH) auto
    have src: "cstring ?m (t + 1) n = cstring m (t + 1) n"
      using Suc.prems by (intro cstring_cong) auto
    have fst: "safestrcpy_from (s + 1) (t + 1) n ?m s = m t" using IH by simp
    show ?thesis unfolding step using IH fst False unfolding src by (simp del: safestrcpy_from.simps)
  qed
qed simp

text \<open>
  \<open>safestrcpy\<close> into a buffer of \<open>n > 0\<close> bytes stores the source string cut to \<open>n - 1\<close> bytes, always
  with a terminating zero inside the buffer, and touches nothing outside the buffer.
\<close>

lemma safestrcpy_terminates_string:
  assumes n: "0 < n" and disj: "t + nat n \<le> s \<or> s + nat n \<le> t"
  shows "cstring (safestrcpy s t n m) s (nat n) = cstring m t (nat n - 1)
    \<and> (\<exists>k < nat n. safestrcpy s t n m (s + k) = 0)
    \<and> (\<forall>x. x < s \<or> s + nat n \<le> x \<longrightarrow> safestrcpy s t n m x = m x)"
proof -
  obtain k where k: "nat n = Suc k" using n by (cases "nat n") auto
  have eq: "safestrcpy s t n m = safestrcpy_from s t k m" using n k by (simp add: safestrcpy_def)
  have c: "cstring (safestrcpy_from s t k m) s (Suc k) = cstring m t k
     \<and> (\<forall>x. x < s \<or> s + k < x \<longrightarrow> safestrcpy_from s t k m x = m x)
     \<and> safestrcpy_from s t k m (s + length (cstring m t k)) = 0"
    using disj k by (intro safestrcpy_from_correct) auto
  have "length (cstring m t k) \<le> k" by (induction k arbitrary: t) auto
  then have "\<exists>j < nat n. safestrcpy_from s t k m (s + j) = 0"
    using c k by (intro exI [of _ "length (cstring m t k)"]) auto
  then show ?thesis using c unfolding eq k by auto
qed

end
