(* ===== verification/Pipe.thy ===== *)
theory Pipe
  imports Interfaces
begin

text \<open>
  Pipes, \<open>kernel/pipe.c\<close>: a ring of 512 bytes with two 32-bit counters that run on and wrap around. A
  system call that has to sleep is cut at the sleep: it returns \<open>Asleep\<close> with its loop variable and
  is resumed there. Each stretch runs under the pipe's lock and also gives the channels it wakes.
  Copying to and from user memory is an argument (\<open>None\<close> or \<open>False\<close>: a bad address), so is the
  \<open>killed\<close> flag of the caller, which another CPU may set between two turns of the loop.
\<close>

section \<open>The ring\<close>

abbreviation PIPESIZE :: nat where "PIPESIZE \<equiv> 512"

record pipe =
  pi_data :: "byte list"
  pi_nread :: u32
  pi_nwrite :: u32
  pi_readopen :: bool
  pi_writeopen :: bool

text \<open>The channels \<open>&pi->nread\<close> and \<open>&pi->nwrite\<close>.\<close>

datatype chan = NREAD | NWRITE

text \<open>The pipe that \<open>pipealloc\<close> sets up in a fresh page (whatever its bytes are).\<close>

definition pipealloc :: "byte list \<Rightarrow> pipe" where
  "pipealloc junk = \<lparr>pi_data = take PIPESIZE (junk @ replicate PIPESIZE 0), pi_nread = 0, pi_nwrite = 0,
     pi_readopen = True, pi_writeopen = True\<rparr>"

text \<open>The result says whether the page is freed, and the channel woken.\<close>

definition pipeclose :: "bool \<Rightarrow> pipe \<Rightarrow> bool \<times> chan list \<times> pipe" where
  "pipeclose writable p =
     (let (w, p') = (if writable then ([NREAD], p\<lparr>pi_writeopen := False\<rparr>) else ([NWRITE], p\<lparr>pi_readopen := False\<rparr>))
      in (\<not> pi_readopen p' \<and> \<not> pi_writeopen p', w, p'))"

definition put_byte :: "byte \<Rightarrow> pipe \<Rightarrow> pipe" where
  "put_byte ch p = p\<lparr>pi_data := (pi_data p)[unat (pi_nwrite p) mod PIPESIZE := ch], pi_nwrite := pi_nwrite p + 1\<rparr>"

definition get_byte :: "pipe \<Rightarrow> byte \<times> pipe" where
  "get_byte p = (pi_data p ! (unat (pi_nread p) mod PIPESIZE), p\<lparr>pi_nread := pi_nread p + 1\<rparr>)"

datatype progress = Done int | Asleep int

function pipewrite_from :: "(int \<Rightarrow> bool) \<Rightarrow> (int \<Rightarrow> byte option) \<Rightarrow> int \<Rightarrow> int \<Rightarrow> pipe \<Rightarrow> progress \<times> chan list \<times> pipe" where
  "pipewrite_from is_killed copyin i n p =
     (if i < n then
        (if \<not> pi_readopen p \<or> is_killed i then (Done (-1), [], p)
         else if pi_nwrite p = pi_nread p + of_nat PIPESIZE then (Asleep i, [NREAD], p)
         else case copyin i of
                None \<Rightarrow> (Done i, [NREAD], p)
              | Some ch \<Rightarrow> pipewrite_from is_killed copyin (i + 1) n (put_byte ch p))
      else (Done i, [NREAD], p))"
  by pat_completeness auto

termination by (relation "measure (\<lambda>(b, c, i, n, p). nat (n - i))") auto

declare pipewrite_from.simps [simp del]

definition pipewrite :: "(int \<Rightarrow> bool) \<Rightarrow> (int \<Rightarrow> byte option) \<Rightarrow> int \<Rightarrow> pipe \<Rightarrow> progress \<times> chan list \<times> pipe" where
  "pipewrite is_killed copyin n p = pipewrite_from is_killed copyin 0 n p"

text \<open>The second loop of \<open>piperead\<close>: what it returns, what it stored, and the pipe.\<close>

function piperead_copy :: "(int \<Rightarrow> bool) \<Rightarrow> int \<Rightarrow> int \<Rightarrow> pipe \<Rightarrow> int \<times> byte list \<times> pipe" where
  "piperead_copy copyout i n p =
     (if i < n then
        (if pi_nread p = pi_nwrite p then (i, [], p)
         else if \<not> copyout i then (if i = 0 then -1 else i, [], p)
         else let (ch, p1) = get_byte p; (r, bs, p2) = piperead_copy copyout (i + 1) n p1 in (r, ch # bs, p2))
      else (i, [], p))"
  by pat_completeness auto

termination by (relation "measure (\<lambda>(c, i, n, p). nat (n - i))") auto

declare piperead_copy.simps [simp del]

definition piperead :: "bool \<Rightarrow> (int \<Rightarrow> bool) \<Rightarrow> int \<Rightarrow> pipe \<Rightarrow> progress \<times> byte list \<times> chan list \<times> pipe" where
  "piperead is_killed copyout n p =
     (if pi_nread p = pi_nwrite p \<and> pi_writeopen p then
        (if is_killed then (Done (-1), [], [], p) else (Asleep 0, [], [], p))
      else let (r, bs, p') = piperead_copy copyout 0 n p in (Done r, bs, [NWRITE], p'))"

section \<open>The ring is a bounded queue\<close>

definition pipe_len :: "pipe \<Rightarrow> nat" where
  "pipe_len p = unat (pi_nwrite p - pi_nread p)"

definition pipe_contents :: "pipe \<Rightarrow> byte list" where
  "pipe_contents p = map (\<lambda>k. pi_data p ! ((unat (pi_nread p) + k) mod PIPESIZE)) [0..<pipe_len p]"

definition pipe_inv :: "pipe \<Rightarrow> bool" where
  "pipe_inv p \<longleftrightarrow> length (pi_data p) = PIPESIZE \<and> pipe_len p \<le> PIPESIZE"

lemma length_pipe_contents [simp]: "length (pipe_contents p) = pipe_len p"
  by (simp add: pipe_contents_def)

text \<open>The counters wrap at a multiple of the ring's size, so positions are not disturbed.\<close>

lemma unat_add_mod: "unat (a + of_nat k :: u32) mod PIPESIZE = (unat a + k) mod PIPESIZE"
proof -
  have "unat (a + of_nat k) = (unat a + k) mod 4294967296"
    by (simp add: unat_word_ariths unat_of_nat mod_simps)
  then show ?thesis by (simp add: mod_mod_cancel)
qed

lemma unat_u32: "n < 4294967296 \<Longrightarrow> unat (of_nat n :: u32) = n"
  by (simp add: unat_of_nat)

lemma nwrite_eq: "pi_nwrite p = pi_nread p + of_nat (pipe_len p)"
  by (simp add: pipe_len_def)

lemma len_put: "pipe_len p < PIPESIZE \<Longrightarrow> pipe_len (put_byte ch p) = Suc (pipe_len p)"
proof -
  assume len: "pipe_len p < PIPESIZE"
  have "pi_nwrite (put_byte ch p) - pi_nread (put_byte ch p) = of_nat (Suc (pipe_len p))"
    using nwrite_eq [of p] by (simp add: put_byte_def algebra_simps)
  then have "pipe_len (put_byte ch p) = unat (of_nat (Suc (pipe_len p)) :: u32)"
    by (simp only: pipe_len_def)
  also have "\<dots> = Suc (pipe_len p)" by (rule unat_u32) (use len in simp)
  finally show ?thesis .
qed

lemma len_get: "0 < pipe_len p \<Longrightarrow> pipe_len (snd (get_byte p)) = pipe_len p - 1"
proof -
  assume "0 < pipe_len p"
  then have "pi_nwrite p - pi_nread p \<noteq> 0" by (auto simp: pipe_len_def)
  then have "unat (pi_nwrite p - pi_nread p - 1) = unat (pi_nwrite p - pi_nread p) - 1"
    by (rule unat_minus_one)
  then show ?thesis by (simp add: pipe_len_def get_byte_def algebra_simps)
qed

lemma empty_iff: "pi_nread p = pi_nwrite p \<longleftrightarrow> pipe_len p = 0"
  by (auto simp: pipe_len_def unat_eq_0)

lemma full_iff: "pipe_inv p \<Longrightarrow> pi_nwrite p = pi_nread p + of_nat PIPESIZE \<longleftrightarrow> pipe_len p = PIPESIZE"
proof -
  assume inv: "pipe_inv p"
  have "pi_nwrite p = pi_nread p + of_nat PIPESIZE \<longleftrightarrow> (of_nat (pipe_len p) :: u32) = of_nat PIPESIZE"
    unfolding nwrite_eq by simp
  also have "\<dots> \<longleftrightarrow> pipe_len p = PIPESIZE"
    unfolding word_unat_eq_iff using inv by (subst (1 2) unat_u32) (auto simp: pipe_inv_def)
  finally show ?thesis .
qed

interpretation ring: bounded_queue pipe_inv pipe_contents PIPESIZE put_byte get_byte
proof
  fix p ch
  assume inv: "pipe_inv p" and room: "length (pipe_contents p) < PIPESIZE"
  then have len: "pipe_len (put_byte ch p) = Suc (pipe_len p)" by (simp add: len_put)
  then show "pipe_inv (put_byte ch p)" using inv room by (simp add: pipe_inv_def put_byte_def)
  have w: "unat (pi_nwrite p) mod PIPESIZE = (unat (pi_nread p) + pipe_len p) mod PIPESIZE"
    using unat_add_mod [of "pi_nread p" "pipe_len p"] nwrite_eq [of p] by simp
  have ne: "(r + k) mod PIPESIZE \<noteq> (r + l) mod PIPESIZE" if "k < l" "l < PIPESIZE" for r k l :: nat
  proof
    assume "(r + k) mod PIPESIZE = (r + l) mod PIPESIZE"
    then have "PIPESIZE dvd (r + l) - (r + k)" using that mod_eq_dvd_iff_nat [of "r + k" "r + l" PIPESIZE] by simp
    with that show False by (auto dest: dvd_imp_le)
  qed
  show "pipe_contents (put_byte ch p) = pipe_contents p @ [ch]"
  proof (rule nth_equalityI)
    show "length (pipe_contents (put_byte ch p)) = length (pipe_contents p @ [ch])" using len by simp
    fix k assume "k < length (pipe_contents (put_byte ch p))"
    then have k: "k \<le> pipe_len p" using len by simp
    have "pipe_contents (put_byte ch p) ! k = (pi_data p)[unat (pi_nwrite p) mod PIPESIZE := ch] ! ((unat (pi_nread p) + k) mod PIPESIZE)"
      unfolding pipe_contents_def len using k by (simp add: put_byte_def del: upt_Suc)
    also have "\<dots> = (pipe_contents p @ [ch]) ! k"
    proof (cases "k = pipe_len p")
      case True
      then show ?thesis using inv w by (simp add: nth_append pipe_inv_def)
    next
      case False
      then have "k < pipe_len p" using k by simp
      then have "(unat (pi_nread p) + k) mod PIPESIZE \<noteq> unat (pi_nwrite p) mod PIPESIZE"
        unfolding w using room by (intro ne) auto
      then show ?thesis using \<open>k < pipe_len p\<close> by (simp add: nth_append pipe_contents_def nth_list_update_neq)
    qed
    finally show "pipe_contents (put_byte ch p) ! k = (pipe_contents p @ [ch]) ! k" .
  qed
next
  fix p
  assume inv: "pipe_inv p" and "pipe_contents p \<noteq> []"
  then have pos: "0 < pipe_len p" by (metis length_pipe_contents length_greater_0_conv)
  note len = len_get [OF pos]
  have "length (pi_data (snd (get_byte p))) = length (pi_data p)" by (simp add: get_byte_def)
  moreover have "pipe_len (snd (get_byte p)) \<le> pipe_len p" unfolding len by simp
  ultimately show "pipe_inv (snd (get_byte p))" using inv unfolding pipe_inv_def by linarith
  have r: "unat (pi_nread p + 1) mod PIPESIZE = (unat (pi_nread p) + 1) mod PIPESIZE"
    using unat_add_mod [of "pi_nread p" 1] by simp
  have shift: "(unat (pi_nread p + 1) + k) mod PIPESIZE = (unat (pi_nread p) + Suc k) mod PIPESIZE" for k
    using mod_add_cong [OF r, of k k] by simp
  obtain n where n: "pipe_len p = Suc n" using pos by (cases "pipe_len p") auto
  have "pipe_contents p = pi_data p ! (unat (pi_nread p) mod PIPESIZE)
      # map (\<lambda>k. pi_data p ! ((unat (pi_nread p) + Suc k) mod PIPESIZE)) [0..<n]"
    unfolding pipe_contents_def n by (simp add: map_upt_Suc del: upt_Suc)
  also have "map (\<lambda>k. pi_data p ! ((unat (pi_nread p) + Suc k) mod PIPESIZE)) [0..<n] = pipe_contents (snd (get_byte p))"
    unfolding pipe_contents_def len n using shift by (simp add: get_byte_def)
  finally show "pipe_contents p = fst (get_byte p) # pipe_contents (snd (get_byte p))" by (simp add: get_byte_def)
qed

section \<open>Writing and reading\<close>

lemma put_byte_open [simp]: "pi_readopen (put_byte ch p) = pi_readopen p" "pi_writeopen (put_byte ch p) = pi_writeopen p"
  by (simp_all add: put_byte_def)

text \<open>
  A stretch of \<open>pipewrite\<close> appends the next bytes of the caller's buffer and stops for a reason: the
  ring is full, the bytes or the readable memory ran out, or the writing has become pointless.
\<close>

definition write_stops :: "(int \<Rightarrow> bool) \<Rightarrow> (int \<Rightarrow> byte option) \<Rightarrow> int \<Rightarrow> int \<Rightarrow> pipe \<Rightarrow> progress \<Rightarrow> chan list \<Rightarrow> bool" where
  "write_stops kd src j n p' st w \<longleftrightarrow>
     st = Asleep j \<and> w = [NREAD] \<and> j < n \<and> pipe_len p' = PIPESIZE \<and> pi_readopen p'
   \<or> st = Done j \<and> w = [NREAD] \<and> (n \<le> j \<or> src j = None)
   \<or> st = Done (-1) \<and> w = [] \<and> j < n \<and> (\<not> pi_readopen p' \<or> kd j)"

lemma pipewrite_from_spec:
  assumes "pipe_inv p" "pipewrite_from kd src i n p = (st, w, p')"
  shows "\<exists>m. pipe_inv p' \<and> pipe_contents p' = pipe_contents p @ map (\<lambda>k. the (src (i + int k))) [0..<m]
      \<and> pi_nread p' = pi_nread p \<and> pi_nwrite p' = pi_nwrite p + of_nat m
      \<and> pi_readopen p' = pi_readopen p \<and> pi_writeopen p' = pi_writeopen p
      \<and> (\<forall>k < m. src (i + int k) \<noteq> None \<and> \<not> kd (i + int k))
      \<and> (0 < m \<longrightarrow> pi_readopen p) \<and> write_stops kd src (i + int m) n p' st w"
  using assms
proof (induction kd src i n p arbitrary: st w p' rule: pipewrite_from.induct)
  case (1 kd src i n p)
  note simps = pipewrite_from.simps [of kd src i n p]
  show ?case
  proof (cases "i < n \<and> pi_readopen p \<and> \<not> kd i \<and> pi_nwrite p \<noteq> pi_nread p + of_nat PIPESIZE \<and> src i \<noteq> None")
    case False
    then show ?thesis using 1(2,3) simps full_iff [OF 1(2)]
      by (intro exI [of _ 0]) (auto simp: write_stops_def split: if_splits option.splits)
  next
    case True
    then obtain ch where ch: "src i = Some ch" by blast
    have room: "length (pipe_contents p) < PIPESIZE" using True full_iff [OF 1(2)] 1(2) by (auto simp: pipe_inv_def)
    note put = ring.put_inv [OF 1(2) room, of ch] ring.put_contents [OF 1(2) room, of ch]
    have step: "pipewrite_from kd src (i + 1) n (put_byte ch p) = (st, w, p')" using 1(3) True ch simps by simp
    have "\<exists>m. pipe_inv p' \<and> pipe_contents p' = pipe_contents (put_byte ch p) @ map (\<lambda>k. the (src (i + 1 + int k))) [0..<m]
      \<and> pi_nread p' = pi_nread (put_byte ch p) \<and> pi_nwrite p' = pi_nwrite (put_byte ch p) + of_nat m
      \<and> pi_readopen p' = pi_readopen (put_byte ch p) \<and> pi_writeopen p' = pi_writeopen (put_byte ch p)
      \<and> (\<forall>k < m. src (i + 1 + int k) \<noteq> None \<and> \<not> kd (i + 1 + int k))
      \<and> (0 < m \<longrightarrow> pi_readopen (put_byte ch p)) \<and> write_stops kd src (i + 1 + int m) n p' st w"
      by (rule 1(1) [OF _ _ _ ch put(1) step]) (use True in auto)
    then obtain m where m: "pipe_inv p'" "pipe_contents p' = pipe_contents (put_byte ch p) @ map (\<lambda>k. the (src (i + 1 + int k))) [0..<m]"
      "pi_nread p' = pi_nread (put_byte ch p)" "pi_nwrite p' = pi_nwrite (put_byte ch p) + of_nat m"
      "pi_readopen p' = pi_readopen p" "pi_writeopen p' = pi_writeopen p"
      "\<forall>k < m. src (i + 1 + int k) \<noteq> None \<and> \<not> kd (i + 1 + int k)"
      "write_stops kd src (i + 1 + int m) n p' st w" by auto
    have "pipe_contents p' = pipe_contents p @ map (\<lambda>k. the (src (i + int k))) [0..<Suc m]"
      unfolding m(2) put(2) using ch by (simp add: map_upt_Suc add.assoc del: upt_Suc)
    moreover have "\<forall>k < Suc m. src (i + int k) \<noteq> None \<and> \<not> kd (i + int k)"
      using m(7) ch True by (auto simp: less_Suc_eq_0_disj add.assoc)
    ultimately show ?thesis using m(1,3-6,8) True
      by (intro exI [of _ "Suc m"]) (simp add: put_byte_def add.assoc)
  qed
qed

lemma piperead_copy_nonneg: "0 < i \<Longrightarrow> 0 \<le> fst (piperead_copy out i n p)"
proof (induction out i n p rule: piperead_copy.induct)
  case (1 out i n p)
  then show ?case by (subst piperead_copy.simps) (auto simp: Let_def split: prod.splits)
qed

lemma piperead_copy_spec:
  assumes "pipe_inv p" "piperead_copy out i n p = (r, bs, p')" "0 \<le> i"
  shows "pipe_inv p' \<and> pipe_contents p = bs @ pipe_contents p' \<and> int (length bs) \<le> max 0 (n - i)
     \<and> (r = i + int (length bs) \<or> r = -1 \<and> bs = [])
     \<and> ((\<forall>k. out k) \<longrightarrow> r = i + int (length bs) \<and> (pipe_len p' = 0 \<or> n \<le> i + int (length bs)))"
  using assms
proof (induction out i n p arbitrary: r bs p' rule: piperead_copy.induct)
  case (1 out i n p)
  note simps = piperead_copy.simps [of out i n p]
  show ?case
  proof (cases "i < n \<and> pi_nread p \<noteq> pi_nwrite p \<and> out i")
    case False
    then show ?thesis using 1(2-4) simps empty_iff [of p] by (auto split: if_splits)
  next
    case True
    then have ne: "pipe_contents p \<noteq> []" using empty_iff [of p] by (metis length_pipe_contents list.size(3))
    obtain ch p1 where g: "get_byte p = (ch, p1)" by fastforce
    have p1: "pipe_inv p1" "pipe_contents p = ch # pipe_contents p1"
      using ring.get_inv [OF 1(2) ne] ring.get_contents [OF 1(2) ne] g by simp_all
    obtain bs' where step: "piperead_copy out (i + 1) n p1 = (r, bs', p')" "bs = ch # bs'"
      using 1(3) True g simps by (auto split: prod.splits)
    have "pipe_inv p' \<and> pipe_contents p1 = bs' @ pipe_contents p' \<and> int (length bs') \<le> max 0 (n - (i + 1))
     \<and> (r = i + 1 + int (length bs') \<or> r = -1 \<and> bs' = [])
     \<and> ((\<forall>k. out k) \<longrightarrow> r = i + 1 + int (length bs') \<and> (pipe_len p' = 0 \<or> n \<le> i + 1 + int (length bs')))"
      by (rule 1(1) [OF _ _ _ g [symmetric] refl p1(1) step(1)]) (use True 1(4) in auto)
    moreover have "r \<noteq> -1"
      using step(1) 1(4) piperead_copy_nonneg [of "i + 1" out n p1] by simp
    ultimately show ?thesis using p1(2) step(2) True by auto
  qed
qed

section \<open>A pipe in use\<close>

text \<open>
  The pipe with its users, one stretch of a system call after the other: whether a reader sleeps
  on \<open>&pi->nread\<close> and a writer on \<open>&pi->nwrite\<close>, and all bytes that writers put in and readers took out.
  A writer may be killed between any two bytes of a stretch (\<open>kd\<close> is asked on every turn). \<open>ru_cut\<close>
  records that one has left with -1 after it had put bytes in and nobody has woken the readers since.
\<close>

record pipe_run =
  ru_pipe :: pipe
  ru_reader_asleep :: bool
  ru_writer_asleep :: bool
  ru_written :: "byte list"
  ru_read :: "byte list"
  ru_cut :: bool

definition taken :: "(int \<Rightarrow> byte option) \<Rightarrow> int \<Rightarrow> pipe \<Rightarrow> pipe \<Rightarrow> byte list" where
  "taken src i p p' = map (\<lambda>k. the (src (i + int k))) [0..<unat (pi_nwrite p' - pi_nwrite p)]"

inductive pipe_step :: "pipe_run \<Rightarrow> pipe_run \<Rightarrow> bool" where
  writes: "\<lbrakk>pi_writeopen (ru_pipe s); 0 \<le> i; pipewrite_from kd src i n (ru_pipe s) = (st, w, p')\<rbrakk> \<Longrightarrow>
    pipe_step s \<lparr>ru_pipe = p', ru_reader_asleep = (ru_reader_asleep s \<and> NREAD \<notin> set w),
      ru_writer_asleep = (ru_writer_asleep s \<and> NWRITE \<notin> set w \<or> (\<exists>j. st = Asleep j)),
      ru_written = ru_written s @ taken src i (ru_pipe s) p', ru_read = ru_read s,
      ru_cut = (ru_cut s \<and> NREAD \<notin> set w \<or> st = Done (-1) \<and> taken src i (ru_pipe s) p' \<noteq> [])\<rparr>"
| reads: "\<lbrakk>pi_readopen (ru_pipe s); piperead kd out n (ru_pipe s) = (st, bs, w, p')\<rbrakk> \<Longrightarrow>
    pipe_step s \<lparr>ru_pipe = p', ru_reader_asleep = (ru_reader_asleep s \<and> NREAD \<notin> set w \<or> (\<exists>j. st = Asleep j)),
      ru_writer_asleep = (ru_writer_asleep s \<and> NWRITE \<notin> set w),
      ru_written = ru_written s, ru_read = ru_read s @ bs, ru_cut = (ru_cut s \<and> NREAD \<notin> set w)\<rparr>"
| closes: "\<lbrakk>if wr then pi_writeopen (ru_pipe s) else pi_readopen (ru_pipe s); pipeclose wr (ru_pipe s) = (gone, w, p')\<rbrakk> \<Longrightarrow>
    pipe_step s (s\<lparr>ru_pipe := p', ru_reader_asleep := ru_reader_asleep s \<and> NREAD \<notin> set w,
      ru_writer_asleep := ru_writer_asleep s \<and> NWRITE \<notin> set w, ru_cut := ru_cut s \<and> NREAD \<notin> set w\<rparr>)"

inductive_cases pipe_stepE: "pipe_step s t"

definition fresh_pipe :: "pipe_run \<Rightarrow> bool" where
  "fresh_pipe s \<longleftrightarrow> (\<exists>junk. ru_pipe s = pipealloc junk) \<and> \<not> ru_reader_asleep s \<and> \<not> ru_writer_asleep s
     \<and> ru_written s = [] \<and> ru_read s = [] \<and> \<not> ru_cut s"

definition pipe_run_inv :: "pipe_run \<Rightarrow> bool" where
  "pipe_run_inv s \<longleftrightarrow> pipe_inv (ru_pipe s) \<and> ru_written s = ru_read s @ pipe_contents (ru_pipe s)
     \<and> (ru_reader_asleep s \<longrightarrow> (pipe_contents (ru_pipe s) = [] \<or> ru_cut s) \<and> pi_writeopen (ru_pipe s))
     \<and> (ru_writer_asleep s \<longrightarrow> length (pipe_contents (ru_pipe s)) = PIPESIZE \<and> pi_readopen (ru_pipe s))"

lemma pipealloc_inv: "pipe_inv (pipealloc junk)" "pipe_contents (pipealloc junk) = []"
  by (simp_all add: pipe_inv_def pipealloc_def pipe_len_def pipe_contents_def)

lemma taken_all:
  "pi_nwrite p' = pi_nwrite p + of_nat m \<Longrightarrow> m \<le> PIPESIZE \<Longrightarrow>
   taken src i p p' = map (\<lambda>k. the (src (i + int k))) [0..<m]"
  by (simp add: taken_def unat_u32)

lemma write_keeps:
  assumes "pipe_run_inv s" "0 \<le> i" "pipewrite_from kd src i n (ru_pipe s) = (st, w, p')"
  shows "pipe_run_inv \<lparr>ru_pipe = p', ru_reader_asleep = (ru_reader_asleep s \<and> NREAD \<notin> set w),
      ru_writer_asleep = (ru_writer_asleep s \<and> NWRITE \<notin> set w \<or> (\<exists>j. st = Asleep j)),
      ru_written = ru_written s @ taken src i (ru_pipe s) p', ru_read = ru_read s,
      ru_cut = (ru_cut s \<and> NREAD \<notin> set w \<or> st = Done (-1) \<and> taken src i (ru_pipe s) p' \<noteq> [])\<rparr>"
proof -
  let ?p = "ru_pipe s"
  have inv: "pipe_inv ?p" "ru_written s = ru_read s @ pipe_contents ?p"
    "ru_reader_asleep s \<Longrightarrow> (pipe_contents ?p = [] \<or> ru_cut s) \<and> pi_writeopen ?p"
    "ru_writer_asleep s \<Longrightarrow> length (pipe_contents ?p) = PIPESIZE \<and> pi_readopen ?p"
    using assms(1) by (auto simp: pipe_run_inv_def)
  obtain m where m: "pipe_inv p'" "pipe_contents p' = pipe_contents ?p @ map (\<lambda>k. the (src (i + int k))) [0..<m]"
    "pi_nwrite p' = pi_nwrite ?p + of_nat m" "pi_readopen p' = pi_readopen ?p" "pi_writeopen p' = pi_writeopen ?p"
    "\<forall>k < m. src (i + int k) \<noteq> None \<and> \<not> kd (i + int k)" "0 < m \<longrightarrow> pi_readopen ?p" "write_stops kd src (i + int m) n p' st w"
    using pipewrite_from_spec [OF inv(1) assms(3)] by blast
  have le: "length (pipe_contents ?p) + m \<le> PIPESIZE"
    using m(1) arg_cong [OF m(2), of length] by (simp add: pipe_inv_def)
  then have tk: "taken src i ?p p' = map (\<lambda>k. the (src (i + int k))) [0..<m]"
    by (intro taken_all m(3)) simp
  have asleep: "NREAD \<notin> set w \<Longrightarrow> st = Done (-1)"
    using m(8) by (auto simp: write_stops_def)
  have full: "(ru_writer_asleep s \<and> NWRITE \<notin> set w \<or> (\<exists>j. st = Asleep j)) \<Longrightarrow> length (pipe_contents p') = PIPESIZE \<and> pi_readopen p'"
    using inv(4) le m(4,8) arg_cong [OF m(2), of length] by (auto simp: write_stops_def)
  show ?thesis
    unfolding pipe_run_inv_def using m(1,2,5) inv(2,3) tk asleep full by (cases m) auto
qed

lemma piperead_copy_writeopen:
  "piperead_copy out i n p = (r, bs, p') \<Longrightarrow> pi_writeopen p' = pi_writeopen p"
proof (induction out i n p arbitrary: r bs p' rule: piperead_copy.induct)
  case (1 out i n p)
  show ?case
  proof (cases "i < n \<and> pi_nread p \<noteq> pi_nwrite p \<and> out i")
    case False
    then show ?thesis using 1(2) piperead_copy.simps [of out i n p] by (auto split: if_splits)
  next
    case True
    obtain ch p1 where g: "get_byte p = (ch, p1)" by fastforce
    then have same: "pi_writeopen p1 = pi_writeopen p" by (auto simp: get_byte_def)
    obtain bs' where step: "piperead_copy out (i + 1) n p1 = (r, bs', p')"
      using 1(2) True g piperead_copy.simps [of out i n p] by (auto split: prod.splits)
    have "pi_writeopen p' = pi_writeopen p1"
      by (rule 1(1) [OF _ _ _ g [symmetric] refl step]) (use True in auto)
    then show ?thesis using same by simp
  qed
qed

lemma read_keeps:
  assumes "pipe_run_inv s" "piperead kd out n (ru_pipe s) = (st, bs, w, p')"
  shows "pipe_run_inv \<lparr>ru_pipe = p', ru_reader_asleep = (ru_reader_asleep s \<and> NREAD \<notin> set w \<or> (\<exists>j. st = Asleep j)),
      ru_writer_asleep = (ru_writer_asleep s \<and> NWRITE \<notin> set w),
      ru_written = ru_written s, ru_read = ru_read s @ bs, ru_cut = (ru_cut s \<and> NREAD \<notin> set w)\<rparr>"
proof (cases "pi_nread (ru_pipe s) = pi_nwrite (ru_pipe s) \<and> pi_writeopen (ru_pipe s)")
  case True
  then have "pipe_contents (ru_pipe s) = []" using empty_iff [of "ru_pipe s"] by (simp add: pipe_contents_def)
  with True show ?thesis using assms by (auto simp: pipe_run_inv_def piperead_def split: if_splits)
next
  case False
  obtain r where c: "piperead_copy out 0 n (ru_pipe s) = (r, bs, p')" "st = Done r" "w = [NWRITE]"
    using assms(2) False by (auto simp: piperead_def split: prod.splits)
  have inv: "pipe_inv (ru_pipe s)" using assms(1) by (simp add: pipe_run_inv_def)
  have "pi_writeopen p' = pi_writeopen (ru_pipe s)" by (rule piperead_copy_writeopen [OF c(1)])
  then show ?thesis using piperead_copy_spec [OF inv c(1)] c(2,3) assms(1) by (auto simp: pipe_run_inv_def)
qed

lemma close_keeps:
  "pipe_run_inv s \<Longrightarrow> pipeclose wr (ru_pipe s) = (gone, w, p') \<Longrightarrow>
   pipe_run_inv (s\<lparr>ru_pipe := p', ru_reader_asleep := ru_reader_asleep s \<and> NREAD \<notin> set w,
      ru_writer_asleep := ru_writer_asleep s \<and> NWRITE \<notin> set w, ru_cut := ru_cut s \<and> NREAD \<notin> set w\<rparr>)"
  by (auto simp: pipe_run_inv_def pipeclose_def pipe_inv_def pipe_contents_def pipe_len_def split: if_splits)

interpretation piping: invariant_system fresh_pipe pipe_step pipe_run_inv
proof
  show "pipe_run_inv s" if "fresh_pipe s" for s
    using that by (auto simp: fresh_pipe_def pipe_run_inv_def pipealloc_inv)
  show "pipe_run_inv t" if "pipe_run_inv s" "pipe_step s t" for s t
    using that(2) by (cases rule: pipe_step.cases) (auto intro: write_keeps read_keeps close_keeps that(1))
qed

text \<open>
  C8: A pipe loses no byte, and no wake-up but in one case. Whatever readers and writers do, wherever
  their calls sleep and whenever they are killed, between two bytes of a write as well: what has been
  read is a prefix of what has been written and the rest is in the ring, in order. A writer only
  sleeps while the pipe is full and can still be read. A reader only sleeps while the pipe can still be
  written and is empty, or else the last writer has been killed in the middle of its bytes and left
  without waking anybody (\<open>ru_cut\<close>); any write that ends otherwise wakes the readers again.
\<close>

theorem pipe_fifo:
  assumes "fresh_pipe s" "rtranclp pipe_step s t"
  shows "ru_written t = ru_read t @ pipe_contents (ru_pipe t) \<and> length (pipe_contents (ru_pipe t)) \<le> PIPESIZE
     \<and> (ru_reader_asleep t \<longrightarrow> (pipe_contents (ru_pipe t) = [] \<or> ru_cut t) \<and> pi_writeopen (ru_pipe t))
     \<and> (ru_writer_asleep t \<longrightarrow> length (pipe_contents (ru_pipe t)) = PIPESIZE \<and> pi_readopen (ru_pipe t))"
  using piping.reachable_inv [OF assms] by (auto simp: pipe_run_inv_def pipe_inv_def)

definition run0 :: pipe_run where
  "run0 = \<lparr>ru_pipe = pipealloc [], ru_reader_asleep = False, ru_writer_asleep = False, ru_written = [], ru_read = [],
     ru_cut = False\<rparr>"

definition bytes79 :: "int \<Rightarrow> byte option" where
  "bytes79 i = (if i = 0 then Some 7 else if i = 1 then Some 9 else None)"

text \<open>A reader falls asleep on the empty pipe, a writer puts two bytes in and wakes it.\<close>

definition run1 :: pipe_run where
  "run1 = run0\<lparr>ru_reader_asleep := True\<rparr>"

definition run2 :: pipe_run where
  "run2 = \<lparr>ru_pipe = put_byte 9 (put_byte 7 (pipealloc [])), ru_reader_asleep = False, ru_writer_asleep = False,
     ru_written = [7, 9], ru_read = [], ru_cut = False\<rparr>"

lemma open_fresh [simp]: "pi_readopen (pipealloc j)" "pi_writeopen (pipealloc j)"
  by (simp_all add: pipealloc_def)

lemma run01: "pipe_step run0 run1"
proof -
  have "piperead False (\<lambda>_. True) 2 (ru_pipe run0) = (Asleep 0, [], [], ru_pipe run0)"
    by (simp add: piperead_def run0_def pipealloc_def)
  from pipe_step.reads [OF _ this] show ?thesis by (simp add: run0_def run1_def)
qed

lemma run12: "pipe_step run1 run2"
proof -
  have "pipewrite_from (\<lambda>_. False) bytes79 0 2 (ru_pipe run1) = (Done 2, [NREAD], ru_pipe run2)"
  proof -
    note step = pipewrite_from.simps [of "\<lambda>_. False" bytes79]
    have "pipewrite_from (\<lambda>_. False) bytes79 0 2 (pipealloc [])
        = pipewrite_from (\<lambda>_. False) bytes79 1 2 (put_byte 7 (pipealloc []))"
      by (subst step) (simp add: bytes79_def pipealloc_def)
    also have "\<dots> = pipewrite_from (\<lambda>_. False) bytes79 2 2 (put_byte 9 (put_byte 7 (pipealloc [])))"
      by (subst step) (simp add: bytes79_def pipealloc_def put_byte_def)
    also have "\<dots> = (Done 2, [NREAD], put_byte 9 (put_byte 7 (pipealloc [])))"
      by (subst step) simp
    finally show ?thesis by (simp add: run0_def run1_def run2_def)
  qed
  moreover have "taken bytes79 0 (ru_pipe run1) (ru_pipe run2) = [7, 9]"
    by (subst taken_all [of _ _ 2])
      (simp_all add: run1_def run0_def run2_def put_byte_def pipealloc_def bytes79_def numeral_2_eq_2)
  ultimately show ?thesis using pipe_step.writes [of run1 0 "\<lambda>_. False" bytes79 2 "Done 2" "[NREAD]" "ru_pipe run2"]
    by (simp add: run1_def run0_def run2_def)
qed

theorem pipe_fifo_witness:
  "ru_written run2 = ru_read run2 @ pipe_contents (ru_pipe run2) \<and> pipe_contents (ru_pipe run2) = [7, 9]"
proof -
  have "fresh_pipe run0" by (auto simp: fresh_pipe_def run0_def)
  moreover have "rtranclp pipe_step run0 run2" using run01 run12 by auto
  ultimately show ?thesis using pipe_fifo [of run0 run2] by (simp add: run2_def)
qed

text \<open>
  A writer that is killed between two bytes leaves without waking the readers: \<open>pipewrite\<close> returns
  -1 with a byte in the ring and no \<open>wakeup(&pi->nread)\<close>, so a reader that sleeps on the pipe keeps
  sleeping although there is something to read.
\<close>

theorem killed_writer_wakes_nobody:
  assumes "pipe_inv p" "pipe_contents p = []" "pi_readopen p" "1 < n" "src 0 = Some ch"
  shows "\<exists>p'. pipewrite (\<lambda>i. i = 1) src n p = (Done (-1), [], p') \<and> pipe_contents p' = [ch]"
proof -
  have "pi_nwrite p \<noteq> pi_nread p + of_nat PIPESIZE"
    using full_iff [OF assms(1)] arg_cong [OF assms(2), of length] by auto
  then have "pipewrite (\<lambda>i. i = 1) src n p = (Done (-1), [], put_byte ch p)"
    unfolding pipewrite_def using assms(3-5)
    by (subst pipewrite_from.simps, simp, subst pipewrite_from.simps, simp)
  then show ?thesis using ring.put_contents [OF assms(1), of ch] assms(2) by simp
qed

theorem killed_writer_wakes_nobody_witness:
  "\<exists>p'. pipewrite (\<lambda>i. i = 1) bytes79 2 (pipealloc []) = (Done (-1), [], p') \<and> pipe_contents p' = [7]"
  by (rule killed_writer_wakes_nobody) (simp_all add: pipealloc_inv bytes79_def)

end
