(* ===== verification/Shell.thy ===== *)
theory Shell
  imports Interfaces
begin

text \<open>
  The shell of the xv6 user land, \<open>user/sh.c\<close>: the tokenizer, the recursive-descent parser, the
  termination of the words by zeros in the line buffer, and the execution of a command tree. A pointer
  into the line is the rest of the line from there on, so \<open>es\<close> is the empty rest and \<open>*es\<close> is the
  terminating zero. The recursion of the parser carries fuel; \<open>parsecmd\<close> gives it enough for every line.
\<close>

section \<open>Command trees\<close>

type_synonym ptr = string

abbreviation NUL :: char where "NUL \<equiv> CHR 0x00"

abbreviation O_RDONLY :: int where "O_RDONLY \<equiv> 0"
abbreviation O_WRONLY :: int where "O_WRONLY \<equiv> 1"
abbreviation O_CREATE :: int where "O_CREATE \<equiv> 512"
abbreviation O_TRUNC :: int where "O_TRUNC \<equiv> 1024"

text \<open>The arguments of \<open>EXEC\<close> are the pairs \<open>(argv[i], eargv[i])\<close> up to the null pointer.\<close>

datatype cmd =
    EXEC "(ptr \<times> ptr) list"
  | REDIR cmd ptr ptr int int
  | PIPE cmd cmd
  | LIST cmd cmd
  | BACK cmd

abbreviation MAXARGS :: nat where "MAXARGS \<equiv> 10"

section \<open>Tokens\<close>

definition whitespace :: string where
  "whitespace = [CHR '' '', CHR 0x09, CHR 0x0D, CHR 0x0A, CHR 0x0B]"

definition symbols :: string where
  "symbols = ''<|>&;()''"

definition is_space :: "char \<Rightarrow> bool" where
  "is_space c \<longleftrightarrow> c \<in> set whitespace"

definition is_word_char :: "char \<Rightarrow> bool" where
  "is_word_char c \<longleftrightarrow> c \<notin> set whitespace \<and> c \<notin> set symbols"

definition skip_space :: "ptr \<Rightarrow> ptr" where
  "skip_space s = dropWhile is_space s"

text \<open>The token's kind, where it starts, where it ends, and where the next one starts.\<close>

definition scan_token :: "ptr \<Rightarrow> char \<times> ptr" where
  "scan_token s =
     (case s of
        [] \<Rightarrow> (NUL, [])
      | c # t \<Rightarrow>
          if c = NUL then (NUL, s)
          else if c \<in> set ''|();&<'' then (c, t)
          else if c = CHR ''>'' then
            (case t of [] \<Rightarrow> (c, t) | d # u \<Rightarrow> if d = CHR ''>'' then (CHR ''+'', u) else (c, t))
          else (CHR ''a'', dropWhile is_word_char s))"

definition gettoken :: "ptr \<Rightarrow> char \<times> ptr \<times> ptr \<times> ptr" where
  "gettoken ps = (let q = skip_space ps; (ret, eq) = scan_token q in (ret, q, eq, skip_space eq))"

definition peek :: "string \<Rightarrow> ptr \<Rightarrow> bool \<times> ptr" where
  "peek toks ps =
     (let s = skip_space ps in (case s of [] \<Rightarrow> False | c # _ \<Rightarrow> c \<noteq> NUL \<and> c \<in> set toks, s))"

text \<open>The rest after a token that is only skipped.\<close>

definition next_token :: "ptr \<Rightarrow> ptr" where
  "next_token s = snd (snd (snd (gettoken s)))"

section \<open>The parser\<close>

datatype 'a parse = Parsed 'a ptr | Syntax string | NoFuel

primrec and_then :: "'a parse \<Rightarrow> ('a \<Rightarrow> ptr \<Rightarrow> 'b parse) \<Rightarrow> 'b parse" where
  "and_then (Parsed x s) f = f x s"
| "and_then (Syntax msg) f = Syntax msg"
| "and_then NoFuel f = NoFuel"

lemma skip_space_len: "length (skip_space s) \<le> length s"
  by (simp add: skip_space_def length_dropWhile_le)

lemma skip_space_idem [simp]: "skip_space (skip_space s) = skip_space s"
  by (simp add: skip_space_def)

lemma scan_token_len: "length (snd (scan_token s)) \<le> length s"
  by (auto simp: scan_token_def length_dropWhile_le le_SucI split: list.splits)

lemma scan_token_less: "s \<noteq> [] \<Longrightarrow> hd s \<noteq> NUL \<Longrightarrow> \<not> is_space (hd s) \<Longrightarrow> length (snd (scan_token s)) < length s"
  by (cases s) (auto simp: scan_token_def is_word_char_def is_space_def symbols_def less_Suc_eq_le length_dropWhile_le
      split: list.splits)

lemma gettoken_len: "length (next_token s) \<le> length s"
proof -
  have "length (next_token s) \<le> length (snd (scan_token (skip_space s)))"
    by (simp add: next_token_def gettoken_def Let_def skip_space_len split: prod.splits)
  also have "\<dots> \<le> length (skip_space s)" by (rule scan_token_len)
  also have "\<dots> \<le> length s" by (rule skip_space_len)
  finally show ?thesis .
qed

lemma hd_skip_space: "skip_space s \<noteq> [] \<Longrightarrow> \<not> is_space (hd (skip_space s))"
  by (simp add: skip_space_def hd_dropWhile)

lemma gettoken_less:
  assumes "skip_space s \<noteq> []" "hd (skip_space s) \<noteq> NUL"
  shows "length (next_token s) < length s"
proof -
  have "length (next_token s) \<le> length (snd (scan_token (skip_space s)))"
    by (simp add: next_token_def gettoken_def Let_def skip_space_len split: prod.splits)
  also have "\<dots> < length (skip_space s)" using assms hd_skip_space [OF assms(1)] by (rule scan_token_less)
  also have "\<dots> \<le> length s" by (rule skip_space_len)
  finally show ?thesis .
qed

lemma peek_less: "fst (peek toks s) \<Longrightarrow> length (next_token (snd (peek toks s))) < length s"
  using gettoken_less [of "skip_space s"] skip_space_len [of s]
  by (auto simp: peek_def Let_def split: list.splits)

lemma peek_len: "length (snd (peek toks s)) \<le> length s"
  by (simp add: peek_def Let_def skip_space_len)

text \<open>The loop on \<open>&\<close> in \<open>parseline\<close>.\<close>

function parse_backs :: "cmd \<Rightarrow> ptr \<Rightarrow> cmd \<times> ptr" where
  "parse_backs cmd ps =
     (if fst (peek ''&'' ps) then parse_backs (BACK cmd) (next_token (snd (peek ''&'' ps)))
      else (cmd, snd (peek ''&'' ps)))"
  by pat_completeness auto

termination by (relation "measure (\<lambda>(c, s). length s)") (auto intro: peek_less)

declare parse_backs.simps [simp del]

definition redir_mode :: "char \<Rightarrow> int \<times> int" where
  "redir_mode tok =
     (if tok = CHR ''<'' then (O_RDONLY, 0)
      else if tok = CHR ''>'' then (O_WRONLY + O_CREATE + O_TRUNC, 1)
      else (O_WRONLY + O_CREATE, 1))"

text \<open>
  \<open>parseredirs\<close> wraps the command once per redirection. As \<open>parseexec\<close> goes on filling the command
  inside, the wrapping is what is returned: the list of the redirections, the outermost last.
\<close>

type_synonym redir = "ptr \<times> ptr \<times> int \<times> int"

definition wrap :: "cmd \<Rightarrow> redir list \<Rightarrow> cmd" where
  "wrap cmd rs = foldl (\<lambda>c (q, eq, mode, fd). REDIR c q eq mode fd) cmd rs"

lemma gettoken_next: "gettoken s = (t, q, eq, r) \<Longrightarrow> r = next_token s"
  by (simp add: next_token_def)

function parseredirs :: "ptr \<Rightarrow> redir list parse" where
  "parseredirs ps =
     (if fst (peek ''<>'' ps) then
        (let (tok, _, _, s1) = gettoken (snd (peek ''<>'' ps)); (tok2, q, eq, s2) = gettoken s1 in
         if tok2 \<noteq> CHR ''a'' then Syntax ''missing file for redirection''
         else and_then (parseredirs s2) (\<lambda>rs s3. Parsed ((q, eq, redir_mode tok) # rs) s3))
      else Parsed [] (snd (peek ''<>'' ps)))"
  by pat_completeness auto

termination
proof (relation "measure length", goal_cases)
  case (2 ps x xa y xb ya xc yb x2 yc y2 yd y3 ye s2)
  then have "s2 = next_token (next_token (snd (peek ''<>'' ps)))"
    by (metis Pair_inject gettoken_next)
  with peek_less [OF 2(1)] gettoken_len [of "next_token (snd (peek ''<>'' ps))"] show ?case by simp
qed simp

declare parseredirs.simps [simp del]

lemma and_then_Parsed: "and_then p f = Parsed y t \<longleftrightarrow> (\<exists>x s. p = Parsed x s \<and> f x s = Parsed y t)"
  by (cases p) auto

lemma parseredirs_len: "parseredirs ps = Parsed rs s \<Longrightarrow> length s \<le> length ps"
proof (induction ps arbitrary: rs s rule: parseredirs.induct)
  case (1 ps)
  obtain tok q1 eq1 s1 where g1: "gettoken (snd (peek ''<>'' ps)) = (tok, q1, eq1, s1)" by (metis prod_cases4)
  obtain tok2 q eq s2 where g2: "gettoken s1 = (tok2, q, eq, s2)" by (metis prod_cases4)
  show ?case
  proof (cases "fst (peek ''<>'' ps)")
    case True
    then obtain rs' where "tok2 = CHR ''a''" "parseredirs s2 = Parsed rs' s"
      using 1(2) g1 g2 by (subst (asm) parseredirs.simps) (auto simp: and_then_Parsed split: if_splits)
    then have "length s \<le> length s2" using 1(1) [OF True g1 [symmetric] refl refl refl g2 [symmetric] refl refl] by simp
    then show ?thesis
      using peek_less [OF True] gettoken_len [of s1] gettoken_next [OF g1] gettoken_next [OF g2] by simp
  next
    case False
    then show ?thesis using 1(2) peek_len [of "''<>''" ps] by (subst (asm) parseredirs.simps) auto
  qed
qed

lemma and_then_cong [fundef_cong]:
  "p = q \<Longrightarrow> (\<And>x s. q = Parsed x s \<Longrightarrow> f x s = g x s) \<Longrightarrow> and_then p f = and_then q g"
  by (cases q) auto

text \<open>The loop of \<open>parseexec\<close>: the arguments from number \<open>argc\<close> on, and the redirections between them.\<close>

function parse_args :: "nat \<Rightarrow> ptr \<Rightarrow> ((ptr \<times> ptr) list \<times> redir list) parse" where
  "parse_args argc ps =
     (let (stop, s) = peek ''|)&;'' ps in
      if stop then Parsed ([], []) s
      else let (tok, q, eq, s1) = gettoken s in
        if tok = NUL then Parsed ([], []) s1
        else if tok \<noteq> CHR ''a'' then Syntax ''syntax''
        else if Suc argc \<ge> MAXARGS then Syntax ''too many args''
        else and_then (parseredirs s1) (\<lambda>rs s2.
               and_then (parse_args (Suc argc) s2) (\<lambda>(args, rs') s3. Parsed ((q, eq) # args, rs @ rs') s3)))"
  by pat_completeness auto

termination by (relation "measure (\<lambda>(argc, _). MAXARGS - argc)") auto

declare parse_args.simps [simp del]

fun parseline :: "nat \<Rightarrow> ptr \<Rightarrow> cmd parse"
and parsepipe :: "nat \<Rightarrow> ptr \<Rightarrow> cmd parse"
and parseblock :: "nat \<Rightarrow> ptr \<Rightarrow> cmd parse"
and parseexec :: "nat \<Rightarrow> ptr \<Rightarrow> cmd parse" where
  "parseline 0 ps = NoFuel"
| "parseline (Suc n) ps =
     and_then (parsepipe n ps) (\<lambda>cmd s.
       let (cmd, s1) = parse_backs cmd s; (semi, s2) = peek '';'' s1 in
       if semi then and_then (parseline n (next_token s2)) (\<lambda>right s3. Parsed (LIST cmd right) s3)
       else Parsed cmd s2)"
| "parsepipe 0 ps = NoFuel"
| "parsepipe (Suc n) ps =
     and_then (parseexec n ps) (\<lambda>cmd s.
       let (bar, s1) = peek ''|'' s in
       if bar then and_then (parsepipe n (next_token s1)) (\<lambda>right s2. Parsed (PIPE cmd right) s2)
       else Parsed cmd s1)"
| "parseblock 0 ps = NoFuel"
| "parseblock (Suc n) ps =
     (let (opening, s) = peek ''('' ps in
      if \<not> opening then Syntax ''parseblock''
      else and_then (parseline n (next_token s)) (\<lambda>cmd s1.
        let (closing, s2) = peek '')'' s1 in
        if \<not> closing then Syntax ''syntax - missing )''
        else and_then (parseredirs (next_token s2)) (\<lambda>rs s3. Parsed (wrap cmd rs) s3)))"
| "parseexec 0 ps = NoFuel"
| "parseexec (Suc n) ps =
     (let (opening, s) = peek ''('' ps in
      if opening then parseblock n s
      else and_then (parseredirs s) (\<lambda>rs s1.
        and_then (parse_args 0 s1) (\<lambda>(args, rs') s2. Parsed (wrap (EXEC args) (rs @ rs')) s2)))"

section \<open>Terminating the words\<close>

text \<open>Where a pointer points to in the buffer that holds the line and its terminating zero.\<close>

definition offset :: "string \<Rightarrow> ptr \<Rightarrow> nat" where
  "offset line p = length line - length p"

definition poke :: "string \<Rightarrow> ptr \<Rightarrow> string \<Rightarrow> string" where
  "poke line p buf = buf[offset line p := NUL]"

primrec nulterminate :: "string \<Rightarrow> cmd \<Rightarrow> string \<Rightarrow> string" where
  "nulterminate line (EXEC args) buf = fold (\<lambda>(q, eq). poke line eq) args buf"
| "nulterminate line (REDIR c q eq mode fd) buf = poke line eq (nulterminate line c buf)"
| "nulterminate line (PIPE l r) buf = nulterminate line r (nulterminate line l buf)"
| "nulterminate line (LIST l r) buf = nulterminate line r (nulterminate line l buf)"
| "nulterminate line (BACK c) buf = nulterminate line c buf"

text \<open>The C string at a pointer.\<close>

definition word_at :: "string \<Rightarrow> string \<Rightarrow> ptr \<Rightarrow> string" where
  "word_at line buf q = takeWhile (\<lambda>c. c \<noteq> NUL) (drop (offset line q) buf)"

text \<open>\<open>parsecmd\<close> gives the tree and the buffer the tree points into.\<close>

definition parsecmd :: "string \<Rightarrow> (cmd \<times> string) parse" where
  "parsecmd line =
     and_then (parseline (4 * length line + 4) line) (\<lambda>cmd s.
       let s1 = snd (peek [] s) in
       if s1 \<noteq> [] then Syntax ''syntax'' else Parsed (cmd, nulterminate line cmd (line @ [NUL])) s1)"

section \<open>Running a command\<close>

text \<open>
  A descriptor table has \<open>NOFILE = 16\<close> slots; \<open>open\<close>, \<open>dup\<close> and \<open>pipe\<close> take the lowest free one. What
  \<open>open\<close> finds under a name is an argument. \<open>runcmd\<close> gives what becomes of every process it leads to,
  the forked children before the process itself: it executes a program with its arguments and
  descriptors, or exits. Pipes are numbered from \<open>n\<close> on. \<open>fork\<close> is taken to succeed.
\<close>

datatype 'f fobj = OpenFile 'f | PipeRead nat | PipeWrite nat

type_synonym 'f fds = "'f fobj option list"

datatype 'f leaf = Execs "string list" "'f fds" | Exits int string

definition fd_open :: "'f fobj \<Rightarrow> 'f fds \<Rightarrow> (nat \<times> 'f fds) option" where
  "fd_open x fds = (case first_index (\<lambda>e. e = None) fds of None \<Rightarrow> None | Some i \<Rightarrow> Some (i, fds[i := Some x]))"

definition fd_close :: "nat \<Rightarrow> 'f fds \<Rightarrow> 'f fds" where
  "fd_close i fds = fds[i := None]"

definition fd_dup :: "nat \<Rightarrow> 'f fds \<Rightarrow> 'f fds" where
  "fd_dup i fds =
     (if i < length fds then case fds ! i of
        None \<Rightarrow> fds
      | Some x \<Rightarrow> (case fd_open x fds of None \<Rightarrow> fds | Some (_, fds') \<Rightarrow> fds')
      else fds)"

definition fd_pipe :: "nat \<Rightarrow> 'f fds \<Rightarrow> (nat \<times> nat \<times> 'f fds) option" where
  "fd_pipe n fds =
     (case fd_open (PipeRead n) fds of None \<Rightarrow> None | Some (p0, fds1) \<Rightarrow>
        (case fd_open (PipeWrite n) fds1 of None \<Rightarrow> None | Some (p1, fds2) \<Rightarrow> Some (p0, p1, fds2)))"

primrec runcmd :: "(string \<Rightarrow> int \<Rightarrow> 'f option) \<Rightarrow> (ptr \<Rightarrow> string) \<Rightarrow> cmd \<Rightarrow> 'f fds \<Rightarrow> nat \<Rightarrow> 'f leaf list \<times> nat" where
  "runcmd openf str (EXEC args) fds n =
     (if args = [] then ([Exits 1 []], n) else ([Execs (map (\<lambda>(q, _). str q) args) fds], n))"
| "runcmd openf str (REDIR c q eq mode fd) fds n =
     (case openf (str q) mode of
        None \<Rightarrow> ([Exits 1 (''open '' @ str q @ '' failed'')], n)
      | Some f \<Rightarrow>
         (case fd_open (OpenFile f) (fd_close (nat fd) fds) of
            None \<Rightarrow> ([Exits 1 (''open '' @ str q @ '' failed'')], n)
          | Some (_, fds1) \<Rightarrow> runcmd openf str c fds1 n))"
| "runcmd openf str (LIST l r) fds n =
     (let (ps, n1) = runcmd openf str l fds n; (qs, n2) = runcmd openf str r fds n1 in (ps @ qs, n2))"
| "runcmd openf str (PIPE l r) fds n =
     (case fd_pipe n fds of
        None \<Rightarrow> ([Exits 1 ''pipe''], n)
      | Some (p0, p1, fds1) \<Rightarrow>
         (let lfds = fd_close p1 (fd_close p0 (fd_dup p1 (fd_close 1 fds1)));
              rfds = fd_close p1 (fd_close p0 (fd_dup p0 (fd_close 0 fds1)));
              (ps, n1) = runcmd openf str l lfds (Suc n);
              (qs, n2) = runcmd openf str r rfds n1
          in (ps @ qs @ [Exits 0 []], n2)))"
| "runcmd openf str (BACK c) fds n =
     (let (ps, n1) = runcmd openf str c fds n in (ps @ [Exits 0 []], n1))"

section \<open>The main loop\<close>

text \<open>\<open>gets\<close> of \<open>user/ulib.c\<close> on the input that is still to come: the line it stores and what is left.\<close>

fun gets :: "nat \<Rightarrow> string \<Rightarrow> string \<times> string" where
  "gets (Suc (Suc n)) (c # cs) =
     (if c = CHR 0x0A \<or> c = CHR 0x0D then ([c], cs)
      else let (line, rest) = gets (Suc n) cs in (c # line, rest))"
| "gets m cs = ([], cs)"

definition getcmd :: "nat \<Rightarrow> string \<Rightarrow> (string \<times> string) option" where
  "getcmd nbuf input =
     (let (line, rest) = gets nbuf input; str = takeWhile (\<lambda>c. c \<noteq> NUL) line in
      if str = [] then None else Some (str, rest))"

datatype action = Blank | Chdir string | Run "(cmd \<times> string) parse"

definition sh_line :: "string \<Rightarrow> action" where
  "sh_line buf =
     (let cmd = dropWhile (\<lambda>c. c = CHR '' '' \<or> c = CHR 0x09) buf in
      if take 1 cmd = [CHR 0x0A] then Blank
      else if take 3 cmd = ''cd '' then Chdir (drop 3 (butlast cmd))
      else Run (parsecmd cmd))"

lemma fd_open_less:
  "fd_open x fds = Some (i, fds') \<Longrightarrow> length (filter (\<lambda>e. e = None) fds') < length (filter (\<lambda>e. e = None) fds)"
proof -
  assume "fd_open x fds = Some (i, fds')"
  then have i: "i < length fds" "fds ! i = None" "fds' = fds[i := Some x]"
    by (auto simp: fd_open_def first_index_Some split: option.splits)
  let ?P = "\<lambda>e. e = None"
  have "fds = take i fds @ None # drop (Suc i) fds"
    using id_take_nth_drop [OF i(1)] i(2) by simp
  then have "length (filter ?P fds) = length (filter ?P (take i fds @ None # drop (Suc i) fds))"
    by (rule arg_cong)
  moreover have "length (filter ?P fds') = length (filter ?P (take i fds @ Some x # drop (Suc i) fds))"
    using i by (simp add: upd_conv_take_nth_drop)
  ultimately show ?thesis by simp
qed

text \<open>The loop that makes sure that three descriptors are open.\<close>

function open_console :: "'f \<Rightarrow> 'f fds \<Rightarrow> 'f fds" where
  "open_console con fds =
     (case fd_open (OpenFile con) fds of
        None \<Rightarrow> fds
      | Some (fd, fds1) \<Rightarrow> if fd \<ge> 3 then fd_close fd fds1 else open_console con fds1)"
  by pat_completeness auto

termination
  by (relation "measure (\<lambda>(con, fds). length (filter (\<lambda>e. e = None) fds))") (auto intro: fd_open_less)

declare open_console.simps [simp del]

lemma gets_len:
  "length (snd (gets m cs)) \<le> length cs \<and> (fst (gets m cs) \<noteq> [] \<longrightarrow> length (snd (gets m cs)) < length cs)"
  by (induction m cs rule: gets.induct) (auto split: prod.splits)

function sh_main :: "string \<Rightarrow> action list" where
  "sh_main input =
     (case getcmd 100 input of None \<Rightarrow> [] | Some (line, rest) \<Rightarrow> sh_line line # sh_main rest)"
  by pat_completeness auto

termination
proof (relation "measure length", goal_cases)
  case (2 input x line rest)
  then have "fst (gets 100 input) \<noteq> [] \<and> rest = snd (gets 100 input)"
    by (auto simp: getcmd_def Let_def split: if_splits prod.splits)
  then show ?case using gets_len [of 100 input] by simp
qed simp

declare sh_main.simps [simp del]

end
