(* ===== verification/Shell_Theorems.thy ===== *)
theory Shell_Theorems
  imports Shell "HOL-Library.Sublist"
begin

text \<open>
  The parser returns on every line; it reads back every command tree that is printed with
  parentheses; the words of the tree survive the zeros that are written into the line; and a
  pipeline is wired as it should be.
\<close>

section \<open>Where the tokens of a tree are\<close>

primrec tokens :: "cmd \<Rightarrow> (ptr \<times> ptr) list" where
  "tokens (EXEC args) = args"
| "tokens (REDIR c q eq mode fd) = tokens c @ [(q, eq)]"
| "tokens (PIPE l r) = tokens l @ tokens r"
| "tokens (LIST l r) = tokens l @ tokens r"
| "tokens (BACK c) = tokens c"

text \<open>A token is a stretch of word characters of the line, as long as possible and not empty.\<close>

definition token_ok :: "string \<Rightarrow> ptr \<times> ptr \<Rightarrow> bool" where
  "token_ok line t \<longleftrightarrow> suffix (fst t) line \<and> snd t = dropWhile is_word_char (fst t) \<and> snd t \<noteq> fst t"

definition tokens_ok :: "string \<Rightarrow> (ptr \<times> ptr) list \<Rightarrow> bool" where
  "tokens_ok line ts \<longleftrightarrow> (\<forall>t \<in> set ts. token_ok line t)"

lemma tokens_ok_simps [simp]:
  "tokens_ok line []"
  "tokens_ok line (t # ts) \<longleftrightarrow> token_ok line t \<and> tokens_ok line ts"
  "tokens_ok line (ts @ us) \<longleftrightarrow> tokens_ok line ts \<and> tokens_ok line us"
  by (auto simp: tokens_ok_def)

lemma token_ok_mono: "token_ok s t \<Longrightarrow> suffix s line \<Longrightarrow> token_ok line t"
  by (auto simp: token_ok_def intro: suffix_order.trans)

lemma tokens_ok_mono: "tokens_ok s ts \<Longrightarrow> suffix s line \<Longrightarrow> tokens_ok line ts"
  by (auto simp: tokens_ok_def intro: token_ok_mono)

lemma suffix_skip: "suffix (skip_space s) s"
  by (simp add: skip_space_def suffix_dropWhile)

lemma suffix_scan: "suffix (snd (scan_token s)) s"
  by (auto simp: scan_token_def suffix_ConsI suffix_dropWhile split: list.splits)

lemma suffix_next: "suffix (next_token s) s"
  using suffix_skip [of s] suffix_skip [of "snd (scan_token (skip_space s))"] suffix_scan [of "skip_space s"]
  by (auto simp: next_token_def gettoken_def Let_def split: prod.splits intro: suffix_order.trans)

lemma suffix_peek: "suffix (snd (peek toks s)) s"
  by (simp add: peek_def Let_def suffix_skip)

lemma gettoken_word:
  assumes "gettoken ps = (CHR ''a'', q, eq, s)"
  shows "token_ok ps (q, eq)"
proof -
  from assms have q: "q = skip_space ps" and scan: "scan_token q = (CHR ''a'', eq)"
    by (auto simp: gettoken_def Let_def split: prod.splits)
  obtain c t where ct: "q = c # t" using scan by (cases q) (auto simp: scan_token_def)
  then have "\<not> is_space c" using hd_skip_space [of ps] q by simp
  with scan ct have w: "is_word_char c" "eq = dropWhile is_word_char t"
    by (auto simp: scan_token_def is_word_char_def is_space_def symbols_def split: if_splits list.splits)
  then have "length eq < length q" using ct by (simp add: less_Suc_eq_le length_dropWhile_le)
  then show ?thesis using w ct suffix_skip [of ps] q by (auto simp: token_ok_def)
qed

definition redir_tokens :: "redir list \<Rightarrow> (ptr \<times> ptr) list" where
  "redir_tokens rs = map (\<lambda>r. (fst r, fst (snd r))) rs"

lemma redir_tokens_simps [simp]:
  "redir_tokens [] = []"
  "redir_tokens ((q, eq, m) # rs) = (q, eq) # redir_tokens rs"
  "redir_tokens (rs @ rs') = redir_tokens rs @ redir_tokens rs'"
  by (simp_all add: redir_tokens_def)

lemma tokens_wrap: "tokens (wrap c rs) = tokens c @ redir_tokens rs"
  unfolding wrap_def by (induction rs arbitrary: c) (auto split: prod.splits)

lemma parse_backs_ok: "parse_backs c s = (c', s') \<Longrightarrow> suffix s' s \<and> tokens c' = tokens c"
proof (induction c s arbitrary: c' s' rule: parse_backs.induct)
  case (1 c s)
  show ?case
  proof (cases "fst (peek ''&'' s)")
    case True
    then show ?thesis
      using 1(1) [OF True, of c' s'] 1(2) suffix_next [of "snd (peek ''&'' s)"] suffix_peek [of "''&''" s]
      by (simp add: parse_backs.simps [of c s]) (meson suffix_order.trans)
  next
    case False
    then show ?thesis using 1(2) suffix_peek [of "''&''" s] by (auto simp: parse_backs.simps [of c s])
  qed
qed

lemma parseredirs_ok:
  "parseredirs ps = Parsed rs s \<Longrightarrow> suffix s ps \<and> tokens_ok ps (redir_tokens rs)"
proof (induction ps arbitrary: rs s rule: parseredirs.induct)
  case (1 ps)
  obtain tok q1 eq1 s1 where g1: "gettoken (snd (peek ''<>'' ps)) = (tok, q1, eq1, s1)" by (metis prod_cases4)
  obtain tok2 q eq s2 where g2: "gettoken s1 = (tok2, q, eq, s2)" by (metis prod_cases4)
  show ?case
  proof (cases "fst (peek ''<>'' ps)")
    case True
    obtain m fd where mode: "redir_mode tok = (m, fd)" by fastforce
    have a: "tok2 = CHR ''a''"
      using 1(2) True g1 g2 by (auto simp: parseredirs.simps [of ps] split: if_splits)
    then obtain rs' where r: "parseredirs s2 = Parsed rs' s" "rs = (q, eq, m, fd) # rs'"
      using 1(2) True g1 g2 mode by (auto simp: parseredirs.simps [of ps] and_then_Parsed)
    have s1: "suffix s1 ps" "suffix s2 s1"
      using suffix_next [of "snd (peek ''<>'' ps)"] suffix_peek [of "''<>''" ps] suffix_next [of s1]
        gettoken_next [OF g1] gettoken_next [OF g2] by (auto intro: suffix_order.trans)
    have "suffix s s2 \<and> tokens_ok s2 (redir_tokens rs')"
      using 1(1) [OF True g1 [symmetric] refl refl refl g2 [symmetric] refl refl] a r(1) by simp
    then show ?thesis
      using s1 r(2) gettoken_word [of s1 q eq s2] g2 a
      by (auto intro: suffix_order.trans token_ok_mono tokens_ok_mono)
  next
    case False
    then show ?thesis using 1(2) suffix_peek [of "''<>''" ps] by (auto simp: parseredirs.simps [of ps])
  qed
qed

lemma parse_args_ok:
  "parse_args argc ps = Parsed (as, rs) s \<Longrightarrow>
   suffix s ps \<and> tokens_ok ps as \<and> tokens_ok ps (redir_tokens rs)"
proof (induction argc ps arbitrary: as rs s rule: parse_args.induct)
  case (1 argc ps)
  obtain stop s0 where p: "peek ''|)&;'' ps = (stop, s0)" by fastforce
  obtain tok q eq s1 where g: "gettoken s0 = (tok, q, eq, s1)" by (metis prod_cases4)
  have suf: "suffix s0 ps" "suffix s1 ps"
    using suffix_peek [of "''|)&;''" ps] suffix_next [of s0] gettoken_next [OF g] p
    by (auto intro: suffix_order.trans)
  consider "stop" | "\<not> stop" "tok = NUL" | "\<not> stop" "tok = CHR ''a''" "Suc argc < MAXARGS"
    using 1(2) p g by (auto simp: parse_args.simps [of argc ps] split: if_splits)
  then show ?case
  proof cases
    case 3
    obtain rs1 s2 as2 rs2 where r: "parseredirs s1 = Parsed rs1 s2" "parse_args (Suc argc) s2 = Parsed (as2, rs2) s"
        "as = (q, eq) # as2" "rs = rs1 @ rs2"
      using 1(2) p g 3 by (auto simp: parse_args.simps [of argc ps] and_then_Parsed)
    have "suffix s s2 \<and> tokens_ok s2 as2 \<and> tokens_ok s2 (redir_tokens rs2)"
      using 1(1) [OF p [symmetric] refl 3(1) g [symmetric] refl refl refl _ _ _ r(1,2)] 3 by auto
    then show ?thesis
      using suf r(3,4) parseredirs_ok [OF r(1)] gettoken_word [of s0 q eq s1] g 3(2)
      by (auto intro: suffix_order.trans token_ok_mono tokens_ok_mono)
  qed (use 1(2) p g suf in \<open>auto simp: parse_args.simps [of argc ps]\<close>)
qed

lemma parse_ok:
  "parseline n ps = Parsed c s \<Longrightarrow> suffix s ps \<and> tokens_ok ps (tokens c)"
  "parsepipe n ps = Parsed c s \<Longrightarrow> suffix s ps \<and> tokens_ok ps (tokens c)"
  "parseblock n ps = Parsed c s \<Longrightarrow> suffix s ps \<and> tokens_ok ps (tokens c)"
  "parseexec n ps = Parsed c s \<Longrightarrow> suffix s ps \<and> tokens_ok ps (tokens c)"
proof (induction n ps and n ps and n ps and n ps arbitrary: c s and c s and c s and c s
    rule: parseline_parsepipe_parseblock_parseexec.induct)
  case (2 n ps)
  then obtain c1 s1 where s1: "parsepipe n ps = Parsed c1 s1" by (auto simp: and_then_Parsed)
  obtain c2 s2 where s2: "parse_backs c1 s1 = (c2, s2)" by fastforce
  obtain semi s3 where s3: "peek '';'' s2 = (semi, s3)" by fastforce
  have l: "suffix s1 ps \<and> tokens_ok ps (tokens c1)" "suffix s2 s1 \<and> tokens c2 = tokens c1" "suffix s3 s2"
    using 2(1) [OF s1] parse_backs_ok [OF s2] suffix_peek [of "'';''" s2] s3 by auto
  show ?case
  proof (cases semi)
    case True
    then obtain r where "parseline n (next_token s3) = Parsed r s" "c = LIST c2 r"
      using 2(3) s1 s2 s3 by (auto simp: and_then_Parsed)
    with 2(2) [OF s1 refl s2 [symmetric] refl s3 [symmetric] True this(1)] show ?thesis
      using l suffix_next [of s3] by (auto intro: suffix_order.trans tokens_ok_mono)
  next
    case False
    then show ?thesis using 2(3) s1 s2 s3 l by (auto intro: suffix_order.trans)
  qed
next
  case (4 n ps)
  then obtain c1 s1 where s1: "parseexec n ps = Parsed c1 s1" by (auto simp: and_then_Parsed)
  obtain bar s3 where s3: "peek ''|'' s1 = (bar, s3)" by fastforce
  have l: "suffix s1 ps \<and> tokens_ok ps (tokens c1)" "suffix s3 s1"
    using 4(1) [OF s1] suffix_peek [of "''|''" s1] s3 by auto
  show ?case
  proof (cases bar)
    case True
    then obtain r where "parsepipe n (next_token s3) = Parsed r s" "c = PIPE c1 r"
      using 4(3) s1 s3 by (auto simp: and_then_Parsed)
    with 4(2) [OF s1 refl s3 [symmetric] True this(1)] show ?thesis
      using l suffix_next [of s3] by (auto intro: suffix_order.trans tokens_ok_mono)
  next
    case False
    then show ?thesis using 4(3) s1 s3 l by (auto intro: suffix_order.trans)
  qed
next
  case (6 n ps)
  obtain op s0 where s0: "peek ''('' ps = (op, s0)" by fastforce
  from 6(2) s0 have op by (auto split: if_splits)
  with 6(2) s0 obtain c1 s1 where p: "parseline n (next_token s0) = Parsed c1 s1"
    by (auto simp: and_then_Parsed)
  obtain cl s2 where s2: "peek '')'' s1 = (cl, s2)" by fastforce
  with 6(2) s0 \<open>op\<close> p obtain rs where r: "parseredirs (next_token s2) = Parsed rs s" "c = wrap c1 rs"
    by (auto simp: and_then_Parsed split: if_splits)
  have "\<not> \<not> op" using \<open>op\<close> by simp
  from 6(1) [OF refl s0 [symmetric] this p] show ?case
    using suffix_peek [of "''(''" ps] s0 suffix_next [of s0] suffix_peek [of "'')''" s1] s2 suffix_next [of s2]
      parseredirs_ok [OF r(1)] r(2)
    by (auto simp: tokens_wrap intro: suffix_order.trans tokens_ok_mono)
next
  case (8 n ps)
  obtain op s0 where s0: "peek ''('' ps = (op, s0)" by fastforce
  have l: "suffix s0 ps" using suffix_peek [of "''(''" ps] s0 by simp
  show ?case
  proof (cases op)
    case True
    with 8(2) s0 have "parseblock n s0 = Parsed c s" by simp
    from 8(1) [OF refl s0 [symmetric] True this] show ?thesis using l by (auto intro: suffix_order.trans tokens_ok_mono)
  next
    case False
    with 8(2) s0 obtain rs s1 as rs2 where r: "parseredirs s0 = Parsed rs s1" "parse_args 0 s1 = Parsed (as, rs2) s"
      "c = wrap (EXEC as) (rs @ rs2)"
      by (auto simp: and_then_Parsed)
    show ?thesis using l parseredirs_ok [OF r(1)] parse_args_ok [OF r(2)]
      by (auto simp: r(3) tokens_wrap intro: suffix_order.trans tokens_ok_mono)
  qed
qed simp_all

section \<open>The parser has fuel enough\<close>

lemma parse_len:
  "parseline n ps = Parsed c s \<Longrightarrow> length s \<le> length ps"
  "parsepipe n ps = Parsed c s \<Longrightarrow> length s \<le> length ps"
  "parseexec n ps = Parsed c s \<Longrightarrow> length s \<le> length ps"
  using parse_ok(1,2,4) suffix_length_le by blast+

lemma parse_backs_len: "length (snd (parse_backs c s)) \<le> length s"
  using parse_backs_ok [of c s] suffix_length_le by (cases "parse_backs c s") auto

lemma and_then_fuel: "and_then p f \<noteq> NoFuel \<longleftrightarrow> p \<noteq> NoFuel \<and> (\<forall>x s. p = Parsed x s \<longrightarrow> f x s \<noteq> NoFuel)"
  by (cases p) auto

lemma parseredirs_fuel: "parseredirs ps \<noteq> NoFuel"
proof (induction ps rule: parseredirs.induct)
  case (1 ps)
  then show ?case
    by (subst parseredirs.simps) (auto simp: and_then_fuel split: prod.splits)
qed

lemma parse_args_fuel: "parse_args argc ps \<noteq> NoFuel"
proof (induction argc ps rule: parse_args.induct)
  case (1 argc ps)
  then show ?case
    by (subst parse_args.simps) (auto simp: and_then_fuel parseredirs_fuel split: prod.splits)
qed

lemma parse_fuel:
  "4 * length ps + 4 \<le> n \<Longrightarrow> parseline n ps \<noteq> NoFuel"
  "4 * length ps + 3 \<le> n \<Longrightarrow> parsepipe n ps \<noteq> NoFuel"
  "4 * length ps + 1 \<le> n \<Longrightarrow> parseblock n ps \<noteq> NoFuel"
  "4 * length ps + 2 \<le> n \<Longrightarrow> parseexec n ps \<noteq> NoFuel"
proof (induction n ps and n ps and n ps and n ps rule: parseline_parsepipe_parseblock_parseexec.induct)
  case (2 n ps)
  have "parsepipe n ps \<noteq> NoFuel" using 2 by simp
  moreover have "parseline n (next_token s3) \<noteq> NoFuel"
    if s: "parsepipe n ps = Parsed c1 s1" "parse_backs c1 s1 = (c2, s2)" "peek '';'' s2 = (True, s3)" for c1 s1 c2 s2 s3
  proof (rule 2(2) [OF s(1) refl s(2) [symmetric] refl s(3) [symmetric] TrueI])
    show "4 * length (next_token s3) + 4 \<le> n"
      using peek_less [of "'';''" s2] parse_len(2) [OF s(1)] parse_backs_len [of c1 s1] s 2(3) by auto
  qed
  ultimately show ?case by (auto simp: and_then_fuel split: prod.splits)
next
  case (4 n ps)
  have "parseexec n ps \<noteq> NoFuel" using 4 by simp
  moreover have "parsepipe n (next_token s3) \<noteq> NoFuel"
    if s: "parseexec n ps = Parsed c1 s1" "peek ''|'' s1 = (True, s3)" for c1 s1 s3
  proof (rule 4(2) [OF s(1) refl s(2) [symmetric] TrueI])
    show "4 * length (next_token s3) + 3 \<le> n"
      using peek_less [of "''|''" s1] parse_len(3) [OF s(1)] s 4(3) by auto
  qed
  ultimately show ?case by (auto simp: and_then_fuel split: prod.splits)
next
  case (6 n ps)
  have "parseline n (next_token s0) \<noteq> NoFuel" if s: "peek ''('' ps = (True, s0)" for s0
  proof (rule 6(1) [OF refl s [symmetric]])
    show "4 * length (next_token s0) + 4 \<le> n" using peek_less [of "''(''" ps] s 6(2) by auto
  qed simp
  then show ?case by (auto simp: and_then_fuel parseredirs_fuel split: prod.splits)
next
  case (8 n ps)
  have "parseblock n s0 \<noteq> NoFuel" if s: "peek ''('' ps = (True, s0)" for s0
  proof (rule 8(1) [OF refl s [symmetric] TrueI])
    show "4 * length s0 + 1 \<le> n" using peek_len [of "''(''" ps] s 8(2) by simp
  qed
  then show ?case by (auto simp: and_then_fuel parseredirs_fuel parse_args_fuel split: prod.splits)
qed simp_all

text \<open>
  C36: the parser returns on every line: its recursion consumes the line, so the fuel is never used up
  and the outcome is a command tree or one of the syntax errors of the code.
\<close>

theorem parsecmd_returns:
  "(\<exists>c buf. parsecmd line = Parsed (c, buf) []) \<or>
   (\<exists>msg. parsecmd line = Syntax msg)"
proof -
  have "parseline (4 * length line + 4) line \<noteq> NoFuel" by (rule parse_fuel) simp
  then show ?thesis
    by (cases "parseline (4 * length line + 4) line") (auto simp: parsecmd_def Let_def)
qed

section \<open>The words survive the zeros\<close>

lemma nulterminate_tokens: "nulterminate line c buf = fold (\<lambda>(q, eq). poke line eq) (tokens c) buf"
  by (induction c arbitrary: buf) simp_all

lemma poke_length [simp]: "length (poke line p buf) = length buf"
  by (simp add: poke_def)

lemma pokes_length [simp]: "length (fold (\<lambda>(q, eq). poke line eq) ts buf) = length buf"
  by (induction ts arbitrary: buf) auto

lemma pokes_nth:
  "k < length buf \<Longrightarrow> fold (\<lambda>(q, eq). poke line eq) ts buf ! k =
     (if k \<in> offset line ` snd ` set ts then NUL else buf ! k)"
proof (induction ts arbitrary: buf)
  case (Cons t ts)
  then show ?case
    by (cases t) (auto simp: poke_def nth_list_update)
qed simp

lemma offset_suffix: "suffix p line \<Longrightarrow> drop (offset line p) line = p \<and> offset line p \<le> length line"
  by (auto simp: suffix_def offset_def)

lemma offset_append: "suffix (w @ p) line \<Longrightarrow> offset line p = offset line (w @ p) + length w"
  by (auto simp: suffix_def offset_def)

text \<open>Behind a token there is a character that no token contains.\<close>

lemma token_end: "token_ok line (q, eq) \<Longrightarrow> offset line eq < length line \<Longrightarrow> \<not> is_word_char (line ! offset line eq)"
proof -
  assume ok: "token_ok line (q, eq)" and lt: "offset line eq < length line"
  then have suf: "suffix eq line" and eq: "eq = dropWhile is_word_char q"
    by (auto simp: token_ok_def intro: suffix_order.trans suffix_dropWhile)
  have "eq \<noteq> []" using lt by (auto simp: offset_def)
  moreover have "hd eq = line ! offset line eq"
    using hd_drop_conv_nth [OF lt] offset_suffix [OF suf] by simp
  ultimately show ?thesis using hd_dropWhile [of is_word_char q] eq by simp
qed

lemma nul_words:
  assumes "parsecmd line = Parsed (c, buf) s" "NUL \<notin> set line" "(q, eq) \<in> set (tokens c)"
  shows "word_at line buf q = takeWhile is_word_char q \<and> word_at line buf q \<noteq> []"
proof -
  obtain s1 where p: "parseline (4 * length line + 4) line = Parsed c s1"
    and buf: "buf = fold (\<lambda>(q, eq). poke line eq) (tokens c) (line @ [NUL])"
    using assms(1) by (auto simp: parsecmd_def Let_def and_then_Parsed nulterminate_tokens split: if_splits)
  have ok: "\<forall>t \<in> set (tokens c). token_ok line t" using parse_ok(1) [OF p] by (simp add: tokens_ok_def)
  define w where "w = takeWhile is_word_char q"
  have tok: "suffix q line" "eq = dropWhile is_word_char q" "eq \<noteq> q"
    using ok assms(3) by (auto simp: token_ok_def)
  have qw: "q = w @ eq" unfolding w_def tok(2) by simp
  have "w \<noteq> []" using tok(3) qw by (metis append_Nil)
  note q = tok(1) qw this
  have eq: "offset line eq = offset line q + length w" using offset_append [of w eq line] q by simp
  have at: "line ! (offset line q + k) = w ! k" if "k < length w" for k
    using that offset_suffix [OF q(1)] q(2) by (metis append_eq_conv_conj nth_append nth_drop)
  have le: "offset line eq \<le> length line" by (simp add: offset_def)
  have same: "buf ! (offset line q + k) = w ! k" if k: "k < length w" for k
  proof -
    have "offset line q + k \<notin> offset line ` snd ` set (tokens c)"
    proof
      assume "offset line q + k \<in> offset line ` snd ` set (tokens c)"
      then obtain q2 eq2 where t: "(q2, eq2) \<in> set (tokens c)" "offset line eq2 = offset line q + k" by auto
      then have "\<not> is_word_char (line ! (offset line q + k))"
        using token_end [of line q2 eq2] ok le eq k by auto
      moreover have "is_word_char (w ! k)" using k by (metis nth_mem set_takeWhileD w_def)
      ultimately show False using at [OF k] by simp
    qed
    then show ?thesis using k le eq at [OF k] by (simp add: buf pokes_nth nth_append)
  qed
  have stop: "buf ! offset line eq = NUL"
    using assms(3) le by (auto simp: buf pokes_nth image_iff intro!: bexI [of _ "(q, eq)"])
  have len: "length buf = Suc (length line)" by (simp add: buf)
  have "take (length w) (drop (offset line q) buf) = w"
    using same len le eq by (intro nth_equalityI) auto
  moreover have "drop (length w) (drop (offset line q) buf) = NUL # drop (Suc (offset line eq)) buf"
    using stop len le Cons_nth_drop_Suc [of "offset line eq" buf] eq by (simp add: add.commute)
  ultimately have "drop (offset line q) buf = w @ NUL # drop (Suc (offset line eq)) buf"
    by (metis append_take_drop_id)
  moreover have "NUL \<notin> set w"
    using assms(2) q by (auto simp: suffix_def)
  ultimately show ?thesis using q(3) by (simp add: word_at_def w_def [symmetric] takeWhile_append)
qed

text \<open>
  the zeros that \<open>nulterminate\<close> writes into the line end every word of the tree where it ends in
  the line and destroy none of the others: each pointer of the tree then points to a C string that is
  exactly the word it was parsed from, and no word is empty.
\<close>

theorem nulterminate_words:
  assumes "parsecmd line = Parsed (c, buf) s" "NUL \<notin> set line" "(q, eq) \<in> set (tokens c)"
  shows "word_at line buf q = takeWhile is_word_char q \<and> word_at line buf q \<noteq> []"
  using nul_words [OF assms] .

theorem nulterminate_words_witness:
  "\<exists>c buf q eq. parsecmd ''a  bc'' = Parsed (c, buf) [] \<and> (q, eq) \<in> set (tokens c) \<and> word_at ''a  bc'' buf q = ''bc''"
proof -
  have p: "parsecmd ''a  bc'' = Parsed (EXEC [(''a  bc'', ''  bc''), (''bc'', [])], [CHR ''a'', NUL, CHR '' '', CHR ''b'', CHR ''c'', NUL]) []"
    by code_simp
  have w: "takeWhile is_word_char ''bc'' = ''bc''" by (simp add: is_word_char_def whitespace_def symbols_def)
  have n: "NUL \<notin> set ''a  bc''" by simp
  have q: "(''bc'', []) \<in> set (tokens (EXEC [(''a  bc'', ''  bc''), (''bc'', [])]))" by simp
  note nulterminate_words [OF p n q, THEN conjunct1, unfolded w]
  with p q show ?thesis by blast
qed

section \<open>Printing and parsing\<close>

text \<open>Commands as trees of words, and how to write one down: every part of a compound in parentheses.\<close>

datatype command =
    Exec "string list"
  | Redirect command string int int
  | Pipeline command command
  | Sequence command command
  | Background command

primrec meaning :: "(ptr \<Rightarrow> string) \<Rightarrow> cmd \<Rightarrow> command" where
  "meaning str (EXEC args) = Exec (map (\<lambda>t. str (fst t)) args)"
| "meaning str (REDIR c q eq mode fd) = Redirect (meaning str c) (str q) mode fd"
| "meaning str (PIPE l r) = Pipeline (meaning str l) (meaning str r)"
| "meaning str (LIST l r) = Sequence (meaning str l) (meaning str r)"
| "meaning str (BACK c) = Background (meaning str c)"

definition redir_symbol :: "int \<Rightarrow> string" where
  "redir_symbol mode =
     (if mode = O_RDONLY then ''<'' else if mode = O_WRONLY + O_CREATE + O_TRUNC then ''>'' else ''>>'')"

fun join :: "string list \<Rightarrow> string" where
  "join [] = []"
| "join [w] = w"
| "join (w # v # ws) = w @ CHR '' '' # join (v # ws)"

primrec print :: "command \<Rightarrow> string" where
  "print (Exec ws) = join ws"
| "print (Redirect t f mode fd) = CHR ''('' # print t @ CHR '')'' # redir_symbol mode @ f"
| "print (Pipeline a b) = CHR ''('' # print a @ CHR '')'' # CHR ''|'' # CHR ''('' # print b @ '')''"
| "print (Sequence a b) = CHR ''('' # print a @ CHR '')'' # CHR '';'' # CHR ''('' # print b @ '')''"
| "print (Background a) = CHR ''('' # print a @ CHR '')'' # ''&''"

definition word_ok :: "string \<Rightarrow> bool" where
  "word_ok w \<longleftrightarrow> w \<noteq> [] \<and> (\<forall>c \<in> set w. is_word_char c \<and> c \<noteq> NUL)"

primrec writable :: "command \<Rightarrow> bool" where
  "writable (Exec ws) \<longleftrightarrow> length ws < MAXARGS \<and> (\<forall>w \<in> set ws. word_ok w)"
| "writable (Redirect t f mode fd) \<longleftrightarrow>
     writable t \<and> word_ok f \<and> (mode, fd) \<in> {redir_mode (CHR ''<''), redir_mode (CHR ''>''), redir_mode (CHR ''+'')}"
| "writable (Pipeline a b) \<longleftrightarrow> writable a \<and> writable b"
| "writable (Sequence a b) \<longleftrightarrow> writable a \<and> writable b"
| "writable (Background a) \<longleftrightarrow> writable a"

text \<open>What can follow a command: nothing, or the parenthesis that closes it.\<close>

definition closes :: "ptr \<Rightarrow> bool" where
  "closes post \<longleftrightarrow> post = [] \<or> hd post = CHR '')''"

abbreviation word_text :: "ptr \<Rightarrow> string" where
  "word_text q \<equiv> takeWhile is_word_char q"

lemma not_space [simp]:
  "\<not> is_space (CHR ''('')" "\<not> is_space (CHR '')'')" "\<not> is_space (CHR ''|'')" "\<not> is_space (CHR '';'')"
  "\<not> is_space (CHR ''&'')" "\<not> is_space (CHR ''<'')" "\<not> is_space (CHR ''>'')" "is_space (CHR '' '')"
  by (simp_all add: is_space_def whitespace_def)

lemma not_word [simp]:
  "\<not> is_word_char (CHR ''('')" "\<not> is_word_char (CHR '')'')" "\<not> is_word_char (CHR ''|'')" "\<not> is_word_char (CHR '';'')"
  "\<not> is_word_char (CHR ''&'')" "\<not> is_word_char (CHR ''<'')" "\<not> is_word_char (CHR ''>'')" "\<not> is_word_char (CHR '' '')"
  by (simp_all add: is_word_char_def symbols_def whitespace_def)

lemma skip_space_simps [simp]:
  "skip_space [] = []"
  "\<not> is_space c \<Longrightarrow> skip_space (c # s) = c # s"
  "is_space c \<Longrightarrow> skip_space (c # s) = skip_space s"
  by (simp_all add: skip_space_def)

lemma word_not_space: "is_word_char c \<Longrightarrow> \<not> is_space c"
  by (simp add: is_word_char_def is_space_def)

lemma word_not_symbol: "is_word_char c \<Longrightarrow> c \<notin> set symbols"
  by (simp add: is_word_char_def)

lemma peek_Nil [simp]: "peek toks [] = (False, [])"
  by (simp add: peek_def)

lemma peek_Cons [simp]: "\<not> is_space c \<Longrightarrow> peek toks (c # s) = (c \<noteq> NUL \<and> c \<in> set toks, c # s)"
  by (simp add: peek_def)

lemma gettoken_symbol [simp]:
  "c \<in> set ''|();&<'' \<Longrightarrow> gettoken (c # s) = (c, c # s, s, skip_space s)"
  by (auto simp: gettoken_def scan_token_def)

lemma next_symbol [simp]: "c \<in> set ''|();&<'' \<Longrightarrow> next_token (c # s) = skip_space s"
  by (simp add: next_token_def)

lemma skip_word: "word_ok w \<Longrightarrow> skip_space (w @ s) = w @ s"
  by (cases w) (auto simp: word_ok_def word_not_space)

lemma gettoken_word_append:
  assumes "word_ok w" "s = [] \<or> \<not> is_word_char (hd s)"
  shows "gettoken (w @ s) = (CHR ''a'', w @ s, s, skip_space s) \<and> word_text (w @ s) = w"
proof -
  obtain c v where w: "w = c # v" "is_word_char c" "c \<noteq> NUL" "\<forall>d \<in> set v. is_word_char d"
    using assms(1) by (cases w) (auto simp: word_ok_def)
  then have c: "c \<notin> set ''|();&<''" "c \<noteq> CHR ''>''"
    using word_not_symbol [OF w(2)] by (auto simp: symbols_def)
  have s: "dropWhile is_word_char s = s" "takeWhile is_word_char s = []"
    using assms(2) by (cases s; simp)+
  have "dropWhile is_word_char (w @ s) = s" "takeWhile is_word_char (w @ s) = w"
    using w s by (auto simp: dropWhile_append takeWhile_append)
  moreover have "scan_token (w @ s) = (CHR ''a'', dropWhile is_word_char (w @ s))"
    using w c by (simp add: scan_token_def)
  ultimately show ?thesis using skip_word [OF assms(1), of s] by (simp add: gettoken_def)
qed

lemma peek_word [simp]:
  "word_ok w \<Longrightarrow> set toks \<subseteq> set symbols \<Longrightarrow> peek toks (w @ s) = (False, w @ s)"
  by (cases w) (auto simp: word_ok_def peek_def word_not_space dest: word_not_symbol)

lemma skip_print: "writable t \<Longrightarrow> skip_space (print t @ post) = (if print t = [] then skip_space post else print t @ post)"
proof (cases t)
  case (Exec ws)
  then show "writable t \<Longrightarrow> ?thesis"
    by (cases ws rule: join.cases) (auto simp: skip_word dest: word_ok_def [THEN iffD1])
qed auto

lemma closes_simps [simp]: "closes []" "closes (CHR '')'' # s)"
  by (simp_all add: closes_def)

lemma closes_cases:
  assumes "closes post"
  obtains "post = []" | s where "post = CHR '')'' # s"
  using assms by (cases post) (auto simp: closes_def)

lemma closes_skip [simp]: "closes post \<Longrightarrow> skip_space post = post"
  by (auto elim: closes_cases)

lemma closes_peek: "closes post \<Longrightarrow> CHR '')'' \<notin> set toks \<Longrightarrow> peek toks post = (False, post)"
  by (auto elim: closes_cases)

text \<open>Between the words of a printed command there are no redirections.\<close>

lemma no_redirs: "peek ''<>'' s = (False, s') \<Longrightarrow> parseredirs s = Parsed [] s'"
  by (simp add: parseredirs.simps [of s])

lemma parse_args_stop:
  assumes "closes post"
  shows "parse_args argc post = Parsed ([], []) post"
  using assms by (cases rule: closes_cases) (simp_all add: parse_args.simps [of argc] gettoken_def scan_token_def)

lemma parse_args_words:
  assumes "\<forall>w \<in> set ws. word_ok w" "argc + length ws < MAXARGS" "closes post"
  shows "\<exists>as. parse_args argc (join ws @ post) = Parsed (as, []) post \<and> map (\<lambda>t. word_text (fst t)) as = ws"
  using assms
proof (induction ws arbitrary: argc rule: join.induct)
  case (2 w)
  have ends: "post = [] \<or> \<not> is_word_char (hd post)" using 2(3) by (auto elim: closes_cases)
  have w: "word_ok w" using 2 by simp
  have "parse_args argc (w @ post) = Parsed ([(w @ post, post)], []) post"
    using 2 gettoken_word_append [OF w ends] parse_args_stop [OF 2(3)] no_redirs [OF closes_peek [OF 2(3)]] w
    by (simp add: parse_args.simps [of argc "w @ post"] symbols_def)
  then show ?case using gettoken_word_append [OF w ends] by simp
next
  case (3 w v ws)
  let ?r = "join (v # ws) @ post"
  have w: "word_ok w" using 3 by simp
  obtain as where as: "parse_args (Suc argc) ?r = Parsed (as, []) post" "map (\<lambda>t. word_text (fst t)) as = v # ws"
    using 3(1) [of "Suc argc"] 3(2-4) by auto
  have v: "\<exists>z. ?r = v @ z" by (cases ws) auto
  then obtain z where z: "?r = v @ z" by blast
  have vok: "word_ok v" using 3 by simp
  have "skip_space ?r = ?r" "parseredirs ?r = Parsed [] ?r"
    using skip_word [OF vok, of z] no_redirs [of "v @ z" "v @ z"] vok unfolding z by (simp_all add: symbols_def)
  then have "parse_args argc (w @ CHR '' '' # ?r) = Parsed ((w @ CHR '' '' # ?r, CHR '' '' # ?r) # as, []) post"
    using gettoken_word_append [OF w, of "CHR '' '' # ?r"] as(1) w 3(3)
    by (simp add: parse_args.simps [of argc "w @ _"] symbols_def)
  moreover have "word_text (w @ CHR '' '' # ?r) = w"
    using gettoken_word_append [OF w, of "CHR '' '' # ?r"] by simp
  ultimately show ?case using as(2) by simp
qed (simp add: parse_args_stop)

text \<open>A command can be read with fuel for four steps per character, whatever closes it.\<close>

definition reads_back :: "command \<Rightarrow> bool" where
  "reads_back t \<longleftrightarrow> (\<forall>post n. closes post \<longrightarrow> 4 * length (print t @ post) + 4 \<le> n \<longrightarrow>
     (\<exists>c. parseline n (print t @ post) = Parsed c post \<and> meaning word_text c = t))"

lemma parse_block:
  assumes "reads_back t" "writable t" "parseredirs (skip_space rest) = Parsed rs s"
    "4 * length (CHR ''('' # print t @ CHR '')'' # rest) + 2 \<le> n"
  shows "\<exists>c. parseexec n (CHR ''('' # print t @ CHR '')'' # rest) = Parsed (wrap c rs) s \<and> meaning word_text c = t"
proof -
  obtain m where n: "n = Suc (Suc m)" "4 * length (print t @ CHR '')'' # rest) + 4 \<le> m"
    using assms(4) by (cases n; cases "n - 1") auto
  have "skip_space (print t @ CHR '')'' # rest) = print t @ CHR '')'' # rest"
    using skip_print [OF assms(2)] by simp
  moreover obtain c where "parseline m (print t @ CHR '')'' # rest) = Parsed c (CHR '')'' # rest)"
      "meaning word_text c = t"
    using assms(1) n(2) unfolding reads_back_def by (metis closes_simps(2))
  ultimately show ?thesis using assms(3) n(1) by (intro exI [of _ c]) simp
qed

text \<open>A line that is one block, up to what follows it.\<close>

lemma parse_wrapped:
  assumes "parseexec n ps = Parsed c s" "peek ''|'' s = (False, s)"
  shows "parsepipe (Suc n) ps = Parsed c s"
  using assms by simp

lemma parse_single:
  assumes "parsepipe n ps = Parsed c post" "closes post"
  shows "parseline (Suc n) ps = Parsed c post"
  using assms closes_peek [OF assms(2), of "''&''"] closes_peek [OF assms(2), of "'';''"]
  by (simp add: parse_backs.simps)

lemma reads_back_Exec:
  assumes "writable (Exec ws)"
  shows "reads_back (Exec ws)"
  unfolding reads_back_def
proof (intro allI impI)
  fix post n assume post: "closes post" and n: "4 * length (print (Exec ws) @ post) + 4 \<le> n"
  obtain k where k: "n = Suc (Suc (Suc k))" by (rule that [of "n - 3"]) (use n in simp)
  obtain as where as: "parse_args 0 (join ws @ post) = Parsed (as, []) post" "map (\<lambda>t. word_text (fst t)) as = ws"
    using parse_args_words [of ws 0 post] assms post by auto
  have "peek toks (join ws @ post) = (False, join ws @ post)" if "toks \<in> {''('', ''<>''}" for toks
    using that assms closes_peek [OF post, of toks] by (cases ws rule: join.cases) (auto simp: symbols_def)
  then have "parseexec (Suc k) (join ws @ post) = Parsed (EXEC as) post"
    using as(1) no_redirs [of "join ws @ post" "join ws @ post"] by (simp add: wrap_def)
  from parse_single [OF parse_wrapped [OF this closes_peek [OF post]] post]
  show "\<exists>c. parseline n (print (Exec ws) @ post) = Parsed c post \<and> meaning word_text c = Exec ws"
    using as(2) k by simp
qed

lemma redir_read:
  assumes "word_ok f" "(mode, fd) \<in> {redir_mode (CHR ''<''), redir_mode (CHR ''>''), redir_mode (CHR ''+'')}" "closes post"
  shows "\<exists>eq. parseredirs (redir_symbol mode @ f @ post) = Parsed [(f @ post, eq, mode, fd)] post \<and> word_text (f @ post) = f"
proof -
  have ends: "post = [] \<or> \<not> is_word_char (hd post)" using assms(3) by (auto elim: closes_cases)
  note g = gettoken_word_append [OF assms(1) ends]
  obtain tok where tok: "(mode, fd) = redir_mode tok" "tok \<in> {CHR ''<'', CHR ''>'', CHR ''+''}" using assms(2) by auto
  obtain c v where f: "f = c # v" "is_word_char c" using assms(1) by (cases f) (auto simp: word_ok_def)
  then have c: "c \<noteq> CHR ''>''" by auto
  let ?s = "redir_symbol mode @ f @ post"
  have "gettoken ?s = (tok, ?s, f @ post, f @ post) \<and> peek ''<>'' ?s = (True, ?s)"
    using tok f c skip_word [OF assms(1), of post]
    by (auto simp: redir_mode_def redir_symbol_def gettoken_def scan_token_def)
  then have "parseredirs ?s = Parsed [(f @ post, post, redir_mode tok)] post"
    using g no_redirs [OF closes_peek [OF assms(3)], of ] assms(3) by (simp add: parseredirs.simps [of ?s])
  then show ?thesis using g tok(1) by auto
qed

lemma reads_back_Redirect:
  assumes "reads_back t" "writable (Redirect t f mode fd)"
  shows "reads_back (Redirect t f mode fd)"
  unfolding reads_back_def
proof (intro allI impI)
  fix post n assume post: "closes post" and n: "4 * length (print (Redirect t f mode fd) @ post) + 4 \<le> n"
  obtain k where k: "n = Suc (Suc k)" by (rule that [of "n - 2"]) (use n in simp)
  let ?rest = "redir_symbol mode @ f @ post"
  have ok: "writable t" "word_ok f" using assms(2) by auto
  obtain eq where r: "parseredirs ?rest = Parsed [(f @ post, eq, mode, fd)] post" "word_text (f @ post) = f"
    using redir_read [of f mode fd post] assms(2) post by auto
  have "skip_space ?rest = ?rest" by (simp add: redir_symbol_def)
  then obtain c where "parseexec k (CHR ''('' # print t @ CHR '')'' # ?rest) = Parsed (wrap c [(f @ post, eq, mode, fd)]) post"
      "meaning word_text c = t"
    using parse_block [OF assms(1) ok(1), of ?rest "[(f @ post, eq, mode, fd)]" post k] r n k by auto
  with parse_single [OF parse_wrapped [OF this(1) closes_peek [OF post]] post]
  show "\<exists>c. parseline n (print (Redirect t f mode fd) @ post) = Parsed c post
      \<and> meaning word_text c = Redirect t f mode fd"
    using r(2) k by (intro exI [of _ "REDIR c (f @ post) eq mode fd"]) (simp add: wrap_def)
qed

lemma block_then:
  assumes "reads_back t" "writable t" "\<not> is_space c" "c \<notin> set ''<>''"
    "4 * length (CHR ''('' # print t @ CHR '')'' # c # rest) + 2 \<le> n"
  shows "\<exists>x. parseexec n (CHR ''('' # print t @ CHR '')'' # c # rest) = Parsed x (c # rest) \<and> meaning word_text x = t"
  using parse_block [OF assms(1,2), of "c # rest" "[]" "c # rest" n] assms(3-5) no_redirs [of "c # rest" "c # rest"]
  by (auto simp: wrap_def)

lemma block_last:
  assumes "reads_back t" "writable t" "closes post"
    "4 * length (CHR ''('' # print t @ CHR '')'' # post) + 2 \<le> n"
  shows "\<exists>x. parseexec n (CHR ''('' # print t @ CHR '')'' # post) = Parsed x post \<and> meaning word_text x = t"
  using parse_block [OF assms(1,2), of post "[]" post n] assms(3,4) no_redirs [OF closes_peek [OF assms(3)]]
  by (auto simp: wrap_def)

lemma reads_back_Pipeline:
  assumes "reads_back a" "reads_back b" "writable a" "writable b"
  shows "reads_back (Pipeline a b)"
  unfolding reads_back_def
proof (intro allI impI)
  fix post n assume post: "closes post" and n: "4 * length (print (Pipeline a b) @ post) + 4 \<le> n"
  obtain k where k: "n = Suc (Suc (Suc k))" by (rule that [of "n - 3"]) (use n in simp)
  let ?b = "CHR ''('' # print b @ CHR '')'' # post"
  obtain x where x: "parseexec (Suc k) (CHR ''('' # print a @ CHR '')'' # CHR ''|'' # ?b) = Parsed x (CHR ''|'' # ?b)"
      "meaning word_text x = a"
    using block_then [OF assms(1,3), of "CHR ''|''" ?b "Suc k"] n k by auto
  obtain y where y: "parseexec k ?b = Parsed y post" "meaning word_text y = b"
    using block_last [OF assms(2,4) post, of k] n k by auto
  have "parsepipe (Suc k) ?b = Parsed y post"
    by (rule parse_wrapped [OF y(1) closes_peek [OF post]]) simp
  then have "parsepipe (Suc (Suc k)) (CHR ''('' # print a @ CHR '')'' # CHR ''|'' # ?b) = Parsed (PIPE x y) post"
    using x(1) by simp
  from parse_single [OF this post]
  show "\<exists>c. parseline n (print (Pipeline a b) @ post) = Parsed c post \<and> meaning word_text c = Pipeline a b"
    using x(2) y(2) k by (intro exI [of _ "PIPE x y"]) simp
qed

lemma reads_back_Sequence:
  assumes "reads_back a" "reads_back b" "writable a" "writable b"
  shows "reads_back (Sequence a b)"
  unfolding reads_back_def
proof (intro allI impI)
  fix post n assume post: "closes post" and n: "4 * length (print (Sequence a b) @ post) + 4 \<le> n"
  obtain k where k: "n = Suc (Suc (Suc k))" by (rule that [of "n - 3"]) (use n in simp)
  let ?b = "CHR ''('' # print b @ CHR '')'' # post"
  obtain x where x: "parseexec (Suc k) (CHR ''('' # print a @ CHR '')'' # CHR '';'' # ?b) = Parsed x (CHR '';'' # ?b)"
      "meaning word_text x = a"
    using block_then [OF assms(1,3), of "CHR '';''" ?b "Suc k"] n k by auto
  obtain y where y: "parseexec k ?b = Parsed y post" "meaning word_text y = b"
    using block_last [OF assms(2,4) post, of k] n k by auto
  have "parseline (Suc (Suc k)) ?b = Parsed y post"
    by (rule parse_single [OF parse_wrapped [OF y(1) closes_peek [OF post]] post]) simp
  moreover have "parsepipe (Suc (Suc k)) (CHR ''('' # print a @ CHR '')'' # CHR '';'' # ?b) = Parsed x (CHR '';'' # ?b)"
    by (rule parse_wrapped [OF x(1)]) simp
  ultimately show "\<exists>c. parseline n (print (Sequence a b) @ post) = Parsed c post \<and> meaning word_text c = Sequence a b"
    using x(2) y(2) k by (intro exI [of _ "LIST x y"]) (simp add: parse_backs.simps del: parseline.simps(2) add: parseline.simps(2) [of "Suc (Suc k)"])
qed

lemma reads_back_Background:
  assumes "reads_back a" "writable a"
  shows "reads_back (Background a)"
  unfolding reads_back_def
proof (intro allI impI)
  fix post n assume post: "closes post" and n: "4 * length (print (Background a) @ post) + 4 \<le> n"
  obtain k where k: "n = Suc (Suc k)" by (rule that [of "n - 2"]) (use n in simp)
  obtain x where x: "parseexec k (CHR ''('' # print a @ CHR '')'' # CHR ''&'' # post) = Parsed x (CHR ''&'' # post)"
      "meaning word_text x = a"
    using block_then [OF assms, of "CHR ''&''" post k] n k by auto
  have "parsepipe (Suc k) (CHR ''('' # print a @ CHR '')'' # CHR ''&'' # post) = Parsed x (CHR ''&'' # post)"
    by (rule parse_wrapped [OF x(1)]) simp
  moreover have "parse_backs x (CHR ''&'' # post) = (BACK x, post)"
    using post closes_peek [OF post, of "''&''"] by (simp add: parse_backs.simps)
  ultimately show "\<exists>c. parseline n (print (Background a) @ post) = Parsed c post \<and> meaning word_text c = Background a"
    using x(2) k closes_peek [OF post, of "'';''"] by (intro exI [of _ "BACK x"]) simp
qed

lemma reads_back_all: "writable t \<Longrightarrow> reads_back t"
  by (induction t)
    (simp_all only: writable.simps(3-5) reads_back_Exec reads_back_Pipeline reads_back_Sequence reads_back_Background,
     auto intro: reads_back_Redirect)

lemma meaning_cong: "(\<And>q eq. (q, eq) \<in> set (tokens c) \<Longrightarrow> f q = g q) \<Longrightarrow> meaning f c = meaning g c"
  by (induction c) auto

lemma join_no_nul: "\<forall>w \<in> set ws. word_ok w \<Longrightarrow> NUL \<notin> set (join ws)"
  by (induction ws rule: join.induct) (auto simp: word_ok_def)

lemma print_no_nul: "writable t \<Longrightarrow> NUL \<notin> set (print t)"
  by (induction t) (auto simp: join_no_nul redir_symbol_def dest: word_ok_def [THEN iffD1])

text \<open>
  C16: every command whose words are words (and at most nine per program) can be written down so that
  \<open>parsecmd\<close> reads exactly this command, each word as the C string its pointer points to.
\<close>

theorem parse_print:
  assumes "writable t"
  shows "\<exists>c buf. parsecmd (print t) = Parsed (c, buf) [] \<and> meaning (word_at (print t) buf) c = t"
proof -
  obtain c where c: "parseline (4 * length (print t) + 4) (print t) = Parsed c []" "meaning word_text c = t"
    using reads_back_all [OF assms] unfolding reads_back_def by (metis append_Nil2 closes_simps(1) order_refl)
  define buf where "buf = nulterminate (print t) c (print t @ [NUL])"
  have p: "parsecmd (print t) = Parsed (c, buf) []" using c(1) by (simp add: parsecmd_def buf_def)
  have "meaning (word_at (print t) buf) c = meaning word_text c"
  proof (rule meaning_cong)
    show "word_at (print t) buf q = word_text q" if "(q, eq) \<in> set (tokens c)" for q eq
      using nul_words [OF p print_no_nul [OF assms] that] by simp
  qed
  with p c(2) show ?thesis by auto
qed

definition sample :: command where
  "sample = Pipeline (Exec [''ls'', ''d'']) (Background (Redirect (Exec [''grep'', ''x'']) ''out'' 1537 1))"

theorem parse_print_witness:
  "\<exists>c buf. parsecmd ''(ls d)|(((grep x)>out)&)'' = Parsed (c, buf) []
     \<and> meaning (word_at ''(ls d)|(((grep x)>out)&)'' buf) c = sample"
proof -
  have "writable sample"
    by (simp add: sample_def word_ok_def redir_mode_def is_word_char_def symbols_def whitespace_def)
  from parse_print [OF this] show ?thesis by (simp add: sample_def redir_symbol_def)
qed

section \<open>Pipelines\<close>

fun pipe_cmd :: "(ptr \<times> ptr) list list \<Rightarrow> cmd" where
  "pipe_cmd [] = EXEC []"
| "pipe_cmd [c] = EXEC c"
| "pipe_cmd (c # cs) = PIPE (EXEC c) (pipe_cmd cs)"

definition stdio :: "'f fobj \<Rightarrow> 'f fobj \<Rightarrow> 'f fobj \<Rightarrow> 'f fds" where
  "stdio i out err = [Some i, Some out, Some err] @ replicate 13 None"

text \<open>
  What a pipeline should be: each program reads what the one before it writes, the first one reads
  the shell's input, the last one writes the shell's output, and no descriptor is left open.
\<close>

fun wired :: "'f fobj \<Rightarrow> 'f fobj \<Rightarrow> 'f fobj \<Rightarrow> nat \<Rightarrow> string list list \<Rightarrow> 'f leaf list" where
  "wired i out err n [] = []"
| "wired i out err n [w] = [Execs w (stdio i out err)]"
| "wired i out err n (w # ws) =
     Execs w (stdio i (PipeWrite n) err) # wired (PipeRead n) out err (Suc n) ws @ [Exits 0 []]"

text \<open>
  a pipeline is wired as it should be, whatever its length: \<open>runcmd\<close> starts its programs with
  exactly the three descriptors of \<open>wired\<close>, and every end of every pipe is closed in all other processes.
\<close>

theorem pipeline_wired:
  assumes "cs \<noteq> []" "[] \<notin> set cs"
  shows "fst (runcmd openf str (pipe_cmd cs) (stdio i out err) n) = wired i out err n (map (map (\<lambda>(q, eq). str q)) cs)"
  using assms
proof (induction cs arbitrary: i n rule: pipe_cmd.induct)
  case (3 c d cs)
  have "fd_pipe n (stdio i out err) = Some (3, 4, (stdio i out err)[3 := Some (PipeRead n), 4 := Some (PipeWrite n)])"
    by (simp add: fd_pipe_def fd_open_def stdio_def numeral_nat)
  moreover have "fd_close 4 (fd_close 3 (fd_dup 4 (fd_close 1 ((stdio i out err)[3 := Some (PipeRead n), 4 := Some (PipeWrite n)]))))
     = stdio i (PipeWrite n) err"
    by (simp add: fd_close_def fd_dup_def fd_open_def stdio_def numeral_nat)
  moreover have "fd_close 4 (fd_close 3 (fd_dup 3 (fd_close 0 ((stdio i out err)[3 := Some (PipeRead n), 4 := Some (PipeWrite n)]))))
     = stdio (PipeRead n) out err"
    by (simp add: fd_close_def fd_dup_def fd_open_def stdio_def numeral_nat)
  moreover obtain qs m where r: "runcmd openf str (pipe_cmd (d # cs)) (stdio (PipeRead n) out err) (Suc n) = (qs, m)"
    by fastforce
  moreover have "qs = wired (PipeRead n) out err (Suc n) (map (map (\<lambda>(q, eq). str q)) (d # cs))"
    using 3(1) [of "PipeRead n" "Suc n"] 3(3) r by simp
  moreover have "c \<noteq> []" using 3(3) by auto
  ultimately show ?case by simp
qed simp_all

theorem pipeline_wired_witness:
  "fst (runcmd (\<lambda>_ _. None) id (PIPE (EXEC [(''a'', [])]) (PIPE (EXEC [(''b'', [])]) (EXEC [(''c'', [])])))
       (stdio (OpenFile ''in'') (OpenFile ''out'') (OpenFile ''err'')) 0) =
   [Execs [''a''] (stdio (OpenFile ''in'') (PipeWrite 0) (OpenFile ''err'')),
    Execs [''b''] (stdio (PipeRead 0) (PipeWrite 1) (OpenFile ''err'')),
    Execs [''c''] (stdio (PipeRead 1) (OpenFile ''out'') (OpenFile ''err'')),
    Exits 0 [], Exits 0 []]"
  using pipeline_wired [of "[[(''a'', [])], [(''b'', [])], [(''c'', [])]]" "\<lambda>_ _. None" id
      "OpenFile ''in''" "OpenFile ''out''" "OpenFile ''err''" 0]
  by simp

end
