(* ===== verification/Grep.thy ===== *)
theory Grep
  imports Interfaces
begin

text \<open>
  \<open>user/grep.c\<close>: the matcher of Kernighan and Pike for patterns with \<open>^ . * $\<close>, and the loop that cuts what
  \<open>read\<close> delivers into lines. A C string is the list of its characters. How much each \<open>read\<close> delivers is
  up to the kernel: the sizes are an argument. The matcher is shown equal to the meaning of a pattern as a
  set of strings, the loop to selecting the matching lines of the input.
\<close>

abbreviation NL :: char where "NL \<equiv> CHR 0x0A"
abbreviation NUL :: char where "NUL \<equiv> CHR 0x00"

section \<open>The matcher\<close>

function matchhere :: "string \<Rightarrow> string \<Rightarrow> bool"
and matchstar :: "char \<Rightarrow> string \<Rightarrow> string \<Rightarrow> bool" where
  "matchhere re tx =
     (case re of
        [] \<Rightarrow> True
      | c # re1 \<Rightarrow>
          if re1 \<noteq> [] \<and> hd re1 = CHR ''*'' then matchstar c (tl re1) tx
          else if c = CHR ''$'' \<and> re1 = [] then tx = []
          else if tx \<noteq> [] \<and> (c = CHR ''.'' \<or> c = hd tx) then matchhere re1 (tl tx)
          else False)"
| "matchstar c re tx =
     (if matchhere re tx then True
      else case tx of [] \<Rightarrow> False | t # ts \<Rightarrow> if t = c \<or> c = CHR ''.'' then matchstar c re ts else False)"
  by pat_completeness auto

termination
  by (relation "measure (\<lambda>x. case x of Inl (re, tx) \<Rightarrow> 2 * (length re + length tx)
      | Inr (c, re, tx) \<Rightarrow> 2 * (length re + length tx) + 1)") (auto simp: neq_Nil_conv)

declare matchhere.simps [simp del] matchstar.simps [simp del]

text \<open>The loop of \<open>match\<close> over the places where a match could start.\<close>

primrec match_from :: "string \<Rightarrow> string \<Rightarrow> bool" where
  "match_from re [] = matchhere re []"
| "match_from re (t # ts) = (if matchhere re (t # ts) then True else match_from re ts)"

definition match :: "string \<Rightarrow> string \<Rightarrow> bool" where
  "match re tx =
     (case re of [] \<Rightarrow> match_from re tx
      | c # re1 \<Rightarrow> if c = CHR ''^'' then matchhere re1 tx else match_from re tx)"

section \<open>Lines\<close>

text \<open>\<open>strchr(p, '\\n')\<close> stops at a zero byte. What is written for the lines in the buffer, and the rest.\<close>

function scan_lines :: "string \<Rightarrow> string \<Rightarrow> string \<times> string" where
  "scan_lines pattern p =
     (if NL \<in> set (takeWhile (\<lambda>c. c \<noteq> NUL) p) then
        (let line = takeWhile (\<lambda>c. c \<noteq> NL) p; (out, rest) = scan_lines pattern (drop (Suc (length line)) p)
         in ((if match pattern line then line @ [NL] else []) @ out, rest))
      else ([], p))"
  by pat_completeness auto

termination
proof (relation "measure (\<lambda>(pattern, p). length p)", goal_cases)
  case (2 pattern p x)
  then have "p \<noteq> []" by auto
  then show ?case by simp
qed simp

declare scan_lines.simps [simp del]

text \<open>\<open>read\<close> delivers at least a byte if there is one and room for it, and as much as the kernel likes.\<close>

definition read_size :: "nat list \<Rightarrow> nat \<Rightarrow> nat \<Rightarrow> nat" where
  "read_size ks n avail = min (min n avail) (max 1 (case ks of [] \<Rightarrow> n | k # _ \<Rightarrow> k))"

function grep :: "string \<Rightarrow> nat list \<Rightarrow> string \<Rightarrow> string \<Rightarrow> string" where
  "grep pattern ks buf input =
     (let n = read_size ks (1024 - length buf - 1) (length input) in
      if n = 0 then []
      else let (out, rest) = scan_lines pattern (buf @ take n input)
           in out @ grep pattern (tl ks) rest (drop n input))"
  by pat_completeness auto

termination by (relation "measure (\<lambda>(pattern, ks, buf, input). length input)") (auto simp: read_size_def)

declare grep.simps [simp del]

text \<open>\<open>main\<close>: the output and the exit status, given what \<open>open\<close> finds under a name.\<close>

primrec grep_files :: "(string \<Rightarrow> string option) \<Rightarrow> (string \<Rightarrow> nat list) \<Rightarrow> string \<Rightarrow> string list \<Rightarrow> string \<times> int" where
  "grep_files openf ks pattern [] = ([], 0)"
| "grep_files openf ks pattern (f # fs) =
     (case openf f of
        None \<Rightarrow> (''grep: cannot open '' @ f @ [NL], 1)
      | Some input \<Rightarrow>
          let (out, st) = grep_files openf ks pattern fs in (grep pattern (ks f) [] input @ out, st))"

definition grep_main :: "(string \<Rightarrow> string option) \<Rightarrow> (string \<Rightarrow> nat list) \<Rightarrow> string \<Rightarrow> string list \<Rightarrow> string \<times> int" where
  "grep_main openf ks stdin args =
     (case args of
        [] \<Rightarrow> ([], 1)
      | [pattern] \<Rightarrow> (grep pattern (ks []) [] stdin, 0)
      | pattern # fs \<Rightarrow> grep_files openf ks pattern fs)"

section \<open>The meaning of a pattern\<close>

datatype item = One char | Many char

text \<open>The items of a pattern, and whether it ends in an anchor.\<close>

fun items :: "string \<Rightarrow> item list \<times> bool" where
  "items [] = ([], False)"
| "items [c] = (if c = CHR ''$'' then ([], True) else ([One c], False))"
| "items (c # d # re) =
     (if d = CHR ''*'' then let (is, a) = items re in (Many c # is, a)
      else let (is, a) = items (d # re) in (One c # is, a))"

definition fits :: "char \<Rightarrow> char \<Rightarrow> bool" where
  "fits c t \<longleftrightarrow> c = CHR ''.'' \<or> c = t"

primrec language :: "item list \<Rightarrow> string set" where
  "language [] = {[]}"
| "language (x # xs) =
     {u @ v |u v. v \<in> language xs \<and>
        (case x of One c \<Rightarrow> (\<exists>t. u = [t] \<and> fits c t) | Many c \<Rightarrow> (\<forall>t \<in> set u. fits c t))}"

definition here :: "string \<Rightarrow> string \<Rightarrow> bool" where
  "here re tx \<longleftrightarrow> (\<exists>u v. tx = u @ v \<and> u \<in> language (fst (items re)) \<and> (snd (items re) \<longrightarrow> v = []))"

lemma here_Nil: "here [] tx"
  by (simp add: here_def)

lemma here_anchor: "here ''$'' tx \<longleftrightarrow> tx = []"
  by (simp add: here_def)

lemma language_One: "u \<in> language (One c # xs) \<longleftrightarrow> (\<exists>t v. u = t # v \<and> fits c t \<and> v \<in> language xs)"
proof
  assume "\<exists>t v. u = t # v \<and> fits c t \<and> v \<in> language xs"
  then obtain t v where "u = [t] @ v" "fits c t" "v \<in> language xs" by auto
  then show "u \<in> language (One c # xs)" unfolding language.simps item.case by blast
next
  assume "u \<in> language (One c # xs)"
  then obtain w v t where "u = w @ v" "v \<in> language xs" "w = [t]" "fits c t"
    unfolding language.simps item.case by blast
  then show "\<exists>t v. u = t # v \<and> fits c t \<and> v \<in> language xs" by simp
qed

lemma language_Many: "u \<in> language (Many c # xs) \<longleftrightarrow> (\<exists>v w. u = v @ w \<and> (\<forall>t \<in> set v. fits c t) \<and> w \<in> language xs)"
  by auto

lemma here_one:
  assumes "items (c # re) = (One c # fst (items re), snd (items re))"
  shows "here (c # re) tx \<longleftrightarrow> tx \<noteq> [] \<and> fits c (hd tx) \<and> here re (tl tx)"
proof
  assume "here (c # re) tx"
  then obtain t v w where "tx = (t # v) @ w" "fits c t" "v \<in> language (fst (items re))" "snd (items re) \<longrightarrow> w = []"
    unfolding here_def assms fst_conv snd_conv language_One by blast
  then show "tx \<noteq> [] \<and> fits c (hd tx) \<and> here re (tl tx)" unfolding here_def by auto
next
  assume "tx \<noteq> [] \<and> fits c (hd tx) \<and> here re (tl tx)"
  then obtain t ts u v where "tx = t # ts" "fits c t" "ts = u @ v" "u \<in> language (fst (items re))" "snd (items re) \<longrightarrow> v = []"
    unfolding here_def by (cases tx) auto
  then have "tx = (t # u) @ v \<and> t # u \<in> language (fst (items (c # re))) \<and> (snd (items (c # re)) \<longrightarrow> v = [])"
    unfolding assms fst_conv snd_conv language_One by simp
  then show "here (c # re) tx" unfolding here_def by blast
qed

lemma here_many:
  "here (c # CHR ''*'' # re) tx \<longleftrightarrow> (\<exists>u v. tx = u @ v \<and> (\<forall>t \<in> set u. fits c t) \<and> here re v)"
proof -
  have it: "items (c # CHR ''*'' # re) = (Many c # fst (items re), snd (items re))" by (simp split: prod.splits)
  have "here (c # CHR ''*'' # re) tx \<longleftrightarrow>
    (\<exists>u w v. tx = (u @ w) @ v \<and> (\<forall>t \<in> set u. fits c t) \<and> w \<in> language (fst (items re)) \<and> (snd (items re) \<longrightarrow> v = []))"
    unfolding here_def it fst_conv snd_conv language_Many by blast
  then show ?thesis unfolding here_def by (simp only: append_assoc) blast
qed

lemma items_One:
  "re = [] \<or> hd re \<noteq> CHR ''*'' \<Longrightarrow> \<not> (c = CHR ''$'' \<and> re = []) \<Longrightarrow>
   items (c # re) = (One c # fst (items re), snd (items re))"
  by (cases re) (auto split: prod.splits)

lemma star_step:
  "(\<exists>u v. t # ts = u @ v \<and> (\<forall>x \<in> set u. fits c x) \<and> P v) \<longleftrightarrow>
   P (t # ts) \<or> fits c t \<and> (\<exists>u v. ts = u @ v \<and> (\<forall>x \<in> set u. fits c x) \<and> P v)"
proof
  assume "\<exists>u v. t # ts = u @ v \<and> (\<forall>x \<in> set u. fits c x) \<and> P v"
  then obtain u v where uv: "t # ts = u @ v" "\<forall>x \<in> set u. fits c x" "P v" by blast
  then show "P (t # ts) \<or> fits c t \<and> (\<exists>u v. ts = u @ v \<and> (\<forall>x \<in> set u. fits c x) \<and> P v)"
    by (cases u) auto
next
  assume "P (t # ts) \<or> fits c t \<and> (\<exists>u v. ts = u @ v \<and> (\<forall>x \<in> set u. fits c x) \<and> P v)"
  then show "\<exists>u v. t # ts = u @ v \<and> (\<forall>x \<in> set u. fits c x) \<and> P v"
  proof
    assume "P (t # ts)"
    then show ?thesis by (intro exI [of _ "[]"] exI [of _ "t # ts"]) simp
  next
    assume "fits c t \<and> (\<exists>u v. ts = u @ v \<and> (\<forall>x \<in> set u. fits c x) \<and> P v)"
    then obtain u v where "fits c t" "ts = u @ v" "\<forall>x \<in> set u. fits c x" "P v" by blast
    then show ?thesis by (intro exI [of _ "t # u"] exI [of _ v]) simp
  qed
qed

lemma matchhere_spec:
  "matchhere re tx \<longleftrightarrow> here re tx"
  "matchstar c re tx \<longleftrightarrow> (\<exists>u v. tx = u @ v \<and> (\<forall>t \<in> set u. fits c t) \<and> here re v)"
proof (induction re tx and c re tx rule: matchhere_matchstar.induct)
  case (1 re tx)
  show ?case
  proof (cases re)
    case Nil
    then show ?thesis by (simp add: matchhere.simps here_Nil)
  next
    case (Cons c re1)
    consider (star) re2 where "re1 = CHR ''*'' # re2" | (dollar) "c = CHR ''$''" "re1 = []"
      | (one) "re1 = [] \<or> hd re1 \<noteq> CHR ''*''" "\<not> (c = CHR ''$'' \<and> re1 = [])"
      by (cases re1) auto
    then show ?thesis
    proof cases
      case star
      then show ?thesis using 1(1) [OF Cons] by (simp add: matchhere.simps [of "c # CHR ''*'' # re2"] Cons here_many)
    next
      case dollar
      then show ?thesis by (simp add: matchhere.simps [of "''$''"] Cons here_anchor)
    next
      case one
      show ?thesis
        using 1(2) [OF Cons] one here_one [OF items_One [OF one], of tx]
        by (auto simp: matchhere.simps [of "c # re1"] Cons fits_def)
    qed
  qed
next
  case (2 c re tx)
  show ?case
  proof (cases tx)
    case Nil
    then show ?thesis using 2 by (simp add: matchstar.simps [of c re])
  next
    case (Cons t ts)
    have "matchstar c re (t # ts) \<longleftrightarrow> matchhere re (t # ts) \<or> fits c t \<and> matchstar c re ts"
      by (auto simp: matchstar.simps [of c re "t # ts"] fits_def)
    moreover have "matchstar c re ts \<longleftrightarrow> (\<exists>u v. ts = u @ v \<and> (\<forall>t \<in> set u. fits c t) \<and> here re v)"
      if "\<not> matchhere re (t # ts)" "fits c t"
      using 2(2) [OF _ Cons] that Cons by (auto simp: fits_def)
    ultimately show ?thesis unfolding Cons star_step using 2(1) [unfolded Cons] by blast
  qed
qed

lemma match_from_spec: "match_from re tx \<longleftrightarrow> (\<exists>u v. tx = u @ v \<and> here re v)"
  by (induction tx) (auto simp: matchhere_spec Cons_eq_append_conv)

text \<open>
  C17: the matcher decides the meaning of the pattern: the text splits into a part before, a part in the
  language of the pattern and a part after, where \<open>^\<close> at the front forces the first and \<open>$\<close> at the end the
  last part to be empty.
\<close>

theorem match_language:
  "match re tx =
     (let anchored = (re \<noteq> [] \<and> hd re = CHR ''^''); body = (if anchored then tl re else re); (is, to_end) = items body
      in \<exists>u v w. tx = u @ v @ w \<and> v \<in> language is \<and> (anchored \<longrightarrow> u = []) \<and> (to_end \<longrightarrow> w = []))"
  by (cases re) (auto simp: match_def matchhere_spec match_from_spec here_def Let_def split: prod.splits)

theorem match_language_witness:
  "match ''b.*d$'' ''abcd'' \<and> \<not> match ''^b'' ''ab''"
proof -
  have it: "items ''b.*d$'' = ([One (CHR ''b''), Many (CHR ''.''), One (CHR ''d'')], True)" "items ''b'' = ([One (CHR ''b'')], False)"
    by simp_all
  have "''bcd'' \<in> language [One (CHR ''b''), Many (CHR ''.''), One (CHR ''d'')]"
    unfolding language_One language_Many
    by (intro exI [of _ "CHR ''b''"] exI [of _ "''cd''"] conjI refl exI [of _ "''c''"] exI [of _ "''d''"]
        exI [of _ "CHR ''d''"] exI [of _ "[]"]) (simp_all add: fits_def)
  then have "\<exists>u v w. ''abcd'' = u @ v @ w \<and> v \<in> language [One (CHR ''b''), Many (CHR ''.''), One (CHR ''d'')] \<and> w = []"
    by (intro exI [of _ "''a''"] exI [of _ "''bcd''"] exI [of _ "[]"]) simp
  then have "match ''b.*d$'' ''abcd''" using match_language [of "''b.*d$''" "''abcd''"] by (simp add: it)
  moreover have "\<not> match ''^b'' ''ab''"
    using match_language [of "''^b''" "''ab''"] by (auto simp: it(2) fits_def Cons_eq_append_conv)
  ultimately show ?thesis ..
qed

section \<open>The loop\<close>

text \<open>The lines of the input that end in a newline, and what comes after the last newline.\<close>

function lines_of :: "string \<Rightarrow> string list" where
  "lines_of s =
     (if NL \<in> set s then takeWhile (\<lambda>c. c \<noteq> NL) s # lines_of (tl (dropWhile (\<lambda>c. c \<noteq> NL) s)) else [])"
  by pat_completeness auto

termination
proof (relation "measure length", goal_cases)
  case (2 s)
  then have "s \<noteq> []" by auto
  then show ?case by (cases s) (auto simp: less_Suc_eq_le intro: order_trans [OF diff_le_self] length_dropWhile_le)
qed simp

declare lines_of.simps [simp del]

definition unfinished :: "string \<Rightarrow> string" where
  "unfinished s = rev (takeWhile (\<lambda>c. c \<noteq> NL) (rev s))"

lemma lines_of_none [simp]: "NL \<notin> set s \<Longrightarrow> lines_of s = []"
  by (simp add: lines_of.simps [of s])

lemma lines_of_line: "NL \<notin> set l \<Longrightarrow> lines_of (l @ NL # s) = l # lines_of s"
  by (simp add: lines_of.simps [of "l @ NL # s"] takeWhile_append dropWhile_append)

lemma unfinished_none [simp]: "NL \<notin> set s \<Longrightarrow> unfinished s = s"
proof -
  assume "NL \<notin> set s"
  then have "takeWhile (\<lambda>c. c \<noteq> NL) (rev s) = rev s"
    by (subst takeWhile_eq_all_conv) auto
  then show ?thesis by (simp only: unfinished_def rev_rev_ident)
qed

lemma unfinished_line: "unfinished (l @ NL # s) = unfinished s"
  by (simp add: unfinished_def takeWhile_tail)

text \<open>Every string is a number of lines and an unfinished one; induction over the lines.\<close>

lemma lines_induct [case_names none line]:
  assumes "\<And>s. NL \<notin> set s \<Longrightarrow> P s" "\<And>l s. NL \<notin> set l \<Longrightarrow> P s \<Longrightarrow> P (l @ NL # s)"
  shows "P s"
proof (induction "length s" arbitrary: s rule: less_induct)
  case less
  show ?case
  proof (cases "NL \<in> set s")
    case True
    then obtain l r where "s = l @ NL # r" "NL \<notin> set l" by (meson split_list_first)
    then show ?thesis using less assms(2) by simp
  qed (rule assms(1))
qed

definition selected :: "string \<Rightarrow> string list \<Rightarrow> string" where
  "selected pattern ls = concat (map (\<lambda>l. l @ [NL]) (filter (match pattern) ls))"

lemma scan_lines_spec:
  "NUL \<notin> set p \<Longrightarrow> scan_lines pattern p = (selected pattern (lines_of p), unfinished p)"
proof (induction p rule: lines_induct)
  case (none s)
  then have "NL \<notin> set (takeWhile (\<lambda>c. c \<noteq> NUL) s)" by (meson set_takeWhileD)
  then show ?case using none by (simp add: scan_lines.simps [of pattern s] selected_def)
next
  case (line l s)
  have "takeWhile (\<lambda>c. c \<noteq> NUL) (l @ NL # s) = l @ NL # s" using line by (auto simp: takeWhile_eq_all_conv)
  moreover have "takeWhile (\<lambda>c. c \<noteq> NL) (l @ NL # s) = l" using line by (simp add: takeWhile_append)
  ultimately show ?case
    using line by (simp add: scan_lines.simps [of pattern "l @ NL # s"] lines_of_line unfinished_line selected_def)
qed

lemma lines_of_append: "lines_of (a @ b) = lines_of a @ lines_of (unfinished a @ b)"
  by (induction a rule: lines_induct) (simp_all add: lines_of_line unfinished_line)

lemma unfinished_append: "unfinished (a @ b) = unfinished (unfinished a @ b)"
  by (induction a rule: lines_induct) (simp_all add: unfinished_line)

text \<open>No line, finished or not, is longer than 1022 characters.\<close>

definition short_lines :: "string \<Rightarrow> bool" where
  "short_lines s \<longleftrightarrow> (\<forall>l \<in> set (lines_of s). length l \<le> 1022) \<and> length (unfinished s) \<le> 1022"

lemma unfinished_prefix: "short_lines (a @ b) \<Longrightarrow> length (unfinished a) \<le> 1022"
proof (induction a rule: lines_induct)
  case (none s)
  show ?case
  proof (cases "NL \<in> set b")
    case True
    then obtain l r where "b = l @ NL # r" "NL \<notin> set l" by (meson split_list_first)
    then show ?thesis using none lines_of_line [of "s @ l" r] by (auto simp: short_lines_def)
  qed (use none in \<open>simp add: short_lines_def\<close>)
next
  case (line l s)
  then show ?case by (auto simp: short_lines_def lines_of_line unfinished_line)
qed

lemma short_lines_rest: "short_lines (a @ b) \<Longrightarrow> short_lines (unfinished a @ b)"
  using lines_of_append [of a b] unfinished_append [of a b] by (auto simp: short_lines_def)

lemma unfinished_set: "set (unfinished s) \<subseteq> set s" "NL \<notin> set (unfinished s)"
  by (auto simp: unfinished_def dest: set_takeWhileD)

lemma grep_spec:
  assumes "NUL \<notin> set (buf @ input)" "NL \<notin> set buf" "short_lines (buf @ input)"
  shows "grep pattern ks buf input = selected pattern (lines_of (buf @ input))"
  using assms
proof (induction pattern ks buf input rule: grep.induct)
  case (1 pattern ks buf input)
  define n where "n = read_size ks (1024 - length buf - 1) (length input)"
  have n': "n = read_size ks (1023 - length buf) (length input)" by (simp add: n_def)
  have "length buf \<le> 1022" using unfinished_prefix [of buf input] 1(3,4) by simp
  then have n0: "n = 0 \<longleftrightarrow> input = []"
    by (cases ks) (auto simp: n_def read_size_def min_def max_def split: if_splits)
  show ?case
  proof (cases "input = []")
    case True
    then show ?thesis using 1(3) n0 by (simp add: grep.simps [of pattern ks] read_size_def selected_def)
  next
    case False
    let ?p = "buf @ take n input"
    have sub: "set (take n input) \<subseteq> set input" "set (drop n input) \<subseteq> set input"
      by (simp_all add: set_take_subset set_drop_subset)
    have scan: "scan_lines pattern ?p = (selected pattern (lines_of ?p), unfinished ?p)"
      using 1(2) sub(1) by (intro scan_lines_spec) auto
    have whole: "?p @ drop n input = buf @ input" by simp
    have "grep pattern (tl ks) (unfinished ?p) (drop n input) = selected pattern (lines_of (unfinished ?p @ drop n input))"
    proof (rule 1(1) [OF n_def _ scan [symmetric] refl])
      show "NUL \<notin> set (unfinished ?p @ drop n input)" using 1(2) sub unfinished_set(1) [of ?p] by auto
      show "short_lines (unfinished ?p @ drop n input)"
        using short_lines_rest [of ?p "drop n input"] 1(4) whole by simp
    qed (use False n0 unfinished_set(2) in auto)
    then have "grep pattern ks buf input = selected pattern (lines_of ?p) @ selected pattern (lines_of (unfinished ?p @ drop n input))"
      using scan False n0 by (simp add: grep.simps [of pattern ks] n' [symmetric])
    also have "\<dots> = selected pattern (lines_of (?p @ drop n input))"
      unfolding lines_of_append [of ?p "drop n input"] by (simp add: selected_def)
    finally show ?thesis unfolding whole .
  qed
qed

text \<open>
  C18: however \<open>read\<close> cuts the input into pieces, \<open>grep\<close> writes exactly the lines that match, in order and
  each with its newline, for an input without NUL bytes (\<open>strchr\<close> stops at one) in which no line is longer
  than 1022 characters. A line is what ends with a newline: what follows the last newline is never looked at.
\<close>

theorem grep_selects_lines:
  assumes "NUL \<notin> set input" "short_lines input"
  shows "grep pattern ks [] input = concat (map (\<lambda>l. l @ [NL]) (filter (match pattern) (lines_of input)))"
  using grep_spec [of "[]" input pattern ks] assms by (simp add: selected_def)

theorem grep_selects_lines_witness:
  "grep ''b'' [2, 1] [] [CHR ''a'', NL, CHR ''b'', NL, CHR ''b''] = [CHR ''b'', NL]"
proof -
  let ?s = "[CHR ''a''] @ NL # [CHR ''b''] @ NL # ''b''"
  have l: "lines_of ?s = [''a'', ''b'']" "unfinished ?s = ''b''"
    by (subst lines_of_line, simp, subst lines_of_line, simp, simp) (subst unfinished_line, subst unfinished_line, simp)
  have "match ''b'' ''b''" "\<not> match ''b'' ''a''"
    by (simp_all add: match_def matchhere.simps)
  then show ?thesis using grep_selects_lines [of ?s "''b''" "[2, 1]"] l by (simp add: short_lines_def)
qed

lemma long_line:
  assumes "l = buf @ rest" "NL \<notin> set l" "NUL \<notin> set l" "1023 \<le> length l" "length buf \<le> 1023"
  shows "grep pattern ks buf (rest @ input) = []"
  using assms
proof (induction "length rest" arbitrary: ks buf rest rule: less_induct)
  case less
  define n where "n = read_size ks (1024 - length buf - 1) (length (rest @ input))"
  have n': "n = read_size ks (1023 - length buf) (length rest + length input)" by (simp add: n_def)
  have n: "n \<le> 1023 - length buf" by (simp add: n_def read_size_def)
  show ?case
  proof (cases "n = 0")
    case True
    then show ?thesis by (simp add: grep.simps [of pattern ks] n' [symmetric])
  next
    case False
    have le: "n \<le> length rest" using n less.prems(1,4) by simp
    have "NL \<notin> set (buf @ take n rest)" "NUL \<notin> set (buf @ take n rest)"
      using less.prems(1-3) by (auto dest: in_set_takeD)
    then have "scan_lines pattern (buf @ take n rest) = ([], buf @ take n rest)"
      by (subst scan_lines_spec) (simp_all add: selected_def)
    moreover have "grep pattern (tl ks) (buf @ take n rest) (drop n rest @ input) = []"
    proof (rule less.hyps)
      show "length (drop n rest) < length rest" using False le by simp
      show "length (buf @ take n rest) \<le> 1023" using n less.prems(5) le by simp
    qed (use less.prems in simp_all)
    ultimately show ?thesis
      using le False by (simp add: grep.simps [of pattern ks] n' [symmetric])
  qed
qed

text \<open>
  a line of 1023 characters or more silently ends the search: once the buffer is full without a
  newline, \<open>read\<close> is asked for no bytes and returns 0, and the matching lines behind are never written.
\<close>

theorem grep_stops_at_long_line:
  assumes "NL \<notin> set l" "NUL \<notin> set l" "1023 \<le> length l"
  shows "grep pattern ks [] (l @ input) = []"
  using long_line [of l "[]" l pattern ks input] assms by simp

theorem grep_stops_at_long_line_witness:
  "grep ''b'' [] [] (replicate 1023 (CHR ''x'') @ [NL, CHR ''b'', NL]) = []"
  by (rule grep_stops_at_long_line) simp_all

end
