(* ===== verification/Bio.thy ===== *)
theory Bio
  imports Spin
begin

text \<open>
  The buffer cache, \<open>kernel/bio.c\<close>: thirty buffers in a circular doubly linked list around \<open>bcache.head\<close>,
  the most recently used first. A buffer is named by its index, the head by \<open>NBUF\<close>; the links are the
  functions \<open>nxt\<close> and \<open>prv\<close>. The disk is what the driver reads and writes, block by block; the writes
  are also recorded in the order in which they are issued. A reference count is the number of those
  who hold the buffer, wait for it or have pinned it, far below 2^32. The result \<open>Sleeps\<close> cuts a call at its sleep;
  what the call has done until then are the steps of the section on processes. A process is named by its pid, for the sleep locks.
\<close>

section \<open>Operations\<close>

abbreviation NBUF :: nat where "NBUF \<equiv> 30"
abbreviation HEAD :: nat where "HEAD \<equiv> NBUF"
abbreviation BSIZE :: nat where "BSIZE \<equiv> 1024"

type_synonym block = "byte list"

record buf =
  b_valid :: bool
  b_dev :: nat
  b_blockno :: nat
  b_lock :: sleeplock
  b_refcnt :: int
  b_data :: block

record bcache =
  bufs :: "nat \<Rightarrow> buf"
  nxt :: "nat \<Rightarrow> nat"
  prv :: "nat \<Rightarrow> nat"
  disk :: "nat \<Rightarrow> block"
  issued :: "(nat \<times> block) list"

datatype 'a outcome = Ret 'a | Sleeps | Panics string

primrec bind_outcome :: "'a outcome \<Rightarrow> ('a \<Rightarrow> 'b outcome) \<Rightarrow> 'b outcome" where
  "bind_outcome (Ret x) f = f x"
| "bind_outcome Sleeps f = Sleeps"
| "bind_outcome (Panics m) f = Panics m"

definition upd_buf :: "nat \<Rightarrow> (buf \<Rightarrow> buf) \<Rightarrow> bcache \<Rightarrow> bcache" where
  "upd_buf i f s = s\<lparr>bufs := (bufs s)(i := f (bufs s i))\<rparr>"

definition set_nxt :: "nat \<Rightarrow> nat \<Rightarrow> bcache \<Rightarrow> bcache" where
  "set_nxt i j s = s\<lparr>nxt := (nxt s)(i := j)\<rparr>"

definition set_prv :: "nat \<Rightarrow> nat \<Rightarrow> bcache \<Rightarrow> bcache" where
  "set_prv i j s = s\<lparr>prv := (prv s)(i := j)\<rparr>"

text \<open>Static storage is zero; the contents of the disk are given.\<close>

definition zero_buf :: buf where
  "zero_buf = \<lparr>b_valid = False, b_dev = 0, b_blockno = 0, b_lock = initsleeplock, b_refcnt = 0,
     b_data = replicate BSIZE 0\<rparr>"

definition boot_cache :: "(nat \<Rightarrow> block) \<Rightarrow> bcache" where
  "boot_cache d = \<lparr>bufs = (\<lambda>_. zero_buf), nxt = (\<lambda>_. 0), prv = (\<lambda>_. 0), disk = d, issued = []\<rparr>"

text \<open>Taking a buffer out of the list and putting it first.\<close>

definition unlink_buf :: "nat \<Rightarrow> bcache \<Rightarrow> bcache" where
  "unlink_buf b s =
     (let s1 = set_prv (nxt s b) (prv s b) s in set_nxt (prv s1 b) (nxt s1 b) s1)"

definition push_front :: "nat \<Rightarrow> bcache \<Rightarrow> bcache" where
  "push_front b s =
     (let s1 = set_nxt b (nxt s HEAD) s; s2 = set_prv b HEAD s1; s3 = set_prv (nxt s2 HEAD) b s2
      in set_nxt HEAD b s3)"

definition binit :: "bcache \<Rightarrow> bcache" where
  "binit s =
     (let s0 = set_nxt HEAD HEAD (set_prv HEAD HEAD s)
      in fold (\<lambda>b s. push_front b (upd_buf b (b_lock_update (\<lambda>_. initsleeplock)) s)) [0..<NBUF] s0)"

text \<open>The loops of \<open>bget\<close> along the links, for at most as many turns as there are list elements.\<close>

primrec scan :: "(nat \<Rightarrow> nat) \<Rightarrow> (nat \<Rightarrow> bool) \<Rightarrow> nat \<Rightarrow> nat \<Rightarrow> nat option" where
  "scan go P 0 b = None"
| "scan go P (Suc n) b = (if b = HEAD then None else if P b then Some b else scan go P n (go b))"

definition lock_buf :: "int \<Rightarrow> nat \<Rightarrow> bcache \<Rightarrow> (nat \<times> bcache) outcome" where
  "lock_buf pid b s =
     (case acquiresleep pid (b_lock (bufs s b)) of
        None \<Rightarrow> Sleeps
      | Some lk \<Rightarrow> Ret (b, upd_buf b (b_lock_update (\<lambda>_. lk)) s))"

text \<open>
  \<open>bget\<close> takes its reference under \<open>bcache.lock\<close> (\<open>bget_ref\<close>) and then sleeps for the lock of the buffer.
  A caller that has to wait is cut at the sleep; it keeps the reference, so the state it leaves is
  that of \<open>bget_ref\<close> (the steps \<open>waits\<close> and \<open>resumes\<close> below).
\<close>

definition bget_ref :: "nat \<Rightarrow> nat \<Rightarrow> bcache \<Rightarrow> (nat \<times> bcache) outcome" where
  "bget_ref dev blockno s =
     (case scan (nxt s) (\<lambda>b. b_dev (bufs s b) = dev \<and> b_blockno (bufs s b) = blockno) (NBUF + 1) (nxt s HEAD) of
        Some b \<Rightarrow> Ret (b, upd_buf b (\<lambda>x. x\<lparr>b_refcnt := b_refcnt x + 1\<rparr>) s)
      | None \<Rightarrow>
         (case scan (prv s) (\<lambda>b. b_refcnt (bufs s b) = 0) (NBUF + 1) (prv s HEAD) of
            Some b \<Rightarrow> Ret (b,
              upd_buf b (\<lambda>x. x\<lparr>b_dev := dev, b_blockno := blockno, b_valid := False, b_refcnt := 1\<rparr>) s)
          | None \<Rightarrow> Panics ''bget: no buffers''))"

definition bget :: "int \<Rightarrow> nat \<Rightarrow> nat \<Rightarrow> bcache \<Rightarrow> (nat \<times> bcache) outcome" where
  "bget pid dev blockno s = bind_outcome (bget_ref dev blockno s) (\<lambda>(b, s1). lock_buf pid b s1)"

text \<open>\<open>virtio_disk_rw\<close>, once the device has done its work.\<close>

definition virtio_disk_rw :: "nat \<Rightarrow> bool \<Rightarrow> bcache \<Rightarrow> bcache" where
  "virtio_disk_rw b w s =
     (let x = bufs s b in
      if w then s\<lparr>disk := (disk s)(b_blockno x := b_data x), issued := issued s @ [(b_blockno x, b_data x)]\<rparr>
      else upd_buf b (b_data_update (\<lambda>_. disk s (b_blockno x))) s)"

definition bread_fill :: "nat \<Rightarrow> bcache \<Rightarrow> bcache" where
  "bread_fill b s =
     (if \<not> b_valid (bufs s b) then upd_buf b (b_valid_update (\<lambda>_. True)) (virtio_disk_rw b False s) else s)"

definition bread :: "int \<Rightarrow> nat \<Rightarrow> nat \<Rightarrow> bcache \<Rightarrow> (nat \<times> bcache) outcome" where
  "bread pid dev blockno s =
     bind_outcome (bget pid dev blockno s) (\<lambda>(b, s1). Ret (b, bread_fill b s1))"

definition bwrite :: "int \<Rightarrow> nat \<Rightarrow> bcache \<Rightarrow> bcache outcome" where
  "bwrite pid b s =
     (if \<not> holdingsleep pid (b_lock (bufs s b)) then Panics ''bwrite'' else Ret (virtio_disk_rw b True s))"

definition brelse :: "int \<Rightarrow> nat \<Rightarrow> bcache \<Rightarrow> bcache outcome" where
  "brelse pid b s =
     (if \<not> holdingsleep pid (b_lock (bufs s b)) then Panics ''brelse''
      else let s1 = upd_buf b (\<lambda>x. x\<lparr>b_lock := releasesleep (b_lock x), b_refcnt := b_refcnt x - 1\<rparr>) s
           in Ret (if b_refcnt (bufs s1 b) = 0 then push_front b (unlink_buf b s1) else s1))"

definition bpin :: "nat \<Rightarrow> bcache \<Rightarrow> bcache" where
  "bpin b s = upd_buf b (\<lambda>x. x\<lparr>b_refcnt := b_refcnt x + 1\<rparr>) s"

definition bunpin :: "nat \<Rightarrow> bcache \<Rightarrow> bcache" where
  "bunpin b s = upd_buf b (\<lambda>x. x\<lparr>b_refcnt := b_refcnt x - 1\<rparr>) s"

section \<open>The list of buffers\<close>

text \<open>Following \<open>f\<close> from \<open>a\<close> leads through \<open>xs\<close> to \<open>z\<close>.\<close>

primrec path :: "(nat \<Rightarrow> nat) \<Rightarrow> nat \<Rightarrow> nat list \<Rightarrow> nat \<Rightarrow> bool" where
  "path f a [] z \<longleftrightarrow> f a = z"
| "path f a (x # xs) z \<longleftrightarrow> f a = x \<and> path f x xs z"

lemma path_append: "path f a (xs @ y # ys) z \<longleftrightarrow> path f a xs y \<and> path f y ys z"
  by (induction xs arbitrary: a) auto

lemma path_upd_other: "x \<notin> set (a # xs) \<Longrightarrow> path (f(x := v)) a xs z = path f a xs z"
  by (induction xs arbitrary: a) auto

lemma path_upd_last: "distinct (a # xs) \<Longrightarrow> path f a xs y \<Longrightarrow> path (f(last (a # xs) := z)) a xs z"
proof (induction xs arbitrary: a)
  case (Cons x xs)
  have "last (x # xs) \<noteq> a" using Cons.prems(1) by (metis distinct.simps(2) last_in_set list.distinct(1))
  then show ?case using Cons by auto
qed simp

lemma path_last: "path f a xs z \<Longrightarrow> f (last (a # xs)) = z"
  by (induction xs arbitrary: a) auto

lemma path_unlink:
  assumes "path f a (xs @ b # ys) z" "distinct (a # xs @ b # ys)"
  shows "path (f(last (a # xs) := f b)) a (xs @ ys) z"
proof -
  have p: "path f a xs b" "path f b ys z" using assms(1) by (simp_all add: path_append)
  show ?thesis
  proof (cases ys)
    case Nil
    then show ?thesis using p path_upd_last [of a xs f b z] assms(2) by simp
  next
    case (Cons y ys')
    have "last (a # xs) \<notin> set (y # ys')" using assms(2) Cons by (metis Int_iff UnI1 UnI2 append_Cons distinct_append empty_iff last_in_set list.distinct(1) list.set_intros(2))
    then have "path (f(last (a # xs) := y)) y ys' z" using p(2) Cons path_upd_other [of "last (a # xs)" y ys' f y z] by simp
    then show ?thesis using p Cons path_upd_last [of a xs f b y] assms(2) by (simp add: path_append)
  qed
qed

lemma path_insert_first: "path f a xs z \<Longrightarrow> b \<notin> set (a # xs) \<Longrightarrow> a \<notin> set xs \<Longrightarrow> path (f(b := f a, a := b)) a (b # xs) z"
  by (cases xs) (auto simp: path_upd_other)

lemma path_insert_last:
  assumes "path f a xs z" "distinct (a # xs)" "b \<notin> set (a # xs)"
  shows "path (f(b := z, last (a # xs) := b)) a (xs @ [b]) z"
proof -
  have "path (f(last (a # xs) := b)) a xs b" using path_upd_last [OF assms(2,1)] .
  moreover have ne: "last (a # xs) \<noteq> b" using assms(3) by (metis last_in_set list.distinct(1))
  moreover have "f(b := z, last (a # xs) := b) = (f(last (a # xs) := b))(b := z)" using ne by (simp add: fun_upd_twist)
  ultimately show ?thesis using path_upd_other [of b a xs "f(last (a # xs) := b)" z b] assms(3) by (simp add: path_append)
qed

text \<open>The buffers in order of use, linked in both directions.\<close>

definition order :: "bcache \<Rightarrow> nat list \<Rightarrow> bool" where
  "order s xs \<longleftrightarrow> distinct (HEAD # xs) \<and> path (nxt s) HEAD xs HEAD \<and> path (prv s) HEAD (rev xs) HEAD"

lemma order_prv_last: "order s xs \<Longrightarrow> nxt s HEAD = last (HEAD # rev xs)"
  by (cases xs) (auto simp: order_def)

lemma unlink_order:
  assumes "order s (xs @ b # ys)"
  shows "order (unlink_buf b s) (xs @ ys)"
proof -
  have d: "distinct (HEAD # xs @ b # ys)" "distinct (HEAD # rev ys @ b # rev xs)"
    using assms by (auto simp: order_def)
  have n: "path (nxt s) HEAD (xs @ b # ys) HEAD" and p: "path (prv s) HEAD (rev ys @ b # rev xs) HEAD"
    using assms by (simp_all add: order_def)
  have nb: "nxt s b = last (HEAD # rev ys)" using n by (cases ys) (auto simp: path_append)
  have pb: "prv s b = last (HEAD # xs)" using p by (cases xs rule: rev_cases) (auto simp: path_append)
  have "nxt s b \<noteq> b" unfolding nb using d(2) by (cases ys) auto
  then have "unlink_buf b s = set_nxt (prv s b) (nxt s b) (set_prv (nxt s b) (prv s b) s)"
    by (simp add: unlink_buf_def set_prv_def)
  then show ?thesis
    using path_unlink [OF n d(1), folded pb] path_unlink [OF p d(2), folded nb] d
    by (auto simp: order_def set_nxt_def set_prv_def)
qed

lemma push_front_order:
  assumes "order s xs" "b \<notin> set (HEAD # xs)"
  shows "order (push_front b s) (b # xs)"
proof -
  have d: "distinct (HEAD # xs)" "distinct (HEAD # rev xs)" "b \<notin> set (HEAD # rev xs)"
    using assms by (auto simp: order_def)
  have n: "path (nxt s) HEAD xs HEAD" and p: "path (prv s) HEAD (rev xs) HEAD"
    using assms(1) by (simp_all add: order_def)
  have "push_front b s = s\<lparr>nxt := (nxt s)(b := nxt s HEAD, HEAD := b), prv := (prv s)(b := HEAD, nxt s HEAD := b)\<rparr>"
    using assms(2) by (simp add: push_front_def set_nxt_def set_prv_def)
  then show ?thesis
    using path_insert_first [OF n assms(2)] path_insert_last [OF p d(2,3)] d(1) assms
    by (simp add: order_def order_prv_last [OF assms(1)])
qed

lemma scan_find:
  "path f a xs HEAD \<Longrightarrow> HEAD \<notin> set xs \<Longrightarrow> length xs < n \<Longrightarrow> scan f P n (f a) = find P xs"
proof (induction xs arbitrary: a n)
  case (Cons x xs)
  then show ?case by (cases n) auto
qed (auto simp: gr0_conv_Suc)

section \<open>The invariant of the cache\<close>

text \<open>
  There is one disk, number \<open>ROOTDEV\<close>. Between calls: all buffers are in the list; a buffer that was
  never used has device 0; the others hold different blocks, and a buffer nobody refers to holds what
  is on the disk and is not locked.
\<close>

abbreviation ROOTDEV :: nat where "ROOTDEV \<equiv> 1"

definition cached :: "bcache \<Rightarrow> nat \<Rightarrow> nat \<Rightarrow> bool" where
  "cached s n i \<longleftrightarrow> i < NBUF \<and> b_dev (bufs s i) = ROOTDEV \<and> b_blockno (bufs s i) = n"

definition buf_ok :: "(nat \<Rightarrow> block) \<Rightarrow> buf \<Rightarrow> bool" where
  "buf_ok d x \<longleftrightarrow>
     (if b_dev x = 0 then b_refcnt x = 0 \<and> \<not> b_valid x else b_dev x = ROOTDEV \<and> b_valid x)
     \<and> 0 \<le> b_refcnt x
     \<and> (b_refcnt x = 0 \<longrightarrow> \<not> sl_locked (b_lock x))
     \<and> (b_refcnt x = 0 \<and> b_valid x \<longrightarrow> b_data x = d (b_blockno x))"

definition cache_inv :: "bcache \<Rightarrow> bool" where
  "cache_inv s \<longleftrightarrow> (\<exists>xs. order s xs \<and> set xs = {0..<NBUF})
     \<and> (\<forall>i < NBUF. buf_ok (disk s) (bufs s i))
     \<and> (\<forall>n i j. cached s n i \<and> cached s n j \<longrightarrow> i = j)"

text \<open>What \<open>bread\<close> has to deliver for a block, and how many refer to its buffer.\<close>

definition buffer_of :: "bcache \<Rightarrow> nat \<Rightarrow> nat option" where
  "buffer_of s n = find (cached s n) [0..<NBUF]"

definition view :: "bcache \<Rightarrow> nat \<Rightarrow> block" where
  "view s n = (case buffer_of s n of None \<Rightarrow> disk s n | Some i \<Rightarrow> b_data (bufs s i))"

definition refs :: "bcache \<Rightarrow> nat \<Rightarrow> int" where
  "refs s n = (case buffer_of s n of None \<Rightarrow> 0 | Some i \<Rightarrow> b_refcnt (bufs s i))"

definition in_use :: "bcache \<Rightarrow> nat set" where
  "in_use s = {i. i < NBUF \<and> b_refcnt (bufs s i) \<noteq> 0}"

definition locked :: "bcache \<Rightarrow> nat \<Rightarrow> bool" where
  "locked s n \<longleftrightarrow> (\<exists>i. cached s n i \<and> sl_locked (b_lock (bufs s i)))"

lemma cached_lt: "cached s n i \<Longrightarrow> i < NBUF"
  by (simp add: cached_def)

lemma cached_unique: "cache_inv s \<Longrightarrow> cached s n i \<Longrightarrow> cached s n j \<Longrightarrow> i = j"
  by (auto simp: cache_inv_def)

lemma buffer_of_Some: "cache_inv s \<Longrightarrow> buffer_of s n = Some i \<longleftrightarrow> cached s n i"
proof
  assume "buffer_of s n = Some i"
  then show "cached s n i" by (auto simp: buffer_of_def find_Some_iff)
next
  assume inv: "cache_inv s" and c: "cached s n i"
  then have "buffer_of s n \<noteq> None" using cached_lt [OF c] by (auto simp: buffer_of_def find_None_iff)
  then obtain j where "buffer_of s n = Some j" by blast
  moreover from this have "cached s n j" by (auto simp: buffer_of_def find_Some_iff)
  ultimately show "buffer_of s n = Some i" using cached_unique [OF inv c] by blast
qed

lemma buffer_of_None: "buffer_of s n = None \<longleftrightarrow> (\<forall>i. \<not> cached s n i)"
  using cached_lt by (auto simp: buffer_of_def find_None_iff)

lemma view_cached: "cache_inv s \<Longrightarrow> cached s n i \<Longrightarrow> view s n = b_data (bufs s i)"
  by (simp add: view_def buffer_of_Some [THEN iffD2])

lemma view_uncached: "(\<And>i. \<not> cached s n i) \<Longrightarrow> view s n = disk s n"
  by (simp add: view_def buffer_of_None [THEN iffD2])

lemma refs_cached: "cache_inv s \<Longrightarrow> cached s n i \<Longrightarrow> refs s n = b_refcnt (bufs s i)"
  by (simp add: refs_def buffer_of_Some [THEN iffD2])

lemma refs_uncached: "(\<And>i. \<not> cached s n i) \<Longrightarrow> refs s n = 0"
  by (simp add: refs_def buffer_of_None [THEN iffD2])

lemma cache_bufs: "cache_inv s \<Longrightarrow> i < NBUF \<Longrightarrow> buf_ok (disk s) (bufs s i)"
  by (simp add: cache_inv_def)

lemma refs_nonneg: "cache_inv s \<Longrightarrow> 0 \<le> refs s n"
proof (cases "\<exists>i. cached s n i")
  case True
  then obtain i where i: "cached s n i" by blast
  assume inv: "cache_inv s"
  then show ?thesis using cache_bufs [OF inv cached_lt [OF i]] by (simp add: refs_cached [OF inv i] buf_ok_def)
qed (simp add: refs_uncached)

text \<open>A block nobody refers to is on the disk as it should be.\<close>

lemma view_clean: "cache_inv s \<Longrightarrow> refs s n = 0 \<Longrightarrow> view s n = disk s n"
proof (cases "\<exists>i. cached s n i")
  case True
  then obtain i where i: "cached s n i" by blast
  assume inv: "cache_inv s" and r: "refs s n = 0"
  have "b_refcnt (bufs s i) = 0" using r refs_cached [OF inv i] by simp
  moreover have "buf_ok (disk s) (bufs s i)" by (rule cache_bufs [OF inv cached_lt [OF i]])
  ultimately show ?thesis using i view_cached [OF inv i] by (auto simp: cached_def buf_ok_def split: if_splits)
qed (simp add: view_uncached)

lemma order_length: "order s xs \<Longrightarrow> set xs = {0..<NBUF} \<Longrightarrow> length xs = NBUF"
  using distinct_card [of xs] by (simp add: order_def)

lemma find_SomeD: "find P xs = Some x \<Longrightarrow> x \<in> set xs \<and> P x"
  by (induction xs) (auto split: if_splits)

lemma scan_nxt:
  assumes "cache_inv s"
  shows "scan (nxt s) P (NBUF + 1) (nxt s HEAD) = None \<longleftrightarrow> (\<forall>i < NBUF. \<not> P i)"
    "scan (nxt s) P (NBUF + 1) (nxt s HEAD) = Some i \<Longrightarrow> i < NBUF \<and> P i"
proof -
  obtain xs where xs: "order s xs" "set xs = {0..<NBUF}" using assms by (auto simp: cache_inv_def)
  then have "scan (nxt s) P (NBUF + 1) (nxt s HEAD) = find P xs"
    using order_length [OF xs] by (intro scan_find) (auto simp: order_def)
  then show "scan (nxt s) P (NBUF + 1) (nxt s HEAD) = None \<longleftrightarrow> (\<forall>i < NBUF. \<not> P i)"
    "scan (nxt s) P (NBUF + 1) (nxt s HEAD) = Some i \<Longrightarrow> i < NBUF \<and> P i"
    using xs(2) by (auto simp: find_None_iff dest: find_SomeD [OF sym])
qed

lemma scan_prv:
  assumes "cache_inv s"
  shows "scan (prv s) P (NBUF + 1) (prv s HEAD) = None \<longleftrightarrow> (\<forall>i < NBUF. \<not> P i)"
    "scan (prv s) P (NBUF + 1) (prv s HEAD) = Some i \<Longrightarrow> i < NBUF \<and> P i"
proof -
  obtain xs where xs: "order s xs" "set xs = {0..<NBUF}" using assms by (auto simp: cache_inv_def)
  then have "scan (prv s) P (NBUF + 1) (prv s HEAD) = find P (rev xs)"
    using order_length [OF xs] by (intro scan_find) (auto simp: order_def)
  then show "scan (prv s) P (NBUF + 1) (prv s HEAD) = None \<longleftrightarrow> (\<forall>i < NBUF. \<not> P i)"
    "scan (prv s) P (NBUF + 1) (prv s HEAD) = Some i \<Longrightarrow> i < NBUF \<and> P i"
    using xs(2) by (auto simp: find_None_iff dest: find_SomeD [OF sym])
qed

text \<open>The buffer that \<open>bread\<close> returns is the one of the block, or one that nobody refers to.\<close>

definition read_buf :: "int \<Rightarrow> bcache \<Rightarrow> nat \<Rightarrow> buf" where
  "read_buf pid s n = \<lparr>b_valid = True, b_dev = ROOTDEV, b_blockno = n,
     b_lock = \<lparr>sl_locked = True, sl_pid = pid\<rparr>, b_refcnt = refs s n + 1, b_data = view s n\<rparr>"

lemma bread_result:
  assumes inv: "cache_inv s" and "\<not> locked s n" and room: "refs s n \<noteq> 0 \<or> in_use s \<noteq> {0..<NBUF}"
  obtains b where "bread pid ROOTDEV n s = Ret (b, s\<lparr>bufs := (bufs s)(b := read_buf pid s n)\<rparr>)"
    "cached s n b \<or> (\<forall>i. \<not> cached s n i) \<and> b < NBUF \<and> b_refcnt (bufs s b) = 0"
proof (cases "scan (nxt s) (\<lambda>b. b_dev (bufs s b) = ROOTDEV \<and> b_blockno (bufs s b) = n) (NBUF + 1) (nxt s HEAD)")
  case (Some b)
  then have c: "cached s n b" using scan_nxt(2) [OF inv Some] by (simp add: cached_def)
  have ok: "buf_ok (disk s) (bufs s b)" by (rule cache_bufs [OF inv cached_lt [OF c]])
  have "\<not> sl_locked (b_lock (bufs s b))" using assms(2) c by (auto simp: locked_def)
  moreover have "b_valid (bufs s b)" using ok c by (auto simp: buf_ok_def cached_def split: if_splits)
  moreover have "(bufs s b)\<lparr>b_refcnt := b_refcnt (bufs s b) + 1, b_lock := (b_lock (bufs s b))\<lparr>sl_locked := True, sl_pid := pid\<rparr>\<rparr>
      = read_buf pid s n"
    using c calculation(2) by (intro buf.equality) (simp_all add: read_buf_def cached_def refs_cached [OF inv c] view_cached [OF inv c])
  ultimately have "bread pid ROOTDEV n s = Ret (b, s\<lparr>bufs := (bufs s)(b := read_buf pid s n)\<rparr>)"
    unfolding bread_def bget_def bget_ref_def bread_fill_def Some
    by (simp add: lock_buf_def acquiresleep_def upd_buf_def) (simp add: read_buf_def)
  with c that show ?thesis by blast
next
  case None
  then have nc: "\<not> cached s n i" for i using scan_nxt(1) [OF inv] by (auto simp: cached_def)
  then have "in_use s \<noteq> {0..<NBUF}" using room refs_uncached [OF nc] by auto
  then obtain j where "j < NBUF" "b_refcnt (bufs s j) = 0" by (auto simp: in_use_def)
  then obtain b where sc: "scan (prv s) (\<lambda>b. b_refcnt (bufs s b) = 0) (NBUF + 1) (prv s HEAD) = Some b"
    using scan_prv(1) [OF inv, of "\<lambda>b. b_refcnt (bufs s b) = 0"] by fastforce
  then have b: "b < NBUF" "b_refcnt (bufs s b) = 0" using scan_prv(2) [OF inv sc] by auto
  then have "\<not> sl_locked (b_lock (bufs s b))" using cache_bufs [OF inv b(1)] by (simp add: buf_ok_def)
  then have "bread pid ROOTDEV n s = Ret (b, s\<lparr>bufs := (bufs s)(b := read_buf pid s n)\<rparr>)"
    unfolding bread_def bget_def bget_ref_def bread_fill_def None option.case sc
    by (cases "b_lock (bufs s b)"; cases "bufs s b")
      (simp add: lock_buf_def acquiresleep_def upd_buf_def virtio_disk_rw_def read_buf_def
        refs_uncached [OF nc] view_uncached [OF nc])
  with b nc that show ?thesis by blast
qed

section \<open>Changing one buffer\<close>

definition put_buf :: "nat \<Rightarrow> buf \<Rightarrow> bcache \<Rightarrow> bcache" where
  "put_buf b x s = s\<lparr>bufs := (bufs s)(b := x)\<rparr>"

lemma put_buf_simps [simp]:
  "bufs (put_buf b x s) = (bufs s)(b := x)" "nxt (put_buf b x s) = nxt s" "prv (put_buf b x s) = prv s"
  "disk (put_buf b x s) = disk s" "issued (put_buf b x s) = issued s"
  by (simp_all add: put_buf_def)

text \<open>A buffer that may come to hold block \<open>n\<close>: the one that does, or if there is none, an idle one.\<close>

definition slot :: "bcache \<Rightarrow> nat \<Rightarrow> nat \<Rightarrow> bool" where
  "slot s n b \<longleftrightarrow> cached s n b \<or> (\<forall>i. \<not> cached s n i) \<and> b < NBUF \<and> b_refcnt (bufs s b) = 0"

lemma cached_put:
  assumes "cache_inv s" "slot s (b_blockno x) b" "b_dev x = ROOTDEV"
  shows "cached (put_buf b x s) n i \<longleftrightarrow> (if n = b_blockno x then i = b else cached s n i \<and> i \<noteq> b)"
proof -
  have "b < NBUF" using assms(2) by (auto simp: slot_def cached_def)
  moreover have only: "i = b" if "cached s (b_blockno x) i"
    using assms(1,2) that by (auto simp: slot_def intro: cached_unique)
  ultimately show ?thesis
  proof (cases "i = b")
    case False
    then have "cached (put_buf b x s) n i = cached s n i" by (simp add: cached_def)
    then show ?thesis using False only by auto
  qed (auto simp: cached_def assms(3))
qed

lemma put_inv:
  assumes "cache_inv s" "slot s (b_blockno x) b" "b_dev x = ROOTDEV" "buf_ok (disk s) x"
  shows "cache_inv (put_buf b x s)"
proof -
  have "\<exists>xs. order (put_buf b x s) xs \<and> set xs = {0..<NBUF}"
    using assms(1) by (simp add: cache_inv_def order_def)
  moreover have "\<forall>i < NBUF. buf_ok (disk s) (bufs (put_buf b x s) i)"
    using assms(1,4) by (simp add: cache_inv_def)
  moreover have "i = j" if "cached (put_buf b x s) n i" "cached (put_buf b x s) n j" for n i j
    using that unfolding cached_put [OF assms(1-3)] by (auto split: if_splits intro: cached_unique [OF assms(1)])
  ultimately show ?thesis unfolding cache_inv_def by (simp add: put_buf_simps(4)) blast
qed

lemma put_effect:
  assumes inv: "cache_inv s" and sl: "slot s (b_blockno x) b" and dev: "b_dev x = ROOTDEV" and ok: "buf_ok (disk s) x"
  shows "view (put_buf b x s) = (view s)(b_blockno x := b_data x)"
    "refs (put_buf b x s) = (refs s)(b_blockno x := b_refcnt x)"
    "locked (put_buf b x s) = (locked s)(b_blockno x := sl_locked (b_lock x))"
proof -
  let ?s = "put_buf b x s" and ?n = "b_blockno x"
  note inv' = put_inv [OF assms] and c = cached_put [OF inv sl dev]
  have "cached ?s ?n b" by (simp add: c)
  note here = view_cached [OF inv' this] refs_cached [OF inv' this]
  have other: "view ?s m = view s m \<and> refs ?s m = refs s m \<and> locked ?s m = locked s m" if m: "m \<noteq> ?n" for m
  proof (cases "cached s m b")
    case True
    then have idle: "b_refcnt (bufs s b) = 0" using sl m by (auto simp: slot_def cached_def)
    have only: "i = b" if "cached s m i" for i using cached_unique [OF inv True that] by simp
    have "refs s m = 0" using refs_cached [OF inv True] idle by simp
    moreover from this have "view s m = disk s m" by (rule view_clean [OF inv])
    moreover have "\<not> locked s m"
      using cache_bufs [OF inv cached_lt [OF True]] idle only by (auto simp: locked_def buf_ok_def)
    moreover have none: "\<not> cached ?s m i" for i using c [of m i] m only by auto
    ultimately show ?thesis by (simp add: view_uncached refs_uncached locked_def)
  next
    case False
    have same: "cached ?s m i = cached s m i" for i using c m False by auto
    show ?thesis
    proof (cases "\<exists>i. cached s m i")
      case True
      then obtain i where i: "cached s m i" by blast
      then have "i \<noteq> b" using False by blast
      then have eq: "bufs ?s i = bufs s i" by simp
      have i': "cached ?s m i" using i same by simp
      have "locked ?s m = locked s m"
        unfolding locked_def same using eq cached_unique [OF inv i] by metis
      then show ?thesis
        using view_cached [OF inv i] refs_cached [OF inv i] view_cached [OF inv' i'] refs_cached [OF inv' i'] eq by simp
    qed (simp add: view_uncached refs_uncached locked_def same)
  qed
  show "view ?s = (view s)(?n := b_data x)" "refs ?s = (refs s)(?n := b_refcnt x)"
    using here other by auto
  show "locked ?s = (locked s)(?n := sl_locked (b_lock x))"
  proof (rule ext)
    fix m show "locked ?s m = ((locked s)(?n := sl_locked (b_lock x))) m"
      using other [of m] by (cases "m = ?n") (auto simp: locked_def c)
  qed
qed

text \<open>Only blocks with references keep buffers busy.\<close>

lemma refs_in_use:
  assumes "cache_inv s"
  shows "{n. refs s n \<noteq> 0} = (\<lambda>i. b_blockno (bufs s i)) ` in_use s" "inj_on (\<lambda>i. b_blockno (bufs s i)) (in_use s)"
proof -
  have dev: "cached s (b_blockno (bufs s i)) i" if "i \<in> in_use s" for i
    using that cache_bufs [OF assms, of i] by (auto simp: in_use_def cached_def buf_ok_def split: if_splits)
  show "{n. refs s n \<noteq> 0} = (\<lambda>i. b_blockno (bufs s i)) ` in_use s"
  proof (rule set_eqI)
    fix n
    show "n \<in> {n. refs s n \<noteq> 0} \<longleftrightarrow> n \<in> (\<lambda>i. b_blockno (bufs s i)) ` in_use s"
    proof (cases "\<exists>i. cached s n i")
      case True
      then obtain i where i: "cached s n i" by blast
      then have "i \<in> in_use s \<longleftrightarrow> refs s n \<noteq> 0" "b_blockno (bufs s i) = n"
        by (auto simp: in_use_def cached_def refs_cached [OF assms i])
      moreover have "j = i" if "j \<in> in_use s" "b_blockno (bufs s j) = n" for j
        using dev [OF that(1)] that(2) cached_unique [OF assms i] by auto
      ultimately show ?thesis by auto
    next
      case False
      then show ?thesis using refs_uncached [of s n] dev by force
    qed
  qed
  show "inj_on (\<lambda>i. b_blockno (bufs s i)) (in_use s)"
    by (rule inj_onI) (metis dev cached_unique [OF assms])
qed

lemma busy_card: "cache_inv s \<Longrightarrow> card {n. refs s n \<noteq> 0} = card (in_use s) \<and> finite {n. refs s n \<noteq> 0}"
  using refs_in_use [of s] card_image [of "\<lambda>i. b_blockno (bufs s i)" "in_use s"] by (simp add: in_use_def)

definition room :: "bcache \<Rightarrow> nat \<Rightarrow> bool" where
  "room s n \<longleftrightarrow> refs s n \<noteq> 0 \<or> card {m. refs s m \<noteq> 0} < NBUF"

lemma room_in_use: "cache_inv s \<Longrightarrow> room s n \<longleftrightarrow> refs s n \<noteq> 0 \<or> in_use s \<noteq> {0..<NBUF}"
proof -
  assume inv: "cache_inv s"
  have sub: "in_use s \<subseteq> {0..<NBUF}" by (auto simp: in_use_def)
  have "card (in_use s) < NBUF \<longleftrightarrow> in_use s \<noteq> {0..<NBUF}"
  proof
    assume "in_use s \<noteq> {0..<NBUF}"
    then have "in_use s \<subset> {0..<NBUF}" using sub by blast
    from psubset_card_mono [OF _ this] show "card (in_use s) < NBUF" by simp
  qed auto
  then show ?thesis using busy_card [OF inv] by (simp add: room_def)
qed

section \<open>What the operations do\<close>

text \<open>Process \<open>pid\<close> has block \<open>n\<close> locked in buffer \<open>b\<close>.\<close>

definition holds :: "int \<Rightarrow> bcache \<Rightarrow> nat \<Rightarrow> nat \<Rightarrow> bool" where
  "holds pid s n b \<longleftrightarrow> cached s n b \<and> holdingsleep pid (b_lock (bufs s b))"

lemma holds_refs: "cache_inv s \<Longrightarrow> holds pid s n b \<Longrightarrow> 0 < refs s n"
  using cache_bufs [of s b] cached_lt [of s n b] refs_cached [of s n b]
  by (auto simp: holds_def buf_ok_def holdingsleep_def order_le_less)

lemma holds_slot: "holds pid s n b \<Longrightarrow> slot s n b"
  by (simp add: holds_def slot_def)

lemma bread_spec:
  assumes inv: "cache_inv s" and "\<not> locked s n" "room s n"
  obtains b s' where "bread pid ROOTDEV n s = Ret (b, s')" "cache_inv s'" "holds pid s' n b"
    "view s' = view s" "refs s' = (refs s)(n := refs s n + 1)" "disk s' = disk s" "issued s' = issued s"
    "locked s' = (locked s)(n := True)" "\<And>m c. holds pid s m c \<Longrightarrow> m \<noteq> n \<Longrightarrow> holds pid s' m c"
proof -
  obtain b where b: "bread pid ROOTDEV n s = Ret (b, put_buf b (read_buf pid s n) s)" "slot s n b"
    using bread_result [OF inv assms(2), of pid] assms(3) room_in_use [OF inv, of n]
    unfolding put_buf_def slot_def by blast
  let ?x = "read_buf pid s n"
  have ok: "buf_ok (disk s) ?x" using refs_nonneg [OF inv, of n] by (simp add: read_buf_def buf_ok_def)
  have x: "slot s (b_blockno ?x) b" "b_dev ?x = ROOTDEV" using b(2) by (simp_all add: read_buf_def)
  note eff = put_inv [OF inv x ok] put_effect [OF inv x ok]
  have h: "holds pid (put_buf b ?x s) n b"
    using cached_put [OF inv x, of n b] by (simp add: holds_def holdingsleep_def read_buf_def)
  have keep: "holds pid (put_buf b ?x s) m c" if hm: "holds pid s m c" "m \<noteq> n" for m c
  proof -
    have c: "cached s m c" "sl_locked (b_lock (bufs s c))" using hm(1) by (auto simp: holds_def holdingsleep_def)
    have "b_refcnt (bufs s c) \<noteq> 0" using cache_bufs [OF inv cached_lt [OF c(1)]] c(2) by (auto simp: buf_ok_def)
    then have "c \<noteq> b" using b(2) hm(2) c(1) by (auto simp: slot_def cached_def)
    then show ?thesis using hm cached_put [OF inv x, of m c] by (simp add: holds_def read_buf_def)
  qed
  show thesis
    by (rule that [OF b(1) eff(1) h]) (use eff keep in \<open>simp_all add: read_buf_def\<close>)
qed

text \<open>Changing the buffer one holds: the block, the device and the lock stay.\<close>

lemma held_update:
  assumes inv: "cache_inv s" and h: "holds pid s n b"
    and x: "b_blockno x = n" "b_dev x = ROOTDEV" "b_lock x = b_lock (bufs s b)" "b_valid x" "0 < b_refcnt x"
  shows "cache_inv (put_buf b x s)" "view (put_buf b x s) = (view s)(n := b_data x)"
    "refs (put_buf b x s) = (refs s)(n := b_refcnt x)" "locked (put_buf b x s) = locked s"
    "holds pid s m c \<Longrightarrow> holds pid (put_buf b x s) m c"
proof -
  have c: "cached s n b" and l: "sl_locked (b_lock (bufs s b))" using h by (auto simp: holds_def holdingsleep_def)
  have sl: "slot s (b_blockno x) b" using c x(1) by (simp add: slot_def)
  have ok: "buf_ok (disk s) x" using x by (auto simp: buf_ok_def)
  show "cache_inv (put_buf b x s)" by (rule put_inv [OF inv sl x(2) ok])
  show "view (put_buf b x s) = (view s)(n := b_data x)" "refs (put_buf b x s) = (refs s)(n := b_refcnt x)"
    using put_effect(1,2) [OF inv sl x(2) ok] x(1) by simp_all
  have "locked s n" using c l by (auto simp: locked_def)
  then show "locked (put_buf b x s) = locked s"
    using put_effect(3) [OF inv sl x(2) ok] x(1,3) l by (simp add: fun_upd_idem)
  show "holds pid (put_buf b x s) m c" if hm: "holds pid s m c"
  proof (cases "c = b")
    case True
    then have "m = n" using hm c by (simp add: holds_def cached_def)
    then show ?thesis using hm True cached_put [OF inv sl x(2), of m c] x(1,3) by (simp add: holds_def)
  next
    case False
    then have "m \<noteq> n" using hm cached_unique [OF inv c] by (auto simp: holds_def)
    then show ?thesis using hm False cached_put [OF inv sl x(2), of m c] x(1) by (simp add: holds_def)
  qed
qed

lemma held_buf:
  assumes "cache_inv s" "holds pid s n b"
  shows "b_blockno (bufs s b) = n" "b_dev (bufs s b) = ROOTDEV" "b_valid (bufs s b)" "0 < b_refcnt (bufs s b)"
    "b_refcnt (bufs s b) = refs s n" "b_data (bufs s b) = view s n"
proof -
  have c: "cached s n b" using assms(2) by (simp add: holds_def)
  show "b_blockno (bufs s b) = n" "b_dev (bufs s b) = ROOTDEV" using c by (auto simp: cached_def)
  show "b_refcnt (bufs s b) = refs s n" "b_data (bufs s b) = view s n"
    using refs_cached [OF assms(1) c] view_cached [OF assms(1) c] by simp_all
  then show "0 < b_refcnt (bufs s b)" using holds_refs [OF assms] by simp
  show "b_valid (bufs s b)" using cache_bufs [OF assms(1) cached_lt [OF c]] c by (auto simp: buf_ok_def cached_def)
qed

lemma upd_buf_put: "upd_buf b f s = put_buf b (f (bufs s b)) s"
  by (simp add: upd_buf_def put_buf_def)

text \<open>Filling the buffer one holds.\<close>

definition set_data :: "nat \<Rightarrow> block \<Rightarrow> bcache \<Rightarrow> bcache" where
  "set_data b d s = upd_buf b (b_data_update (\<lambda>_. d)) s"

lemma set_data_spec:
  assumes "cache_inv s" "holds pid s n b"
  shows "cache_inv (set_data b d s)" "view (set_data b d s) = (view s)(n := d)" "refs (set_data b d s) = refs s"
    "locked (set_data b d s) = locked s" "holds pid s m c \<Longrightarrow> holds pid (set_data b d s) m c"
    "disk (set_data b d s) = disk s" "issued (set_data b d s) = issued s"
  using held_update [OF assms, of "(bufs s b)\<lparr>b_data := d\<rparr>"] held_buf [OF assms]
  by (simp_all add: set_data_def upd_buf_put fun_upd_idem)

lemma bpin_spec:
  assumes "cache_inv s" "holds pid s n b"
  shows "cache_inv (bpin b s)" "view (bpin b s) = view s" "refs (bpin b s) = (refs s)(n := refs s n + 1)"
    "locked (bpin b s) = locked s" "holds pid s m c \<Longrightarrow> holds pid (bpin b s) m c"
    "disk (bpin b s) = disk s" "issued (bpin b s) = issued s"
  using held_update [OF assms, of "(bufs s b)\<lparr>b_refcnt := b_refcnt (bufs s b) + 1\<rparr>"] held_buf [OF assms]
  by (simp_all add: bpin_def upd_buf_put fun_upd_idem)

lemma bunpin_spec:
  assumes "cache_inv s" "holds pid s n b" "1 < refs s n"
  shows "cache_inv (bunpin b s)" "view (bunpin b s) = view s" "refs (bunpin b s) = (refs s)(n := refs s n - 1)"
    "locked (bunpin b s) = locked s" "holds pid s m c \<Longrightarrow> holds pid (bunpin b s) m c"
    "disk (bunpin b s) = disk s" "issued (bunpin b s) = issued s"
  using held_update [OF assms(1,2), of "(bufs s b)\<lparr>b_refcnt := b_refcnt (bufs s b) - 1\<rparr>"] held_buf [OF assms(1,2)] assms(3)
  by (simp_all add: bunpin_def upd_buf_put fun_upd_idem)

lemma same_bufs:
  assumes "bufs s' = bufs s"
  shows "cached s' = cached s" "refs s' = refs s" "locked s' = locked s" "holds pid s' = holds pid s"
proof -
  show c: "cached s' = cached s" using assms by (intro ext) (simp add: cached_def)
  show "refs s' = refs s" "locked s' = locked s" "holds pid s' = holds pid s"
    by (intro ext, simp only: refs_def locked_def holds_def buffer_of_def c assms)+
qed

lemma bwrite_spec:
  assumes inv: "cache_inv s" and h: "holds pid s n b"
  obtains s' where "bwrite pid b s = Ret s'" "cache_inv s'" "view s' = view s" "refs s' = refs s" "locked s' = locked s"
    "\<And>m c. holds pid s m c \<Longrightarrow> holds pid s' m c" "disk s' = (disk s)(n := view s n)"
    "issued s' = issued s @ [(n, view s n)]"
proof -
  let ?s = "virtio_disk_rw b True s"
  note b = held_buf [OF inv h]
  have c: "cached s n b" using h by (simp add: holds_def)
  have s: "bufs ?s = bufs s" "nxt ?s = nxt s" "prv ?s = prv s" "disk ?s = (disk s)(n := view s n)"
    "issued ?s = issued s @ [(n, view s n)]"
    using b by (simp_all add: virtio_disk_rw_def Let_def)
  have cs: "cached ?s m i = cached s m i" for m i by (simp add: cached_def s)
  have "buf_ok (disk ?s) (bufs ?s i)" if i: "i < NBUF" for i
  proof (cases "cached s n i")
    case True
    then have "i = b" using cached_unique [OF inv c] by simp
    then show ?thesis using cache_bufs [OF inv i] b by (auto simp: s buf_ok_def)
  next
    case False
    then show ?thesis using cache_bufs [OF inv i] i by (auto simp: s buf_ok_def cached_def split: if_splits)
  qed
  then have inv': "cache_inv ?s"
    using inv unfolding cache_inv_def cs by (simp add: order_def s)
  have "view ?s = view s"
  proof (rule ext)
    fix m show "view ?s m = view s m"
    proof (cases "\<exists>i. cached s m i")
      case True
      then obtain i where i: "cached s m i" by blast
      then show ?thesis using view_cached [OF inv i] view_cached [OF inv', of m i] cs by (simp add: s)
    next
      case False
      then have "m \<noteq> n" using c by blast
      then show ?thesis using False by (simp add: view_uncached cs s)
    qed
  qed
  moreover note same_bufs(2,3) [OF s(1)] same_bufs(4) [OF s(1), where pid = pid]
  moreover have "bwrite pid b s = Ret ?s" using h by (simp add: bwrite_def holds_def)
  ultimately show thesis using inv' s that by metis
qed

text \<open>Moving a buffer to the front changes nothing else.\<close>

lemma move_front:
  assumes "cache_inv s" "b < NBUF"
  shows "cache_inv (push_front b (unlink_buf b s))"
    "bufs (push_front b (unlink_buf b s)) = bufs s" "disk (push_front b (unlink_buf b s)) = disk s"
    "issued (push_front b (unlink_buf b s)) = issued s"
proof -
  show same: "bufs (push_front b (unlink_buf b s)) = bufs s" "disk (push_front b (unlink_buf b s)) = disk s"
    "issued (push_front b (unlink_buf b s)) = issued s"
    by (simp_all add: push_front_def unlink_buf_def set_nxt_def set_prv_def Let_def)
  obtain zs where zs: "order s zs" "set zs = {0..<NBUF}" using assms(1) by (auto simp: cache_inv_def)
  then obtain xs ys where xy: "zs = xs @ b # ys" using assms(2) by (metis atLeastLessThan_iff split_list zero_le)
  have "order (unlink_buf b s) (xs @ ys)" using unlink_order zs(1) xy by simp
  moreover have "b \<notin> set (HEAD # xs @ ys)" using zs xy assms(2) by (auto simp: order_def)
  ultimately have "order (push_front b (unlink_buf b s)) (b # xs @ ys)" by (rule push_front_order)
  moreover have "set (b # xs @ ys) = {0..<NBUF}" using zs(2) xy by auto
  ultimately show "cache_inv (push_front b (unlink_buf b s))"
    using assms(1) unfolding cache_inv_def cached_def same by blast
qed

lemma brelse_spec:
  assumes inv: "cache_inv s" and h: "holds pid s n b" and clean: "refs s n = 1 \<Longrightarrow> view s n = disk s n"
  obtains s' where "brelse pid b s = Ret s'" "cache_inv s'" "view s' = view s" "refs s' = (refs s)(n := refs s n - 1)"
    "locked s' = (locked s)(n := False)" "disk s' = disk s" "issued s' = issued s"
    "\<And>m c. holds pid s m c \<Longrightarrow> m \<noteq> n \<Longrightarrow> holds pid s' m c"
proof -
  let ?x = "(bufs s b)\<lparr>b_lock := releasesleep (b_lock (bufs s b)), b_refcnt := b_refcnt (bufs s b) - 1\<rparr>"
  let ?s = "put_buf b ?x s"
  note b = held_buf [OF inv h]
  have c: "cached s n b" using h by (simp add: holds_def)
  then have sl: "slot s (b_blockno ?x) b" using b by (simp add: slot_def)
  have ok: "buf_ok (disk s) ?x" using b clean by (auto simp: buf_ok_def releasesleep_def)
  have dev: "b_dev ?x = ROOTDEV" using b by simp
  note eff = put_inv [OF inv sl dev ok] put_effect [OF inv sl dev ok]
  have keep: "holds pid ?s m c'" if "holds pid s m c'" "m \<noteq> n" for m c'
    using that cached_put [OF inv sl dev, of m c'] b c by (auto simp: holds_def cached_def)
  define s' where "s' = (if b_refcnt ?x = 0 then push_front b (unlink_buf b ?s) else ?s)"
  have ret: "brelse pid b s = Ret s'"
    using h by (simp add: brelse_def holds_def upd_buf_put s'_def Let_def)
  note mf = move_front [OF eff(1) cached_lt [OF c]]
  have inv': "cache_inv s'" using eff(1) mf(1) unfolding s'_def by presburger
  have bufs': "bufs s' = bufs ?s" using mf(2) unfolding s'_def by presburger
  have "s' = push_front b (unlink_buf b ?s) \<or> s' = ?s" unfolding s'_def by presburger
  then have disk': "disk s' = disk s" "issued s' = issued s"
    by (elim disjE; simp only: mf(3,4) put_buf_simps)+
  have view': "view s' = view ?s"
    by (rule ext) (simp only: view_def buffer_of_def same_bufs(1) [OF bufs'] bufs' disk' put_buf_simps(4))
  note sb = same_bufs(1-3) [OF bufs'] same_bufs(4) [OF bufs', where pid = pid]
  show thesis
  proof (rule that [OF ret inv'])
    show "view s' = view s" "refs s' = (refs s)(n := refs s n - 1)" "locked s' = (locked s)(n := False)"
      using eff(2-4) b view' sb by (simp_all add: releasesleep_def fun_upd_idem)
    show "holds pid s' m c" if "holds pid s m c" "m \<noteq> n" for m c using keep [OF that] sb(4) by simp
  qed (rule disk')+
qed

section \<open>Starting up\<close>

lemma order_upd_buf: "order (upd_buf b f s) xs = order s xs"
  by (simp add: order_def upd_buf_def)

lemma binit_order:
  "k \<le> NBUF \<Longrightarrow> order (fold (\<lambda>b s. push_front b (upd_buf b (b_lock_update (\<lambda>_. initsleeplock)) s)) [0..<k]
      (set_nxt HEAD HEAD (set_prv HEAD HEAD s))) (rev [0..<k])"
proof (induction k)
  case 0
  show ?case by (simp add: order_def set_nxt_def set_prv_def)
next
  case (Suc k)
  then show ?case by (auto intro!: push_front_order simp: order_upd_buf)
qed

lemma push_front_bufs: "bufs (push_front b s) = bufs s" "disk (push_front b s) = disk s" "issued (push_front b s) = issued s"
  by (simp_all add: push_front_def set_nxt_def set_prv_def Let_def)

lemma binit_bufs:
  "bufs (fold (\<lambda>b s. push_front b (upd_buf b (b_lock_update (\<lambda>_. initsleeplock)) s)) bs s0) =
     (\<lambda>i. if i \<in> set bs then (bufs s0 i)\<lparr>b_lock := initsleeplock\<rparr> else bufs s0 i)"
  "disk (fold (\<lambda>b s. push_front b (upd_buf b (b_lock_update (\<lambda>_. initsleeplock)) s)) bs s0) = disk s0"
  "issued (fold (\<lambda>b s. push_front b (upd_buf b (b_lock_update (\<lambda>_. initsleeplock)) s)) bs s0) = issued s0"
  by (induction bs arbitrary: s0) (auto simp: push_front_bufs upd_buf_def fun_eq_iff)

lemma binit_spec:
  "cache_inv (binit (boot_cache d))" "view (binit (boot_cache d)) = d" "refs (binit (boot_cache d)) = (\<lambda>_. 0)"
  "locked (binit (boot_cache d)) = (\<lambda>_. False)" "disk (binit (boot_cache d)) = d" "issued (binit (boot_cache d)) = []"
proof -
  let ?s = "binit (boot_cache d)"
  have s: "bufs ?s = (\<lambda>_. zero_buf)" "disk ?s = d" "issued ?s = []"
    unfolding binit_def Let_def binit_bufs
    by (simp_all add: boot_cache_def set_nxt_def set_prv_def zero_buf_def fun_eq_iff)
  have nc: "\<not> cached ?s n i" for n i by (simp add: cached_def s zero_buf_def)
  have "order ?s (rev [0..<NBUF])" unfolding binit_def Let_def by (rule binit_order) simp
  moreover have "set (rev [0..<NBUF]) = {0..<NBUF}" by simp
  moreover have "buf_ok d zero_buf" by (simp add: buf_ok_def zero_buf_def initsleeplock_def)
  ultimately show "cache_inv ?s" unfolding cache_inv_def s using nc by blast
  show "view ?s = d" "refs ?s = (\<lambda>_. 0)" "locked ?s = (\<lambda>_. False)"
    using nc by (auto simp: fun_eq_iff view_uncached refs_uncached s locked_def)
  show "disk ?s = d" "issued ?s = []" by (rule s)+
qed

section \<open>When \<open>bread\<close> does not return\<close>

lemma bread_sleeps: "cache_inv s \<Longrightarrow> locked s n \<Longrightarrow> bread pid ROOTDEV n s = Sleeps"
proof -
  assume inv: "cache_inv s" and "locked s n"
  then obtain i where i: "cached s n i" "sl_locked (b_lock (bufs s i))" by (auto simp: locked_def)
  let ?P = "\<lambda>b. b_dev (bufs s b) = ROOTDEV \<and> b_blockno (bufs s b) = n"
  have "scan (nxt s) ?P (NBUF + 1) (nxt s HEAD) \<noteq> None"
    unfolding scan_nxt(1) [OF inv] using i(1) by (auto simp: cached_def)
  then obtain b where b: "scan (nxt s) ?P (NBUF + 1) (nxt s HEAD) = Some b" by blast
  then have "cached s n b" using scan_nxt(2) [OF inv b] by (simp add: cached_def)
  then have "b = i" using cached_unique [OF inv _ i(1)] by blast
  then show ?thesis unfolding bread_def bget_def bget_ref_def b using i(2) by (simp add: lock_buf_def acquiresleep_def upd_buf_def)
qed

lemma bread_panics:
  assumes inv: "cache_inv s" and "\<not> room s n"
  shows "bread pid ROOTDEV n s = Panics ''bget: no buffers''"
proof -
  have full: "refs s n = 0" "in_use s = {0..<NBUF}" using assms(2) unfolding room_in_use [OF inv] by simp_all
  have nc: "\<not> cached s n i" for i
  proof
    assume c: "cached s n i"
    then have "i \<notin> in_use s" using refs_cached [OF inv c] full(1) by (simp add: in_use_def)
    then show False using cached_lt [OF c] unfolding full(2) by simp
  qed
  let ?P = "\<lambda>b. b_dev (bufs s b) = ROOTDEV \<and> b_blockno (bufs s b) = n"
  have 1: "scan (nxt s) ?P (NBUF + 1) (nxt s HEAD) = None"
    unfolding scan_nxt(1) [OF inv] using nc by (auto simp: cached_def)
  have 2: "scan (prv s) (\<lambda>b. b_refcnt (bufs s b) = 0) (NBUF + 1) (prv s HEAD) = None"
    unfolding scan_prv(1) [OF inv]
  proof (intro allI impI)
    fix i assume "i < NBUF"
    then have "i \<in> in_use s" unfolding full(2) by simp
    then show "b_refcnt (bufs s i) \<noteq> 0" by (simp add: in_use_def)
  qed
  show ?thesis unfolding bread_def bget_def bget_ref_def 1 2 by simp
qed

section \<open>Waiting for a buffer\<close>

lemma bread_put:
  assumes "cache_inv s" "bread pid ROOTDEV n s = Ret (b, s')"
  shows "\<not> locked s n" "room s n" "s' = put_buf b (read_buf pid s n) s" "slot s n b"
proof -
  show free: "\<not> locked s n" "room s n" using assms bread_sleeps [OF assms(1)] bread_panics [OF assms(1)] by force+
  obtain c where "bread pid ROOTDEV n s = Ret (c, put_buf c (read_buf pid s n) s)" "slot s n c"
    using bread_result [OF assms(1) free(1), of pid] free(2) room_in_use [OF assms(1), of n]
    unfolding put_buf_def slot_def by blast
  then show "s' = put_buf b (read_buf pid s n) s" "slot s n b" using assms(2) by auto
qed

text \<open>A buffer that somebody refers to keeps its block while others read.\<close>

lemma bread_keeps_cached:
  assumes inv: "cache_inv s" and r: "bread pid ROOTDEV n s = Ret (b, s')" and c: "cached s m i" "refs s m \<noteq> 0"
  shows "cached s' m i"
proof -
  note p = bread_put [OF inv r]
  have x: "slot s (b_blockno (read_buf pid s n)) b" "b_dev (read_buf pid s n) = ROOTDEV"
    using p(4) by (simp_all add: read_buf_def)
  have "b_refcnt (bufs s i) \<noteq> 0" using c refs_cached [OF inv c(1)] by simp
  then show ?thesis
    unfolding p(3) cached_put [OF inv x] using p(4) c(1) cached_unique [OF inv c(1), of b]
    by (auto simp: slot_def read_buf_def cached_def)
qed

lemma bread_current:
  assumes "cache_inv s" "bread pid ROOTDEV n s = Ret (b, s')"
  shows "cache_inv s'" "holds pid s' n b" "b_data (bufs s' b) = view s n" "view s' = view s"
    "refs s' = (refs s)(n := refs s n + 1)" "disk s' = disk s" "locked s' = (locked s)(n := True)"
proof -
  show eff: "cache_inv s'" "holds pid s' n b" "view s' = view s" "refs s' = (refs s)(n := refs s n + 1)"
    "disk s' = disk s" "locked s' = (locked s)(n := True)"
    using bread_spec [OF assms(1) bread_put(1,2) [OF assms], of pid] assms(2)
    by (metis outcome.inject(1) prod.inject)+
  show "b_data (bufs s' b) = view s n" using held_buf(6) [OF eff(1,2)] eff(3) by simp
qed

text \<open>A caller that waits for a locked buffer has taken its reference, nothing else.\<close>

lemma cached_same:
  assumes "\<And>i. b_dev (bufs s' i) = b_dev (bufs s i)" "\<And>i. b_blockno (bufs s' i) = b_blockno (bufs s i)"
  shows "cached s' = cached s"
  using assms by (intro ext) (simp add: cached_def)

lemma cached_ops:
  "cached (set_data b d s) = cached s" "cached (bpin b s) = cached s" "cached (bunpin b s) = cached s"
  "bwrite pid b s = Ret s' \<Longrightarrow> cached s' = cached s" "brelse pid b s = Ret s' \<Longrightarrow> cached s' = cached s"
  by (rule cached_same; auto simp: set_data_def bpin_def bunpin_def upd_buf_def bwrite_def virtio_disk_rw_def
        brelse_def push_front_def unlink_buf_def set_nxt_def set_prv_def Let_def split: if_splits)+

lemma bget_waits:
  assumes inv: "cache_inv s" and w: "bget pid ROOTDEV n s = Sleeps" "bget_ref ROOTDEV n s = Ret (b, s')"
  shows "locked s n" "cached s n b" "s' = bpin b s" "\<exists>q. holds q s n b"
proof -
  have "bread pid ROOTDEV n s = Sleeps" using w(1) by (simp add: bread_def)
  then show l: "locked s n" using bread_spec [OF inv] bread_panics [OF inv] by (metis outcome.distinct(1,5))
  then obtain i where i: "cached s n i" "sl_locked (b_lock (bufs s i))" by (auto simp: locked_def)
  let ?P = "\<lambda>b. b_dev (bufs s b) = ROOTDEV \<and> b_blockno (bufs s b) = n"
  have "scan (nxt s) ?P (NBUF + 1) (nxt s HEAD) \<noteq> None"
    unfolding scan_nxt(1) [OF inv] using i(1) by (auto simp: cached_def)
  then obtain c where c: "scan (nxt s) ?P (NBUF + 1) (nxt s HEAD) = Some c" by blast
  then have "cached s n c" using scan_nxt(2) [OF inv c] by (simp add: cached_def)
  moreover have "b = c" "s' = bpin c s" using w(2) c by (auto simp: bget_ref_def bpin_def)
  ultimately show b: "cached s n b" "s' = bpin b s" by simp_all
  then have "b = i" using cached_unique [OF inv _ i(1)] by blast
  then show "\<exists>q. holds q s n b" using i by (auto simp: holds_def holdingsleep_def)
qed

lemma resume_spec:
  assumes inv: "cache_inv s" and c: "cached s n b" "0 < refs s n" and l: "lock_buf pid b s = Ret (b', s1)"
  shows "cache_inv (bread_fill b s1)" "view (bread_fill b s1) = view s" "refs (bread_fill b s1) = refs s"
    "disk (bread_fill b s1) = disk s" "locked (bread_fill b s1) = (locked s)(n := True)" "\<not> locked s n"
    "cached (bread_fill b s1) = cached s" "holds pid (bread_fill b s1) n b" "b_data (bufs (bread_fill b s1) b) = view s n"
proof -
  let ?x = "(bufs s b)\<lparr>b_lock := (b_lock (bufs s b))\<lparr>sl_locked := True, sl_pid := pid\<rparr>\<rparr>"
  have free: "\<not> sl_locked (b_lock (bufs s b))" and s1: "s1 = put_buf b ?x s"
    using l by (auto simp: lock_buf_def acquiresleep_def upd_buf_put split: option.splits if_splits)
  have b: "b < NBUF" "b_dev (bufs s b) = ROOTDEV" "b_blockno (bufs s b) = n" using c(1) by (auto simp: cached_def)
  have ok: "buf_ok (disk s) (bufs s b)" by (rule cache_bufs [OF inv b(1)])
  then have v: "b_valid (bufs s b)" using b(2) by (auto simp: buf_ok_def)
  have fill: "bread_fill b s1 = put_buf b ?x s" using v by (simp add: bread_fill_def s1)
  have sl: "slot s (b_blockno ?x) b" "b_dev ?x = ROOTDEV" using b c(1) by (simp_all add: slot_def)
  have rf: "b_refcnt (bufs s b) = refs s n" using refs_cached [OF inv c(1)] by simp
  have okx: "buf_ok (disk s) ?x" using ok c(2) rf b(2) by (auto simp: buf_ok_def)
  note eff = put_inv [OF inv sl okx] put_effect [OF inv sl okx]
  show "cache_inv (bread_fill b s1)" "disk (bread_fill b s1) = disk s"
    "locked (bread_fill b s1) = (locked s)(n := True)"
    using eff b by (simp_all add: fill)
  have "b_data ?x = view s n" "b_refcnt ?x = refs s n" "b_blockno ?x = n"
    using view_cached [OF inv c(1)] rf b(3) by simp_all
  then show "view (bread_fill b s1) = view s" "refs (bread_fill b s1) = refs s"
    unfolding fill eff(2,3) by (simp_all only: fun_upd_triv)
  show "\<not> locked s n" unfolding locked_def using free cached_unique [OF inv c(1)] by metis
  show same: "cached (bread_fill b s1) = cached s" by (rule cached_same) (simp_all add: fill)
  show "holds pid (bread_fill b s1) n b" using c(1) same by (simp add: holds_def holdingsleep_def fill)
  show "b_data (bufs (bread_fill b s1) b) = view s n" using view_cached [OF inv c(1)] by (simp add: fill)
qed

section \<open>Processes on the cache\<close>

text \<open>
  The calls of any number of processes, one after the other. Beside the cache, a run records who waits
  for which buffer (process, block, buffer), how many pins the log has on a block, and which blocks
  were changed in their buffer and not written since. The discipline of \<open>fs.c\<close> and \<open>log.c\<close> is
  stated over these records: a changed buffer is only released when it is pinned, and only a pin is taken back. The
  code keeps to it except in \<open>writei\<close> when copying from the user fails half way through a block: that release of a changed buffer, neither
  logged nor written, is not a step here.
\<close>

record cache_run =
  cr_cache :: bcache
  cr_waiting :: "(int \<times> nat \<times> nat) list"
  cr_pins :: "nat \<Rightarrow> nat"
  cr_dirty :: "nat set"

inductive cache_step :: "cache_run \<Rightarrow> cache_run \<Rightarrow> bool" where
  reads: "bread pid ROOTDEV n (cr_cache c) = Ret (b, s') \<Longrightarrow> cache_step c (c\<lparr>cr_cache := s'\<rparr>)"
| waits: "bget pid ROOTDEV n (cr_cache c) = Sleeps \<Longrightarrow> bget_ref ROOTDEV n (cr_cache c) = Ret (b, s') \<Longrightarrow>
    cache_step c (c\<lparr>cr_cache := s', cr_waiting := (pid, n, b) # cr_waiting c\<rparr>)"
| resumes: "(pid, n, b) \<in> set (cr_waiting c) \<Longrightarrow> lock_buf pid b (cr_cache c) = Ret (b, s1) \<Longrightarrow>
    cache_step c (c\<lparr>cr_cache := bread_fill b s1, cr_waiting := remove1 (pid, n, b) (cr_waiting c)\<rparr>)"
| modifies: "holds pid (cr_cache c) n b \<Longrightarrow>
    cache_step c (c\<lparr>cr_cache := set_data b d (cr_cache c), cr_dirty := insert n (cr_dirty c)\<rparr>)"
| flushes: "holds pid (cr_cache c) n b \<Longrightarrow> bwrite pid b (cr_cache c) = Ret s' \<Longrightarrow>
    cache_step c (c\<lparr>cr_cache := s', cr_dirty := cr_dirty c - {n}\<rparr>)"
| pins: "holds pid (cr_cache c) n b \<Longrightarrow>
    cache_step c (c\<lparr>cr_cache := bpin b (cr_cache c), cr_pins := (cr_pins c)(n := cr_pins c n + 1)\<rparr>)"
| unpins: "holds pid (cr_cache c) n b \<Longrightarrow> 0 < cr_pins c n \<Longrightarrow>
    cache_step c (c\<lparr>cr_cache := bunpin b (cr_cache c), cr_pins := (cr_pins c)(n := cr_pins c n - 1)\<rparr>)"
| releases: "holds pid (cr_cache c) n b \<Longrightarrow> n \<in> cr_dirty c \<longrightarrow> 0 < cr_pins c n \<Longrightarrow>
    brelse pid b (cr_cache c) = Ret s' \<Longrightarrow> cache_step c (c\<lparr>cr_cache := s'\<rparr>)"

definition fresh_cache :: "cache_run \<Rightarrow> bool" where
  "fresh_cache c \<longleftrightarrow> (\<exists>d. c = \<lparr>cr_cache = binit (boot_cache d), cr_waiting = [], cr_pins = (\<lambda>_. 0), cr_dirty = {}\<rparr>)"

text \<open>How many references a block should have: the holder of the lock, those who wait, the pins.\<close>

definition waiters :: "cache_run \<Rightarrow> nat \<Rightarrow> nat" where
  "waiters c n = length (filter (\<lambda>(pid, m, b). m = n) (cr_waiting c))"

definition users :: "cache_run \<Rightarrow> nat \<Rightarrow> int" where
  "users c n = (if locked (cr_cache c) n then 1 else 0) + int (waiters c n) + int (cr_pins c n)"

definition cache_run_inv :: "cache_run \<Rightarrow> bool" where
  "cache_run_inv c \<longleftrightarrow> cache_inv (cr_cache c) \<and> (\<forall>n. refs (cr_cache c) n = users c n)
     \<and> (\<forall>pid n b. (pid, n, b) \<in> set (cr_waiting c) \<longrightarrow> cached (cr_cache c) n b)
     \<and> (\<forall>n. n \<notin> cr_dirty c \<longrightarrow> view (cr_cache c) n = disk (cr_cache c) n)
     \<and> (\<forall>n. n \<in> cr_dirty c \<longrightarrow> locked (cr_cache c) n \<or> 0 < cr_pins c n)"

lemma cache_run_invD:
  assumes "cache_run_inv c"
  shows "cache_inv (cr_cache c)" "refs (cr_cache c) n = users c n"
    "(pid, n, b) \<in> set (cr_waiting c) \<Longrightarrow> cached (cr_cache c) n b"
    "n \<notin> cr_dirty c \<Longrightarrow> view (cr_cache c) n = disk (cr_cache c) n"
    "n \<in> cr_dirty c \<Longrightarrow> locked (cr_cache c) n \<or> 0 < cr_pins c n"
  using assms by (auto simp: cache_run_inv_def)

lemma waiters_pos: "(pid, n, b) \<in> set (cr_waiting c) \<Longrightarrow> 0 < waiters c n"
  by (auto simp: waiters_def filter_empty_conv)

lemma waiting_refs: "cache_run_inv c \<Longrightarrow> (pid, n, b) \<in> set (cr_waiting c) \<Longrightarrow> 0 < refs (cr_cache c) n"
  using cache_run_invD(2) [of c n] waiters_pos [of pid n b c] by (simp add: users_def)

lemma waiters_remove1:
  "(pid, n, b) \<in> set ws \<Longrightarrow>
   length (filter (\<lambda>(pid, m, b). m = k) ws) =
     length (filter (\<lambda>(pid, m, b). m = k) (remove1 (pid, n, b) ws)) + (if k = n then 1 else 0)"
  by (induction ws) auto

lemma holds_locked: "holds pid s n b \<Longrightarrow> locked s n"
  by (auto simp: holds_def locked_def holdingsleep_def)

lemma cache_step_inv:
  assumes inv: "cache_run_inv c" and step: "cache_step c c'"
  shows "cache_run_inv c'"
  using step
proof (cases rule: cache_step.cases)
  case (reads pid n b s')
  note i = cache_run_invD [OF inv] and e = bread_current [OF i(1) reads(2)] and p = bread_put(1) [OF i(1) reads(2)]
  have "cached s' m k" if "(q, m, k) \<in> set (cr_waiting c)" for q m k
    using bread_keeps_cached [OF i(1) reads(2) i(3) [OF that]] waiting_refs [OF inv that] by simp
  then show ?thesis unfolding cache_run_inv_def reads(1)
    using e i(2,4,5) p by (simp add: users_def waiters_def)
next
  case (waits pid n b s')
  note i = cache_run_invD [OF inv] and w = bget_waits [OF i(1) waits(2,3)]
  obtain q where "holds q (cr_cache c) n b" using w(4) by blast
  note e = bpin_spec [OF i(1) this]
  show ?thesis unfolding cache_run_inv_def waits(1) w(3)
    using e(1-4,6) i(2-5) w(1,2) by (auto simp: users_def waiters_def cached_ops)
next
  case (resumes pid n b s1)
  note i = cache_run_invD [OF inv] and e = resume_spec [OF i(1) i(3) [OF resumes(2)] waiting_refs [OF inv resumes(2)] resumes(3)]
  have "int (waiters c k) = int (length (filter (\<lambda>(pid, m, b). m = k) (remove1 (pid, n, b) (cr_waiting c)))) + (if k = n then 1 else 0)" for k
    using waiters_remove1 [OF resumes(2), of k] by (simp add: waiters_def)
  then show ?thesis unfolding cache_run_inv_def resumes(1)
    using e(1-7) i(2-5) notin_set_remove1 by (auto simp: users_def waiters_def dest: set_remove1_subset [THEN subsetD])
next
  case (modifies pid n b d)
  note i = cache_run_invD [OF inv] and e = set_data_spec [OF i(1) modifies(2)]
  show ?thesis unfolding cache_run_inv_def modifies(1)
    using e(1-4,6) i(2-5) holds_locked [OF modifies(2)] by (simp add: users_def waiters_def cached_ops)
next
  case (flushes pid n b s')
  note i = cache_run_invD [OF inv]
  obtain e: "cache_inv s'" "view s' = view (cr_cache c)" "refs s' = refs (cr_cache c)" "locked s' = locked (cr_cache c)"
    "disk s' = (disk (cr_cache c))(n := view (cr_cache c) n)"
    using bwrite_spec [OF i(1) flushes(2)] flushes(3) by (metis outcome.inject(1))
  show ?thesis unfolding cache_run_inv_def flushes(1)
    using e i(2-5) by (simp add: users_def waiters_def cached_ops(4) [OF flushes(3)])
next
  case (pins pid n b)
  note i = cache_run_invD [OF inv] and e = bpin_spec [OF i(1) pins(2)]
  show ?thesis unfolding cache_run_inv_def pins(1)
    using e(1-4,6) i(2-5) by (simp add: users_def waiters_def cached_ops)
next
  case (unpins pid n b)
  note i = cache_run_invD [OF inv] and l = holds_locked [OF unpins(2)]
  have "1 < refs (cr_cache c) n" using l unpins(3) by (simp add: i(2) users_def)
  note e = bunpin_spec [OF i(1) unpins(2) this]
  show ?thesis unfolding cache_run_inv_def unpins(1)
    using e(1-4,6) i(2-5) l unpins(3) by (auto simp: users_def waiters_def cached_ops)
next
  case (releases pid n b s')
  note i = cache_run_invD [OF inv] and l = holds_locked [OF releases(2)]
  have "view (cr_cache c) n = disk (cr_cache c) n" if "refs (cr_cache c) n = 1"
    using that l releases(3) i(4) [of n] by (auto simp: i(2) users_def)
  from brelse_spec [OF i(1) releases(2) this] releases(4)
  obtain e: "cache_inv s'" "view s' = view (cr_cache c)" "refs s' = (refs (cr_cache c))(n := refs (cr_cache c) n - 1)"
    "locked s' = (locked (cr_cache c))(n := False)" "disk s' = disk (cr_cache c)"
    by (metis outcome.inject(1))
  show ?thesis unfolding cache_run_inv_def releases(1)
    using e i(2-5) l releases(3) by (auto simp: users_def waiters_def cached_ops(5) [OF releases(4)])
qed

lemma fresh_cache_inv: "fresh_cache c \<Longrightarrow> cache_run_inv c"
  by (auto simp: fresh_cache_def cache_run_inv_def binit_spec users_def waiters_def)

interpretation buffers: invariant_system fresh_cache cache_step cache_run_inv
  by unfold_locales (auto intro: fresh_cache_inv cache_step_inv)

text \<open>
  C10: The cache is coherent. Whatever the processes read, wait for, change, write, pin, unpin and
  release (a changed buffer is released only pinned, and only pins are taken back): the list stays a ring of all thirty
  buffers; no block is ever in two of them; the reference count of a block is its holder, those who
  wait and its pins, so nobody's buffer is recycled; a block that was not changed since its last write,
  and any block without references, reads as it is on the disk; and \<open>bread\<close> delivers the current contents
  of the block without changing what any block reads as, at once or after a wait.
\<close>

theorem cache_coherent:
  assumes "fresh_cache c0" "rtranclp cache_step c0 c" and "s = cr_cache c"
  shows "(\<exists>xs. order s xs \<and> set xs = {0..<NBUF}) \<and> (\<forall>i j n. cached s n i \<and> cached s n j \<longrightarrow> i = j)
     \<and> (\<forall>n. refs s n = users c n) \<and> (\<forall>n. n \<notin> cr_dirty c \<or> refs s n = 0 \<longrightarrow> view s n = disk s n)
     \<and> (\<forall>pid b s' n. bread pid ROOTDEV n s = Ret (b, s') \<longrightarrow> b_data (bufs s' b) = view s n \<and> view s' = view s)
     \<and> (\<forall>pid n b s1. (pid, n, b) \<in> set (cr_waiting c) \<and> lock_buf pid b s = Ret (b, s1) \<longrightarrow>
          b_data (bufs (bread_fill b s1) b) = view s n \<and> view (bread_fill b s1) = view s)"
proof -
  have run: "cache_run_inv c" by (rule buffers.reachable_inv [OF assms(1,2)])
  note i = cache_run_invD [OF run, folded assms(3)]
  have "\<exists>xs. order s xs \<and> set xs = {0..<NBUF}" using i(1) by (simp add: cache_inv_def)
  moreover have "b_data (bufs (bread_fill b s1) b) = view s n \<and> view (bread_fill b s1) = view s"
    if w: "(pid, n, b) \<in> set (cr_waiting c)" and l: "lock_buf pid b s = Ret (b, s1)" for pid n b s1
    using resume_spec(9,2) [OF i(1) i(3) [OF w] waiting_refs [OF run w, folded assms(3)] l] by blast
  moreover note cached_unique [OF i(1)] i(2) view_clean [OF i(1)] i(4) bread_current(3,4) [OF i(1)]
  ultimately show ?thesis by blast
qed

definition numbered :: "nat \<Rightarrow> block" where
  "numbered n = replicate BSIZE (word_of_nat n)"

theorem cache_coherent_witness:
  "\<exists>b s'. bread 7 ROOTDEV 3 (binit (boot_cache numbered)) = Ret (b, s') \<and> b_data (bufs s' b) = replicate BSIZE 3
     \<and> view s' 5 = replicate BSIZE 5"
proof -
  let ?s = "binit (boot_cache numbered)"
  let ?c = "\<lparr>cr_cache = ?s, cr_waiting = [], cr_pins = (\<lambda>_. 0), cr_dirty = {}\<rparr>"
  have inv: "cache_inv ?s" and free: "\<not> locked ?s 3" "room ?s 3"
    by (simp_all add: binit_spec room_def)
  obtain b s' where r: "bread 7 ROOTDEV 3 ?s = Ret (b, s')" using bread_spec [OF inv free, of 7] by metis
  have "fresh_cache ?c" by (auto simp: fresh_cache_def)
  from cache_coherent [OF this rtranclp.rtrancl_refl, of ?s] r
  have "b_data (bufs s' b) = view ?s 3 \<and> view s' = view ?s" by (simp del: One_nat_def)
  with r show ?thesis by (simp add: binit_spec numbered_def)
qed

end
