(* ===== verification/Log.thy ===== *)
theory Log
  imports Bio
begin

text \<open>
  The write-ahead log, \<open>kernel/log.c\<close>, on top of the buffer cache. The header block of the log holds
  the number of logged blocks and their numbers as 32-bit integers, the blocks after it their
  contents. The in-memory header is the list \<open>lh\<close> of the first \<open>n\<close> block numbers. Going to sleep is the
  result \<open>None\<close> of \<open>begin_op\<close>. What the disk holds after a crash is what the writes issued so far made of it.
\<close>

section \<open>Operations\<close>

abbreviation MAXOPBLOCKS :: int where "MAXOPBLOCKS \<equiv> 10"
abbreviation LOGBLOCKS :: nat where "LOGBLOCKS \<equiv> 30"

record logst =
  lg_start :: nat
  lg_outstanding :: int
  lg_committing :: bool
  lg_dev :: nat
  lh :: "nat list"

definition zero_log :: logst where
  "zero_log = \<lparr>lg_start = 0, lg_outstanding = 0, lg_committing = False, lg_dev = 0, lh = []\<rparr>"

text \<open>Copying one block from the log to its home, and one cached block to the log.\<close>

definition install_one :: "int \<Rightarrow> bool \<Rightarrow> logst \<Rightarrow> nat \<Rightarrow> nat \<Rightarrow> bcache \<Rightarrow> bcache outcome" where
  "install_one pid recovering lg tail dst s =
     bind_outcome (bread pid (lg_dev lg) (lg_start lg + tail + 1) s) (\<lambda>(lbuf, s1).
     bind_outcome (bread pid (lg_dev lg) dst s1) (\<lambda>(dbuf, s2).
     bind_outcome (bwrite pid dbuf (set_data dbuf (b_data (bufs s2 lbuf)) s2)) (\<lambda>s3.
     bind_outcome (brelse pid lbuf (if recovering then s3 else bunpin dbuf s3)) (\<lambda>s4.
     brelse pid dbuf s4))))"

primrec install_from :: "int \<Rightarrow> bool \<Rightarrow> logst \<Rightarrow> nat \<Rightarrow> nat list \<Rightarrow> bcache \<Rightarrow> bcache outcome" where
  "install_from pid recovering lg tail [] s = Ret s"
| "install_from pid recovering lg tail (dst # bs) s =
     bind_outcome (install_one pid recovering lg tail dst s) (install_from pid recovering lg (Suc tail) bs)"

definition install_trans :: "int \<Rightarrow> bool \<Rightarrow> logst \<Rightarrow> bcache \<Rightarrow> bcache outcome" where
  "install_trans pid recovering lg s = install_from pid recovering lg 0 (lh lg) s"

definition log_one :: "int \<Rightarrow> logst \<Rightarrow> nat \<Rightarrow> nat \<Rightarrow> bcache \<Rightarrow> bcache outcome" where
  "log_one pid lg tail src s =
     bind_outcome (bread pid (lg_dev lg) (lg_start lg + tail + 1) s) (\<lambda>(to, s1).
     bind_outcome (bread pid (lg_dev lg) src s1) (\<lambda>(frm, s2).
     bind_outcome (bwrite pid to (set_data to (b_data (bufs s2 frm)) s2)) (\<lambda>s3.
     bind_outcome (brelse pid frm s3) (\<lambda>s4.
     brelse pid to s4))))"

primrec log_from :: "int \<Rightarrow> logst \<Rightarrow> nat \<Rightarrow> nat list \<Rightarrow> bcache \<Rightarrow> bcache outcome" where
  "log_from pid lg tail [] s = Ret s"
| "log_from pid lg tail (src # bs) s = bind_outcome (log_one pid lg tail src s) (log_from pid lg (Suc tail) bs)"

definition write_log :: "int \<Rightarrow> logst \<Rightarrow> bcache \<Rightarrow> bcache outcome" where
  "write_log pid lg s = log_from pid lg 0 (lh lg) s"

text \<open>The header in its block: the count, then the numbers; the other bytes stay.\<close>

definition enc_head :: "nat list \<Rightarrow> block \<Rightarrow> block" where
  "enc_head bs old =
     enc_le 4 (int (length bs)) @ concat (map (\<lambda>b. enc_le 4 (int b)) bs) @ drop (4 + 4 * length bs) old"

definition get32 :: "nat \<Rightarrow> block \<Rightarrow> nat" where
  "get32 i d = nat (dec_le (take 4 (drop (4 * i) d)))"

definition dec_head :: "block \<Rightarrow> nat list" where
  "dec_head d = map (\<lambda>i. get32 (Suc i) d) [0..<get32 0 d]"

definition read_head :: "int \<Rightarrow> logst \<Rightarrow> bcache \<Rightarrow> (logst \<times> bcache) outcome" where
  "read_head pid lg s =
     bind_outcome (bread pid (lg_dev lg) (lg_start lg) s) (\<lambda>(b, s1).
     bind_outcome (brelse pid b s1) (\<lambda>s2. Ret (lg\<lparr>lh := dec_head (b_data (bufs s1 b))\<rparr>, s2)))"

definition write_head :: "int \<Rightarrow> logst \<Rightarrow> bcache \<Rightarrow> bcache outcome" where
  "write_head pid lg s =
     bind_outcome (bread pid (lg_dev lg) (lg_start lg) s) (\<lambda>(b, s1).
     bind_outcome (bwrite pid b (set_data b (enc_head (lh lg) (b_data (bufs s1 b))) s1)) (\<lambda>s2.
     brelse pid b s2))"

definition recover_from_log :: "int \<Rightarrow> logst \<Rightarrow> bcache \<Rightarrow> (logst \<times> bcache) outcome" where
  "recover_from_log pid lg s =
     bind_outcome (read_head pid lg s) (\<lambda>(lg1, s1).
     bind_outcome (install_trans pid True lg1 s1) (\<lambda>s2.
     let lg2 = lg1\<lparr>lh := []\<rparr> in bind_outcome (write_head pid lg2 s2) (\<lambda>s3. Ret (lg2, s3))))"

definition initlog :: "int \<Rightarrow> nat \<Rightarrow> nat \<Rightarrow> logst \<Rightarrow> bcache \<Rightarrow> (logst \<times> bcache) outcome" where
  "initlog pid dev logstart lg s = recover_from_log pid (lg\<lparr>lg_start := logstart, lg_dev := dev\<rparr>) s"

definition commit :: "int \<Rightarrow> logst \<Rightarrow> bcache \<Rightarrow> (logst \<times> bcache) outcome" where
  "commit pid lg s =
     (if 0 < length (lh lg) then
        bind_outcome (write_log pid lg s) (\<lambda>s1.
        bind_outcome (write_head pid lg s1) (\<lambda>s2.
        bind_outcome (install_trans pid False lg s2) (\<lambda>s3.
        let lg1 = lg\<lparr>lh := []\<rparr> in bind_outcome (write_head pid lg1 s3) (\<lambda>s4. Ret (lg1, s4)))))
      else Ret (lg, s))"

definition begin_op :: "logst \<Rightarrow> logst option" where
  "begin_op lg =
     (if lg_committing lg then None
      else if int (length (lh lg)) + (lg_outstanding lg + 1) * MAXOPBLOCKS > int LOGBLOCKS then None
      else Some (lg\<lparr>lg_outstanding := lg_outstanding lg + 1\<rparr>))"

definition end_op :: "int \<Rightarrow> logst \<Rightarrow> bcache \<Rightarrow> (logst \<times> bcache) outcome" where
  "end_op pid lg s =
     (let lg1 = lg\<lparr>lg_outstanding := lg_outstanding lg - 1\<rparr> in
      if lg_committing lg1 then Panics ''log.committing''
      else if lg_outstanding lg1 = 0 then
        bind_outcome (commit pid (lg1\<lparr>lg_committing := True\<rparr>) s) (\<lambda>(lg2, s2). Ret (lg2\<lparr>lg_committing := False\<rparr>, s2))
      else Ret (lg1, s))"

text \<open>A block that is already in the log is absorbed; a new one is pinned.\<close>

definition log_write :: "nat \<Rightarrow> logst \<Rightarrow> bcache \<Rightarrow> (logst \<times> bcache) outcome" where
  "log_write b lg s =
     (if length (lh lg) \<ge> LOGBLOCKS then Panics ''too big a transaction''
      else if lg_outstanding lg < 1 then Panics ''log_write outside of trans''
      else if b_blockno (bufs s b) \<in> set (lh lg) then Ret (lg, s)
      else Ret (lg\<lparr>lh := lh lg @ [b_blockno (bufs s b)]\<rparr>, bpin b s))"

section \<open>The header block\<close>

lemma get32_Suc: "length x = 4 \<Longrightarrow> get32 (Suc i) (x @ y) = get32 i y"
proof -
  assume x: "length x = 4"
  have "drop (4 * Suc i) (x @ y) = drop (4 * i + 4) (x @ y)" by (simp add: add.commute)
  also have "\<dots> = drop (4 * i) y" using x by simp
  finally show ?thesis by (simp only: get32_def)
qed

lemma get32_enc:
  assumes "i < length bs" "\<forall>b \<in> set bs. b < 2 ^ 32"
  shows "get32 i (concat (map (\<lambda>b. enc_le 4 (int b)) bs) @ rest) = bs ! i"
  using assms
proof (induction bs arbitrary: i)
  case (Cons b bs)
  show ?case
  proof (cases i)
    case 0
    then show ?thesis using Cons.prems by (simp add: get32_def dec_enc_le)
  next
    case (Suc j)
    then have "get32 i (concat (map (\<lambda>b. enc_le 4 (int b)) (b # bs)) @ rest)
        = get32 j (concat (map (\<lambda>b. enc_le 4 (int b)) bs) @ rest)"
      unfolding Suc by (simp add: get32_Suc)
    then show ?thesis using Cons Suc by simp
  qed
qed simp

lemma dec_enc_head:
  assumes "\<forall>b \<in> set bs. b < 2 ^ 32" "length bs < 2 ^ 32"
  shows "dec_head (enc_head bs old) = bs"
proof -
  have e: "enc_head bs old = concat (map (\<lambda>b. enc_le 4 (int b)) (length bs # bs)) @ drop (4 + 4 * length bs) old"
    by (simp add: enc_head_def)
  have g: "get32 i (enc_head bs old) = (length bs # bs) ! i" if "i < Suc (length bs)" for i
    unfolding e using that assms by (intro get32_enc) auto
  show ?thesis
    by (rule nth_equalityI) (use g in \<open>auto simp: dec_head_def\<close>)
qed

lemma length_concat4: "length (concat (map (\<lambda>b. enc_le 4 (int b)) bs)) = 4 * length bs"
  by (induction bs) auto

lemma length_enc_head: "length bs \<le> LOGBLOCKS \<Longrightarrow> length old = BSIZE \<Longrightarrow> length (enc_head bs old) = BSIZE"
  by (simp add: enc_head_def length_concat4)

section \<open>One block at a time\<close>

text \<open>No buffer is locked.\<close>

definition quiet :: "bcache \<Rightarrow> bool" where
  "quiet s \<longleftrightarrow> cache_inv s \<and> locked s = (\<lambda>_. False)"

text \<open>
  Reading two blocks, copying one to the other and writing it out: the common part of \<open>write_log\<close> and
  \<open>install_trans\<close>. There must be room for the two buffers.
\<close>

definition busy :: "bcache \<Rightarrow> nat set" where
  "busy s = {n. refs s n \<noteq> 0}"

definition room_for :: "bcache \<Rightarrow> nat \<Rightarrow> nat \<Rightarrow> bool" where
  "room_for s m n \<longleftrightarrow> card (insert m (insert n (busy s))) \<le> NBUF"

lemma finite_busy: "cache_inv s \<Longrightarrow> finite (busy s)"
  using busy_card by (simp add: busy_def)

lemma room_first: "cache_inv s \<Longrightarrow> room_for s m n \<Longrightarrow> room s m"
proof (cases "m \<in> busy s")
  case False
  assume inv: "cache_inv s" and r: "room_for s m n"
  have "Suc (card (busy s)) = card (insert m (busy s))" using False finite_busy [OF inv] by simp
  also have "\<dots> \<le> card (insert m (insert n (busy s)))" by (rule card_mono) (auto simp: finite_busy [OF inv])
  finally show ?thesis using r by (simp add: room_def room_for_def busy_def)
qed (simp add: room_def busy_def)

lemma room_second:
  assumes "cache_inv s" "room_for s m n" "m \<noteq> n" "refs s' = (refs s)(m := refs s m + 1)"
  shows "room s' n"
proof (cases "n \<in> busy s")
  case True
  then show ?thesis using assms(3,4) by (simp add: room_def busy_def)
next
  case False
  have pos: "refs s m + 1 \<noteq> 0" using refs_nonneg [OF assms(1), of m] by simp
  then have "{k. refs s' k \<noteq> 0} = insert m (busy s)" using assms(4) by (auto simp: busy_def)
  moreover have "Suc (card (insert m (busy s))) = card (insert m (insert n (busy s)))"
  proof -
    have "insert m (insert n (busy s)) = insert n (insert m (busy s))" by blast
    then show ?thesis using False assms(3) finite_busy [OF assms(1)] by simp
  qed
  ultimately show ?thesis using assms(2) by (simp add: room_def room_for_def)
qed

lemma bind_RetE:
  assumes "bind_outcome p f = Ret y" obtains x where "p = Ret x" "f x = Ret y"
  using assms by (cases p) auto

lemma outcome_bind_Ret [simp]: "p = Ret x \<Longrightarrow> bind_outcome p f = f x"
  by simp

lemma install_one_spec:
  assumes q: "quiet s" and dev: "lg_dev lg = ROOTDEV" and ne: "lg_start lg + tail + 1 \<noteq> dst"
    and room: "room_for s (lg_start lg + tail + 1) dst"
    and log0: "refs s (lg_start lg + tail + 1) = 0" and refs: "refs s dst = (if rec then 0 else 1)"
  obtains s' where "install_one pid rec lg tail dst s = Ret s'" "quiet s'"
    "view s' = (view s)(dst := view s (lg_start lg + tail + 1))"
    "disk s' = (disk s)(dst := view s (lg_start lg + tail + 1))"
    "refs s' = (refs s)(dst := 0)" "issued s' = issued s @ [(dst, view s (lg_start lg + tail + 1))]"
proof -
  let ?l = "lg_start lg + tail + 1"
  have inv: "cache_inv s" and nl: "\<not> locked s n" for n using q by (simp_all add: quiet_def)
  obtain l s1 where 1: "bread pid ROOTDEV ?l s = Ret (l, s1)" "cache_inv s1" "holds pid s1 ?l l"
    "view s1 = view s" "refs s1 = (refs s)(?l := refs s ?l + 1)" "disk s1 = disk s" "issued s1 = issued s"
    "locked s1 = (locked s)(?l := True)"
    by (rule bread_spec [OF inv nl room_first [OF inv room], of pid]) (rule that; assumption)
  have "\<not> locked s1 dst" using 1(8) nl ne by simp
  then obtain d s2 where 2: "bread pid ROOTDEV dst s1 = Ret (d, s2)" "cache_inv s2" "holds pid s2 dst d"
    "view s2 = view s1" "refs s2 = (refs s1)(dst := refs s1 dst + 1)" "disk s2 = disk s1" "issued s2 = issued s1"
    "locked s2 = (locked s1)(dst := True)" "\<And>m c. holds pid s1 m c \<Longrightarrow> m \<noteq> dst \<Longrightarrow> holds pid s2 m c"
    by (rule bread_spec [OF 1(2) _ room_second [OF inv room ne 1(5)], of pid]) (rule that; (assumption | blast))
  have hl2: "holds pid s2 ?l l" using 2(9) [OF 1(3) ne] .
  let ?d = "b_data (bufs s2 l)"
  have data: "?d = view s ?l" using held_buf(6) [OF 2(2) hl2] 2(4) 1(4) by simp
  let ?s3 = "set_data d ?d s2"
  note s3 = set_data_spec [OF 2(2,3), where d = ?d]
  obtain s4 where 4: "bwrite pid d ?s3 = Ret s4" "cache_inv s4" "view s4 = view ?s3" "refs s4 = refs ?s3" "locked s4 = locked ?s3"
    "\<And>m c. holds pid ?s3 m c \<Longrightarrow> holds pid s4 m c" "disk s4 = (disk ?s3)(dst := view ?s3 dst)"
    "issued s4 = issued ?s3 @ [(dst, view ?s3 dst)]"
    by (rule bwrite_spec [OF s3(1) s3(5) [OF 2(3)]]) (rule that; assumption)
  define s5 where "s5 = (if rec then s4 else bunpin d s4)"
  have h4: "holds pid s4 dst d" "holds pid s4 ?l l" using 4(6) s3(5) 2(3) hl2 by blast+
  have r4: "refs s4 dst = (if rec then 1 else 2)" using 4(4) s3(3) 2(5) 1(5) ne refs by simp
  have 5: "cache_inv s5" "view s5 = view s4" "refs s5 = (refs s4)(dst := 1)" "locked s5 = locked s4"
    "holds pid s5 dst d" "holds pid s5 ?l l" "disk s5 = disk s4" "issued s5 = issued s4"
    using bunpin_spec [OF 4(2) h4(1)] r4 4(2) h4 by (auto simp: s5_def fun_upd_idem)
  have vd: "view s5 n = (if n = dst then view s ?l else view s n)" for n
    using 5(2) 4(3) s3(2) 2(4) 1(4) data by simp
  have dd: "disk s5 n = (if n = dst then view s ?l else disk s n)" for n
    using 5(7) 4(7) s3(2,6) 2(6) 1(6) data by simp
  have "view s5 ?l = disk s5 ?l" using vd dd ne view_clean [OF inv log0] by simp
  then obtain s6 where 6: "brelse pid l s5 = Ret s6" "cache_inv s6" "view s6 = view s5" "refs s6 = (refs s5)(?l := refs s5 ?l - 1)"
    "locked s6 = (locked s5)(?l := False)" "disk s6 = disk s5" "issued s6 = issued s5"
    "\<And>m c. holds pid s5 m c \<Longrightarrow> m \<noteq> ?l \<Longrightarrow> holds pid s6 m c"
    by (rule brelse_spec [OF 5(1,6)]) (rule that; (assumption | blast))
  have h6: "holds pid s6 dst d" using 6(8) [OF 5(5)] ne by simp
  have "view s6 dst = disk s6 dst" using 6(3,6) vd dd by simp
  then obtain s7 where 7: "brelse pid d s6 = Ret s7" "cache_inv s7" "view s7 = view s6" "refs s7 = (refs s6)(dst := refs s6 dst - 1)"
    "locked s7 = (locked s6)(dst := False)" "disk s7 = disk s6" "issued s7 = issued s6"
    by (rule brelse_spec [OF 6(2) h6]) (rule that; (assumption | blast))
  show thesis
  proof (rule that)
    show "install_one pid rec lg tail dst s = Ret s7"
      using 1(1) 2(1) 4(1) 6(1) 7(1) by (simp add: install_one_def dev s5_def)
    show "quiet s7" using 7(2,5) 6(5) 5(4) 4(5) s3(4) 2(8) 1(8) q by (auto simp: quiet_def fun_eq_iff)
    show "view s7 = (view s)(dst := view s ?l)" "disk s7 = (disk s)(dst := view s ?l)"
      using vd dd 7(3,6) 6(3,6) by (auto simp: fun_eq_iff)
    show "refs s7 = (refs s)(dst := 0)"
      using 7(4) 6(4) 5(3) 4(4) s3(3) 2(5) 1(5) ne by (auto simp: fun_eq_iff)
    show "issued s7 = issued s @ [(dst, view s ?l)]"
      using 7(7) 6(7) 5(8) 4(8) s3(2,7) 2(7) 1(7) data by simp
  qed
qed

lemma log_one_spec:
  assumes q: "quiet s" and dev: "lg_dev lg = ROOTDEV" and ne: "lg_start lg + tail + 1 \<noteq> src"
    and room: "room_for s (lg_start lg + tail + 1) src"
    and log0: "refs s (lg_start lg + tail + 1) = 0" and refs: "refs s src = 1"
  obtains s' where "log_one pid lg tail src s = Ret s'" "quiet s'"
    "view s' = (view s)(lg_start lg + tail + 1 := view s src)"
    "disk s' = (disk s)(lg_start lg + tail + 1 := view s src)"
    "refs s' = refs s" "issued s' = issued s @ [(lg_start lg + tail + 1, view s src)]"
proof -
  let ?l = "lg_start lg + tail + 1"
  have inv: "cache_inv s" and nl: "\<not> locked s n" for n using q by (simp_all add: quiet_def)
  obtain l s1 where 1: "bread pid ROOTDEV ?l s = Ret (l, s1)" "cache_inv s1" "holds pid s1 ?l l"
    "view s1 = view s" "refs s1 = (refs s)(?l := refs s ?l + 1)" "disk s1 = disk s" "issued s1 = issued s"
    "locked s1 = (locked s)(?l := True)"
    by (rule bread_spec [OF inv nl room_first [OF inv room], of pid]) (rule that; assumption)
  have "\<not> locked s1 src" using 1(8) nl ne by simp
  then obtain d s2 where 2: "bread pid ROOTDEV src s1 = Ret (d, s2)" "cache_inv s2" "holds pid s2 src d"
    "view s2 = view s1" "refs s2 = (refs s1)(src := refs s1 src + 1)" "disk s2 = disk s1" "issued s2 = issued s1"
    "locked s2 = (locked s1)(src := True)" "\<And>m c. holds pid s1 m c \<Longrightarrow> m \<noteq> src \<Longrightarrow> holds pid s2 m c"
    by (rule bread_spec [OF 1(2) _ room_second [OF inv room ne 1(5)], of pid]) (rule that; (assumption | blast))
  have hl2: "holds pid s2 ?l l" using 2(9) [OF 1(3) ne] .
  let ?d = "b_data (bufs s2 d)"
  have data: "?d = view s src" using held_buf(6) [OF 2(2,3)] 2(4) 1(4) by simp
  let ?s3 = "set_data l ?d s2"
  note s3 = set_data_spec [OF 2(2) hl2, where d = ?d]
  obtain s4 where 4: "bwrite pid l ?s3 = Ret s4" "cache_inv s4" "view s4 = view ?s3" "refs s4 = refs ?s3" "locked s4 = locked ?s3"
    "\<And>m c. holds pid ?s3 m c \<Longrightarrow> holds pid s4 m c" "disk s4 = (disk ?s3)(?l := view ?s3 ?l)"
    "issued s4 = issued ?s3 @ [(?l, view ?s3 ?l)]"
    by (rule bwrite_spec [OF s3(1) s3(5) [OF hl2]]) (rule that; assumption)
  have h4: "holds pid s4 src d" "holds pid s4 ?l l" using 4(6) s3(5) 2(3) hl2 by blast+
  have r4: "refs s4 src = 2" "refs s4 ?l = 1" using 4(4) s3(3) 2(5) 1(5) ne refs log0 by simp_all
  have vd: "view s4 n = (if n = ?l then view s src else view s n)" for n
    using 4(3) s3(2) 2(4) 1(4) data by simp
  have dd: "disk s4 n = (if n = ?l then view s src else disk s n)" for n
    using 4(7) s3(2,6) 2(6) 1(6) data by simp
  have ne1: "refs s4 src \<noteq> 1" using r4 by simp
  obtain s6 where 6: "brelse pid d s4 = Ret s6" "cache_inv s6" "view s6 = view s4" "refs s6 = (refs s4)(src := refs s4 src - 1)"
    "locked s6 = (locked s4)(src := False)" "disk s6 = disk s4" "issued s6 = issued s4"
    "\<And>m c. holds pid s4 m c \<Longrightarrow> m \<noteq> src \<Longrightarrow> holds pid s6 m c"
    by (rule brelse_spec [OF 4(2) h4(1)]) (erule notE [OF ne1], (rule that; (assumption | blast)))
  have h6: "holds pid s6 ?l l" using 6(8) [OF h4(2)] ne by simp
  have "view s6 ?l = disk s6 ?l" using 6(3,6) vd dd by simp
  then obtain s7 where 7: "brelse pid l s6 = Ret s7" "cache_inv s7" "view s7 = view s6" "refs s7 = (refs s6)(?l := refs s6 ?l - 1)"
    "locked s7 = (locked s6)(?l := False)" "disk s7 = disk s6" "issued s7 = issued s6"
    by (rule brelse_spec [OF 6(2) h6]) (rule that; (assumption | blast))
  show thesis
  proof (rule that)
    show "log_one pid lg tail src s = Ret s7" using 1(1) 2(1) 4(1) 6(1) 7(1) by (simp add: log_one_def dev)
    show "quiet s7" using 7(2,5) 6(5) 4(5) s3(4) 2(8) 1(8) q by (auto simp: quiet_def fun_eq_iff)
    show "view s7 = (view s)(?l := view s src)" "disk s7 = (disk s)(?l := view s src)"
      using vd dd 7(3,6) 6(3,6) by (auto simp: fun_eq_iff)
    show "refs s7 = refs s"
      using 7(4) 6(4) 4(4) s3(3) 2(5) 1(5) ne by (auto simp: fun_eq_iff)
    show "issued s7 = issued s @ [(?l, view s src)]"
      using 7(7) 6(7) 4(8) s3(2,7) 2(7) 1(7) data by simp
  qed
qed

lemma write_head_spec:
  assumes q: "quiet s" and dev: "lg_dev lg = ROOTDEV" and room: "room s (lg_start lg)" and log0: "refs s (lg_start lg) = 0"
  obtains s' where "write_head pid lg s = Ret s'" "quiet s'"
    "view s' = (view s)(lg_start lg := enc_head (lh lg) (view s (lg_start lg)))"
    "disk s' = (disk s)(lg_start lg := enc_head (lh lg) (view s (lg_start lg)))"
    "refs s' = refs s" "issued s' = issued s @ [(lg_start lg, enc_head (lh lg) (view s (lg_start lg)))]"
proof -
  let ?l = "lg_start lg"
  have inv: "cache_inv s" and nl: "\<not> locked s n" for n using q by (simp_all add: quiet_def)
  obtain l s1 where 1: "bread pid ROOTDEV ?l s = Ret (l, s1)" "cache_inv s1" "holds pid s1 ?l l"
    "view s1 = view s" "refs s1 = (refs s)(?l := refs s ?l + 1)" "disk s1 = disk s" "issued s1 = issued s"
    "locked s1 = (locked s)(?l := True)"
    by (rule bread_spec [OF inv nl room, of pid]) (rule that; assumption)
  let ?d = "enc_head (lh lg) (b_data (bufs s1 l))"
  have data: "b_data (bufs s1 l) = view s ?l" using held_buf(6) [OF 1(2,3)] 1(4) by simp
  let ?s3 = "set_data l ?d s1"
  note s3 = set_data_spec [OF 1(2,3), where d = ?d]
  obtain s4 where 4: "bwrite pid l ?s3 = Ret s4" "cache_inv s4" "view s4 = view ?s3" "refs s4 = refs ?s3" "locked s4 = locked ?s3"
    "\<And>m c. holds pid ?s3 m c \<Longrightarrow> holds pid s4 m c" "disk s4 = (disk ?s3)(?l := view ?s3 ?l)"
    "issued s4 = issued ?s3 @ [(?l, view ?s3 ?l)]"
    by (rule bwrite_spec [OF s3(1) s3(5) [OF 1(3)]]) (rule that; assumption)
  have h4: "holds pid s4 ?l l" using 4(6) s3(5) 1(3) by blast
  have "view s4 ?l = disk s4 ?l" using 4(3,7) by simp
  then obtain s7 where 7: "brelse pid l s4 = Ret s7" "cache_inv s7" "view s7 = view s4" "refs s7 = (refs s4)(?l := refs s4 ?l - 1)"
    "locked s7 = (locked s4)(?l := False)" "disk s7 = disk s4" "issued s7 = issued s4"
    by (rule brelse_spec [OF 4(2) h4]) (rule that; (assumption | blast))
  show thesis
  proof (rule that)
    show "write_head pid lg s = Ret s7" using 1(1) 4(1) 7(1) by (simp add: write_head_def dev)
    show "quiet s7" using 7(2,5) 4(5) s3(4) 1(8) q by (auto simp: quiet_def fun_eq_iff)
    show "view s7 = (view s)(?l := enc_head (lh lg) (view s ?l))" "disk s7 = (disk s)(?l := enc_head (lh lg) (view s ?l))"
      using 7(3,6) 4(3,7) s3(2,6) 1(4,6) data by (auto simp: fun_eq_iff)
    show "refs s7 = refs s" using 7(4) 4(4) s3(3) 1(5) by (auto simp: fun_eq_iff)
    show "issued s7 = issued s @ [(?l, enc_head (lh lg) (view s ?l))]" using 7(7) 4(8) s3(2,7) 1(7) data by simp
  qed
qed

lemma read_head_spec:
  assumes q: "quiet s" and dev: "lg_dev lg = ROOTDEV" and room: "room s (lg_start lg)" and log0: "refs s (lg_start lg) = 0"
  obtains s' where "read_head pid lg s = Ret (lg\<lparr>lh := dec_head (view s (lg_start lg))\<rparr>, s')" "quiet s'"
    "view s' = view s" "disk s' = disk s" "refs s' = refs s" "issued s' = issued s"
proof -
  let ?l = "lg_start lg"
  have inv: "cache_inv s" and nl: "\<not> locked s n" for n using q by (simp_all add: quiet_def)
  obtain l s1 where 1: "bread pid ROOTDEV ?l s = Ret (l, s1)" "cache_inv s1" "holds pid s1 ?l l"
    "view s1 = view s" "refs s1 = (refs s)(?l := refs s ?l + 1)" "disk s1 = disk s" "issued s1 = issued s"
    "locked s1 = (locked s)(?l := True)"
    by (rule bread_spec [OF inv nl room, of pid]) (rule that; assumption)
  have data: "b_data (bufs s1 l) = view s ?l" using held_buf(6) [OF 1(2,3)] 1(4) by simp
  have "view s1 ?l = disk s1 ?l" using 1(4,6) view_clean [OF inv log0] by simp
  then obtain s7 where 7: "brelse pid l s1 = Ret s7" "cache_inv s7" "view s7 = view s1" "refs s7 = (refs s1)(?l := refs s1 ?l - 1)"
    "locked s7 = (locked s1)(?l := False)" "disk s7 = disk s1" "issued s7 = issued s1"
    by (rule brelse_spec [OF 1(2,3)]) (rule that; (assumption | blast))
  show thesis
  proof (rule that)
    show "read_head pid lg s = Ret (lg\<lparr>lh := dec_head (view s ?l)\<rparr>, s7)" using 1(1) 7(1) data by (simp add: read_head_def dev)
    show "quiet s7" using 7(2,5) 1(8) q by (auto simp: quiet_def fun_eq_iff)
    show "refs s7 = refs s" using 7(4) 1(5) by (auto simp: fun_eq_iff)
  qed (use 7 1 in simp_all)
qed

section \<open>Runs of writes\<close>

text \<open>What a sequence of block writes makes of a disk; a prefix of it is what a crash leaves behind.\<close>

primrec apply_writes :: "(nat \<times> block) list \<Rightarrow> (nat \<Rightarrow> block) \<Rightarrow> (nat \<Rightarrow> block)" where
  "apply_writes [] f = f"
| "apply_writes (w # ws) f = apply_writes ws (f(fst w := snd w))"

lemma apply_append: "apply_writes (ws @ vs) f = apply_writes vs (apply_writes ws f)"
  by (induction ws arbitrary: f) auto

lemma apply_other: "n \<notin> fst ` set ws \<Longrightarrow> apply_writes ws f n = f n"
  by (induction ws arbitrary: f) auto

lemma apply_at: "distinct (map fst ws) \<Longrightarrow> (n, d) \<in> set ws \<Longrightarrow> apply_writes ws f n = d"
  by (induction ws arbitrary: f) (force simp: apply_other)+

text \<open>The writes of \<open>write_log\<close> and of \<open>install_trans\<close>.\<close>

primrec log_writes :: "nat \<Rightarrow> (nat \<Rightarrow> block) \<Rightarrow> nat \<Rightarrow> nat list \<Rightarrow> (nat \<times> block) list" where
  "log_writes start v tail [] = []"
| "log_writes start v tail (b # bs) = (start + tail + 1, v b) # log_writes start v (Suc tail) bs"

primrec home_writes :: "nat \<Rightarrow> (nat \<Rightarrow> block) \<Rightarrow> nat \<Rightarrow> nat list \<Rightarrow> (nat \<times> block) list" where
  "home_writes start v tail [] = []"
| "home_writes start v tail (b # bs) = (b, v (start + tail + 1)) # home_writes start v (Suc tail) bs"

lemma log_writes_keys: "map fst (log_writes start v tail bs) = [start + tail + 1..<start + tail + 1 + length bs]"
  by (induction bs arbitrary: tail) (auto simp: upt_rec)

lemma home_writes_keys: "map fst (home_writes start v tail bs) = bs"
  by (induction bs arbitrary: tail) auto

lemma length_writes [simp]: "length (log_writes start v tail bs) = length bs" "length (home_writes start v tail bs) = length bs"
  by (induction bs arbitrary: tail) auto

lemma log_writes_nth: "i < length bs \<Longrightarrow> log_writes start v tail bs ! i = (start + tail + 1 + i, v (bs ! i))"
  by (induction bs arbitrary: tail i) (auto simp: nth_Cons split: nat.splits)

lemma home_writes_nth: "i < length bs \<Longrightarrow> home_writes start v tail bs ! i = (bs ! i, v (start + tail + 1 + i))"
  by (induction bs arbitrary: tail i) (auto simp: nth_Cons split: nat.splits)

lemma log_writes_cong: "(\<And>b. b \<in> set bs \<Longrightarrow> v b = w b) \<Longrightarrow> log_writes start v tail bs = log_writes start w tail bs"
  by (induction bs arbitrary: tail) auto

lemma home_writes_cong:
  "(\<And>i. i < length bs \<Longrightarrow> v (start + tail + 1 + i) = w (start + tail + 1 + i)) \<Longrightarrow>
   home_writes start v tail bs = home_writes start w tail bs"
proof (induction bs arbitrary: tail)
  case (Cons b bs)
  have "v (start + Suc tail + 1 + i) = w (start + Suc tail + 1 + i)" if "i < length bs" for i
    using Cons.prems [of "Suc i"] that by simp
  from Cons.IH [OF this] show ?case using Cons.prems [of 0] by simp
qed simp

text \<open>A quiet call that issues these writes, through to the disk, and leaves these references.\<close>

definition does :: "bcache outcome \<Rightarrow> bcache \<Rightarrow> (nat \<times> block) list \<Rightarrow> (nat \<Rightarrow> int) \<Rightarrow> bcache \<Rightarrow> bool" where
  "does p s ws r s' \<longleftrightarrow> p = Ret s' \<and> quiet s' \<and> view s' = apply_writes ws (view s) \<and> disk s' = apply_writes ws (disk s)
     \<and> issued s' = issued s @ ws \<and> refs s' = r"

lemma does_then:
  "does p s ws r s1 \<Longrightarrow> does (f s1) s1 vs r' s2 \<Longrightarrow> does (bind_outcome p f) s (ws @ vs) r' s2"
  by (auto simp: does_def apply_append)

lemma log_one_does:
  assumes "quiet s" "lg_dev lg = ROOTDEV" "lg_start lg + tail + 1 \<noteq> src" "card (busy s) < NBUF"
    "refs s (lg_start lg + tail + 1) = 0" "refs s src = 1"
  shows "\<exists>s'. does (log_one pid lg tail src s) s [(lg_start lg + tail + 1, view s src)] (refs s) s'"
proof -
  have "insert src (busy s) = busy s" using assms(6) by (auto simp: busy_def)
  moreover have "card (insert (lg_start lg + tail + 1) (busy s)) \<le> NBUF"
    using assms(4) by (metis Suc_leI card_insert_le_m1 card_insert_if card.infinite finite_insert le_Suc_eq less_or_eq_imp_le)
  ultimately have "room_for s (lg_start lg + tail + 1) src" by (simp add: room_for_def)
  from log_one_spec [OF assms(1-3) this assms(5,6), of pid] show ?thesis unfolding does_def
    by (metis apply_writes.simps fst_conv snd_conv)
qed

lemma install_one_does:
  assumes "quiet s" "lg_dev lg = ROOTDEV" "lg_start lg + tail + 1 \<noteq> dst" "card (busy s) < (if rec then 29 else 30)"
    "refs s (lg_start lg + tail + 1) = 0" "refs s dst = (if rec then 0 else 1)"
  shows "\<exists>s'. does (install_one pid rec lg tail dst s) s [(dst, view s (lg_start lg + tail + 1))] ((refs s)(dst := 0)) s'"
proof -
  have fin: "finite (busy s)" using assms(1) by (simp add: quiet_def finite_busy)
  have "card (insert (lg_start lg + tail + 1) (insert dst (busy s))) \<le> NBUF"
  proof (cases rec)
    case True
    then show ?thesis using assms(4) fin by (simp add: card_insert_if)
  next
    case False
    then have "insert dst (busy s) = busy s" using assms(6) by (auto simp: busy_def)
    then show ?thesis using assms(4) fin False by (simp add: card_insert_if)
  qed
  then have "room_for s (lg_start lg + tail + 1) dst" by (simp add: room_for_def)
  from install_one_spec [OF assms(1-3) this assms(5,6), of pid] show ?thesis unfolding does_def
    by (metis apply_writes.simps fst_conv snd_conv)
qed

lemma log_from_does:
  assumes "quiet s" "lg_dev lg = ROOTDEV" "card (busy s) < NBUF"
    "\<forall>b \<in> set bs. refs s b = 1" "\<forall>i < length bs. refs s (lg_start lg + tail + 1 + i) = 0"
  shows "\<exists>s'. does (log_from pid lg tail bs s) s (log_writes (lg_start lg) (view s) tail bs) (refs s) s'"
  using assms
proof (induction bs arbitrary: tail s)
  case Nil
  then show ?case by (auto simp: does_def)
next
  case (Cons b bs)
  have free: "refs s (lg_start lg + tail + 1) = 0" using Cons.prems(5) by fastforce
  have b: "refs s b = 1" using Cons.prems(4) by simp
  have ne: "lg_start lg + tail + 1 \<noteq> b" using free b by auto
  obtain s1 where s1: "does (log_one pid lg tail b s) s [(lg_start lg + tail + 1, view s b)] (refs s) s1"
    using log_one_does [OF Cons.prems(1,2) ne Cons.prems(3) free b] by blast
  then have r: "refs s1 = refs s" "quiet s1" and v: "view s1 = (view s)(lg_start lg + tail + 1 := view s b)"
    by (auto simp: does_def)
  have "refs s (lg_start lg + Suc tail + 1 + i) = 0" if "i < length bs" for i
    using Cons.prems(5) that by (metis Suc_less_eq add_Suc_right add_Suc_shift length_Cons)
  then obtain s2 where s2: "does (log_from pid lg (Suc tail) bs s1) s1 (log_writes (lg_start lg) (view s1) (Suc tail) bs) (refs s) s2"
    using Cons.IH [of s1 "Suc tail"] Cons.prems r by (auto simp: busy_def)
  have "view s1 x = view s x" if "x \<in> set bs" for x
    using that v Cons.prems(4) free by auto
  then have "log_writes (lg_start lg) (view s1) (Suc tail) bs = log_writes (lg_start lg) (view s) (Suc tail) bs"
    by (rule log_writes_cong)
  with does_then [where f = "log_from pid lg (Suc tail) bs", OF s1 s2] show ?case by auto
qed

lemma install_from_does:
  assumes "quiet s" "lg_dev lg = ROOTDEV" "card (busy s) < (if rec then 29 else 30)" "distinct bs"
    "\<forall>b \<in> set bs. refs s b = (if rec then 0 else 1)" "\<forall>i < length bs. refs s (lg_start lg + tail + 1 + i) = 0"
    "\<forall>i < length bs. lg_start lg + tail + 1 + i \<notin> set bs"
  shows "\<exists>s'. does (install_from pid rec lg tail bs s) s (home_writes (lg_start lg) (view s) tail bs)
           (\<lambda>n. if n \<in> set bs then 0 else refs s n) s'"
  using assms
proof (induction bs arbitrary: tail s)
  case Nil
  then show ?case by (auto simp: does_def)
next
  case (Cons b bs)
  have free: "refs s (lg_start lg + tail + 1) = 0" using Cons.prems(6) by fastforce
  have b: "refs s b = (if rec then 0 else 1)" using Cons.prems(5) by simp
  have ne: "lg_start lg + tail + 1 \<noteq> b" using Cons.prems(7) by force
  obtain s1 where s1: "does (install_one pid rec lg tail b s) s [(b, view s (lg_start lg + tail + 1))] ((refs s)(b := 0)) s1"
    using install_one_does [OF Cons.prems(1,2) ne Cons.prems(3) free b] by blast
  then have r: "refs s1 = (refs s)(b := 0)" "quiet s1" and v: "view s1 = (view s)(b := view s (lg_start lg + tail + 1))"
    by (auto simp: does_def)
  have next_free: "refs s (lg_start lg + Suc tail + 1 + i) = 0" "lg_start lg + Suc tail + 1 + i \<notin> set (b # bs)"
    if "i < length bs" for i
    using Cons.prems(6,7) that by (metis Suc_less_eq add_Suc_right add_Suc_shift length_Cons)+
  have "busy s1 \<subseteq> busy s" using r by (auto simp: busy_def)
  moreover have "finite (busy s)" using Cons.prems(1) by (simp add: quiet_def finite_busy)
  ultimately have "card (busy s1) < (if rec then 29 else 30)"
    using Cons.prems(3) card_mono by (metis le_less_trans)
  moreover have "\<forall>x \<in> set bs. refs s1 x = (if rec then 0 else 1)" "distinct bs"
    using Cons.prems(4,5) r(1) by auto
  moreover have "\<forall>i < length bs. refs s1 (lg_start lg + Suc tail + 1 + i) = 0"
    "\<forall>i < length bs. lg_start lg + Suc tail + 1 + i \<notin> set bs"
    using next_free r(1) by auto
  ultimately obtain s2 where s2: "does (install_from pid rec lg (Suc tail) bs s1) s1
      (home_writes (lg_start lg) (view s1) (Suc tail) bs) (\<lambda>n. if n \<in> set bs then 0 else refs s1 n) s2"
    using Cons.IH [OF r(2) Cons.prems(2)] by blast
  have "home_writes (lg_start lg) (view s1) (Suc tail) bs = home_writes (lg_start lg) (view s) (Suc tail) bs"
    using next_free(2) v by (intro home_writes_cong) auto
  moreover have "(\<lambda>n. if n \<in> set bs then 0 else refs s1 n) = (\<lambda>n. if n \<in> set (b # bs) then 0 else refs s n)"
    using r by auto
  ultimately show ?case using does_then [where f = "install_from pid rec lg (Suc tail) bs", OF s1 s2] by auto
qed

lemma write_head_does:
  assumes "quiet s" "lg_dev lg = ROOTDEV" "card (busy s) < NBUF" "refs s (lg_start lg) = 0"
  shows "\<exists>s'. does (write_head pid lg s) s [(lg_start lg, enc_head (lh lg) (view s (lg_start lg)))] (refs s) s'"
proof -
  have "room s (lg_start lg)" using assms(3) by (simp add: room_def busy_def)
  from write_head_spec [OF assms(1,2) this assms(4), of pid] show ?thesis unfolding does_def
    by (metis apply_writes.simps fst_conv snd_conv)
qed

end
