(* ===== verification/Log_Theorems.thy ===== *)
theory Log_Theorems
  imports Log
begin

text \<open>
  A transaction is atomic: wherever in \<open>commit\<close> the machine stops, the recovery at the next start makes
  the file system either what it was before or what it is after the transaction, and the write of the
  header is the moment that decides. Recovery can itself be interrupted and repeated.
\<close>

section \<open>What a disk recovers to\<close>

definition log_area :: "nat \<Rightarrow> nat set" where
  "log_area start = {start..start + LOGBLOCKS}"

text \<open>The contents of the disk after recovery: the logged blocks of the header, put in their places.\<close>

definition recovered :: "nat \<Rightarrow> (nat \<Rightarrow> block) \<Rightarrow> (nat \<Rightarrow> block)" where
  "recovered start d = apply_writes (home_writes start d 0 (dec_head (d start))) d"

lemma recovered_empty: "dec_head (d start) = [] \<Longrightarrow> recovered start d = d"
  by (simp add: recovered_def)

lemma recovered_at:
  assumes "distinct (dec_head (d start))" "i < length (dec_head (d start))"
  shows "recovered start d (dec_head (d start) ! i) = d (start + 1 + i)"
  unfolding recovered_def
proof (rule apply_at)
  show "distinct (map fst (home_writes start d 0 (dec_head (d start))))" using assms(1) by (simp add: home_writes_keys)
  show "(dec_head (d start) ! i, d (start + 1 + i)) \<in> set (home_writes start d 0 (dec_head (d start)))"
    using assms(2) by (auto simp: in_set_conv_nth home_writes_nth)
qed

lemma recovered_other: "n \<notin> set (dec_head (d start)) \<Longrightarrow> recovered start d n = d n"
proof -
  assume "n \<notin> set (dec_head (d start))"
  moreover have "fst ` set (home_writes start d 0 bs) = set bs" for bs
    by (metis home_writes_keys set_map)
  ultimately show ?thesis by (simp add: recovered_def apply_other)
qed

text \<open>
  A transaction ready to commit: nobody is at work in the cache, the logged blocks lie outside the log
  and are pinned, everything else is released, and the header on the disk says that the log is empty.
\<close>

definition ready :: "logst \<Rightarrow> bcache \<Rightarrow> bool" where
  "ready lg s \<longleftrightarrow> quiet s \<and> lg_dev lg = ROOTDEV \<and> distinct (lh lg) \<and> set (lh lg) \<inter> log_area (lg_start lg) = {}
     \<and> (\<forall>b \<in> set (lh lg). b < 2 ^ 32) \<and> refs s = (\<lambda>n. if n \<in> set (lh lg) then 1 else 0)
     \<and> dec_head (disk s (lg_start lg)) = []"

definition commit_writes :: "logst \<Rightarrow> bcache \<Rightarrow> (nat \<times> block) list" where
  "commit_writes lg s =
     (let start = lg_start lg; v = view s; bs = lh lg; head = enc_head bs (v start)
      in log_writes start v 0 bs @ [(start, head)] @ map (\<lambda>b. (b, v b)) bs @ [(start, enc_head [] head)])"

lemma busy_ready: "ready lg s \<Longrightarrow> busy s = set (lh lg)"
  by (auto simp: ready_def busy_def)

lemma in_log_area: "i \<le> LOGBLOCKS \<Longrightarrow> start + i \<in> log_area start"
  by (simp add: log_area_def)

lemma log_after:
  assumes "i < length bs"
  shows "apply_writes (log_writes start v 0 bs) f (start + 1 + i) = v (bs ! i)"
  using assms
  by (intro apply_at) (auto simp: log_writes_keys in_set_conv_nth log_writes_nth intro!: exI [of _ i])

lemma log_other: "n \<notin> {start + 1..<start + 1 + length bs} \<Longrightarrow> apply_writes (log_writes start v 0 bs) f n = f n"
proof (rule apply_other)
  assume "n \<notin> {start + 1..<start + 1 + length bs}"
  then show "n \<notin> fst ` set (log_writes start v 0 bs)"
    by (metis log_writes_keys set_map set_upt add.right_neutral)
qed

lemma commit_does:
  assumes r: "ready lg s" and len: "0 < length (lh lg)" "length (lh lg) < LOGBLOCKS"
  shows "\<exists>s'. commit pid lg s = Ret (lg\<lparr>lh := []\<rparr>, s') \<and> quiet s' \<and> refs s' = (\<lambda>_. 0)
    \<and> view s' = apply_writes (commit_writes lg s) (view s) \<and> disk s' = apply_writes (commit_writes lg s) (disk s)
    \<and> issued s' = issued s @ commit_writes lg s"
proof -
  let ?start = "lg_start lg" and ?v = "view s" and ?bs = "lh lg"
  let ?head = "enc_head ?bs (?v ?start)"
  have q: "quiet s" "lg_dev lg = ROOTDEV" "distinct ?bs" "set ?bs \<inter> log_area ?start = {}"
    and refs: "refs s = (\<lambda>n. if n \<in> set ?bs then 1 else 0)"
    using r by (auto simp: ready_def)
  have card: "card (busy s) < NBUF" using busy_ready [OF r] len(2) distinct_card [OF q(3)] by simp
  have area: "?start + i \<notin> set ?bs" if "i \<le> LOGBLOCKS" for i using in_log_area [OF that] q(4) by blast
  have area1: "?start + 0 + 1 + i \<notin> set ?bs" if "i < length ?bs" for i
    using area [of "Suc i"] that len(2) by simp
  have free1: "\<forall>i < length ?bs. refs s (?start + 0 + 1 + i) = 0" and pinned: "\<forall>b \<in> set ?bs. refs s b = 1"
    using refs area1 by auto
  obtain s1 where s1: "does (log_from pid lg 0 ?bs s) s (log_writes ?start ?v 0 ?bs) (refs s) s1"
    using log_from_does [OF q(1,2) card pinned free1, of pid] by blast
  then have 1: "quiet s1" "refs s1 = refs s" "view s1 = apply_writes (log_writes ?start ?v 0 ?bs) ?v" by (auto simp: does_def)
  have free: "refs s ?start = 0" using refs area [of 0] by simp
  have v1: "view s1 ?start = ?v ?start" using 1(3) by (simp add: log_other)
  obtain s2 where s2: "does (write_head pid lg s1) s1 [(?start, ?head)] (refs s) s2"
    using write_head_does [OF 1(1) q(2), of pid] card free 1(2) v1 by (auto simp: busy_def)
  then have 2: "quiet s2" "refs s2 = refs s" "view s2 = (view s1)(?start := ?head)" by (auto simp: does_def)
  have zero: "(\<lambda>n. if n \<in> set ?bs then 0 else refs s2 n) = (\<lambda>_. 0)" using 2(2) refs by (simp add: fun_eq_iff)
  have "\<exists>s3. does (install_from pid False lg 0 ?bs s2) s2 (home_writes ?start (view s2) 0 ?bs)
      (\<lambda>n. if n \<in> set ?bs then 0 else refs s2 n) s3"
    using q(3) 2(2) refs area1 card
    by (intro install_from_does [OF 2(1) q(2)]) (auto simp: busy_def)
  then obtain s3 where s3: "does (install_from pid False lg 0 ?bs s2) s2 (home_writes ?start (view s2) 0 ?bs) (\<lambda>_. 0) s3"
    unfolding zero by blast
  have home: "home_writes ?start (view s2) 0 ?bs = map (\<lambda>b. (b, ?v b)) ?bs"
  proof (rule nth_equalityI)
    fix i assume "i < length (home_writes ?start (view s2) 0 ?bs)"
    then have i: "i < length ?bs" by simp
    then have "view s2 (?start + 1 + i) = ?v (?bs ! i)" using 2(3) 1(3) log_after [OF i, of ?start ?v ?v] by simp
    then show "home_writes ?start (view s2) 0 ?bs ! i = map (\<lambda>b. (b, ?v b)) ?bs ! i" using i by (simp add: home_writes_nth)
  qed simp
  have 3: "quiet s3" "refs s3 = (\<lambda>_. 0)" "view s3 ?start = ?head"
    using s3 home 2(3) area [of 0] by (auto simp: does_def apply_other image_iff)
  obtain s4 where s4: "does (write_head pid (lg\<lparr>lh := []\<rparr>) s3) s3 [(?start, enc_head [] ?head)] (\<lambda>_. 0) s4"
    using write_head_does [OF 3(1), of "lg\<lparr>lh := []\<rparr>" pid] q(2) 3(2,3) by (auto simp: busy_def)
  have "commit pid lg s = Ret (lg\<lparr>lh := []\<rparr>, s4)"
    using s1 s2 s3 s4 len(1) by (simp add: does_def commit_def write_log_def install_trans_def)
  moreover have "commit_writes lg s = log_writes ?start ?v 0 ?bs @ [(?start, ?head)] @ home_writes ?start (view s2) 0 ?bs @ [(?start, enc_head [] ?head)]"
    by (simp add: commit_writes_def home Let_def)
  ultimately show ?thesis using s1 s2 s3 s4 by (auto simp: does_def apply_append)
qed

section \<open>Atomicity\<close>

lemma home_keys: "fst ` set (map (\<lambda>b. (b, v b)) bs) = set bs"
  by (simp add: image_image)

lemma home_at: "apply_writes (map (\<lambda>b. (b, v b)) bs) f n = (if n \<in> set bs then v n else f n)"
proof (induction bs arbitrary: f)
  case (Cons b bs)
  then show ?case by auto
qed simp

text \<open>The disk after the first \<open>k\<close> writes of the commit, in its three phases.\<close>

lemma crash_before:
  assumes r: "ready lg s" and k: "k \<le> length (lh lg)" "length (lh lg) < LOGBLOCKS" and n: "n \<notin> log_area (lg_start lg)"
  shows "recovered (lg_start lg) (apply_writes (take k (commit_writes lg s)) (disk s)) n = disk s n"
proof -
  let ?start = "lg_start lg" and ?w = "log_writes (lg_start lg) (view s) 0 (lh lg)"
  let ?d = "apply_writes (take k ?w) (disk s)"
  have t: "take k (commit_writes lg s) = take k ?w" using k by (simp add: commit_writes_def Let_def)
  have keys: "fst ` set (take k ?w) \<subseteq> {?start + 1..<?start + 1 + length (lh lg)}"
    by (metis (no_types) add.right_neutral image_mono log_writes_keys set_map set_take_subset set_upt)
  then have start: "?start \<notin> fst ` set (take k ?w)" by force
  have "n \<notin> fst ` set (take k ?w)" using keys n k(2) by (force simp: log_area_def)
  moreover have "recovered ?start ?d = ?d"
    using r start by (intro recovered_empty) (simp add: apply_other ready_def)
  ultimately show ?thesis by (simp add: t apply_other)
qed

lemma crash_after:
  assumes r: "ready lg s" and k: "length (lh lg) < k" "length (lh lg) < LOGBLOCKS" and n: "n \<notin> log_area (lg_start lg)"
  shows "recovered (lg_start lg) (apply_writes (take k (commit_writes lg s)) (disk s)) n = view s n"
proof -
  let ?start = "lg_start lg" and ?v = "view s" and ?bs = "lh lg"
  let ?head = "enc_head ?bs (?v ?start)" and ?w = "log_writes (lg_start lg) (view s) 0 (lh lg)"
  let ?hw = "map (\<lambda>b. (b, ?v b)) ?bs"
  have area: "?start + i \<notin> set ?bs" if "i \<le> LOGBLOCKS" for i using in_log_area [OF that] r by (auto simp: ready_def)
  have dist: "distinct ?bs" using r by (simp add: ready_def)
  have start_n: "n \<noteq> ?start" using n by (auto simp: log_area_def)
  have clean: "disk s n = ?v n" if "n \<notin> set ?bs"
    using r that view_clean [of s n] by (simp add: ready_def quiet_def)
  obtain j where j: "k = length ?bs + 1 + j" using k(1) less_iff_Suc_add by auto
  define d1 where "d1 = apply_writes (take j ?hw) ((apply_writes ?w (disk s))(?start := ?head))"
  have d1n: "d1 m = ((apply_writes ?w (disk s))(?start := ?head)) m \<or> m \<in> set ?bs \<and> d1 m = ?v m" for m
    unfolding d1_def take_map home_at by (auto dest: in_set_takeD)
  have d1_start: "d1 ?start = ?head" using d1n [of ?start] area [of 0] by auto
  have d1_log: "d1 (?start + 1 + i) = ?v (?bs ! i)" if i: "i < length ?bs" for i
    using d1n [of "?start + 1 + i"] area [of "Suc i"] i k(2) log_after [OF i] by auto
  have d1_home: "d1 n = ?v n" if "n \<notin> set ?bs"
    using d1n [of n] that start_n clean n k(2) by (auto simp: log_other log_area_def)
  have len: "length ?bs < 2 ^ 32" using k(2) by simp
  have dec: "dec_head ?head = ?bs" using r len by (intro dec_enc_head) (auto simp: ready_def)
  have rec1: "recovered ?start d1 n = ?v n"
  proof (cases "n \<in> set ?bs")
    case True
    then obtain i where "i < length ?bs" "n = ?bs ! i" by (auto simp: in_set_conv_nth)
    then show ?thesis using recovered_at [of d1 ?start i] d1_start dec dist d1_log by simp
  next
    case False
    then show ?thesis using recovered_other [of n d1 ?start] d1_start dec d1_home by simp
  qed
  show ?thesis
  proof (cases "j \<le> length ?bs")
    case True
    then have "take k (commit_writes lg s) = ?w @ [(?start, ?head)] @ take j ?hw"
      using j by (simp add: commit_writes_def Let_def)
    then show ?thesis using rec1 by (simp add: apply_append d1_def)
  next
    case False
    then have full: "take j ?hw = ?hw" by simp
    have "take k (commit_writes lg s) = (?w @ [(?start, ?head)] @ take j ?hw) @ [(?start, enc_head [] ?head)]"
      using j False by (simp add: commit_writes_def Let_def)
    then have d: "apply_writes (take k (commit_writes lg s)) (disk s) = d1(?start := enc_head [] ?head)"
      by (simp add: apply_append d1_def)
    have "dec_head (enc_head [] ?head) = []" by (rule dec_enc_head) auto
    then have "recovered ?start (d1(?start := enc_head [] ?head)) n = d1 n" using start_n by (simp add: recovered_empty)
    moreover have "d1 n = ?v n" if "n \<in> set ?bs"
      unfolding d1_def full home_at using that by simp
    ultimately show ?thesis unfolding d using d1_home by auto
  qed
qed

text \<open>
  C3: a transaction is atomic. \<open>commit\<close> returns, with everything written home and the log empty. And
  after a crash that lets only the first \<open>k\<close> of its writes reach the disk, the disk recovers to the file
  system before the transaction if \<open>k\<close> does not include the header, and to the one after it if it does.
\<close>

theorem commit_atomic:
  assumes "ready lg s" "0 < length (lh lg)" "length (lh lg) < LOGBLOCKS"
  shows "\<exists>s' ws. commit pid lg s = Ret (lg\<lparr>lh := []\<rparr>, s') \<and> issued s' = issued s @ ws \<and> quiet s'
     \<and> (\<forall>n. n \<notin> log_area (lg_start lg) \<longrightarrow> disk s' n = view s n \<and> view s' n = view s n)
     \<and> (\<forall>k n. n \<notin> log_area (lg_start lg) \<longrightarrow>
          recovered (lg_start lg) (apply_writes (take k ws) (disk s)) n = (if k \<le> length (lh lg) then disk s n else view s n))"
proof -
  let ?w = "commit_writes lg s" and ?start = "lg_start lg"
  obtain s' where s': "commit pid lg s = Ret (lg\<lparr>lh := []\<rparr>, s')" "quiet s'" "refs s' = (\<lambda>_. 0)"
    "view s' = apply_writes ?w (view s)" "disk s' = apply_writes ?w (disk s)" "issued s' = issued s @ ?w"
    using commit_does [OF assms, of pid] by blast
  have "view s' n = view s n" if n: "n \<notin> log_area ?start" for n
  proof -
    have "n \<notin> {?start + 1..<?start + 1 + length (lh lg)}" "n \<noteq> ?start" using n assms(3) by (auto simp: log_area_def)
    then show ?thesis by (auto simp: s'(4) commit_writes_def Let_def apply_append home_at log_other)
  qed
  moreover have "disk s' n = view s' n" for n using view_clean [of s' n] s'(2,3) by (simp add: quiet_def)
  ultimately show ?thesis
    using s' crash_before [OF assms(1) _ assms(3)] crash_after [OF assms(1) _ assms(3)]
    by (intro exI [of _ s'] exI [of _ ?w]) auto
qed

section \<open>Recovery\<close>

text \<open>A header that \<open>commit\<close> can have left behind.\<close>

definition valid_head :: "nat \<Rightarrow> (nat \<Rightarrow> block) \<Rightarrow> bool" where
  "valid_head start d \<longleftrightarrow> distinct (dec_head (d start)) \<and> length (dec_head (d start)) \<le> LOGBLOCKS
     \<and> set (dec_head (d start)) \<inter> log_area start = {}"

definition recovery_writes :: "nat \<Rightarrow> (nat \<Rightarrow> block) \<Rightarrow> (nat \<times> block) list" where
  "recovery_writes start d = home_writes start d 0 (dec_head (d start)) @ [(start, enc_head [] (d start))]"

text \<open>Just started: an empty cache over the disk.\<close>

definition booted :: "bcache \<Rightarrow> (nat \<Rightarrow> block) \<Rightarrow> bool" where
  "booted s d \<longleftrightarrow> quiet s \<and> refs s = (\<lambda>_. 0) \<and> view s = d \<and> disk s = d"

lemma booted_start: "booted (binit (boot_cache d)) d"
  by (simp add: booted_def quiet_def binit_spec)

lemma recover_does:
  assumes b: "booted s d" and dev: "lg_dev lg = ROOTDEV" and v: "valid_head (lg_start lg) d"
  shows "\<exists>s'. recover_from_log pid lg s = Ret (lg\<lparr>lh := []\<rparr>, s')
    \<and> booted s' (apply_writes (recovery_writes (lg_start lg) d) d) \<and> issued s' = issued s @ recovery_writes (lg_start lg) d"
proof -
  let ?start = "lg_start lg" and ?bs = "dec_head (d (lg_start lg))"
  let ?lg1 = "lg\<lparr>lh := ?bs\<rparr>"
  have q: "quiet s" "refs s = (\<lambda>_. 0)" "view s = d" "disk s = d" using b by (auto simp: booted_def)
  have empty: "busy s' = {}" if "refs s' = (\<lambda>_. 0)" for s' using that by (simp add: busy_def)
  have rm: "room s ?start" and r0: "refs s ?start = 0" using q by (simp_all add: room_def)
  obtain s1 where "read_head pid lg s = Ret (lg\<lparr>lh := dec_head (view s ?start)\<rparr>, s1)" "quiet s1"
    "view s1 = view s" "disk s1 = disk s" "refs s1 = refs s" "issued s1 = issued s"
    by (rule read_head_spec [OF q(1) dev rm r0, of pid]) (rule that; assumption)
  then have 1: "read_head pid lg s = Ret (?lg1, s1)" "quiet s1"
    "view s1 = d" "disk s1 = d" "refs s1 = (\<lambda>_. 0)" "issued s1 = issued s"
    using q by simp_all
  have area: "?start + i \<notin> set ?bs" if "i \<le> LOGBLOCKS" for i
    using in_log_area [OF that] v unfolding valid_head_def by blast
  have "?start + 0 + 1 + i \<notin> set ?bs" if "i < length ?bs" for i
    using area [of "Suc i"] that v by (simp add: valid_head_def)
  then have "\<exists>s2. does (install_from pid True ?lg1 0 ?bs s1) s1 (home_writes (lg_start ?lg1) (view s1) 0 ?bs)
      (\<lambda>n. if n \<in> set ?bs then 0 else refs s1 n) s2"
    using v dev 1(5) empty [OF 1(5)] by (intro install_from_does [OF 1(2)]) (auto simp: valid_head_def)
  then obtain s2 where s2: "does (install_from pid True ?lg1 0 ?bs s1) s1 (home_writes ?start d 0 ?bs) (\<lambda>_. 0) s2"
    unfolding 1(3,5) by auto
  then have 2: "quiet s2" "refs s2 = (\<lambda>_. 0)" "view s2 = apply_writes (home_writes ?start d 0 ?bs) d"
    "disk s2 = apply_writes (home_writes ?start d 0 ?bs) d" "issued s2 = issued s @ home_writes ?start d 0 ?bs"
    using 1 by (auto simp: does_def)
  have "?start \<notin> fst ` set (home_writes ?start d 0 ?bs)"
    using area [of 0] by (metis add.right_neutral home_writes_keys set_map zero_le)
  then have v2: "view s2 ?start = d ?start" using 2(3) by (simp add: apply_other)
  obtain s3 where s3: "does (write_head pid (lg\<lparr>lh := []\<rparr>) s2) s2 [(?start, enc_head [] (d ?start))] (\<lambda>_. 0) s3"
    using write_head_does [OF 2(1), of "lg\<lparr>lh := []\<rparr>" pid] dev 2(2) v2 empty [OF 2(2)] by auto
  have "recover_from_log pid lg s = Ret (lg\<lparr>lh := []\<rparr>, s3)"
    using 1(1) s2 s3 by (simp add: does_def recover_from_log_def install_trans_def Let_def)
  then show ?thesis
    using s3 2 by (auto simp: does_def booted_def recovery_writes_def apply_append)
qed

lemma recovered_home:
  assumes "valid_head start d" "n \<notin> log_area start"
  shows "apply_writes (recovery_writes start d) d n = recovered start d n"
proof -
  have "n \<noteq> start" using assms(2) by (auto simp: log_area_def)
  then show ?thesis by (simp add: recovery_writes_def apply_append recovered_def)
qed

text \<open>
  recovery can be repeated. It returns with the recovered file system on the disk and in the cache
  and an empty log, and if it is itself cut off after any number of its writes, the disk still recovers
  to the same file system.
\<close>

theorem recovery_restartable:
  assumes "booted s d" "lg_dev lg = ROOTDEV" "valid_head (lg_start lg) d"
  shows "\<exists>s' ws. recover_from_log pid lg s = Ret (lg\<lparr>lh := []\<rparr>, s') \<and> issued s' = issued s @ ws
     \<and> (\<forall>n. n \<notin> log_area (lg_start lg) \<longrightarrow> disk s' n = recovered (lg_start lg) d n \<and> view s' n = recovered (lg_start lg) d n)
     \<and> dec_head (disk s' (lg_start lg)) = []
     \<and> (\<forall>k n. n \<notin> log_area (lg_start lg) \<longrightarrow>
          recovered (lg_start lg) (apply_writes (take k ws) d) n = recovered (lg_start lg) d n)"
proof -
  let ?start = "lg_start lg" and ?bs = "dec_head (d (lg_start lg))"
  let ?ws = "recovery_writes ?start d" and ?hw = "home_writes ?start d 0 ?bs"
  obtain s' where s': "recover_from_log pid lg s = Ret (lg\<lparr>lh := []\<rparr>, s')" "booted s' (apply_writes ?ws d)"
    "issued s' = issued s @ ?ws" using recover_does [OF assms] by blast
  have dec: "dec_head (apply_writes ?ws d ?start) = []"
    by (simp add: recovery_writes_def apply_append dec_enc_head)
  have area: "?start + i \<notin> set ?bs" if "i \<le> LOGBLOCKS" for i
    using in_log_area [OF that] assms(3) unfolding valid_head_def by blast
  have "recovered ?start (apply_writes (take k ?ws) d) n = recovered ?start d n" if n: "n \<notin> log_area ?start" for k n
  proof (cases "k \<le> length ?bs")
    case True
    let ?d = "apply_writes (take k ?hw) d"
    have t: "take k ?ws = take k ?hw" using True by (simp add: recovery_writes_def)
    have keys: "fst ` set (take k ?hw) \<subseteq> set ?bs" by (metis home_writes_keys image_mono set_map set_take_subset)
    have same: "?d (?start + i) = d (?start + i)" if "i \<le> LOGBLOCKS" for i
      using area [OF that] keys by (intro apply_other) blast
    have head: "?d ?start = d ?start" using same [of 0] by simp
    show ?thesis
    proof (cases "n \<in> set ?bs")
      case True
      then obtain i where i: "i < length ?bs" "n = ?bs ! i" by (auto simp: in_set_conv_nth)
      moreover have "i < LOGBLOCKS" using i(1) assms(3) by (simp add: valid_head_def)
      ultimately show ?thesis
        using recovered_at [of ?d ?start i] recovered_at [of d ?start i] same [of "Suc i"] assms(3)
        by (simp add: t head valid_head_def)
    next
      case False
      then show ?thesis
        using recovered_other [of n ?d ?start] recovered_other [of n d ?start] keys apply_other [of n "take k ?hw" d]
        by (auto simp: t head)
    qed
  next
    case False
    then have "take k ?ws = ?ws" by (simp add: recovery_writes_def)
    then show ?thesis using recovered_empty [of "apply_writes ?ws d" ?start] dec recovered_home [OF assms(3) n] by simp
  qed
  then show ?thesis
    using s' dec recovered_home [OF assms(3)] by (intro exI [of _ s'] exI [of _ ?ws]) (auto simp: booted_def)
qed

lemma recovered_head:
  assumes r: "ready lg s" and len: "length (lh lg) < LOGBLOCKS"
  shows "valid_head (lg_start lg) (apply_writes (take k (commit_writes lg s)) (disk s))"
proof -
  let ?start = "lg_start lg" and ?bs = "lh lg" and ?w = "log_writes (lg_start lg) (view s) 0 (lh lg)"
  let ?head = "enc_head ?bs (view s ?start)" and ?hw = "map (\<lambda>b. (b, view s b)) ?bs"
  have area: "?start \<notin> set ?bs" using in_log_area [of 0 ?start] r by (auto simp: ready_def)
  have dec: "dec_head ?head = ?bs" using r len by (intro dec_enc_head) (auto simp: ready_def)
  have keys: "?start \<notin> fst ` set (take j ?w)" "?start \<notin> fst ` set (take j ?hw)" for j
  proof -
    have "?start \<notin> fst ` set ?w" using log_writes_keys [of ?start "view s" 0 ?bs] by (metis add.right_neutral atLeastLessThan_iff less_add_one not_le set_map set_upt)
    then show "?start \<notin> fst ` set (take j ?w)" by (meson image_mono in_mono set_take_subset)
    show "?start \<notin> fst ` set (take j ?hw)" using area by (metis home_keys image_mono in_mono set_take_subset)
  qed
  have "dec_head (apply_writes (take k (commit_writes lg s)) (disk s) ?start) \<in> {[], ?bs}"
  proof -
    consider "k \<le> length ?bs" | "length ?bs < k" "k \<le> 2 * length ?bs + 1" | "2 * length ?bs + 1 < k" by linarith
    then show ?thesis
    proof cases
      case 1
      then have "take k (commit_writes lg s) = take k ?w" by (simp add: commit_writes_def Let_def)
      then show ?thesis using keys r by (simp add: apply_other ready_def)
    next
      case 2
      then have "take k (commit_writes lg s) = ?w @ [(?start, ?head)] @ take (k - length ?bs - 1) ?hw"
        by (simp add: commit_writes_def Let_def take_Cons' )
      then show ?thesis using keys dec by (simp add: apply_append apply_other)
    next
      case 3
      then have "take k (commit_writes lg s) = commit_writes lg s" by (simp add: commit_writes_def Let_def)
      then show ?thesis by (simp add: commit_writes_def Let_def apply_append dec_enc_head)
    qed
  qed
  then show ?thesis using r len by (auto simp: valid_head_def ready_def)
qed

text \<open>
  C2: a crash is survived. If the machine stops after the first \<open>k\<close> writes of a commit and starts again,
  \<open>initlog\<close> returns, the log is empty, and what the file system reads from the cache is, for every block
  outside the log, the old contents if the header had not been written and the new contents if it had.
\<close>

theorem crash_recovery:
  assumes "ready lg s" "0 < length (lh lg)" "length (lh lg) < LOGBLOCKS" "commit pid lg s = Ret (lg', s')"
    "n \<notin> log_area (lg_start lg)"
  shows "\<exists>lg2 s2. initlog pid2 ROOTDEV (lg_start lg) zero_log
       (binit (boot_cache (apply_writes (take k (drop (length (issued s)) (issued s'))) (disk s)))) = Ret (lg2, s2)
     \<and> lh lg2 = [] \<and> view s2 n = (if k \<le> length (lh lg) then disk s n else view s n)"
proof -
  let ?start = "lg_start lg" and ?d = "apply_writes (take k (commit_writes lg s)) (disk s)"
  let ?lg = "zero_log\<lparr>lg_start := lg_start lg, lg_dev := ROOTDEV\<rparr>"
  have "issued s' = issued s @ commit_writes lg s" using commit_does [OF assms(1-3), of pid] assms(4) by auto
  then have ws: "drop (length (issued s)) (issued s') = commit_writes lg s" by simp
  have v: "valid_head ?start ?d" by (rule recovered_head [OF assms(1,3)])
  then obtain s2 where s2: "recover_from_log pid2 ?lg (binit (boot_cache ?d)) = Ret (?lg\<lparr>lh := []\<rparr>, s2)"
    "booted s2 (apply_writes (recovery_writes ?start ?d) ?d)"
    using recover_does [OF booted_start, of ?lg ?d pid2] by auto
  have "view s2 n = recovered ?start ?d n"
    using s2(2) recovered_home [OF v assms(5)] by (simp add: booted_def)
  also have "\<dots> = (if k \<le> length (lh lg) then disk s n else view s n)"
    using crash_before [OF assms(1) _ assms(3,5)] crash_after [OF assms(1) _ assms(3,5)] by simp
  finally show ?thesis using s2(1) unfolding ws initlog_def by (intro exI [of _ "?lg\<lparr>lh := []\<rparr>"] exI [of _ s2]) simp
qed

section \<open>Transactions of the file system\<close>

text \<open>How \<open>fs.c\<close> changes a block: read it, change it, \<open>log_write\<close>, release it.\<close>

definition change_block :: "int \<Rightarrow> nat \<Rightarrow> block \<Rightarrow> logst \<Rightarrow> bcache \<Rightarrow> (logst \<times> bcache) outcome" where
  "change_block pid n d lg s =
     bind_outcome (bread pid (lg_dev lg) n s) (\<lambda>(b, s1).
     bind_outcome (log_write b lg (set_data b d s1)) (\<lambda>(lg1, s2).
     bind_outcome (brelse pid b s2) (\<lambda>s3. Ret (lg1, s3))))"

lemma change_block_ready:
  assumes r: "ready lg s" and n: "n \<notin> set (lh lg)" "n \<notin> log_area (lg_start lg)" "n < 2 ^ 32"
    and space: "length (lh lg) < LOGBLOCKS" "1 \<le> lg_outstanding lg"
  shows "\<exists>s'. change_block pid n d lg s = Ret (lg\<lparr>lh := lh lg @ [n]\<rparr>, s') \<and> ready (lg\<lparr>lh := lh lg @ [n]\<rparr>) s'
     \<and> view s' = (view s)(n := d) \<and> disk s' = disk s"
proof -
  have q: "quiet s" "lg_dev lg = ROOTDEV" and refs: "refs s = (\<lambda>n. if n \<in> set (lh lg) then 1 else 0)"
    using r by (auto simp: ready_def)
  have inv: "cache_inv s" and nl: "\<not> locked s m" for m using q(1) by (simp_all add: quiet_def)
  have "card (busy s) < NBUF" using busy_ready [OF r] space(1) r distinct_card [of "lh lg"] by (simp add: ready_def)
  then have rm: "room s n" by (simp add: room_def busy_def)
  obtain b s1 where 1: "bread pid ROOTDEV n s = Ret (b, s1)" "cache_inv s1" "holds pid s1 n b"
    "view s1 = view s" "refs s1 = (refs s)(n := refs s n + 1)" "disk s1 = disk s" "locked s1 = (locked s)(n := True)"
    by (rule bread_spec [OF inv nl rm, of pid]) (rule that; assumption)
  let ?s2 = "set_data b d s1"
  note s2 = set_data_spec [OF 1(2,3), where d = d]
  have h2: "holds pid ?s2 n b" using s2(5) [OF 1(3)] .
  note s3 = bpin_spec [OF s2(1) h2]
  have r3: "refs (bpin b ?s2) n = 2" using s3(3) s2(3) 1(5) refs n(1) by simp
  have lw: "log_write b lg ?s2 = Ret (lg\<lparr>lh := lh lg @ [n]\<rparr>, bpin b ?s2)"
    using space n(1) held_buf(1) [OF s2(1) h2] by (simp add: log_write_def)
  have ne1: "refs (bpin b ?s2) n \<noteq> 1" using r3 by simp
  obtain s4 where 4: "brelse pid b (bpin b ?s2) = Ret s4" "cache_inv s4" "view s4 = view (bpin b ?s2)"
    "refs s4 = (refs (bpin b ?s2))(n := refs (bpin b ?s2) n - 1)"
    "locked s4 = (locked (bpin b ?s2))(n := False)" "disk s4 = disk (bpin b ?s2)"
    by (rule brelse_spec [OF s3(1) s3(5) [OF h2]]) (erule notE [OF ne1], (rule that; assumption))
  have "change_block pid n d lg s = Ret (lg\<lparr>lh := lh lg @ [n]\<rparr>, s4)"
    using 1(1) lw 4(1) q(2) by (simp add: change_block_def)
  moreover have "view s4 = (view s)(n := d)" using 4(3) s3(2) s2(2) 1(4) by simp
  moreover have disk: "disk s4 = disk s" using 4(6) s3(6) s2(6) 1(6) by simp
  moreover have "quiet s4" using 4(2,5) s3(4) s2(4) 1(7) q(1) by (auto simp: quiet_def fun_eq_iff)
  moreover have "refs s4 = (\<lambda>m. if m \<in> set (lh lg @ [n]) then 1 else 0)"
    using 4(4) r3 s3(3) s2(3) 1(5) refs by (auto simp: fun_eq_iff)
  ultimately show ?thesis using r n disk by (intro exI [of _ s4]) (auto simp: ready_def)
qed

definition zeros :: block where "zeros = replicate BSIZE 0"
definition sevens :: block where "sevens = replicate BSIZE 7"

definition log_at_2 :: "nat list \<Rightarrow> logst" where
  "log_at_2 bs = \<lparr>lg_start = 2, lg_outstanding = 1, lg_committing = False, lg_dev = ROOTDEV, lh = bs\<rparr>"

lemma dec_le_replicate [simp]: "dec_le (replicate n 0) = 0"
  by (induction n) simp_all

lemma dec_zeros [simp]: "dec_head zeros = []"
  by (simp only: dec_head_def get32_def zeros_def drop_replicate take_replicate dec_le_replicate) simp

text \<open>A transaction that has filled \<open>k\<close> blocks from number 60 on with sevens.\<close>

lemma ready_example:
  "k \<le> LOGBLOCKS \<Longrightarrow> \<exists>s. ready (log_at_2 [60..<60 + k]) s \<and> disk s = (\<lambda>_. zeros)
     \<and> view s = (\<lambda>n. if n \<in> {60..<60 + k} then sevens else zeros)"
proof (induction k)
  case 0
  have "ready (log_at_2 []) (binit (boot_cache (\<lambda>_. zeros)))"
    by (simp add: ready_def log_at_2_def quiet_def binit_spec)
  then show ?case by (intro exI [of _ "binit (boot_cache (\<lambda>_. zeros))"]) (simp add: binit_spec)
next
  case (Suc k)
  then obtain s where s: "ready (log_at_2 [60..<60 + k]) s" "disk s = (\<lambda>_. zeros)"
    "view s = (\<lambda>n. if n \<in> {60..<60 + k} then sevens else zeros)" by auto
  have "\<exists>s'. change_block 1 (60 + k) sevens (log_at_2 [60..<60 + k]) s
        = Ret ((log_at_2 [60..<60 + k])\<lparr>lh := lh (log_at_2 [60..<60 + k]) @ [60 + k]\<rparr>, s')
      \<and> ready ((log_at_2 [60..<60 + k])\<lparr>lh := lh (log_at_2 [60..<60 + k]) @ [60 + k]\<rparr>) s'
      \<and> view s' = (view s)(60 + k := sevens) \<and> disk s' = disk s"
    using Suc.prems by (intro change_block_ready [OF s(1)]) (auto simp: log_at_2_def log_area_def)
  moreover have "(log_at_2 [60..<60 + k])\<lparr>lh := lh (log_at_2 [60..<60 + k]) @ [60 + k]\<rparr> = log_at_2 [60..<60 + Suc k]"
    by (simp only: log_at_2_def logst.simps add_Suc_right upt_Suc_append le_add1)
  ultimately obtain s' where "ready (log_at_2 [60..<60 + Suc k]) s'" "view s' = (view s)(60 + k := sevens)" "disk s' = disk s"
    by metis
  then show ?case using s by (intro exI [of _ s']) (auto simp: fun_eq_iff)
qed

lemma ready_three: "\<exists>s. ready (log_at_2 [60, 61, 62]) s \<and> disk s = (\<lambda>_. zeros)
     \<and> view s = (\<lambda>n. if n \<in> {60, 61, 62} then sevens else zeros)"
proof -
  have "[60..<60 + 3] = [60, 61, 62::nat]" and "{60..<60 + 3} = {60, 61, 62::nat}" by (auto simp: upt_rec)
  then show ?thesis using ready_example [of 3] by simp
qed

lemma log_at_2_simps [simp]: "lh (log_at_2 bs) = bs" "lg_start (log_at_2 bs) = 2" "lg_dev (log_at_2 bs) = ROOTDEV"
  by (simp_all add: log_at_2_def)

lemma zeros_sevens: "zeros \<noteq> sevens"
  by (simp add: zeros_def sevens_def)

theorem commit_atomic_witness:
  "\<exists>s s' ws. commit 1 (log_at_2 [60, 61, 62]) s = Ret (log_at_2 [], s') \<and> disk s 61 = zeros \<and> disk s' 61 = sevens
     \<and> recovered 2 (apply_writes (take 3 ws) (disk s)) 61 = zeros \<and> recovered 2 (apply_writes (take 4 ws) (disk s)) 61 = sevens"
proof -
  obtain s where s: "ready (log_at_2 [60, 61, 62]) s" "disk s = (\<lambda>_. zeros)"
    "view s = (\<lambda>n. if n \<in> {60, 61, 62} then sevens else zeros)" using ready_three by blast
  have out: "61 \<notin> log_area 2" by (simp add: log_area_def)
  obtain s' ws where c: "commit 1 (log_at_2 [60, 61, 62]) s = Ret ((log_at_2 [60, 61, 62])\<lparr>lh := []\<rparr>, s')"
    "\<forall>n. n \<notin> log_area 2 \<longrightarrow> disk s' n = view s n \<and> view s' n = view s n"
    "\<forall>k n. n \<notin> log_area 2 \<longrightarrow> recovered 2 (apply_writes (take k ws) (disk s)) n = (if k \<le> 3 then disk s n else view s n)"
    using commit_atomic [OF s(1), of 1] by (simp add: numeral_3_eq_3) blast
  have "(log_at_2 [60, 61, 62])\<lparr>lh := []\<rparr> = log_at_2 []" by (simp add: log_at_2_def)
  then show ?thesis using c(1) c(2,3) [rule_format, OF out] s(2,3)
    by (intro exI [of _ s] exI [of _ s'] exI [of _ ws]) simp
qed

text \<open>A disk on which a commit was cut off after its header: one block in the log, not yet in its place.\<close>

definition cut_disk :: "nat \<Rightarrow> block" where
  "cut_disk = (\<lambda>n. if n = 2 then enc_head [60] zeros else if n = 3 then sevens else zeros)"

lemma dec_cut_disk: "dec_head (cut_disk 2) = [60]"
  by (simp add: cut_disk_def dec_enc_head)

theorem recovery_restartable_witness:
  "\<exists>s'. recover_from_log 1 (log_at_2 []) (binit (boot_cache cut_disk)) = Ret (log_at_2 [], s')
     \<and> cut_disk 60 = zeros \<and> disk s' 60 = sevens \<and> view s' 60 = sevens"
proof -
  have out: "60 \<notin> log_area 2" by (simp add: log_area_def)
  have v: "valid_head (lg_start (log_at_2 [])) cut_disk" by (simp add: valid_head_def dec_cut_disk log_area_def)
  have "recovered 2 cut_disk 60 = sevens"
    using recovered_at [of cut_disk 2 0] by (simp add: dec_cut_disk) (simp add: cut_disk_def)
  moreover obtain s' where "recover_from_log 1 (log_at_2 []) (binit (boot_cache cut_disk)) = Ret ((log_at_2 [])\<lparr>lh := []\<rparr>, s')"
    "disk s' 60 = recovered 2 cut_disk 60 \<and> view s' 60 = recovered 2 cut_disk 60"
    using recovery_restartable [OF booted_start _ v, of 1] out by auto
  moreover have "(log_at_2 [])\<lparr>lh := []\<rparr> = log_at_2 []" by (simp add: log_at_2_def)
  ultimately show ?thesis by (intro exI [of _ s']) (simp add: cut_disk_def)
qed

theorem crash_recovery_witness:
  "\<exists>s s' lg2 s2. commit 1 (log_at_2 [60, 61, 62]) s = Ret (log_at_2 [], s') \<and> disk s 61 = zeros
     \<and> initlog 1 ROOTDEV 2 zero_log
         (binit (boot_cache (apply_writes (take 5 (drop (length (issued s)) (issued s'))) (disk s)))) = Ret (lg2, s2)
     \<and> lh lg2 = [] \<and> view s2 61 = sevens"
proof -
  obtain s where s: "ready (log_at_2 [60, 61, 62]) s" "disk s = (\<lambda>_. zeros)"
    "view s = (\<lambda>n. if n \<in> {60, 61, 62} then sevens else zeros)" using ready_three by blast
  have out: "61 \<notin> log_area (lg_start (log_at_2 [60, 61, 62]))" by (simp add: log_area_def)
  obtain s' where "commit 1 (log_at_2 [60, 61, 62]) s = Ret ((log_at_2 [60, 61, 62])\<lparr>lh := []\<rparr>, s')"
    using commit_does [OF s(1), of 1] by auto
  moreover have "(log_at_2 [60, 61, 62])\<lparr>lh := []\<rparr> = log_at_2 []" by (simp add: log_at_2_def)
  ultimately have c: "commit 1 (log_at_2 [60, 61, 62]) s = Ret (log_at_2 [], s')" by simp
  obtain lg2 s2 where "initlog 1 ROOTDEV 2 zero_log
         (binit (boot_cache (apply_writes (take 5 (drop (length (issued s)) (issued s'))) (disk s)))) = Ret (lg2, s2)"
    "lh lg2 = []" "view s2 61 = sevens"
    using crash_recovery [OF s(1) _ _ c out, of 1 5] s(3) by auto
  then show ?thesis using c s(2) by (intro exI [of _ s] exI [of _ s'] exI [of _ lg2] exI [of _ s2]) simp
qed

section \<open>The log is never overfull\<close>

text \<open>
  The system calls at work on the log, with the number of blocks each may still write: \<open>begin_op\<close> lets a
  call in, which then may write \<open>MAXOPBLOCKS\<close> blocks, and \<open>end_op\<close> takes it out.
\<close>

type_synonym log_clients = "logst \<times> (int \<Rightarrow> nat option)"

inductive log_step :: "log_clients \<Rightarrow> log_clients \<Rightarrow> bool" where
  log_begin: "begin_op lg = Some lg' \<Longrightarrow> q p = None \<Longrightarrow> log_step (lg, q) (lg', q(p \<mapsto> nat MAXOPBLOCKS))"
| log_put: "log_write b lg s = Ret (lg', s') \<Longrightarrow> q p = Some (Suc k) \<Longrightarrow> log_step (lg, q) (lg', q(p \<mapsto> k))"
| log_end: "end_op p lg s = Ret (lg', s') \<Longrightarrow> q p = Some k \<Longrightarrow> log_step (lg, q) (lg', q(p := None))"

definition log_fits :: "log_clients \<Rightarrow> bool" where
  "log_fits = (\<lambda>(lg, q). finite (dom q) \<and> lg_outstanding lg = int (card (dom q))
     \<and> (\<forall>p \<in> dom q. the (q p) \<le> nat MAXOPBLOCKS)
     \<and> length (lh lg) + (\<Sum>p \<in> dom q. the (q p)) \<le> LOGBLOCKS)"

lemma commit_log: "commit pid lg s = Ret (lg', s') \<Longrightarrow> lg' = lg\<lparr>lh := []\<rparr>"
  by (cases lg) (auto simp: commit_def Let_def elim!: bind_RetE split: if_splits)

lemma end_op_log:
  "end_op pid lg s = Ret (lg', s') \<Longrightarrow> lg_outstanding lg' = lg_outstanding lg - 1 \<and> length (lh lg') \<le> length (lh lg)"
  by (auto simp: end_op_def Let_def dest: commit_log elim!: bind_RetE split: if_splits prod.splits)

lemma sum_le_card: "finite A \<Longrightarrow> \<forall>p \<in> A. f p \<le> (k::nat) \<Longrightarrow> sum f A \<le> card A * k"
  using sum_bounded_above [of A f k] by simp

lemma sum_dom_upd:
  "finite (dom q) \<Longrightarrow> (\<Sum>x \<in> dom (q(p \<mapsto> k)). the ((q(p \<mapsto> k)) x)) = k + (\<Sum>x \<in> dom q - {p}. the (q x))"
  by (simp add: sum.insert_remove)

lemma log_step_fits: "log_step c c' \<Longrightarrow> log_fits c \<Longrightarrow> log_fits c'"
proof (induction rule: log_step.induct)
  case (log_begin lg lg' q p)
  then have n: "finite (dom q)" "lg_outstanding lg = int (card (dom q))" "p \<notin> dom q"
    "\<forall>p \<in> dom q. the (q p) \<le> nat MAXOPBLOCKS" by (auto simp: log_fits_def)
  have le: "length (lh lg) + (card (dom q) + 1) * 10 \<le> 30"
    and lg': "lg' = lg\<lparr>lg_outstanding := lg_outstanding lg + 1\<rparr>"
    using log_begin(1) n(2) by (auto simp: begin_op_def split: if_splits)
  have "(\<Sum>x \<in> dom q. the (q x)) \<le> card (dom q) * 10" using sum_le_card [OF n(1,4)] by simp
  then show ?case using n le sum_dom_upd [OF n(1), of p 10] by (auto simp: log_fits_def lg')
next
  case (log_put b lg s lg' s' q p k)
  then have n: "finite (dom q)" "p \<in> dom q" by (auto simp: log_fits_def)
  have ins: "insert p (dom q) = dom q" using n(2) by blast
  have "\<forall>p \<in> dom q. the (q p) \<le> 10" using log_put(3) by (simp add: log_fits_def)
  then have k: "k \<le> 10" using log_put(2) n(2) by (metis Suc_leD option.sel)
  have "(\<Sum>x \<in> dom q. the (q x)) = Suc k + (\<Sum>x \<in> dom q - {p}. the (q x))"
    using n log_put(2) by (simp add: sum.remove)
  moreover have "length (lh lg') \<le> Suc (length (lh lg))" "lg_outstanding lg' = lg_outstanding lg"
    using log_put(1) by (auto simp: log_write_def split: if_splits)
  ultimately show ?case
    using log_put n(1) k sum_dom_upd [OF n(1), of p k] unfolding log_fits_def by (auto simp: ins)
next
  case (log_end p lg s lg' s' q k)
  then have n: "finite (dom q)" "p \<in> dom q" by (auto simp: log_fits_def)
  have card: "int (card (dom q - {p})) = int (card (dom q)) - 1"
    using n card_gt_0_iff [of "dom q"] by (auto simp: card_Diff_singleton of_nat_diff)
  have "(\<Sum>x \<in> dom q - {p}. the ((q(p := None)) x)) = (\<Sum>x \<in> dom q - {p}. the (q x))" by (rule sum.cong) auto
  then have "(\<Sum>x \<in> dom q - {p}. the ((q(p := None)) x)) \<le> (\<Sum>x \<in> dom q. the (q x))"
    using n(1) by (simp add: sum_mono2)
  then show ?case using log_end end_op_log [OF log_end(1)] n card by (auto simp: log_fits_def)
qed

text \<open>
  C32: reservation keeps the log from overflowing. However system calls enter, write and leave, a call
  that is inside and has written fewer than \<open>MAXOPBLOCKS\<close> blocks never makes \<open>log_write\<close> panic, neither
  with "too big a transaction" nor with "outside of trans".
\<close>

theorem log_write_fits:
  assumes "log_step\<^sup>*\<^sup>* (zero_log, \<lambda>_. None) (lg, q)" "q p = Some (Suc k)"
  shows "\<exists>lg' s'. log_write b lg s = Ret (lg', s')"
proof -
  have "log_fits (lg, q)"
    using assms(1)
  proof (induction rule: rtranclp_induct)
    case base
    show ?case by (simp add: log_fits_def zero_log_def)
  next
    case (step c c')
    then show ?case by (blast intro: log_step_fits)
  qed
  then have n: "finite (dom q)" "lg_outstanding lg = int (card (dom q))"
    "length (lh lg) + (\<Sum>p \<in> dom q. the (q p)) \<le> LOGBLOCKS" by (auto simp: log_fits_def)
  have p: "p \<in> dom q" using assms(2) by blast
  have "(\<Sum>x \<in> dom q. the (q x)) = Suc k + (\<Sum>x \<in> dom q - {p}. the (q x))"
    using n(1) p assms(2) by (simp add: sum.remove)
  moreover have "0 < card (dom q)" using n(1) p by (auto simp: card_gt_0_iff)
  ultimately show ?thesis using n p by (auto simp: log_write_def)
qed

theorem log_write_fits_witness:
  "\<exists>lg' s'. log_write 0 (zero_log\<lparr>lg_outstanding := 1\<rparr>) (boot_cache (\<lambda>_. zeros)) = Ret (lg', s')"
proof (rule log_write_fits)
  show "log_step\<^sup>*\<^sup>* (zero_log, \<lambda>_. None) (zero_log\<lparr>lg_outstanding := 1\<rparr>, (\<lambda>_. None)(7 \<mapsto> 10))"
    by (rule r_into_rtranclp) (use log_begin [of zero_log _ "\<lambda>_. None" 7] in \<open>simp add: begin_op_def zero_log_def\<close>)
  show "((\<lambda>_. None)(7 \<mapsto> 10)) 7 = Some (Suc 9)" by simp
qed

section \<open>A full log\<close>

text \<open>
  the log has room for as many blocks as the cache has buffers. A transaction of \<open>LOGBLOCKS\<close> blocks,
  which \<open>begin_op\<close> and \<open>log_write\<close> admit, pins every buffer, and its commit panics for want of one for
  the log itself: \<open>NBUF\<close> is one (or, to copy, two) too small.
\<close>

theorem full_log_panics:
  assumes "ready lg s" "length (lh lg) = LOGBLOCKS"
  shows "commit pid lg s = Panics ''bget: no buffers''"
proof -
  have q: "quiet s" "lg_dev lg = ROOTDEV" "distinct (lh lg)" "set (lh lg) \<inter> log_area (lg_start lg) = {}"
    and refs: "refs s = (\<lambda>n. if n \<in> set (lh lg) then 1 else 0)"
    using assms(1) by (auto simp: ready_def)
  have "card (busy s) = NBUF" using busy_ready [OF assms(1)] assms(2) distinct_card [OF q(3)] by simp
  moreover have "lg_start lg + 1 \<notin> set (lh lg)" using in_log_area [of 1 "lg_start lg"] q(4) by auto
  ultimately have "\<not> room s (lg_start lg + 0 + 1)" using refs by (simp add: room_def busy_def)
  then have "bread pid (lg_dev lg) (lg_start lg + 0 + 1) s = Panics ''bget: no buffers''"
    using bread_panics q(1,2) by (simp add: quiet_def)
  moreover obtain b bs where "lh lg = b # bs" using assms(2) by (cases "lh lg") auto
  ultimately show ?thesis by (simp add: commit_def write_log_def log_one_def bind_outcome_def)
qed

theorem full_log_panics_witness:
  "\<exists>s. ready (log_at_2 [60..<60 + 30]) s \<and> commit 1 (log_at_2 [60..<60 + 30]) s = Panics ''bget: no buffers''"
proof -
  obtain s where "ready (log_at_2 [60..<60 + 30]) s" using ready_example [of 30] by auto
  then show ?thesis using full_log_panics [of "log_at_2 [60..<60 + 30]" s 1] by auto
qed

end
