(* ===== verification/Fs.thy ===== *)
theory Fs
  imports Log
begin

unbundle bit_operations_syntax

text \<open>
  The file system of the kernel, \<open>kernel/fs.c\<close>, on top of the log and the buffer cache: the block
  allocator, inodes, the contents of files, directories and path names. The global variables and
  the running process are the record \<open>fsys\<close>; an operation takes this state to an outcome with a value,
  and two operations follow each other by \<open>andthen\<close>. A \<open>struct inode *\<close> is the number of its slot in
  the inode table, \<open>None\<close> where the code has the null pointer. Unsigned 32-bit integers are \<open>nat\<close>
  with the wrap-around written out where the code tests for it. Copying from and to a user or kernel
  address is an argument: for \<open>readi\<close> whether the copy at that distance succeeds, for \<open>writei\<close> the bytes
  that arrive in the buffer and whether all of them do. The messages on the console are left out.
\<close>

section \<open>Format of the disk\<close>

abbreviation (input) BPB :: nat where "BPB \<equiv> 8192"
abbreviation (input) IPB :: nat where "IPB \<equiv> 16"
abbreviation (input) NDIRECT :: nat where "NDIRECT \<equiv> 12"
abbreviation (input) NINDIRECT :: nat where "NINDIRECT \<equiv> 256"
abbreviation (input) MAXFILE :: nat where "MAXFILE \<equiv> 268"
abbreviation (input) DIRSIZ :: nat where "DIRSIZ \<equiv> 14"
abbreviation (input) DIRENT :: nat where "DIRENT \<equiv> 16"
abbreviation (input) NINODE :: nat where "NINODE \<equiv> 50"
abbreviation (input) ROOTINO :: nat where "ROOTINO \<equiv> 1"
abbreviation (input) FSMAGIC :: nat where "FSMAGIC \<equiv> 0x10203040"
abbreviation (input) T_DIR :: int where "T_DIR \<equiv> 1"

record superblock =
  s_magic :: nat
  s_size :: nat
  s_nblocks :: nat
  s_ninodes :: nat
  s_nlog :: nat
  s_logstart :: nat
  s_inodestart :: nat
  s_bmapstart :: nat

record dinode =
  di_type :: int
  di_major :: int
  di_minor :: int
  di_nlink :: int
  di_size :: nat
  di_addrs :: "nat list"

definition IBLOCK :: "nat \<Rightarrow> superblock \<Rightarrow> nat" where
  "IBLOCK i sb = i div IPB + s_inodestart sb"

definition BBLOCK :: "nat \<Rightarrow> superblock \<Rightarrow> nat" where
  "BBLOCK b sb = b div BPB + s_bmapstart sb"

text \<open>Overwriting part of a block.\<close>

definition put_bytes :: "nat \<Rightarrow> byte list \<Rightarrow> block \<Rightarrow> block" where
  "put_bytes off bs d = take off d @ bs @ drop (off + length bs) d"

definition dec_short :: "byte list \<Rightarrow> int" where
  "dec_short bs = signed_take_bit 15 (dec_le (take 2 bs))"

definition enc_dinode :: "dinode \<Rightarrow> byte list" where
  "enc_dinode di = enc_le 2 (di_type di) @ enc_le 2 (di_major di) @ enc_le 2 (di_minor di) @ enc_le 2 (di_nlink di)
     @ enc_le 4 (int (di_size di)) @ concat (map (\<lambda>a. enc_le 4 (int a)) (di_addrs di))"

definition dec_dinode :: "byte list \<Rightarrow> dinode" where
  "dec_dinode bs = \<lparr>di_type = dec_short bs, di_major = dec_short (drop 2 bs), di_minor = dec_short (drop 4 bs),
     di_nlink = dec_short (drop 6 bs), di_size = get32 2 bs, di_addrs = map (\<lambda>i. get32 (3 + i) bs) [0..<NDIRECT + 1]\<rparr>"

definition get_dinode :: "nat \<Rightarrow> block \<Rightarrow> dinode" where
  "get_dinode inum d = dec_dinode (drop (64 * (inum mod IPB)) d)"

definition put_dinode :: "nat \<Rightarrow> dinode \<Rightarrow> block \<Rightarrow> block" where
  "put_dinode inum di d = put_bytes (64 * (inum mod IPB)) (enc_dinode di) d"

definition zero_dinode :: dinode where
  "zero_dinode = \<lparr>di_type = 0, di_major = 0, di_minor = 0, di_nlink = 0, di_size = 0, di_addrs = replicate (NDIRECT + 1) 0\<rparr>"

definition dec_superblock :: "block \<Rightarrow> superblock" where
  "dec_superblock d = \<lparr>s_magic = get32 0 d, s_size = get32 1 d, s_nblocks = get32 2 d, s_ninodes = get32 3 d,
     s_nlog = get32 4 d, s_logstart = get32 5 d, s_inodestart = get32 6 d, s_bmapstart = get32 7 d\<rparr>"

section \<open>State and sequencing\<close>

record inode =
  i_dev :: nat
  i_inum :: nat
  i_ref :: int
  i_lock :: sleeplock
  i_valid :: bool
  i_copy :: dinode

record fsys =
  f_log :: logst
  f_cache :: bcache
  f_sb :: superblock
  f_itable :: "inode list"
  f_pid :: int
  f_cwd :: nat

type_synonym 'a fsm = "fsys \<Rightarrow> ('a \<times> fsys) outcome"

definition ret :: "'a \<Rightarrow> 'a fsm" where
  "ret x s = Ret (x, s)"

definition andthen :: "'a fsm \<Rightarrow> ('a \<Rightarrow> 'b fsm) \<Rightarrow> 'b fsm" where
  "andthen m f s = bind_outcome (m s) (\<lambda>(x, s'). f x s')"

definition panic :: "string \<Rightarrow> 'a fsm" where
  "panic msg s = Panics msg"

definition gets :: "(fsys \<Rightarrow> 'a) \<Rightarrow> 'a fsm" where
  "gets f s = Ret (f s, s)"

definition modify :: "(fsys \<Rightarrow> fsys) \<Rightarrow> unit fsm" where
  "modify f s = Ret ((), f s)"

primrec each :: "('a \<Rightarrow> unit fsm) \<Rightarrow> 'a list \<Rightarrow> unit fsm" where
  "each f [] = ret ()"
| "each f (x # xs) = andthen (f x) (\<lambda>_. each f xs)"

text \<open>The calls of the layers below.\<close>

definition fs_bread :: "nat \<Rightarrow> nat \<Rightarrow> nat fsm" where
  "fs_bread dev n s =
     bind_outcome (bread (f_pid s) dev n (f_cache s)) (\<lambda>(b, c). Ret (b, s\<lparr>f_cache := c\<rparr>))"

definition fs_brelse :: "nat \<Rightarrow> unit fsm" where
  "fs_brelse b s = bind_outcome (brelse (f_pid s) b (f_cache s)) (\<lambda>c. Ret ((), s\<lparr>f_cache := c\<rparr>))"

definition fs_log_write :: "nat \<Rightarrow> unit fsm" where
  "fs_log_write b s =
     bind_outcome (log_write b (f_log s) (f_cache s)) (\<lambda>(lg, c). Ret ((), s\<lparr>f_log := lg, f_cache := c\<rparr>))"

definition buf_data :: "nat \<Rightarrow> block fsm" where
  "buf_data b = gets (\<lambda>s. b_data (bufs (f_cache s) b))"

definition buf_set :: "nat \<Rightarrow> block \<Rightarrow> unit fsm" where
  "buf_set b d = modify (f_cache_update (set_data b d))"

definition fs_begin_op :: "unit fsm" where
  "fs_begin_op s = (case begin_op (f_log s) of None \<Rightarrow> Sleeps | Some lg \<Rightarrow> Ret ((), s\<lparr>f_log := lg\<rparr>))"

definition fs_end_op :: "unit fsm" where
  "fs_end_op s = bind_outcome (end_op (f_pid s) (f_log s) (f_cache s)) (\<lambda>(lg, c). Ret ((), s\<lparr>f_log := lg, f_cache := c\<rparr>))"

definition buf_upd :: "nat \<Rightarrow> (block \<Rightarrow> block) \<Rightarrow> unit fsm" where
  "buf_upd b f = andthen (buf_data b) (\<lambda>d. buf_set b (f d))"

text \<open>The inode in a slot of the table.\<close>

definition slot_of :: "nat \<Rightarrow> fsys \<Rightarrow> inode" where
  "slot_of ip s = f_itable s ! ip"

definition set_slot :: "nat \<Rightarrow> (inode \<Rightarrow> inode) \<Rightarrow> unit fsm" where
  "set_slot ip f = modify (\<lambda>s. s\<lparr>f_itable := (f_itable s)[ip := f (f_itable s ! ip)]\<rparr>)"

section \<open>Blocks\<close>

definition readsb :: "nat \<Rightarrow> unit fsm" where
  "readsb dev =
     andthen (fs_bread dev 1) (\<lambda>bp. andthen (buf_data bp) (\<lambda>d.
     andthen (modify (f_sb_update (\<lambda>_. dec_superblock d))) (\<lambda>_. fs_brelse bp)))"

definition bzero :: "nat \<Rightarrow> nat \<Rightarrow> unit fsm" where
  "bzero dev bno =
     andthen (fs_bread dev bno) (\<lambda>bp. andthen (buf_set bp (replicate BSIZE 0)) (\<lambda>_.
     andthen (fs_log_write bp) (\<lambda>_. fs_brelse bp)))"

definition bit_clear :: "nat \<Rightarrow> block \<Rightarrow> bool" where
  "bit_clear bi d \<longleftrightarrow> d ! (bi div 8) AND push_bit (bi mod 8) 1 = 0"

definition mark_bit :: "nat \<Rightarrow> block \<Rightarrow> block" where
  "mark_bit bi d = d[bi div 8 := d ! (bi div 8) OR push_bit (bi mod 8) 1]"

definition unmark_bit :: "nat \<Rightarrow> block \<Rightarrow> block" where
  "unmark_bit bi d = d[bi div 8 := d ! (bi div 8) AND NOT (push_bit (bi mod 8) 1)]"

primrec balloc_from :: "nat \<Rightarrow> superblock \<Rightarrow> nat list \<Rightarrow> nat fsm" where
  "balloc_from dev sb [] = ret 0"
| "balloc_from dev sb (b # bs) =
     andthen (fs_bread dev (BBLOCK b sb)) (\<lambda>bp. andthen (buf_data bp) (\<lambda>d.
       case find (\<lambda>bi. bit_clear bi d) [0..<min BPB (s_size sb - b)] of
         Some bi \<Rightarrow>
           andthen (buf_set bp (mark_bit bi d)) (\<lambda>_. andthen (fs_log_write bp) (\<lambda>_.
           andthen (fs_brelse bp) (\<lambda>_. andthen (bzero dev (b + bi)) (\<lambda>_. ret (b + bi)))))
       | None \<Rightarrow> andthen (fs_brelse bp) (\<lambda>_. balloc_from dev sb bs)))"

definition balloc :: "nat \<Rightarrow> nat fsm" where
  "balloc dev =
     andthen (gets f_sb) (\<lambda>sb. balloc_from dev sb (map (\<lambda>k. k * BPB) [0..<(s_size sb + BPB - 1) div BPB]))"

definition bfree :: "nat \<Rightarrow> nat \<Rightarrow> unit fsm" where
  "bfree dev b =
     andthen (gets f_sb) (\<lambda>sb. andthen (fs_bread dev (BBLOCK b sb)) (\<lambda>bp. andthen (buf_data bp) (\<lambda>d.
       if bit_clear (b mod BPB) d then panic ''freeing free block''
       else andthen (buf_set bp (unmark_bit (b mod BPB) d)) (\<lambda>_. andthen (fs_log_write bp) (\<lambda>_. fs_brelse bp)))))"

section \<open>Inodes\<close>

definition iinit :: "unit fsm" where
  "iinit = modify (f_itable_update (map (i_lock_update (\<lambda>_. initsleeplock))))"

definition set_copy :: "nat \<Rightarrow> (dinode \<Rightarrow> dinode) \<Rightarrow> unit fsm" where
  "set_copy ip f = set_slot ip (i_copy_update f)"

definition set_addr :: "nat \<Rightarrow> nat \<Rightarrow> nat \<Rightarrow> unit fsm" where
  "set_addr ip i a = set_copy ip (\<lambda>di. di\<lparr>di_addrs := (di_addrs di)[i := a]\<rparr>)"

definition iget :: "nat \<Rightarrow> nat \<Rightarrow> nat fsm" where
  "iget dev inum s =
     (case first_index (\<lambda>ip. i_ref ip > 0 \<and> i_dev ip = dev \<and> i_inum ip = inum) (f_itable s) of
        Some i \<Rightarrow> andthen (set_slot i (\<lambda>ip. ip\<lparr>i_ref := i_ref ip + 1\<rparr>)) (\<lambda>_. ret i) s
      | None \<Rightarrow>
         (case first_index (\<lambda>ip. i_ref ip = 0) (f_itable s) of
            None \<Rightarrow> panic ''iget: no inodes'' s
          | Some i \<Rightarrow>
              andthen (set_slot i (\<lambda>ip. ip\<lparr>i_dev := dev, i_inum := inum, i_ref := 1, i_valid := False\<rparr>)) (\<lambda>_. ret i) s))"

definition idup :: "nat \<Rightarrow> nat fsm" where
  "idup ip = andthen (set_slot ip (\<lambda>x. x\<lparr>i_ref := i_ref x + 1\<rparr>)) (\<lambda>_. ret ip)"

primrec ialloc_from :: "nat \<Rightarrow> int \<Rightarrow> superblock \<Rightarrow> nat list \<Rightarrow> nat option fsm" where
  "ialloc_from dev type sb [] = ret None"
| "ialloc_from dev type sb (inum # is) =
     andthen (fs_bread dev (IBLOCK inum sb)) (\<lambda>bp. andthen (buf_data bp) (\<lambda>d.
       if di_type (get_dinode inum d) = 0 then
         andthen (buf_set bp (put_dinode inum (zero_dinode\<lparr>di_type := type\<rparr>) d)) (\<lambda>_. andthen (fs_log_write bp) (\<lambda>_.
         andthen (fs_brelse bp) (\<lambda>_. andthen (iget dev inum) (\<lambda>ip. ret (Some ip)))))
       else andthen (fs_brelse bp) (\<lambda>_. ialloc_from dev type sb is)))"

definition ialloc :: "nat \<Rightarrow> int \<Rightarrow> nat option fsm" where
  "ialloc dev type = andthen (gets f_sb) (\<lambda>sb. ialloc_from dev type sb [1..<s_ninodes sb])"

definition iupdate :: "nat \<Rightarrow> unit fsm" where
  "iupdate i =
     andthen (gets f_sb) (\<lambda>sb. andthen (gets (slot_of i)) (\<lambda>ip.
     andthen (fs_bread (i_dev ip) (IBLOCK (i_inum ip) sb)) (\<lambda>bp. andthen (buf_data bp) (\<lambda>d.
     andthen (buf_set bp (put_dinode (i_inum ip) (i_copy ip) d)) (\<lambda>_.
     andthen (fs_log_write bp) (\<lambda>_. fs_brelse bp))))))"

definition ilock :: "nat option \<Rightarrow> unit fsm" where
  "ilock p =
     (case p of
        None \<Rightarrow> panic ''ilock''
      | Some i \<Rightarrow> andthen (gets (slot_of i)) (\<lambda>ip.
          if i_ref ip < 1 then panic ''ilock''
          else (\<lambda>s. case acquiresleep (f_pid s) (i_lock ip) of
                 None \<Rightarrow> Sleeps
               | Some lk \<Rightarrow>
                   andthen (set_slot i (i_lock_update (\<lambda>_. lk))) (\<lambda>_.
                     if i_valid ip then ret ()
                     else andthen (gets f_sb) (\<lambda>sb. andthen (fs_bread (i_dev ip) (IBLOCK (i_inum ip) sb)) (\<lambda>bp.
                          andthen (buf_data bp) (\<lambda>d.
                          andthen (set_copy i (\<lambda>_. get_dinode (i_inum ip) d)) (\<lambda>_. andthen (fs_brelse bp) (\<lambda>_.
                          andthen (set_slot i (i_valid_update (\<lambda>_. True))) (\<lambda>_.
                          if di_type (get_dinode (i_inum ip) d) = 0 then panic ''ilock: no type'' else ret ()))))))) s)))"

definition iunlock :: "nat option \<Rightarrow> unit fsm" where
  "iunlock p =
     (case p of
        None \<Rightarrow> panic ''iunlock''
      | Some i \<Rightarrow> (\<lambda>s. if \<not> holdingsleep (f_pid s) (i_lock (slot_of i s)) \<or> i_ref (slot_of i s) < 1
                     then panic ''iunlock'' s
                     else set_slot i (i_lock_update releasesleep) s))"

section \<open>Contents of an inode\<close>

definition bmap :: "nat \<Rightarrow> nat \<Rightarrow> nat fsm" where
  "bmap i bn =
     andthen (gets (slot_of i)) (\<lambda>ip.
       if bn < NDIRECT then
         (if di_addrs (i_copy ip) ! bn = 0 then
            andthen (balloc (i_dev ip)) (\<lambda>addr.
              if addr = 0 then ret 0 else andthen (set_addr i bn addr) (\<lambda>_. ret addr))
          else ret (di_addrs (i_copy ip) ! bn))
       else if bn - NDIRECT < NINDIRECT then
         andthen (if di_addrs (i_copy ip) ! NDIRECT = 0 then
                    andthen (balloc (i_dev ip)) (\<lambda>addr.
                      if addr = 0 then ret 0 else andthen (set_addr i NDIRECT addr) (\<lambda>_. ret addr))
                  else ret (di_addrs (i_copy ip) ! NDIRECT)) (\<lambda>ind.
         if ind = 0 then ret 0
         else andthen (fs_bread (i_dev ip) ind) (\<lambda>bp. andthen (buf_data bp) (\<lambda>a.
           andthen (if get32 (bn - NDIRECT) a = 0 then
                      andthen (balloc (i_dev ip)) (\<lambda>addr.
                        if addr = 0 then ret 0
                        else andthen (buf_upd bp (put_bytes (4 * (bn - NDIRECT)) (enc_le 4 (int addr)))) (\<lambda>_.
                             andthen (fs_log_write bp) (\<lambda>_. ret addr)))
                    else ret (get32 (bn - NDIRECT) a)) (\<lambda>addr.
           andthen (fs_brelse bp) (\<lambda>_. ret addr)))))
       else panic ''bmap: out of range'')"

definition itrunc :: "nat \<Rightarrow> unit fsm" where
  "itrunc i =
     andthen (each (\<lambda>k. andthen (gets (slot_of i)) (\<lambda>ip.
       if di_addrs (i_copy ip) ! k \<noteq> 0
       then andthen (bfree (i_dev ip) (di_addrs (i_copy ip) ! k)) (\<lambda>_. set_addr i k 0)
       else ret ())) [0..<NDIRECT]) (\<lambda>_.
     andthen (andthen (gets (slot_of i)) (\<lambda>ip.
       if di_addrs (i_copy ip) ! NDIRECT \<noteq> 0 then
         andthen (fs_bread (i_dev ip) (di_addrs (i_copy ip) ! NDIRECT)) (\<lambda>bp.
         andthen (each (\<lambda>j. andthen (buf_data bp) (\<lambda>a.
           if get32 j a \<noteq> 0 then bfree (i_dev ip) (get32 j a) else ret ())) [0..<NINDIRECT]) (\<lambda>_.
         andthen (fs_brelse bp) (\<lambda>_.
         andthen (bfree (i_dev ip) (di_addrs (i_copy ip) ! NDIRECT)) (\<lambda>_. set_addr i NDIRECT 0))))
       else ret ())) (\<lambda>_.
     andthen (set_copy i (di_size_update (\<lambda>_. 0))) (\<lambda>_. iupdate i)))"

definition iput :: "nat \<Rightarrow> unit fsm" where
  "iput i =
     andthen (gets (slot_of i)) (\<lambda>ip.
     andthen
       (if i_ref ip = 1 \<and> i_valid ip \<and> di_nlink (i_copy ip) = 0 then
          (\<lambda>s. case acquiresleep (f_pid s) (i_lock ip) of
             None \<Rightarrow> Sleeps
           | Some lk \<Rightarrow>
               andthen (set_slot i (i_lock_update (\<lambda>_. lk))) (\<lambda>_. andthen (itrunc i) (\<lambda>_.
               andthen (set_copy i (di_type_update (\<lambda>_. 0))) (\<lambda>_. andthen (iupdate i) (\<lambda>_.
               andthen (set_slot i (i_valid_update (\<lambda>_. False))) (\<lambda>_.
               set_slot i (i_lock_update releasesleep)))))) s)
        else ret ()) (\<lambda>_.
     set_slot i (\<lambda>x. x\<lparr>i_ref := i_ref x - 1\<rparr>)))"

definition iunlockput :: "nat \<Rightarrow> unit fsm" where
  "iunlockput i = andthen (iunlock (Some i)) (\<lambda>_. iput i)"

definition ireclaim :: "nat \<Rightarrow> unit fsm" where
  "ireclaim dev =
     andthen (gets f_sb) (\<lambda>sb. each (\<lambda>inum.
       andthen (fs_bread dev (IBLOCK inum sb)) (\<lambda>bp. andthen (buf_data bp) (\<lambda>d.
       andthen (if di_type (get_dinode inum d) \<noteq> 0 \<and> di_nlink (get_dinode inum d) = 0
                then andthen (iget dev inum) (\<lambda>ip. ret (Some ip)) else ret None) (\<lambda>r.
       andthen (fs_brelse bp) (\<lambda>_.
         case r of None \<Rightarrow> ret ()
         | Some ip \<Rightarrow>
             andthen fs_begin_op (\<lambda>_. andthen (ilock (Some ip)) (\<lambda>_. andthen (iunlock (Some ip)) (\<lambda>_.
             andthen (iput ip) (\<lambda>_. fs_end_op)))))))))
       [1..<s_ninodes sb])"

definition fsinit :: "nat \<Rightarrow> unit fsm" where
  "fsinit dev =
     andthen (readsb dev) (\<lambda>_. andthen (gets f_sb) (\<lambda>sb.
       if s_magic sb \<noteq> FSMAGIC then panic ''invalid file system''
       else andthen (\<lambda>s. bind_outcome (initlog (f_pid s) dev (s_logstart sb) (f_log s) (f_cache s))
                          (\<lambda>(lg, c). Ret ((), s\<lparr>f_log := lg, f_cache := c\<rparr>))) (\<lambda>_. ireclaim dev)))"

section \<open>Reading and writing\<close>

record stat =
  st_dev :: nat
  st_ino :: nat
  st_type :: int
  st_nlink :: int
  st_size :: nat

definition stati :: "nat \<Rightarrow> stat fsm" where
  "stati i = gets (\<lambda>s. let ip = slot_of i s in
     \<lparr>st_dev = i_dev ip, st_ino = i_inum ip, st_type = di_type (i_copy ip), st_nlink = di_nlink (i_copy ip),
       st_size = di_size (i_copy ip)\<rparr>)"

abbreviation (input) UINT :: nat where "UINT \<equiv> 2 ^ 32"

function readi_from :: "nat \<Rightarrow> (nat \<Rightarrow> byte list \<Rightarrow> bool) \<Rightarrow> nat \<Rightarrow> nat \<Rightarrow> nat \<Rightarrow> (int \<times> byte list) fsm" where
  "readi_from i copyout off tot n =
     (if tot < n then
        (let m = min (n - tot) (BSIZE - off mod BSIZE) in
         andthen (bmap i (off div BSIZE)) (\<lambda>addr.
           if addr = 0 then ret (int tot, [])
           else andthen (gets (slot_of i)) (\<lambda>ip. andthen (fs_bread (i_dev ip) addr) (\<lambda>bp. andthen (buf_data bp) (\<lambda>d.
             let bs = take m (drop (off mod BSIZE) d) in
             if \<not> copyout tot bs then andthen (fs_brelse bp) (\<lambda>_. ret (-1, []))
             else andthen (fs_brelse bp) (\<lambda>_. andthen (readi_from i copyout (off + m) (tot + m) n)
                    (\<lambda>(r, more). ret (r, bs @ more))))))))
      else ret (int tot, []))"
  by pat_completeness auto

termination by (relation "measure (\<lambda>(_, _, off, tot, n). n - tot)") auto

declare readi_from.simps [simp del]

definition readi :: "nat \<Rightarrow> (nat \<Rightarrow> byte list \<Rightarrow> bool) \<Rightarrow> nat \<Rightarrow> nat \<Rightarrow> (int \<times> byte list) fsm" where
  "readi i copyout off n =
     andthen (gets (slot_of i)) (\<lambda>ip.
       let sz = di_size (i_copy ip) in
       if off > sz \<or> (off + n) mod UINT < off then ret (0, [])
       else readi_from i copyout off 0 (if (off + n) mod UINT > sz then sz - off else n))"

text \<open>
  A copy that fails has already put some bytes into the buffer; the loop then gives it back without
  \<open>log_write\<close>. The loop returns how far it came and the offset it reached.
\<close>

function writei_from :: "nat \<Rightarrow> (nat \<Rightarrow> nat \<Rightarrow> byte list \<times> bool) \<Rightarrow> nat \<Rightarrow> nat \<Rightarrow> nat \<Rightarrow> (nat \<times> nat) fsm" where
  "writei_from i copyin off tot n =
     (if tot < n then
        (let m = min (n - tot) (BSIZE - off mod BSIZE) in
         andthen (bmap i (off div BSIZE)) (\<lambda>addr.
           if addr = 0 then ret (tot, off)
           else andthen (gets (slot_of i)) (\<lambda>ip. andthen (fs_bread (i_dev ip) addr) (\<lambda>bp.
             let (bs, ok) = copyin tot m in
             andthen (buf_upd bp (put_bytes (off mod BSIZE) bs)) (\<lambda>_.
               if \<not> ok then andthen (fs_brelse bp) (\<lambda>_. ret (tot, off))
               else andthen (fs_log_write bp) (\<lambda>_. andthen (fs_brelse bp) (\<lambda>_.
                    writei_from i copyin (off + m) (tot + m) n)))))))
      else ret (tot, off))"
  by pat_completeness auto

termination by (relation "measure (\<lambda>(_, _, off, tot, n). n - tot)") auto

declare writei_from.simps [simp del]

definition writei :: "nat \<Rightarrow> (nat \<Rightarrow> nat \<Rightarrow> byte list \<times> bool) \<Rightarrow> nat \<Rightarrow> nat \<Rightarrow> int fsm" where
  "writei i copyin off n =
     andthen (gets (slot_of i)) (\<lambda>ip.
       if off > di_size (i_copy ip) \<or> (off + n) mod UINT < off then ret (-1)
       else if (off + n) mod UINT > MAXFILE * BSIZE then ret (-1)
       else andthen (writei_from i copyin off 0 n) (\<lambda>(tot, off').
         andthen (set_copy i (\<lambda>di. if off' > di_size di then di\<lparr>di_size := off'\<rparr> else di)) (\<lambda>_.
         andthen (iupdate i) (\<lambda>_. ret (int tot)))))"

section \<open>Directories\<close>

text \<open>Names are compared as C strings of at most \<open>DIRSIZ\<close> bytes.\<close>

definition cut_name :: "byte list \<Rightarrow> byte list" where
  "cut_name bs = takeWhile (\<lambda>b. b \<noteq> 0) (take DIRSIZ bs)"

definition namecmp :: "byte list \<Rightarrow> byte list \<Rightarrow> bool" where
  "namecmp s t \<longleftrightarrow> cut_name s = cut_name t"

definition de_inum :: "byte list \<Rightarrow> nat" where
  "de_inum de = nat (dec_le (take 2 de))"

definition de_name :: "byte list \<Rightarrow> byte list" where
  "de_name de = take DIRSIZ (drop 2 de)"

text \<open>\<open>strncpy\<close> into the name field fills it up with zeros.\<close>

definition enc_dirent :: "nat \<Rightarrow> byte list \<Rightarrow> byte list" where
  "enc_dirent inum nm = enc_le 2 (int inum) @ cut_name nm @ replicate (DIRSIZ - length (cut_name nm)) 0"

definition read_dirent :: "nat \<Rightarrow> nat \<Rightarrow> string \<Rightarrow> byte list fsm" where
  "read_dirent dp off msg =
     andthen (readi dp (\<lambda>_ _. True) off DIRENT) (\<lambda>(r, de). if r \<noteq> int DIRENT then panic msg else ret de)"

primrec dirlookup_from :: "nat \<Rightarrow> byte list \<Rightarrow> nat list \<Rightarrow> (nat \<times> nat) option fsm" where
  "dirlookup_from dp nm [] = ret None"
| "dirlookup_from dp nm (off # offs) =
     andthen (read_dirent dp off ''dirlookup read'') (\<lambda>de.
       if de_inum de = 0 then dirlookup_from dp nm offs
       else if namecmp nm (de_name de)
       then andthen (gets (slot_of dp)) (\<lambda>x. andthen (iget (i_dev x) (de_inum de)) (\<lambda>ip. ret (Some (ip, off))))
       else dirlookup_from dp nm offs)"

definition dirent_offsets :: "nat \<Rightarrow> nat list" where
  "dirent_offsets sz = map (\<lambda>k. k * DIRENT) [0..<(sz + DIRENT - 1) div DIRENT]"

definition dirlookup :: "nat \<Rightarrow> byte list \<Rightarrow> (nat \<times> nat) option fsm" where
  "dirlookup dp nm =
     andthen (gets (slot_of dp)) (\<lambda>x.
       if di_type (i_copy x) \<noteq> T_DIR then panic ''dirlookup not DIR''
       else dirlookup_from dp nm (dirent_offsets (di_size (i_copy x))))"

text \<open>The first entry that is empty, or the end of the directory rounded up to whole entries.\<close>

primrec empty_dirent :: "nat \<Rightarrow> nat \<Rightarrow> nat list \<Rightarrow> nat fsm" where
  "empty_dirent dp end [] = ret end"
| "empty_dirent dp end (off # offs) =
     andthen (read_dirent dp off ''dirlink read'') (\<lambda>de.
       if de_inum de = 0 then ret off else empty_dirent dp end offs)"

definition dirlink :: "nat \<Rightarrow> byte list \<Rightarrow> nat \<Rightarrow> int fsm" where
  "dirlink dp nm inum =
     andthen (dirlookup dp nm) (\<lambda>found.
       case found of
         Some (ip, _) \<Rightarrow> andthen (iput ip) (\<lambda>_. ret (-1))
       | None \<Rightarrow>
           andthen (gets (slot_of dp)) (\<lambda>x. let offs = dirent_offsets (di_size (i_copy x)) in
           andthen (empty_dirent dp (length offs * DIRENT) offs) (\<lambda>off.
           andthen (writei dp (\<lambda>tot m. (take m (drop tot (enc_dirent inum nm)), True)) off DIRENT) (\<lambda>r.
             ret (if r \<noteq> int DIRENT then -1 else 0)))))"

section \<open>Path names\<close>

abbreviation (input) SLASH :: byte where "SLASH \<equiv> 47"

text \<open>The path is the string up to its terminating zero; the result is the element and the rest.\<close>

definition skipelem :: "byte list \<Rightarrow> (byte list \<times> byte list) option" where
  "skipelem pth =
     (let p = dropWhile (\<lambda>c. c = SLASH) pth in
      if p = [] then None
      else let s = takeWhile (\<lambda>c. c \<noteq> SLASH) p; rest = dropWhile (\<lambda>c. c \<noteq> SLASH) p
           in Some (take DIRSIZ s, dropWhile (\<lambda>c. c = SLASH) rest))"

lemma skipelem_less: "skipelem pth = Some (nm, rest) \<Longrightarrow> length rest < length pth"
proof -
  assume some: "skipelem pth = Some (nm, rest)"
  then obtain c cs where p: "dropWhile (\<lambda>c. c = SLASH) pth = c # cs"
    by (cases "dropWhile (\<lambda>c. c = SLASH) pth") (auto simp: skipelem_def)
  have "c \<noteq> SLASH" using hd_dropWhile [of "\<lambda>c. c = SLASH" pth] p by simp
  then have "rest = dropWhile (\<lambda>c. c = SLASH) (dropWhile (\<lambda>c. c \<noteq> SLASH) cs)"
    using some by (simp add: skipelem_def p Let_def)
  then have "length rest \<le> length cs"
    using length_dropWhile_le [of "\<lambda>c. c = SLASH" "dropWhile (\<lambda>c. c \<noteq> SLASH) cs"]
      length_dropWhile_le [of "\<lambda>c. c \<noteq> SLASH" cs] by simp
  also have "\<dots> < length (dropWhile (\<lambda>c. c = SLASH) pth)" unfolding p by simp
  also have "\<dots> \<le> length pth" by (rule length_dropWhile_le)
  finally show ?thesis .
qed

text \<open>The loop of \<open>namex\<close>; with \<open>parent\<close> it also gives the last element of the path.\<close>

function namex_from :: "bool \<Rightarrow> nat \<Rightarrow> byte list \<Rightarrow> byte list \<Rightarrow> (nat \<times> byte list) option fsm" where
  "namex_from parent ip nm pth =
     (case skipelem pth of
        None \<Rightarrow> if parent then andthen (iput ip) (\<lambda>_. ret None) else ret (Some (ip, nm))
      | Some (elem, rest) \<Rightarrow>
          andthen (ilock (Some ip)) (\<lambda>_. andthen (gets (slot_of ip)) (\<lambda>x.
            if di_type (i_copy x) \<noteq> T_DIR then andthen (iunlockput ip) (\<lambda>_. ret None)
            else if parent \<and> rest = [] then andthen (iunlock (Some ip)) (\<lambda>_. ret (Some (ip, elem)))
            else andthen (dirlookup ip elem) (\<lambda>found.
              case found of
                None \<Rightarrow> andthen (iunlockput ip) (\<lambda>_. ret None)
              | Some (inext, _) \<Rightarrow> andthen (iunlockput ip) (\<lambda>_. namex_from parent inext elem rest)))))"
  by pat_completeness auto

termination by (relation "measure (\<lambda>(_, _, _, pth). length pth)") (auto dest: skipelem_less)

declare namex_from.simps [simp del]

definition namex :: "byte list \<Rightarrow> bool \<Rightarrow> (nat \<times> byte list) option fsm" where
  "namex pth parent =
     (if pth \<noteq> [] \<and> hd pth = SLASH
      then andthen (iget ROOTDEV ROOTINO) (\<lambda>ip. namex_from parent ip [] pth)
      else andthen (gets f_cwd) (\<lambda>cwd. andthen (idup cwd) (\<lambda>ip. namex_from parent ip [] pth)))"

definition namei :: "byte list \<Rightarrow> nat option fsm" where
  "namei pth = andthen (namex pth False) (\<lambda>r. ret (map_option fst r))"

definition nameiparent :: "byte list \<Rightarrow> (nat \<times> byte list) option fsm" where
  "nameiparent pth = namex pth True"

end
