(* ===== verification/Fs_Blocks.thy ===== *)
theory Fs_Blocks
  imports Fs Interfaces
begin

unbundle bit_operations_syntax

text \<open>
  Inside a transaction the file system works on an abstract disk, a function from block numbers to
  contents: reading and changing a block through the cache and the log is reading and changing this
  function, and the real disk is not touched. On the abstract disk \<open>balloc\<close> and \<open>bfree\<close> are an allocator.
\<close>

section \<open>Total correctness of sequences\<close>

definition runs :: "'a fsm \<Rightarrow> fsys \<Rightarrow> ('a \<Rightarrow> fsys \<Rightarrow> bool) \<Rightarrow> bool" where
  "runs m s Q \<longleftrightarrow> (\<exists>x s'. m s = Ret (x, s') \<and> Q x s')"

lemma runs_andthen: "runs m s (\<lambda>x s'. runs (f x) s' Q) \<Longrightarrow> runs (andthen m f) s Q"
  by (auto simp: runs_def andthen_def)

lemma runs_ret [simp]: "runs (ret x) s Q \<longleftrightarrow> Q x s"
  by (simp add: runs_def ret_def)

lemma runs_gets [simp]: "runs (gets f) s Q \<longleftrightarrow> Q (f s) s"
  by (simp add: runs_def gets_def)

lemma runs_modify [simp]: "runs (modify f) s Q \<longleftrightarrow> Q () (f s)"
  by (simp add: runs_def modify_def)

lemma runs_mono: "runs m s P \<Longrightarrow> (\<And>x s'. P x s' \<Longrightarrow> Q x s') \<Longrightarrow> runs m s Q"
  by (auto simp: runs_def)

lemma runs_then: "runs m s P \<Longrightarrow> (\<And>x s'. P x s' \<Longrightarrow> runs (f x) s' Q) \<Longrightarrow> runs (andthen m f) s Q"
  by (rule runs_andthen) (rule runs_mono)

lemma runs_gets_then [simp]: "runs (andthen (gets g) h) s Q \<longleftrightarrow> runs (h (g s)) s Q"
  by (simp add: runs_def andthen_def gets_def)

lemma andthen_ret [simp]: "andthen (ret x) f = f x"
  by (simp add: andthen_def ret_def fun_eq_iff)

lemma andthen_assoc [simp]: "andthen (andthen m f) k = andthen m (\<lambda>x. andthen (f x) k)"
proof
  fix s
  show "andthen (andthen m f) k s = andthen m (\<lambda>x. andthen (f x) k) s"
    by (cases "m s") (auto simp: andthen_def split: prod.splits)
qed

section \<open>The abstract disk of a transaction\<close>

record env =
  e_disk :: "nat \<Rightarrow> block"
  e_sb :: superblock
  e_pid :: int
  e_cwd :: nat

text \<open>
  In the state \<open>s\<close> the cache shows the abstract disk \<open>v\<close>; the process has exactly the blocks of \<open>H\<close> locked,
  each in its buffer; the log holds the blocks that differ from the disk, and room for \<open>q\<close> more (the cache
  for four more buffers besides).
\<close>

definition tx :: "env \<Rightarrow> inode list \<Rightarrow> (nat \<Rightarrow> block) \<Rightarrow> (nat \<Rightarrow> nat option) \<Rightarrow> nat \<Rightarrow> fsys \<Rightarrow> bool" where
  "tx e T v H q s \<longleftrightarrow> cache_inv (f_cache s) \<and> view (f_cache s) = v \<and> disk (f_cache s) = e_disk e
     \<and> locked (f_cache s) = (\<lambda>n. n \<in> dom H) \<and> (\<forall>n b. H n = Some b \<longrightarrow> holds (e_pid e) (f_cache s) n b)
     \<and> refs (f_cache s) = (\<lambda>n. (if n \<in> set (lh (f_log s)) then 1 else 0) + (if n \<in> dom H then 1 else 0))
     \<and> distinct (lh (f_log s)) \<and> (\<forall>n. n \<notin> set (lh (f_log s)) \<longrightarrow> v n = e_disk e n)
     \<and> 1 \<le> lg_outstanding (f_log s) \<and> length (lh (f_log s)) + q + 4 \<le> NBUF
     \<and> finite (dom H) \<and> f_sb s = e_sb e \<and> f_pid s = e_pid e \<and> f_cwd s = e_cwd e \<and> f_itable s = T"

lemma tx_fields: "tx e T v H q s \<Longrightarrow> f_sb s = e_sb e \<and> f_pid s = e_pid e \<and> f_cwd s = e_cwd e \<and> f_itable s = T"
  by (simp add: tx_def)

lemma tx_less: "tx e T v H q s \<Longrightarrow> q' \<le> q \<Longrightarrow> tx e T v H q' s"
  by (simp add: tx_def)

lemma tx_bread:
  assumes t: "tx e T v H q s" and n: "n \<notin> dom H" "card (dom H) < 4"
  shows "runs (fs_bread ROOTDEV n) s (\<lambda>b s'. tx e T v (H(n \<mapsto> b)) q s')"
proof -
  let ?c = "f_cache s" and ?L = "set (lh (f_log s))"
  have c: "cache_inv ?c" "\<not> locked ?c n" and pid: "f_pid s = e_pid e"
    and refs: "refs ?c = (\<lambda>n. (if n \<in> ?L then 1 else 0) + (if n \<in> dom H then 1 else 0))"
    and len: "distinct (lh (f_log s))" "length (lh (f_log s)) + 4 \<le> NBUF"
    using t n by (simp_all add: tx_def)
  have "{m. refs ?c m \<noteq> 0} = ?L \<union> dom H" unfolding refs by auto
  then have "card {m. refs ?c m \<noteq> 0} < NBUF"
    using card_Un_le [of ?L "dom H"] distinct_card [OF len(1)] len(2) n(2) by simp
  then have "room ?c n" by (simp add: room_def)
  then obtain b c' where 1: "bread (e_pid e) ROOTDEV n ?c = Ret (b, c')" "cache_inv c'" "holds (e_pid e) c' n b"
    "view c' = view ?c" "refs c' = (refs ?c)(n := refs ?c n + 1)" "disk c' = disk ?c"
    "locked c' = (locked ?c)(n := True)"
    "\<And>m b. holds (e_pid e) ?c m b \<Longrightarrow> m \<noteq> n \<Longrightarrow> holds (e_pid e) c' m b"
    by (rule bread_spec [OF c, of "e_pid e"]) (rule that; (assumption | blast))
  have "tx e T v (H(n \<mapsto> b)) q (s\<lparr>f_cache := c'\<rparr>)"
    using t n(1) 1(2-7) 1(8) [where m = m and b = b for m b] unfolding tx_def by (auto simp: fun_eq_iff)
  then show ?thesis using 1(1) pid by (simp add: runs_def fs_bread_def)
qed

lemma tx_data: "tx e T v H q s \<Longrightarrow> H n = Some b \<Longrightarrow> b_data (bufs (f_cache s) b) = v n"
  using held_buf(6) [of "f_cache s" "e_pid e" n b] by (simp add: tx_def)

lemma tx_brelse:
  assumes t: "tx e T v H q s" and h: "H n = Some b"
  shows "runs (fs_brelse b) s (\<lambda>_ s'. tx e T v (H(n := None)) q s')"
proof -
  let ?c = "f_cache s"
  have c: "cache_inv ?c" "holds (e_pid e) ?c n b" and pid: "f_pid s = e_pid e" using t h by (simp_all add: tx_def)
  have clean: "view ?c n = disk ?c n" if "refs ?c n = 1"
    using that t h by (auto simp: tx_def split: if_splits)
  obtain c' where 1: "brelse (e_pid e) b ?c = Ret c'" "cache_inv c'" "view c' = view ?c"
    "refs c' = (refs ?c)(n := refs ?c n - 1)" "locked c' = (locked ?c)(n := False)" "disk c' = disk ?c"
    "\<And>m b. holds (e_pid e) ?c m b \<Longrightarrow> m \<noteq> n \<Longrightarrow> holds (e_pid e) c' m b"
    by (rule brelse_spec [OF c clean]) (assumption | (rule that; (assumption | blast)))+
  have "tx e T v (H(n := None)) q (s\<lparr>f_cache := c'\<rparr>)"
    using t h 1(2-6) 1(7) [where m = m and b = b for m b] unfolding tx_def by (auto simp: fun_eq_iff)
  then show ?thesis using 1(1) pid by (simp add: runs_def fs_brelse_def)
qed

text \<open>Changing a block: fill the buffer one holds, and log it.\<close>

definition put_block :: "nat \<Rightarrow> block \<Rightarrow> unit fsm" where
  "put_block b d = andthen (buf_set b d) (\<lambda>_. fs_log_write b)"

lemma tx_put:
  assumes t: "tx e T v H (Suc q) s" and h: "H n = Some b"
  shows "runs (put_block b d) s (\<lambda>_ s'. tx e T (v(n := d)) H q s')"
proof -
  let ?c = "f_cache s" and ?lg = "f_log s"
  let ?c1 = "set_data b d ?c"
  have c: "cache_inv ?c" "holds (e_pid e) ?c n b" using t h by (simp_all add: tx_def)
  note sd = set_data_spec [OF c, where d = d]
  have h1: "holds (e_pid e) ?c1 n b" using sd(5) c(2) .
  note bp = bpin_spec [OF sd(1) h1]
  have no: "b_blockno (bufs ?c1 b) = n" using held_buf(1) [OF sd(1) h1] .
  have len: "length (lh ?lg) < LOGBLOCKS" "1 \<le> lg_outstanding ?lg" using t by (simp_all add: tx_def)
  have p: "put_block b d s = fs_log_write b (s\<lparr>f_cache := ?c1\<rparr>)"
    by (cases s) (simp add: put_block_def andthen_def buf_set_def modify_def)
  show ?thesis
  proof (cases "n \<in> set (lh ?lg)")
    case True
    then have "put_block b d s = Ret ((), s\<lparr>f_cache := ?c1\<rparr>)"
      unfolding p fs_log_write_def using len by (simp add: log_write_def no)
    moreover have "tx e T (v(n := d)) H q (s\<lparr>f_cache := ?c1\<rparr>)"
      using t True sd(1-4,6) sd(5) [where m = m and c = c for m c] unfolding tx_def by (auto simp: fun_eq_iff)
    ultimately show ?thesis by (simp add: runs_def)
  next
    case False
    let ?s = "s\<lparr>f_log := ?lg\<lparr>lh := lh ?lg @ [n]\<rparr>, f_cache := bpin b ?c1\<rparr>"
    have "put_block b d s = Ret ((), ?s)"
      unfolding p fs_log_write_def using len False by (simp add: log_write_def no)
    moreover have "tx e T (v(n := d)) H q ?s"
      using t h False bp(1-4,6) sd(2,3,4,6) bp(5) [OF sd(5)] unfolding tx_def by (auto simp: fun_eq_iff)
    ultimately show ?thesis by (simp add: runs_def)
  qed
qed

lemma buf_set_log: "andthen (buf_set b d) (\<lambda>_. andthen (fs_log_write b) f) = andthen (put_block b d) f"
  by (simp add: put_block_def)

section \<open>The bitmap\<close>

lemma bit_clear_bit: "bit_clear bi d \<longleftrightarrow> \<not> bit (d ! (bi div 8)) (bi mod 8)"
  by (simp add: bit_clear_def bit_iff_and_push_bit_not_eq_0)

lemma bit_power_byte: "bit (2 ^ (i mod 8) :: byte) j \<longleftrightarrow> j = i mod 8"
  by (auto simp: bit_exp_iff)

lemma same_bit: "(i :: nat) div 8 = j div 8 \<Longrightarrow> j mod 8 = i mod 8 \<Longrightarrow> j = i"
  by (metis div_mult_mod_eq)

lemma bit_clear_mark:
  "bi div 8 < length d \<Longrightarrow> bit_clear bj (mark_bit bi d) \<longleftrightarrow> bit_clear bj d \<and> bj \<noteq> bi"
  by (auto simp: bit_clear_bit mark_bit_def nth_list_update bit_or_iff bit_power_byte dest: same_bit)

lemma bit_clear_unmark:
  "bi div 8 < length d \<Longrightarrow> bit_clear bj (unmark_bit bi d) \<longleftrightarrow> bit_clear bj d \<or> bj = bi"
  by (auto simp: bit_clear_bit unmark_bit_def nth_list_update bit_and_iff bit_not_iff bit_power_byte dest: same_bit)

lemma length_mark [simp]: "length (mark_bit bi d) = length d" "length (unmark_bit bi d) = length d"
  by (simp_all add: mark_bit_def unmark_bit_def)

definition block_free :: "superblock \<Rightarrow> (nat \<Rightarrow> block) \<Rightarrow> nat \<Rightarrow> bool" where
  "block_free sb v b \<longleftrightarrow> bit_clear (b mod BPB) (v (BBLOCK b sb))"

text \<open>The allocator of the abstract disk: the lowest block whose bit is clear, marked and filled with zeros.\<close>

definition abs_balloc :: "superblock \<Rightarrow> (nat \<Rightarrow> block) \<Rightarrow> (nat \<times> (nat \<Rightarrow> block)) option" where
  "abs_balloc sb v =
     (case find (block_free sb v) [0..<s_size sb] of
        None \<Rightarrow> None
      | Some b \<Rightarrow> Some (b, (v(BBLOCK b sb := mark_bit (b mod BPB) (v (BBLOCK b sb))))(b := replicate BSIZE 0)))"

definition abs_bfree :: "superblock \<Rightarrow> nat \<Rightarrow> (nat \<Rightarrow> block) \<Rightarrow> (nat \<Rightarrow> block)" where
  "abs_bfree sb b v = v(BBLOCK b sb := unmark_bit (b mod BPB) (v (BBLOCK b sb)))"

lemma find_append: "find P (xs @ ys) = (case find P xs of None \<Rightarrow> find P ys | Some x \<Rightarrow> Some x)"
  by (induction xs) auto

lemma find_map: "find P (map f xs) = map_option f (find (\<lambda>x. P (f x)) xs)"
  by (induction xs) auto

lemma find_cong: "(\<And>x. x \<in> set xs \<Longrightarrow> P x = Q x) \<Longrightarrow> find P xs = find Q xs"
  by (induction xs) auto

lemma block_free_in: "i < BPB \<Longrightarrow> block_free sb v (k * BPB + i) = bit_clear i (v (BBLOCK (k * BPB) sb))"
  by (simp add: block_free_def BBLOCK_def)

lemma find_bitmap:
  assumes "k * BPB < s_size sb"
  shows "find (block_free sb v) [k * BPB..<s_size sb] =
    (case find (\<lambda>bi. bit_clear bi (v (BBLOCK (k * BPB) sb))) [0..<min BPB (s_size sb - k * BPB)] of
       None \<Rightarrow> find (block_free sb v) [Suc k * BPB..<s_size sb]
     | Some bi \<Rightarrow> Some (k * BPB + bi))"
proof -
  let ?m = "min BPB (s_size sb - k * BPB)"
  have "[k * BPB..<s_size sb] = [k * BPB..<k * BPB + ?m] @ [k * BPB + ?m..<s_size sb]"
    using upt_add_eq_append [of "k * BPB" "k * BPB + ?m" "s_size sb - (k * BPB + ?m)"] assms by simp
  moreover have "[k * BPB..<k * BPB + ?m] = map ((+) (k * BPB)) [0..<?m]"
    using map_add_upt [of "k * BPB" ?m] by (simp only: add.commute [of _ "k * BPB"])
  moreover have "[k * BPB + ?m..<s_size sb] = [Suc k * BPB..<s_size sb]" by (auto simp: min_def add.commute)
  moreover have "find (\<lambda>i. block_free sb v (k * BPB + i)) [0..<?m] = find (\<lambda>bi. bit_clear bi (v (BBLOCK (k * BPB) sb))) [0..<?m]"
    by (rule find_cong) (simp add: block_free_in)
  ultimately show ?thesis by (simp only: find_append find_map) (simp split: option.splits)
qed

lemma tx_bzero:
  assumes t: "tx e T v H (Suc q) s" and n: "n \<notin> dom H" "card (dom H) < 4"
  shows "runs (bzero ROOTDEV n) s (\<lambda>_ s'. tx e T (v(n := replicate BSIZE 0)) H q s')"
  unfolding bzero_def buf_set_log
proof (rule runs_then [OF tx_bread [OF t n]])
  fix b s1 assume t1: "tx e T v (H(n \<mapsto> b)) (Suc q) s1"
  show "runs (andthen (put_block b (replicate BSIZE 0)) (\<lambda>_. fs_brelse b)) s1 (\<lambda>_ s'. tx e T (v(n := replicate BSIZE 0)) H q s')"
  proof (rule runs_then [OF tx_put [OF t1, of n]])
    fix x s2 assume t2: "tx e T (v(n := replicate BSIZE 0)) (H(n \<mapsto> b)) q s2"
    show "runs (fs_brelse b) s2 (\<lambda>_ s'. tx e T (v(n := replicate BSIZE 0)) H q s')"
      using tx_brelse [OF t2, of n b] n(1) by (simp add: fun_upd_idem domIff)
  qed simp
qed

section \<open>Allocating and freeing\<close>

lemma tx_balloc_from:
  assumes "tx e T v H (q + 2) s" "card (dom H) < 4" "\<forall>b < s_size (e_sb e). BBLOCK b (e_sb e) \<notin> dom H"
    "\<forall>b \<in> dom H. \<not> block_free (e_sb e) v b"
  shows "runs (balloc_from ROOTDEV (e_sb e) (map (\<lambda>k. k * BPB) [k..<(s_size (e_sb e) + BPB - 1) div BPB])) s
    (\<lambda>r s'. case find (block_free (e_sb e) v) [k * BPB..<s_size (e_sb e)] of
       None \<Rightarrow> r = 0 \<and> tx e T v H (q + 2) s'
     | Some b \<Rightarrow> r = b \<and> tx e T ((v(BBLOCK b (e_sb e) := mark_bit (b mod BPB) (v (BBLOCK b (e_sb e)))))
                                      (b := replicate BSIZE 0)) H q s')"
  using assms
proof (induction "(s_size (e_sb e) + BPB - 1) div BPB - k" arbitrary: k s)
  case 0
  then have "s_size (e_sb e) \<le> k * BPB" by simp
  then show ?case using 0 by simp
next
  case (Suc n)
  let ?sb = "e_sb e" and ?N = "(s_size (e_sb e) + BPB - 1) div BPB"
  have k: "k < ?N" "n = ?N - Suc k" using Suc.hyps(2) by simp_all
  then have less: "k * BPB < s_size ?sb" by simp
  let ?blk = "BBLOCK (k * BPB) ?sb"
  have up: "[k..<?N] = k # [Suc k..<?N]" using k(1) by (rule upt_conv_Cons)
  have nH: "?blk \<notin> dom H" "H ?blk = None" using Suc.prems(3) less by auto
  show ?case unfolding up find_bitmap [OF less]
    unfolding list.map balloc_from.simps
  proof (rule runs_then [OF tx_bread [OF Suc.prems(1) nH(1) Suc.prems(2)]])
    fix bp s1 assume t1: "tx e T v (H(?blk \<mapsto> bp)) (q + 2) s1"
    have d: "b_data (bufs (f_cache s1) bp) = v ?blk" using tx_data [OF t1, of ?blk] by simp
    show "runs (andthen (buf_data bp) (\<lambda>d. case find (\<lambda>bi. bit_clear bi d) [0..<min BPB (s_size ?sb - k * BPB)] of
         None \<Rightarrow> andthen (fs_brelse bp) (\<lambda>_. balloc_from ROOTDEV ?sb (map (\<lambda>k. k * BPB) [Suc k..<?N]))
       | Some bi \<Rightarrow> andthen (buf_set bp (mark_bit bi d)) (\<lambda>_. andthen (fs_log_write bp) (\<lambda>_. andthen (fs_brelse bp)
           (\<lambda>_. andthen (bzero ROOTDEV (k * BPB + bi)) (\<lambda>_. ret (k * BPB + bi))))))) s1
       (\<lambda>r s'. case (case find (\<lambda>bi. bit_clear bi (v ?blk)) [0..<min BPB (s_size ?sb - k * BPB)] of
            None \<Rightarrow> find (block_free ?sb v) [Suc k * BPB..<s_size ?sb] | Some bi \<Rightarrow> Some (k * BPB + bi)) of
          None \<Rightarrow> r = 0 \<and> tx e T v H (q + 2) s'
        | Some b \<Rightarrow> r = b \<and> tx e T ((v(BBLOCK b ?sb := mark_bit (b mod BPB) (v (BBLOCK b ?sb))))
                                      (b := replicate BSIZE 0)) H q s')"
    proof (cases "find (\<lambda>bi. bit_clear bi (v ?blk)) [0..<min BPB (s_size ?sb - k * BPB)]")
      case None
      have "runs (fs_brelse bp) s1 (\<lambda>_ s'. tx e T v H (q + 2) s')"
        using tx_brelse [OF t1, of ?blk bp] nH by (simp add: fun_upd_idem)
      then have "runs (andthen (fs_brelse bp) (\<lambda>_. balloc_from ROOTDEV ?sb (map (\<lambda>k. k * BPB) [Suc k..<?N]))) s1
          (\<lambda>r s'. case find (block_free ?sb v) [Suc k * BPB..<s_size ?sb] of
             None \<Rightarrow> r = 0 \<and> tx e T v H (q + 2) s'
           | Some b \<Rightarrow> r = b \<and> tx e T ((v(BBLOCK b ?sb := mark_bit (b mod BPB) (v (BBLOCK b ?sb))))
                                      (b := replicate BSIZE 0)) H q s')"
        by (rule runs_then) (rule Suc.hyps(1) [OF k(2) _ Suc.prems(2-4)])
      then show ?thesis using None by (simp add: buf_data_def d)
    next
      case (Some bi)
      then have bi: "bi < BPB" "k * BPB + bi < s_size ?sb" "bit_clear bi (v ?blk)"
        using find_SomeD [OF Some] by auto
      let ?b = "k * BPB + bi" and ?v = "v(?blk := mark_bit bi (v ?blk))"
      have eq: "BBLOCK ?b ?sb = ?blk" "?b mod BPB = bi" using bi(1) by (simp_all add: BBLOCK_def)
      have free: "?b \<notin> dom H" using Suc.prems(4) block_free_in [OF bi(1)] bi(3) by blast
      have "runs (put_block bp (mark_bit bi (v ?blk))) s1 (\<lambda>_ s'. tx e T ?v (H(?blk \<mapsto> bp)) (Suc q) s')"
        using t1 by (intro tx_put) (simp_all add: numeral_2_eq_2)
      then have "runs (andthen (put_block bp (mark_bit bi (v ?blk))) (\<lambda>_. andthen (fs_brelse bp)
           (\<lambda>_. andthen (bzero ROOTDEV ?b) (\<lambda>_. ret ?b)))) s1 (\<lambda>r s'. r = ?b \<and> tx e T (?v(?b := replicate BSIZE 0)) H q s')"
      proof (rule runs_then)
        fix x s2 assume t2: "tx e T ?v (H(?blk \<mapsto> bp)) (Suc q) s2"
        have "runs (fs_brelse bp) s2 (\<lambda>_ s'. tx e T ?v H (Suc q) s')"
          using tx_brelse [OF t2, of ?blk bp] nH by (simp add: fun_upd_idem)
        then show "runs (andthen (fs_brelse bp) (\<lambda>_. andthen (bzero ROOTDEV ?b) (\<lambda>_. ret ?b))) s2
            (\<lambda>r s'. r = ?b \<and> tx e T (?v(?b := replicate BSIZE 0)) H q s')"
          by (rule runs_then) (rule runs_then [OF tx_bzero [OF _ free Suc.prems(2)]], assumption, simp)
      qed
      then show ?thesis using Some eq by (simp add: buf_data_def d buf_set_log)
    qed
  qed
qed

lemma tx_balloc:
  assumes "tx e T v H (q + 2) s" "card (dom H) < 4" "\<forall>b < s_size (e_sb e). BBLOCK b (e_sb e) \<notin> dom H"
    "\<forall>b \<in> dom H. \<not> block_free (e_sb e) v b"
  shows "runs (balloc ROOTDEV) s (\<lambda>r s'. case abs_balloc (e_sb e) v of
       None \<Rightarrow> r = 0 \<and> tx e T v H (q + 2) s'
     | Some (b, v') \<Rightarrow> r = b \<and> tx e T v' H q s')"
proof -
  have sb: "f_sb s = e_sb e" using tx_fields [OF assms(1)] by simp
  have "runs (balloc_from ROOTDEV (e_sb e) (map (\<lambda>k. k * BPB) [0..<(s_size (e_sb e) + BPB - 1) div BPB])) s
    (\<lambda>r s'. case abs_balloc (e_sb e) v of None \<Rightarrow> r = 0 \<and> tx e T v H (q + 2) s' | Some (b, v') \<Rightarrow> r = b \<and> tx e T v' H q s')"
    using tx_balloc_from [OF assms, of 0]
    by (rule runs_mono) (auto simp: abs_balloc_def split: option.splits)
  then show ?thesis by (simp add: balloc_def sb)
qed

lemma tx_bfree:
  assumes t: "tx e T v H (Suc q) s" and H: "card (dom H) < 4" "BBLOCK b (e_sb e) \<notin> dom H"
    and used: "\<not> block_free (e_sb e) v b"
  shows "runs (bfree ROOTDEV b) s (\<lambda>_ s'. tx e T (abs_bfree (e_sb e) b v) H q s')"
proof -
  let ?blk = "BBLOCK b (e_sb e)"
  have sb: "f_sb s = e_sb e" using tx_fields [OF t] by simp
  have nH: "H ?blk = None" using H(2) by auto
  have "runs (andthen (fs_bread ROOTDEV ?blk) (\<lambda>bp. andthen (buf_data bp) (\<lambda>d.
       if bit_clear (b mod BPB) d then panic ''freeing free block''
       else andthen (put_block bp (unmark_bit (b mod BPB) d)) (\<lambda>_. fs_brelse bp)))) s
     (\<lambda>_ s'. tx e T (abs_bfree (e_sb e) b v) H q s')"
  proof (rule runs_then [OF tx_bread [OF t H(2,1)]])
    fix bp s1 assume t1: "tx e T v (H(?blk \<mapsto> bp)) (Suc q) s1"
    have d: "b_data (bufs (f_cache s1) bp) = v ?blk" using tx_data [OF t1, of ?blk] by simp
    have "runs (andthen (put_block bp (unmark_bit (b mod BPB) (v ?blk))) (\<lambda>_. fs_brelse bp)) s1
       (\<lambda>_ s'. tx e T (abs_bfree (e_sb e) b v) H q s')"
    proof (rule runs_then [OF tx_put [OF t1, of ?blk]])
      fix x s2 assume t2: "tx e T (v(?blk := unmark_bit (b mod BPB) (v ?blk))) (H(?blk \<mapsto> bp)) q s2"
      show "runs (fs_brelse bp) s2 (\<lambda>_ s'. tx e T (abs_bfree (e_sb e) b v) H q s')"
        using tx_brelse [OF t2, of ?blk bp] nH by (simp add: fun_upd_idem abs_bfree_def)
    qed simp
    then show "runs (andthen (buf_data bp) (\<lambda>d.
       if bit_clear (b mod BPB) d then panic ''freeing free block''
       else andthen (put_block bp (unmark_bit (b mod BPB) d)) (\<lambda>_. fs_brelse bp))) s1
     (\<lambda>_ s'. tx e T (abs_bfree (e_sb e) b v) H q s')"
      using used by (simp add: buf_data_def d block_free_def)
  qed
  then show ?thesis unfolding bfree_def buf_set_log by (simp add: sb)
qed

section \<open>The abstract disk is an allocator\<close>

definition bitmap_blocks :: "superblock \<Rightarrow> nat set" where
  "bitmap_blocks sb = (\<lambda>b. BBLOCK b sb) ` {0..<s_size sb}"

text \<open>The bitmap is on the disk it describes, whole, and marks its own blocks as used.\<close>

definition bitmap_ok :: "superblock \<Rightarrow> (nat \<Rightarrow> block) \<Rightarrow> bool" where
  "bitmap_ok sb v \<longleftrightarrow> (\<forall>n \<in> bitmap_blocks sb. length (v n) = BSIZE \<and> n < s_size sb \<and> \<not> block_free sb v n)"

definition free_blocks_of :: "superblock \<Rightarrow> (nat \<Rightarrow> block) \<Rightarrow> int set" where
  "free_blocks_of sb v = int ` {b. b < s_size sb \<and> block_free sb v b}"

definition taken_block :: "superblock \<Rightarrow> unit \<Rightarrow> nat \<Rightarrow> (nat \<Rightarrow> block) \<Rightarrow> bool" where
  "taken_block sb u b v \<longleftrightarrow> b < s_size sb \<and> \<not> block_free sb v b \<and> b \<notin> bitmap_blocks sb"

lemma BBLOCK_in: "b < s_size sb \<Longrightarrow> BBLOCK b sb \<in> bitmap_blocks sb"
  by (simp add: bitmap_blocks_def)

lemma bit_in_block: "(b :: nat) mod BPB div 8 < BSIZE"
  using mod_less_divisor [of BPB b] by simp

lemma same_place: "BBLOCK c sb = BBLOCK b sb \<Longrightarrow> c mod BPB = b mod BPB \<Longrightarrow> c = b"
  unfolding BBLOCK_def by (metis add_right_cancel div_mult_mod_eq)

lemma block_free_mark:
  assumes "length (v (BBLOCK b sb)) = BSIZE"
  shows "block_free sb (v(BBLOCK b sb := mark_bit (b mod BPB) (v (BBLOCK b sb)))) c \<longleftrightarrow> block_free sb v c \<and> c \<noteq> b"
  using bit_clear_mark [of "b mod BPB" "v (BBLOCK b sb)" "c mod BPB"] bit_in_block [of b] assms same_place [of c sb b]
  by (auto simp: block_free_def)

lemma block_free_unmark:
  assumes "length (v (BBLOCK b sb)) = BSIZE"
  shows "block_free sb (abs_bfree sb b v) c \<longleftrightarrow> block_free sb v c \<or> c = b"
  using bit_clear_unmark [of "b mod BPB" "v (BBLOCK b sb)" "c mod BPB"] bit_in_block [of b] assms same_place [of c sb b]
  by (auto simp: block_free_def abs_bfree_def)

lemma block_free_other: "n \<notin> bitmap_blocks sb \<Longrightarrow> c < s_size sb \<Longrightarrow> block_free sb (v(n := d)) c = block_free sb v c"
  using BBLOCK_in [of c sb] by (auto simp: block_free_def)

lemma abs_balloc_SomeD:
  assumes "bitmap_ok sb v" "abs_balloc sb v = Some (b, v')"
  shows "b < s_size sb" "block_free sb v b" "\<forall>c < b. \<not> block_free sb v c" "b \<notin> bitmap_blocks sb"
    "v' b = replicate BSIZE 0" "\<And>c. c \<noteq> b \<Longrightarrow> c \<notin> bitmap_blocks sb \<Longrightarrow> v' c = v c"
    "\<And>c. c < s_size sb \<Longrightarrow> block_free sb v' c \<longleftrightarrow> block_free sb v c \<and> c \<noteq> b" "bitmap_ok sb v'"
proof -
  obtain f: "find (block_free sb v) [0..<s_size sb] = Some b"
    and v': "v' = (v(BBLOCK b sb := mark_bit (b mod BPB) (v (BBLOCK b sb))))(b := replicate BSIZE 0)"
    using assms(2) by (auto simp: abs_balloc_def split: option.splits)
  show b: "b < s_size sb" "block_free sb v b" "\<forall>c < b. \<not> block_free sb v c"
    using f by (auto simp: find_Some_iff)
  show nb: "b \<notin> bitmap_blocks sb" using b(2) assms(1) by (auto simp: bitmap_ok_def)
  then have ne: "BBLOCK b sb \<noteq> b" using BBLOCK_in [OF b(1)] by auto
  have len: "length (v (BBLOCK b sb)) = BSIZE" using assms(1) BBLOCK_in [OF b(1)] by (simp add: bitmap_ok_def)
  show "v' b = replicate BSIZE 0" by (simp add: v')
  show "v' c = v c" if "c \<noteq> b" "c \<notin> bitmap_blocks sb" for c using that BBLOCK_in [OF b(1)] by (auto simp: v')
  show bf: "block_free sb v' c \<longleftrightarrow> block_free sb v c \<and> c \<noteq> b" if "c < s_size sb" for c
    unfolding v' block_free_other [OF nb that] by (rule block_free_mark [where v = v, OF len])
  show "bitmap_ok sb v'"
    unfolding bitmap_ok_def
  proof
    fix n assume n: "n \<in> bitmap_blocks sb"
    then have "length (v n) = BSIZE" "n < s_size sb" "\<not> block_free sb v n" using assms(1) by (auto simp: bitmap_ok_def)
    then show "length (v' n) = BSIZE \<and> n < s_size sb \<and> \<not> block_free sb v' n" using bf [of n] by (auto simp: v')
  qed
qed

lemma abs_balloc_None: "abs_balloc sb v = None \<longleftrightarrow> (\<forall>b < s_size sb. \<not> block_free sb v b)"
  by (auto simp: abs_balloc_def find_None_iff dest!: find_SomeD split: option.splits)

lemma abs_bfree_ok:
  assumes "bitmap_ok sb v" "b < s_size sb" "b \<notin> bitmap_blocks sb"
  shows "bitmap_ok sb (abs_bfree sb b v)" "\<And>c. block_free sb (abs_bfree sb b v) c \<longleftrightarrow> block_free sb v c \<or> c = b"
    "\<And>c. c \<notin> bitmap_blocks sb \<Longrightarrow> abs_bfree sb b v c = v c"
proof -
  have len: "length (v (BBLOCK b sb)) = BSIZE" using assms(1) BBLOCK_in [OF assms(2)] by (simp add: bitmap_ok_def)
  show bf: "block_free sb (abs_bfree sb b v) c \<longleftrightarrow> block_free sb v c \<or> c = b" for c
    by (rule block_free_unmark [where v = v, OF len])
  show "abs_bfree sb b v c = v c" if "c \<notin> bitmap_blocks sb" for c
    using that BBLOCK_in [OF assms(2)] by (auto simp: abs_bfree_def)
  have "length (abs_bfree sb b v n) = BSIZE" if "n \<in> bitmap_blocks sb" for n
    using that assms(1) by (auto simp: abs_bfree_def bitmap_ok_def)
  then show "bitmap_ok sb (abs_bfree sb b v)" using assms(1,3) bf by (auto simp: bitmap_ok_def)
qed

interpretation blocks: allocator "bitmap_ok sb" "free_blocks_of sb" "\<lambda>_ b. {int b}" "\<lambda>_. True"
  "\<lambda>_. abs_balloc sb" "\<lambda>_. abs_bfree sb" "taken_block sb" for sb
proof
  fix v v' :: "nat \<Rightarrow> block" and b :: nat and n :: unit
  assume ok: "bitmap_ok sb v" and al: "abs_balloc sb v = Some (b, v')"
  note b = abs_balloc_SomeD [OF ok al]
  show "bitmap_ok sb v'" "{int b} \<subseteq> free_blocks_of sb v" "taken_block sb n b v'"
    using b by (auto simp: free_blocks_of_def taken_block_def)
  show "free_blocks_of sb v' = free_blocks_of sb v - {int b}" using b(7) by (auto simp: free_blocks_of_def)
next
  fix v :: "nat \<Rightarrow> block" and b :: nat and n :: unit
  assume ok: "bitmap_ok sb v" and b: "taken_block sb n b v"
  then show "bitmap_ok sb (abs_bfree sb b v)" "free_blocks_of sb (abs_bfree sb b v) = free_blocks_of sb v \<union> {int b}"
    using abs_bfree_ok [OF ok] by (auto simp: taken_block_def free_blocks_of_def)
qed

text \<open>
  C23: the block allocator on top of the cache and the log. Inside a transaction with room for two
  more blocks, and as long as the process has no bitmap block and no free block locked, \<open>balloc\<close> returns
  the lowest block whose bit is clear, marked and zeroed, every other block outside the bitmap is as
  before, and \<open>bfree\<close> gives exactly this block back; without a free block it returns 0 and changes
  nothing. The disk itself is not written.
\<close>

theorem balloc_correct:
  assumes "tx e T v H (q + 3) s" "card (dom H) < 4" "bitmap_ok (e_sb e) v"
    "\<forall>b \<in> dom H. b \<notin> bitmap_blocks (e_sb e) \<and> \<not> block_free (e_sb e) v b"
  shows "runs (balloc ROOTDEV) s (\<lambda>r s'.
    if \<exists>b < s_size (e_sb e). block_free (e_sb e) v b
    then r < s_size (e_sb e) \<and> block_free (e_sb e) v r \<and> (\<forall>c < r. \<not> block_free (e_sb e) v c)
      \<and> (\<exists>v'. tx e T v' H (q + 1) s' \<and> v' r = replicate BSIZE 0
           \<and> (\<forall>c. c \<noteq> r \<and> c \<notin> bitmap_blocks (e_sb e) \<longrightarrow> v' c = v c)
           \<and> free_blocks_of (e_sb e) v' = free_blocks_of (e_sb e) v - {int r})
      \<and> runs (bfree ROOTDEV r) s' (\<lambda>_ s''. \<exists>v''. tx e T v'' H q s'' \<and> free_blocks_of (e_sb e) v'' = free_blocks_of (e_sb e) v)
    else r = 0 \<and> tx e T v H (q + 3) s')"
proof (cases "abs_balloc (e_sb e) v")
  case None
  have "tx e T v H (Suc q + 2) s" using assms(1) by (simp add: numeral_3_eq_3)
  then have "runs (balloc ROOTDEV) s (\<lambda>r s'. r = 0 \<and> tx e T v H (q + 3) s')"
    using tx_balloc [of e T v H "Suc q" s] assms(2,4) BBLOCK_in None by (auto simp: numeral_3_eq_3)
  moreover have "\<not> (\<exists>b < s_size (e_sb e). block_free (e_sb e) v b)" using None abs_balloc_None by blast
  ultimately show ?thesis by (simp only: if_False)
next
  case (Some a)
  then obtain b v' where al: "abs_balloc (e_sb e) v = Some (b, v')" by (cases a) auto
  note b = abs_balloc_SomeD [OF assms(3) al]
  have "tx e T v H (Suc q + 2) s" using assms(1) by (simp add: numeral_3_eq_3)
  then have 1: "runs (balloc ROOTDEV) s (\<lambda>r s'. r = b \<and> tx e T v' H (Suc q) s')"
    using tx_balloc [of e T v H "Suc q" s] assms(2,4) BBLOCK_in al by auto
  have 2: "runs (bfree ROOTDEV b) s' (\<lambda>_ s''. tx e T (abs_bfree (e_sb e) b v') H q s'')" if "tx e T v' H (Suc q) s'" for s'
    using that assms(2,4) BBLOCK_in [OF b(1)] b(1,7) by (intro tx_bfree) auto
  have 3: "free_blocks_of (e_sb e) (abs_bfree (e_sb e) b v') = free_blocks_of (e_sb e) v"
    by (rule blocks.alloc_free_avail [OF assms(3) TrueI al])
  have 4: "free_blocks_of (e_sb e) v' = free_blocks_of (e_sb e) v - {int b}"
    by (rule blocks.alloc_avail [OF assms(3) TrueI al])
  have ex: "\<exists>b < s_size (e_sb e). block_free (e_sb e) v b" using b(1,2) by blast
  show ?thesis using 1
  proof (rule runs_mono)
    fix r s' assume r: "r = b \<and> tx e T v' H (Suc q) s'"
    have "runs (bfree ROOTDEV b) s' (\<lambda>_ s''. \<exists>v''. tx e T v'' H q s'' \<and> free_blocks_of (e_sb e) v'' = free_blocks_of (e_sb e) v)"
      by (rule runs_mono [OF 2]) (use r 3 in auto)
    with r have "tx e T v' H (q + 1) s'" "runs (bfree ROOTDEV r) s' (\<lambda>_ s''. \<exists>v''. tx e T v'' H q s'' \<and> free_blocks_of (e_sb e) v'' = free_blocks_of (e_sb e) v)"
      by simp_all
    then show "if \<exists>b < s_size (e_sb e). block_free (e_sb e) v b
      then r < s_size (e_sb e) \<and> block_free (e_sb e) v r \<and> (\<forall>c < r. \<not> block_free (e_sb e) v c)
        \<and> (\<exists>v'. tx e T v' H (q + 1) s' \<and> v' r = replicate BSIZE 0
             \<and> (\<forall>c. c \<noteq> r \<and> c \<notin> bitmap_blocks (e_sb e) \<longrightarrow> v' c = v c)
             \<and> free_blocks_of (e_sb e) v' = free_blocks_of (e_sb e) v - {int r})
        \<and> runs (bfree ROOTDEV r) s' (\<lambda>_ s''. \<exists>v''. tx e T v'' H q s'' \<and> free_blocks_of (e_sb e) v'' = free_blocks_of (e_sb e) v)
      else r = 0 \<and> tx e T v H (q + 3) s'"
      using r ex b(1-3,5,6) 4 by auto
  qed
qed

text \<open>A small file system of 60 blocks whose bitmap, block 45, marks the first 56, in a transaction.\<close>

definition small_sb :: superblock where
  "small_sb = \<lparr>s_magic = FSMAGIC, s_size = 60, s_nblocks = 14, s_ninodes = 32, s_nlog = 31, s_logstart = 2,
     s_inodestart = 33, s_bmapstart = 45\<rparr>"

definition small_disk :: "nat \<Rightarrow> block" where
  "small_disk n = (if n = 45 then replicate 7 (- 1) @ replicate (BSIZE - 7) 0 else replicate BSIZE 0)"

definition in_tx :: "superblock \<Rightarrow> inode list \<Rightarrow> (nat \<Rightarrow> block) \<Rightarrow> fsys" where
  "in_tx sb T d = \<lparr>f_log = zero_log\<lparr>lg_outstanding := 1\<rparr>, f_cache = binit (boot_cache d), f_sb = sb, f_itable = T,
     f_pid = 1, f_cwd = 0\<rparr>"

lemma in_tx: "q \<le> 26 \<Longrightarrow> tx \<lparr>e_disk = d, e_sb = sb, e_pid = 1, e_cwd = 0\<rparr> T d (\<lambda>_. None) q (in_tx sb T d)"
  by (simp add: tx_def in_tx_def zero_log_def binit_spec fun_eq_iff)

lemma small_BBLOCK: "b < 60 \<Longrightarrow> BBLOCK b small_sb = 45"
  by (simp add: BBLOCK_def small_sb_def)

lemma small_free: "b < 60 \<Longrightarrow> block_free small_sb small_disk b \<longleftrightarrow> 56 \<le> b"
proof -
  assume b: "b < 60"
  have byte: "bit (- 1 :: byte) (i mod 8)" for i :: nat by simp
  show ?thesis
    using b byte by (auto simp: block_free_def small_BBLOCK bit_clear_bit small_disk_def nth_append)
qed

lemma small_ok: "bitmap_ok small_sb small_disk"
proof -
  have "bitmap_blocks small_sb = {45}"
    unfolding bitmap_blocks_def using small_BBLOCK by (auto simp: small_sb_def intro!: image_eqI [of _ _ 0])
  then show ?thesis using small_free [of 45] by (simp add: bitmap_ok_def small_disk_def small_sb_def)
qed

theorem balloc_correct_witness:
  "runs (balloc ROOTDEV) (in_tx small_sb [] small_disk) (\<lambda>r s'. r = 56)"
proof -
  let ?e = "\<lparr>e_disk = small_disk, e_sb = small_sb, e_pid = 1, e_cwd = 0\<rparr>"
  have t: "tx ?e [] small_disk (\<lambda>_. None) (7 + 3) (in_tx small_sb [] small_disk)" by (rule in_tx) simp
  have size: "s_size small_sb = 60" by (simp add: small_sb_def)
  have ex: "\<exists>b < s_size small_sb. block_free small_sb small_disk b"
    using small_free [of 56] size by (intro exI [of _ 56]) simp
  have "runs (balloc ROOTDEV) (in_tx small_sb [] small_disk)
     (\<lambda>r s'. r < 60 \<and> block_free small_sb small_disk r \<and> (\<forall>c < r. \<not> block_free small_sb small_disk c))"
    using balloc_correct [OF t] small_ok ex size by (auto elim!: runs_mono)
  then show ?thesis
  proof (rule runs_mono)
    fix r s' assume r: "r < 60 \<and> block_free small_sb small_disk r \<and> (\<forall>c < r. \<not> block_free small_sb small_disk c)"
    then have "56 \<le> r" using small_free [of r] by simp
    moreover have "\<not> 56 < r" using r small_free [of 56] by auto
    ultimately show "r = 56" by simp
  qed
qed

end
