(* ===== verification/Fs_Files.thy ===== *)
theory Fs_Files
  imports Fs_Blocks
begin

text \<open>
  The blocks of a file inside a transaction: the disk inode in its block, the block numbers of a file,
  and \<open>bmap\<close>, which finds or allocates the block of an offset without changing what the file contains.
\<close>

section \<open>Parts of a block\<close>

lemma length_put_bytes [simp]: "off + length bs \<le> length d \<Longrightarrow> length (put_bytes off bs d) = length d"
  by (simp add: put_bytes_def)

lemma put_bytes_nth:
  "off + length bs \<le> length d \<Longrightarrow> i < length d \<Longrightarrow>
   put_bytes off bs d ! i = (if off \<le> i \<and> i < off + length bs then bs ! (i - off) else d ! i)"
  by (auto simp: put_bytes_def nth_append min_def)

lemma slice_put_same: "off + length bs \<le> length d \<Longrightarrow> take (length bs) (drop off (put_bytes off bs d)) = bs"
  by (simp add: put_bytes_def)

lemma slice_put_other:
  assumes "off + length bs \<le> length d" "a + w \<le> off \<or> off + length bs \<le> a"
  shows "take w (drop a (put_bytes off bs d)) = take w (drop a d)"
  by (rule nth_equalityI) (use assms in \<open>auto simp: put_bytes_nth\<close>)

lemma get32_put_same: "4 * k + 4 \<le> length d \<Longrightarrow> a < 2 ^ 32 \<Longrightarrow> get32 k (put_bytes (4 * k) (enc_le 4 (int a)) d) = a"
  using slice_put_same [of "4 * k" "enc_le 4 (int a)" d] by (simp add: get32_def dec_enc_le)

lemma get32_put_other: "4 * k + 4 \<le> length d \<Longrightarrow> j \<noteq> k \<Longrightarrow> get32 j (put_bytes (4 * k) (enc_le 4 (int a)) d) = get32 j d"
proof -
  assume "4 * k + 4 \<le> length d" "j \<noteq> k"
  moreover from this have "4 * j + 4 \<le> 4 * k \<or> 4 * k + 4 \<le> 4 * j" by linarith
  ultimately show ?thesis using slice_put_other [of "4 * k" "enc_le 4 (int a)" d "4 * j" 4] by (simp add: get32_def)
qed

lemma get32_zeros [simp]: "get32 k (replicate n 0) = 0"
proof -
  have "dec_le (replicate m 0) = 0" for m by (induction m) simp_all
  then show ?thesis by (simp add: get32_def)
qed

section \<open>Inodes on the disk\<close>

definition dinode_ok :: "dinode \<Rightarrow> bool" where
  "dinode_ok di \<longleftrightarrow> (\<forall>x \<in> {di_type di, di_major di, di_minor di, di_nlink di}. - (2 ^ 15) \<le> x \<and> x < 2 ^ 15)
     \<and> di_size di < 2 ^ 32 \<and> length (di_addrs di) = NDIRECT + 1 \<and> (\<forall>a \<in> set (di_addrs di). a < 2 ^ 32)"

lemma dec_short_enc: "- (2 ^ 15) \<le> x \<Longrightarrow> x < 2 ^ 15 \<Longrightarrow> dec_short (enc_le 2 x @ ys) = x"
proof -
  assume "- (2 ^ 15) \<le> x" "x < 2 ^ 15"
  moreover have "signed_take_bit 15 (x mod 256\<^sup>2) = signed_take_bit 15 x"
    using signed_take_bit_take_bit [of 15 16 x] by (simp add: take_bit_eq_mod)
  ultimately show ?thesis by (simp add: dec_short_def dec_enc_le signed_take_bit_int_eq_self)
qed

lemma dec_enc_dinode: "dinode_ok di \<Longrightarrow> dec_dinode (enc_dinode di @ ys) = di"
proof -
  assume ok: "dinode_ok di"
  let ?as = "concat (map (\<lambda>a. enc_le 4 (int a)) (di_size di # di_addrs di))"
  have e: "enc_dinode di @ ys = (enc_le 2 (di_type di) @ enc_le 2 (di_major di)) @
     (enc_le 2 (di_minor di) @ enc_le 2 (di_nlink di)) @ ?as @ ys" by (simp add: enc_dinode_def)
  have g: "get32 (Suc (Suc k)) (enc_dinode di @ ys) = (di_size di # di_addrs di) ! k" if "k < 14" for k
    unfolding e using that ok by (simp only: get32_Suc length_append length_enc_le)
      (rule get32_enc; auto simp: dinode_ok_def)
  have n: "length (di_addrs di) = NDIRECT + 1" using ok by (simp add: dinode_ok_def)
  have size: "get32 2 (enc_dinode di @ ys) = di_size di" using g [of 0] by (simp add: numeral_2_eq_2)
  have addrs: "map (\<lambda>i. get32 (3 + i) (enc_dinode di @ ys)) [0..<NDIRECT + 1] = di_addrs di"
  proof (rule nth_equalityI)
    fix k assume "k < length (map (\<lambda>i. get32 (3 + i) (enc_dinode di @ ys)) [0..<NDIRECT + 1])"
    then show "map (\<lambda>i. get32 (3 + i) (enc_dinode di @ ys)) [0..<NDIRECT + 1] ! k = di_addrs di ! k"
      using g [of "Suc k"] by (simp add: numeral_3_eq_3)
  qed (simp add: n)
  have short: "dec_short (enc_dinode di @ ys) = di_type di" "dec_short (drop 2 (enc_dinode di @ ys)) = di_major di"
    "dec_short (drop 4 (enc_dinode di @ ys)) = di_minor di" "dec_short (drop 6 (enc_dinode di @ ys)) = di_nlink di"
    using ok by (simp_all add: enc_dinode_def dinode_ok_def dec_short_enc)
  show ?thesis
    unfolding dec_dinode_def short size addrs by simp
qed

lemma length_enc_dinode: "length (di_addrs di) = NDIRECT + 1 \<Longrightarrow> length (enc_dinode di) = 64"
  by (simp add: enc_dinode_def length_concat4)

lemma dinode_place: "64 * (inum mod IPB) + 64 \<le> BSIZE"
  using mod_less_divisor [of IPB inum] by linarith

lemma get_put_dinode:
  assumes "dinode_ok di" "length d = BSIZE"
  shows "get_dinode inum (put_dinode inum di d) = di"
proof -
  have n: "length (enc_dinode di) = 64" using assms(1) by (simp add: length_enc_dinode dinode_ok_def)
  have "drop (64 * (inum mod IPB)) (put_dinode inum di d) = enc_dinode di @ drop (64 * (inum mod IPB) + 64) d"
    using dinode_place [of inum] assms(2) by (simp add: put_dinode_def put_bytes_def n)
  then show ?thesis using dec_enc_dinode [OF assms(1)] by (simp add: get_dinode_def)
qed

lemma get_put_dinode_other:
  assumes "length (di_addrs di) = NDIRECT + 1" "length d = BSIZE" "i mod IPB \<noteq> j mod IPB"
  shows "get_dinode j (put_dinode i di d) = get_dinode j d"
proof -
  let ?a = "64 * (i mod IPB)" and ?b = "64 * (j mod IPB)"
  have ab: "?b + 64 \<le> ?a \<or> ?a + 64 \<le> ?b" using assms(3) by linarith
  have slice: "take w (drop (?b + x) (put_dinode i di d)) = take w (drop (?b + x) d)" if "x + w \<le> 64" for x w
    unfolding put_dinode_def
    by (rule slice_put_other) (use assms ab that dinode_place [of i] in \<open>auto simp: length_enc_dinode\<close>)
  have short: "dec_short (drop x (drop ?b (put_dinode i di d))) = dec_short (drop x (drop ?b d))" if "x + 2 \<le> 64" for x
    using slice [OF that] by (simp add: dec_short_def add.commute)
  have word: "get32 k (drop ?b (put_dinode i di d)) = get32 k (drop ?b d)" if "4 * k + 4 \<le> 64" for k
    using slice [OF that] by (simp add: get32_def add.commute)
  have words: "map (\<lambda>k. get32 (3 + k) (drop ?b (put_dinode i di d))) [0..<NDIRECT + 1] = map (\<lambda>k. get32 (3 + k) (drop ?b d)) [0..<NDIRECT + 1]"
    by (rule map_cong [OF refl], rule word) simp
  show ?thesis
    unfolding get_dinode_def dec_dinode_def words using short [of 0] short [of 2] short [of 4] short [of 6] word [of 2] by simp
qed

section \<open>The blocks of a file\<close>

text \<open>Block number \<open>k\<close> of the file, 0 where there is none; place \<open>MAXFILE\<close> is the indirect block.\<close>

definition file_block :: "(nat \<Rightarrow> block) \<Rightarrow> dinode \<Rightarrow> nat \<Rightarrow> nat" where
  "file_block v di k =
     (if k < NDIRECT then di_addrs di ! k
      else if k = MAXFILE then di_addrs di ! NDIRECT
      else if di_addrs di ! NDIRECT = 0 then 0
      else get32 (k - NDIRECT) (v (di_addrs di ! NDIRECT)))"

text \<open>The byte at an offset; a place without block reads as zero.\<close>

definition file_byte :: "(nat \<Rightarrow> block) \<Rightarrow> dinode \<Rightarrow> nat \<Rightarrow> byte" where
  "file_byte v di off =
     (let b = file_block v di (off div BSIZE) in if b = 0 then 0 else v b ! (off mod BSIZE))"

text \<open>
  The blocks of the file are different blocks of the disk, marked as used, outside the bitmap and the
  inodes; \<open>R\<close> are the blocks of the inodes.
\<close>

definition file_ok :: "superblock \<Rightarrow> nat set \<Rightarrow> (nat \<Rightarrow> block) \<Rightarrow> dinode \<Rightarrow> bool" where
  "file_ok sb R v di \<longleftrightarrow> length (di_addrs di) = NDIRECT + 1
     \<and> (\<forall>k \<le> MAXFILE. let b = file_block v di k in b \<noteq> 0 \<longrightarrow>
          b < s_size sb \<and> \<not> block_free sb v b \<and> b \<notin> bitmap_blocks sb \<and> b \<notin> R \<and> length (v b) = BSIZE)
     \<and> (\<forall>j k. j \<le> MAXFILE \<longrightarrow> k \<le> MAXFILE \<longrightarrow> file_block v di j \<noteq> 0 \<longrightarrow> file_block v di j = file_block v di k \<longrightarrow> j = k)"

lemma file_okD:
  assumes "file_ok sb R v di" "k \<le> MAXFILE" "file_block v di k \<noteq> 0"
  shows "file_block v di k < s_size sb" "\<not> block_free sb v (file_block v di k)"
    "file_block v di k \<notin> bitmap_blocks sb" "file_block v di k \<notin> R" "length (v (file_block v di k)) = BSIZE"
  using assms by (auto simp: file_ok_def Let_def)

lemma file_ok_inj:
  "file_ok sb R v di \<Longrightarrow> j \<le> MAXFILE \<Longrightarrow> k \<le> MAXFILE \<Longrightarrow> file_block v di j \<noteq> 0 \<Longrightarrow>
   file_block v di j = file_block v di k \<Longrightarrow> j = k"
  unfolding file_ok_def by blast

text \<open>The disk is in order: block 0 and the blocks of the inodes \<open>R\<close> are marked as used.\<close>

definition disk_ok :: "superblock \<Rightarrow> nat set \<Rightarrow> (nat \<Rightarrow> block) \<Rightarrow> bool" where
  "disk_ok sb R v \<longleftrightarrow> bitmap_ok sb v \<and> \<not> block_free sb v 0 \<and> 0 < s_size sb \<and> s_size sb \<le> 2 ^ 32
     \<and> (\<forall>n \<in> R. n < s_size sb \<and> \<not> block_free sb v n \<and> n \<notin> bitmap_blocks sb \<and> length (v n) = BSIZE)"

text \<open>
  What \<open>bmap\<close> and \<open>writei\<close> may do to the disk and the inode: the file gets more blocks, which were free,
  and every used block outside the bitmap that is not of this file stays as it is.
\<close>

definition extends :: "superblock \<Rightarrow> nat set \<Rightarrow> (nat \<Rightarrow> block) \<Rightarrow> dinode \<Rightarrow> (nat \<Rightarrow> block) \<Rightarrow> dinode \<Rightarrow> bool" where
  "extends sb R v di v' di' \<longleftrightarrow> disk_ok sb R v' \<and> file_ok sb R v' di' \<and> di' = di\<lparr>di_addrs := di_addrs di'\<rparr>
     \<and> (\<forall>k \<le> MAXFILE. file_block v di k \<noteq> 0 \<longrightarrow> file_block v' di' k = file_block v di k)
     \<and> (\<forall>k \<le> MAXFILE. file_block v di k = 0 \<and> file_block v' di' k \<noteq> 0 \<longrightarrow> block_free sb v (file_block v' di' k))
     \<and> (\<forall>n < s_size sb. block_free sb v' n \<longrightarrow> block_free sb v n)
     \<and> (\<forall>n < s_size sb. \<not> block_free sb v n \<and> n \<notin> bitmap_blocks sb \<and> (\<forall>k \<le> MAXFILE. n \<noteq> file_block v di k) \<longrightarrow> v' n = v n)"

definition grown :: "superblock \<Rightarrow> nat set \<Rightarrow> (nat \<Rightarrow> block) \<Rightarrow> dinode \<Rightarrow> (nat \<Rightarrow> block) \<Rightarrow> dinode \<Rightarrow> bool" where
  "grown sb R v di v' di' \<longleftrightarrow> extends sb R v di v' di'
     \<and> (\<forall>off < MAXFILE * BSIZE. file_byte v' di' off = file_byte v di off)"

lemma extends_ok: "extends sb R v di v' di' \<Longrightarrow> disk_ok sb R v' \<and> file_ok sb R v' di'"
  by (simp add: extends_def)

lemma extends_refl: "disk_ok sb R v \<Longrightarrow> file_ok sb R v di \<Longrightarrow> extends sb R v di v di"
  by (auto simp: extends_def)

lemma extends_trans:
  assumes 1: "extends sb R v di v1 di1" and 2: "extends sb R v1 di1 v2 di2"
  shows "extends sb R v di v2 di2"
proof -
  have ok: "disk_ok sb R v2" "file_ok sb R v2 di2" using 2 by (simp_all add: extends_def)
  have di: "di2 = di\<lparr>di_addrs := di_addrs di2\<rparr>" using 1 2 unfolding extends_def by (metis dinode.unfold_congs(6) dinode.update_convs(6) dinode.surjective)
  have new: "block_free sb v (file_block v2 di2 k)" if "k \<le> MAXFILE" "file_block v di k = 0" "file_block v2 di2 k \<noteq> 0" for k
  proof (cases "file_block v1 di1 k = 0")
    case True
    then have "block_free sb v1 (file_block v2 di2 k)" using 2 that by (simp add: extends_def)
    moreover have "file_block v2 di2 k < s_size sb" using file_okD(1) [OF ok(2) that(1,3)] .
    ultimately show ?thesis using 1 by (simp add: extends_def)
  next
    case False
    then show ?thesis using 1 2 that by (simp add: extends_def)
  qed
  have other: "v2 n = v n" if n: "n < s_size sb" "\<not> block_free sb v n" "n \<notin> bitmap_blocks sb" "\<forall>k \<le> MAXFILE. n \<noteq> file_block v di k" for n
  proof -
    have "n \<noteq> file_block v1 di1 k" if "k \<le> MAXFILE" for k
    proof
      assume eq: "n = file_block v1 di1 k"
      then have "file_block v di k = 0" using 1 n(4) that unfolding extends_def by metis
      moreover have "n \<noteq> 0 \<Longrightarrow> False" using eq calculation 1 that n(2) unfolding extends_def by metis
      ultimately show False using n(4) that by metis
    qed
    moreover have "\<not> block_free sb v1 n" using 1 n unfolding extends_def by blast
    ultimately show ?thesis using 1 2 n unfolding extends_def by simp
  qed
  show ?thesis
    unfolding extends_def using ok di new other 1 2 unfolding extends_def by (intro conjI; (assumption | simp | metis))
qed

lemma grown_refl: "disk_ok sb R v \<Longrightarrow> file_ok sb R v di \<Longrightarrow> grown sb R v di v di"
  by (simp add: grown_def extends_refl)

lemma grown_trans: "grown sb R v di v1 di1 \<Longrightarrow> grown sb R v1 di1 v2 di2 \<Longrightarrow> grown sb R v di v2 di2"
  by (auto simp: grown_def intro: extends_trans)

section \<open>Adding a block\<close>

lemma disk_okD:
  assumes "disk_ok sb R v"
  shows "bitmap_ok sb v" "\<not> block_free sb v 0" "s_size sb \<le> 2 ^ 32"
    "n \<in> R \<Longrightarrow> n < s_size sb \<and> \<not> block_free sb v n \<and> n \<notin> bitmap_blocks sb \<and> length (v n) = BSIZE"
  using assms by (auto simp: disk_ok_def)

lemma indirect_block: "file_block v di MAXFILE = di_addrs di ! NDIRECT"
  by (simp add: file_block_def)

lemma file_block_same:
  assumes "di_addrs di ! NDIRECT \<noteq> 0 \<Longrightarrow> v' (di_addrs di ! NDIRECT) = v (di_addrs di ! NDIRECT)"
  shows "file_block v' di k = file_block v di k"
  using assms by (simp add: file_block_def)

lemma block_free_same: "\<forall>n \<in> bitmap_blocks sb. v' n = v n \<Longrightarrow> c < s_size sb \<Longrightarrow> block_free sb v' c = block_free sb v c"
  using BBLOCK_in [of c sb] by (simp add: block_free_def)

lemma alloc_keeps:
  assumes ok: "disk_ok sb R v" "file_ok sb R v di" and al: "abs_balloc sb v = Some (b, v1)"
  shows "b \<noteq> 0" "b \<notin> R" "\<And>k. k \<le> MAXFILE \<Longrightarrow> file_block v di k \<noteq> b" "\<And>k. file_block v1 di k = file_block v di k"
    "\<And>n. n < s_size sb \<Longrightarrow> \<not> block_free sb v n \<Longrightarrow> n \<notin> bitmap_blocks sb \<Longrightarrow> v1 n = v n" "disk_ok sb R v1" "file_ok sb R v1 di"
proof -
  note d = disk_okD [OF ok(1)]
  note b = abs_balloc_SomeD [OF d(1) al]
  show b0: "b \<noteq> 0" using b(2) d(2) by metis
  show bR: "b \<notin> R" using b(2) d(4) by blast
  show bf: "file_block v di k \<noteq> b" if "k \<le> MAXFILE" for k
    using file_okD(2) [OF ok(2) that] b(2) b0 by auto
  show same: "v1 n = v n" if "n < s_size sb" "\<not> block_free sb v n" "n \<notin> bitmap_blocks sb" for n
    using b(2,6) that by metis
  show fb: "file_block v1 di k = file_block v di k" for k
    by (rule file_block_same) (use same file_okD [OF ok(2), of MAXFILE] indirect_block [of v di] in auto)
  have keep: "\<not> block_free sb v1 n \<and> v1 n = v n" if "n < s_size sb" "\<not> block_free sb v n" "n \<notin> bitmap_blocks sb" for n
    using same [OF that] b(7) [OF that(1)] that(2) by simp
  have "0 < s_size sb" using ok(1) by (simp add: disk_ok_def)
  then have "\<not> block_free sb v1 0" using b(7) [of 0] d(2) by simp
  then show "disk_ok sb R v1" using ok(1) b(8) keep unfolding disk_ok_def by auto
  show "file_ok sb R v1 di" using ok(2) keep unfolding file_ok_def fb Let_def by auto
qed

lemma file_byte_cong:
  assumes "file_block v' di' (off div BSIZE) = file_block v di (off div BSIZE)"
    "file_block v di (off div BSIZE) \<noteq> 0 \<Longrightarrow> v' (file_block v di (off div BSIZE)) = v (file_block v di (off div BSIZE))"
  shows "file_byte v' di' off = file_byte v di off"
  using assms by (simp add: file_byte_def Let_def)

text \<open>A block taken from the allocator becomes block \<open>k\<close> of the file.\<close>

lemma alloc_add:
  assumes ok: "disk_ok sb R v" "file_ok sb R v di" and al: "abs_balloc sb v = Some (b, v1)"
    and k: "k \<le> MAXFILE" "file_block v di k = 0"
    and di2: "di2 = di\<lparr>di_addrs := di_addrs di2\<rparr>" "length (di_addrs di2) = NDIRECT + 1"
    and fb2: "\<And>j. j \<le> MAXFILE \<Longrightarrow> file_block v2 di2 j = (if j = k then b else file_block v di j)"
    and v2: "\<And>n. n \<noteq> file_block v di MAXFILE \<or> n = 0 \<Longrightarrow> v2 n = v1 n"
      "file_block v di MAXFILE \<noteq> 0 \<Longrightarrow> length (v2 (file_block v di MAXFILE)) = BSIZE"
  shows "grown sb R v di v2 di2"
proof -
  let ?ind = "file_block v di MAXFILE"
  note d = disk_okD [OF ok(1)] and b = abs_balloc_SomeD [OF disk_okD(1) [OF ok(1)] al] and ak = alloc_keeps [OF ok al]
  note d1 = disk_okD [OF ak(6)]
  have ind: "?ind = 0 \<or> (?ind < s_size sb \<and> \<not> block_free sb v ?ind \<and> ?ind \<notin> bitmap_blocks sb \<and> ?ind \<notin> R \<and> ?ind \<noteq> b)"
    using file_okD [OF ok(2), of MAXFILE] ak(3) [of MAXFILE] by auto
  have out: "v2 n = v1 n" if "n \<in> bitmap_blocks sb \<or> n \<in> R" for n using v2(1) [of n] ind that by auto
  have bf: "block_free sb v2 c = block_free sb v1 c" if "c < s_size sb" for c
    using that out by (intro block_free_same) auto
  have size: "0 < s_size sb" using ok(1) by (simp add: disk_ok_def)
  have "length (v2 n) = BSIZE \<and> n < s_size sb \<and> \<not> block_free sb v2 n" if "n \<in> bitmap_blocks sb" for n
    using d1(1) that out [of n] bf [of n] by (auto simp: bitmap_ok_def)
  then have disk2: "disk_ok sb R v2"
    using ak(6) out bf size unfolding disk_ok_def bitmap_ok_def by auto
  have v2b: "v2 b = replicate BSIZE 0" using v2(1) [of b] ind ak(1) b(5) by auto
  have blk: "file_block v di j < s_size sb" "\<not> block_free sb v2 (file_block v di j)" "file_block v di j \<notin> bitmap_blocks sb"
    "file_block v di j \<notin> R" "length (v2 (file_block v di j)) = BSIZE" if "j \<le> MAXFILE" "file_block v di j \<noteq> 0" for j
  proof -
    note f = file_okD [OF ok(2) that]
    show "file_block v di j < s_size sb" "file_block v di j \<notin> bitmap_blocks sb" "file_block v di j \<notin> R" by (fact f)+
    show "\<not> block_free sb v2 (file_block v di j)" using bf [OF f(1)] b(7) [OF f(1)] f(2) by simp
    show "length (v2 (file_block v di j)) = BSIZE"
      using v2(1) [of "file_block v di j"] v2(2) ak(5) [OF f(1-3)] f(5) that by (cases "file_block v di j = ?ind") auto
  qed
  have bok: "b < s_size sb" "\<not> block_free sb v2 b" "b \<notin> bitmap_blocks sb" "length (v2 b) = BSIZE"
    using b(1,4) bf [OF b(1)] b(7) [OF b(1)] v2b by simp_all
  have file2: "file_ok sb R v2 di2"
    unfolding file_ok_def Let_def
  proof (intro conjI allI impI di2(2))
    fix j assume j: "j \<le> MAXFILE" "file_block v2 di2 j \<noteq> 0"
    show "file_block v2 di2 j < s_size sb" "\<not> block_free sb v2 (file_block v2 di2 j)"
      "file_block v2 di2 j \<notin> bitmap_blocks sb" "file_block v2 di2 j \<notin> R" "length (v2 (file_block v2 di2 j)) = BSIZE"
      using j blk [of j] bok ak(2) fb2 [OF j(1)] by (auto split: if_splits)
  next
    fix j l assume "j \<le> MAXFILE" "l \<le> MAXFILE" "file_block v2 di2 j \<noteq> 0" "file_block v2 di2 j = file_block v2 di2 l"
    then show "j = l" using ak(3) file_ok_inj [OF ok(2)] fb2 by (metis (full_types))
  qed
  have byte: "file_byte v2 di2 off = file_byte v di off" if off: "off < MAXFILE * BSIZE" for off
  proof (cases "off div BSIZE = k")
    case True
    then show ?thesis using fb2 [of k] k v2b ak(1) by (simp add: file_byte_def)
  next
    case False
    have l: "off div BSIZE < MAXFILE" using off by (simp add: div_less_iff_less_mult)
    show ?thesis
    proof (rule file_byte_cong)
      show "file_block v2 di2 (off div BSIZE) = file_block v di (off div BSIZE)" using fb2 False l by simp
      assume ne: "file_block v di (off div BSIZE) \<noteq> 0"
      then have "file_block v di (off div BSIZE) \<noteq> ?ind" using file_ok_inj [OF ok(2), of "off div BSIZE" MAXFILE] l by auto
      then show "v2 (file_block v di (off div BSIZE)) = v (file_block v di (off div BSIZE))"
        using v2(1) ak(5) file_okD [OF ok(2) _ ne] l by simp
    qed
  qed
  have other: "v2 n = v n" if "n < s_size sb" "\<not> block_free sb v n" "n \<notin> bitmap_blocks sb" "\<forall>j \<le> MAXFILE. n \<noteq> file_block v di j" for n
    using v2(1) [of n] ak(5) [OF that(1-3)] that(4) by auto
  show ?thesis
    unfolding grown_def extends_def using disk2 file2 di2(1) byte other fb2 k b(2,7) bf by auto
qed

section \<open>Finding the block of an offset\<close>

definition inode_at :: "inode list \<Rightarrow> nat \<Rightarrow> dinode \<Rightarrow> bool" where
  "inode_at T i di \<longleftrightarrow> i < length T \<and> i_dev (T ! i) = ROOTDEV \<and> i_copy (T ! i) = di"

definition put_copy :: "inode list \<Rightarrow> nat \<Rightarrow> dinode \<Rightarrow> inode list" where
  "put_copy T i di = T[i := (T ! i)\<lparr>i_copy := di\<rparr>]"

lemma inode_at_put [simp]: "inode_at T i di \<Longrightarrow> inode_at (put_copy T i di') i di'"
  by (simp add: inode_at_def put_copy_def)

lemma put_copy_id [simp]: "inode_at T i di \<Longrightarrow> put_copy T i di = T"
  by (auto simp: inode_at_def put_copy_def intro: list_update_same_conv [THEN iffD2])

lemma put_copy_twice [simp]: "put_copy (put_copy T i di) i di' = put_copy T i di'"
  by (cases "i < length T") (simp_all add: put_copy_def not_less list_update_beyond)

lemma i_copy_update_eq: "i_copy_update f x = x\<lparr>i_copy := f (i_copy x)\<rparr>"
  by (cases x) simp

lemma tx_set_copy:
  assumes "tx e T v H q s" "inode_at T i di"
  shows "runs (set_copy i f) s (\<lambda>_ s'. tx e (put_copy T i (f di)) v H q s')"
  using assms by (simp add: set_copy_def set_slot_def put_copy_def inode_at_def tx_def i_copy_update_eq [of f])

lemma tx_slot: "tx e T v H q s \<Longrightarrow> inode_at T i di \<Longrightarrow> i_dev (slot_of i s) = ROOTDEV \<and> i_copy (slot_of i s) = di"
  using tx_fields [of e T v H q s] by (simp add: slot_of_def inode_at_def)

lemma runs_buf_upd:
  "runs (andthen (buf_upd b f) (\<lambda>_. andthen (fs_log_write b) g)) s Q
   \<longleftrightarrow> runs (andthen (put_block b (f (b_data (bufs (f_cache s) b)))) g) s Q"
  by (simp add: buf_upd_def buf_data_def put_block_def)

lemma runs_if: "(c \<Longrightarrow> runs m s Q) \<Longrightarrow> (\<not> c \<Longrightarrow> runs m' s Q) \<Longrightarrow> runs (if c then m else m') s Q"
  by simp

lemma tx_balloc_free:
  assumes t: "tx e T v H (q + 2) s" and ok: "disk_ok (e_sb e) R v" and H: "card (dom H) < 4"
    "\<forall>n \<in> dom H. n < s_size (e_sb e) \<and> \<not> block_free (e_sb e) v n \<and> n \<notin> bitmap_blocks (e_sb e)"
  shows "runs (balloc ROOTDEV) s (\<lambda>r s'.
     (r = 0 \<and> tx e T v H (q + 2) s' \<and> (\<forall>b < s_size (e_sb e). \<not> block_free (e_sb e) v b))
   \<or> (\<exists>v1. abs_balloc (e_sb e) v = Some (r, v1) \<and> tx e T v1 H q s'))"
proof -
  have "\<forall>b < s_size (e_sb e). BBLOCK b (e_sb e) \<notin> dom H" using H(2) BBLOCK_in by blast
  then show ?thesis
    by (rule runs_mono [OF tx_balloc [OF t H(1)]])
      (use H(2) abs_balloc_None [of "e_sb e" v] in \<open>auto split: option.splits\<close>)
qed

text \<open>Both pointers of the inode itself are filled in the same way.\<close>

lemma tx_own_block:
  assumes t: "tx e T v (\<lambda>_. None) (q + 2) s" and ok: "disk_ok (e_sb e) R v" "file_ok (e_sb e) R v di"
    and i: "inode_at T i di" and p: "p \<le> NDIRECT" "k = (if p = NDIRECT then MAXFILE else p)" "di_addrs di ! p = 0"
  shows "runs (andthen (balloc ROOTDEV) (\<lambda>addr. if addr = 0 then ret 0 else andthen (set_addr i p addr) (\<lambda>_. ret addr))) s
    (\<lambda>addr s'. (addr = 0 \<and> tx e T v (\<lambda>_. None) q s' \<and> (\<forall>b < s_size (e_sb e). \<not> block_free (e_sb e) v b))
      \<or> (\<exists>v' di'. addr \<noteq> 0 \<and> grown (e_sb e) R v di v' di' \<and> tx e (put_copy T i di') v' (\<lambda>_. None) q s'
           \<and> file_block v' di' k = addr \<and> di_addrs di' ! p = addr
           \<and> (p = NDIRECT \<longrightarrow> v' addr = replicate BSIZE 0)))"
proof (rule runs_then [OF tx_balloc_free [OF t ok(1)]])
  fix addr s1
  let ?done = "\<lambda>addr s'. (addr = 0 \<and> tx e T v (\<lambda>_. None) q s' \<and> (\<forall>b < s_size (e_sb e). \<not> block_free (e_sb e) v b))
      \<or> (\<exists>v' di'. addr \<noteq> 0 \<and> grown (e_sb e) R v di v' di' \<and> tx e (put_copy T i di') v' (\<lambda>_. None) q s'
           \<and> file_block v' di' k = addr \<and> di_addrs di' ! p = addr \<and> (p = NDIRECT \<longrightarrow> v' addr = replicate BSIZE 0))"
  assume "(addr = 0 \<and> tx e T v (\<lambda>_. None) (q + 2) s1 \<and> (\<forall>b < s_size (e_sb e). \<not> block_free (e_sb e) v b))
    \<or> (\<exists>v1. abs_balloc (e_sb e) v = Some (addr, v1) \<and> tx e T v1 (\<lambda>_. None) q s1)"
  then show "runs (if addr = 0 then ret 0 else andthen (set_addr i p addr) (\<lambda>_. ret addr)) s1 ?done"
  proof (elim disjE exE conjE)
    assume "addr = 0" "tx e T v (\<lambda>_. None) (q + 2) s1" "\<forall>b < s_size (e_sb e). \<not> block_free (e_sb e) v b"
    then show ?thesis using tx_less [of e T v _ "q + 2" s1 q] by simp
  next
    fix v1 assume al: "abs_balloc (e_sb e) v = Some (addr, v1)" and t1: "tx e T v1 (\<lambda>_. None) q s1"
    let ?di = "di\<lparr>di_addrs := (di_addrs di)[p := addr]\<rparr>"
    note ak = alloc_keeps [OF ok al]
    have len: "length (di_addrs di) = NDIRECT + 1" using ok(2) by (simp add: file_ok_def)
    have zero: "v1 addr = replicate BSIZE 0" using abs_balloc_SomeD(5) [OF disk_okD(1) [OF ok(1)] al] .
    have k: "k \<le> MAXFILE" using p by auto
    have fk: "file_block v di k = 0" using p by (auto simp: file_block_def)
    have fb: "file_block v1 ?di j = (if j = k then addr else file_block v di j)" if "j \<le> MAXFILE" for j
      using ak(1) ak(4) [of j] p len zero that by (auto simp: file_block_def nth_list_update split: if_splits)
    have indlen: "length (v1 (file_block v di MAXFILE)) = BSIZE" if "file_block v di MAXFILE \<noteq> 0"
      using file_okD(5) [OF ak(7), of MAXFILE] that ak(4) by simp
    have g: "grown (e_sb e) R v di v1 ?di"
      by (rule alloc_add [OF ok al k fk]) (use len fb indlen in simp_all)
    have "runs (set_addr i p addr) s1 (\<lambda>_ s'. tx e (put_copy T i ?di) v1 (\<lambda>_. None) q s')"
      unfolding set_addr_def using tx_set_copy [OF t1 i] .
    then have "runs (andthen (set_addr i p addr) (\<lambda>_. ret addr)) s1 ?done"
      by (rule runs_then) (use ak(1) g fb [OF k] p len zero in \<open>auto intro!: exI [of _ v1] exI [of _ ?di]\<close>)
    then show ?thesis using ak(1) by simp
  qed
qed simp_all

lemma file_block_indirect:
  "NDIRECT \<le> bn \<Longrightarrow> bn < MAXFILE \<Longrightarrow> di_addrs di ! NDIRECT \<noteq> 0 \<Longrightarrow>
   file_block v di bn = get32 (bn - NDIRECT) (v (di_addrs di ! NDIRECT))"
  by (simp add: file_block_def)

lemma tx_bmap_found:
  assumes t: "tx e T v (\<lambda>_. None) q s" and ok: "file_ok (e_sb e) R v di"
    and i: "inode_at T i di" and bn: "bn < MAXFILE" "file_block v di bn \<noteq> 0"
  shows "runs (bmap i bn) s (\<lambda>addr s'. addr = file_block v di bn \<and> tx e T v (\<lambda>_. None) q s')"
proof (cases "bn < NDIRECT")
  case True
  then show ?thesis using tx_slot [OF t i] t bn(2) by (simp add: bmap_def file_block_def)
next
  case False
  then have r: "bn - NDIRECT < NINDIRECT" "\<not> bn < NDIRECT" using bn(1) by simp_all
  let ?ind = "di_addrs di ! NDIRECT"
  have ind: "?ind \<noteq> 0" using bn False by (auto simp: file_block_def split: if_splits)
  have fb: "file_block v di bn = get32 (bn - NDIRECT) (v ?ind)" using r(2) bn(1) ind by (intro file_block_indirect) simp_all
  have "runs (andthen (fs_bread ROOTDEV ?ind) (\<lambda>bp. andthen (fs_brelse bp) (\<lambda>_. ret (file_block v di bn)))) s
      (\<lambda>addr s'. addr = file_block v di bn \<and> tx e T v (\<lambda>_. None) q s')"
  proof (rule runs_then [OF tx_bread [OF t]])
    fix bp s1 assume t1: "tx e T v ((\<lambda>_. None)(?ind \<mapsto> bp)) q s1"
    show "runs (andthen (fs_brelse bp) (\<lambda>_. ret (file_block v di bn))) s1 (\<lambda>addr s'. addr = file_block v di bn \<and> tx e T v (\<lambda>_. None) q s')"
      using runs_then [OF tx_brelse [OF t1, of ?ind bp], of "\<lambda>_. ret (file_block v di bn)"] by simp
  qed simp_all
  moreover have "runs (fs_bread ROOTDEV ?ind) s (\<lambda>bp s1. b_data (bufs (f_cache s1) bp) = v ?ind)"
    by (rule runs_mono [OF tx_bread [OF t]]) (auto dest: tx_data [where n = ?ind])
  ultimately show ?thesis
    using tx_slot [OF t i] r ind bn(2) unfolding bmap_def
    by (auto simp: runs_def andthen_def gets_def ret_def buf_data_def fb split: prod.splits)
qed

text \<open>The part of \<open>bmap\<close> that looks into the indirect block, with that block in a buffer.\<close>

definition indirect_part :: "nat \<Rightarrow> nat \<Rightarrow> nat fsm" where
  "indirect_part ind m =
     andthen (fs_bread ROOTDEV ind) (\<lambda>bp. andthen (buf_data bp) (\<lambda>a.
       andthen (if get32 m a = 0 then
                  andthen (balloc ROOTDEV) (\<lambda>addr.
                    if addr = 0 then ret 0
                    else andthen (buf_upd bp (put_bytes (4 * m) (enc_le 4 (int addr)))) (\<lambda>_.
                         andthen (fs_log_write bp) (\<lambda>_. ret addr)))
                else ret (get32 m a)) (\<lambda>addr.
       andthen (fs_brelse bp) (\<lambda>_. ret addr))))"

lemma tx_indirect:
  assumes t: "tx e T v (\<lambda>_. None) (q + 3) s" and ok: "disk_ok (e_sb e) R v" "file_ok (e_sb e) R v di"
    and bn: "NDIRECT \<le> bn" "bn < MAXFILE" and ind: "di_addrs di ! NDIRECT = ind" "ind \<noteq> 0"
    and zero: "file_block v di bn = 0"
  shows "runs (indirect_part ind (bn - NDIRECT)) s (\<lambda>addr s'. \<exists>v'. grown (e_sb e) R v di v' di
      \<and> tx e T v' (\<lambda>_. None) q s' \<and> (addr = 0 \<longrightarrow> (\<forall>b < s_size (e_sb e). \<not> block_free (e_sb e) v' b))
      \<and> addr = file_block v' di bn)"
  unfolding indirect_part_def
proof (rule runs_then [OF tx_bread [OF t]])
  let ?m = "bn - NDIRECT" and ?H = "\<lambda>bp. (\<lambda>_. None)(ind \<mapsto> bp)"
  let ?done = "\<lambda>addr s'. \<exists>v'. grown (e_sb e) R v di v' di \<and> tx e T v' (\<lambda>_. None) q s'
      \<and> (addr = 0 \<longrightarrow> (\<forall>b < s_size (e_sb e). \<not> block_free (e_sb e) v' b)) \<and> addr = file_block v' di bn"
  fix bp s1 assume t1: "tx e T v (?H bp) (q + 3) s1"
  have fb: "file_block v di bn = get32 ?m (v ind)" using file_block_indirect [of bn di v] bn ind by simp
  note fi = file_okD [OF ok(2), of MAXFILE, unfolded indirect_block ind(1), OF order.refl ind(2)]
  have d: "b_data (bufs (f_cache s1) bp) = v ind" using tx_data [OF t1, of ind] by simp
  have rel: "runs (andthen (fs_brelse bp) (\<lambda>_. ret addr)) s2 ?done"
    if "tx e T v' (?H bp) q s2" "grown (e_sb e) R v di v' di" "addr = file_block v' di bn"
      "addr = 0 \<longrightarrow> (\<forall>b < s_size (e_sb e). \<not> block_free (e_sb e) v' b)" for addr s2 v'
    by (rule runs_then [OF tx_brelse [OF that(1), of ind bp]]) (use that(2-4) in auto)
  have t1': "tx e T v (?H bp) (Suc q + 2) s1" using t1 by (simp add: numeral_3_eq_3)
  have "runs (andthen (balloc ROOTDEV) (\<lambda>addr. andthen (if addr = 0 then ret 0
          else andthen (buf_upd bp (put_bytes (4 * ?m) (enc_le 4 (int addr)))) (\<lambda>_. andthen (fs_log_write bp) (\<lambda>_. ret addr)))
        (\<lambda>addr. andthen (fs_brelse bp) (\<lambda>_. ret addr)))) s1 ?done"
  proof (rule runs_then [OF tx_balloc_free [OF t1' ok(1)]])
    fix addr s2
    assume "(addr = 0 \<and> tx e T v (?H bp) (Suc q + 2) s2 \<and> (\<forall>b < s_size (e_sb e). \<not> block_free (e_sb e) v b))
      \<or> (\<exists>v1. abs_balloc (e_sb e) v = Some (addr, v1) \<and> tx e T v1 (?H bp) (Suc q) s2)"
    then show "runs (andthen (if addr = 0 then ret 0
          else andthen (buf_upd bp (put_bytes (4 * ?m) (enc_le 4 (int addr)))) (\<lambda>_. andthen (fs_log_write bp) (\<lambda>_. ret addr)))
        (\<lambda>addr. andthen (fs_brelse bp) (\<lambda>_. ret addr))) s2 ?done"
    proof (elim disjE exE conjE)
      assume a: "addr = 0" "tx e T v (?H bp) (Suc q + 2) s2" "\<forall>b < s_size (e_sb e). \<not> block_free (e_sb e) v b"
      show ?thesis using rel [OF tx_less [OF a(2)] grown_refl [OF ok]] a(1,3) zero by simp
    next
      fix v1 assume al: "abs_balloc (e_sb e) v = Some (addr, v1)" and t2: "tx e T v1 (?H bp) (Suc q) s2"
      note ak = alloc_keeps [OF ok al]
      let ?v2 = "v1(ind := put_bytes (4 * ?m) (enc_le 4 (int addr)) (v1 ind))"
      have v1: "v1 ind = v ind" using ak(5) [OF fi(1-3)] .
      have len: "4 * ?m + 4 \<le> length (v ind)" using fi(5) bn by simp
      have a32: "addr < 2 ^ 32" using abs_balloc_SomeD(1) [OF disk_okD(1) [OF ok(1)] al] disk_okD(3) [OF ok(1)] by simp
      have fb2: "file_block ?v2 di j = (if j = bn then addr else file_block v di j)" if "j \<le> MAXFILE" for j
        using get32_put_same [OF len a32] get32_put_other [OF len, of "j - NDIRECT"] v1 bn ind that
        by (auto simp: file_block_def)
      have g: "grown (e_sb e) R v di ?v2 di"
      proof (rule alloc_add [OF ok al _ zero _ _ fb2])
        fix n assume "n \<noteq> file_block v di MAXFILE \<or> n = 0"
        then show "?v2 n = v1 n" using ind by (auto simp: indirect_block)
      qed (use bn ok(2) fi(5) v1 len ind in \<open>auto simp: file_ok_def indirect_block\<close>)
      have d2: "b_data (bufs (f_cache s2) bp) = v1 ind" using tx_data [OF t2, of ind] by simp
      have "runs (put_block bp (put_bytes (4 * ?m) (enc_le 4 (int addr)) (v1 ind))) s2 (\<lambda>_ s'. tx e T ?v2 (?H bp) q s')"
        using t2 by (intro tx_put) simp_all
      then have "runs (andthen (put_block bp (put_bytes (4 * ?m) (enc_le 4 (int addr)) (v1 ind)))
          (\<lambda>_. andthen (fs_brelse bp) (\<lambda>_. ret addr))) s2 ?done"
        by (rule runs_then) (rule rel [OF _ g]; use fb2 [of bn] bn ak(1) in simp)
      then show ?thesis using ak(1) by (simp add: runs_buf_upd d2)
    qed
  qed (use fi in auto)
  then show "runs (andthen (buf_data bp) (\<lambda>a. andthen (if get32 ?m a = 0 then
                  andthen (balloc ROOTDEV) (\<lambda>addr. if addr = 0 then ret 0
                    else andthen (buf_upd bp (put_bytes (4 * ?m) (enc_le 4 (int addr)))) (\<lambda>_.
                         andthen (fs_log_write bp) (\<lambda>_. ret addr)))
                else ret (get32 ?m a)) (\<lambda>addr. andthen (fs_brelse bp) (\<lambda>_. ret addr)))) s1 ?done"
    using zero fb by (simp add: buf_data_def d)
qed simp_all

lemma grown_file: "grown sb R v di v' di' \<Longrightarrow> disk_ok sb R v' \<and> file_ok sb R v' di'"
  by (auto simp: grown_def dest: extends_ok)

lemma bmap_direct:
  assumes "tx e T v H q s" "inode_at T i di" "bn < NDIRECT" "di_addrs di ! bn = 0"
  shows "runs (bmap i bn) s Q \<longleftrightarrow> runs (andthen (balloc ROOTDEV) (\<lambda>addr.
     if addr = 0 then ret 0 else andthen (set_addr i bn addr) (\<lambda>_. ret addr))) s Q"
  using tx_slot [OF assms(1,2)] assms(3,4) by (simp add: bmap_def)

lemma bmap_indirect:
  assumes "tx e T v H q s" "inode_at T i di" "NDIRECT \<le> bn" "bn < MAXFILE"
  shows "runs (bmap i bn) s Q \<longleftrightarrow> runs (andthen (if di_addrs di ! NDIRECT = 0
      then andthen (balloc ROOTDEV) (\<lambda>addr. if addr = 0 then ret 0 else andthen (set_addr i NDIRECT addr) (\<lambda>_. ret addr))
      else ret (di_addrs di ! NDIRECT)) (\<lambda>ind. if ind = 0 then ret 0 else indirect_part ind (bn - NDIRECT))) s Q"
proof -
  have "i_dev (slot_of i s) = ROOTDEV" "i_copy (slot_of i s) = di" using tx_slot [OF assms(1,2)] by simp_all
  moreover have "(bn < NDIRECT) = False" "(bn - NDIRECT < NINDIRECT) = True" using assms(3,4) by auto
  ultimately show ?thesis by (simp only: bmap_def indirect_part_def runs_gets_then if_True if_False)
qed

lemma tx_bmap:
  assumes t: "tx e T v (\<lambda>_. None) (q + 5) s" and ok: "disk_ok (e_sb e) R v" "file_ok (e_sb e) R v di"
    and i: "inode_at T i di" and bn: "bn < MAXFILE"
  shows "runs (bmap i bn) s (\<lambda>addr s'. \<exists>v' di'. grown (e_sb e) R v di v' di'
      \<and> tx e (put_copy T i di') v' (\<lambda>_. None) q s' \<and> addr = file_block v' di' bn
      \<and> (addr = 0 \<longrightarrow> (\<forall>b < s_size (e_sb e). \<not> block_free (e_sb e) v' b)))"
    (is "runs _ _ ?done")
proof (cases "file_block v di bn = 0")
  case False
  from tx_bmap_found [OF t ok(2) i bn False] show ?thesis
    by (rule runs_mono) (use False grown_refl [OF ok] i in \<open>auto intro!: exI [of _ v] exI [of _ di] dest: tx_less [where q' = q]\<close>)
next
  case True
  have t5: "tx e T v (\<lambda>_. None) ((q + 3) + 2) s" by (rule tx_less [OF t]) simp
  show ?thesis
  proof (cases "bn < NDIRECT")
    case direct: True
    then have z: "di_addrs di ! bn = 0" using True by (simp add: file_block_def)
    have fbz: "file_block v di bn = 0" by (rule True)
    have k: "bn \<le> NDIRECT" "bn = (if bn = NDIRECT then MAXFILE else bn)" using direct by simp_all
    have less: "tx e T' v' (\<lambda>_. None) q s'" if "tx e T' v' (\<lambda>_. None) (q + 3) s'" for T' v' s'
      by (rule tx_less [OF that]) simp
    show ?thesis
      unfolding bmap_direct [OF t i direct z]
    proof (rule runs_mono [OF tx_own_block [OF t5 ok i k z]], elim disjE exE conjE)
      fix addr :: nat and s'
      assume "addr = 0" "tx e T v (\<lambda>_. None) (q + 3) s'" "\<forall>b < s_size (e_sb e). \<not> block_free (e_sb e) v b"
      then show "?done addr s'" using less grown_refl [OF ok] fbz i by (intro exI [of _ v] exI [of _ di]) simp
    next
      fix addr s' v' di'
      assume "addr \<noteq> 0" "grown (e_sb e) R v di v' di'" "tx e (put_copy T i di') v' (\<lambda>_. None) (q + 3) s'"
        "file_block v' di' bn = addr"
      then show "?done addr s'" using less by (intro exI [of _ v'] exI [of _ di']) simp
    qed
  next
    case False
    let ?ind = "di_addrs di ! NDIRECT"
    have bn': "NDIRECT \<le> bn" using False by simp
    have rest: "runs (indirect_part ind (bn - NDIRECT)) s1 ?done"
      if "tx e (put_copy T i di1) v1 (\<lambda>_. None) (q + 3) s1" "grown (e_sb e) R v di v1 di1" "di_addrs di1 ! NDIRECT = ind" "ind \<noteq> 0"
        "file_block v1 di1 bn = 0" for ind s1 v1 di1
    proof -
      have ok1: "disk_ok (e_sb e) R v1" "file_ok (e_sb e) R v1 di1" using grown_file [OF that(2)] by simp_all
      from tx_indirect [OF that(1) ok1 bn' bn that(3-5)] show ?thesis
      proof (rule runs_mono, elim exE conjE)
        fix addr s' v'
        assume "grown (e_sb e) R v1 di1 v' di1" "tx e (put_copy T i di1) v' (\<lambda>_. None) q s'"
          "addr = 0 \<longrightarrow> (\<forall>b < s_size (e_sb e). \<not> block_free (e_sb e) v' b)" "addr = file_block v' di1 bn"
        then show "?done addr s'"
          by (intro exI [of _ v'] exI [of _ di1] conjI grown_trans [OF that(2)])
      qed
    qed
    show ?thesis
      unfolding bmap_indirect [OF t i bn' bn]
    proof (cases "?ind = 0")
      case ind0: False
      have "tx e (put_copy T i di) v (\<lambda>_. None) (q + 3) s" using t5 i tx_less [OF t5, of "q + 3"] by simp
      from rest [OF this grown_refl [OF ok] refl ind0 True] ind0
      show "runs (andthen (if ?ind = 0 then andthen (balloc ROOTDEV) (\<lambda>addr. if addr = 0 then ret 0 else andthen (set_addr i NDIRECT addr) (\<lambda>_. ret addr))
        else ret ?ind) (\<lambda>ind. if ind = 0 then ret 0 else indirect_part ind (bn - NDIRECT))) s ?done" by simp
    next
      case ind0: True
      have "runs (andthen (andthen (balloc ROOTDEV) (\<lambda>addr. if addr = 0 then ret 0 else andthen (set_addr i NDIRECT addr) (\<lambda>_. ret addr)))
          (\<lambda>ind. if ind = 0 then ret 0 else indirect_part ind (bn - NDIRECT))) s ?done"
      proof (rule runs_then [OF tx_own_block [OF t5 ok i order.refl refl ind0]])
        fix addr s1
        assume "(addr = 0 \<and> tx e T v (\<lambda>_. None) (q + 3) s1 \<and> (\<forall>b < s_size (e_sb e). \<not> block_free (e_sb e) v b))
          \<or> (\<exists>v' di'. addr \<noteq> 0 \<and> grown (e_sb e) R v di v' di' \<and> tx e (put_copy T i di') v' (\<lambda>_. None) (q + 3) s1
             \<and> file_block v' di' (if NDIRECT = NDIRECT then MAXFILE else NDIRECT) = addr \<and> di_addrs di' ! NDIRECT = addr
             \<and> (NDIRECT = NDIRECT \<longrightarrow> v' addr = replicate BSIZE 0))"
        then show "runs (if addr = 0 then ret 0 else indirect_part addr (bn - NDIRECT)) s1 ?done"
        proof (elim disjE exE conjE)
          assume a: "addr = 0" "tx e T v (\<lambda>_. None) (q + 3) s1" "\<forall>b < s_size (e_sb e). \<not> block_free (e_sb e) v b"
          show ?thesis
            using a(1,3) tx_less [OF a(2), of q] True i grown_refl [OF ok] by (auto intro!: exI [of _ v] exI [of _ di])
        next
          fix v' di' assume a: "addr \<noteq> 0" "grown (e_sb e) R v di v' di'" "tx e (put_copy T i di') v' (\<lambda>_. None) (q + 3) s1"
            "di_addrs di' ! NDIRECT = addr" "NDIRECT = NDIRECT \<longrightarrow> v' addr = replicate BSIZE 0"
          have "file_block v' di' bn = 0" using a(1,4,5) bn bn' by (simp add: file_block_def)
          from rest [OF a(3,2,4,1) this] show ?thesis using a(1) by simp
        qed
      qed
      then show "runs (andthen (if ?ind = 0 then andthen (balloc ROOTDEV) (\<lambda>addr. if addr = 0 then ret 0 else andthen (set_addr i NDIRECT addr) (\<lambda>_. ret addr))
        else ret ?ind) (\<lambda>ind. if ind = 0 then ret 0 else indirect_part ind (bn - NDIRECT))) s ?done" using ind0 by simp
    qed
  qed
qed

end
