(* ===== verification/Fs_Data.thy ===== *)
theory Fs_Data
  imports Fs_Files
begin

text \<open>
  The contents of a file inside a transaction: \<open>writei\<close> puts bytes at an offset, and only there, and \<open>readi\<close>
  gets them back. The room a write needs in the log is counted as six blocks for every block it touches
  (two of the bitmap and two new ones, the indirect block, the data) and one for the inode.
\<close>

section \<open>Reading\<close>

lemma slice_bytes:
  assumes "file_block v di (off div BSIZE) \<noteq> 0" "m \<le> BSIZE - off mod BSIZE" "length (v (file_block v di (off div BSIZE))) = BSIZE"
  shows "take m (drop (off mod BSIZE) (v (file_block v di (off div BSIZE)))) = map (file_byte v di) [off..<off + m]"
proof (rule nth_equalityI)
  have r: "off mod BSIZE < BSIZE" by simp
  fix j assume "j < length (take m (drop (off mod BSIZE) (v (file_block v di (off div BSIZE)))))"
  then have j: "j < m" by simp
  then have s: "off mod BSIZE + j < BSIZE" using assms(2) r by simp
  have "off + j = off div BSIZE * BSIZE + (off mod BSIZE + j)" by simp
  then have "(off + j) div BSIZE = off div BSIZE" "(off + j) mod BSIZE = off mod BSIZE + j"
    using s by (metis div_mult_self3 div_less add.right_neutral zero_neq_numeral, metis mod_mult_self3 mod_less)
  then show "take m (drop (off mod BSIZE) (v (file_block v di (off div BSIZE)))) ! j = map (file_byte v di) [off..<off + m] ! j"
    using assms j s by (simp add: file_byte_def)
qed (use assms(2,3) in simp)

lemma div_less_MAXFILE: "off < MAXFILE * BSIZE \<Longrightarrow> off div BSIZE < MAXFILE"
  by (simp add: div_less_iff_less_mult)

lemma tx_readi_from:
  assumes "tx e T v (\<lambda>_. None) q s" "file_ok (e_sb e) R v di" "inode_at T i di" "tot \<le> n"
    "off + (n - tot) \<le> MAXFILE * BSIZE" "\<forall>k. off \<le> k \<and> k < off + (n - tot) \<longrightarrow> file_block v di (k div BSIZE) \<noteq> 0"
  shows "runs (readi_from i (\<lambda>_ _. True) off tot n) s (\<lambda>(r, bs) s'. r = int n
      \<and> bs = map (file_byte v di) [off..<off + (n - tot)] \<and> tx e T v (\<lambda>_. None) q s')"
  using assms
proof (induction "n - tot" arbitrary: off tot s rule: less_induct)
  case less
  show ?case
  proof (cases "tot < n")
    case False
    then show ?thesis using less.prems by (subst readi_from.simps) simp
  next
    case True
    let ?bn = "off div BSIZE" and ?m = "min (n - tot) (BSIZE - off mod BSIZE)"
    let ?addr = "file_block v di ?bn"
    have m: "0 < ?m" "?m \<le> n - tot" "?m \<le> BSIZE - off mod BSIZE" using True by simp_all
    have bn: "?bn < MAXFILE" using less.prems(5) True by (intro div_less_MAXFILE) simp
    have addr: "?addr \<noteq> 0" using less.prems(6) True by auto
    have len: "length (v ?addr) = BSIZE" using file_okD(5) [OF less.prems(2) _ addr] bn by simp
    have bs: "take ?m (drop (off mod BSIZE) (v ?addr)) = map (file_byte v di) [off..<off + ?m]"
      by (rule slice_bytes [OF addr m(3) len])
    have rest: "runs (readi_from i (\<lambda>_ _. True) (off + ?m) (tot + ?m) n) s' (\<lambda>(r, bs) s'. r = int n
        \<and> bs = map (file_byte v di) [off + ?m..<off + ?m + (n - (tot + ?m))] \<and> tx e T v (\<lambda>_. None) q s')"
      if "tx e T v (\<lambda>_. None) q s'" for s'
      by (rule less.hyps) (use m True that less.prems in \<open>auto\<close>)
    have join: "[off..<off + ?m] @ [off + ?m..<off + ?m + (n - (tot + ?m))] = [off..<off + (n - tot)]"
    proof -
      have e: "off + k + (n - (tot + k)) = off + (n - tot)" if "k \<le> n - tot" for k using that by simp
      show ?thesis
        using upt_add_eq_append [of off "off + ?m" "n - (tot + ?m)"] unfolding e [OF m(2)] by (simp only: le_add1)
    qed
    show ?thesis
      unfolding readi_from.simps [of i _ off tot n] Let_def if_P [OF True]
    proof (rule runs_then [OF tx_bmap_found [OF less.prems(1-3) bn addr]])
      fix a s1 assume "a = ?addr \<and> tx e T v (\<lambda>_. None) q s1"
      then have a: "a = ?addr" and t1: "tx e T v (\<lambda>_. None) q s1" by simp_all
      have dev: "i_dev (slot_of i s1) = ROOTDEV" using tx_slot [OF t1 less.prems(3)] by simp
      have "runs (andthen (fs_bread ROOTDEV ?addr) (\<lambda>bp. andthen (buf_data bp) (\<lambda>d.
             andthen (fs_brelse bp) (\<lambda>_. andthen (readi_from i (\<lambda>_ _. True) (off + ?m) (tot + ?m) n)
                    (\<lambda>(r, more). ret (r, take ?m (drop (off mod BSIZE) d) @ more)))))) s1
          (\<lambda>(r, bs) s'. r = int n \<and> bs = map (file_byte v di) [off..<off + (n - tot)] \<and> tx e T v (\<lambda>_. None) q s')"
      proof (rule runs_then [OF tx_bread [OF t1]])
        fix bp s2 assume t2: "tx e T v ((\<lambda>_. None)(?addr \<mapsto> bp)) q s2"
        have "runs (fs_brelse bp) s2 (\<lambda>_ s'. tx e T v (\<lambda>_. None) q s')" using tx_brelse [OF t2, of ?addr bp] by simp
        then have "runs (andthen (fs_brelse bp) (\<lambda>_. andthen (readi_from i (\<lambda>_ _. True) (off + ?m) (tot + ?m) n)
                    (\<lambda>(r, more). ret (r, map (file_byte v di) [off..<off + ?m] @ more)))) s2
          (\<lambda>(r, bs) s'. r = int n \<and> bs = map (file_byte v di) [off..<off + (n - tot)] \<and> tx e T v (\<lambda>_. None) q s')"
          by (rule runs_then) (rule runs_then [OF rest], assumption, use join in \<open>auto simp flip: map_append\<close>)
        then show "runs (andthen (buf_data bp) (\<lambda>d. andthen (fs_brelse bp) (\<lambda>_. andthen (readi_from i (\<lambda>_ _. True) (off + ?m) (tot + ?m) n)
                    (\<lambda>(r, more). ret (r, take ?m (drop (off mod BSIZE) d) @ more))))) s2
          (\<lambda>(r, bs) s'. r = int n \<and> bs = map (file_byte v di) [off..<off + (n - tot)] \<and> tx e T v (\<lambda>_. None) q s')"
          using tx_data [OF t2, of ?addr bp] by (simp add: buf_data_def bs)
      qed simp_all
      then show "runs (if a = 0 then ret (int tot, []) else andthen (gets (slot_of i)) (\<lambda>ip. andthen (fs_bread (i_dev ip) a) (\<lambda>bp.
            andthen (buf_data bp) (\<lambda>d. if \<not> True then andthen (fs_brelse bp) (\<lambda>_. ret (-1, []))
             else andthen (fs_brelse bp) (\<lambda>_. andthen (readi_from i (\<lambda>_ _. True) (off + ?m) (tot + ?m) n)
                    (\<lambda>(r, more). ret (r, take ?m (drop (off mod BSIZE) d) @ more))))))) s1
          (\<lambda>(r, bs) s'. r = int n \<and> bs = map (file_byte v di) [off..<off + (n - tot)] \<and> tx e T v (\<lambda>_. None) q s')"
        using addr by (simp add: a dev)
    qed
  qed
qed

section \<open>Writing\<close>

definition wrote :: "superblock \<Rightarrow> nat set \<Rightarrow> (nat \<Rightarrow> block) \<Rightarrow> dinode \<Rightarrow> (nat \<Rightarrow> block) \<Rightarrow> dinode \<Rightarrow> nat \<Rightarrow> byte list \<Rightarrow> bool" where
  "wrote sb R v di v' di' off bs \<longleftrightarrow> extends sb R v di v' di'
     \<and> (\<forall>k < MAXFILE * BSIZE. file_byte v' di' k =
          (if off \<le> k \<and> k < off + length bs then bs ! (k - off) else file_byte v di k))
     \<and> (\<forall>k. off \<le> k \<and> k < off + length bs \<longrightarrow> file_block v' di' (k div BSIZE) \<noteq> 0)"

lemma wrote_nothing: "grown sb R v di v' di' \<Longrightarrow> wrote sb R v di v' di' off []"
  by (auto simp: wrote_def grown_def)

lemma wrote_append:
  assumes 1: "wrote sb R v di v1 di1 off as" and 2: "wrote sb R v1 di1 v2 di2 (off + length as) bs"
    and le: "off + length as \<le> MAXFILE * BSIZE"
  shows "wrote sb R v di v2 di2 off (as @ bs)"
proof -
  have "extends sb R v di v2 di2" using 1 2 extends_trans by (auto simp: wrote_def)
  moreover have "file_byte v2 di2 k = (if off \<le> k \<and> k < off + length (as @ bs) then (as @ bs) ! (k - off) else file_byte v di k)"
    if "k < MAXFILE * BSIZE" for k
    using 1 2 that by (auto simp: wrote_def nth_append)
  moreover have "file_block v2 di2 (k div BSIZE) \<noteq> 0" if k: "off \<le> k" "k < off + length (as @ bs)" for k
  proof (cases "k < off + length as")
    case True
    then have "file_block v1 di1 (k div BSIZE) \<noteq> 0" using 1 k by (simp add: wrote_def)
    moreover have "k div BSIZE \<le> MAXFILE" using div_less_MAXFILE [of k] True le by simp
    ultimately show ?thesis using 2 by (simp add: wrote_def extends_def)
  next
    case False
    then show ?thesis using 2 k by (simp add: wrote_def)
  qed
  ultimately show ?thesis by (simp add: wrote_def)
qed

lemma file_block_put:
  assumes ok: "file_ok sb R v di" and bn: "bn < MAXFILE" "file_block v di bn \<noteq> 0"
  shows "file_block (v(file_block v di bn := d)) di k = file_block v di k"
proof (rule file_block_same)
  assume "di_addrs di ! NDIRECT \<noteq> 0"
  then have "file_block v di bn \<noteq> di_addrs di ! NDIRECT"
    using file_ok_inj [OF ok _ _ bn(2), of MAXFILE] bn(1) by (auto simp: indirect_block)
  then show "(v(file_block v di bn := d)) (di_addrs di ! NDIRECT) = v (di_addrs di ! NDIRECT)" by simp
qed

lemma chunk_place:
  assumes "off mod BSIZE + m \<le> BSIZE"
  shows "k div BSIZE = off div BSIZE \<Longrightarrow> off \<le> k \<and> k < off + m \<longleftrightarrow> off mod BSIZE \<le> k mod BSIZE \<and> k mod BSIZE < off mod BSIZE + m"
    "off \<le> k \<Longrightarrow> k < off + m \<Longrightarrow> k div BSIZE = off div BSIZE"
    "k div BSIZE = off div BSIZE \<Longrightarrow> k mod BSIZE - off mod BSIZE = k - off"
proof -
  have k: "k = k div BSIZE * BSIZE + k mod BSIZE" and off: "off = off div BSIZE * BSIZE + off mod BSIZE" by simp_all
  show "k div BSIZE = off div BSIZE \<Longrightarrow> off \<le> k \<and> k < off + m \<longleftrightarrow> off mod BSIZE \<le> k mod BSIZE \<and> k mod BSIZE < off mod BSIZE + m"
    "k div BSIZE = off div BSIZE \<Longrightarrow> k mod BSIZE - off mod BSIZE = k - off"
    using k off by (metis add_diff_cancel_left' add.assoc nat_add_left_cancel_le nat_add_left_cancel_less, metis diff_cancel)
  show "off \<le> k \<Longrightarrow> k < off + m \<Longrightarrow> k div BSIZE = off div BSIZE"
  proof -
    assume "off \<le> k" "k < off + m"
    then have "k < off div BSIZE * BSIZE + BSIZE" "off div BSIZE * BSIZE \<le> k" using off assms by linarith+
    then show "k div BSIZE = off div BSIZE" by (intro div_nat_eqI) simp_all
  qed
qed

lemma write_chunk:
  assumes ok: "disk_ok sb R v" "file_ok sb R v di" and bn: "off div BSIZE < MAXFILE" "file_block v di (off div BSIZE) = addr" "addr \<noteq> 0"
    and m: "off mod BSIZE + length bs \<le> BSIZE"
  shows "wrote sb R v di (v(addr := put_bytes (off mod BSIZE) bs (v addr))) di off bs"
proof -
  let ?v = "v(addr := put_bytes (off mod BSIZE) bs (v addr))"
  note f = file_okD [OF ok(2), of "off div BSIZE", unfolded bn(2), OF less_imp_le [OF bn(1)] bn(3)]
  have fb: "file_block ?v di k = file_block v di k" for k
    using file_block_put [OF ok(2) bn(1), of _ k] bn(2,3) by simp
  have len: "length (put_bytes (off mod BSIZE) bs (v addr)) = BSIZE" using f(5) m by simp
  have bf: "block_free sb ?v c = block_free sb v c" if "c < s_size sb" for c
    using that f(3) by (intro block_free_same) auto
  have size: "0 < s_size sb" using ok(1) by (simp add: disk_ok_def)
  have bm: "length (?v n) = BSIZE \<and> n < s_size sb \<and> \<not> block_free sb ?v n" if "n \<in> bitmap_blocks sb" for n
    using that ok(1) f(3) bf [of n] by (auto simp: disk_ok_def bitmap_ok_def)
  have disk: "disk_ok sb R ?v" using ok(1) bm bf size f(4) unfolding disk_ok_def bitmap_ok_def by auto
  have fok: "file_ok sb R ?v di" using ok(2) bf len unfolding file_ok_def fb Let_def by auto
  have ext: "extends sb R v di ?v di"
  proof -
    have "addr \<noteq> n" if "\<forall>k \<le> MAXFILE. n \<noteq> file_block v di k" for n
      using that bn(2) less_imp_le [OF bn(1)] by metis
    then show ?thesis unfolding extends_def fb using disk fok bf by auto
  qed
  have byte: "file_byte ?v di k = (if off \<le> k \<and> k < off + length bs then bs ! (k - off) else file_byte v di k)"
    if k: "k < MAXFILE * BSIZE" for k
  proof (cases "k div BSIZE = off div BSIZE")
    case True
    then have "file_byte ?v di k = put_bytes (off mod BSIZE) bs (v addr) ! (k mod BSIZE)" "file_byte v di k = v addr ! (k mod BSIZE)"
      using bn by (simp_all add: file_byte_def fb)
    then show ?thesis
      using chunk_place(1,3) [OF m True] f(5) m by (auto simp: put_bytes_nth)
  next
    case False
    then have "file_block v di (k div BSIZE) = addr \<Longrightarrow> False"
      using file_ok_inj [OF ok(2), of "k div BSIZE" "off div BSIZE"] bn div_less_MAXFILE [OF k] by simp
    then have "file_byte ?v di k = file_byte v di k" unfolding file_byte_def fb by (auto simp: Let_def)
    then show ?thesis using chunk_place(2) [OF m] False by auto
  qed
  have "file_block ?v di (k div BSIZE) \<noteq> 0" if "off \<le> k" "k < off + length bs" for k
    using chunk_place(2) [OF m that] bn fb by simp
  then show ?thesis using ext byte by (simp add: wrote_def)
qed

text \<open>How many blocks a stretch of bytes touches, for the room in the log.\<close>

definition chunks :: "nat \<Rightarrow> nat \<Rightarrow> nat" where
  "chunks off len = (if len = 0 then 0 else (off mod BSIZE + len + BSIZE - 1) div BSIZE)"

lemma next_block: "q * b + r = off \<Longrightarrow> r < b \<Longrightarrow> off + (b - r) = (q + 1) * (b :: nat)"
  by (simp add: algebra_simps)

lemma chunks_step:
  assumes "0 < len" "m = min len (BSIZE - off mod BSIZE)"
  shows "chunks off len = Suc (chunks (off + m) (len - m))"
proof (cases "len \<le> BSIZE - off mod BSIZE")
  case True
  have "off mod BSIZE < BSIZE" by simp
  then have "off mod BSIZE + len + BSIZE - 1 = BSIZE + (off mod BSIZE + len - 1)" "off mod BSIZE + len - 1 < BSIZE"
    using assms(1) True by linarith+
  then have "(off mod BSIZE + len + BSIZE - 1) div BSIZE = 1" by (simp only: div_add_self1)
  then show ?thesis using True assms by (simp add: chunks_def)
next
  case False
  have r: "off mod BSIZE < BSIZE" by simp
  have m: "m = BSIZE - off mod BSIZE" using False assms(2) by simp
  have "off + m = (off div BSIZE + 1) * BSIZE" using next_block [OF div_mult_mod_eq r] unfolding m by simp
  then have z: "(off + m) mod BSIZE = 0" by simp
  have e: "off mod BSIZE + len + BSIZE - 1 = BSIZE + (len - m + BSIZE - 1)" and pos: "0 < len - m" using False r m by simp_all
  have "chunks off len = (BSIZE + (len - m + BSIZE - 1)) div BSIZE" using assms(1) e unfolding chunks_def by simp
  moreover have "chunks (off + m) (len - m) = (len - m + BSIZE - 1) div BSIZE" using z pos unfolding chunks_def by simp
  ultimately show ?thesis by (simp only: div_add_self1)
qed

definition from_memory :: "byte list \<Rightarrow> nat \<Rightarrow> nat \<Rightarrow> byte list \<times> bool" where
  "from_memory data tot m = (take m (drop tot data), True)"

lemma tx_write_chunk:
  assumes t: "tx e T v (\<lambda>_. None) (Suc q) s" and a: "i_dev (slot_of i s) = ROOTDEV" "addr \<noteq> 0"
  shows "runs (andthen (gets (slot_of i)) (\<lambda>ip. andthen (fs_bread (i_dev ip) addr) (\<lambda>bp.
             let (bs, ok) = from_memory data tot m in
             andthen (buf_upd bp (put_bytes off bs)) (\<lambda>_.
               if \<not> ok then k1 bp else andthen (fs_log_write bp) (\<lambda>_. andthen (fs_brelse bp) (\<lambda>_. k2)))))) s Q
     \<longleftrightarrow> runs (andthen (fs_bread ROOTDEV addr) (\<lambda>bp. andthen (put_block bp (put_bytes off (take m (drop tot data)) (v addr)))
            (\<lambda>_. andthen (fs_brelse bp) (\<lambda>_. k2)))) s Q"
proof -
  have b: "runs (fs_bread ROOTDEV addr) s (\<lambda>bp s1. b_data (bufs (f_cache s1) bp) = v addr)"
    by (rule runs_mono [OF tx_bread [OF t]]) (auto dest: tx_data [where n = addr])
  then obtain bp s1 where "fs_bread ROOTDEV addr s = Ret (bp, s1)" "b_data (bufs (f_cache s1) bp) = v addr"
    by (auto simp: runs_def)
  moreover have "runs (andthen (buf_upd bp f) (\<lambda>_. andthen (fs_log_write bp) g)) s1 Q
     \<longleftrightarrow> runs (andthen (put_block bp (f (b_data (bufs (f_cache s1) bp)))) g) s1 Q" for f g
    by (rule runs_buf_upd)
  moreover have "runs (andthen m f) s Q \<longleftrightarrow> runs (f bp) s1 Q" if "m s = Ret (bp, s1)" for f and m :: "nat fsm"
    using that by (simp add: runs_def andthen_def)
  ultimately show ?thesis using a by (simp add: from_memory_def)
qed

lemma put_copy_inum: "i < length T \<Longrightarrow> i_inum (put_copy T i di ! i) = i_inum (T ! i)"
  by (simp add: put_copy_def)

lemma tx_writei_from:
  assumes "tx e T v (\<lambda>_. None) (q + 6 * chunks off (length data - tot)) s" "disk_ok (e_sb e) R v" "file_ok (e_sb e) R v di"
    "inode_at T i di" "tot \<le> length data" "off + (length data - tot) \<le> MAXFILE * BSIZE"
  shows "runs (writei_from i (from_memory data) off tot (length data)) s (\<lambda>(tot', off') s'. \<exists>j v' di'.
      tot' = tot + j \<and> off' = off + j \<and> j \<le> length data - tot \<and> tx e (put_copy T i di') v' (\<lambda>_. None) q s'
      \<and> wrote (e_sb e) R v di v' di' off (take j (drop tot data))
      \<and> (j < length data - tot \<longrightarrow> (\<forall>b < s_size (e_sb e). \<not> block_free (e_sb e) v' b)))"
  using assms
proof (induction "length data - tot" arbitrary: off tot s T v di rule: less_induct)
  case less
  let ?n = "length data"
  let ?post = "\<lambda>off tot T v di (tot', off') s'. \<exists>j v' di'.
      tot' = tot + j \<and> off' = off + j \<and> j \<le> length data - tot \<and> tx e (put_copy T i di') v' (\<lambda>_. None) q s'
      \<and> wrote (e_sb e) R v di v' di' off (take j (drop tot data))
      \<and> (j < length data - tot \<longrightarrow> (\<forall>b < s_size (e_sb e). \<not> block_free (e_sb e) v' b))"
  show ?case
  proof (cases "tot < ?n")
    case False
    then have "?post off tot T v di (tot, off) s"
      using less.prems wrote_nothing [OF grown_refl [OF less.prems(2,3)]] tx_less [OF less.prems(1), of q]
      by (auto intro!: exI [of _ v] exI [of _ di])
    then show ?thesis using False by (subst writei_from.simps) simp
  next
    case True
    define m where m_def: "m = min (?n - tot) (BSIZE - off mod BSIZE)"
    let ?bn = "off div BSIZE"
    let ?bs = "take m (drop tot data)"
    have ch: "chunks off (?n - tot) = Suc (chunks (off + m) (?n - tot - m))" using True by (intro chunks_step) (simp_all add: m_def)
    let ?q = "q + 6 * chunks (off + m) (?n - tot - m)"
    have t: "tx e T v (\<lambda>_. None) (Suc ?q + 5) s" by (rule tx_less [OF less.prems(1)]) (simp add: ch)
    have bn: "?bn < MAXFILE" using less.prems(6) True by (intro div_less_MAXFILE) simp
    have m: "0 < m" "m \<le> ?n - tot" "off mod BSIZE + m \<le> BSIZE"
      using True by (simp_all add: m_def)
    have len: "length ?bs = m" using m(2) by simp
    show ?thesis
      unfolding writei_from.simps [of i _ off tot ?n] m_def [symmetric] Let_def [of m] if_P [OF True]
    proof (rule runs_then [OF tx_bmap [OF t less.prems(2-4) bn]])
      fix addr s1
      assume "\<exists>v' di'. grown (e_sb e) R v di v' di' \<and> tx e (put_copy T i di') v' (\<lambda>_. None) (Suc ?q) s1
        \<and> addr = file_block v' di' ?bn \<and> (addr = 0 \<longrightarrow> (\<forall>b < s_size (e_sb e). \<not> block_free (e_sb e) v' b))"
      then obtain v1 di1 where g: "grown (e_sb e) R v di v1 di1" and t1: "tx e (put_copy T i di1) v1 (\<lambda>_. None) (Suc ?q) s1"
        and addr: "addr = file_block v1 di1 ?bn" "addr = 0 \<longrightarrow> (\<forall>b < s_size (e_sb e). \<not> block_free (e_sb e) v1 b)"
        by (elim exE conjE) (rule that; assumption)
      have ok1: "disk_ok (e_sb e) R v1" "file_ok (e_sb e) R v1 di1" using grown_file [OF g] by simp_all
      have i1: "inode_at (put_copy T i di1) i di1" using less.prems(4) by simp
      have dev: "i_dev (slot_of i s1) = ROOTDEV" using tx_slot [OF t1 i1] by simp
      have stop: "?post off tot T v di (tot, off) s1" if "addr = 0"
        using that addr(2) wrote_nothing [OF g] tx_less [OF t1, of q] by (auto intro!: exI [of _ v1] exI [of _ di1])
      let ?v2 = "v1(addr := put_bytes (off mod BSIZE) ?bs (v1 addr))"
      have go: "runs (andthen (fs_bread ROOTDEV addr) (\<lambda>bp. andthen (put_block bp (put_bytes (off mod BSIZE) ?bs (v1 addr)))
            (\<lambda>_. andthen (fs_brelse bp) (\<lambda>_. writei_from i (from_memory data) (off + m) (tot + m) ?n)))) s1 (?post off tot T v di)"
        if ne: "addr \<noteq> 0"
      proof (rule runs_then [OF tx_bread [OF t1]])
        have w1: "wrote (e_sb e) R v1 di1 ?v2 di1 off ?bs" by (rule write_chunk [OF ok1 bn _ ne]) (use addr m(3) len in simp_all)
        have w: "wrote (e_sb e) R v di ?v2 di1 off ?bs"
          using wrote_append [OF wrote_nothing [OF g, of off], of ?v2 di1 ?bs] w1 less.prems(6) by simp
        have ok2: "disk_ok (e_sb e) R ?v2" "file_ok (e_sb e) R ?v2 di1" using w extends_ok by (auto simp: wrote_def)
        fix bp s2 assume t2: "tx e (put_copy T i di1) v1 ((\<lambda>_. None)(addr \<mapsto> bp)) (Suc ?q) s2"
        have "runs (put_block bp (put_bytes (off mod BSIZE) ?bs (v1 addr))) s2 (\<lambda>_ s'. tx e (put_copy T i di1) ?v2 ((\<lambda>_. None)(addr \<mapsto> bp)) ?q s')"
          using t2 by (rule tx_put) simp
        then show "runs (andthen (put_block bp (put_bytes (off mod BSIZE) ?bs (v1 addr)))
            (\<lambda>_. andthen (fs_brelse bp) (\<lambda>_. writei_from i (from_memory data) (off + m) (tot + m) ?n))) s2 (?post off tot T v di)"
        proof (rule runs_then)
          fix x s3 assume t3: "tx e (put_copy T i di1) ?v2 ((\<lambda>_. None)(addr \<mapsto> bp)) ?q s3"
          have "runs (fs_brelse bp) s3 (\<lambda>_ s'. tx e (put_copy T i di1) ?v2 (\<lambda>_. None) ?q s')"
            using tx_brelse [OF t3, of addr bp] by simp
          then show "runs (andthen (fs_brelse bp) (\<lambda>_. writei_from i (from_memory data) (off + m) (tot + m) ?n)) s3 (?post off tot T v di)"
          proof (rule runs_then)
            fix y s4 assume t4: "tx e (put_copy T i di1) ?v2 (\<lambda>_. None) ?q s4"
            have "runs (writei_from i (from_memory data) (off + m) (tot + m) ?n) s4 (?post (off + m) (tot + m) (put_copy T i di1) ?v2 di1)"
            proof (rule less.hyps [OF _ _ ok2 i1])
              show "tx e (put_copy T i di1) ?v2 (\<lambda>_. None) (q + 6 * chunks (off + m) (?n - (tot + m))) s4"
                using t4 by (simp only: diff_diff_left)
            qed (use m less.prems(5,6) in simp_all)
            then show "runs (writei_from i (from_memory data) (off + m) (tot + m) ?n) s4 (?post off tot T v di)"
            proof (rule runs_mono, clarify)
              fix s5 j v3 di3
              assume j: "j \<le> length data - (tot + m)" and t5: "tx e (put_copy (put_copy T i di1) i di3) v3 (\<lambda>_. None) q s5"
                and w3: "wrote (e_sb e) R ?v2 di1 v3 di3 (off + m) (take j (drop (tot + m) data))"
                and full: "j < length data - (tot + m) \<longrightarrow> (\<forall>b < s_size (e_sb e). \<not> block_free (e_sb e) v3 b)"
              have "?bs @ take j (drop (tot + m) data) = take (m + j) (drop tot data)"
                by (simp only: take_add drop_drop add.commute [of tot m])
              then have "wrote (e_sb e) R v di v3 di3 off (take (m + j) (drop tot data))"
                using wrote_append [OF w, of v3 di3 "take j (drop (tot + m) data)"] w3 len less.prems(5,6) m(2) by simp
              then show "\<exists>j' v' di'. tot + m + j = tot + j' \<and> off + m + j = off + j' \<and> j' \<le> length data - tot
                  \<and> tx e (put_copy T i di') v' (\<lambda>_. None) q s5 \<and> wrote (e_sb e) R v di v' di' off (take j' (drop tot data))
                  \<and> (j' < length data - tot \<longrightarrow> (\<forall>b < s_size (e_sb e). \<not> block_free (e_sb e) v' b))"
                using j t5 full m(2) by (intro exI [of _ "m + j"] exI [of _ v3] exI [of _ di3]) auto
            qed
          qed
        qed
      qed simp_all
      show "runs (if addr = 0 then ret (tot, off) else andthen (gets (slot_of i)) (\<lambda>ip. andthen (fs_bread (i_dev ip) addr) (\<lambda>bp.
             let (bs, ok) = from_memory data tot m in andthen (buf_upd bp (put_bytes (off mod BSIZE) bs)) (\<lambda>_.
               if \<not> ok then andthen (fs_brelse bp) (\<lambda>_. ret (tot, off))
               else andthen (fs_log_write bp) (\<lambda>_. andthen (fs_brelse bp) (\<lambda>_.
                    writei_from i (from_memory data) (off + m) (tot + m) ?n)))))) s1 (?post off tot T v di)"
      proof (rule runs_if)
        assume "addr = 0" then show "runs (ret (tot, off)) s1 (?post off tot T v di)" using stop by simp
      next
        assume "addr \<noteq> 0" from go [OF this] show "runs (andthen (gets (slot_of i)) (\<lambda>ip. andthen (fs_bread (i_dev ip) addr) (\<lambda>bp.
             let (bs, ok) = from_memory data tot m in andthen (buf_upd bp (put_bytes (off mod BSIZE) bs)) (\<lambda>_.
               if \<not> ok then andthen (fs_brelse bp) (\<lambda>_. ret (tot, off))
               else andthen (fs_log_write bp) (\<lambda>_. andthen (fs_brelse bp) (\<lambda>_.
                    writei_from i (from_memory data) (off + m) (tot + m) ?n)))))) s1 (?post off tot T v di)"
          unfolding tx_write_chunk [OF t1 dev \<open>addr \<noteq> 0\<close>] .
      qed
    qed
  qed
qed

section \<open>Writing the inode back\<close>

lemma tx_iupdate:
  assumes t: "tx e T v (\<lambda>_. None) (Suc q) s" and i: "inode_at T i di" and blk: "blk = IBLOCK (i_inum (T ! i)) (e_sb e)"
  shows "runs (iupdate i) s (\<lambda>_ s'. tx e T (v(blk := put_dinode (i_inum (T ! i)) di (v blk))) (\<lambda>_. None) q s')"
proof -
  have sb: "f_sb s = e_sb e" and T: "f_itable s = T" using tx_fields [OF t] by simp_all
  have ip: "i_dev (T ! i) = ROOTDEV" "i_copy (T ! i) = di" using i by (simp_all add: inode_at_def)
  have "runs (andthen (fs_bread ROOTDEV blk) (\<lambda>bp. andthen (buf_data bp) (\<lambda>d.
      andthen (put_block bp (put_dinode (i_inum (T ! i)) di d)) (\<lambda>_. fs_brelse bp)))) s
    (\<lambda>_ s'. tx e T (v(blk := put_dinode (i_inum (T ! i)) di (v blk))) (\<lambda>_. None) q s')"
  proof (rule runs_then [OF tx_bread [OF t]])
    fix bp s1 assume t1: "tx e T v ((\<lambda>_. None)(blk \<mapsto> bp)) (Suc q) s1"
    have "runs (andthen (put_block bp (put_dinode (i_inum (T ! i)) di (v blk))) (\<lambda>_. fs_brelse bp)) s1
      (\<lambda>_ s'. tx e T (v(blk := put_dinode (i_inum (T ! i)) di (v blk))) (\<lambda>_. None) q s')"
    proof (rule runs_then [OF tx_put [OF t1, of blk]])
      fix x s2 assume t2: "tx e T (v(blk := put_dinode (i_inum (T ! i)) di (v blk))) ((\<lambda>_. None)(blk \<mapsto> bp)) q s2"
      show "runs (fs_brelse bp) s2 (\<lambda>_ s'. tx e T (v(blk := put_dinode (i_inum (T ! i)) di (v blk))) (\<lambda>_. None) q s')"
        using tx_brelse [OF t2, of blk bp] by simp
    qed simp
    then show "runs (andthen (buf_data bp) (\<lambda>d. andthen (put_block bp (put_dinode (i_inum (T ! i)) di d)) (\<lambda>_. fs_brelse bp))) s1
      (\<lambda>_ s'. tx e T (v(blk := put_dinode (i_inum (T ! i)) di (v blk))) (\<lambda>_. None) q s')"
      using tx_data [OF t1, of blk] by (simp add: buf_data_def)
  qed simp_all
  then show ?thesis unfolding iupdate_def buf_set_log by (simp add: slot_of_def sb T ip blk)
qed

lemma reserved_put:
  assumes ok: "disk_ok sb R v" "file_ok sb R v di" and blk: "blk \<in> R" "length d = BSIZE"
  shows "disk_ok sb R (v(blk := d))" "file_ok sb R (v(blk := d)) di" "\<And>k. file_block (v(blk := d)) di k = file_block v di k"
    "\<And>k. k < MAXFILE * BSIZE \<Longrightarrow> file_byte (v(blk := d)) di k = file_byte v di k"
    "\<And>n. n < s_size sb \<Longrightarrow> block_free sb (v(blk := d)) n = block_free sb v n"
proof -
  let ?v = "v(blk := d)"
  have out: "blk \<notin> bitmap_blocks sb" using disk_okD(4) [OF ok(1) blk(1)] by simp
  show fb: "file_block ?v di k = file_block v di k" for k
    by (rule file_block_same) (use file_okD(4) [OF ok(2), of MAXFILE] blk(1) indirect_block [of v di] in auto)
  have ne: "file_block v di k \<noteq> blk" if "k \<le> MAXFILE" "file_block v di k \<noteq> 0" for k
    using file_okD(4) [OF ok(2) that] blk(1) by auto
  show bf: "block_free sb ?v n = block_free sb v n" if "n < s_size sb" for n
    using that out by (intro block_free_same) auto
  have size: "0 < s_size sb" using ok(1) by (simp add: disk_ok_def)
  have bm: "length (?v n) = BSIZE \<and> n < s_size sb \<and> \<not> block_free sb ?v n" if "n \<in> bitmap_blocks sb" for n
    using that ok(1) out bf [of n] by (auto simp: disk_ok_def bitmap_ok_def)
  show "disk_ok sb R ?v" using ok(1) bm bf size blk(2) unfolding disk_ok_def bitmap_ok_def by auto
  show "file_ok sb R ?v di" using ok(2) bf blk(2) unfolding file_ok_def fb Let_def by auto
  show "file_byte ?v di k = file_byte v di k" if "k < MAXFILE * BSIZE" for k
    using ne [of "k div BSIZE"] div_less_MAXFILE [OF that] by (intro file_byte_cong) (auto simp: fb)
qed

lemma length_put_dinode: "dinode_ok di \<Longrightarrow> length d = BSIZE \<Longrightarrow> length (put_dinode inum di d) = BSIZE"
  using dinode_place [of inum] by (simp add: put_dinode_def length_enc_dinode dinode_ok_def)

text \<open>The addresses a file may get are below \<open>2^32\<close>, as is its size.\<close>

lemma extends_dinode_ok:
  assumes "extends sb R v di v' di'" "dinode_ok di"
  shows "dinode_ok di'"
proof -
  have e: "di' = di\<lparr>di_addrs := di_addrs di'\<rparr>" and ok: "disk_ok sb R v'" "file_ok sb R v' di'"
    using assms(1) by (simp_all add: extends_def)
  have len: "length (di_addrs di') = NDIRECT + 1" using ok(2) by (simp add: file_ok_def)
  have "di_addrs di' ! k < 2 ^ 32" if "k < NDIRECT + 1" for k
  proof (cases "di_addrs di' ! k = 0")
    case False
    let ?k = "if k = NDIRECT then MAXFILE else k"
    have "file_block v' di' ?k = di_addrs di' ! k" using that by (auto simp: file_block_def)
    moreover have "?k \<le> MAXFILE" using that by auto
    ultimately show ?thesis using file_okD(1) [OF ok(2), of ?k] disk_okD(3) [OF ok(1)] False by simp
  qed simp
  then have "\<forall>a \<in> set (di_addrs di'). a < 2 ^ 32" using len by (auto simp: in_set_conv_nth)
  moreover have "di_type di' = di_type di" "di_major di' = di_major di" "di_minor di' = di_minor di" "di_nlink di' = di_nlink di" "di_size di' = di_size di"
    by (subst e; simp)+
  ultimately show ?thesis using assms(2) len unfolding dinode_ok_def by simp
qed

section \<open>Write, then read\<close>

text \<open>A file as the system calls leave it: no block is missing below its size.\<close>

definition whole :: "(nat \<Rightarrow> block) \<Rightarrow> dinode \<Rightarrow> bool" where
  "whole v di \<longleftrightarrow> di_size di \<le> MAXFILE * BSIZE \<and> (\<forall>k < di_size di. file_block v di (k div BSIZE) \<noteq> 0)"

definition with_size :: "nat \<Rightarrow> dinode \<Rightarrow> dinode" where
  "with_size off di = (if off > di_size di then di\<lparr>di_size := off\<rparr> else di)"

lemma with_size [simp]:
  "di_addrs (with_size off di) = di_addrs di" "di_size (with_size off di) = max (di_size di) off"
  "file_block v (with_size off di) = file_block v di" "file_byte v (with_size off di) = file_byte v di"
  "file_ok sb R v (with_size off di) = file_ok sb R v di"
proof -
  show a: "di_addrs (with_size off di) = di_addrs di" "di_size (with_size off di) = max (di_size di) off"
    by (simp_all add: with_size_def)
  show b: "file_block v (with_size off di) = file_block v di" by (rule ext) (simp only: file_block_def a)
  show "file_byte v (with_size off di) = file_byte v di" by (rule ext) (simp only: file_byte_def b)
  show "file_ok sb R v (with_size off di) = file_ok sb R v di" by (simp only: file_ok_def a b)
qed

text \<open>The inode blocks among the reserved blocks stay, and in the block of the inode the other inodes.\<close>

lemma extends_reserved:
  assumes "extends sb R v di v1 di1" "disk_ok sb R v" "file_ok sb R v di" "n \<in> R" "n \<noteq> 0"
  shows "v1 n = v n"
proof -
  have "n \<noteq> file_block v di k" if "k \<le> MAXFILE" for k
    using file_okD(4) [OF assms(3) that] assms(4,5) by auto
  then show ?thesis using assms(1) disk_okD(4) [OF assms(2,4)] unfolding extends_def by blast
qed

lemma other_inodes:
  assumes ext: "extends sb R v di v1 di1" "disk_ok sb R v" "file_ok sb R v di"
    and len: "length (di_addrs di2) = NDIRECT + 1"
    and m: "m \<noteq> inum" "IBLOCK m sb \<in> R" "IBLOCK m sb \<noteq> 0" and v: "v' = v1(IBLOCK inum sb := put_dinode inum di2 (v1 (IBLOCK inum sb)))"
  shows "get_dinode m (v' (IBLOCK m sb)) = get_dinode m (v (IBLOCK m sb))"
proof (cases "IBLOCK m sb = IBLOCK inum sb")
  case True
  note same = extends_reserved [OF ext m(2,3)]
  have "m div IPB = inum div IPB" using True by (simp add: IBLOCK_def)
  then have "inum mod IPB \<noteq> m mod IPB" using m(1) by (metis div_mult_mod_eq)
  moreover have "length (v (IBLOCK m sb)) = BSIZE" using disk_okD(4) [OF ext(2) m(2)] by simp
  ultimately show ?thesis using get_put_dinode_other [OF len] same True by (simp add: v)
next
  case False
  then show ?thesis using extends_reserved [OF ext m(2,3)] by (simp add: v)
qed

text \<open>What a write of \<open>data\<close> at \<open>off\<close> promises when \<open>j\<close> bytes have been written.\<close>

definition write_result :: "superblock \<Rightarrow> nat set \<Rightarrow> nat \<Rightarrow> (nat \<Rightarrow> block) \<Rightarrow> dinode \<Rightarrow> nat \<Rightarrow> byte list \<Rightarrow> nat \<Rightarrow> (nat \<Rightarrow> block) \<Rightarrow> dinode \<Rightarrow> bool" where
  "write_result sb R inum v di off data j v' di' \<longleftrightarrow> j \<le> length data
     \<and> disk_ok sb R v' \<and> file_ok sb R v' di' \<and> whole v' di' \<and> di_size di' = max (di_size di) (off + j)
     \<and> (\<forall>k < MAXFILE * BSIZE. file_byte v' di' k = (if off \<le> k \<and> k < off + j then data ! (k - off) else file_byte v di k))
     \<and> get_dinode inum (v' (IBLOCK inum sb)) = di'
     \<and> (\<forall>m. m \<noteq> inum \<and> IBLOCK m sb \<in> R \<and> IBLOCK m sb \<noteq> 0 \<longrightarrow>
          get_dinode m (v' (IBLOCK m sb)) = get_dinode m (v (IBLOCK m sb)))
     \<and> (j < length data \<longrightarrow> (\<forall>b < s_size sb. \<not> block_free sb v' b))
     \<and> (\<forall>n < s_size sb. \<not> block_free sb v n \<and> n \<notin> bitmap_blocks sb \<and> n \<noteq> IBLOCK inum sb
          \<and> (\<forall>k \<le> MAXFILE. n \<noteq> file_block v di k) \<longrightarrow> v' n = v n)"

lemma tx_writei:
  assumes t: "tx e T v (\<lambda>_. None) (q + 6 * chunks off (length data) + 1) s"
    and ok: "disk_ok (e_sb e) R v" "file_ok (e_sb e) R v di" "whole v di" "dinode_ok di"
    and i: "inode_at T i di" "IBLOCK (i_inum (T ! i)) (e_sb e) \<in> R"
    and off: "off \<le> di_size di" "off + length data \<le> MAXFILE * BSIZE"
  shows "runs (writei i (from_memory data) off (length data)) s (\<lambda>r s'. \<exists>j v' di'. r = int j
      \<and> tx e (put_copy T i di') v' (\<lambda>_. None) q s' \<and> write_result (e_sb e) R (i_inum (T ! i)) v di off data j v' di')"
proof -
  let ?sb = "e_sb e" and ?inum = "i_inum (T ! i)" and ?n = "length data"
  let ?blk = "IBLOCK ?inum ?sb"
  let ?post = "\<lambda>r s'. \<exists>j v' di'. r = int j \<and> tx e (put_copy T i di') v' (\<lambda>_. None) q s' \<and> write_result ?sb R ?inum v di off data j v' di'"
  have t': "tx e T v (\<lambda>_. None) (Suc q + 6 * chunks off (?n - 0)) s" using t by simp
  have iT: "i < length T" using i(1) by (simp add: inode_at_def)
  have size: "di_size (i_copy (slot_of i s)) = di_size di" using tx_slot [OF t i(1)] by simp
  have small: "(off + ?n) mod UINT = off + ?n" using off(2) by simp
  have "runs (andthen (writei_from i (from_memory data) off 0 ?n) (\<lambda>(tot, off').
      andthen (set_copy i (with_size off')) (\<lambda>_. andthen (iupdate i) (\<lambda>_. ret (int tot))))) s ?post"
  proof (rule runs_then [OF tx_writei_from [OF t' ok(1,2) i(1)]])
    fix p :: "nat \<times> nat" and s1
    assume p: "(\<lambda>(tot', off') s'. \<exists>j v' di'. tot' = 0 + j \<and> off' = off + j \<and> j \<le> ?n - 0 \<and> tx e (put_copy T i di') v' (\<lambda>_. None) (Suc q) s'
      \<and> wrote ?sb R v di v' di' off (take j (drop 0 data)) \<and> (j < ?n - 0 \<longrightarrow> (\<forall>b < s_size ?sb. \<not> block_free ?sb v' b))) p s1"
    obtain tot' off' where pp: "p = (tot', off')" by (cases p)
    from p [unfolded pp prod.case] obtain j v1 di1 where "tot' = 0 + j" "off' = off + j" and j: "j \<le> ?n - 0" and t1: "tx e (put_copy T i di1) v1 (\<lambda>_. None) (Suc q) s1"
      and w0: "wrote ?sb R v di v1 di1 off (take j (drop 0 data))" and full: "j < ?n - 0 \<longrightarrow> (\<forall>b < s_size ?sb. \<not> block_free ?sb v1 b)"
      by (elim exE conjE) (rule that; assumption)
    then have tot: "tot' = j" "off' = off + j" by simp_all
    have w: "wrote ?sb R v di v1 di1 off (take j data)" using w0 by simp
    then have ext: "extends ?sb R v di v1 di1" by (simp add: wrote_def)
    note ok1 = extends_ok [OF ext, THEN conjunct1] extends_ok [OF ext, THEN conjunct2]
    let ?di = "with_size (off + j) di1"
    have size1: "di_size di1 = di_size di" using ext unfolding extends_def by (metis dinode.simps(5) dinode.surjective dinode.update_convs(6))
    have d1: "dinode_ok ?di" using extends_dinode_ok [OF ext ok(4)] off j by (auto simp: dinode_ok_def with_size_def)
    have i1: "inode_at (put_copy T i di1) i di1" using i(1) by simp
    have blk: "length (v1 ?blk) = BSIZE" using disk_okD(4) [OF ok1(1) i(2)] by simp
    let ?v = "v1(?blk := put_dinode ?inum ?di (v1 ?blk))"
    note rp = reserved_put [OF ok1 i(2) length_put_dinode [OF d1 blk, of ?inum]]
    have bytes: "file_byte ?v ?di k = (if off \<le> k \<and> k < off + j then data ! (k - off) else file_byte v di k)" if "k < MAXFILE * BSIZE" for k
      using rp(4) [OF that] w that j by (auto simp: wrote_def min_absorb2)
    have blocks: "file_block ?v ?di (k div BSIZE) \<noteq> 0" if "k < max (di_size di) (off + j)" for k
    proof (cases "off \<le> k \<and> k < off + j")
      case True
      then show ?thesis using w j rp(3) by (simp add: wrote_def min_absorb2)
    next
      case False
      then have "k < di_size di" using that off(1) by auto
      then have ne: "file_block v di (k div BSIZE) \<noteq> 0" using ok(3) by (simp add: whole_def)
      have "k div BSIZE \<le> MAXFILE" using \<open>k < di_size di\<close> ok(3) div_less_MAXFILE [of k] by (simp add: whole_def)
      then show ?thesis using ext ne rp(3) by (simp add: extends_def)
    qed
    have others: "?v n = v n" if "n < s_size ?sb" "\<not> block_free ?sb v n" "n \<notin> bitmap_blocks ?sb" "n \<noteq> ?blk" "\<forall>k \<le> MAXFILE. n \<noteq> file_block v di k" for n
      using ext that by (simp add: extends_def)
    have free: "j < ?n \<longrightarrow> (\<forall>b < s_size ?sb. \<not> block_free ?sb ?v b)" using full rp(5) by simp
    have "write_result ?sb R ?inum v di off data j ?v ?di"
      unfolding write_result_def
    proof (intro conjI)
      show "whole ?v ?di" using blocks off j size1 ok(3) by (auto simp: whole_def)
      show "get_dinode ?inum (?v ?blk) = ?di" using get_put_dinode [OF d1 blk] by simp
      show "\<forall>k < MAXFILE * BSIZE. file_byte ?v ?di k = (if off \<le> k \<and> k < off + j then data ! (k - off) else file_byte v di k)"
        using bytes by blast
      show "\<forall>m. m \<noteq> ?inum \<and> IBLOCK m ?sb \<in> R \<and> IBLOCK m ?sb \<noteq> 0 \<longrightarrow>
          get_dinode m (?v (IBLOCK m ?sb)) = get_dinode m (v (IBLOCK m ?sb))"
        using other_inodes [OF ext ok(1,2) _ _ _ _ refl, of ?di] d1 unfolding dinode_ok_def by blast
    qed (use j rp(1,2) size1 free others in \<open>simp_all\<close>)
    note res = this
    have i2: "inode_at (put_copy T i ?di) i ?di" using i(1) by simp
    have blk2: "?blk = IBLOCK (i_inum (put_copy T i ?di ! i)) ?sb" by (simp add: put_copy_inum [OF iT])
    have upd: "runs (andthen (iupdate i) (\<lambda>_. ret (int j))) s2 ?post" if t2: "tx e (put_copy T i ?di) v1 (\<lambda>_. None) (Suc q) s2" for s2
    proof (rule runs_then [OF tx_iupdate [OF t2 i2 blk2]])
      fix x s3 assume "tx e (put_copy T i ?di) (v1(?blk := put_dinode (i_inum (put_copy T i ?di ! i)) ?di (v1 ?blk))) (\<lambda>_. None) q s3"
      then have "tx e (put_copy T i ?di) ?v (\<lambda>_. None) q s3" by (simp add: put_copy_inum [OF iT])
      then show "runs (ret (int j)) s3 ?post" using res by auto
    qed
    have "runs (set_copy i (with_size (off + j))) s1 (\<lambda>_ s'. tx e (put_copy T i ?di) v1 (\<lambda>_. None) (Suc q) s')"
      using tx_set_copy [OF t1 i1, of "with_size (off + j)"] by simp
    then have "runs (andthen (set_copy i (with_size (off + j))) (\<lambda>_. andthen (iupdate i) (\<lambda>_. ret (int j)))) s1 ?post"
      by (rule runs_then) (rule upd)
    then show "runs (case p of (tot, off') \<Rightarrow> andthen (set_copy i (with_size off')) (\<lambda>_. andthen (iupdate i) (\<lambda>_. ret (int tot)))) s1 ?post"
      by (simp add: pp tot)
  qed (use off in simp_all)
  then show ?thesis using size off small by (simp add: writei_def with_size_def [abs_def] Let_def)
qed

text \<open>
  C9: what is written to a file is read back. Inside a transaction with room in the log, for a file
  in order and a write that starts within its size and ends within the largest size, \<open>writei\<close> writes a
  first part of the data, all of it unless the disk is full; the file stays in order, its inode is on
  the disk, every other inode on the reserved blocks \<open>R\<close> is as it was, those in the same block too, and no
  used block of anything else changes; and a \<open>readi\<close> of any stretch then returns exactly
  its bytes up to the end of the file: the data where they were written, the old contents elsewhere.
\<close>

theorem write_then_read:
  assumes "tx e T v (\<lambda>_. None) (q + 6 * chunks off (length data) + 1) s"
    "disk_ok (e_sb e) R v" "file_ok (e_sb e) R v di" "whole v di" "dinode_ok di"
    "inode_at T i di" "IBLOCK (i_inum (T ! i)) (e_sb e) \<in> R" "off \<le> di_size di" "off + length data \<le> MAXFILE * BSIZE"
    "from + n < UINT"
  shows "runs (writei i (from_memory data) off (length data)) s (\<lambda>r s'. \<exists>j v' di'. r = int j
      \<and> tx e (put_copy T i di') v' (\<lambda>_. None) q s' \<and> write_result (e_sb e) R (i_inum (T ! i)) v di off data j v' di'
      \<and> runs (readi i (\<lambda>_ _. True) from n) s' (\<lambda>(r2, bs) s''. tx e (put_copy T i di') v' (\<lambda>_. None) q s''
          \<and> r2 = int (min n (di_size di' - from))
          \<and> bs = map (\<lambda>k. if off \<le> k \<and> k < off + j then data ! (k - off) else file_byte v di k)
                     [from..<min (from + n) (max from (di_size di'))]))"
proof (rule runs_mono [OF tx_writei [OF assms(1-9)]], elim exE conjE)
  fix r s' j v' di'
  assume r: "r = int j" and t: "tx e (put_copy T i di') v' (\<lambda>_. None) q s'"
    and w: "write_result (e_sb e) R (i_inum (T ! i)) v di off data j v' di'"
  have i: "inode_at (put_copy T i di') i di'" using assms(6) by simp
  have ok: "file_ok (e_sb e) R v' di'" "whole v' di'" using w by (simp_all add: write_result_def)
  have byte: "file_byte v' di' k = (if off \<le> k \<and> k < off + j then data ! (k - off) else file_byte v di k)" if "k < MAXFILE * BSIZE" for k
    using w that by (simp add: write_result_def)
  let ?size = "di_size di'"
  have size: "di_size (i_copy (slot_of i s')) = ?size" using tx_slot [OF t i] by simp
  have wrap: "(from + n) mod UINT = from + n" using assms(10) by simp
  have "runs (readi i (\<lambda>_ _. True) from n) s' (\<lambda>(r2, bs) s''. tx e (put_copy T i di') v' (\<lambda>_. None) q s''
          \<and> r2 = int (min n (?size - from)) \<and> bs = map (file_byte v' di') [from..<min (from + n) (max from ?size)])"
  proof (cases "from \<le> ?size")
    case True
    let ?n = "min n (?size - from)"
    have "runs (readi_from i (\<lambda>_ _. True) from 0 ?n) s' (\<lambda>(r, bs) s''. r = int ?n
        \<and> bs = map (file_byte v' di') [from..<from + (?n - 0)] \<and> tx e (put_copy T i di') v' (\<lambda>_. None) q s'')"
      using True ok(2) by (intro tx_readi_from [OF t ok(1) i]) (auto simp: whole_def)
    moreover have "from + (?n - 0) = min (from + n) (max from ?size)" using True by simp
    moreover have "(if (from + n) mod UINT > ?size then ?size - from else n) = ?n" using True wrap by simp
    ultimately show ?thesis
      using True wrap by (auto simp: readi_def size Let_def elim!: runs_mono)
  next
    case False
    then show ?thesis using t by (simp add: readi_def size Let_def)
  qed
  moreover have "map (file_byte v' di') [from..<min (from + n) (max from ?size)]
      = map (\<lambda>k. if off \<le> k \<and> k < off + j then data ! (k - off) else file_byte v di k) [from..<min (from + n) (max from ?size)]"
    using ok(2) by (intro map_cong [OF refl] byte) (auto simp: whole_def)
  ultimately show "\<exists>j v' di'. r = int j
      \<and> tx e (put_copy T i di') v' (\<lambda>_. None) q s' \<and> write_result (e_sb e) R (i_inum (T ! i)) v di off data j v' di'
      \<and> runs (readi i (\<lambda>_ _. True) from n) s' (\<lambda>(r2, bs) s''. tx e (put_copy T i di') v' (\<lambda>_. None) q s''
          \<and> r2 = int (min n (di_size di' - from))
          \<and> bs = map (\<lambda>k. if off \<le> k \<and> k < off + j then data ! (k - off) else file_byte v di k)
                     [from..<min (from + n) (max from (di_size di'))])"
    using r t w by (intro exI [of _ j] exI [of _ v'] exI [of _ di']) simp
qed

definition small_inode :: inode where
  "small_inode = \<lparr>i_dev = ROOTDEV, i_inum = 3, i_ref = 1, i_lock = initsleeplock, i_valid = True,
     i_copy = zero_dinode\<lparr>di_type := 2\<rparr>\<rparr>"

lemma small_file: "file_block v (zero_dinode\<lparr>di_type := 2\<rparr>) k = 0" if "k \<le> MAXFILE"
  using that by (simp add: file_block_def zero_dinode_def nth_replicate)

theorem write_then_read_witness:
  "runs (writei 0 (from_memory [1, 2, 3]) 0 3) (in_tx small_sb [small_inode] small_disk) (\<lambda>r s'. \<exists>j \<le> 3. r = int j
     \<and> runs (readi 0 (\<lambda>_ _. True) 0 2) s' (\<lambda>(r2, bs) s''. r2 = int (min 2 j) \<and> bs = take 2 (take j [1, 2, 3])))"
proof -
  let ?e = "\<lparr>e_disk = small_disk, e_sb = small_sb, e_pid = 1, e_cwd = 0\<rparr>" and ?di = "zero_dinode\<lparr>di_type := 2\<rparr>"
  have bm: "bitmap_blocks small_sb = {45}"
    unfolding bitmap_blocks_def using small_BBLOCK by (auto simp: small_sb_def intro!: image_eqI [of _ _ 0])
  have ok: "disk_ok small_sb {33} small_disk"
    using small_ok small_free [of 0] small_free [of 33] bm by (simp add: disk_ok_def small_sb_def small_disk_def)
  have fok: "file_ok small_sb {33} small_disk ?di" using small_file by (simp add: file_ok_def zero_dinode_def)
  have t: "tx ?e [small_inode] small_disk (\<lambda>_. None) (0 + 6 * chunks 0 (length [1, 2, 3 :: byte]) + 1) (in_tx small_sb [small_inode] small_disk)"
    by (rule in_tx) (simp add: chunks_def)
  have "runs (writei 0 (from_memory [1, 2, 3]) 0 (length [1, 2, 3 :: byte])) (in_tx small_sb [small_inode] small_disk) (\<lambda>r s'. \<exists>j v' di'. r = int j
      \<and> tx ?e (put_copy [small_inode] 0 di') v' (\<lambda>_. None) 0 s' \<and> write_result (e_sb ?e) {33} (i_inum ([small_inode] ! 0)) small_disk ?di 0 [1, 2, 3] j v' di'
      \<and> runs (readi 0 (\<lambda>_ _. True) 0 2) s' (\<lambda>(r2, bs) s''. tx ?e (put_copy [small_inode] 0 di') v' (\<lambda>_. None) 0 s''
          \<and> r2 = int (min 2 (di_size di' - 0))
          \<and> bs = map (\<lambda>k. if 0 \<le> k \<and> k < 0 + j then [1, 2, 3] ! (k - 0) else file_byte small_disk ?di k) [0..<min (0 + 2) (max 0 (di_size di'))]))"
    by (rule write_then_read [OF t])
      (use ok fok in \<open>simp_all add: whole_def dinode_ok_def zero_dinode_def inode_at_def small_inode_def IBLOCK_def small_sb_def\<close>)
  then have "runs (writei 0 (from_memory [1, 2, 3]) 0 (length [1, 2, 3 :: byte])) (in_tx small_sb [small_inode] small_disk) (\<lambda>r s'. \<exists>j \<le> 3. r = int j
     \<and> runs (readi 0 (\<lambda>_ _. True) 0 2) s' (\<lambda>(r2, bs) s''. r2 = int (min 2 j) \<and> bs = take 2 (take j [1, 2, 3])))"
  proof (rule runs_mono, elim exE conjE)
    fix r s' j v' di'
    assume r: "r = int j" and w: "write_result (e_sb ?e) {33} (i_inum ([small_inode] ! 0)) small_disk ?di 0 [1, 2, 3] j v' di'"
      and rd: "runs (readi 0 (\<lambda>_ _. True) 0 2) s' (\<lambda>(r2, bs) s''. tx ?e (put_copy [small_inode] 0 di') v' (\<lambda>_. None) 0 s''
          \<and> r2 = int (min 2 (di_size di' - 0))
          \<and> bs = map (\<lambda>k. if 0 \<le> k \<and> k < 0 + j then [1, 2, 3] ! (k - 0) else file_byte small_disk ?di k) [0..<min (0 + 2) (max 0 (di_size di'))])"
    have j: "j \<le> 3" "di_size di' = j" using w by (simp_all add: write_result_def zero_dinode_def)
    have eq: "map (\<lambda>k. if 0 \<le> k \<and> k < 0 + j then [1, 2, 3] ! (k - 0) else file_byte small_disk ?di k) [0..<min (0 + 2) (max 0 (di_size di'))]
        = take 2 (take j [1, 2, 3])"
      by (rule nth_equalityI) (use j in \<open>auto simp: nth_Cons'\<close>)
    have "runs (readi 0 (\<lambda>_ _. True) 0 2) s' (\<lambda>(r2, bs) s''. r2 = int (min 2 j) \<and> bs = take 2 (take j [1, 2, 3]))"
      by (rule runs_mono [OF rd [unfolded eq]]) (use j in auto)
    then show "\<exists>j \<le> 3. r = int j
     \<and> runs (readi 0 (\<lambda>_ _. True) 0 2) s' (\<lambda>(r2, bs) s''. r2 = int (min 2 j) \<and> bs = take 2 (take j [1, 2, 3]))"
      using r j by blast
  qed
  then show ?thesis by (simp add: numeral_3_eq_3)
qed

end
