(* ===== verification/Fs_Table.thy ===== *)
theory Fs_Table
  imports Fs_Blocks "HOL-Library.Multiset"
begin

text \<open>
  The table of inodes in memory and the splitting of path names. Whatever the processes do with the
  inodes they refer to, a referenced entry keeps its inode, and an inode has one entry at most.
\<close>

section \<open>What the operations leave alone\<close>

text \<open>
  Only the entry \<open>i\<close> may change, and of it neither the inode it stands for nor the number of references.
\<close>

definition same_entries :: "nat \<Rightarrow> inode list \<Rightarrow> inode list \<Rightarrow> bool" where
  "same_entries i T T' \<longleftrightarrow> length T' = length T \<and> (\<forall>j. j \<noteq> i \<longrightarrow> T' ! j = T ! j)
     \<and> i_dev (T' ! i) = i_dev (T ! i) \<and> i_inum (T' ! i) = i_inum (T ! i) \<and> i_ref (T' ! i) = i_ref (T ! i)"

definition framed :: "nat \<Rightarrow> 'a fsm \<Rightarrow> bool" where
  "framed i m \<longleftrightarrow> (\<forall>s x s'. m s = Ret (x, s') \<longrightarrow> same_entries i (f_itable s) (f_itable s') \<and> f_cwd s' = f_cwd s)"

named_theorems framing

lemma same_entries_refl [simp]: "same_entries i T T"
  by (simp add: same_entries_def)

lemma same_entries_trans: "same_entries i T U \<Longrightarrow> same_entries i U V \<Longrightarrow> same_entries i T V"
  by (simp add: same_entries_def)

lemma framed_andthen [framing]: "framed i m \<Longrightarrow> (\<And>x. framed i (f x)) \<Longrightarrow> framed i (andthen m f)"
  unfolding framed_def andthen_def by (fastforce elim!: bind_RetE intro: same_entries_trans split: prod.splits)

lemma framed_basic [framing]:
  "framed i (ret x)" "framed i (panic msg)" "framed i (gets g)" "framed i (fs_bread dev n)" "framed i (fs_brelse b)"
  "framed i (fs_log_write b)" "framed i (buf_data b)" "framed i (buf_set b d)" "framed i (buf_upd b h)"
  "framed i fs_begin_op" "framed i fs_end_op"
proof -
  show 1: "framed i (ret x)" "framed i (panic msg)" "framed i (gets g)" "framed i (buf_data b)" "framed i (buf_set b d)" for b d
    by (simp_all add: framed_def ret_def panic_def gets_def buf_data_def buf_set_def modify_def)
  show "framed i (buf_upd b h)" unfolding buf_upd_def by (intro framed_andthen 1)
  show "framed i (fs_bread dev n)" "framed i (fs_brelse b)" "framed i (fs_log_write b)" "framed i fs_end_op"
    by (auto simp: framed_def fs_bread_def fs_brelse_def fs_log_write_def fs_end_op_def elim!: bind_RetE split: prod.splits)
  show "framed i fs_begin_op" by (auto simp: framed_def fs_begin_op_def split: option.splits)
qed

lemma framed_if [framing]: "(c \<Longrightarrow> framed i m) \<Longrightarrow> (\<not> c \<Longrightarrow> framed i m') \<Longrightarrow> framed i (if c then m else m')"
  by simp

lemma framed_option [framing]: "framed i m \<Longrightarrow> (\<And>x. framed i (f x)) \<Longrightarrow> framed i (case p of None \<Rightarrow> m | Some x \<Rightarrow> f x)"
  by (cases p) simp_all

lemma framed_prod [framing]: "(\<And>x y. framed i (f x y)) \<Longrightarrow> framed i (case p of (x, y) \<Rightarrow> f x y)"
  by (cases p) simp

lemma framed_each [framing]: "(\<And>x. framed i (f x)) \<Longrightarrow> framed i (each f xs)"
  by (induction xs) (auto intro: framing)

lemma nth_update_here: "xs[i := y] ! i = (if i < length xs then y else xs ! i)"
  by (simp add: list_update_beyond)

lemma framed_slot:
  assumes "\<And>x. i_dev (f x) = i_dev x \<and> i_inum (f x) = i_inum x \<and> i_ref (f x) = i_ref x"
  shows "framed i (set_slot i f)"
  using assms by (auto simp: framed_def set_slot_def modify_def same_entries_def nth_update_here)

lemma framed_fields [framing]:
  "framed i (set_slot i (i_lock_update g))" "framed i (set_slot i (i_valid_update h))" "framed i (set_copy i k)" "framed i (set_addr i p a)"
  unfolding set_copy_def set_addr_def by (rule framed_slot; simp)+

lemma framed_sleep [framing]:
  "(\<And>lk. framed i (m lk)) \<Longrightarrow> framed i (\<lambda>s. case acquiresleep (f_pid s) l of None \<Rightarrow> Sleeps | Some lk \<Rightarrow> m lk s)"
  by (auto simp: framed_def split: option.splits)

lemma framed_balloc [framing]: "framed i (balloc dev)" "framed i (bfree dev b)" "framed i (bzero dev b)"
proof -
  show z: "framed i (bzero dev b)" for b unfolding bzero_def by (intro framing)
  have "framed i (balloc_from dev sb bs)" for sb bs
    by (induction bs) (simp_all only: balloc_from.simps, (intro framing z | assumption)+)
  then show "framed i (balloc dev)" unfolding balloc_def by (intro framing)
  show "framed i (bfree dev b)" unfolding bfree_def by (intro framing)
qed

lemma framed_inode [framing]: "framed i (iupdate i)" "framed i (bmap i bn)" "framed i (itrunc i)"
  unfolding iupdate_def bmap_def itrunc_def by (intro framing)+

section \<open>References\<close>

text \<open>
  The references that processes hold: the slot of the table, with the inode it stood for when it was got.
  A process gets, copies and gives back references, and locks, changes, reads and writes the inode of a
  reference it holds.
\<close>

type_synonym held = "(nat \<times> nat \<times> nat) multiset"

inductive inode_step :: "fsys \<times> held \<Rightarrow> fsys \<times> held \<Rightarrow> bool" where
  step_iget: "iget dev inum s = Ret (i, s') \<Longrightarrow> inode_step (s, R) (s', add_mset (i, dev, inum) R)"
| step_idup: "(i, d, n) \<in># R \<Longrightarrow> idup i s = Ret (j, s') \<Longrightarrow> inode_step (s, R) (s', add_mset (j, d, n) R)"
| step_iput: "(i, d, n) \<in># R \<Longrightarrow> iput i s = Ret ((), s') \<Longrightarrow> inode_step (s, R) (s', R - {#(i, d, n)#})"
| step_ilock: "(i, d, n) \<in># R \<Longrightarrow> ilock (Some i) s = Ret ((), s') \<Longrightarrow> inode_step (s, R) (s', R)"
| step_iunlock: "(i, d, n) \<in># R \<Longrightarrow> iunlock (Some i) s = Ret ((), s') \<Longrightarrow> inode_step (s, R) (s', R)"
| step_itrunc: "(i, d, n) \<in># R \<Longrightarrow> itrunc i s = Ret ((), s') \<Longrightarrow> inode_step (s, R) (s', R)"
| step_iupdate: "(i, d, n) \<in># R \<Longrightarrow> iupdate i s = Ret ((), s') \<Longrightarrow> inode_step (s, R) (s', R)"
| step_bmap: "(i, d, n) \<in># R \<Longrightarrow> bmap i bn s = Ret (a, s') \<Longrightarrow> inode_step (s, R) (s', R)"
| step_readi: "(i, d, n) \<in># R \<Longrightarrow> readi i cp off len s = Ret (r, s') \<Longrightarrow> inode_step (s, R) (s', R)"
| step_writei: "(i, d, n) \<in># R \<Longrightarrow> writei i cp' off len s = Ret (r', s') \<Longrightarrow> inode_step (s, R) (s', R)"
| step_ialloc: "ialloc dev type s = Ret (Some i, s') \<Longrightarrow> inode_step (s, R) (s', add_mset (i, i_dev (slot_of i s'), i_inum (slot_of i s')) R)"
| step_other: "f_itable s' = f_itable s \<Longrightarrow> inode_step (s, R) (s', R)"

definition refs_to :: "nat \<Rightarrow> held \<Rightarrow> nat" where
  "refs_to i R = size (filter_mset (\<lambda>r. fst r = i) R)"

definition table_ok :: "fsys \<times> held \<Rightarrow> bool" where
  "table_ok = (\<lambda>(s, R). (\<forall>i < length (f_itable s). i_ref (slot_of i s) = int (refs_to i R))
     \<and> (\<forall>(i, d, n) \<in># R. i < length (f_itable s) \<and> i_dev (slot_of i s) = d \<and> i_inum (slot_of i s) = n)
     \<and> (\<forall>i j. i < length (f_itable s) \<and> j < length (f_itable s) \<and> i_ref (slot_of i s) > 0 \<and> i_ref (slot_of j s) > 0
          \<and> i_dev (slot_of i s) = i_dev (slot_of j s) \<and> i_inum (slot_of i s) = i_inum (slot_of j s) \<longrightarrow> i = j))"

lemma same_entries_slot:
  assumes "same_entries i (f_itable s) (f_itable s')"
  shows "length (f_itable s') = length (f_itable s)" "i_dev (slot_of j s') = i_dev (slot_of j s)"
    "i_inum (slot_of j s') = i_inum (slot_of j s)" "i_ref (slot_of j s') = i_ref (slot_of j s)"
  using assms by (cases "j = i"; simp add: same_entries_def slot_of_def)+

lemma table_ok_frame:
  assumes "same_entries i (f_itable s) (f_itable s')" "table_ok (s, R)"
  shows "table_ok (s', R)"
  using assms(2) unfolding table_ok_def prod.case same_entries_slot [OF assms(1)] .

lemma framed_lock [framing]: "framed i (ilock (Some i))" "framed i (iunlock (Some i))"
proof -
  show "framed i (ilock (Some i))" unfolding ilock_def option.case by (intro framing)
  show "framed i (iunlock (Some i))"
    unfolding iunlock_def option.case using framed_fields(1) [of i releasesleep] by (auto simp: framed_def panic_def split: if_splits)
qed

lemma framed_read [framing]: "framed i (readi_from i cp off tot n)"
proof (induction "n - tot" arbitrary: off tot rule: less_induct)
  case less
  have step: "framed i (readi_from i cp (off + min (n - tot) (BSIZE - off mod BSIZE)) (tot + min (n - tot) (BSIZE - off mod BSIZE)) n)"
    if "tot < n" using that by (intro less) simp
  show ?case
    unfolding readi_from.simps [of i cp off tot n] Let_def by (intro framing step)
qed

lemma framed_write [framing]: "framed i (writei_from i cp' off tot n)"
proof (induction "n - tot" arbitrary: off tot rule: less_induct)
  case less
  have step: "framed i (writei_from i cp' (off + min (n - tot) (BSIZE - off mod BSIZE)) (tot + min (n - tot) (BSIZE - off mod BSIZE)) n)"
    if "tot < n" using that by (intro less) simp
  show ?case
    unfolding writei_from.simps [of i cp' off tot n] Let_def by (intro framing step)
qed

lemma framed_io [framing]: "framed i (readi i cp off n)" "framed i (writei i cp' off n)"
  unfolding readi_def writei_def Let_def by (intro framing)+

lemma slot_of_update:
  assumes "i < length (f_itable s)" "f_itable s' = (f_itable s)[i := x]"
  shows "length (f_itable s') = length (f_itable s)" "slot_of j s' = (if j = i then x else slot_of j s)"
  using assms by (simp_all add: slot_of_def)

lemma refs_to_simps [simp]:
  "refs_to i {#} = 0" "refs_to i (add_mset (j, d, n) R) = refs_to i R + (if j = i then 1 else 0)"
  by (simp_all add: refs_to_def)

lemma refs_to_zero: "refs_to i R = 0 \<longleftrightarrow> (\<forall>r \<in># R. fst r \<noteq> i)"
  unfolding refs_to_def by (metis (mono_tags, lifting) filter_mset_eq_mempty_iff size_eq_0_iff_empty)

lemma refs_to_remove: "(i, d, n) \<in># R \<Longrightarrow> refs_to j R = refs_to j (R - {#(i, d, n)#}) + (if j = i then 1 else 0)"
  using refs_to_simps(2) [of j i d n "R - {#(i, d, n)#}"] by (simp only: insert_DiffM) auto

lemma table_okI:
  assumes "\<And>i. i < length (f_itable s) \<Longrightarrow> i_ref (slot_of i s) = int (refs_to i R)"
    "\<And>i d n. (i, d, n) \<in># R \<Longrightarrow> i < length (f_itable s) \<and> i_dev (slot_of i s) = d \<and> i_inum (slot_of i s) = n"
    "\<And>i j. i < length (f_itable s) \<Longrightarrow> j < length (f_itable s) \<Longrightarrow> i_ref (slot_of i s) > 0 \<Longrightarrow> i_ref (slot_of j s) > 0
       \<Longrightarrow> i_dev (slot_of i s) = i_dev (slot_of j s) \<Longrightarrow> i_inum (slot_of i s) = i_inum (slot_of j s) \<Longrightarrow> i = j"
  shows "table_ok (s, R)"
  unfolding table_ok_def prod.case using assms by (intro conjI allI ballI impI) (force, force, blast)

lemma table_okD:
  assumes "table_ok (s, R)"
  shows "i < length (f_itable s) \<Longrightarrow> i_ref (slot_of i s) = int (refs_to i R)"
    "(i, d, n) \<in># R \<Longrightarrow> i < length (f_itable s) \<and> i_dev (slot_of i s) = d \<and> i_inum (slot_of i s) = n"
    "i < length (f_itable s) \<Longrightarrow> j < length (f_itable s) \<Longrightarrow> i_ref (slot_of i s) > 0 \<Longrightarrow> i_ref (slot_of j s) > 0
       \<Longrightarrow> i_dev (slot_of i s) = i_dev (slot_of j s) \<Longrightarrow> i_inum (slot_of i s) = i_inum (slot_of j s) \<Longrightarrow> i = j"
proof -
  note parts = assms [unfolded table_ok_def prod.case]
  show "i < length (f_itable s) \<Longrightarrow> i_ref (slot_of i s) = int (refs_to i R)"
    using conjunct1 [OF parts] by simp
  show "(i, d, n) \<in># R \<Longrightarrow> i < length (f_itable s) \<and> i_dev (slot_of i s) = d \<and> i_inum (slot_of i s) = n"
    using bspec [OF conjunct1 [OF conjunct2 [OF parts]], of "(i, d, n)"] by simp
  show "i < length (f_itable s) \<Longrightarrow> j < length (f_itable s) \<Longrightarrow> i_ref (slot_of i s) > 0 \<Longrightarrow> i_ref (slot_of j s) > 0
       \<Longrightarrow> i_dev (slot_of i s) = i_dev (slot_of j s) \<Longrightarrow> i_inum (slot_of i s) = i_inum (slot_of j s) \<Longrightarrow> i = j"
    using conjunct2 [OF conjunct2 [OF parts]] by blast
qed

text \<open>One more reference to an entry that has references already.\<close>

lemma table_ok_more:
  assumes ok: "table_ok (s, R)" and i: "i < length (f_itable s)" "i_ref (slot_of i s) > 0"
    and s': "f_itable s' = (f_itable s)[i := (slot_of i s)\<lparr>i_ref := i_ref (slot_of i s) + 1\<rparr>]"
  shows "table_ok (s', add_mset (i, i_dev (slot_of i s), i_inum (slot_of i s)) R)"
proof (rule table_okI)
  note up = slot_of_update [OF i(1) s']
  have same: "i_dev (slot_of j s') = i_dev (slot_of j s)" "i_inum (slot_of j s') = i_inum (slot_of j s)"
    "i_ref (slot_of j s') > 0 \<Longrightarrow> i_ref (slot_of j s) > 0" for j
    using i(2) by (auto simp: up split: if_splits)
  show "i_ref (slot_of j s') = int (refs_to j (add_mset (i, i_dev (slot_of i s), i_inum (slot_of i s)) R))"
    if "j < length (f_itable s')" for j
    using that table_okD(1) [OF ok, of j] by (cases "j = i") (simp_all add: up)
  show "j < length (f_itable s') \<and> i_dev (slot_of j s') = d \<and> i_inum (slot_of j s') = n"
    if "(j, d, n) \<in># add_mset (i, i_dev (slot_of i s), i_inum (slot_of i s)) R" for j d n
    using that i table_okD(2) [OF ok, of j d n] by (auto simp: up)
  show "j = k" if "j < length (f_itable s')" "k < length (f_itable s')" "i_ref (slot_of j s') > 0" "i_ref (slot_of k s') > 0"
    "i_dev (slot_of j s') = i_dev (slot_of k s')" "i_inum (slot_of j s') = i_inum (slot_of k s')" for j k
    by (rule table_okD(3) [OF ok]) (use that same [of j] same [of k] in \<open>simp_all only: up(1)\<close>)
qed

text \<open>A free entry taken for an inode that has none.\<close>

lemma table_ok_fresh:
  assumes ok: "table_ok (s, R)" and i: "i < length (f_itable s)" "i_ref (slot_of i s) = 0"
    and none: "\<And>j. j < length (f_itable s) \<Longrightarrow> i_ref (slot_of j s) > 0 \<Longrightarrow> i_dev (slot_of j s) = dev \<Longrightarrow> i_inum (slot_of j s) \<noteq> inum"
    and s': "f_itable s' = (f_itable s)[i := (slot_of i s)\<lparr>i_dev := dev, i_inum := inum, i_ref := 1, i_valid := False\<rparr>]"
  shows "table_ok (s', add_mset (i, dev, inum) R)"
proof (rule table_okI)
  note up = slot_of_update [OF i(1) s']
  have r0: "refs_to i R = 0" using table_okD(1) [OF ok i(1)] i(2) by simp
  show "i_ref (slot_of j s') = int (refs_to j (add_mset (i, dev, inum) R))" if "j < length (f_itable s')" for j
    using that table_okD(1) [OF ok, of j] r0 by (simp add: up)
  show "j < length (f_itable s') \<and> i_dev (slot_of j s') = d \<and> i_inum (slot_of j s') = n"
    if "(j, d, n) \<in># add_mset (i, dev, inum) R" for j d n
    using that i table_okD(2) [OF ok, of j d n] r0 unfolding refs_to_zero by (fastforce simp: up)
  show "j = k" if "j < length (f_itable s')" "k < length (f_itable s')" "i_ref (slot_of j s') > 0" "i_ref (slot_of k s') > 0"
    "i_dev (slot_of j s') = i_dev (slot_of k s')" "i_inum (slot_of j s') = i_inum (slot_of k s')" for j k
  proof (cases "j = i \<or> k = i")
    case True
    then show ?thesis using that none [of j] none [of k] by (simp add: up split: if_splits)
  next
    case False
    show ?thesis by (rule table_okD(3) [OF ok]) (use that False in \<open>simp_all add: up split: if_splits\<close>)
  qed
qed

text \<open>A reference given back.\<close>

lemma table_ok_less:
  assumes ok: "table_ok (s, R)" and r: "(i, d, n) \<in># R"
    and s': "f_itable s' = (f_itable s)[i := (slot_of i s)\<lparr>i_ref := i_ref (slot_of i s) - 1\<rparr>]"
  shows "table_ok (s', R - {#(i, d, n)#})"
proof (rule table_okI)
  have i: "i < length (f_itable s)" using table_okD(2) [OF ok r] by simp
  note up = slot_of_update [OF i s']
  have same: "i_dev (slot_of j s') = i_dev (slot_of j s)" "i_inum (slot_of j s') = i_inum (slot_of j s)"
    "i_ref (slot_of j s') > 0 \<Longrightarrow> i_ref (slot_of j s) > 0" for j
    by (auto simp: up split: if_splits)
  show "i_ref (slot_of j s') = int (refs_to j (R - {#(i, d, n)#}))" if "j < length (f_itable s')" for j
    using that table_okD(1) [OF ok, of j] refs_to_remove [OF r, of j] by (cases "j = i") (simp_all add: up)
  show "j < length (f_itable s') \<and> i_dev (slot_of j s') = d' \<and> i_inum (slot_of j s') = n'"
    if "(j, d', n') \<in># R - {#(i, d, n)#}" for j d' n'
    using table_okD(2) [OF ok in_diffD [OF that]] by (auto simp: up)
  show "j = k" if "j < length (f_itable s')" "k < length (f_itable s')" "i_ref (slot_of j s') > 0" "i_ref (slot_of k s') > 0"
    "i_dev (slot_of j s') = i_dev (slot_of k s')" "i_inum (slot_of j s') = i_inum (slot_of k s')" for j k
    by (rule table_okD(3) [OF ok]) (use that same [of j] same [of k] in \<open>simp_all only: up(1)\<close>)
qed

section \<open>Every step keeps the table\<close>

lemma set_slot_itable: "set_slot i g s = Ret (u, s') \<Longrightarrow> f_itable s' = (f_itable s)[i := g (slot_of i s)]"
  by (auto simp: set_slot_def modify_def slot_of_def)

lemma andthen_RetE:
  assumes "andthen m f s = Ret (y, s')"
  obtains x t where "m s = Ret (x, t)" "f x t = Ret (y, s')"
  using assms by (auto simp: andthen_def elim!: bind_RetE)

lemma iget_keeps:
  assumes ok: "table_ok (s, R)" and get: "iget dev inum s = Ret (i, s')"
  shows "table_ok (s', add_mset (i, dev, inum) R)" "i_dev (slot_of i s') = dev" "i_inum (slot_of i s') = inum"
proof -
  show ok': "table_ok (s', add_mset (i, dev, inum) R)"
  proof (cases "first_index (\<lambda>ip. i_ref ip > 0 \<and> i_dev ip = dev \<and> i_inum ip = inum) (f_itable s)")
    case (Some k)
    have k: "k < length (f_itable s)" "i_ref (slot_of k s) > 0" "i_dev (slot_of k s) = dev" "i_inum (slot_of k s) = inum"
      using first_index_SomeD [OF Some] by (simp_all add: slot_of_def)
    have "i = k" "f_itable s' = (f_itable s)[k := (slot_of k s)\<lparr>i_ref := i_ref (slot_of k s) + 1\<rparr>]"
      using get by (auto simp: iget_def Some ret_def elim!: andthen_RetE dest: set_slot_itable)
    with table_ok_more [OF ok k(1,2)] k(3,4) show ?thesis by simp
  next
    case None
    have none: "i_inum (slot_of j s) \<noteq> inum" if "j < length (f_itable s)" "i_ref (slot_of j s) > 0" "i_dev (slot_of j s) = dev" for j
      using None that unfolding first_index_None slot_of_def by (metis nth_mem)
    obtain k where k: "first_index (\<lambda>ip. i_ref ip = 0) (f_itable s) = Some k"
      using get by (auto simp: iget_def None panic_def split: option.splits)
    have "i = k" "f_itable s' = (f_itable s)[k := (slot_of k s)\<lparr>i_dev := dev, i_inum := inum, i_ref := 1, i_valid := False\<rparr>]"
      using get by (auto simp: iget_def None k ret_def elim!: andthen_RetE dest: set_slot_itable)
    with table_ok_fresh [OF ok, of k dev inum s'] none first_index_SomeD [OF k] show ?thesis by (simp add: slot_of_def)
  qed
  show "i_dev (slot_of i s') = dev" "i_inum (slot_of i s') = inum"
    using table_okD(2) [OF ok', of i dev inum] by simp_all
qed

lemma idup_keeps:
  assumes ok: "table_ok (s, R)" and r: "(i, d, n) \<in># R" and dup: "idup i s = Ret (j, s')"
  shows "table_ok (s', add_mset (j, d, n) R)"
proof -
  note i = table_okD(2) [OF ok r]
  have "i_ref (slot_of i s) > 0"
    using table_okD(1) [OF ok, of i] i r by (cases "refs_to i R") (auto simp: refs_to_zero)
  moreover have "j = i" "f_itable s' = (f_itable s)[i := (slot_of i s)\<lparr>i_ref := i_ref (slot_of i s) + 1\<rparr>]"
    using dup by (auto simp: idup_def ret_def elim!: andthen_RetE dest: set_slot_itable)
  ultimately show ?thesis using table_ok_more [OF ok, of i s'] i by simp
qed

lemma iput_keeps:
  assumes ok: "table_ok (s, R)" and r: "(i, d, n) \<in># R" and put: "iput i s = Ret (u, s')"
  shows "table_ok (s', R - {#(i, d, n)#})"
proof -
  obtain mid :: "inode \<Rightarrow> unit fsm" where mid: "\<And>ip. framed i (mid ip)"
    "iput i = andthen (gets (slot_of i)) (\<lambda>ip. andthen (mid ip) (\<lambda>_. set_slot i (\<lambda>x. x\<lparr>i_ref := i_ref x - 1\<rparr>)))"
    by (rule that [OF _ iput_def]) (intro framing)
  obtain t where m: "mid (slot_of i s) s = Ret ((), t)" "set_slot i (\<lambda>x. x\<lparr>i_ref := i_ref x - 1\<rparr>) t = Ret (u, s')"
    using put by (auto simp: mid(2) gets_def elim!: andthen_RetE)
  have "same_entries i (f_itable s) (f_itable t)" using mid(1) m(1) unfolding framed_def by blast
  then have "table_ok (t, R)" by (rule table_ok_frame [OF _ ok])
  then show ?thesis by (rule table_ok_less [OF _ r set_slot_itable [OF m(2)]])
qed

lemma ialloc_from_keeps:
  assumes "table_ok (s, R)" "ialloc_from dev type sb ns s = Ret (Some i, s')"
  shows "table_ok (s', add_mset (i, i_dev (slot_of i s'), i_inum (slot_of i s')) R)"
  using assms
proof (induction ns arbitrary: s)
  case (Cons n ns)
  have step: "table_ok (t', R)" if "framed 0 m" "m t = Ret (x, t')" "table_ok (t, R)" for m :: "'x fsm" and t x t'
    using that table_ok_frame unfolding framed_def by blast
  obtain bp t1 d t2 where t: "fs_bread dev (IBLOCK n sb) s = Ret (bp, t1)" "buf_data bp t1 = Ret (d, t2)"
    and rest: "(if di_type (get_dinode n d) = 0
      then andthen (buf_set bp (put_dinode n (zero_dinode\<lparr>di_type := type\<rparr>) d)) (\<lambda>_. andthen (fs_log_write bp) (\<lambda>_.
         andthen (fs_brelse bp) (\<lambda>_. andthen (iget dev n) (\<lambda>ip. ret (Some ip)))))
      else andthen (fs_brelse bp) (\<lambda>_. ialloc_from dev type sb ns)) t2 = Ret (Some i, s')"
    using Cons.prems(2) unfolding ialloc_from.simps by (elim andthen_RetE)
  have ok: "table_ok (t2, R)"
    by (rule step [OF framed_basic(7) t(2) step [OF framed_basic(4) t(1) Cons.prems(1)]])
  show ?case
  proof (cases "di_type (get_dinode n d) = 0")
    case True
    obtain t3 t4 t5 k where u: "buf_set bp (put_dinode n (zero_dinode\<lparr>di_type := type\<rparr>) d) t2 = Ret ((), t3)"
      "fs_log_write bp t3 = Ret ((), t4)" "fs_brelse bp t4 = Ret ((), t5)" "iget dev n t5 = Ret (k, s')" "k = i"
      using rest unfolding if_P [OF True] by (auto simp: ret_def elim!: andthen_RetE)
    have "table_ok (t5, R)"
      by (rule step [OF framed_basic(5) u(3) step [OF framed_basic(6) u(2) step [OF framed_basic(8) u(1) ok]]])
    then show ?thesis using iget_keeps [OF _ u(4)] u(5) by simp
  next
    case False
    obtain t3 where u: "fs_brelse bp t2 = Ret ((), t3)" "ialloc_from dev type sb ns t3 = Ret (Some i, s')"
      using rest unfolding if_not_P [OF False] by (elim andthen_RetE) simp
    show ?thesis by (rule Cons.IH [OF step [OF framed_basic(5) u(1) ok] u(2)])
  qed
qed (simp add: ret_def)

lemma table_ok_quiet: "framed i m \<Longrightarrow> m s = Ret (x, s') \<Longrightarrow> table_ok (s, R) \<Longrightarrow> table_ok (s', R)"
  unfolding framed_def by (blast intro: table_ok_frame)

lemma step_keeps:
  assumes "inode_step c c'" "table_ok c"
  shows "table_ok c'"
  using assms
proof (induction rule: inode_step.induct)
  case (step_ialloc dev type s i s' R)
  then show ?case unfolding ialloc_def gets_def by (auto elim!: andthen_RetE intro: ialloc_from_keeps)
next
  case (step_other s' s R)
  then show ?case by (intro table_ok_frame [of undefined s s']) simp_all
qed (blast intro: iget_keeps idup_keeps iput_keeps table_ok_quiet framing)+

definition empty_table :: "fsys \<times> held \<Rightarrow> bool" where
  "empty_table = (\<lambda>(s, R). R = {#} \<and> (\<forall>ip \<in> set (f_itable s). i_ref ip = 0))"

interpretation itab: invariant_system empty_table inode_step table_ok
proof unfold_locales
  show "table_ok c" if "empty_table c" for c
    using that unfolding empty_table_def prod.case_eq_if
    by (cases c) (force intro!: table_okI simp: slot_of_def)
qed (rule step_keeps)

text \<open>
  C25: From the empty table, whatever processes do with the inodes they refer to (get, duplicate, lock,
  unlock, read, write, map, truncate, update, allocate, give back, in any order and number): each reference
  they hold names a slot that still stands for its inode, the counter of a slot is the number of references
  to it, and two references to one inode are to the same slot.
\<close>

theorem references_stay:
  assumes "empty_table (s, {#})" "rtranclp inode_step (s, {#}) (s', R)"
  shows "(\<forall>(i, d, n) \<in># R. i < length (f_itable s') \<and> i_dev (slot_of i s') = d \<and> i_inum (slot_of i s') = n
            \<and> i_ref (slot_of i s') = int (size (filter_mset (\<lambda>r. fst r = i) R)))
    \<and> (\<forall>i j d n. (i, d, n) \<in># R \<and> (j, d, n) \<in># R \<longrightarrow> i = j)"
proof -
  have ok: "table_ok (s', R)" by (rule itab.reachable_inv [OF assms])
  have ref: "i_ref (slot_of i s') > 0" if "(i, d, n) \<in># R" for i d n
    using table_okD(1) [OF ok, of i] table_okD(2) [OF ok that] that by (cases "refs_to i R") (auto simp: refs_to_zero)
  have "i = j" if r: "(i, d, n) \<in># R" "(j, d, n) \<in># R" for i j d n
    by (rule table_okD(3) [OF ok]) (use ref [OF r(1)] ref [OF r(2)] table_okD(2) [OF ok r(1)] table_okD(2) [OF ok r(2)] in simp_all)
  moreover have "i_ref (slot_of i s') = int (size (filter_mset (\<lambda>r. fst r = i) R))" if "(i, d, n) \<in># R" for i d n
    using table_okD(1) [OF ok, of i] table_okD(2) [OF ok that] by (simp add: refs_to_def)
  ultimately show ?thesis using table_okD(2) [OF ok] by (intro conjI) (blast, blast)
qed

definition spare_inode :: inode where
  "spare_inode = \<lparr>i_dev = 0, i_inum = 0, i_ref = 0, i_lock = initsleeplock, i_valid = False, i_copy = zero_dinode\<rparr>"

theorem references_stay_witness:
  "\<exists>s' R. R = {#(0, 1, 5), (0, 1, 5), (1, 1, 7)#} \<and> i_ref (slot_of 0 s') = 2 \<and> i_inum (slot_of 1 s') = 7
     \<and> rtranclp inode_step (in_tx small_sb [spare_inode, spare_inode] small_disk, {#}) (s', R)"
proof -
  let ?s = "in_tx small_sb [spare_inode, spare_inode] small_disk"
  define a where "a = spare_inode\<lparr>i_dev := 1, i_inum := 5, i_ref := 1\<rparr>"
  define b where "b = spare_inode\<lparr>i_dev := 1, i_inum := 7, i_ref := 1\<rparr>"
  let ?s1 = "?s\<lparr>f_itable := [a, spare_inode]\<rparr>" and ?s2 = "?s\<lparr>f_itable := [a, b]\<rparr>"
    and ?s3 = "?s\<lparr>f_itable := [a\<lparr>i_ref := 2\<rparr>, b]\<rparr>"
  have g: "iget 1 5 ?s = Ret (0, ?s1)" "iget 1 7 ?s1 = Ret (1, ?s2)" "iget 1 5 ?s2 = Ret (0, ?s3)"
    by (simp_all add: iget_def in_tx_def spare_inode_def a_def b_def set_slot_def modify_def andthen_def ret_def)
  note run = r_into_rtranclp [of inode_step, OF step_iget [OF g(1), of "{#}"]]
  note run = rtranclp.rtrancl_into_rtrancl [of inode_step, OF run step_iget [OF g(2)]]
  note run = rtranclp.rtrancl_into_rtrancl [of inode_step, OF run step_iget [OF g(3)]]
  have "empty_table (?s, {#})" by (simp add: empty_table_def in_tx_def spare_inode_def)
  from references_stay [OF this run] run show ?thesis
    by (intro exI [of _ ?s3] exI [of _ "add_mset (0, 1, 5) (add_mset (1, 1, 7) (add_mset (0, 1, 5) {#}))"])
       (auto simp: add_mset_commute)
qed

end
