(* ===== verification/Fs_Paths.thy ===== *)
theory Fs_Paths
  imports Fs
begin

text \<open>
  Path names of the kernel's file system: the loop of \<open>namex\<close> with \<open>skipelem\<close> is a walk along the list
  of the names between the slashes.
\<close>

section \<open>The names of a path\<close>

primrec split_at :: "'a \<Rightarrow> 'a list \<Rightarrow> 'a list list" where
  "split_at c [] = [[]]"
| "split_at c (x # xs) = (if x = c then [] # split_at c xs else (x # hd (split_at c xs)) # tl (split_at c xs))"

definition path_names :: "byte list \<Rightarrow> byte list list" where
  "path_names p = map (take DIRSIZ) (filter (\<lambda>w. w \<noteq> []) (split_at SLASH p))"

lemma split_at_word: "c \<notin> set w \<Longrightarrow> split_at c w = [w]"
  by (induction w) auto

lemma split_at_append: "c \<notin> set w \<Longrightarrow> split_at c (w @ c # r) = w # split_at c r"
  by (induction w) auto

lemma path_names_skip: "path_names (dropWhile (\<lambda>c. c = SLASH) p) = path_names p"
  by (induction p) (auto simp: path_names_def)

lemma path_names_word:
  assumes "w \<noteq> []" "SLASH \<notin> set w" "r = [] \<or> hd r = SLASH"
  shows "path_names (w @ r) = take DIRSIZ w # path_names r"
proof (cases r)
  case Nil
  with assms show ?thesis by (simp add: path_names_def split_at_word)
next
  case (Cons c r')
  with assms show ?thesis by (simp add: path_names_def split_at_append)
qed

lemma path_names_Nil: "path_names [] = []"
  by (simp add: path_names_def)

lemma path_names_ne: "p \<noteq> [] \<Longrightarrow> hd p \<noteq> SLASH \<Longrightarrow> path_names p \<noteq> []"
  by (cases p) (auto simp: path_names_def)

lemma skipelem_None: "skipelem p = None \<Longrightarrow> path_names p = []"
  unfolding skipelem_def Let_def by (metis option.distinct(1) path_names_skip path_names_Nil)

lemma skipelem_Some:
  assumes "skipelem p = Some (e, rest)"
  shows "path_names p = e # path_names rest" "path_names rest = [] \<longleftrightarrow> rest = []"
proof -
  define q where "q = dropWhile (\<lambda>c. c = SLASH) p"
  define w r where "w = takeWhile (\<lambda>c. c \<noteq> SLASH) q" and "r = dropWhile (\<lambda>c. c \<noteq> SLASH) q"
  have q: "q \<noteq> []" "e = take DIRSIZ w" "rest = dropWhile (\<lambda>c. c = SLASH) r"
    using assms by (simp_all add: skipelem_def q_def w_def r_def Let_def split: if_splits)
  have w: "w \<noteq> []" "SLASH \<notin> set w"
    using q(1) hd_dropWhile [of "\<lambda>c. c = SLASH" p]
    by (auto simp: w_def q_def takeWhile_eq_Nil_iff dest: set_takeWhileD)
  have r: "r = [] \<or> hd r = SLASH"
    using hd_dropWhile [of "\<lambda>c. c \<noteq> SLASH" q] by (auto simp: r_def)
  have "path_names p = path_names (w @ r)"
    using path_names_skip [of p] by (simp add: w_def r_def q_def)
  then show "path_names p = e # path_names rest"
    by (simp add: path_names_word [OF w r] q path_names_skip)
  show "path_names rest = [] \<longleftrightarrow> rest = []"
    using path_names_ne [of rest] hd_dropWhile [of "\<lambda>c. c = SLASH" r] path_names_Nil by (metis q(3))
qed

section \<open>The walk\<close>

primrec walk_names :: "bool \<Rightarrow> nat \<Rightarrow> byte list \<Rightarrow> byte list list \<Rightarrow> (nat \<times> byte list) option fsm" where
  "walk_names parent ip nm [] = (if parent then andthen (iput ip) (\<lambda>_. ret None) else ret (Some (ip, nm)))"
| "walk_names parent ip nm (e # es) =
     andthen (ilock (Some ip)) (\<lambda>_. andthen (gets (slot_of ip)) (\<lambda>x.
       if di_type (i_copy x) \<noteq> T_DIR then andthen (iunlockput ip) (\<lambda>_. ret None)
       else if parent \<and> es = [] then andthen (iunlock (Some ip)) (\<lambda>_. ret (Some (ip, e)))
       else andthen (dirlookup ip e) (\<lambda>found.
         case found of
           None \<Rightarrow> andthen (iunlockput ip) (\<lambda>_. ret None)
         | Some (inext, _) \<Rightarrow> andthen (iunlockput ip) (\<lambda>_. walk_names parent inext e es))))"

lemma namex_from_walk: "namex_from parent ip nm pth = walk_names parent ip nm (path_names pth)"
proof (induction "length pth" arbitrary: ip nm pth rule: less_induct)
  case less
  show ?case
  proof (cases "skipelem pth")
    case None
    then show ?thesis by (subst namex_from.simps) (simp add: skipelem_None)
  next
    case (Some er)
    obtain e rest where er: "er = (e, rest)" by (cases er)
    note sk = skipelem_Some [OF Some [unfolded er]]
    have IH: "namex_from parent inext e rest = walk_names parent inext e (path_names rest)" for inext
      by (rule less) (rule skipelem_less [OF Some [unfolded er]])
    show ?thesis
      unfolding namex_from.simps [of parent ip nm pth] Some er option.case prod.case sk IH walk_names.simps ..
  qed
qed

text \<open>
  C37: Looking a path name up is a walk along its names, the words between its slashes cut to fourteen
  bytes, from the root directory if the path begins with a slash and from the current directory if not:
  slashes may be repeated or end the path without changing anything.
\<close>

theorem namex_walks_names:
  "namex pth parent =
     andthen (if pth \<noteq> [] \<and> hd pth = SLASH then iget ROOTDEV ROOTINO else andthen (gets f_cwd) idup)
       (\<lambda>ip. walk_names parent ip [] (map (take DIRSIZ) (filter (\<lambda>w. w \<noteq> []) (split_at SLASH pth))))"
proof -
  have assoc: "andthen (andthen (gets f_cwd) idup) f = andthen (gets f_cwd) (\<lambda>cwd. andthen (idup cwd) f)" for f :: "nat \<Rightarrow> 'a fsm"
    by (rule ext) (simp add: andthen_def gets_def)
  show ?thesis
    unfolding namex_def path_names_def [symmetric] by (simp add: namex_from_walk assoc cong: if_cong)
qed

end
