(* ===== verification/Vm.thy ===== *)
theory Vm
  imports Kalloc "HOL-Library.Word"
begin

unbundle bit_operations_syntax

text \<open>
  Virtual memory, \<open>kernel/vm.c\<close>, with the functions of \<open>kernel/proc.c\<close> that build and grow address
  spaces: Sv39 page tables in the memory that \<open>kernel/kalloc.c\<close> hands out. Addresses and page table
  entries are 64-bit numbers; a sum that can leave 64 bits is reduced. Bytes that the kernel copies
  from or to buffers of its own are lists. The address of the trampoline and the end of the kernel's code
  come from the linker and are arguments.
\<close>

section \<open>Operations on memory\<close>

text \<open>
  \<open>VDeep\<close>: the recursion of \<open>freewalk\<close> goes deeper than its fuel. The page tables of this kernel have
  three levels, and the fuel is three.
\<close>

datatype 'a vres = VRet 'a | VPanic string | VDeep

type_synonym 'a km = "kmem \<Rightarrow> ('a \<times> kmem) vres"

definition vret :: "'a \<Rightarrow> 'a km" where
  "vret x k = VRet (x, k)"

definition vthen :: "'a km \<Rightarrow> ('a \<Rightarrow> 'b km) \<Rightarrow> 'b km" where
  "vthen m f k = (case m k of VRet (x, k') \<Rightarrow> f x k' | VPanic msg \<Rightarrow> VPanic msg | VDeep \<Rightarrow> VDeep)"

definition vpanic :: "string \<Rightarrow> 'a km" where
  "vpanic msg k = VPanic msg"

definition v_kalloc :: "nat km" where
  "v_kalloc k = VRet (kalloc k)"

definition v_kfree :: "nat \<Rightarrow> nat \<Rightarrow> unit km" where
  "v_kfree end pa k = (case kfree end pa k of Ok k' \<Rightarrow> VRet ((), k') | Panic msg \<Rightarrow> VPanic msg)"

definition v_load :: "nat \<Rightarrow> nat km" where
  "v_load a k = VRet (load64 (km_mem k) a, k)"

definition v_store :: "nat \<Rightarrow> nat \<Rightarrow> unit km" where
  "v_store a v k = VRet ((), k\<lparr>km_mem := store64 a v (km_mem k)\<rparr>)"

definition v_memset :: "nat \<Rightarrow> nat \<Rightarrow> byte \<Rightarrow> unit km" where
  "v_memset a n b k = VRet ((), k\<lparr>km_mem := fill a n b (km_mem k)\<rparr>)"

definition load_bytes :: "phys \<Rightarrow> nat \<Rightarrow> nat \<Rightarrow> byte list" where
  "load_bytes m a n = map m [a..<a + n]"

definition store_bytes :: "nat \<Rightarrow> byte list \<Rightarrow> phys \<Rightarrow> phys" where
  "store_bytes a bs m = (\<lambda>x. if a \<le> x \<and> x < a + length bs then bs ! (x - a) else m x)"

definition v_read :: "nat \<Rightarrow> nat \<Rightarrow> byte list km" where
  "v_read a n k = VRet (load_bytes (km_mem k) a n, k)"

definition v_write :: "nat \<Rightarrow> byte list \<Rightarrow> unit km" where
  "v_write a bs k = VRet ((), k\<lparr>km_mem := store_bytes a bs (km_mem k)\<rparr>)"

section \<open>Addresses and entries\<close>

abbreviation MAXVA :: nat where "MAXVA \<equiv> 2 ^ 38"
abbreviation (input) PTE_V :: nat where "PTE_V \<equiv> 1"
abbreviation (input) PTE_R :: nat where "PTE_R \<equiv> 2"
abbreviation (input) PTE_W :: nat where "PTE_W \<equiv> 4"
abbreviation (input) PTE_X :: nat where "PTE_X \<equiv> 8"
abbreviation (input) PTE_U :: nat where "PTE_U \<equiv> 16"

definition PGROUNDDOWN :: "nat \<Rightarrow> nat" where
  "PGROUNDDOWN a = a - a mod PGSIZE"

definition PGROUNDUP64 :: "nat \<Rightarrow> nat" where
  "PGROUNDUP64 sz = PGROUNDDOWN ((sz + PGSIZE - 1) mod 2 ^ 64)"

definition PA2PTE :: "nat \<Rightarrow> nat" where
  "PA2PTE pa = push_bit 10 (drop_bit 12 pa)"

definition PTE2PA :: "nat \<Rightarrow> nat" where
  "PTE2PA pte = take_bit 64 (push_bit 12 (drop_bit 10 pte))"

definition PTE_FLAGS :: "nat \<Rightarrow> nat" where
  "PTE_FLAGS pte = pte AND 0x3FF"

definition PX :: "nat \<Rightarrow> nat \<Rightarrow> nat" where
  "PX level va = drop_bit (12 + 9 * level) va AND 0x1FF"

definition has :: "nat \<Rightarrow> nat \<Rightarrow> bool" where
  "has pte b \<longleftrightarrow> pte AND b \<noteq> 0"

section \<open>Page tables\<close>

text \<open>The loop of \<open>walk\<close> from a level down; the result is the address of the entry, or 0.\<close>

primrec walk_from :: "bool \<Rightarrow> nat \<Rightarrow> nat \<Rightarrow> nat \<Rightarrow> nat km" where
  "walk_from alloc va 0 pagetable = vret (pagetable + 8 * PX 0 va)"
| "walk_from alloc va (Suc l) pagetable =
     (let pte = pagetable + 8 * PX (Suc l) va in
      vthen (v_load pte) (\<lambda>e.
        if has e PTE_V then walk_from alloc va l (PTE2PA e)
        else if \<not> alloc then vret 0
        else vthen v_kalloc (\<lambda>p.
          if p = 0 then vret 0
          else vthen (v_memset p PGSIZE 0) (\<lambda>_. vthen (v_store pte (PA2PTE p OR PTE_V)) (\<lambda>_.
               walk_from alloc va l p)))))"

definition walk :: "nat \<Rightarrow> nat \<Rightarrow> bool \<Rightarrow> nat km" where
  "walk pagetable va alloc = (if va \<ge> MAXVA then vpanic ''walk'' else walk_from alloc va 2 pagetable)"

definition walkaddr :: "nat \<Rightarrow> nat \<Rightarrow> nat km" where
  "walkaddr pagetable va =
     (if va \<ge> MAXVA then vret 0
      else vthen (walk pagetable va False) (\<lambda>pte.
        if pte = 0 then vret 0
        else vthen (v_load pte) (\<lambda>e.
          if \<not> has e PTE_V then vret 0
          else if \<not> has e PTE_U then vret 0
          else vret (PTE2PA e))))"

text \<open>
  The loop of \<open>mappages\<close>. The guard repeats the first test of \<open>walk\<close>, which ends a run past the last
  page.
\<close>

function mappages_from :: "nat \<Rightarrow> nat \<Rightarrow> nat \<Rightarrow> nat \<Rightarrow> nat \<Rightarrow> int km" where
  "mappages_from pagetable a final pa perm =
     (if a \<ge> MAXVA then vpanic ''walk''
      else vthen (walk pagetable a True) (\<lambda>pte.
        if pte = 0 then vret (-1)
        else vthen (v_load pte) (\<lambda>e.
          if has e PTE_V then vpanic ''mappages: remap''
          else vthen (v_store pte (PA2PTE pa OR perm OR PTE_V)) (\<lambda>_.
            if a = final then vret 0
            else mappages_from pagetable (a + PGSIZE) final ((pa + PGSIZE) mod 2 ^ 64) perm))))"
  by pat_completeness auto

termination by (relation "measure (\<lambda>(_, a, _, _, _). MAXVA - a)") auto

declare mappages_from.simps [simp del]

definition mappages :: "nat \<Rightarrow> nat \<Rightarrow> nat \<Rightarrow> nat \<Rightarrow> nat \<Rightarrow> int km" where
  "mappages pagetable va sz pa perm =
     (if va mod PGSIZE \<noteq> 0 then vpanic ''mappages: va not aligned''
      else if sz mod PGSIZE \<noteq> 0 then vpanic ''mappages: size not aligned''
      else if sz = 0 then vpanic ''mappages: size''
      else mappages_from pagetable va ((va + sz - PGSIZE) mod 2 ^ 64) pa perm)"

definition ismapped :: "nat \<Rightarrow> nat \<Rightarrow> bool km" where
  "ismapped pagetable va =
     vthen (walk pagetable va False) (\<lambda>pte.
       if pte = 0 then vret False else vthen (v_load pte) (\<lambda>e. vret (has e PTE_V)))"

definition uvmcreate :: "nat km" where
  "uvmcreate = vthen v_kalloc (\<lambda>p. if p = 0 then vret 0 else vthen (v_memset p PGSIZE 0) (\<lambda>_. vret p))"

function uvmunmap_from :: "nat \<Rightarrow> nat \<Rightarrow> nat \<Rightarrow> nat \<Rightarrow> bool \<Rightarrow> unit km" where
  "uvmunmap_from end pagetable a final do_free =
     (if a < final then
        vthen (vthen (walk pagetable a False) (\<lambda>pte.
          if pte = 0 then vret ()
          else vthen (v_load pte) (\<lambda>e.
            if \<not> has e PTE_V then vret ()
            else vthen (if do_free then v_kfree end (PTE2PA e) else vret ()) (\<lambda>_. v_store pte 0))))
          (\<lambda>_. uvmunmap_from end pagetable (a + PGSIZE) final do_free)
      else vret ())"
  by pat_completeness auto

termination by (relation "measure (\<lambda>(_, _, a, final, _). final - a)") auto

declare uvmunmap_from.simps [simp del]

definition uvmunmap :: "nat \<Rightarrow> nat \<Rightarrow> nat \<Rightarrow> nat \<Rightarrow> bool \<Rightarrow> unit km" where
  "uvmunmap end pagetable va npages do_free =
     (if va mod PGSIZE \<noteq> 0 then vpanic ''uvmunmap: not aligned''
      else uvmunmap_from end pagetable va ((va + npages * PGSIZE) mod 2 ^ 64) do_free)"

text \<open>The number of pages is an \<open>int\<close>, and is converted back to 64 bits by the call.\<close>

definition uvmdealloc :: "nat \<Rightarrow> nat \<Rightarrow> nat \<Rightarrow> nat \<Rightarrow> nat km" where
  "uvmdealloc end pagetable oldsz newsz =
     (if newsz \<ge> oldsz then vret oldsz
      else vthen (if PGROUNDUP64 newsz < PGROUNDUP64 oldsz
                  then uvmunmap end pagetable (PGROUNDUP64 newsz)
                         (nat (i32 (int ((PGROUNDUP64 oldsz - PGROUNDUP64 newsz) div PGSIZE)) mod 2 ^ 64)) True
                  else vret ()) (\<lambda>_. vret newsz))"

function uvmalloc_from :: "nat \<Rightarrow> nat \<Rightarrow> nat \<Rightarrow> nat \<Rightarrow> nat \<Rightarrow> nat \<Rightarrow> nat km" where
  "uvmalloc_from end pagetable oldsz a newsz xperm =
     (if a < newsz then
        vthen v_kalloc (\<lambda>mem.
          if mem = 0 then vthen (uvmdealloc end pagetable a oldsz) (\<lambda>_. vret 0)
          else vthen (v_memset mem PGSIZE 0) (\<lambda>_. vthen (mappages pagetable a PGSIZE mem (PTE_R OR PTE_U OR xperm)) (\<lambda>r.
            if r \<noteq> 0 then vthen (v_kfree end mem) (\<lambda>_. vthen (uvmdealloc end pagetable a oldsz) (\<lambda>_. vret 0))
            else uvmalloc_from end pagetable oldsz (a + PGSIZE) newsz xperm)))
      else vret newsz)"
  by pat_completeness auto

termination by (relation "measure (\<lambda>(_, _, _, a, newsz, _). newsz - a)") auto

declare uvmalloc_from.simps [simp del]

definition uvmalloc :: "nat \<Rightarrow> nat \<Rightarrow> nat \<Rightarrow> nat \<Rightarrow> nat \<Rightarrow> nat km" where
  "uvmalloc end pagetable oldsz newsz xperm =
     (if newsz < oldsz then vret oldsz
      else uvmalloc_from end pagetable (PGROUNDUP64 oldsz) (PGROUNDUP64 oldsz) newsz xperm)"

primrec veach :: "(nat \<Rightarrow> unit km) \<Rightarrow> nat list \<Rightarrow> unit km" where
  "veach f [] = vret ()"
| "veach f (x # xs) = vthen (f x) (\<lambda>_. veach f xs)"

primrec freewalk :: "nat \<Rightarrow> nat \<Rightarrow> nat \<Rightarrow> unit km" where
  "freewalk end 0 pagetable = (\<lambda>k. VDeep)"
| "freewalk end (Suc fuel) pagetable =
     vthen (veach (\<lambda>i. vthen (v_load (pagetable + 8 * i)) (\<lambda>pte.
       if has pte PTE_V \<and> pte AND (PTE_R OR PTE_W OR PTE_X) = 0
       then vthen (freewalk end fuel (PTE2PA pte)) (\<lambda>_. v_store (pagetable + 8 * i) 0)
       else if has pte PTE_V then vpanic ''freewalk: leaf''
       else vret ())) [0..<512]) (\<lambda>_.
     v_kfree end pagetable)"

definition uvmfree :: "nat \<Rightarrow> nat \<Rightarrow> nat \<Rightarrow> unit km" where
  "uvmfree end pagetable sz =
     vthen (if sz > 0 then uvmunmap end pagetable 0 (PGROUNDUP64 sz div PGSIZE) True else vret ()) (\<lambda>_.
     freewalk end 3 pagetable)"

function uvmcopy_from :: "nat \<Rightarrow> nat \<Rightarrow> nat \<Rightarrow> nat \<Rightarrow> nat \<Rightarrow> int km" where
  "uvmcopy_from end old new i sz =
     (if i < sz then
        vthen (walk old i False) (\<lambda>pte.
          if pte = 0 then uvmcopy_from end old new (i + PGSIZE) sz
          else vthen (v_load pte) (\<lambda>e.
            if \<not> has e PTE_V then uvmcopy_from end old new (i + PGSIZE) sz
            else vthen v_kalloc (\<lambda>mem.
              if mem = 0 then vthen (uvmunmap end new 0 (i div PGSIZE) True) (\<lambda>_. vret (-1))
              else vthen (v_read (PTE2PA e) PGSIZE) (\<lambda>bs. vthen (v_write mem bs) (\<lambda>_.
                vthen (mappages new i PGSIZE mem (PTE_FLAGS e)) (\<lambda>r.
                if r \<noteq> 0 then vthen (v_kfree end mem) (\<lambda>_.
                     vthen (uvmunmap end new 0 (i div PGSIZE) True) (\<lambda>_. vret (-1)))
                else uvmcopy_from end old new (i + PGSIZE) sz))))))
      else vret 0)"
  by pat_completeness auto

termination by (relation "measure (\<lambda>(_, _, _, i, sz). sz - i)") auto

declare uvmcopy_from.simps [simp del]

definition uvmcopy :: "nat \<Rightarrow> nat \<Rightarrow> nat \<Rightarrow> nat \<Rightarrow> int km" where
  "uvmcopy end old new sz = uvmcopy_from end old new 0 sz"

definition uvmclear :: "nat \<Rightarrow> nat \<Rightarrow> unit km" where
  "uvmclear pagetable va =
     vthen (walk pagetable va False) (\<lambda>pte.
       if pte = 0 then vpanic ''uvmclear''
       else vthen (v_load pte) (\<lambda>e. v_store pte (e - (e AND PTE_U))))"

section \<open>Copies between the kernel and a process\<close>

text \<open>What \<open>myproc()\<close> has to do with it: the size and the page table of the running process.\<close>

record space =
  sp_sz :: nat
  sp_pagetable :: nat

definition vmfault :: "nat \<Rightarrow> space \<Rightarrow> nat \<Rightarrow> nat \<Rightarrow> nat km" where
  "vmfault end p pagetable va =
     (if va \<ge> sp_sz p then vret 0
      else vthen (ismapped pagetable (PGROUNDDOWN va)) (\<lambda>mapped.
        if mapped then vret 0
        else vthen v_kalloc (\<lambda>mem.
          if mem = 0 then vret 0
          else vthen (v_memset mem PGSIZE 0) (\<lambda>_.
            vthen (mappages (sp_pagetable p) (PGROUNDDOWN va) PGSIZE mem (PTE_W OR PTE_U OR PTE_R)) (\<lambda>r.
              if r \<noteq> 0 then vthen (v_kfree end mem) (\<lambda>_. vret 0) else vret mem)))))"

text \<open>\<open>walkaddr\<close>, and \<open>vmfault\<close> for a page that is not there yet.\<close>

definition fault_in :: "nat \<Rightarrow> space \<Rightarrow> nat \<Rightarrow> nat \<Rightarrow> nat km" where
  "fault_in end p pagetable va0 =
     vthen (walkaddr pagetable va0) (\<lambda>pa0. if pa0 = 0 then vmfault end p pagetable va0 else vret pa0)"

function copyout :: "nat \<Rightarrow> space \<Rightarrow> nat \<Rightarrow> nat \<Rightarrow> byte list \<Rightarrow> int km" where
  "copyout end p pagetable dstva src =
     (if src \<noteq> [] then
        (let va0 = PGROUNDDOWN dstva in
         if va0 \<ge> MAXVA then vret (-1)
         else vthen (fault_in end p pagetable va0) (\<lambda>pa0.
           if pa0 = 0 then vret (-1)
           else vthen (walk pagetable va0 False) (\<lambda>pte. vthen (v_load pte) (\<lambda>e.
             if \<not> has e PTE_W then vret (-1)
             else let n = min (PGSIZE - (dstva - va0)) (length src)
                  in vthen (v_write (pa0 + (dstva - va0)) (take n src)) (\<lambda>_.
                     copyout end p pagetable (va0 + PGSIZE) (drop n src))))))
      else vret 0)"
  by pat_completeness auto

termination
  by (relation "measure (\<lambda>(_, _, _, _, src). length src)") (auto simp: PGROUNDDOWN_def)

declare copyout.simps [simp del]

text \<open>The bytes that reached the destination are part of the result.\<close>

function copyin :: "nat \<Rightarrow> space \<Rightarrow> nat \<Rightarrow> nat \<Rightarrow> nat \<Rightarrow> (int \<times> byte list) km" where
  "copyin end p pagetable srcva len =
     (if len > 0 then
        (let va0 = PGROUNDDOWN srcva in
         vthen (fault_in end p pagetable va0) (\<lambda>pa0.
           if pa0 = 0 then vret (-1, [])
           else let n = min (PGSIZE - (srcva - va0)) len
                in vthen (v_read (pa0 + (srcva - va0)) n) (\<lambda>bs.
                   vthen (copyin end p pagetable (va0 + PGSIZE) (len - n)) (\<lambda>(r, more). vret (r, bs @ more)))))
      else vret (0, []))"
  by pat_completeness auto

termination
  by (relation "measure (\<lambda>(_, _, _, _, len). len)") (auto simp: PGROUNDDOWN_def)

declare copyin.simps [simp del]

text \<open>\<open>copyinstr\<close> takes the bytes of a page up to the first zero; the zero is stored as well.\<close>

function copyinstr :: "nat \<Rightarrow> nat \<Rightarrow> nat \<Rightarrow> (int \<times> byte list) km" where
  "copyinstr pagetable srcva lim =
     (if lim > 0 then
        (let va0 = PGROUNDDOWN srcva in
         vthen (walkaddr pagetable va0) (\<lambda>pa0.
           if pa0 = 0 then vret (-1, [])
           else let n = min (PGSIZE - (srcva - va0)) lim
                in vthen (v_read (pa0 + (srcva - va0)) n) (\<lambda>bs.
                   if 0 \<in> set bs then vret (0, takeWhile (\<lambda>b. b \<noteq> 0) bs @ [0])
                   else vthen (copyinstr pagetable (va0 + PGSIZE) (lim - n)) (\<lambda>(r, more). vret (r, bs @ more)))))
      else vret (-1, []))"
  by pat_completeness auto

termination
  by (relation "measure (\<lambda>(_, _, lim). lim)") (auto simp: PGROUNDDOWN_def)

declare copyinstr.simps [simp del]

section \<open>The kernel's own table\<close>

abbreviation (input) UART0 :: nat where "UART0 \<equiv> 0x10000000"
abbreviation (input) VIRTIO0 :: nat where "VIRTIO0 \<equiv> 0x10001000"
abbreviation (input) GOLDFISH_RTC :: nat where "GOLDFISH_RTC \<equiv> 0x101000"
abbreviation (input) PLIC :: nat where "PLIC \<equiv> 0x0c000000"
abbreviation (input) KERNBASE :: nat where "KERNBASE \<equiv> 0x80000000"
abbreviation (input) TRAMPOLINE :: nat where "TRAMPOLINE \<equiv> MAXVA - PGSIZE"
abbreviation (input) TRAPFRAME :: nat where "TRAPFRAME \<equiv> TRAMPOLINE - PGSIZE"

definition kstack :: "nat \<Rightarrow> nat" where
  "kstack p = TRAMPOLINE - (p + 1) * 2 * PGSIZE"

definition kvmmap :: "nat \<Rightarrow> nat \<Rightarrow> nat \<Rightarrow> nat \<Rightarrow> nat \<Rightarrow> unit km" where
  "kvmmap kpgtbl va pa sz perm =
     vthen (mappages kpgtbl va sz pa perm) (\<lambda>r. if r \<noteq> 0 then vpanic ''kvmmap'' else vret ())"

definition proc_mapstacks :: "nat \<Rightarrow> unit km" where
  "proc_mapstacks kpgtbl =
     veach (\<lambda>p. vthen v_kalloc (\<lambda>pa.
       if pa = 0 then vpanic ''kalloc'' else kvmmap kpgtbl (kstack p) pa PGSIZE (PTE_R OR PTE_W))) [0..<64]"

definition kvmmake :: "nat \<Rightarrow> nat \<Rightarrow> nat km" where
  "kvmmake etext trampoline =
     vthen v_kalloc (\<lambda>kpgtbl. vthen (v_memset kpgtbl PGSIZE 0) (\<lambda>_.
     vthen (kvmmap kpgtbl UART0 UART0 PGSIZE (PTE_R OR PTE_W)) (\<lambda>_.
     vthen (kvmmap kpgtbl VIRTIO0 VIRTIO0 PGSIZE (PTE_R OR PTE_W)) (\<lambda>_.
     vthen (kvmmap kpgtbl GOLDFISH_RTC GOLDFISH_RTC PGSIZE (PTE_R OR PTE_W)) (\<lambda>_.
     vthen (kvmmap kpgtbl PLIC PLIC 0x4000000 (PTE_R OR PTE_W)) (\<lambda>_.
     vthen (kvmmap kpgtbl KERNBASE KERNBASE (etext - KERNBASE) (PTE_R OR PTE_X)) (\<lambda>_.
     vthen (kvmmap kpgtbl etext etext (PHYSTOP - etext) (PTE_R OR PTE_W)) (\<lambda>_.
     vthen (kvmmap kpgtbl TRAMPOLINE trampoline PGSIZE (PTE_R OR PTE_X)) (\<lambda>_.
     vthen (proc_mapstacks kpgtbl) (\<lambda>_. vret kpgtbl))))))))))"

section \<open>Address spaces of processes\<close>

definition proc_pagetable :: "nat \<Rightarrow> nat \<Rightarrow> nat \<Rightarrow> nat km" where
  "proc_pagetable end trampoline trapframe =
     vthen uvmcreate (\<lambda>pagetable.
       if pagetable = 0 then vret 0
       else vthen (mappages pagetable TRAMPOLINE PGSIZE trampoline (PTE_R OR PTE_X)) (\<lambda>r.
         if r < 0 then vthen (uvmfree end pagetable 0) (\<lambda>_. vret 0)
         else vthen (mappages pagetable TRAPFRAME PGSIZE trapframe (PTE_R OR PTE_W)) (\<lambda>r.
           if r < 0 then vthen (uvmunmap end pagetable TRAMPOLINE 1 False) (\<lambda>_. vthen (uvmfree end pagetable 0) (\<lambda>_. vret 0))
           else vret pagetable)))"

definition proc_freepagetable :: "nat \<Rightarrow> nat \<Rightarrow> nat \<Rightarrow> unit km" where
  "proc_freepagetable end pagetable sz =
     vthen (uvmunmap end pagetable TRAMPOLINE 1 False) (\<lambda>_.
     vthen (uvmunmap end pagetable TRAPFRAME 1 False) (\<lambda>_. uvmfree end pagetable sz))"

text \<open>The process after the call and the result of the call. The sums are those of 64-bit numbers.\<close>

definition growproc :: "nat \<Rightarrow> int \<Rightarrow> space \<Rightarrow> (int \<times> space) km" where
  "growproc end n p =
     (let sz = sp_sz p; new = nat ((int sz + n) mod 2 ^ 64) in
      if n > 0 then
        (if new > TRAPFRAME then vret (-1, p)
         else vthen (uvmalloc end (sp_pagetable p) sz new PTE_W) (\<lambda>sz'.
           if sz' = 0 then vret (-1, p) else vret (0, p\<lparr>sp_sz := sz'\<rparr>)))
      else if n < 0 then vthen (uvmdealloc end (sp_pagetable p) sz new) (\<lambda>sz'. vret (0, p\<lparr>sp_sz := sz'\<rparr>))
      else vret (0, p))"

text \<open>\<open>sys_sbrk\<close> with its arguments: what it returns is the old size, or -1.\<close>

definition sys_sbrk :: "nat \<Rightarrow> int \<Rightarrow> int \<Rightarrow> space \<Rightarrow> (int \<times> space) km" where
  "sys_sbrk end n t p =
     (let addr = sp_sz p; new = nat ((int addr + n) mod 2 ^ 64) in
      if t = 1 \<or> n < 0 then
        vthen (growproc end n p) (\<lambda>(r, p'). if r < 0 then vret (-1, p') else vret (int addr, p'))
      else if new < addr then vret (-1, p)
      else if new > TRAPFRAME then vret (-1, p)
      else vret (int addr, p\<lparr>sp_sz := new\<rparr>))"

end
