(* ===== verification/Vm_Tables.thy ===== *)
theory Vm_Tables
  imports Vm
begin

text \<open>
  The tree of page-table pages of an address space as a partial map from index paths to pages, the
  entry a virtual page has in it, and what \<open>walk\<close> does to both.
\<close>

section \<open>Running an operation\<close>

definition vruns :: "'a km \<Rightarrow> kmem \<Rightarrow> ('a \<Rightarrow> kmem \<Rightarrow> bool) \<Rightarrow> bool" where
  "vruns m k Q \<longleftrightarrow> (\<exists>x k'. m k = VRet (x, k') \<and> Q x k')"

lemma vruns_ret [simp]: "vruns (vret x) k Q \<longleftrightarrow> Q x k"
  by (simp add: vruns_def vret_def)

lemma vruns_then: "vruns (vthen m f) k Q \<longleftrightarrow> vruns m k (\<lambda>x k'. vruns (f x) k' Q)"
  by (auto simp: vruns_def vthen_def split: vres.splits)

lemma vruns_load [simp]: "vruns (v_load a) k Q \<longleftrightarrow> Q (load64 (km_mem k) a) k"
  by (simp add: vruns_def v_load_def)

lemma vruns_store [simp]: "vruns (v_store a v) k Q \<longleftrightarrow> Q () (k\<lparr>km_mem := store64 a v (km_mem k)\<rparr>)"
  by (simp add: vruns_def v_store_def)

lemma vruns_memset [simp]: "vruns (v_memset a n b) k Q \<longleftrightarrow> Q () (k\<lparr>km_mem := fill a n b (km_mem k)\<rparr>)"
  by (simp add: vruns_def v_memset_def)

lemma vruns_read [simp]: "vruns (v_read a n) k Q \<longleftrightarrow> Q (load_bytes (km_mem k) a n) k"
  by (simp add: vruns_def v_read_def)

lemma vruns_write [simp]: "vruns (v_write a bs) k Q \<longleftrightarrow> Q () (k\<lparr>km_mem := store_bytes a bs (km_mem k)\<rparr>)"
  by (simp add: vruns_def v_write_def)

lemma vruns_kalloc [simp]: "vruns v_kalloc k Q \<longleftrightarrow> Q (fst (kalloc k)) (snd (kalloc k))"
  by (simp add: vruns_def v_kalloc_def) (metis prod.collapse fst_conv snd_conv)

lemma vruns_VRet: "m k = VRet (x, k') \<Longrightarrow> vruns m k Q \<longleftrightarrow> Q x k'"
  by (simp add: vruns_def)

lemma vruns_mono: "vruns m k P \<Longrightarrow> (\<And>x k'. P x k' \<Longrightarrow> Q x k') \<Longrightarrow> vruns m k Q"
  by (auto simp: vruns_def)

section \<open>Arithmetic of pages, indices and entries\<close>

lemma PX_div: "PX l va = va div 2 ^ (12 + 9 * l) mod 512"
proof -
  have "x AND 0x1FF = take_bit 9 x" for x :: nat by (simp add: take_bit_eq_mask mask_eq_exp_minus_1)
  then show ?thesis by (simp add: PX_def drop_bit_eq_div take_bit_eq_mod)
qed

lemma PX_less [simp]: "PX l va < 512"
  by (simp add: PX_div)

lemma PTE2PA_make:
  assumes "p mod PGSIZE = 0" "p < 2 ^ 56" "perm < 1024"
  shows "PTE2PA (PA2PTE p OR perm OR 1) = p"
proof -
  obtain q where p: "p = q * 2 ^ 12" using assms(1) by (auto simp: mult.commute elim!: dvdE)
  have q: "drop_bit 12 p = q" by (simp add: p drop_bit_eq_div)
  have "drop_bit 10 perm = 0" using assms(3) by (simp add: drop_bit_eq_div)
  then have "drop_bit 10 (PA2PTE p OR perm OR 1) = q"
    by (simp add: PA2PTE_def q drop_bit_or) (simp add: drop_bit_eq_div push_bit_eq_mult)
  moreover have "take_bit 64 p = p" using assms(2) by (simp add: take_bit_nat_eq_self_iff)
  ultimately show ?thesis by (simp add: PTE2PA_def p push_bit_eq_mult)
qed

lemma or_less: "a < 2 ^ n \<Longrightarrow> b < 2 ^ n \<Longrightarrow> a OR b < 2 ^ n" for a b :: nat
  by (metis take_bit_nat_eq_self_iff take_bit_or)

lemma PTE_make_less:
  assumes "p < 2 ^ 56" "perm < 1024" shows "PA2PTE p OR perm OR 1 < 2 ^ 64"
proof -
  have "drop_bit 12 p < 2 ^ 44" using assms(1) by (simp add: drop_bit_eq_div less_mult_imp_div_less)
  then have "PA2PTE p < 2 ^ 64" unfolding PA2PTE_def push_bit_eq_mult by simp
  then show ?thesis using assms(2) by (intro or_less) simp_all
qed

lemma has_make: "has (x OR 1) 1"
  by (simp add: has_def and_one_eq mod2_eq_if even_or_iff)

lemma has_make_perm: "has (x OR perm OR 1) 1"
  by (simp add: has_def and_one_eq mod2_eq_if even_or_iff)

section \<open>Entries in memory\<close>

definition pentry :: "phys \<Rightarrow> nat \<Rightarrow> nat \<Rightarrow> nat" where
  "pentry m p i = load64 m (p + 8 * i)"

lemma pentry_cong: "i < 512 \<Longrightarrow> (\<And>x. p \<le> x \<Longrightarrow> x < p + PGSIZE \<Longrightarrow> m x = m' x) \<Longrightarrow> pentry m p i = pentry m' p i"
  unfolding pentry_def by (rule load64_cong) simp

lemma pentry_zero: "i < 512 \<Longrightarrow> pentry (fill p PGSIZE 0 m) p i = 0"
  unfolding pentry_def load64_def by (subst dec_le_zero) (auto simp: fill_def)

lemma page_apart:
  assumes "p mod PGSIZE = 0" "q mod PGSIZE = 0" "p \<noteq> q" "q \<le> x" "x < q + PGSIZE"
  shows "x < p \<or> p + PGSIZE \<le> x"
proof (cases "p < q")
  case True
  with next_multiple [OF assms(1,2)] assms(4) show ?thesis by simp
next
  case False
  with assms(3) have "q < p" by simp
  with next_multiple [OF assms(2,1)] assms(5) show ?thesis by simp
qed

lemma pentry_fill_other:
  assumes "p mod PGSIZE = 0" "q mod PGSIZE = 0" "p \<noteq> q" "i < 512"
  shows "pentry (fill p PGSIZE b m) q i = pentry m q i"
proof (rule pentry_cong [OF assms(4)])
  fix x assume "q \<le> x" "x < q + PGSIZE"
  from page_apart [OF assms(1-3) this] show "fill p PGSIZE b m x = m x" by (auto simp: fill_def)
qed

lemma pentry_store:
  assumes "p mod PGSIZE = 0" "q mod PGSIZE = 0" "i < 512" "j < 512" "v < 2 ^ 64"
  shows "pentry (store64 (p + 8 * i) v m) q j = (if p = q \<and> i = j then v else pentry m q j)"
proof (cases "p = q")
  case True
  show ?thesis
  proof (cases "i = j")
    case False
    then have "p + 8 * j + 8 \<le> p + 8 * i \<or> p + 8 * i + 8 \<le> p + 8 * j" by linarith
    then have "pentry (store64 (p + 8 * i) v m) p j = pentry m p j"
      unfolding pentry_def by (intro load64_cong) (auto simp: store64_def)
    with True False show ?thesis by simp
  qed (use True assms(5) in \<open>simp add: pentry_def\<close>)
next
  case False
  have "pentry (store64 (p + 8 * i) v m) q j = pentry m q j"
  proof (rule pentry_cong [OF assms(4)])
    fix x assume "q \<le> x" "x < q + PGSIZE"
    from page_apart [OF assms(1,2) False this] assms(3) show "store64 (p + 8 * i) v m x = m x"
      by (auto simp: store64_def)
  qed
  with False show ?thesis by simp
qed

section \<open>The tree of tables\<close>

type_synonym tables = "nat list \<Rightarrow> nat option"

definition tables_ok :: "phys \<Rightarrow> tables \<Rightarrow> bool" where
  "tables_ok m tab \<longleftrightarrow> tab [] \<noteq> None
     \<and> (\<forall>ps p. tab ps = Some p \<longrightarrow> length ps \<le> 2 \<and> set ps \<subseteq> {..<512})
     \<and> (\<forall>ps i. tab (ps @ [i]) \<noteq> None \<longrightarrow> tab ps \<noteq> None)
     \<and> (\<forall>ps p i. tab ps = Some p \<longrightarrow> length ps < 2 \<longrightarrow> i < 512 \<longrightarrow>
          (case tab (ps @ [i]) of None \<Rightarrow> \<not> has (pentry m p i) 1 | Some q \<Rightarrow> pentry m p i = PA2PTE q OR 1))
     \<and> inj_on tab (dom tab)"

text \<open>The pages of the allocator, those of the tables and those that hold neither.\<close>

definition vm_ok :: "nat \<Rightarrow> kmem \<Rightarrow> nat list \<Rightarrow> tables \<Rightarrow> bool" where
  "vm_ok end k fl tab \<longleftrightarrow> kmem_inv end k fl \<and> tables_ok (km_mem k) tab
     \<and> (\<forall>p \<in> ran tab. page_ok end p) \<and> ran tab \<inter> set fl = {}"

text \<open>The address of the entry of a virtual page, and the entry.\<close>

definition entry_of :: "tables \<Rightarrow> nat \<Rightarrow> nat option" where
  "entry_of tab va = map_option (\<lambda>p. p + 8 * PX 0 va) (tab [PX 2 va, PX 1 va])"

definition lookup :: "phys \<Rightarrow> tables \<Rightarrow> nat \<Rightarrow> nat" where
  "lookup m tab va = (case entry_of tab va of None \<Rightarrow> 0 | Some a \<Rightarrow> load64 m a)"

lemma lookup_pentry: "lookup m tab va = (case tab [PX 2 va, PX 1 va] of None \<Rightarrow> 0 | Some p \<Rightarrow> pentry m p (PX 0 va))"
  by (simp add: lookup_def entry_of_def pentry_def split: option.splits)

lemma vm_okD:
  assumes "vm_ok end k fl tab"
  shows "kmem_inv end k fl" "tables_ok (km_mem k) tab" "tab ps = Some p \<Longrightarrow> page_ok end p"
    "tab ps = Some p \<Longrightarrow> p \<notin> set fl"
  using assms by (auto simp: vm_ok_def ran_def)

lemma tables_okD:
  assumes "tables_ok m tab"
  shows "\<exists>p. tab [] = Some p" "tab ps = Some p \<Longrightarrow> length ps \<le> 2" "tab ps = Some p \<Longrightarrow> set ps \<subseteq> {..<512}"
    "tab (ps @ [i]) = Some q \<Longrightarrow> \<exists>p. tab ps = Some p"
    "tab ps = Some p \<Longrightarrow> length ps < 2 \<Longrightarrow> i < 512 \<Longrightarrow> tab (ps @ [i]) = None \<Longrightarrow> \<not> has (pentry m p i) 1"
    "tab ps = Some p \<Longrightarrow> length ps < 2 \<Longrightarrow> i < 512 \<Longrightarrow> tab (ps @ [i]) = Some q \<Longrightarrow> pentry m p i = PA2PTE q OR 1"
    "tab ps = Some p \<Longrightarrow> tab qs = Some p \<Longrightarrow> ps = qs"
proof -
  note parts = assms [unfolded tables_ok_def]
  show "\<exists>p. tab [] = Some p" "tab ps = Some p \<Longrightarrow> length ps \<le> 2" "tab ps = Some p \<Longrightarrow> set ps \<subseteq> {..<512}"
    using parts by blast+
  show "tab (ps @ [i]) = Some q \<Longrightarrow> \<exists>p. tab ps = Some p"
    using parts by (metis option.exhaust option.distinct(1))
  show "tab ps = Some p \<Longrightarrow> length ps < 2 \<Longrightarrow> i < 512 \<Longrightarrow> tab (ps @ [i]) = None \<Longrightarrow> \<not> has (pentry m p i) 1"
    "tab ps = Some p \<Longrightarrow> length ps < 2 \<Longrightarrow> i < 512 \<Longrightarrow> tab (ps @ [i]) = Some q \<Longrightarrow> pentry m p i = PA2PTE q OR 1"
    using spec [OF spec [OF spec [OF conjunct1 [OF conjunct2 [OF conjunct2 [OF conjunct2 [OF parts]]]]]], of ps p i]
    by simp_all
  show "tab ps = Some p \<Longrightarrow> tab qs = Some p \<Longrightarrow> ps = qs"
    using parts by (metis domI inj_on_def)
qed

lemma page_ok_bounds: "page_ok end p \<Longrightarrow> p mod PGSIZE = 0 \<and> 0 < p \<and> p < 2 ^ 56"
  by (auto simp: page_ok_def)

text \<open>A table page appears with an entry in its parent.\<close>

lemma PTE2PA_table: "page_ok end p \<Longrightarrow> PTE2PA (PA2PTE p OR 1) = p" "page_ok end p \<Longrightarrow> PA2PTE p OR 1 < 2 ^ 64"
  using PTE2PA_make [of p 0] PTE_make_less [of p 0] page_ok_bounds [of "end" p] by simp_all

lemmas table_entry = has_make has_make_perm PTE2PA_table has_make [unfolded One_nat_def]
  has_make_perm [unfolded One_nat_def] PTE2PA_table [unfolded One_nat_def]

section \<open>One more table\<close>

definition in_pages :: "nat set \<Rightarrow> nat \<Rightarrow> bool" where
  "in_pages A x \<longleftrightarrow> (\<exists>p \<in> A. p \<le> x \<and> x < p + PGSIZE)"

definition same_outside :: "nat set \<Rightarrow> phys \<Rightarrow> phys \<Rightarrow> bool" where
  "same_outside A m m' \<longleftrightarrow> (\<forall>x. \<not> in_pages A x \<longrightarrow> m' x = m x)"

lemma same_outside_refl [simp]: "same_outside A m m"
  by (simp add: same_outside_def)

lemma same_outside_trans: "same_outside A m m1 \<Longrightarrow> same_outside B m1 m2 \<Longrightarrow> A \<union> B \<subseteq> C \<Longrightarrow> same_outside C m m2"
  unfolding same_outside_def in_pages_def by (metis UnI1 UnI2 subsetD)

lemma same_outside_mono: "same_outside A m m' \<Longrightarrow> A \<subseteq> B \<Longrightarrow> same_outside B m m'"
  unfolding same_outside_def in_pages_def by blast

text \<open>Tables came out of the free pages; no page of the address space sees it.\<close>

definition grows :: "kmem \<Rightarrow> nat list \<Rightarrow> tables \<Rightarrow> kmem \<Rightarrow> nat list \<Rightarrow> tables \<Rightarrow> bool" where
  "grows k fl tab k' fl' tab' \<longleftrightarrow> tab \<subseteq>\<^sub>m tab' \<and> (\<forall>va. lookup (km_mem k') tab' va = lookup (km_mem k) tab va)
     \<and> set fl = set fl' \<union> (ran tab' - ran tab) \<and> set fl' \<inter> ran tab' = {} \<and> same_outside (ran tab') (km_mem k) (km_mem k')"

lemma grows_refl [simp]: "ran tab \<inter> set fl = {} \<Longrightarrow> grows k fl tab k fl tab"
  by (auto simp: grows_def)

lemma ran_mono: "tab \<subseteq>\<^sub>m tab' \<Longrightarrow> ran tab \<subseteq> ran tab'"
  unfolding map_le_def ran_def by (force simp: dom_def)

lemma grows_trans:
  assumes "grows k fl tab k1 fl1 tab1" "grows k1 fl1 tab1 k2 fl2 tab2"
  shows "grows k fl tab k2 fl2 tab2"
proof -
  have r: "ran tab \<subseteq> ran tab1" "ran tab1 \<subseteq> ran tab2" using assms ran_mono unfolding grows_def by blast+
  have "same_outside (ran tab2) (km_mem k) (km_mem k2)"
    using assms r same_outside_trans [of "ran tab1" "km_mem k" "km_mem k1" "ran tab2" "km_mem k2" "ran tab2"]
    unfolding grows_def by blast
  then show ?thesis using assms r unfolding grows_def by (auto intro: map_le_trans)
qed

lemma kalloc_page:
  assumes "kmem_inv end k fl" "kalloc k = (q, k1)" "q \<noteq> 0"
  obtains fl1 where "fl = q # fl1" "kmem_inv end k1 fl1" "km_mem k1 = fill q PGSIZE 5 (km_mem k)"
proof (cases fl)
  case Nil
  with assms show thesis by (simp add: kalloc_empty)
next
  case (Cons p ps)
  have "km_freelist k = p" using assms(1) Cons by (simp add: kmem_inv_def)
  then show thesis using kalloc_inv [OF assms(1) [unfolded Cons]] assms(2,3) Cons that
    by (auto simp: kalloc_def Let_def split: if_splits)
qed

lemma kalloc_none: "kmem_inv end k fl \<Longrightarrow> kalloc k = (0, k1) \<Longrightarrow> k1 = k \<and> fl = []"
  using kalloc_inv [of "end" k] by (cases fl) (auto simp: kalloc_empty kmem_inv_def page_ok_def)

lemma kmem_inv_mem:
  assumes "kmem_inv end k fl" "same_outside A (km_mem k) m" "\<forall>p \<in> A. p mod PGSIZE = 0" "A \<inter> set fl = {}"
  shows "kmem_inv end (k\<lparr>km_mem := m\<rparr>) fl"
proof -
  have "chain m h ps" if "chain (km_mem k) h ps" "set ps \<subseteq> set fl" for h ps
    using that
  proof (induction ps arbitrary: h)
    case (Cons q qs)
    have q: "q mod PGSIZE = 0" "q \<notin> A" using Cons.prems assms by (auto simp: kmem_inv_def page_ok_def)
    have "load64 m q = load64 (km_mem k) q"
    proof (rule load64_cong)
      fix x assume x: "q \<le> x" "x < q + 8"
      have "\<not> (p \<le> x \<and> x < p + PGSIZE)" if p: "p \<in> A" for p
      proof -
        have "p mod PGSIZE = 0" "p \<noteq> q" using p q(2) assms(3) by auto
        from page_apart [OF this(1) q(1) this(2) x(1)] x(2) show ?thesis by auto
      qed
      then show "m x = km_mem k x" using assms(2) unfolding same_outside_def in_pages_def by blast
    qed
    with Cons show ?case by simp
  qed simp
  then show ?thesis using assms(1) by (auto simp: kmem_inv_def)
qed

lemma tables_ok_cong:
  assumes "tables_ok m tab" "\<And>p i. p \<in> ran tab \<Longrightarrow> i < 512 \<Longrightarrow> pentry m' p i = pentry m p i"
  shows "tables_ok m' tab"
proof -
  have "pentry m' p i = pentry m p i" if "tab ps = Some p" "i < 512" for ps p i
    using assms(2) that by (auto simp: ran_def)
  with assms(1) show ?thesis unfolding tables_ok_def by (simp cong: option.case_cong)
qed

lemma table_added:
  assumes ok: "tables_ok m tab" and ps: "tab ps = Some p" "length ps < 2" "i < 512" "tab (ps @ [i]) = None"
    and q: "q \<notin> ran tab"
    and m': "\<And>r j. r \<in> ran tab \<Longrightarrow> j < 512 \<Longrightarrow> pentry m' r j = (if r = p \<and> j = i then PA2PTE q OR 1 else pentry m r j)"
      "\<And>j. j < 512 \<Longrightarrow> pentry m' q j = 0"
  shows "tables_ok m' (tab(ps @ [i] \<mapsto> q))"
  unfolding tables_ok_def
proof (intro conjI allI impI)
  let ?tab = "tab(ps @ [i] \<mapsto> q)"
  note D = tables_okD [OF ok]
  show "?tab [] \<noteq> None" using D(1) by simp
  show "length qs \<le> 2" "set qs \<subseteq> {..<512}" if "?tab qs = Some r" for qs r
    using that D(2,3) ps by (auto split: if_splits)
  show "?tab qs \<noteq> None" if "?tab (qs @ [j]) \<noteq> None" for qs j
    using that D(4) ps by (auto split: if_splits)
  show "case ?tab (qs @ [j]) of None \<Rightarrow> \<not> has (pentry m' r j) 1 | Some s \<Rightarrow> pentry m' r j = PA2PTE s OR 1"
    if r: "?tab qs = Some r" and l: "length qs < 2" "j < 512" for qs r j
  proof (cases "qs = ps @ [i]")
    case True
    have "tab ((ps @ [i]) @ [j]) = None" using D(4) [of "ps @ [i]" j] ps(4) by (cases "tab ((ps @ [i]) @ [j])") auto
    then show ?thesis using r l(2) m'(2) True by (simp add: has_def)
  next
    case False
    then have qs: "tab qs = Some r" "r \<in> ran tab" using r by (auto simp: ran_def)
    have "r = p \<longleftrightarrow> qs = ps" using D(7) qs(1) ps(1) by auto
    then show ?thesis
      using D(5,6) [OF qs(1) l] m'(1) [OF qs(2) l(2)] by (auto split: option.splits)
  qed
  show "inj_on ?tab (dom ?tab)"
    using ok q unfolding tables_ok_def by (auto simp: inj_on_def ran_def split: if_splits)
qed

section \<open>Walking\<close>

lemma walk_from_find:
  assumes "tables_ok (km_mem k) tab" "\<forall>p \<in> ran tab. page_ok end p" "tab ps = Some p" "length ps + l = 2" "l \<le> 2"
  shows "walk_from False va l p k = VRet ((case tab (ps @ map (\<lambda>j. PX j va) (rev [1..<Suc l])) of None \<Rightarrow> 0 | Some q \<Rightarrow> q + 8 * PX 0 va), k)"
  using assms(3-)
proof (induction l arbitrary: ps p)
  case 0
  then show ?case by (simp add: vret_def)
next
  case (Suc l)
  note D = tables_okD [OF assms(1)]
  let ?i = "PX (Suc l) va"
  have path: "ps @ map (\<lambda>j. PX j va) (rev [1..<Suc (Suc l)]) = (ps @ [?i]) @ map (\<lambda>j. PX j va) (rev [1..<Suc l])"
    by simp
  have len: "length ps < 2" using Suc.prems by simp
  show ?case
  proof (cases "tab (ps @ [?i])")
    case None
    have "tab ((ps @ [?i]) @ rs) = None" for rs
    proof (induction rs rule: rev_induct)
      case (snoc r rs)
      then show ?case using D(4) [of "(ps @ [?i]) @ rs" r] by (cases "tab (((ps @ [?i]) @ rs) @ [r])") auto
    qed (simp add: None)
    with D(5) [OF Suc.prems(1) len PX_less None] show ?thesis
      unfolding path by (simp add: Let_def vthen_def v_load_def vret_def pentry_def [symmetric])
  next
    case (Some q)
    have "page_ok end q" using assms(2) Some by (auto simp: ran_def)
    with D(6) [OF Suc.prems(1) len PX_less Some] Suc.IH [OF Some] Suc.prems show ?thesis
      unfolding path by (simp add: Let_def vthen_def v_load_def pentry_def [symmetric] table_entry del: upt_Suc)
  qed
qed

lemma walk_find:
  assumes ok: "vm_ok end k fl tab" and root: "tab [] = Some root" and va: "va < MAXVA"
  shows "walk root va False k = VRet ((case entry_of tab va of None \<Rightarrow> 0 | Some a \<Rightarrow> a), k)"
proof -
  have "rev [1..<Suc 2] = [2, 1 :: nat]" by (simp add: numeral_2_eq_2)
  then have "walk_from False va 2 root k = VRet ((case tab [PX 2 va, PX 1 va] of None \<Rightarrow> 0 | Some q \<Rightarrow> q + 8 * PX 0 va), k)"
    using walk_from_find [of k tab "end" "[]" root 2 va] ok root by (simp add: vm_ok_def)
  then show ?thesis using va by (simp add: walk_def entry_of_def split: option.splits)
qed

text \<open>A missing table is taken from the allocator, cleared and entered.\<close>

lemma new_table:
  assumes ok: "vm_ok end k fl tab" and ps: "tab ps = Some p" "length ps < 2" "i < 512" "tab (ps @ [i]) = None"
    and al: "kalloc k = (q, k1)" "q \<noteq> 0"
    and k2: "k2 = k1\<lparr>km_mem := store64 (p + 8 * i) (PA2PTE q OR 1) (fill q PGSIZE 0 (km_mem k1))\<rparr>"
  obtains fl1 where "vm_ok end k2 fl1 (tab(ps @ [i] \<mapsto> q))" "grows k fl tab k2 fl1 (tab(ps @ [i] \<mapsto> q))"
proof -
  note D = vm_okD [OF ok]
  obtain fl1 where fl1: "fl = q # fl1" "kmem_inv end k1 fl1" "km_mem k1 = fill q PGSIZE 5 (km_mem k)"
    using kalloc_page [OF D(1) al] .
  let ?tab = "tab(ps @ [i] \<mapsto> q)"
  have q: "page_ok end q" "q \<notin> ran tab" "q \<notin> set fl1"
    using D(1) ok fl1(1) by (auto simp: kmem_inv_def vm_ok_def)
  have al8: "r mod PGSIZE = 0" if "r \<in> ran ?tab" for r
    using that D(3) q(1) by (auto simp: ran_def page_ok_def split: if_splits)
  have p: "p \<in> ran ?tab" "p \<in> ran tab" "p \<noteq> q" using ps q(2) by (auto simp: ran_def)
  have q': "q \<in> ran ?tab" by (auto simp: ran_def)
  have ran: "ran ?tab = insert q (ran tab)" by (rule ran_map_upd [of tab, OF ps(4)])
  have e: "pentry (km_mem k2) r j = (if r = p \<and> j = i then PA2PTE q OR 1 else if r = q then 0 else pentry (km_mem k) r j)"
    if r: "r \<in> ran ?tab" "j < 512" for r j
    using that al8 [OF r(1)] al8 [OF p(1)] al8 [OF q'] p(3) ps(3) PTE2PA_table(2) [OF q(1)]
    by (simp add: k2 fl1(3) pentry_store pentry_zero pentry_fill_other)
  have t: "tables_ok (km_mem k2) ?tab"
    by (rule table_added [OF D(2) ps q(2)]) (use e p q(2) q' ran in auto)
  have out: "same_outside (ran ?tab) (km_mem k) (km_mem k2)"
    using p(1) q' ps(3) unfolding same_outside_def in_pages_def k2 fl1(3) by (auto simp: store64_def fill_def)
  have out1: "same_outside (ran ?tab) (km_mem k1) (km_mem k2)"
    using p(1) q' ps(3) unfolding same_outside_def in_pages_def k2 fl1(3) by (auto simp: store64_def fill_def)
  have "kmem_inv end (k1\<lparr>km_mem := km_mem k2\<rparr>) fl1"
    by (rule kmem_inv_mem [OF fl1(2) out1]) (use al8 ran q ok fl1(1) in \<open>auto simp: vm_ok_def\<close>)
  then have inv: "kmem_inv end k2 fl1" by (simp add: k2)
  have dis: "ran ?tab \<inter> set fl1 = {}" using ok ran q fl1(1) by (auto simp: vm_ok_def)
  have look: "lookup (km_mem k2) ?tab va = lookup (km_mem k) tab va" for va
  proof (cases "[PX 2 va, PX 1 va] = ps @ [i]")
    case True
    show ?thesis unfolding lookup_pentry True ps(4) using e [OF q'] p(3) by simp
  next
    case False
    have eq: "?tab [PX 2 va, PX 1 va] = tab [PX 2 va, PX 1 va]" by (rule fun_upd_other [OF False])
    show ?thesis
    proof (cases "tab [PX 2 va, PX 1 va]")
      case (Some r)
      have r: "r \<in> ran tab" "r \<in> ran ?tab" using Some ran by (auto simp: ran_def)
      have "r \<noteq> p" using tables_okD(7) [OF D(2) Some, of ps] ps(1,2) by auto
      then show ?thesis unfolding lookup_pentry eq Some using e [OF r(2)] r(1) q(2) by auto
    qed (simp only: lookup_pentry eq option.case)
  qed
  have "vm_ok end k2 fl1 ?tab"
    unfolding vm_ok_def using inv t dis ran q(1) ok by (auto simp: vm_ok_def)
  moreover have "grows k fl tab k2 fl1 ?tab"
    unfolding grows_def using look ran fl1(1) q(2) dis out ps(4) by (auto simp: map_le_def)
  ultimately show thesis by (rule that)
qed

lemma walk_step:
  assumes ok: "vm_ok end k fl tab" and ps: "tab ps = Some p" "length ps < 2"
    and next_level: "\<And>k' fl' tab' q. vm_ok end k' fl' tab' \<Longrightarrow> grows k fl tab k' fl' tab' \<Longrightarrow> tab' (ps @ [PX (Suc l) va]) = Some q \<Longrightarrow>
      vruns (walk_from True va l q) k' Q"
    and full: "fl = [] \<Longrightarrow> Q 0 k"
  shows "vruns (walk_from True va (Suc l) p) k Q"
proof -
  let ?i = "PX (Suc l) va"
  note D = vm_okD [OF ok]
  have here: "grows k fl tab k fl tab" using ok by (intro grows_refl) (simp add: vm_ok_def)
  show ?thesis
  proof (cases "tab (ps @ [?i])")
    case (Some q)
    then show ?thesis
      using next_level [OF ok here Some] tables_okD(6) [OF D(2) ps PX_less Some] D(3) [OF Some]
      by (simp add: Let_def vruns_then pentry_def [symmetric] table_entry)
  next
    case None
    obtain q k1 where al: "kalloc k = (q, k1)" by (cases "kalloc k")
    show ?thesis
    proof (cases "q = 0")
      case True
      with kalloc_none [OF D(1)] al full tables_okD(5) [OF D(2) ps PX_less None] show ?thesis
        by (simp add: Let_def vruns_then pentry_def [symmetric])
    next
      case False
      let ?k2 = "k1\<lparr>km_mem := store64 (p + 8 * ?i) (PA2PTE q OR 1) (fill q PGSIZE 0 (km_mem k1))\<rparr>"
      obtain fl1 where "vm_ok end ?k2 fl1 (tab(ps @ [?i] \<mapsto> q))" "grows k fl tab ?k2 fl1 (tab(ps @ [?i] \<mapsto> q))"
        using new_table [OF ok ps PX_less None al False refl] .
      from next_level [OF this] tables_okD(5) [OF D(2) ps PX_less None] al False show ?thesis
        by (simp add: Let_def vruns_then pentry_def [symmetric])
    qed
  qed
qed

text \<open>
  \<open>walk\<close> with allocation: the address of the entry, with tables added where they were missing, or 0 when
  no page is free any more.
\<close>

lemma walk_alloc:
  assumes ok: "vm_ok end k fl tab" and root: "tab [] = Some root" and va: "va < MAXVA"
  shows "vruns (walk root va True) k (\<lambda>a k'. \<exists>fl' tab'. vm_ok end k' fl' tab' \<and> grows k fl tab k' fl' tab'
     \<and> (if a = 0 then fl' = [] else entry_of tab' va = Some a))"
proof -
  have start: "walk root va True = walk_from True va (Suc (Suc 0)) root"
    using va by (simp add: walk_def numeral_2_eq_2)
  have here: "grows k fl tab k fl tab" using ok by (intro grows_refl) (simp add: vm_ok_def)
  show ?thesis
    unfolding start
  proof (rule walk_step [OF ok root])
    fix k1 fl1 tab1 q
    assume 1: "vm_ok end k1 fl1 tab1" "grows k fl tab k1 fl1 tab1" "tab1 ([] @ [PX (Suc (Suc 0)) va]) = Some q"
    show "vruns (walk_from True va (Suc 0) q) k1 (\<lambda>a k'. \<exists>fl' tab'. vm_ok end k' fl' tab' \<and> grows k fl tab k' fl' tab'
       \<and> (if a = 0 then fl' = [] else entry_of tab' va = Some a))"
    proof (rule walk_step [OF 1(1,3)])
      fix k2 fl2 tab2 r
      assume 2: "vm_ok end k2 fl2 tab2" "grows k1 fl1 tab1 k2 fl2 tab2" "tab2 (([] @ [PX (Suc (Suc 0)) va]) @ [PX (Suc 0) va]) = Some r"
      have "r > 0" using vm_okD(3) [OF 2(1,3)] by (simp add: page_ok_def)
      with 2 grows_trans [OF 1(2) 2(2)] show "vruns (walk_from True va 0 r) k2 (\<lambda>a k'. \<exists>fl' tab'. vm_ok end k' fl' tab' \<and> grows k fl tab k' fl' tab'
         \<and> (if a = 0 then fl' = [] else entry_of tab' va = Some a))"
        by (simp add: entry_of_def numeral_2_eq_2) blast
    qed (use 1 in auto)
  qed (use ok here in auto)
qed

end
