(* ===== verification/Vm_Maps.thy ===== *)
theory Vm_Maps
  imports Vm_Tables
begin

text \<open>
  Mapping and unmapping: what \<open>mappages\<close>, \<open>uvmunmap\<close>, \<open>uvmalloc\<close> and \<open>uvmdealloc\<close> do to the entries of an
  address space, to its frames and to the free pages.
\<close>

section \<open>Virtual pages\<close>

lemma PX_number:
  assumes "va < MAXVA"
  shows "va div PGSIZE = (PX 2 va * 512 + PX 1 va) * 512 + PX 0 va"
proof -
  define v where "v = va div PGSIZE"
  have v: "v < 2 ^ 26" using assms by (simp add: v_def)
  have "PX 0 va = v mod 512" "PX 1 va = v div 512 mod 512" "PX 2 va = v div 512 div 512 mod 512"
    by (simp_all add: PX_div v_def div_mult2_eq [symmetric])
  moreover have "v div 512 div 512 mod 512 = v div 512 div 512" using v by simp
  moreover have "(v div 512 div 512 * 512 + v div 512 mod 512) * 512 + v mod 512 = v" by simp
  ultimately show ?thesis by (simp add: v_def)
qed

lemma same_page_iff:
  assumes "va < MAXVA" "w < MAXVA"
  shows "va div PGSIZE = w div PGSIZE \<longleftrightarrow> PX 2 va = PX 2 w \<and> PX 1 va = PX 1 w \<and> PX 0 va = PX 0 w"
proof
  assume "va div PGSIZE = w div PGSIZE"
  moreover have "PX l x = x div PGSIZE div 2 ^ (9 * l) mod 512" for l x
    by (simp add: PX_div power_add div_mult2_eq)
  ultimately show "PX 2 va = PX 2 w \<and> PX 1 va = PX 1 w \<and> PX 0 va = PX 0 w" by metis
qed (use PX_number [OF assms(1)] PX_number [OF assms(2)] in simp)

lemma lookup_page: "va < MAXVA \<Longrightarrow> w < MAXVA \<Longrightarrow> va div PGSIZE = w div PGSIZE \<Longrightarrow> lookup m tab va = lookup m tab w"
  unfolding lookup_pentry using same_page_iff [of va w] by (auto split: option.splits)

section \<open>Setting an entry\<close>

lemma set_entry:
  assumes ok: "vm_ok end k fl tab" and a: "entry_of tab va = Some a" and va: "va < MAXVA" and v: "v < 2 ^ 64"
  shows "vm_ok end (k\<lparr>km_mem := store64 a v (km_mem k)\<rparr>) fl tab"
    "w < MAXVA \<Longrightarrow> lookup (store64 a v (km_mem k)) tab w = (if w div PGSIZE = va div PGSIZE then v else lookup (km_mem k) tab w)"
    "same_outside (ran tab) (km_mem k) (store64 a v (km_mem k))"
proof -
  note D = vm_okD [OF ok] and T = tables_okD [OF vm_okD(2) [OF ok]]
  obtain p where p: "tab [PX 2 va, PX 1 va] = Some p" "a = p + 8 * PX 0 va"
    using a by (auto simp: entry_of_def)
  have al: "r mod PGSIZE = 0" if "tab ps = Some r" for ps r
    using D(3) [OF that] by (simp add: page_ok_def)
  have e: "pentry (store64 a v (km_mem k)) r j = (if r = p \<and> j = PX 0 va then v else pentry (km_mem k) r j)"
    if "tab ps = Some r" "j < 512" for ps r j
    using pentry_store [OF al [OF p(1)] al [OF that(1)] PX_less that(2) v] by (auto simp: p(2))
  have inner: "pentry (store64 a v (km_mem k)) r j = pentry (km_mem k) r j"
    if "tab ps = Some r" "length ps < 2" "j < 512" for ps r j
    using e [OF that(1,3)] T(7) [OF that(1), of "[PX 2 va, PX 1 va]"] p(1) that(2) by auto
  have t: "tables_ok (store64 a v (km_mem k)) tab"
    using D(2) inner unfolding tables_ok_def by (simp cong: option.case_cong)
  show out: "same_outside (ran tab) (km_mem k) (store64 a v (km_mem k))"
    unfolding same_outside_def in_pages_def
  proof (intro allI impI)
    fix x assume "\<not> (\<exists>q \<in> ran tab. q \<le> x \<and> x < q + PGSIZE)"
    then have "\<not> (p \<le> x \<and> x < p + PGSIZE)" using ranI [of tab, OF p(1)] by blast
    moreover have "PX 0 va \<le> 511" using PX_less [of 0 va] by linarith
    ultimately show "store64 a v (km_mem k) x = km_mem k x" by (auto simp: store64_def p(2))
  qed
  have "kmem_inv end (k\<lparr>km_mem := store64 a v (km_mem k)\<rparr>) fl"
    by (rule kmem_inv_mem [OF D(1) out]) (use ok al in \<open>auto simp: vm_ok_def ran_def\<close>)
  with t ok show "vm_ok end (k\<lparr>km_mem := store64 a v (km_mem k)\<rparr>) fl tab" by (simp add: vm_ok_def)
  show "lookup (store64 a v (km_mem k)) tab w = (if w div PGSIZE = va div PGSIZE then v else lookup (km_mem k) tab w)"
    if w: "w < MAXVA"
  proof (cases "tab [PX 2 w, PX 1 w]")
    case None
    have "w div PGSIZE \<noteq> va div PGSIZE"
    proof
      assume "w div PGSIZE = va div PGSIZE"
      then have "PX 2 w = PX 2 va \<and> PX 1 w = PX 1 va" using same_page_iff [OF w va] by blast
      with p(1) None show False by simp
    qed
    with None show ?thesis by (simp add: lookup_pentry)
  next
    case (Some r)
    have "r = p \<longleftrightarrow> PX 2 w = PX 2 va \<and> PX 1 w = PX 1 va" using T(7) [OF Some, of "[PX 2 va, PX 1 va]"] p(1) Some by auto
    then show ?thesis unfolding lookup_pentry Some option.case same_page_iff [OF w va]
      using e [OF Some, of "PX 0 w"] by auto
  qed
qed

section \<open>Mapping\<close>

text \<open>The pages of new tables came out of the free ones; the entries may differ.\<close>

definition spawns :: "kmem \<Rightarrow> nat list \<Rightarrow> tables \<Rightarrow> kmem \<Rightarrow> nat list \<Rightarrow> tables \<Rightarrow> bool" where
  "spawns k fl tab k' fl' tab' \<longleftrightarrow> tab \<subseteq>\<^sub>m tab' \<and> set fl = set fl' \<union> (ran tab' - ran tab) \<and> set fl' \<inter> ran tab' = {}
     \<and> same_outside (ran tab') (km_mem k) (km_mem k')"

lemma grows_spawns: "grows k fl tab k' fl' tab' \<Longrightarrow> spawns k fl tab k' fl' tab'"
  by (simp add: grows_def spawns_def)

lemma spawns_trans:
  assumes "spawns k fl tab k1 fl1 tab1" "spawns k1 fl1 tab1 k2 fl2 tab2"
  shows "spawns k fl tab k2 fl2 tab2"
proof -
  have r: "ran tab \<subseteq> ran tab1" "ran tab1 \<subseteq> ran tab2" using assms ran_mono unfolding spawns_def by blast+
  have "same_outside (ran tab2) (km_mem k) (km_mem k2)"
    using assms r same_outside_trans [of "ran tab1" "km_mem k" "km_mem k1" "ran tab2" "km_mem k2" "ran tab2"]
    unfolding spawns_def by blast
  then show ?thesis using assms r unfolding spawns_def by (auto intro: map_le_trans)
qed

lemma spawns_store: "spawns k fl tab k1 fl1 tab1 \<Longrightarrow> same_outside (ran tab1) (km_mem k1) m \<Longrightarrow> spawns k fl tab (k1\<lparr>km_mem := m\<rparr>) fl1 tab1"
  unfolding spawns_def using same_outside_trans [of "ran tab1" "km_mem k" "km_mem k1" "ran tab1" m "ran tab1"] by simp

definition mapped_from :: "nat \<Rightarrow> nat \<Rightarrow> nat \<Rightarrow> nat \<Rightarrow> (nat \<Rightarrow> nat) \<Rightarrow> nat \<Rightarrow> nat" where
  "mapped_from va n pa perm M w = (if va \<le> w \<and> w < va + n then PA2PTE (pa + (PGROUNDDOWN w - va)) OR perm OR 1 else M w)"

lemma page_index: "a mod PGSIZE = 0 \<Longrightarrow> w div PGSIZE = a div PGSIZE \<longleftrightarrow> a \<le> w \<and> w < a + PGSIZE"
proof -
  assume "a mod PGSIZE = 0"
  then obtain q where a: "a = q * PGSIZE" by (auto simp: mult.commute elim!: dvdE)
  show ?thesis unfolding a using div_nat_eqI [of PGSIZE q w] dividend_less_div_times [of PGSIZE w] div_times_less_eq_dividend [of w PGSIZE]
    by (auto simp: algebra_simps)
qed

lemma PGROUNDDOWN_page: "a mod PGSIZE = 0 \<Longrightarrow> a \<le> w \<Longrightarrow> w < a + PGSIZE \<Longrightarrow> PGROUNDDOWN w = a"
  using page_index [of a w] minus_mod_eq_div_mult [of w PGSIZE] by (auto simp: PGROUNDDOWN_def elim!: dvdE)

lemma mappages_from_spec:
  assumes "vm_ok end k fl tab" "tab [] = Some root" "a mod PGSIZE = 0" "final mod PGSIZE = 0" "a \<le> final" "final < MAXVA"
    "pa mod PGSIZE = 0" "pa + (final - a) < 2 ^ 56" "perm < 1024"
    "\<And>w. a \<le> w \<Longrightarrow> w < final + PGSIZE \<Longrightarrow> \<not> has (lookup (km_mem k) tab w) 1"
  shows "vruns (mappages_from root a final pa perm) k (\<lambda>r k'. \<exists>fl' tab' n. vm_ok end k' fl' tab' \<and> spawns k fl tab k' fl' tab'
     \<and> n mod PGSIZE = 0 \<and> (if r = 0 then n = final + PGSIZE - a else r = -1 \<and> fl' = [] \<and> n \<le> final - a)
     \<and> (\<forall>w < MAXVA. lookup (km_mem k') tab' w = mapped_from a n pa perm (lookup (km_mem k) tab) w))"
  using assms
proof (induction "final - a" arbitrary: a pa k fl tab rule: less_induct)
  case less
  note ok = less.prems(1) and root = less.prems(2)
  have a: "a < MAXVA" using less.prems by simp
  have al: "final = a \<or> a + PGSIZE \<le> final" using next_multiple [OF less.prems(3,4)] less.prems(5) by linarith
  let ?Q = "\<lambda>(r :: int) k'. \<exists>fl' tab' n. vm_ok end k' fl' tab' \<and> spawns k fl tab k' fl' tab'
     \<and> n mod PGSIZE = 0 \<and> (if r = 0 then n = final + PGSIZE - a else r = -1 \<and> fl' = [] \<and> n \<le> final - a)
     \<and> (\<forall>w < MAXVA. lookup (km_mem k') tab' w = mapped_from a n pa perm (lookup (km_mem k) tab) w)"
  have body: "vruns (if pte = 0 then vret (-1)
        else vthen (v_load pte) (\<lambda>e.
          if has e 1 then vpanic ''mappages: remap''
          else vthen (v_store pte (PA2PTE pa OR perm OR 1)) (\<lambda>_.
            if a = final then vret 0
            else mappages_from root (a + PGSIZE) final ((pa + PGSIZE) mod 2 ^ 64) perm))) k1 ?Q"
    if ok1: "vm_ok end k1 fl1 tab1" and gr: "grows k fl tab k1 fl1 tab1"
      and pte: "if pte = 0 then fl1 = [] else entry_of tab1 a = Some pte" for pte k1 fl1 tab1
  proof (cases "pte = 0")
    case True
    have "?Q (-1) k1" using ok1 pte grows_spawns [OF gr] gr True
      by (intro exI [of _ fl1] exI [of _ tab1] exI [of _ 0]) (simp add: mapped_from_def grows_def)
    with True show ?thesis by simp
  next
    case False
    have e: "entry_of tab1 a = Some pte" using pte False by simp
    have "lookup (km_mem k1) tab1 a = load64 (km_mem k1) pte" by (simp add: lookup_def e)
    moreover have "\<not> has (lookup (km_mem k1) tab1 a) 1" using gr less.prems(5,10) by (simp add: grows_def)
    ultimately have free: "\<not> has (load64 (km_mem k1) pte) 1" by simp
    let ?v = "PA2PTE pa OR perm OR 1"
    have v: "?v < 2 ^ 64" using PTE_make_less [of pa perm] less.prems(8,9) by simp
    let ?k2 = "k1\<lparr>km_mem := store64 pte ?v (km_mem k1)\<rparr>"
    note set = set_entry [OF ok1 e a v]
    have sp: "spawns k fl tab ?k2 fl1 tab1" by (rule spawns_store [OF grows_spawns [OF gr] set(3)])
    have look: "lookup (km_mem ?k2) tab1 w = mapped_from a PGSIZE pa perm (lookup (km_mem k) tab) w" if w: "w < MAXVA" for w
      using set(2) [OF w] gr PGROUNDDOWN_page [OF less.prems(3), of w]
      by (auto simp: mapped_from_def grows_def page_index [OF less.prems(3)])
    show ?thesis
    proof (cases "a = final")
      case True
      have "?Q 0 ?k2" using set(1) sp look True
        by (intro exI [of _ fl1] exI [of _ tab1] exI [of _ PGSIZE]) simp
      then show ?thesis using False free True by (simp add: vruns_then)
    next
      case neq: False
      let ?a = "a + PGSIZE" and ?pa = "pa + PGSIZE"
      have le: "?a \<le> final" using al neq by simp
      have pa: "?pa mod 2 ^ 64 = ?pa" using less.prems(8) le by simp
      have end_va: "final + PGSIZE \<le> MAXVA" using next_multiple [OF less.prems(4), of MAXVA] less.prems(6) by simp
      have root1: "tab1 [] = Some root" using gr root by (auto simp: grows_def map_le_def dom_def)
      have un: "\<not> has (lookup (km_mem ?k2) tab1 w) 1" if "?a \<le> w" "w < final + PGSIZE" for w
        using look [of w] that end_va less.prems(10) [of w] by (simp add: mapped_from_def)
      have "vruns (mappages_from root ?a final ?pa perm) ?k2 (\<lambda>r k'. \<exists>fl' tab' n. vm_ok end k' fl' tab' \<and> spawns ?k2 fl1 tab1 k' fl' tab'
         \<and> n mod PGSIZE = 0 \<and> (if r = 0 then n = final + PGSIZE - ?a else r = -1 \<and> fl' = [] \<and> n \<le> final - ?a)
         \<and> (\<forall>w < MAXVA. lookup (km_mem k') tab' w = mapped_from ?a n ?pa perm (lookup (km_mem ?k2) tab1) w))"
        by (rule less.hyps [OF _ set(1) root1])
           (use less.prems le un in \<open>simp_all add: mod_add_self2\<close>)
      then have "vruns (mappages_from root ?a final ?pa perm) ?k2 ?Q"
      proof (rule vruns_mono, elim exE conjE)
        fix r :: int and k' fl' tab' n
        assume r: "vm_ok end k' fl' tab'" "spawns ?k2 fl1 tab1 k' fl' tab'" "n mod PGSIZE = 0"
          "if r = 0 then n = final + PGSIZE - ?a else r = -1 \<and> fl' = [] \<and> n \<le> final - ?a"
          "\<forall>w < MAXVA. lookup (km_mem k') tab' w = mapped_from ?a n ?pa perm (lookup (km_mem ?k2) tab1) w"
        have "mapped_from ?a n ?pa perm (lookup (km_mem ?k2) tab1) w = mapped_from a (n + PGSIZE) pa perm (lookup (km_mem k) tab) w"
          if w: "w < MAXVA" for w
        proof (cases "?a \<le> w")
          case True
          have "?a div PGSIZE \<le> w div PGSIZE" using True by (rule div_le_mono)
          then have "?a \<le> PGROUNDDOWN w" using less.prems(3) unfolding PGROUNDDOWN_def minus_mod_eq_div_mult
            by (auto elim!: dvdE)
          with True look [OF w] show ?thesis by (simp add: mapped_from_def)
        qed (use look [OF w] in \<open>simp add: mapped_from_def\<close>)
        with r(5) have "\<forall>w < MAXVA. lookup (km_mem k') tab' w = mapped_from a (n + PGSIZE) pa perm (lookup (km_mem k) tab) w" by simp
        then show "?Q r k'"
          using r(1,3,4) spawns_trans [OF sp r(2)] le by (intro exI [of _ fl'] exI [of _ tab'] exI [of _ "n + PGSIZE"]) (auto simp: mod_add_self2)
      qed
      then show ?thesis using False free neq pa by (simp add: vruns_then)
    qed
  qed
  show ?case
    unfolding mappages_from.simps [of root a] if_not_P [OF a [unfolded not_le [symmetric]]] vruns_then [of "walk root a True"]
    by (rule vruns_mono [OF walk_alloc [OF ok root a]]) (elim exE conjE, rule body)
qed

lemma mappages_spec:
  assumes "vm_ok end k fl tab" "tab [] = Some root" "va mod PGSIZE = 0" "sz mod PGSIZE = 0" "0 < sz" "va + sz \<le> MAXVA"
    "pa mod PGSIZE = 0" "pa + sz \<le> 2 ^ 56" "perm < 1024"
    "\<And>w. va \<le> w \<Longrightarrow> w < va + sz \<Longrightarrow> \<not> has (lookup (km_mem k) tab w) 1"
  shows "vruns (mappages root va sz pa perm) k (\<lambda>r k'. \<exists>fl' tab' n. vm_ok end k' fl' tab' \<and> spawns k fl tab k' fl' tab'
     \<and> n mod PGSIZE = 0 \<and> (if r = 0 then n = sz else r = -1 \<and> fl' = [] \<and> n < sz)
     \<and> (\<forall>w < MAXVA. lookup (km_mem k') tab' w = mapped_from va n pa perm (lookup (km_mem k) tab) w))"
proof -
  let ?final = "va + sz - PGSIZE"
  have sz: "PGSIZE \<le> sz" using next_multiple [of 0 sz] assms(4,5) by simp
  have "(PGSIZE :: nat) dvd va + sz - PGSIZE" using assms(3,4) by (intro dvd_diff_nat dvd_add) (simp_all add: mod_eq_0_iff_dvd)
  then have f: "?final mod PGSIZE = 0" "va \<le> ?final" "?final < MAXVA" "?final + PGSIZE = va + sz" "?final mod 2 ^ 64 = ?final"
    using assms(6) sz by (simp_all add: mod_eq_0_iff_dvd)
  have eq: "mappages root va sz pa perm = mappages_from root va ?final pa perm"
    using assms(3-5) f(5) by (simp add: mappages_def)
  show ?thesis
    unfolding eq
  proof (rule vruns_mono [OF mappages_from_spec [OF assms(1-3) f(1-3) assms(7) _ assms(9)]], goal_cases)
    case (3 r k')
    then obtain fl' tab' n where r: "vm_ok end k' fl' tab'" "spawns k fl tab k' fl' tab'" "n mod PGSIZE = 0"
      "if r = 0 then n = ?final + PGSIZE - va else r = -1 \<and> fl' = [] \<and> n \<le> ?final - va"
      "\<forall>w < MAXVA. lookup (km_mem k') tab' w = mapped_from va n pa perm (lookup (km_mem k) tab) w" by (elim exE conjE) (rule that)
    have "if r = 0 then n = sz else r = -1 \<and> fl' = [] \<and> n < sz" using r(4) f(2,4) sz by (auto split: if_splits)
    with r show ?case by (intro exI [of _ fl'] exI [of _ tab'] exI [of _ n] conjI)
  qed (use assms(8,10) f in auto)
qed

section \<open>Frames\<close>

definition valid :: "phys \<Rightarrow> tables \<Rightarrow> nat \<Rightarrow> bool" where
  "valid m tab w \<longleftrightarrow> has (lookup m tab w) 1"

definition frame :: "phys \<Rightarrow> tables \<Rightarrow> nat \<Rightarrow> nat" where
  "frame m tab w = PTE2PA (lookup m tab w)"

text \<open>The mapped pages from \<open>a\<close> up to \<open>b\<close>, and the frames behind them.\<close>

definition vpages :: "phys \<Rightarrow> tables \<Rightarrow> nat \<Rightarrow> nat \<Rightarrow> nat set" where
  "vpages m tab a b = {w. w mod PGSIZE = 0 \<and> a \<le> w \<and> w < b \<and> valid m tab w}"

definition frames :: "phys \<Rightarrow> tables \<Rightarrow> nat \<Rightarrow> nat \<Rightarrow> nat set" where
  "frames m tab a b = frame m tab ` vpages m tab a b"

text \<open>The address space owns these frames: no two pages share one, and none is free or a table.\<close>

definition owned :: "nat \<Rightarrow> nat list \<Rightarrow> phys \<Rightarrow> tables \<Rightarrow> nat \<Rightarrow> nat \<Rightarrow> bool" where
  "owned end fl m tab a b \<longleftrightarrow> inj_on (frame m tab) (vpages m tab a b)
     \<and> (\<forall>p \<in> frames m tab a b. page_ok end p \<and> p \<notin> set fl \<and> p \<notin> ran tab)"

lemma other_memory:
  assumes ok: "vm_ok end k fl tab" and out: "same_outside A (km_mem k) m" and A: "\<forall>p \<in> A. p mod PGSIZE = 0" "A \<inter> ran tab = {}"
  shows "tables_ok m tab" "lookup m tab w = lookup (km_mem k) tab w"
proof -
  note D = vm_okD [OF ok]
  have e: "pentry m p i = pentry (km_mem k) p i" if p: "tab ps = Some p" and i: "i < 512" for ps p i
  proof (rule pentry_cong [OF i])
    fix x assume x: "p \<le> x" "x < p + PGSIZE"
    have "\<not> (q \<le> x \<and> x < q + PGSIZE)" if q: "q \<in> A" for q
    proof -
      have "q \<noteq> p" using A(2) q ranI [of tab, OF p] by auto
      from page_apart [OF _ _ this x] q A(1) D(3) [OF p] show ?thesis by (auto simp: page_ok_def)
    qed
    then show "m x = km_mem k x" using out unfolding same_outside_def in_pages_def by blast
  qed
  show "tables_ok m tab" by (rule tables_ok_cong [OF D(2)]) (auto simp: ran_def e)
  show "lookup m tab w = lookup (km_mem k) tab w" using e [OF _ PX_less] by (simp add: lookup_pentry split: option.split)
qed

lemma kfree_page:
  assumes ok: "vm_ok end k fl tab" and p: "page_ok end p" "p \<notin> set fl" "p \<notin> ran tab"
  shows "vruns (v_kfree end p) k (\<lambda>_ k'. vm_ok end k' (p # fl) tab \<and> (\<forall>w. lookup (km_mem k') tab w = lookup (km_mem k) tab w)
     \<and> same_outside {p} (km_mem k) (km_mem k'))"
proof -
  obtain k' where k': "kfree end p k = Ok k'" "kmem_inv end k' (p # fl)"
    using kfree_inv [OF vm_okD(1) [OF ok] p(1,2)] .
  have out: "same_outside {p} (km_mem k) (km_mem k')"
    using k'(1) p(1) by (auto simp: kfree_def page_ok_def same_outside_def in_pages_def store64_def fill_def Let_def)
  note same = other_memory [OF ok out]
  have "vm_ok end k' (p # fl) tab" using k'(2) ok p same(1) by (auto simp: vm_ok_def page_ok_def)
  then show ?thesis using k'(1) out same(2) p by (simp add: vruns_def v_kfree_def page_ok_def)
qed

lemma entry_of_lookup: "valid m tab w \<Longrightarrow> \<exists>a. entry_of tab w = Some a \<and> load64 m a = lookup m tab w"
  by (auto simp: valid_def lookup_def has_def split: option.splits)

section \<open>Unmapping\<close>

lemma vpages_step:
  assumes "a mod PGSIZE = 0" "a < b"
  shows "vpages m tab a b = (if valid m tab a then {a} else {}) \<union> vpages m tab (a + PGSIZE) b"
proof -
  have le: "a \<le> w \<longleftrightarrow> w = a \<or> a + PGSIZE \<le> w" if "w mod PGSIZE = 0" for w
    using next_multiple [OF assms(1) that] by linarith
  have "w \<in> vpages m tab a b \<longleftrightarrow> w \<in> (if valid m tab a then {a} else {}) \<union> vpages m tab (a + PGSIZE) b" for w
    unfolding vpages_def mem_Collect_eq Un_iff using assms le [of w] by (cases "w = a") auto
  then show ?thesis by blast
qed

lemma vpages_cong:
  assumes "\<And>w. a \<le> w \<Longrightarrow> w < b \<Longrightarrow> lookup m' tab' w = lookup m tab w"
  shows "vpages m' tab' a b = vpages m tab a b" "frames m' tab' a b = frames m tab a b"
    "inj_on (frame m' tab') (vpages m' tab' a b) \<longleftrightarrow> inj_on (frame m tab) (vpages m tab a b)"
proof -
  show v: "vpages m' tab' a b = vpages m tab a b" using assms by (auto simp: vpages_def valid_def)
  have f: "frame m' tab' w = frame m tab w" if "w \<in> vpages m tab a b" for w
    using that assms by (simp add: vpages_def frame_def)
  show "frames m' tab' a b = frames m tab a b" unfolding frames_def v using f by simp
  show "inj_on (frame m' tab') (vpages m' tab' a b) \<longleftrightarrow> inj_on (frame m tab) (vpages m tab a b)"
    unfolding v by (rule inj_on_cong) (rule f)
qed

definition unmapped_in :: "nat \<Rightarrow> nat \<Rightarrow> kmem \<Rightarrow> tables \<Rightarrow> kmem \<Rightarrow> bool" where
  "unmapped_in a b k tab k' \<longleftrightarrow> (\<forall>w < MAXVA. lookup (km_mem k') tab w
     = (if a \<le> w \<and> w < b \<and> valid (km_mem k) tab w then 0 else lookup (km_mem k) tab w))"

lemma unmap_page:
  assumes ok: "vm_ok end k fl tab" and root: "tab [] = Some root" and a: "a mod PGSIZE = 0" "a < MAXVA"
    and own: "do_free \<and> valid (km_mem k) tab a \<longrightarrow> page_ok end p \<and> p \<notin> set fl \<and> p \<notin> ran tab"
    and F: "F = (if do_free \<and> valid (km_mem k) tab a then {frame (km_mem k) tab a} else {})"
    and p: "p = frame (km_mem k) tab a"
  shows "vruns (vthen (walk root a False) (\<lambda>pte.
          if pte = 0 then vret ()
          else vthen (v_load pte) (\<lambda>e.
            if \<not> has e 1 then vret ()
            else vthen (if do_free then v_kfree end (PTE2PA e) else vret ()) (\<lambda>_. v_store pte 0)))) k
     (\<lambda>_ k'. \<exists>fl'. vm_ok end k' fl' tab \<and> set fl' = set fl \<union> F \<and> unmapped_in a (a + PGSIZE) k tab k'
        \<and> same_outside (ran tab \<union> F) (km_mem k) (km_mem k'))"
proof -
  have same_valid: "valid (km_mem k) tab w \<longleftrightarrow> valid (km_mem k) tab a" if "a \<le> w" "w < a + PGSIZE" "w < MAXVA" for w
    using lookup_page [OF that(3) a(2), of "km_mem k" tab] that(1,2) page_index [OF a(1), of w] by (simp add: valid_def)
  show ?thesis
  proof (cases "valid (km_mem k) tab a")
  case False
  have same: "unmapped_in a (a + PGSIZE) k tab k"
    unfolding unmapped_in_def using False same_valid by metis
  have "(case entry_of tab a of None \<Rightarrow> 0 | Some q \<Rightarrow> q) = 0 \<or> \<not> has (load64 (km_mem k) (case entry_of tab a of None \<Rightarrow> 0 | Some q \<Rightarrow> q)) 1"
    using False by (auto simp: valid_def lookup_def split: option.splits)
  then show ?thesis using ok same False by (auto simp: vruns_then walk_find [OF ok root a(2)] vruns_def [of "walk root a False"] F intro!: exI [of _ fl])
next
  case True
  obtain e where e: "entry_of tab a = Some e" "load64 (km_mem k) e = lookup (km_mem k) tab a" using entry_of_lookup [OF True] by blast
  have epos: "e \<noteq> 0" using e(1) vm_okD(3) [OF ok] by (auto simp: entry_of_def page_ok_def)
  have free: "vruns (if do_free then v_kfree end p else vret ()) k (\<lambda>_ k1. \<exists>fl1. vm_ok end k1 fl1 tab \<and> set fl1 = set fl \<union> F
      \<and> (\<forall>w. lookup (km_mem k1) tab w = lookup (km_mem k) tab w) \<and> same_outside F (km_mem k) (km_mem k1))"
  proof (cases do_free)
    case df: True
    show ?thesis unfolding if_P [OF df]
      by (rule vruns_mono [OF kfree_page [OF ok]]) (use own p F df True in \<open>auto intro!: exI [of _ "p # fl"]\<close>)
  qed (use ok F in \<open>auto intro!: exI [of _ fl]\<close>)
  have step: "vruns (v_store e 0) k1 (\<lambda>_ k'. \<exists>fl'. vm_ok end k' fl' tab \<and> set fl' = set fl \<union> F \<and> unmapped_in a (a + PGSIZE) k tab k'
        \<and> same_outside (ran tab \<union> F) (km_mem k) (km_mem k'))"
    if 1: "vm_ok end k1 fl1 tab" "set fl1 = set fl \<union> F" "\<forall>w. lookup (km_mem k1) tab w = lookup (km_mem k) tab w"
      "same_outside F (km_mem k) (km_mem k1)" for k1 fl1
  proof -
    have "0 < (2 :: nat) ^ 64" by simp
    note set = set_entry [OF 1(1) e(1) a(2) this]
    have "unmapped_in a (a + PGSIZE) k tab (k1\<lparr>km_mem := store64 e 0 (km_mem k1)\<rparr>)"
      unfolding unmapped_in_def
    proof (intro allI impI)
      fix w assume w: "w < MAXVA"
      have "w div PGSIZE = a div PGSIZE \<longleftrightarrow> a \<le> w \<and> w < a + PGSIZE \<and> valid (km_mem k) tab w"
        using same_valid [OF _ _ w] True page_index [OF a(1), of w] by blast
      then show "lookup (km_mem (k1\<lparr>km_mem := store64 e 0 (km_mem k1)\<rparr>)) tab w
          = (if a \<le> w \<and> w < a + PGSIZE \<and> valid (km_mem k) tab w then 0 else lookup (km_mem k) tab w)"
        using set(2) [OF w] 1(3) by simp
    qed
    moreover have "same_outside (ran tab \<union> F) (km_mem k) (store64 e 0 (km_mem k1))"
      using same_outside_trans [OF 1(4) set(3)] by auto
    ultimately show ?thesis using set(1) 1(2) by (auto intro!: exI [of _ fl1])
  qed
  have pte: "walk root a False k = VRet (e, k)" by (simp add: walk_find [OF ok root a(2)] e(1))
  have "has (load64 (km_mem k) e) 1" "PTE2PA (load64 (km_mem k) e) = p" using True e(2) p by (simp_all add: valid_def frame_def)
  moreover have "vruns (vthen (if do_free then v_kfree end p else vret ()) (\<lambda>_. v_store e 0)) k
     (\<lambda>_ k'. \<exists>fl'. vm_ok end k' fl' tab \<and> set fl' = set fl \<union> F \<and> unmapped_in a (a + PGSIZE) k tab k'
        \<and> same_outside (ran tab \<union> F) (km_mem k) (km_mem k'))"
    unfolding vruns_then by (rule vruns_mono [OF free]) (elim exE conjE, rule step)
  ultimately show ?thesis
    using epos by (cases do_free; simp add: vruns_then vruns_def [of "walk root a False"] pte)
  qed
qed

lemma unmap_from_spec:
  assumes "vm_ok end k fl tab" "tab [] = Some root" "a mod PGSIZE = 0" "final mod PGSIZE = 0" "final \<le> MAXVA"
    "do_free \<Longrightarrow> owned end fl (km_mem k) tab a final"
  shows "vruns (uvmunmap_from end root a final do_free) k (\<lambda>_ k'. \<exists>fl'. vm_ok end k' fl' tab
     \<and> set fl' = set fl \<union> (if do_free then frames (km_mem k) tab a final else {}) \<and> unmapped_in a final k tab k'
     \<and> same_outside (ran tab \<union> (if do_free then frames (km_mem k) tab a final else {})) (km_mem k) (km_mem k'))"
  using assms
proof (induction "final - a" arbitrary: a k fl rule: less_induct)
  case less
  show ?case
  proof (cases "a < final")
    case False
    then have "frames (km_mem k) tab a final = {}" by (auto simp: frames_def vpages_def)
    with False less.prems(1) show ?thesis
      by (subst uvmunmap_from.simps) (auto simp: unmapped_in_def intro!: exI [of _ fl])
  next
    case True
    let ?b = "a + PGSIZE" and ?p = "frame (km_mem k) tab a"
    let ?F = "if do_free \<and> valid (km_mem k) tab a then {?p} else {}"
    have le: "?b \<le> final" by (rule next_multiple [OF less.prems(3,4) True])
    have va: "a < MAXVA" using True less.prems(5) by simp
    note split = vpages_step [OF less.prems(3) True, of "km_mem k" tab]
    have here: "a \<in> vpages (km_mem k) tab a final" if "valid (km_mem k) tab a" using that True less.prems(3) by (simp add: vpages_def)
    have own: "do_free \<and> valid (km_mem k) tab a \<longrightarrow> page_ok end ?p \<and> ?p \<notin> set fl \<and> ?p \<notin> ran tab"
      using less.prems(6) here by (auto simp: owned_def frames_def)
    show ?thesis
      unfolding uvmunmap_from.simps [of "end" root a] if_P [OF True] vruns_then [of _ "\<lambda>_. uvmunmap_from end root (a + PGSIZE) final do_free"]
    proof (rule vruns_mono [OF unmap_page [OF less.prems(1,2,3) va own refl refl]], elim exE conjE)
      fix u k1 fl1
      assume 1: "vm_ok end k1 fl1 tab" "set fl1 = set fl \<union> ?F" "unmapped_in a ?b k tab k1"
        "same_outside (ran tab \<union> ?F) (km_mem k) (km_mem k1)"
      have look: "lookup (km_mem k1) tab w = lookup (km_mem k) tab w" if "?b \<le> w" "w < final" for w
        using 1(3) that less.prems(5) by (simp add: unmapped_in_def)
      have same: "vpages (km_mem k1) tab ?b final = vpages (km_mem k) tab ?b final" "frames (km_mem k1) tab ?b final = frames (km_mem k) tab ?b final"
        "inj_on (frame (km_mem k1) tab) (vpages (km_mem k1) tab ?b final) \<longleftrightarrow> inj_on (frame (km_mem k) tab) (vpages (km_mem k) tab ?b final)"
        by (rule vpages_cong; rule look; assumption)+
      have rest: "frames (km_mem k) tab a final = (if valid (km_mem k) tab a then {?p} else {}) \<union> frames (km_mem k) tab ?b final"
        by (simp add: frames_def split)
      have own1: "owned end fl1 (km_mem k1) tab ?b final" if df: do_free
      proof -
        note own_a = less.prems(6) [OF df, unfolded owned_def]
        have inj: "inj_on (frame (km_mem k) tab) (vpages (km_mem k) tab ?b final)"
          using own_a inj_on_subset unfolding split by blast
        have "?p \<notin> frames (km_mem k) tab ?b final" if v: "valid (km_mem k) tab a"
        proof
          assume "?p \<in> frames (km_mem k) tab ?b final"
          then obtain w where w: "w \<in> vpages (km_mem k) tab ?b final" "frame (km_mem k) tab w = ?p" by (auto simp: frames_def)
          then have "w = a" using own_a here [OF v] split by (auto dest: inj_onD)
          with w(1) show False by (simp add: vpages_def)
        qed
        with inj own_a df show ?thesis unfolding owned_def same(2,3) 1(2) using rest by (auto split: if_splits)
      qed
      have "vruns (uvmunmap_from end root ?b final do_free) k1 (\<lambda>_ k'. \<exists>fl'. vm_ok end k' fl' tab
         \<and> set fl' = set fl1 \<union> (if do_free then frames (km_mem k1) tab ?b final else {}) \<and> unmapped_in ?b final k1 tab k'
         \<and> same_outside (ran tab \<union> (if do_free then frames (km_mem k1) tab ?b final else {})) (km_mem k1) (km_mem k'))"
        by (rule less.hyps [OF _ 1(1) less.prems(2) _ less.prems(4,5) own1]) (use le less.prems(3) in \<open>simp_all add: mod_add_self2\<close>)
      then show "vruns (uvmunmap_from end root ?b final do_free) k1 (\<lambda>_ k'. \<exists>fl'. vm_ok end k' fl' tab
         \<and> set fl' = set fl \<union> (if do_free then frames (km_mem k) tab a final else {}) \<and> unmapped_in a final k tab k'
         \<and> same_outside (ran tab \<union> (if do_free then frames (km_mem k) tab a final else {})) (km_mem k) (km_mem k'))"
      proof (rule vruns_mono, elim exE conjE)
        fix v k' fl'
        assume 2: "vm_ok end k' fl' tab" "set fl' = set fl1 \<union> (if do_free then frames (km_mem k1) tab ?b final else {})"
          "unmapped_in ?b final k1 tab k'"
          "same_outside (ran tab \<union> (if do_free then frames (km_mem k1) tab ?b final else {})) (km_mem k1) (km_mem k')"
        have "unmapped_in a final k tab k'"
          using 1(3) 2(3) le unfolding unmapped_in_def valid_def by (auto simp: has_def)
        moreover have "set fl' = set fl \<union> (if do_free then frames (km_mem k) tab a final else {})"
          using 1(2) 2(2) rest same(2) by auto
        moreover have "same_outside (ran tab \<union> (if do_free then frames (km_mem k) tab a final else {})) (km_mem k) (km_mem k')"
          by (rule same_outside_trans [OF 1(4) 2(4)]) (use rest same(2) in auto)
        ultimately show "\<exists>fl'. vm_ok end k' fl' tab
         \<and> set fl' = set fl \<union> (if do_free then frames (km_mem k) tab a final else {}) \<and> unmapped_in a final k tab k'
         \<and> same_outside (ran tab \<union> (if do_free then frames (km_mem k) tab a final else {})) (km_mem k) (km_mem k')"
          using 2(1) by blast
      qed
    qed
  qed
qed

end
