(* ===== verification/Vm_Pages.thy ===== *)
theory Vm_Pages
  imports Vm_Maps
begin

text \<open>
  User pages: a page taken from the allocator, filled and mapped, as \<open>uvmalloc\<close>, \<open>vmfault\<close> and \<open>uvmcopy\<close>
  do it, and the loops over such pages.
\<close>

abbreviation (input) user_top :: nat where "user_top \<equiv> TRAPFRAME"

text \<open>A consistent address space: its tables, and the frames of the user's part of it.\<close>

definition space_ok :: "nat \<Rightarrow> kmem \<Rightarrow> nat list \<Rightarrow> tables \<Rightarrow> bool" where
  "space_ok end k fl tab \<longleftrightarrow> vm_ok end k fl tab \<and> owned end fl (km_mem k) tab 0 user_top"

lemma space_okD:
  assumes "space_ok end k fl tab"
  shows "vm_ok end k fl tab" "inj_on (frame (km_mem k) tab) (vpages (km_mem k) tab 0 user_top)"
    "p \<in> frames (km_mem k) tab 0 user_top \<Longrightarrow> page_ok end p \<and> p \<notin> set fl \<and> p \<notin> ran tab"
  using assms by (auto simp: space_ok_def owned_def)

lemma frames_mono: "a' \<le> a \<Longrightarrow> b \<le> b' \<Longrightarrow> frames m tab a b \<subseteq> frames m tab a' b'"
  by (auto simp: frames_def vpages_def)

lemma owned_part: "space_ok end k fl tab \<Longrightarrow> b \<le> user_top \<Longrightarrow> owned end fl (km_mem k) tab a b"
  using frames_mono [of 0 a b user_top "km_mem k" tab] inj_on_subset [of "frame (km_mem k) tab" "vpages (km_mem k) tab 0 user_top" "vpages (km_mem k) tab a b"]
  unfolding space_ok_def owned_def by (force simp: vpages_def)

section \<open>One new page\<close>

text \<open>The page \<open>a\<close> is now the frame \<open>p\<close>, which was free; \<open>m\<close> is the memory from which tables and entries were changed.\<close>

definition page_added :: "nat \<Rightarrow> kmem \<Rightarrow> nat list \<Rightarrow> tables \<Rightarrow> phys \<Rightarrow> nat \<Rightarrow> nat \<Rightarrow> nat \<Rightarrow> kmem \<Rightarrow> nat list \<Rightarrow> tables \<Rightarrow> bool" where
  "page_added end k fl tab m a p perm k' fl' tab' \<longleftrightarrow> space_ok end k' fl' tab' \<and> tab \<subseteq>\<^sub>m tab'
     \<and> (\<forall>w < MAXVA. lookup (km_mem k') tab' w = (if a \<le> w \<and> w < a + PGSIZE then PA2PTE p OR perm OR 1 else lookup (km_mem k) tab w))
     \<and> set fl = insert p (set fl') \<union> (ran tab' - ran tab) \<and> p \<notin> set fl' \<and> p \<notin> ran tab' \<and> same_outside (ran tab') m (km_mem k')"

text \<open>No page was left for a table: nothing is mapped, and the frame is to be given back.\<close>

definition page_failed :: "nat \<Rightarrow> kmem \<Rightarrow> nat list \<Rightarrow> tables \<Rightarrow> phys \<Rightarrow> nat \<Rightarrow> kmem \<Rightarrow> tables \<Rightarrow> bool" where
  "page_failed end k fl tab m p k' tab' \<longleftrightarrow> space_ok end k' [] tab' \<and> tab \<subseteq>\<^sub>m tab'
     \<and> (\<forall>w < MAXVA. lookup (km_mem k') tab' w = lookup (km_mem k) tab w)
     \<and> set fl = insert p (ran tab' - ran tab) \<and> p \<notin> ran tab' \<and> p \<notin> frames (km_mem k') tab' 0 user_top \<and> page_ok end p
     \<and> same_outside (ran tab') m (km_mem k')"

lemma new_page:
  assumes ok: "space_ok end k fl tab" and root: "tab [] = Some root" and a: "a mod PGSIZE = 0" "a < user_top"
    and un: "\<not> valid (km_mem k) tab a" and al: "kalloc k = (p, k1)" "p \<noteq> 0"
    and m: "same_outside {p} (km_mem k) m" and perm: "perm < 1024"
  shows "vruns (mappages root a PGSIZE p perm) (k1\<lparr>km_mem := m\<rparr>) (\<lambda>r k'. \<exists>fl' tab'.
     if r = 0 then page_added end k fl tab m a p perm k' fl' tab' else r = -1 \<and> page_failed end k fl tab m p k' tab')"
proof -
  note V = space_okD(1) [OF ok]
  obtain fl1 where fl1: "fl = p # fl1" "kmem_inv end k1 fl1" "km_mem k1 = fill p PGSIZE 5 (km_mem k)"
    using kalloc_page [OF vm_okD(1) [OF V] al] .
  have p: "page_ok end p" "p \<notin> ran tab" "p \<notin> set fl1"
    using vm_okD(1) [OF V] V fl1(1) by (auto simp: kmem_inv_def vm_ok_def)
  have pal: "p mod PGSIZE = 0" "p + PGSIZE \<le> 2 ^ 56" using p(1) by (auto simp: page_ok_def)
  let ?k2 = "k1\<lparr>km_mem := m\<rparr>"
  have out1: "same_outside {p} (km_mem k1) m"
    using m unfolding fl1(3) same_outside_def in_pages_def by (auto simp: fill_def)
  have inv2: "kmem_inv end ?k2 fl1" by (rule kmem_inv_mem [OF fl1(2) out1]) (use pal p(3) in auto)
  note same = other_memory [OF V m]
  have lk: "lookup m tab w = lookup (km_mem k) tab w" for w by (rule same(2)) (use pal p(2) in auto)
  have V2: "vm_ok end ?k2 fl1 tab"
    using inv2 same(1) pal p(2) V fl1(1) by (auto simp: vm_ok_def)
  have va: "a + PGSIZE \<le> MAXVA" using a by simp
  have free: "\<not> has (lookup (km_mem ?k2) tab w) 1" if "a \<le> w" "w < a + PGSIZE" for w
    using un lookup_page [of w a "km_mem k" tab] that a page_index [OF a(1), of w] by (simp add: valid_def lk)
  have page: "(w mod PGSIZE = 0 \<and> a \<le> w \<and> w < a + PGSIZE) \<longleftrightarrow> w = a" if "w mod PGSIZE = 0" for w
    using next_multiple [OF a(1) that] that by (cases a w rule: linorder_cases) simp_all
  show ?thesis
  proof (rule vruns_mono [OF mappages_spec [OF V2 root a(1) _ _ va pal perm free]], goal_cases)
    case (5 r k')
    then obtain fl' tab' n where r: "vm_ok end k' fl' tab'" "spawns ?k2 fl1 tab k' fl' tab'" "n mod PGSIZE = 0"
      "if r = 0 then n = PGSIZE else r = -1 \<and> fl' = [] \<and> n < PGSIZE"
      "\<forall>w < MAXVA. lookup (km_mem k') tab' w = mapped_from a n p perm (lookup (km_mem ?k2) tab) w"
      by (elim exE conjE) (rule that)
    have F: "q \<notin> set fl' \<and> q \<notin> ran tab' \<and> q \<noteq> p" if "q \<in> frames (km_mem k) tab 0 user_top" for q
      using space_okD(3) [OF ok that] fl1(1) r(2) unfolding spawns_def by auto
    have pn: "p \<notin> set fl'" "p \<notin> ran tab'" using r(2) p(2,3) unfolding spawns_def by auto
    have sp: "tab \<subseteq>\<^sub>m tab'" "set fl1 = set fl' \<union> (ran tab' - ran tab)" "same_outside (ran tab') m (km_mem k')"
      using r(2) unfolding spawns_def by auto
    show ?case
    proof (cases "r = 0")
      case False
      with r(3,4) have n0: "n = 0" "fl' = []" "r = -1" by auto
      have look: "lookup (km_mem k') tab' w = lookup (km_mem k) tab w" if "w < MAXVA" for w
        using r(5) that by (simp add: n0 mapped_from_def lk)
      have "frames (km_mem k') tab' 0 user_top = frames (km_mem k) tab 0 user_top"
        "inj_on (frame (km_mem k') tab') (vpages (km_mem k') tab' 0 user_top)"
        using vpages_cong [of 0 user_top "km_mem k'" tab' "km_mem k" tab] look space_okD(2) [OF ok] by auto
      with F space_okD(3) [OF ok] have "owned end [] (km_mem k') tab' 0 user_top" "p \<notin> frames (km_mem k') tab' 0 user_top"
        unfolding owned_def by auto
      then show ?thesis
        using r(1) look sp n0 p pn fl1(1) by (intro exI [of _ fl'] exI [of _ tab']) (simp add: page_failed_def space_ok_def)
    next
      case True
      have look: "lookup (km_mem k') tab' w = (if a \<le> w \<and> w < a + PGSIZE then PA2PTE p OR perm OR 1 else lookup (km_mem k) tab w)"
        if "w < MAXVA" for w
        using r(4,5) that True PGROUNDDOWN_page [OF a(1), of w] by (simp add: mapped_from_def lk)
      have va': "valid (km_mem k') tab' a" "frame (km_mem k') tab' a = p"
        using look [of a] a PTE2PA_make [OF pal(1) _ perm] pal by (simp_all add: valid_def frame_def table_entry)
      have vw: "valid (km_mem k') tab' w \<longleftrightarrow> valid (km_mem k) tab w" "frame (km_mem k') tab' w = frame (km_mem k) tab w"
        if "w mod PGSIZE = 0" "w \<noteq> a" "w < user_top" for w
        using look [of w] that page [OF that(1)] by (auto simp: valid_def frame_def)
      have V': "vpages (km_mem k') tab' 0 user_top = insert a (vpages (km_mem k) tab 0 user_top)"
      proof (rule set_eqI)
        fix w show "w \<in> vpages (km_mem k') tab' 0 user_top \<longleftrightarrow> w \<in> insert a (vpages (km_mem k) tab 0 user_top)"
          unfolding vpages_def insert_iff mem_Collect_eq using a va'(1) vw(1) [of w] by (cases "w = a") auto
      qed
      have an: "a \<notin> vpages (km_mem k) tab 0 user_top" using un by (simp add: vpages_def)
      have fr: "frame (km_mem k') tab' w = frame (km_mem k) tab w" if "w \<in> vpages (km_mem k) tab 0 user_top" for w
        using vw(2) [of w] that un by (cases "w = a") (auto simp: vpages_def)
      have F': "frames (km_mem k') tab' 0 user_top = insert p (frames (km_mem k) tab 0 user_top)"
        unfolding frames_def V' using fr va'(2) by simp
      have "inj_on (frame (km_mem k') tab') (vpages (km_mem k) tab 0 user_top)"
        using space_okD(2) [OF ok] fr inj_on_cong [of "vpages (km_mem k) tab 0 user_top" "frame (km_mem k') tab'" "frame (km_mem k) tab"] by blast
      moreover have "p \<notin> frame (km_mem k') tab' ` vpages (km_mem k) tab 0 user_top"
        using F fr unfolding frames_def by force
      ultimately have "owned end fl' (km_mem k') tab' 0 user_top"
        unfolding owned_def F' V' inj_on_insert Diff_insert_absorb [OF an]
        using F space_okD(3) [OF ok] p(1) pn va'(2) by auto
      then have "space_ok end k' fl' tab'" using r(1) by (simp add: space_ok_def)
      then show ?thesis
        using True look sp pn fl1(1) by (intro exI [of _ fl'] exI [of _ tab']) (auto simp: page_added_def)
    qed
  qed simp_all
qed

section \<open>Giving pages back\<close>

lemma unmap_user:
  assumes ok: "space_ok end k fl tab" and root: "tab [] = Some root" and ab: "a mod PGSIZE = 0" "b mod PGSIZE = 0" "b \<le> user_top"
  shows "vruns (uvmunmap_from end root a b True) k (\<lambda>_ k'. \<exists>fl'. space_ok end k' fl' tab
     \<and> set fl' = set fl \<union> frames (km_mem k) tab a b \<and> unmapped_in a b k tab k'
     \<and> same_outside (ran tab \<union> frames (km_mem k) tab a b) (km_mem k) (km_mem k'))"
proof (rule vruns_mono [OF unmap_from_spec [OF space_okD(1) [OF ok] root ab(1,2)]], goal_cases)
  case (3 u k')
  then obtain fl' where r: "vm_ok end k' fl' tab" "set fl' = set fl \<union> frames (km_mem k) tab a b" "unmapped_in a b k tab k'"
    "same_outside (ran tab \<union> frames (km_mem k) tab a b) (km_mem k) (km_mem k')" by (auto split: if_splits)
  have look: "lookup (km_mem k') tab w = (if a \<le> w \<and> w < b \<and> valid (km_mem k) tab w then 0 else lookup (km_mem k) tab w)"
    if "w < user_top" for w
    using r(3) that by (simp add: unmapped_in_def)
  have V: "vpages (km_mem k') tab 0 user_top = vpages (km_mem k) tab 0 user_top - vpages (km_mem k) tab a b"
  proof (rule set_eqI)
    fix w show "w \<in> vpages (km_mem k') tab 0 user_top \<longleftrightarrow> w \<in> vpages (km_mem k) tab 0 user_top - vpages (km_mem k) tab a b"
      unfolding vpages_def mem_Collect_eq Diff_iff using look [of w] by (cases "w < user_top") (auto simp: valid_def has_def)
  qed
  have fr: "frame (km_mem k') tab w = frame (km_mem k) tab w" if "w \<in> vpages (km_mem k') tab 0 user_top" for w
  proof -
    have "w < user_top" "\<not> (a \<le> w \<and> w < b \<and> valid (km_mem k) tab w)" using that unfolding V by (auto simp: vpages_def)
    then show ?thesis unfolding frame_def using look [of w] by (metis (no_types, lifting))
  qed
  have "frames (km_mem k') tab 0 user_top = frame (km_mem k) tab ` vpages (km_mem k') tab 0 user_top"
    unfolding frames_def using fr by simp
  moreover have "vpages (km_mem k) tab a b \<subseteq> vpages (km_mem k) tab 0 user_top" using ab(3) by (auto simp: vpages_def)
  ultimately have F: "frames (km_mem k') tab 0 user_top = frames (km_mem k) tab 0 user_top - frames (km_mem k) tab a b"
    unfolding V frames_def using inj_on_image_set_diff [OF space_okD(2) [OF ok] Diff_subset] by simp
  have "inj_on (frame (km_mem k) tab) (vpages (km_mem k') tab 0 user_top)"
    unfolding V by (rule inj_on_subset [OF space_okD(2) [OF ok] Diff_subset])
  then have "inj_on (frame (km_mem k') tab) (vpages (km_mem k') tab 0 user_top)"
    using inj_on_cong [of "vpages (km_mem k') tab 0 user_top" "frame (km_mem k') tab" "frame (km_mem k) tab", OF fr] by blast
  then have "space_ok end k' fl' tab"
    using r(1) unfolding space_ok_def owned_def F using space_okD(3) [OF ok] r(2) by auto
  then show ?case using r by (intro exI [of _ fl']) simp
qed (use owned_part [OF ok ab(3)] ab(3) in auto)

lemma round_up:
  assumes "sz \<le> user_top"
  shows "PGROUNDUP64 sz mod PGSIZE = 0" "sz \<le> PGROUNDUP64 sz" "PGROUNDUP64 sz < sz + PGSIZE" "PGROUNDUP64 sz \<le> user_top"
proof -
  have eq: "PGROUNDUP64 sz = PGROUNDUP sz"
    using assms by (simp add: PGROUNDUP64_def PGROUNDDOWN_def PGROUNDUP_def minus_mod_eq_div_mult)
  show "PGROUNDUP64 sz mod PGSIZE = 0" "sz \<le> PGROUNDUP64 sz" "PGROUNDUP64 sz < sz + PGSIZE"
    unfolding eq by (rule PGROUNDUP)+
  then show "PGROUNDUP64 sz \<le> user_top"
    using next_multiple [of user_top "PGROUNDUP64 sz"] assms by (cases "user_top < PGROUNDUP64 sz") simp_all
qed

lemma frames_empty: "b \<le> a \<Longrightarrow> frames m tab a b = {}" "b \<le> a \<Longrightarrow> unmapped_in a b k tab k"
  by (auto simp: frames_def vpages_def unmapped_in_def)

lemma dealloc_spec:
  assumes ok: "space_ok end k fl tab" and root: "tab [] = Some root" and sz: "oldsz \<le> user_top" "newsz \<le> oldsz"
  shows "vruns (uvmdealloc end root oldsz newsz) k (\<lambda>r k'. r = newsz \<and> (\<exists>fl'. space_ok end k' fl' tab
     \<and> set fl' = set fl \<union> frames (km_mem k) tab (PGROUNDUP64 newsz) (PGROUNDUP64 oldsz)
     \<and> unmapped_in (PGROUNDUP64 newsz) (PGROUNDUP64 oldsz) k tab k'
     \<and> same_outside (ran tab \<union> frames (km_mem k) tab (PGROUNDUP64 newsz) (PGROUNDUP64 oldsz)) (km_mem k) (km_mem k')))"
proof -
  note up = round_up [OF sz(1)] round_up [of newsz]
  have new: "newsz \<le> user_top" using sz by simp
  show ?thesis
  proof (cases "PGROUNDUP64 newsz < PGROUNDUP64 oldsz")
    case False
    then have "uvmdealloc end root oldsz newsz = vret newsz"
      using sz(2) by (auto simp: uvmdealloc_def vthen_def vret_def)
    then show ?thesis using ok False by (auto simp: frames_empty intro!: exI [of _ fl])
  next
    case True
    let ?n = "(PGROUNDUP64 oldsz - PGROUNDUP64 newsz) div PGSIZE"
    have "?n * PGSIZE = PGROUNDUP64 oldsz - PGROUNDUP64 newsz"
      using up(1) round_up(1) [OF new] by (intro dvd_div_mult_self dvd_diff_nat) (simp_all add: mod_eq_0_iff_dvd)
    then have n: "PGROUNDUP64 newsz + ?n * PGSIZE = PGROUNDUP64 oldsz" using True by simp
    have "int ?n < 2147483648" using up(4) by (simp add: zdiv_int less_mult_imp_div_less)
    then have i: "nat (i32 (int ?n) mod 2 ^ 64) = ?n" by (simp add: i32_small)
    have neq: "\<not> oldsz \<le> newsz" using True by (auto dest: le_antisym [OF sz(2)])
    have e64: "PGROUNDUP64 oldsz mod 2 ^ 64 = PGROUNDUP64 oldsz" using up(4) by simp
    have "uvmdealloc end root oldsz newsz = vthen (uvmunmap_from end root (PGROUNDUP64 newsz) (PGROUNDUP64 oldsz) True) (\<lambda>_. vret newsz)"
      unfolding uvmdealloc_def uvmunmap_def i n e64 using True neq round_up(1) [OF new] by simp
    then show ?thesis
      by (simp only: vruns_then vruns_ret)
        (rule vruns_mono [OF unmap_user [OF ok root round_up(1) [OF new] up(1,4)]], simp)
  qed
qed

lemma space_ok_cong:
  assumes "space_ok end k fl tab" "vm_ok end k' fl' tab'" "\<And>w. w < user_top \<Longrightarrow> lookup (km_mem k') tab' w = lookup (km_mem k) tab w"
    "\<And>q. q \<in> frames (km_mem k) tab 0 user_top \<Longrightarrow> q \<notin> set fl' \<and> q \<notin> ran tab'"
  shows "space_ok end k' fl' tab'" "frames (km_mem k') tab' a user_top = frames (km_mem k) tab a user_top"
proof -
  have "frames (km_mem k') tab' 0 user_top = frames (km_mem k) tab 0 user_top"
    "inj_on (frame (km_mem k') tab') (vpages (km_mem k') tab' 0 user_top)"
    using vpages_cong [of 0 user_top "km_mem k'" tab' "km_mem k" tab] assms(3) space_okD(2) [OF assms(1)] by auto
  then show "space_ok end k' fl' tab'"
    using assms(2,4) space_okD(3) [OF assms(1)] unfolding space_ok_def owned_def by auto
  show "frames (km_mem k') tab' a user_top = frames (km_mem k) tab a user_top"
    by (rule vpages_cong(2)) (rule assms(3))
qed

lemma give_back:
  assumes f: "page_failed end k fl tab m p k' tab'"
  shows "vruns (v_kfree end p) k' (\<lambda>_ k2. space_ok end k2 [p] tab' \<and> (\<forall>w < MAXVA. lookup (km_mem k2) tab' w = lookup (km_mem k) tab w)
     \<and> set fl = set [p] \<union> (ran tab' - ran tab) \<and> same_outside (insert p (ran tab')) m (km_mem k2))"
proof -
  have ok: "space_ok end k' [] tab'" and p: "page_ok end p" "p \<notin> ran tab'" "p \<notin> frames (km_mem k') tab' 0 user_top"
    and look: "\<forall>w < MAXVA. lookup (km_mem k') tab' w = lookup (km_mem k) tab w"
    and fl: "set fl = insert p (ran tab' - ran tab)" and out: "same_outside (ran tab') m (km_mem k')"
    using f unfolding page_failed_def by blast+
  show ?thesis
  proof (rule vruns_mono [OF kfree_page [OF space_okD(1) [OF ok] p(1) _ p(2)]], goal_cases)
    case (2 u k2)
    have "space_ok end k2 [p] tab'"
    proof (rule space_ok_cong(1) [OF ok])
      show "q \<notin> set [p] \<and> q \<notin> ran tab'" if "q \<in> frames (km_mem k') tab' 0 user_top" for q
        using space_okD(3) [OF ok that] p(3) that by auto
    qed (use 2 in simp_all)
    moreover have "same_outside (insert p (ran tab')) m (km_mem k2)"
      by (rule same_outside_trans [OF out conjunct2 [OF conjunct2 [OF 2]]]) auto
    ultimately show ?case using 2 look fl by simp
  qed simp
qed

section \<open>The loop of uvmalloc\<close>

definition pages_added :: "kmem \<Rightarrow> nat list \<Rightarrow> tables \<Rightarrow> nat \<Rightarrow> nat \<Rightarrow> nat \<Rightarrow> kmem \<Rightarrow> nat list \<Rightarrow> tables \<Rightarrow> bool" where
  "pages_added k fl tab a b perm k' fl' tab' \<longleftrightarrow>
     (\<forall>w < MAXVA. \<not> (a \<le> w \<and> w < b) \<longrightarrow> lookup (km_mem k') tab' w = lookup (km_mem k) tab w)
     \<and> (\<forall>w. w mod PGSIZE = 0 \<and> a \<le> w \<and> w < b \<longrightarrow> (\<exists>p. p \<in> set fl \<and> lookup (km_mem k') tab' w = PA2PTE p OR perm OR 1
          \<and> (\<forall>x. p \<le> x \<and> x < p + PGSIZE \<longrightarrow> km_mem k' x = 0)))
     \<and> set fl = set fl' \<union> frames (km_mem k') tab' a b \<union> (ran tab' - ran tab)
     \<and> same_outside (ran tab \<union> set fl) (km_mem k) (km_mem k')"

definition pages_undone :: "kmem \<Rightarrow> nat list \<Rightarrow> tables \<Rightarrow> nat \<Rightarrow> nat \<Rightarrow> nat \<Rightarrow> kmem \<Rightarrow> nat list \<Rightarrow> tables \<Rightarrow> bool" where
  "pages_undone k fl tab oldsz a b k' fl' tab' \<longleftrightarrow>
     (\<forall>w < MAXVA. if oldsz \<le> w \<and> w < b then \<not> valid (km_mem k') tab' w else lookup (km_mem k') tab' w = lookup (km_mem k) tab w)
     \<and> set fl \<union> frames (km_mem k) tab oldsz a = set fl' \<union> (ran tab' - ran tab)
     \<and> same_outside (ran tab \<union> set fl \<union> frames (km_mem k) tab oldsz a) (km_mem k) (km_mem k')"

lemma undo:
  assumes ok: "space_ok end k fl tab" and root: "tab [] = Some root" and a: "a mod PGSIZE = 0" "a \<le> user_top"
    and o: "oldsz mod PGSIZE = 0" "oldsz \<le> a" "a \<le> b" and un: "\<And>w. a \<le> w \<Longrightarrow> w < b \<Longrightarrow> \<not> valid (km_mem k) tab w"
  shows "vruns (uvmdealloc end root a oldsz) k (\<lambda>r k'. r = oldsz \<and> (\<exists>fl'. space_ok end k' fl' tab \<and> pages_undone k fl tab oldsz a b k' fl' tab))"
proof -
  have r: "PGROUNDUP64 a = a" "PGROUNDUP64 oldsz = oldsz"
    using round_up [of a] round_up [of oldsz] a o next_multiple [of a "PGROUNDUP64 a"] next_multiple [of oldsz "PGROUNDUP64 oldsz"]
    by (cases "PGROUNDUP64 a" a rule: linorder_cases; cases "PGROUNDUP64 oldsz" oldsz rule: linorder_cases; simp)+
  show ?thesis
  proof (rule vruns_mono [OF dealloc_spec [OF ok root a(2) o(2)]], goal_cases)
    case (1 r k')
    then obtain fl' where 2: "space_ok end k' fl' tab" "set fl' = set fl \<union> frames (km_mem k) tab oldsz a" "unmapped_in oldsz a k tab k'"
      "same_outside (ran tab \<union> frames (km_mem k) tab oldsz a) (km_mem k) (km_mem k')" "r = oldsz" unfolding r by auto
    have "\<forall>w < MAXVA. if oldsz \<le> w \<and> w < b then \<not> valid (km_mem k') tab w else lookup (km_mem k') tab w = lookup (km_mem k) tab w"
    proof (intro allI impI)
      fix w assume "w < MAXVA"
      then have "lookup (km_mem k') tab w = (if oldsz \<le> w \<and> w < a \<and> valid (km_mem k) tab w then 0 else lookup (km_mem k) tab w)"
        using 2(3) by (simp add: unmapped_in_def)
      then show "if oldsz \<le> w \<and> w < b then \<not> valid (km_mem k') tab w else lookup (km_mem k') tab w = lookup (km_mem k) tab w"
        using un [of w] o(3) by (cases "w < a") (auto simp: valid_def has_def)
    qed
    moreover have "same_outside (ran tab \<union> set fl \<union> frames (km_mem k) tab oldsz a) (km_mem k) (km_mem k')"
      by (rule same_outside_mono [OF 2(4)]) auto
    ultimately show ?case using 2 by (auto simp: pages_undone_def)
  qed
qed

text \<open>The first page was added, and then the rest, or then nothing.\<close>

lemma frames_step: "a mod PGSIZE = 0 \<Longrightarrow> a < b \<Longrightarrow>
    frames m tab a b = (if valid m tab a then {frame m tab a} else {}) \<union> frames m tab (a + PGSIZE) b"
  by (simp add: frames_def vpages_step image_Un)

lemma added_facts:
  assumes "page_added end k fl tab m a p perm k1 fl1 tab1" "a mod PGSIZE = 0" "a < user_top" "same_outside {p} (km_mem k) m"
    "page_ok end p" "perm < 1024"
  shows "lookup (km_mem k1) tab1 a = PA2PTE p OR perm OR 1" "valid (km_mem k1) tab1 a" "frame (km_mem k1) tab1 a = p"
    "set fl = insert p (set fl1) \<union> (ran tab1 - ran tab)" "p \<notin> set fl1" "p \<notin> ran tab1" "ran tab \<subseteq> ran tab1"
    "same_outside (ran tab \<union> set fl) (km_mem k) (km_mem k1)"
proof -
  note A = assms(1) [unfolded page_added_def]
  show l: "lookup (km_mem k1) tab1 a = PA2PTE p OR perm OR 1" using A assms(3) by simp
  then show "valid (km_mem k1) tab1 a" by (simp add: valid_def table_entry)
  show "frame (km_mem k1) tab1 a = p" unfolding frame_def l by (rule PTE2PA_make) (use assms(5,6) in \<open>auto simp: page_ok_def\<close>)
  show fl: "set fl = insert p (set fl1) \<union> (ran tab1 - ran tab)" "p \<notin> set fl1" "p \<notin> ran tab1" and r: "ran tab \<subseteq> ran tab1"
    using A ran_mono by blast+
  show "same_outside (ran tab \<union> set fl) (km_mem k) (km_mem k1)"
    by (rule same_outside_trans [OF assms(4)]) (use A fl r in auto)
qed

lemma pages_sum: "F = G \<union> X \<union> (U - T) \<Longrightarrow> S \<subseteq> T \<Longrightarrow> T \<subseteq> U \<Longrightarrow> insert p F \<union> (T - S) = G \<union> insert p X \<union> (U - S)"
  by auto

lemma added_then_added:
  assumes 1: "page_added end k fl tab m a p perm k1 fl1 tab1" and a: "a mod PGSIZE = 0" "a < b" "b \<le> user_top" "b mod PGSIZE = 0"
    and m: "same_outside {p} (km_mem k) m" "\<forall>x. p \<le> x \<and> x < p + PGSIZE \<longrightarrow> m x = 0" and p: "page_ok end p" "perm < 1024"
    and ok1: "space_ok end k1 fl1 tab1"
    and 2: "pages_added k1 fl1 tab1 (a + PGSIZE) b perm k2 fl2 tab2" "tab1 \<subseteq>\<^sub>m tab2"
  shows "pages_added k fl tab a b perm k2 fl2 tab2"
proof -
  have top: "a < user_top" using a by simp
  note A = added_facts [OF 1 a(1) top m(1) p]
  note B = 2(1) [unfolded pages_added_def]
  have le: "a + PGSIZE \<le> b" by (rule next_multiple [OF a(1,4,2)])
  have r2: "ran tab1 \<subseteq> ran tab2" by (rule ran_mono [OF 2(2)])
  have al: "q mod PGSIZE = 0" if "q \<in> ran tab1 \<union> set fl1" for q
    using that vm_okD [OF space_okD(1) [OF ok1]] by (auto simp: ran_def kmem_inv_def page_ok_def)
  have zero: "km_mem k2 x = 0" if x: "p \<le> x" "x < p + PGSIZE" for x
  proof -
    have off: "\<not> in_pages A x" if "A \<subseteq> ran tab1 \<union> set fl1" for A
    proof
      assume "in_pages A x"
      then obtain q where q: "q \<in> A" "q \<le> x" "x < q + PGSIZE" by (auto simp: in_pages_def)
      then have "q mod PGSIZE = 0" "q \<noteq> p" using al that A(5,6) by auto
      with page_apart [OF this(1) _ this(2) x] p(1) q show False by (simp add: page_ok_def)
    qed
    have "same_outside (ran tab1 \<union> set fl1) (km_mem k1) (km_mem k2)" "same_outside (ran tab1) m (km_mem k1)"
      using B 1 unfolding page_added_def by blast+
    then have "km_mem k2 x = km_mem k1 x" "km_mem k1 x = m x"
      using off [of "ran tab1 \<union> set fl1"] off [of "ran tab1"] unfolding same_outside_def by blast+
    then have "km_mem k2 x = m x" by simp
    also have "\<dots> = 0" using m(2) x by blast
    finally show ?thesis .
  qed
  have at_a: "lookup (km_mem k2) tab2 a = PA2PTE p OR perm OR 1" using B A(1) top by simp
  have fr: "frames (km_mem k2) tab2 a b = insert p (frames (km_mem k2) tab2 (a + PGSIZE) b)"
    using frames_step [OF a(1,2), of "km_mem k2" tab2] at_a A(1-3) by (simp add: valid_def frame_def)
  have look: "lookup (km_mem k2) tab2 w = lookup (km_mem k) tab w" if w: "w < MAXVA" "\<not> (a \<le> w \<and> w < b)" for w
  proof -
    have "lookup (km_mem k2) tab2 w = lookup (km_mem k1) tab1 w" using B w by auto
    also have "\<dots> = lookup (km_mem k) tab w" using 1 w le unfolding page_added_def by auto
    finally show ?thesis .
  qed
  have new: "\<exists>q. q \<in> set fl \<and> lookup (km_mem k2) tab2 w = PA2PTE q OR perm OR 1 \<and> (\<forall>x. q \<le> x \<and> x < q + PGSIZE \<longrightarrow> km_mem k2 x = 0)"
    if w: "w mod PGSIZE = 0" "a \<le> w" "w < b" for w
  proof (cases "w = a")
    case True
    then show ?thesis using at_a zero A(4) by blast
  next
    case False
    with next_multiple [OF a(1) w(1)] w(2) have "a + PGSIZE \<le> w" by simp
    then obtain q where "q \<in> set fl1" "lookup (km_mem k2) tab2 w = PA2PTE q OR perm OR 1" "\<forall>x. q \<le> x \<and> x < q + PGSIZE \<longrightarrow> km_mem k2 x = 0"
      using spec [OF conjunct1 [OF conjunct2 [OF B]], of w] w by auto
    then show ?thesis using A(4) by (intro exI [of _ q]) simp
  qed
  have "same_outside (ran tab1 \<union> set fl1) (km_mem k1) (km_mem k2)" using B by blast
  then have out: "same_outside (ran tab \<union> set fl) (km_mem k) (km_mem k2)"
    by (rule same_outside_trans [OF A(8)]) (simp add: A(4), blast)
  have "set fl1 = set fl2 \<union> frames (km_mem k2) tab2 (a + PGSIZE) b \<union> (ran tab2 - ran tab1)" using B by blast
  then have sum: "set fl = set fl2 \<union> frames (km_mem k2) tab2 a b \<union> (ran tab2 - ran tab)"
    unfolding fr A(4) by (rule pages_sum [OF _ A(7) r2])
  show ?thesis
    unfolding pages_added_def by (intro conjI allI impI) (fact look new sum out | (elim conjE, rule new, assumption+))+
qed

lemma added_then_undone:
  assumes 1: "page_added end k fl tab m a p perm k1 fl1 tab1" and a: "a mod PGSIZE = 0" "a < b" "b \<le> user_top" "b mod PGSIZE = 0"
    and m: "same_outside {p} (km_mem k) m" and p: "page_ok end p" "perm < 1024"
    and o: "oldsz \<le> a" "oldsz mod PGSIZE = 0"
    and 2: "pages_undone k1 fl1 tab1 oldsz (a + PGSIZE) b k2 fl2 tab2" "tab1 \<subseteq>\<^sub>m tab2"
  shows "pages_undone k fl tab oldsz a b k2 fl2 tab2"
proof -
  have top: "a < user_top" using a by simp
  note A = added_facts [OF 1 a(1) top m p]
  note B = 2(1) [unfolded pages_undone_def]
  have le: "a + PGSIZE \<le> b" by (rule next_multiple [OF a(1,4,2)])
  have r2: "ran tab1 \<subseteq> ran tab2" by (rule ran_mono [OF 2(2)])
  have below: "lookup (km_mem k1) tab1 w = lookup (km_mem k) tab w" if "w < MAXVA" "\<not> (a \<le> w \<and> w < b)" for w
    using 1 that le unfolding page_added_def by auto
  have "frames (km_mem k1) tab1 oldsz a = frames (km_mem k) tab oldsz a"
    by (rule vpages_cong(2)) (use below top in auto)
  moreover have "frames (km_mem k1) tab1 oldsz (a + PGSIZE) = insert p (frames (km_mem k1) tab1 oldsz a)"
  proof -
    have "vpages (km_mem k1) tab1 oldsz (a + PGSIZE) = insert a (vpages (km_mem k1) tab1 oldsz a)"
    proof (rule set_eqI)
      fix w
      have "w = a" if "w mod PGSIZE = 0" "a \<le> w" "w < a + PGSIZE"
        using next_multiple [OF a(1) that(1)] that by (cases a w rule: linorder_cases) simp_all
      then show "w \<in> vpages (km_mem k1) tab1 oldsz (a + PGSIZE) \<longleftrightarrow> w \<in> insert a (vpages (km_mem k1) tab1 oldsz a)"
        using a(1) o(1) A(2) unfolding vpages_def insert_iff mem_Collect_eq by (cases "w < a") auto
    qed
    then show ?thesis using A(3) by (simp add: frames_def)
  qed
  ultimately have fr: "frames (km_mem k1) tab1 oldsz (a + PGSIZE) = insert p (frames (km_mem k) tab oldsz a)" by simp
  have look: "\<forall>w < MAXVA. if oldsz \<le> w \<and> w < b then \<not> valid (km_mem k2) tab2 w else lookup (km_mem k2) tab2 w = lookup (km_mem k) tab w"
  proof (intro allI impI)
    fix w assume w: "w < MAXVA"
    then have "if oldsz \<le> w \<and> w < b then \<not> valid (km_mem k2) tab2 w else lookup (km_mem k2) tab2 w = lookup (km_mem k1) tab1 w"
      using B by blast
    then show "if oldsz \<le> w \<and> w < b then \<not> valid (km_mem k2) tab2 w else lookup (km_mem k2) tab2 w = lookup (km_mem k) tab w"
      using below [OF w] o(1) by (auto split: if_splits)
  qed
  have "same_outside (ran tab1 \<union> set fl1 \<union> frames (km_mem k1) tab1 oldsz (a + PGSIZE)) (km_mem k1) (km_mem k2)" using B by blast
  then have out: "same_outside (ran tab \<union> set fl \<union> frames (km_mem k) tab oldsz a) (km_mem k) (km_mem k2)"
    by (rule same_outside_trans [OF A(8)]) (simp add: A(4) fr, blast)
  have "set fl1 \<union> frames (km_mem k1) tab1 oldsz (a + PGSIZE) = set fl2 \<union> (ran tab2 - ran tab1)" using B by blast
  then have "insert p (set fl1 \<union> frames (km_mem k) tab oldsz a) = set fl2 \<union> (ran tab2 - ran tab1)" unfolding fr by simp
  then have "set fl \<union> frames (km_mem k) tab oldsz a = set fl2 \<union> (ran tab2 - ran tab)"
    unfolding A(4) using A(7) r2 by blast
  with look out show ?thesis unfolding pages_undone_def by blast
qed

lemma failed_then_undone:
  assumes ok: "space_ok end k2 [p] tab'" and look: "\<forall>w < MAXVA. lookup (km_mem k2) tab' w = lookup (km_mem k) tab w"
    and fl: "set fl = set [p] \<union> (ran tab' - ran tab)" and sub: "tab \<subseteq>\<^sub>m tab'" and out: "same_outside (ran tab \<union> set fl) (km_mem k) (km_mem k2)"
    and o: "oldsz \<le> a" "a \<le> user_top" and u: "pages_undone k2 [p] tab' oldsz a b k3 fl3 tab'"
  shows "pages_undone k fl tab oldsz a b k3 fl3 tab'"
proof -
  note B = u [unfolded pages_undone_def]
  have r: "ran tab \<subseteq> ran tab'" by (rule ran_mono [OF sub])
  have fr: "frames (km_mem k2) tab' oldsz a = frames (km_mem k) tab oldsz a"
    by (rule vpages_cong(2)) (use look o in auto)
  have l3: "\<forall>w < MAXVA. if oldsz \<le> w \<and> w < b then \<not> valid (km_mem k3) tab' w else lookup (km_mem k3) tab' w = lookup (km_mem k) tab w"
    using B look by (simp split: if_split_asm)
  have "same_outside (ran tab' \<union> set [p] \<union> frames (km_mem k2) tab' oldsz a) (km_mem k2) (km_mem k3)" using B by blast
  then have "same_outside (ran tab \<union> set fl \<union> frames (km_mem k) tab oldsz a) (km_mem k) (km_mem k3)"
    by (rule same_outside_trans [OF out]) (simp add: fl fr, blast)
  moreover have "set [p] \<union> frames (km_mem k2) tab' oldsz a = set fl3 \<union> (ran tab' - ran tab')" using B by blast
  then have "set fl \<union> frames (km_mem k) tab oldsz a = set fl3 \<union> (ran tab' - ran tab)" unfolding fr using fl by auto
  ultimately show ?thesis using l3 unfolding pages_undone_def by blast
qed

lemma zero_page:
  assumes "space_ok end k fl tab" "kalloc k = (p, k1)" "p \<noteq> 0"
  shows "page_ok end p" "p \<in> set fl" "same_outside {p} (km_mem k) (fill p PGSIZE 0 (km_mem k1))"
    "\<forall>x. p \<le> x \<and> x < p + PGSIZE \<longrightarrow> fill p PGSIZE 0 (km_mem k1) x = 0"
proof -
  note V = vm_okD(1) [OF space_okD(1) [OF assms(1)]]
  obtain fl1 where fl1: "fl = p # fl1" "km_mem k1 = fill p PGSIZE 5 (km_mem k)"
    using kalloc_page [OF V assms(2,3)] .
  then show "page_ok end p" "p \<in> set fl" using V by (auto simp: kmem_inv_def)
  show "same_outside {p} (km_mem k) (fill p PGSIZE 0 (km_mem k1))"
    unfolding fl1(2) same_outside_def in_pages_def by (auto simp: fill_def)
  show "\<forall>x. p \<le> x \<and> x < p + PGSIZE \<longrightarrow> fill p PGSIZE 0 (km_mem k1) x = 0" by (simp add: fill_def)
qed

lemma uvmalloc_from_spec:
  assumes "space_ok end k fl tab" "tab [] = Some root" "oldsz mod PGSIZE = 0" "oldsz \<le> a" "a mod PGSIZE = 0" "newsz \<le> user_top"
    "a \<le> b" "b = PGROUNDUP64 newsz" "2 OR 16 OR xperm < 1024" "\<And>w. a \<le> w \<Longrightarrow> w < b \<Longrightarrow> \<not> valid (km_mem k) tab w"
  shows "vruns (uvmalloc_from end root oldsz a newsz xperm) k (\<lambda>r k'. \<exists>fl' tab'. space_ok end k' fl' tab' \<and> tab \<subseteq>\<^sub>m tab'
     \<and> (r = newsz \<and> pages_added k fl tab a b (2 OR 16 OR xperm) k' fl' tab' \<or> r = 0 \<and> a < newsz \<and> pages_undone k fl tab oldsz a b k' fl' tab'))"
  using assms
proof (induction "newsz - a" arbitrary: a k fl tab rule: less_induct)
  case less
  note ok = less.prems(1) and root = less.prems(2) and al_a = less.prems(5)
  let ?perm = "2 OR 16 OR xperm"
  note up = round_up [OF less.prems(6), folded less.prems(8)]
  have atop: "a \<le> user_top" using less.prems(7) up(4) by simp
  show ?case
  proof (cases "a < newsz")
    case False
    then have "b = a" using up(1-3) next_multiple [OF al_a up(1)] less.prems(7) by (cases "a < b") simp_all
    then have "pages_added k fl tab a b ?perm k fl tab" by (auto simp: pages_added_def frames_empty)
    then show ?thesis
      using False ok by (subst uvmalloc_from.simps) (simp, intro exI [of _ fl] exI [of _ tab], simp)
  next
    case True
    have ab: "a < b" and top: "a < user_top" using True up(2) less.prems(6) by simp_all
    have un: "\<not> valid (km_mem k) tab a" using less.prems(10) ab by simp
    let ?Q = "\<lambda>r k'. \<exists>fl' tab'. space_ok end k' fl' tab' \<and> tab \<subseteq>\<^sub>m tab'
     \<and> (r = newsz \<and> pages_added k fl tab a b ?perm k' fl' tab' \<or> r = 0 \<and> a < newsz \<and> pages_undone k fl tab oldsz a b k' fl' tab')"
    obtain p k1 where p: "kalloc k = (p, k1)" by (cases "kalloc k")
    show ?thesis
    proof (cases "p = 0")
      case none: True
      then have k1: "k1 = k" using kalloc_none [OF vm_okD(1) [OF space_okD(1) [OF ok]], of k1] p by simp
      have "vruns (uvmdealloc end root a oldsz) k (\<lambda>_. ?Q 0)"
        by (rule vruns_mono [OF undo [OF ok root al_a atop less.prems(3,4,7,10)]]) (use True map_le_refl [of tab] in blast)+
      then show ?thesis
        unfolding uvmalloc_from.simps [of "end" root oldsz a] if_P [OF True] vruns_then vruns_kalloc p fst_conv snd_conv none k1
          if_P [OF refl] vruns_ret .
    next
      case some: False
      let ?m = "fill p PGSIZE 0 (km_mem k1)"
      note z = zero_page [OF ok p some]
      have "vruns (mappages root a PGSIZE p ?perm) (k1\<lparr>km_mem := ?m\<rparr>) (\<lambda>r k'. vruns
          (if r \<noteq> 0 then vthen (v_kfree end p) (\<lambda>_. vthen (uvmdealloc end root a oldsz) (\<lambda>_. vret 0))
           else uvmalloc_from end root oldsz (a + PGSIZE) newsz xperm) k' ?Q)"
      proof (rule vruns_mono [OF new_page [OF ok root al_a top un p some z(3) less.prems(9)]], elim exE)
        fix r :: int and k' fl' tab'
        assume res: "if r = 0 then page_added end k fl tab ?m a p ?perm k' fl' tab' else r = -1 \<and> page_failed end k fl tab ?m p k' tab'"
        show "vruns (if r \<noteq> 0 then vthen (v_kfree end p) (\<lambda>_. vthen (uvmdealloc end root a oldsz) (\<lambda>_. vret 0))
           else uvmalloc_from end root oldsz (a + PGSIZE) newsz xperm) k' ?Q"
        proof (cases "r = 0")
          case r: False
          then have f: "page_failed end k fl tab ?m p k' tab'" using res by simp
          have sub: "tab \<subseteq>\<^sub>m tab'" using f by (simp add: page_failed_def)
          then have root': "tab' [] = Some root" using root by (auto simp: map_le_def dom_def)
          have "vruns (vthen (uvmdealloc end root a oldsz) (\<lambda>_. vret 0)) k2 ?Q"
            if 2: "space_ok end k2 [p] tab'" "\<forall>w < MAXVA. lookup (km_mem k2) tab' w = lookup (km_mem k) tab w"
              "set fl = set [p] \<union> (ran tab' - ran tab)" "same_outside (insert p (ran tab')) ?m (km_mem k2)" for k2
          proof -
            have "same_outside (ran tab \<union> set fl) (km_mem k) (km_mem k2)"
              by (rule same_outside_trans [OF z(3) 2(4)]) (use 2(3) ran_mono [OF sub] in auto)
            note undone = failed_then_undone [OF 2(1-3) sub this less.prems(4) atop]
            have un2: "\<not> valid (km_mem k2) tab' w" if "a \<le> w" "w < b" for w
              using less.prems(10) [OF that] that up(4) 2(2) by (simp add: valid_def)
            show ?thesis
              unfolding vruns_then vruns_ret
              by (rule vruns_mono [OF undo [OF 2(1) root' al_a atop less.prems(3,4,7) un2]]) (use True sub undone in blast)+
          qed
          then show ?thesis
            unfolding if_P [OF r] vruns_then [of "v_kfree end p"] by (rule vruns_mono [OF give_back [OF f]]) blast+
        next
          case r: True
          then have A: "page_added end k fl tab ?m a p ?perm k' fl' tab'" using res by simp
          have ok': "space_ok end k' fl' tab'" and sub: "tab \<subseteq>\<^sub>m tab'" using A by (simp_all add: page_added_def)
          then have root': "tab' [] = Some root" using root by (auto simp: map_le_def dom_def)
          have le: "a + PGSIZE \<le> b" by (rule next_multiple [OF al_a up(1) ab])
          have un': "\<not> valid (km_mem k') tab' w" if "a + PGSIZE \<le> w" "w < b" for w
            using less.prems(10) [of w] that up(4) A by (simp add: valid_def page_added_def)
          note then_added = added_then_added [OF A al_a ab up(4,1) z(3,4,1) less.prems(9) ok']
          note then_undone = added_then_undone [OF A al_a ab up(4,1) z(3,1) less.prems(9,4,3)]
          have "vruns (uvmalloc_from end root oldsz (a + PGSIZE) newsz xperm) k' (\<lambda>r k''. \<exists>fl2 tab2. space_ok end k'' fl2 tab2 \<and> tab' \<subseteq>\<^sub>m tab2
             \<and> (r = newsz \<and> pages_added k' fl' tab' (a + PGSIZE) b ?perm k'' fl2 tab2
                 \<or> r = 0 \<and> a + PGSIZE < newsz \<and> pages_undone k' fl' tab' oldsz (a + PGSIZE) b k'' fl2 tab2))"
            by (rule less.hyps [OF _ ok' root' less.prems(3) _ _ less.prems(6) le less.prems(8,9) un'])
              (use True less.prems(4) al_a in \<open>simp_all add: mod_add_self2\<close>)
          then have "vruns (uvmalloc_from end root oldsz (a + PGSIZE) newsz xperm) k' ?Q"
          proof (rule vruns_mono, elim exE conjE)
            fix r2 k2 fl2 tab2
            assume 2: "space_ok end k2 fl2 tab2" "tab' \<subseteq>\<^sub>m tab2"
              and c: "r2 = newsz \<and> pages_added k' fl' tab' (a + PGSIZE) b ?perm k2 fl2 tab2
                 \<or> r2 = 0 \<and> a + PGSIZE < newsz \<and> pages_undone k' fl' tab' oldsz (a + PGSIZE) b k2 fl2 tab2"
            have "r2 = newsz \<and> pages_added k fl tab a b ?perm k2 fl2 tab2 \<or> r2 = 0 \<and> a < newsz \<and> pages_undone k fl tab oldsz a b k2 fl2 tab2"
              using c then_added [OF _ 2(2)] then_undone [OF _ 2(2)] True by blast
            with 2(1) map_le_trans [OF sub 2(2)] show "?Q r2 k2" by blast
          qed
          then show ?thesis using r by simp
        qed
      qed
      then show ?thesis
        unfolding uvmalloc_from.simps [of "end" root oldsz a] if_P [OF True] vruns_then [of v_kalloc] vruns_kalloc p fst_conv snd_conv
          if_not_P [OF some] vruns_then [of "v_memset p PGSIZE 0"] vruns_memset vruns_then [of "mappages root a PGSIZE p ?perm"] .
    qed
  qed
qed

end
