(* ===== verification/Vm_User.thy ===== *)
theory Vm_User
  imports Vm_Pages
begin

text \<open>
  The memory of a process as a partial map from addresses to bytes, and what the operations of
  \<open>kernel/vm.c\<close> do to it.
\<close>

section \<open>User memory\<close>

definition user_mem :: "phys \<Rightarrow> tables \<Rightarrow> nat \<Rightarrow> byte option" where
  "user_mem m tab va = (if va < user_top \<and> valid m tab va then Some (m (frame m tab va + va mod PGSIZE)) else None)"

text \<open>Every page of memory is free, a table or a frame of the address space; none is lost.\<close>

definition all_pages :: "nat list \<Rightarrow> phys \<Rightarrow> tables \<Rightarrow> nat set" where
  "all_pages fl m tab = set fl \<union> ran tab \<union> frames m tab 0 user_top"

lemma down: "PGROUNDDOWN va mod PGSIZE = 0" "PGROUNDDOWN va \<le> va" "va < PGROUNDDOWN va + PGSIZE" "va = PGROUNDDOWN va + va mod PGSIZE"
  by (simp_all add: PGROUNDDOWN_def minus_mod_eq_div_mult dividend_less_div_times)

lemma lookup_down: "va < MAXVA \<Longrightarrow> lookup m tab (PGROUNDDOWN va) = lookup m tab va"
  using down [of va] page_index [OF down(1), of va va] by (intro lookup_page) auto

lemma frame_in: "va < user_top \<Longrightarrow> valid m tab va \<Longrightarrow> frame m tab va \<in> frames m tab 0 user_top"
  using lookup_down [of va m tab] down(1,2) [of va]
  by (auto simp: frames_def vpages_def valid_def frame_def intro!: image_eqI [of _ _ "PGROUNDDOWN va"])

lemma byte_kept:
  assumes "same_outside A m m'" "\<forall>q \<in> A. q mod PGSIZE = 0" "p mod PGSIZE = 0" "p \<notin> A" "i < PGSIZE"
  shows "m' (p + i) = m (p + i)"
proof -
  have "\<not> (q \<le> p + i \<and> p + i < q + PGSIZE)" if q: "q \<in> A" for q
  proof -
    have "q mod PGSIZE = 0" "q \<noteq> p" using q assms(2,4) by auto
    from page_apart [OF this(1) assms(3) this(2), of "p + i"] assms(5) show ?thesis by auto
  qed
  then show ?thesis using assms(1) unfolding same_outside_def in_pages_def by blast
qed

lemma space_pages:
  assumes "space_ok end k fl tab" "p \<in> all_pages fl (km_mem k) tab"
  shows "page_ok end p"
  using assms vm_okD [OF space_okD(1) [OF assms(1)]] space_okD(3) [OF assms(1)]
  by (auto simp: all_pages_def kmem_inv_def ran_def)

lemma page_aligned: "page_ok end p \<Longrightarrow> p mod PGSIZE = 0"
  by (simp add: page_ok_def)

text \<open>A byte stays where the entry of its page stays and memory changes in pages that are not its frame.\<close>

lemma user_mem_kept:
  assumes ok: "space_ok end k fl tab" and va: "va < user_top \<Longrightarrow> lookup m' tab' va = lookup (km_mem k) tab va"
    and out: "same_outside A (km_mem k) m'" "A \<subseteq> all_pages fl (km_mem k) tab" "va < user_top \<Longrightarrow> valid (km_mem k) tab va \<Longrightarrow> frame (km_mem k) tab va \<notin> A"
  shows "user_mem m' tab' va = user_mem (km_mem k) tab va"
proof (cases "va < user_top \<and> valid (km_mem k) tab va")
  case True
  have "page_ok end (frame (km_mem k) tab va)" using space_okD(3) [OF ok frame_in] True by blast
  moreover have "\<forall>q \<in> A. q mod PGSIZE = 0" using space_pages [OF ok] page_aligned out(2) by blast
  ultimately have "m' (frame (km_mem k) tab va + va mod PGSIZE) = km_mem k (frame (km_mem k) tab va + va mod PGSIZE)"
    using byte_kept [OF out(1)] out(3) True by (simp add: page_ok_def)
  then show ?thesis using True va by (simp add: user_mem_def valid_def frame_def)
qed (use va in \<open>auto simp: user_mem_def valid_def\<close>)

section \<open>Growing and shrinking\<close>

lemma uvmalloc_spec:
  assumes ok: "space_ok end k fl tab" and root: "tab [] = Some root" and sz: "oldsz \<le> newsz" "newsz \<le> user_top" and x: "xperm < 1024"
    and un0: "\<forall>w. PGROUNDUP64 oldsz \<le> w \<and> w < PGROUNDUP64 newsz \<longrightarrow> \<not> valid (km_mem k) tab w"
  shows "vruns (uvmalloc end root oldsz newsz xperm) k (\<lambda>r k'. \<exists>fl' tab'. space_ok end k' fl' tab' \<and> tab \<subseteq>\<^sub>m tab'
     \<and> (r = newsz \<and> pages_added k fl tab (PGROUNDUP64 oldsz) (PGROUNDUP64 newsz) (2 OR 16 OR xperm) k' fl' tab'
        \<or> r = 0 \<and> oldsz < newsz \<and> pages_undone k fl tab (PGROUNDUP64 oldsz) (PGROUNDUP64 oldsz) (PGROUNDUP64 newsz) k' fl' tab'))"
proof -
  note un = un0 [rule_format, OF conjI]
  have old: "oldsz \<le> user_top" using sz by simp
  note up = round_up [OF old] round_up [OF sz(2)]
  have le: "PGROUNDUP64 oldsz \<le> PGROUNDUP64 newsz"
    using next_multiple [OF up(5) up(1)] up(2,3,6) sz(1) by (cases "PGROUNDUP64 newsz < PGROUNDUP64 oldsz") linarith+
  have perm: "2 OR 16 OR xperm < 1024" using x or_less [of 2 10 "16 OR xperm"] or_less [of 16 10 xperm] by simp
  have "uvmalloc end root oldsz newsz xperm = uvmalloc_from end root (PGROUNDUP64 oldsz) (PGROUNDUP64 oldsz) newsz xperm"
    using sz(1) by (simp add: uvmalloc_def)
  moreover have "oldsz < newsz" if "PGROUNDUP64 oldsz < newsz" using that up(2) by simp
  ultimately show ?thesis
    by (simp only:) (rule vruns_mono [OF uvmalloc_from_spec [OF ok root up(1) order_refl up(1) sz(2) le refl perm un]], blast+)
qed

lemma added_mem:
  assumes ok: "space_ok end k fl tab" and ok': "space_ok end k' fl' tab'" and sub: "tab \<subseteq>\<^sub>m tab'"
    and A: "pages_added k fl tab a b perm k' fl' tab'" and b: "b \<le> user_top" "perm < 1024" and ab: "a mod PGSIZE = 0" "a \<le> b"
    and un0: "\<forall>w. a \<le> w \<and> w < b \<longrightarrow> \<not> valid (km_mem k) tab w"
  shows "user_mem (km_mem k') tab' = (\<lambda>va. if a \<le> va \<and> va < b then Some 0 else user_mem (km_mem k) tab va)"
    "all_pages fl' (km_mem k') tab' = all_pages fl (km_mem k) tab"
proof -
  note un = un0 [rule_format, OF conjI]
  note B = A [unfolded pages_added_def]
  have page: "\<exists>p. p \<in> set fl \<and> lookup (km_mem k') tab' w = PA2PTE p OR perm OR 1 \<and> (\<forall>x. p \<le> x \<and> x < p + PGSIZE \<longrightarrow> km_mem k' x = 0)"
    if w: "a \<le> w" "w < b" for w
  proof -
    have "a \<le> PGROUNDDOWN w"
      using next_multiple [OF down(1) [of w] ab(1)] down(3) [of w] w(1) by (cases "PGROUNDDOWN w < a") linarith+
    then show ?thesis
      using spec [OF conjunct1 [OF conjunct2 [OF B]], of "PGROUNDDOWN w"] down(1,2) [of w] w b(1) lookup_down [of w "km_mem k'" tab'] by simp
  qed
  show "user_mem (km_mem k') tab' = (\<lambda>va. if a \<le> va \<and> va < b then Some 0 else user_mem (km_mem k) tab va)"
  proof (rule ext)
    fix va
    show "user_mem (km_mem k') tab' va = (if a \<le> va \<and> va < b then Some 0 else user_mem (km_mem k) tab va)"
    proof (cases "a \<le> va \<and> va < b")
      case True
      obtain p where p: "p \<in> set fl" "lookup (km_mem k') tab' va = PA2PTE p OR perm OR 1" "\<forall>x. p \<le> x \<and> x < p + PGSIZE \<longrightarrow> km_mem k' x = 0"
        using page True by blast
      have "page_ok end p" using space_pages [OF ok] p(1) by (auto simp: all_pages_def)
      then have "frame (km_mem k') tab' va = p"
        unfolding frame_def p(2) by (intro PTE2PA_make) (use b(2) in \<open>auto simp: page_ok_def\<close>)
      moreover have "valid (km_mem k') tab' va" by (simp add: valid_def p(2) table_entry)
      ultimately show ?thesis using True b(1) p(3) by (simp add: user_mem_def)
    next
      case False
      have "user_mem (km_mem k') tab' va = user_mem (km_mem k) tab va"
      proof (rule user_mem_kept [OF ok])
        show "same_outside (ran tab \<union> set fl) (km_mem k) (km_mem k')" using B by blast
        show "ran tab \<union> set fl \<subseteq> all_pages fl (km_mem k) tab" by (auto simp: all_pages_def)
        show "frame (km_mem k) tab va \<notin> ran tab \<union> set fl" if "va < user_top" "valid (km_mem k) tab va"
          using space_okD(3) [OF ok frame_in [OF that]] by blast
      qed (use B False in auto)
      then show ?thesis unfolding if_not_P [OF False] .
    qed
  qed
  have r: "ran tab \<subseteq> ran tab'" by (rule ran_mono [OF sub])
  have "frames (km_mem k') tab' 0 user_top = frames (km_mem k) tab 0 user_top \<union> frames (km_mem k') tab' a b"
  proof -
    have low: "vpages (km_mem k') tab' 0 user_top = vpages (km_mem k) tab 0 user_top \<union> vpages (km_mem k') tab' a b"
    proof (rule set_eqI)
      fix w
      have "valid (km_mem k') tab' w \<longleftrightarrow> valid (km_mem k) tab w" if "w < user_top" "\<not> (a \<le> w \<and> w < b)"
        using B that by (auto simp: valid_def)
      then show "w \<in> vpages (km_mem k') tab' 0 user_top \<longleftrightarrow> w \<in> vpages (km_mem k) tab 0 user_top \<union> vpages (km_mem k') tab' a b"
        using un [of w] b(1) unfolding vpages_def Un_iff mem_Collect_eq by (cases "a \<le> w \<and> w < b") auto
    qed
    have "frame (km_mem k') tab' w = frame (km_mem k) tab w" if "w \<in> vpages (km_mem k) tab 0 user_top" for w
    proof -
      have "w < MAXVA" "\<not> (a \<le> w \<and> w < b)" using that un [of w] by (auto simp: vpages_def)
      then have "lookup (km_mem k') tab' w = lookup (km_mem k) tab w" using B by blast
      then show ?thesis by (simp add: frame_def)
    qed
    then show ?thesis unfolding frames_def low image_Un by simp
  qed
  moreover have "set fl = set fl' \<union> frames (km_mem k') tab' a b \<union> (ran tab' - ran tab)" using B by blast
  ultimately show "all_pages fl' (km_mem k') tab' = all_pages fl (km_mem k) tab" unfolding all_pages_def using r by blast
qed

lemma undone_mem:
  assumes ok: "space_ok end k fl tab" and ok': "space_ok end k' fl' tab'" and sub: "tab \<subseteq>\<^sub>m tab'"
    and U: "pages_undone k fl tab a a b k' fl' tab'" and b: "b \<le> user_top"
    and un0: "\<forall>w. a \<le> w \<and> w < b \<longrightarrow> \<not> valid (km_mem k) tab w"
  shows "user_mem (km_mem k') tab' = user_mem (km_mem k) tab" "all_pages fl' (km_mem k') tab' = all_pages fl (km_mem k) tab"
proof -
  note un = un0 [rule_format, OF conjI]
  note B = U [unfolded pages_undone_def, unfolded frames_empty(1) [OF order_refl]]
  have out: "same_outside (ran tab \<union> set fl) (km_mem k) (km_mem k')" using B unfolding Un_empty_right by blast
  have v: "valid (km_mem k') tab' w \<longleftrightarrow> valid (km_mem k) tab w" if "w < user_top" for w
  proof (cases "a \<le> w \<and> w < b")
    case True
    then show ?thesis using B un [of w] that by simp
  next
    case False
    then have "lookup (km_mem k') tab' w = lookup (km_mem k) tab w" using B that by simp
    then show ?thesis by (simp add: valid_def)
  qed
  have l: "lookup (km_mem k') tab' w = lookup (km_mem k) tab w" if "w < user_top" "valid (km_mem k) tab w" for w
  proof -
    have "\<not> (a \<le> w \<and> w < b)" using un that(2) by blast
    then show ?thesis using B that(1) by simp
  qed
  show "user_mem (km_mem k') tab' = user_mem (km_mem k) tab"
  proof (rule ext)
    fix va
    show "user_mem (km_mem k') tab' va = user_mem (km_mem k) tab va"
    proof (cases "va < user_top \<and> valid (km_mem k) tab va")
      case True
      show ?thesis
        by (rule user_mem_kept [OF ok _ out])
          (use True l space_okD(3) [OF ok frame_in] in \<open>auto simp: all_pages_def\<close>)
    qed (use v in \<open>auto simp: user_mem_def\<close>)
  qed
  have V: "vpages (km_mem k') tab' 0 user_top = vpages (km_mem k) tab 0 user_top"
    using v by (auto simp: vpages_def)
  have "frames (km_mem k') tab' 0 user_top = frames (km_mem k) tab 0 user_top"
    unfolding frames_def V by (rule image_cong [OF refl]) (simp add: frame_def vpages_def l)
  moreover have "set fl = set fl' \<union> (ran tab' - ran tab)" using B by simp
  ultimately show "all_pages fl' (km_mem k') tab' = all_pages fl (km_mem k) tab"
    unfolding all_pages_def using ran_mono [OF sub] by blast
qed

text \<open>
  C12: Growing a process either returns the new size, and then its memory is the old one with zeros in the
  new pages and nowhere else, or returns 0 with the memory exactly as it was; in both cases the address space
  stays consistent and every page is still free, a table or a frame, so that a failure half way loses none.
\<close>

theorem uvmalloc_all_or_nothing:
  assumes ok: "space_ok end k fl tab" and root: "tab [] = Some root" and sz: "oldsz \<le> newsz" "newsz \<le> TRAPFRAME" and x: "xperm < 1024"
    and un: "\<And>w. PGROUNDUP64 oldsz \<le> w \<Longrightarrow> w < PGROUNDUP64 newsz \<Longrightarrow> user_mem (km_mem k) tab w = None"
  shows "\<exists>r k' fl' tab'. uvmalloc end root oldsz newsz xperm k = VRet (r, k') \<and> space_ok end k' fl' tab' \<and> tab' [] = Some root
     \<and> all_pages fl' (km_mem k') tab' = all_pages fl (km_mem k) tab
     \<and> (r = newsz \<and> user_mem (km_mem k') tab' = (\<lambda>va. if PGROUNDUP64 oldsz \<le> va \<and> va < PGROUNDUP64 newsz then Some 0 else user_mem (km_mem k) tab va)
       \<or> r = 0 \<and> oldsz < newsz \<and> user_mem (km_mem k') tab' = user_mem (km_mem k) tab)"
proof -
  have old: "oldsz \<le> user_top" using sz by simp
  note up = round_up [OF old] round_up [OF sz(2)]
  have le: "PGROUNDUP64 oldsz \<le> PGROUNDUP64 newsz"
    using next_multiple [OF up(5) up(1)] up(2,3,6) sz(1) by (cases "PGROUNDUP64 newsz < PGROUNDUP64 oldsz") linarith+
  have perm: "2 OR 16 OR xperm < 1024" using x or_less [of 2 10 "16 OR xperm"] or_less [of 16 10 xperm] by simp
  have un': "\<forall>w. PGROUNDUP64 oldsz \<le> w \<and> w < PGROUNDUP64 newsz \<longrightarrow> \<not> valid (km_mem k) tab w"
  proof (intro allI impI notI)
    fix w assume w: "PGROUNDUP64 oldsz \<le> w \<and> w < PGROUNDUP64 newsz" and v: "valid (km_mem k) tab w"
    then show False using un [of w] up(8) by (simp add: user_mem_def)
  qed
  obtain r k' fl' tab' where r: "uvmalloc end root oldsz newsz xperm k = VRet (r, k')" "space_ok end k' fl' tab'" "tab \<subseteq>\<^sub>m tab'"
    "r = newsz \<and> pages_added k fl tab (PGROUNDUP64 oldsz) (PGROUNDUP64 newsz) (2 OR 16 OR xperm) k' fl' tab'
        \<or> r = 0 \<and> oldsz < newsz \<and> pages_undone k fl tab (PGROUNDUP64 oldsz) (PGROUNDUP64 oldsz) (PGROUNDUP64 newsz) k' fl' tab'"
    using uvmalloc_spec [OF ok root sz x un'] unfolding vruns_def by (elim exE conjE) (rule that)
  have root': "tab' [] = Some root" using r(3) root by (auto simp: map_le_def dom_def)
  note added = added_mem [OF ok r(2,3) _ up(8) perm up(1) le un'] and undone = undone_mem [OF ok r(2,3) _ up(8) un']
  from r(4) show ?thesis
  proof (elim disjE conjE)
    assume "r = newsz" and A: "pages_added k fl tab (PGROUNDUP64 oldsz) (PGROUNDUP64 newsz) (2 OR 16 OR xperm) k' fl' tab'"
    with r(1,2) root' added [OF A] show ?thesis by blast
  next
    assume "r = 0" "oldsz < newsz" and U: "pages_undone k fl tab (PGROUNDUP64 oldsz) (PGROUNDUP64 oldsz) (PGROUNDUP64 newsz) k' fl' tab'"
    with r(1,2) root' undone [OF U] show ?thesis by blast
  qed
qed

section \<open>An address space with nothing in it\<close>

abbreviation (input) small_root :: nat where "small_root \<equiv> 0x80100000"

definition small_tab :: tables where
  "small_tab = [[] \<mapsto> small_root]"

lemma small_start:
  "vm_ok 0x80000000 \<lparr>km_mem = (\<lambda>_. 0), km_freelist = 0\<rparr> [] small_tab" "lookup (\<lambda>_. 0) small_tab va = 0"
proof -
  have "pentry (\<lambda>_. 0) p i = 0" for p i by (simp add: pentry_def load64_def dec_le_zero)
  then show "vm_ok 0x80000000 \<lparr>km_mem = (\<lambda>_. 0), km_freelist = 0\<rparr> [] small_tab"
    by (auto simp: vm_ok_def tables_ok_def small_tab_def kmem_inv_def page_ok_def has_def)
  show "lookup (\<lambda>_. 0) small_tab va = 0" by (simp add: lookup_pentry small_tab_def)
qed

text \<open>Two pages are given to the allocator.\<close>

lemma small_space:
  "\<exists>k. vm_ok 0x80000000 k [0x80103000, 0x80102000] small_tab \<and> (\<forall>va. lookup (km_mem k) small_tab va = 0)"
proof -
  let ?k0 = "\<lparr>km_mem = (\<lambda>_. 0), km_freelist = 0\<rparr> :: kmem"
  have p: "page_ok 0x80000000 0x80102000" "page_ok 0x80000000 0x80103000" by (simp_all add: page_ok_def)
  have r: "ran small_tab = {small_root}" by (simp add: small_tab_def)
  obtain k1 where 1: "vm_ok 0x80000000 k1 [0x80102000] small_tab" "\<forall>va. lookup (km_mem k1) small_tab va = 0"
    using kfree_page [OF small_start(1) p(1)] small_start(2) r unfolding vruns_def by auto
  obtain k2 where "vm_ok 0x80000000 k2 [0x80103000, 0x80102000] small_tab" "\<forall>va. lookup (km_mem k2) small_tab va = 0"
    using kfree_page [OF 1(1) p(2)] 1(2) r unfolding vruns_def by auto
  then show ?thesis by blast
qed

lemma small_space_ok:
  assumes "vm_ok end k fl tab" "\<forall>va. lookup (km_mem k) tab va = 0"
  shows "space_ok end k fl tab" "user_mem (km_mem k) tab va = None"
  using assms by (auto simp: space_ok_def owned_def frames_def vpages_def valid_def has_def user_mem_def)

theorem uvmalloc_all_or_nothing_witness:
  "\<exists>k r k' fl' tab'. vm_ok 0x80000000 k [0x80103000, 0x80102000] small_tab \<and> uvmalloc 0x80000000 small_root 0 5000 4 k = VRet (r, k')
     \<and> space_ok 0x80000000 k' fl' tab' \<and> (r = 5000 \<and> user_mem (km_mem k') tab' 4999 = Some 0 \<or> r = 0 \<and> user_mem (km_mem k') tab' 4999 = None)"
proof -
  obtain k where k: "vm_ok 0x80000000 k [0x80103000, 0x80102000] small_tab" "\<forall>va. lookup (km_mem k) small_tab va = 0"
    using small_space by blast
  have root: "small_tab [] = Some small_root" by (simp add: small_tab_def)
  have up: "PGROUNDUP64 0 = 0" "4999 < PGROUNDUP64 5000" by (simp_all add: PGROUNDUP64_def PGROUNDDOWN_def)
  obtain r k' fl' tab' where r: "uvmalloc 0x80000000 small_root 0 5000 4 k = VRet (r, k')" "space_ok 0x80000000 k' fl' tab'"
    "r = 5000 \<and> user_mem (km_mem k') tab' = (\<lambda>va. if PGROUNDUP64 0 \<le> va \<and> va < PGROUNDUP64 5000 then Some 0 else user_mem (km_mem k) small_tab va)
       \<or> r = 0 \<and> 0 < (5000 :: nat) \<and> user_mem (km_mem k') tab' = user_mem (km_mem k) small_tab"
    using uvmalloc_all_or_nothing [OF small_space_ok(1) [OF k] root, of 0 5000 4] small_space_ok(2) [OF k] by auto
  then have "r = 5000 \<and> user_mem (km_mem k') tab' 4999 = Some 0 \<or> r = 0 \<and> user_mem (km_mem k') tab' 4999 = None"
    using up small_space_ok(2) [OF k] by auto
  with k(1) r(1,2) show ?thesis by blast
qed

end
