(* ===== verification/Vm_Copy.thy ===== *)
theory Vm_Copy
  imports Vm_User
begin

text \<open>
  Copies between the kernel and a process. Pages below the size of the process that are not there yet
  read as zero; faulting one in is invisible to the process.
\<close>

section \<open>The memory a process sees\<close>

definition seen_mem :: "nat \<Rightarrow> phys \<Rightarrow> tables \<Rightarrow> nat \<Rightarrow> byte option" where
  "seen_mem sz m tab va = (case user_mem m tab va of Some b \<Rightarrow> Some b | None \<Rightarrow> if va < PGROUNDUP64 sz then Some 0 else None)"

text \<open>The pages above the user's part are not for the user.\<close>

definition top_closed :: "phys \<Rightarrow> tables \<Rightarrow> bool" where
  "top_closed m tab \<longleftrightarrow> (\<forall>va. user_top \<le> va \<and> va < MAXVA \<longrightarrow> \<not> has (lookup m tab va) PTE_U)"

text \<open>An address space that a process of size \<open>sz\<close> runs in, and a change that it does not notice.\<close>

definition runs_in :: "nat \<Rightarrow> space \<Rightarrow> kmem \<Rightarrow> nat list \<Rightarrow> tables \<Rightarrow> bool" where
  "runs_in end p k fl tab \<longleftrightarrow> space_ok end k fl tab \<and> tab [] = Some (sp_pagetable p) \<and> sp_sz p \<le> user_top \<and> top_closed (km_mem k) tab"

definition unseen :: "nat \<Rightarrow> space \<Rightarrow> kmem \<Rightarrow> nat list \<Rightarrow> tables \<Rightarrow> kmem \<Rightarrow> nat list \<Rightarrow> tables \<Rightarrow> bool" where
  "unseen end p k fl tab k' fl' tab' \<longleftrightarrow> runs_in end p k' fl' tab' \<and> all_pages fl' (km_mem k') tab' = all_pages fl (km_mem k) tab
     \<and> seen_mem (sp_sz p) (km_mem k') tab' = seen_mem (sp_sz p) (km_mem k) tab
     \<and> same_outside (all_pages fl (km_mem k) tab) (km_mem k) (km_mem k')"

lemma runs_inD:
  assumes "runs_in end p k fl tab"
  shows "space_ok end k fl tab" "vm_ok end k fl tab" "tab [] = Some (sp_pagetable p)" "sp_sz p \<le> user_top" "top_closed (km_mem k) tab"
  using assms space_okD(1) by (auto simp: runs_in_def)

lemma unseen_refl: "runs_in end p k fl tab \<Longrightarrow> unseen end p k fl tab k fl tab"
  by (simp add: unseen_def)

lemma walkaddr_find:
  assumes "vm_ok end k fl tab" "tab [] = Some root" "va < MAXVA"
  shows "walkaddr root va k = VRet (if valid (km_mem k) tab va \<and> has (lookup (km_mem k) tab va) PTE_U then frame (km_mem k) tab va else 0, k)"
proof (cases "entry_of tab va")
  case None
  then have "\<not> valid (km_mem k) tab va" by (simp add: valid_def lookup_def has_def)
  then show ?thesis using assms(3) None by (simp add: walkaddr_def vthen_def walk_find [OF assms] vret_def)
next
  case (Some a)
  have "a \<noteq> 0" using Some vm_okD(3) [OF assms(1)] by (auto simp: entry_of_def page_ok_def)
  moreover have "load64 (km_mem k) a = lookup (km_mem k) tab va" by (simp add: lookup_def Some)
  ultimately show ?thesis
    using assms(3) Some by (simp add: walkaddr_def vthen_def walk_find [OF assms] vret_def v_load_def valid_def frame_def)
qed

lemma ismapped_find:
  assumes "vm_ok end k fl tab" "tab [] = Some root" "va < MAXVA"
  shows "ismapped root va k = VRet (valid (km_mem k) tab va, k)"
proof (cases "entry_of tab va")
  case None
  then have "\<not> valid (km_mem k) tab va" by (simp add: valid_def lookup_def has_def)
  then show ?thesis using None by (simp add: ismapped_def vthen_def walk_find [OF assms] vret_def)
next
  case (Some a)
  have "a \<noteq> 0" using Some vm_okD(3) [OF assms(1)] by (auto simp: entry_of_def page_ok_def)
  moreover have "load64 (km_mem k) a = lookup (km_mem k) tab va" by (simp add: lookup_def Some)
  ultimately show ?thesis using Some by (simp add: ismapped_def vthen_def walk_find [OF assms] vret_def v_load_def valid_def)
qed

section \<open>Faults\<close>

lemma one_page_added:
  assumes A: "page_added end k fl tab (fill p PGSIZE 0 (km_mem k1)) a p perm k' fl' tab'" and ok: "space_ok end k fl tab"
    and al: "kalloc k = (p, k1)" "p \<noteq> 0" and a: "a mod PGSIZE = 0" "a + PGSIZE \<le> user_top" and perm: "perm < 1024"
  shows "pages_added k fl tab a (a + PGSIZE) perm k' fl' tab'"
proof -
  note z = zero_page [OF ok al]
  have ok': "space_ok end k' fl' tab'" using A by (simp add: page_added_def)
  have "pages_added k' fl' tab' (a + PGSIZE) (a + PGSIZE) perm k' fl' tab'"
    by (auto simp: pages_added_def frames_empty)
  then show ?thesis
    by (intro added_then_added [OF A a(1) _ a(2) _ z(3,4,1) perm ok' _ map_le_refl]) (use a in \<open>simp_all add: mod_add_self2\<close>)
qed

lemma seen_mem_cong: "user_mem m' tab' = user_mem m tab \<Longrightarrow> seen_mem sz m' tab' = seen_mem sz m tab"
  by (rule ext) (simp add: seen_mem_def)

lemma top_closed_same: "top_closed m tab \<Longrightarrow> (\<And>w. user_top \<le> w \<Longrightarrow> w < MAXVA \<Longrightarrow> lookup m' tab' w = lookup m tab w) \<Longrightarrow> top_closed m' tab'"
  unfolding top_closed_def by simp

lemma vmfault_spec:
  assumes R: "runs_in end p k fl tab" and va: "va mod PGSIZE = 0"
  shows "vruns (vmfault end p (sp_pagetable p) va) k (\<lambda>pa k'. \<exists>fl' tab'. unseen end p k fl tab k' fl' tab'
     \<and> (pa \<noteq> 0 \<longrightarrow> va < user_top \<and> valid (km_mem k') tab' va \<and> pa = frame (km_mem k') tab' va))"
proof -
  note D = runs_inD [OF R]
  let ?Q = "\<lambda>pa k'. \<exists>fl' tab'. unseen end p k fl tab k' fl' tab' \<and> (pa \<noteq> 0 \<longrightarrow> va < user_top \<and> valid (km_mem k') tab' va \<and> pa = frame (km_mem k') tab' va)"
  have none: "?Q 0 k" using unseen_refl [OF R] by auto
  show ?thesis
  proof (cases "va \<ge> sp_sz p")
    case True
    then show ?thesis using none by (simp add: vmfault_def)
  next
    case False
    then have top: "va < user_top" using D(4) by simp
    have le: "va + PGSIZE \<le> user_top" using next_multiple [OF va _ top] by simp
    have down: "PGROUNDDOWN va = va" using va by (simp add: PGROUNDDOWN_def)
    have mapped: "ismapped (sp_pagetable p) va k = VRet (valid (km_mem k) tab va, k)"
      by (rule ismapped_find [OF D(2,3)]) (use top in simp)
    obtain q k1 where q: "kalloc k = (q, k1)" by (cases "kalloc k")
    let ?m = "fill q PGSIZE 0 (km_mem k1)" and ?perm = "4 OR 16 OR 2 :: nat"
    have perm: "?perm < 1024" by code_simp
    show ?thesis
    proof (cases "valid (km_mem k) tab va \<or> q = 0")
      case True
      have "k1 = k" if "q = 0" using kalloc_none [OF vm_okD(1) [OF D(2)]] q that by simp
      then have "vruns (vmfault end p (sp_pagetable p) va) k Q \<longleftrightarrow> Q 0 k" for Q
        using True False by (auto simp: vmfault_def down vruns_then vruns_def [of "ismapped (sp_pagetable p) va"] mapped q)
      with none show ?thesis by simp
    next
      case fresh: False
      then have un: "\<not> valid (km_mem k) tab va" and q0: "q \<noteq> 0" by auto
      note z = zero_page [OF D(1) q q0]
      have un_page: "\<forall>w. va \<le> w \<and> w < va + PGSIZE \<longrightarrow> \<not> valid (km_mem k) tab w"
      proof (intro allI impI)
        fix w assume w: "va \<le> w \<and> w < va + PGSIZE"
        have "lookup (km_mem k) tab w = lookup (km_mem k) tab va"
          by (rule lookup_page) (use w page_index [OF va, of w] le in auto)
        then show "\<not> valid (km_mem k) tab w" using un by (simp add: valid_def)
      qed
      have seen: "seen_mem (sp_sz p) m' tab' = seen_mem (sp_sz p) (km_mem k) tab"
        if "user_mem m' tab' = (\<lambda>w. if va \<le> w \<and> w < va + PGSIZE then Some 0 else user_mem (km_mem k) tab w)" for m' tab'
      proof (rule ext)
        fix w
        have "w < PGROUNDUP64 (sp_sz p)" if "w < va + PGSIZE"
          using next_multiple [OF va round_up(1) [OF D(4)]] round_up(2) [OF D(4)] False that by simp
        then show "seen_mem (sp_sz p) m' tab' w = seen_mem (sp_sz p) (km_mem k) tab w"
          using un_page by (simp add: seen_mem_def that) (simp add: user_mem_def)
      qed
      have "vruns (mappages (sp_pagetable p) va PGSIZE q ?perm) (k1\<lparr>km_mem := ?m\<rparr>)
         (\<lambda>r k'. vruns (if r \<noteq> 0 then vthen (v_kfree end q) (\<lambda>_. vret 0) else vret q) k' ?Q)"
      proof (rule vruns_mono [OF new_page [OF D(1,3) va top un q q0 z(3) perm]], elim exE)
        fix r :: int and k' fl' tab'
        assume res: "if r = 0 then page_added end k fl tab ?m va q ?perm k' fl' tab' else r = -1 \<and> page_failed end k fl tab ?m q k' tab'"
        show "vruns (if r \<noteq> 0 then vthen (v_kfree end q) (\<lambda>_. vret 0) else vret q) k' ?Q"
        proof (cases "r = 0")
          case True
          then have A: "page_added end k fl tab ?m va q ?perm k' fl' tab'" using res by simp
          have sub: "tab \<subseteq>\<^sub>m tab'" and ok': "space_ok end k' fl' tab'"
            and look: "\<forall>w < MAXVA. lookup (km_mem k') tab' w = (if va \<le> w \<and> w < va + PGSIZE then PA2PTE q OR ?perm OR 1 else lookup (km_mem k) tab w)"
            using A unfolding page_added_def by blast+
          note P = one_page_added [OF A D(1) q q0 va le perm]
          note M = added_mem [OF D(1) ok' sub P le perm va _ un_page]
          have "top_closed (km_mem k') tab'" by (rule top_closed_same [OF D(5)]) (use look le in simp)
          moreover have "tab' [] = Some (sp_pagetable p)" using sub D(3) by (auto simp: map_le_def dom_def)
          moreover have "same_outside (all_pages fl (km_mem k) tab) (km_mem k) (km_mem k')"
            using P unfolding pages_added_def by (auto simp: all_pages_def intro: same_outside_mono)
          ultimately have "unseen end p k fl tab k' fl' tab'"
            using ok' D(4) M seen by (simp add: unseen_def runs_in_def)
          then show ?thesis using added_facts(2,3) [OF A va top z(3,1) perm] top True by auto
        next
          case r: False
          then have f: "page_failed end k fl tab ?m q k' tab'" using res by simp
          have sub: "tab \<subseteq>\<^sub>m tab'" using f by (simp add: page_failed_def)
          have "?Q 0 k2" if 2: "space_ok end k2 [q] tab'" "\<forall>w < MAXVA. lookup (km_mem k2) tab' w = lookup (km_mem k) tab w"
              "set fl = set [q] \<union> (ran tab' - ran tab)" "same_outside (insert q (ran tab')) ?m (km_mem k2)" for k2
          proof -
            have out: "same_outside (ran tab \<union> set fl) (km_mem k) (km_mem k2)"
              by (rule same_outside_trans [OF z(3) 2(4)]) (use 2(3) ran_mono [OF sub] in auto)
            have "pages_undone k2 [q] tab' va va va k2 [q] tab'" by (auto simp: pages_undone_def frames_empty)
            note U = failed_then_undone [OF 2(1-3) sub out order_refl _ this]
            have U: "pages_undone k fl tab va va va k2 [q] tab'" by (rule U) (use top in simp)
            have M: "user_mem (km_mem k2) tab' = user_mem (km_mem k) tab" "all_pages [q] (km_mem k2) tab' = all_pages fl (km_mem k) tab"
              by (rule undone_mem [OF D(1) 2(1) sub U], use top in simp, fastforce)+
            have "top_closed (km_mem k2) tab'" by (rule top_closed_same [OF D(5)]) (use 2(2) in simp)
            moreover have "tab' [] = Some (sp_pagetable p)" using sub D(3) by (auto simp: map_le_def dom_def)
            moreover have "same_outside (all_pages fl (km_mem k) tab) (km_mem k) (km_mem k2)"
              using out by (auto simp: all_pages_def intro: same_outside_mono)
            ultimately have "unseen end p k fl tab k2 [q] tab'"
              unfolding unseen_def runs_in_def using 2(1) D(4) M(2) seen_mem_cong [OF M(1)] by (intro conjI)
            then show ?thesis by blast
          qed
          then show ?thesis unfolding if_P [OF r] vruns_then vruns_ret by (rule vruns_mono [OF give_back [OF f]]) blast+
        qed
      qed
      then show ?thesis
        unfolding vmfault_def if_not_P [OF False] down vruns_then [of "ismapped (sp_pagetable p) va"] vruns_VRet [of "ismapped (sp_pagetable p) va", OF mapped] if_not_P [OF un]
          vruns_then [of v_kalloc] vruns_kalloc q fst_conv snd_conv if_not_P [OF q0] vruns_then [of "v_memset q PGSIZE 0"] vruns_memset
          vruns_then [of "mappages (sp_pagetable p) va PGSIZE q ?perm"] .
    qed
  qed
qed

lemma fault_in_spec:
  assumes R: "runs_in end p k fl tab" and va: "va mod PGSIZE = 0"
  shows "vruns (fault_in end p (sp_pagetable p) va) k (\<lambda>pa k'. \<exists>fl' tab'. unseen end p k fl tab k' fl' tab'
     \<and> (pa \<noteq> 0 \<longrightarrow> va < user_top \<and> valid (km_mem k') tab' va \<and> pa = frame (km_mem k') tab' va))"
proof -
  note D = runs_inD [OF R]
  show ?thesis
  proof (cases "va < MAXVA \<and> valid (km_mem k) tab va \<and> has (lookup (km_mem k) tab va) PTE_U")
    case True
    then have w: "walkaddr (sp_pagetable p) va k = VRet (frame (km_mem k) tab va, k)" by (simp add: walkaddr_find [OF D(2,3)])
    have top: "va < user_top" using D(5) True by (auto simp: top_closed_def not_less [symmetric])
    have "0 < frame (km_mem k) tab va" using space_okD(3) [OF D(1) frame_in [OF top]] True by (simp add: page_ok_def)
    then show ?thesis
      using unseen_refl [OF R] True top by (auto simp: fault_in_def vruns_then vruns_def [of "walkaddr (sp_pagetable p) va"] w)
  next
    case False
    have w: "walkaddr (sp_pagetable p) va k = VRet (0, k)"
      using False walkaddr_find [OF D(2,3), of va] by (cases "va < MAXVA") (auto simp: walkaddr_def vret_def)
    then show ?thesis using vmfault_spec [OF R va] by (simp add: fault_in_def vruns_then vruns_def [of "walkaddr (sp_pagetable p) va"])
  qed
qed

section \<open>Writing into a page\<close>

lemma write_user:
  assumes ok: "space_ok end k fl tab" and va: "va < user_top" "valid (km_mem k) tab va" and len: "va mod PGSIZE + length bs \<le> PGSIZE"
    and m: "m = store_bytes (frame (km_mem k) tab va + va mod PGSIZE) bs (km_mem k)"
  shows "space_ok end (k\<lparr>km_mem := m\<rparr>) fl tab" "lookup m tab w = lookup (km_mem k) tab w"
    "same_outside {frame (km_mem k) tab va} (km_mem k) m"
    "user_mem m tab = (\<lambda>w. if va \<le> w \<and> w < va + length bs then Some (bs ! (w - va)) else user_mem (km_mem k) tab w)"
proof -
  let ?f = "frame (km_mem k) tab va"
  note F = space_okD(3) [OF ok frame_in [OF va]]
  have fal: "?f mod PGSIZE = 0" using F by (simp add: page_ok_def)
  show out: "same_outside {?f} (km_mem k) m"
    using len unfolding m same_outside_def in_pages_def by (auto simp: store_bytes_def)
  note same = other_memory [OF space_okD(1) [OF ok] out]
  show look: "lookup m tab w = lookup (km_mem k) tab w" for w by (rule same(2)) (use fal F in auto)
  have "kmem_inv end (k\<lparr>km_mem := m\<rparr>) fl"
    by (rule kmem_inv_mem [OF vm_okD(1) [OF space_okD(1) [OF ok]] out]) (use fal F in auto)
  moreover have "tables_ok m tab" by (rule same(1)) (use fal F in auto)
  ultimately have "vm_ok end (k\<lparr>km_mem := m\<rparr>) fl tab" using space_okD(1) [OF ok] by (simp add: vm_ok_def)
  then show "space_ok end (k\<lparr>km_mem := m\<rparr>) fl tab"
    by (rule space_ok_cong(1) [OF ok]) (use look space_okD(3) [OF ok] in auto)
  show "user_mem m tab = (\<lambda>w. if va \<le> w \<and> w < va + length bs then Some (bs ! (w - va)) else user_mem (km_mem k) tab w)"
  proof (rule ext)
    fix w
    show "user_mem m tab w = (if va \<le> w \<and> w < va + length bs then Some (bs ! (w - va)) else user_mem (km_mem k) tab w)"
    proof (cases "w < user_top \<and> valid (km_mem k) tab w")
      case False
      have "\<not> (va \<le> w \<and> w < va + length bs)"
      proof
        assume w: "va \<le> w \<and> w < va + length bs"
        have page: "w < PGROUNDDOWN va + PGSIZE" using w len down(4) [of va] by linarith
        have "PGROUNDDOWN va + PGSIZE \<le> user_top"
          by (rule next_multiple [OF down(1)]) (use down(2) [of va] va(1) in simp_all)
        then have top: "w < user_top" using page by linarith
        have "PGROUNDDOWN va \<le> w" using w down(2) [of va] by linarith
        then have "lookup (km_mem k) tab w = lookup (km_mem k) tab va"
          using page page_index [OF down(1) [of va], of w] page_index [OF down(1) [of va], of va] down(2,3) [of va] top va(1)
          by (intro lookup_page) simp_all
        with va(2) top False show False by (simp add: valid_def)
      qed
      then show ?thesis using False look unfolding user_mem_def valid_def by auto
    next
      case True
      let ?g = "frame (km_mem k) tab w"
      have g: "page_ok end ?g" using space_okD(3) [OF ok frame_in] True by blast
      have val: "user_mem m tab w = Some (m (?g + w mod PGSIZE))" using True look by (simp add: user_mem_def valid_def frame_def)
      show ?thesis
      proof (cases "PGROUNDDOWN w = PGROUNDDOWN va")
        case same_page: True
        have gf: "?g = ?f"
          using lookup_down [of w "km_mem k" tab] lookup_down [of va "km_mem k" tab] same_page True va(1) by (simp add: frame_def)
        have "?f + w mod PGSIZE \<ge> ?f + va mod PGSIZE \<longleftrightarrow> va \<le> w" "(?f + w mod PGSIZE) - (?f + va mod PGSIZE) = w - va"
          "?f + w mod PGSIZE < ?f + va mod PGSIZE + length bs \<longleftrightarrow> w < va + length bs"
          using down(4) [of w] down(4) [of va] same_page by linarith+
        then have "m (?f + w mod PGSIZE) = (if va \<le> w \<and> w < va + length bs then bs ! (w - va) else km_mem k (?f + w mod PGSIZE))"
          unfolding m store_bytes_def by auto
        then show ?thesis using val gf True by (simp add: user_mem_def)
      next
        case other: False
        have no: "\<not> (va \<le> w \<and> w < va + length bs)"
        proof
          assume w: "va \<le> w \<and> w < va + length bs"
          have "PGROUNDDOWN w = PGROUNDDOWN va"
            by (rule PGROUNDDOWN_page [OF down(1)]) (use w len down(2,4) [of va] in linarith)+
          with other show False ..
        qed
        have "?g \<noteq> ?f"
        proof
          assume eq: "?g = ?f"
          have "frame (km_mem k) tab (PGROUNDDOWN w) = frame (km_mem k) tab (PGROUNDDOWN va)"
            using eq lookup_down [of w "km_mem k" tab] lookup_down [of va "km_mem k" tab] True va(1) by (simp add: frame_def)
          moreover have "PGROUNDDOWN w \<in> vpages (km_mem k) tab 0 user_top" "PGROUNDDOWN va \<in> vpages (km_mem k) tab 0 user_top"
            using True va lookup_down [of w "km_mem k" tab] lookup_down [of va "km_mem k" tab] down(1,2) [of w] down(1,2) [of va]
            by (auto simp: vpages_def valid_def)
          ultimately show False using other inj_onD [OF space_okD(2) [OF ok]] by blast
        qed
        then have "m (?g + w mod PGSIZE) = km_mem k (?g + w mod PGSIZE)"
          by (intro byte_kept [OF out]) (use fal g in \<open>auto simp: page_ok_def\<close>)
        then show ?thesis unfolding if_not_P [OF no] using val True by (simp add: user_mem_def)
      qed
    qed
  qed
qed

section \<open>The loops\<close>

definition copied_out :: "nat \<Rightarrow> space \<Rightarrow> kmem \<Rightarrow> nat list \<Rightarrow> tables \<Rightarrow> nat \<Rightarrow> byte list \<Rightarrow> kmem \<Rightarrow> nat list \<Rightarrow> tables \<Rightarrow> bool" where
  "copied_out end p k fl tab dst bs k' fl' tab' \<longleftrightarrow> runs_in end p k' fl' tab' \<and> all_pages fl' (km_mem k') tab' = all_pages fl (km_mem k) tab
     \<and> same_outside (all_pages fl (km_mem k) tab) (km_mem k) (km_mem k')
     \<and> seen_mem (sp_sz p) (km_mem k') tab' = (\<lambda>va. if dst \<le> va \<and> va < dst + length bs then Some (bs ! (va - dst)) else seen_mem (sp_sz p) (km_mem k) tab va)"

lemma copied_none: "unseen end p k fl tab k' fl' tab' \<Longrightarrow> copied_out end p k fl tab dst [] k' fl' tab'"
  by (auto simp: unseen_def copied_out_def fun_eq_iff)

lemma copied_nowhere: "copied_out end p k fl tab dst [] k' fl' tab' \<Longrightarrow> copied_out end p k fl tab d [] k' fl' tab'"
  by (auto simp: copied_out_def fun_eq_iff)

lemma unseen_then_copied:
  "unseen end p k fl tab k1 fl1 tab1 \<Longrightarrow> copied_out end p k1 fl1 tab1 dst bs k2 fl2 tab2 \<Longrightarrow> copied_out end p k fl tab dst bs k2 fl2 tab2"
  unfolding unseen_def copied_out_def by (metis Un_absorb order_refl same_outside_trans)

lemma copied_then_copied:
  assumes 1: "copied_out end p k fl tab dst bs k1 fl1 tab1" and 2: "copied_out end p k1 fl1 tab1 (dst + length bs) cs k2 fl2 tab2"
  shows "copied_out end p k fl tab dst (bs @ cs) k2 fl2 tab2"
proof -
  have "same_outside (all_pages fl (km_mem k) tab) (km_mem k) (km_mem k2)"
    by (rule same_outside_trans [of "all_pages fl (km_mem k) tab" _ "km_mem k1" "all_pages fl1 (km_mem k1) tab1"])
      (use 1 2 in \<open>simp_all add: copied_out_def\<close>)
  moreover have "seen_mem (sp_sz p) (km_mem k2) tab2
      = (\<lambda>va. if dst \<le> va \<and> va < dst + length (bs @ cs) then Some ((bs @ cs) ! (va - dst)) else seen_mem (sp_sz p) (km_mem k) tab va)"
  proof (rule ext)
    fix va
    have "seen_mem (sp_sz p) (km_mem k2) tab2 va = (if dst + length bs \<le> va \<and> va < dst + length bs + length cs
        then Some (cs ! (va - (dst + length bs))) else if dst \<le> va \<and> va < dst + length bs then Some (bs ! (va - dst)) else seen_mem (sp_sz p) (km_mem k) tab va)"
      using 1 2 unfolding copied_out_def by simp
    then show "seen_mem (sp_sz p) (km_mem k2) tab2 va
        = (if dst \<le> va \<and> va < dst + length (bs @ cs) then Some ((bs @ cs) ! (va - dst)) else seen_mem (sp_sz p) (km_mem k) tab va)"
      by (auto simp: nth_append)
  qed
  ultimately show ?thesis using 1 2 by (simp add: copied_out_def)
qed

lemma write_copies:
  assumes R: "runs_in end p k fl tab" and va: "dst < user_top" "valid (km_mem k) tab dst" and len: "dst mod PGSIZE + length bs \<le> PGSIZE"
  shows "copied_out end p k fl tab dst bs (k\<lparr>km_mem := store_bytes (frame (km_mem k) tab dst + dst mod PGSIZE) bs (km_mem k)\<rparr>) fl tab"
proof -
  note D = runs_inD [OF R]
  let ?m = "store_bytes (frame (km_mem k) tab dst + dst mod PGSIZE) bs (km_mem k)"
  note W = write_user [OF D(1) va len refl]
  have f: "frame (km_mem k) tab dst \<in> all_pages fl (km_mem k) tab" using frame_in [OF va] by (simp add: all_pages_def)
  have F: "frames ?m tab 0 user_top = frames (km_mem k) tab 0 user_top"
    by (rule vpages_cong(2)) (rule W(2))
  have "top_closed ?m tab" by (rule top_closed_same [OF D(5) W(2)])
  moreover have "same_outside (all_pages fl (km_mem k) tab) (km_mem k) ?m"
    by (rule same_outside_mono [OF W(3)]) (use f in simp)
  moreover have "seen_mem (sp_sz p) ?m tab
      = (\<lambda>va. if dst \<le> va \<and> va < dst + length bs then Some (bs ! (va - dst)) else seen_mem (sp_sz p) (km_mem k) tab va)"
    by (rule ext) (simp add: seen_mem_def W(4))
  ultimately show ?thesis
    unfolding copied_out_def runs_in_def kmem.select_convs kmem.update_convs all_pages_def using W(1) D(3,4) F
    by (intro conjI) (simp_all add: all_pages_def)
qed

lemma copyout_spec:
  assumes "runs_in end p k fl tab"
  shows "vruns (copyout end p (sp_pagetable p) dst src) k (\<lambda>r k'. \<exists>fl' tab' n. copied_out end p k fl tab dst (take n src) k' fl' tab'
     \<and> (r = 0 \<and> n = length src \<or> r = -1 \<and> n < length src))"
  using assms
proof (induction "length src" arbitrary: dst src k fl tab rule: less_induct)
  case less
  note R = less.prems
  let ?root = "sp_pagetable p"
  let ?Q = "\<lambda>r k'. \<exists>fl' tab' n. copied_out end p k fl tab dst (take n src) k' fl' tab' \<and> (r = (0 :: int) \<and> n = length src \<or> r = -1 \<and> n < length src)"
  show ?case
  proof (cases "src = []")
    case True
    then show ?thesis using copied_none [OF unseen_refl [OF R]] by (subst copyout.simps) (auto simp: True)
  next
    case False
    define va0 where "va0 = PGROUNDDOWN dst"
    define n where "n = min (PGSIZE - (dst - va0)) (length src)"
    have d: "va0 mod PGSIZE = 0" "va0 \<le> dst" "dst < va0 + PGSIZE" "dst - va0 = dst mod PGSIZE"
      using down [of dst] by (simp_all add: va0_def)
    have stop: "?Q (-1) k1" if "unseen end p k fl tab k1 fl1 tab1" for k1 fl1 tab1
      using copied_none [OF that, of dst] False by (intro exI [of _ fl1] exI [of _ tab1] exI [of _ 0]) simp
    have rest: "vruns (vthen (walk ?root va0 False) (\<lambda>pte. vthen (v_load pte) (\<lambda>e.
             if \<not> has e PTE_W then vret (-1)
             else vthen (v_write (pa0 + (dst - va0)) (take n src)) (\<lambda>_. copyout end p ?root (va0 + PGSIZE) (drop n src))))) k1 ?Q"
      if 1: "unseen end p k fl tab k1 fl1 tab1" "va0 < user_top" "valid (km_mem k1) tab1 va0" "pa0 = frame (km_mem k1) tab1 va0" for pa0 k1 fl1 tab1
    proof -
      have R1: "runs_in end p k1 fl1 tab1" using 1(1) by (simp add: unseen_def)
      note D = runs_inD [OF R1]
      obtain a where a: "entry_of tab1 va0 = Some a" using entry_of_lookup [OF 1(3)] by blast
      have w: "walk ?root va0 False k1 = VRet (a, k1)" using walk_find [OF D(2,3), of va0] 1(2) by (simp add: a)
      have top: "dst < user_top" using next_multiple [OF d(1) _ 1(2)] d(3) by simp
      have lk: "lookup (km_mem k1) tab1 dst = lookup (km_mem k1) tab1 va0"
        using lookup_down [of dst "km_mem k1" tab1] top by (simp add: va0_def)
      have v: "valid (km_mem k1) tab1 dst" "frame (km_mem k1) tab1 dst = pa0" using 1(3,4) lk by (simp_all add: valid_def frame_def)
      have nl: "length (take n src) = n" by (simp add: n_def)
      have fit: "dst mod PGSIZE + length (take n src) \<le> PGSIZE" using d(3,4) nl by (simp add: n_def)
      let ?k2 = "k1\<lparr>km_mem := store_bytes (pa0 + dst mod PGSIZE) (take n src) (km_mem k1)\<rparr>"
      have W: "copied_out end p k fl tab dst (take n src) ?k2 fl1 tab1"
        using unseen_then_copied [OF 1(1) write_copies [OF R1 top v(1) fit]] by (simp add: v(2))
      have shorter: "length (drop n src) < length src" using False d(2,3) by (simp add: n_def)
      have at_end: "drop n src = [] \<or> va0 + PGSIZE = dst + n" using d(2,3) by (auto simp: n_def)
      have R2: "runs_in end p ?k2 fl1 tab1" using W by (simp add: copied_out_def)
      have "vruns (copyout end p ?root (va0 + PGSIZE) (drop n src)) ?k2 ?Q"
      proof (rule vruns_mono [OF less.hyps [OF shorter R2]], goal_cases)
        case (1 r k')
        then obtain fl' tab' n' where c: "copied_out end p ?k2 fl1 tab1 (va0 + PGSIZE) (take n' (drop n src)) k' fl' tab'"
          "r = 0 \<and> n' = length (drop n src) \<or> r = -1 \<and> n' < length (drop n src)" by blast
        have "copied_out end p ?k2 fl1 tab1 (dst + length (take n src)) (take n' (drop n src)) k' fl' tab'"
        proof (cases "drop n src = []")
          case True
          show ?thesis unfolding True take_Nil by (rule copied_nowhere [OF c(1) [unfolded True take_Nil]])
        next
          case False
          with at_end nl have "va0 + PGSIZE = dst + length (take n src)" by simp
          with c(1) show ?thesis by (simp only:)
        qed
        from copied_then_copied [OF W this] have "copied_out end p k fl tab dst (take (n + n') src) k' fl' tab'"
          by (simp add: take_add)
        then show ?case using c(2) by (intro exI [of _ fl'] exI [of _ tab'] exI [of _ "n + n'"]) (auto simp: n_def)
      qed
      then show ?thesis
        unfolding vruns_then [of "walk ?root va0 False"] vruns_VRet [of "walk ?root va0 False", OF w] vruns_then [of "v_load a"] vruns_load
        using stop [OF 1(1)] by (simp add: vruns_then d(4))
    qed
    show ?thesis
    proof (cases "va0 \<ge> MAXVA")
      case True
      show ?thesis
        unfolding copyout.simps [of "end" p ?root dst src] Let_def va0_def [symmetric] if_P [OF False] if_P [OF True] vruns_ret
        by (rule stop [OF unseen_refl [OF R]])
    next
      case low: False
      have "vruns (vthen (fault_in end p ?root va0) (\<lambda>pa0.
           if pa0 = 0 then vret (-1)
           else vthen (walk ?root va0 False) (\<lambda>pte. vthen (v_load pte) (\<lambda>e.
             if \<not> has e PTE_W then vret (-1)
             else vthen (v_write (pa0 + (dst - va0)) (take n src)) (\<lambda>_. copyout end p ?root (va0 + PGSIZE) (drop n src)))))) k ?Q"
        unfolding vruns_then [of "fault_in end p ?root va0"]
      proof (rule vruns_mono [OF fault_in_spec [OF R d(1)]], elim exE conjE)
        fix pa k1 fl1 tab1
        assume 1: "unseen end p k fl tab k1 fl1 tab1" "pa \<noteq> 0 \<longrightarrow> va0 < user_top \<and> valid (km_mem k1) tab1 va0 \<and> pa = frame (km_mem k1) tab1 va0"
        show "vruns (if pa = 0 then vret (-1)
           else vthen (walk ?root va0 False) (\<lambda>pte. vthen (v_load pte) (\<lambda>e.
             if \<not> has e PTE_W then vret (-1)
             else vthen (v_write (pa + (dst - va0)) (take n src)) (\<lambda>_. copyout end p ?root (va0 + PGSIZE) (drop n src))))) k1 ?Q"
        proof (cases "pa = 0")
          case True
          show ?thesis unfolding if_P [OF True] vruns_ret by (rule stop [OF 1(1)])
        next
          case False
          show ?thesis unfolding if_not_P [OF False] by (rule rest [OF 1(1)]) (use 1(2) False in blast)+
        qed
      qed
      then show ?thesis
        unfolding copyout.simps [of "end" p ?root dst src] Let_def va0_def [symmetric] n_def [symmetric] if_P [OF False] if_not_P [OF low] .
    qed
  qed
qed

end
