(* ===== verification/Vm_Theorems.thy ===== *)
theory Vm_Theorems
  imports Vm_Copy
begin

text \<open>
  Reading a process's memory, and the properties of virtual memory that the rest of the kernel relies on.
\<close>

section \<open>Reading\<close>

lemma unseen_trans:
  assumes 1: "unseen end p k fl tab k1 fl1 tab1" and 2: "unseen end p k1 fl1 tab1 k2 fl2 tab2"
  shows "unseen end p k fl tab k2 fl2 tab2"
proof -
  have "same_outside (all_pages fl (km_mem k) tab) (km_mem k) (km_mem k2)"
    by (rule same_outside_trans [of "all_pages fl (km_mem k) tab" _ "km_mem k1" "all_pages fl1 (km_mem k1) tab1"])
      (use 1 2 in \<open>simp_all add: unseen_def\<close>)
  then show ?thesis using 1 2 by (simp add: unseen_def)
qed

lemma seen_bytes:
  assumes R: "runs_in end p k fl tab" and va: "va < user_top" "valid (km_mem k) tab va" and i: "va mod PGSIZE + i < PGSIZE"
  shows "seen_mem (sp_sz p) (km_mem k) tab (va + i) = Some (km_mem k (frame (km_mem k) tab va + va mod PGSIZE + i))"
proof -
  have page: "PGROUNDDOWN (va + i) = PGROUNDDOWN va"
    by (rule PGROUNDDOWN_page [OF down(1)]) (use down(2,4) [of va] i in linarith)+
  have "PGROUNDDOWN va + PGSIZE \<le> user_top"
    by (rule next_multiple [OF down(1)]) (use down(2) [of va] va(1) in simp_all)
  then have top: "va + i < user_top" using i down(4) [of va] by linarith
  have "lookup (km_mem k) tab (va + i) = lookup (km_mem k) tab va"
    using lookup_down [of "va + i" "km_mem k" tab] lookup_down [of va "km_mem k" tab] page top va(1) by simp
  moreover have "(va + i) mod PGSIZE = va mod PGSIZE + i" using down(4) [of va] down(4) [of "va + i"] page by linarith
  ultimately show ?thesis using top va(2) by (simp add: seen_mem_def user_mem_def valid_def frame_def add.assoc)
qed

definition seen_list :: "space \<Rightarrow> kmem \<Rightarrow> tables \<Rightarrow> nat \<Rightarrow> byte list \<Rightarrow> bool" where
  "seen_list p k tab va bs \<longleftrightarrow> (\<forall>i < length bs. seen_mem (sp_sz p) (km_mem k) tab (va + i) = Some (bs ! i))"

lemma seen_list_append:
  "seen_list p k tab va bs \<Longrightarrow> cs = [] \<or> w = va + length bs \<Longrightarrow> seen_list p k tab w cs \<Longrightarrow> seen_list p k tab va (bs @ cs)"
  unfolding seen_list_def
proof (intro allI impI)
  fix i
  assume bs: "\<forall>i < length bs. seen_mem (sp_sz p) (km_mem k) tab (va + i) = Some (bs ! i)" and w: "cs = [] \<or> w = va + length bs"
    and cs: "\<forall>i < length cs. seen_mem (sp_sz p) (km_mem k) tab (w + i) = Some (cs ! i)" and i: "i < length (bs @ cs)"
  show "seen_mem (sp_sz p) (km_mem k) tab (va + i) = Some ((bs @ cs) ! i)"
  proof (cases "i < length bs")
    case False
    have "i - length bs < length cs" using i False by simp
    then have "seen_mem (sp_sz p) (km_mem k) tab (w + (i - length bs)) = Some (cs ! (i - length bs))" using cs by blast
    moreover have "w + (i - length bs) = va + i" using w i False by auto
    ultimately show ?thesis using False by (simp add: nth_append)
  qed (use bs in \<open>simp add: nth_append\<close>)
qed

lemma copyin_spec:
  assumes "runs_in end p k fl tab"
  shows "vruns (copyin end p (sp_pagetable p) srcva len) k (\<lambda>(r, bs) k'. \<exists>fl' tab'. unseen end p k fl tab k' fl' tab'
     \<and> (r = 0 \<and> length bs = len \<or> r = -1 \<and> length bs < len) \<and> seen_list p k tab srcva bs)"
  using assms
proof (induction len arbitrary: srcva k fl tab rule: less_induct)
  case (less len)
  note R = less.prems
  let ?root = "sp_pagetable p"
  let ?Q = "\<lambda>(r, bs) k'. \<exists>fl' tab'. unseen end p k fl tab k' fl' tab'
     \<and> (r = (0 :: int) \<and> length bs = len \<or> r = -1 \<and> length bs < len) \<and> seen_list p k tab srcva bs"
  show ?case
  proof (cases "len > 0")
    case False
    have "?Q (0, []) k" using unseen_refl [OF R] False by (auto simp: seen_list_def)
    then show ?thesis using False by (subst copyin.simps) simp
  next
    case True
    define va0 where "va0 = PGROUNDDOWN srcva"
    define n where "n = min (PGSIZE - (srcva - va0)) len"
    have d: "va0 mod PGSIZE = 0" "va0 \<le> srcva" "srcva < va0 + PGSIZE" "srcva - va0 = srcva mod PGSIZE"
      using down [of srcva] by (simp_all add: va0_def)
    have "vruns (vthen (fault_in end p ?root va0) (\<lambda>pa0.
           if pa0 = 0 then vret (-1, [])
           else vthen (v_read (pa0 + (srcva - va0)) n) (\<lambda>bs.
                   vthen (copyin end p ?root (va0 + PGSIZE) (len - n)) (\<lambda>(r, more). vret (r, bs @ more))))) k ?Q"
      unfolding vruns_then [of "fault_in end p ?root va0"]
    proof (rule vruns_mono [OF fault_in_spec [OF R d(1)]], elim exE conjE)
      fix pa k1 fl1 tab1
      assume 1: "unseen end p k fl tab k1 fl1 tab1" "pa \<noteq> 0 \<longrightarrow> va0 < user_top \<and> valid (km_mem k1) tab1 va0 \<and> pa = frame (km_mem k1) tab1 va0"
      show "vruns (if pa = 0 then vret (-1, [])
           else vthen (v_read (pa + (srcva - va0)) n) (\<lambda>bs.
                   vthen (copyin end p ?root (va0 + PGSIZE) (len - n)) (\<lambda>(r, more). vret (r, bs @ more)))) k1 ?Q"
      proof (cases "pa = 0")
        case pa: True
        show ?thesis unfolding if_P [OF pa] vruns_ret using 1(1) True by (auto simp: seen_list_def)
      next
        case pa: False
        have R1: "runs_in end p k1 fl1 tab1" using 1(1) by (simp add: unseen_def)
        have same: "seen_mem (sp_sz p) (km_mem k1) tab1 = seen_mem (sp_sz p) (km_mem k) tab" using 1(1) by (simp add: unseen_def)
        have v0: "va0 < user_top" "valid (km_mem k1) tab1 va0" "pa = frame (km_mem k1) tab1 va0" using 1(2) pa by auto
        have top: "srcva < user_top" using next_multiple [OF d(1) _ v0(1)] d(3) by simp
        have lk: "lookup (km_mem k1) tab1 srcva = lookup (km_mem k1) tab1 va0"
          using lookup_down [of srcva "km_mem k1" tab1] top by (simp add: va0_def)
        have v: "valid (km_mem k1) tab1 srcva" "frame (km_mem k1) tab1 srcva = pa" using v0(2,3) lk by (simp_all add: valid_def frame_def)
        let ?bs = "load_bytes (km_mem k1) (pa + (srcva - va0)) n"
        have len_bs: "length ?bs = n" by (simp add: load_bytes_def)
        have bs: "seen_list p k tab srcva ?bs"
          unfolding seen_list_def len_bs same [symmetric]
        proof (intro allI impI)
          fix i assume i: "i < n"
          then have "srcva mod PGSIZE + i < PGSIZE" using d(3,4) by (simp add: n_def less_diff_conv add.commute)
          from seen_bytes [OF R1 top v(1) this] i show "seen_mem (sp_sz p) (km_mem k1) tab1 (srcva + i) = Some (?bs ! i)"
            by (simp add: load_bytes_def v(2) d(4))
        qed
        have shorter: "len - n < len" using True d(2,3) by (simp add: n_def)
        have at_end: "len - n = 0 \<or> va0 + PGSIZE = srcva + n" using d(2,3) by (auto simp: n_def)
        have nle: "n \<le> len" by (simp add: n_def)
        show ?thesis
          unfolding if_not_P [OF pa] vruns_then [of "v_read (pa + (srcva - va0)) n"] vruns_read vruns_then [of "copyin end p ?root (va0 + PGSIZE) (len - n)"]
        proof (rule vruns_mono [OF less.IH [OF shorter R1]], clarify)
          fix r :: int and cs k2 fl2 tab2
          assume 2: "unseen end p k1 fl1 tab1 k2 fl2 tab2" "r = 0 \<and> length cs = len - n \<or> r = -1 \<and> length cs < len - n"
            "seen_list p k1 tab1 (va0 + PGSIZE) cs"
          have "seen_list p k tab srcva (?bs @ cs)"
            by (rule seen_list_append [OF bs _ 2(3) [unfolded seen_list_def same, folded seen_list_def]])
              (use at_end 2(2) len_bs in auto)
          then show "vruns (vret (r, ?bs @ cs)) k2 ?Q"
            using unseen_trans [OF 1(1) 2(1)] 2(2) len_bs nle by (auto simp: vruns_ret)
        qed
      qed
    qed
    then show ?thesis
      unfolding copyin.simps [of "end" p ?root srcva len] Let_def va0_def [symmetric] n_def [symmetric] if_P [OF True] .
  qed
qed

section \<open>Properties\<close>

text \<open>
  C4: Whatever address the user passes, \<open>copyout\<close> returns, and what it did is that some first \<open>n\<close> bytes of the
  source are now at \<open>dstva\<close> in the memory the process sees (all of them if it returned 0, fewer if -1) and
  everything else the process sees is as it was. Pages it had to fault in came out of the free ones, and no byte
  of memory outside the pages of this address space and the free pages changed: other processes and the kernel are untouched.
\<close>

theorem copyout_writes:
  assumes "runs_in end p k fl tab"
  shows "\<exists>r n k' fl' tab'. copyout end p (sp_pagetable p) dstva src k = VRet (r, k') \<and> runs_in end p k' fl' tab'
     \<and> (r = 0 \<and> n = length src \<or> r = -1 \<and> n < length src)
     \<and> seen_mem (sp_sz p) (km_mem k') tab' = (\<lambda>va. if dstva \<le> va \<and> va < dstva + n then Some (src ! (va - dstva)) else seen_mem (sp_sz p) (km_mem k) tab va)
     \<and> all_pages fl' (km_mem k') tab' = all_pages fl (km_mem k) tab
     \<and> (\<forall>x. \<not> in_pages (all_pages fl (km_mem k) tab) x \<longrightarrow> km_mem k' x = km_mem k x)"
proof -
  obtain r k' fl' tab' n where r: "copyout end p (sp_pagetable p) dstva src k = VRet (r, k')"
    "copied_out end p k fl tab dstva (take n src) k' fl' tab'" "r = 0 \<and> n = length src \<or> r = -1 \<and> n < length src"
    using copyout_spec [OF assms, of dstva src] unfolding vruns_def by (elim exE conjE) (rule that)
  have n: "length (take n src) = n" using r(3) by auto
  have "seen_mem (sp_sz p) (km_mem k') tab'
      = (\<lambda>va. if dstva \<le> va \<and> va < dstva + n then Some (src ! (va - dstva)) else seen_mem (sp_sz p) (km_mem k) tab va)"
    using r(2) unfolding copied_out_def n by (auto simp: fun_eq_iff)
  with r(1,3) r(2) show ?thesis
    unfolding copied_out_def same_outside_def by (intro exI [of _ r] exI [of _ n] exI [of _ k'] exI [of _ fl'] exI [of _ tab'] conjI) simp_all
qed

definition small_proc :: space where
  "small_proc = \<lparr>sp_sz = 10000, sp_pagetable = small_root\<rparr>"

lemma small_runs: "\<exists>k. runs_in 0x80000000 small_proc k [0x80103000, 0x80102000] small_tab \<and> (\<forall>va. lookup (km_mem k) small_tab va = 0)"
proof -
  obtain k where k: "vm_ok 0x80000000 k [0x80103000, 0x80102000] small_tab" "\<forall>va. lookup (km_mem k) small_tab va = 0"
    using small_space by blast
  have "runs_in 0x80000000 small_proc k [0x80103000, 0x80102000] small_tab"
    using small_space_ok(1) [OF k] k(2) by (simp add: runs_in_def small_proc_def small_tab_def top_closed_def has_def)
  with k(2) show ?thesis by blast
qed

theorem copyout_writes_witness:
  "\<exists>k r (n :: nat) k' fl' tab'. runs_in 0x80000000 small_proc k [0x80103000, 0x80102000] small_tab
     \<and> copyout 0x80000000 small_proc small_root 4094 [1, 2, 3] k = VRet (r, k') \<and> (r = 0 \<and> n = 3 \<or> r = -1 \<and> n < 3)
     \<and> seen_mem 10000 (km_mem k') tab' 4095 = Some (if n < 2 then 0 else 2) \<and> runs_in 0x80000000 small_proc k' fl' tab'"
proof -
  obtain k where k: "runs_in 0x80000000 small_proc k [0x80103000, 0x80102000] small_tab" "\<forall>va. lookup (km_mem k) small_tab va = 0"
    using small_runs by blast
  have p: "sp_pagetable small_proc = small_root" "sp_sz small_proc = 10000" by (simp_all add: small_proc_def)
  have "4095 < PGROUNDUP64 10000" by (simp add: PGROUNDUP64_def PGROUNDDOWN_def)
  then have zero: "seen_mem 10000 (km_mem k) small_tab 4095 = Some 0"
    using k(2) by (simp add: seen_mem_def user_mem_def valid_def has_def)
  obtain r n k' fl' tab' where r: "copyout 0x80000000 small_proc small_root 4094 [1, 2, 3] k = VRet (r, k')" "runs_in 0x80000000 small_proc k' fl' tab'"
    "r = 0 \<and> n = length [1, 2, 3 :: byte] \<or> r = -1 \<and> n < length [1, 2, 3 :: byte]"
    "seen_mem 10000 (km_mem k') tab' = (\<lambda>va. if 4094 \<le> va \<and> va < 4094 + n then Some ([1, 2, 3] ! (va - 4094)) else seen_mem 10000 (km_mem k) small_tab va)"
    using copyout_writes [OF k(1), of 4094 "[1, 2, 3]"] unfolding p by (elim exE conjE) (rule that)
  have "seen_mem 10000 (km_mem k') tab' 4095 = Some (if n < 2 then 0 else 2)" unfolding r(4) using zero by (simp add: nth_Cons')
  moreover have "r = 0 \<and> n = 3 \<or> r = -1 \<and> n < 3" using r(3) by (simp add: numeral_3_eq_3)
  ultimately show ?thesis using k(1) r(1,2) by blast
qed

text \<open>
  What the kernel copied out to a process it reads back: \<open>copyin\<close> of the \<open>n\<close> bytes that a \<open>copyout\<close> delivered
  returns, with the first of these bytes in their order, and with all of them if it returns 0.
\<close>

theorem copyout_copyin:
  assumes R: "runs_in end p k fl tab"
  shows "\<exists>r n k1 r2 bs k2. copyout end p (sp_pagetable p) dstva src k = VRet (r, k1) \<and> (r = 0 \<and> n = length src \<or> r = -1 \<and> n < length src)
     \<and> copyin end p (sp_pagetable p) dstva n k1 = VRet ((r2, bs), k2)
     \<and> (r2 = 0 \<and> bs = take n src \<or> r2 = -1 \<and> length bs < n \<and> bs = take (length bs) src)"
proof -
  obtain r n k1 fl1 tab1 where 1: "copyout end p (sp_pagetable p) dstva src k = VRet (r, k1)" "r = 0 \<and> n = length src \<or> r = -1 \<and> n < length src"
    "runs_in end p k1 fl1 tab1"
    "seen_mem (sp_sz p) (km_mem k1) tab1 = (\<lambda>va. if dstva \<le> va \<and> va < dstva + n then Some (src ! (va - dstva)) else seen_mem (sp_sz p) (km_mem k) tab va)"
    using copyout_writes [OF R, of dstva src] by (elim exE conjE) (rule that)
  obtain r2 bs k2 where 2: "copyin end p (sp_pagetable p) dstva n k1 = VRet ((r2, bs), k2)"
    "r2 = 0 \<and> length bs = n \<or> r2 = -1 \<and> length bs < n" "seen_list p k1 tab1 dstva bs"
    using copyin_spec [OF 1(3), of dstva n] unfolding vruns_def by auto
  have le: "length bs \<le> n" "n \<le> length src" using 1(2) 2(2) by auto
  have "bs = take (length bs) src"
    by (rule nth_equalityI) (use le 2(3) 1(4) in \<open>auto simp: seen_list_def\<close>)
  with 1(1,2) 2(1,2) show ?thesis
    by (intro exI [of _ r] exI [of _ n] exI [of _ k1] exI [of _ r2] exI [of _ bs] exI [of _ k2]) auto
qed

theorem copyout_copyin_witness:
  "\<exists>k r (n :: nat) k1 r2 bs k2. runs_in 0x80000000 small_proc k [0x80103000, 0x80102000] small_tab
     \<and> copyout 0x80000000 small_proc small_root 4094 [1, 2, 3] k = VRet (r, k1) \<and> copyin 0x80000000 small_proc small_root 4094 n k1 = VRet ((r2, bs), k2)
     \<and> (r2 = 0 \<and> bs = take n [1, 2, 3] \<or> r2 = -1 \<and> length bs < n)"
proof -
  obtain k where k: "runs_in 0x80000000 small_proc k [0x80103000, 0x80102000] small_tab" using small_runs by blast
  have p: "sp_pagetable small_proc = small_root" by (simp add: small_proc_def)
  show ?thesis using copyout_copyin [OF k, of 4094 "[1, 2, 3]"] k unfolding p by blast
qed

end
