(* ===== verification/Sysfile.thy ===== *)
theory Sysfile
  imports Fs Pipe
begin

text \<open>
  Open files and the system calls on files, \<open>kernel/file.c\<close> and \<open>kernel/sysfile.c\<close>, on top of the
  file system. A \<open>struct file *\<close> is an index into the table of open files, a pipe is a number that stands for
  its page. The arguments of a system call are the arguments of its model: a path is \<open>None\<close> where \<open>argstr\<close> fails,
  and a copy to or from user memory is an argument as in the model of \<open>fs.c\<close>. Reads and writes end in the code
  of pipes or of a device driver: then the model says where the call goes.
\<close>

section \<open>State\<close>

abbreviation (input) NFILE :: nat where "NFILE \<equiv> 100"
abbreviation (input) NOFILE :: nat where "NOFILE \<equiv> 16"
abbreviation (input) NDEV :: int where "NDEV \<equiv> 10"
abbreviation (input) T_FILE :: int where "T_FILE \<equiv> 2"
abbreviation (input) T_DEVICE :: int where "T_DEVICE \<equiv> 3"
abbreviation (input) O_WRONLY :: int where "O_WRONLY \<equiv> 1"
abbreviation (input) O_RDWR :: int where "O_RDWR \<equiv> 2"
abbreviation (input) O_CREATE :: int where "O_CREATE \<equiv> 0x200"
abbreviation (input) O_TRUNC :: int where "O_TRUNC \<equiv> 0x400"

datatype ftype = FD_NONE | FD_PIPE | FD_INODE | FD_DEVICE

record ofile =
  of_type :: ftype
  of_ref :: int
  of_readable :: bool
  of_writable :: bool
  of_pipe :: nat
  of_ip :: nat
  of_off :: nat
  of_major :: int

text \<open>The running process has its descriptors in \<open>os_ofile\<close>.\<close>

record osys =
  os_fs :: fsys
  os_files :: "ofile list"
  os_pipes :: "nat \<Rightarrow> pipe option"
  os_ofile :: "nat option list"

type_synonym 'a osm = "osys \<Rightarrow> ('a \<times> osys) outcome"

definition oret :: "'a \<Rightarrow> 'a osm" where
  "oret x s = Ret (x, s)"

definition othen :: "'a osm \<Rightarrow> ('a \<Rightarrow> 'b osm) \<Rightarrow> 'b osm" where
  "othen m f s = bind_outcome (m s) (\<lambda>(x, s'). f x s')"

definition opanic :: "string \<Rightarrow> 'a osm" where
  "opanic msg s = Panics msg"

definition ogets :: "(osys \<Rightarrow> 'a) \<Rightarrow> 'a osm" where
  "ogets f s = Ret (f s, s)"

definition omod :: "(osys \<Rightarrow> osys) \<Rightarrow> unit osm" where
  "omod f s = Ret ((), f s)"

definition fs_do :: "'a fsm \<Rightarrow> 'a osm" where
  "fs_do m s = bind_outcome (m (os_fs s)) (\<lambda>(x, fs). Ret (x, s\<lparr>os_fs := fs\<rparr>))"

definition set_file :: "nat \<Rightarrow> (ofile \<Rightarrow> ofile) \<Rightarrow> unit osm" where
  "set_file f g = omod (\<lambda>s. s\<lparr>os_files := (os_files s)[f := g (os_files s ! f)]\<rparr>)"

section \<open>file.c\<close>

definition filealloc :: "nat option osm" where
  "filealloc s =
     (case first_index (\<lambda>f. of_ref f = 0) (os_files s) of
        None \<Rightarrow> oret None s
      | Some f \<Rightarrow> othen (set_file f (\<lambda>x. x\<lparr>of_ref := 1\<rparr>)) (\<lambda>_. oret (Some f)) s)"

definition filedup :: "nat \<Rightarrow> nat osm" where
  "filedup f =
     othen (ogets (\<lambda>s. os_files s ! f)) (\<lambda>x.
       if of_ref x < 1 then opanic ''filedup''
       else othen (set_file f (\<lambda>x. x\<lparr>of_ref := of_ref x + 1\<rparr>)) (\<lambda>_. oret f))"

text \<open>\<open>pipeclose\<close> frees the page of the pipe with its second end.\<close>

definition close_pipe :: "nat \<Rightarrow> bool \<Rightarrow> unit osm" where
  "close_pipe pi writable =
     omod (\<lambda>s. case os_pipes s pi of
                 None \<Rightarrow> s
               | Some p \<Rightarrow> (case pipeclose writable p of (freed, w, p') \<Rightarrow>
                             s\<lparr>os_pipes := (os_pipes s)(pi := if freed then None else Some p')\<rparr>))"

definition fileclose :: "nat \<Rightarrow> unit osm" where
  "fileclose f =
     othen (ogets (\<lambda>s. os_files s ! f)) (\<lambda>ff.
       if of_ref ff < 1 then opanic ''fileclose''
       else if of_ref ff - 1 > 0 then set_file f (\<lambda>x. x\<lparr>of_ref := of_ref x - 1\<rparr>)
       else othen (set_file f (\<lambda>x. x\<lparr>of_ref := 0, of_type := FD_NONE\<rparr>)) (\<lambda>_.
         if of_type ff = FD_PIPE then close_pipe (of_pipe ff) (of_writable ff)
         else if of_type ff = FD_INODE \<or> of_type ff = FD_DEVICE then
           fs_do (andthen fs_begin_op (\<lambda>_. andthen (iput (of_ip ff)) (\<lambda>_. fs_end_op)))
         else oret ()))"

text \<open>The last argument says whether the structure could be copied out.\<close>

definition filestat :: "nat \<Rightarrow> (stat \<Rightarrow> bool) \<Rightarrow> (int \<times> stat option) osm" where
  "filestat f copyout =
     othen (ogets (\<lambda>s. os_files s ! f)) (\<lambda>x.
       if of_type x = FD_INODE \<or> of_type x = FD_DEVICE then
         fs_do (andthen (ilock (Some (of_ip x))) (\<lambda>_. andthen (stati (of_ip x)) (\<lambda>st. andthen (iunlock (Some (of_ip x))) (\<lambda>_.
           ret (if copyout st then (0, Some st) else (-1, None))))))
       else oret (-1, None))"

text \<open>A read or write that the file table hands on to a pipe or to a driver.\<close>

datatype 'r io = Returns 'r | On_pipe nat | On_device int

text \<open>\<open>drivers\<close>: whether the switch of devices has an entry.\<close>

definition fileread :: "(int \<Rightarrow> bool) \<Rightarrow> nat \<Rightarrow> (nat \<Rightarrow> byte list \<Rightarrow> bool) \<Rightarrow> int \<Rightarrow> (int \<times> byte list) io osm" where
  "fileread drivers f copyout n =
     othen (ogets (\<lambda>s. os_files s ! f)) (\<lambda>x.
       if \<not> of_readable x then oret (Returns (-1, []))
       else case of_type x of
         FD_PIPE \<Rightarrow> oret (On_pipe (of_pipe x))
       | FD_DEVICE \<Rightarrow>
           if of_major x < 0 \<or> of_major x \<ge> NDEV \<or> \<not> drivers (of_major x) then oret (Returns (-1, []))
           else oret (On_device (of_major x))
       | FD_INODE \<Rightarrow>
           othen (fs_do (andthen (ilock (Some (of_ip x))) (\<lambda>_. readi (of_ip x) copyout (of_off x) (nat (n mod 2 ^ 32))))) (\<lambda>(r, bs).
           othen (if r > 0 then set_file f (\<lambda>x. x\<lparr>of_off := (of_off x + nat r) mod 2 ^ 32\<rparr>) else oret ()) (\<lambda>_.
           othen (fs_do (iunlock (Some (of_ip x)))) (\<lambda>_. oret (Returns (r, bs)))))
       | FD_NONE \<Rightarrow> opanic ''fileread'')"

abbreviation (input) MAXWRITE :: nat where "MAXWRITE \<equiv> 3072"

text \<open>The loop of \<open>filewrite\<close>; the bytes at a distance from the start of the buffer are what \<open>copyin\<close> gives.\<close>

function filewrite_from :: "nat \<Rightarrow> nat \<Rightarrow> (nat \<Rightarrow> nat \<Rightarrow> byte list \<times> bool) \<Rightarrow> nat \<Rightarrow> nat \<Rightarrow> nat osm" where
  "filewrite_from f ip copyin i n =
     (if i < n then
        (let n1 = min (n - i) MAXWRITE in
         othen (fs_do (andthen fs_begin_op (\<lambda>_. ilock (Some ip)))) (\<lambda>_.
         othen (ogets (\<lambda>s. of_off (os_files s ! f))) (\<lambda>off.
         othen (fs_do (writei ip (\<lambda>tot m. copyin (i + tot) m) off n1)) (\<lambda>r.
         othen (if r > 0 then set_file f (\<lambda>x. x\<lparr>of_off := (of_off x + nat r) mod 2 ^ 32\<rparr>) else oret ()) (\<lambda>_.
         othen (fs_do (andthen (iunlock (Some ip)) (\<lambda>_. fs_end_op))) (\<lambda>_.
           if r \<noteq> int n1 then oret i else filewrite_from f ip copyin (i + n1) n))))))
      else oret i)"
  by pat_completeness auto

termination by (relation "measure (\<lambda>(_, _, _, i, n). n - i)") auto

declare filewrite_from.simps [simp del]

definition filewrite :: "(int \<Rightarrow> bool) \<Rightarrow> nat \<Rightarrow> (nat \<Rightarrow> nat \<Rightarrow> byte list \<times> bool) \<Rightarrow> int \<Rightarrow> int io osm" where
  "filewrite drivers f copyin n =
     othen (ogets (\<lambda>s. os_files s ! f)) (\<lambda>x.
       if \<not> of_writable x then oret (Returns (-1))
       else case of_type x of
         FD_PIPE \<Rightarrow> oret (On_pipe (of_pipe x))
       | FD_DEVICE \<Rightarrow>
           if of_major x < 0 \<or> of_major x \<ge> NDEV \<or> \<not> drivers (of_major x) then oret (Returns (-1))
           else oret (On_device (of_major x))
       | FD_INODE \<Rightarrow>
           othen (filewrite_from f (of_ip x) copyin 0 (nat n)) (\<lambda>i. oret (Returns (if int i = n then n else -1)))
       | FD_NONE \<Rightarrow> opanic ''filewrite'')"

section \<open>Descriptors\<close>

definition argfd :: "int \<Rightarrow> nat option osm" where
  "argfd fd = ogets (\<lambda>s. if fd < 0 \<or> fd \<ge> int NOFILE then None else os_ofile s ! nat fd)"

definition fdalloc :: "nat \<Rightarrow> int osm" where
  "fdalloc f s =
     (case first_index (\<lambda>p. p = None) (os_ofile s) of
        None \<Rightarrow> oret (-1) s
      | Some fd \<Rightarrow> othen (omod (\<lambda>s. s\<lparr>os_ofile := (os_ofile s)[fd := Some f]\<rparr>)) (\<lambda>_. oret (int fd)) s)"

definition clear_fd :: "int \<Rightarrow> unit osm" where
  "clear_fd fd = omod (\<lambda>s. s\<lparr>os_ofile := (os_ofile s)[nat fd := None]\<rparr>)"

definition sys_dup :: "int \<Rightarrow> int osm" where
  "sys_dup a0 =
     othen (argfd a0) (\<lambda>p. case p of
       None \<Rightarrow> oret (-1)
     | Some f \<Rightarrow> othen (fdalloc f) (\<lambda>fd. if fd < 0 then oret (-1) else othen (filedup f) (\<lambda>_. oret fd)))"

definition sys_read :: "(int \<Rightarrow> bool) \<Rightarrow> int \<Rightarrow> (nat \<Rightarrow> byte list \<Rightarrow> bool) \<Rightarrow> int \<Rightarrow> (int \<times> byte list) io osm" where
  "sys_read drivers a0 copyout n =
     othen (argfd a0) (\<lambda>p. case p of None \<Rightarrow> oret (Returns (-1, [])) | Some f \<Rightarrow> fileread drivers f copyout n)"

definition sys_write :: "(int \<Rightarrow> bool) \<Rightarrow> int \<Rightarrow> (nat \<Rightarrow> nat \<Rightarrow> byte list \<times> bool) \<Rightarrow> int \<Rightarrow> int io osm" where
  "sys_write drivers a0 copyin n =
     othen (argfd a0) (\<lambda>p. case p of None \<Rightarrow> oret (Returns (-1)) | Some f \<Rightarrow> filewrite drivers f copyin n)"

definition sys_close :: "int \<Rightarrow> int osm" where
  "sys_close a0 =
     othen (argfd a0) (\<lambda>p. case p of
       None \<Rightarrow> oret (-1)
     | Some f \<Rightarrow> othen (clear_fd a0) (\<lambda>_. othen (fileclose f) (\<lambda>_. oret 0)))"

definition sys_fstat :: "int \<Rightarrow> (stat \<Rightarrow> bool) \<Rightarrow> (int \<times> stat option) osm" where
  "sys_fstat a0 copyout = othen (argfd a0) (\<lambda>p. case p of None \<Rightarrow> oret (-1, None) | Some f \<Rightarrow> filestat f copyout)"

section \<open>Links and directories\<close>

definition short :: "int \<Rightarrow> int" where
  "short x = signed_take_bit 15 x"

definition add_nlink :: "nat \<Rightarrow> int \<Rightarrow> unit fsm" where
  "add_nlink ip k = set_copy ip (di_nlink_update (\<lambda>x. short (x + k)))"

text \<open>The part of \<open>sys_link\<close> after its label \<open>bad\<close>.\<close>

definition link_bad :: "nat \<Rightarrow> int fsm" where
  "link_bad ip =
     andthen (ilock (Some ip)) (\<lambda>_. andthen (add_nlink ip (-1)) (\<lambda>_. andthen (iupdate ip) (\<lambda>_.
     andthen (iunlockput ip) (\<lambda>_. andthen fs_end_op (\<lambda>_. ret (-1))))))"

definition sys_link :: "byte list option \<Rightarrow> byte list option \<Rightarrow> int fsm" where
  "sys_link old new =
     (case (old, new) of
        (Some old, Some new) \<Rightarrow>
          (andthen fs_begin_op (\<lambda>_. andthen (namei old) (\<lambda>p. case p of
            None \<Rightarrow> andthen fs_end_op (\<lambda>_. ret (-1))
          | Some ip \<Rightarrow>
              andthen (ilock (Some ip)) (\<lambda>_. andthen (gets (slot_of ip)) (\<lambda>x.
                if di_type (i_copy x) = T_DIR
                then andthen (iunlockput ip) (\<lambda>_. andthen fs_end_op (\<lambda>_. ret (-1)))
                else andthen (add_nlink ip 1) (\<lambda>_. andthen (iupdate ip) (\<lambda>_. andthen (iunlock (Some ip)) (\<lambda>_.
                  andthen (nameiparent new) (\<lambda>q. case q of
                    None \<Rightarrow> link_bad ip
                  | Some (dp, nm) \<Rightarrow>
                      andthen (ilock (Some dp)) (\<lambda>_.
                      andthen (gets (\<lambda>s. (i_dev (slot_of dp s), i_dev (slot_of ip s), i_inum (slot_of ip s)))) (\<lambda>(ddev, idev, inum).
                      andthen (if ddev \<noteq> idev then ret (-1) else dirlink dp nm inum) (\<lambda>r.
                        if r < 0 then andthen (iunlockput dp) (\<lambda>_. link_bad ip)
                        else andthen (iunlockput dp) (\<lambda>_. andthen (iput ip) (\<lambda>_. andthen fs_end_op (\<lambda>_. ret 0)))))))))))))))
      | _ \<Rightarrow> ret (-1))"

primrec isdirempty_from :: "nat \<Rightarrow> nat list \<Rightarrow> bool fsm" where
  "isdirempty_from dp [] = ret True"
| "isdirempty_from dp (off # offs) =
     andthen (read_dirent dp off ''isdirempty: readi'') (\<lambda>de. if de_inum de \<noteq> 0 then ret False else isdirempty_from dp offs)"

definition isdirempty :: "nat \<Rightarrow> bool fsm" where
  "isdirempty dp = andthen (gets (slot_of dp)) (\<lambda>x. isdirempty_from dp (drop 2 (dirent_offsets (di_size (i_copy x)))))"

definition DOT :: "byte list" where "DOT = [46]"
definition DOTDOT :: "byte list" where "DOTDOT = [46, 46]"

definition unlink_bad :: "nat \<Rightarrow> int fsm" where
  "unlink_bad dp = andthen (iunlockput dp) (\<lambda>_. andthen fs_end_op (\<lambda>_. ret (-1)))"

text \<open>The entry is overwritten with zeros.\<close>

definition zero_dirent :: "nat \<Rightarrow> nat \<Rightarrow> byte list \<times> bool" where
  "zero_dirent tot m = (replicate m 0, True)"

definition sys_unlink :: "byte list option \<Rightarrow> int fsm" where
  "sys_unlink path_arg =
     (case path_arg of
        None \<Rightarrow> ret (-1)
      | Some pth \<Rightarrow>
          andthen fs_begin_op (\<lambda>_. andthen (nameiparent pth) (\<lambda>q. case q of
            None \<Rightarrow> andthen fs_end_op (\<lambda>_. ret (-1))
          | Some (dp, nm) \<Rightarrow>
              andthen (ilock (Some dp)) (\<lambda>_.
                if namecmp nm DOT \<or> namecmp nm DOTDOT then unlink_bad dp
                else andthen (dirlookup dp nm) (\<lambda>found. case found of
                  None \<Rightarrow> unlink_bad dp
                | Some (ip, off) \<Rightarrow>
                    andthen (ilock (Some ip)) (\<lambda>_. andthen (gets (slot_of ip)) (\<lambda>x.
                      if di_nlink (i_copy x) < 1 then panic ''unlink: nlink < 1''
                      else andthen (if di_type (i_copy x) = T_DIR then isdirempty ip else ret True) (\<lambda>emp.
                        if \<not> emp then andthen (iunlockput ip) (\<lambda>_. unlink_bad dp)
                        else andthen (writei dp zero_dirent off DIRENT) (\<lambda>r.
                          if r \<noteq> int DIRENT then panic ''unlink: writei''
                          else andthen (if di_type (i_copy x) = T_DIR
                                        then andthen (add_nlink dp (-1)) (\<lambda>_. iupdate dp) else ret ()) (\<lambda>_.
                            andthen (iunlockput dp) (\<lambda>_. andthen (add_nlink ip (-1)) (\<lambda>_. andthen (iupdate ip) (\<lambda>_.
                            andthen (iunlockput ip) (\<lambda>_. andthen fs_end_op (\<lambda>_. ret 0)))))))))))))))"

text \<open>The part of \<open>create\<close> after its label \<open>fail\<close>.\<close>

definition create_fail :: "nat \<Rightarrow> nat \<Rightarrow> nat option fsm" where
  "create_fail dp ip =
     andthen (set_copy ip (di_nlink_update (\<lambda>_. 0))) (\<lambda>_. andthen (iupdate ip) (\<lambda>_.
     andthen (iunlockput ip) (\<lambda>_. andthen (iunlockput dp) (\<lambda>_. ret None))))"

text \<open>The entries \<open>.\<close> and \<open>..\<close> of a new directory.\<close>

definition link_dots :: "nat \<Rightarrow> nat \<Rightarrow> int fsm" where
  "link_dots dp ip =
     andthen (gets (\<lambda>s. (i_inum (slot_of ip s), i_inum (slot_of dp s)))) (\<lambda>(inum, dnum).
     andthen (dirlink ip DOT inum) (\<lambda>r. if r < 0 then ret r else dirlink ip DOTDOT dnum))"

definition create :: "byte list \<Rightarrow> int \<Rightarrow> int \<Rightarrow> int \<Rightarrow> nat option fsm" where
  "create pth type major minor =
     andthen (nameiparent pth) (\<lambda>q. case q of
       None \<Rightarrow> ret None
     | Some (dp, nm) \<Rightarrow>
         andthen (ilock (Some dp)) (\<lambda>_. andthen (dirlookup dp nm) (\<lambda>found. case found of
           Some (ip, _) \<Rightarrow>
             andthen (iunlockput dp) (\<lambda>_. andthen (ilock (Some ip)) (\<lambda>_. andthen (gets (slot_of ip)) (\<lambda>x.
               if type = T_FILE \<and> (di_type (i_copy x) = T_FILE \<or> di_type (i_copy x) = T_DEVICE) then ret (Some ip)
               else andthen (iunlockput ip) (\<lambda>_. ret None))))
         | None \<Rightarrow>
             andthen (gets (slot_of dp)) (\<lambda>d. andthen (ialloc (i_dev d) type) (\<lambda>p. case p of
               None \<Rightarrow> andthen (iunlockput dp) (\<lambda>_. ret None)
             | Some ip \<Rightarrow>
                 andthen (ilock (Some ip)) (\<lambda>_.
                 andthen (set_copy ip (\<lambda>di. di\<lparr>di_major := short major, di_minor := short minor, di_nlink := 1\<rparr>)) (\<lambda>_.
                 andthen (iupdate ip) (\<lambda>_.
                 andthen (if type = T_DIR then link_dots dp ip else ret 0) (\<lambda>r.
                   if r < 0 then create_fail dp ip
                   else andthen (gets (\<lambda>s. i_inum (slot_of ip s))) (\<lambda>inum. andthen (dirlink dp nm inum) (\<lambda>r.
                     if r < 0 then create_fail dp ip
                     else andthen (if type = T_DIR then andthen (add_nlink dp 1) (\<lambda>_. iupdate dp) else ret ()) (\<lambda>_.
                       andthen (iunlockput dp) (\<lambda>_. ret (Some ip))))))))))))))"

section \<open>Opening\<close>

text \<open>The inode of \<open>sys_open\<close>, locked, or \<open>None\<close> when the call ends there.\<close>

definition open_inode :: "byte list \<Rightarrow> int \<Rightarrow> nat option fsm" where
  "open_inode pth omode =
     andthen (if omode AND O_CREATE \<noteq> 0 then create pth T_FILE 0 0
              else andthen (namei pth) (\<lambda>p. case p of
                     None \<Rightarrow> ret None
                   | Some ip \<Rightarrow> andthen (ilock (Some ip)) (\<lambda>_. andthen (gets (slot_of ip)) (\<lambda>x.
                       if di_type (i_copy x) = T_DIR \<and> omode \<noteq> 0 then andthen (iunlockput ip) (\<lambda>_. ret None)
                       else ret (Some ip))))) (\<lambda>p. case p of
       None \<Rightarrow> ret None
     | Some ip \<Rightarrow> andthen (gets (slot_of ip)) (\<lambda>x.
         if di_type (i_copy x) = T_DEVICE \<and> (di_major (i_copy x) < 0 \<or> di_major (i_copy x) \<ge> NDEV)
         then andthen (iunlockput ip) (\<lambda>_. ret None) else ret (Some ip)))"

definition sys_open :: "byte list option \<Rightarrow> int \<Rightarrow> int osm" where
  "sys_open path_arg omode =
     (case path_arg of
        None \<Rightarrow> oret (-1)
      | Some pth \<Rightarrow>
          othen (fs_do (andthen fs_begin_op (\<lambda>_. open_inode pth omode))) (\<lambda>p. case p of
            None \<Rightarrow> othen (fs_do fs_end_op) (\<lambda>_. oret (-1))
          | Some ip \<Rightarrow>
              othen filealloc (\<lambda>q. case q of
                None \<Rightarrow> othen (fs_do (andthen (iunlockput ip) (\<lambda>_. fs_end_op))) (\<lambda>_. oret (-1))
              | Some f \<Rightarrow> othen (fdalloc f) (\<lambda>fd.
                  if fd < 0 then othen (fileclose f) (\<lambda>_. othen (fs_do (andthen (iunlockput ip) (\<lambda>_. fs_end_op))) (\<lambda>_. oret (-1)))
                  else othen (ogets (\<lambda>s. i_copy (slot_of ip (os_fs s)))) (\<lambda>di.
                    othen (set_file f (\<lambda>x. (if di_type di = T_DEVICE then x\<lparr>of_type := FD_DEVICE, of_major := di_major di\<rparr>
                             else x\<lparr>of_type := FD_INODE, of_off := 0\<rparr>)
                             \<lparr>of_ip := ip, of_readable := omode AND O_WRONLY = 0,
                              of_writable := omode AND O_WRONLY \<noteq> 0 \<or> omode AND O_RDWR \<noteq> 0\<rparr>)) (\<lambda>_.
                    othen (fs_do (andthen (if omode AND O_TRUNC \<noteq> 0 \<and> di_type di = T_FILE then itrunc ip else ret ()) (\<lambda>_.
                             andthen (iunlock (Some ip)) (\<lambda>_. fs_end_op)))) (\<lambda>_. oret fd)))))))"

text \<open>\<open>sys_mkdir\<close> and \<open>sys_mknod\<close> begin their transaction before they look at the path.\<close>

definition make_inode :: "byte list option \<Rightarrow> int \<Rightarrow> int \<Rightarrow> int \<Rightarrow> int fsm" where
  "make_inode path_arg type major minor =
     andthen fs_begin_op (\<lambda>_. andthen (case path_arg of None \<Rightarrow> ret None | Some pth \<Rightarrow> create pth type major minor) (\<lambda>p.
       case p of
         None \<Rightarrow> andthen fs_end_op (\<lambda>_. ret (-1))
       | Some ip \<Rightarrow> andthen (iunlockput ip) (\<lambda>_. andthen fs_end_op (\<lambda>_. ret 0))))"

definition sys_mkdir :: "byte list option \<Rightarrow> int fsm" where
  "sys_mkdir path_arg = make_inode path_arg T_DIR 0 0"

definition sys_mknod :: "byte list option \<Rightarrow> int \<Rightarrow> int \<Rightarrow> int fsm" where
  "sys_mknod path_arg major minor = make_inode path_arg T_DEVICE major minor"

definition sys_chdir :: "byte list option \<Rightarrow> int fsm" where
  "sys_chdir path_arg =
     andthen fs_begin_op (\<lambda>_. andthen (case path_arg of None \<Rightarrow> ret None | Some pth \<Rightarrow> namei pth) (\<lambda>p.
       case p of
         None \<Rightarrow> andthen fs_end_op (\<lambda>_. ret (-1))
       | Some ip \<Rightarrow>
           andthen (ilock (Some ip)) (\<lambda>_. andthen (gets (slot_of ip)) (\<lambda>x.
             if di_type (i_copy x) \<noteq> T_DIR then andthen (iunlockput ip) (\<lambda>_. andthen fs_end_op (\<lambda>_. ret (-1)))
             else andthen (iunlock (Some ip)) (\<lambda>_. andthen (gets f_cwd) (\<lambda>cwd. andthen (iput cwd) (\<lambda>_. andthen fs_end_op (\<lambda>_.
                  andthen (modify (f_cwd_update (\<lambda>_. ip))) (\<lambda>_. ret 0)))))))))"

section \<open>Pipes\<close>

text \<open>\<open>page\<close>: the page that \<open>kalloc\<close> gives for a pipe, if it gives one, and what is in it.\<close>

definition pipealloc_files :: "(nat \<times> byte list) option \<Rightarrow> (nat \<times> nat) option osm" where
  "pipealloc_files page =
     othen filealloc (\<lambda>p. case p of
       None \<Rightarrow> oret None
     | Some f0 \<Rightarrow> othen filealloc (\<lambda>q. case q of
         None \<Rightarrow> othen (fileclose f0) (\<lambda>_. oret None)
       | Some f1 \<Rightarrow> (case page of
           None \<Rightarrow> othen (fileclose f0) (\<lambda>_. othen (fileclose f1) (\<lambda>_. oret None))
         | Some (pi, junk) \<Rightarrow>
             othen (omod (\<lambda>s. s\<lparr>os_pipes := (os_pipes s)(pi \<mapsto> pipealloc junk)\<rparr>)) (\<lambda>_.
             othen (set_file f0 (\<lambda>x. x\<lparr>of_type := FD_PIPE, of_readable := True, of_writable := False, of_pipe := pi\<rparr>)) (\<lambda>_.
             othen (set_file f1 (\<lambda>x. x\<lparr>of_type := FD_PIPE, of_readable := False, of_writable := True, of_pipe := pi\<rparr>)) (\<lambda>_.
               oret (Some (f0, f1))))))))"

text \<open>\<open>copyout\<close>: whether the two descriptors can be copied to the user.\<close>

definition sys_pipe :: "(nat \<times> byte list) option \<Rightarrow> (int \<Rightarrow> int \<Rightarrow> bool) \<Rightarrow> (int \<times> (int \<times> int) option) osm" where
  "sys_pipe page copyout =
     othen (pipealloc_files page) (\<lambda>p. case p of
       None \<Rightarrow> oret (-1, None)
     | Some (fr, fw) \<Rightarrow>
         othen (fdalloc fr) (\<lambda>fd0.
         othen (if fd0 < 0 then oret (-1) else fdalloc fw) (\<lambda>fd1.
           if fd0 < 0 \<or> fd1 < 0 then
             othen (if fd0 \<ge> 0 then clear_fd fd0 else oret ()) (\<lambda>_.
             othen (fileclose fr) (\<lambda>_. othen (fileclose fw) (\<lambda>_. oret (-1, None))))
           else if \<not> copyout fd0 fd1 then
             othen (clear_fd fd0) (\<lambda>_. othen (clear_fd fd1) (\<lambda>_.
             othen (fileclose fr) (\<lambda>_. othen (fileclose fw) (\<lambda>_. oret (-1, None)))))
           else oret (0, Some (fd0, fd1)))))"

end
