(* ===== verification/Sysfile_Refs.thy ===== *)
theory Sysfile_Refs
  imports Sysfile Fs_Table
begin

text \<open>
  References to inodes and to open files through the system calls. What an operation of the file system does
  to the counters of the inode table is a function of its result, and so it is for the open files: a Hoare style
  calculus over the references that the running kernel code still has to give back.
\<close>

section \<open>The counters of the inode table\<close>

definition at :: "nat \<Rightarrow> nat \<Rightarrow> int" where
  "at i j = (if j = i then 1 else 0)"

definition changes :: "'a fsm \<Rightarrow> ('a \<Rightarrow> nat \<Rightarrow> int) \<Rightarrow> bool" where
  "changes m D \<longleftrightarrow> (\<forall>s x s'. m s = Ret (x, s') \<longrightarrow>
     f_cwd s' = f_cwd s \<and> length (f_itable s') = length (f_itable s)
     \<and> (\<forall>j < length (f_itable s). i_ref (slot_of j s') = i_ref (slot_of j s) + D x j))"

named_theorems counting

lemma changes_then:
  assumes "changes m D" and "\<And>x. changes (f x) (\<lambda>y j. E y j - D x j)"
  shows "changes (andthen m f) E"
  unfolding changes_def andthen_def
proof (intro allI impI)
  fix s y s' assume "bind_outcome (m s) (\<lambda>(x, s'). f x s') = Ret (y, s')"
  then obtain x t where 1: "m s = Ret (x, t)" and 2: "f x t = Ret (y, s')" by (auto elim!: bind_RetE)
  have a: "f_cwd t = f_cwd s \<and> length (f_itable t) = length (f_itable s)
      \<and> (\<forall>j < length (f_itable s). i_ref (slot_of j t) = i_ref (slot_of j s) + D x j)"
    using assms(1) 1 unfolding changes_def by blast
  have b: "f_cwd s' = f_cwd t \<and> length (f_itable s') = length (f_itable t)
      \<and> (\<forall>j < length (f_itable t). i_ref (slot_of j s') = i_ref (slot_of j t) + (E y j - D x j))"
    using assms(2) [of x] 2 unfolding changes_def by blast
  show "f_cwd s' = f_cwd s \<and> length (f_itable s') = length (f_itable s)
      \<and> (\<forall>j < length (f_itable s). i_ref (slot_of j s') = i_ref (slot_of j s) + E y j)"
    using a b by simp
qed

lemma changes_weaken: "changes m D \<Longrightarrow> (\<And>x j. E x j = D x j) \<Longrightarrow> changes m E"
  unfolding changes_def by simp

lemma changes_framed: "framed i m \<Longrightarrow> changes m (\<lambda>_ _. 0)"
  unfolding changes_def framed_def using same_entries_slot by fastforce

lemma changes_ret: "(\<And>j. D x j = 0) \<Longrightarrow> changes (ret x) D"
  by (simp add: changes_def ret_def)

lemma changes_panic: "changes (panic msg) D"
  by (simp add: changes_def panic_def)

lemma changes_ref: "(\<And>x. i_ref (f x) = i_ref x + k) \<Longrightarrow> changes (set_slot i f) (\<lambda>_ j. k * at i j)"
  by (simp add: changes_def set_slot_def modify_def slot_of_def at_def nth_list_update)

lemma changes_iget: "changes (iget dev inum) at"
  unfolding changes_def iget_def
  by (auto simp: andthen_def set_slot_def modify_def ret_def panic_def slot_of_def at_def nth_list_update split: option.splits
      dest!: first_index_SomeD)

text \<open>The three ways through an operation: it sequences, it branches, or it ends.\<close>

lemma changes_if: "(c \<Longrightarrow> changes m D) \<Longrightarrow> (\<not> c \<Longrightarrow> changes m' D) \<Longrightarrow> changes (if c then m else m') D"
  by simp

lemma changes_option:
  "(p = None \<Longrightarrow> changes m D) \<Longrightarrow> (\<And>x. p = Some x \<Longrightarrow> changes (f x) D) \<Longrightarrow> changes (case p of None \<Rightarrow> m | Some x \<Rightarrow> f x) D"
  by (cases p) simp_all

lemma changes_prod: "(\<And>x y. p = (x, y) \<Longrightarrow> changes (f x y) D) \<Longrightarrow> changes (case p of (x, y) \<Rightarrow> f x y) D"
  by (cases p) simp

text \<open>What goes on with the counter of an inode that an operation gives, if it gives one.\<close>

definition got :: "nat option \<Rightarrow> nat \<Rightarrow> int" where
  "got p j = (case p of None \<Rightarrow> 0 | Some i \<Rightarrow> at i j)"

lemma got_simps [simp]: "got None j = 0" "got (Some i) j = at i j"
  by (simp_all add: got_def)

lemma changes_still:
  "changes (gets g) (\<lambda>_ _. 0)" "changes fs_begin_op (\<lambda>_ _. 0)" "changes fs_end_op (\<lambda>_ _. 0)"
  "changes (fs_bread dev n) (\<lambda>_ _. 0)" "changes (fs_brelse b) (\<lambda>_ _. 0)" "changes (fs_log_write b) (\<lambda>_ _. 0)"
  "changes (buf_data b) (\<lambda>_ _. 0)" "changes (buf_set b d) (\<lambda>_ _. 0)"
  by (rule changes_framed [where i = 0], rule framing)+

lemma changes_inode:
  "changes (ilock (Some i)) (\<lambda>_ _. 0)" "changes (iunlock (Some i)) (\<lambda>_ _. 0)" "changes (iupdate i) (\<lambda>_ _. 0)"
  "changes (itrunc i) (\<lambda>_ _. 0)" "changes (readi i cp off n) (\<lambda>_ _. 0)" "changes (writei i cp' off n) (\<lambda>_ _. 0)"
  "changes (set_copy i k) (\<lambda>_ _. 0)" "changes (read_dirent i off msg) (\<lambda>_ _. 0)" "changes (stati i) (\<lambda>_ _. 0)"
proof -
  have a: "framed i (read_dirent i off msg)" and b: "framed i (stati i)" unfolding read_dirent_def stati_def by (intro framing)+
  show "changes (read_dirent i off msg) (\<lambda>_ _. 0)" "changes (stati i) (\<lambda>_ _. 0)" by (rule changes_framed, rule a b)+
qed (rule changes_framed, rule framing)+

lemmas changes_leaf = changes_still changes_inode changes_iget

lemma changes_idup: "changes (idup i) at"
proof -
  have "changes (set_slot i (\<lambda>x. x\<lparr>i_ref := i_ref x + 1\<rparr>)) (\<lambda>_ j. 1 * at i j)" by (rule changes_ref) simp
  then show ?thesis unfolding idup_def by (rule changes_then) (simp add: changes_ret)
qed

lemma changes_iput: "changes (iput i) (\<lambda>_ j. - at i j)"
proof -
  have 1: "changes (set_slot i (\<lambda>x. x\<lparr>i_ref := i_ref x - 1\<rparr>)) (\<lambda>_ j. - 1 * at i j)" by (rule changes_ref) simp
  show ?thesis
    unfolding iput_def
    by (rule changes_then [OF changes_still(1)], rule changes_then, rule changes_framed [where i = i], intro framing,
        rule changes_weaken [OF 1]) simp
qed

lemma changes_iunlockput: "changes (iunlockput i) (\<lambda>_ j. - at i j)"
  unfolding iunlockput_def by (rule changes_then [OF changes_inode(2)], rule changes_weaken [OF changes_iput]) simp

lemma changes_ialloc: "changes (ialloc dev type) got"
proof -
  have "changes (ialloc_from dev type sb ns) got" for sb ns
    by (induction ns)
       (auto intro!: changes_ret changes_then [OF changes_still(4)] changes_then [OF changes_still(7)] changes_if
          changes_then [OF changes_still(8)] changes_then [OF changes_still(6)] changes_then [OF changes_still(5)] changes_then [OF changes_iget])
  then show ?thesis unfolding ialloc_def by (intro changes_then [OF changes_still(1)]) simp
qed

text \<open>A look into a directory.\<close>

lemma changes_dirlookup: "changes (dirlookup dp nm) (\<lambda>p. got (map_option fst p))"
proof -
  have "changes (dirlookup_from dp nm offs) (\<lambda>p. got (map_option fst p))" for offs
    by (induction offs)
       (auto intro!: changes_ret changes_then [OF changes_inode(8)] changes_if changes_then [OF changes_still(1)] changes_then [OF changes_iget])
  then show ?thesis unfolding dirlookup_def by (intro changes_then [OF changes_still(1)] changes_if) (simp_all add: changes_panic)
qed

lemma changes_dirlink: "changes (dirlink dp nm inum) (\<lambda>_ _. 0)"
proof -
  have e: "framed dp (empty_dirent dp k offs)" for k offs
    by (induction offs) (auto simp: read_dirent_def intro!: framing)
  have add: "changes (andthen (gets (slot_of dp)) (\<lambda>x. let offs = dirent_offsets (di_size (i_copy x)) in
           andthen (empty_dirent dp (length offs * DIRENT) offs) (\<lambda>off.
           andthen (writei dp (\<lambda>tot m. (take m (drop tot (enc_dirent inum nm)), True)) off DIRENT) (\<lambda>r.
             ret (if r \<noteq> int DIRENT then -1 else (0 :: int)))))) (\<lambda>_ _. 0)"
    by (rule changes_framed [where i = dp]) (unfold Let_def, intro framing e)
  show ?thesis
    unfolding dirlink_def
    apply (rule changes_then [OF changes_dirlookup], rule changes_option)
     apply (rule changes_weaken [OF add], simp)
    apply (intro changes_prod changes_then [OF changes_iput] changes_ret, simp)
    done
qed

section \<open>Path names\<close>

lemma changes_namex_from: "changes (namex_from parent i nm pth) (\<lambda>p j. got (map_option fst p) j - at i j)"
proof (induction "length pth" arbitrary: i nm pth rule: less_induct)
  case less
  show ?case
    unfolding namex_from.simps [of parent i nm pth]
    apply (rule changes_option)
     apply (rule changes_if)
      apply (rule changes_then [OF changes_iput], rule changes_ret, simp)
     apply (rule changes_ret, simp)
    apply (rule changes_prod, rule changes_then [OF changes_inode(1)], rule changes_then [OF changes_still(1)], rule changes_if)
     apply (rule changes_then [OF changes_iunlockput], rule changes_ret, simp)
    apply (rule changes_if)
     apply (rule changes_then [OF changes_inode(2)], rule changes_ret, simp)
    apply (rule changes_then [OF changes_dirlookup], rule changes_option)
     apply (rule changes_then [OF changes_iunlockput], rule changes_ret, simp)
    apply (rule changes_prod, rule changes_then [OF changes_iunlockput], rule changes_weaken [OF less])
     apply (auto dest: skipelem_less)
    done
qed

lemma changes_namex: "changes (namex pth parent) (\<lambda>p. got (map_option fst p))"
  unfolding namex_def
  by (rule changes_if; intro changes_then [OF changes_iget] changes_then [OF changes_idup] changes_then [OF changes_still(1)] changes_weaken [OF changes_namex_from]) simp_all

lemma changes_namei: "changes (namei pth) got"
  unfolding namei_def by (rule changes_then [OF changes_namex], rule changes_ret) simp

lemma changes_nameiparent: "changes (nameiparent pth) (\<lambda>p. got (map_option fst p))"
  unfolding nameiparent_def by (rule changes_namex)

section \<open>The calls on links and directories\<close>

lemmas changes_step =
  changes_leaf [THEN changes_then] changes_iput [THEN changes_then] changes_iunlockput [THEN changes_then]
  changes_ialloc [THEN changes_then] changes_dirlookup [THEN changes_then] changes_dirlink [THEN changes_then]
  changes_namei [THEN changes_then] changes_nameiparent [THEN changes_then]
  changes_if changes_option changes_prod changes_ret changes_panic

lemma changes_add_nlink: "changes (add_nlink i k) (\<lambda>_ _. 0)"
  unfolding add_nlink_def by (rule changes_inode)

lemma changes_link_bad: "changes (link_bad ip) (\<lambda>_ j. - at ip j)"
  unfolding link_bad_def by (intro changes_step changes_add_nlink [THEN changes_then]) simp

lemma changes_create: "changes (create pth type major minor) got"
proof -
  have fail: "changes (create_fail dp ip) (\<lambda>p j. got p j - at dp j - at ip j)" for dp ip
    unfolding create_fail_def by (intro changes_step) simp
  have dots: "changes (link_dots dp ip) (\<lambda>_ _. 0)" for dp ip
    unfolding link_dots_def by (intro changes_step changes_weaken [OF changes_dirlink]) simp_all
  have dots': "changes (if type = T_DIR then link_dots dp ip else ret 0) (\<lambda>_ _. 0)" for dp ip
    by (intro changes_if dots changes_ret) simp
  have up: "changes (if type = T_DIR then andthen (add_nlink dp 1) (\<lambda>_. iupdate dp) else ret ()) (\<lambda>_ _. 0)" for dp
    by (intro changes_if changes_add_nlink [THEN changes_then] changes_weaken [OF changes_inode(3)] changes_ret) simp_all
  show ?thesis
    unfolding create_def
    by (intro changes_step dots' [THEN changes_then] up [THEN changes_then] changes_weaken [OF fail]) simp_all
qed

text \<open>None of these calls keeps a reference, whichever way it ends.\<close>

lemma changes_sys_link: "changes (sys_link old new) (\<lambda>_ _. 0)"
proof -
  have r: "changes (if d \<noteq> d' then ret (-1) else dirlink dp nm inum) (\<lambda>_ _. 0)" for d d' :: nat and dp nm inum
    by (intro changes_if changes_dirlink changes_ret) simp
  show ?thesis
    unfolding sys_link_def
    by (intro changes_step changes_add_nlink [THEN changes_then] r [THEN changes_then] changes_weaken [OF changes_link_bad]) simp_all
qed

lemma changes_isdirempty: "changes (isdirempty dp) (\<lambda>_ _. 0)"
proof -
  have "changes (isdirempty_from dp offs) (\<lambda>_ _. 0)" for offs
    by (induction offs) (auto intro!: changes_step)
  then show ?thesis unfolding isdirempty_def by (intro changes_step) simp
qed

lemma changes_sys_unlink: "changes (sys_unlink p) (\<lambda>_ _. 0)"
proof -
  have bad: "changes (unlink_bad dp) (\<lambda>_ j. - at dp j)" for dp
    unfolding unlink_bad_def by (intro changes_step) simp
  have emp: "changes (if b then isdirempty ip else ret True) (\<lambda>_ _. 0)" for b ip
    by (intro changes_if changes_isdirempty changes_ret) simp
  have up: "changes (if b then andthen (add_nlink dp (-1)) (\<lambda>_. iupdate dp) else ret ()) (\<lambda>_ _. 0)" for b dp
    by (intro changes_if changes_add_nlink [THEN changes_then] changes_weaken [OF changes_inode(3)] changes_ret) simp_all
  show ?thesis
    unfolding sys_unlink_def
    by (intro changes_step changes_add_nlink [THEN changes_then] emp [THEN changes_then] up [THEN changes_then] changes_weaken [OF bad]) simp_all
qed

lemma changes_make_inode: "changes (make_inode p type major minor) (\<lambda>_ _. 0)"
proof -
  have c: "changes (case p of None \<Rightarrow> ret None | Some pth \<Rightarrow> create pth type major minor) got"
    by (intro changes_option changes_create changes_ret) simp
  show ?thesis unfolding make_inode_def by (intro changes_step c [THEN changes_then]) simp_all
qed

lemma changes_open_inode: "changes (open_inode pth omode) got"
proof -
  have c: "changes (if omode AND O_CREATE \<noteq> 0 then create pth T_FILE 0 0
              else andthen (namei pth) (\<lambda>p. case p of
                     None \<Rightarrow> ret None
                   | Some ip \<Rightarrow> andthen (ilock (Some ip)) (\<lambda>_. andthen (gets (slot_of ip)) (\<lambda>x.
                       if di_type (i_copy x) = T_DIR \<and> omode \<noteq> 0 then andthen (iunlockput ip) (\<lambda>_. ret None)
                       else ret (Some ip))))) got"
    by (rule changes_if, rule changes_create) (intro changes_step; simp)
  show ?thesis unfolding open_inode_def by (intro changes_step c [THEN changes_then]) simp_all
qed

text \<open>
  \<open>sys_chdir\<close> gives the reference of the old directory back and keeps that of the new one: what counts is the
  number of references besides the one of the working directory.
\<close>

definition balanced :: "'a fsm \<Rightarrow> (nat \<Rightarrow> int) \<Rightarrow> bool" where
  "balanced m D \<longleftrightarrow> (\<forall>s x s'. m s = Ret (x, s') \<longrightarrow>
     length (f_itable s') = length (f_itable s) \<and> (\<forall>j < length (f_itable s).
       i_ref (slot_of j s') - at (f_cwd s') j = i_ref (slot_of j s) - at (f_cwd s) j + D j))"

lemma changesD:
  assumes "changes m D" "m s = Ret (x, s')"
  shows "f_cwd s' = f_cwd s" "length (f_itable s') = length (f_itable s)"
    "j < length (f_itable s) \<Longrightarrow> i_ref (slot_of j s') = i_ref (slot_of j s) + D x j"
  using assms unfolding changes_def by blast+

lemma balanced_changes: "changes m D \<Longrightarrow> (\<And>x j. E j = D x j) \<Longrightarrow> balanced m E"
  unfolding balanced_def by (auto simp: changesD)

lemma balanced_then:
  assumes "changes m D" "\<And>x. balanced (f x) (\<lambda>j. E j - D x j)"
  shows "balanced (andthen m f) E"
  unfolding balanced_def
proof (intro allI impI)
  fix s y s' assume "andthen m f s = Ret (y, s')"
  then obtain x t where t: "m s = Ret (x, t)" "f x t = Ret (y, s')" by (rule andthen_RetE)
  have "length (f_itable s') = length (f_itable t) \<and> (\<forall>j < length (f_itable t).
      i_ref (slot_of j s') - at (f_cwd s') j = i_ref (slot_of j t) - at (f_cwd t) j + (E j - D x j))"
    using assms(2) [of x] t(2) unfolding balanced_def by blast
  then show "length (f_itable s') = length (f_itable s) \<and> (\<forall>j < length (f_itable s).
      i_ref (slot_of j s') - at (f_cwd s') j = i_ref (slot_of j s) - at (f_cwd s) j + E j)"
    by (simp add: changesD [OF assms(1) t(1)])
qed

lemma balanced_swap:
  "balanced (andthen (gets f_cwd) (\<lambda>cwd. andthen (iput cwd) (\<lambda>_. andthen fs_end_op (\<lambda>_.
     andthen (modify (f_cwd_update (\<lambda>_. ip))) (\<lambda>_. ret (0 :: int)))))) (\<lambda>j. - at ip j)"
  unfolding balanced_def
proof (intro allI impI)
  fix s x s'
  assume "andthen (gets f_cwd) (\<lambda>cwd. andthen (iput cwd) (\<lambda>_. andthen fs_end_op (\<lambda>_.
    andthen (modify (f_cwd_update (\<lambda>_. ip))) (\<lambda>_. ret (0 :: int))))) s = Ret (x, s')"
  then obtain t u where t: "iput (f_cwd s) s = Ret ((), t)" and u: "fs_end_op t = Ret ((), u)" and s': "s' = u\<lparr>f_cwd := ip\<rparr>"
    by (auto simp: gets_def modify_def ret_def elim!: andthen_RetE)
  show "length (f_itable s') = length (f_itable s) \<and> (\<forall>j < length (f_itable s).
      i_ref (slot_of j s') - at (f_cwd s') j = i_ref (slot_of j s) - at (f_cwd s) j + - at ip j)"
    using changesD [OF changes_iput t] changesD [OF changes_still(3) u] by (simp add: s' slot_of_def)
qed

lemma balanced_chdir: "balanced (sys_chdir p) (\<lambda>_. 0)"
proof -
  have look: "changes (case p of None \<Rightarrow> ret None | Some pth \<Rightarrow> namei pth) got"
    by (intro changes_option changes_namei changes_ret) simp
  have bad: "changes (andthen (iunlockput ip) (\<lambda>_. andthen fs_end_op (\<lambda>_. ret (-1 :: int)))) (\<lambda>_ j. - at ip j)" for ip
    by (intro changes_step) simp
  have good: "balanced (andthen (iunlock (Some ip)) (\<lambda>_. andthen (gets f_cwd) (\<lambda>cwd. andthen (iput cwd) (\<lambda>_. andthen fs_end_op (\<lambda>_.
      andthen (modify (f_cwd_update (\<lambda>_. ip))) (\<lambda>_. ret (0 :: int))))))) (\<lambda>j. - at ip j)" for ip
    using balanced_then [OF changes_inode(2) [of ip], of _ "\<lambda>j. - at ip j"] balanced_swap [of ip] by simp
  have "balanced (case q of None \<Rightarrow> andthen fs_end_op (\<lambda>_. ret (-1))
     | Some ip \<Rightarrow> andthen (ilock (Some ip)) (\<lambda>_. andthen (gets (slot_of ip)) (\<lambda>x.
         if di_type (i_copy x) \<noteq> T_DIR then andthen (iunlockput ip) (\<lambda>_. andthen fs_end_op (\<lambda>_. ret (-1)))
         else andthen (iunlock (Some ip)) (\<lambda>_. andthen (gets f_cwd) (\<lambda>cwd. andthen (iput cwd) (\<lambda>_. andthen fs_end_op (\<lambda>_.
              andthen (modify (f_cwd_update (\<lambda>_. ip))) (\<lambda>_. ret (0 :: int))))))))) (\<lambda>j. 0 - 0 - got q j)" for q
  proof (cases q)
    case None
    show ?thesis unfolding None option.case
      by (rule balanced_then [OF changes_still(3)], rule balanced_changes [OF changes_ret [where D = "\<lambda>_ _. 0"]]) simp_all
  next
    case (Some ip)
    show ?thesis unfolding Some option.case
    proof (rule balanced_then [OF changes_inode(1)], rule balanced_then [OF changes_still(1)])
      fix u :: unit and x
      show "balanced (if di_type (i_copy x) \<noteq> T_DIR then andthen (iunlockput ip) (\<lambda>_. andthen fs_end_op (\<lambda>_. ret (-1)))
         else andthen (iunlock (Some ip)) (\<lambda>_. andthen (gets f_cwd) (\<lambda>cwd. andthen (iput cwd) (\<lambda>_. andthen fs_end_op (\<lambda>_.
              andthen (modify (f_cwd_update (\<lambda>_. ip))) (\<lambda>_. ret (0 :: int))))))) (\<lambda>j. 0 - 0 - got (Some ip) j - 0 - 0)"
        using balanced_changes [OF bad] good by (cases "di_type (i_copy x) = T_DIR") simp_all
    qed
  qed
  then show ?thesis unfolding sys_chdir_def by (intro balanced_then [OF changes_still(2)] balanced_then [OF look])
qed

end
