(* ===== verification/Sysfile_Files.thy ===== *)
theory Sysfile_Files
  imports Sysfile_Refs
begin

text \<open>
  The references of the open files. The counter of an inode is the number of open files on it, the counter of an
  open file the number of descriptors of it, and a pipe has its page as long as one of its ends is open.
\<close>

section \<open>What is referred to\<close>

definition cnt :: "('a \<Rightarrow> bool) \<Rightarrow> 'a list \<Rightarrow> int" where
  "cnt P xs = int (length (filter P xs))"

lemma cnt_update:
  assumes "f < length xs"
  shows "cnt P (xs[f := y]) = cnt P xs - of_bool (P (xs ! f)) + of_bool (P y)"
proof -
  have "cnt P xs = cnt P (take f xs) + of_bool (P (xs ! f)) + cnt P (drop (Suc f) xs)"
    by (subst id_take_nth_drop [OF assms]) (simp add: cnt_def)
  moreover have "cnt P (xs[f := y]) = cnt P (take f xs) + of_bool (P y) + cnt P (drop (Suc f) xs)"
    unfolding upd_conv_take_nth_drop [OF assms] by (simp add: cnt_def)
  ultimately show ?thesis by simp
qed

lemma cnt_nonneg: "cnt P xs \<ge> 0"
  by (simp add: cnt_def)

lemma cnt_member: "x \<in> set xs \<Longrightarrow> P x \<Longrightarrow> cnt P xs > 0"
  by (auto simp: cnt_def filter_empty_conv)

definition inode_file :: "nat \<Rightarrow> ofile \<Rightarrow> bool" where
  "inode_file j x \<longleftrightarrow> (of_type x = FD_INODE \<or> of_type x = FD_DEVICE) \<and> of_ip x = j"

definition pipe_end :: "nat \<Rightarrow> bool \<Rightarrow> ofile \<Rightarrow> bool" where
  "pipe_end pi w x \<longleftrightarrow> of_type x = FD_PIPE \<and> of_pipe x = pi \<and> of_writable x = w"

text \<open>
  \<open>E\<close> and \<open>G\<close>: the references to inodes and to open files that others have, other processes or the
  code that is running; \<open>A\<close>: the files that were allocated and not yet given a type.
\<close>

definition inodes_held :: "(nat \<Rightarrow> int) \<Rightarrow> osys \<Rightarrow> bool" where
  "inodes_held E s \<longleftrightarrow> (\<forall>j < length (f_itable (os_fs s)).
     i_ref (slot_of j (os_fs s)) = cnt (inode_file j) (os_files s) + at (f_cwd (os_fs s)) j + E j)"

definition files_held :: "(nat \<Rightarrow> int) \<Rightarrow> osys \<Rightarrow> bool" where
  "files_held G s \<longleftrightarrow> length (os_files s) = NFILE \<and> length (os_ofile s) = NOFILE \<and> (\<forall>f. Some f \<in> set (os_ofile s) \<longrightarrow> f < NFILE)
     \<and> (\<forall>f < NFILE. of_ref (os_files s ! f) = cnt (\<lambda>p. p = Some f) (os_ofile s) + G f
          \<and> (of_ref (os_files s ! f) = 0 \<longrightarrow> of_type (os_files s ! f) = FD_NONE))"

definition untyped :: "nat set \<Rightarrow> osys \<Rightarrow> bool" where
  "untyped A s \<longleftrightarrow> (\<forall>f \<in> A. f < NFILE \<and> of_ref (os_files s ! f) = 1 \<and> of_type (os_files s ! f) = FD_NONE)"

text \<open>The open files on the two ends of a pipe.\<close>

definition pipe_held :: "pipe option \<Rightarrow> int \<Rightarrow> int \<Rightarrow> bool" where
  "pipe_held q r w \<longleftrightarrow> (case q of None \<Rightarrow> r = 0 \<and> w = 0
     | Some p \<Rightarrow> r = of_bool (pi_readopen p) \<and> w = of_bool (pi_writeopen p) \<and> (pi_readopen p \<or> pi_writeopen p))"

definition pipes_held :: "osys \<Rightarrow> bool" where
  "pipes_held s \<longleftrightarrow> (\<forall>pi. pipe_held (os_pipes s pi) (cnt (pipe_end pi False) (os_files s)) (cnt (pipe_end pi True) (os_files s)))"

definition held :: "(nat \<Rightarrow> int) \<Rightarrow> (nat \<Rightarrow> int) \<Rightarrow> nat set \<Rightarrow> osys \<Rightarrow> bool" where
  "held E G A s \<longleftrightarrow> inodes_held E s \<and> files_held G s \<and> untyped A s \<and> pipes_held s"

lemma heldD:
  assumes "held E G A s"
  shows "inodes_held E s" "files_held G s" "untyped A s" "pipes_held s"
  using assms by (simp_all add: held_def)

lemma heldI: "inodes_held E s \<Longrightarrow> files_held G s \<Longrightarrow> untyped A s \<Longrightarrow> pipes_held s \<Longrightarrow> held E G A s"
  by (simp add: held_def)

section \<open>Triples\<close>

definition triple :: "(osys \<Rightarrow> bool) \<Rightarrow> 'a osm \<Rightarrow> ('a \<Rightarrow> osys \<Rightarrow> bool) \<Rightarrow> bool" where
  "triple P m Q \<longleftrightarrow> (\<forall>s x s'. P s \<longrightarrow> m s = Ret (x, s') \<longrightarrow> Q x s')"

lemma tripleI: "(\<And>s x s'. P s \<Longrightarrow> m s = Ret (x, s') \<Longrightarrow> Q x s') \<Longrightarrow> triple P m Q"
  unfolding triple_def by blast

lemma tripleD: "triple P m Q \<Longrightarrow> P s \<Longrightarrow> m s = Ret (x, s') \<Longrightarrow> Q x s'"
  unfolding triple_def by blast

lemma othen_RetE:
  assumes "othen m f s = Ret (y, s')"
  obtains x t where "m s = Ret (x, t)" "f x t = Ret (y, s')"
  using assms by (auto simp: othen_def elim!: bind_RetE)

lemma triple_then: "triple P m R \<Longrightarrow> (\<And>x. triple (R x) (f x) Q) \<Longrightarrow> triple P (othen m f) Q"
  unfolding triple_def by (blast elim: othen_RetE)

lemma triple_ret: "(\<And>s. P s \<Longrightarrow> Q x s) \<Longrightarrow> triple P (oret x) Q"
  by (simp add: triple_def oret_def)

lemma triple_panic: "triple P (opanic msg) Q"
  by (simp add: triple_def opanic_def)

lemma triple_if: "(c \<Longrightarrow> triple P m Q) \<Longrightarrow> (\<not> c \<Longrightarrow> triple P m' Q) \<Longrightarrow> triple P (if c then m else m') Q"
  by simp

lemma triple_option:
  "(p = None \<Longrightarrow> triple P m Q) \<Longrightarrow> (\<And>x. p = Some x \<Longrightarrow> triple P (f x) Q) \<Longrightarrow> triple P (case p of None \<Rightarrow> m | Some x \<Rightarrow> f x) Q"
  by (cases p) simp_all

lemma triple_prod: "(\<And>x y. p = (x, y) \<Longrightarrow> triple P (f x y) Q) \<Longrightarrow> triple P (case p of (x, y) \<Rightarrow> f x y) Q"
  by (cases p) simp

lemma triple_pre: "triple P' m Q \<Longrightarrow> (\<And>s. P s \<Longrightarrow> P' s) \<Longrightarrow> triple P m Q"
  unfolding triple_def by blast

lemma triple_post: "triple P m Q' \<Longrightarrow> (\<And>x s. Q' x s \<Longrightarrow> Q x s) \<Longrightarrow> triple P m Q"
  unfolding triple_def by blast

text \<open>A value read from the state: what follows may use that it was read there.\<close>

lemma triple_gets: "(\<And>x. triple (\<lambda>s. P s \<and> g s = x) (f x) Q) \<Longrightarrow> triple P (othen (ogets g) f) Q"
  unfolding triple_def by (auto simp: ogets_def elim!: othen_RetE)

lemma triple_and: "(c \<Longrightarrow> triple P m Q) \<Longrightarrow> triple (\<lambda>s. P s \<and> c) m Q"
  unfolding triple_def by blast

section \<open>Operations\<close>

lemma set_file_Ret: "set_file f g s = Ret (u, s') \<longleftrightarrow> s' = s\<lparr>os_files := (os_files s)[f := g (os_files s ! f)]\<rparr>"
  by (auto simp: set_file_def omod_def)

lemma held_fs_part [simp]:
  "files_held G (s\<lparr>os_fs := fs\<rparr>) = files_held G s" "untyped A (s\<lparr>os_fs := fs\<rparr>) = untyped A s" "pipes_held (s\<lparr>os_fs := fs\<rparr>) = pipes_held s"
  by (simp_all add: files_held_def untyped_def pipes_held_def)

lemma held_fs:
  assumes "changes m D"
  shows "triple (held E G A) (fs_do m) (\<lambda>x. held (\<lambda>j. E j + D x j) G A)"
proof (rule tripleI)
  fix s x s' assume h: "held E G A s" and r: "fs_do m s = Ret (x, s')"
  obtain fs where m: "m (os_fs s) = Ret (x, fs)" and s': "s' = s\<lparr>os_fs := fs\<rparr>"
    using r by (auto simp: fs_do_def elim!: bind_RetE)
  show "held (\<lambda>j. E j + D x j) G A s'"
  proof (rule heldI)
    show "inodes_held (\<lambda>j. E j + D x j) s'"
      using heldD(1) [OF h] changesD [OF assms m] by (simp add: s' inodes_held_def)
  qed (use heldD(2-4) [OF h] in \<open>simp_all add: s'\<close>)
qed

lemma held_still: "changes m (\<lambda>_ _. 0) \<Longrightarrow> triple (held E G A) (fs_do m) (\<lambda>_. held E G A)"
  using held_fs [of m "\<lambda>_ _. 0"] by simp

text \<open>A change of an open file that keeps its type, its references and what it refers to.\<close>

lemma held_same:
  assumes "\<And>x. of_ref (g x) = of_ref x" "\<And>x. of_type (g x) = of_type x" "\<And>x. of_ip (g x) = of_ip x"
    "\<And>x. of_pipe (g x) = of_pipe x" "\<And>x. of_writable (g x) = of_writable x"
  shows "triple (held E G A) (set_file f g) (\<lambda>_. held E G A)"
proof (rule tripleI)
  fix s x s' assume h: "held E G A s" and r: "set_file f g s = Ret (x, s')"
  have s': "s' = s\<lparr>os_files := (os_files s)[f := g (os_files s ! f)]\<rparr>" using r by (simp add: set_file_Ret)
  have c: "cnt P (os_files s') = cnt P (os_files s)" if "\<And>x. P (g x) = P x" for P
    by (cases "f < length (os_files s)") (simp_all add: s' cnt_update that list_update_beyond)
  have n: "of_ref (os_files s' ! k) = of_ref (os_files s ! k)" "of_type (os_files s' ! k) = of_type (os_files s ! k)" for k
    by (cases "f < length (os_files s)"; cases "k = f"; simp add: s' assms list_update_beyond)+
  have "cnt (inode_file j) (os_files s') = cnt (inode_file j) (os_files s)"
    "cnt (pipe_end pi w) (os_files s') = cnt (pipe_end pi w) (os_files s)" for j pi w
    by (rule c; simp add: inode_file_def pipe_end_def assms)+
  note c = this
  show "held E G A s'"
  proof (rule heldI)
    show "inodes_held E s'" using heldD(1) [OF h] unfolding inodes_held_def c by (simp add: s')
    show "files_held G s'" using heldD(2) [OF h] unfolding files_held_def n by (simp add: s')
    show "untyped A s'" using heldD(3) [OF h] unfolding untyped_def n .
    show "pipes_held s'" using heldD(4) [OF h] unfolding pipes_held_def c by (simp add: s')
  qed
qed

lemma held_filealloc:
  "triple (held E G A) filealloc (\<lambda>p s. case p of None \<Rightarrow> held E G A s
     | Some f \<Rightarrow> f \<notin> A \<and> held E (\<lambda>k. G k + at f k) (insert f A) s)"
proof (rule tripleI)
  fix s p s' assume h: "held E G A s" and r: "filealloc s = Ret (p, s')"
  show "case p of None \<Rightarrow> held E G A s' | Some f \<Rightarrow> f \<notin> A \<and> held E (\<lambda>k. G k + at f k) (insert f A) s'"
  proof (cases "first_index (\<lambda>f. of_ref f = 0) (os_files s)")
    case None
    then show ?thesis using h r by (simp add: filealloc_def oret_def)
  next
    case (Some f)
    note L = heldD(2) [OF h, unfolded files_held_def]
    have f: "f < NFILE" "of_ref (os_files s ! f) = 0" using first_index_SomeD [OF Some] L by simp_all
    have t: "of_type (os_files s ! f) = FD_NONE" using L f by simp
    have p: "p = Some f" and s': "s' = s\<lparr>os_files := (os_files s)[f := (os_files s ! f)\<lparr>of_ref := 1\<rparr>]\<rparr>"
      using r by (auto simp: filealloc_def Some oret_def set_file_Ret elim!: othen_RetE)
    have fl: "f < length (os_files s)" using f L by simp
    have c: "cnt (inode_file j) (os_files s') = cnt (inode_file j) (os_files s)"
      "cnt (pipe_end pi w) (os_files s') = cnt (pipe_end pi w) (os_files s)" for j pi w
      using fl t by (simp_all add: s' cnt_update inode_file_def pipe_end_def)
    have n: "f \<notin> A" using heldD(3) [OF h] f(2) unfolding untyped_def by fastforce
    have "held E (\<lambda>k. G k + at f k) (insert f A) s'"
    proof (rule heldI)
      show "inodes_held E s'" using heldD(1) [OF h] unfolding inodes_held_def c by (simp add: s')
      show "files_held (\<lambda>k. G k + at f k) s'" using L f t by (auto simp: s' files_held_def nth_list_update at_def)
      show "untyped (insert f A) s'" using heldD(3) [OF h] n fl f(1) t by (auto simp: s' untyped_def nth_list_update)
      show "pipes_held s'" using heldD(4) [OF h] unfolding pipes_held_def c by (simp add: s')
    qed
    with n show ?thesis by (simp add: p)
  qed
qed

lemma held_filedup: "triple (\<lambda>s. held E G {} s \<and> f < NFILE) (filedup f) (\<lambda>r s. r = f \<and> held E (\<lambda>k. G k + at f k) {} s)"
proof (rule tripleI)
  fix s r s' assume h: "held E G {} s \<and> f < NFILE" and run: "filedup f s = Ret (r, s')"
  have ref: "\<not> of_ref (os_files s ! f) < 1" and r: "r = f"
    and s': "s' = s\<lparr>os_files := (os_files s)[f := (os_files s ! f)\<lparr>of_ref := of_ref (os_files s ! f) + 1\<rparr>]\<rparr>"
    using run by (auto simp: filedup_def ogets_def opanic_def oret_def set_file_Ret elim!: othen_RetE split: if_splits)
  note L = heldD(2) [OF conjunct1 [OF h], unfolded files_held_def]
  have fl: "f < length (os_files s)" using h L by simp
  have c: "cnt (inode_file j) (os_files s') = cnt (inode_file j) (os_files s)"
    "cnt (pipe_end pi w) (os_files s') = cnt (pipe_end pi w) (os_files s)" for j pi w
    using fl by (simp_all add: s' cnt_update inode_file_def pipe_end_def)
  have "held E (\<lambda>k. G k + at f k) {} s'"
  proof (rule heldI)
    show "inodes_held E s'" using heldD(1) [OF conjunct1 [OF h]] unfolding inodes_held_def c by (simp add: s')
    show "files_held (\<lambda>k. G k + at f k) s'" using L ref by (auto simp: s' files_held_def nth_list_update at_def)
    show "untyped {} s'" by (simp add: untyped_def)
    show "pipes_held s'" using heldD(4) [OF conjunct1 [OF h]] unfolding pipes_held_def c by (simp add: s')
  qed
  with r show "r = f \<and> held E (\<lambda>k. G k + at f k) {} s'" by simp
qed

text \<open>Descriptors take over and give up a reference.\<close>

lemma held_descriptor:
  assumes h: "held E G A s" and d: "fd < NOFILE" "\<And>f. p = Some f \<Longrightarrow> f < NFILE"
    and s': "s' = s\<lparr>os_ofile := (os_ofile s)[fd := p]\<rparr>"
  shows "held E (\<lambda>k. G k + got (os_ofile s ! fd) k - got p k) A s'"
proof (rule heldI)
  note L = heldD(2) [OF h, unfolded files_held_def]
  have fdl: "fd < length (os_ofile s)" using L d by simp
  have bool: "of_bool (q = Some k) = got q k" for q k by (auto simp: got_def at_def split: option.splits)
  have n: "f < NFILE" if "Some f \<in> set ((os_ofile s)[fd := p])" for f
    using that set_update_subset_insert [of "os_ofile s" fd p] L d(2) by blast
  show "inodes_held E s'" using heldD(1) [OF h] by (simp add: s' inodes_held_def)
  show "files_held (\<lambda>k. G k + got (os_ofile s ! fd) k - got p k) s'"
    using L n by (simp add: s' files_held_def cnt_update [OF fdl] bool)
  show "untyped A s'" using heldD(3) [OF h] by (simp add: s' untyped_def)
  show "pipes_held s'" using heldD(4) [OF h] by (simp add: s' pipes_held_def)
qed

lemma held_fdalloc:
  assumes f: "f < NFILE"
  shows "triple (held E G A) (fdalloc f) (\<lambda>fd s. if fd < 0 then held E G A s
     else fd < int NOFILE \<and> os_ofile s ! nat fd = Some f \<and> held E (\<lambda>k. G k - at f k) A s)"
proof (rule tripleI)
  fix s fd s' assume h: "held E G A s" and r: "fdalloc f s = Ret (fd, s')"
  note L = heldD(2) [OF h, unfolded files_held_def]
  show "if fd < 0 then held E G A s' else fd < int NOFILE \<and> os_ofile s' ! nat fd = Some f \<and> held E (\<lambda>k. G k - at f k) A s'"
  proof (cases "first_index (\<lambda>p. p = None) (os_ofile s)")
    case None
    then show ?thesis using h r by (auto simp: fdalloc_def oret_def)
  next
    case (Some d)
    have d: "d < NOFILE" "os_ofile s ! d = None" using first_index_SomeD [OF Some] L by simp_all
    have fd: "fd = int d" and s': "s' = s\<lparr>os_ofile := (os_ofile s)[d := Some f]\<rparr>"
      using r by (auto simp: fdalloc_def Some oret_def omod_def elim!: othen_RetE)
    have "held E (\<lambda>k. G k - at f k) A s'" using held_descriptor [OF h d(1) _ s'] f d(2) by simp
    then show ?thesis using d L by (simp add: fd s')
  qed
qed

lemma held_clear_fd:
  assumes "0 \<le> fd" "fd < int NOFILE"
  shows "triple (\<lambda>s. held E G A s \<and> os_ofile s ! nat fd = Some f) (clear_fd fd) (\<lambda>_. held E (\<lambda>k. G k + at f k) A)"
proof (rule tripleI)
  fix s u s' assume h: "held E G A s \<and> os_ofile s ! nat fd = Some f" and r: "clear_fd fd s = Ret (u, s')"
  have "s' = s\<lparr>os_ofile := (os_ofile s)[nat fd := None]\<rparr>" using r by (simp add: clear_fd_def omod_def)
  from held_descriptor [OF conjunct1 [OF h] _ _ this] h assms show "held E (\<lambda>k. G k + at f k) A s'" by simp
qed

section \<open>Closing\<close>

text \<open>The entry of a file whose last reference goes.\<close>

lemma held_drop_file:
  assumes h: "held E G A s" and f: "f < NFILE" "of_ref (os_files s ! f) = 1"
    and t: "t = s\<lparr>os_files := (os_files s)[f := (os_files s ! f)\<lparr>of_ref := 0, of_type := FD_NONE\<rparr>]\<rparr>"
  shows "inodes_held (\<lambda>j. E j + of_bool (inode_file j (os_files s ! f))) t" "files_held (\<lambda>k. G k - at f k) t" "untyped (A - {f}) t"
    "cnt (pipe_end pi w) (os_files t) = cnt (pipe_end pi w) (os_files s) - of_bool (pipe_end pi w (os_files s ! f))"
proof -
  note L = heldD(2) [OF h, unfolded files_held_def]
  have fl: "f < length (os_files s)" using f L by simp
  have new: "inode_file j ((os_files s ! f)\<lparr>of_ref := 0, of_type := FD_NONE\<rparr>) = False"
    "pipe_end pi w ((os_files s ! f)\<lparr>of_ref := 0, of_type := FD_NONE\<rparr>) = False" for j pi w
    by (simp_all add: inode_file_def pipe_end_def)
  show "cnt (pipe_end pi w) (os_files t) = cnt (pipe_end pi w) (os_files s) - of_bool (pipe_end pi w (os_files s ! f))" for pi w
    by (simp add: t cnt_update [OF fl] new)
  show "inodes_held (\<lambda>j. E j + of_bool (inode_file j (os_files s ! f))) t"
    using heldD(1) [OF h] by (simp add: t inodes_held_def cnt_update [OF fl] new)
  show "files_held (\<lambda>k. G k - at f k) t" using L f by (auto simp: t files_held_def nth_list_update at_def)
  show "untyped (A - {f}) t" using heldD(3) [OF h] by (simp add: t untyped_def)
qed

lemma held_close_pipe:
  assumes h: "held E G A s" and f: "f < NFILE" "of_type (os_files s ! f) = FD_PIPE"
    and pi: "\<And>pi w. cnt (pipe_end pi w) (os_files t) = cnt (pipe_end pi w) (os_files s) - of_bool (pipe_end pi w (os_files s ! f))"
    and t: "os_pipes t = os_pipes s" and r: "close_pipe (of_pipe (os_files s ! f)) (of_writable (os_files s ! f)) t = Ret (u, s')"
  shows "pipes_held s'"
proof -
  define q wr where "q = of_pipe (os_files s ! f)" and "wr = of_writable (os_files s ! f)"
  note P = heldD(4) [OF h, unfolded pipes_held_def, rule_format]
  have fin: "os_files s ! f \<in> set (os_files s)" using f heldD(2) [OF h] by (simp add: files_held_def)
  have pe: "pipe_end pi w (os_files s ! f) \<longleftrightarrow> pi = q \<and> w = wr" for pi w
    using f(2) by (auto simp: pipe_end_def q_def wr_def)
  have pos: "cnt (pipe_end q wr) (os_files s) > 0" using fin pe by (intro cnt_member) auto
  then obtain p where p: "os_pipes s q = Some p"
    using P [of q] by (cases wr; cases "os_pipes s q") (auto simp: pipe_held_def)
  obtain fr ch p' where pc: "pipeclose wr p = (fr, ch, p')" by (cases "pipeclose wr p") auto
  have s': "s' = t\<lparr>os_pipes := (os_pipes t)(q := if fr then None else Some p')\<rparr>"
    using r by (simp add: close_pipe_def omod_def t p pc flip: q_def wr_def)
  have "pipe_held (if fr then None else Some p') (cnt (pipe_end q False) (os_files t)) (cnt (pipe_end q True) (os_files t))"
    using P [of q] pc pos unfolding pi pe by (cases wr) (auto simp: pipe_held_def p pipeclose_def Let_def split: if_splits)
  then show ?thesis using P unfolding pipes_held_def pi pe by (auto simp: s' t pi pe)
qed

lemma held_fileclose:
  "triple (\<lambda>s. held E G A s \<and> f < NFILE) (fileclose f) (\<lambda>_. held E (\<lambda>k. G k - at f k) (A - {f}))"
proof (rule tripleI)
  fix s u s' assume hf: "held E G A s \<and> f < NFILE" and run: "fileclose f s = Ret (u, s')"
  note h = conjunct1 [OF hf] and f = conjunct2 [OF hf]
  note L = heldD(2) [OF h, unfolded files_held_def]
  have fl: "f < length (os_files s)" using f L by simp
  let ?ff = "os_files s ! f"
  have ref: "\<not> of_ref ?ff < 1" using run by (auto simp: fileclose_def ogets_def opanic_def elim!: othen_RetE split: if_splits)
  show "held E (\<lambda>k. G k - at f k) (A - {f}) s'"
  proof (cases "of_ref ?ff - 1 > 0")
    case True
    have s': "s' = s\<lparr>os_files := (os_files s)[f := ?ff\<lparr>of_ref := of_ref ?ff - 1\<rparr>]\<rparr>"
      using run ref True by (auto simp: fileclose_def ogets_def set_file_Ret elim!: othen_RetE)
    have c: "cnt (inode_file j) (os_files s') = cnt (inode_file j) (os_files s)"
      "cnt (pipe_end pi w) (os_files s') = cnt (pipe_end pi w) (os_files s)" for j pi w
      using fl by (simp_all add: s' cnt_update inode_file_def pipe_end_def)
    show ?thesis
    proof (rule heldI)
      show "inodes_held E s'" using heldD(1) [OF h] unfolding inodes_held_def c by (simp add: s')
      show "files_held (\<lambda>k. G k - at f k) s'" using L True by (auto simp: s' files_held_def nth_list_update at_def)
      show "untyped (A - {f}) s'" using heldD(3) [OF h] by (simp add: s' untyped_def)
      show "pipes_held s'" using heldD(4) [OF h] unfolding pipes_held_def c by (simp add: s')
    qed
  next
    case False
    then have one: "of_ref ?ff = 1" using ref by simp
    define t where "t = s\<lparr>os_files := (os_files s)[f := ?ff\<lparr>of_ref := 0, of_type := FD_NONE\<rparr>]\<rparr>"
    have rest: "(if of_type ?ff = FD_PIPE then close_pipe (of_pipe ?ff) (of_writable ?ff)
         else if of_type ?ff = FD_INODE \<or> of_type ?ff = FD_DEVICE then
           fs_do (andthen fs_begin_op (\<lambda>_. andthen (iput (of_ip ?ff)) (\<lambda>_. fs_end_op)))
         else oret ()) t = Ret (u, s')"
      using run ref False by (auto simp: fileclose_def ogets_def set_file_Ret t_def elim!: othen_RetE)
    note D = held_drop_file [OF h f one t_def]
    consider "of_type ?ff = FD_PIPE" | "of_type ?ff = FD_INODE \<or> of_type ?ff = FD_DEVICE" | "of_type ?ff = FD_NONE"
      by (cases "of_type ?ff") auto
    then show ?thesis
    proof cases
      case 1
      have r: "close_pipe (of_pipe ?ff) (of_writable ?ff) t = Ret (u, s')" using rest 1 by simp
      have same: "os_fs s' = os_fs t" "os_files s' = os_files t" "os_ofile s' = os_ofile t"
        using r by (auto simp: close_pipe_def omod_def split: option.splits prod.splits)
      have "pipes_held s'" by (rule held_close_pipe [OF h f 1 D(4) _ r]) (simp add: t_def)
      moreover have none: "inode_file j ?ff = False" for j using 1 by (simp add: inode_file_def)
      moreover have "inodes_held E s'" using D(1) by (simp add: inodes_held_def same none)
      moreover have "files_held (\<lambda>k. G k - at f k) s'" using D(2) by (simp add: files_held_def same)
      moreover have "untyped (A - {f}) s'" using D(3) by (simp add: untyped_def same)
      ultimately show ?thesis by (intro heldI)
    next
      case 2
      have "pipe_end pi w ?ff = False" for pi w using 2 by (auto simp: pipe_end_def)
      then have "pipes_held t" using heldD(4) [OF h] unfolding pipes_held_def D(4) by (simp add: t_def)
      then have ht: "held (\<lambda>j. E j + of_bool (inode_file j ?ff)) (\<lambda>k. G k - at f k) (A - {f}) t"
        using D(1-3) by (intro heldI)
      have ch: "changes (andthen fs_begin_op (\<lambda>_. andthen (iput (of_ip ?ff)) (\<lambda>_. fs_end_op))) (\<lambda>_ j. - at (of_ip ?ff) j)"
        by (intro changes_step changes_weaken [OF changes_still(3)]) simp
      have "fs_do (andthen fs_begin_op (\<lambda>_. andthen (iput (of_ip ?ff)) (\<lambda>_. fs_end_op))) t = Ret (u, s')"
        using rest 2 by auto
      from tripleD [OF held_fs [OF ch] ht this]
      have "held (\<lambda>j. E j + of_bool (inode_file j ?ff) + - at (of_ip ?ff) j) (\<lambda>k. G k - at f k) (A - {f}) s'" .
      moreover have "of_bool (inode_file j ?ff) = at (of_ip ?ff) j" for j using 2 by (auto simp: inode_file_def at_def)
      ultimately show ?thesis by simp
    next
      case 3
      have none: "pipe_end pi w ?ff = False" "inode_file j ?ff = False" for pi w j using 3 by (auto simp: pipe_end_def inode_file_def)
      have "pipes_held t" using heldD(4) [OF h] unfolding pipes_held_def D(4) none by (simp add: t_def)
      moreover have "s' = t" using rest 3 by (simp add: oret_def)
      ultimately show ?thesis using D(1-3) by (intro heldI) (simp_all add: none)
    qed
  qed
qed

section \<open>The calls\<close>

lemma held_argfd:
  "triple (held E G A) (argfd fd) (\<lambda>p s. held E G A s \<and> (case p of None \<Rightarrow> True
     | Some f \<Rightarrow> 0 \<le> fd \<and> fd < int NOFILE \<and> f < NFILE \<and> os_ofile s ! nat fd = Some f))"
proof (rule tripleI)
  fix s p s' assume h: "held E G A s" and r: "argfd fd s = Ret (p, s')"
  have "f < NFILE" if "os_ofile s ! nat fd = Some f" "0 \<le> fd" "fd < int NOFILE" for f
    using heldD(2) [OF h] that nth_mem [of "nat fd" "os_ofile s"] by (simp add: files_held_def)
  then show "held E G A s' \<and> (case p of None \<Rightarrow> True
     | Some f \<Rightarrow> 0 \<le> fd \<and> fd < int NOFILE \<and> f < NFILE \<and> os_ofile s' ! nat fd = Some f)"
    using h r by (auto simp: argfd_def ogets_def split: option.splits if_splits)
qed

text \<open>A call on the file of a descriptor.\<close>

lemma held_on_fd:
  assumes "triple (held E G A) m Q"
    and "\<And>f. 0 \<le> fd \<Longrightarrow> fd < int NOFILE \<Longrightarrow> f < NFILE \<Longrightarrow> triple (\<lambda>s. held E G A s \<and> os_ofile s ! nat fd = Some f) (g f) Q"
  shows "triple (held E G A) (othen (argfd fd) (\<lambda>p. case p of None \<Rightarrow> m | Some f \<Rightarrow> g f)) Q"
proof (rule triple_then [OF held_argfd])
  fix p
  show "triple (\<lambda>s. held E G A s \<and> (case p of None \<Rightarrow> True
     | Some f \<Rightarrow> 0 \<le> fd \<and> fd < int NOFILE \<and> f < NFILE \<and> os_ofile s ! nat fd = Some f)) (case p of None \<Rightarrow> m | Some f \<Rightarrow> g f) Q"
    using assms by (cases p) (auto simp: triple_def)
qed

lemma held_dup: "triple (held E G {}) (sys_dup fd) (\<lambda>_. held E G {})"
  unfolding sys_dup_def
proof (rule held_on_fd)
  fix f assume f: "f < NFILE"
  have two: "triple (\<lambda>s. if d < 0 then held E G {} s else d < int NOFILE \<and> os_ofile s ! nat d = Some f \<and> held E (\<lambda>k. G k - at f k) {} s)
     (if d < 0 then oret (-1) else othen (filedup f) (\<lambda>_. oret d)) (\<lambda>_. held E G {})" for d
  proof (rule triple_if)
    assume "\<not> d < 0"
    have "triple (\<lambda>s. held E (\<lambda>k. G k - at f k) {} s \<and> f < NFILE) (othen (filedup f) (\<lambda>_. oret d)) (\<lambda>_. held E G {})"
      by (rule triple_then [OF held_filedup], rule triple_ret) simp
    then show "triple (\<lambda>s. if d < 0 then held E G {} s else d < int NOFILE \<and> os_ofile s ! nat d = Some f \<and> held E (\<lambda>k. G k - at f k) {} s)
       (othen (filedup f) (\<lambda>_. oret d)) (\<lambda>_. held E G {})"
      by (rule triple_pre) (use \<open>\<not> d < 0\<close> f in simp)
  qed (rule triple_ret, simp)
  show "triple (\<lambda>s. held E G {} s \<and> os_ofile s ! nat fd = Some f)
     (othen (fdalloc f) (\<lambda>fd. if fd < 0 then oret (-1) else othen (filedup f) (\<lambda>_. oret fd))) (\<lambda>_. held E G {})"
    by (rule triple_pre [OF triple_then [OF held_fdalloc [OF f] two]]) simp
qed (rule triple_ret, simp)

lemma held_close: "triple (held E G {}) (sys_close fd) (\<lambda>_. held E G {})"
  unfolding sys_close_def
proof (rule held_on_fd)
  fix f assume fd: "0 \<le> fd" "fd < int NOFILE" and f: "f < NFILE"
  have "triple (\<lambda>s. held E (\<lambda>k. G k + at f k) {} s \<and> f < NFILE) (othen (fileclose f) (\<lambda>_. oret 0)) (\<lambda>_. held E G {})"
    by (rule triple_then [OF held_fileclose], rule triple_ret) simp
  then show "triple (\<lambda>s. held E G {} s \<and> os_ofile s ! nat fd = Some f)
     (othen (clear_fd fd) (\<lambda>_. othen (fileclose f) (\<lambda>_. oret 0))) (\<lambda>_. held E G {})"
    by (intro triple_then [OF held_clear_fd [OF fd]]) (erule triple_pre, simp add: f)
qed (rule triple_ret, simp)

lemma held_off: "triple (held E G A) (if c then set_file f (\<lambda>x. x\<lparr>of_off := k x\<rparr>) else oret ()) (\<lambda>_. held E G A)"
  by (intro triple_if triple_ret held_same) simp_all

lemma held_fstat: "triple (held E G A) (sys_fstat fd cp) (\<lambda>_. held E G A)"
proof -
  have ch: "changes (andthen (ilock (Some i)) (\<lambda>_. andthen (stati i) (\<lambda>st. andthen (iunlock (Some i)) (\<lambda>_.
      ret (if cp st then (0 :: int, Some st) else (-1, None)))))) (\<lambda>_ _. 0)" for i
    by (intro changes_step) simp
  show ?thesis
    unfolding sys_fstat_def filestat_def
    by (rule held_on_fd, rule triple_ret, simp, rule triple_gets, rule triple_if;
        (rule triple_pre [OF held_still [OF ch]] | rule triple_ret); simp)
qed

lemma held_read: "triple (held E G A) (sys_read drv fd cp n) (\<lambda>_. held E G A)"
proof -
  have ch: "changes (andthen (ilock (Some i)) (\<lambda>_. readi i cp off k)) (\<lambda>_ _. 0)" for i off k
    by (intro changes_step changes_weaken [OF changes_inode(5)]) simp
  have main: "triple (held E G A)
          (othen (fs_do (andthen (ilock (Some i)) (\<lambda>_. readi i cp off k))) (\<lambda>(r, bs).
           othen (if r > 0 then set_file f (\<lambda>x. x\<lparr>of_off := (of_off x + nat r) mod 2 ^ 32\<rparr>) else oret ()) (\<lambda>_.
           othen (fs_do (iunlock (Some i))) (\<lambda>_. oret (Returns (r, bs)))))) (\<lambda>_. held E G A)" for i off k f
    by (intro triple_then [OF held_still [OF ch]] triple_prod triple_then [OF held_off]
          triple_then [OF held_still [OF changes_inode(2)]] triple_ret)
  show ?thesis
    unfolding sys_read_def fileread_def
    apply (rule held_on_fd, rule triple_ret, simp, rule triple_gets, rule triple_if, rule triple_ret, simp)
    subgoal for f x
      by (cases "of_type x"; simp only: ftype.case; (intro triple_if triple_ret triple_panic triple_pre [OF main])?; simp)
    done
qed

lemma held_write: "triple (held E G A) (sys_write drv fd cp n) (\<lambda>_. held E G A)"
proof -
  have ch: "changes (andthen fs_begin_op (\<lambda>_. ilock (Some i))) (\<lambda>_ _. 0)"
      "changes (andthen (iunlock (Some i)) (\<lambda>_. fs_end_op)) (\<lambda>_ _. 0)" for i
    by (intro changes_step changes_weaken [OF changes_inode(1)] changes_weaken [OF changes_still(3)], simp)+
  have main: "triple (held E G A) (filewrite_from f i cp k m) (\<lambda>_. held E G A)" for f i k m
  proof (induction "m - k" arbitrary: k rule: less_induct)
    case less
    show ?case
      unfolding filewrite_from.simps [of f i cp k m] Let_def
      apply (intro triple_if triple_then [OF held_still [OF ch(1)]] triple_gets triple_ret)
       apply (rule triple_pre [OF triple_then [OF held_still [OF changes_inode(6)]]])
        apply (intro triple_then [OF held_off] triple_then [OF held_still [OF ch(2)]] triple_if triple_ret)
         apply (auto intro: less)
      done
  qed
  show ?thesis
    unfolding sys_write_def filewrite_def
    apply (rule held_on_fd, rule triple_ret, simp, rule triple_gets, rule triple_if, rule triple_ret, simp)
    subgoal for f x
      by (cases "of_type x"; simp only: ftype.case;
          (intro triple_if triple_ret triple_panic triple_pre [OF triple_then [OF main triple_ret]])?; simp)
    done
qed

section \<open>Calls on paths\<close>

lemma held_link: "triple (held E G A) (fs_do (sys_link old new)) (\<lambda>_. held E G A)"
  "triple (held E G A) (fs_do (sys_unlink p)) (\<lambda>_. held E G A)"
  "triple (held E G A) (fs_do (sys_mkdir p)) (\<lambda>_. held E G A)"
  "triple (held E G A) (fs_do (sys_mknod p major minor)) (\<lambda>_. held E G A)"
  unfolding sys_mkdir_def sys_mknod_def
  by (rule held_still, rule changes_sys_link changes_sys_unlink changes_make_inode)+

lemma held_chdir: "triple (held E G A) (fs_do (sys_chdir p)) (\<lambda>_. held E G A)"
proof (rule tripleI)
  fix s x s' assume h: "held E G A s" and r: "fs_do (sys_chdir p) s = Ret (x, s')"
  obtain fs where m: "sys_chdir p (os_fs s) = Ret (x, fs)" and s': "s' = s\<lparr>os_fs := fs\<rparr>"
    using r by (auto simp: fs_do_def elim!: bind_RetE)
  have b: "length (f_itable fs) = length (f_itable (os_fs s))"
    "j < length (f_itable (os_fs s)) \<Longrightarrow> i_ref (slot_of j fs) - at (f_cwd fs) j = i_ref (slot_of j (os_fs s)) - at (f_cwd (os_fs s)) j" for j
    using balanced_chdir [of p] m unfolding balanced_def by fastforce+
  have "inodes_held E s'"
    unfolding inodes_held_def
  proof (intro allI impI)
    fix j assume "j < length (f_itable (os_fs s'))"
    then have "j < length (f_itable (os_fs s))" using b(1) by (simp add: s')
    with heldD(1) [OF h] b(2) [of j]
    show "i_ref (slot_of j (os_fs s')) = cnt (inode_file j) (os_files s') + at (f_cwd (os_fs s')) j + E j"
      by (simp add: s' inodes_held_def)
  qed
  then show "held E G A s'"
    using heldD(2-4) [OF h] by (intro heldI) (simp_all add: s')
qed

text \<open>A new file gets the reference to its inode.\<close>

lemma held_set_inode:
  assumes f: "f \<in> A" and g: "\<And>x. of_ref (g x) = of_ref x" "\<And>x. of_type (g x) = FD_INODE \<or> of_type (g x) = FD_DEVICE" "\<And>x. of_ip (g x) = ip"
  shows "triple (held (\<lambda>j. E j + at ip j) G A) (set_file f g) (\<lambda>_. held E G (A - {f}))"
proof (rule tripleI)
  fix s x s' assume h: "held (\<lambda>j. E j + at ip j) G A s" and r: "set_file f g s = Ret (x, s')"
  have s': "s' = s\<lparr>os_files := (os_files s)[f := g (os_files s ! f)]\<rparr>" using r by (simp add: set_file_Ret)
  note L = heldD(2) [OF h, unfolded files_held_def]
  have F: "f < NFILE" "of_ref (os_files s ! f) = 1" "of_type (os_files s ! f) = FD_NONE"
    using heldD(3) [OF h] f by (auto simp: untyped_def)
  have fl: "f < length (os_files s)" using F L by simp
  have old: "inode_file j (os_files s ! f) = False" "pipe_end pi w (os_files s ! f) = False" for j pi w
    using F by (simp_all add: inode_file_def pipe_end_def)
  have new: "inode_file j (g (os_files s ! f)) \<longleftrightarrow> j = ip" "pipe_end pi w (g (os_files s ! f)) = False" for j pi w
    using g(2) [of "os_files s ! f"] g(3) [of "os_files s ! f"] by (auto simp: inode_file_def pipe_end_def)
  show "held E G (A - {f}) s'"
  proof (rule heldI)
    show "inodes_held E s'"
      using heldD(1) [OF h] by (simp add: s' inodes_held_def cnt_update [OF fl] old new) (simp add: at_def)
    show "files_held G s'" using L F g(1) by (auto simp: s' files_held_def nth_list_update)
    show "untyped (A - {f}) s'" using heldD(3) [OF h] by (simp add: s' untyped_def)
    show "pipes_held s'" using heldD(4) [OF h] by (simp add: s' pipes_held_def cnt_update [OF fl] old new)
  qed
qed

lemma held_open: "triple (held E G {}) (sys_open p omode) (\<lambda>_. held E G {})"
proof (cases p)
  case None
  then show ?thesis unfolding sys_open_def by (simp add: triple_ret)
next
  case (Some pth)
  have op: "changes (andthen fs_begin_op (\<lambda>_. open_inode pth omode)) got"
    by (intro changes_step changes_weaken [OF changes_open_inode]) simp
  have put: "changes (andthen (iunlockput ip) (\<lambda>_. fs_end_op)) (\<lambda>_ j. - at ip j)" for ip
    by (intro changes_step changes_weaken [OF changes_still(3)]) simp
  have give: "triple (held (\<lambda>j. E j + at ip j) G {}) (othen (fs_do (andthen (iunlockput ip) (\<lambda>_. fs_end_op))) (\<lambda>_. oret (-1 :: int))) (\<lambda>_. held E G {})" for ip
    by (rule triple_then [OF held_fs [OF put]], rule triple_ret) simp
  have trunc: "changes (andthen (if b then itrunc ip else ret ()) (\<lambda>_. andthen (iunlock (Some ip)) (\<lambda>_. fs_end_op))) (\<lambda>_ _. 0)" for b ip
  proof -
    have "changes (if b then itrunc ip else ret ()) (\<lambda>_ _. 0)" by (intro changes_if changes_inode changes_ret) simp
    then show ?thesis by (rule changes_then) (intro changes_step changes_weaken [OF changes_still(3)], simp)
  qed
  have fill: "triple (held (\<lambda>j. E j + at ip j) G {f}) (othen (ogets k) (\<lambda>di.
      othen (set_file f (\<lambda>x. (if di_type di = T_DEVICE then x\<lparr>of_type := FD_DEVICE, of_major := di_major di\<rparr>
                             else x\<lparr>of_type := FD_INODE, of_off := 0\<rparr>)
                             \<lparr>of_ip := ip, of_readable := omode AND O_WRONLY = 0,
                              of_writable := omode AND O_WRONLY \<noteq> 0 \<or> omode AND O_RDWR \<noteq> 0\<rparr>)) (\<lambda>_.
      othen (fs_do (andthen (if omode AND O_TRUNC \<noteq> 0 \<and> di_type di = T_FILE then itrunc ip else ret ()) (\<lambda>_.
               andthen (iunlock (Some ip)) (\<lambda>_. fs_end_op)))) (\<lambda>_. oret fd)))) (\<lambda>_. held E G {})" for ip f fd k
    apply (rule triple_gets, rule triple_pre [where P' = "held (\<lambda>j. E j + at ip j) G {f}"])
     apply (rule triple_then [OF held_set_inode [where ip = ip]])
        apply (simp_all)[4]
     apply (rule triple_then [OF held_still [OF trunc]], rule triple_ret)
     apply simp_all
    done
  have fds: "triple (\<lambda>s. if fd < 0 then held (\<lambda>j. E j + at ip j) (\<lambda>k. G k + at f k) {f} s
      else fd < int NOFILE \<and> os_ofile s ! nat fd = Some f \<and> held (\<lambda>j. E j + at ip j) (\<lambda>k. G k + at f k - at f k) {f} s)
     (if fd < 0 then othen (fileclose f) (\<lambda>_. othen (fs_do (andthen (iunlockput ip) (\<lambda>_. fs_end_op))) (\<lambda>_. oret (-1))) else m fd) (\<lambda>_. held E G {})"
    if "f < NFILE" "\<And>fd. triple (held (\<lambda>j. E j + at ip j) G {f}) (m fd) (\<lambda>_. held E G {})" for fd f ip and m :: "int \<Rightarrow> int osm"
  proof (rule triple_if)
    assume "fd < 0"
    show "triple (\<lambda>s. if fd < 0 then held (\<lambda>j. E j + at ip j) (\<lambda>k. G k + at f k) {f} s
      else fd < int NOFILE \<and> os_ofile s ! nat fd = Some f \<and> held (\<lambda>j. E j + at ip j) (\<lambda>k. G k + at f k - at f k) {f} s)
      (othen (fileclose f) (\<lambda>_. othen (fs_do (andthen (iunlockput ip) (\<lambda>_. fs_end_op))) (\<lambda>_. oret (-1 :: int)))) (\<lambda>_. held E G {})"
      apply (rule triple_pre [OF triple_then [OF held_fileclose [of "\<lambda>j. E j + at ip j" "\<lambda>k. G k + at f k" "{f}" f]]])
       apply (rule triple_pre [OF give [of ip]], simp)
      apply (simp add: \<open>fd < 0\<close> that(1))
      done
  qed (rule triple_pre [OF that(2)], simp)
  show ?thesis
    unfolding sys_open_def Some option.case
    apply (rule triple_then [OF held_fs [OF op]], rule triple_option)
     apply (simp, rule triple_then [OF held_still [OF changes_still(3)]], rule triple_ret, simp)
    apply (rule triple_pre [OF triple_then [OF held_filealloc]], rule triple_option)
      apply (simp, rule give)
     defer
     apply simp
    subgoal for q ip r f
      apply (rule triple_pre [where P' = "\<lambda>s. held (\<lambda>j. E j + at ip j) (\<lambda>k. G k + at f k) {f} s \<and> f < NFILE"])
       apply (rule triple_and, rule triple_then [OF held_fdalloc fds [OF _ fill]], assumption+)
      apply (auto simp: held_def untyped_def)
      done
    done
qed

section \<open>Pipes\<close>

lemma held_filealloc_pipes:
  "triple (\<lambda>s. held E G A s \<and> os_pipes s = P) filealloc (\<lambda>p s. os_pipes s = P \<and> (case p of None \<Rightarrow> held E G A s
     | Some f \<Rightarrow> f \<notin> A \<and> f < NFILE \<and> held E (\<lambda>k. G k + at f k) (insert f A) s))"
proof (rule tripleI)
  fix s p s' assume h: "held E G A s \<and> os_pipes s = P" and r: "filealloc s = Ret (p, s')"
  have "os_pipes s' = os_pipes s"
    using r by (auto simp: filealloc_def oret_def set_file_Ret elim!: othen_RetE split: option.splits)
  moreover have "f < NFILE" if "held E (\<lambda>k. G k + at f k) (insert f A) s'" for f
    using heldD(3) [OF that] by (simp add: untyped_def)
  ultimately show "os_pipes s' = P \<and> (case p of None \<Rightarrow> held E G A s'
     | Some f \<Rightarrow> f \<notin> A \<and> f < NFILE \<and> held E (\<lambda>k. G k + at f k) (insert f A) s')"
    using tripleD [OF held_filealloc conjunct1 [OF h] r] h by (simp split: option.splits)
qed

text \<open>The two files of a new pipe.\<close>

lemma held_new_pipe:
  assumes h: "held E G {f1, f0} s" and ne: "f1 \<noteq> f0" and fresh: "os_pipes s pi = None"
    and s': "s' = s\<lparr>os_pipes := (os_pipes s)(pi \<mapsto> pipealloc junk),
       os_files := (os_files s)[f0 := (os_files s ! f0)\<lparr>of_type := FD_PIPE, of_readable := True, of_writable := False, of_pipe := pi\<rparr>,
                                f1 := (os_files s ! f1)\<lparr>of_type := FD_PIPE, of_readable := False, of_writable := True, of_pipe := pi\<rparr>]\<rparr>"
  shows "held E G {} s'"
proof (rule heldI)
  note L = heldD(2) [OF h, unfolded files_held_def] and P = heldD(4) [OF h, unfolded pipes_held_def, rule_format]
  have F: "f < NFILE" "of_ref (os_files s ! f) = 1" "of_type (os_files s ! f) = FD_NONE" if "f = f0 \<or> f = f1" for f
    using heldD(3) [OF h] that by (auto simp: untyped_def)
  have fl: "f0 < length (os_files s)" "f1 < length (os_files s)" using F(1) L by simp_all
  have c: "cnt Q (os_files s') = cnt Q (os_files s)
      - of_bool (Q (os_files s ! f0)) + of_bool (Q ((os_files s ! f0)\<lparr>of_type := FD_PIPE, of_readable := True, of_writable := False, of_pipe := pi\<rparr>))
      - of_bool (Q (os_files s ! f1)) + of_bool (Q ((os_files s ! f1)\<lparr>of_type := FD_PIPE, of_readable := False, of_writable := True, of_pipe := pi\<rparr>))" for Q
    using fl ne by (simp add: s' cnt_update)
  have i: "cnt (inode_file j) (os_files s') = cnt (inode_file j) (os_files s)" for j
    unfolding c using F(3) by (simp add: inode_file_def)
  have e: "cnt (pipe_end q w) (os_files s') = cnt (pipe_end q w) (os_files s) + of_bool (q = pi)" for q w
    unfolding c using F(3) by (cases w) (auto simp: pipe_end_def)
  show "inodes_held E s'" using heldD(1) [OF h] unfolding inodes_held_def i by (simp add: s')
  show "files_held G s'" using L F ne by (auto simp: s' files_held_def nth_list_update)
  show "untyped {} s'" by (simp add: untyped_def)
  show "pipes_held s'"
    unfolding pipes_held_def e
  proof (rule allI)
    fix q show "pipe_held (os_pipes s' q) (cnt (pipe_end q False) (os_files s) + of_bool (q = pi)) (cnt (pipe_end q True) (os_files s) + of_bool (q = pi))"
      using P [of q] fresh by (cases "q = pi") (auto simp: s' pipe_held_def pipealloc_def)
  qed
qed

lemma held_pipealloc:
  "triple (\<lambda>s. held E G {} s \<and> (\<forall>pi junk. page = Some (pi, junk) \<longrightarrow> os_pipes s pi = None)) (pipealloc_files page)
     (\<lambda>p s. case p of None \<Rightarrow> held E G {} s
      | Some (f0, f1) \<Rightarrow> f0 < NFILE \<and> f1 < NFILE \<and> held E (\<lambda>k. G k + at f0 k + at f1 k) {} s)"
proof (rule tripleI)
  fix s p s'
  assume h: "held E G {} s \<and> (\<forall>pi junk. page = Some (pi, junk) \<longrightarrow> os_pipes s pi = None)" and r: "pipealloc_files page s = Ret (p, s')"
  obtain q0 t where 1: "filealloc s = Ret (q0, t)" and r1: "(case q0 of None \<Rightarrow> oret None
     | Some f0 \<Rightarrow> othen filealloc (\<lambda>q. case q of
         None \<Rightarrow> othen (fileclose f0) (\<lambda>_. oret None)
       | Some f1 \<Rightarrow> (case page of
           None \<Rightarrow> othen (fileclose f0) (\<lambda>_. othen (fileclose f1) (\<lambda>_. oret None))
         | Some (pi, junk) \<Rightarrow>
             othen (omod (\<lambda>s. s\<lparr>os_pipes := (os_pipes s)(pi \<mapsto> pipealloc junk)\<rparr>)) (\<lambda>_.
             othen (set_file f0 (\<lambda>x. x\<lparr>of_type := FD_PIPE, of_readable := True, of_writable := False, of_pipe := pi\<rparr>)) (\<lambda>_.
             othen (set_file f1 (\<lambda>x. x\<lparr>of_type := FD_PIPE, of_readable := False, of_writable := True, of_pipe := pi\<rparr>)) (\<lambda>_.
               oret (Some (f0, f1)))))))) t = Ret (p, s')"
    using r unfolding pipealloc_files_def by (rule othen_RetE)
  note ht = tripleD [OF held_filealloc_pipes conjI [OF conjunct1 [OF h] refl] 1]
  show "case p of None \<Rightarrow> held E G {} s'
      | Some (f0, f1) \<Rightarrow> f0 < NFILE \<and> f1 < NFILE \<and> held E (\<lambda>k. G k + at f0 k + at f1 k) {} s'"
  proof (cases q0)
    case None
    then show ?thesis using ht r1 by (simp add: oret_def)
  next
    case (Some f0)
    obtain q1 u where 2: "filealloc t = Ret (q1, u)" and r2: "(case q1 of
         None \<Rightarrow> othen (fileclose f0) (\<lambda>_. oret None)
       | Some f1 \<Rightarrow> (case page of
           None \<Rightarrow> othen (fileclose f0) (\<lambda>_. othen (fileclose f1) (\<lambda>_. oret None))
         | Some (pi, junk) \<Rightarrow>
             othen (omod (\<lambda>s. s\<lparr>os_pipes := (os_pipes s)(pi \<mapsto> pipealloc junk)\<rparr>)) (\<lambda>_.
             othen (set_file f0 (\<lambda>x. x\<lparr>of_type := FD_PIPE, of_readable := True, of_writable := False, of_pipe := pi\<rparr>)) (\<lambda>_.
             othen (set_file f1 (\<lambda>x. x\<lparr>of_type := FD_PIPE, of_readable := False, of_writable := True, of_pipe := pi\<rparr>)) (\<lambda>_.
               oret (Some (f0, f1))))))) u = Ret (p, s')"
      using r1 unfolding Some option.case by (rule othen_RetE)
    have t: "os_pipes t = os_pipes s" "f0 < NFILE" "held E (\<lambda>k. G k + at f0 k) {f0} t" using ht Some by simp_all
    note hu = tripleD [OF held_filealloc_pipes conjI [OF t(3) refl] 2]
    have close: "held E (\<lambda>k. G' k - at f k) (A - {f}) v'" if "held E G' A v" "f < NFILE" "fileclose f v = Ret (x, v')" for G' A f v v' x
      using tripleD [OF held_fileclose conjI [OF that(1,2)] that(3)] .
    show ?thesis
    proof (cases q1)
      case None
      then show ?thesis using r2 hu close [of "\<lambda>k. G k + at f0 k" "{f0}" u f0] t(2) by (auto simp: oret_def elim!: othen_RetE)
    next
      case (Some f1)
      have u: "f1 \<noteq> f0" "f1 < NFILE" "os_pipes u = os_pipes s" "held E (\<lambda>k. G k + at f0 k + at f1 k) {f1, f0} u"
        using hu Some t(1) by simp_all
      show ?thesis
      proof (cases page)
        case None
        obtain v where v: "fileclose f0 u = Ret ((), v)" "fileclose f1 v = Ret ((), s')" and p: "p = None"
          using r2 unfolding Some None by (auto simp: oret_def elim!: othen_RetE)
        from close [OF close [OF u(4) t(2) v(1)] u(2) v(2)] show ?thesis using u(1) by (simp add: p insert_Diff_if)
      next
        case pg: (Some a)
        obtain pi junk where a: "a = (pi, junk)" by (cases a)
        have p: "p = Some (f0, f1)" and s': "s' = u\<lparr>os_pipes := (os_pipes u)(pi \<mapsto> pipealloc junk),
       os_files := (os_files u)[f0 := (os_files u ! f0)\<lparr>of_type := FD_PIPE, of_readable := True, of_writable := False, of_pipe := pi\<rparr>,
                                f1 := (os_files u ! f1)\<lparr>of_type := FD_PIPE, of_readable := False, of_writable := True, of_pipe := pi\<rparr>]\<rparr>"
          using r2 u(1) unfolding Some pg a by (auto simp: oret_def omod_def set_file_Ret elim!: othen_RetE)
        have "os_pipes u pi = None" using h pg a u(3) by simp
        from held_new_pipe [OF u(4,1) this s'] show ?thesis using t(2) u(2) by (simp add: p)
      qed
    qed
  qed
qed

lemma fdalloc_keeps:
  assumes "fdalloc f s = Ret (fd, s')" "os_ofile s ! k = Some g"
  shows "os_ofile s' ! k = Some g" "nat fd \<noteq> k \<or> fd < 0"
proof -
  have "os_ofile s' ! k = Some g \<and> (nat fd \<noteq> k \<or> fd < 0)"
  proof (cases "first_index (\<lambda>p. p = None) (os_ofile s)")
    case (Some d)
    have "os_ofile s ! d = None" using first_index_SomeD [OF Some] by simp
    then have "d \<noteq> k" using assms(2) by auto
    then show ?thesis using assms by (auto simp: fdalloc_def Some oret_def omod_def elim!: othen_RetE)
  qed (use assms in \<open>auto simp: fdalloc_def oret_def\<close>)
  then show "os_ofile s' ! k = Some g" "nat fd \<noteq> k \<or> fd < 0" by simp_all
qed

lemma held_close_two:
  assumes h: "held E (\<lambda>k. G k + at f0 k + at f1 k) {} s" and f: "f0 < NFILE" "f1 < NFILE"
    and run: "othen (fileclose f0) (\<lambda>_. othen (fileclose f1) (\<lambda>_. oret x)) s = Ret (r, s')"
  shows "held E G {} s'"
proof -
  obtain t where t: "fileclose f0 s = Ret ((), t)" "fileclose f1 t = Ret ((), s')"
    using run by (auto simp: oret_def elim!: othen_RetE)
  have "held E (\<lambda>k. G k + at f1 k) {} t" using tripleD [OF held_fileclose conjI [OF h f(1)] t(1)] by (simp add: algebra_simps)
  from tripleD [OF held_fileclose conjI [OF this f(2)] t(2)] show ?thesis by simp
qed

lemma held_pipe:
  "triple (\<lambda>s. held E G {} s \<and> (\<forall>pi junk. page = Some (pi, junk) \<longrightarrow> os_pipes s pi = None)) (sys_pipe page cp) (\<lambda>_. held E G {})"
proof (rule tripleI)
  fix s r s'
  assume h: "held E G {} s \<and> (\<forall>pi junk. page = Some (pi, junk) \<longrightarrow> os_pipes s pi = None)" and run: "sys_pipe page cp s = Ret (r, s')"
  obtain p t where p: "pipealloc_files page s = Ret (p, t)" and run1: "(case p of
       None \<Rightarrow> oret (-1, None)
     | Some (f0, f1) \<Rightarrow>
         othen (fdalloc f0) (\<lambda>fd0.
         othen (if fd0 < 0 then oret (-1) else fdalloc f1) (\<lambda>fd1.
           if fd0 < 0 \<or> fd1 < 0 then
             othen (if fd0 \<ge> 0 then clear_fd fd0 else oret ()) (\<lambda>_.
             othen (fileclose f0) (\<lambda>_. othen (fileclose f1) (\<lambda>_. oret (-1, None))))
           else if \<not> cp fd0 fd1 then
             othen (clear_fd fd0) (\<lambda>_. othen (clear_fd fd1) (\<lambda>_.
             othen (fileclose f0) (\<lambda>_. othen (fileclose f1) (\<lambda>_. oret (-1, None)))))
           else oret (0, Some (fd0, fd1))))) t = Ret (r, s')"
    using run unfolding sys_pipe_def by (rule othen_RetE)
  note ht = tripleD [OF held_pipealloc h p]
  show "held E G {} s'"
  proof (cases p)
    case None
    then show ?thesis using ht run1 by (simp add: oret_def)
  next
    case (Some a)
    obtain f0 f1 where a: "a = (f0, f1)" by (cases a)
    have f: "f0 < NFILE" "f1 < NFILE" and h0: "held E (\<lambda>k. G k + at f0 k + at f1 k) {} t" using ht Some a by simp_all
    obtain fd0 u fd1 v where fd0: "fdalloc f0 t = Ret (fd0, u)" and fd1: "(if fd0 < 0 then oret (-1) else fdalloc f1) u = Ret (fd1, v)"
      and run2: "(if fd0 < 0 \<or> fd1 < 0 then
             othen (if fd0 \<ge> 0 then clear_fd fd0 else oret ()) (\<lambda>_.
             othen (fileclose f0) (\<lambda>_. othen (fileclose f1) (\<lambda>_. oret (-1, None))))
           else if \<not> cp fd0 fd1 then
             othen (clear_fd fd0) (\<lambda>_. othen (clear_fd fd1) (\<lambda>_.
             othen (fileclose f0) (\<lambda>_. othen (fileclose f1) (\<lambda>_. oret (-1, None)))))
           else oret (0, Some (fd0, fd1))) v = Ret (r, s')"
      using run1 unfolding Some a option.case prod.case by (elim othen_RetE) (rule that)
    note h1 = tripleD [OF held_fdalloc [OF f(1)] h0 fd0]
    show ?thesis
    proof (cases "fd0 < 0")
      case True
      have "v = u" using fd1 True by (simp add: oret_def)
      then have end_run: "othen (fileclose f0) (\<lambda>_. othen (fileclose f1) (\<lambda>_. oret (-1, None))) u = Ret (r, s')"
        using run2 True by (simp add: othen_def oret_def)
      show ?thesis by (rule held_close_two [OF _ f end_run]) (use h1 True in simp)
    next
      case False
      have u: "fd0 < int NOFILE" "os_ofile u ! nat fd0 = Some f0" "held E (\<lambda>k. G k + at f1 k) {} u"
        using h1 False by (simp_all add: algebra_simps)
      have d1: "fdalloc f1 u = Ret (fd1, v)" using fd1 False by simp
      note h2 = tripleD [OF held_fdalloc [OF f(2)] u(3) d1]
      note kept = fdalloc_keeps [OF d1 u(2)]
      have clear: "held E (\<lambda>k. G' k + at g k) {} w'" if "held E G' {} w" "os_ofile w ! nat fd = Some g" "0 \<le> fd" "fd < int NOFILE" "clear_fd fd w = Ret (x, w')"
        for G' g fd w w' x
        using tripleD [OF held_clear_fd [OF that(3,4)] conjI [OF that(1,2)] that(5)] .
      show ?thesis
      proof (cases "fd1 < 0")
        case True
        obtain w where w: "clear_fd fd0 v = Ret ((), w)" and end_run: "othen (fileclose f0) (\<lambda>_. othen (fileclose f1) (\<lambda>_. oret (-1, None))) w = Ret (r, s')"
          by (rule othen_RetE [of "clear_fd fd0" "\<lambda>_. othen (fileclose f0) (\<lambda>_. othen (fileclose f1) (\<lambda>_. oret (-1, None)))" v r s'])
             (use run2 True False in \<open>auto intro: that\<close>)
        have hv: "held E (\<lambda>k. G k + at f1 k) {} v" using h2 True by simp
        have "held E (\<lambda>k. G k + at f1 k + at f0 k) {} w" by (rule clear [OF hv kept(1) _ u(1) w]) (use False in simp)
        then have "held E (\<lambda>k. G k + at f0 k + at f1 k) {} w" by (simp add: algebra_simps)
        from held_close_two [OF this f end_run] show ?thesis .
      next
        case ok: False
        have v: "fd1 < int NOFILE" "os_ofile v ! nat fd1 = Some f1" "held E G {} v" using h2 ok by simp_all
        show ?thesis
        proof (cases "cp fd0 fd1")
          case True
          then show ?thesis using run2 False ok v by (simp add: oret_def)
        next
          case bad: False
          obtain w x where w: "clear_fd fd0 v = Ret ((), w)" and x: "clear_fd fd1 w = Ret ((), x)"
            and end_run: "othen (fileclose f0) (\<lambda>_. othen (fileclose f1) (\<lambda>_. oret (-1, None))) x = Ret (r, s')"
            by (rule othen_RetE [of "clear_fd fd0" "\<lambda>_. othen (clear_fd fd1) (\<lambda>_. othen (fileclose f0) (\<lambda>_. othen (fileclose f1) (\<lambda>_. oret (-1, None))))" v r s'])
               (use run2 bad ok False in \<open>auto elim: othen_RetE intro: that\<close>)
          have hw: "held E (\<lambda>k. G k + at f0 k) {} w" by (rule clear [OF v(3) kept(1) _ u(1) w]) (use False in simp)
          have "os_ofile w ! nat fd1 = Some f1" using w v(2) kept(2) ok by (auto simp: clear_fd_def omod_def nth_list_update)
          from clear [OF hw this _ v(1) x] ok have "held E (\<lambda>k. G k + at f0 k + at f1 k) {} x" by simp
          from held_close_two [OF this f end_run] show ?thesis .
        qed
      qed
    qed
  qed
qed

end
