(* ===== verification/Sysfile_Theorems.thy ===== *)
theory Sysfile_Theorems
  imports Sysfile_Files
begin

text \<open>
  The system calls on files as steps of a machine: every way they return leaves the counters of inodes, of open
  files and the ends of pipes exact. No call leaks a reference on an error path, and none gives back too many.
\<close>

section \<open>The calls as steps\<close>

text \<open>
  A call that returns, with any arguments and any result; the page of a new pipe is one that no pipe has. Reading
  and writing a pipe leave its two flags alone.
\<close>

inductive file_call :: "osys \<Rightarrow> osys \<Rightarrow> bool" where
  call_dup: "sys_dup fd s = Ret (r, s') \<Longrightarrow> file_call s s'"
| call_close: "sys_close fd s = Ret (r, s') \<Longrightarrow> file_call s s'"
| call_read: "sys_read drivers fd cp n s = Ret (rd, s') \<Longrightarrow> file_call s s'"
| call_write: "sys_write drivers fd cp' n s = Ret (wr, s') \<Longrightarrow> file_call s s'"
| call_fstat: "sys_fstat fd cs s = Ret (st, s') \<Longrightarrow> file_call s s'"
| call_link: "fs_do (sys_link old new) s = Ret (r, s') \<Longrightarrow> file_call s s'"
| call_unlink: "fs_do (sys_unlink p) s = Ret (r, s') \<Longrightarrow> file_call s s'"
| call_mkdir: "fs_do (sys_mkdir p) s = Ret (r, s') \<Longrightarrow> file_call s s'"
| call_mknod: "fs_do (sys_mknod p major minor) s = Ret (r, s') \<Longrightarrow> file_call s s'"
| call_chdir: "fs_do (sys_chdir p) s = Ret (r, s') \<Longrightarrow> file_call s s'"
| call_open: "sys_open p omode s = Ret (r, s') \<Longrightarrow> file_call s s'"
| call_pipe: "(\<And>pi junk. page = Some (pi, junk) \<Longrightarrow> os_pipes s pi = None) \<Longrightarrow> sys_pipe page cd s = Ret (rp, s') \<Longrightarrow> file_call s s'"
| pipe_io: "os_pipes s pi = Some q \<Longrightarrow> pi_readopen q' = pi_readopen q \<Longrightarrow> pi_writeopen q' = pi_writeopen q
     \<Longrightarrow> file_call s (s\<lparr>os_pipes := (os_pipes s)(pi \<mapsto> q')\<rparr>)"

lemma held_pipe_io:
  assumes "held E G {} s" "os_pipes s pi = Some q" "pi_readopen q' = pi_readopen q" "pi_writeopen q' = pi_writeopen q"
  shows "held E G {} (s\<lparr>os_pipes := (os_pipes s)(pi \<mapsto> q')\<rparr>)"
proof (rule heldI)
  show "pipes_held (s\<lparr>os_pipes := (os_pipes s)(pi \<mapsto> q')\<rparr>)"
    unfolding pipes_held_def
  proof
    fix k show "pipe_held (os_pipes (s\<lparr>os_pipes := (os_pipes s)(pi \<mapsto> q')\<rparr>) k) (cnt (pipe_end k False) (os_files (s\<lparr>os_pipes := (os_pipes s)(pi \<mapsto> q')\<rparr>)))
      (cnt (pipe_end k True) (os_files (s\<lparr>os_pipes := (os_pipes s)(pi \<mapsto> q')\<rparr>)))"
      using heldD(4) [OF assms(1), unfolded pipes_held_def, rule_format, of k] assms(2-4) by (cases "k = pi") (simp_all add: pipe_held_def)
  qed
qed (use heldD(1-3) [OF assms(1)] in \<open>simp_all add: inodes_held_def files_held_def untyped_def\<close>)

lemma file_call_held: "file_call s s' \<Longrightarrow> held E G {} s \<Longrightarrow> held E G {} s'"
proof (induction rule: file_call.induct)
  case (call_pipe page s cd rp s')
  then show ?case using tripleD [OF held_pipe _ call_pipe.hyps(2)] by blast
next
  case (pipe_io s pi q q')
  then show ?case by (intro held_pipe_io)
qed (auto intro: tripleD [OF held_dup] tripleD [OF held_close] tripleD [OF held_read] tripleD [OF held_write] tripleD [OF held_fstat]
  tripleD [OF held_link(1)] tripleD [OF held_link(2)] tripleD [OF held_link(3)] tripleD [OF held_link(4)] tripleD [OF held_chdir] tripleD [OF held_open])

interpretation files: invariant_system "held E G {}" file_call "held E G {}" for E G
  by unfold_locales (auto intro: file_call_held)

text \<open>
  C5: Whatever sequence of calls returns, with whatever results, the counter of every inode in memory is the number
  of open files on it, plus the working directory, plus what others hold (\<open>E\<close>); the counter of every
  open file is the number of descriptors of it plus what others hold (\<open>G\<close>), and an unused one has no type; a
  pipe has its page exactly while one of its ends is open, and an end is open exactly while there is a file for it.
\<close>

theorem calls_keep_references:
  assumes "file_call\<^sup>*\<^sup>* s t" "held E G {} s"
  shows "held E G {} t"
  using assms by (rule files.run_inv)

text \<open>A first process: no open file, the root directory in the first slot of the table of inodes.\<close>

definition first_files :: osys where
  "first_files =
     (let root = \<lparr>i_dev = 1, i_inum = 1, i_ref = 1, i_lock = initsleeplock, i_valid = False, i_copy = zero_dinode\<rparr>;
          unused = \<lparr>of_type = FD_NONE, of_ref = 0, of_readable = False, of_writable = False, of_pipe = 0, of_ip = 0, of_off = 0, of_major = 0\<rparr>
      in \<lparr>os_fs = in_tx small_sb (root # replicate 49 (root\<lparr>i_ref := 0\<rparr>)) small_disk, os_files = replicate NFILE unused,
          os_pipes = Map.empty, os_ofile = replicate NOFILE None\<rparr>)"

lemma held_first: "held (\<lambda>_. 0) (\<lambda>_. 0) {} first_files"
proof -
  have "inodes_held (\<lambda>_. 0) first_files"
    by (simp add: inodes_held_def first_files_def in_tx_def Let_def slot_of_def nth_Cons' at_def cnt_def inode_file_def)
  moreover have "files_held (\<lambda>_. 0) first_files"
    by (simp add: files_held_def first_files_def Let_def cnt_def)
  moreover have "pipes_held first_files"
    by (simp add: pipes_held_def pipe_held_def first_files_def Let_def cnt_def pipe_end_def)
  ultimately show ?thesis by (intro heldI) (simp_all add: untyped_def)
qed

text \<open>The first two files of a pipe get the descriptors 0 and 1.\<close>

lemma first_pipe: "\<exists>s. sys_pipe (Some (5, [])) (\<lambda>_ _. True) first_files = Ret ((0, Some (0, 1)), s) \<and> os_pipes s 5 = Some (pipealloc [])
   \<and> os_ofile s = Some 0 # Some 1 # replicate 14 None"
  by (simp add: first_files_def Let_def sys_pipe_def pipealloc_files_def filealloc_def othen_def oret_def set_file_def omod_def
      fdalloc_def eval_nat_numeral)

theorem calls_keep_references_witness:
  "\<exists>s. sys_pipe (Some (5, [])) (\<lambda>_ _. True) first_files = Ret ((0, Some (0, 1)), s) \<and> held (\<lambda>_. 0) (\<lambda>_. 0) {} s"
proof -
  obtain s where s: "sys_pipe (Some (5, [])) (\<lambda>_ _. True) first_files = Ret ((0, Some (0, 1)), s)" using first_pipe by blast
  have "file_call first_files s" by (rule call_pipe [OF _ s]) (simp add: first_files_def Let_def)
  then have "file_call\<^sup>*\<^sup>* first_files s" by (rule r_into_rtranclp)
  from calls_keep_references [OF this held_first] s show ?thesis by blast
qed

section \<open>Duplicating a descriptor\<close>

text \<open>
  \<open>sys_dup\<close> never panics and never sleeps: it gives the lowest free descriptor to the same open file and counts
  it, and gives \<open>-1\<close> with nothing changed when the descriptor is not open or the sixteen are in use.
\<close>

theorem dup_lowest:
  assumes "held E G {} s" "\<And>f. G f \<ge> 0"
  shows "sys_dup fd s =
    (if 0 \<le> fd \<and> fd < int NOFILE then
       (case (os_ofile s ! nat fd, first_index (\<lambda>p. p = None) (os_ofile s)) of
          (Some f, Some d) \<Rightarrow> Ret (int d, s\<lparr>os_ofile := (os_ofile s)[d := Some f],
             os_files := (os_files s)[f := (os_files s ! f)\<lparr>of_ref := of_ref (os_files s ! f) + 1\<rparr>]\<rparr>)
        | _ \<Rightarrow> Ret (-1, s))
     else Ret (-1, s))"
proof (cases "0 \<le> fd \<and> fd < int NOFILE")
  case True
  show ?thesis
  proof (cases "os_ofile s ! nat fd")
    case None
    then show ?thesis using True by (simp add: sys_dup_def argfd_def othen_def ogets_def oret_def)
  next
    case (Some f)
    have L: "length (os_ofile s) = NOFILE" "f < NFILE" "of_ref (os_files s ! f) = cnt (\<lambda>p. p = Some f) (os_ofile s) + G f"
      using heldD(2) [OF assms(1)] True Some nth_mem [of "nat fd" "os_ofile s"] by (auto simp: files_held_def)
    have "cnt (\<lambda>p. p = Some f) (os_ofile s) > 0"
      by (rule cnt_member [OF nth_mem [of "nat fd"]]) (use True L(1) Some in auto)
    then have ref: "\<not> of_ref (os_files s ! f) < 1" using assms(2) [of f] L(3) by simp
    show ?thesis
      using True Some ref
      by (cases "first_index (\<lambda>p. p = None) (os_ofile s)")
         (simp_all add: sys_dup_def argfd_def othen_def ogets_def oret_def fdalloc_def omod_def filedup_def set_file_def)
  qed
qed (auto simp: sys_dup_def argfd_def othen_def ogets_def oret_def)

text \<open>A process with the pipe open.\<close>

theorem dup_lowest_witness:
  "\<exists>s s'. sys_pipe (Some (5, [])) (\<lambda>_ _. True) first_files = Ret ((0, Some (0, 1)), s) \<and> sys_dup 1 s = Ret (2, s')"
proof -
  obtain s where s: "sys_pipe (Some (5, [])) (\<lambda>_ _. True) first_files = Ret ((0, Some (0, 1)), s)"
    and fds: "os_ofile s = Some 0 # Some 1 # replicate 14 None" using first_pipe by blast
  have "file_call first_files s" by (rule call_pipe [OF _ s]) (simp add: first_files_def Let_def)
  from file_call_held [OF this held_first] have "held (\<lambda>_. 0) (\<lambda>_. 0) {} s" .
  from dup_lowest [OF this, of 1] s show ?thesis by (simp add: fds eval_nat_numeral)
qed

end
