(* ===== verification/Vm_Fork.thy ===== *)
theory Vm_Fork
  imports Vm_User
begin

text \<open>
  \<open>uvmcopy\<close> of \<open>kernel/vm.c\<close>, with which \<open>kfork\<close> gives a child its memory: the child sees what the parent
  sees, in pages of its own, and a copy that fails half way leaves the child as empty as it was and loses no page.
\<close>

section \<open>Another address space\<close>

text \<open>The pages of an address space: its tables and its frames.\<close>

definition pages_of :: "phys \<Rightarrow> tables \<Rightarrow> nat set" where
  "pages_of m tab = ran tab \<union> frames m tab 0 user_top"

text \<open>Memory changes in free pages and in pages of another address space.\<close>

lemma other_space:
  assumes ok: "space_ok end k fl old" and inv: "kmem_inv end k' fl'" and out: "same_outside A (km_mem k) (km_mem k')"
    and A: "\<forall>p \<in> A. p mod PGSIZE = 0" "A \<inter> pages_of (km_mem k) old = {}" "set fl' \<inter> pages_of (km_mem k) old = {}"
  shows "space_ok end k' fl' old" "lookup (km_mem k') old w = lookup (km_mem k) old w"
    "user_mem (km_mem k') old = user_mem (km_mem k) old" "pages_of (km_mem k') old = pages_of (km_mem k) old"
    "valid (km_mem k) old a \<Longrightarrow> a < user_top \<Longrightarrow> x < PGSIZE \<Longrightarrow> km_mem k' (frame (km_mem k) old a + x) = km_mem k (frame (km_mem k) old a + x)"
proof -
  have r: "A \<inter> ran old = {}" "set fl' \<inter> ran old = {}" using A(2,3) by (auto simp: pages_of_def)
  note same = other_memory [OF space_okD(1) [OF ok] out A(1) r(1)]
  show l: "lookup (km_mem k') old w = lookup (km_mem k) old w" for w by (rule same(2))
  have vm: "vm_ok end k' fl' old" using inv same(1) r(2) space_okD(1) [OF ok] by (auto simp: vm_ok_def)
  show "space_ok end k' fl' old"
    by (rule space_ok_cong(1) [OF ok vm l]) (use A(3) space_okD(3) [OF ok] in \<open>auto simp: pages_of_def\<close>)
  have "frames (km_mem k') old 0 user_top = frames (km_mem k) old 0 user_top" by (rule vpages_cong(2)) (rule l)
  then show "pages_of (km_mem k') old = pages_of (km_mem k) old" by (simp add: pages_of_def)
  show byte: "km_mem k' (frame (km_mem k) old a + x) = km_mem k (frame (km_mem k) old a + x)"
    if "valid (km_mem k) old a" "a < user_top" "x < PGSIZE" for a x
  proof (rule byte_kept [OF out A(1) _ _ that(3)])
    note fr = frame_in [OF that(2,1)]
    show "frame (km_mem k) old a mod PGSIZE = 0" using space_okD(3) [OF ok fr] page_aligned by blast
    show "frame (km_mem k) old a \<notin> A" using A(2) fr by (auto simp: pages_of_def)
  qed
  show "user_mem (km_mem k') old = user_mem (km_mem k) old"
  proof (rule ext)
    fix va show "user_mem (km_mem k') old va = user_mem (km_mem k) old va"
      using byte [of va "va mod PGSIZE"] l [of va] by (simp add: user_mem_def valid_def frame_def)
  qed
qed

section \<open>The loop\<close>

text \<open>What has been done when the loop has reached \<open>i\<close>; the states with index 0 are those at the start.\<close>

definition copied :: "kmem \<Rightarrow> nat list \<Rightarrow> tables \<Rightarrow> tables \<Rightarrow> nat \<Rightarrow> kmem \<Rightarrow> nat list \<Rightarrow> tables \<Rightarrow> bool" where
  "copied k0 fl0 tab0 old i k fl tab \<longleftrightarrow> tab0 \<subseteq>\<^sub>m tab
     \<and> (\<forall>va < i. user_mem (km_mem k) tab va = user_mem (km_mem k0) old va)
     \<and> (\<forall>w. i \<le> w \<and> w < MAXVA \<longrightarrow> lookup (km_mem k) tab w = lookup (km_mem k0) tab0 w)
     \<and> set fl0 = set fl \<union> frames (km_mem k) tab 0 i \<union> (ran tab - ran tab0)
     \<and> same_outside (ran tab0 \<union> set fl0) (km_mem k0) (km_mem k)"

text \<open>And what holds when the copy was given up: nothing is mapped below \<open>b\<close>.\<close>

definition uncopied :: "kmem \<Rightarrow> nat list \<Rightarrow> tables \<Rightarrow> nat \<Rightarrow> kmem \<Rightarrow> nat list \<Rightarrow> tables \<Rightarrow> bool" where
  "uncopied k0 fl0 tab0 b k fl tab \<longleftrightarrow> tab0 \<subseteq>\<^sub>m tab
     \<and> (\<forall>w < MAXVA. if w < b then \<not> valid (km_mem k) tab w else lookup (km_mem k) tab w = lookup (km_mem k0) tab0 w)
     \<and> set fl0 = set fl \<union> (ran tab - ran tab0) \<and> same_outside (ran tab0 \<union> set fl0) (km_mem k0) (km_mem k)"

lemma copied_start: "copied k fl tab old 0 k fl tab"
  by (simp add: copied_def frames_empty)

lemma no_page_here:
  assumes "i mod PGSIZE = 0" "\<not> valid m tab i"
  shows "frames m tab 0 (i + PGSIZE) = frames m tab 0 i"
proof -
  have "w \<in> vpages m tab 0 (i + PGSIZE) \<longleftrightarrow> w \<in> vpages m tab 0 i" for w
    using next_multiple [OF assms(1), of w] assms(2) unfolding vpages_def by (cases w i rule: linorder_cases) auto
  then have "vpages m tab 0 (i + PGSIZE) = vpages m tab 0 i" by blast
  then show ?thesis by (simp add: frames_def)
qed

lemma page_here:
  assumes "i mod PGSIZE = 0" "valid m tab i"
  shows "frames m tab 0 (i + PGSIZE) = insert (frame m tab i) (frames m tab 0 i)"
proof -
  have "w \<in> vpages m tab 0 (i + PGSIZE) \<longleftrightarrow> w \<in> insert i (vpages m tab 0 i)" for w
    using next_multiple [OF assms(1), of w] assms unfolding vpages_def insert_iff mem_Collect_eq by (cases w i rule: linorder_cases) auto
  then have "vpages m tab 0 (i + PGSIZE) = insert i (vpages m tab 0 i)" by blast
  then show ?thesis by (simp add: frames_def)
qed

lemma lookup_in_page: "i mod PGSIZE = 0 \<Longrightarrow> i \<le> w \<Longrightarrow> w < i + PGSIZE \<Longrightarrow> i + PGSIZE \<le> MAXVA \<Longrightarrow> lookup m tab w = lookup m tab i"
  using page_index [of i w] by (intro lookup_page) auto

lemma copied_skip:
  assumes c: "copied k0 fl0 tab0 old i k fl tab" and i: "i mod PGSIZE = 0" "i + PGSIZE \<le> user_top"
    and none: "\<not> valid (km_mem k0) old i" "\<not> valid (km_mem k0) tab0 i"
  shows "copied k0 fl0 tab0 old (i + PGSIZE) k fl tab"
proof -
  have l: "lookup (km_mem k) tab i = lookup (km_mem k0) tab0 i" using c i(2) by (simp add: copied_def)
  have nv: "\<not> valid (km_mem k) tab i" using none(2) l by (simp add: valid_def)
  have "user_mem (km_mem k) tab va = user_mem (km_mem k0) old va" if "va < i + PGSIZE" for va
  proof (cases "va < i")
    case False
    then have "lookup (km_mem k) tab va = lookup (km_mem k) tab i" "lookup (km_mem k0) old va = lookup (km_mem k0) old i"
      using that i by (intro lookup_in_page; simp)+
    then show ?thesis using nv none(1) by (simp add: user_mem_def valid_def)
  qed (use c in \<open>simp add: copied_def\<close>)
  then show ?thesis using c unfolding copied_def no_page_here [OF i(1) nv] by auto
qed

lemma copied_add:
  assumes c: "copied k0 fl0 tab0 old i k fl tab" and i: "i mod PGSIZE = 0" "i + PGSIZE \<le> user_top"
    and ok: "space_ok end k fl tab" and a: "page_added end k fl tab m i p perm k' fl' tab'"
    and m: "same_outside {p} (km_mem k) m" and p: "page_ok end p" "perm < 1024"
    and old: "valid (km_mem k0) old i" and bytes: "\<forall>x < PGSIZE. m (p + x) = km_mem k0 (frame (km_mem k0) old i + x)"
  shows "copied k0 fl0 tab0 old (i + PGSIZE) k' fl' tab'"
proof -
  have itop: "i < user_top" using i(2) by simp
  note A = added_facts [OF a i(1) itop m p] and B = a [unfolded page_added_def] and C = c [unfolded copied_def]
  have sub: "tab \<subseteq>\<^sub>m tab'" using B by blast
  have out: "same_outside (insert p (ran tab')) (km_mem k) (km_mem k')" by (rule same_outside_trans [OF m, of "ran tab'"]) (use B in auto)
  have al: "\<forall>q \<in> insert p (ran tab'). q mod PGSIZE = 0"
    using B vm_okD(3) [OF space_okD(1)] p(1) page_aligned by (fastforce simp: ran_def)
  have mem: "user_mem (km_mem k') tab' va = user_mem (km_mem k0) old va" if va: "va < i + PGSIZE" for va
  proof (cases "va < i")
    case True
    have "user_mem (km_mem k') tab' va = user_mem (km_mem k) tab va"
    proof (rule user_mem_kept [OF ok _ out])
      show "lookup (km_mem k') tab' va = lookup (km_mem k) tab va" if "va < user_top" using B True that by simp
      show "insert p (ran tab') \<subseteq> all_pages fl (km_mem k) tab" using A(4,7) by (auto simp: all_pages_def)
      show "frame (km_mem k) tab va \<notin> insert p (ran tab')" if "va < user_top" "valid (km_mem k) tab va"
        using space_okD(3) [OF ok frame_in [OF that]] A(4) by auto
    qed
    then show ?thesis using C True by simp
  next
    case False
    have l: "lookup (km_mem k') tab' va = lookup (km_mem k') tab' i" "lookup (km_mem k0) old va = lookup (km_mem k0) old i"
      using va False i by (intro lookup_in_page; simp)+
    have x: "va mod PGSIZE < PGSIZE" by simp
    have "km_mem k' (p + va mod PGSIZE) = m (p + va mod PGSIZE)"
    proof (rule byte_kept [OF _ _ page_aligned [OF p(1)] A(6) x])
      show "same_outside (ran tab') m (km_mem k')" using B by blast
    qed (use al in blast)
    also have "\<dots> = km_mem k0 (frame (km_mem k0) old i + va mod PGSIZE)" using bytes x by blast
    finally show ?thesis using A(1-3) old va i(2) l by (simp add: user_mem_def valid_def frame_def)
  qed
  have fr: "frames (km_mem k') tab' 0 i = frames (km_mem k) tab 0 i"
    by (rule vpages_cong(2)) (use B i(2) in auto)
  have f': "frames (km_mem k') tab' 0 (i + PGSIZE) = insert p (frames (km_mem k) tab 0 i)"
    unfolding page_here [OF i(1) A(2)] fr A(3) ..
  have r: "ran tab0 \<subseteq> ran tab" by (rule ran_mono) (use C in blast)
  have fl: "set fl0 = set fl' \<union> frames (km_mem k') tab' 0 (i + PGSIZE) \<union> (ran tab' - ran tab0)"
    unfolding f' using C A(4,7) r by blast
  have "same_outside (ran tab0 \<union> set fl0) (km_mem k0) (km_mem k')"
  proof (rule same_outside_trans [of "ran tab0 \<union> set fl0", OF _ A(8)])
    show "same_outside (ran tab0 \<union> set fl0) (km_mem k0) (km_mem k)" using C by blast
    show "ran tab0 \<union> set fl0 \<union> (ran tab \<union> set fl) \<subseteq> ran tab0 \<union> set fl0" using C by blast
  qed
  moreover have "lookup (km_mem k') tab' w = lookup (km_mem k0) tab0 w" if "i + PGSIZE \<le> w" "w < MAXVA" for w
    using B C that by simp
  ultimately show ?thesis unfolding copied_def using mem fl map_le_trans [of tab0 tab tab'] C sub by blast
qed

text \<open>A page that could not be mapped was given back.\<close>

lemma copied_failed:
  assumes c: "copied k0 fl0 tab0 old i k fl tab" and i: "i < user_top" and ok: "space_ok end k fl tab"
    and look: "\<forall>w < MAXVA. lookup (km_mem k2) tab' w = lookup (km_mem k) tab w"
    and fl: "set fl = set [p] \<union> (ran tab' - ran tab)" and sub: "tab \<subseteq>\<^sub>m tab'" and out: "same_outside (ran tab \<union> set fl) (km_mem k) (km_mem k2)"
  shows "copied k0 fl0 tab0 old i k2 [p] tab'"
proof -
  note C = c [unfolded copied_def]
  have r: "ran tab \<subseteq> ran tab'" "ran tab0 \<subseteq> ran tab" using ran_mono [OF sub] ran_mono C by blast+
  have fr: "frames (km_mem k2) tab' 0 i = frames (km_mem k) tab 0 i"
    by (rule vpages_cong(2)) (use look i in auto)
  have "user_mem (km_mem k2) tab' va = user_mem (km_mem k) tab va" for va
  proof (rule user_mem_kept [OF ok _ out])
    show "ran tab \<union> set fl \<subseteq> all_pages fl (km_mem k) tab" by (auto simp: all_pages_def)
    show "frame (km_mem k) tab va \<notin> ran tab \<union> set fl" if "va < user_top" "valid (km_mem k) tab va"
      using space_okD(3) [OF ok frame_in [OF that]] by blast
  qed (use look in auto)
  moreover have "set fl0 = set [p] \<union> frames (km_mem k2) tab' 0 i \<union> (ran tab' - ran tab0)" unfolding fr using C fl r by blast
  moreover have "same_outside (ran tab0 \<union> set fl0) (km_mem k0) (km_mem k2)"
  proof (rule same_outside_trans [of "ran tab0 \<union> set fl0", OF _ out])
    show "same_outside (ran tab0 \<union> set fl0) (km_mem k0) (km_mem k)" using C by blast
    show "ran tab0 \<union> set fl0 \<union> (ran tab \<union> set fl) \<subseteq> ran tab0 \<union> set fl0" using C by blast
  qed
  moreover have "lookup (km_mem k2) tab' w = lookup (km_mem k0) tab0 w" if "i \<le> w" "w < MAXVA" for w
    using look C that by simp
  ultimately show ?thesis unfolding copied_def using C map_le_trans [OF _ sub, of tab0] by metis
qed

lemma copied_undo:
  assumes c: "copied k0 fl0 tab0 old i k fl tab" and i: "i mod PGSIZE = 0" "i \<le> b" "b \<le> user_top" and ok: "space_ok end k fl tab" and root: "tab [] = Some root"
    and un: "\<forall>w < b. \<not> valid (km_mem k0) tab0 w"
  shows "vruns (vthen (uvmunmap end root 0 (i div PGSIZE) True) (\<lambda>_. vret (-1 :: int))) k
    (\<lambda>r k'. r = -1 \<and> (\<exists>fl' tab'. space_ok end k' fl' tab' \<and> uncopied k0 fl0 tab0 b k' fl' tab'))"
proof -
  note C = c [unfolded copied_def]
  have top: "i \<le> user_top" using i by simp
  have "i div PGSIZE * PGSIZE = i" using i(1) by (simp add: mod_eq_0_iff_dvd)
  then have run: "uvmunmap end root 0 (i div PGSIZE) True = uvmunmap_from end root 0 i True" using top by (simp add: uvmunmap_def)
  show ?thesis
    unfolding vruns_then vruns_ret run
  proof (rule vruns_mono [OF unmap_user [OF ok root _ i(1) top]], goal_cases)
    case (2 u k')
    then obtain fl' where u: "space_ok end k' fl' tab" "set fl' = set fl \<union> frames (km_mem k) tab 0 i" "unmapped_in 0 i k tab k'"
      "same_outside (ran tab \<union> frames (km_mem k) tab 0 i) (km_mem k) (km_mem k')" by auto
    have "\<forall>w < MAXVA. if w < b then \<not> valid (km_mem k') tab w else lookup (km_mem k') tab w = lookup (km_mem k0) tab0 w"
    proof (intro allI impI)
      fix w assume w: "w < MAXVA"
      then have "lookup (km_mem k') tab w = (if w < i \<and> valid (km_mem k) tab w then 0 else lookup (km_mem k) tab w)"
        using u(3) by (simp add: unmapped_in_def)
      moreover have "lookup (km_mem k) tab w = lookup (km_mem k0) tab0 w" if "\<not> w < i" using C w that by simp
      ultimately show "if w < b then \<not> valid (km_mem k') tab w else lookup (km_mem k') tab w = lookup (km_mem k0) tab0 w"
        using un [rule_format, of w] i(2) by (cases "w < i") (auto simp: valid_def has_def)
    qed
    moreover have "set fl0 = set fl' \<union> (ran tab - ran tab0)" using u(2) C by blast
    moreover have "same_outside (ran tab0 \<union> set fl0) (km_mem k0) (km_mem k')"
    proof (rule same_outside_trans [of "ran tab0 \<union> set fl0", OF _ u(4)])
      show "same_outside (ran tab0 \<union> set fl0) (km_mem k0) (km_mem k)" using C by blast
      show "ran tab0 \<union> set fl0 \<union> (ran tab \<union> frames (km_mem k) tab 0 i) \<subseteq> ran tab0 \<union> set fl0" using C by blast
    qed
    ultimately have "uncopied k0 fl0 tab0 b k' fl' tab" using C unfolding uncopied_def by blast
    with u(1) show ?case by blast
  qed simp
qed

lemma store_bytes_at: "length bs = PGSIZE \<Longrightarrow> x < PGSIZE \<Longrightarrow> store_bytes p bs m (p + x) = bs ! x"
  by (simp add: store_bytes_def)

lemma copied_page:
  assumes al: "kalloc k = (p, k1)" "p \<noteq> 0" and ok: "space_ok end k fl tab" and q: "q mod PGSIZE = 0" "q \<noteq> p"
  shows "page_ok end p" "p \<in> set fl" "same_outside {p} (km_mem k) (store_bytes p (load_bytes (km_mem k1) q PGSIZE) (km_mem k1))"
    "\<forall>x < PGSIZE. store_bytes p (load_bytes (km_mem k1) q PGSIZE) (km_mem k1) (p + x) = km_mem k (q + x)"
proof -
  note V = vm_okD(1) [OF space_okD(1) [OF ok]]
  obtain fl1 where fl1: "fl = p # fl1" "km_mem k1 = fill p PGSIZE 5 (km_mem k)" using kalloc_page [OF V al] .
  then show p: "page_ok end p" "p \<in> set fl" using V by (auto simp: kmem_inv_def)
  show "same_outside {p} (km_mem k) (store_bytes p (load_bytes (km_mem k1) q PGSIZE) (km_mem k1))"
    unfolding fl1(2) same_outside_def in_pages_def by (auto simp: fill_def store_bytes_def load_bytes_def)
  have "km_mem k1 (q + x) = km_mem k (q + x)" if "x < PGSIZE" for x
    using page_apart [OF page_aligned [OF p(1)] q(1) q(2) [symmetric], of "q + x"] that by (auto simp: fl1(2) fill_def)
  then show "\<forall>x < PGSIZE. store_bytes p (load_bytes (km_mem k1) q PGSIZE) (km_mem k1) (p + x) = km_mem k (q + x)"
    by (simp add: store_bytes_at load_bytes_def)
qed

lemma flags_less: "PTE_FLAGS e < 1024"
proof -
  have "PTE_FLAGS e = take_bit 10 e" by (simp add: PTE_FLAGS_def take_bit_eq_mask mask_eq_exp_minus_1)
  then show ?thesis by (simp add: take_bit_eq_mod)
qed

lemma walk_other:
  assumes ok: "space_ok end k fl old" and root: "old [] = Some oroot" and i: "i < user_top"
  shows "vruns (vthen (walk oroot i False) (\<lambda>pte. if pte = 0 then m else vthen (v_load pte) (\<lambda>e. if \<not> has e 1 then m else f e))) k Q
    \<longleftrightarrow> vruns (if valid (km_mem k) old i then f (lookup (km_mem k) old i) else m) k Q"
proof -
  have w: "walk oroot i False k = VRet ((case entry_of old i of None \<Rightarrow> 0 | Some a \<Rightarrow> a), k)"
    by (rule walk_find [OF space_okD(1) [OF ok] root]) (use i in simp)
  have n0: "a \<noteq> 0" if "entry_of old i = Some a" for a
    using that vm_okD(3) [OF space_okD(1) [OF ok]] page_ok_bounds by (fastforce simp: entry_of_def)
  show ?thesis
    unfolding vruns_then [of "walk oroot i False"] vruns_VRet [of "walk oroot i False", OF w]
    using n0 by (cases "entry_of old i") (auto simp: valid_def lookup_def has_def vruns_then)
qed

lemma uvmcopy_from_spec:
  assumes ok0: "space_ok end k0 fl0 tab0" and old0: "space_ok end k0 fl0 old" and root0: "tab0 [] = Some root" and oroot: "old [] = Some oroot"
    and apart: "pages_of (km_mem k0) old \<inter> ran tab0 = {}" and b: "b = PGROUNDUP64 sz" "sz \<le> user_top"
    and un: "\<forall>w < b. \<not> valid (km_mem k0) tab0 w"
    and c: "copied k0 fl0 tab0 old i k fl tab" "space_ok end k fl tab" "i mod PGSIZE = 0" "i \<le> b"
  shows "vruns (uvmcopy_from end oroot root i sz) k (\<lambda>r k'. \<exists>fl' tab'. space_ok end k' fl' tab'
     \<and> (r = 0 \<and> copied k0 fl0 tab0 old b k' fl' tab' \<or> r = -1 \<and> uncopied k0 fl0 tab0 b k' fl' tab'))"
  using c
proof (induction "b - i" arbitrary: i k fl tab rule: less_induct)
  case less
  note c = less.prems(1) and ok = less.prems(2) and al_i = less.prems(3)
  note C = c [unfolded copied_def]
  note up = round_up [OF b(2), folded b(1)]
  let ?Q = "\<lambda>(r :: int) k'. \<exists>fl' tab'. space_ok end k' fl' tab'
     \<and> (r = 0 \<and> copied k0 fl0 tab0 old b k' fl' tab' \<or> r = -1 \<and> uncopied k0 fl0 tab0 b k' fl' tab')"
  show ?case
  proof (cases "i < sz")
    case False
    then have "i = b" using up(1-3) next_multiple [OF al_i up(1)] less.prems(4) by (cases "i < b") simp_all
    then show ?thesis using False ok c by (subst uvmcopy_from.simps) (simp, blast)
  next
    case True
    have ib: "i < b" and itop: "i < user_top" using True up(2) b(2) by simp_all
    have le: "i + PGSIZE \<le> b" by (rule next_multiple [OF al_i up(1) ib])
    then have letop: "i + PGSIZE \<le> user_top" using up(4) by simp
    have root: "tab [] = Some root" using C root0 by (auto simp: map_le_def dom_def)
    have dis: "pages_of (km_mem k0) old \<inter> set fl0 = {}"
      using space_okD(3) [OF old0] space_okD(1) [OF old0] by (auto simp: pages_of_def vm_ok_def)
    have out: "same_outside (ran tab0 \<union> set fl0) (km_mem k0) (km_mem k)" using C by blast
    have aligned: "\<forall>p \<in> ran tab0 \<union> set fl0. p mod PGSIZE = 0"
      using space_pages [OF ok0] page_aligned by (auto simp: all_pages_def)
    have "(ran tab0 \<union> set fl0) \<inter> pages_of (km_mem k0) old = {}" "set fl \<inter> pages_of (km_mem k0) old = {}"
      using apart dis C by blast+
    note O = other_space [OF old0 vm_okD(1) [OF space_okD(1) [OF ok]] out aligned this]
    have step: "vruns (uvmcopy_from end oroot root (i + PGSIZE) sz) k' ?Q"
      if "copied k0 fl0 tab0 old (i + PGSIZE) k' fl' tab'" "space_ok end k' fl' tab'" for k' fl' tab'
      by (rule less.hyps [OF _ that]) (use ib le al_i in \<open>simp_all add: mod_add_self2\<close>)
    show ?thesis
      unfolding uvmcopy_from.simps [of "end" oroot root i] if_P [OF True] walk_other [OF O(1) oroot itop]
    proof (cases "valid (km_mem k) old i")
      case False
      then have "\<not> valid (km_mem k0) old i" by (simp add: valid_def O(2))
      moreover have "\<not> valid (km_mem k0) tab0 i" using un ib by blast
      ultimately have "copied k0 fl0 tab0 old (i + PGSIZE) k fl tab" by (rule copied_skip [OF c al_i letop])
      from step [OF this ok] False
      show "vruns (if valid (km_mem k) old i then vthen v_kalloc (\<lambda>mem.
              if mem = 0 then vthen (uvmunmap end root 0 (i div PGSIZE) True) (\<lambda>_. vret (-1))
              else vthen (v_read (PTE2PA (lookup (km_mem k) old i)) PGSIZE) (\<lambda>bs. vthen (v_write mem bs) (\<lambda>_.
                vthen (mappages root i PGSIZE mem (PTE_FLAGS (lookup (km_mem k) old i))) (\<lambda>r.
                if r \<noteq> 0 then vthen (v_kfree end mem) (\<lambda>_.
                     vthen (uvmunmap end root 0 (i div PGSIZE) True) (\<lambda>_. vret (-1)))
                else uvmcopy_from end oroot root (i + PGSIZE) sz))))
         else uvmcopy_from end oroot root (i + PGSIZE) sz) k ?Q" by simp
    next
      case v: True
      let ?e = "lookup (km_mem k) old i"
      obtain p k1 where p: "kalloc k = (p, k1)" by (cases "kalloc k")
      have v0: "valid (km_mem k0) old i" using v by (simp add: valid_def O(2))
      have fe: "PTE2PA ?e = frame (km_mem k0) old i" by (simp add: frame_def O(2))
      have fin: "frame (km_mem k0) old i \<in> pages_of (km_mem k0) old" using frame_in [OF itop v0] by (simp add: pages_of_def)
      have undo: "vruns (vthen (uvmunmap end root 0 (i div PGSIZE) True) (\<lambda>_. vret (-1))) k' ?Q"
        if "copied k0 fl0 tab0 old i k' fl' tab'" "space_ok end k' fl' tab'" "tab' [] = Some root" for k' fl' tab'
        by (rule vruns_mono [OF copied_undo [OF that(1) al_i less.prems(4) up(4) that(2,3) un]]) blast
      have "vruns (vthen v_kalloc (\<lambda>mem.
              if mem = 0 then vthen (uvmunmap end root 0 (i div PGSIZE) True) (\<lambda>_. vret (-1))
              else vthen (v_read (PTE2PA ?e) PGSIZE) (\<lambda>bs. vthen (v_write mem bs) (\<lambda>_.
                vthen (mappages root i PGSIZE mem (PTE_FLAGS ?e)) (\<lambda>r.
                if r \<noteq> 0 then vthen (v_kfree end mem) (\<lambda>_.
                     vthen (uvmunmap end root 0 (i div PGSIZE) True) (\<lambda>_. vret (-1)))
                else uvmcopy_from end oroot root (i + PGSIZE) sz))))) k ?Q"
      proof (cases "p = 0")
        case none: True
        then have "k1 = k" using kalloc_none [OF vm_okD(1) [OF space_okD(1) [OF ok]], of k1] p by simp
        with undo [OF c ok root] show ?thesis
          unfolding vruns_then [of v_kalloc] vruns_kalloc p fst_conv snd_conv if_P [OF none] by simp
      next
        case some: False
        have pin: "p \<in> set fl"
        proof -
          obtain fl1 where "fl = p # fl1" using kalloc_page [OF vm_okD(1) [OF space_okD(1) [OF ok]] p some] .
          then show ?thesis by simp
        qed
        have q: "frame (km_mem k0) old i mod PGSIZE = 0" "frame (km_mem k0) old i \<noteq> p"
          using space_okD(3) [OF old0 frame_in [OF itop v0]] page_aligned pin C fin dis by blast+
        let ?m = "store_bytes p (load_bytes (km_mem k1) (frame (km_mem k0) old i) PGSIZE) (km_mem k1)"
        note cp = copied_page [OF p some ok q]
        have nv: "\<not> valid (km_mem k) tab i"
          using un ib C itop by (auto simp: valid_def)
        have bytes: "\<forall>x < PGSIZE. ?m (p + x) = km_mem k0 (frame (km_mem k0) old i + x)"
          using cp(4) O(5) [OF v0 itop] by simp
        have "vruns (mappages root i PGSIZE p (PTE_FLAGS ?e)) (k1\<lparr>km_mem := ?m\<rparr>) (\<lambda>r k'. vruns
            (if r \<noteq> 0 then vthen (v_kfree end p) (\<lambda>_. vthen (uvmunmap end root 0 (i div PGSIZE) True) (\<lambda>_. vret (-1)))
             else uvmcopy_from end oroot root (i + PGSIZE) sz) k' ?Q)"
        proof (rule vruns_mono [OF new_page [OF ok root al_i itop nv p some cp(3) flags_less]], elim exE)
          fix r :: int and k' fl' tab'
          assume res: "if r = 0 then page_added end k fl tab ?m i p (PTE_FLAGS ?e) k' fl' tab' else r = -1 \<and> page_failed end k fl tab ?m p k' tab'"
          show "vruns (if r \<noteq> 0 then vthen (v_kfree end p) (\<lambda>_. vthen (uvmunmap end root 0 (i div PGSIZE) True) (\<lambda>_. vret (-1)))
             else uvmcopy_from end oroot root (i + PGSIZE) sz) k' ?Q"
          proof (cases "r = 0")
            case True
            then have A: "page_added end k fl tab ?m i p (PTE_FLAGS ?e) k' fl' tab'" using res by simp
            have "copied k0 fl0 tab0 old (i + PGSIZE) k' fl' tab'"
              by (rule copied_add [OF c al_i letop ok A cp(3,1) flags_less v0 bytes])
            from step [OF this] A show ?thesis using True by (simp add: page_added_def)
          next
            case False
            then have f: "page_failed end k fl tab ?m p k' tab'" using res by simp
            have s: "tab \<subseteq>\<^sub>m tab'" using f by (simp add: page_failed_def)
            have root': "tab' [] = Some root" using s root by (auto simp: map_le_def dom_def)
            have "vruns (vthen (uvmunmap end root 0 (i div PGSIZE) True) (\<lambda>_. vret (-1))) k2 ?Q"
              if 2: "space_ok end k2 [p] tab'" "\<forall>w < MAXVA. lookup (km_mem k2) tab' w = lookup (km_mem k) tab w"
                "set fl = set [p] \<union> (ran tab' - ran tab)" "same_outside (insert p (ran tab')) ?m (km_mem k2)" for k2
            proof -
              have "same_outside (ran tab \<union> set fl) (km_mem k) (km_mem k2)"
                by (rule same_outside_trans [OF cp(3) 2(4)]) (use 2(3) ran_mono [OF s] in auto)
              from undo [OF copied_failed [OF c itop ok 2(2,3) s this] 2(1) root'] show ?thesis .
            qed
            then show ?thesis
              unfolding if_P [OF False] vruns_then [of "v_kfree end p"] by (intro vruns_mono [OF give_back [OF f]]) blast
          qed
        qed
        then show ?thesis
          unfolding vruns_then [of v_kalloc] vruns_kalloc p fst_conv snd_conv if_not_P [OF some] fe
            vruns_then [of "v_read _ _"] vruns_read vruns_then [of "v_write _ _"] vruns_write vruns_then [of "mappages root i PGSIZE p _"] by simp
      qed
      then show "vruns (if valid (km_mem k) old i then vthen v_kalloc (\<lambda>mem.
              if mem = 0 then vthen (uvmunmap end root 0 (i div PGSIZE) True) (\<lambda>_. vret (-1))
              else vthen (v_read (PTE2PA ?e) PGSIZE) (\<lambda>bs. vthen (v_write mem bs) (\<lambda>_.
                vthen (mappages root i PGSIZE mem (PTE_FLAGS ?e)) (\<lambda>r.
                if r \<noteq> 0 then vthen (v_kfree end mem) (\<lambda>_.
                     vthen (uvmunmap end root 0 (i div PGSIZE) True) (\<lambda>_. vret (-1)))
                else uvmcopy_from end oroot root (i + PGSIZE) sz))))
         else uvmcopy_from end oroot root (i + PGSIZE) sz) k ?Q" unfolding if_P [OF v] .
    qed
  qed
qed

section \<open>The whole copy\<close>

lemma copied_mem:
  assumes ok: "space_ok end k fl tab" and b: "b \<le> user_top" and ok': "space_ok end k' fl' tab'" and c: "copied k fl tab old b k' fl' tab'"
    and un: "\<forall>w < b. \<not> valid (km_mem k) tab w"
  shows "user_mem (km_mem k') tab' = (\<lambda>va. if va < b then user_mem (km_mem k) old va else user_mem (km_mem k) tab va)"
    "all_pages fl' (km_mem k') tab' = all_pages fl (km_mem k) tab"
proof -
  note C = c [unfolded copied_def]
  have out: "same_outside (ran tab \<union> set fl) (km_mem k) (km_mem k')" using C by blast
  have above: "user_mem (km_mem k') tab' va = user_mem (km_mem k) tab va" if "\<not> va < b" for va
  proof (rule user_mem_kept [OF ok _ out])
    show "frame (km_mem k) tab va \<notin> ran tab \<union> set fl" if "va < user_top" "valid (km_mem k) tab va"
      using space_okD(3) [OF ok frame_in [OF that]] by blast
  qed (use C that in \<open>auto simp: all_pages_def\<close>)
  show "user_mem (km_mem k') tab' = (\<lambda>va. if va < b then user_mem (km_mem k) old va else user_mem (km_mem k) tab va)"
    using C above by (intro ext) simp
  have look: "lookup (km_mem k') tab' w = lookup (km_mem k) tab w" if "b \<le> w" "w < user_top" for w using C that by simp
  have "frames (km_mem k') tab' b user_top = frames (km_mem k) tab b user_top" by (rule vpages_cong(2)) (rule look)
  moreover have "vpages m t 0 user_top = vpages m t 0 b \<union> vpages m t b user_top" for m t using b by (auto simp: vpages_def)
  then have "frames m t 0 user_top = frames m t 0 b \<union> frames m t b user_top" for m t by (simp add: frames_def image_Un)
  moreover have "frames (km_mem k) tab 0 b = {}" using un by (auto simp: frames_def vpages_def)
  ultimately have F: "frames (km_mem k') tab' 0 user_top = frames (km_mem k') tab' 0 b \<union> frames (km_mem k) tab 0 user_top" by simp
  have "ran tab \<subseteq> ran tab'" by (rule ran_mono) (use C in blast)
  moreover have "set fl = set fl' \<union> frames (km_mem k') tab' 0 b \<union> (ran tab' - ran tab)" using C by blast
  ultimately show "all_pages fl' (km_mem k') tab' = all_pages fl (km_mem k) tab" unfolding all_pages_def F by blast
qed

lemma uncopied_mem:
  assumes ok: "space_ok end k fl tab" and b: "b \<le> user_top" and c: "uncopied k fl tab b k' fl' tab'"
    and un: "\<forall>w < b. \<not> valid (km_mem k) tab w"
  shows "user_mem (km_mem k') tab' = user_mem (km_mem k) tab" "all_pages fl' (km_mem k') tab' = all_pages fl (km_mem k) tab"
proof -
  note C = c [unfolded uncopied_def]
  have out: "same_outside (ran tab \<union> set fl) (km_mem k) (km_mem k')" using C by blast
  have v: "valid (km_mem k') tab' w \<longleftrightarrow> valid (km_mem k) tab w" if "w < user_top" for w
  proof (cases "w < b")
    case False
    then have "lookup (km_mem k') tab' w = lookup (km_mem k) tab w" using C that by simp
    then show ?thesis by (simp add: valid_def)
  qed (use C un that in simp)
  have l: "lookup (km_mem k') tab' w = lookup (km_mem k) tab w" if "w < user_top" "valid (km_mem k) tab w" for w
  proof -
    have "\<not> w < b" using un that(2) by blast
    then show ?thesis using C that(1) by simp
  qed
  show "user_mem (km_mem k') tab' = user_mem (km_mem k) tab"
  proof (rule ext)
    fix va
    show "user_mem (km_mem k') tab' va = user_mem (km_mem k) tab va"
    proof (cases "va < user_top \<and> valid (km_mem k) tab va")
      case True
      show ?thesis
        by (rule user_mem_kept [OF ok _ out])
          (use True l space_okD(3) [OF ok frame_in] in \<open>auto simp: all_pages_def\<close>)
    qed (use v in \<open>auto simp: user_mem_def\<close>)
  qed
  have V: "vpages (km_mem k') tab' 0 user_top = vpages (km_mem k) tab 0 user_top" using v by (auto simp: vpages_def)
  have "frames (km_mem k') tab' 0 user_top = frames (km_mem k) tab 0 user_top"
    unfolding frames_def V by (rule image_cong [OF refl]) (simp add: frame_def vpages_def l)
  moreover have "ran tab \<subseteq> ran tab'" by (rule ran_mono) (use C in blast)
  moreover have "set fl = set fl' \<union> (ran tab' - ran tab)" using C by blast
  ultimately show "all_pages fl' (km_mem k') tab' = all_pages fl (km_mem k) tab" unfolding all_pages_def by blast
qed

text \<open>
  C7: The copy of a process's memory for a child returns for any size. If it returns 0, the child reads below the size
  (rounded up to pages) exactly what the parent reads, byte for byte, and it does so in pages that the parent has
  not; if it returns -1, the child's memory is as it was. In both cases the parent's memory is unchanged, both
  address spaces are consistent and no page is lost.
\<close>

theorem uvmcopy_isolates:
  assumes new: "space_ok end k fl new" "new [] = Some root" and old: "space_ok end k fl old" "old [] = Some oroot"
    and apart: "pages_of (km_mem k) old \<inter> pages_of (km_mem k) new = {}" and sz: "sz \<le> TRAPFRAME"
    and empty: "\<And>w. w < PGROUNDUP64 sz \<Longrightarrow> user_mem (km_mem k) new w = None"
  shows "\<exists>r k' fl' new'. uvmcopy end oroot root sz k = VRet (r, k') \<and> space_ok end k' fl' new' \<and> space_ok end k' fl' old \<and> new' [] = Some root
     \<and> user_mem (km_mem k') old = user_mem (km_mem k) old
     \<and> pages_of (km_mem k') old \<inter> pages_of (km_mem k') new' = {}
     \<and> all_pages fl' (km_mem k') new' = all_pages fl (km_mem k) new
     \<and> (r = 0 \<and> user_mem (km_mem k') new' = (\<lambda>va. if va < PGROUNDUP64 sz then user_mem (km_mem k) old va else user_mem (km_mem k) new va)
        \<or> r = -1 \<and> user_mem (km_mem k') new' = user_mem (km_mem k) new)"
proof -
  note up = round_up [OF sz]
  have un: "\<forall>w < PGROUNDUP64 sz. \<not> valid (km_mem k) new w"
    using empty up(4) by (fastforce simp: user_mem_def split: if_splits)
  have dis: "pages_of (km_mem k) old \<inter> ran new = {}" using apart by (auto simp: pages_of_def)
  obtain r k' fl' new' where run: "uvmcopy end oroot root sz k = VRet (r, k')" and ok': "space_ok end k' fl' new'"
    and res: "r = 0 \<and> copied k fl new old (PGROUNDUP64 sz) k' fl' new' \<or> r = -1 \<and> uncopied k fl new (PGROUNDUP64 sz) k' fl' new'"
    using uvmcopy_from_spec [OF new(1) old(1) new(2) old(2) dis refl sz un copied_start new(1)]
    unfolding uvmcopy_def vruns_def by auto
  have sub: "new \<subseteq>\<^sub>m new'" and out: "same_outside (ran new \<union> set fl) (km_mem k) (km_mem k')"
    using res unfolding copied_def uncopied_def by blast+
  have root': "new' [] = Some root" using sub new(2) by (auto simp: map_le_def dom_def)
  note mem = copied_mem [OF new(1) up(4) ok' _ un] uncopied_mem [OF new(1) up(4) _ un]
  have all: "all_pages fl' (km_mem k') new' = all_pages fl (km_mem k) new" using res mem(2,4) by blast
  have fr: "pages_of (km_mem k) old \<inter> set fl = {}"
    using space_okD(3) [OF old(1)] space_okD(1) [OF old(1)] by (auto simp: pages_of_def vm_ok_def)
  have sum: "all_pages fl (km_mem k) new = set fl \<union> pages_of (km_mem k) new" "all_pages fl' (km_mem k') new' = set fl' \<union> pages_of (km_mem k') new'"
    by (auto simp: all_pages_def pages_of_def)
  have A: "\<forall>p \<in> ran new \<union> set fl. p mod PGSIZE = 0" "(ran new \<union> set fl) \<inter> pages_of (km_mem k) old = {}" "set fl' \<inter> pages_of (km_mem k) old = {}"
  proof -
    show "\<forall>p \<in> ran new \<union> set fl. p mod PGSIZE = 0"
      using space_pages [OF new(1)] page_aligned by (auto simp: all_pages_def)
    show "(ran new \<union> set fl) \<inter> pages_of (km_mem k) old = {}" using dis fr by blast
    show "set fl' \<inter> pages_of (km_mem k) old = {}" using fr apart all unfolding sum by blast
  qed
  note O = other_space [OF old(1) vm_okD(1) [OF space_okD(1) [OF ok']] out A]
  have "pages_of (km_mem k') old \<inter> pages_of (km_mem k') new' = {}"
    unfolding O(4) using all fr apart unfolding sum by blast
  moreover have "r = 0 \<and> user_mem (km_mem k') new' = (\<lambda>va. if va < PGROUNDUP64 sz then user_mem (km_mem k) old va else user_mem (km_mem k) new va)
        \<or> r = -1 \<and> user_mem (km_mem k') new' = user_mem (km_mem k) new"
    using res mem(1,3) by blast
  ultimately show ?thesis using run ok' O(1,3) root' all by blast
qed

section \<open>A parent with one page\<close>

definition parent_tab :: tables where
  "parent_tab = [[] \<mapsto> 0x80101000, [0] \<mapsto> 0x80104000, [0, 0] \<mapsto> 0x80105000]"

text \<open>Its only page is the frame \<open>0x80106000\<close>, which a process may read, write and execute.\<close>

definition parent_mem :: phys where
  "parent_mem = store64 (0x80101000 + 8 * 0) (PA2PTE 0x80104000 OR 1) (store64 (0x80104000 + 8 * 0) (PA2PTE 0x80105000 OR 1)
     (store64 (0x80105000 + 8 * 0) (PA2PTE 0x80106000 OR 0x1E OR 1) (\<lambda>_. 0)))"

lemma parent_entries:
  assumes "q mod PGSIZE = 0" "j < 512"
  shows "pentry parent_mem q j = (if q = 0x80101000 \<and> j = 0 then PA2PTE 0x80104000 OR 1
    else if q = 0x80104000 \<and> j = 0 then PA2PTE 0x80105000 OR 1 else if q = 0x80105000 \<and> j = 0 then PA2PTE 0x80106000 OR 0x1E OR 1 else 0)"
proof -
  have z: "pentry (\<lambda>_. 0) p i = 0" for p i by (simp add: pentry_def load64_def dec_le_zero)
  have l: "PA2PTE 0x80104000 OR 1 < 2 ^ 64" "PA2PTE 0x80105000 OR 1 < 2 ^ 64" "PA2PTE 0x80106000 OR 0x1E OR 1 < 2 ^ 64"
    by (simp_all add: PA2PTE_def)
  have w: "pentry (store64 (p + 8 * 0) v m) q j = (if q = p \<and> j = 0 then v else pentry m q j)" if "p mod PGSIZE = 0" "v < 2 ^ 64" for p v m
    using pentry_store [OF that(1) assms(1) _ assms(2) that(2), of 0 m] by auto
  have al: "(0x80101000 :: nat) mod PGSIZE = 0" "(0x80104000 :: nat) mod PGSIZE = 0" "(0x80105000 :: nat) mod PGSIZE = 0" by simp_all
  show ?thesis unfolding parent_mem_def w [OF al(1) l(1)] w [OF al(2) l(2)] w [OF al(3) l(3)] z ..
qed

lemma parent_tables: "tables_ok parent_mem parent_tab"
proof -
  have al: "(0x80101000 :: nat) mod PGSIZE = 0" "(0x80104000 :: nat) mod PGSIZE = 0" "(0x80105000 :: nat) mod PGSIZE = 0" by simp_all
  have dom: "parent_tab ps = Some q \<longleftrightarrow> ps = [] \<and> q = 0x80101000 \<or> ps = [0] \<and> q = 0x80104000 \<or> ps = [0, 0] \<and> q = 0x80105000" for ps q
    by (auto simp: parent_tab_def)
  have none: "parent_tab ps = None \<longleftrightarrow> ps \<noteq> [] \<and> ps \<noteq> [0] \<and> ps \<noteq> [0, 0]" for ps
    by (auto simp: parent_tab_def)
  have entries: "case parent_tab (ps @ [i]) of None \<Rightarrow> \<not> has (pentry parent_mem q i) 1 | Some r \<Rightarrow> pentry parent_mem q i = PA2PTE r OR 1"
    if a: "parent_tab ps = Some q" "length ps < 2" "i < 512" for ps q i
  proof -
    consider "ps = []" "q = 0x80101000" | "ps = [0]" "q = 0x80104000" using a(1,2) unfolding dom by fastforce
    then show ?thesis by cases (use a in \<open>auto simp: parent_entries parent_tab_def has_def\<close>)
  qed
  have "inj_on parent_tab (dom parent_tab)"
  proof (rule inj_onI)
    fix ps qs assume "ps \<in> dom parent_tab" and eq: "parent_tab ps = parent_tab qs"
    then obtain q where "parent_tab ps = Some q" by blast
    with eq have "parent_tab ps = Some q" "parent_tab qs = Some q" by simp_all
    then show "ps = qs" unfolding dom by auto
  qed
  moreover have "\<forall>ps p. parent_tab ps = Some p \<longrightarrow> length ps \<le> 2 \<and> set ps \<subseteq> {..<512}" by (auto simp: dom)
  moreover have "\<forall>ps i. parent_tab (ps @ [i]) \<noteq> None \<longrightarrow> parent_tab ps \<noteq> None" by (auto simp: none append_eq_Cons_conv)
  moreover have "parent_tab [] \<noteq> None" by (simp add: none)
  ultimately show ?thesis unfolding tables_ok_def using entries by blast
qed

lemma parent_lookup: "va < MAXVA \<Longrightarrow> lookup parent_mem parent_tab va = (if va < PGSIZE then PA2PTE 0x80106000 OR 0x1E OR 1 else 0)"
proof -
  assume va: "va < MAXVA"
  have "va < PGSIZE \<longleftrightarrow> PX 2 va = 0 \<and> PX 1 va = 0 \<and> PX 0 va = 0"
    using PX_number [OF va] by (auto simp: div_eq_0_iff)
  moreover have "parent_tab [PX 2 va, PX 1 va] = (if PX 2 va = 0 \<and> PX 1 va = 0 then Some 0x80105000 else None)"
    by (simp add: parent_tab_def)
  ultimately show ?thesis by (simp add: lookup_pentry parent_entries)
qed

abbreviation (input) kernel_end :: nat where "kernel_end \<equiv> 0x80000000"

lemma parent_start:
  "space_ok kernel_end \<lparr>km_mem = parent_mem, km_freelist = 0\<rparr> [] parent_tab" "pages_of parent_mem parent_tab = {0x80101000, 0x80104000, 0x80105000, 0x80106000}"
  "user_mem parent_mem parent_tab va = (if va < PGSIZE then Some 0 else None)"
proof -
  let ?e = "PA2PTE 0x80106000 OR 0x1E OR 1"
  have e: "has ?e 1" by (rule has_make_perm)
  have e': "PTE2PA ?e = 0x80106000" by (rule PTE2PA_make) simp_all
  have r: "ran parent_tab = {0x80101000, 0x80104000, 0x80105000}" by (auto simp: parent_tab_def ran_def)
  have v: "valid parent_mem parent_tab w \<longleftrightarrow> w < PGSIZE" if "w < MAXVA" for w
    using that e by (auto simp: valid_def parent_lookup has_def)
  have f: "frame parent_mem parent_tab w = 0x80106000" if "w < PGSIZE" for w
    using that e' by (simp add: frame_def parent_lookup)
  have vp: "vpages parent_mem parent_tab 0 user_top = {0}" using v by (auto simp: vpages_def)
  then have fr: "frames parent_mem parent_tab 0 user_top = {0x80106000}" using f [of 0] by (simp add: frames_def)
  show "space_ok kernel_end \<lparr>km_mem = parent_mem, km_freelist = 0\<rparr> [] parent_tab"
    using parent_tables unfolding space_ok_def owned_def kmem.simps vp fr by (simp add: vm_ok_def r kmem_inv_def page_ok_def)
  show "pages_of parent_mem parent_tab = {0x80101000, 0x80104000, 0x80105000, 0x80106000}" unfolding pages_of_def r fr by auto
  have "parent_mem (0x80106000 + va) = 0" if "va < PGSIZE" by (simp add: parent_mem_def store64_def)
  then show "user_mem parent_mem parent_tab va = (if va < PGSIZE then Some 0 else None)"
    using v [of va] f [of va] by (auto simp: user_mem_def)
qed

lemma child_start:
  "space_ok kernel_end \<lparr>km_mem = parent_mem, km_freelist = 0\<rparr> [] small_tab" "pages_of parent_mem small_tab = {small_root}" "user_mem parent_mem small_tab va = None"
proof -
  have "pentry parent_mem small_root i = 0" if "i < 512" for i using that by (simp add: parent_entries)
  then have "tables_ok parent_mem small_tab" by (auto simp: tables_ok_def small_tab_def has_def)
  moreover have l: "lookup parent_mem small_tab w = 0" for w by (simp add: lookup_pentry small_tab_def)
  ultimately show "space_ok kernel_end \<lparr>km_mem = parent_mem, km_freelist = 0\<rparr> [] small_tab" "pages_of parent_mem small_tab = {small_root}"
    "user_mem parent_mem small_tab va = None"
    by (auto simp: space_ok_def vm_ok_def owned_def frames_def vpages_def valid_def has_def kmem_inv_def page_ok_def pages_of_def user_mem_def small_tab_def)
qed

text \<open>Pages are given to the allocator, one after the other.\<close>

lemma more_pages:
  assumes ok: "space_ok kernel_end k fl parent_tab" "space_ok kernel_end k fl small_tab"
    and p: "page_ok kernel_end p" "p \<notin> set fl" "p \<notin> pages_of (km_mem k) parent_tab" "p \<notin> pages_of (km_mem k) small_tab"
  obtains k' where "space_ok kernel_end k' (p # fl) parent_tab" "space_ok kernel_end k' (p # fl) small_tab"
    "pages_of (km_mem k') parent_tab = pages_of (km_mem k) parent_tab" "pages_of (km_mem k') small_tab = pages_of (km_mem k) small_tab"
    "user_mem (km_mem k') parent_tab = user_mem (km_mem k) parent_tab" "user_mem (km_mem k') small_tab = user_mem (km_mem k) small_tab"
proof -
  obtain k' where k': "vm_ok kernel_end k' (p # fl) parent_tab" "same_outside {p} (km_mem k) (km_mem k')"
    using kfree_page [OF space_okD(1) [OF ok(1)] p(1,2)] p(3) unfolding vruns_def pages_of_def by auto
  note other = other_space [OF _ vm_okD(1) [OF k'(1)] k'(2)]
  have al: "\<forall>q \<in> {p}. q mod PGSIZE = 0" using page_aligned [OF p(1)] by simp
  have dis: "set (p # fl) \<inter> pages_of (km_mem k) tab = {}" if "space_ok kernel_end k fl tab" "p \<notin> pages_of (km_mem k) tab" for tab
    using that space_okD(3) [OF that(1)] space_okD(1) [OF that(1)] by (auto simp: pages_of_def vm_ok_def)
  show thesis
    by (rule that [of k']) (use other [OF ok(1) al _ dis [OF ok(1) p(3)]] other [OF ok(2) al _ dis [OF ok(2) p(4)]] p(3,4) in simp_all)
qed

text \<open>A parent with one page of zeros, and three free pages: the child gets the page, or the call fails.\<close>

theorem uvmcopy_isolates_witness:
  "\<exists>k r k' fl' new'. user_mem (km_mem k) parent_tab 7 = Some 0 \<and> uvmcopy kernel_end 0x80101000 small_root 4096 k = VRet (r, k')
     \<and> space_ok kernel_end k' fl' new' \<and> user_mem (km_mem k') parent_tab 7 = Some 0
     \<and> (r = 0 \<and> user_mem (km_mem k') new' 7 = Some 0 \<or> r = -1 \<and> user_mem (km_mem k') new' 7 = None)"
proof -
  have up: "PGROUNDUP64 4096 = 4096" by (simp add: PGROUNDUP64_def PGROUNDDOWN_def)
  let ?k = "\<lparr>km_mem = parent_mem, km_freelist = 0\<rparr> :: kmem"
  have page: "page_ok kernel_end 0x80102000" "page_ok kernel_end 0x80103000" "page_ok kernel_end 0x80107000" by (simp_all add: page_ok_def)
  note start = parent_start child_start
  obtain k1 where 1: "space_ok kernel_end k1 [0x80102000] parent_tab" "space_ok kernel_end k1 [0x80102000] small_tab"
    "pages_of (km_mem k1) parent_tab = pages_of parent_mem parent_tab" "pages_of (km_mem k1) small_tab = pages_of parent_mem small_tab"
    "user_mem (km_mem k1) parent_tab = user_mem parent_mem parent_tab" "user_mem (km_mem k1) small_tab = user_mem parent_mem small_tab"
    by (rule more_pages [OF start(1,4) page(1)]) (use start in simp_all)
  obtain k2 where 2: "space_ok kernel_end k2 [0x80103000, 0x80102000] parent_tab" "space_ok kernel_end k2 [0x80103000, 0x80102000] small_tab"
    "pages_of (km_mem k2) parent_tab = pages_of (km_mem k1) parent_tab" "pages_of (km_mem k2) small_tab = pages_of (km_mem k1) small_tab"
    "user_mem (km_mem k2) parent_tab = user_mem (km_mem k1) parent_tab" "user_mem (km_mem k2) small_tab = user_mem (km_mem k1) small_tab"
    by (rule more_pages [OF 1(1,2) page(2)]) (use start 1 in simp_all)
  obtain k where 3: "space_ok kernel_end k [0x80107000, 0x80103000, 0x80102000] parent_tab" "space_ok kernel_end k [0x80107000, 0x80103000, 0x80102000] small_tab"
    "pages_of (km_mem k) parent_tab = pages_of (km_mem k2) parent_tab" "pages_of (km_mem k) small_tab = pages_of (km_mem k2) small_tab"
    "user_mem (km_mem k) parent_tab = user_mem (km_mem k2) parent_tab" "user_mem (km_mem k) small_tab = user_mem (km_mem k2) small_tab"
    by (rule more_pages [OF 2(1,2) page(3)]) (use start 1 2 in simp_all)
  note mem = 3(3-6) 2(3-6) 1(3-6) start(2,3,5,6)
  have roots: "small_tab [] = Some small_root" "parent_tab [] = Some 0x80101000" by (simp_all add: small_tab_def parent_tab_def)
  obtain r k' fl' new' where r: "uvmcopy kernel_end 0x80101000 small_root 4096 k = VRet (r, k')" "space_ok kernel_end k' fl' new'"
    "user_mem (km_mem k') parent_tab = user_mem (km_mem k) parent_tab"
    "r = 0 \<and> user_mem (km_mem k') new' = (\<lambda>va. if va < PGROUNDUP64 4096 then user_mem (km_mem k) parent_tab va else user_mem (km_mem k) small_tab va)
        \<or> r = -1 \<and> user_mem (km_mem k') new' = user_mem (km_mem k) small_tab"
    using uvmcopy_isolates [OF 3(2) roots(1) 3(1) roots(2), of 4096] by (auto simp: mem)
  have "user_mem (km_mem k) parent_tab 7 = Some 0" "user_mem (km_mem k) small_tab 7 = None" by (simp_all add: mem)
  then have "user_mem (km_mem k') parent_tab 7 = Some 0"
    "r = 0 \<and> user_mem (km_mem k') new' 7 = Some 0 \<or> r = -1 \<and> user_mem (km_mem k') new' 7 = None" using r(3,4) up by auto
  with r(1,2) \<open>user_mem (km_mem k) parent_tab 7 = Some 0\<close> show ?thesis by blast
qed

end
