(* ===== verification/Virtio.thy ===== *)
theory Virtio
  imports Bio
begin

unbundle bit_operations_syntax

text \<open>
  The disk driver, \<open>kernel/virtio_disk.c\<close>: eight descriptors, of which a request takes three, a ring in which the
  driver gives the heads of chains to the device and a ring in which the device gives them back. A process sleeps
  in \<open>virtio_disk_rw\<close> until the interrupt handler has cleared the flag of its buffer; the function is cut there. The
  addresses in descriptors are names of the objects they point to. Not modelled: the registers of the device and
  the setting up of the queue.
\<close>

section \<open>State\<close>

abbreviation (input) NUM :: nat where "NUM \<equiv> 8"
abbreviation (input) VRING_DESC_F_NEXT :: nat where "VRING_DESC_F_NEXT \<equiv> 1"
abbreviation (input) VRING_DESC_F_WRITE :: nat where "VRING_DESC_F_WRITE \<equiv> 2"
abbreviation (input) VIRTIO_BLK_T_IN :: nat where "VIRTIO_BLK_T_IN \<equiv> 0"
abbreviation (input) VIRTIO_BLK_T_OUT :: nat where "VIRTIO_BLK_T_OUT \<equiv> 1"

type_synonym u16 = "16 word"

text \<open>\<open>&disk.ops[i]\<close>, the data of a buffer, \<open>&disk.info[i].status\<close>.\<close>

datatype daddr = Null | Ops nat | Data nat | Status nat

record vdesc =
  d_addr :: daddr
  d_len :: nat
  d_flags :: nat
  d_next :: nat

record vreq =
  q_type :: nat
  q_reserved :: nat
  q_sector :: nat

text \<open>\<open>v_busy\<close>: the flag \<open>b->disk\<close> of each buffer.\<close>

record vdisk =
  v_desc :: "nat \<Rightarrow> vdesc"
  v_avail :: "nat \<Rightarrow> nat"
  v_avail_idx :: u16
  v_used :: "nat \<Rightarrow> nat"
  v_used_dev :: u16
  v_free :: "nat \<Rightarrow> bool"
  v_used_idx :: u16
  v_info_b :: "nat \<Rightarrow> nat option"
  v_status :: "nat \<Rightarrow> nat"
  v_ops :: "nat \<Rightarrow> vreq"
  v_busy :: "nat \<Rightarrow> bool"

definition no_desc :: vdesc where
  "no_desc = \<lparr>d_addr = Null, d_len = 0, d_flags = 0, d_next = 0\<rparr>"

text \<open>What \<open>virtio_disk_init\<close> leaves in memory: all descriptors are free.\<close>

definition disk_start :: vdisk where
  "disk_start = \<lparr>v_desc = (\<lambda>_. no_desc), v_avail = (\<lambda>_. 0), v_avail_idx = 0, v_used = (\<lambda>_. 0), v_used_dev = 0, v_free = (\<lambda>_. True),
     v_used_idx = 0, v_info_b = (\<lambda>_. None), v_status = (\<lambda>_. 0), v_ops = (\<lambda>_. \<lparr>q_type = 0, q_reserved = 0, q_sector = 0\<rparr>),
     v_busy = (\<lambda>_. False)\<rparr>"

section \<open>Descriptors\<close>

definition alloc_desc :: "vdisk \<Rightarrow> nat option \<times> vdisk" where
  "alloc_desc d =
     (case find (v_free d) [0..<NUM] of None \<Rightarrow> (None, d) | Some i \<Rightarrow> (Some i, d\<lparr>v_free := (v_free d)(i := False)\<rparr>))"

definition free_desc :: "nat \<Rightarrow> vdisk \<Rightarrow> vdisk outcome" where
  "free_desc i d =
     (if i \<ge> NUM then Panics ''free_desc 1''
      else if v_free d i then Panics ''free_desc 2''
      else Ret (d\<lparr>v_desc := (v_desc d)(i := no_desc), v_free := (v_free d)(i := True)\<rparr>))"

definition unfree :: "vdisk \<Rightarrow> nat" where
  "unfree d = card {i. i < NUM \<and> \<not> v_free d i}"

lemma free_desc_unfree: "free_desc i d = Ret d' \<Longrightarrow> unfree d' < unfree d"
proof -
  assume "free_desc i d = Ret d'"
  then have i: "i < NUM" "\<not> v_free d i" "v_free d' = (v_free d)(i := True)" by (auto simp: free_desc_def split: if_splits)
  have "{j. j < NUM \<and> \<not> v_free d' j} \<subset> {j. j < NUM \<and> \<not> v_free d j}" using i by auto
  then show ?thesis unfolding unfree_def by (rule psubset_card_mono [rotated]) simp
qed

text \<open>Only the lowest bit of the flags says that a chain goes on.\<close>

function free_chain :: "nat \<Rightarrow> vdisk \<Rightarrow> vdisk outcome" where
  "free_chain i d =
     (let flag = d_flags (v_desc d i); follow = d_next (v_desc d i) in
      case free_desc i d of
        Ret d' \<Rightarrow> if flag AND VRING_DESC_F_NEXT \<noteq> 0 then free_chain follow d' else Ret d'
      | Sleeps \<Rightarrow> Sleeps
      | Panics msg \<Rightarrow> Panics msg)"
  by pat_completeness auto

termination by (relation "measure (\<lambda>(i, d). unfree d)") (auto simp: free_desc_unfree)

declare free_chain.simps [simp del]

primrec free_all :: "nat list \<Rightarrow> vdisk \<Rightarrow> vdisk outcome" where
  "free_all [] d = Ret d"
| "free_all (i # js) d = bind_outcome (free_desc i d) (free_all js)"

text \<open>The loop of \<open>alloc3_desc\<close> with \<open>k\<close> descriptors to go; \<open>got\<close> are those it has.\<close>

primrec alloc_descs :: "nat \<Rightarrow> nat list \<Rightarrow> vdisk \<Rightarrow> (nat list option \<times> vdisk) outcome" where
  "alloc_descs 0 got d = Ret (Some got, d)"
| "alloc_descs (Suc k) got d =
     (case alloc_desc d of
        (None, d') \<Rightarrow> bind_outcome (free_all got d') (\<lambda>d''. Ret (None, d''))
      | (Some i, d') \<Rightarrow> alloc_descs k (got @ [i]) d')"

definition alloc3_desc :: "vdisk \<Rightarrow> (nat list option \<times> vdisk) outcome" where
  "alloc3_desc d = alloc_descs 3 [] d"

section \<open>Requests\<close>

definition set_desc :: "nat \<Rightarrow> vdesc \<Rightarrow> vdisk \<Rightarrow> vdisk" where
  "set_desc i x d = d\<lparr>v_desc := (v_desc d)(i := x)\<rparr>"

text \<open>The three descriptors of a request are filled in and the chain is given to the device.\<close>

definition disk_submit :: "nat \<Rightarrow> nat \<Rightarrow> bool \<Rightarrow> nat \<Rightarrow> nat \<Rightarrow> nat \<Rightarrow> vdisk \<Rightarrow> vdisk" where
  "disk_submit b blockno wr i0 i1 i2 d =
     (let d1 = d\<lparr>v_ops := (v_ops d)(i0 := \<lparr>q_type = if wr then VIRTIO_BLK_T_OUT else VIRTIO_BLK_T_IN, q_reserved = 0,
                 q_sector = blockno * 2 mod 2 ^ 32\<rparr>)\<rparr>;
          d2 = set_desc i0 \<lparr>d_addr = Ops i0, d_len = 16, d_flags = VRING_DESC_F_NEXT, d_next = i1\<rparr> d1;
          d3 = set_desc i1 \<lparr>d_addr = Data b, d_len = BSIZE,
                 d_flags = (if wr then 0 else VRING_DESC_F_WRITE) OR VRING_DESC_F_NEXT, d_next = i2\<rparr> d2;
          d4 = d3\<lparr>v_status := (v_status d3)(i0 := 255)\<rparr>;
          d5 = set_desc i2 \<lparr>d_addr = Status i0, d_len = 1, d_flags = VRING_DESC_F_WRITE, d_next = 0\<rparr> d4;
          d6 = d5\<lparr>v_busy := (v_busy d5)(b := True), v_info_b := (v_info_b d5)(i0 := Some b)\<rparr>
      in d6\<lparr>v_avail := (v_avail d6)(unat (v_avail_idx d6) mod NUM := i0), v_avail_idx := v_avail_idx d6 + 1\<rparr>)"

text \<open>\<open>virtio_disk_rw\<close> up to its second sleep; when there are not three descriptors it sleeps and starts again.\<close>

definition disk_rw_begin :: "nat \<Rightarrow> nat \<Rightarrow> bool \<Rightarrow> vdisk \<Rightarrow> ((nat \<times> nat \<times> nat) \<times> vdisk) outcome" where
  "disk_rw_begin b blockno wr d =
     bind_outcome (alloc3_desc d) (\<lambda>(got, d'). case got of
       Some [i0, i1, i2] \<Rightarrow> Ret ((i0, i1, i2), disk_submit b blockno wr i0 i1 i2 d')
     | _ \<Rightarrow> Sleeps)"

text \<open>The rest of it, once the process runs again.\<close>

definition disk_rw_end :: "nat \<Rightarrow> nat \<Rightarrow> vdisk \<Rightarrow> vdisk outcome" where
  "disk_rw_end b i0 d =
     (if v_busy d b then Sleeps else free_chain i0 (d\<lparr>v_info_b := (v_info_b d)(i0 := None)\<rparr>))"

text \<open>One turn of the loop of the interrupt handler clears the flag of a buffer and wakes its process.\<close>

definition intr_one :: "vdisk \<Rightarrow> vdisk outcome" where
  "intr_one d =
     (let i = v_used d (unat (v_used_idx d) mod NUM) in
      if v_status d i \<noteq> 0 then Panics ''virtio_disk_intr status''
      else case v_info_b d i of
        None \<Rightarrow> Panics ''null pointer''
      | Some b \<Rightarrow> Ret (d\<lparr>v_busy := (v_busy d)(b := False), v_used_idx := v_used_idx d + 1\<rparr>))"

lemma intr_one_idx: "intr_one d = Ret d' \<Longrightarrow> v_used_idx d' = v_used_idx d + 1 \<and> v_used_dev d' = v_used_dev d"
  by (auto simp: intr_one_def Let_def split: if_splits option.splits)

lemma word_gap: "(a :: u16) \<noteq> b \<Longrightarrow> unat (a - (b + 1)) < unat (a - b)"
proof -
  assume "a \<noteq> b"
  then have "a - b \<noteq> 0" by simp
  then have "unat (a - b - 1) = unat (a - b) - 1" "unat (a - b) \<noteq> 0" by (auto simp: unat_minus_one unat_eq_0)
  moreover have e: "a - (b + 1) = a - b - 1" by simp
  ultimately show ?thesis unfolding e by linarith
qed

function virtio_disk_intr :: "vdisk \<Rightarrow> vdisk outcome" where
  "virtio_disk_intr d =
     (if v_used_idx d \<noteq> v_used_dev d then
        (case intr_one d of Ret d' \<Rightarrow> virtio_disk_intr d' | Sleeps \<Rightarrow> Sleeps | Panics msg \<Rightarrow> Panics msg)
      else Ret d)"
  by pat_completeness auto

termination by (relation "measure (\<lambda>d. unat (v_used_dev d - v_used_idx d))") (auto dest!: intr_one_idx intro: word_gap [OF not_sym])

declare virtio_disk_intr.simps [simp del]

end
