(* ===== verification/Ring_Buffers.thy ===== *)
theory Ring_Buffers
  imports Interfaces
begin

text \<open>
  Ring buffers with two counters that run on and wrap around, as the disk driver and the console have them: what
  is between the counters \<open>a\<close> and \<open>b\<close> of a ring of \<open>cap\<close> places.
\<close>

definition wring :: "nat \<Rightarrow> (nat \<Rightarrow> 'a) \<Rightarrow> 'b::len word \<Rightarrow> 'b word \<Rightarrow> 'a list" where
  "wring cap f a b = map (\<lambda>k. f (unat (a + of_nat k) mod cap)) [0..<unat (b - a)]"

lemma length_wring [simp]: "length (wring cap f a b) = unat (b - a)"
  by (simp add: wring_def)

lemma wring_same [simp]: "wring cap f a a = []"
  by (simp add: wring_def)

lemma wring_empty: "wring cap f a b = [] \<longleftrightarrow> a = b"
  by (auto simp: wring_def unat_eq_0)

text \<open>The counters wrap at a multiple of the number of places.\<close>

lemma unat_add_cap:
  fixes a :: "'b::len word"
  assumes "cap dvd 2 ^ LENGTH('b)"
  shows "unat (a + of_nat k) mod cap = (unat a + k) mod cap"
proof -
  have "unat (a + of_nat k) = (unat a + k) mod 2 ^ LENGTH('b)" by (simp add: unat_word_ariths unat_of_nat mod_simps)
  then show ?thesis using assms by (simp add: mod_mod_cancel)
qed

lemma mod_apart:
  assumes "k < n" "n < cap" shows "(a + k) mod cap \<noteq> (a + n) mod (cap :: nat)"
proof
  assume "(a + k) mod cap = (a + n) mod cap"
  then have "cap dvd (a + n) - (a + k)" using mod_eq_dvd_iff_nat [of "a + k" "a + n" cap] assms by simp
  then have "cap \<le> n - k" using assms by (intro dvd_imp_le) simp_all
  then show False using assms by simp
qed

lemma unat_gap:
  fixes a b :: "'b::len word"
  shows "a \<noteq> b \<Longrightarrow> unat (b - a) = Suc (unat (b - (a + 1)))" "a \<noteq> b \<Longrightarrow> unat (b - a) = Suc (unat (b - 1 - a))"
proof -
  assume "a \<noteq> b"
  then have "b - a \<noteq> 0" by auto
  then have u: "unat (b - a) = Suc (unat (b - a - 1))" by (simp add: unat_minus_one unat_gt_0)
  have e: "b - (a + 1) = b - a - 1" "b - 1 - a = b - a - 1" by simp_all
  show "unat (b - a) = Suc (unat (b - (a + 1)))" "unat (b - a) = Suc (unat (b - 1 - a))" unfolding e by (rule u)+
qed

lemma unat_next:
  fixes a b :: "'b::len word"
  assumes "unat (b - a) < cap" "cap \<le> 2 ^ LENGTH('b) - 1"
  shows "unat (b + 1 - a) = Suc (unat (b - a))"
proof -
  have "Suc (unat (b - a)) < 2 ^ LENGTH('b)" using assms by simp
  moreover have "unat (b - a + 1) = (unat (b - a) + 1) mod 2 ^ LENGTH('b)" by (simp add: unat_word_ariths mod_simps)
  moreover have e: "b + 1 - a = b - a + 1" by simp
  ultimately show ?thesis unfolding e by simp
qed

lemma wring_push:
  fixes a b :: "'b::len word"
  assumes "unat (b - a) < cap" "cap dvd 2 ^ LENGTH('b)" "cap \<le> 2 ^ LENGTH('b) - 1"
  shows "wring cap (f(unat b mod cap := x)) a (b + 1) = wring cap f a b @ [x]"
proof -
  let ?n = "unat (b - a)"
  have n: "unat (b + 1 - a) = Suc ?n" by (rule unat_next [OF assms(1,3)])
  have b: "unat b mod cap = (unat a + ?n) mod cap" using unat_add_cap [OF assms(2), of a ?n] by simp
  have "(f(unat b mod cap := x)) (unat (a + of_nat k) mod cap) = f (unat (a + of_nat k) mod cap)" if "k < ?n" for k
    using mod_apart [OF that assms(1), of "unat a"] by (simp add: unat_add_cap [OF assms(2)] b)
  then show ?thesis by (simp add: wring_def n unat_add_cap [OF assms(2)] b)
qed

lemma wring_pop: "a \<noteq> b \<Longrightarrow> wring cap f a b = f (unat a mod cap) # wring cap f (a + 1) b"
  unfolding wring_def unat_gap(1) by (simp add: map_upt_Suc algebra_simps del: upt_Suc)

lemma wring_back: "a \<noteq> b \<Longrightarrow> wring cap f a b = wring cap f a (b - 1) @ [f (unat (b - 1) mod cap)]"
proof -
  assume ne: "a \<noteq> b"
  have "b - 1 - a = of_nat (unat (b - 1 - a))" by simp
  then have "a + of_nat (unat (b - 1 - a)) = b - 1" by (simp add: algebra_simps)
  then show ?thesis unfolding wring_def unat_gap(2) [OF ne] by simp
qed

lemma wring_split:
  fixes a b c :: "'b::len word"
  assumes "unat (b - a) \<le> unat (c - a)"
  shows "wring cap f a c = wring cap f a b @ wring cap f b c"
proof -
  have "b - a \<le> c - a" using assms by (simp add: word_le_nat_alt)
  then have "unat (c - a - (b - a)) = unat (c - a) - unat (b - a)" by (rule unat_sub)
  then have n: "unat (c - a) = unat (b - a) + unat (c - b)" using assms by simp
  have b: "a + of_nat (k + unat (b - a)) = b + of_nat k" for k by (simp add: algebra_simps)
  have "map (\<lambda>k. f (unat (a + of_nat k) mod cap)) [unat (b - a)..<unat (b - a) + unat (c - b)]
      = map (\<lambda>k. f (unat (a + of_nat (k + unat (b - a))) mod cap)) [0..<unat (c - b)]"
    by (rule nth_equalityI) (simp_all add: add.commute)
  then show ?thesis unfolding wring_def n upt_add_eq_append [OF le0] map_append b by simp
qed

end
