(* ===== verification/Virtio_Theorems.thy ===== *)
theory Virtio_Theorems
  imports Virtio Ring_Buffers "HOL-Library.Multiset"
begin

text \<open>
  The disk driver together with a device that takes the chains it is given, in any order and at any time, does
  something for the request that the descriptors of a chain describe, and gives the head back with a status. The device
  is an argument, it may fail whenever it likes: each request gets its own transfer, requests do not share descriptors,
  and the driver only panics when the device has reported a failure.
\<close>

section \<open>The two rings\<close>

abbreviation dring :: "(nat \<Rightarrow> nat) \<Rightarrow> u16 \<Rightarrow> u16 \<Rightarrow> nat list" where
  "dring \<equiv> wring NUM"

lemma dring_push: "unat (b - a) < NUM \<Longrightarrow> dring (f(unat b mod NUM := x)) a (b + 1) = dring f a b @ [x]"
  by (rule wring_push) simp_all

lemma dring_pop: "a \<noteq> b \<Longrightarrow> dring f a b = f (unat a mod NUM) # dring f (a + 1) b"
  by (rule wring_pop)

text \<open>A ring with its two counters is a bounded queue.\<close>

type_synonym dqueue = "(nat \<Rightarrow> nat) \<times> u16 \<times> u16"

interpretation disk_ring: bounded_queue "\<lambda>(f, a, b). unat (b - a) \<le> NUM" "\<lambda>(f, a, b). dring f a b" NUM
  "\<lambda>x (f, a, b). (f(unat b mod NUM := x), a, b + 1)" "\<lambda>(f, a, b). (f (unat a mod NUM), (f, a + 1, b))"
proof unfold_locales
  fix q :: dqueue and x :: nat
  obtain f a b where q: "q = (f, a, b)" by (cases q)
  { assume "length (case q of (f, a, b) \<Rightarrow> dring f a b) < NUM"
    then have l: "unat (b - a) < NUM" by (simp add: q)
    note push = dring_push [OF this, of f x]
    have "unat (b + 1 - a) = length (dring (f(unat b mod NUM := x)) a (b + 1))" by simp
    then have "unat (b + 1 - a) \<le> NUM" unfolding push using l by simp
    then show "case case q of (f, a, b) \<Rightarrow> (f(unat b mod NUM := x), a, b + 1) of (f, a, b) \<Rightarrow> unat (b - a) \<le> NUM" by (simp add: q)
    show "(case case q of (f, a, b) \<Rightarrow> (f(unat b mod NUM := x), a, b + 1) of (f, a, b) \<Rightarrow> dring f a b) = (case q of (f, a, b) \<Rightarrow> dring f a b) @ [x]"
      using push by (simp add: q) }
  { assume inv: "case q of (f, a, b) \<Rightarrow> unat (b - a) \<le> NUM" and "(case q of (f, a, b) \<Rightarrow> dring f a b) \<noteq> []"
    then have "a \<noteq> b" by (auto simp: q)
    note pop = dring_pop [OF this, of f]
    have "length (dring f a b) = Suc (length (dring f (a + 1) b))" unfolding pop by simp
    then show "case snd (case q of (f, a, b) \<Rightarrow> (f (unat a mod NUM), f, a + 1, b)) of (f, a, b) \<Rightarrow> unat (b - a) \<le> NUM" using inv by (simp add: q)
    show "(case q of (f, a, b) \<Rightarrow> dring f a b) = fst (case q of (f, a, b) \<Rightarrow> (f (unat a mod NUM), f, a + 1, b))
        # (case snd (case q of (f, a, b) \<Rightarrow> (f (unat a mod NUM), f, a + 1, b)) of (f, a, b) \<Rightarrow> dring f a b)"
      using pop by (simp add: q) }
qed

section \<open>Driver and device\<close>

text \<open>
  What a process that sleeps in \<open>virtio_disk_rw\<close> knows: its buffer, the block, the direction and its descriptors.
\<close>

record req =
  rq_b :: nat
  rq_block :: nat
  rq_write :: bool
  rq_0 :: nat
  rq_1 :: nat
  rq_2 :: nat

text \<open>
  The device knows how far it has read the first ring and which chains it works on. \<open>x_blocks\<close> is the disk,
  \<open>x_data\<close> the data of the buffers in memory.
\<close>

record dsys =
  x_driver :: vdisk
  x_seen :: u16
  x_work :: "nat list"
  x_blocks :: "nat \<Rightarrow> block"
  x_data :: "nat \<Rightarrow> block"
  x_reqs :: "req list"

text \<open>
  The device, an argument of the model: for a request, the data of its buffer and the disk it may answer with a
  status byte, new data and a new disk. What the virtio specification (5.2.6) promises of it is that a status 0 means
  that the transfer was done; a sector has 512 bytes. Nothing is said of an answer with another status.
\<close>

type_synonym device = "vreq \<Rightarrow> block \<Rightarrow> (nat \<Rightarrow> block) \<Rightarrow> nat \<Rightarrow> block \<Rightarrow> (nat \<Rightarrow> block) \<Rightarrow> bool"

definition honest :: "device \<Rightarrow> bool" where
  "honest dev \<longleftrightarrow> (\<forall>q x D x' D'. dev q x D 0 x' D' \<longrightarrow>
     (if q_type q = VIRTIO_BLK_T_OUT then x' = x \<and> D' = D(q_sector q div 2 := x) else x' = D (q_sector q div 2) \<and> D' = D))"

text \<open>What the chain at \<open>h\<close> asks for: the request, the buffer, the place of the status.\<close>

definition chain_at :: "vdisk \<Rightarrow> nat \<Rightarrow> (vreq \<times> nat \<times> nat) option" where
  "chain_at d h =
     (let c0 = v_desc d h; c1 = v_desc d (d_next c0); c2 = v_desc d (d_next c1) in
      case (d_addr c0, d_addr c1, d_addr c2) of
        (Ops k, Data b, Status j) \<Rightarrow>
          if d_flags c0 AND VRING_DESC_F_NEXT \<noteq> 0 \<and> d_flags c1 AND VRING_DESC_F_NEXT \<noteq> 0 then Some (v_ops d k, b, j) else None
      | _ \<Rightarrow> None)"

text \<open>The device answers the chain: it writes the data and the status where the chain says, and gives the head back.\<close>

definition device_do :: "device \<Rightarrow> nat \<Rightarrow> dsys \<Rightarrow> nat \<Rightarrow> dsys \<Rightarrow> bool" where
  "device_do dev h s st s' \<longleftrightarrow>
     (case chain_at (x_driver s) h of
        None \<Rightarrow> False
      | Some (q, b, j) \<Rightarrow> \<exists>x' D'. dev q (x_data s b) (x_blocks s) st x' D'
          \<and> s' = s\<lparr>x_blocks := D', x_data := (x_data s)(b := x'), x_work := remove1 h (x_work s),
                  x_driver := (x_driver s)\<lparr>v_status := (v_status (x_driver s))(j := st),
                    v_used := (v_used (x_driver s))(unat (v_used_dev (x_driver s)) mod NUM := h),
                    v_used_dev := v_used_dev (x_driver s) + 1\<rparr>\<rparr>)"

text \<open>
  Processes begin and end requests (a buffer is locked by the process that asks for it), the device takes chains
  and works on them, the handler runs.
\<close>

inductive disk_step :: "device \<Rightarrow> dsys \<Rightarrow> dsys \<Rightarrow> bool" for dev where
  begin_step: "b \<notin> rq_b ` set (x_reqs s) \<Longrightarrow> blk < 2 ^ 31 \<Longrightarrow> disk_rw_begin b blk wr (x_driver s) = Ret ((i0, i1, i2), d')
     \<Longrightarrow> disk_step dev s (s\<lparr>x_driver := d', x_reqs := \<lparr>rq_b = b, rq_block = blk, rq_write = wr, rq_0 = i0, rq_1 = i1, rq_2 = i2\<rparr> # x_reqs s\<rparr>)"
| take_step: "x_seen s \<noteq> v_avail_idx (x_driver s)
     \<Longrightarrow> disk_step dev s (s\<lparr>x_work := v_avail (x_driver s) (unat (x_seen s) mod NUM) # x_work s, x_seen := x_seen s + 1\<rparr>)"
| do_step: "h \<in> set (x_work s) \<Longrightarrow> device_do dev h s st s' \<Longrightarrow> disk_step dev s s'"
| intr_step: "virtio_disk_intr (x_driver s) = Ret d' \<Longrightarrow> disk_step dev s (s\<lparr>x_driver := d'\<rparr>)"
| end_step: "r \<in> set (x_reqs s) \<Longrightarrow> disk_rw_end (rq_b r) (rq_0 r) (x_driver s) = Ret d'
     \<Longrightarrow> disk_step dev s (s\<lparr>x_driver := d', x_reqs := remove1 r (x_reqs s)\<rparr>)"

section \<open>The invariant\<close>

definition descs_of :: "req \<Rightarrow> nat list" where
  "descs_of r = [rq_0 r, rq_1 r, rq_2 r]"

definition chain_of :: "vdisk \<Rightarrow> req \<Rightarrow> bool" where
  "chain_of d r \<longleftrightarrow>
     v_desc d (rq_0 r) = \<lparr>d_addr = Ops (rq_0 r), d_len = 16, d_flags = 1, d_next = rq_1 r\<rparr>
   \<and> v_desc d (rq_1 r) = \<lparr>d_addr = Data (rq_b r), d_len = BSIZE, d_flags = (if rq_write r then 1 else 3), d_next = rq_2 r\<rparr>
   \<and> v_desc d (rq_2 r) = \<lparr>d_addr = Status (rq_0 r), d_len = 1, d_flags = 2, d_next = 0\<rparr>
   \<and> v_ops d (rq_0 r) = \<lparr>q_type = (if rq_write r then 1 else 0), q_reserved = 0, q_sector = rq_block r * 2\<rparr>
   \<and> v_info_b d (rq_0 r) = Some (rq_b r)"

definition queued :: "dsys \<Rightarrow> nat list" where
  "queued s = dring (v_avail (x_driver s)) (x_seen s) (v_avail_idx (x_driver s))"

definition answered :: "vdisk \<Rightarrow> nat list" where
  "answered d = dring (v_used d) (v_used_idx d) (v_used_dev d)"

definition disk_ok :: "dsys \<Rightarrow> bool" where
  "disk_ok s \<longleftrightarrow> (let d = x_driver s; R = x_reqs s in
     distinct (concat (map descs_of R)) \<and> set (concat (map descs_of R)) \<subseteq> {..<NUM}
   \<and> (\<forall>i < NUM. v_free d i \<longleftrightarrow> i \<notin> set (concat (map descs_of R)))
   \<and> (\<forall>r \<in> set R. chain_of d r \<and> rq_block r < 2 ^ 31)
   \<and> distinct (map rq_b R)
   \<and> mset (queued s) + mset (x_work s) + mset (answered d) = mset (map rq_0 (filter (\<lambda>r. v_busy d (rq_b r)) R))
   \<and> (\<forall>r \<in> set R. \<not> v_busy d (rq_b r) \<longrightarrow> v_status d (rq_0 r) = 0))"

lemma driver_okD:
  assumes "disk_ok s"
  shows "distinct (concat (map descs_of (x_reqs s)))" "set (concat (map descs_of (x_reqs s))) \<subseteq> {..<NUM}"
    "i < NUM \<Longrightarrow> v_free (x_driver s) i \<longleftrightarrow> i \<notin> set (concat (map descs_of (x_reqs s)))"
    "r \<in> set (x_reqs s) \<Longrightarrow> chain_of (x_driver s) r" "r \<in> set (x_reqs s) \<Longrightarrow> rq_block r < 2 ^ 31"
    "distinct (map rq_b (x_reqs s))"
    "mset (queued s) + mset (x_work s) + mset (answered (x_driver s))
       = mset (map rq_0 (filter (\<lambda>r. v_busy (x_driver s) (rq_b r)) (x_reqs s)))"
    "r \<in> set (x_reqs s) \<Longrightarrow> \<not> v_busy (x_driver s) (rq_b r) \<Longrightarrow> v_status (x_driver s) (rq_0 r) = 0"
  using assms unfolding disk_ok_def Let_def by blast+

lemma driver_okI:
  assumes "distinct (concat (map descs_of (x_reqs s)))" "set (concat (map descs_of (x_reqs s))) \<subseteq> {..<NUM}"
    "\<And>i. i < NUM \<Longrightarrow> v_free (x_driver s) i \<longleftrightarrow> i \<notin> set (concat (map descs_of (x_reqs s)))"
    "\<And>r. r \<in> set (x_reqs s) \<Longrightarrow> chain_of (x_driver s) r" "\<And>r. r \<in> set (x_reqs s) \<Longrightarrow> rq_block r < 2 ^ 31"
    "distinct (map rq_b (x_reqs s))"
    "mset (queued s) + mset (x_work s) + mset (answered (x_driver s))
       = mset (map rq_0 (filter (\<lambda>r. v_busy (x_driver s) (rq_b r)) (x_reqs s)))"
    "\<And>r. r \<in> set (x_reqs s) \<Longrightarrow> \<not> v_busy (x_driver s) (rq_b r) \<Longrightarrow> v_status (x_driver s) (rq_0 r) = 0"
  shows "disk_ok s"
  using assms unfolding disk_ok_def Let_def by blast

lemma length_descs: "length (concat (map descs_of R)) = 3 * length R"
  by (induction R) (simp_all add: descs_of_def)

text \<open>Two requests at most are under way, and the rings are never full.\<close>

lemma few_requests:
  assumes "disk_ok s"
  shows "length (x_reqs s) \<le> 2" "length (queued s) \<le> 2" "length (answered (x_driver s)) \<le> 2"
proof -
  have "3 * length (x_reqs s) \<le> card {..<NUM}"
    using card_mono [OF _ driver_okD(2) [OF assms]] distinct_card [OF driver_okD(1) [OF assms]] by (simp add: length_descs)
  then show l: "length (x_reqs s) \<le> 2" by simp
  have "length (queued s) + length (x_work s) + length (answered (x_driver s)) \<le> length (x_reqs s)"
  proof -
    have "size (mset (queued s) + mset (x_work s) + mset (answered (x_driver s))) \<le> length (x_reqs s)"
      unfolding driver_okD(7) [OF assms] size_mset length_map by (rule length_filter_le)
    then show ?thesis by simp
  qed
  then show "length (queued s) \<le> 2" "length (answered (x_driver s)) \<le> 2" using l by simp_all
qed

text \<open>The head of a chain that is anywhere on its way belongs to a request whose process waits.\<close>

lemma head_of_request:
  assumes "disk_ok s" "h \<in># mset (queued s) + mset (x_work s) + mset (answered (x_driver s))"
  obtains r where "r \<in> set (x_reqs s)" "rq_0 r = h" "v_busy (x_driver s) (rq_b r)"
  using assms(2) unfolding driver_okD(7) [OF assms(1)] by auto

lemma one_request:
  assumes "disk_ok s" "r \<in> set (x_reqs s)"
  obtains xs ys where "x_reqs s = xs @ r # ys" "remove1 r (x_reqs s) = xs @ ys"
    "\<And>q. q \<in> set xs \<union> set ys \<Longrightarrow> rq_b q \<noteq> rq_b r \<and> set (descs_of q) \<inter> set (descs_of r) = {}"
proof -
  obtain xs ys where xy: "x_reqs s = xs @ r # ys" using split_list [OF assms(2)] by blast
  have b: "rq_b q \<noteq> rq_b r \<and> set (descs_of q) \<inter> set (descs_of r) = {}" if "q \<in> set xs \<union> set ys" for q
    using driver_okD(1,6) [OF assms(1)] that unfolding xy by (auto 0 3 simp: image_iff)
  then have "r \<notin> set xs" by blast
  then show thesis using that [OF xy _ b] by (simp add: xy remove1_append)
qed

section \<open>Every step keeps the invariant\<close>

lemma alloc3_Some:
  assumes "alloc3_desc d = Ret (Some got, d')"
  obtains i0 i1 i2 where "got = [i0, i1, i2]" "distinct [i0, i1, i2]" "\<forall>i \<in> {i0, i1, i2}. i < NUM \<and> v_free d i"
    "d' = d\<lparr>v_free := (v_free d)(i0 := False, i1 := False, i2 := False)\<rparr>"
proof -
  have pick: "i < NUM \<and> v_free d i \<and> d1 = d\<lparr>v_free := (v_free d)(i := False)\<rparr>" if "alloc_desc d = (Some i, d1)" for i d d1
    using that by (auto simp: alloc_desc_def find_Some_iff split: option.splits)
  have fail: "bind_outcome m (\<lambda>d. Ret (None, d)) \<noteq> Ret (Some g, e)" for m :: "vdisk outcome" and g :: "nat list" and e
    by (cases m) auto
  obtain i0 d0 where 0: "alloc_desc d = (Some i0, d0)"
    using assms by (auto simp: alloc3_desc_def numeral_3_eq_3 fail split: prod.splits option.splits)
  obtain i1 d1 where 1: "alloc_desc d0 = (Some i1, d1)"
    using assms 0 fail by (auto simp: alloc3_desc_def numeral_3_eq_3 simp del: free_all.simps split: prod.splits option.splits)
  obtain i2 d2 where 2: "alloc_desc d1 = (Some i2, d2)"
    using assms 0 1 fail by (auto simp: alloc3_desc_def numeral_3_eq_3 simp del: free_all.simps split: prod.splits option.splits)
  have "got = [i0, i1, i2]" "d' = d2" using assms 0 1 2 by (auto simp: alloc3_desc_def numeral_3_eq_3)
  then show thesis using pick [OF 0] pick [OF 1] pick [OF 2] by (intro that [of i0 i1 i2]) (auto split: if_splits)
qed

lemma begin_ok:
  assumes ok: "disk_ok s" and b: "b \<notin> rq_b ` set (x_reqs s)" "blk < 2 ^ 31"
    and run: "disk_rw_begin b blk wr (x_driver s) = Ret ((i0, i1, i2), d')"
  shows "disk_ok (s\<lparr>x_driver := d', x_reqs := \<lparr>rq_b = b, rq_block = blk, rq_write = wr, rq_0 = i0, rq_1 = i1, rq_2 = i2\<rparr> # x_reqs s\<rparr>)"
proof -
  let ?d = "x_driver s" and ?r = "\<lparr>rq_b = b, rq_block = blk, rq_write = wr, rq_0 = i0, rq_1 = i1, rq_2 = i2\<rparr>"
  obtain got d1 where al: "alloc3_desc ?d = Ret (got, d1)"
    using run by (cases "alloc3_desc ?d") (auto simp: disk_rw_begin_def)
  obtain g where g: "got = Some g" using run al by (cases got) (auto simp: disk_rw_begin_def)
  obtain j0 j1 j2 where j: "g = [j0, j1, j2]" "distinct [j0, j1, j2]" "\<forall>i \<in> {j0, j1, j2}. i < NUM \<and> v_free ?d i"
    "d1 = ?d\<lparr>v_free := (v_free ?d)(j0 := False, j1 := False, j2 := False)\<rparr>"
    using alloc3_Some [OF al [unfolded g]] .
  have i: "j0 = i0" "j1 = i1" "j2 = i2" and d': "d' = disk_submit b blk wr i0 i1 i2 d1"
    using run by (auto simp: disk_rw_begin_def al g j(1))
  note J = j(2,3) [unfolded i]
  define D where "D = set (concat (map descs_of (x_reqs s)))"
  have fresh: "i0 \<notin> D" "i1 \<notin> D" "i2 \<notin> D" using J(2) driver_okD(3) [OF ok] unfolding D_def by auto
  have ne: "i0 \<noteq> i1" "i0 \<noteq> i2" "i1 \<noteq> i2" using J(1) by auto
  note sub = disk_submit_def Let_def set_desc_def
  have chain: "chain_of d' ?r" using ne b(2) by (auto simp: chain_of_def d' sub)
  have rest: "chain_of d' r" if r: "r \<in> set (x_reqs s)" for r
  proof -
    have "rq_0 r \<in> D" "rq_1 r \<in> D" "rq_2 r \<in> D" using r unfolding D_def by (auto simp: descs_of_def)
    then have "rq_0 r \<notin> {i0, i1, i2}" "rq_1 r \<notin> {i0, i1, i2}" "rq_2 r \<notin> {i0, i1, i2}" using fresh by auto
    then show ?thesis using driver_okD(4) [OF ok r] by (simp add: chain_of_def d' sub j(4) i)
  qed
  have busy: "v_busy d' = (v_busy ?d)(b := True)" and status: "v_status d' = (v_status ?d)(i0 := 255)"
    and free: "v_free d' = (v_free ?d)(i0 := False, i1 := False, i2 := False)" and ans: "answered d' = answered ?d"
    by (simp_all add: d' sub j(4) i answered_def)
  have q: "dring (v_avail d') (x_seen s) (v_avail_idx d') = queued s @ [i0]"
    using few_requests(2) [OF ok] dring_push [of "v_avail_idx ?d" "x_seen s" "v_avail ?d" i0]
    by (simp add: d' sub j(4) i queued_def)
  have fil: "filter (\<lambda>r. v_busy d' (rq_b r)) (x_reqs s) = filter (\<lambda>r. v_busy ?d (rq_b r)) (x_reqs s)"
    using b(1) by (intro filter_cong) (auto simp: busy)
  have in_ans: "set (answered ?d) \<subseteq> D"
  proof
    fix h assume "h \<in> set (answered ?d)"
    then obtain r where "r \<in> set (x_reqs s)" "rq_0 r = h" using head_of_request [OF ok, of h] by auto
    then show "h \<in> D" unfolding D_def by (auto simp: descs_of_def)
  qed
  let ?s = "s\<lparr>x_driver := d', x_reqs := ?r # x_reqs s\<rparr>"
  have parts: "x_driver ?s = d'" "x_reqs ?s = ?r # x_reqs s" "x_work ?s = x_work s" by simp_all
  show ?thesis
  proof (rule driver_okI, unfold parts)
    show "distinct (concat (map descs_of (?r # x_reqs s)))" using driver_okD(1) [OF ok] ne fresh unfolding D_def by (auto simp: descs_of_def)
    show "set (concat (map descs_of (?r # x_reqs s))) \<subseteq> {..<NUM}" using driver_okD(2) [OF ok] J(2) by (auto simp: descs_of_def)
    show "v_free d' i \<longleftrightarrow> i \<notin> set (concat (map descs_of (?r # x_reqs s)))" if "i < NUM" for i
      using driver_okD(3) [OF ok that] unfolding free by (auto simp: descs_of_def)
    show "chain_of d' r" if "r \<in> set (?r # x_reqs s)" for r using that chain rest by auto
    show "rq_block r < 2 ^ 31" if "r \<in> set (?r # x_reqs s)" for r using that b(2) driver_okD(5) [OF ok] by auto
    show "distinct (map rq_b (?r # x_reqs s))" using b(1) driver_okD(6) [OF ok] by simp
    show "mset (queued (s\<lparr>x_driver := d', x_reqs := ?r # x_reqs s\<rparr>)) + mset (x_work s) + mset (answered d')
        = mset (map rq_0 (filter (\<lambda>r. v_busy d' (rq_b r)) (?r # x_reqs s)))"
      using driver_okD(7) [OF ok] by (simp add: queued_def q ans fil busy [THEN fun_cong, of b] flip: fil)
    show "v_status d' (rq_0 r) = 0" if "r \<in> set (?r # x_reqs s)" "\<not> v_busy d' (rq_b r)" for r
    proof -
      have "r \<noteq> ?r" using that(2) fresh(1) in_ans by (auto simp: ans busy)
      then have r: "r \<in> set (x_reqs s)" using that(1) by simp
      then have "rq_0 r \<in> D" unfolding D_def by (auto simp: descs_of_def)
      then have "rq_0 r \<noteq> i0" using fresh by auto
      moreover have "rq_b r \<noteq> b" using r b(1) by auto
      ultimately show ?thesis using driver_okD(8) [OF ok r] that(2) by (simp add: status ans busy)
    qed
  qed
qed

lemma take_ok:
  assumes ok: "disk_ok s" and ne: "x_seen s \<noteq> v_avail_idx (x_driver s)"
  shows "disk_ok (s\<lparr>x_work := v_avail (x_driver s) (unat (x_seen s) mod NUM) # x_work s, x_seen := x_seen s + 1\<rparr>)"
proof -
  let ?s = "s\<lparr>x_work := v_avail (x_driver s) (unat (x_seen s) mod NUM) # x_work s, x_seen := x_seen s + 1\<rparr>"
  have parts: "x_driver ?s = x_driver s" "x_reqs ?s = x_reqs s" by simp_all
  have "queued s = v_avail (x_driver s) (unat (x_seen s) mod NUM) # queued ?s"
    unfolding queued_def using dring_pop [OF ne] by simp
  then have "mset (queued ?s) + mset (x_work ?s) = mset (queued s) + mset (x_work s)" by simp
  then show ?thesis using ok unfolding disk_ok_def parts by (simp only:)
qed

text \<open>The chain of a request asks for what the request wants.\<close>

definition vreq_of :: "req \<Rightarrow> vreq" where
  "vreq_of r = \<lparr>q_type = (if rq_write r then 1 else 0), q_reserved = 0, q_sector = rq_block r * 2\<rparr>"

lemma chain_at_request:
  "disk_ok s \<Longrightarrow> r \<in> set (x_reqs s) \<Longrightarrow> chain_at (x_driver s) (rq_0 r) = Some (vreq_of r, rq_b r, rq_0 r)"
  using driver_okD(4) [of s r] by (simp add: chain_at_def chain_of_def vreq_of_def Let_def)

lemma device_does:
  assumes ok: "disk_ok s" and r: "r \<in> set (x_reqs s)" and run: "device_do dev (rq_0 r) s st s'"
  obtains x' D' where "dev (vreq_of r) (x_data s (rq_b r)) (x_blocks s) st x' D'" "s' = s\<lparr>
     x_blocks := D', x_data := (x_data s)(rq_b r := x'), x_work := remove1 (rq_0 r) (x_work s),
     x_driver := (x_driver s)\<lparr>v_status := (v_status (x_driver s))(rq_0 r := st),
       v_used := (v_used (x_driver s))(unat (v_used_dev (x_driver s)) mod NUM := rq_0 r), v_used_dev := v_used_dev (x_driver s) + 1\<rparr>\<rparr>"
  using run chain_at_request [OF ok r] by (auto simp: device_do_def)

lemma do_ok:
  assumes ok: "disk_ok s" and h: "h \<in> set (x_work s)" and run: "device_do dev h s st s'"
  shows "disk_ok s'"
proof -
  obtain r where r: "r \<in> set (x_reqs s)" "rq_0 r = h" "v_busy (x_driver s) (rq_b r)"
    by (rule head_of_request [OF ok, of h]) (use h in auto)
  let ?d = "x_driver s" and ?d' = "x_driver s'"
  have parts: "x_reqs s' = x_reqs s" "queued s' = queued s" "x_work s' = remove1 h (x_work s)"
    "v_free ?d' = v_free ?d" "v_busy ?d' = v_busy ?d" "v_status ?d' = (v_status ?d)(h := st)" "chain_of ?d' q = chain_of ?d q" for q
    by (rule device_does [OF ok r(1) run [folded r(2)]]; use r(2) in \<open>auto simp: queued_def chain_of_def\<close>)+
  have a: "answered ?d' = answered ?d @ [h]"
    by (rule device_does [OF ok r(1) run [folded r(2)]])
      (use r(2) few_requests(3) [OF ok] dring_push [of "v_used_dev ?d" "v_used_idx ?d" "v_used ?d" h] in \<open>auto simp: answered_def\<close>)
  have others: "rq_0 q \<noteq> h" if "q \<in> set (x_reqs s)" "\<not> v_busy ?d (rq_b q)" for q
    using one_request [OF ok r(1)] that r(2,3) by (metis Int_iff Un_iff descs_of_def empty_iff list.set_intros(1) set_append set_ConsD list.set_cases split_list)
  show ?thesis
  proof (rule driver_okI, unfold parts a)
    have "mset (x_work s) = mset (remove1 h (x_work s)) + mset [h]" using h by simp
    then have "mset (queued s) + mset (remove1 h (x_work s)) + mset (answered ?d @ [h])
        = mset (queued s) + mset (x_work s) + mset (answered ?d)"
      unfolding mset_append by (simp only: ac_simps)
    then show "mset (queued s) + mset (remove1 h (x_work s)) + mset (answered ?d @ [h])
        = mset (map rq_0 (filter (\<lambda>r. v_busy ?d (rq_b r)) (x_reqs s)))"
      unfolding driver_okD(7) [OF ok] .
    show "((v_status ?d)(h := st)) (rq_0 q) = 0" if "q \<in> set (x_reqs s)" "\<not> v_busy ?d (rq_b q)" for q
      using driver_okD(8) [OF ok that] others [OF that] by simp
  qed (use driver_okD [OF ok] in blast)+
qed

lemma intr_one_ok:
  assumes ok: "disk_ok s" and ne: "v_used_idx (x_driver s) \<noteq> v_used_dev (x_driver s)"
    and good: "v_status (x_driver s) (hd (answered (x_driver s))) = 0"
  obtains d' where "intr_one (x_driver s) = Ret d'" "disk_ok (s\<lparr>x_driver := d'\<rparr>)"
    "answered (x_driver s) = hd (answered (x_driver s)) # answered d'" "v_status d' = v_status (x_driver s)"
proof -
  let ?d = "x_driver s"
  define h where "h = v_used ?d (unat (v_used_idx ?d) mod NUM)"
  have a: "answered ?d = h # dring (v_used ?d) (v_used_idx ?d + 1) (v_used_dev ?d)"
    unfolding answered_def h_def by (rule dring_pop [OF ne])
  obtain r where r: "r \<in> set (x_reqs s)" "rq_0 r = h" "v_busy ?d (rq_b r)"
    by (rule head_of_request [OF ok, of h]) (use a in auto)
  have st: "v_status ?d h = 0" using good a by simp
  have info: "v_info_b ?d h = Some (rq_b r)" using driver_okD(4) [OF ok r(1)] r(2) by (simp add: chain_of_def)
  define d' where "d' = ?d\<lparr>v_busy := (v_busy ?d)(rq_b r := False), v_used_idx := v_used_idx ?d + 1\<rparr>"
  have run: "intr_one ?d = Ret d'" using st info by (simp add: intr_one_def d'_def flip: h_def)
  have "disk_ok (s\<lparr>x_driver := d'\<rparr>)"
  proof -
    let ?s = "s\<lparr>x_driver := d'\<rparr>"
    have parts: "x_driver ?s = d'" "x_reqs ?s = x_reqs s" "x_work ?s = x_work s" "queued ?s = queued s" "v_free d' = v_free ?d"
      "v_status d' = v_status ?d" "chain_of d' q = chain_of ?d q" "answered d' = dring (v_used ?d) (v_used_idx ?d + 1) (v_used_dev ?d)" for q
      by (simp_all add: d'_def queued_def chain_of_def answered_def)
    obtain xs ys where xy: "x_reqs s = xs @ r # ys" "\<And>q. q \<in> set xs \<union> set ys \<Longrightarrow> rq_b q \<noteq> rq_b r \<and> set (descs_of q) \<inter> set (descs_of r) = {}"
      using one_request [OF ok r(1)] by metis
    have fil: "filter (\<lambda>q. v_busy d' (rq_b q)) zs = filter (\<lambda>q. v_busy ?d (rq_b q)) zs" if "set zs \<subseteq> set xs \<union> set ys" for zs
      using that xy(2) by (intro filter_cong) (auto simp: d'_def)
    have "mset (map rq_0 (filter (\<lambda>q. v_busy ?d (rq_b q)) (x_reqs s))) = add_mset h (mset (map rq_0 (filter (\<lambda>q. v_busy d' (rq_b q)) (x_reqs s))))"
      using r(2,3) by (simp add: xy(1) fil) (simp add: d'_def)
    then have sum: "mset (queued s) + mset (x_work s) + mset (answered d') = mset (map rq_0 (filter (\<lambda>q. v_busy d' (rq_b q)) (x_reqs s)))"
      using driver_okD(7) [OF ok] a by (simp add: parts)
    show ?thesis
    proof (rule driver_okI, unfold parts(1-7))
      show "v_status ?d (rq_0 q) = 0" if "q \<in> set (x_reqs s)" "\<not> v_busy d' (rq_b q)" for q
      proof (cases "q = r")
        case True
        then show ?thesis using st r(2) by simp
      next
        case False
        then have "rq_b q \<noteq> rq_b r" using that(1) xy by auto
        then have "\<not> v_busy ?d (rq_b q)" using that(2) by (simp add: d'_def)
        then show ?thesis by (rule driver_okD(8) [OF ok that(1)])
      qed
    qed (use driver_okD [OF ok] sum in blast)+
  qed
  moreover have "answered ?d = hd (answered ?d) # answered d'" using a by (simp add: answered_def d'_def)
  moreover have "v_status d' = v_status ?d" by (simp add: d'_def)
  ultimately show thesis using run that by blast
qed

lemma intr_one_bad:
  assumes "v_used_idx d \<noteq> v_used_dev d" "v_status d (hd (answered d)) \<noteq> 0"
  shows "intr_one d = Panics ''virtio_disk_intr status''"
  using assms(2) dring_pop [OF assms(1), of "v_used d"] by (simp add: answered_def intr_one_def Let_def)

text \<open>The handler runs to its end when the device has reported no failure, and panics otherwise.\<close>

definition all_good :: "vdisk \<Rightarrow> bool" where
  "all_good d \<longleftrightarrow> (\<forall>h \<in> set (answered d). v_status d h = 0)"

lemma intr_cases:
  "disk_ok s \<Longrightarrow> if all_good (x_driver s)
     then \<exists>d'. virtio_disk_intr (x_driver s) = Ret d' \<and> disk_ok (s\<lparr>x_driver := d'\<rparr>)
     else virtio_disk_intr (x_driver s) = Panics ''virtio_disk_intr status''"
proof (induction "unat (v_used_dev (x_driver s) - v_used_idx (x_driver s))" arbitrary: s rule: less_induct)
  case less
  show ?case
  proof (cases "v_used_idx (x_driver s) = v_used_dev (x_driver s)")
    case True
    then have "answered (x_driver s) = []" by (simp add: answered_def)
    with True show ?thesis using less.prems by (subst (1 2) virtio_disk_intr.simps) (simp add: all_good_def)
  next
    case False
    show ?thesis
    proof (cases "v_status (x_driver s) (hd (answered (x_driver s))) = 0")
      case bad: False
      have "answered (x_driver s) \<noteq> []" using dring_pop [OF False] by (simp add: answered_def)
      then have "\<not> all_good (x_driver s)" using bad by (auto simp: all_good_def)
      with False show ?thesis using intr_one_bad [OF False bad] by (subst (1 2) virtio_disk_intr.simps) simp
    next
      case True
      obtain d' where d': "intr_one (x_driver s) = Ret d'" "disk_ok (s\<lparr>x_driver := d'\<rparr>)"
        "answered (x_driver s) = hd (answered (x_driver s)) # answered d'" "v_status d' = v_status (x_driver s)"
        by (rule intr_one_ok [OF less.prems False True])
      have "set (answered (x_driver s)) = insert (hd (answered (x_driver s))) (set (answered d'))"
        using arg_cong [OF d'(3), of set] by simp
      then have "all_good d' = all_good (x_driver s)" unfolding all_good_def d'(4) using True by auto
      moreover have "if all_good (x_driver (s\<lparr>x_driver := d'\<rparr>))
        then \<exists>d2. virtio_disk_intr (x_driver (s\<lparr>x_driver := d'\<rparr>)) = Ret d2 \<and> disk_ok (s\<lparr>x_driver := d'\<rparr>\<lparr>x_driver := d2\<rparr>)
        else virtio_disk_intr (x_driver (s\<lparr>x_driver := d'\<rparr>)) = Panics ''virtio_disk_intr status''"
        by (rule less.hyps [OF _ d'(2)]) (use intr_one_idx [OF d'(1)] word_gap [OF not_sym [OF False]] in simp)
      moreover have "virtio_disk_intr (x_driver s) = virtio_disk_intr d'" using False d'(1) by (subst virtio_disk_intr.simps) simp
      ultimately show ?thesis by (auto split: if_splits)
    qed
  qed
qed

text \<open>The chain of a request is freed to its end, and nothing else.\<close>

lemma free_request:
  assumes ok: "disk_ok s" and r: "r \<in> set (x_reqs s)" and d: "d = (x_driver s)\<lparr>v_info_b := g\<rparr>"
  shows "free_chain (rq_0 r) d = Ret (d\<lparr>v_desc := (v_desc d)(rq_0 r := no_desc, rq_1 r := no_desc, rq_2 r := no_desc),
     v_free := (v_free d)(rq_0 r := True, rq_1 r := True, rq_2 r := True)\<rparr>)"
proof -
  have R: "set (descs_of r) \<subseteq> set (concat (map descs_of (x_reqs s)))" using r by auto
  have i: "i < NUM \<and> \<not> v_free d i" if "i \<in> set (descs_of r)" for i
    using R that driver_okD(2) [OF ok] driver_okD(3) [OF ok, of i] by (auto simp: d)
  have "distinct (descs_of r)" using driver_okD(1) [OF ok] split_list [OF r] by auto
  then have ne: "rq_0 r \<noteq> rq_1 r" "rq_0 r \<noteq> rq_2 r" "rq_1 r \<noteq> rq_2 r" by (simp_all add: descs_of_def)
  have I: "rq_0 r < NUM" "rq_1 r < NUM" "rq_2 r < NUM" "\<not> v_free d (rq_0 r)" "\<not> v_free d (rq_1 r)" "\<not> v_free d (rq_2 r)"
    using i [of "rq_0 r"] i [of "rq_1 r"] i [of "rq_2 r"] by (simp_all add: descs_of_def)
  have step: "free_chain i e = (if d_flags (v_desc e i) AND 1 \<noteq> 0
      then free_chain (d_next (v_desc e i)) (e\<lparr>v_desc := (v_desc e)(i := no_desc), v_free := (v_free e)(i := True)\<rparr>)
      else Ret (e\<lparr>v_desc := (v_desc e)(i := no_desc), v_free := (v_free e)(i := True)\<rparr>))" if "i < NUM" "\<not> v_free e i" for i e
    by (subst free_chain.simps) (use that in \<open>simp add: free_desc_def\<close>)
  have c: "v_desc d (rq_0 r) = \<lparr>d_addr = Ops (rq_0 r), d_len = 16, d_flags = 1, d_next = rq_1 r\<rparr>"
    "v_desc d (rq_1 r) = \<lparr>d_addr = Data (rq_b r), d_len = BSIZE, d_flags = (if rq_write r then 1 else 3), d_next = rq_2 r\<rparr>"
    "v_desc d (rq_2 r) = \<lparr>d_addr = Status (rq_0 r), d_len = 1, d_flags = 2, d_next = 0\<rparr>"
    using driver_okD(4) [OF ok r] by (simp_all add: chain_of_def d)
  let ?d1 = "d\<lparr>v_desc := (v_desc d)(rq_0 r := no_desc), v_free := (v_free d)(rq_0 r := True)\<rparr>"
  let ?d2 = "?d1\<lparr>v_desc := (v_desc ?d1)(rq_1 r := no_desc), v_free := (v_free ?d1)(rq_1 r := True)\<rparr>"
  have "free_chain (rq_0 r) d = free_chain (rq_1 r) ?d1"
    unfolding step [OF I(1,4)] by (simp add: c)
  also have "\<dots> = free_chain (rq_2 r) ?d2"
    using step [of "rq_1 r" ?d1] I ne c by simp
  also have "\<dots> = Ret (?d2\<lparr>v_desc := (v_desc ?d2)(rq_2 r := no_desc), v_free := (v_free ?d2)(rq_2 r := True)\<rparr>)"
    using step [of "rq_2 r" ?d2] I ne c by simp
  finally show ?thesis by simp
qed

lemma end_ok:
  assumes ok: "disk_ok s" and r: "r \<in> set (x_reqs s)" and run: "disk_rw_end (rq_b r) (rq_0 r) (x_driver s) = Ret d'"
  shows "disk_ok (s\<lparr>x_driver := d', x_reqs := remove1 r (x_reqs s)\<rparr>)"
proof -
  let ?d = "x_driver s" and ?s = "s\<lparr>x_driver := d', x_reqs := remove1 r (x_reqs s)\<rparr>"
  have nb: "\<not> v_busy ?d (rq_b r)" using run by (auto simp: disk_rw_end_def)
  have d': "d' = ?d\<lparr>v_info_b := (v_info_b ?d)(rq_0 r := None),
      v_desc := (v_desc ?d)(rq_0 r := no_desc, rq_1 r := no_desc, rq_2 r := no_desc),
      v_free := (v_free ?d)(rq_0 r := True, rq_1 r := True, rq_2 r := True)\<rparr>"
    using run nb free_request [OF ok r refl] by (auto simp: disk_rw_end_def)
  have parts: "x_driver ?s = d'" "x_reqs ?s = remove1 r (x_reqs s)" "x_work ?s = x_work s" "queued ?s = queued s"
    "v_status d' = v_status ?d" "v_busy d' = v_busy ?d" "answered d' = answered ?d"
    by (simp_all add: d' queued_def answered_def)
  obtain xs ys where xy: "x_reqs s = xs @ r # ys" "remove1 r (x_reqs s) = xs @ ys"
    "\<forall>q \<in> set xs \<union> set ys. rq_b q \<noteq> rq_b r \<and> set (descs_of q) \<inter> set (descs_of r) = {}"
    using one_request [OF ok r] by metis
  have sub: "q \<in> set (x_reqs s)" if "q \<in> set (xs @ ys)" for q using that by (auto simp: xy(1))
  show ?thesis
  proof (rule driver_okI, unfold parts, unfold xy(2))
    show "distinct (concat (map descs_of (xs @ ys)))" using driver_okD(1) [OF ok] unfolding xy(1) by auto
    show "set (concat (map descs_of (xs @ ys))) \<subseteq> {..<NUM}" using driver_okD(2) [OF ok] unfolding xy(1) by auto
    show "v_free d' i \<longleftrightarrow> i \<notin> set (concat (map descs_of (xs @ ys)))" if "i < NUM" for i
    proof (cases "i \<in> set (descs_of r)")
      case True
      then have "i \<notin> set (descs_of q)" if "q \<in> set (xs @ ys)" for q using xy(3) that by auto
      then show ?thesis using True by (auto simp: d' descs_of_def)
    next
      case False
      then have "v_free d' i = v_free ?d i" by (simp add: d' descs_of_def)
      then show ?thesis using driver_okD(3) [OF ok that] False unfolding xy(1) by auto
    qed
    show "chain_of d' q" if q: "q \<in> set (xs @ ys)" for q
    proof -
      have "set (descs_of q) \<inter> set (descs_of r) = {}" using xy(3) q by auto
      then have "rq_0 q \<notin> {rq_0 r, rq_1 r, rq_2 r}" "rq_1 q \<notin> {rq_0 r, rq_1 r, rq_2 r}" "rq_2 q \<notin> {rq_0 r, rq_1 r, rq_2 r}"
        by (auto simp: descs_of_def)
      then show ?thesis using driver_okD(4) [OF ok sub [OF q]] by (simp add: chain_of_def d')
    qed
    show "rq_block q < 2 ^ 31" if "q \<in> set (xs @ ys)" for q by (rule driver_okD(5) [OF ok sub [OF that]])
    show "distinct (map rq_b (xs @ ys))" using driver_okD(6) [OF ok] unfolding xy(1) by auto
    show "mset (queued s) + mset (x_work s) + mset (answered ?d) = mset (map rq_0 (filter (\<lambda>r. v_busy ?d (rq_b r)) (xs @ ys)))"
      using driver_okD(7) [OF ok] nb unfolding xy(1) by simp
    show "v_status ?d (rq_0 q) = 0" if "q \<in> set (xs @ ys)" "\<not> v_busy ?d (rq_b q)" for q
      by (rule driver_okD(8) [OF ok sub [OF that(1)] that(2)])
  qed
qed

lemma disk_step_ok: "disk_step dev s s' \<Longrightarrow> disk_ok s \<Longrightarrow> disk_ok s'"
proof (induction rule: disk_step.induct)
  case (intr_step s d')
  then show ?case using intr_cases [of s] by (auto split: if_splits)
qed (blast intro: begin_ok take_ok do_ok end_ok)+

definition disk_idle :: "dsys \<Rightarrow> bool" where
  "disk_idle s \<longleftrightarrow> x_driver s = disk_start \<and> x_seen s = 0 \<and> x_work s = [] \<and> x_reqs s = []"

interpretation disk: invariant_system disk_idle "disk_step dev" disk_ok for dev
proof unfold_locales
  show "disk_ok s" if "disk_idle s" for s
    using that by (intro driver_okI) (auto simp: disk_idle_def queued_def answered_def disk_start_def)
qed (rule disk_step_ok)

section \<open>Properties\<close>

text \<open>
  C11: Whatever processes ask for, whatever the device answers, and in whatever order it takes chains, answers them and
  interrupts: the requests under way share no descriptor; a chain that the device works on describes exactly one
  request under way, its kind, its block and its buffer, so a device that keeps its promise transfers exactly that block when it
  answers with success, and even when it fails it writes into no other buffer; the interrupt handler panics
  exactly when an answer it has not seen yet reports a failure; and when the flag of a buffer is
  cleared, the device has reported success for it, and the process frees its chain without a panic.
\<close>

theorem disk_requests_exact:
  assumes "disk_idle s" "(disk_step dev)\<^sup>*\<^sup>* s t" "honest dev"
  shows "distinct (concat (map descs_of (x_reqs t)))
    \<and> virtio_disk_intr (x_driver t) \<noteq> Sleeps
    \<and> ((\<exists>msg. virtio_disk_intr (x_driver t) = Panics msg) \<longleftrightarrow> (\<exists>h \<in> set (answered (x_driver t)). v_status (x_driver t) h \<noteq> 0))
    \<and> (\<forall>h \<in> set (x_work t). \<exists>r \<in> set (x_reqs t). rq_0 r = h \<and> v_busy (x_driver t) (rq_b r)
         \<and> chain_at (x_driver t) h = Some (vreq_of r, rq_b r, h)
         \<and> (\<forall>st t'. device_do dev h t st t' \<longrightarrow> v_status (x_driver t') h = st \<and> (\<forall>b. b \<noteq> rq_b r \<longrightarrow> x_data t' b = x_data t b)
              \<and> (st = 0 \<longrightarrow>
                   x_blocks t' = (if rq_write r then (x_blocks t)(rq_block r := x_data t (rq_b r)) else x_blocks t)
                 \<and> x_data t' = (if rq_write r then x_data t else (x_data t)(rq_b r := x_blocks t (rq_block r))))))
    \<and> (\<forall>r \<in> set (x_reqs t). \<not> v_busy (x_driver t) (rq_b r) \<longrightarrow>
         v_status (x_driver t) (rq_0 r) = 0 \<and> (\<exists>d. disk_rw_end (rq_b r) (rq_0 r) (x_driver t) = Ret d))"
proof (intro conjI ballI impI)
  have ok: "disk_ok t" by (rule disk.reachable_inv [OF assms(1,2)])
  show "distinct (concat (map descs_of (x_reqs t)))" by (rule driver_okD(1) [OF ok])
  show "virtio_disk_intr (x_driver t) \<noteq> Sleeps" using intr_cases [OF ok] by (auto split: if_splits)
  show "(\<exists>msg. virtio_disk_intr (x_driver t) = Panics msg) \<longleftrightarrow> (\<exists>h \<in> set (answered (x_driver t)). v_status (x_driver t) h \<noteq> 0)"
    using intr_cases [OF ok] by (auto simp: all_good_def split: if_splits)
  show "\<exists>r \<in> set (x_reqs t). rq_0 r = h \<and> v_busy (x_driver t) (rq_b r)
         \<and> chain_at (x_driver t) h = Some (vreq_of r, rq_b r, h)
         \<and> (\<forall>st t'. device_do dev h t st t' \<longrightarrow> v_status (x_driver t') h = st \<and> (\<forall>b. b \<noteq> rq_b r \<longrightarrow> x_data t' b = x_data t b)
              \<and> (st = 0 \<longrightarrow>
                   x_blocks t' = (if rq_write r then (x_blocks t)(rq_block r := x_data t (rq_b r)) else x_blocks t)
                 \<and> x_data t' = (if rq_write r then x_data t else (x_data t)(rq_b r := x_blocks t (rq_block r)))))"
    if h: "h \<in> set (x_work t)" for h
  proof -
    obtain r where r: "r \<in> set (x_reqs t)" "rq_0 r = h" "v_busy (x_driver t) (rq_b r)"
      by (rule head_of_request [OF ok, of h]) (use h in auto)
    have "v_status (x_driver t') h = st \<and> (\<forall>b. b \<noteq> rq_b r \<longrightarrow> x_data t' b = x_data t b)
        \<and> (st = 0 \<longrightarrow>
             x_blocks t' = (if rq_write r then (x_blocks t)(rq_block r := x_data t (rq_b r)) else x_blocks t)
           \<and> x_data t' = (if rq_write r then x_data t else (x_data t)(rq_b r := x_blocks t (rq_block r))))"
      if "device_do dev h t st t'" for st t'
      by (rule device_does [OF ok r(1) that [folded r(2)]])
        (use assms(3) r(2) in \<open>auto simp: honest_def vreq_of_def dest!: spec [of _ "vreq_of r"]\<close>)
    with r chain_at_request [OF ok r(1)] show ?thesis by (intro bexI [OF _ r(1)]) simp
  qed
  show "v_status (x_driver t) (rq_0 r) = 0" if "r \<in> set (x_reqs t)" "\<not> v_busy (x_driver t) (rq_b r)" for r
    using driver_okD(8) [OF ok that(1)] that(2) by blast
  show "\<exists>d. disk_rw_end (rq_b r) (rq_0 r) (x_driver t) = Ret d" if "r \<in> set (x_reqs t)" "\<not> v_busy (x_driver t) (rq_b r)" for r
    using that(2) free_request [OF ok that(1) refl] by (simp add: disk_rw_end_def)
qed

text \<open>A block is written, by a device that may also give up and report an I/O error.\<close>

definition idle_disk :: dsys where
  "idle_disk = \<lparr>x_driver = disk_start, x_seen = 0, x_work = [], x_blocks = (\<lambda>_. []), x_data = (\<lambda>b. if b = 3 then [42] else []), x_reqs = []\<rparr>"

definition moody_device :: device where
  "moody_device q x D st x' D' \<longleftrightarrow>
     (if st = 0 then (if q_type q = VIRTIO_BLK_T_OUT then x' = x \<and> D' = D(q_sector q div 2 := x) else x' = D (q_sector q div 2) \<and> D' = D)
      else st = 1 \<and> x' = x \<and> D' = D)"

theorem disk_requests_exact_witness:
  "\<exists>t t'. (disk_step moody_device)\<^sup>*\<^sup>* idle_disk t \<and> x_work t = [0] \<and> device_do moody_device 0 t 0 t' \<and> x_blocks t' 7 = [42]"
proof -
  define r where "r = \<lparr>rq_b = 3, rq_block = 7, rq_write = True, rq_0 = 0, rq_1 = 1, rq_2 = 2\<rparr>"
  define d where "d = disk_submit 3 7 True 0 1 2 (disk_start\<lparr>v_free := (\<lambda>_. True)(0 := False, 1 := False, 2 := False)\<rparr>)"
  have pick: "[0..<NUM] = [0, 1, 2, 3, 4, 5, 6, 7]" by (simp add: upt_rec)
  have al: "alloc3_desc disk_start = Ret (Some [0, 1, 2], disk_start\<lparr>v_free := (\<lambda>_. True)(0 := False, 1 := False, 2 := False)\<rparr>)"
    by (simp add: alloc3_desc_def numeral_3_eq_3 alloc_desc_def pick disk_start_def del: upt_Suc)
  have "disk_rw_begin 3 7 True (x_driver idle_disk) = Ret ((0, 1, 2), d)" by (simp add: disk_rw_begin_def idle_disk_def al d_def)
  from begin_step [OF _ _ this, where dev = moody_device]
  have 1: "disk_step moody_device idle_disk (idle_disk\<lparr>x_driver := d, x_reqs := [r]\<rparr>)" by (simp add: idle_disk_def r_def)
  let ?s = "idle_disk\<lparr>x_driver := d, x_reqs := [r]\<rparr>"
  have d: "v_avail_idx d = 1" "v_avail d 0 = 0" by (simp_all add: d_def disk_submit_def Let_def set_desc_def disk_start_def)
  have 2: "disk_step moody_device ?s (?s\<lparr>x_work := v_avail (x_driver ?s) (unat (x_seen ?s) mod NUM) # x_work ?s, x_seen := x_seen ?s + 1\<rparr>)"
    by (rule take_step) (simp add: d idle_disk_def)
  define t where "t = ?s\<lparr>x_work := v_avail (x_driver ?s) (unat (x_seen ?s) mod NUM) # x_work ?s, x_seen := x_seen ?s + 1\<rparr>"
  have run: "(disk_step moody_device)\<^sup>*\<^sup>* idle_disk t" using 1 2 unfolding t_def by (meson converse_rtranclp_into_rtranclp r_into_rtranclp)
  have w: "x_work t = [0]" "x_reqs t = [r]" "x_data t 3 = [42]" by (simp_all add: t_def d idle_disk_def)
  have "disk_idle idle_disk" by (simp add: disk_idle_def idle_disk_def)
  note exact = disk_requests_exact [OF this run, unfolded w]
  have honest: "honest moody_device" by (simp add: honest_def moody_device_def)
  have "chain_at (x_driver t) 0 = Some (vreq_of r, 3, 0)" using exact [OF honest] by (auto simp: r_def)
  then obtain t' where "device_do moody_device 0 t 0 t'"
    by (auto simp: device_do_def moody_device_def vreq_of_def split: if_splits)
  moreover from this have "x_blocks t' = (x_blocks t)(7 := x_data t 3)" using exact [OF honest] by (auto simp: r_def)
  ultimately show ?thesis using run w by (intro exI [of _ t] exI [of _ t']) simp
qed

end
