(* ===== verification/Console.thy ===== *)
theory Console
  imports Ring_Buffers
begin

text \<open>
  The console, \<open>kernel/console.c\<close>: the interrupt handler edits a line at the end of a ring of 128 characters and
  commits it; \<open>consoleread\<close> takes committed characters. A read that has to wait is cut at the sleep. The uart is the
  list of characters sent to it; copies to and from the user are arguments. A \<open>char\<close> is unsigned on this machine.
\<close>

section \<open>State and operations\<close>

abbreviation (input) INPUT_BUF_SIZE :: nat where "INPUT_BUF_SIZE \<equiv> 128"

record cons =
  c_buf :: "nat \<Rightarrow> byte"
  c_r :: "32 word"
  c_w :: "32 word"
  c_e :: "32 word"

definition cons_start :: cons where
  "cons_start = \<lparr>c_buf = (\<lambda>_. 0), c_r = 0, c_w = 0, c_e = 0\<rparr>"

text \<open>\<open>None\<close> stands for \<open>BACKSPACE\<close>; \<open>C(x)\<close> is the control character of a letter.\<close>

definition consputc :: "byte option \<Rightarrow> byte list" where
  "consputc c = (case c of None \<Rightarrow> [8, 32, 8] | Some c \<Rightarrow> [c])"

abbreviation (input) CTRL_D :: byte where "CTRL_D \<equiv> 4"
abbreviation (input) CTRL_H :: byte where "CTRL_H \<equiv> 8"
abbreviation (input) NEWLINE :: byte where "NEWLINE \<equiv> 10"
abbreviation (input) RETURN :: byte where "RETURN \<equiv> 13"
abbreviation (input) CTRL_P :: byte where "CTRL_P \<equiv> 16"
abbreviation (input) CTRL_U :: byte where "CTRL_U \<equiv> 21"
abbreviation (input) DELETE :: byte where "DELETE \<equiv> 127"

text \<open>What the handler does besides: characters for the uart, a list of processes, a wakeup of readers.\<close>

datatype cevent = Echo "byte list" | Procdump | Wakeup

function kill_line :: "cons \<Rightarrow> cevent list \<times> cons" where
  "kill_line s =
     (if c_e s \<noteq> c_w s \<and> c_buf s (unat (c_e s - 1) mod INPUT_BUF_SIZE) \<noteq> NEWLINE
      then (case kill_line (s\<lparr>c_e := c_e s - 1\<rparr>) of (evs, s') \<Rightarrow> (Echo (consputc None) # evs, s'))
      else ([], s))"
  by pat_completeness auto

termination
  by (relation "measure (\<lambda>s. unat (c_e s - c_w s))") (auto simp: unat_gap(2) [OF not_sym])

declare kill_line.simps [simp del]

definition consoleintr :: "byte \<Rightarrow> cons \<Rightarrow> cevent list \<times> cons" where
  "consoleintr c s =
     (if c = CTRL_P then ([Procdump], s)
      else if c = CTRL_U then kill_line s
      else if c = CTRL_H \<or> c = DELETE then
        (if c_e s \<noteq> c_w s then ([Echo (consputc None)], s\<lparr>c_e := c_e s - 1\<rparr>) else ([], s))
      else if c \<noteq> 0 \<and> unat (c_e s - c_r s) < INPUT_BUF_SIZE then
        (let c = (if c = RETURN then NEWLINE else c);
             s1 = s\<lparr>c_buf := (c_buf s)(unat (c_e s) mod INPUT_BUF_SIZE := c), c_e := c_e s + 1\<rparr>
         in if c = NEWLINE \<or> c = CTRL_D \<or> unat (c_e s1 - c_r s1) = INPUT_BUF_SIZE
            then ([Echo (consputc (Some c)), Wakeup], s1\<lparr>c_w := c_e s1\<rparr>)
            else ([Echo (consputc (Some c))], s1))
      else ([], s))"

datatype rprogress = Read_done int | Read_asleep int

text \<open>
  The loop of \<open>consoleread\<close> with \<open>n\<close> characters to go; \<open>copyout k\<close> says whether the \<open>k\<close>-th character can be copied. A
  character that cannot is lost. Also the characters copied.
\<close>

function consoleread_from :: "bool \<Rightarrow> (int \<Rightarrow> bool) \<Rightarrow> int \<Rightarrow> int \<Rightarrow> cons \<Rightarrow> rprogress \<times> byte list \<times> cons" where
  "consoleread_from is_killed copyout target n s =
     (if n > 0 then
        (if c_r s = c_w s then (if is_killed then Read_done (-1) else Read_asleep n, [], s)
         else let c = c_buf s (unat (c_r s) mod INPUT_BUF_SIZE); s1 = s\<lparr>c_r := c_r s + 1\<rparr> in
           if c = CTRL_D then (Read_done (target - n), [], if n < target then s else s1)
           else if \<not> copyout (target - n) then (Read_done (target - n), [], s1)
           else if c = NEWLINE then (Read_done (target - (n - 1)), [c], s1)
           else case consoleread_from is_killed copyout target (n - 1) s1 of (p, bs, s') \<Rightarrow> (p, c # bs, s'))
      else (Read_done (target - n), [], s))"
  by pat_completeness auto

termination by (relation "measure (\<lambda>(_, _, _, n, _). nat n)") auto

declare consoleread_from.simps [simp del]

definition consoleread :: "bool \<Rightarrow> (int \<Rightarrow> bool) \<Rightarrow> int \<Rightarrow> cons \<Rightarrow> rprogress \<times> byte list \<times> cons" where
  "consoleread is_killed copyout n s = consoleread_from is_killed copyout n n s"

text \<open>\<open>copyin i k\<close>: the \<open>k\<close> characters from the \<open>i\<close>-th on, if they can be copied. Also what the uart is given.\<close>

function consolewrite_from :: "(int \<Rightarrow> int \<Rightarrow> byte list option) \<Rightarrow> int \<Rightarrow> int \<Rightarrow> int \<times> byte list" where
  "consolewrite_from copyin i n =
     (if i < n then
        (let nn = (if 32 > n - i then n - i else 32) in
         case copyin i nn of
           None \<Rightarrow> (i, [])
         | Some bs \<Rightarrow> (case consolewrite_from copyin (i + nn) n of (r, out) \<Rightarrow> (r, bs @ out)))
      else (i, []))"
  by pat_completeness auto

termination by (relation "measure (\<lambda>(_, i, n). nat (n - i))") auto

declare consolewrite_from.simps [simp del]

definition consolewrite :: "(int \<Rightarrow> int \<Rightarrow> byte list option) \<Rightarrow> int \<Rightarrow> int \<times> byte list" where
  "consolewrite copyin n = consolewrite_from copyin 0 n"

section \<open>The line discipline\<close>

text \<open>What a reader may take, and the line that is being edited.\<close>

definition committed :: "cons \<Rightarrow> byte list" where
  "committed s = wring INPUT_BUF_SIZE (c_buf s) (c_r s) (c_w s)"

definition editing :: "cons \<Rightarrow> byte list" where
  "editing s = wring INPUT_BUF_SIZE (c_buf s) (c_w s) (c_e s)"

definition cons_ok :: "cons \<Rightarrow> bool" where
  "cons_ok s \<longleftrightarrow> unat (c_w s - c_r s) \<le> unat (c_e s - c_r s) \<and> unat (c_e s - c_r s) \<le> INPUT_BUF_SIZE \<and> NEWLINE \<notin> set (editing s)"

lemma cons_lengths:
  assumes "cons_ok s"
  shows "unat (c_e s - c_r s) = length (committed s) + length (editing s)"
    "wring INPUT_BUF_SIZE (c_buf s) (c_r s) (c_e s) = committed s @ editing s"
proof -
  show w: "wring INPUT_BUF_SIZE (c_buf s) (c_r s) (c_e s) = committed s @ editing s"
    unfolding committed_def editing_def by (rule wring_split) (use assms in \<open>simp add: cons_ok_def\<close>)
  show "unat (c_e s - c_r s) = length (committed s) + length (editing s)"
    using arg_cong [OF w, of length] by simp
qed

text \<open>The same on two lists: what the keys do to the line that is edited.\<close>

definition press :: "byte \<Rightarrow> byte list \<times> byte list \<Rightarrow> byte list \<times> byte list" where
  "press c = (\<lambda>(D, E).
     if c = CTRL_P then (D, E)
     else if c = CTRL_U then (D, [])
     else if c = CTRL_H \<or> c = DELETE then (D, butlast E)
     else if c \<noteq> 0 \<and> length D + length E < INPUT_BUF_SIZE then
       (let c = (if c = RETURN then NEWLINE else c) in
        if c = NEWLINE \<or> c = CTRL_D \<or> length D + length E + 1 = INPUT_BUF_SIZE then (D @ E @ [c], []) else (D, E @ [c]))
     else (D, E))"

text \<open>A reader takes characters up to the end of a line, an end of file, or as many as it wants.\<close>

fun take_line :: "int \<Rightarrow> int \<Rightarrow> byte list \<Rightarrow> int option \<times> byte list \<times> byte list" where
  "take_line target n D =
     (if n > 0 then
        (case D of
           [] \<Rightarrow> (None, [], [])
         | c # D' \<Rightarrow>
             if c = CTRL_D then (Some (target - n), [], if n < target then D else D')
             else if c = NEWLINE then (Some (target - (n - 1)), [c], D')
             else (case take_line target (n - 1) D' of (r, bs, rest) \<Rightarrow> (r, c # bs, rest)))
      else (Some (target - n), [], D))"

declare take_line.simps [simp del]

lemma kill_line_spec:
  assumes "cons_ok s"
  shows "snd (kill_line s) = s\<lparr>c_e := c_w s\<rparr>" "fst (kill_line s) = replicate (length (editing s)) (Echo (consputc None))"
proof -
  have "snd (kill_line s) = s\<lparr>c_e := c_w s\<rparr> \<and> fst (kill_line s) = replicate (length (editing s)) (Echo (consputc None))"
    if "NEWLINE \<notin> set (editing s)" for s
    using that
  proof (induction "unat (c_e s - c_w s)" arbitrary: s)
    case 0
    then have "c_e s = c_w s" by (simp add: unat_eq_0)
    then show ?case by (subst (1 2) kill_line.simps) (simp add: editing_def)
  next
    case (Suc n)
    then have ne: "c_w s \<noteq> c_e s" by auto
    let ?s = "s\<lparr>c_e := c_e s - 1\<rparr>"
    have ed: "editing s = editing ?s @ [c_buf s (unat (c_e s - 1) mod INPUT_BUF_SIZE)]"
      unfolding editing_def using wring_back [OF ne] by simp
    have "snd (kill_line ?s) = ?s\<lparr>c_e := c_w ?s\<rparr> \<and> fst (kill_line ?s) = replicate (length (editing ?s)) (Echo (consputc None))"
      using Suc.hyps(2) Suc.prems unat_gap(2) [OF ne] ed by (intro Suc.hyps(1)) simp_all
    moreover have "c_buf s (unat (c_e s - 1) mod INPUT_BUF_SIZE) \<noteq> NEWLINE" using Suc.prems ed by auto
    ultimately show ?case using ne ed by (subst (1 2) kill_line.simps) (cases "kill_line ?s", simp)
  qed
  then show "snd (kill_line s) = s\<lparr>c_e := c_w s\<rparr>" "fst (kill_line s) = replicate (length (editing s)) (Echo (consputc None))"
    using assms unfolding cons_ok_def by blast+
qed

text \<open>A character put behind the line that is edited, without and with a commit.\<close>

lemma type_char:
  assumes ok: "cons_ok s" and room: "unat (c_e s - c_r s) < INPUT_BUF_SIZE"
    and s1: "s1 = s\<lparr>c_buf := (c_buf s)(unat (c_e s) mod INPUT_BUF_SIZE := x), c_e := c_e s + 1\<rparr>"
  shows "committed s1 = committed s" "editing s1 = editing s @ [x]" "unat (c_e s1 - c_r s1) = Suc (unat (c_e s - c_r s))"
    "committed (s1\<lparr>c_w := c_e s1\<rparr>) = committed s @ editing s @ [x]" "editing (s1\<lparr>c_w := c_e s1\<rparr>) = []"
    "x \<noteq> NEWLINE \<Longrightarrow> cons_ok s1" "cons_ok (s1\<lparr>c_w := c_e s1\<rparr>)"
proof -
  have n: "unat (c_e s + 1 - c_r s) = Suc (unat (c_e s - c_r s))" by (rule unat_next [OF room]) simp
  then show n': "unat (c_e s1 - c_r s1) = Suc (unat (c_e s - c_r s))" by (simp add: s1)
  have whole: "wring INPUT_BUF_SIZE (c_buf s1) (c_r s) (c_e s + 1) = committed s @ editing s @ [x]"
    using wring_push [OF room, of "c_buf s" x] cons_lengths(2) [OF ok] by (simp add: s1)
  have w: "unat (c_w s - c_r s) \<le> unat (c_e s + 1 - c_r s)" using ok unfolding cons_ok_def n by simp
  have "committed s1 @ editing s1 = committed s @ editing s @ [x]"
    using wring_split [OF w, of INPUT_BUF_SIZE "c_buf s1"] whole by (simp add: committed_def editing_def s1)
  moreover have "length (committed s1) = length (committed s)" by (simp add: committed_def s1)
  ultimately show D: "committed s1 = committed s" and E: "editing s1 = editing s @ [x]" by (metis append_eq_append_conv)+
  show D': "committed (s1\<lparr>c_w := c_e s1\<rparr>) = committed s @ editing s @ [x]" and E': "editing (s1\<lparr>c_w := c_e s1\<rparr>) = []"
    using whole by (simp_all add: committed_def editing_def s1)
  have room': "Suc (unat (c_e s - c_r s)) \<le> INPUT_BUF_SIZE" using room by simp
  show "cons_ok s1" if "x \<noteq> NEWLINE" using ok that w room' n' E by (simp add: cons_ok_def s1)
  show "cons_ok (s1\<lparr>c_w := c_e s1\<rparr>)" using room' n' E' by (simp add: cons_ok_def)
qed

lemma erase_char:
  assumes ok: "cons_ok s" and ne: "c_e s \<noteq> c_w s"
  shows "cons_ok (s\<lparr>c_e := c_e s - 1\<rparr>)" "editing (s\<lparr>c_e := c_e s - 1\<rparr>) = butlast (editing s)"
proof -
  let ?s = "s\<lparr>c_e := c_e s - 1\<rparr>"
  have ed: "editing s = editing ?s @ [c_buf s (unat (c_e s - 1) mod INPUT_BUF_SIZE)]"
    unfolding editing_def using wring_back [OF ne [symmetric]] by simp
  then show "editing ?s = butlast (editing s)" by simp
  have l: "unat (c_e s - c_r s) = unat (c_w s - c_r s) + Suc (length (editing ?s))"
    using cons_lengths(1) [OF ok] ed by (simp add: committed_def)
  then have "c_r s \<noteq> c_e s" by auto
  from unat_gap(2) [OF this] have "unat (c_e s - 1 - c_r s) = unat (c_w s - c_r s) + length (editing ?s)" using l by simp
  then show "cons_ok ?s" using ok ed l by (simp add: cons_ok_def del: length_wring)
qed

lemma press_key:
  assumes ok: "cons_ok s"
  shows "cons_ok (snd (consoleintr c s))" "(committed (snd (consoleintr c s)), editing (snd (consoleintr c s))) = press c (committed s, editing s)"
proof -
  note len = cons_lengths(1) [OF ok]
  have "cons_ok (snd (consoleintr c s)) \<and> (committed (snd (consoleintr c s)), editing (snd (consoleintr c s))) = press c (committed s, editing s)"
  proof -
    consider "c = CTRL_P" | "c = CTRL_U" | "c = CTRL_H \<or> c = DELETE" | "c \<notin> {CTRL_P, CTRL_U, CTRL_H, DELETE}" by auto
    then show ?thesis
    proof cases
      case 2
      then show ?thesis using ok kill_line_spec(1) [OF ok] by (simp add: consoleintr_def press_def cons_ok_def committed_def editing_def)
    next
      case 3
      then have c: "c \<noteq> CTRL_P" "c \<noteq> CTRL_U" by auto
      show ?thesis
      proof (cases "c_e s = c_w s")
        case True
        then show ?thesis using 3 c ok by (simp add: consoleintr_def press_def editing_def)
      next
        case False
        then show ?thesis using 3 c erase_char [OF ok False] by (simp add: consoleintr_def press_def committed_def)
      qed
    next
      case 4
      show ?thesis
      proof (cases "c \<noteq> 0 \<and> unat (c_e s - c_r s) < INPUT_BUF_SIZE")
        case True
        define x where "x = (if c = RETURN then NEWLINE else c)"
        note t = type_char [OF ok _ refl, of x]
        show ?thesis using 4 True len t by (simp add: consoleintr_def press_def Let_def flip: x_def)
      qed (use 4 ok len in \<open>auto simp: consoleintr_def press_def\<close>)
    qed (use ok in \<open>simp add: consoleintr_def press_def\<close>)
  qed
  then show "cons_ok (snd (consoleintr c s))" "(committed (snd (consoleintr c s)), editing (snd (consoleintr c s))) = press c (committed s, editing s)"
    by blast+
qed

lemma read_line:
  assumes "cons_ok s" "\<And>k. copyout k"
  shows "(\<exists>p s'. consoleread_from k copyout target n s = (p, fst (snd (take_line target n (committed s))), s')
     \<and> p = (case fst (take_line target n (committed s)) of Some r \<Rightarrow> Read_done r
            | None \<Rightarrow> if k then Read_done (-1) else Read_asleep (n - int (length (committed s))))
     \<and> cons_ok s' \<and> committed s' = snd (snd (take_line target n (committed s))) \<and> editing s' = editing s)"
  using assms(1)
proof (induction "nat n" arbitrary: n s rule: less_induct)
  case less
  show ?case
  proof (cases "n > 0")
    case False
    then show ?thesis using less.prems by (subst consoleread_from.simps, subst (1 2 3) take_line.simps) simp
  next
    case True
    show ?thesis
    proof (cases "c_r s = c_w s")
      case empty: True
      then have "committed s = []" by (simp add: committed_def)
      then show ?thesis using True empty less.prems by (subst consoleread_from.simps, subst (1 2 3) take_line.simps) simp
    next
      case ne: False
      let ?c = "c_buf s (unat (c_r s) mod INPUT_BUF_SIZE)" and ?s = "s\<lparr>c_r := c_r s + 1\<rparr>"
      have D: "committed s = ?c # committed ?s" unfolding committed_def using wring_pop [OF ne] by simp
      have E: "editing ?s = editing s" by (simp add: editing_def)
      have ne': "c_r s \<noteq> c_e s" using cons_lengths(1) [OF less.prems] D by auto
      have ok: "cons_ok ?s" using less.prems unat_gap(1) [OF ne] unat_gap(1) [OF ne'] E by (simp add: cons_ok_def)
      show ?thesis
      proof (cases "?c = CTRL_D \<or> ?c = NEWLINE")
        case True
        then show ?thesis using \<open>n > 0\<close> ne less.prems ok D E assms(2)
          by (subst consoleread_from.simps, subst (1 2 3) take_line.simps) (auto simp: Let_def)
      next
        case False
        have m: "nat (n - 1) < nat n" using True by simp
        obtain p s' where r: "consoleread_from k copyout target (n - 1) ?s = (p, fst (snd (take_line target (n - 1) (committed ?s))), s')"
          "p = (case fst (take_line target (n - 1) (committed ?s)) of Some r \<Rightarrow> Read_done r
            | None \<Rightarrow> if k then Read_done (-1) else Read_asleep (n - 1 - int (length (committed ?s))))"
          "cons_ok s'" "committed s' = snd (snd (take_line target (n - 1) (committed ?s)))" "editing s' = editing s"
          using less.hyps [OF m ok] E by auto
        obtain x y z where t: "take_line target (n - 1) (committed ?s) = (x, y, z)" by (cases "take_line target (n - 1) (committed ?s)") auto
        have l: "n - int (length (committed s)) = n - 1 - int (length (committed ?s))" using D by simp
        have tl: "take_line target n (committed s) = (x, ?c # y, z)"
          using True False D t by (subst take_line.simps) simp
        have "consoleread_from k copyout target n s = (p, ?c # y, s')"
          using True False ne assms(2) r(1) t by (subst consoleread_from.simps) (simp add: Let_def)
        then show ?thesis using r(2-5) unfolding tl l t by (intro exI [of _ p] exI [of _ s']) simp
      qed
    qed
  qed
qed

section \<open>Properties\<close>

definition type_keys :: "byte list \<Rightarrow> cons \<Rightarrow> cons" where
  "type_keys cs s = fold (\<lambda>c s. snd (consoleintr c s)) cs s"

lemma typed:
  "cons_ok s \<Longrightarrow> cons_ok (type_keys cs s) \<and> (committed (type_keys cs s), editing (type_keys cs s)) = fold press cs (committed s, editing s)"
  by (induction cs arbitrary: s) (simp_all add: type_keys_def press_key)

text \<open>
  C29: Whatever keys are typed, the ring with its three wrapping counters is the line discipline on two lists (erase, kill,
  return as newline, commit at a newline, at an end of file and when the buffer is full, drop what does not fit), and a
  read gives the committed characters up to the end of the line, the end of file or the number wanted, or sleeps
  having taken all there are. Nothing typed is lost, doubled or reordered.
\<close>

theorem console_line_discipline:
  assumes "cons_ok s" "\<And>k. copyout k" "fold press keys (committed s, editing s) = (D, E)" "take_line n n D = (r, bs, rest)"
  shows "\<exists>s'. consoleread False copyout n (type_keys keys s)
      = ((case r of Some r \<Rightarrow> Read_done r | None \<Rightarrow> Read_asleep (n - int (length D))), bs, s')
    \<and> cons_ok s' \<and> committed s' = rest \<and> editing s' = E"
proof -
  have t: "cons_ok (type_keys keys s)" "committed (type_keys keys s) = D" "editing (type_keys keys s) = E"
    using typed [OF assms(1), of keys] assms(3) by simp_all
  from read_line [where copyout = copyout and k = False and target = n and n = n, OF t(1) assms(2)]
  show ?thesis unfolding t(2,3) assms(4) consoleread_def by auto
qed

text \<open>\<open>a b\<close>, an erase, \<open>c\<close> and return: the reader gets \<open>ac\<close> and a newline.\<close>

theorem console_line_discipline_witness:
  "\<exists>s'. consoleread False (\<lambda>_. True) 10 (type_keys [97, 98, 8, 99, 13] cons_start) = (Read_done 3, [97, 99, 10], s') \<and> committed s' = []"
proof -
  have ok: "cons_ok cons_start" "committed cons_start = []" "editing cons_start = []"
    by (simp_all add: cons_ok_def committed_def editing_def cons_start_def)
  have k: "fold press [97, 98, 8, 99, 13] (committed cons_start, editing cons_start) = ([97, 99, 10], [])"
    by (simp add: ok press_def)
  have t: "take_line 10 10 [97, 99, 10] = (Some 3, [97, 99, 10], [])"
    by (subst take_line.simps, subst take_line.simps, subst take_line.simps) simp
  from console_line_discipline [OF ok(1) _ k t, of "\<lambda>_. True"] show ?thesis by auto
qed

text \<open>What a process writes reaches the uart, in order and without change, up to the first batch that cannot be copied.\<close>

lemma consolewrite_all:
  assumes "length bs = nat n" "\<And>i k. copyin i k = Some (take (nat k) (drop (nat i) bs))" "0 \<le> i" "i \<le> n"
  shows "consolewrite_from copyin i n = (n, drop (nat i) bs)"
  using assms(3,4)
proof (induction "nat (n - i)" arbitrary: i rule: less_induct)
  case less
  show ?case
  proof (cases "i < n")
    case True
    let ?nn = "if 32 > n - i then n - i else 32"
    have "consolewrite_from copyin (i + ?nn) n = (n, drop (nat (i + ?nn)) bs)"
      by (rule less.hyps) (use True less.prems in auto)
    moreover have "take (nat ?nn) (drop (nat i) bs) @ drop (nat (i + ?nn)) bs = drop (nat i) bs"
      using append_take_drop_id [of "nat ?nn" "drop (nat i) bs"] True less.prems by (simp add: nat_add_distrib add.commute)
    ultimately show ?thesis using True by (subst consolewrite_from.simps) (simp add: assms(2) Let_def split: if_splits)
  next
    case False
    then show ?thesis using less.prems assms(1) by (subst consolewrite_from.simps) simp
  qed
qed

end
