(* ===== verification/Printf.thy ===== *)
theory Printf
  imports Console
begin

text \<open>
  Formatted output: \<open>kernel/printf.c\<close>, which writes to the console, and \<open>user/printf.c\<close>, which writes to a file.
  The arguments after the format are a list of 64-bit slots, a string argument is read through \<open>strings\<close>, and
  \<open>None\<close> stands for undefined behaviour: a store behind \<open>buf[20]\<close> or a missing argument.
\<close>

unbundle bit_operations_syntax

section \<open>Numbers\<close>

abbreviation (input) BUF_LEN :: nat where "BUF_LEN \<equiv> 20"
abbreviation (input) MINUS :: byte where "MINUS \<equiv> 45"
abbreviation (input) PERCENT :: byte where "PERCENT \<equiv> 37"

definition kdigits :: "byte list" where
  "kdigits = map byte_of_char ''0123456789abcdef''"

definition udigits :: "byte list" where
  "udigits = map byte_of_char ''0123456789ABCDEF''"

text \<open>The digits stored from index \<open>i\<close> on, the lowest first.\<close>

function store_digits :: "byte list \<Rightarrow> u64 \<Rightarrow> nat \<Rightarrow> u64 \<Rightarrow> byte list option" where
  "store_digits digits base i x =
     (if i \<ge> BUF_LEN then None
      else if x div base \<noteq> 0
      then map_option ((#) (digits ! unat (x mod base))) (store_digits digits base (i + 1) (x div base))
      else Some [digits ! unat (x mod base)])"
  by pat_completeness auto

termination by (relation "measure (\<lambda>(_, _, i, _). BUF_LEN - i)") auto

declare store_digits.simps [simp del]

text \<open>What \<open>printint\<close> sends, in the order it sends it.\<close>

definition printint :: "byte list \<Rightarrow> u64 \<Rightarrow> u64 \<Rightarrow> bool \<Rightarrow> byte list option" where
  "printint digits xx base sign =
     (let neg = sign \<and> xx <s 0; x = (if neg then - xx else xx) in
      case store_digits digits base 0 x of
        None \<Rightarrow> None
      | Some buf \<Rightarrow>
          if neg then (if length buf < BUF_LEN then Some (rev (buf @ [MINUS])) else None) else Some (rev buf))"

primrec print_nibbles :: "byte list \<Rightarrow> nat \<Rightarrow> u64 \<Rightarrow> byte list" where
  "print_nibbles digits 0 x = []"
| "print_nibbles digits (Suc n) x = digits ! unat (drop_bit 60 x) # print_nibbles digits n (push_bit 4 x)"

definition printptr :: "byte list \<Rightarrow> u64 \<Rightarrow> byte list" where
  "printptr digits x = [48, 120] @ print_nibbles digits 16 x"

section \<open>Formats\<close>

text \<open>\<open>fmt[i]\<close>, and an argument as an \<open>int\<close>, an \<open>unsigned int\<close> or 64 bits.\<close>

definition fmt_at :: "byte list \<Rightarrow> nat \<Rightarrow> byte" where
  "fmt_at fmt i = (if i < length fmt then fmt ! i else 0)"

definition arg_int :: "u64 \<Rightarrow> u64" where
  "arg_int a = signed_take_bit 31 a"

definition arg_uint :: "u64 \<Rightarrow> u64" where
  "arg_uint a = take_bit 32 a"

definition append_out :: "byte list option \<Rightarrow> byte list option \<Rightarrow> byte list option" where
  "append_out a b = (case a of None \<Rightarrow> None | Some xs \<Rightarrow> map_option ((@) xs) b)"

definition null_string :: "byte list" where
  "null_string = map byte_of_char ''(null)''"

text \<open>
  A conversion that takes an argument, with the number of characters the index advances beyond the first; the
  letters are \<open>d l u x p c s\<close>. The last case is a letter that takes none.
\<close>

datatype conv = Conv nat "u64 \<Rightarrow> byte list option" | No_arg

definition kconv :: "byte list \<Rightarrow> (u64 \<Rightarrow> byte list) \<Rightarrow> byte \<Rightarrow> byte \<Rightarrow> byte \<Rightarrow> conv" where
  "kconv digits strings c0 c1 c2 =
     (if c0 = 100 then Conv 0 (\<lambda>a. printint digits (arg_int a) 10 True)
      else if c0 = 108 \<and> c1 = 100 then Conv 1 (\<lambda>a. printint digits a 10 True)
      else if c0 = 108 \<and> c1 = 108 \<and> c2 = 100 then Conv 2 (\<lambda>a. printint digits a 10 True)
      else if c0 = 117 then Conv 0 (\<lambda>a. printint digits (arg_uint a) 10 False)
      else if c0 = 108 \<and> c1 = 117 then Conv 1 (\<lambda>a. printint digits a 10 False)
      else if c0 = 108 \<and> c1 = 108 \<and> c2 = 117 then Conv 2 (\<lambda>a. printint digits a 10 False)
      else if c0 = 120 then Conv 0 (\<lambda>a. printint digits (arg_uint a) 16 False)
      else if c0 = 108 \<and> c1 = 120 then Conv 1 (\<lambda>a. printint digits a 16 False)
      else if c0 = 108 \<and> c1 = 108 \<and> c2 = 120 then Conv 2 (\<lambda>a. printint digits a 16 False)
      else if c0 = 112 then Conv 0 (\<lambda>a. Some (printptr digits a))
      else if c0 = 99 then Conv 0 (\<lambda>a. Some (consputc (if arg_uint a = 0x100 then None else Some (ucast a))))
      else if c0 = 115 then Conv 0 (\<lambda>a. Some (if a = 0 then null_string else strings a))
      else No_arg)"

text \<open>The loop of the kernel's \<open>printf\<close>.\<close>

function printf_from :: "byte list \<Rightarrow> (u64 \<Rightarrow> byte list) \<Rightarrow> byte list \<Rightarrow> nat \<Rightarrow> u64 list \<Rightarrow> byte list option" where
  "printf_from digits strings fmt i args =
     (let cx = fmt_at fmt i in
      if cx = 0 then Some []
      else if cx \<noteq> PERCENT then append_out (Some [cx]) (printf_from digits strings fmt (i + 1) args)
      else
        (let i1 = i + 1; c0 = fmt_at fmt i1;
             c1 = (if c0 \<noteq> 0 then fmt_at fmt (i1 + 1) else 0);
             c2 = (if c1 \<noteq> 0 then fmt_at fmt (i1 + 2) else 0)
         in case kconv digits strings c0 c1 c2 of
              Conv k out \<Rightarrow>
                (case args of [] \<Rightarrow> None | a # args1 \<Rightarrow> append_out (out a) (printf_from digits strings fmt (i1 + k + 1) args1))
            | No_arg \<Rightarrow>
                if c0 = PERCENT then append_out (Some [PERCENT]) (printf_from digits strings fmt (i1 + 1) args)
                else if c0 = 0 then Some []
                else append_out (Some [PERCENT, c0]) (printf_from digits strings fmt (i1 + 1) args)))"
  by pat_completeness auto

termination
  by (relation "measure (\<lambda>(_, _, fmt, i, _). length fmt - i)") (auto simp: fmt_at_def Let_def split: if_splits)

declare printf_from.simps [simp del]

definition kprintf :: "(u64 \<Rightarrow> byte list) \<Rightarrow> byte list \<Rightarrow> u64 list \<Rightarrow> byte list option" where
  "kprintf strings fmt args = printf_from kdigits strings fmt 0 args"

text \<open>What \<open>panic\<close> prints.\<close>

definition panic_message :: "(u64 \<Rightarrow> byte list) \<Rightarrow> u64 \<Rightarrow> byte list option" where
  "panic_message strings s =
     append_out (kprintf strings (map byte_of_char ''panic: '') [])
       (kprintf strings (map byte_of_char [CHR ''%'', CHR ''s'', CHR 0x0A]) [s])"

text \<open>The user's conversions: the same but for \<open>%c\<close>, and its \<open>vprintf\<close>, which keeps a state.\<close>

definition uconv :: "byte list \<Rightarrow> (u64 \<Rightarrow> byte list) \<Rightarrow> byte \<Rightarrow> byte \<Rightarrow> byte \<Rightarrow> conv" where
  "uconv digits strings c0 c1 c2 =
     (if c0 = 100 then Conv 0 (\<lambda>a. printint digits (arg_int a) 10 True)
      else if c0 = 108 \<and> c1 = 100 then Conv 1 (\<lambda>a. printint digits a 10 True)
      else if c0 = 108 \<and> c1 = 108 \<and> c2 = 100 then Conv 2 (\<lambda>a. printint digits a 10 True)
      else if c0 = 117 then Conv 0 (\<lambda>a. printint digits (arg_uint a) 10 False)
      else if c0 = 108 \<and> c1 = 117 then Conv 1 (\<lambda>a. printint digits a 10 False)
      else if c0 = 108 \<and> c1 = 108 \<and> c2 = 117 then Conv 2 (\<lambda>a. printint digits a 10 False)
      else if c0 = 120 then Conv 0 (\<lambda>a. printint digits (arg_uint a) 16 False)
      else if c0 = 108 \<and> c1 = 120 then Conv 1 (\<lambda>a. printint digits a 16 False)
      else if c0 = 108 \<and> c1 = 108 \<and> c2 = 120 then Conv 2 (\<lambda>a. printint digits a 16 False)
      else if c0 = 112 then Conv 0 (\<lambda>a. Some (printptr digits a))
      else if c0 = 99 then Conv 0 (\<lambda>a. Some [ucast a])
      else if c0 = 115 then Conv 0 (\<lambda>a. Some (if a = 0 then null_string else strings a))
      else No_arg)"

function vprintf_from :: "byte list \<Rightarrow> (u64 \<Rightarrow> byte list) \<Rightarrow> byte list \<Rightarrow> nat \<Rightarrow> bool \<Rightarrow> u64 list \<Rightarrow> byte list option" where
  "vprintf_from digits strings fmt i state args =
     (let c0 = fmt_at fmt i in
      if c0 = 0 then Some []
      else if \<not> state then
        (if c0 = PERCENT then vprintf_from digits strings fmt (i + 1) True args
         else append_out (Some [c0]) (vprintf_from digits strings fmt (i + 1) False args))
      else
        (let c1 = (if c0 \<noteq> 0 then fmt_at fmt (i + 1) else 0);
             c2 = (if c1 \<noteq> 0 then fmt_at fmt (i + 2) else 0)
         in case uconv digits strings c0 c1 c2 of
              Conv k out \<Rightarrow>
                (case args of [] \<Rightarrow> None
                 | a # args1 \<Rightarrow> append_out (out a) (vprintf_from digits strings fmt (i + k + 1) False args1))
            | No_arg \<Rightarrow>
                if c0 = PERCENT then append_out (Some [PERCENT]) (vprintf_from digits strings fmt (i + 1) False args)
                else append_out (Some [PERCENT, c0]) (vprintf_from digits strings fmt (i + 1) False args)))"
  by pat_completeness auto

termination
  by (relation "measure (\<lambda>(_, _, fmt, i, _, _). length fmt - i)") (auto simp: fmt_at_def Let_def split: if_splits)

declare vprintf_from.simps [simp del]

definition uprintf :: "(u64 \<Rightarrow> byte list) \<Rightarrow> byte list \<Rightarrow> u64 list \<Rightarrow> byte list option" where
  "uprintf strings fmt args = vprintf_from udigits strings fmt 0 False args"

section \<open>Numbers are printed right and fit\<close>

text \<open>A list of digits, the highest first, as a number.\<close>

definition number :: "nat \<Rightarrow> nat list \<Rightarrow> nat" where
  "number b ns = foldl (\<lambda>v n. b * v + n) 0 ns"

lemma number_snoc: "number b (ns @ [n]) = b * number b ns + n"
  by (simp add: number_def)

lemma store_digits_ok:
  assumes "1 < unat base" "unat x < unat base ^ k" "i + k \<le> BUF_LEN" "0 < k"
  shows "\<exists>ns. store_digits digits base i x = Some (map ((!) digits) (rev ns)) \<and> ns \<noteq> [] \<and> length ns \<le> k
    \<and> (\<forall>n \<in> set ns. n < unat base) \<and> number (unat base) ns = unat x \<and> (length ns > 1 \<longrightarrow> hd ns \<noteq> 0)
    \<and> (x \<noteq> 0 \<longrightarrow> hd ns \<noteq> 0)"
  using assms(2-)
proof (induction k arbitrary: i x)
  case (Suc k)
  let ?b = "unat base" and ?n = "unat (x mod base)"
  have n: "?n = unat x mod ?b" "?n < ?b" using assms(1) by (simp_all add: unat_mod)
  have q: "unat (x div base) = unat x div ?b" by (simp add: unat_div)
  have i: "i < BUF_LEN" using Suc.prems by simp
  show ?case
  proof (cases "x div base = 0")
    case True
    then have "unat x div ?b = 0" using q by simp
    then have x: "unat x < ?b" using assms(1) by (metis div_eq_0_iff not_one_less_zero)
    then show ?thesis
      using True i n by (intro exI [of _ "[?n]"], subst store_digits.simps) (auto simp: number_def unat_eq_0)
  next
    case False
    then have q0: "unat x div ?b \<noteq> 0" using q by (metis unat_eq_zero)
    have lt: "unat x div ?b < ?b ^ k" using Suc.prems(1) by (simp add: less_mult_imp_div_less mult.commute)
    have "0 < k" using q0 lt by (cases k) auto
    with Suc.IH [of "x div base" "i + 1"] Suc.prems(2) lt q obtain ns where ns:
      "store_digits digits base (i + 1) (x div base) = Some (map ((!) digits) (rev ns))" "ns \<noteq> []" "length ns \<le> k"
      "\<forall>n \<in> set ns. n < ?b" "number ?b ns = unat (x div base)" "x div base \<noteq> 0 \<longrightarrow> hd ns \<noteq> 0" by auto
    have "number ?b (ns @ [?n]) = unat x" using ns(5) q n(1) by (simp add: number_snoc)
    then show ?thesis
      using False i n ns by (intro exI [of _ "ns @ [?n]"], subst store_digits.simps) auto
  qed
qed simp

lemma unat_negate:
  assumes "(x :: u64) <s 0"
  shows "unat (- x) = nat (- sint x)" "unat (- x) \<le> 2 ^ 63"
proof -
  have s: "sint x < 0" using assms by (simp add: word_sless_alt)
  have l: "- (2 ^ 63) \<le> sint x" using sint_greater_eq [of x] by simp
  have "uint (- x) = (- sint x) mod 2 ^ 64"
    using uint_word_of_int [where ?'a = 64, of "- sint x"] by simp
  then have "uint (- x) = - sint x" using s l by simp
  then show 1: "unat (- x) = nat (- sint x)" by (simp flip: nat_uint_eq)
  show "unat (- x) \<le> 2 ^ 63" using 1 l by simp
qed

text \<open>
  C31: \<open>buf[20]\<close> is enough for every number the formats can ask for, with its sign, and what is printed is the number:
  its digits in the base, without leading zeros, behind a minus if it is negative and signed.
\<close>

theorem printint_fits:
  assumes "base = 10 \<or> base = 16"
  shows "\<exists>ns. printint digits xx base sign = Some ((if sign \<and> xx <s 0 then [MINUS] else []) @ map ((!) digits) ns)
    \<and> ns \<noteq> [] \<and> (\<forall>n \<in> set ns. n < unat base) \<and> (length ns > 1 \<longrightarrow> hd ns \<noteq> 0)
    \<and> number (unat base) ns = (if sign \<and> xx <s 0 then nat (- sint xx) else unat xx)
    \<and> length ns + (if sign \<and> xx <s 0 then 1 else 0) \<le> BUF_LEN"
proof (cases "sign \<and> xx <s 0")
  case True
  have b: "1 < unat base" "2 ^ 63 < unat base ^ 19" using assms by auto
  then have "unat (- xx) < unat base ^ 19" using unat_negate(2) [of xx] True by linarith
  from store_digits_ok [OF b(1) this, of 0 digits] obtain ns where
    "store_digits digits base 0 (- xx) = Some (map ((!) digits) (rev ns))" "ns \<noteq> []" "length ns \<le> 19"
    "\<forall>n \<in> set ns. n < unat base" "number (unat base) ns = unat (- xx)" "length ns > 1 \<longrightarrow> hd ns \<noteq> 0" by auto
  with True unat_negate(1) [of xx] show ?thesis by (intro exI [of _ ns]) (simp add: printint_def rev_map)
next
  case False
  have b: "1 < unat base" "2 ^ 64 \<le> unat base ^ 20" using assms by auto
  then have "unat xx < unat base ^ 20" using unsigned_less [of xx, where ?'a = nat] by simp
  from store_digits_ok [OF b(1) this, of 0 digits] obtain ns where
    "store_digits digits base 0 xx = Some (map ((!) digits) (rev ns))" "ns \<noteq> []" "length ns \<le> 20"
    "\<forall>n \<in> set ns. n < unat base" "number (unat base) ns = unat xx" "length ns > 1 \<longrightarrow> hd ns \<noteq> 0" by auto
  with False show ?thesis by (intro exI [of _ ns]) (auto simp add: printint_def rev_map)
qed

text \<open>The largest number needs all twenty.\<close>

theorem printint_fits_witness:
  "\<exists>ns. printint kdigits (- 1) 10 False = Some (map ((!) kdigits) ns) \<and> number 10 ns = 18446744073709551615"
proof -
  obtain ns where "printint kdigits (- 1) 10 False = Some (map ((!) kdigits) ns)" "number 10 ns = unat (- 1 :: u64)"
    using printint_fits [of 10 kdigits "- 1" False] by auto
  moreover have "unat (- 1 :: u64) = 18446744073709551615" by (simp add: unsigned_minus_1_eq_mask mask_eq_exp_minus_1)
  ultimately show ?thesis by (intro exI [of _ ns] conjI) simp_all
qed

section \<open>One format, two printers\<close>

lemma kconv_uconv:
  "kconv digits strings c0 c1 c2 = No_arg \<longleftrightarrow> uconv digits strings c0 c1 c2 = No_arg"
  "kconv digits strings c0 c1 c2 = Conv k f \<Longrightarrow> \<exists>g. uconv digits strings c0 c1 c2 = Conv k g \<and> (\<forall>a. arg_uint a \<noteq> 0x100 \<longrightarrow> f a = g a)"
  by (auto simp: kconv_def uconv_def consputc_def split: if_splits)

text \<open>
  The loop of the kernel, which looks ahead behind a percent sign, and the state machine of the user's \<open>vprintf\<close>
  print the same for every format and all arguments but the character \<open>0x100\<close>, which the console takes for a
  backspace; also when arguments are missing.
\<close>

theorem printers_agree:
  assumes "\<forall>a \<in> set args. arg_uint a \<noteq> 0x100"
  shows "vprintf_from digits strings fmt i False args = printf_from digits strings fmt i args"
  using assms
proof (induction digits strings fmt i args rule: printf_from.induct)
  case (1 digits strings fmt i args)
  let ?c0 = "fmt_at fmt (i + 1)"
  let ?c1 = "if ?c0 \<noteq> 0 then fmt_at fmt (i + 1 + 1) else 0"
  let ?c2 = "if ?c1 \<noteq> 0 then fmt_at fmt (i + 1 + 2) else 0"
  note kernel = printf_from.simps [of digits strings fmt i args]
    and user = vprintf_from.simps [of digits strings fmt i False args] vprintf_from.simps [of digits strings fmt "i + 1" True args]
  consider "fmt_at fmt i = 0" | "fmt_at fmt i \<noteq> 0" "fmt_at fmt i \<noteq> PERCENT" | "fmt_at fmt i = PERCENT" by blast
  then show ?case
  proof cases
    case 3
    have nz: "(PERCENT = (0 :: byte)) \<longleftrightarrow> False" by simp
    have k: "printf_from digits strings fmt i args =
       (case kconv digits strings ?c0 ?c1 ?c2 of
          Conv k out \<Rightarrow> (case args of [] \<Rightarrow> None | a # args1 \<Rightarrow> append_out (out a) (printf_from digits strings fmt (i + 1 + k + 1) args1))
        | No_arg \<Rightarrow> if ?c0 = PERCENT then append_out (Some [PERCENT]) (printf_from digits strings fmt (i + 1 + 1) args)
            else if ?c0 = 0 then Some [] else append_out (Some [PERCENT, ?c0]) (printf_from digits strings fmt (i + 1 + 1) args))"
      by (subst kernel) (simp only: Let_def 3 nz simp_thms if_False if_True)
    have u: "vprintf_from digits strings fmt i False args = (if ?c0 = 0 then Some [] else
        case uconv digits strings ?c0 ?c1 ?c2 of
          Conv k out \<Rightarrow> (case args of [] \<Rightarrow> None | a # args1 \<Rightarrow> append_out (out a) (vprintf_from digits strings fmt (i + 1 + k + 1) False args1))
        | No_arg \<Rightarrow> if ?c0 = PERCENT then append_out (Some [PERCENT]) (vprintf_from digits strings fmt (i + 1 + 1) False args)
            else append_out (Some [PERCENT, ?c0]) (vprintf_from digits strings fmt (i + 1 + 1) False args))"
      by (subst user(1), subst user(2)) (simp only: Let_def 3 nz simp_thms if_False if_True)
    show ?thesis
    proof (cases "kconv digits strings ?c0 ?c1 ?c2")
      case No_arg
      with kconv_uconv(1) have "uconv digits strings ?c0 ?c1 ?c2 = No_arg" by blast
      with No_arg show ?thesis
        unfolding k u using "1.IH"(3) [OF refl _ _ refl refl refl refl No_arg _ "1.prems"]
          "1.IH"(4) [OF refl _ _ refl refl refl refl No_arg _ _ "1.prems"] 3
        by (cases "?c0 = 0"; cases "?c0 = PERCENT") simp_all
    next
      case (Conv k f)
      obtain g where g: "uconv digits strings ?c0 ?c1 ?c2 = Conv k g" "\<forall>a. arg_uint a \<noteq> 0x100 \<longrightarrow> f a = g a"
        using kconv_uconv(2) [OF Conv] by blast
      have "?c0 \<noteq> 0" using Conv by (auto simp: kconv_def)
      with Conv g "1.prems" show ?thesis
        unfolding k u using "1.IH"(2) [OF refl _ _ refl refl refl refl Conv] 3 by (cases args) simp_all
    qed
  qed (use "1.IH"(1) "1.prems" in \<open>simp_all add: kernel user\<close>)
qed

text \<open>\<open>%d\<close> for 42.\<close>

theorem printers_agree_witness:
  "vprintf_from kdigits (\<lambda>_. []) [37, 100] 0 False [42] = Some [52, 50]"
proof -
  have "printint kdigits (arg_int 42) 10 True = Some [52, 50]"
    by (simp add: printint_def store_digits.simps arg_int_def kdigits_def byte_of_char_def word_sless_alt)
  then have "printf_from kdigits (\<lambda>_. []) [37, 100] 0 [42] = Some [52, 50]"
    by (subst printf_from.simps, subst (2) printf_from.simps)
      (simp add: fmt_at_def kconv_def append_out_def printf_from.simps [of _ _ _ "Suc (Suc 0)"])
  moreover have "\<forall>a \<in> set [42]. arg_uint a \<noteq> 0x100" by (simp add: arg_uint_def)
  ultimately show ?thesis using printers_agree [of "[42]" kdigits "\<lambda>_. []" "[37, 100]" 0] by simp
qed

end
