(* ===== verification/Ulib.thy ===== *)
theory Ulib
  imports KString Printf
begin

text \<open>
  The string and memory routines of user programs, \<open>user/ulib.c\<close>, as the loops they are. A loop that looks for the end
  of a string need not end: then the result is \<open>None\<close>.
\<close>

section \<open>The routines\<close>

partial_function (option) strcpy :: "nat \<Rightarrow> nat \<Rightarrow> phys \<Rightarrow> phys option" where
  "strcpy s t m = (let m1 = m(s := m t) in if m t \<noteq> 0 then strcpy (s + 1) (t + 1) m1 else Some m1)"

partial_function (option) strcmp :: "nat \<Rightarrow> nat \<Rightarrow> phys \<Rightarrow> int option" where
  "strcmp p q m = (if m p \<noteq> 0 \<and> m p = m q then strcmp (p + 1) (q + 1) m else Some (uint (m p) - uint (m q)))"

partial_function (option) strlen_from :: "nat \<Rightarrow> nat \<Rightarrow> phys \<Rightarrow> nat option" where
  "strlen_from s n m = (if m (s + n) \<noteq> 0 then strlen_from s (n + 1) m else Some n)"

definition strlen_u :: "nat \<Rightarrow> phys \<Rightarrow> nat option" where
  "strlen_u s m = strlen_from s 0 m"

primrec memset_u_from :: "nat \<Rightarrow> byte \<Rightarrow> nat \<Rightarrow> phys \<Rightarrow> phys" where
  "memset_u_from cdst c 0 m = m"
| "memset_u_from cdst c (Suc n) m = memset_u_from (cdst + 1) c n (m(cdst := c))"

definition memset_u :: "nat \<Rightarrow> int \<Rightarrow> nat \<Rightarrow> phys \<Rightarrow> phys" where
  "memset_u dst c n m = memset_u_from dst (word_of_int c) n m"

text \<open>A pointer is 0 where there is none.\<close>

partial_function (option) strchr :: "nat \<Rightarrow> byte \<Rightarrow> phys \<Rightarrow> nat option" where
  "strchr s c m = (if m s \<noteq> 0 then (if m s = c then Some s else strchr (s + 1) c m) else Some 0)"

text \<open>\<open>input\<close> is what the reads of one character deliver; the result is the memory and what is left.\<close>

function gets_from :: "nat \<Rightarrow> int \<Rightarrow> int \<Rightarrow> byte list \<Rightarrow> phys \<Rightarrow> phys \<times> byte list" where
  "gets_from buf max_len i input m =
     (if i + 1 < max_len then
        (case input of
           [] \<Rightarrow> (m(buf + nat i := 0), [])
         | c # rest \<Rightarrow>
             (let m1 = m(buf + nat i := c) in
              if c = 10 \<or> c = 13 then (m1(buf + nat (i + 1) := 0), rest)
              else gets_from buf max_len (i + 1) rest m1))
      else (m(buf + nat i := 0), input))"
  by pat_completeness auto

termination by (relation "measure (\<lambda>(_, max_len, i, _, _). nat (max_len - i))") auto

declare gets_from.simps [simp del]

definition gets_u :: "nat \<Rightarrow> int \<Rightarrow> byte list \<Rightarrow> phys \<Rightarrow> phys \<times> byte list" where
  "gets_u buf max_len input m = gets_from buf max_len 0 input m"

text \<open>
  The loop of \<open>atoi\<close>: \<open>n*10 + *s++ - '0'\<close> in \<open>int\<close>, taken to wrap around as the machine does (C leaves
  the overflow of a signed number undefined).
\<close>

partial_function (option) atoi_from :: "int \<Rightarrow> nat \<Rightarrow> phys \<Rightarrow> int option" where
  "atoi_from n s m =
     (if 48 \<le> m s \<and> m s \<le> 57 then atoi_from (i32 (i32 (i32 (n * 10) + uint (m s)) - 48)) (s + 1) m else Some n)"

definition atoi :: "nat \<Rightarrow> phys \<Rightarrow> int option" where
  "atoi s m = atoi_from 0 s m"

definition memmove_u :: "nat \<Rightarrow> nat \<Rightarrow> int \<Rightarrow> phys \<Rightarrow> phys" where
  "memmove_u dst src n m =
     (if src > dst then copy_up dst src (nat n) m else copy_down (dst + nat n) (src + nat n) (nat n) m)"

primrec memcmp_u :: "nat \<Rightarrow> nat \<Rightarrow> nat \<Rightarrow> phys \<Rightarrow> int" where
  "memcmp_u p1 p2 0 m = 0"
| "memcmp_u p1 p2 (Suc n) m =
     (if m p1 \<noteq> m p2 then uint (m p1) - uint (m p2) else memcmp_u (p1 + 1) (p2 + 1) n m)"

definition memcpy_u :: "nat \<Rightarrow> nat \<Rightarrow> int \<Rightarrow> phys \<Rightarrow> phys" where
  "memcpy_u dst src n m = memmove_u dst src n m"

section \<open>What they compute\<close>

text \<open>A C string in memory.\<close>

primrec str_at :: "phys \<Rightarrow> nat \<Rightarrow> byte list \<Rightarrow> bool" where
  "str_at m p [] \<longleftrightarrow> m p = 0"
| "str_at m p (b # bs) \<longleftrightarrow> m p = b \<and> b \<noteq> 0 \<and> str_at m (p + 1) bs"

lemma strlen_str: "str_at m (s + n) bs \<Longrightarrow> strlen_from s n m = Some (n + length bs)"
  by (induction bs arbitrary: n) (subst strlen_from.simps, simp)+

lemma strlen_u_str: "str_at m s bs \<Longrightarrow> strlen_u s m = Some (length bs)"
  using strlen_str [of m s 0] by (simp add: strlen_u_def)

lemma byte_pos: "(b :: byte) \<noteq> 0 \<Longrightarrow> 0 < uint b"
  by (metis order_le_less uint_ge_0 unsigned_eq_0_iff)

lemma strcmp_lex:
  "str_at m p as \<Longrightarrow> str_at m q bs \<Longrightarrow> \<exists>r. strcmp p q m = Some r \<and> sgn r = lex_sign as bs"
proof (induction as bs arbitrary: p q rule: lex_sign.induct)
  case (4 a as b bs)
  then show ?case by (cases "a = b") (subst strcmp.simps, force)+
qed (subst strcmp.simps, force dest: byte_pos)+

lemma strchr_str:
  "str_at m s bs \<Longrightarrow> strchr s c m = Some (if c \<in> set bs \<and> c \<noteq> 0 then s + length (takeWhile (\<lambda>b. b \<noteq> c) bs) else 0)"
  by (induction bs arbitrary: s) (subst strchr.simps, auto)+

lemma memmove_u_correct:
  "0 \<le> n \<Longrightarrow> memmove_u dst src n m = (\<lambda>x. if dst \<le> x \<and> x < dst + nat n then m (src + (x - dst)) else m x)"
  using copy_up_eq [of dst src "nat n" m] copy_down_eq [of src dst "nat n" m]
  by (auto simp: memmove_u_def fun_eq_iff)

lemma memcmp_kernel: "memcmp_u p q n m = memcmp p q n m"
  by (induction n arbitrary: p q) auto

lemma memset_kernel: "memset_u dst c n m = memset dst c n m"
proof -
  have "memset_u_from dst b n m = memset_from dst b n m" for b by (induction n arbitrary: dst m) auto
  then show ?thesis by (simp add: memset_u_def memset_def)
qed

lemma strcpy_str:
  assumes "str_at m t bs" "s + length bs < t \<or> t + length bs < s"
  shows "\<exists>m'. strcpy s t m = Some m' \<and> str_at m' s bs \<and> (\<forall>x. x < s \<or> s + length bs < x \<longrightarrow> m' x = m x)"
  using assms
proof (induction bs arbitrary: s t m)
  case Nil
  then show ?case by (subst strcpy.simps) simp
next
  case (Cons b bs)
  let ?m = "m(s := m t)"
  have far: "str_at ?m (t + 1) bs"
  proof -
    have "str_at m p cs \<Longrightarrow> s < p \<or> p + length cs < s \<Longrightarrow> str_at ?m p cs" for p cs
      by (induction cs arbitrary: p) auto
    then show ?thesis using Cons.prems by auto
  qed
  have apart: "s + 1 + length bs < t + 1 \<or> t + 1 + length bs < s + 1" using Cons.prems(2) by auto
  obtain m' where m': "strcpy (s + 1) (t + 1) ?m = Some m'" "str_at m' (s + 1) bs"
    "\<And>x. x < s + 1 \<or> s + 1 + length bs < x \<Longrightarrow> m' x = ?m x"
    using Cons.IH [OF far apart] by blast
  show ?case
  proof (intro exI [of _ m'] conjI allI impI)
    show "strcpy s t m = Some m'" using Cons.prems(1) m'(1) by (subst strcpy.simps) (simp add: Let_def)
    show "str_at m' s (b # bs)" using m'(2) m'(3) [of s] Cons.prems(1) by simp
    show "m' x = m x" if "x < s \<or> s + length (b # bs) < x" for x using m'(3) [of x] that by auto
  qed
qed

text \<open>\<open>gets\<close> stays within its buffer and takes the characters in order.\<close>

lemma gets_from_fits:
  assumes "0 \<le> i" "i < max_len"
  shows "\<exists>line. input = line @ snd (gets_from buf max_len i input m) \<and> i + int (length line) < max_len
    \<and> (\<forall>k < length line. fst (gets_from buf max_len i input m) (buf + nat i + k) = line ! k)
    \<and> fst (gets_from buf max_len i input m) (buf + nat i + length line) = 0
    \<and> (\<forall>x. x < buf + nat i \<or> buf + nat max_len \<le> x \<longrightarrow> fst (gets_from buf max_len i input m) x = m x)"
  using assms
proof (induction buf max_len i input m rule: gets_from.induct)
  case (1 buf max_len i input m)
  have stop: ?case if "gets_from buf max_len i input m = (m(buf + nat i := 0), input)"
    using that "1.prems" by (intro exI [of _ "[]"]) auto
  show ?case
  proof (cases "i + 1 < max_len \<and> input \<noteq> []")
    case False
    then show ?thesis by (intro stop) (subst gets_from.simps, auto split: list.split)
  next
    case True
    then obtain c rest where r: "i + 1 < max_len" "input = c # rest" by (cases input) auto
    let ?m = "m(buf + nat i := c)"
    have n: "nat (i + 1) = Suc (nat i)" using "1.prems" by simp
    show ?thesis
    proof (cases "c = 10 \<or> c = 13")
      case True
      with r have "gets_from buf max_len i input m = (?m(buf + nat (i + 1) := 0), rest)" by (subst gets_from.simps) auto
      with r n "1.prems" show ?thesis by (intro exI [of _ "[c]"]) auto
    next
      case False
      with r have g: "gets_from buf max_len i input m = gets_from buf max_len (i + 1) rest ?m" by (subst gets_from.simps) auto
      let ?g = "gets_from buf max_len (i + 1) rest ?m"
      have i1: "0 \<le> i + 1" using "1.prems" by simp
      obtain line where l: "rest = line @ snd ?g" "i + 1 + int (length line) < max_len"
        "\<forall>k < length line. fst ?g (buf + nat (i + 1) + k) = line ! k" "fst ?g (buf + nat (i + 1) + length line) = 0"
        "\<forall>x. x < buf + nat (i + 1) \<or> buf + nat max_len \<le> x \<longrightarrow> fst ?g x = ?m x"
        using "1.IH" [OF r refl False i1 r(1)] by (elim exE conjE) (rule that)
      have "fst ?g (buf + nat i + k) = (c # line) ! k" if "k < length (c # line)" for k
        using that l(3,5) n by (cases k) auto
      moreover have "fst ?g x = m x" if "x < buf + nat i \<or> buf + nat max_len \<le> x" for x
        using l(5) that n r(1) by auto
      ultimately show ?thesis unfolding g using l(1,2,4) r(2) n by (intro exI [of _ "c # line"]) auto
    qed
  qed
qed

section \<open>Numbers printed and read back\<close>

lemma i32_chain: "i32 (i32 x - y) = i32 (x - y)"
  using signed_take_bit_diff [of 31 "signed_take_bit 31 x" y] signed_take_bit_diff [of 31 x y] by (simp add: i32_def)

lemma number_Cons: "foldl (\<lambda>v n. b * v + n) x ns = x * b ^ length ns + number b ns"
proof (induction ns rule: rev_induct)
  case (snoc n ns)
  then show ?case by (simp add: number_snoc algebra_simps)
qed (simp add: number_def)

lemma digit_byte:
  assumes "n < 10"
  shows "uint (kdigits ! n) = 48 + int n" "48 \<le> kdigits ! n \<and> kdigits ! n \<le> 57" "kdigits ! n \<noteq> 0"
proof -
  have "n \<in> {0, 1, 2, 3, 4, 5, 6, 7, 8, 9}" using assms by auto
  then show "uint (kdigits ! n) = 48 + int n" "48 \<le> kdigits ! n \<and> kdigits ! n \<le> 57" "kdigits ! n \<noteq> 0"
    by (auto simp: kdigits_def byte_of_char_def)
qed

lemma atoi_digits:
  assumes "\<forall>n \<in> set ns. n < 10" "str_at m s (map ((!) kdigits) ns)" "v * 10 ^ length ns + number 10 ns < 2 ^ 31"
  shows "atoi_from (int v) s m = Some (int (v * 10 ^ length ns + number 10 ns))"
  using assms
proof (induction ns arbitrary: v s)
  case Nil
  then show ?case by (subst atoi_from.simps) (simp add: number_def)
next
  case (Cons n ns)
  have d: "n < 10" "m s = kdigits ! n" using Cons.prems by simp_all
  have "number 10 (n # ns) = n * 10 ^ length ns + number 10 ns" using number_Cons [of 10 n ns] by (simp add: number_def)
  then have e: "v * 10 ^ length (n # ns) + number 10 (n # ns) = (10 * v + n) * 10 ^ length ns + number 10 ns"
    by (simp add: algebra_simps)
  have "10 * v + n \<le> (10 * v + n) * 10 ^ length ns" by simp
  with Cons.prems(3) e have b: "10 * v + n < 2 ^ 31" by linarith
  have "i32 (i32 (i32 (int v * 10) + uint (m s)) - 48) = int (10 * v + n)"
    using b d digit_byte(1) [OF d(1)] by (simp add: i32_small i32_chain)
  then have "atoi_from (int v) s m = atoi_from (int (10 * v + n)) (s + 1) m"
    using d digit_byte(2) [OF d(1)] by (subst atoi_from.simps) simp
  also have "\<dots> = Some (int ((10 * v + n) * 10 ^ length ns + number 10 ns))"
    by (rule Cons.IH) (use Cons.prems e in simp_all)
  finally show ?case by (simp only: e)
qed

lemma udigits_decimal: "\<forall>n \<in> set ns. n < 10 \<Longrightarrow> map ((!) udigits) ns = map ((!) kdigits) ns"
proof -
  have "udigits ! n = kdigits ! n" if "n < 10" for n
  proof -
    have "n \<in> {0, 1, 2, 3, 4, 5, 6, 7, 8, 9}" using that by auto
    then show ?thesis by (auto simp: udigits_def kdigits_def)
  qed
  then show "\<forall>n \<in> set ns. n < 10 \<Longrightarrow> map ((!) udigits) ns = map ((!) kdigits) ns" by simp
qed

text \<open>
  C38: What a user program prints of a number that an \<open>int\<close> holds and that is not negative, \<open>atoi\<close> reads back, and
  the string ends where the number does. For the largest numbers the sum leaves the range of \<open>int\<close> before the
  subtraction brings it back; the arithmetic of the model wraps around there.
\<close>

theorem atoi_printint:
  assumes "printint udigits xx 10 sign = Some bs" "str_at m s bs" "0 \<le> sint xx" "sint xx < 2 ^ 31"
  shows "atoi s m = Some (sint xx)"
proof -
  have p: "\<not> xx <s 0" using assms(3) by (simp add: word_sless_alt)
  have u: "int (unat xx) = sint xx"
    using assms(3,4) uint_sint [of xx] by (simp add: take_bit_int_eq_self)
  obtain ns where ns: "printint udigits xx 10 sign = Some (map ((!) udigits) ns)" "\<forall>n \<in> set ns. n < 10" "number 10 ns = unat xx"
    using printint_fits [of 10 udigits xx sign] p by auto
  have "str_at m s (map ((!) kdigits) ns)" using assms(1,2) ns(1) udigits_decimal [OF ns(2)] by simp
  moreover have "0 * 10 ^ length ns + number 10 ns < 2 ^ 31" using u assms(3,4) ns(3) by (simp flip: nat_uint_eq)
  ultimately have "atoi_from (int 0) s m = Some (int (0 * 10 ^ length ns + number 10 ns))" using atoi_digits ns(2) by blast
  then show ?thesis using ns(3) u by (simp add: atoi_def)
qed

theorem atoi_printint_witness: "atoi 8 ((\<lambda>_. 0)(8 := 52, 9 := 50)) = Some 42"
proof -
  have "printint udigits 42 10 True = Some [52, 50]"
    by (simp add: printint_def store_digits.simps udigits_def byte_of_char_def word_sless_alt)
  from atoi_printint [OF this, of "(\<lambda>_. 0)(8 := 52, 9 := 50)" 8] show ?thesis by simp
qed

end
