(* ===== verification/Umalloc.thy ===== *)
theory Umalloc
  imports KString
begin

text \<open>
  The allocator of user programs, \<open>user/umalloc.c\<close>. The headers are kept apart from the bytes of the blocks: \<open>u_ptr\<close> and
  \<open>u_size\<close> are the fields of the header at an address, which takes 16 bytes, and sizes are \<open>unsigned int\<close>s that count
  such units. \<open>B\<close> is the address of \<open>base\<close>. \<open>sbrk n b\<close> is where the memory of the process ends after
  \<open>sbrk(n)\<close> when it ended at \<open>b\<close>, or nothing if the call fails. A loop over the list need not end: then the result is
  \<open>None\<close>.
\<close>

section \<open>The allocator\<close>

record umem =
  u_ptr :: "nat \<Rightarrow> nat"
  u_size :: "nat \<Rightarrow> nat"
  u_freep :: nat
  u_brk :: nat
  u_mem :: phys

abbreviation (input) HEADER :: nat where "HEADER \<equiv> 16"

definition set_ptr :: "nat \<Rightarrow> nat \<Rightarrow> umem \<Rightarrow> umem" where
  "set_ptr p v s = s\<lparr>u_ptr := (u_ptr s)(p := v)\<rparr>"

definition set_size :: "nat \<Rightarrow> nat \<Rightarrow> umem \<Rightarrow> umem" where
  "set_size p n s = s\<lparr>u_size := (u_size s)(p := n mod 2 ^ 32)\<rparr>"

partial_function (option) find_place :: "(nat \<Rightarrow> nat) \<Rightarrow> nat \<Rightarrow> nat \<Rightarrow> nat option" where
  "find_place ptr bp p =
     (if bp > p \<and> bp < ptr p then Some p
      else if p \<ge> ptr p \<and> (bp > p \<or> bp < ptr p) then Some p
      else find_place ptr bp (ptr p))"

definition free :: "nat \<Rightarrow> umem \<Rightarrow> umem option" where
  "free ap s =
     (let bp = ap - HEADER in
      case find_place (u_ptr s) bp (u_freep s) of
        None \<Rightarrow> None
      | Some p \<Rightarrow>
          (let s1 = (if bp + HEADER * u_size s bp = u_ptr s p
                     then set_ptr bp (u_ptr s (u_ptr s p)) (set_size bp (u_size s bp + u_size s (u_ptr s p)) s)
                     else set_ptr bp (u_ptr s p) s);
               s2 = (if p + HEADER * u_size s1 p = bp
                     then set_ptr p (u_ptr s1 bp) (set_size p (u_size s1 p + u_size s1 bp) s1)
                     else set_ptr p bp s1)
           in Some (s2\<lparr>u_freep := p\<rparr>)))"

text \<open>\<open>sbrk\<close> takes an \<open>int\<close>.\<close>

definition morecore :: "(int \<Rightarrow> nat \<Rightarrow> nat option) \<Rightarrow> nat \<Rightarrow> umem \<Rightarrow> (nat \<times> umem) option" where
  "morecore sbrk nu s =
     (let nu = (if nu < 4096 then 4096 else nu) in
      case sbrk (i32 (int (nu * HEADER))) (u_brk s) of
        None \<Rightarrow> Some (0, s)
      | Some b \<Rightarrow>
          (let hp = u_brk s; s1 = set_size hp nu (s\<lparr>u_brk := b\<rparr>) in
           case free (hp + HEADER) s1 of None \<Rightarrow> None | Some s2 \<Rightarrow> Some (u_freep s2, s2)))"

text \<open>Taking \<open>nunits\<close> out of the block \<open>p\<close> behind \<open>prevp\<close>, from its end.\<close>

definition take_block :: "nat \<Rightarrow> nat \<Rightarrow> nat \<Rightarrow> umem \<Rightarrow> nat \<times> umem" where
  "take_block nunits prevp p s =
     (if u_size s p = nunits then (p + HEADER, (set_ptr prevp (u_ptr s p) s)\<lparr>u_freep := prevp\<rparr>)
      else (let s1 = set_size p (u_size s p - nunits) s; q = p + HEADER * u_size s1 p
            in (q + HEADER, (set_size q nunits s1)\<lparr>u_freep := prevp\<rparr>)))"

partial_function (option) malloc_from :: "(int \<Rightarrow> nat \<Rightarrow> nat option) \<Rightarrow> nat \<Rightarrow> nat \<Rightarrow> nat \<Rightarrow> umem \<Rightarrow> (nat \<times> umem) option" where
  "malloc_from sbrk nunits prevp p s =
     (if u_size s p \<ge> nunits then Some (take_block nunits prevp p s)
      else if p = u_freep s
      then Option.bind (morecore sbrk nunits s)
             (\<lambda>r. if fst r = 0 then Some r else malloc_from sbrk nunits (fst r) (u_ptr (snd r) (fst r)) (snd r))
      else malloc_from sbrk nunits p (u_ptr s p) s)"

definition malloc :: "nat \<Rightarrow> (int \<Rightarrow> nat \<Rightarrow> nat option) \<Rightarrow> nat \<Rightarrow> umem \<Rightarrow> (nat \<times> umem) option" where
  "malloc B sbrk nbytes s =
     (let nunits = ((nbytes + HEADER - 1) div HEADER + 1) mod 2 ^ 32;
          s1 = (if u_freep s = 0 then (set_size B 0 (set_ptr B B s))\<lparr>u_freep := B\<rparr> else s);
          prevp = u_freep s1
      in malloc_from sbrk nunits prevp (u_ptr s1 prevp) s1)"

primrec copy_bytes :: "nat \<Rightarrow> nat \<Rightarrow> nat \<Rightarrow> phys \<Rightarrow> phys" where
  "copy_bytes dst src 0 m = m"
| "copy_bytes dst src (Suc n) m = (let m1 = copy_bytes dst src n m in m1(dst + n := m1 (src + n)))"

text \<open>The loop copies while \<open>i < old_size && i < nbytes\<close>.\<close>

definition realloc :: "nat \<Rightarrow> (int \<Rightarrow> nat \<Rightarrow> nat option) \<Rightarrow> nat \<Rightarrow> nat \<Rightarrow> umem \<Rightarrow> (nat \<times> umem) option" where
  "realloc B sbrk p nbytes s =
     (if p = 0 then malloc B sbrk nbytes s
      else if nbytes = 0 then map_option (\<lambda>s1. (0, s1)) (free p s)
      else
        (let bp = p - HEADER; old_size = (u_size s bp + 2 ^ 32 - 1) mod 2 ^ 32 * HEADER mod 2 ^ 32 in
         case malloc B sbrk nbytes s of
           None \<Rightarrow> None
         | Some (new_ptr, s1) \<Rightarrow>
             if new_ptr = 0 then Some (0, s1)
             else (let s2 = s1\<lparr>u_mem := copy_bytes new_ptr p (min old_size nbytes) (u_mem s1)\<rparr>
                   in map_option (\<lambda>s3. (new_ptr, s3)) (free p s2))))"

definition calloc :: "nat \<Rightarrow> (int \<Rightarrow> nat \<Rightarrow> nat option) \<Rightarrow> nat \<Rightarrow> nat \<Rightarrow> umem \<Rightarrow> (nat \<times> umem) option" where
  "calloc B sbrk num sz s =
     (let total_size = num * sz mod 2 ^ 32 in
      case malloc B sbrk total_size s of
        None \<Rightarrow> None
      | Some (p, s1) \<Rightarrow> if p = 0 then Some (0, s1) else Some (p, s1\<lparr>u_mem := fill p total_size 0 (u_mem s1)\<rparr>))"

section \<open>The list of free blocks\<close>

text \<open>\<open>p\<close>, the blocks of a list and \<open>q\<close> are linked one to the next.\<close>

primrec seg :: "(nat \<Rightarrow> nat) \<Rightarrow> nat \<Rightarrow> nat list \<Rightarrow> nat \<Rightarrow> bool" where
  "seg h p [] q \<longleftrightarrow> h p = q"
| "seg h p (y # ys) q \<longleftrightarrow> h p = y \<and> seg h y ys q"

lemma seg_append: "seg h p (ys @ z # zs) q \<longleftrightarrow> seg h p ys z \<and> seg h z zs q"
  by (induction ys arbitrary: p) auto

lemma seg_map: "seg h p ys q \<longleftrightarrow> map h (p # ys) = ys @ [q]"
  by (induction ys arbitrary: p) auto

lemma seg_upd: "x \<notin> set (p # ys) \<Longrightarrow> seg (h(x := v)) p ys q = seg h p ys q"
  by (induction ys arbitrary: p) auto

lemma seg_in: "seg h p ys q \<Longrightarrow> x \<in> set (p # ys) \<Longrightarrow> h x \<in> set (ys @ [q])"
  unfolding seg_map by (metis image_eqI set_map)

lemma seg_inj: "seg h p ys q \<Longrightarrow> distinct (ys @ [q]) \<Longrightarrow> inj_on h (set (p # ys))"
  unfolding seg_map by (metis distinct_map)

lemma seg_insert:
  "seg h x (F1 @ F2) q \<Longrightarrow> a \<notin> set (x # F1 @ F2) \<Longrightarrow> distinct (x # F1 @ F2) \<Longrightarrow>
   seg (h(a := h (last (x # F1)), last (x # F1) := a)) x (F1 @ a # F2) q"
proof (induction F1 arbitrary: x)
  case Nil
  then show ?case
    by (cases F2) (simp_all add: fun_upd_twist seg_upd del: fun_upd_apply, simp_all)
next
  case (Cons y F1)
  then have "last (y # F1) \<noteq> x" by (metis Un_iff append_Cons distinct.simps(2) last_in_set list.discI set_append)
  with Cons show ?case by auto
qed

lemma seg_remove:
  "seg h x (F1 @ p # F2) q \<Longrightarrow> distinct (x # F1 @ p # F2) \<Longrightarrow> seg (h(last (x # F1) := h p)) x (F1 @ F2) q"
proof (induction F1 arbitrary: x)
  case Nil
  then show ?case
    by (cases F2) (simp_all add: fun_upd_twist seg_upd del: fun_upd_apply, simp_all)
next
  case (Cons y F1)
  then have "last (y # F1) \<noteq> x" by (metis Un_iff append_Cons distinct.simps(2) last_in_set list.discI set_append)
  with Cons show ?case by auto
qed

lemma seg_before:
  assumes "seg h b F b" "distinct (b # F)" "F = F1 @ p # F2" "x \<in> set (b # F)" "h x = p"
  shows "x = last (b # F1)"
proof -
  have "seg h b F1 p" using assms(1,3) by (simp add: seg_append)
  then have "h (last (b # F1)) = p"
    by (metis last_map last_snoc list.discI seg_map)
  moreover have "last (b # F1) \<in> set (b # F)" using assms(3) by (cases F1) auto
  moreover have "inj_on h (set (b # F))" using seg_inj [OF assms(1)] assms(2) by auto
  ultimately show ?thesis using assms(4,5) by (meson inj_onD)
qed

text \<open>From any place of the ring its rest and back.\<close>

lemma seg_rotate:
  assumes "seg h b F b" "x \<in> set (b # F)"
  obtains G where "seg h x G x" "set (x # G) = set (b # F)" "length G = length F"
proof (cases "x = b")
  case True
  then show thesis using assms(1) by (intro that [of F]) auto
next
  case False
  with assms(2) obtain G1 G2 where "F = G1 @ x # G2" by (auto simp: in_set_conv_decomp)
  with assms(1) show thesis by (intro that [of "G2 @ b # G1"]) (auto simp: seg_append)
qed

section \<open>A heap in order\<close>

definition block :: "umem \<Rightarrow> nat \<Rightarrow> nat set" where
  "block s a = {a..<a + HEADER * u_size s a}"

definition apart :: "umem \<Rightarrow> nat \<Rightarrow> nat \<Rightarrow> bool" where
  "apart s a b \<longleftrightarrow> a + HEADER * u_size s a \<le> b \<or> b + HEADER * u_size s b \<le> a"

text \<open>The free blocks are \<open>F\<close>, in the order of their addresses, and the blocks in use \<open>A\<close>.\<close>

definition heap :: "nat \<Rightarrow> umem \<Rightarrow> nat list \<Rightarrow> nat set \<Rightarrow> bool" where
  "heap B s F A \<longleftrightarrow>
     seg (u_ptr s) B F B \<and> sorted_wrt (<) (B # F) \<and> u_size s B = 0 \<and> 0 < B \<and> u_freep s \<in> set (B # F) \<and> set F \<inter> A = {}
   \<and> (\<forall>a \<in> set F \<union> A. B + HEADER \<le> a \<and> 0 < u_size s a \<and> a + HEADER * u_size s a \<le> u_brk s)
   \<and> (\<forall>a \<in> set F \<union> A. \<forall>b \<in> set F \<union> A. a \<noteq> b \<longrightarrow> apart s a b) \<and> B + HEADER \<le> u_brk s \<and> u_brk s < 2 ^ 36"

definition region :: "umem \<Rightarrow> nat list \<Rightarrow> nat set \<Rightarrow> nat set" where
  "region s F A = \<Union> (block s ` (set F \<union> A))"

lemma apart_disjoint: "apart s a b \<Longrightarrow> block s a \<inter> block s b = {}"
  by (auto simp: apart_def block_def)

lemma heapD:
  assumes "heap B s F A"
  shows "seg (u_ptr s) B F B" "sorted_wrt (<) (B # F)" "distinct (B # F)" "u_size s B = 0" "u_freep s \<in> set (B # F)" "set F \<inter> A = {}"
    "a \<in> set F \<union> A \<Longrightarrow> B + HEADER \<le> a" "a \<in> set F \<union> A \<Longrightarrow> 0 < u_size s a"
    "a \<in> set F \<union> A \<Longrightarrow> a + HEADER * u_size s a \<le> u_brk s"
    "a \<in> set F \<union> A \<Longrightarrow> b \<in> set F \<union> A \<Longrightarrow> a \<noteq> b \<Longrightarrow> apart s a b" "u_brk s < 2 ^ 36" "B + HEADER \<le> u_brk s" "0 < B"
proof -
  have s: "sorted_wrt (<) (B # F)" using assms unfolding heap_def by blast
  then show "sorted_wrt (<) (B # F)" "distinct (B # F)" using strict_sorted_imp_sorted strict_sorted_iff by blast+
qed (use assms in \<open>unfold heap_def, blast+\<close>)

section \<open>Giving a block back\<close>

lemma find_below:
  "seg h x (F1 @ F2) b \<Longrightarrow> sorted_wrt (<) (x # F1 @ F2) \<Longrightarrow> \<forall>y \<in> set (x # F1). y < bp \<Longrightarrow> \<forall>y \<in> set F2. bp < y \<Longrightarrow> b \<le> x \<Longrightarrow>
   find_place h bp x = Some (last (x # F1))"
proof (induction F1 arbitrary: x)
  case Nil
  then show ?case by (subst find_place.simps, cases F2) auto
next
  case (Cons y F1)
  then have "find_place h bp y = Some (last (y # F1))" by (intro Cons.IH) auto
  with Cons.prems show ?case by (subst find_place.simps) auto
qed

lemma find_above:
  "seg h x G b \<Longrightarrow> sorted_wrt (<) (x # G) \<Longrightarrow> bp < x \<Longrightarrow> b < bp \<Longrightarrow> find_place h bp x = find_place h bp b"
proof (induction G arbitrary: x)
  case Nil
  then show ?case by (subst find_place.simps) auto
next
  case (Cons y G)
  then have "find_place h bp y = find_place h bp b" by (intro Cons.IH) auto
  with Cons.prems show ?case by (subst find_place.simps) auto
qed

lemma find_place_heap:
  assumes h: "heap B s F A" and a: "a \<notin> set F" "B < a"
  obtains F1 F2 where "F = F1 @ F2" "\<forall>y \<in> set F1. y < a" "\<forall>y \<in> set F2. a < y"
    "find_place (u_ptr s) a (u_freep s) = Some (last (B # F1))"
proof -
  note d = heapD [OF h]
  define F1 F2 where "F1 = takeWhile (\<lambda>y. y < a) F" and "F2 = dropWhile (\<lambda>y. y < a) F"
  have F: "F = F1 @ F2" by (simp add: F1_def F2_def)
  have 1: "\<forall>y \<in> set F1. y < a" unfolding F1_def by (meson set_takeWhileD)
  have 2: "a < y" if y: "y \<in> set F2" for y
  proof -
    from y obtain z zs where F2: "F2 = z # zs" by (cases F2) auto
    have "z \<noteq> a" using a(1) F F2 by auto
    with F2 have "a < z" using hd_dropWhile [of "\<lambda>y. y < a" F] unfolding F2_def by (metis list.distinct(1) list.sel(1) nat_neq_iff)
    moreover have "z \<le> y" using y d(2) F F2 by (auto simp: sorted_wrt_append)
    ultimately show ?thesis by simp
  qed
  have base: "find_place (u_ptr s) a B = Some (last (B # F1))"
    using d(1,2) F 1 2 a(2) by (intro find_below [where ?F2.0 = F2 and b = B]) auto
  have "find_place (u_ptr s) a (u_freep s) = Some (last (B # F1))"
  proof (cases "u_freep s \<in> set F2")
    case True
    then obtain G H where G: "F2 = G @ u_freep s # H" by (auto simp: in_set_conv_decomp)
    have "find_place (u_ptr s) a (u_freep s) = find_place (u_ptr s) a B"
      using d(1,2) F G 2 a(2) seg_append [of "u_ptr s" B "F1 @ G" "u_freep s" H B]
      by (intro find_above [where G = H]) (auto simp: sorted_wrt_append)
    then show ?thesis by (simp add: base)
  next
    case False
    show ?thesis
    proof (cases "u_freep s = B")
      case False
      with \<open>u_freep s \<notin> set F2\<close> d(5) F have "u_freep s \<in> set F1" by auto
      then obtain G H where G: "F1 = G @ u_freep s # H" by (auto simp: in_set_conv_decomp)
      have "find_place (u_ptr s) a (u_freep s) = Some (last (u_freep s # H))"
        using d(1,2) F G 1 2 a(2) by (intro find_below [where ?F2.0 = F2 and b = B]) (auto simp: seg_append sorted_wrt_append)
      then show ?thesis by (simp add: G)
    qed (simp add: base)
  qed
  with F 1 2 that show thesis by blast
qed

text \<open>The block is put into the list; then neighbours that touch become one.\<close>

definition link :: "nat \<Rightarrow> nat \<Rightarrow> umem \<Rightarrow> umem" where
  "link p a s = (set_ptr p a (set_ptr a (u_ptr s p) s))\<lparr>u_freep := p\<rparr>"

definition merge :: "nat \<Rightarrow> nat \<Rightarrow> umem \<Rightarrow> umem" where
  "merge y z s = set_ptr y (u_ptr s z) (set_size y (u_size s y + u_size s z) s)"

lemma link_ok:
  assumes h: "heap B s (F1 @ F2) A" and a: "a \<in> A" "\<forall>y \<in> set F1. y < a" "\<forall>y \<in> set F2. a < y"
  shows "heap B (link (last (B # F1)) a s) (F1 @ a # F2) (A - {a})"
    "region (link (last (B # F1)) a s) (F1 @ a # F2) (A - {a}) = region s (F1 @ F2) A"
proof -
  note d = heapD [OF h]
  have B: "B < a" using d(7) [of a] a(1) by auto
  have fresh: "a \<notin> set (B # F1 @ F2)" using a(2,3) B by auto
  have s: "u_size (link (last (B # F1)) a s) = u_size s" "u_brk (link (last (B # F1)) a s) = u_brk s"
    by (simp_all add: link_def set_ptr_def)
  have ptr: "u_ptr (link (last (B # F1)) a s) = (u_ptr s)(a := u_ptr s (last (B # F1)), last (B # F1) := a)"
    by (simp add: link_def set_ptr_def)
  have "seg (u_ptr (link (last (B # F1)) a s)) B (F1 @ a # F2) B"
    unfolding ptr by (rule seg_insert [OF d(1) fresh d(3)])
  moreover have "sorted_wrt (<) (B # F1 @ a # F2)" using d(2) a B by (auto simp: sorted_wrt_append)
  moreover have "u_freep (link (last (B # F1)) a s) \<in> set (B # F1 @ a # F2)" by (auto simp: link_def)
  moreover have set: "set (F1 @ a # F2) \<union> (A - {a}) = set (F1 @ F2) \<union> A" using a(1) by auto
  moreover have "set (F1 @ a # F2) \<inter> (A - {a}) = {}" using d(6) by auto
  ultimately show "heap B (link (last (B # F1)) a s) (F1 @ a # F2) (A - {a})"
    using h unfolding heap_def set by (simp only: s apart_def) blast
  show "region (link (last (B # F1)) a s) (F1 @ a # F2) (A - {a}) = region s (F1 @ F2) A"
    unfolding region_def set using s by (simp add: block_def)
qed

lemma size_small: "heap B s F A \<Longrightarrow> a \<in> set F \<union> A \<Longrightarrow> u_size s a < 2 ^ 32"
  using heapD(9) [of B s F A a] heapD(11) [of B s F A] by simp

lemma Union_split: "y \<in> V \<Longrightarrow> \<Union> (f ` V) = f y \<union> \<Union> (f ` (V - {y}))"
  by auto

lemma merge_ok:
  assumes h: "heap B s (G1 @ y # z # G2) A" and t: "y + HEADER * u_size s y = z" and free: "u_freep s \<noteq> z"
  shows "heap B (merge y z s) (G1 @ y # G2) A" "region (merge y z s) (G1 @ y # G2) A = region s (G1 @ y # z # G2) A"
proof -
  note d = heapD [OF h]
  let ?U = "set (G1 @ y # z # G2) \<union> A" and ?V = "set (G1 @ y # G2) \<union> A"
  have U: "?U = insert z ?V" "z \<notin> ?V" using d(3,6) by auto
  have in_U: "y \<in> ?U" "z \<in> ?U" by auto
  have zb: "z + HEADER * u_size s z \<le> u_brk s" using d(9) in_U by blast
  then have sum: "u_size s y + u_size s z < 2 ^ 32" using t d(11) by simp
  have size: "u_size (merge y z s) = (u_size s)(y := u_size s y + u_size s z)"
    using sum by (simp add: merge_def set_ptr_def set_size_def)
  have other: "u_brk (merge y z s) = u_brk s" "u_freep (merge y z s) = u_freep s" "u_ptr (merge y z s) = (u_ptr s)(y := u_ptr s z)"
    by (simp_all add: merge_def set_ptr_def set_size_def)
  have "seg (u_ptr (merge y z s)) B ((G1 @ [y]) @ G2) B"
    using seg_remove [of "u_ptr s" B "G1 @ [y]" z G2 B] d(1,3) by (simp add: other)
  moreover have "sorted_wrt (<) (B # G1 @ y # G2)" using d(2) by (auto simp: sorted_wrt_append)
  moreover have "u_size (merge y z s) B = 0" using d(3,4) size by auto
  moreover have "u_freep s \<in> set (B # G1 @ y # G2)" using d(5) free by auto
  moreover have "set (G1 @ y # G2) \<inter> A = {}" using d(6) by auto
  moreover have "B + HEADER \<le> a \<and> 0 < u_size (merge y z s) a \<and> a + HEADER * u_size (merge y z s) a \<le> u_brk s" if "a \<in> ?V" for a
    using d(7-9) [of a] that zb t unfolding size U(1) by (auto simp: algebra_simps)
  moreover have far: "apart (merge y z s) y a" if a: "a \<in> ?V" "a \<noteq> y" for a
  proof -
    have "apart s y a" "apart s z a" "0 < u_size s a" using d(8,10) in_U a U by (metis insertCI)+
    then show ?thesis using a(2) t unfolding apart_def size by (auto simp: algebra_simps)
  qed
  have "apart (merge y z s) a b" if "a \<in> ?V" "b \<in> ?V" "a \<noteq> b" for a b
  proof (cases "a = y \<or> b = y")
    case True
    then show ?thesis using far that unfolding apart_def by auto
  next
    case False
    have "apart s a b" using d(10) that U by blast
    with False show ?thesis by (simp add: apart_def size)
  qed
  ultimately show "heap B (merge y z s) (G1 @ y # G2) A"
    unfolding heap_def other using d(11-13) by simp
  have "block (merge y z s) y = block s y \<union> block s z" using t d(8) [OF in_U(1)] by (auto simp: block_def size algebra_simps)
  moreover have "block (merge y z s) ` (?V - {y}) = block s ` (?V - {y})"
    by (rule image_cong) (auto simp: block_def size)
  ultimately have "\<Union> (block (merge y z s) ` ?V) = block s y \<union> block s z \<union> \<Union> (block s ` (?V - {y}))"
    using Union_split [of y ?V "block (merge y z s)"] by simp
  also have "\<dots> = block s z \<union> \<Union> (block s ` ?V)" using Union_split [of y ?V "block s"] by auto
  finally show "region (merge y z s) (G1 @ y # G2) A = region s (G1 @ y # z # G2) A"
    unfolding region_def U(1) by (simp only: UN_insert)
qed

definition merge_up :: "nat \<Rightarrow> nat \<Rightarrow> umem \<Rightarrow> umem" where
  "merge_up a z s = (if a + HEADER * u_size s a = z then merge a z s else s)"

lemma free_code:
  assumes "find_place (u_ptr s) a (u_freep s) = Some p" "a \<noteq> p" "u_ptr s p \<noteq> a" "a + HEADER * u_size s a = u_ptr s p \<longrightarrow> u_ptr s p \<noteq> p"
  shows "free (a + HEADER) s = Some (merge_up p a (merge_up a (u_ptr s p) (link p a s)))"
  using assms by (simp add: free_def Let_def merge_up_def merge_def link_def set_ptr_def set_size_def fun_upd_twist)

text \<open>What freeing promises: the block leaves the blocks in use, no byte is lost and no other block changes.\<close>

definition freed :: "nat \<Rightarrow> umem \<Rightarrow> nat list \<Rightarrow> nat set \<Rightarrow> nat \<Rightarrow> umem \<Rightarrow> nat list \<Rightarrow> bool" where
  "freed B s F A a s' F' \<longleftrightarrow> heap B s' F' (A - {a}) \<and> region s' F' (A - {a}) = region s F A
     \<and> (\<forall>x \<in> A - {a}. u_size s' x = u_size s x) \<and> u_brk s' = u_brk s \<and> u_mem s' = u_mem s
     \<and> (\<exists>x \<in> set F'. u_size s a \<le> u_size s' x)"

lemma merge_up_freed:
  assumes f: "freed B s F A a s' (G1 @ y # z # G2)" and free: "u_freep s' \<noteq> z"
  shows "\<exists>F'. freed B s F A a (merge_up y z s') F' \<and> (F' = G1 @ y # z # G2 \<or> F' = G1 @ y # G2) \<and> u_freep (merge_up y z s') = u_freep s'"
proof (cases "y + HEADER * u_size s' y = z")
  case True
  have h: "heap B s' (G1 @ y # z # G2) (A - {a})" using f by (simp add: freed_def)
  note m = merge_ok [OF h True free]
  have small: "u_size s' y + u_size s' z < 2 ^ 32"
  proof -
    have "z + HEADER * u_size s' z \<le> u_brk s'" using heapD(9) [OF h, of z] by simp
    then show ?thesis using True heapD(11) [OF h] by simp
  qed
  have size: "u_size (merge y z s') = (u_size s')(y := u_size s' y + u_size s' z)"
    using small by (simp add: merge_def set_ptr_def set_size_def)
  obtain x where x: "x \<in> set (G1 @ y # z # G2)" "u_size s a \<le> u_size s' x" using f by (auto simp: freed_def)
  have "\<exists>x \<in> set (G1 @ y # G2). u_size s a \<le> u_size (merge y z s') x"
    using x by (cases "x = y \<or> x = z") (auto simp: size)
  moreover have "y \<notin> A - {a}" using heapD(6) [OF h] by auto
  ultimately have "freed B s F A a (merge y z s') (G1 @ y # G2)"
    using f m by (auto simp: freed_def size) (simp_all add: merge_def set_ptr_def set_size_def)
  with True show ?thesis
    by (intro exI [of _ "G1 @ y # G2"]) (simp add: merge_up_def, simp add: merge_def set_ptr_def set_size_def)
next
  case False
  with f show ?thesis by (intro exI [of _ "G1 @ y # z # G2"]) (simp add: merge_up_def)
qed

lemma merge_up_base: "heap B s F A \<Longrightarrow> a \<in> set F \<union> A \<Longrightarrow> merge_up a B s = s \<and> merge_up B a s = s"
  using heapD(4) [of B s F A] heapD(7) [of B s F A a] by (auto simp: merge_up_def)

lemma free_ok:
  assumes h: "heap B s F A" and a: "a \<in> A"
  shows "\<exists>s' F'. free (a + HEADER) s = Some s' \<and> freed B s F A a s' F'"
proof -
  note d = heapD [OF h]
  have B: "B < a" using d(7) [of a] a by simp
  obtain F1 F2 where F: "F = F1 @ F2" "\<forall>y \<in> set F1. y < a" "\<forall>y \<in> set F2. a < y"
    and place: "find_place (u_ptr s) a (u_freep s) = Some (last (B # F1))"
    using find_place_heap [OF h _ B] d(6) a by blast
  let ?p = "last (B # F1)" and ?s = "link (last (B # F1)) a s"
  define z where "z = hd (F2 @ [B])"
  have p: "?p < a" using F(2) B by auto
  have z: "u_ptr s ?p = z"
  proof -
    have "F1 @ F2 @ [B] = F1 @ z # tl (F2 @ [B])" by (simp add: z_def)
    with d(1) F(1) have "seg (u_ptr s) B (F1 @ F2) B" by simp
    then show ?thesis
    proof (cases F2)
      case Nil
      with d(1) F(1) have "seg (u_ptr s) B F1 B" by simp
      then show ?thesis unfolding z_def Nil by (metis append_Nil last_map last_snoc list.discI list.sel(1) seg_map)
    next
      case (Cons y G)
      with d(1) F(1) have "seg (u_ptr s) B F1 y" by (simp add: seg_append)
      then show ?thesis unfolding z_def Cons by (metis append_Cons last_map last_snoc list.discI list.sel(1) seg_map)
    qed
  qed
  have za: "z \<noteq> a" and zp: "a + HEADER * u_size s a = z \<longrightarrow> z \<noteq> ?p"
    using F(3) B p by (cases F2; auto simp: z_def)+
  have code: "free (a + HEADER) s = Some (merge_up ?p a (merge_up a z ?s))"
    by (rule free_code [OF place, unfolded z]) (use p za zp in auto)
  have size: "u_size ?s = u_size s" "u_brk ?s = u_brk s" "u_mem ?s = u_mem s" "u_freep ?s = ?p"
    by (simp_all add: link_def set_ptr_def)
  have l: "freed B s F A a ?s (F1 @ a # F2)"
    using link_ok [OF h [unfolded F(1)] a F(2,3)] by (simp add: freed_def size F(1) del: last.simps)
  have up: "\<exists>G. freed B s F A a (merge_up a z ?s) (F1 @ a # G) \<and> u_freep (merge_up a z ?s) = ?p"
  proof (cases F2)
    case Nil
    have "heap B ?s (F1 @ [a]) (A - {a})" using l Nil by (simp add: freed_def)
    then have "merge_up a z ?s = ?s" using merge_up_base [of B ?s "F1 @ [a]" "A - {a}" a] Nil by (simp add: z_def)
    then show ?thesis using l size(4) Nil by (auto simp del: last.simps)
  next
    case (Cons y G)
    have "u_freep ?s \<noteq> z" using p F(3) Cons unfolding size(4) z_def by auto
    with merge_up_freed [of B s F A a ?s F1 a z G] l Cons show ?thesis by (auto simp: z_def size(4) simp del: last.simps)
  qed
  then obtain G where G: "freed B s F A a (merge_up a z ?s) (F1 @ a # G)" "u_freep (merge_up a z ?s) = ?p" by blast
  show ?thesis
  proof (cases F1 rule: rev_cases)
    case Nil
    have "heap B (merge_up a z ?s) (a # G) (A - {a})" using G(1) Nil by (simp add: freed_def)
    then have "merge_up ?p a (merge_up a z ?s) = merge_up a z ?s"
      using merge_up_base [of B "merge_up a z ?s" "a # G" "A - {a}" a] Nil by simp
    with code G(1) show ?thesis by auto
  next
    case (snoc H x)
    have "u_freep (merge_up a z ?s) \<noteq> a" using p G(2) by simp
    with merge_up_freed [of B s F A a "merge_up a z ?s" H x a G] G(1) snoc code show ?thesis by auto
  qed
qed

section \<open>Taking a block\<close>

text \<open>What an allocation promises: a new block of the size asked for, all others as they were, no byte lost.\<close>

definition taken :: "nat \<Rightarrow> umem \<Rightarrow> nat list \<Rightarrow> nat set \<Rightarrow> nat \<Rightarrow> nat \<Rightarrow> umem \<Rightarrow> nat list \<Rightarrow> bool" where
  "taken B s F A n a s' F' \<longleftrightarrow> heap B s' F' (insert a A) \<and> a \<notin> A \<and> u_size s' a = n \<and> (\<forall>x \<in> A. u_size s' x = u_size s x)
     \<and> u_mem s' = u_mem s \<and> u_brk s \<le> u_brk s' \<and> region s' F' (insert a A) = region s F A \<union> {u_brk s..<u_brk s'}"

lemma take_whole:
  assumes h: "heap B s (F1 @ p # F2) A" and s': "s' = (set_ptr (last (B # F1)) (u_ptr s p) s)\<lparr>u_freep := last (B # F1)\<rparr>"
  shows "taken B s (F1 @ p # F2) A (u_size s p) p s' (F1 @ F2)"
proof -
  note d = heapD [OF h]
  have size: "u_size s' = u_size s" "u_brk s' = u_brk s" "u_mem s' = u_mem s" "u_freep s' = last (B # F1)"
    "u_ptr s' = (u_ptr s)(last (B # F1) := u_ptr s p)"
    by (simp_all add: s' set_ptr_def del: last.simps)
  have set: "set (F1 @ F2) \<union> insert p A = set (F1 @ p # F2) \<union> A" by auto
  have "seg (u_ptr s') B (F1 @ F2) B" unfolding size by (rule seg_remove) (use d(1,3) in auto)
  moreover have "sorted_wrt (<) (B # F1 @ F2)" using d(2) by (auto simp: sorted_wrt_append)
  moreover have "u_freep s' \<in> set (B # F1 @ F2)" unfolding size by auto
  moreover have "set (F1 @ F2) \<inter> insert p A = {}" using d(3,6) by auto
  ultimately have "heap B s' (F1 @ F2) (insert p A)"
    using h unfolding heap_def set by (simp only: size apart_def) blast
  then show ?thesis using d(6) unfolding taken_def region_def set by (simp add: size block_def)
qed

lemma take_part:
  assumes h: "heap B s F A" and p: "p \<in> set F" and n: "0 < n" "n < u_size s p" and q: "q \<in> set (B # F)"
    and a: "a = p + HEADER * (u_size s p - n)" and s': "s' = (set_size a n (set_size p (u_size s p - n) s))\<lparr>u_freep := q\<rparr>"
  shows "taken B s F A n a s' F"
proof -
  note d = heapD [OF h]
  have pU: "p \<in> set F \<union> A" using p by simp
  have pa: "p < a" using n a by simp
  have ends: "a + HEADER * n = p + HEADER * u_size s p" using n a by (simp add: algebra_simps)
  have fresh: "a \<notin> set F \<union> A"
  proof
    assume "a \<in> set F \<union> A"
    then have "apart s p a" using d(10) pU pa by blast
    then show False using pa ends n by (simp add: apart_def)
  qed
  have lt: "u_size s p < 2 ^ 32" using size_small [OF h pU] .
  have size: "u_size s' = (u_size s)(p := u_size s p - n, a := n)" "u_brk s' = u_brk s" "u_mem s' = u_mem s" "u_freep s' = q" "u_ptr s' = u_ptr s"
    using lt n pa by (simp_all add: s' set_size_def)
  have set: "set F \<union> insert a A = insert a (set F \<union> A)" by auto
  have p': "u_size s' p = u_size s p - n" using pa by (simp add: size)
  have part: "apart s' p x \<and> apart s' a x" if x: "x \<in> set F \<union> A" "x \<noteq> p" for x
  proof -
    have "apart s p x" using d(10) pU x by blast
    moreover have "u_size s' x = u_size s x" using x fresh by (auto simp: size)
    ultimately show ?thesis using p' a ends n pa unfolding apart_def by (auto simp: size algebra_simps)
  qed
  have pap: "apart s' p a" using p' a by (simp add: apart_def)
  have sym: "apart s' x y = apart s' y x" for x y by (auto simp: apart_def)
  have all: "apart s' x y" if x: "x \<in> insert a (set F \<union> A)" and y: "y \<in> insert a (set F \<union> A)" and ne: "x \<noteq> y" for x y
  proof (cases "x \<in> {a, p} \<or> y \<in> {a, p}")
    case True
    then show ?thesis using part [of x] part [of y] pap x y ne sym by (metis insertE insert_iff empty_iff)
  next
    case False
    then have "apart s x y" "u_size s' x = u_size s x" "u_size s' y = u_size s y" using d(10) x y ne by (auto simp: size)
    then show ?thesis by (simp add: apart_def)
  qed
  have bounds: "B + HEADER \<le> x \<and> 0 < u_size s' x \<and> x + HEADER * u_size s' x \<le> u_brk s" if "x \<in> insert a (set F \<union> A)" for x
    using d(7-9) [of x] d(7-9) [OF pU] that pa ends n p' by (cases "x = a"; cases "x = p") (auto simp: size algebra_simps)
  have "u_size s' B = 0" using d(4) d(7) [OF pU] pa by (simp add: size)
  with d h bounds all fresh q have "heap B s' F (insert a A)"
    unfolding heap_def set size(2,4,5) by (intro conjI ballI impI) auto
  moreover have "region s' F (insert a A) = region s F A"
  proof -
    have "\<Union> (block s' ` insert a (set F \<union> A)) = block s' a \<union> block s' p \<union> \<Union> (block s' ` (set F \<union> A - {p}))"
      using Union_split [OF pU, of "block s'"] by auto
    also have "block s' ` (set F \<union> A - {p}) = block s ` (set F \<union> A - {p})"
      by (rule image_cong) (use fresh in \<open>auto simp: block_def size\<close>)
    also have "block s' a \<union> block s' p = block s p" using p' a ends pa n by (auto simp: block_def size)
    finally show ?thesis unfolding region_def set using Union_split [OF pU, of "block s"] by simp
  qed
  ultimately show ?thesis using fresh d(6) p pa unfolding taken_def by (auto simp: size)
qed

lemma take_block_ok:
  assumes h: "heap B s F A" and q: "q \<in> set (B # F)" and n: "0 < n" "n \<le> u_size s (u_ptr s q)"
  shows "\<exists>a s' F'. take_block n q (u_ptr s q) s = (a + HEADER, s') \<and> taken B s F A n a s' F' \<and> u_brk s' = u_brk s"
proof -
  note d = heapD [OF h]
  let ?p = "u_ptr s q"
  have "?p \<noteq> B" using n d(4) by auto
  moreover have "?p \<in> set (F @ [B])" by (rule seg_in [OF d(1) q])
  ultimately have p: "?p \<in> set F" by simp
  show ?thesis
  proof (cases "u_size s ?p = n")
    case True
    from p obtain F1 F2 where F: "F = F1 @ ?p # F2" by (auto simp: in_set_conv_decomp)
    have "q = last (B # F1)" by (rule seg_before [OF d(1,3) F q refl])
    with take_whole [OF h [unfolded F] refl] True F show ?thesis
      by (intro exI [of _ ?p] exI [of _ "(set_ptr q (u_ptr s ?p) s)\<lparr>u_freep := q\<rparr>"] exI [of _ "F1 @ F2"])
        (simp add: take_block_def, simp add: set_ptr_def)
  next
    case False
    have "u_size s ?p < 2 ^ 32" using size_small [OF h] p by simp
    moreover have "n < u_size s ?p" using n False by simp
    ultimately show ?thesis using take_part [OF h p n(1) _ q refl refl] False
      by (intro exI [of _ "?p + HEADER * (u_size s ?p - n)"] exI [of _ F] exI)
        (auto simp: take_block_def Let_def set_size_def)
  qed
qed

section \<open>The search\<close>

lemma walk_found:
  "seg (u_ptr s) q H x \<Longrightarrow> u_freep s = x \<Longrightarrow> x \<notin> set H \<Longrightarrow> \<exists>y \<in> set (H @ [x]). n \<le> u_size s y \<Longrightarrow>
   \<exists>p \<in> set (q # H). malloc_from sbrk n q (u_ptr s q) s = Some (take_block n p (u_ptr s p) s) \<and> n \<le> u_size s (u_ptr s p)"
proof (induction H arbitrary: q)
  case Nil
  then show ?case by (subst malloc_from.simps) simp
next
  case (Cons y H)
  have y: "u_ptr s q = y" "y \<noteq> u_freep s" using Cons.prems by auto
  show ?case
  proof (cases "n \<le> u_size s y")
    case True
    with y show ?thesis by (subst malloc_from.simps) auto
  next
    case False
    with Cons.prems Cons.IH [of y] obtain p where "p \<in> set (y # H)"
      "malloc_from sbrk n y (u_ptr s y) s = Some (take_block n p (u_ptr s p) s)" "n \<le> u_size s (u_ptr s p)" by auto
    with y False show ?thesis by (subst malloc_from.simps) auto
  qed
qed

lemma walk_none:
  "seg (u_ptr s) q H x \<Longrightarrow> u_freep s = x \<Longrightarrow> x \<notin> set H \<Longrightarrow> \<forall>y \<in> set (H @ [x]). u_size s y < n \<Longrightarrow>
   malloc_from sbrk n q (u_ptr s q) s = Option.bind (morecore sbrk n s)
     (\<lambda>r. if fst r = 0 then Some r else malloc_from sbrk n (fst r) (u_ptr (snd r) (fst r)) (snd r))"
proof (induction H arbitrary: q)
  case Nil
  then show ?case by (subst malloc_from.simps) simp
next
  case (Cons y H)
  then have "u_ptr s q = y" "y \<noteq> u_freep s" "u_size s y < n" by auto
  with Cons show ?case by (subst malloc_from.simps) auto
qed

lemma search_found:
  assumes h: "heap B s F A" and n: "0 < n" "\<exists>y \<in> set F. n \<le> u_size s y"
  shows "\<exists>a s' F'. malloc_from sbrk n (u_freep s) (u_ptr s (u_freep s)) s = Some (a + HEADER, s') \<and> taken B s F A n a s' F'
    \<and> u_brk s' = u_brk s"
proof -
  note d = heapD [OF h]
  obtain G where G: "seg (u_ptr s) (u_freep s) G (u_freep s)" "set (u_freep s # G) = set (B # F)" "length G = length F"
    by (rule seg_rotate [OF d(1,5)])
  have "distinct (u_freep s # G)" using G(2,3) d(3) by (metis card_distinct distinct_card length_Cons)
  then have "u_freep s \<notin> set G" by simp
  moreover have "\<exists>y \<in> set (G @ [u_freep s]). n \<le> u_size s y" using n(2) G(2) by auto
  ultimately obtain p where "p \<in> set (u_freep s # G)" "n \<le> u_size s (u_ptr s p)"
    "malloc_from sbrk n (u_freep s) (u_ptr s (u_freep s)) s = Some (take_block n p (u_ptr s p) s)"
    using walk_found [OF G(1) refl] by blast
  with take_block_ok [OF h _ n(1), of p] G(2) show ?thesis by auto
qed

section \<open>More memory\<close>

text \<open>What is used of \<open>sbrk\<close>: a call that succeeds for a number that is not negative moves the end of the memory by it.\<close>

definition grows :: "(int \<Rightarrow> nat \<Rightarrow> nat option) \<Rightarrow> bool" where
  "grows sbrk \<longleftrightarrow> (\<forall>n b b'. 0 \<le> n \<longrightarrow> sbrk n b = Some b' \<longrightarrow> int b' = int b + n \<and> b' < 2 ^ 36)"

lemma grow_heap:
  assumes h: "heap B s F A" and nu: "0 < nu" "nu < 2 ^ 32" and b: "b = u_brk s + HEADER * nu" "b < 2 ^ 36"
    and s1: "s1 = set_size (u_brk s) nu (s\<lparr>u_brk := b\<rparr>)"
  shows "heap B s1 F (insert (u_brk s) A)" "region s1 F (insert (u_brk s) A) = region s F A \<union> {u_brk s..<b}" "u_brk s \<notin> A"
    "\<forall>x \<in> A. u_size s1 x = u_size s x" "u_size s1 (u_brk s) = nu" "u_brk s1 = b" "u_mem s1 = u_mem s"
proof -
  note d = heapD [OF h]
  let ?a = "u_brk s"
  have below: "x < ?a \<and> x + HEADER * u_size s x \<le> ?a" if "x \<in> set F \<union> A" for x using d(8,9) [OF that] by linarith
  have size: "u_size s1 = (u_size s)(?a := nu)" "u_brk s1 = b" "u_mem s1 = u_mem s" "u_freep s1 = u_freep s" "u_ptr s1 = u_ptr s"
    using nu by (simp_all add: s1 set_size_def)
  have fresh: "?a \<notin> set F \<union> A" using below by blast
  have set: "set F \<union> insert ?a A = insert ?a (set F \<union> A)" by auto
  have same: "u_size s1 x = u_size s x" if "x \<in> set F \<union> A" for x using that fresh by (auto simp: size)
  have bounds: "B + HEADER \<le> x \<and> 0 < u_size s1 x \<and> x + HEADER * u_size s1 x \<le> b" if "x \<in> insert ?a (set F \<union> A)" for x
  proof (cases "x = ?a")
    case True
    then show ?thesis using d(12) nu(1) b(1) by (simp add: size)
  next
    case False
    then have x: "x \<in> set F \<union> A" using that by blast
    then show ?thesis using d(7-9) [OF x] b(1) same [OF x] by linarith
  qed
  have "apart s1 x y" if xy: "x \<in> insert ?a (set F \<union> A)" "y \<in> insert ?a (set F \<union> A)" "x \<noteq> y" for x y
  proof (cases "x = ?a \<or> y = ?a")
    case True
    then show ?thesis using below [of x] below [of y] same [of x] same [of y] xy unfolding apart_def by auto
  next
    case False
    then have "apart s x y" using d(10) xy by blast
    then show ?thesis using False xy same by (auto simp: apart_def)
  qed
  moreover have "u_size s1 B = 0" using d(4,12) by (simp add: size)
  ultimately show "heap B s1 F (insert ?a A)"
    unfolding heap_def set size(2,4,5) using d(1,2,5,6,12,13) fresh bounds b by (auto intro: trans_le_add1)
  have "block s1 ` (set F \<union> A) = block s ` (set F \<union> A)" by (rule image_cong) (auto simp: block_def same)
  moreover have "block s1 ?a = {?a..<b}" using b(1) by (simp add: block_def size)
  ultimately show "region s1 F (insert ?a A) = region s F A \<union> {?a..<b}" unfolding region_def set by auto
qed (use assms heapD(8,9) [OF assms(1), of "u_brk s"] in \<open>auto simp: set_size_def dest: heapD(8,9) [OF assms(1)]\<close>)

lemma malloc_from_ok:
  assumes h: "heap B s F A" and n: "0 < n" "n < 2 ^ 27" and g: "grows sbrk"
  shows "malloc_from sbrk n (u_freep s) (u_ptr s (u_freep s)) s = Some (0, s)
    \<or> (\<exists>a s' F'. malloc_from sbrk n (u_freep s) (u_ptr s (u_freep s)) s = Some (a + HEADER, s') \<and> taken B s F A n a s' F')"
proof (cases "\<exists>y \<in> set F. n \<le> u_size s y")
  case True
  from search_found [OF h n(1) this] show ?thesis by blast
next
  case False
  note d = heapD [OF h]
  obtain G where G: "seg (u_ptr s) (u_freep s) G (u_freep s)" "set (u_freep s # G) = set (B # F)" "length G = length F"
    by (rule seg_rotate [OF d(1,5)])
  have "distinct (u_freep s # G)" using G(2,3) d(3) by (metis card_distinct distinct_card length_Cons)
  moreover have "\<forall>y \<in> set (G @ [u_freep s]). u_size s y < n" using False G(2) d(4) n(1) by fastforce
  ultimately have walk: "malloc_from sbrk n (u_freep s) (u_ptr s (u_freep s)) s = Option.bind (morecore sbrk n s)
     (\<lambda>r. if fst r = 0 then Some r else malloc_from sbrk n (fst r) (u_ptr (snd r) (fst r)) (snd r))"
    by (intro walk_none [OF G(1) refl]) auto
  define nu where "nu = (if n < 4096 then 4096 else n)"
  have nu: "0 < nu" "nu < 2 ^ 32" "n \<le> nu" "i32 (int (nu * HEADER)) = int (nu * HEADER)" using n by (auto simp: nu_def i32_small)
  show ?thesis
  proof (cases "sbrk (int (nu * HEADER)) (u_brk s)")
    case None
    then have "morecore sbrk n s = Some (0, s)" by (simp only: morecore_def Let_def nu(4) flip: nu_def) simp
    with walk show ?thesis by simp
  next
    case (Some b)
    then have "int b = int (u_brk s) + int (nu * HEADER) \<and> b < 2 ^ 36" using g unfolding grows_def by (metis of_nat_0_le_iff)
    then have b: "b = u_brk s + HEADER * nu" "b < 2 ^ 36" by simp_all
    let ?s1 = "set_size (u_brk s) nu (s\<lparr>u_brk := b\<rparr>)"
    note gr = grow_heap [OF h nu(1,2) b refl]
    obtain s2 F2 where s2: "free (u_brk s + HEADER) ?s1 = Some s2" "freed B ?s1 F (insert (u_brk s) A) (u_brk s) s2 F2"
      using free_ok [OF gr(1)] by blast
    have A: "insert (u_brk s) A - {u_brk s} = A" using gr(3) by auto
    have h2: "heap B s2 F2 A" and big: "\<exists>y \<in> set F2. n \<le> u_size s2 y"
      using s2(2) gr(5) nu(3) unfolding freed_def A by (auto intro: order_trans)
    have "u_freep s2 \<noteq> 0" using heapD(5,7,13) [OF h2] by (metis Un_iff add_is_0 less_numeral_extra(3) set_ConsD le_zero_eq)
    moreover have "morecore sbrk n s = Some (u_freep s2, s2)"
      using Some s2(1) by (simp only: morecore_def Let_def nu(4) flip: nu_def) (simp add: s2(1))
    ultimately have "malloc_from sbrk n (u_freep s) (u_ptr s (u_freep s)) s = malloc_from sbrk n (u_freep s2) (u_ptr s2 (u_freep s2)) s2"
      using walk by simp
    moreover obtain a s' F' where t: "malloc_from sbrk n (u_freep s2) (u_ptr s2 (u_freep s2)) s2 = Some (a + HEADER, s')"
      "taken B s2 F2 A n a s' F'" "u_brk s' = u_brk s2"
      using search_found [OF h2 n(1) big] by blast
    moreover have "taken B s F A n a s' F'"
      using t(2,3) s2(2) gr(2,4,6,7) b(1) unfolding taken_def freed_def A by auto
    ultimately show ?thesis by metis
  qed
qed

end
