(* ===== verification/Umalloc_Theorems.thy ===== *)
theory Umalloc_Theorems
  imports Umalloc Interfaces
begin

text \<open>
  The allocator of user programs as its callers see it: what \<open>malloc\<close>, \<open>realloc\<close> and \<open>calloc\<close> promise, every run of
  a program that gives back only what it was given, and two requests the code gets wrong.
\<close>

section \<open>One call\<close>

text \<open>Before the first call the list does not exist yet. Blocks in use are small enough for an \<open>int\<close> of bytes.\<close>

definition ready :: "nat \<Rightarrow> umem \<Rightarrow> nat list \<Rightarrow> nat set \<Rightarrow> bool" where
  "ready B s F A \<longleftrightarrow>
     (heap B s F A \<or> u_freep s = 0 \<and> F = [] \<and> A = {} \<and> 0 < B \<and> B + HEADER \<le> u_brk s \<and> u_brk s < 2 ^ 36)
   \<and> (\<forall>a \<in> A. u_size s a < 2 ^ 27)"

definition units_for :: "nat \<Rightarrow> nat" where
  "units_for nbytes = (nbytes + HEADER - 1) div HEADER + 1"

lemma units_for: "nbytes \<le> 2 ^ 31 - 32 \<Longrightarrow> 0 < units_for nbytes \<and> units_for nbytes < 2 ^ 27 \<and> nbytes \<le> HEADER * (units_for nbytes - 1)"
  unfolding units_for_def by auto

lemma malloc_ready:
  assumes r: "ready B s F A" and g: "grows sbrk" and n: "nbytes \<le> 2 ^ 31 - 32"
  shows "(\<exists>s'. malloc B sbrk nbytes s = Some (0, s') \<and> heap B s' F A \<and> ready B s' F A \<and> u_brk s' = u_brk s \<and> u_mem s' = u_mem s
      \<and> region s' F A = region s F A \<and> (\<forall>x \<in> A. u_size s' x = u_size s x))
    \<or> (\<exists>a s' F'. malloc B sbrk nbytes s = Some (a + HEADER, s') \<and> taken B s F A (units_for nbytes) a s' F' \<and> ready B s' F' (insert a A))"
proof -
  define s1 where "s1 = (if u_freep s = 0 then (set_size B 0 (set_ptr B B s))\<lparr>u_freep := B\<rparr> else s)"
  have s1: "heap B s1 F A \<and> u_brk s1 = u_brk s \<and> u_mem s1 = u_mem s \<and> region s1 F A = region s F A \<and> (\<forall>x \<in> A. u_size s1 x = u_size s x)"
  proof (cases "u_freep s = 0")
    case True
    with r have e: "F = []" "A = {}" "0 < B" "B + HEADER \<le> u_brk s" "u_brk s < 2 ^ 36"
      unfolding ready_def heap_def by auto
    then show ?thesis using True by (simp add: s1_def heap_def set_ptr_def set_size_def region_def)
  next
    case False
    with r show ?thesis by (auto simp: s1_def ready_def)
  qed
  have k: "0 < units_for nbytes" "units_for nbytes < 2 ^ 27" using units_for [OF n] by simp_all
  have m: "malloc B sbrk nbytes s = malloc_from sbrk (units_for nbytes) (u_freep s1) (u_ptr s1 (u_freep s1)) s1"
    using k(2) by (simp add: malloc_def Let_def s1_def units_for_def)
  have small: "\<forall>a \<in> A. u_size s a < 2 ^ 27" using r by (simp add: ready_def)
  from malloc_from_ok [OF conjunct1 [OF s1] k g] show ?thesis
  proof (elim disjE exE conjE)
    assume "malloc_from sbrk (units_for nbytes) (u_freep s1) (u_ptr s1 (u_freep s1)) s1 = Some (0, s1)"
    with m s1 small show ?thesis by (intro disjI1 exI [of _ s1]) (simp add: ready_def)
  next
    fix a s' F'
    assume f: "malloc_from sbrk (units_for nbytes) (u_freep s1) (u_ptr s1 (u_freep s1)) s1 = Some (a + HEADER, s')"
      "taken B s1 F A (units_for nbytes) a s' F'"
    have t: "taken B s F A (units_for nbytes) a s' F'" using f(2) s1 unfolding taken_def by simp
    then have "ready B s' F' (insert a A)" using k(2) small unfolding taken_def ready_def by auto
    with m f(1) t show ?thesis by auto
  qed
qed

lemma block_same: "u_size s' x = u_size s x \<Longrightarrow> block s' x = block s x"
  by (simp add: block_def)

lemma taken_disjoint:
  assumes "taken B s F A n a s' F'" "x \<in> A"
  shows "block s' x \<inter> block s' a = {}" "block s' x = block s x"
proof -
  have "heap B s' F' (insert a A)" "x \<noteq> a" "u_size s' x = u_size s x" using assms by (auto simp: taken_def)
  then show "block s' x \<inter> block s' a = {}" "block s' x = block s x"
    using heapD(10) [of B s' F' "insert a A" x a] assms(2) apart_disjoint [of s' x a] block_same [of s' x s] by simp_all
qed

text \<open>The bytes a block has for the program.\<close>

definition payload :: "umem \<Rightarrow> nat \<Rightarrow> nat set" where
  "payload s a = {a + HEADER..<a + HEADER * u_size s a}"

lemma taken_payload: "taken B s F A (units_for nbytes) a s' F' \<Longrightarrow> nbytes \<le> 2 ^ 31 - 32 \<Longrightarrow> {a + HEADER..<a + HEADER + nbytes} \<subseteq> payload s' a"
  using units_for [of nbytes] by (auto simp: taken_def payload_def algebra_simps)

section \<open>Moving a block\<close>

lemma copy_bytes_eq:
  "dst + n \<le> src \<or> src + n \<le> dst \<Longrightarrow> copy_bytes dst src n m x = (if dst \<le> x \<and> x < dst + n then m (src + (x - dst)) else m x)"
  by (induction n arbitrary: x) (auto simp: Let_def less_Suc_eq)

lemma heap_mem [simp]: "heap B (s\<lparr>u_mem := m\<rparr>) F A = heap B s F A"
  by (simp add: heap_def apart_def)

lemma region_mem [simp]: "region (s\<lparr>u_mem := m\<rparr>) F A = region s F A"
  by (simp add: region_def block_def)

lemma realloc_ready:
  assumes r: "ready B s F A" and g: "grows sbrk" and n: "0 < nbytes" "nbytes \<le> 2 ^ 31 - 32" and a: "a \<in> A"
  shows "(\<exists>s'. realloc B sbrk (a + HEADER) nbytes s = Some (0, s') \<and> ready B s' F A \<and> u_mem s' = u_mem s
        \<and> (\<forall>x \<in> A. u_size s' x = u_size s x) \<and> u_brk s' = u_brk s \<and> region s' F A = region s F A)
    \<or> (\<exists>b s' F'. realloc B sbrk (a + HEADER) nbytes s = Some (b + HEADER, s') \<and> ready B s' F' (insert b A - {a}) \<and> b \<notin> A
        \<and> {b + HEADER..<b + HEADER + nbytes} \<subseteq> payload s' b
        \<and> (\<forall>i. i < nbytes \<longrightarrow> a + HEADER + i \<in> payload s a \<longrightarrow> u_mem s' (b + HEADER + i) = u_mem s (a + HEADER + i))
        \<and> (\<forall>x \<in> A - {a}. block s' x = block s x \<and> (\<forall>y \<in> block s x. u_mem s' y = u_mem s y))
        \<and> u_brk s \<le> u_brk s' \<and> region s' F' (insert b A - {a}) = region s F A \<union> {u_brk s..<u_brk s'})"
proof -
  have pos: "0 < u_size s a" "u_size s a < 2 ^ 27" using r a heapD(8) [of B s F A a] by (auto simp: ready_def)
  define old where "old = HEADER * (u_size s a - 1)"
  have old: "(u_size s (a + HEADER - HEADER) + 2 ^ 32 - 1) mod 2 ^ 32 * HEADER mod 2 ^ 32 = old"
  proof -
    have "(u_size s a + 2 ^ 32 - 1) mod 2 ^ 32 = u_size s a - 1" using pos by (simp add: le_mod_geq)
    then show ?thesis using pos by (simp add: old_def)
  qed
  from malloc_ready [OF r g n(2)] show ?thesis
  proof (elim disjE exE conjE)
    fix s' assume "malloc B sbrk nbytes s = Some (0, s')"
      "ready B s' F A" "u_brk s' = u_brk s" "u_mem s' = u_mem s" "region s' F A = region s F A" "\<forall>x \<in> A. u_size s' x = u_size s x"
    then show ?thesis using n(1) by (intro disjI1 exI [of _ s']) (simp add: realloc_def Let_def)
  next
    fix b s1 F1
    assume m: "malloc B sbrk nbytes s = Some (b + HEADER, s1)" and t: "taken B s F A (units_for nbytes) b s1 F1"
      and r1: "ready B s1 F1 (insert b A)"
    define k where "k = min old nbytes"
    define s2 where "s2 = s1\<lparr>u_mem := copy_bytes (b + HEADER) (a + HEADER) k (u_mem s1)\<rparr>"
    have h1: "heap B s1 F1 (insert b A)" and b: "b \<notin> A" "b \<noteq> a" using t a by (auto simp: taken_def)
    have size: "u_size s1 x = u_size s x" if "x \<in> A" for x using t that by (simp add: taken_def)
    have h2: "heap B s2 F1 (insert b A)" using h1 by (simp add: s2_def)
    obtain s3 F3 where f: "free (a + HEADER) s2 = Some s3" "freed B s2 F1 (insert b A) a s3 F3"
      using free_ok [OF h2, of a] a by blast
    have code: "realloc B sbrk (a + HEADER) nbytes s = Some (b + HEADER, s3)"
      unfolding realloc_def Let_def old using n(1) m f(1) by (simp add: s2_def k_def)
    have in_b: "{b + HEADER..<b + HEADER + nbytes} \<subseteq> payload s1 b" by (rule taken_payload [OF t n(2)])
    have k: "k \<le> old" "k \<le> nbytes" by (simp_all add: k_def)
    have from_a: "{a + HEADER..<a + HEADER + k} \<subseteq> block s a" using k(1) pos by (auto simp: old_def block_def algebra_simps)
    have to_b: "{b + HEADER..<b + HEADER + k} \<subseteq> block s1 b" using in_b k(2) by (auto simp: payload_def block_def subset_iff)
    have ab: "apart s1 a b" using heapD(10) [OF h1, of a b] a b by auto
    have apart: "b + HEADER + k \<le> a + HEADER \<or> a + HEADER + k \<le> b + HEADER \<or> k = 0"
      using ab from_a to_b size [OF a] unfolding apart_def block_def by fastforce
    have copied: "u_mem s2 x = (if b + HEADER \<le> x \<and> x < b + HEADER + k then u_mem s (a + HEADER + (x - (b + HEADER))) else u_mem s x)" for x
      using copy_bytes_eq [of "b + HEADER" k "a + HEADER"] apart t by (auto simp: s2_def taken_def)
    have region2: "region s2 F1 (insert b A) = region s1 F1 (insert b A)" by (simp add: region_def block_def s2_def)
    have s3: "u_mem s3 = u_mem s2" "u_brk s3 = u_brk s1" "\<And>x. x \<in> insert b A - {a} \<Longrightarrow> u_size s3 x = u_size s1 x"
      "heap B s3 F3 (insert b A - {a})" "region s3 F3 (insert b A - {a}) = region s1 F1 (insert b A)"
      using f(2) region2 unfolding freed_def by (auto simp: s2_def)
    have "ready B s3 F3 (insert b A - {a})" using s3(3,4) r1 by (auto simp: ready_def)
    moreover have "{b + HEADER..<b + HEADER + nbytes} \<subseteq> payload s3 b" using in_b s3(3) [of b] b by (simp add: payload_def)
    moreover have "u_mem s3 (b + HEADER + i) = u_mem s (a + HEADER + i)" if "i < nbytes" "a + HEADER + i \<in> payload s a" for i
    proof -
      have "i < k" using that pos unfolding k_def old_def payload_def by (auto simp: algebra_simps)
      then show ?thesis by (simp add: s3(1) copied)
    qed
    moreover have "block s3 x = block s x \<and> (\<forall>y \<in> block s x. u_mem s3 y = u_mem s y)" if x: "x \<in> A - {a}" for x
    proof -
      have "block s1 x \<inter> block s1 b = {}" "block s1 x = block s x" using taken_disjoint [OF t] x by auto
      moreover have "u_mem s3 y = u_mem s y" if "y \<notin> block s1 b" for y
        using that to_b unfolding s3(1) copied by (auto simp: subset_iff)
      moreover have "block s3 x = block s x"
        by (rule block_same) (use s3(3) [of x] size [of x] x in simp)
      ultimately show ?thesis by blast
    qed
    moreover have "u_brk s \<le> u_brk s3" "region s3 F3 (insert b A - {a}) = region s F A \<union> {u_brk s..<u_brk s3}"
      using s3(2,5) t by (simp_all add: taken_def)
    ultimately show ?thesis using code b(1) by blast
  qed
qed

section \<open>Memory that is cleared\<close>

lemma calloc_ready:
  assumes r: "ready B s F A" and g: "grows sbrk" and n: "num * sz mod 2 ^ 32 \<le> 2 ^ 31 - 32"
  shows "(\<exists>s'. calloc B sbrk num sz s = Some (0, s') \<and> ready B s' F A \<and> u_mem s' = u_mem s \<and> u_brk s' = u_brk s
        \<and> region s' F A = region s F A \<and> (\<forall>x \<in> A. u_size s' x = u_size s x))
    \<or> (\<exists>a s' F'. calloc B sbrk num sz s = Some (a + HEADER, s') \<and> ready B s' F' (insert a A) \<and> a \<notin> A
        \<and> (\<forall>i < num * sz mod 2 ^ 32. a + HEADER + i \<in> payload s' a \<and> u_mem s' (a + HEADER + i) = 0)
        \<and> (\<forall>x \<in> A. block s' x = block s x \<and> (\<forall>y \<in> block s x. u_mem s' y = u_mem s y))
        \<and> u_brk s \<le> u_brk s' \<and> region s' F' (insert a A) = region s F A \<union> {u_brk s..<u_brk s'})"
proof -
  let ?n = "num * sz mod 2 ^ 32"
  from malloc_ready [OF r g n] show ?thesis
  proof (elim disjE exE conjE)
    fix s' assume "malloc B sbrk ?n s = Some (0, s')"
      "ready B s' F A" "u_brk s' = u_brk s" "u_mem s' = u_mem s" "region s' F A = region s F A" "\<forall>x \<in> A. u_size s' x = u_size s x"
    then show ?thesis unfolding calloc_def Let_def by (intro disjI1 exI [of _ s']) simp
  next
    fix a s1 F1
    assume m: "malloc B sbrk ?n s = Some (a + HEADER, s1)" and t: "taken B s F A (units_for ?n) a s1 F1" and r1: "ready B s1 F1 (insert a A)"
    let ?s2 = "s1\<lparr>u_mem := fill (a + HEADER) ?n 0 (u_mem s1)\<rparr>"
    have code: "calloc B sbrk num sz s = Some (a + HEADER, ?s2)" unfolding calloc_def Let_def using m by simp
    have in_a: "{a + HEADER..<a + HEADER + ?n} \<subseteq> payload s1 a" by (rule taken_payload [OF t n])
    have "ready B ?s2 F1 (insert a A)" using r1 by (simp add: ready_def)
    moreover have "a \<notin> A" using t by (simp add: taken_def)
    moreover have "a + HEADER + i \<in> payload ?s2 a \<and> u_mem ?s2 (a + HEADER + i) = 0" if "i < ?n" for i
      using that in_a by (auto simp: payload_def fill_def subset_iff)
    moreover have "block ?s2 x = block s x \<and> (\<forall>y \<in> block s x. u_mem ?s2 y = u_mem s y)" if x: "x \<in> A" for x
    proof -
      have "block s1 x \<inter> block s1 a = {}" "block s1 x = block s x" using taken_disjoint [OF t x] by auto
      moreover have "u_mem ?s2 y = u_mem s y" if "y \<notin> block s1 a" for y
        using that in_a t by (auto simp: subset_iff fill_def payload_def block_def taken_def)
      moreover have "block ?s2 x = block s1 x" by (rule block_same) simp
      ultimately show ?thesis by blast
    qed
    moreover have "u_brk s \<le> u_brk ?s2" "region ?s2 F1 (insert a A) = region s F A \<union> {u_brk s..<u_brk ?s2}"
      using t by (simp_all add: taken_def)
    ultimately show ?thesis using code by blast
  qed
qed

section \<open>Runs\<close>

text \<open>
  A program takes, moves and gives back blocks and writes into the bytes it has. \<open>A\<close> are the blocks it holds. Its requests
  are for at most 2^31 - 32 bytes (for \<open>calloc\<close>: the product as the code computes it, modulo 2^32); beyond that the code goes
  wrong (\<open>malloc_huge\<close> below).
\<close>

inductive ustep :: "nat \<Rightarrow> (int \<Rightarrow> nat \<Rightarrow> nat option) \<Rightarrow> umem \<times> nat set \<Rightarrow> umem \<times> nat set \<Rightarrow> bool" for B sbrk where
  step_malloc: "nbytes \<le> 2 ^ 31 - 32 \<Longrightarrow> malloc B sbrk nbytes s = Some (r, s')
     \<Longrightarrow> ustep B sbrk (s, A) (s', if r = 0 then A else insert (r - HEADER) A)"
| step_calloc: "num * sz mod 2 ^ 32 \<le> 2 ^ 31 - 32 \<Longrightarrow> calloc B sbrk num sz s = Some (r, s')
     \<Longrightarrow> ustep B sbrk (s, A) (s', if r = 0 then A else insert (r - HEADER) A)"
| step_realloc: "a \<in> A \<Longrightarrow> 0 < nbytes \<Longrightarrow> nbytes \<le> 2 ^ 31 - 32 \<Longrightarrow> realloc B sbrk (a + HEADER) nbytes s = Some (r, s')
     \<Longrightarrow> ustep B sbrk (s, A) (s', if r = 0 then A else insert (r - HEADER) A - {a})"
| step_free: "a \<in> A \<Longrightarrow> free (a + HEADER) s = Some s' \<Longrightarrow> ustep B sbrk (s, A) (s', A - {a})"
| step_write: "(\<And>y. y \<notin> \<Union> (payload s ` A) \<Longrightarrow> m y = u_mem s y) \<Longrightarrow> ustep B sbrk (s, A) (s\<lparr>u_mem := m\<rparr>, A)"

text \<open>The memory begins at \<open>b0\<close>.\<close>

definition heap_start :: "nat \<Rightarrow> nat \<Rightarrow> (int \<Rightarrow> nat \<Rightarrow> nat option) \<Rightarrow> umem \<times> nat set \<Rightarrow> bool" where
  "heap_start B b0 sbrk = (\<lambda>(s, A). grows sbrk \<and> 0 < B \<and> B + HEADER \<le> b0 \<and> b0 < 2 ^ 36 \<and> u_freep s = 0 \<and> u_brk s = b0 \<and> A = {})"

definition tidy :: "nat \<Rightarrow> nat \<Rightarrow> (int \<Rightarrow> nat \<Rightarrow> nat option) \<Rightarrow> umem \<times> nat set \<Rightarrow> bool" where
  "tidy B b0 sbrk = (\<lambda>(s, A). grows sbrk \<and> b0 \<le> u_brk s \<and> (\<exists>F. ready B s F A \<and> region s F A = {b0..<u_brk s}))"

lemma tidyI: "grows sbrk \<Longrightarrow> b0 \<le> u_brk s \<Longrightarrow> ready B s F A \<Longrightarrow> region s F A = {b0..<u_brk s} \<Longrightarrow> tidy B b0 sbrk (s, A)"
  by (auto simp: tidy_def)

lemma grown: "(b0 :: nat) \<le> b \<Longrightarrow> b \<le> b' \<Longrightarrow> {b0..<b} \<union> {b..<b'} = {b0..<b'}"
  by (rule ivl_disj_un)

lemma ready_heap: "ready B s F A \<Longrightarrow> a \<in> A \<Longrightarrow> heap B s F A"
  by (auto simp: ready_def)

lemma ready_mem [simp]: "ready B (s\<lparr>u_mem := m\<rparr>) F A = ready B s F A"
  by (simp add: ready_def)

lemma tidy_same:
  "grows sbrk \<Longrightarrow> b0 \<le> u_brk s \<Longrightarrow> region s F A = {b0..<u_brk s} \<Longrightarrow> ready B s' F' A' \<Longrightarrow> u_brk s' = u_brk s \<Longrightarrow>
   region s' F' A' = region s F A \<Longrightarrow> tidy B b0 sbrk (s', A')"
  by (rule tidyI) simp_all

lemma tidy_more:
  assumes "grows sbrk" "b0 \<le> u_brk s" "region s F A = {b0..<u_brk s}" "ready B s' F' A'" "u_brk s \<le> u_brk s'"
    "region s' F' A' = region s F A \<union> {u_brk s..<u_brk s'}"
  shows "tidy B b0 sbrk (s', A')"
  using assms grown by (intro tidyI [where F = F']) auto

lemma ustep_tidy: "ustep B sbrk st st' \<Longrightarrow> tidy B b0 sbrk st \<Longrightarrow> tidy B b0 sbrk st'"
proof (induction rule: ustep.induct)
  case (step_malloc nbytes s r s' A)
  then obtain F where g: "grows sbrk" "b0 \<le> u_brk s" "ready B s F A" "region s F A = {b0..<u_brk s}" by (auto simp: tidy_def)
  from malloc_ready [OF g(3,1) step_malloc(1)] show ?case
  proof (elim disjE exE conjE)
    fix s1 assume 1: "malloc B sbrk nbytes s = Some (0, s1)" "ready B s1 F A" "u_brk s1 = u_brk s" "region s1 F A = region s F A"
    then show ?thesis using step_malloc(2) tidy_same [OF g(1,2,4) 1(2-)] by simp
  next
    fix a s1 F1 assume 1: "malloc B sbrk nbytes s = Some (a + HEADER, s1)" "taken B s F A (units_for nbytes) a s1 F1" "ready B s1 F1 (insert a A)"
    then show ?thesis using step_malloc(2) tidy_more [OF g(1,2,4) 1(3)] by (simp add: taken_def)
  qed
next
  case (step_calloc num sz s r s' A)
  then obtain F where g: "grows sbrk" "b0 \<le> u_brk s" "ready B s F A" "region s F A = {b0..<u_brk s}" by (auto simp: tidy_def)
  from calloc_ready [OF g(3,1) step_calloc(1)] show ?case
  proof (elim disjE exE conjE)
    fix s1 assume 1: "calloc B sbrk num sz s = Some (0, s1)" "ready B s1 F A" "u_brk s1 = u_brk s" "region s1 F A = region s F A"
    then show ?thesis using step_calloc(2) tidy_same [OF g(1,2,4) 1(2-)] by simp
  next
    fix a s1 F1 assume 1: "calloc B sbrk num sz s = Some (a + HEADER, s1)" "ready B s1 F1 (insert a A)" "u_brk s \<le> u_brk s1"
      "region s1 F1 (insert a A) = region s F A \<union> {u_brk s..<u_brk s1}"
    then show ?thesis using step_calloc(2) tidy_more [OF g(1,2,4) 1(2-)] by simp
  qed
next
  case (step_realloc a A nbytes s r s')
  then obtain F where g: "grows sbrk" "b0 \<le> u_brk s" "ready B s F A" "region s F A = {b0..<u_brk s}" by (auto simp: tidy_def)
  from realloc_ready [OF g(3,1) step_realloc(2,3,1)] show ?case
  proof (elim disjE exE conjE)
    fix s1 assume 1: "realloc B sbrk (a + HEADER) nbytes s = Some (0, s1)" "ready B s1 F A" "u_brk s1 = u_brk s" "region s1 F A = region s F A"
    then show ?thesis using step_realloc(4) tidy_same [OF g(1,2,4) 1(2-)] by simp
  next
    fix b s1 F1 assume 1: "realloc B sbrk (a + HEADER) nbytes s = Some (b + HEADER, s1)" "ready B s1 F1 (insert b A - {a})" "u_brk s \<le> u_brk s1"
      "region s1 F1 (insert b A - {a}) = region s F A \<union> {u_brk s..<u_brk s1}"
    then show ?thesis using step_realloc(4) tidy_more [OF g(1,2,4) 1(2-)] by simp
  qed
next
  case (step_free a A s s')
  then obtain F where g: "grows sbrk" "b0 \<le> u_brk s" "ready B s F A" "region s F A = {b0..<u_brk s}" by (auto simp: tidy_def)
  obtain s2 F2 where f: "free (a + HEADER) s = Some s2" "freed B s F A a s2 F2"
    using free_ok [OF ready_heap [OF g(3) step_free(1)] step_free(1)] by blast
  then have "ready B s2 F2 (A - {a})" using g(3) by (auto simp: ready_def freed_def)
  from tidy_same [OF g(1,2,4) this] f step_free(2) show ?case by (simp add: freed_def)
next
  case (step_write s A m)
  then obtain F where g: "grows sbrk" "b0 \<le> u_brk s" "ready B s F A" "region s F A = {b0..<u_brk s}" by (auto simp: tidy_def)
  then show ?case by (intro tidyI [OF g(1), of _ _ _ F]) simp_all
qed

interpretation user_heap: invariant_system "heap_start B b0 sbrk" "ustep B sbrk" "tidy B b0 sbrk" for B b0 sbrk
proof unfold_locales
  fix st assume "heap_start B b0 sbrk st"
  then show "tidy B b0 sbrk st"
    by (cases st) (auto simp: heap_start_def ready_def region_def intro!: tidyI [where F = "[]"])
qed (rule ustep_tidy)

text \<open>
  C6: However a program calls \<open>malloc\<close>, \<open>calloc\<close>, \<open>realloc\<close> and \<open>free\<close> with requests of at most 2^31 - 32 bytes, for
  blocks it holds, and writes into its blocks: the blocks it holds lie in the memory that
  \<open>sbrk\<close> gave, no two share a byte, the list of free blocks (once it exists) is intact, shares no byte with them, and together with
  them covers this memory to the byte, so that nothing is lost; and every next such call returns. Larger requests are not
  covered; for them it is false (\<open>malloc_huge\<close>).
\<close>

theorem malloc_runs:
  assumes "heap_start B b0 sbrk st" "(ustep B sbrk)\<^sup>*\<^sup>* st (s, A)"
  shows "(\<forall>a \<in> A. block s a \<subseteq> {b0..<u_brk s} \<and> (\<forall>b \<in> A. a \<noteq> b \<longrightarrow> block s a \<inter> block s b = {}))
    \<and> (\<exists>F. (u_freep s = 0 \<and> F = [] \<and> A = {} \<or> seg (u_ptr s) B F B \<and> u_freep s \<in> set (B # F)) \<and> region s F A = {b0..<u_brk s}
        \<and> (\<forall>f \<in> set F. \<forall>a \<in> A. block s f \<inter> block s a = {}))
    \<and> (\<forall>n \<le> 2 ^ 31 - 32. malloc B sbrk n s \<noteq> None)
    \<and> (\<forall>num sz. num * sz mod 2 ^ 32 \<le> 2 ^ 31 - 32 \<longrightarrow> calloc B sbrk num sz s \<noteq> None)
    \<and> (\<forall>a \<in> A. free (a + HEADER) s \<noteq> None \<and> (\<forall>n \<le> 2 ^ 31 - 32. realloc B sbrk (a + HEADER) n s \<noteq> None))"
proof -
  have "tidy B b0 sbrk (s, A)" by (rule user_heap.reachable_inv [OF assms])
  then obtain F where g: "grows sbrk" "ready B s F A" "region s F A = {b0..<u_brk s}" by (auto simp: tidy_def)
  have apart: "block s x \<inter> block s a = {}" if "x \<in> set F \<union> A" "a \<in> A" "x \<noteq> a" for x a
    by (rule apart_disjoint) (use heapD(10) [OF ready_heap [OF g(2) that(2)]] that in blast)
  have list: "seg (u_ptr s) B F B \<and> u_freep s \<in> set (B # F) \<and> set F \<inter> A = {}" if "a \<in> A" for a
    using heapD(1,5,6) [OF ready_heap [OF g(2) that]] by blast
  have inside: "block s a \<subseteq> {b0..<u_brk s}" if "a \<in> A" for a using g(3) that by (auto simp: region_def)
  have "free (a + HEADER) s \<noteq> None" if "a \<in> A" for a using free_ok [OF ready_heap [OF g(2) that] that] by auto
  moreover have "malloc B sbrk n s \<noteq> None" if "n \<le> 2 ^ 31 - 32" for n using malloc_ready [OF g(2,1) that] by auto
  moreover have "calloc B sbrk num sz s \<noteq> None" if "num * sz mod 2 ^ 32 \<le> 2 ^ 31 - 32" for num sz
    using calloc_ready [OF g(2,1) that] by auto
  moreover have "realloc B sbrk (a + HEADER) n s \<noteq> None" if "a \<in> A" "n \<le> 2 ^ 31 - 32" for a n
  proof (cases "n = 0")
    case True
    then show ?thesis using free_ok [OF ready_heap [OF g(2) that(1)] that(1)] by (auto simp: realloc_def)
  next
    case False
    then show ?thesis using realloc_ready [OF g(2,1) _ that(2,1)] by auto
  qed
  moreover have "\<exists>F. (u_freep s = 0 \<and> F = [] \<and> A = {} \<or> seg (u_ptr s) B F B \<and> u_freep s \<in> set (B # F)) \<and> region s F A = {b0..<u_brk s}
        \<and> (\<forall>f \<in> set F. \<forall>a \<in> A. block s f \<inter> block s a = {})"
  proof (intro exI [of _ F] conjI ballI g(3))
    show "u_freep s = 0 \<and> F = [] \<and> A = {} \<or> seg (u_ptr s) B F B \<and> u_freep s \<in> set (B # F)"
      using g(2) heapD(1,5,6) [of B s F A] by (auto simp: ready_def)
    show "block s f \<inter> block s a = {}" if "f \<in> set F" "a \<in> A" for f a using apart [of f a] list [OF that(2)] that by blast
  qed
  ultimately show ?thesis using apart inside by blast
qed

text \<open>A program takes ten bytes from a memory that begins at 4096.\<close>

definition plain_sbrk :: "int \<Rightarrow> nat \<Rightarrow> nat option" where
  "plain_sbrk n b = (if 0 \<le> n \<and> int b + n < 2 ^ 36 then Some (b + nat n) else None)"

definition new_heap :: umem where
  "new_heap = \<lparr>u_ptr = (\<lambda>_. 0), u_size = (\<lambda>_. 0), u_freep = 0, u_brk = 4096, u_mem = (\<lambda>_. 0)\<rparr>"

lemma first_malloc:
  assumes "u_freep s = 0" "0 < B" "B + HEADER \<le> u_brk s" "0 < units_for nbytes" "nu = (if units_for nbytes < 4096 then 4096 else units_for nbytes)"
    "nu < 2 ^ 32" "sbrk (i32 (int (nu * HEADER))) (u_brk s) = Some b"
  shows "malloc B sbrk nbytes s = Some (take_block (units_for nbytes) B (u_brk s)
    (s\<lparr>u_ptr := (u_ptr s)(u_brk s := B, B := u_brk s), u_size := (u_size s)(B := 0, u_brk s := nu), u_freep := B, u_brk := b\<rparr>))"
proof -
  let ?n = "units_for nbytes"
  define s1 where "s1 = s\<lparr>u_ptr := (u_ptr s)(B := B), u_size := (u_size s)(B := 0), u_freep := B\<rparr>"
  define s2 where "s2 = s\<lparr>u_ptr := (u_ptr s)(u_brk s := B, B := u_brk s), u_size := (u_size s)(B := 0, u_brk s := nu), u_freep := B, u_brk := b\<rparr>"
  have lt: "?n < 2 ^ 32" "?n \<le> nu" using assms(5,6) by (auto split: if_splits)
  have place: "find_place h (u_brk s) B = Some B" if "h B = B" for h
    using that assms(3) by (subst find_place.simps) simp
  have more: "morecore sbrk ?n s1 = Some (B, s2)"
    using assms(2,3,5-7) place by (simp add: morecore_def Let_def s1_def s2_def free_def set_ptr_def set_size_def fun_upd_twist)
  have "malloc B sbrk nbytes s = malloc_from sbrk ?n B B s1"
    using lt(1) assms(1) by (simp add: malloc_def Let_def units_for_def s1_def set_ptr_def set_size_def)
  also have "\<dots> = malloc_from sbrk ?n B (u_brk s) s2"
    using more assms(2,4) by (subst malloc_from.simps) (simp add: s1_def s2_def)
  also have "\<dots> = Some (take_block ?n B (u_brk s) s2)"
    using lt(2) by (subst malloc_from.simps) (simp add: s2_def)
  finally show ?thesis by (simp only: s2_def)
qed

theorem malloc_runs_witness:
  "\<exists>s a. (ustep 64 plain_sbrk)\<^sup>*\<^sup>* (new_heap, {}) (s, {a}) \<and> block s a \<subseteq> {4096..<u_brk s}"
proof -
  have st: "heap_start 64 4096 plain_sbrk (new_heap, {})"
    by (auto simp: heap_start_def new_heap_def grows_def plain_sbrk_def split: if_splits)
  have "\<exists>r s. malloc 64 plain_sbrk 10 new_heap = Some (r, s) \<and> r \<noteq> 0"
    using first_malloc [of new_heap 64 10 4096 plain_sbrk 69632]
    by (simp add: new_heap_def units_for_def plain_sbrk_def i32_small take_block_def Let_def)
  then obtain r s where m: "malloc 64 plain_sbrk 10 new_heap = Some (r, s)" "r \<noteq> 0" by blast
  have "ustep 64 plain_sbrk (new_heap, {}) (s, {r - HEADER})" using step_malloc [of 10 64 plain_sbrk new_heap r s "{}"] m by simp
  then have run: "(ustep 64 plain_sbrk)\<^sup>*\<^sup>* (new_heap, {}) (s, {r - HEADER})" by (rule r_into_rtranclp)
  from malloc_runs [OF st run] have "block s (r - HEADER) \<subseteq> {4096..<u_brk s}" by blast
  with run show ?thesis by blast
qed

section \<open>Requests the code gets wrong\<close>

text \<open>
  C39: \<open>morecore\<close> hands its number of bytes to \<open>sbrk\<close> as an \<open>int\<close>: when the first thing a program asks for is the
  largest \<open>unsigned int\<close> of bytes, \<open>sbrk\<close> is called for sixteen, and \<open>malloc\<close> returns, as a success, the address where
  the memory of the process ends.
\<close>

theorem malloc_huge:
  assumes "u_freep s = 0" "0 < B" "B + HEADER \<le> u_brk s" "sbrk 16 (u_brk s) = Some (u_brk s + 16)"
  shows "\<exists>s'. malloc B sbrk (2 ^ 32 - 1) s = Some (u_brk s', s') \<and> u_brk s' = u_brk s + 16 \<and> u_size s' (u_brk s) = 2 ^ 28 + 1"
proof -
  have n: "units_for (2 ^ 32 - 1) = 2 ^ 28 + 1" by (simp add: units_for_def)
  have i: "i32 (int ((2 ^ 28 + 1) * HEADER)) = 16" by (simp add: i32_def signed_take_bit_eq_take_bit_shift take_bit_eq_mod)
  have "malloc B sbrk (2 ^ 32 - 1) s = Some (take_block (2 ^ 28 + 1) B (u_brk s)
    (s\<lparr>u_ptr := (u_ptr s)(u_brk s := B, B := u_brk s), u_size := (u_size s)(B := 0, u_brk s := 2 ^ 28 + 1), u_freep := B, u_brk := u_brk s + 16\<rparr>))"
    using first_malloc [of s B "2 ^ 32 - 1" "2 ^ 28 + 1" sbrk "u_brk s + 16"] assms i unfolding n by simp
  then show ?thesis by (simp add: take_block_def set_ptr_def)
qed

theorem malloc_huge_witness:
  "\<exists>s'. malloc 64 plain_sbrk (2 ^ 32 - 1) new_heap = Some (u_brk s', s') \<and> u_brk s' = 4112"
  using malloc_huge [of new_heap 64 plain_sbrk] by (auto simp: new_heap_def plain_sbrk_def)

text \<open>The product of \<open>calloc\<close> wraps around: a request for a multiple of \<open>2 ^ 32\<close> bytes gets a block without any.\<close>

lemma fill_none: "s\<lparr>u_mem := fill p 0 0 (u_mem s)\<rparr> = s"
proof -
  have "fill p 0 0 m = m" for m by (auto simp: fill_def fun_eq_iff)
  then show ?thesis by simp
qed

lemma calloc_overflow:
  assumes "ready B s F A" "grows sbrk" "num * sz mod 2 ^ 32 = 0" "calloc B sbrk num sz s = Some (a + HEADER, s')"
  shows "payload s' a = {}"
proof -
  have c: "calloc B sbrk num sz s = map_option (\<lambda>(p, s1). (p, s1)) (malloc B sbrk 0 s)"
    using assms(3) fill_none by (auto simp: calloc_def Let_def split: option.splits)
  from malloc_ready [OF assms(1,2) le0] show ?thesis
  proof (elim disjE exE conjE)
    fix b s1 F1 assume "malloc B sbrk 0 s = Some (b + HEADER, s1)" "taken B s F A (units_for 0) b s1 F1"
    with c assms(4) show ?thesis by (auto simp: taken_def units_for_def payload_def)
  qed (use c assms(4) in simp_all)
qed

end
