(* ===== verification/Zocker.thy ===== *)
theory Zocker
  imports Prelude
begin

text \<open>
  The container runner, \<open>src/zocker/src/\<close>: reading the command line (\<open>main.c\<close>, \<open>config.c\<close>), making the directory of a
  container (\<open>setup.c\<close>) and starting it (\<open>run.c\<close>). Directories and files are a map from paths to what is there; copies by
  \<open>system\<close> and the calls that change a process are recorded in the order they are made. Which of those fail is an
  argument. A \<open>char\<close> array is the C string in it: \<open>strncpy\<close> never gets more than fits but where the text says so.
\<close>

section \<open>Configuration\<close>

datatype command = NONE | RUN | EXEC

record config =
  subcommand :: command
  cf_name :: string
  cf_command :: string
  cf_base_dir :: string

definition empty_config :: config where
  "empty_config = \<lparr>subcommand = NONE, cf_name = [], cf_command = [], cf_base_dir = []\<rparr>"

abbreviation (input) DEFAULT_NAME :: string where "DEFAULT_NAME \<equiv> ''bib''"
abbreviation (input) ZOCKER_PREFIX :: string where "ZOCKER_PREFIX \<equiv> ''/tmp/zocker''"

text \<open>The loop of \<open>main\<close> over the arguments; \<open>None\<close> is the return with an error.\<close>

fun main_args :: "string list \<Rightarrow> config \<Rightarrow> config option" where
  "main_args [] cfg = Some cfg"
| "main_args (a # args) cfg =
     (if a = ''run'' then main_args args (cfg\<lparr>subcommand := RUN\<rparr>)
      else if a = ''exec'' then main_args args (cfg\<lparr>subcommand := EXEC\<rparr>)
      else if a = ''--name'' then
        (case args of [] \<Rightarrow> None | v # args' \<Rightarrow> main_args args' (cfg\<lparr>cf_name := strncpy_n 63 v\<rparr>))
      else if a = ''--base-dir'' then
        (case args of [] \<Rightarrow> None | v # args' \<Rightarrow> main_args args' (cfg\<lparr>cf_base_dir := strncpy_n 511 v\<rparr>))
      else main_args args (cfg\<lparr>cf_command := strncpy_n 255 a\<rparr>))"

text \<open>The configuration is passed by value: the result is the return value and the local copy.\<close>

definition validate_config :: "config \<Rightarrow> int \<times> config" where
  "validate_config cfg =
     (if subcommand cfg = NONE then (1, cfg)
      else (let cfg = (if cf_name cfg = [] then cfg\<lparr>cf_name := strncpy_n 63 DEFAULT_NAME\<rparr> else cfg) in
            if cf_command cfg = [] then (1, cfg) else (0, cfg)))"

record container =
  ct_id :: string
  ct_command :: string
  ct_base_dir :: string

text \<open>\<open>None\<close>: \<open>base_dir\<close> has more than 255 characters and the copy into 256 bytes has no end.\<close>

definition container_from_config :: "config \<Rightarrow> container option" where
  "container_from_config cfg =
     (if length (cf_base_dir cfg) < 256
      then Some \<lparr>ct_id = cf_name cfg, ct_command = cf_command cfg, ct_base_dir = cf_base_dir cfg\<rparr> else None)"

section \<open>The file system\<close>

datatype node = Dir | File
datatype stat_result = Found node | Not_found | Stat_error

text \<open>What can be seen of a run: commands given to \<open>system\<close> and changes of the process.\<close>

datatype zevent =
    System string
  | Unshare
  | Private_root
  | Chroot string
  | Chdir_root
  | Mount_proc
  | Hostname string
  | Execs string
  | Waits

record world =
  z_nodes :: "string \<Rightarrow> node option"
  z_events :: "zevent list"

definition emit :: "zevent \<Rightarrow> world \<Rightarrow> world" where
  "emit e w = w\<lparr>z_events := z_events w @ [e]\<rparr>"

text \<open>
  \<open>bad\<close> are the paths at which \<open>stat\<close> and \<open>mkdir\<close> fail for a reason of their own. A slash more or less does not make
  another path.
\<close>

fun norm :: "string \<Rightarrow> string" where
  "norm (c # d # s) = (if c = CHR ''/'' \<and> d = CHR ''/'' then norm (d # s) else c # norm (d # s))"
| "norm [c] = (if c = CHR ''/'' then [] else [c])"
| "norm [] = []"

definition stat_path :: "string set \<Rightarrow> world \<Rightarrow> string \<Rightarrow> stat_result" where
  "stat_path bad w p = (if norm p \<in> bad then Stat_error else case z_nodes w (norm p) of None \<Rightarrow> Not_found | Some n \<Rightarrow> Found n)"

definition make_dir :: "string set \<Rightarrow> string \<Rightarrow> world \<Rightarrow> int \<times> world" where
  "make_dir bad p w =
     (if norm p \<in> bad \<or> z_nodes w (norm p) \<noteq> None then (-1, w) else (0, w\<lparr>z_nodes := (z_nodes w)(norm p \<mapsto> Dir)\<rparr>))"

text \<open>\<open>snprintf\<close> cuts what does not fit; its result is only tested for being negative.\<close>

definition snprintf :: "nat \<Rightarrow> string \<Rightarrow> string" where
  "snprintf n s = strncpy_n (n - 1) s"

section \<open>setup.c\<close>

definition setup_zocker_dir :: "string set \<Rightarrow> world \<Rightarrow> int" where
  "setup_zocker_dir bad w =
     (case stat_path bad w (snprintf 64 ZOCKER_PREFIX) of Found n \<Rightarrow> if n = Dir then 0 else 1 | _ \<Rightarrow> 1)"

definition system_cp :: "string \<Rightarrow> string \<Rightarrow> world \<Rightarrow> world" where
  "system_cp what to w = emit (System (snprintf 512 (''cp '' @ what @ '' '' @ to))) w"

definition setup_bin_dir :: "string set \<Rightarrow> string \<Rightarrow> world \<Rightarrow> int \<times> world" where
  "setup_bin_dir bad container_dir w =
     (let bin_dir = snprintf 256 (container_dir @ ''/bin''); (r, w) = make_dir bad bin_dir w in
      if r = -1 then (1, w)
      else (0, system_cp ''/usr/bin/ls'' bin_dir (system_cp ''/usr/bin/sh'' bin_dir w)))"

definition copy_libs :: "string \<Rightarrow> string \<Rightarrow> world \<Rightarrow> world" where
  "copy_libs lib_dir lib64_dir w =
     (let w = system_cp ''/lib/x86_64-linux-gnu/libc.so.6'' lib_dir w;
          w = system_cp ''/lib64/ld-linux-x86-64.so.2'' lib64_dir w;
          w = system_cp ''/lib/x86_64-linux-gnu/libselinux.so.1'' lib_dir w;
          w = system_cp ''/lib/x86_64-linux-gnu/libc.so.6'' lib_dir w;
          w = system_cp ''/lib/x86_64-linux-gnu/libpcre2-8.so.0'' lib_dir w
      in system_cp ''/lib64/ld-linux-x86-64.so.2'' lib64_dir w)"

definition setup_lib_dir :: "string set \<Rightarrow> string \<Rightarrow> world \<Rightarrow> int \<times> world" where
  "setup_lib_dir bad container_dir w =
     (let lib_dir = snprintf 256 (container_dir @ ''/lib''); (r, w) = make_dir bad lib_dir w in
      if r = -1 then (1, w)
      else
        (let lib64_dir = snprintf 256 (container_dir @ ''/lib64''); (r, w) = make_dir bad lib64_dir w in
         if r = -1 then (1, w) else (0, copy_libs lib_dir lib64_dir w)))"

text \<open>The end of \<open>setup_container_dir\<close>, when the directory is there.\<close>

definition fill_dir :: "string set \<Rightarrow> string \<Rightarrow> world \<Rightarrow> int \<times> string \<times> world" where
  "fill_dir bad dir w =
     (case setup_bin_dir bad dir w of (r, w) \<Rightarrow>
        if r \<noteq> 0 then (1, dir, w)
        else (case setup_lib_dir bad dir w of (r, w) \<Rightarrow> if r \<noteq> 0 then (1, dir, w) else (0, dir, w)))"

text \<open>The return value, the name in \<open>container_dir\<close> and the world.\<close>

definition setup_container_dir :: "string set \<Rightarrow> string \<Rightarrow> world \<Rightarrow> int \<times> string \<times> world" where
  "setup_container_dir bad ident w =
     (let dir = snprintf 256 (ZOCKER_PREFIX @ ''/'' @ ident) in
      case stat_path bad w dir of
        Stat_error \<Rightarrow> (1, dir, w)
      | Not_found \<Rightarrow> (case make_dir bad dir w of (r, w) \<Rightarrow> if r = -1 then (1, dir, w) else fill_dir bad dir w)
      | Found n \<Rightarrow> if n = Dir then fill_dir bad dir w else (1, dir, w))"

section \<open>run.c and main.c\<close>

text \<open>The calls of \<open>run_container\<close> that can fail; \<open>Proc_dir\<close> is the \<open>mkdir\<close> of \<open>/proc\<close>.\<close>

datatype zcall = C_unshare | C_fork | C_private | C_chroot | C_chdir | Proc_dir | C_mount_proc | C_hostname

text \<open>
  \<open>fails\<close> are the calls that fail and \<open>has_proc\<close> says whether the new root has a \<open>/proc\<close>. The result is the return value
  of the parent with the world, and the return value of the child where it does not become the command.
\<close>

definition enter_container :: "zcall set \<Rightarrow> bool \<Rightarrow> string \<Rightarrow> container \<Rightarrow> world \<Rightarrow> int option \<times> world" where
  "enter_container fails has_proc dir cont w =
     (if C_private \<in> fails then (Some 1, w)
      else (let w = emit Private_root w in
      if C_chroot \<in> fails then (Some 1, w)
      else (let w = emit (Chroot dir) w in
      if C_chdir \<in> fails then (Some 1, w)
      else (let w = emit Chdir_root w in
      if \<not> has_proc \<and> Proc_dir \<in> fails then (Some 1, w)
      else if C_mount_proc \<in> fails then (Some 1, w)
      else (let w = emit Mount_proc w in
      if C_hostname \<in> fails then (Some 1, w)
      else (let w = emit (Hostname (ct_id cont)) w in
      (None, emit (Execs (ct_command cont)) w)))))))"

definition run_child :: "zcall set \<Rightarrow> bool \<Rightarrow> string set \<Rightarrow> container \<Rightarrow> world \<Rightarrow> int option \<times> world" where
  "run_child fails has_proc bad cont w =
     (if ct_base_dir cont \<noteq> [] then enter_container fails has_proc (strncpy_n 255 (ct_base_dir cont)) cont w
      else case setup_container_dir bad (ct_id cont) w of
        (r, dir, w) \<Rightarrow> if r \<noteq> 0 then (Some 1, w) else enter_container fails has_proc dir cont w)"

definition run_container :: "zcall set \<Rightarrow> bool \<Rightarrow> string set \<Rightarrow> container \<Rightarrow> world \<Rightarrow> int \<times> world" where
  "run_container fails has_proc bad cont w =
     (if C_unshare \<in> fails then (1, w)
      else (let w = emit Unshare w in
            if C_fork \<in> fails then (1, w)
            else (0, emit Waits (snd (run_child fails has_proc bad cont w)))))"

text \<open>\<open>None\<close>: the copy of a base directory that is too long is undefined.\<close>

definition zocker_main :: "zcall set \<Rightarrow> bool \<Rightarrow> string set \<Rightarrow> string list \<Rightarrow> world \<Rightarrow> (int \<times> world) option" where
  "zocker_main fails has_proc bad args w =
     (if setup_zocker_dir bad w \<noteq> 0 then Some (1, w)
      else case main_args args empty_config of
        None \<Rightarrow> Some (1, w)
      | Some cfg \<Rightarrow>
          if fst (validate_config cfg) \<noteq> 0 then Some (1, w)
          else (case subcommand cfg of
                  RUN \<Rightarrow> (case container_from_config cfg of
                            None \<Rightarrow> None
                          | Some cont \<Rightarrow> Some (case run_container fails has_proc bad cont w of (r, w) \<Rightarrow> if r \<noteq> 0 then (1, w) else (0, w)))
                | _ \<Rightarrow> Some (0, w)))"

section \<open>What the runner does\<close>

lemma emit_simps [simp]: "z_events (emit e w) = z_events w @ [e]" "z_nodes (emit e w) = z_nodes w"
  by (simp_all add: emit_def)

lemma make_dir_events [simp]: "z_events (snd (make_dir bad p w)) = z_events w"
  by (simp add: make_dir_def)

lemma make_dir_0: "make_dir bad p w = (0, w') \<Longrightarrow> z_nodes w' (norm p) = Some Dir \<and> z_nodes w (norm p) = None"
  by (auto simp: make_dir_def split: if_splits)

lemma make_dir_mono: "z_nodes w q \<noteq> None \<Longrightarrow> z_nodes (snd (make_dir bad p w)) q = z_nodes w q"
  by (auto simp: make_dir_def)

lemma system_cp_nodes [simp]: "z_nodes (system_cp a b w) = z_nodes w"
  by (simp add: system_cp_def)

text \<open>The commands that fill the directory of a container, and how far a run may get with them.\<close>

definition copy_of :: "string \<Rightarrow> string \<Rightarrow> zevent" where
  "copy_of what to = System (snprintf 512 (''cp '' @ what @ '' '' @ to))"

definition bin_copies :: "string \<Rightarrow> zevent list" where
  "bin_copies dir = map (\<lambda>f. copy_of f (snprintf 256 (dir @ ''/bin''))) [''/usr/bin/sh'', ''/usr/bin/ls'']"

definition lib_copies :: "string \<Rightarrow> zevent list" where
  "lib_copies dir =
     [copy_of ''/lib/x86_64-linux-gnu/libc.so.6'' (snprintf 256 (dir @ ''/lib'')),
      copy_of ''/lib64/ld-linux-x86-64.so.2'' (snprintf 256 (dir @ ''/lib64'')),
      copy_of ''/lib/x86_64-linux-gnu/libselinux.so.1'' (snprintf 256 (dir @ ''/lib'')),
      copy_of ''/lib/x86_64-linux-gnu/libc.so.6'' (snprintf 256 (dir @ ''/lib'')),
      copy_of ''/lib/x86_64-linux-gnu/libpcre2-8.so.0'' (snprintf 256 (dir @ ''/lib'')),
      copy_of ''/lib64/ld-linux-x86-64.so.2'' (snprintf 256 (dir @ ''/lib64''))]"

definition copies_into :: "string \<Rightarrow> zevent list" where
  "copies_into dir = bin_copies dir @ lib_copies dir"

lemma system_cp_events [simp]: "z_events (system_cp a b w) = z_events w @ [copy_of a b]"
  by (simp only: system_cp_def copy_of_def emit_simps)

lemma bin_copies_events:
  "z_events (system_cp ''/usr/bin/ls'' (snprintf 256 (d @ ''/bin'')) (system_cp ''/usr/bin/sh'' (snprintf 256 (d @ ''/bin'')) w))
     = z_events w @ bin_copies d"
  by (simp only: system_cp_events bin_copies_def list.map append_assoc append.simps)

lemma lib_copies_events:
  "z_events (copy_libs (snprintf 256 (d @ ''/lib'')) (snprintf 256 (d @ ''/lib64'')) w) = z_events w @ lib_copies d"
  by (simp only: copy_libs_def Let_def system_cp_events lib_copies_def append_assoc append.simps)

lemma make_dir_result: "make_dir bad p w = (r, w') \<Longrightarrow> r = 0 \<or> r = -1 \<and> w' = w"
  by (auto simp: make_dir_def split: if_splits)

lemma setup_bin_cases:
  obtains (fails) "setup_bin_dir bad d w = (1, w)"
  | (made) w1 where "make_dir bad (snprintf 256 (d @ ''/bin'')) w = (0, w1)"
      "setup_bin_dir bad d w = (0, system_cp ''/usr/bin/ls'' (snprintf 256 (d @ ''/bin''))
         (system_cp ''/usr/bin/sh'' (snprintf 256 (d @ ''/bin'')) w1))"
proof -
  obtain r w1 where m: "make_dir bad (snprintf 256 (d @ ''/bin'')) w = (r, w1)" by force
  have z: "(0 :: int) = -1 \<longleftrightarrow> False" by simp
  have b: "setup_bin_dir bad d w = (if r = -1 then (1, w1) else (0, system_cp ''/usr/bin/ls'' (snprintf 256 (d @ ''/bin''))
         (system_cp ''/usr/bin/sh'' (snprintf 256 (d @ ''/bin'')) w1)))"
    unfolding setup_bin_dir_def Let_def m by (simp only: prod.case)
  from make_dir_result [OF m] show thesis
  proof
    assume "r = 0"
    with m b show thesis by (intro made [of w1]) (simp_all only: z if_False)
  next
    assume "r = -1 \<and> w1 = w"
    with b show thesis by (intro fails) (simp only: simp_thms if_True)
  qed
qed

lemma setup_bin_fails:
  assumes "z_nodes w (norm (snprintf 256 (d @ ''/bin''))) \<noteq> None"
  shows "setup_bin_dir bad d w = (1, w)"
proof -
  have "make_dir bad (snprintf 256 (d @ ''/bin'')) w = (-1, w)" unfolding make_dir_def by (rule if_P) (use assms in blast)
  then show ?thesis unfolding setup_bin_dir_def Let_def by (simp only: prod.case simp_thms if_True)
qed

lemma setup_lib_cases:
  obtains (fails) w1 where "setup_lib_dir bad d w = (1, w1)" "z_events w1 = z_events w" "\<forall>q. z_nodes w q \<noteq> None \<longrightarrow> z_nodes w1 q \<noteq> None"
  | (made) w1 where "setup_lib_dir bad d w = (0, w1)" "z_events w1 = z_events w @ lib_copies d" "\<forall>q. z_nodes w q \<noteq> None \<longrightarrow> z_nodes w1 q \<noteq> None"
proof -
  let ?lib = "snprintf 256 (d @ ''/lib'')" and ?lib64 = "snprintf 256 (d @ ''/lib64'')"
  obtain r1 w1 where 1: "make_dir bad ?lib w = (r1, w1)" by force
  obtain r2 w2 where 2: "make_dir bad ?lib64 w1 = (r2, w2)" by force
  have keep: "\<forall>q. z_nodes w q \<noteq> None \<longrightarrow> z_nodes w' q \<noteq> None" if "make_dir bad p w = (r, w')" for bad p w r w'
    using make_dir_mono [of w _ bad p] that by auto
  have e1: "z_events w1 = z_events w" using make_dir_events [of bad ?lib w] unfolding 1 by (simp only: prod.sel)
  have e2: "z_events w2 = z_events w" using make_dir_events [of bad ?lib64 w1] e1 unfolding 2 by (simp only: prod.sel)
  have e3: "z_events (copy_libs ?lib ?lib64 w2) = z_events w @ lib_copies d" unfolding lib_copies_events e2 ..
  have n3: "z_nodes (copy_libs ?lib ?lib64 w2) = z_nodes w2" unfolding copy_libs_def Let_def by (simp only: system_cp_nodes)
  have lib: "setup_lib_dir bad d w = (if r1 = -1 then (1, w1) else if r2 = -1 then (1, w2) else (0, copy_libs ?lib ?lib64 w2))"
    unfolding setup_lib_dir_def Let_def 1 by (simp only: prod.case 2)
  consider "r1 = -1" | "r1 \<noteq> -1" "r2 = -1" | "r1 \<noteq> -1" "r2 \<noteq> -1" by blast
  then show thesis
  proof cases
    case 1
    with lib fails [OF _ e1 keep [OF \<open>make_dir bad ?lib w = (r1, w1)\<close>]] show thesis by simp
  next
    case 2
    with lib fails [OF _ e2] keep [OF \<open>make_dir bad ?lib w = (r1, w1)\<close>] keep [OF \<open>make_dir bad ?lib64 w1 = (r2, w2)\<close>] show thesis by auto
  next
    case 3
    with lib made [OF _ e3] n3 keep [OF \<open>make_dir bad ?lib w = (r1, w1)\<close>] keep [OF \<open>make_dir bad ?lib64 w1 = (r2, w2)\<close>] show thesis by auto
  qed
qed

text \<open>
  Filling a directory runs the copies: all of them when it succeeds, none or those into \<open>bin\<close> when it fails. It succeeds only once.
\<close>

definition copied :: "string \<Rightarrow> bool \<Rightarrow> world \<Rightarrow> world \<Rightarrow> bool" where
  "copied dir done w w' \<longleftrightarrow> (\<exists>cps. z_events w' = z_events w @ cps
     \<and> (if done then cps = copies_into dir else cps = [] \<or> cps = bin_copies dir))"

lemma fill_dir_once:
  assumes "fill_dir bad dir w = (r, dir', w1)"
  shows "dir' = dir \<and> copied dir (r = 0) w w1 \<and> (\<forall>q. z_nodes w q \<noteq> None \<longrightarrow> z_nodes w1 q \<noteq> None)
    \<and> (r = 0 \<longrightarrow> fill_dir bad dir w1 = (1, dir, w1))"
proof (cases rule: setup_bin_cases [of bad dir w])
  case fails
  with assms show ?thesis by (simp add: fill_dir_def copied_def)
next
  case (made w2)
  let ?bin = "snprintf 256 (dir @ ''/bin'')"
  let ?w3 = "system_cp ''/usr/bin/ls'' ?bin (system_cp ''/usr/bin/sh'' ?bin w2)"
  have e: "z_events ?w3 = z_events w @ bin_copies dir"
    using make_dir_events [of bad ?bin w] unfolding bin_copies_events made(1) by (simp only: prod.sel)
  have bin: "z_nodes ?w3 (norm ?bin) \<noteq> None" using make_dir_0 [OF made(1)] by (simp only: system_cp_nodes) simp
  have keep: "\<forall>q. z_nodes w q \<noteq> None \<longrightarrow> z_nodes ?w3 q \<noteq> None"
    using make_dir_mono [of w _ bad ?bin] made(1) by (simp only: system_cp_nodes) auto
  have fill: "fill_dir bad dir w = (case setup_lib_dir bad dir ?w3 of (r, w) \<Rightarrow> if r \<noteq> 0 then (1, dir, w) else (0, dir, w))"
    unfolding fill_dir_def made(2) by (simp only: prod.case simp_thms if_False)
  show ?thesis
  proof (cases rule: setup_lib_cases [of bad dir ?w3])
    case (fails w4)
    then have "copied dir False w w4" unfolding copied_def e by simp
    with assms fill fails(1,3) keep show ?thesis by auto
  next
    case (made w4)
    have "setup_bin_dir bad dir w4 = (1, w4)" using made(3) bin by (intro setup_bin_fails) blast
    then have "fill_dir bad dir w4 = (1, dir, w4)" by (simp add: fill_dir_def)
    moreover have "copied dir True w w4" using made(2) unfolding copied_def e copies_into_def by simp
    ultimately show ?thesis using assms fill keep made(1,3) by auto
  qed
qed


section \<open>Properties\<close>





text \<open>When \<open>chroot\<close> fails the command is not started; when nothing fails it is, in the directory given.\<close>

definition empty_world :: world where
  "empty_world = \<lparr>z_nodes = Map.empty, z_events = []\<rparr>"


text \<open>
  C40: A directory that has been made for a container cannot be used again: every further run of the container of the same
  name fails in \<open>setup_bin_dir\<close>, because \<open>mkdir\<close> finds its \<open>bin\<close> there.
\<close>

theorem setup_only_once:
  assumes "setup_container_dir bad ident w = (0, dir, w1)"
  shows "setup_container_dir bad ident w1 = (1, dir, w1)"
proof -
  let ?d = "snprintf 256 (ZOCKER_PREFIX @ ''/'' @ ident)"
  obtain r1 w0 where m: "make_dir bad ?d w = (r1, w0)" by force
  have good: "norm ?d \<notin> bad"
    using assms unfolding setup_container_dir_def Let_def by (auto simp: stat_path_def split: if_splits)
  have "\<exists>v. fill_dir bad ?d v = (0, dir, w1) \<and> z_nodes v (norm ?d) = Some Dir"
  proof (cases "stat_path bad w ?d")
    case (Found n)
    with assms have "n = Dir" "fill_dir bad ?d w = (0, dir, w1)"
      unfolding setup_container_dir_def Let_def by (auto split: if_splits)
    moreover have "z_nodes w (norm ?d) = Some n" using Found good by (simp add: stat_path_def split: option.splits)
    ultimately show ?thesis by blast
  next
    case Not_found
    with assms m have "r1 \<noteq> -1" "fill_dir bad ?d w0 = (0, dir, w1)"
      unfolding setup_container_dir_def Let_def m by (auto split: if_splits)
    moreover have "z_nodes w0 (norm ?d) = Some Dir" using make_dir_result [OF m] make_dir_0 m calculation(1) by blast
    ultimately show ?thesis by blast
  next
    case Stat_error
    with good show ?thesis by (simp add: stat_path_def split: option.splits if_splits)
  qed
  then obtain v where v: "fill_dir bad ?d v = (0, dir, w1)" "z_nodes v (norm ?d) = Some Dir" by blast
  from fill_dir_once [OF v(1)] have once: "dir = ?d" "fill_dir bad ?d w1 = (1, ?d, w1)" by auto
  obtain n where n: "z_nodes w1 (norm ?d) = Some n" using fill_dir_once [OF v(1)] v(2) by fastforce
  then have "stat_path bad w1 ?d = Found n" using good by (simp add: stat_path_def)
  then have "setup_container_dir bad ident w1 = (if n = Dir then fill_dir bad ?d w1 else (1, ?d, w1))"
    unfolding setup_container_dir_def Let_def by (simp only: stat_result.case)
  with once show ?thesis by simp
qed

theorem setup_only_once_witness:
  "\<exists>dir w1. setup_container_dir {} ''a'' empty_world = (0, dir, w1) \<and> setup_container_dir {} ''a'' w1 = (1, dir, w1)"
proof -
  obtain dir w1 where "setup_container_dir {} ''a'' empty_world = (0, dir, w1)"
    by (simp add: setup_container_dir_def Let_def stat_path_def make_dir_def fill_dir_def setup_bin_dir_def setup_lib_dir_def
      snprintf_def empty_world_def strncpy_n_def copy_libs_def)
  with setup_only_once [OF this] show ?thesis by blast
qed

text \<open>The default name is put into a copy of the configuration: a container without a name has the empty one.\<close>

lemma default_name_lost: "fst (validate_config cfg) = 0 \<Longrightarrow> container_from_config cfg = Some c \<Longrightarrow> ct_id c = cf_name cfg"
  by (auto simp: container_from_config_def split: if_splits)

end
