(* ===== verification/Spec2Isabelle.thy ===== *)
theory Spec2Isabelle
  imports MyFS_CLI_Theorems Rng Proc_Theorems Spin Kalloc KString Pipe Shell_Theorems Grep Log_Theorems Fs_Data Fs_Table Fs_Paths Vm_Theorems Sysfile_Theorems Vm_Fork Virtio_Theorems Console Ulib Umalloc_Theorems Zocker
begin

text \<open>
  Verification development for three operating-system projects in C: a user-level file system
  (\<open>src/File-System/\<close>, below MyFS), the teaching kernel xv6 for RISC-V with a lottery scheduler, a random number
  generator and user programs added to it (\<open>src/xv6-riscv/\<close>), and a container runner (\<open>src/zocker/\<close>).

  \<^bold>\<open>How the code is modelled.\<close> A C function is a HOL function from its arguments and the state it reads to its
  result and the new state; a struct is a record, an enum or a union with a tag a datatype, a fixed array a list or a function
  from indices. An error return is the number the code returns; a panic, an undefined step or a sleep is a constructor of
  the result (\<open>Panics\<close>, \<open>VPanic\<close>, \<open>None\<close>, \<open>Asleep\<close>). Integers that can wrap are words or are reduced with
  \<open>i32\<close> or \<open>mod\<close>. A function that sleeps is cut there: what it does up to the sleep is one step of a state machine. Where a
  component stands on another, the model calls the model of the other, not a specification of it.

  \<^bold>\<open>Shared theories.\<close> \<open>Prelude\<close>: integers, C strings, table searches, little-endian bytes. \<open>Interfaces\<close>: the locales
  \<open>allocator\<close> (blocks of MyFS, blocks of the kernel's file system, pages of memory), \<open>canonical_allocator\<close>,
  \<open>bounded_queue\<close> (pipes, the ring of the disk) and \<open>invariant_system\<close> (every state machine below); each is interpreted
  where its operations are defined. \<open>Ring_Buffers\<close>: rings with two counters that wrap around.

  \<^bold>\<open>MyFS\<close> (\<open>filesystem.c\<close>, \<open>cli.c\<close>). \<open>MyFS_Types\<close> has the structs and the static variables as one record with the disk
  image as a list of bytes; \<open>MyFS_FreeList\<close> the list of free regions with its splitting and merging; \<open>MyFS_Metadata\<close> the
  image: encoding, saving, loading, start and end; \<open>MyFS_Users\<close>, \<open>MyFS_Files\<close>, \<open>MyFS_Access\<close> the operations; \<open>MyFS_CLI\<close> the
  shell, command by command. \<open>MyFS_Invariant\<close>, \<open>MyFS_Accounts\<close>, \<open>MyFS_Reachable\<close> prove that blocks are free or owned once
  and that accounts are in order in every state the interface reaches; \<open>MyFS_Theorems\<close>, \<open>MyFS_Remount\<close>, \<open>MyFS_Data\<close>,
  \<open>MyFS_Protection\<close>, \<open>MyFS_CLI_Theorems\<close> what holds of files, of a restart, of data and of permissions. Growing a file that
  has blocks is only safe when the next blocks are free, and \<open>shrink\<close> asks for no permission: both are theorems.

  \<^bold>\<open>Processes.\<close> \<open>Rng\<close> (\<open>rng.c\<close>, \<open>goldfish.c\<close>; \<open>rand_int\<close> is a draw that no other overlaps, the parts of overlapping draws
  are \<open>rand_read\<close>, \<open>store0\<close>, \<open>store1\<close>); \<open>Proc\<close>, \<open>Proc_Theorems\<close> (the process table of \<open>proc.c\<close>: scheduler with its lottery,
  sleep and wakeup, kill, exit and wait; that a CPU runs a process exactly when it is \<open>RUNNING\<close>, for every interleaving of
  the slot by slot scans of the schedulers (\<open>lottery_slot\<close>); fairness of the draw on a table that does not change during
  the scan (\<open>scheduler\<close> is the whole turn on such a table); no lost exit); \<open>Spin\<close> (\<open>spinlock.c\<close>, \<open>sleeplock.c\<close>: mutual exclusion with nested interrupt state); \<open>Pipe\<close> (\<open>pipe.c\<close>: first in,
  first out under any interleaving, and nobody sleeps on a pipe that is ready, except when a writer was killed between two
  bytes: then the code forgets to wake the readers, \<open>killed_writer_wakes_nobody\<close>).

  \<^bold>\<open>Memory.\<close> \<open>Kalloc\<close> (\<open>kalloc.c\<close>: the free list threaded through the pages); \<open>KString\<close> (\<open>string.c\<close>); \<open>Vm\<close> (\<open>vm.c\<close> and the
  functions of \<open>proc.c\<close> on address spaces) on page tables that lie in the same memory, with \<open>Vm_Tables\<close> (the tree a root
  stands for), \<open>Vm_Maps\<close> (mapping and unmapping), \<open>Vm_Pages\<close> and \<open>Vm_User\<close> (the memory a process sees), \<open>Vm_Copy\<close>, \<open>Vm_Theorems\<close>
  (copies with pages faulted in) and \<open>Vm_Fork\<close> (\<open>uvmcopy\<close>). The invariant \<open>space_ok\<close> says that free pages, tables and
  mapped pages are all different, so that no operation leaks a page.

  \<^bold>\<open>Disk and files.\<close> \<open>Virtio\<close>, \<open>Virtio_Theorems\<close> (\<open>virtio_disk.c\<close>: descriptors and rings shared with a device, an argument, that takes and
  answers requests in any order, with success or failure); \<open>Bio\<close> (\<open>bio.c\<close>: thirty buffers in a linked list, with the references of
  holders, waiters and pins counted); \<open>Log\<close>, \<open>Log_Theorems\<close> (\<open>log.c\<close> with every
  write to the disk recorded: atomic commits, recovery after a crash at any write); \<open>Fs\<close> (\<open>fs.c\<close>), proved in layers:
  \<open>Fs_Blocks\<close> (a transaction as an abstract disk), \<open>Fs_Files\<close> and \<open>Fs_Data\<close> (contents), \<open>Fs_Table\<close> (inodes in memory),
  \<open>Fs_Paths\<close>; \<open>Sysfile\<close> (\<open>file.c\<close>, \<open>sysfile.c\<close>) with \<open>Sysfile_Refs\<close>, \<open>Sysfile_Files\<close> and \<open>Sysfile_Theorems\<close>: no call, on no
  path, loses or doubles a reference.

  \<^bold>\<open>Console and user programs.\<close> \<open>Console\<close> (\<open>console.c\<close>: the line discipline on its ring); \<open>Printf\<close> (both \<open>printf.c\<close>);
  \<open>Ulib\<close> (\<open>ulib.c\<close>); \<open>Umalloc\<close>, \<open>Umalloc_Theorems\<close> (\<open>umalloc.c\<close>: the ring of free blocks, no block overlaps another in any
  run of a program with requests below 2 GB, and no byte is lost); \<open>Shell\<close>, \<open>Shell_Theorems\<close> (\<open>sh.c\<close>); \<open>Grep\<close> (\<open>grep.c\<close>).

  \<^bold>\<open>Bounds.\<close> The parser of the shell carries fuel, four steps for a character and four more, and is proved never to use
  it up; \<open>freewalk\<close> carries fuel for the three levels a page table has, and running out is a result of its own (\<open>VDeep\<close>) that
  the theorems exclude. Loops over strings and over the list of the user's allocator are partial functions, and that they
  return is proved. Everything else terminates by a measure. Tables have the sizes of the code (\<open>NPROC\<close>, \<open>NFILE\<close>, \<open>NBUF\<close>,
  \<open>MAX_FILES\<close>).

  \<^bold>\<open>Arguments.\<close> What is not in \<open>src/\<close> or lies outside a component is an argument: the clock, how much a \<open>read\<close> delivers, copies to
  and from user memory in \<open>Fs\<close>, \<open>Sysfile\<close> and \<open>Console\<close>, the disk device of \<open>Virtio_Theorems\<close> (\<open>honest\<close>: a status 0 means that the
  transfer was done), \<open>sbrk\<close> of \<open>Umalloc\<close>, \<open>fork\<close> in the shell.

  \<^bold>\<open>Not modelled.\<close> Assembly (\<open>entry.S\<close>, \<open>swtch.S\<close>, \<open>trampoline.S\<close>, \<open>kernelvec.S\<close>) and the accessors of control registers: there
  is no C to translate. \<open>start.c\<close>, \<open>main.c\<close>, \<open>plic.c\<close>, \<open>uartinit\<close> and the handshake of \<open>virtio_disk_init\<close> write device registers in a
  fixed order. \<open>trap.c\<close> and \<open>syscall.c\<close> dispatch between a process and the kernel through the trap frame; \<open>exec.c\<close>, \<open>allocproc\<close> and
  \<open>kfork\<close> join components that are modelled one by one (\<open>uvmcopy\<close>, \<open>filedup\<close>, \<open>idup\<close>, \<open>proc_pagetable\<close>, \<open>readi\<close>). Weak memory
  is not modelled: locks are atomic and every step under a lock is atomic. The tests (\<open>usertests.c\<close>, \<open>grind.c\<close>, \<open>memtest.c\<close> and
  others) only make system calls; \<open>uthread.c\<close> is a stub.
\<close>

end
